(* ===== verification/Rococo_Prelude.thy ===== *)
theory Rococo_Prelude
  imports Main "HOL-Library.Word" "HOL-Library.Multiset"
begin

text \<open>
  Shared vocabulary of the development: the machine integers of the C++ code, the error values that
  stand for a failed \<^verbatim>\<open>verify\<close> or an invalid pointer, and models of the standard containers the
  code uses (\<^verbatim>\<open>std::map\<close> and \<^verbatim>\<open>std::set\<close> as key-ordered lists, which is the order the code
  iterates them in). The containers come with their contracts as locales, and an interpretation of
  each contract on the model, so that the components reason with the contract.
\<close>

unbundle bit_operations_syntax

section \<open>Machine integers, pointers and errors\<close>

type_synonym int8 = "8 word"
type_synonym i32 = "32 word"
type_synonym i64 = "64 word"
type_synonym uint32 = "32 word"
type_synonym uint64 = "64 word"

text \<open>A pointer is the index of a heap cell; a null pointer is \<open>None\<close> of \<open>vptr option\<close>.\<close>

type_synonym vptr = nat

datatype err =
    VerifyFailed    \<comment> \<open>the macro \<^verbatim>\<open>verify(cond)\<close> aborts the process\<close>
  | BadPointer      \<comment> \<open>a null or dangling pointer is dereferenced\<close>
  | OutOfRange      \<comment> \<open>a vector is indexed outside its bounds\<close>
  | OutOfFuel       \<comment> \<open>the bound on a loop of the model is used up\<close>

type_synonym 'a res = "err + 'a"

named_theorems omap_simps \<open>lookup after an update of an ordered map\<close>
named_theorems wf_intros \<open>preservation of the well-formedness invariants\<close>

definition verify :: "bool \<Rightarrow> 'a res \<Rightarrow> 'a res" where
  "verify b k = (if b then k else Inl VerifyFailed)"

definition rbind :: "'a res \<Rightarrow> ('a \<Rightarrow> 'b res) \<Rightarrow> 'b res" where
  "rbind m f = (case m of Inl e \<Rightarrow> Inl e | Inr x \<Rightarrow> f x)"

lemma rbind_simps [simp]: "rbind (Inl e) f = Inl e" "rbind (Inr x) f = f x"
  by (simp_all add: rbind_def)

lemma rbind_eq_Inr [simp]: "rbind m f = Inr y \<longleftrightarrow> (\<exists>x. m = Inr x \<and> f x = Inr y)"
  by (cases m) simp_all

lemma verify_eq_Inr [simp]: "verify b k = Inr y \<longleftrightarrow> b \<and> k = Inr y"
  by (simp add: verify_def)

lemma verify_True [simp]: "verify True k = k"
  by (simp add: verify_def)

lemma verify_False [simp]: "verify False k = Inl VerifyFailed"
  by (simp add: verify_def)

section \<open>std::map: association lists ordered by key\<close>

type_synonym ('k, 'v) omap = "('k \<times> 'v) list"

definition om_inv :: "('k::linorder, 'v) omap \<Rightarrow> bool" where
  "om_inv m \<longleftrightarrow> sorted_wrt (<) (map fst m)"

definition om_get :: "('k, 'v) omap \<Rightarrow> 'k \<Rightarrow> 'v option" where
  "om_get m k = map_of m k"

fun om_put :: "'k::linorder \<Rightarrow> 'v \<Rightarrow> ('k, 'v) omap \<Rightarrow> ('k, 'v) omap" where
  "om_put k v [] = [(k, v)]"
| "om_put k v (kv # m) =
     (if fst kv = k then (k, v) # m
      else if k < fst kv then (k, v) # kv # m
      else kv # om_put k v m)"

definition om_del :: "'k \<Rightarrow> ('k, 'v) omap \<Rightarrow> ('k, 'v) omap" where
  "om_del k m = filter (\<lambda>kv. fst kv \<noteq> k) m"

definition om_keys :: "('k, 'v) omap \<Rightarrow> 'k list" where
  "om_keys m = map fst m"

lemma om_get_Nil [simp]: "om_get [] k = None"
  by (simp add: om_get_def)

lemma om_put_get: "om_get (om_put k v m) k' = (if k' = k then Some v else om_get m k')"
  by (induction m) (auto simp: om_get_def)

lemma om_put_keys_set: "fst ` set (om_put k v m) = insert k (fst ` set m)"
  by (induction m) auto

lemma om_put_inv: "om_inv m \<Longrightarrow> om_inv (om_put k v m)"
proof (induction m)
  case Nil
  then show ?case by (simp add: om_inv_def)
next
  case (Cons kv m)
  then have "om_inv (om_put k v m)" by (simp add: om_inv_def)
  with Cons.prems om_put_keys_set [of k v m] show ?case
    by (force simp: om_inv_def)
qed

lemma om_inv_Nil [simp]: "om_inv []"
  by (simp add: om_inv_def)

lemma om_inv_distinct: "om_inv m \<Longrightarrow> distinct (map fst m)"
  by (simp add: om_inv_def strict_sorted_iff)

lemma om_get_None_iff: "om_get m k = None \<longleftrightarrow> k \<notin> fst ` set m"
  by (simp add: om_get_def map_of_eq_None_iff)

lemma om_get_SomeD: "om_get m k = Some v \<Longrightarrow> (k, v) \<in> set m"
  by (simp add: om_get_def map_of_SomeD)

lemma om_get_Some_iff: "om_inv m \<Longrightarrow> om_get m k = Some v \<longleftrightarrow> (k, v) \<in> set m"
  by (simp add: om_get_def om_inv_distinct)

lemma set_om_keys: "set (om_keys m) = {k. om_get m k \<noteq> None}"
  by (auto simp: om_keys_def om_get_None_iff)

lemma om_keys_sorted: "om_inv m \<Longrightarrow> sorted_wrt (<) (om_keys m)"
  by (simp add: om_inv_def om_keys_def)

lemma om_del_get: "om_get (om_del k m) k' = (if k' = k then None else om_get m k')"
  by (induction m) (auto simp: om_get_def om_del_def)

lemma om_del_inv: "om_inv m \<Longrightarrow> om_inv (om_del k m)"
  unfolding om_inv_def om_del_def
  by (induction m) auto

text \<open>The contract of an ordered map, and what its clients derive from it.\<close>

locale ordered_map =
  fixes empty :: 'm
    and put :: "'k::linorder \<Rightarrow> 'v \<Rightarrow> 'm \<Rightarrow> 'm"
    and del :: "'k \<Rightarrow> 'm \<Rightarrow> 'm"
    and get :: "'m \<Rightarrow> 'k \<Rightarrow> 'v option"
    and keys :: "'m \<Rightarrow> 'k list"
    and inv :: "'m \<Rightarrow> bool"
  assumes get_empty: "get empty k = None"
    and get_put: "get (put k v m) k' = (if k' = k then Some v else get m k')"
    and get_del: "get (del k m) k' = (if k' = k then None else get m k')"
    and keys_get: "set (keys m) = {k. get m k \<noteq> None}"
    and keys_sorted: "inv m \<Longrightarrow> sorted_wrt (<) (keys m)"
    and inv_empty: "inv empty"
    and inv_put: "inv m \<Longrightarrow> inv (put k v m)"
    and inv_del: "inv m \<Longrightarrow> inv (del k m)"
begin

lemma keys_put: "set (keys (put k v m)) = insert k (set (keys m))"
  by (auto simp: keys_get get_put)

lemma keys_del: "set (keys (del k m)) = set (keys m) - {k}"
  by (auto simp: keys_get get_del)

lemma keys_distinct: "inv m \<Longrightarrow> distinct (keys m)"
  using keys_sorted by (simp add: strict_sorted_iff)

lemma get_fold_put:
  "get (fold (\<lambda>(k, v). put k v) kvs m) k' =
     (case map_of (rev kvs) k' of None \<Rightarrow> get m k' | Some v \<Rightarrow> Some v)"
  by (induction kvs arbitrary: m)
    (auto simp: get_put map_add_def map_of_append split: option.splits)

lemma inv_fold_put: "inv m \<Longrightarrow> inv (fold (\<lambda>(k, v). put k v) kvs m)"
  by (induction kvs arbitrary: m) (auto simp: inv_put)

end

interpretation om: ordered_map "[]" om_put om_del om_get om_keys om_inv
  by unfold_locales
    (simp_all add: om_put_get om_del_get set_om_keys om_put_inv om_del_inv om_keys_sorted)

lemmas [simp, omap_simps] = om_put_get om_del_get om.keys_put om.keys_del
lemmas [simp, intro] = om_put_inv om_del_inv

section \<open>std::set: ordered lists of distinct elements\<close>

fun os_ins :: "'a::linorder \<Rightarrow> 'a list \<Rightarrow> 'a list" where
  "os_ins x [] = [x]"
| "os_ins x (y # ys) = (if x = y then y # ys else if x < y then x # y # ys else y # os_ins x ys)"

definition os_of :: "'a::linorder list \<Rightarrow> 'a list" where
  "os_of xs = fold os_ins xs []"

definition os_erase :: "'a \<Rightarrow> 'a list \<Rightarrow> 'a list" where
  "os_erase x xs = filter (\<lambda>y. y \<noteq> x) xs"

lemma set_os_ins [simp]: "set (os_ins x xs) = insert x (set xs)"
  by (induction xs) auto

lemma sorted_os_ins [simp, intro]: "sorted_wrt (<) xs \<Longrightarrow> sorted_wrt (<) (os_ins x xs)"
  by (induction xs) auto

lemma set_fold_os_ins: "set (fold os_ins xs ys) = set xs \<union> set ys"
  by (induction xs arbitrary: ys) auto

lemma sorted_fold_os_ins: "sorted_wrt (<) ys \<Longrightarrow> sorted_wrt (<) (fold os_ins xs ys)"
  by (induction xs arbitrary: ys) auto

lemma set_os_of [simp]: "set (os_of xs) = set xs"
  by (simp add: os_of_def set_fold_os_ins)

lemma sorted_os_of [simp]: "sorted_wrt (<) (os_of xs)"
  by (simp add: os_of_def sorted_fold_os_ins)

lemma distinct_os_of [simp]: "distinct (os_of xs)"
  using sorted_os_of strict_sorted_iff by blast

lemma set_os_erase [simp]: "set (os_erase x xs) = set xs - {x}"
  by (auto simp: os_erase_def)

lemma set_fold_os_erase: "set (fold os_erase xs ys) = set ys - set xs"
  by (induction xs arbitrary: ys) auto

lemma distinct_os_erase [simp]: "distinct xs \<Longrightarrow> distinct (os_erase x xs)"
  by (simp add: os_erase_def)

lemma distinct_fold_os_erase: "distinct ys \<Longrightarrow> distinct (fold os_erase xs ys)"
  by (induction xs arbitrary: ys) auto

section \<open>Generic facts on relations and lists\<close>

definition scc_of :: "('a \<times> 'a) set \<Rightarrow> 'a \<Rightarrow> 'a set" where
  "scc_of r v = {w. (v, w) \<in> r\<^sup>* \<and> (w, v) \<in> r\<^sup>*}"

lemma scc_of_refl [simp]: "v \<in> scc_of r v"
  by (simp add: scc_of_def)

lemma scc_of_eq: "w \<in> scc_of r v \<Longrightarrow> scc_of r w = scc_of r v"
  by (auto simp: scc_of_def intro: rtrancl_trans)

lemma rtrancl_closed:
  assumes "(x, y) \<in> r\<^sup>*" and "x \<in> A" and "\<And>a b. a \<in> A \<Longrightarrow> (a, b) \<in> r \<Longrightarrow> b \<in> A"
  shows "y \<in> A"
  using assms(1,2) by (induction rule: rtrancl_induct) (auto intro: assms(3))

lemma card_diff_psubset:
  assumes "finite A" and "x \<in> A" and "x \<notin> V" and "x \<in> V'" and "V \<subseteq> V'"
  shows "card (A - V') < card (A - V)"
  using assms by (intro psubset_card_mono) auto

lemma sorted_wrt_index_less:
  assumes "sorted_wrt (\<lambda>x y. f x < (f y :: nat)) (xs @ v # ys)" and "y \<in> set (xs @ v # ys)"
    and "f y < f v"
  shows "y \<in> set xs"
  using assms by (auto simp: sorted_wrt_append)

text \<open>A list sorted by a key splits at a downward closed property of the key.\<close>

lemma sorted_split:
  assumes "\<forall>a b. a \<le> b \<longrightarrow> P b \<longrightarrow> P a"
  shows "sorted (map f d) \<Longrightarrow>
    takeWhile (\<lambda>e. P (f e)) d = filter (\<lambda>e. P (f e)) d \<and> dropWhile (\<lambda>e. P (f e)) d = filter (\<lambda>e. \<not> P (f e)) d"
proof (induction d)
  case (Cons e d)
  then have "\<forall>e' \<in> set d. \<not> P (f e')" if "\<not> P (f e)" using assms that by fastforce
  then show ?case using Cons by (auto simp: filter_empty_conv filter_id_conv)
qed simp

lemma range_between:
  assumes P: "\<forall>a b. a \<le> b \<longrightarrow> P b \<longrightarrow> P a" and Q: "\<forall>a b. a \<le> b \<longrightarrow> Q b \<longrightarrow> Q a"
    and QP: "\<forall>a. Q a \<longrightarrow> P a" and d: "sorted (map f d)"
  shows "take (length (takeWhile (\<lambda>e. P (f e)) d) - length (takeWhile (\<lambda>e. Q (f e)) d))
      (drop (length (takeWhile (\<lambda>e. Q (f e)) d)) d) = filter (\<lambda>e. P (f e) \<and> \<not> Q (f e)) d"
proof -
  let ?n = "filter (\<lambda>e. \<not> Q (f e)) d"
  have "sorted (map f ?n)" using d by (rule sorted_filter)
  then have n: "takeWhile (\<lambda>e. P (f e)) ?n = filter (\<lambda>e. P (f e) \<and> \<not> Q (f e)) d"
    using sorted_split [of P f ?n, OF P] by (simp add: conj_commute)
  have "filter (\<lambda>e. Q (f e) \<and> P (f e)) d = filter (\<lambda>e. Q (f e)) d" using QP by (intro filter_cong) auto
  then have "length (filter (\<lambda>e. P (f e)) d) = length (filter (\<lambda>e. Q (f e)) d) + length (filter (\<lambda>e. P (f e) \<and> \<not> Q (f e)) d)"
    using sum_length_filter_compl [of "\<lambda>e. Q (f e)" "filter (\<lambda>e. P (f e)) d"] by (simp add: conj_commute)
  then have "length (takeWhile (\<lambda>e. P (f e)) d) - length (takeWhile (\<lambda>e. Q (f e)) d) =
      length (takeWhile (\<lambda>e. P (f e)) ?n)"
    using sorted_split [of P, OF P d] sorted_split [of Q, OF Q d] n by simp
  moreover have "drop (length (takeWhile (\<lambda>e. Q (f e)) d)) d = ?n"
    using sorted_split [of Q, OF Q d] by (metis dropWhile_eq_drop)
  ultimately show ?thesis using takeWhile_eq_take [of "\<lambda>e. P (f e)" ?n] by (simp add: n)
qed

end
