(* ===== verification/Graph_Model.thy ===== *)
theory Graph_Model
  imports Rococo_Prelude "HOL-Library.AList"
begin

text \<open>
  The vertices and graphs of \<^verbatim>\<open>deptran/graph.h\<close>. Vertices are heap cells that refer to each other
  by pointer through the two edge maps \<^verbatim>\<open>from_\<close> and \<^verbatim>\<open>to_\<close>; a \<^verbatim>\<open>Graph\<close> is the set of its
  vertices and an index from ids to vertices. The theory holds the operations that build a graph
  (\<^verbatim>\<open>find\<close>, \<^verbatim>\<open>find_or_insert\<close>, \<^verbatim>\<open>insert\<close>, copy construction, assignment and the edge
  updates) and the well-formedness invariants: the two edge maps of a heap mirror each other, and a
  graph indexes exactly its vertices and is closed under edges.
\<close>

section \<open>Vertices, heap and graphs\<close>

record 't vertex =
  vfrom :: "(vptr, int8) omap"
  vto :: "(vptr, int8) omap"
  vdata :: 't

text \<open>A heap is the list of allocated cells; a deleted cell is \<open>None\<close>.\<close>

type_synonym 't heap = "'t vertex option list"

text \<open>
  \<^verbatim>\<open>vertex_index_\<close> (an \<^verbatim>\<open>unordered_set\<close>) and \<^verbatim>\<open>id_index_\<close> (an \<^verbatim>\<open>unordered_map\<close>) are listed in the
  order an iteration visits them; no theorem fixes that order.
\<close>

record graph =
  vertex_index :: "vptr list"
  id_index :: "(uint64 \<times> vptr) list"

definition empty_graph :: graph where
  "empty_graph = \<lparr>vertex_index = [], id_index = []\<rparr>"

definition deref :: "'t heap \<Rightarrow> vptr \<Rightarrow> 't vertex option" where
  "deref h p = (if p < length h then h ! p else None)"

definition new_vertex :: "'t \<Rightarrow> 't heap \<Rightarrow> vptr \<times> 't heap" where
  "new_vertex d h = (length h, h @ [Some \<lparr>vfrom = [], vto = [], vdata = d\<rparr>])"

definition delete_vertex :: "vptr \<Rightarrow> 't heap \<Rightarrow> 't heap" where
  "delete_vertex p h = (if p < length h then h[p := None] else h)"

definition upd_vertex :: "vptr \<Rightarrow> ('t vertex \<Rightarrow> 't vertex) \<Rightarrow> 't heap \<Rightarrow> 't heap" where
  "upd_vertex p f h = (case deref h p of None \<Rightarrow> h | Some x \<Rightarrow> h[p := Some (f x)])"

definition to_of :: "'t heap \<Rightarrow> vptr \<Rightarrow> (vptr, int8) omap" where
  "to_of h p = (case deref h p of None \<Rightarrow> [] | Some x \<Rightarrow> vto x)"

definition from_of :: "'t heap \<Rightarrow> vptr \<Rightarrow> (vptr, int8) omap" where
  "from_of h p = (case deref h p of None \<Rightarrow> [] | Some x \<Rightarrow> vfrom x)"

text \<open>\<^verbatim>\<open>m[k] |= r\<close>: a missing entry is created with value 0 first.\<close>

definition or_put :: "vptr \<Rightarrow> int8 \<Rightarrow> (vptr, int8) omap \<Rightarrow> (vptr, int8) omap" where
  "or_put k r m = om_put k ((case om_get m k of None \<Rightarrow> 0 | Some r0 \<Rightarrow> r0) OR r) m"

definition or_to :: "vptr \<Rightarrow> vptr \<Rightarrow> int8 \<Rightarrow> 't heap \<Rightarrow> 't heap" where
  "or_to s t r h = upd_vertex s (\<lambda>x. x\<lparr>vto := or_put t r (vto x)\<rparr>) h"

definition or_from :: "vptr \<Rightarrow> vptr \<Rightarrow> int8 \<Rightarrow> 't heap \<Rightarrow> 't heap" where
  "or_from t s r h = upd_vertex t (\<lambda>x. x\<lparr>vfrom := or_put s r (vfrom x)\<rparr>) h"

text \<open>The pair of statements \<^verbatim>\<open>s->to_[t] |= r; t->from_[s] |= r\<close> that adds an edge.\<close>

definition or_edge :: "vptr \<Rightarrow> vptr \<Rightarrow> int8 \<Rightarrow> 't heap \<Rightarrow> 't heap" where
  "or_edge s t r h = or_from t s r (or_to s t r h)"

section \<open>Operations of Graph\<close>

definition gsize :: "graph \<Rightarrow> nat" where
  "gsize g = length (vertex_index g)"

definition gfind :: "graph \<Rightarrow> uint64 \<Rightarrow> vptr option" where
  "gfind g i = map_of (id_index g) i"

definition gfind_data :: "('t \<Rightarrow> uint64) \<Rightarrow> graph \<Rightarrow> 't \<Rightarrow> vptr option" where
  "gfind_data idf g d = gfind g (idf d)"

definition gadd :: "uint64 \<Rightarrow> vptr \<Rightarrow> graph \<Rightarrow> graph" where
  "gadd i v g = g\<lparr>vertex_index := vertex_index g @ [v], id_index := AList.update i v (id_index g)\<rparr>"

definition find_or_insert_data ::
    "('t \<Rightarrow> uint64) \<Rightarrow> 't \<Rightarrow> 't heap \<Rightarrow> graph \<Rightarrow> vptr \<times> 't heap \<times> graph" where
  "find_or_insert_data idf d h g =
     (case gfind g (idf d) of
        Some v \<Rightarrow> (v, h, g)
      | None \<Rightarrow> (let (v, h') = new_vertex d h in (v, h', gadd (idf d) v g)))"

text \<open>\<open>dflt\<close> is the default-constructed \<^verbatim>\<open>T\<close>, \<open>set_id\<close> its \<^verbatim>\<open>set_id\<close>.\<close>

definition find_or_insert ::
    "('t \<Rightarrow> uint64 \<Rightarrow> 't) \<Rightarrow> 't \<Rightarrow> uint64 \<Rightarrow> 't heap \<Rightarrow> graph \<Rightarrow> vptr \<times> 't heap \<times> graph" where
  "find_or_insert set_id dflt i h g =
     (case gfind g i of
        Some v \<Rightarrow> (v, h, g)
      | None \<Rightarrow> (let (v, h') = new_vertex (set_id dflt i) h in (v, h', gadd i v g)))"

definition ginsert :: "('t \<Rightarrow> uint64) \<Rightarrow> vptr \<Rightarrow> 't heap \<Rightarrow> graph \<Rightarrow> (bool \<times> 't heap \<times> graph) res" where
  "ginsert idf v h g =
     (if v \<in> set (vertex_index g) then Inr (False, h, g)
      else case deref h v of
        None \<Rightarrow> Inl BadPointer
      | Some x \<Rightarrow>
          (let g' = gadd (idf (vdata x)) v g;
               h1 = fold (\<lambda>(a, r). or_to a v r) (vfrom x) h;
               h2 = fold (\<lambda>(d, r). or_from d v r) (to_of h1 v) h1
           in Inr (True, h2, g')))"

text \<open>
  The copy constructor and the assignment operator run the same two loops: copy every vertex, then
  copy the edges by looking the targets up by id. \<open>copy_vertices\<close> is the first loop;
  \<open>copy_edges\<close> the second, with two parameters for what differs: the key of the entry written into
  the target's \<^verbatim>\<open>from_\<close> (the copy constructor writes \<^verbatim>\<open>new_tv->from_[old_tv]\<close>, the assignment
  \<^verbatim>\<open>new_tv->from_[new_sv]\<close>), and the error when a target is not in the graph (the copy constructor
  dereferences a null pointer, the assignment fails its \<^verbatim>\<open>verify\<close>).
\<close>

definition copy_vertex :: "('t heap \<times> graph) \<Rightarrow> uint64 \<times> vptr \<Rightarrow> ('t heap \<times> graph) res" where
  "copy_vertex hg kv =
     (case deref (fst hg) (snd kv) of
        None \<Rightarrow> Inl BadPointer
      | Some x \<Rightarrow> (let (v, h') = new_vertex (vdata x) (fst hg) in Inr (h', gadd (fst kv) v (snd hg))))"

fun copy_vertices :: "(uint64 \<times> vptr) list \<Rightarrow> 't heap \<times> graph \<Rightarrow> ('t heap \<times> graph) res" where
  "copy_vertices [] hg = Inr hg"
| "copy_vertices (kv # kvs) hg = rbind (copy_vertex hg kv) (copy_vertices kvs)"

definition set_edge :: "vptr \<Rightarrow> vptr \<Rightarrow> vptr \<Rightarrow> int8 \<Rightarrow> 't heap \<Rightarrow> 't heap" where
  "set_edge s t key r h =
     upd_vertex t (\<lambda>x. x\<lparr>vfrom := om_put key r (vfrom x)\<rparr>)
       (upd_vertex s (\<lambda>x. x\<lparr>vto := om_put t r (vto x)\<rparr>) h)"

fun copy_out_edges ::
    "('t \<Rightarrow> uint64) \<Rightarrow> err \<Rightarrow> (vptr \<Rightarrow> vptr \<Rightarrow> vptr) \<Rightarrow> graph \<Rightarrow> vptr \<Rightarrow> (vptr \<times> int8) list \<Rightarrow> 't heap \<Rightarrow> 't heap res" where
  "copy_out_edges idf e key g s [] h = Inr h"
| "copy_out_edges idf e key g s ((old_t, r) # es) h =
     (case deref h old_t of
        None \<Rightarrow> Inl BadPointer
      | Some y \<Rightarrow>
          (case gfind g (idf (vdata y)) of
             None \<Rightarrow> Inl e
           | Some t \<Rightarrow> copy_out_edges idf e key g s es (set_edge s t (key s old_t) r h)))"

fun copy_edges ::
    "('t \<Rightarrow> uint64) \<Rightarrow> err \<Rightarrow> (vptr \<Rightarrow> vptr \<Rightarrow> vptr) \<Rightarrow> graph \<Rightarrow> (uint64 \<times> vptr) list \<Rightarrow> 't heap \<Rightarrow> 't heap res" where
  "copy_edges idf e key g [] h = Inr h"
| "copy_edges idf e key g ((i, old_s) # kvs) h =
     (case (gfind g i, deref h old_s) of
        (Some s, Some x) \<Rightarrow> rbind (copy_out_edges idf e key g s (vto x) h) (copy_edges idf e key g kvs)
      | _ \<Rightarrow> Inl BadPointer)"

definition graph_copy :: "('t \<Rightarrow> uint64) \<Rightarrow> graph \<Rightarrow> 't heap \<Rightarrow> ('t heap \<times> graph) res" where
  "graph_copy idf src h =
     rbind (copy_vertices (id_index src) (h, empty_graph))
       (\<lambda>(h1, g). rbind (copy_edges idf BadPointer (\<lambda>new_sv old_tv. old_tv) g (id_index src) h1)
          (\<lambda>h2. Inr (h2, g)))"

definition graph_assign :: "('t \<Rightarrow> uint64) \<Rightarrow> graph \<Rightarrow> graph \<Rightarrow> 't heap \<Rightarrow> ('t heap \<times> graph) res" where
  "graph_assign idf self src h =
     rbind (copy_vertices (id_index src) (fold delete_vertex (vertex_index self) h, empty_graph))
       (\<lambda>(h1, g). verify (length (id_index g) = length (id_index src))
          (rbind (copy_edges idf VerifyFailed (\<lambda>new_sv old_tv. new_sv) g (id_index src) h1)
            (\<lambda>h2. Inr (h2, g))))"

section \<open>Edges and well-formedness\<close>

definition edges_to :: "'t heap \<Rightarrow> (vptr \<times> vptr) set" where
  "edges_to h = {(v, w). w \<in> set (om_keys (to_of h v))}"

definition edges_from :: "'t heap \<Rightarrow> (vptr \<times> vptr) set" where
  "edges_from h = {(v, w). v \<in> set (om_keys (from_of h w))}"

definition wf_vertex :: "'t heap \<Rightarrow> vptr \<Rightarrow> 't vertex \<Rightarrow> bool" where
  "wf_vertex h v x \<longleftrightarrow> om_inv (vfrom x) \<and> om_inv (vto x) \<and>
     (\<forall>wr \<in> set (vto x). deref h (fst wr) \<noteq> None \<and> om_get (from_of h (fst wr)) v = Some (snd wr)) \<and>
     (\<forall>wr \<in> set (vfrom x). deref h (fst wr) \<noteq> None \<and> om_get (to_of h (fst wr)) v = Some (snd wr))"

text \<open>The mirror invariant of the heap: every edge is recorded at both ends with one relation.\<close>

definition wf_heap :: "'t heap \<Rightarrow> bool" where
  "wf_heap h \<longleftrightarrow> (\<forall>v < length h. case h ! v of None \<Rightarrow> True | Some x \<Rightarrow> wf_vertex h v x)"

text \<open>
  A graph indexes exactly its vertices, under their own distinct ids, and holds the targets of
  their edges.
\<close>

definition wf_graph :: "('t \<Rightarrow> uint64) \<Rightarrow> 't heap \<Rightarrow> graph \<Rightarrow> bool" where
  "wf_graph idf h g \<longleftrightarrow>
     distinct (vertex_index g) \<and> distinct (map fst (id_index g)) \<and>
     set (map snd (id_index g)) = set (vertex_index g) \<and>
     (\<forall>iv \<in> set (id_index g). case deref h (snd iv) of None \<Rightarrow> False | Some x \<Rightarrow> idf (vdata x) = fst iv) \<and>
     (\<forall>v \<in> set (vertex_index g).
        set (om_keys (to_of h v)) \<subseteq> set (vertex_index g) \<and>
        set (om_keys (from_of h v)) \<subseteq> set (vertex_index g))"

subsection \<open>Mirrored edges\<close>

lemma to_ofE:
  assumes "(w, r) \<in> set (to_of h v)"
  obtains x where "deref h v = Some x" and "(w, r) \<in> set (vto x)"
  using assms by (cases "deref h v") (auto simp: to_of_def)

lemma from_ofE:
  assumes "(w, r) \<in> set (from_of h v)"
  obtains x where "deref h v = Some x" and "(w, r) \<in> set (vfrom x)"
  using assms by (cases "deref h v") (auto simp: from_of_def)

lemma wf_heapD:
  assumes "wf_heap h" and "deref h v = Some x"
  shows "wf_vertex h v x"
  using assms by (auto simp: wf_heap_def deref_def split: if_splits)

lemma wf_heap_om_inv: "wf_heap h \<Longrightarrow> om_inv (to_of h v)" "wf_heap h \<Longrightarrow> om_inv (from_of h v)"
  using wf_heapD [of h v] by (auto simp: to_of_def from_of_def wf_vertex_def split: option.splits)

lemma wf_heap_to:
  assumes "wf_heap h" and "(w, r) \<in> set (to_of h v)"
  shows "deref h w \<noteq> None \<and> om_get (from_of h w) v = Some r"
proof -
  from assms(2) obtain x where x: "deref h v = Some x" "(w, r) \<in> set (vto x)" by (rule to_ofE)
  from wf_heapD [OF assms(1) x(1)] have
    "\<forall>wr \<in> set (vto x). deref h (fst wr) \<noteq> None \<and> om_get (from_of h (fst wr)) v = Some (snd wr)"
    unfolding wf_vertex_def by (elim conjE)
  from bspec [OF this x(2)] show ?thesis by simp
qed

lemma wf_heap_from:
  assumes "wf_heap h" and "(w, r) \<in> set (from_of h v)"
  shows "deref h w \<noteq> None \<and> om_get (to_of h w) v = Some r"
proof -
  from assms(2) obtain x where x: "deref h v = Some x" "(w, r) \<in> set (vfrom x)" by (rule from_ofE)
  from wf_heapD [OF assms(1) x(1)] have
    "\<forall>wr \<in> set (vfrom x). deref h (fst wr) \<noteq> None \<and> om_get (to_of h (fst wr)) v = Some (snd wr)"
    unfolding wf_vertex_def by (elim conjE)
  from bspec [OF this x(2)] show ?thesis by simp
qed

lemma wf_heap_mirror: "wf_heap h \<Longrightarrow> (w, r) \<in> set (to_of h v) \<longleftrightarrow> (v, r) \<in> set (from_of h w)"
  using wf_heap_to [of h w r v] wf_heap_from [of h v r w] by (blast intro: om_get_SomeD)

text \<open>The mirror invariant in terms of lookups: what the components use of it.\<close>

lemma wf_heapI:
  assumes "\<And>v. om_inv (to_of h v) \<and> om_inv (from_of h v)"
    and "\<And>v w. om_get (to_of h v) w = om_get (from_of h w) v"
  shows "wf_heap h"
  unfolding wf_heap_def
proof (intro allI impI)
  fix v assume v: "v < length h"
  show "case h ! v of None \<Rightarrow> True | Some x \<Rightarrow> wf_vertex h v x"
  proof (cases "h ! v")
    case (Some x)
    then have x: "vto x = to_of h v" "vfrom x = from_of h v"
      using v by (simp_all add: to_of_def from_of_def deref_def)
    have "deref h w \<noteq> None \<and> om_get (from_of h w) v = Some r" if "(w, r) \<in> set (to_of h v)" for w r
    proof -
      have "om_get (to_of h v) w = Some r" using that assms(1) by (simp add: om_get_Some_iff)
      then have "om_get (from_of h w) v = Some r" by (simp add: assms(2))
      then show ?thesis by (auto simp: from_of_def split: option.splits)
    qed
    moreover have "deref h w \<noteq> None \<and> om_get (to_of h w) v = Some r" if "(w, r) \<in> set (from_of h v)" for w r
    proof -
      have "om_get (from_of h v) w = Some r" using that assms(1) by (simp add: om_get_Some_iff)
      then have "om_get (to_of h w) v = Some r" by (simp add: assms(2))
      then show ?thesis by (auto simp: to_of_def split: option.splits)
    qed
    ultimately show ?thesis using Some x assms(1) by (simp add: wf_vertex_def split_paired_Ball_Sigma Ball_def)
  qed simp
qed

lemma wf_heap_get: "wf_heap h \<Longrightarrow> om_get (to_of h v) w = om_get (from_of h w) v"
  using wf_heap_mirror [of h w _ v] wf_heap_om_inv [of h]
  by (metis om_get_Some_iff option.exhaust)

lemma wf_heap_edges:
  assumes "wf_heap h"
  shows "edges_from h = edges_to h"
  by (simp add: edges_from_def edges_to_def om.keys_get wf_heap_get [OF assms])

section \<open>Edge updates keep the mirror invariant\<close>

lemma deref_upd: "deref (upd_vertex p f h) q = (if q = p then map_option f (deref h q) else deref h q)"
  by (auto simp: upd_vertex_def deref_def split: option.splits)

lemma length_upd [simp]: "length (upd_vertex p f h) = length h"
  by (simp add: upd_vertex_def split: option.splits)

lemma or_put_get:
  "om_get (or_put k r m) k' =
     (if k' = k then Some ((case om_get m k of None \<Rightarrow> 0 | Some r0 \<Rightarrow> r0) OR r) else om_get m k')"
  by (simp add: or_put_def)

lemma or_put_inv [simp]: "om_inv m \<Longrightarrow> om_inv (or_put k r m)"
  by (simp add: or_put_def)

lemma to_of_or_edge:
  "to_of (or_edge s t r h) v = (if v = s \<and> deref h s \<noteq> None then or_put t r (to_of h s) else to_of h v)"
  by (auto simp: or_edge_def or_to_def or_from_def to_of_def deref_upd split: option.splits)

lemma from_of_or_edge:
  "from_of (or_edge s t r h) v = (if v = t \<and> deref h t \<noteq> None then or_put s r (from_of h t) else from_of h v)"
  by (auto simp: or_edge_def or_to_def or_from_def from_of_def deref_upd split: option.splits)

lemma vdata_or_edge: "map_option vdata (deref (or_edge s t r h) v) = map_option vdata (deref h v)"
  by (auto simp: or_edge_def or_to_def or_from_def deref_upd option.map_comp comp_def)

lemma length_or_edge [simp]: "length (or_edge s t r h) = length h"
  by (simp add: or_edge_def or_to_def or_from_def)

lemma or_edge_wf [wf_intros]:
  assumes "wf_heap h" and "deref h s \<noteq> None" and "deref h t \<noteq> None"
  shows "wf_heap (or_edge s t r h)"
  using assms(2,3) wf_heap_om_inv [OF assms(1)] wf_heap_get [OF assms(1)]
  by (intro wf_heapI) (auto simp: to_of_or_edge from_of_or_edge or_put_get)

lemma to_of_new: "to_of (snd (new_vertex d h)) v = to_of h v"
  by (auto simp: new_vertex_def to_of_def deref_def nth_append split: option.splits)

lemma from_of_new: "from_of (snd (new_vertex d h)) v = from_of h v"
  by (auto simp: new_vertex_def from_of_def deref_def nth_append split: option.splits)

lemma new_vertex_wf [wf_intros]: "wf_heap h \<Longrightarrow> wf_heap (snd (new_vertex d h))"
  by (rule wf_heapI) (simp_all add: to_of_new from_of_new wf_heap_om_inv wf_heap_get)

lemma deref_new: "deref (snd (new_vertex d h)) v =
    (if v = length h then Some \<lparr>vfrom = [], vto = [], vdata = d\<rparr> else deref h v)"
  by (auto simp: new_vertex_def deref_def nth_append)

section \<open>Graphs and their index\<close>

lemma wf_graph_find:
  assumes "wf_graph idf h g" and "gfind g i = Some v"
  shows "\<exists>x. deref h v = Some x \<and> idf (vdata x) = i" and "v \<in> set (vertex_index g)"
proof -
  have iv: "(i, v) \<in> set (id_index g)" using assms(2) by (simp add: gfind_def map_of_SomeD)
  from assms(1) have "\<forall>iv \<in> set (id_index g).
      case deref h (snd iv) of None \<Rightarrow> False | Some x \<Rightarrow> idf (vdata x) = fst iv"
    unfolding wf_graph_def by (elim conjE)
  from bspec [OF this iv] show "\<exists>x. deref h v = Some x \<and> idf (vdata x) = i"
    by (simp split: option.splits)
  have "v \<in> set (map snd (id_index g))" using iv by force
  then show "v \<in> set (vertex_index g)" using assms(1) by (simp add: wf_graph_def)
qed

lemma wf_graph_vertex:
  assumes "wf_graph idf h g" and "v \<in> set (vertex_index g)"
  obtains x where "deref h v = Some x" and "gfind g (idf (vdata x)) = Some v"
proof -
  have "v \<in> set (map snd (id_index g))" using assms by (simp add: wf_graph_def)
  then obtain i where "(i, v) \<in> set (id_index g)" by auto
  then have "gfind g i = Some v" using assms(1) by (simp add: gfind_def wf_graph_def)
  with wf_graph_find(1) [OF assms(1) this] that show ?thesis by blast
qed

lemma wf_graph_inj: "wf_graph idf h g \<Longrightarrow> gfind g i = Some v \<Longrightarrow> gfind g j = Some v \<Longrightarrow> i = j"
  using wf_graph_find(1) [of idf h g i v] wf_graph_find(1) [of idf h g j v] by auto

lemma gfind_gadd: "gfind (gadd i v g) j = (if j = i then Some v else gfind g j)"
  by (simp add: gfind_def gadd_def update_conv')

lemma vertex_index_gadd [simp]: "vertex_index (gadd i v g) = vertex_index g @ [v]"
  by (simp add: gadd_def)

lemma set_update_new:
  "k \<notin> fst ` set al \<Longrightarrow> set (AList.update k v al) = insert (k, v) (set al)"
  by (induction al) auto

lemma wf_graph_edges:
  assumes "wf_graph idf h g" and "v \<in> set (vertex_index g)"
  shows "set (om_keys (to_of h v)) \<subseteq> set (vertex_index g)"
    and "set (om_keys (from_of h v)) \<subseteq> set (vertex_index g)"
  using assms unfolding wf_graph_def by blast+

lemma wf_graph_add:
  assumes wf: "wf_graph idf h g" and new: "gfind g (idf d) = None"
  shows "wf_graph idf (snd (new_vertex d h)) (gadd (idf d) (length h) g)"
proof -
  have k: "idf d \<notin> fst ` set (id_index g)" using new by (simp add: gfind_def map_of_eq_None_iff)
  have live: "v \<noteq> length h" if "v \<in> set (vertex_index g)" for v
    using wf_graph_vertex [OF wf that] by (metis deref_def less_irrefl option.distinct(1))
  have dr: "deref (snd (new_vertex d h)) v = deref h v" if "v \<in> set (vertex_index g)" for v
    using live [OF that] by (simp add: deref_new)
  have ids: "set (id_index (gadd (idf d) (length h) g)) = insert (idf d, length h) (set (id_index g))"
    using k by (simp add: gadd_def set_update_new)
  have inV: "snd iv \<in> set (vertex_index g)" if "iv \<in> set (id_index g)" for iv
  proof -
    have "snd iv \<in> set (map snd (id_index g))" using that by simp
    then show ?thesis using wf by (simp add: wf_graph_def)
  qed
  have "case deref (snd (new_vertex d h)) (snd iv) of None \<Rightarrow> False | Some x \<Rightarrow> idf (vdata x) = fst iv"
    if "iv \<in> set (id_index (gadd (idf d) (length h) g))" for iv
  proof (cases "iv = (idf d, length h)")
    case True
    then show ?thesis by (simp add: deref_new)
  next
    case False
    then have iv: "iv \<in> set (id_index g)" using that ids by simp
    from wf have "\<forall>iv \<in> set (id_index g).
        case deref h (snd iv) of None \<Rightarrow> False | Some x \<Rightarrow> idf (vdata x) = fst iv"
      unfolding wf_graph_def by (elim conjE)
    from bspec [OF this iv] show ?thesis using dr [OF inV [OF iv]] by simp
  qed
  moreover have "distinct (vertex_index g @ [length h])" using wf live by (auto simp: wf_graph_def)
  moreover have "distinct (map fst (id_index (gadd (idf d) (length h) g)))"
    using wf by (simp add: wf_graph_def gadd_def distinct_update)
  moreover have "set (map snd (id_index (gadd (idf d) (length h) g))) = set (vertex_index g @ [length h])"
    using wf ids by (simp add: wf_graph_def)
  moreover have "to_of h (length h) = []" "from_of h (length h) = []"
    by (simp_all add: to_of_def from_of_def deref_def)
  then have "set (om_keys (to_of (snd (new_vertex d h)) v)) \<subseteq> set (vertex_index g @ [length h]) \<and>
      set (om_keys (from_of (snd (new_vertex d h)) v)) \<subseteq> set (vertex_index g @ [length h])"
    if "v \<in> set (vertex_index g @ [length h])" for v
    using that wf_graph_edges [OF wf, of v] by (auto simp: to_of_new from_of_new om_keys_def)
  ultimately show ?thesis unfolding wf_graph_def vertex_index_gadd by blast
qed

text \<open>Updates that keep the ids of the data and stay inside the graph keep it well formed.\<close>

lemma wf_graph_update:
  assumes wf: "wf_graph idf h g"
    and ids: "\<And>v. map_option (idf \<circ> vdata) (deref h' v) = map_option (idf \<circ> vdata) (deref h v)"
    and to: "\<And>v. v \<in> set (vertex_index g) \<Longrightarrow> set (om_keys (to_of h' v)) \<subseteq> set (vertex_index g)"
    and fr: "\<And>v. v \<in> set (vertex_index g) \<Longrightarrow> set (om_keys (from_of h' v)) \<subseteq> set (vertex_index g)"
  shows "wf_graph idf h' g"
proof -
  have eq: "(case deref h' v of None \<Rightarrow> False | Some x \<Rightarrow> idf (vdata x) = i) =
      (case deref h v of None \<Rightarrow> False | Some x \<Rightarrow> idf (vdata x) = i)" for v i
    using ids [of v] by (cases "deref h v"; cases "deref h' v") auto
  show ?thesis using wf to fr unfolding wf_graph_def by (simp add: eq)
qed

lemma or_put_keys: "set (om_keys (or_put k r m)) = insert k (set (om_keys m))"
  by (simp add: or_put_def)

lemma or_edge_wf_graph [wf_intros]:
  assumes "wf_graph idf h g" and "s \<in> set (vertex_index g)" and "t \<in> set (vertex_index g)"
  shows "wf_graph idf (or_edge s t r h) g"
proof (rule wf_graph_update [OF assms(1)])
  fix v
  show "map_option (idf \<circ> vdata) (deref (or_edge s t r h) v) = map_option (idf \<circ> vdata) (deref h v)"
    using vdata_or_edge [of s t r h v] by (metis option.map_comp)
qed (use assms wf_graph_edges [OF assms(1)] in \<open>auto simp: to_of_or_edge from_of_or_edge or_put_keys\<close>)

lemma to_of_upd_data: "to_of (upd_vertex p (\<lambda>x. x\<lparr>vdata := f (vdata x)\<rparr>) h) v = to_of h v"
  by (auto simp: to_of_def deref_upd split: option.splits)

lemma from_of_upd_data: "from_of (upd_vertex p (\<lambda>x. x\<lparr>vdata := f (vdata x)\<rparr>) h) v = from_of h v"
  by (auto simp: from_of_def deref_upd split: option.splits)

lemma upd_data_wf [wf_intros]: "wf_heap h \<Longrightarrow> wf_heap (upd_vertex p (\<lambda>x. x\<lparr>vdata := f (vdata x)\<rparr>) h)"
  by (rule wf_heapI) (simp_all add: to_of_upd_data from_of_upd_data wf_heap_om_inv wf_heap_get)

lemma upd_data_wf_graph [wf_intros]:
  assumes "wf_graph idf h g" and "\<And>d. idf (f d) = idf d"
  shows "wf_graph idf (upd_vertex p (\<lambda>x. x\<lparr>vdata := f (vdata x)\<rparr>) h) g"
proof (rule wf_graph_update [OF assms(1)])
  fix v
  show "map_option (idf \<circ> vdata) (deref (upd_vertex p (\<lambda>x. x\<lparr>vdata := f (vdata x)\<rparr>) h) v) =
      map_option (idf \<circ> vdata) (deref h v)"
    by (cases "deref h v") (auto simp: deref_upd assms(2))
qed (use wf_graph_edges [OF assms(1)] in \<open>auto simp: to_of_upd_data from_of_upd_data\<close>)

text \<open>\<^verbatim>\<open>find_or_insert\<close> by id keeps the mirror invariant of the heap and the index invariant of
  the graph, returns the vertex indexed under the id afterwards, leaves every other id and every
  existing vertex as it was, and allocates only when the id was not there.\<close>

theorem find_or_insert_correct:
  assumes "wf_heap h" and "wf_graph idf h g" and "idf (set_id dflt i) = i"
    and "find_or_insert set_id dflt i h g = (v, h', g')"
  shows "wf_heap h' \<and> wf_graph idf h' g' \<and> gfind g' i = Some v \<and>
    (\<forall>j. j \<noteq> i \<longrightarrow> gfind g' j = gfind g j) \<and> (\<forall>w < length h. deref h' w = deref h w) \<and>
    (gfind g i = None \<longrightarrow> deref h' v = Some \<lparr>vfrom = [], vto = [], vdata = set_id dflt i\<rparr>)"
proof (cases "gfind g i")
  case None
  have "h' = snd (new_vertex (set_id dflt i) h)" "g' = gadd i (length h) g" "v = length h"
    using assms(4) None by (auto simp: find_or_insert_def new_vertex_def)
  with assms(1-3) None wf_graph_add [OF assms(2), of "set_id dflt i"] show ?thesis
    by (auto simp: gfind_gadd deref_new intro: wf_intros)
next
  case (Some w)
  with assms show ?thesis by (simp add: find_or_insert_def)
qed

theorem find_or_insert_correct_witness:
  "wf_heap [Some \<lparr>vfrom = [], vto = [], vdata = 5 :: uint64\<rparr>] \<and>
   gfind (gadd 5 0 empty_graph) 5 = Some 0"
proof -
  have "wf_heap ([] :: uint64 heap)" "wf_graph id ([] :: uint64 heap) empty_graph" by code_simp+
  from find_or_insert_correct [OF this, of "\<lambda>_ i. i" 0 5]
  show ?thesis by (simp add: find_or_insert_def empty_graph_def gfind_def new_vertex_def)
qed

end
