(* ===== verification/Graph_Scc.thy ===== *)
theory Graph_Scc
  imports Graph_Model
begin

text \<open>
  \<^verbatim>\<open>Graph::strong_connect\<close> and \<^verbatim>\<open>Graph::find_scc\<close> (\<^verbatim>\<open>deptran/graph.h\<close>): Tarjan's algorithm started
  at one vertex. The recursion is modelled with a fuel argument; the correctness theorem proves
  that as much fuel as there are heap cells is enough, and that the result is exactly the strongly
  connected component of the start vertex.
\<close>

section \<open>The algorithm\<close>

record sc_state =
  indexes :: "(vptr, nat) omap"
  lowlinks :: "(vptr, nat) omap"
  index :: nat
  stk :: "vptr list"   \<comment> \<open>the vector \<^verbatim>\<open>S\<close>; \<^verbatim>\<open>push_back\<close> appends\<close>

definition idx :: "sc_state \<Rightarrow> vptr \<Rightarrow> nat" where
  "idx st v = (case om_get (indexes st) v of None \<Rightarrow> 0 | Some n \<Rightarrow> n)"

definition low :: "sc_state \<Rightarrow> vptr \<Rightarrow> nat" where
  "low st v = (case om_get (lowlinks st) v of None \<Rightarrow> 0 | Some n \<Rightarrow> n)"

definition set_low :: "vptr \<Rightarrow> nat \<Rightarrow> sc_state \<Rightarrow> sc_state" where
  "set_low v n st = st\<lparr>lowlinks := om_put v n (lowlinks st)\<rparr>"

definition sc_enter :: "vptr \<Rightarrow> sc_state \<Rightarrow> sc_state" where
  "sc_enter v st = st\<lparr>indexes := om_put v (index st) (indexes st),
                      lowlinks := om_put v (index st) (lowlinks st),
                      index := Suc (index st),
                      stk := stk st @ [v]\<rparr>"

text \<open>The \<^verbatim>\<open>for (auto& t: S)\<close> loop for a neighbour \<open>w\<close> that has an index already.\<close>

definition sc_scan :: "vptr \<Rightarrow> vptr \<Rightarrow> vptr \<Rightarrow> sc_state \<Rightarrow> sc_state" where
  "sc_scan v w t s =
     (if t = w then set_low v (if low s v < idx s w then low s v else idx s w) s else s)"

definition sc_seen :: "vptr \<Rightarrow> vptr \<Rightarrow> sc_state \<Rightarrow> sc_state" where
  "sc_seen v w st = fold (sc_scan v w) (stk st) st"

text \<open>The \<^verbatim>\<open>do ... while (w != v)\<close> loop that pops a component.\<close>

fun pop_until :: "vptr \<Rightarrow> vptr list \<Rightarrow> vptr list \<Rightarrow> vptr list \<times> vptr list" where
  "pop_until v S ret =
     (if S = [] then (ret, [])
      else if last S = v then (ret @ [last S], butlast S)
      else pop_until v (butlast S) (ret @ [last S]))"

declare pop_until.simps [simp del]

fun strong_connect :: "'t heap \<Rightarrow> nat \<Rightarrow> vptr \<Rightarrow> sc_state \<Rightarrow> (vptr list \<times> sc_state) option"
and sc_edges :: "'t heap \<Rightarrow> nat \<Rightarrow> vptr \<Rightarrow> vptr list \<Rightarrow> sc_state \<Rightarrow> sc_state option" where
  "strong_connect h 0 v st = None"
| "strong_connect h (Suc n) v st =
     (case sc_edges h n v (om_keys (to_of h v)) (sc_enter v st) of
        None \<Rightarrow> None
      | Some st2 \<Rightarrow>
          (if low st2 v = idx st2 v
           then (let (ret, S) = pop_until v (stk st2) [] in Some (ret, st2\<lparr>stk := S\<rparr>))
           else Some ([], st2)))"
| "sc_edges h n v [] st = Some st"
| "sc_edges h n v (w # ws) st =
     (if om_get (indexes st) w = None
      then (case strong_connect h n w st of
              None \<Rightarrow> None
            | Some (_, st1) \<Rightarrow>
                sc_edges h n v ws (set_low v (if low st1 v < low st1 w then low st1 v else low st1 w) st1))
      else sc_edges h n v ws (sc_seen v w st))"

definition sc_init :: sc_state where
  "sc_init = \<lparr>indexes = [], lowlinks = [], index = 0, stk = []\<rparr>"

definition find_scc :: "'t heap \<Rightarrow> vptr \<Rightarrow> vptr list" where
  "find_scc h v =
     (case strong_connect h (length h) v sc_init of None \<Rightarrow> [] | Some (ret, _) \<Rightarrow> ret)"

section \<open>Auxiliary facts\<close>

lemma pop_until_split:
  "v \<notin> set T \<Longrightarrow> pop_until v (S @ v # T) ret = (ret @ rev T @ [v], S)"
proof (induction T arbitrary: ret rule: rev_induct)
  case Nil
  then show ?case by (simp add: pop_until.simps [of v "S @ [v]"])
next
  case (snoc x T)
  then have "pop_until v (S @ v # T @ [x]) ret = pop_until v (S @ v # T) (ret @ [x])"
    by (subst pop_until.simps) (simp add: butlast_append)
  with snoc show ?case by simp
qed

lemma low_set_low [simp]: "low (set_low v n st) u = (if u = v then n else low st u)"
  by (simp add: low_def set_low_def)

lemma set_low_sel [simp]:
  "indexes (set_low v n st) = indexes st" "index (set_low v n st) = index st"
  "stk (set_low v n st) = stk st" "idx (set_low v n st) = idx st"
  by (simp_all add: set_low_def idx_def fun_eq_iff)

lemma idx_stk [simp]: "idx (st\<lparr>stk := S\<rparr>) = idx st" "low (st\<lparr>stk := S\<rparr>) = low st"
  by (simp_all add: idx_def low_def fun_eq_iff)

lemma sc_enter_sel [simp]:
  "idx (sc_enter v st) u = (if u = v then index st else idx st u)"
  "low (sc_enter v st) u = (if u = v then index st else low st u)"
  "stk (sc_enter v st) = stk st @ [v]" "index (sc_enter v st) = Suc (index st)"
  "set (om_keys (indexes (sc_enter v st))) = insert v (set (om_keys (indexes st)))"
  by (simp_all add: sc_enter_def idx_def low_def)

text \<open>Scanning the stack lowers the link once if the neighbour is on it, and never otherwise.\<close>

lemma sc_scan_fold:
  "indexes (fold (sc_scan v w) ts s) = indexes s" "index (fold (sc_scan v w) ts s) = index s"
  "stk (fold (sc_scan v w) ts s) = stk s" "idx (fold (sc_scan v w) ts s) = idx s"
  "low (fold (sc_scan v w) ts s) u = (if u = v \<and> w \<in> set ts then min (low s v) (idx s w) else low s u)"
  by (induction ts arbitrary: s) (auto simp: sc_scan_def)

lemma sc_seen_sel [simp]:
  "indexes (sc_seen v w st) = indexes st" "index (sc_seen v w st) = index st"
  "stk (sc_seen v w st) = stk st" "idx (sc_seen v w st) = idx st"
  "low (sc_seen v w st) u = (if u = v \<and> w \<in> set (stk st) then min (low st v) (idx st w) else low st u)"
  by (simp_all add: sc_seen_def sc_scan_fold)

section \<open>The invariant\<close>

abbreviation visited :: "sc_state \<Rightarrow> vptr set" where
  "visited st \<equiv> set (om_keys (indexes st))"

text \<open>
  \<open>G\<close> is the set of vertices whose call is still running. Vertices that were visited and are no
  longer on the stack are closed under edges (a popped component has only popped descendants);
  a vertex on the stack reaches a running one below it, and is reached by every running one below.
\<close>

definition sc_inv :: "(vptr \<times> vptr) set \<Rightarrow> vptr set \<Rightarrow> sc_state \<Rightarrow> bool" where
  "sc_inv E G st \<longleftrightarrow>
     set (stk st) \<subseteq> visited st \<and> G \<subseteq> set (stk st) \<and>
     sorted_wrt (\<lambda>x y. idx st x < idx st y) (stk st) \<and>
     (\<forall>x \<in> visited st. idx st x < index st) \<and>
     (\<forall>x \<in> visited st - G. \<forall>y. (x, y) \<in> E \<longrightarrow> y \<in> visited st) \<and>
     (\<forall>x \<in> visited st - set (stk st). \<forall>y. (x, y) \<in> E \<longrightarrow> y \<in> visited st - set (stk st)) \<and>
     (\<forall>x \<in> set (stk st). \<exists>g \<in> G. idx st g \<le> idx st x \<and> (x, g) \<in> E\<^sup>*) \<and>
     (\<forall>g \<in> G. \<forall>x \<in> set (stk st). idx st g \<le> idx st x \<longrightarrow> (g, x) \<in> E\<^sup>*)"

definition sc_ext :: "sc_state \<Rightarrow> sc_state \<Rightarrow> bool" where
  "sc_ext st st' \<longleftrightarrow> visited st \<subseteq> visited st' \<and> index st \<le> index st' \<and>
     (\<forall>u \<in> visited st. idx st' u = idx st u \<and> low st' u = low st u)"

text \<open>What a finished call promises: the new stack entries \<open>T\<close> and the link of \<open>v\<close>.\<close>

definition link_ok :: "(vptr \<times> vptr) set \<Rightarrow> sc_state \<Rightarrow> vptr list \<Rightarrow> vptr \<Rightarrow> (vptr \<Rightarrow> vptr \<Rightarrow> bool) \<Rightarrow> vptr list \<Rightarrow> bool" where
  "link_ok E st S0 v edge T \<longleftrightarrow> low st v \<le> idx st v \<and>
     (low st v < idx st v \<longrightarrow> (\<exists>y \<in> set S0. idx st y = low st v \<and> (v, y) \<in> E\<^sup>*)) \<and>
     (\<forall>x \<in> set T. \<forall>y \<in> set S0. edge x y \<longrightarrow> low st v \<le> idx st y)"

definition sc_post ::
    "(vptr \<times> vptr) set \<Rightarrow> vptr set \<Rightarrow> sc_state \<Rightarrow> vptr \<Rightarrow> vptr list \<Rightarrow> sc_state \<Rightarrow> bool" where
  "sc_post E G st v ret st' \<longleftrightarrow>
     sc_inv E G st' \<and> sc_ext st st' \<and> v \<in> visited st' \<and> index st \<le> idx st' v \<and>
     (\<exists>T. stk st' = stk st @ T \<and> link_ok E st' (stk st) v (\<lambda>x y. (x, y) \<in> E) T) \<and>
     (stk st' = stk st \<longrightarrow> distinct ret \<and> set ret = scc_of E v)"

lemma sc_invI:
  assumes "set (stk st) \<subseteq> visited st" "G \<subseteq> set (stk st)"
    "sorted_wrt (\<lambda>x y. idx st x < idx st y) (stk st)"
    "\<And>x. x \<in> visited st \<Longrightarrow> idx st x < index st"
    "\<And>x y. x \<in> visited st \<Longrightarrow> x \<notin> G \<Longrightarrow> (x, y) \<in> E \<Longrightarrow> y \<in> visited st"
    "\<And>x y. x \<in> visited st \<Longrightarrow> x \<notin> set (stk st) \<Longrightarrow> (x, y) \<in> E \<Longrightarrow> y \<notin> set (stk st)"
    "\<And>x. x \<in> set (stk st) \<Longrightarrow> \<exists>g \<in> G. idx st g \<le> idx st x \<and> (x, g) \<in> E\<^sup>*"
    "\<And>g x. g \<in> G \<Longrightarrow> x \<in> set (stk st) \<Longrightarrow> idx st g \<le> idx st x \<Longrightarrow> (g, x) \<in> E\<^sup>*"
  shows "sc_inv E G st"
proof -
  have vis: "y \<in> visited st" if "x \<in> visited st" "x \<notin> set (stk st)" "(x, y) \<in> E" for x y
    using assms(2) assms(5) [of x y] that by blast
  show ?thesis unfolding sc_inv_def
    by (intro conjI ballI allI impI DiffI; (elim DiffE)?; (rule assms vis; assumption)?)
qed

lemma sc_invD:
  assumes "sc_inv E G st"
  shows "set (stk st) \<subseteq> visited st" "G \<subseteq> set (stk st)"
    "sorted_wrt (\<lambda>x y. idx st x < idx st y) (stk st)"
    "x \<in> visited st \<Longrightarrow> idx st x < index st"
    "x \<in> visited st \<Longrightarrow> x \<notin> G \<Longrightarrow> (x, y) \<in> E \<Longrightarrow> y \<in> visited st"
    "x \<in> visited st \<Longrightarrow> x \<notin> set (stk st) \<Longrightarrow> (x, y) \<in> E \<Longrightarrow> y \<in> visited st - set (stk st)"
    "x \<in> set (stk st) \<Longrightarrow> \<exists>g \<in> G. idx st g \<le> idx st x \<and> (x, g) \<in> E\<^sup>*"
    "g \<in> G \<Longrightarrow> x \<in> set (stk st) \<Longrightarrow> idx st g \<le> idx st x \<Longrightarrow> (g, x) \<in> E\<^sup>*"
  using assms unfolding sc_inv_def by blast+

text \<open>The invariant reads the indices and the stack only.\<close>

lemma sc_inv_cong:
  assumes "indexes st' = indexes st" "index st' = index st" "stk st' = stk st"
  shows "sc_inv E G st' = sc_inv E G st"
proof -
  have "idx st' = idx st" using assms(1) by (simp add: idx_def fun_eq_iff)
  with assms show ?thesis by (simp add: sc_inv_def)
qed

text \<open>
  The invariant of the loop over the edges of \<open>v\<close>: \<open>S0\<close> is the stack below \<open>v\<close> and \<open>D\<close> the
  neighbours handled so far.
\<close>

definition sc_loop ::
    "(vptr \<times> vptr) set \<Rightarrow> vptr set \<Rightarrow> vptr list \<Rightarrow> vptr \<Rightarrow> vptr set \<Rightarrow> sc_state \<Rightarrow> bool" where
  "sc_loop E G S0 v D st \<longleftrightarrow>
     sc_inv E (insert v G) st \<and> G \<subseteq> set S0 \<and> v \<notin> set S0 \<and> D \<subseteq> visited st \<and>
     (\<exists>T. stk st = S0 @ v # T \<and> v \<notin> set T \<and>
        link_ok E st S0 v (\<lambda>x y. (x, y) \<in> E \<and> (x = v \<longrightarrow> y \<in> D)) (v # T))"

lemma sc_enter_loop:
  assumes inv: "sc_inv E G st" and v: "v \<notin> visited st" and reach: "\<forall>g \<in> G. (g, v) \<in> E\<^sup>*"
  shows "sc_loop E G (stk st) v {} (sc_enter v st)"
proof -
  note D = sc_invD [OF inv]
  have vs: "v \<notin> set (stk st)" using D(1) v by blast
  have sub: "\<And>x. x \<in> set (stk st) \<Longrightarrow> idx st x < index st" using D(1,4) by blast
  have "sc_inv E (insert v G) (sc_enter v st)"
  proof (rule sc_invI, goal_cases)
    case 1 show ?case using D(1) by auto
  next
    case 2 show ?case using D(2) by auto
  next
    case 3
    have "sorted_wrt (\<lambda>x y. idx (sc_enter v st) x < idx (sc_enter v st) y) (stk st)"
      using D(3) vs by (elim sorted_wrt_mono_rel [rotated]) (auto split: if_splits)
    then show ?case using sub vs by (auto simp: sorted_wrt_append)
  next
    case (4 x) then show ?case using D(4) [of x] by (auto simp: less_Suc_eq)
  next
    case (5 x y) then show ?case using D(5) [of x y] by auto
  next
    case (6 x y) then show ?case using D(6) [of x y] v by auto
  next
    case (7 x) then show ?case
      using D(7) [of x] D(2) vs by (auto 0 3)
  next
    case (8 g x) then show ?case
      using D(8) [of g x] reach sub [of x] D(2) vs by (auto split: if_splits)
  qed
  moreover have "link_ok E (sc_enter v st) (stk st) v (\<lambda>x y. (x, y) \<in> E \<and> (x = v \<longrightarrow> y \<in> {})) [v]"
    by (simp add: link_ok_def)
  ultimately show ?thesis using vs D(2) by (simp add: sc_loop_def)
qed

lemma sc_seen_loop:
  assumes loop: "sc_loop E G S0 v D st" and w: "w \<in> visited st" and e: "(v, w) \<in> E"
  shows "sc_loop E G S0 v (insert w D) (sc_seen v w st)"
proof -
  from loop obtain T where inv: "sc_inv E (insert v G) st" and S: "stk st = S0 @ v # T"
    and link: "link_ok E st S0 v (\<lambda>x y. (x, y) \<in> E \<and> (x = v \<longrightarrow> y \<in> D)) (v # T)"
    unfolding sc_loop_def by blast
  have below: "w \<in> set S0" if "w \<in> set (stk st)" "idx st w < idx st v"
    using sorted_wrt_index_less [of "idx st" S0 v T w] sc_invD(3) [OF inv] that S by simp
  have "link_ok E (sc_seen v w st) S0 v (\<lambda>x y. (x, y) \<in> E \<and> (x = v \<longrightarrow> y \<in> insert w D)) (v # T)"
    unfolding link_ok_def
  proof (intro conjI impI ballI)
    show "low (sc_seen v w st) v \<le> idx (sc_seen v w st) v"
      using link by (auto simp: link_ok_def min.coboundedI1)
    assume less: "low (sc_seen v w st) v < idx (sc_seen v w st) v"
    show "\<exists>y \<in> set S0. idx (sc_seen v w st) y = low (sc_seen v w st) v \<and> (v, y) \<in> E\<^sup>*"
    proof (cases "low (sc_seen v w st) v = low st v")
      case True
      with less link show ?thesis by (simp add: link_ok_def)
    next
      case False
      then have "w \<in> set (stk st)" "low (sc_seen v w st) v = idx st w"
        by (auto simp: min_def split: if_splits)
      with less below e show ?thesis by (intro bexI [of _ w]) auto
    qed
  next
    fix x y
    assume x: "x \<in> set (v # T)" and y: "y \<in> set S0" and xy: "(x, y) \<in> E \<and> (x = v \<longrightarrow> y \<in> insert w D)"
    show "low (sc_seen v w st) v \<le> idx (sc_seen v w st) y"
    proof (cases "x = v \<and> y = w")
      case True
      with y S show ?thesis by simp
    next
      case False
      with x y xy link have "low st v \<le> idx st y" unfolding link_ok_def by blast
      then show ?thesis by (simp add: min.coboundedI1)
    qed
  qed
  with loop S w show ?thesis
    by (auto simp: sc_loop_def sc_inv_cong [of "sc_seen v w st" st])
qed

lemma sc_child_loop:
  assumes loop: "sc_loop E G S0 v D st" and w: "w \<notin> visited st" and e: "(v, w) \<in> E"
    and post: "sc_post E (insert v G) st w ret st1"
  shows "sc_loop E G S0 v (insert w D)
     (set_low v (if low st1 v < low st1 w then low st1 v else low st1 w) st1)"
    (is "sc_loop E G S0 v _ ?st'")
proof -
  from loop obtain T where inv: "sc_inv E (insert v G) st" and S: "stk st = S0 @ v # T"
    and link: "link_ok E st S0 v (\<lambda>x y. (x, y) \<in> E \<and> (x = v \<longrightarrow> y \<in> D)) (v # T)"
    unfolding sc_loop_def by blast
  from post obtain T1 where inv1: "sc_inv E (insert v G) st1" and ext: "sc_ext st st1"
    and wv: "w \<in> visited st1" "index st \<le> idx st1 w"
    and S1: "stk st1 = stk st @ T1" and link1: "link_ok E st1 (stk st) w (\<lambda>x y. (x, y) \<in> E) T1"
    unfolding sc_post_def by blast
  have old: "idx st1 u = idx st u \<and> low st1 u = low st u" if "u \<in> set (stk st)" for u
    using ext sc_invD(1) [OF inv] that unfolding sc_ext_def by blast
  have v: "v \<in> set (stk st)" using S by simp
  have idxvw: "idx st1 v < idx st1 w"
    using sc_invD(4) [OF inv, of v] sc_invD(1) [OF inv] v wv(2) old [OF v] by auto
  have vT1: "v \<notin> set T1"
    using sc_invD(3) [OF inv1] S1 v by (auto simp: sorted_wrt_append)
  have low': "low ?st' v = min (low st v) (low st1 w)" using old [OF v] by (simp add: min_def)
  have "link_ok E ?st' S0 v (\<lambda>x y. (x, y) \<in> E \<and> (x = v \<longrightarrow> y \<in> insert w D)) (v # T @ T1)"
    unfolding link_ok_def
  proof (intro conjI impI ballI)
    show "low ?st' v \<le> idx ?st' v"
      using low' link old [OF v] by (auto simp: link_ok_def)
    assume less: "low ?st' v < idx ?st' v"
    show "\<exists>y \<in> set S0. idx ?st' y = low ?st' v \<and> (v, y) \<in> E\<^sup>*"
    proof (cases "low ?st' v = low st v")
      case True
      with less old [OF v] have "low st v < idx st v" by simp
      with link obtain y where "y \<in> set S0" "idx st y = low st v" "(v, y) \<in> E\<^sup>*"
        unfolding link_ok_def by blast
      with True old S show ?thesis by (intro bexI [of _ y]) auto
    next
      case False
      then have lw: "low ?st' v = low st1 w" using low' by (simp add: min_def split: if_splits)
      with less idxvw have "low st1 w < idx st1 w" by simp
      with link1 obtain y where y: "y \<in> set (stk st)" "idx st1 y = low st1 w" "(w, y) \<in> E\<^sup>*"
        unfolding link_ok_def by blast
      with less lw old have "idx st y < idx st v" using v by simp
      then have "y \<in> set S0"
        using sorted_wrt_index_less [of "idx st" S0 v T y] sc_invD(3) [OF inv] y(1) S by simp
      with y lw e show ?thesis by (intro bexI [of _ y]) (auto intro: converse_rtrancl_into_rtrancl)
    qed
  next
    fix x y
    assume x: "x \<in> set (v # T @ T1)" and y: "y \<in> set S0"
      and xy: "(x, y) \<in> E \<and> (x = v \<longrightarrow> y \<in> insert w D)"
    have y': "y \<in> set (stk st)" using y S by simp
    then have "y \<noteq> w" using w sc_invD(1) [OF inv] by blast
    have "low st v \<le> idx st y \<or> low st1 w \<le> idx st1 y"
    proof (cases "x \<in> set T1")
      case True
      with link1 xy y' show ?thesis unfolding link_ok_def by blast
    next
      case False
      with x y xy link \<open>y \<noteq> w\<close> show ?thesis unfolding link_ok_def by auto
    qed
    then show "low ?st' v \<le> idx ?st' y"
      using low' old [OF y'] by (auto simp: min_le_iff_disj)
  qed
  with loop S S1 wv vT1 ext inv1 show ?thesis
    by (auto simp: sc_loop_def sc_ext_def sc_inv_cong [of ?st' st1])
qed

lemma sc_exit_pop:
  assumes loop: "sc_loop E G S0 v D st" and succ: "\<And>y. (v, y) \<in> E \<Longrightarrow> y \<in> D"
    and eq: "low st v = idx st v" and S: "stk st = S0 @ v # T"
  shows "sc_inv E G (st\<lparr>stk := S0\<rparr>)" and "set (v # T) = scc_of E v"
proof -
  from loop S have inv: "sc_inv E (insert v G) st" and G: "G \<subseteq> set S0" and v: "v \<notin> set S0"
    and D: "D \<subseteq> visited st" and vT: "v \<notin> set T"
    and link: "link_ok E st S0 v (\<lambda>x y. (x, y) \<in> E \<and> (x = v \<longrightarrow> y \<in> D)) (v # T)"
    unfolding sc_loop_def by auto
  note I = sc_invD [OF inv]
  have lt: "idx st x < idx st v" if "x \<in> set S0" for x
    using I(3) S that by (auto simp: sorted_wrt_append)
  have ge: "idx st v \<le> idx st x" if "x \<in> set (v # T)" for x
    using I(3) S that by (auto simp: sorted_wrt_append less_imp_le)
  have sel: "stk (st\<lparr>stk := S0\<rparr>) = S0" "indexes (st\<lparr>stk := S0\<rparr>) = indexes st"
    "index (st\<lparr>stk := S0\<rparr>) = index st" by simp_all
  show inv': "sc_inv E G (st\<lparr>stk := S0\<rparr>)"
  proof (rule sc_invI, simp_all only: idx_stk sel, goal_cases)
    case 1 show ?case using I(1) S by auto
  next
    case 2 show ?case by (rule G)
  next
    case 3 show ?case using I(3) S by (auto simp: sorted_wrt_append)
  next
    case (4 x) then show ?case by (rule I(4))
  next
    case (5 x y) then show ?case using I(5) [of x y] succ D by blast
  next
    case (6 x y)
    show ?case
    proof (cases "x \<in> set (stk st)")
      case True
      with 6 S have x: "x \<in> set (v # T)" by auto
      show ?thesis
      proof
        assume y: "y \<in> set S0"
        with link x succ [of y] 6 have "low st v \<le> idx st y" unfolding link_ok_def by blast
        with lt [OF y] eq show False by simp
      qed
    next
      case False
      with I(6) [of x y] 6 S show ?thesis by auto
    qed
  next
    case (7 x)
    with I(7) [of x] S obtain g where "g \<in> insert v G" "idx st g \<le> idx st x" "(x, g) \<in> E\<^sup>*" by auto
    with lt [OF 7] show ?case by auto
  next
    case (8 g x) then show ?case using I(8) [of g x] S by auto
  qed
  note I' = sc_invD [OF inv', unfolded idx_stk sel]
  show "set (v # T) = scc_of E v"
  proof (intro set_eqI iffI)
    fix x assume x: "x \<in> set (v # T)"
    with I(8) [of v x] ge S have "(v, x) \<in> E\<^sup>*" by auto
    moreover have "(x, v) \<in> E\<^sup>*"
    proof -
      from I(7) [of x] x S obtain g where g: "g \<in> insert v G" "(x, g) \<in> E\<^sup>*" by auto
      have "(g, v) \<in> E\<^sup>*" using I(8) [of g v] g(1) S G lt by (auto intro: less_imp_le)
      with g(2) show ?thesis by (rule rtrancl_trans)
    qed
    ultimately show "x \<in> scc_of E v" by (simp add: scc_of_def)
  next
    fix y assume "y \<in> scc_of E v"
    then have vy: "(v, y) \<in> E\<^sup>*" and yv: "(y, v) \<in> E\<^sup>*" by (simp_all add: scc_of_def)
    have "v \<in> visited st - set S0" using I(1) S v by auto
    with vy have y: "y \<in> visited st - set S0"
      by (rule rtrancl_closed) (use I'(6) in blast)
    show "y \<in> set (v # T)"
    proof (rule ccontr)
      assume "y \<notin> set (v # T)"
      with y S have "y \<in> visited st - set (stk st)" by auto
      with yv have "v \<in> visited st - set (stk st)"
        by (rule rtrancl_closed) (use I(6) in blast)
      with S show False by simp
    qed
  qed
qed

lemma sc_exit_keep:
  assumes loop: "sc_loop E G S0 v D st" and succ: "\<And>y. (v, y) \<in> E \<Longrightarrow> y \<in> D"
    and neq: "low st v \<noteq> idx st v"
  shows "sc_inv E G st"
proof -
  from loop obtain T where inv: "sc_inv E (insert v G) st" and G: "G \<subseteq> set S0"
    and S: "stk st = S0 @ v # T" and D: "D \<subseteq> visited st"
    and link: "link_ok E st S0 v (\<lambda>x y. (x, y) \<in> E \<and> (x = v \<longrightarrow> y \<in> D)) (v # T)"
    unfolding sc_loop_def by auto
  note I = sc_invD [OF inv]
  from link neq obtain y where y: "y \<in> set S0" "idx st y < idx st v" "(v, y) \<in> E\<^sup>*"
    unfolding link_ok_def by (auto simp: le_less)
  with I(7) [of y] S obtain g' where g': "g' \<in> G" "idx st g' \<le> idx st y" "(y, g') \<in> E\<^sup>*" by auto
  show ?thesis
  proof (rule sc_invI, goal_cases)
    case 1 show ?case by (rule I(1))
  next
    case 2 show ?case using G S by auto
  next
    case 3 show ?case by (rule I(3))
  next
    case (4 x) then show ?case by (rule I(4))
  next
    case (5 x y) then show ?case using I(5) [of x y] succ D by blast
  next
    case (6 x y) then show ?case using I(6) [of x y] by blast
  next
    case (7 x)
    with I(7) obtain g where g: "g \<in> insert v G" "idx st g \<le> idx st x" "(x, g) \<in> E\<^sup>*" by blast
    show ?case
    proof (cases "g = v")
      case True
      with g y g' show ?thesis
        by (intro bexI [of _ g']) (auto intro: rtrancl_trans)
    next
      case False
      with g show ?thesis by blast
    qed
  next
    case (8 g x) then show ?case using I(8) [of g x] by blast
  qed
qed

section \<open>Correctness\<close>

text \<open>The frame of a run of the edge loop of \<open>v\<close>: only the link of \<open>v\<close> may change.\<close>

definition sc_extv :: "vptr \<Rightarrow> sc_state \<Rightarrow> sc_state \<Rightarrow> bool" where
  "sc_extv v st st' \<longleftrightarrow> visited st \<subseteq> visited st' \<and> index st \<le> index st' \<and>
     (\<forall>u \<in> visited st. idx st' u = idx st u \<and> (u \<noteq> v \<longrightarrow> low st' u = low st u))"

lemma sc_extv_refl [simp]: "sc_extv v st st"
  by (simp add: sc_extv_def)

lemma sc_extv_trans: "sc_extv v st1 st2 \<Longrightarrow> sc_extv v st2 st3 \<Longrightarrow> sc_extv v st1 st3"
  unfolding sc_extv_def by (auto simp: subset_iff)

lemma sc_extv_seen: "sc_extv v st (sc_seen v w st)"
  by (auto simp: sc_extv_def)

lemma sc_extv_child: "sc_ext st st1 \<Longrightarrow> sc_extv v st (set_low v n st1)"
  by (auto simp: sc_extv_def sc_ext_def)

lemma sc_extv_enter:
  "v \<notin> visited st \<Longrightarrow> sc_extv v (sc_enter v st) st2 \<Longrightarrow> sc_ext st st2 \<and> idx st2 v = index st"
  by (auto simp: sc_extv_def sc_ext_def)

lemma sc_exit_post:
  assumes loop: "sc_loop E G (stk st) v D st2" and succ: "\<And>y. (v, y) \<in> E \<Longrightarrow> y \<in> D"
    and ext: "sc_ext st st2" and idxv: "idx st2 v = index st"
    and res: "res = (if low st2 v = idx st2 v
                then (let (ret, S) = pop_until v (stk st2) [] in Some (ret, st2\<lparr>stk := S\<rparr>))
                else Some ([], st2))"
  shows "\<exists>ret st'. res = Some (ret, st') \<and> sc_post E G st v ret st'"
proof -
  from loop obtain T where inv: "sc_inv E (insert v G) st2" and S: "stk st2 = stk st @ v # T"
    and vT: "v \<notin> set T"
    and link: "link_ok E st2 (stk st) v (\<lambda>x y. (x, y) \<in> E \<and> (x = v \<longrightarrow> y \<in> D)) (v # T)"
    unfolding sc_loop_def by blast
  have v: "v \<in> visited st2" using sc_invD(1) [OF inv] S by auto
  show ?thesis
  proof (cases "low st2 v = idx st2 v")
    case True
    note pop = sc_exit_pop [OF loop succ True S]
    from pop_until_split [OF vT, of "stk st" "[]"] S True res
    have "res = Some (rev T @ [v], st2\<lparr>stk := stk st\<rparr>)" by simp
    moreover have "distinct (rev T @ [v])"
    proof -
      have "sorted_wrt (\<lambda>x y. idx st2 x < idx st2 y) T"
        using sc_invD(3) [OF inv] S by (auto simp: sorted_wrt_append)
      then have "distinct T" by (induction T) auto
      with vT show ?thesis by simp
    qed
    moreover have "set (rev T @ [v]) = scc_of E v" using pop(2) by auto
    moreover have "sc_ext st (st2\<lparr>stk := stk st\<rparr>)" using ext by (simp add: sc_ext_def)
    ultimately have "sc_post E G st v (rev T @ [v]) (st2\<lparr>stk := stk st\<rparr>)"
      using pop(1) v idxv True by (simp add: sc_post_def link_ok_def)
    with \<open>res = Some _\<close> show ?thesis by blast
  next
    case False
    have "sc_inv E G st2" by (rule sc_exit_keep [OF loop succ False])
    moreover have "link_ok E st2 (stk st) v (\<lambda>x y. (x, y) \<in> E) (v # T)"
      using link succ unfolding link_ok_def by blast
    ultimately have "sc_post E G st v [] st2"
      using ext v idxv S by (auto simp: sc_post_def)
    with False res show ?thesis by auto
  qed
qed

lemma in_edges_to: "(v, w) \<in> edges_to h \<longleftrightarrow> w \<in> set (om_keys (to_of h v))"
  by (simp add: edges_to_def)

definition closed_heap :: "'t heap \<Rightarrow> bool" where
  "closed_heap h \<longleftrightarrow> (\<forall>v < length h. \<forall>w \<in> set (om_keys (to_of h v)). w < length h)"

lemma closed_heapD: "closed_heap h \<Longrightarrow> w \<in> set (om_keys (to_of h v)) \<Longrightarrow> w < length h"
  by (cases "v < length h") (force simp: closed_heap_def, simp add: to_of_def deref_def om_keys_def)

lemma strong_connect_correct:
  fixes h :: "'t heap"
  assumes closed: "closed_heap h"
  shows "sc_inv (edges_to h) G st \<Longrightarrow> v \<notin> visited st \<Longrightarrow> v < length h \<Longrightarrow>
           \<forall>g \<in> G. (g, v) \<in> (edges_to h)\<^sup>* \<Longrightarrow> card ({..<length h} - visited st) \<le> n \<Longrightarrow>
           \<exists>ret st'. strong_connect h n v st = Some (ret, st') \<and> sc_post (edges_to h) G st v ret st'"
    and "sc_loop (edges_to h) G S0 v D st \<Longrightarrow> \<forall>w \<in> set ws. (v, w) \<in> edges_to h \<Longrightarrow>
           \<forall>g \<in> G. (g, v) \<in> (edges_to h)\<^sup>* \<Longrightarrow> card ({..<length h} - visited st) \<le> n \<Longrightarrow>
           \<exists>st'. sc_edges h n v ws st = Some st' \<and> sc_loop (edges_to h) G S0 v (D \<union> set ws) st' \<and>
             sc_extv v st st'"
  using closed
proof (induction h n v st and h n v ws st arbitrary: G and G S0 D rule: strong_connect_sc_edges.induct)
  case (1 h v st)
  then show ?case by auto
next
  case (2 h n v st)
  let ?E = "edges_to h" and ?st1 = "sc_enter v st"
  have loop: "sc_loop ?E G (stk st) v {} ?st1" by (rule sc_enter_loop) (use 2 in auto)
  have "card ({..<length h} - visited ?st1) < card ({..<length h} - visited st)"
    by (rule card_diff_psubset [of _ v]) (use 2 in auto)
  with 2 have card: "card ({..<length h} - visited ?st1) \<le> n" by linarith
  have "\<exists>st'. sc_edges h n v (om_keys (to_of h v)) ?st1 = Some st' \<and>
      sc_loop ?E G (stk st) v ({} \<union> set (om_keys (to_of h v))) st' \<and> sc_extv v ?st1 st'"
    by (rule 2(1)) (use loop card 2 in \<open>auto simp: in_edges_to\<close>)
  then obtain st2 where st2: "sc_edges h n v (om_keys (to_of h v)) ?st1 = Some st2"
    and loop2: "sc_loop ?E G (stk st) v (set (om_keys (to_of h v))) st2" and ext: "sc_extv v ?st1 st2"
    by auto
  show ?case
    by (rule sc_exit_post [OF loop2])
      (use sc_extv_enter [OF _ ext] 2 st2 in \<open>auto simp: in_edges_to\<close>)
next
  case (3 h n v st)
  then show ?case by auto
next
  case (4 h n v w ws st)
  let ?E = "edges_to h"
  have w: "(v, w) \<in> ?E" using 4(5) by simp
  then have w_len: "w < length h" using closed_heapD [OF 4(8)] by (simp add: in_edges_to)
  show ?case
  proof (cases "om_get (indexes st) w = None")
    case True
    then have wv: "w \<notin> visited st" by (simp add: om.keys_get)
    have "\<exists>ret st'. strong_connect h n w st = Some (ret, st') \<and> sc_post ?E (insert v G) st w ret st'"
    proof (rule 4(1) [OF True])
      show "sc_inv ?E (insert v G) st" using 4(4) by (simp add: sc_loop_def)
      show "\<forall>g \<in> insert v G. (g, w) \<in> ?E\<^sup>*"
        using 4(6) w by (auto intro: rtrancl_into_rtrancl)
    qed (use wv w_len 4(7,8) in auto)
    then obtain ret st1 where st1: "strong_connect h n w st = Some (ret, st1)"
      and post: "sc_post ?E (insert v G) st w ret st1" by blast
    let ?st' = "set_low v (if low st1 v < low st1 w then low st1 v else low st1 w) st1"
    have ext: "sc_extv v st ?st'" using post by (auto simp: sc_post_def intro: sc_extv_child)
    then have "card ({..<length h} - visited ?st') \<le> card ({..<length h} - visited st)"
      by (intro card_mono) (auto simp: sc_extv_def)
    then have card: "card ({..<length h} - visited ?st') \<le> n" using 4(7) by linarith
    have "\<exists>st'. sc_edges h n v ws ?st' = Some st' \<and> sc_loop ?E G S0 v (insert w D \<union> set ws) st' \<and>
        sc_extv v ?st' st'"
      by (rule 4(2) [OF True st1 refl sc_child_loop [OF 4(4) wv w post]]) (use card 4(5-8) in auto)
    with True st1 ext show ?thesis by (auto intro: sc_extv_trans)
  next
    case False
    then have wv: "w \<in> visited st" by (simp add: om.keys_get)
    have "\<exists>st'. sc_edges h n v ws (sc_seen v w st) = Some st' \<and>
        sc_loop ?E G S0 v (insert w D \<union> set ws) st' \<and> sc_extv v (sc_seen v w st) st'"
      by (rule 4(3) [OF False sc_seen_loop [OF 4(4) wv w]]) (use 4(5-8) in auto)
    with False show ?thesis using sc_extv_seen [of v st w] by (auto intro: sc_extv_trans)
  qed
qed

lemma strong_connect_root:
  assumes "closed_heap h" and "v < length h"
  obtains ret st' where "strong_connect h (length h) v sc_init = Some (ret, st')"
    and "distinct ret" and "set ret = scc_of (edges_to h) v" and "stk st' = []"
proof -
  have "sc_inv (edges_to h) {} sc_init" by (simp add: sc_inv_def sc_init_def om_keys_def)
  with assms strong_connect_correct(1) [of h "{}" sc_init v "length h"] obtain ret st' where
    r: "strong_connect h (length h) v sc_init = Some (ret, st')"
    and post: "sc_post (edges_to h) {} sc_init v ret st'"
    by (auto simp: sc_init_def om_keys_def)
  from post have "stk st' = []"
    using sc_invD(7) [of "edges_to h" "{}" st'] by (cases "stk st'") (auto simp: sc_post_def)
  with r post show ?thesis by (intro that) (auto simp: sc_post_def sc_init_def)
qed

lemma find_scc_spec:
  assumes "closed_heap h" and "v < length h"
  shows "distinct (find_scc h v)" and "set (find_scc h v) = scc_of (edges_to h) v"
proof -
  from assms obtain ret st' where "strong_connect h (length h) v sc_init = Some (ret, st')"
    and "distinct ret" and "set ret = scc_of (edges_to h) v"
    by (rule strong_connect_root)
  then show "distinct (find_scc h v)" and "set (find_scc h v) = scc_of (edges_to h) v"
    by (simp_all add: find_scc_def)
qed

lemma wf_heap_closed:
  assumes "wf_heap h"
  shows "closed_heap h"
proof -
  have "w < length h" if "w \<in> set (om_keys (to_of h v))" for v w
    using that wf_heap_to [OF assms] by (force simp: om_keys_def deref_def split: if_splits)
  then show ?thesis by (auto simp: closed_heap_def)
qed

section \<open>Properties\<close>

definition two_cycle :: "uint64 heap" where
  "two_cycle = or_edge 2 0 2 (or_edge 1 0 1 (or_edge 0 1 1
     (replicate 3 (Some \<lparr>vfrom = [], vto = [], vdata = 5\<rparr>))))"

text \<open>C18. \<^verbatim>\<open>strong_connect\<close> started with empty maps at any vertex terminates within a recursion depth
  of the number of vertices, leaves an empty stack, and the vector it returns, which is the result
  of \<^verbatim>\<open>find_scc\<close>, lists the strongly connected component of the start vertex without
  repetition.\<close>

theorem find_scc_exact:
  assumes "closed_heap h" and "v < length h"
  shows "\<exists>ret st'. strong_connect h (length h) v sc_init = Some (ret, st') \<and> stk st' = [] \<and>
    find_scc h v = ret \<and> distinct ret \<and> set ret = scc_of (edges_to h) v"
proof -
  from assms obtain ret st' where "strong_connect h (length h) v sc_init = Some (ret, st')"
    "distinct ret" "set ret = scc_of (edges_to h) v" "stk st' = []"
    by (rule strong_connect_root)
  then show ?thesis by (simp add: find_scc_def)
qed

theorem find_scc_exact_witness: "distinct [1, 0::nat] \<and> scc_of (edges_to two_cycle) 0 = {0, 1}"
proof -
  have "wf_heap two_cycle" by code_simp
  then have "closed_heap two_cycle" by (rule wf_heap_closed)
  moreover have "0 < length two_cycle" by code_simp
  moreover have "find_scc two_cycle 0 = [1, 0]" by code_simp
  ultimately show ?thesis using find_scc_exact [of two_cycle 0] by auto
qed

end
