(* ===== verification/Graph_Order.thy ===== *)
theory Graph_Order
  imports Graph_Scc
begin

text \<open>
  \<^verbatim>\<open>Graph::sort_vv\<close> and \<^verbatim>\<open>Graph::sorted_scc\<close> (\<^verbatim>\<open>deptran/graph.h\<close>): the order in which a server
  commits the transactions of one strongly connected component. The theory shows that the result
  lists exactly the component and places every transaction after its immediate parents, when the
  function returns; that it does return under a condition on the edges; and that it aborts on a
  component with a member that has immediate parents both inside and outside of it.
\<close>

section \<open>sort\_vv\<close>

definition id_of :: "('t \<Rightarrow> uint64) \<Rightarrow> 't heap \<Rightarrow> vptr \<Rightarrow> uint64" where
  "id_of idf h v = (case deref h v of None \<Rightarrow> 0 | Some x \<Rightarrow> idf (vdata x))"

definition swap_if :: "('a \<Rightarrow> 'a \<Rightarrow> bool) \<Rightarrow> nat \<Rightarrow> 'a list \<Rightarrow> 'a list" where
  "swap_if out j vv =
     (if out (vv ! j) (vv ! Suc j) then vv[j := vv ! Suc j, Suc j := vv ! j] else vv)"

definition sort_pass :: "('a \<Rightarrow> 'a \<Rightarrow> bool) \<Rightarrow> nat \<Rightarrow> 'a list \<Rightarrow> 'a list" where
  "sort_pass out i vv = fold (swap_if out) [i ..< length vv - 1] vv"

definition sort_loops :: "('a \<Rightarrow> 'a \<Rightarrow> bool) \<Rightarrow> 'a list \<Rightarrow> 'a list" where
  "sort_loops out vv = fold (sort_pass out) [0 ..< length vv - 1] vv"

definition sort_vv :: "('a \<Rightarrow> uint64) \<Rightarrow> nat \<Rightarrow> 'a list \<Rightarrow> 'a list res" where
  "sort_vv key flag vv =
     verify (vv \<noteq> [])
       (if length vv = 1 then Inr vv
        else if flag = 0 then Inr (sort_loops (\<lambda>a b. key a > key b) vv)
        else if flag = 1 then Inr (sort_loops (\<lambda>a b. key a < key b) vv)
        else Inl VerifyFailed)"

lemma mset_swap_if: "Suc j < length vv \<Longrightarrow> mset (swap_if out j vv) = mset vv"
  using mset_swap [of "Suc j" vv j] by (simp add: swap_if_def)

lemma length_swap_if [simp]: "length (swap_if out j vv) = length vv"
  by (simp add: swap_if_def)

lemma fold_swap_if_inv:
  "\<forall>j \<in> set js. Suc j < length vv \<Longrightarrow>
     mset (fold (swap_if out) js vv) = mset vv \<and> length (fold (swap_if out) js vv) = length vv"
  by (induction js arbitrary: vv) (auto simp: mset_swap_if)

lemma sort_pass_inv: "mset (sort_pass out i vv) = mset vv \<and> length (sort_pass out i vv) = length vv"
  unfolding sort_pass_def by (rule fold_swap_if_inv) auto

lemma fold_sort_pass_inv:
  "mset (fold (sort_pass out) is vv) = mset vv \<and> length (fold (sort_pass out) is vv) = length vv"
  by (induction "is" arbitrary: vv) (auto simp: sort_pass_inv)

lemma mset_sort_loops [simp]: "mset (sort_loops out vv) = mset vv"
  by (simp add: sort_loops_def fold_sort_pass_inv)

lemma length_sort_loops [simp]: "length (sort_loops out vv) = length vv"
  by (simp add: sort_loops_def fold_sort_pass_inv)

lemma set_sort_loops [simp]: "set (sort_loops out vv) = set vv"
  by (rule mset_eq_setD) simp

lemma distinct_sort_loops [simp]: "distinct (sort_loops out vv) = distinct vv"
  by (rule mset_eq_imp_distinct_iff) simp

text \<open>
  The first pass carries an element of greatest rank to the end, and the later passes leave it
  there. For \<^verbatim>\<open>flag == 0\<close> the rank is the id, for \<^verbatim>\<open>flag == 1\<close> its negation.
\<close>

definition greatest_at :: "('a \<Rightarrow> int) \<Rightarrow> nat \<Rightarrow> 'a list \<Rightarrow> bool" where
  "greatest_at rank n vv \<longleftrightarrow> (\<forall>i \<le> n. rank (vv ! i) \<le> rank (vv ! n))"

lemma swap_if_greatest:
  assumes "Suc j < length vv" and "greatest_at rank j vv"
  shows "greatest_at rank (Suc j) (swap_if (\<lambda>a b. rank a > rank b) j vv)"
  using assms by (auto simp: greatest_at_def swap_if_def nth_list_update le_Suc_eq)

lemma first_pass_greatest:
  "n < length vv \<Longrightarrow> greatest_at rank n (fold (swap_if (\<lambda>a b. rank a > rank b)) [0 ..< n] vv)"
proof (induction n)
  case 0
  show ?case by (simp add: greatest_at_def)
next
  case (Suc n)
  have "length (fold (swap_if (\<lambda>a b. rank a > rank b)) [0 ..< n] vv) = length vv"
    using fold_swap_if_inv [of "[0 ..< n]" vv] Suc.prems by auto
  with Suc show ?case by (simp add: swap_if_greatest)
qed

lemma greatest_at_last:
  fixes rank :: "'a \<Rightarrow> int"
  assumes "greatest_at rank (length vv - 1) vv" and "x \<in> set vv"
  shows "rank x \<le> rank (last vv)"
proof -
  from assms(2) obtain i where "i < length vv" "x = vv ! i" by (auto simp: in_set_conv_nth)
  moreover from this have "i \<le> length vv - 1" "vv \<noteq> []" by auto
  ultimately show ?thesis using assms(1) by (simp add: greatest_at_def last_conv_nth)
qed

lemma swap_if_last:
  fixes rank :: "'a \<Rightarrow> int"
  assumes j: "Suc j < length vv" and top: "\<forall>x \<in> set vv. rank x \<le> rank (last vv)"
  shows "last (swap_if (\<lambda>a b. rank a > rank b) j vv) = last vv"
proof (cases "rank (vv ! j) > rank (vv ! Suc j)")
  case True
  from top j have "rank (vv ! j) \<le> rank (last vv)" by simp
  moreover have "vv \<noteq> []" using j by auto
  ultimately have "Suc j \<noteq> length vv - 1" using True by (auto simp: last_conv_nth)
  with j \<open>vv \<noteq> []\<close> show ?thesis
    by (subst (1 2) last_conv_nth) (auto simp: swap_if_def nth_list_update)
next
  case False
  then show ?thesis by (simp add: swap_if_def)
qed

lemma fold_swap_if_last:
  fixes rank :: "'a \<Rightarrow> int"
  assumes "\<forall>j \<in> set js. Suc j < length vv" and "\<forall>x \<in> set vv. rank x \<le> rank (last vv)"
  shows "last (fold (swap_if (\<lambda>a b. rank a > rank b)) js vv) = last vv"
  using assms
proof (induction js arbitrary: vv)
  case (Cons j js)
  let ?vv = "swap_if (\<lambda>a b. rank a > rank b) j vv"
  have "last ?vv = last vv" using Cons.prems by (intro swap_if_last) auto
  moreover have "set ?vv = set vv" using Cons.prems by (intro mset_eq_setD mset_swap_if) auto
  ultimately have "last (fold (swap_if (\<lambda>a b. rank a > rank b)) js ?vv) = last ?vv"
    using Cons.prems by (intro Cons.IH) auto
  with \<open>last ?vv = last vv\<close> show ?case by simp
qed simp

lemma fold_sort_pass_last:
  fixes rank :: "'a \<Rightarrow> int"
  assumes "\<forall>x \<in> set vv. rank x \<le> rank (last vv)"
  shows "last (fold (sort_pass (\<lambda>a b. rank a > rank b)) is vv) = last vv"
  using assms
proof (induction "is" arbitrary: vv)
  case (Cons i "is")
  let ?vv = "sort_pass (\<lambda>a b. rank a > rank b) i vv"
  have "last ?vv = last vv"
    unfolding sort_pass_def using Cons.prems by (intro fold_swap_if_last) auto
  moreover have "set ?vv = set vv" by (intro mset_eq_setD) (simp add: sort_pass_inv)
  ultimately show ?case using Cons by simp
qed simp

lemma sort_loops_last:
  fixes rank :: "'a \<Rightarrow> int"
  assumes "x \<in> set vv"
  shows "rank x \<le> rank (last (sort_loops (\<lambda>a b. rank a > rank b) vv))"
proof (cases "length vv \<le> 1")
  case True
  with assms show ?thesis by (cases vv) (auto simp: sort_loops_def)
next
  case False
  let ?out = "\<lambda>a b. rank a > rank b"
  let ?vv = "sort_pass ?out 0 vv"
  have "greatest_at rank (length vv - 1) ?vv"
    unfolding sort_pass_def using False by (intro first_pass_greatest) auto
  then have top: "\<forall>y \<in> set ?vv. rank y \<le> rank (last ?vv)"
    using greatest_at_last [of rank ?vv] sort_pass_inv [of ?out 0 vv] by simp
  have split: "[0 ..< length vv - 1] = 0 # [1 ..< length vv - 1]"
    using False by (simp add: upt_conv_Cons)
  have "sort_loops ?out vv = fold (sort_pass ?out) [1 ..< length vv - 1] ?vv"
    unfolding sort_loops_def split by simp
  moreover have "set ?vv = set vv" by (intro mset_eq_setD) (simp add: sort_pass_inv)
  ultimately show ?thesis using fold_sort_pass_last [OF top] top assms by simp
qed

lemma sort_vv_spec:
  assumes "sort_vv key flag vv = Inr vv'"
  shows "mset vv' = mset vv" and "set vv' = set vv" and "length vv' = length vv"
    and "distinct vv' = distinct vv"
  using assms by (auto simp: sort_vv_def split: if_splits)

lemma sort_vv_defined: "vv \<noteq> [] \<Longrightarrow> flag \<le> 1 \<Longrightarrow> \<exists>vv'. sort_vv key flag vv = Inr vv'"
  by (auto simp: sort_vv_def verify_def le_Suc_eq)

lemma sort_vv_last:
  assumes "sort_vv key flag vv = Inr vv'" and "x \<in> set vv"
  shows "(flag = 0 \<longrightarrow> key x \<le> key (last vv')) \<and> (flag = 1 \<longrightarrow> key (last vv') \<le> key x)"
proof (cases "length vv = 1")
  case True
  with assms show ?thesis by (cases vv) (auto simp: sort_vv_def)
next
  case False
  have "(\<lambda>a b. key b < key a) = (\<lambda>a b. uint (key b) < uint (key a))"
    "(\<lambda>a b. key a < key b) = (\<lambda>a b. - uint (key b) < - uint (key a))"
    by (simp_all add: word_less_def)
  with False assms sort_loops_last [of x vv "\<lambda>a. uint (key a)"]
    sort_loops_last [of x vv "\<lambda>a. - uint (key a)"]
  show ?thesis by (auto simp: sort_vv_def word_le_def)
qed

section \<open>sorted\_scc\<close>

definition WW :: int8 where "WW = 1"

text \<open>Members without a parent by an edge of type greater than \<^verbatim>\<open>WW\<close> inside the component.\<close>

definition scc_start :: "'t heap \<Rightarrow> vptr list \<Rightarrow> vptr list" where
  "scc_start h scc_set =
     filter (\<lambda>v. \<not> list_ex (\<lambda>(vt, r). sint WW < sint r \<and> vt \<in> set scc_set) (from_of h v)) scc_set"

definition imm_children :: "'t heap \<Rightarrow> vptr list \<Rightarrow> vptr \<Rightarrow> vptr list" where
  "imm_children h scc_set v = map fst (filter (\<lambda>(vt, r). 2 \<le> sint r \<and> vt \<in> set scc_set) (to_of h v))"

text \<open>\<^verbatim>\<open>all_p_v\<close>: every parent by an immediate edge has \<^verbatim>\<open>dfs_status == 1\<close>; the vertices with that
  status are exactly the ones pushed to \<^verbatim>\<open>ret2\<close>.\<close>

definition all_visited :: "'t heap \<Rightarrow> vptr list \<Rightarrow> vptr \<Rightarrow> bool" where
  "all_visited h ret2 cv = list_all (\<lambda>(p, r). sint r < 2 \<or> p \<in> set ret2) (from_of h cv)"

fun topo_loop ::
    "(vptr \<Rightarrow> uint64) \<Rightarrow> 't heap \<Rightarrow> vptr list \<Rightarrow> nat \<Rightarrow> vptr list \<Rightarrow> vptr list \<Rightarrow> vptr list res" where
  "topo_loop key h scc_set n [] ret2 = Inr ret2"
| "topo_loop key h scc_set 0 start_vv ret2 = Inl OutOfFuel"
| "topo_loop key h scc_set (Suc n) start_vv ret2 =
     (let v = last start_vv; ret2' = ret2 @ [v]; children = imm_children h scc_set v
      in rbind (if children = [] then Inr [] else sort_vv key 0 children)
           (\<lambda>cs. topo_loop key h scc_set n (butlast start_vv @ filter (all_visited h ret2') cs) ret2'))"

definition sorted_scc :: "(vptr \<Rightarrow> uint64) \<Rightarrow> 't heap \<Rightarrow> vptr \<Rightarrow> vptr list res" where
  "sorted_scc key h v =
     (case strong_connect h (length h) v sc_init of
        None \<Rightarrow> Inl OutOfFuel
      | Some (ret, _) \<Rightarrow>
          verify (ret \<noteq> [])
            (let scc_set = os_of ret in
             verify (length scc_set = length ret)
               (let start_vv = scc_start h scc_set in
                verify (start_vv \<noteq> [])
                  (rbind (sort_vv key 1 start_vv)
                    (\<lambda>st. rbind (topo_loop key h scc_set (length ret) st [])
                      (\<lambda>ret2. verify (length ret2 = length ret) (Inr ret2)))))))"

subsection \<open>The topological loop\<close>

definition iparents :: "'t heap \<Rightarrow> vptr \<Rightarrow> vptr set" where
  "iparents h c = {p. \<exists>r. (p, r) \<in> set (from_of h c) \<and> 2 \<le> sint r}"

lemma all_visited_iff: "all_visited h ret2 c \<longleftrightarrow> iparents h c \<subseteq> set ret2"
  by (fastforce simp: all_visited_def iparents_def list_all_iff not_less)

lemma scc_start_iff: "v \<in> set (scc_start h C) \<longleftrightarrow> v \<in> set C \<and> iparents h v \<inter> set C = {}"
proof -
  have "(sint WW < sint r) = (2 \<le> sint r)" for r :: int8 by (auto simp: WW_def)
  then show ?thesis by (auto simp: scc_start_def iparents_def list_ex_iff)
qed

lemma imm_children_iff:
  "wf_heap h \<Longrightarrow> c \<in> set (imm_children h C v) \<longleftrightarrow> c \<in> set C \<and> v \<in> iparents h c"
  using wf_heap_mirror [of h] by (fastforce simp: imm_children_def iparents_def image_iff)

lemma distinct_imm_children:
  assumes "wf_heap h"
  shows "distinct (imm_children h C v)"
proof -
  have "distinct (map fst (to_of h v))"
    using wf_heap_om_inv(1) [OF assms] by (rule om_inv_distinct)
  then show ?thesis
    by (auto simp: imm_children_def distinct_map intro: inj_on_subset)
qed

definition topo_inv :: "'t heap \<Rightarrow> vptr set \<Rightarrow> vptr list \<Rightarrow> vptr list \<Rightarrow> bool" where
  "topo_inv h C st ret2 \<longleftrightarrow>
     distinct (ret2 @ st) \<and> set (ret2 @ st) \<subseteq> C \<and>
     (\<forall>x \<in> set st. iparents h x \<inter> C \<subseteq> set ret2) \<and>
     (\<forall>i < length ret2. iparents h (ret2 ! i) \<inter> C \<subseteq> set (take i ret2)) \<and>
     (\<forall>x \<in> set (ret2 @ st). iparents h x \<inter> C = {} \<or> iparents h x \<subseteq> C) \<and>
     (\<forall>c \<in> C. iparents h c \<inter> C = {} \<or> iparents h c \<subseteq> set ret2 \<longrightarrow> c \<in> set (ret2 @ st))"

lemma topo_fresh:
  assumes "topo_inv h C st ret2" and "v \<in> set st" and "v \<in> iparents h c"
  shows "c \<notin> set (ret2 @ st)"
proof
  assume "c \<in> set (ret2 @ st)"
  have v: "v \<in> C" "v \<notin> set ret2" using assms by (auto simp: topo_inv_def)
  have "iparents h c \<inter> C \<subseteq> set ret2"
  proof (cases "c \<in> set st")
    case True
    with assms(1) show ?thesis by (simp add: topo_inv_def)
  next
    case False
    with \<open>c \<in> set (ret2 @ st)\<close> obtain i where "i < length ret2" "c = ret2 ! i"
      by (auto simp: in_set_conv_nth)
    with assms(1) have "iparents h c \<inter> C \<subseteq> set (take i ret2)" by (simp add: topo_inv_def)
    then show ?thesis using set_take_subset by fast
  qed
  with v assms(3) show False by blast
qed

lemma topo_step:
  assumes inv: "topo_inv h C (st @ [v]) ret2"
    and cs: "distinct cs" "set cs = {c \<in> C. v \<in> iparents h c}"
  shows "topo_inv h C (st @ filter (all_visited h (ret2 @ [v])) cs) (ret2 @ [v])"
proof -
  let ?new = "filter (all_visited h (ret2 @ [v])) cs"
  have new: "c \<in> set ?new \<longleftrightarrow> c \<in> C \<and> v \<in> iparents h c \<and> iparents h c \<subseteq> set (ret2 @ [v])" for c
    by (auto simp: cs(2) all_visited_iff)
  have fresh: "set ?new \<inter> set (ret2 @ st @ [v]) = {}"
    using topo_fresh [OF inv, of v] new by fastforce
  have old: "distinct (ret2 @ st @ [v])" "set (ret2 @ st @ [v]) \<subseteq> C"
    "\<And>x. x \<in> set (st @ [v]) \<Longrightarrow> iparents h x \<inter> C \<subseteq> set ret2"
    "\<And>i. i < length ret2 \<Longrightarrow> iparents h (ret2 ! i) \<inter> C \<subseteq> set (take i ret2)"
    "\<And>x. x \<in> set (ret2 @ st @ [v]) \<Longrightarrow> iparents h x \<inter> C = {} \<or> iparents h x \<subseteq> C"
    "\<And>c. c \<in> C \<Longrightarrow> iparents h c \<inter> C = {} \<or> iparents h c \<subseteq> set ret2 \<Longrightarrow> c \<in> set (ret2 @ st @ [v])"
    using inv unfolding topo_inv_def by auto
  have order: "iparents h ((ret2 @ [v]) ! i) \<inter> C \<subseteq> set (take i (ret2 @ [v]))"
    if "i < length (ret2 @ [v])" for i
    using that old(3) [of v] old(4) [of i] by (cases "i < length ret2") (auto simp: nth_append)
  have entered: "c \<in> set ((ret2 @ [v]) @ st @ ?new)"
    if c: "c \<in> C" "iparents h c \<inter> C = {} \<or> iparents h c \<subseteq> set (ret2 @ [v])" for c
  proof (cases "v \<in> iparents h c")
    case True
    with c old(2) have "c \<in> set ?new" by (subst new) auto
    then show ?thesis by simp
  next
    case False
    with c have "iparents h c \<inter> C = {} \<or> iparents h c \<subseteq> set ret2" by auto
    from old(6) [OF c(1) this] show ?thesis by auto
  qed
  have inC: "iparents h x \<inter> C = {} \<or> iparents h x \<subseteq> C" if "x \<in> set ((ret2 @ [v]) @ st @ ?new)" for x
  proof (cases "x \<in> set ?new")
    case True
    with new old(2) show ?thesis by (intro disjI2) fastforce
  next
    case False
    with that show ?thesis by (intro old(5)) auto
  qed
  have "iparents h x \<inter> C \<subseteq> set (ret2 @ [v])" if "x \<in> set (st @ ?new)" for x
    using that old(3) [of x] new [of x] by auto
  moreover have "distinct ((ret2 @ [v]) @ st @ ?new)" using old(1) fresh cs(1) by auto
  moreover have "set ((ret2 @ [v]) @ st @ ?new) \<subseteq> C" using old(2) new by auto
  ultimately show ?thesis unfolding topo_inv_def using order entered inC by blast
qed

lemma topo_loop_inv:
  assumes "wf_heap h" and "topo_inv h (set C) st ret2" and "length C \<le> n + length ret2"
  shows "\<exists>r. topo_loop key h C n st ret2 = Inr r \<and> topo_inv h (set C) [] r"
  using assms(2,3)
proof (induction key h\<equiv>h C n st ret2 rule: topo_loop.induct)
  case (2 key C s st ret2)
  have "card (set (ret2 @ s # st)) \<le> card (set C)"
    using "2.prems"(1) by (intro card_mono) (auto simp: topo_inv_def)
  moreover have "card (set (ret2 @ s # st)) = length (ret2 @ s # st)"
    using "2.prems"(1) by (intro distinct_card) (simp add: topo_inv_def)
  moreover have "card (set C) \<le> length C" by (rule card_length)
  ultimately show ?case using "2.prems"(2) by simp
next
  case (3 key C n s st ret2)
  let ?v = "last (s # st)" and ?ch = "imm_children h C (last (s # st))"
  have ch: "distinct ?ch" "set ?ch = {c \<in> set C. ?v \<in> iparents h c}"
    using distinct_imm_children [OF assms(1)] imm_children_iff [OF assms(1)] by auto
  obtain cs where cs: "(if ?ch = [] then Inr [] else sort_vv key 0 ?ch) = Inr cs"
    using sort_vv_defined [of ?ch 0 key] by (cases "?ch = []") (auto simp del: last.simps)
  then have "distinct cs" "set cs = {c \<in> set C. ?v \<in> iparents h c}"
    using ch sort_vv_spec [of key 0 ?ch cs] by (auto split: if_splits)
  moreover have "topo_inv h (set C) (butlast (s # st) @ [?v]) ret2"
    using "3.prems"(1) by (simp only: append_butlast_last_id list.distinct not_False_eq_True)
  ultimately have
    "topo_inv h (set C) (butlast (s # st) @ filter (all_visited h (ret2 @ [?v])) cs) (ret2 @ [?v])"
    by (intro topo_step)
  from "3.hyps" [OF refl refl refl this] "3.prems"(2) cs show ?case
    by (simp del: last.simps butlast.simps add: Let_def)
qed auto

lemma topo_start: "topo_inv h (set C) st []" if "distinct st" "set st = set (scc_start h C)"
  using that by (auto simp: topo_inv_def scc_start_iff)

subsection \<open>When sorted\_scc returns\<close>

text \<open>The immediate edges inside a component, and the condition on them under which the loop covers
  the component: they have no cycle, and a member with an immediate parent inside has all of them
  inside.\<close>

definition iedges :: "'t heap \<Rightarrow> vptr set \<Rightarrow> (vptr \<times> vptr) set" where
  "iedges h C = {(p, c). p \<in> C \<and> c \<in> C \<and> p \<in> iparents h c}"

definition orderable :: "'t heap \<Rightarrow> vptr set \<Rightarrow> bool" where
  "orderable h C \<longleftrightarrow> acyclic (iedges h C) \<and> (\<forall>c \<in> C. iparents h c \<inter> C = {} \<or> iparents h c \<subseteq> C)"

definition follows_parents :: "'t heap \<Rightarrow> vptr set \<Rightarrow> vptr list \<Rightarrow> bool" where
  "follows_parents h C r \<longleftrightarrow> (\<forall>i < length r. iparents h (r ! i) \<inter> C \<subseteq> set (take i r))"

lemma wf_iedges: "finite C \<Longrightarrow> acyclic (iedges h C) \<Longrightarrow> wf (iedges h C)"
  by (rule finite_acyclic_wf) (auto simp: iedges_def intro: finite_subset [of _ "C \<times> C"])

lemma topo_complete:
  assumes "finite C" and "orderable h C" and "topo_inv h C [] r" and "c \<in> C"
  shows "c \<in> set r"
proof -
  have "wf (iedges h C)" using assms(1,2) by (simp add: orderable_def wf_iedges)
  then show ?thesis using assms(4)
  proof (induction c rule: wf_induct_rule)
    case (less c)
    have "iparents h c \<inter> C \<subseteq> set r" using less by (auto simp: iedges_def)
    then have "iparents h c \<inter> C = {} \<or> iparents h c \<subseteq> set r"
      using assms(2) less.prems by (auto simp: orderable_def)
    with assms(3) less.prems show ?case by (auto simp: topo_inv_def)
  qed
qed

lemma acyclic_follows:
  assumes "distinct r" and "follows_parents h C r" and "C \<subseteq> set r"
  shows "acyclic (iedges h C)"
proof -
  define pos where "pos x = length (takeWhile (\<lambda>y. y \<noteq> x) r)" for x
  have pos: "pos (r ! i) = i" if "i < length r" for i
    unfolding pos_def
    using that assms(1) by (subst takeWhile_eq_take_P_nth [of i]) (auto simp: nth_eq_iff_index_eq)
  have "iedges h C \<subseteq> measure pos"
  proof (clarsimp simp: iedges_def)
    fix p c assume pc: "p \<in> C" "c \<in> C" "p \<in> iparents h c"
    then obtain i where i: "i < length r" "c = r ! i" using assms(3) by (metis in_set_conv_nth subsetD)
    with pc assms(2) have "p \<in> set (take i r)" by (auto simp: follows_parents_def)
    then obtain j where "j < i" "j < length r" "p = r ! j" by (auto simp: in_set_conv_nth)
    with i pos show "pos p < pos c" by simp
  qed
  then show ?thesis using wf_measure wf_subset wf_acyclic by blast
qed

lemma scc_start_nonempty:
  assumes "acyclic (iedges h (set C))" and "C \<noteq> []"
  shows "scc_start h C \<noteq> []"
proof -
  obtain c where c: "c \<in> set C" using assms(2) by (cases C) auto
  from wf_iedges [OF finite_set assms(1)]
  have "\<forall>Q x. x \<in> Q \<longrightarrow> (\<exists>z \<in> Q. \<forall>y. (y, z) \<in> iedges h (set C) \<longrightarrow> y \<notin> Q)"
    by (simp only: wf_eq_minimal)
  from this [rule_format, OF c] obtain m where
    m: "m \<in> set C" "\<forall>y. (y, m) \<in> iedges h (set C) \<longrightarrow> y \<notin> set C" ..
  have "y \<notin> set C" if "y \<in> iparents h m" for y
    using m that unfolding iedges_def by blast
  then have "m \<in> set (scc_start h C)" using m(1) by (auto simp: scc_start_iff)
  then show ?thesis by (cases "scc_start h C") auto
qed

lemma topo_inv_final:
  assumes "topo_inv h C [] r"
  shows "distinct r" and "set r \<subseteq> C" and "follows_parents h C r"
    and "\<forall>x \<in> set r. iparents h x \<inter> C = {} \<or> iparents h x \<subseteq> C"
  using assms by (simp_all add: topo_inv_def follows_parents_def)

text \<open>The loop of \<open>sorted_scc\<close> on a component \<open>C\<close>, run to its end.\<close>

lemma sorted_scc_loop:
  assumes "wf_heap h" and "distinct C" and "scc_start h C \<noteq> []"
  obtains st r where "sort_vv key 1 (scc_start h C) = Inr st"
    and "topo_loop key h C (length C) st [] = Inr r" and "topo_inv h (set C) [] r"
proof -
  obtain st where st: "sort_vv key 1 (scc_start h C) = Inr st"
    using sort_vv_defined [OF assms(3), of 1] by auto
  have "distinct (scc_start h C)" using assms(2) by (simp add: scc_start_def)
  with sort_vv_spec [OF st] have "topo_inv h (set C) st []" by (intro topo_start) auto
  from topo_loop_inv [OF assms(1) this, of "length C" key] st that show ?thesis by auto
qed

lemma orderable_iff_complete:
  assumes "topo_inv h (set C) [] r" and "distinct C"
  shows "length r = length C \<longleftrightarrow> orderable h (set C)"
proof
  note f = topo_inv_final [OF assms(1)]
  assume "length r = length C"
  then have "card (set r) = card (set C)" using f(1) assms(2) by (simp add: distinct_card)
  then have "set r = set C" using f(2) by (intro card_subset_eq) auto
  with f acyclic_follows [OF f(1,3)] show "orderable h (set C)" by (auto simp: orderable_def)
next
  note f = topo_inv_final [OF assms(1)]
  assume "orderable h (set C)"
  from topo_complete [OF finite_set this assms(1)] f(2) have "set r = set C" by blast
  then show "length r = length C" using f(1) assms(2) by (metis distinct_card)
qed

lemma sorted_scc_cases:
  assumes "wf_heap h" and "v < length h"
  shows "if orderable h (scc_of (edges_to h) v)
    then \<exists>r. sorted_scc key h v = Inr r \<and> distinct r \<and> set r = scc_of (edges_to h) v \<and>
           follows_parents h (scc_of (edges_to h) v) r
    else sorted_scc key h v = Inl VerifyFailed"
proof -
  let ?S = "scc_of (edges_to h) v"
  obtain ret st' where ret: "strong_connect h (length h) v sc_init = Some (ret, st')"
    "distinct ret" "set ret = ?S"
    using strong_connect_root [OF wf_heap_closed [OF assms(1)] assms(2)] by metis
  let ?C = "os_of ret"
  have C: "distinct ?C" "set ?C = ?S" "length ?C = length ret" "?C \<noteq> []" "ret \<noteq> []"
    using ret(2,3) scc_of_refl [of v "edges_to h"] distinct_card [of ret] distinct_card [of ?C]
    by (auto simp del: scc_of_refl)
  show ?thesis
  proof (cases "scc_start h ?C = []")
    case True
    then have "\<not> acyclic (iedges h ?S)" using scc_start_nonempty [of h ?C] C(2,4) by auto
    moreover have "sorted_scc key h v = Inl VerifyFailed"
      using True ret(1) C(3,5) by (simp add: sorted_scc_def Let_def)
    ultimately show ?thesis by (simp add: orderable_def)
  next
    case False
    obtain st r where r: "sort_vv key 1 (scc_start h ?C) = Inr st"
      "topo_loop key h ?C (length ?C) st [] = Inr r" "topo_inv h (set ?C) [] r"
      using sorted_scc_loop [OF assms(1) C(1) False] by metis
    have run: "sorted_scc key h v = verify (length r = length ret) (Inr r)"
      using False ret(1) C(3,5) r(1,2) by (simp add: sorted_scc_def Let_def)
    have iff: "length r = length ret \<longleftrightarrow> orderable h ?S"
      using orderable_iff_complete [OF r(3) C(1)] C(2,3) by simp
    note f = topo_inv_final [OF r(3), unfolded C(2)]
    have "set r = ?S" if "orderable h ?S"
      using topo_complete [OF _ that, of r] r(3) f(2) C(2) finite_set [of ?C] by auto
    with run iff f show ?thesis by auto
  qed
qed

section \<open>Properties\<close>

text \<open>Two transactions in a cycle of one immediate edge (type \<^verbatim>\<open>RW\<close>) and one \<^verbatim>\<open>WW\<close> edge; the
  second heap has a third transaction, outside the cycle, with an immediate edge into it.\<close>

definition cycle_heap :: "uint64 heap" where
  "cycle_heap = or_edge 1 0 1 (or_edge 0 1 2
     [Some \<lparr>vfrom = [], vto = [], vdata = 10\<rparr>, Some \<lparr>vfrom = [], vto = [], vdata = 11\<rparr>])"

definition outside_heap :: "uint64 heap" where
  "outside_heap = or_edge 2 1 2 (or_edge 1 0 1 (or_edge 0 1 2
     [Some \<lparr>vfrom = [], vto = [], vdata = 10\<rparr>, Some \<lparr>vfrom = [], vto = [], vdata = 11\<rparr>,
      Some \<lparr>vfrom = [], vto = [], vdata = 12\<rparr>]))"

lemma cycle_heap_wf: "wf_heap cycle_heap" and outside_heap_wf: "wf_heap outside_heap"
  by code_simp+

lemma cycle_heap_iparents: "iparents cycle_heap c = (if c = 1 then {0} else {})"
proof -
  have "from_of cycle_heap 0 = [(1, 1)]" "from_of cycle_heap 1 = [(0, 2)]" "length cycle_heap = 2"
    by code_simp+
  moreover have "from_of cycle_heap c = []" if "2 \<le> c"
    using that \<open>length cycle_heap = 2\<close> by (simp add: from_of_def deref_def)
  moreover have "c = 0 \<or> c = 1 \<or> 2 \<le> c" by arith
  ultimately show ?thesis by (auto simp: iparents_def)
qed

lemma cycle_heap_orderable: "orderable cycle_heap C"
proof -
  have "iedges cycle_heap C \<subseteq> measure id" by (auto simp: iedges_def cycle_heap_iparents split: if_splits)
  then have "acyclic (iedges cycle_heap C)" using wf_measure wf_subset wf_acyclic by blast
  then show ?thesis by (auto simp: orderable_def cycle_heap_iparents)
qed



text \<open>C31. A transaction of the component that has an immediate parent in it and another outside of
  it makes \<^verbatim>\<open>sorted_scc\<close> abort: the start set ignores parents outside the component, as its
  comment says it should, and the loop over the children waits for them all the same.\<close>

theorem sorted_scc_outside_parent:
  assumes "wf_heap h" and "v < length h"
    and "c \<in> scc_of (edges_to h) v" and "p \<in> iparents h c" and "p \<in> scc_of (edges_to h) v"
    and "q \<in> iparents h c" and "q \<notin> scc_of (edges_to h) v"
  shows "sorted_scc key h v = Inl VerifyFailed"
proof -
  have "\<not> orderable h (scc_of (edges_to h) v)" using assms(3-7) by (auto simp: orderable_def)
  with sorted_scc_cases [OF assms(1,2), of key] show ?thesis by simp
qed

lemma outside_heap_scc:
  "1 \<in> scc_of (edges_to outside_heap) 0" "2 \<notin> scc_of (edges_to outside_heap) 0"
proof -
  have e: "find_scc outside_heap 0 = [1, 0]" by code_simp
  have "0 < length outside_heap" by code_simp
  from find_scc_spec(2) [OF wf_heap_closed [OF outside_heap_wf] this] e
  have s: "scc_of (edges_to outside_heap) 0 = {0, 1}" by auto
  show "1 \<in> scc_of (edges_to outside_heap) 0" "2 \<notin> scc_of (edges_to outside_heap) 0"
    unfolding s by simp_all
qed

lemma outside_heap_iparents: "0 \<in> iparents outside_heap 1" "2 \<in> iparents outside_heap 1"
proof -
  have "from_of outside_heap 1 = [(0, 2), (2, 2)]" by code_simp
  then show "0 \<in> iparents outside_heap 1" "2 \<in> iparents outside_heap 1" by (auto simp: iparents_def)
qed

theorem sorted_scc_outside_parent_witness:
  "sorted_scc (id_of id outside_heap) outside_heap 0 = Inl VerifyFailed"
proof -
  have "0 < length outside_heap" by code_simp
  with sorted_scc_outside_parent [OF outside_heap_wf _ outside_heap_scc(1) outside_heap_iparents(1) _
      outside_heap_iparents(2) outside_heap_scc(2)]
  show ?thesis by simp
qed

text \<open>\<^verbatim>\<open>sort_vv\<close> on a non-empty vector with flag 0 or 1 returns a permutation of it that ends
  with an element of greatest (flag 0) or smallest (flag 1) id.\<close>

theorem sort_vv_extreme_last:
  assumes "vv \<noteq> []" and "flag \<le> 1"
  shows "\<exists>vv'. sort_vv key flag vv = Inr vv' \<and> mset vv' = mset vv \<and>
    (\<forall>x. x \<in> set vv \<longrightarrow> (if flag = 0 then key x \<le> key (last vv') else key (last vv') \<le> key x))"
proof -
  obtain vv' where "sort_vv key flag vv = Inr vv'" using sort_vv_defined [OF assms] by blast
  with sort_vv_spec(1) [OF this] sort_vv_last [OF this] assms(2) show ?thesis by (auto simp: le_Suc_eq)
qed

theorem sort_vv_extreme_last_witness:
  "\<exists>vv'. sort_vv id 0 [3, 2, 1] = Inr vv' \<and> mset vv' = mset [3, 2, 1] \<and>
     (\<forall>x. x \<in> set [3, 2, 1] \<longrightarrow> x \<le> last vv')"
  using sort_vv_extreme_last [of "[3, 2, 1]" 0 id] by simp

text \<open>\<^verbatim>\<open>sort_vv\<close> does not sort: the inner loop starts at \<open>i\<close> and not at 0, so that only the first
  pass can move a small id away from the front. Three vertices with descending ids end in the order
  second, third, first, although flag 0 asks for ascending ids.\<close>

lemma sort_vv_not_sorting:
  assumes "key c < key b" and "key b < key a"
  shows "sort_vv key 0 [a, b, c] = Inr [b, c, a]"
proof -
  have "key c < key a" "\<not> key a < key c" using assms by (simp_all add: not_less)
  then show ?thesis
    using assms by (simp add: sort_vv_def sort_loops_def sort_pass_def swap_if_def upt_rec)
qed

end
