(* ===== verification/Graph_Search.thy ===== *)
theory Graph_Search
  imports Graph_Scc
begin

text \<open>
  The ancestor searches of \<^verbatim>\<open>deptran/graph.h\<close> that do not look into the data of a vertex:
  \<^verbatim>\<open>find_ancestor\<close>, \<^verbatim>\<open>find_scc_ancestor\<close> and the lookups of a component by data or id, with
  \<^verbatim>\<open>find_txn_nearest_anc\<close> and \<^verbatim>\<open>find_txn_scc_nearest_anc\<close> of \<^verbatim>\<open>deptran/dep_graph.hpp\<close>. What they
  rely on of \<^verbatim>\<open>find_scc\<close> is the contract \<open>scc_finder\<close>, which the model of Tarjan's algorithm
  satisfies.
\<close>

section \<open>find\_ancestor\<close>

function (sequential) anc_loop :: "'t heap \<Rightarrow> vptr list \<Rightarrow> vptr list \<Rightarrow> vptr list" where
  "anc_loop h togo ret =
     (if togo = [] then ret
      else let v = last togo; togo1 = butlast togo in
        if v \<in> set ret then anc_loop h togo1 ret
        else let ret1 = os_ins v ret in
          anc_loop h (togo1 @ filter (\<lambda>p. p \<notin> set ret1) (om_keys (from_of h v))) ret1)"
  by pat_completeness auto
termination
proof (relation "(\<lambda>(h, togo, ret). card ({..<length h} - set ret)) <*mlex*>
    measure (\<lambda>(h, togo, ret). length togo)", goal_cases)
  case 1
  show ?case by (intro wf_mlex) simp
next
  case (2 h togo ret v togo1)
  then show ?case by (intro mlex_leq) auto
next
  case (3 h togo ret v togo1 ret1)
  show ?case
  proof (cases "v < length h")
    case True
    have "card ({..<length h} - insert v (set ret)) < card ({..<length h} - set ret)"
      using True 3 by (intro card_diff_psubset [of _ v]) auto
    then show ?thesis using 3 by (intro mlex_less) simp
  next
    case False
    have "card ({..<length h} - insert v (set ret)) \<le> card ({..<length h} - set ret)"
      by (intro card_mono) auto
    then show ?thesis using 3 False by (intro mlex_leq) (auto simp: from_of_def deref_def om_keys_def)
  qed
qed

declare anc_loop.simps [simp del]

definition find_ancestor :: "'t heap \<Rightarrow> vptr \<Rightarrow> vptr list" where
  "find_ancestor h v = os_erase v (anc_loop h [v] [])"

text \<open>The vertices found so far and the stack: everything on them reaches the start vertex, and the
  parents of a found vertex are found or on the stack.\<close>

definition anc_inv :: "'t heap \<Rightarrow> vptr set \<Rightarrow> vptr list \<Rightarrow> vptr list \<Rightarrow> bool" where
  "anc_inv h A togo ret \<longleftrightarrow> set ret \<union> set togo \<subseteq> A \<and> sorted_wrt (<) ret \<and>
     (\<forall>x \<in> set ret. set (om_keys (from_of h x)) \<subseteq> set ret \<union> set togo)"

lemma anc_inv_pop: "anc_inv h A (togo @ [v]) ret \<Longrightarrow> v \<in> set ret \<Longrightarrow> anc_inv h A togo ret"
  by (auto simp: anc_inv_def)

lemma anc_inv_visit:
  assumes "anc_inv h A (togo @ [v]) ret" and "\<And>x. x \<in> A \<Longrightarrow> set (om_keys (from_of h x)) \<subseteq> A"
  shows "anc_inv h A (togo @ filter (\<lambda>p. p \<notin> set (os_ins v ret)) (om_keys (from_of h v))) (os_ins v ret)"
  using assms unfolding anc_inv_def by auto

lemma anc_loop_spec:
  assumes "anc_inv h A togo ret" and "\<And>x. x \<in> A \<Longrightarrow> set (om_keys (from_of h x)) \<subseteq> A"
  shows "set togo \<union> set ret \<subseteq> set (anc_loop h togo ret) \<and> anc_inv h A [] (anc_loop h togo ret)"
  using assms(1)
proof (induction h\<equiv>h togo ret rule: anc_loop.induct)
  case (1 togo ret)
  let ?v = "last togo" and ?t = "butlast togo"
  show ?case
  proof (cases "togo = []")
    case True
    then show ?thesis using 1 by (simp add: anc_loop.simps)
  next
    case False
    then have togo: "togo = ?t @ [?v]" by simp
    then have st: "set togo = insert ?v (set ?t)" by (metis set_append Un_insert_right list.simps(15) sup_bot.right_neutral empty_set)
    have inv: "anc_inv h A (?t @ [?v]) ret" using "1.prems" togo by simp
    show ?thesis
    proof (cases "?v \<in> set ret")
      case True
      from "1.hyps"(1) [OF False refl refl True anc_inv_pop [OF inv True]]
      show ?thesis using True False st by (simp add: anc_loop.simps [of h togo]) blast
    next
      case new: False
      have "set (os_ins ?v ret) \<subseteq> set (anc_loop h togo ret) \<and> anc_inv h A [] (anc_loop h togo ret) \<and>
        set ?t \<subseteq> set (anc_loop h togo ret)"
        using "1.hyps"(2) [OF False refl refl new refl anc_inv_visit [OF inv assms(2)]] False new
        by (simp add: anc_loop.simps [of h togo] Let_def)
      then show ?thesis using st by simp
    qed
  qed
qed

lemma set_from_keys: "set (om_keys (from_of h x)) = {p. (p, x) \<in> edges_from h}"
  by (simp add: edges_from_def)

lemma find_ancestor_set: "set (find_ancestor h v) = {u. (u, v) \<in> (edges_from h)\<^sup>*} - {v}"
proof -
  let ?A = "{u. (u, v) \<in> (edges_from h)\<^sup>*}" and ?r = "anc_loop h [v] []"
  have cl: "set (om_keys (from_of h x)) \<subseteq> ?A" if "x \<in> ?A" for x
    using that by (auto simp: set_from_keys intro: converse_rtrancl_into_rtrancl)
  have "anc_inv h ?A [v] []" by (simp add: anc_inv_def)
  from anc_loop_spec [OF this cl] have r: "v \<in> set ?r" "anc_inv h ?A [] ?r" by auto
  have "?A \<subseteq> set ?r"
  proof
    fix u assume "u \<in> ?A"
    then have "(v, u) \<in> ((edges_from h)\<inverse>)\<^sup>*" by (simp add: rtrancl_converse)
    then show "u \<in> set ?r"
      by (rule rtrancl_closed) (use r in \<open>auto simp: anc_inv_def set_from_keys\<close>)
  qed
  with r(2) have "set ?r = ?A" by (auto simp: anc_inv_def)
  then show ?thesis by (simp add: find_ancestor_def)
qed

section \<open>The contract of find\_scc and its clients\<close>

definition find_scc_data :: "('t \<Rightarrow> uint64) \<Rightarrow> 't heap \<Rightarrow> graph \<Rightarrow> 't \<Rightarrow> vptr list res" where
  "find_scc_data idf h g d =
     (case gfind_data idf g d of None \<Rightarrow> Inl VerifyFailed | Some v \<Rightarrow> Inr (find_scc h v))"

definition find_scc_id :: "'t heap \<Rightarrow> graph \<Rightarrow> uint64 \<Rightarrow> vptr list res" where
  "find_scc_id h g i = (case gfind g i of None \<Rightarrow> Inl VerifyFailed | Some v \<Rightarrow> Inr (find_scc h v))"

definition find_scc_ancestor :: "'t heap \<Rightarrow> vptr \<Rightarrow> vptr list" where
  "find_scc_ancestor h v = fold os_erase (find_scc h v) (find_ancestor h v)"

definition find_txn_nearest_anc :: "'t heap \<Rightarrow> vptr \<Rightarrow> vptr list \<Rightarrow> vptr list" where
  "find_txn_nearest_anc h v ret_set = fold os_ins (om_keys (from_of h v)) ret_set"

definition find_txn_scc_nearest_anc :: "'t heap \<Rightarrow> vptr \<Rightarrow> vptr list \<Rightarrow> vptr list" where
  "find_txn_scc_nearest_anc h v ret_set =
     (let scc = find_scc h v in fold os_erase scc (fold (find_txn_nearest_anc h) scc ret_set))"

text \<open>What the clients rely on: on a heap the finder accepts, it returns the component of the
  vertex in the relation \<open>edges\<close>, without repetition.\<close>

locale scc_finder =
  fixes find :: "'h \<Rightarrow> 'v \<Rightarrow> 'v list"
    and edges :: "'h \<Rightarrow> ('v \<times> 'v) set"
    and ok :: "'h \<Rightarrow> 'v \<Rightarrow> bool"
  assumes find_set: "ok h v \<Longrightarrow> set (find h v) = scc_of (edges h) v"
    and find_distinct: "ok h v \<Longrightarrow> distinct (find h v)"
begin

lemma find_nonempty: "ok h v \<Longrightarrow> find h v \<noteq> []"
  using find_set [of h v] by (metis scc_of_refl empty_iff list.set(1))

lemma find_mem_same: "ok h v \<Longrightarrow> ok h w \<Longrightarrow> w \<in> set (find h v) \<Longrightarrow> set (find h w) = set (find h v)"
  by (simp add: find_set scc_of_eq)

lemma find_cong: "ok h v \<Longrightarrow> ok h w \<Longrightarrow> w \<in> set (find h v) \<longleftrightarrow> v \<in> set (find h w)"
  by (auto simp: find_set scc_of_def)

lemma find_length: "ok h v \<Longrightarrow> length (find h v) = card (scc_of (edges h) v)"
  using find_set find_distinct by (metis distinct_card)

text \<open>Ancestors of the component outside of it reach every member and are reached by none.\<close>

lemma ancestors_outside:
  assumes "ok h v" and "u \<in> {u. (u, v) \<in> (edges h)\<^sup>*} - set (find h v)" and "w \<in> set (find h v)"
  shows "(u, w) \<in> (edges h)\<^sup>* \<and> (w, u) \<notin> (edges h)\<^sup>*"
  using assms by (auto simp: find_set scc_of_def intro: rtrancl_trans)

end

interpretation tarjan: scc_finder find_scc edges_to "\<lambda>h v. closed_heap h \<and> v < length h"
  by unfold_locales (auto simp: find_scc_spec)

lemma find_scc_ancestor_set:
  assumes "wf_heap h" and "v < length h"
  shows "set (find_scc_ancestor h v) = {u. (u, v) \<in> (edges_to h)\<^sup>* \<and> (v, u) \<notin> (edges_to h)\<^sup>*}"
  using assms wf_heap_closed [OF assms(1)]
  by (auto simp: find_scc_ancestor_def set_fold_os_erase find_ancestor_set wf_heap_edges
      tarjan.find_set scc_of_def)

lemma set_nearest_anc:
  "set (fold (find_txn_nearest_anc h) vs ret) = (\<Union>v \<in> set vs. {p. (p, v) \<in> edges_from h}) \<union> set ret"
  by (induction vs arbitrary: ret)
    (auto simp: find_txn_nearest_anc_def set_fold_os_ins set_from_keys)

text \<open>\<^verbatim>\<open>find_ancestor\<close> terminates and returns the vertices other than the start that reach it;
  \<^verbatim>\<open>find_scc_ancestor\<close> those of them that it does not reach, so every vertex it returns reaches the
  component of the start from outside.\<close>

theorem find_scc_ancestor_exact:
  assumes "wf_heap h" and "v < length h"
  shows "set (find_ancestor h v) = {u. (u, v) \<in> (edges_to h)\<^sup>*} - {v} \<and>
    set (find_scc_ancestor h v) = {u. (u, v) \<in> (edges_to h)\<^sup>* \<and> (v, u) \<notin> (edges_to h)\<^sup>*} \<and>
    set (find_scc_ancestor h v) = set (find_ancestor h v) - set (find_scc h v)"
  using find_scc_ancestor_set [OF assms] find_ancestor_set [of h v] wf_heap_edges [OF assms(1)]
  by (simp add: find_scc_ancestor_def set_fold_os_erase)

theorem find_scc_ancestor_exact_witness:
  "set (find_ancestor two_cycle 0) = {u. (u, 0) \<in> (edges_to two_cycle)\<^sup>*} - {0} \<and>
    find_ancestor two_cycle 0 = [1, 2] \<and> find_scc_ancestor two_cycle 0 = [2]"
proof -
  have "wf_heap two_cycle" by code_simp
  moreover have "0 < length two_cycle" by code_simp
  moreover have "find_ancestor two_cycle 0 = [1, 2]" "find_scc_ancestor two_cycle 0 = [2]" by code_simp+
  ultimately show ?thesis using find_scc_ancestor_exact [of two_cycle 0] by blast
qed

text \<open>\<^verbatim>\<open>find_txn_scc_nearest_anc\<close>, which decides which transactions a commit waits for, returns
  exactly the direct predecessors of members of the component that are not members themselves; each
  of them reaches the whole component, and no member reaches it.\<close>

theorem scc_nearest_anc_exact:
  assumes "wf_heap h" and "v < length h"
  shows "set (find_txn_scc_nearest_anc h v []) =
      {p. p \<notin> scc_of (edges_to h) v \<and> (\<exists>w \<in> scc_of (edges_to h) v. (p, w) \<in> edges_to h)} \<and>
    (\<forall>p \<in> set (find_txn_scc_nearest_anc h v []). \<forall>w \<in> scc_of (edges_to h) v.
      (p, w) \<in> (edges_to h)\<^sup>* \<and> (w, p) \<notin> (edges_to h)\<^sup>*)"
proof -
  let ?S = "scc_of (edges_to h) v"
  have fs: "set (find_scc h v) = ?S" using assms by (simp add: tarjan.find_set wf_heap_closed)
  have eq: "set (find_txn_scc_nearest_anc h v []) = {p. p \<notin> ?S \<and> (\<exists>w \<in> ?S. (p, w) \<in> edges_to h)}"
    using fs wf_heap_edges [OF assms(1)]
    by (auto simp: find_txn_scc_nearest_anc_def Let_def set_fold_os_erase set_nearest_anc)
  have "(p, w) \<in> (edges_to h)\<^sup>* \<and> (w, p) \<notin> (edges_to h)\<^sup>*"
    if "p \<in> set (find_txn_scc_nearest_anc h v [])" "w \<in> ?S" for p w
  proof -
    from that(1) eq obtain x where "x \<in> ?S" "(p, x) \<in> edges_to h" "p \<notin> ?S" by auto
    then have "(p, v) \<in> (edges_to h)\<^sup>*" by (auto simp: scc_of_def intro: converse_rtrancl_into_rtrancl)
    then show ?thesis
      using tarjan.ancestors_outside [of h v p w] assms wf_heap_closed [OF assms(1)] fs \<open>p \<notin> ?S\<close> that(2)
      by simp
  qed
  with eq show ?thesis by blast
qed

theorem scc_nearest_anc_exact_witness: "find_txn_scc_nearest_anc two_cycle 0 [] = [2] \<and>
    (2, 1) \<in> (edges_to two_cycle)\<^sup>* \<and> 2 \<notin> scc_of (edges_to two_cycle) 0"
proof -
  have "wf_heap two_cycle" "0 < length two_cycle" by code_simp+
  moreover have e: "find_txn_scc_nearest_anc two_cycle 0 [] = [2]" by code_simp
  moreover have "1 \<in> scc_of (edges_to two_cycle) 0"
  proof -
    have "find_scc two_cycle 0 = [1, 0]" by code_simp
    then show ?thesis
      using tarjan.find_set [of two_cycle 0] calculation(1,2) wf_heap_closed [of two_cycle] by auto
  qed
  ultimately show ?thesis using scc_nearest_anc_exact [of two_cycle 0] by auto
qed

end
