(* ===== verification/Txn_Info.thy ===== *)
theory Txn_Info
  imports Rococo_Prelude
begin

text \<open>
  The transaction record of \<^verbatim>\<open>deptran/txn_info.h\<close>: a status that is a set of bits in an
  \<^verbatim>\<open>int8_t\<close>, the servers involved, and the events waiting for the status to reach a value. The
  balls that wait (\<^verbatim>\<open>DragonBall\<close>, of the rrr library) are identifiers; an operation that triggers
  balls returns them in the order in which it triggers them.
\<close>

section \<open>Status bits and the record\<close>

definition TXN_UNKNOWN :: int8 where "TXN_UNKNOWN = 0x00"
definition TXN_START :: int8 where "TXN_START = 0x01"
definition TXN_FINISH :: int8 where "TXN_FINISH = 0x02"
definition TXN_COMMIT :: int8 where "TXN_COMMIT = 0x04"
definition TXN_ABORT :: int8 where "TXN_ABORT = 0x08"

lemmas txn_status_defs = TXN_UNKNOWN_def TXN_START_def TXN_FINISH_def TXN_COMMIT_def TXN_ABORT_def

type_synonym ball = nat

text \<open>The keys of \<^verbatim>\<open>events_\<close> are \<^verbatim>\<open>int8_t\<close> in their signed order; the model keys the map by the
  signed value. \<open>res\<close> is the pointer to the finish response, an identifier.\<close>

record txn_info =
  status :: int8
  txn_id :: uint64
  servers :: "uint32 list"
  committed :: bool
  during_commit :: bool
  during_asking :: bool
  res_ptr :: "nat option"
  events :: "(int, ball list) omap"

definition new_txn_info :: txn_info where
  "new_txn_info = \<lparr>status = TXN_UNKNOWN, txn_id = 0, servers = [], committed = False,
     during_commit = False, during_asking = False, res_ptr = None, events = []\<rparr>"

definition set_txn_id :: "txn_info \<Rightarrow> uint64 \<Rightarrow> txn_info" where
  "set_txn_id ti i = ti\<lparr>txn_id := i\<rparr>"

definition is_commit :: "txn_info \<Rightarrow> bool" where
  "is_commit ti \<longleftrightarrow> status ti AND TXN_COMMIT \<noteq> 0"

definition is_finish :: "txn_info \<Rightarrow> bool" where
  "is_finish ti \<longleftrightarrow> status ti AND TXN_FINISH \<noteq> 0"

definition is_involved :: "uint32 \<Rightarrow> txn_info \<Rightarrow> bool" where
  "is_involved site ti \<longleftrightarrow> site \<in> set (servers ti)"

text \<open>\<^verbatim>\<open>random_server\<close> advances an iterator by a random number \<open>i\<close> and then returns the element at
  \<^verbatim>\<open>begin()\<close>.\<close>

definition random_server :: "nat \<Rightarrow> txn_info \<Rightarrow> uint32 res" where
  "random_server i ti = verify (length (servers ti) > 0) (Inr (servers ti ! 0))"

section \<open>Events\<close>

text \<open>One entry of the loop of \<^verbatim>\<open>trigger\<close>: the balls are popped from the back.\<close>

definition fire_entry :: "int8 \<Rightarrow> int \<times> ball list \<Rightarrow> ball list" where
  "fire_entry s kv = (if fst kv \<le> sint s then rev (snd kv) else [])"

definition rest_entry :: "int8 \<Rightarrow> int \<times> ball list \<Rightarrow> int \<times> ball list" where
  "rest_entry s kv = (if fst kv \<le> sint s then (fst kv, []) else kv)"

definition trigger :: "txn_info \<Rightarrow> ball list \<times> txn_info" where
  "trigger ti = (concat (map (fire_entry (status ti)) (events ti)),
                 ti\<lparr>events := map (rest_entry (status ti)) (events ti)\<rparr>)"

definition union_status :: "uint32 \<Rightarrow> int8 \<Rightarrow> bool \<Rightarrow> bool \<Rightarrow> txn_info \<Rightarrow> ball list \<times> txn_info" where
  "union_status site s is_trigger is_server ti =
     (let ti1 = (if is_server \<and> is_involved site ti then ti else ti\<lparr>status := status ti OR s\<rparr>)
      in if is_trigger then trigger ti1 else ([], ti1))"

definition union_data :: "uint32 \<Rightarrow> txn_info \<Rightarrow> bool \<Rightarrow> bool \<Rightarrow> txn_info \<Rightarrow> ball list \<times> txn_info" where
  "union_data site other is_trigger is_server ti =
     union_status site (status other) is_trigger is_server
       (ti\<lparr>servers := fold os_ins (servers other) (servers ti)\<rparr>)"

definition register_event :: "int8 \<Rightarrow> ball \<Rightarrow> txn_info \<Rightarrow> ball list \<times> txn_info" where
  "register_event s b ti =
     (if sint s \<le> sint (status ti) then ([b], ti)
      else ([], ti\<lparr>events := om_put (sint s)
                     ((case om_get (events ti) (sint s) of None \<Rightarrow> [] | Some bs \<Rightarrow> bs) @ [b]) (events ti)\<rparr>))"

section \<open>The status only grows\<close>

text \<open>The statuses of the code are sums of the five bits and so not negative.\<close>

definition status_ok :: "int8 \<Rightarrow> bool" where
  "status_ok s \<longleftrightarrow> 0 \<le> sint s"

lemma sint_OR: "sint (a OR b :: int8) = sint a OR sint b"
  by (simp add: signed_or_eq)

lemma status_ok_OR [simp]: "status_ok (a OR b) \<longleftrightarrow> status_ok a \<and> status_ok b"
  by (simp add: status_ok_def sint_OR)

lemma status_grows: "status_ok s \<Longrightarrow> sint a \<le> sint (a OR s)"
  by (simp add: status_ok_def sint_OR or_greater_eq)

lemma trigger_status [simp]: "status (snd (trigger ti)) = status ti" "servers (snd (trigger ti)) = servers ti"
  "txn_id (snd (trigger ti)) = txn_id ti"
  by (simp_all add: trigger_def)

lemma union_status_status:
  "status (snd (union_status site s tr sv ti)) =
     (if sv \<and> is_involved site ti then status ti else status ti OR s)"
  "servers (snd (union_status site s tr sv ti)) = servers ti"
  "txn_id (snd (union_status site s tr sv ti)) = txn_id ti"
  by (simp_all add: union_status_def Let_def)

lemma register_event_sel [simp]:
  "status (snd (register_event s b ti)) = status ti" "servers (snd (register_event s b ti)) = servers ti"
  "txn_id (snd (register_event s b ti)) = txn_id ti"
  by (simp_all add: register_event_def)

section \<open>Every waiting ball fires exactly once\<close>

text \<open>The balls waiting, and the invariant that nobody waits for a status already reached.\<close>

definition waiting :: "txn_info \<Rightarrow> ball multiset" where
  "waiting ti = mset (concat (map snd (events ti)))"

definition events_inv :: "txn_info \<Rightarrow> bool" where
  "events_inv ti \<longleftrightarrow> om_inv (events ti) \<and>
     (\<forall>kv \<in> set (events ti). snd kv \<noteq> [] \<longrightarrow> sint (status ti) < fst kv)"

lemma fire_rest: "mset (fire_entry s kv) + mset (snd (rest_entry s kv)) = mset (snd kv)"
  by (simp add: fire_entry_def rest_entry_def)

lemma trigger_conserves: "mset (fst (trigger ti)) + waiting (snd (trigger ti)) = waiting ti"
proof -
  have "mset (concat (map (fire_entry s) evs)) + mset (concat (map snd (map (rest_entry s) evs)))
      = mset (concat (map snd evs))" for s evs
  proof (induction evs)
    case (Cons kv evs)
    show ?case using fire_rest [of s kv] Cons.IH by (simp flip: fire_rest [of s kv] Cons.IH add: union_ac)
  qed simp
  then show ?thesis by (simp add: trigger_def waiting_def)
qed

lemma map_fst_rest [simp]: "map fst (map (rest_entry s) evs) = map fst evs"
  by (simp add: rest_entry_def)

lemma trigger_inv: "om_inv (events ti) \<Longrightarrow> events_inv (snd (trigger ti))"
proof -
  assume "om_inv (events ti)"
  then have "om_inv (map (rest_entry (status ti)) (events ti))"
    unfolding om_inv_def map_fst_rest .
  then show ?thesis by (auto simp: events_inv_def trigger_def rest_entry_def split: if_splits)
qed

lemma trigger_fired:
  "b \<in> set (fst (trigger ti)) \<longleftrightarrow> (\<exists>kv \<in> set (events ti). fst kv \<le> sint (status ti) \<and> b \<in> set (snd kv))"
  by (auto simp: trigger_def fire_entry_def)

lemma mset_concat_put:
  "om_inv m \<Longrightarrow> mset (concat (map snd (om_put k ((case om_get m k of None \<Rightarrow> [] | Some bs \<Rightarrow> bs) @ [b]) m)))
     = add_mset b (mset (concat (map snd m)))"
proof (induction m)
  case (Cons kv m)
  show ?case
  proof (cases "fst kv = k")
    case True
    then show ?thesis by (cases kv) (simp add: om_get_def)
  next
    case False
    have "om_inv m" using Cons.prems by (simp add: om_inv_def)
    moreover have "k < fst kv \<Longrightarrow> om_get m k = None"
      using Cons.prems by (force simp: om_get_None_iff om_inv_def)
    ultimately show ?thesis using Cons.IH False by (cases kv) (auto simp: om_get_def)
  qed
qed simp

lemma register_conserves:
  "om_inv (events ti) \<Longrightarrow>
    mset (fst (register_event s b ti)) + waiting (snd (register_event s b ti)) = add_mset b (waiting ti)"
  by (simp add: register_event_def waiting_def mset_concat_put)

lemma set_om_put: "kv \<in> set (om_put k v m) \<Longrightarrow> kv = (k, v) \<or> kv \<in> set m"
  by (induction m) (auto split: if_splits)

lemma register_inv: "events_inv ti \<Longrightarrow> events_inv (snd (register_event s b ti))"
  by (auto simp: events_inv_def register_event_def dest!: set_om_put)

lemma union_status_inv: "events_inv ti \<Longrightarrow> events_inv (snd (union_status site s True sv ti))"
  unfolding union_status_def by (auto simp: Let_def events_inv_def [of ti] intro!: trigger_inv)

lemma union_status_conserves:
  "mset (fst (union_status site s True sv ti)) + waiting (snd (union_status site s True sv ti)) = waiting ti"
  using trigger_conserves [of ti] trigger_conserves [of "ti\<lparr>status := status ti OR s\<rparr>"]
  by (simp add: union_status_def Let_def waiting_def)

text \<open>A history of one transaction: registrations and status updates in any order.\<close>

datatype txn_op = Register int8 ball | UnionStatus int8 bool | UnionData txn_info bool

fun txn_step :: "uint32 \<Rightarrow> txn_op \<Rightarrow> txn_info \<Rightarrow> ball list \<times> txn_info" where
  "txn_step site (Register s b) ti = register_event s b ti"
| "txn_step site (UnionStatus s sv) ti = union_status site s True sv ti"
| "txn_step site (UnionData other sv) ti = union_data site other True sv ti"

fun txn_run :: "uint32 \<Rightarrow> txn_op list \<Rightarrow> txn_info \<Rightarrow> ball list \<times> txn_info" where
  "txn_run site [] ti = ([], ti)"
| "txn_run site (a # as) ti =
     (let (f1, ti1) = txn_step site a ti; (f2, ti2) = txn_run site as ti1 in (f1 @ f2, ti2))"

fun registered :: "txn_op list \<Rightarrow> ball multiset" where
  "registered [] = {#}"
| "registered (Register s b # as) = add_mset b (registered as)"
| "registered (_ # as) = registered as"

fun op_status_ok :: "txn_op \<Rightarrow> bool" where
  "op_status_ok (Register s b) = True"
| "op_status_ok (UnionStatus s sv) = status_ok s"
| "op_status_ok (UnionData other sv) = status_ok (status other)"

lemma events_inv_servers [simp]: "events_inv (ti\<lparr>servers := S\<rparr>) = events_inv ti"
  "waiting (ti\<lparr>servers := S\<rparr>) = waiting ti"
  by (simp_all add: events_inv_def waiting_def)

lemma txn_step_inv: "events_inv ti \<Longrightarrow> events_inv (snd (txn_step site a ti))"
  by (cases a) (simp_all add: register_inv union_status_inv union_data_def)

lemma txn_step_conserves:
  "events_inv ti \<Longrightarrow>
    mset (fst (txn_step site a ti)) + waiting (snd (txn_step site a ti)) = registered [a] + waiting ti"
  by (cases a) (simp_all add: register_conserves events_inv_def union_status_conserves union_data_def)

lemma txn_step_grows:
  "op_status_ok a \<Longrightarrow> sint (status ti) \<le> sint (status (snd (txn_step site a ti)))"
  by (cases a) (simp_all add: union_status_status union_data_def status_grows)

lemma registered_Cons: "registered (a # as) = registered [a] + registered as"
  by (cases a) simp_all

lemma txn_run_events:
  assumes "events_inv ti"
  shows "mset (fst (txn_run site as ti)) + waiting (snd (txn_run site as ti)) = registered as + waiting ti
    \<and> events_inv (snd (txn_run site as ti))"
  using assms
proof (induction as arbitrary: ti)
  case (Cons a as)
  obtain f1 ti1 where s: "txn_step site a ti = (f1, ti1)" by fastforce
  obtain f2 ti2 where r: "txn_run site as ti1 = (f2, ti2)" by fastforce
  have "events_inv ti1" "mset f1 + waiting ti1 = registered [a] + waiting ti"
    using txn_step_inv [OF Cons.prems, of site a] txn_step_conserves [OF Cons.prems, of site a] s by simp_all
  with Cons.IH [of ti1] r have "events_inv ti2"
    "mset f1 + (mset f2 + waiting ti2) = registered [a] + registered as + waiting ti"
    by (simp_all add: union_ac)
  then show ?case using s r by (simp add: registered_Cons [of a as] union_ac)
qed simp

lemma txn_run_grows:
  "list_all op_status_ok as \<Longrightarrow> sint (status ti) \<le> sint (status (snd (txn_run site as ti)))"
proof (induction as arbitrary: ti)
  case (Cons a as)
  then show ?case
    using txn_step_grows [of a ti site] Cons.IH [of "snd (txn_step site a ti)"]
    by (auto simp: split_beta Let_def intro: order_trans)
qed simp



lemma txn_run_commit: "is_commit ti \<Longrightarrow> is_commit (snd (txn_run site as ti))"
proof (induction as arbitrary: ti)
  case (Cons a as)
  have "is_commit (snd (txn_step site a ti))"
    using Cons.prems
    by (cases a) (auto simp: is_commit_def union_status_status union_data_def
        bit.conj_disj_distrib2 or_eq_0_iff)
  with Cons.IH [of "snd (txn_step site a ti)"] show ?case by (simp add: split_beta Let_def)
qed simp

text \<open>The status of a transaction never decreases as long as every status merged in is a
  combination of the status bits of \<^verbatim>\<open>constants.h\<close>, and the COMMIT bit once set stays set.\<close>

theorem txn_status_monotone:
  assumes "list_all op_status_ok as"
  shows "sint (status ti) \<le> sint (status (snd (txn_run site as ti))) \<and>
    (is_commit ti \<longrightarrow> is_commit (snd (txn_run site as ti)))"
  using txn_run_grows [OF assms] txn_run_commit by blast

theorem txn_status_monotone_witness:
  "sint (status new_txn_info) \<le>
     sint (status (snd (txn_run 7 [UnionStatus TXN_FINISH False, UnionStatus TXN_COMMIT True] new_txn_info)))"
proof -
  have "list_all op_status_ok [UnionStatus TXN_FINISH False, UnionStatus TXN_COMMIT True]"
    by (simp add: status_ok_def txn_status_defs)
  from txn_status_monotone [OF this] show ?thesis by blast
qed

end
