(* ===== verification/Txn_Graph.thy ===== *)
theory Txn_Graph
  imports Graph_Search Txn_Info
begin

text \<open>
  The dependency graph of a server, \<^verbatim>\<open>DepGraph\<close> (\<^verbatim>\<open>deptran/dep_graph.hpp\<close>, \<^verbatim>\<open>dep_graph.cc\<close>):
  starting a piece, the searches for uncommitted ancestors, the subgraph sent to a client or
  another server. The graphs hold \<^verbatim>\<open>TxnInfo\<close> records; \<open>txn_id\<close> is their id.
\<close>

section \<open>Starting a piece\<close>

record pie_info =
  pie_id :: uint64
  pie_txn_id :: uint64
  deferred :: bool
  pie_type :: uint32

type_synonym txn_heap = "txn_info heap"

definition foi_txn :: "uint64 \<Rightarrow> txn_heap \<Rightarrow> graph \<Rightarrow> vptr \<times> txn_heap \<times> graph" where
  "foi_txn tid h g = find_or_insert set_txn_id new_txn_info tid h g"

text \<open>\<^verbatim>\<open>foi_pie\<close> allocates a vertex that no graph holds.\<close>

definition foi_pie :: "pie_info \<Rightarrow> pie_info heap \<Rightarrow> vptr \<times> pie_info heap" where
  "foi_pie pi ph = new_vertex pi ph"

definition foi_pie_txn :: "pie_info \<Rightarrow> pie_info heap \<Rightarrow> graph \<Rightarrow> txn_heap \<Rightarrow> graph \<Rightarrow>
    (vptr \<times> pie_info heap \<times> graph) \<times> (vptr \<times> txn_heap \<times> graph)" where
  "foi_pie_txn pi ph pg h g =
     (find_or_insert_data pie_id pi ph pg, find_or_insert set_txn_id new_txn_info (pie_txn_id pi) h g)"

definition add_server :: "uint32 \<Rightarrow> vptr \<Rightarrow> txn_heap \<Rightarrow> txn_heap" where
  "add_server site v h =
     upd_vertex v (\<lambda>x. x\<lparr>vdata := (vdata x)\<lparr>servers := os_ins site (servers (vdata x))\<rparr>\<rparr>) h"

definition start_pie_txn :: "uint32 \<Rightarrow> uint64 \<Rightarrow> txn_heap \<Rightarrow> graph \<Rightarrow> vptr \<times> txn_heap \<times> graph" where
  "start_pie_txn site tid h g =
     (let (tv, h1, g1) = foi_txn tid h g in (tv, add_server site tv h1, g1))"

text \<open>\<open>pv\<close> and \<open>tv\<close> say whether the pointers of that name are not null.\<close>

definition start_pie :: "uint32 \<Rightarrow> pie_info \<Rightarrow> bool \<Rightarrow> bool \<Rightarrow> pie_info heap \<Rightarrow> txn_heap \<Rightarrow> graph \<Rightarrow>
    (vptr option \<times> pie_info heap \<times> vptr \<times> txn_heap \<times> graph) res" where
  "start_pie site pi pv tv ph h g =
     verify tv
       (let (p, ph1) = (if pv then (let (p, ph1) = foi_pie pi ph in (Some p, ph1)) else (None, ph));
            (t, h1, g1) = foi_txn (pie_txn_id pi) h g
        in Inr (p, ph1, t, add_server site t h1, g1))"

section \<open>Searches for uncommitted ancestors\<close>

text \<open>The loop over \<^verbatim>\<open>v->from_\<close>: it pushes and records the parents that are not committed and not
  yet recorded.\<close>

fun anc_parents :: "txn_heap \<Rightarrow> vptr list \<Rightarrow> vptr list \<Rightarrow> vptr list \<Rightarrow> (vptr list \<times> vptr list) res" where
  "anc_parents h [] stack ret = Inr (stack, ret)"
| "anc_parents h (p # ps) stack ret =
     (case deref h p of
        None \<Rightarrow> Inl BadPointer
      | Some x \<Rightarrow>
          (if \<not> is_commit (vdata x) \<and> p \<notin> set ret
           then anc_parents h ps (stack @ [p]) (ret @ [p])
           else anc_parents h ps stack ret))"

definition uncommitted :: "txn_heap \<Rightarrow> vptr \<Rightarrow> bool" where
  "uncommitted h p \<longleftrightarrow> (case deref h p of None \<Rightarrow> False | Some x \<Rightarrow> \<not> is_commit (vdata x))"

lemma anc_parents_Inr:
  "anc_parents h ps st ret = Inr (st', ret') \<Longrightarrow>
     \<exists>ns. st' = st @ ns \<and> ret' = ret @ ns \<and> distinct ns \<and>
       set ns = {p \<in> set ps. uncommitted h p} - set ret \<and> (\<forall>p \<in> set ns. deref h p \<noteq> None)"
proof (induction h ps st ret rule: anc_parents.induct)
  case (2 h p ps st ret)
  then obtain x where x: "deref h p = Some x" by (cases "deref h p") auto
  show ?case
  proof (cases "\<not> is_commit (vdata x) \<and> p \<notin> set ret")
    case True
    with "2.prems" x have "anc_parents h ps (st @ [p]) (ret @ [p]) = Inr (st', ret')" by simp
    from "2.IH"(1) [OF x True this] obtain ns where
      ns: "st' = st @ [p] @ ns" "ret' = ret @ [p] @ ns" "distinct ns"
        "set ns = {p \<in> set ps. uncommitted h p} - set (ret @ [p])" "\<forall>p \<in> set ns. deref h p \<noteq> None"
      by auto
    with True x show ?thesis by (intro exI [of _ "p # ns"]) (auto simp: uncommitted_def)
  next
    case False
    with "2.prems" x have "anc_parents h ps st ret = Inr (st', ret')" by (simp split: if_splits)
    from "2.IH"(2) [OF x False this] False x show ?thesis by (auto simp: uncommitted_def)
  qed
qed auto

lemma anc_parents_measure:
  assumes "anc_parents h ps st ret = Inr (st', ret')"
  shows "2 * card ({..<length h} - set ret') + length st' \<le> 2 * card ({..<length h} - set ret) + length st"
proof -
  from anc_parents_Inr [OF assms] obtain ns where
    ns: "st' = st @ ns" "ret' = ret @ ns" "distinct ns" "set ns \<inter> set ret = {}" "\<forall>p \<in> set ns. deref h p \<noteq> None"
    by auto
  have sub: "set ns \<subseteq> {..<length h} - set ret"
    using ns(4,5) by (auto simp: deref_def split: if_splits)
  have "{..<length h} - set ret' = ({..<length h} - set ret) - set ns" using ns(2) by auto
  then have "card ({..<length h} - set ret') = card ({..<length h} - set ret) - length ns"
    using sub ns(3) by (simp add: card_Diff_subset distinct_card)
  moreover have "length ns \<le> card ({..<length h} - set ret)"
    using card_mono [OF _ sub] ns(3) by (simp add: distinct_card)
  ultimately show ?thesis using ns(1) by simp
qed

function (sequential) anc_opt_loop :: "txn_heap \<Rightarrow> vptr list \<Rightarrow> vptr list \<Rightarrow> vptr list res" where
  "anc_opt_loop h stack ret =
     (if stack = [] then Inr ret
      else (case anc_parents h (om_keys (from_of h (last stack))) (butlast stack) ret of
              Inl e \<Rightarrow> Inl e
            | Inr (stack', ret') \<Rightarrow> anc_opt_loop h stack' ret'))"
  by pat_completeness auto
termination
proof (relation "measure (\<lambda>(h, st, ret). 2 * card ({..<length h} - set ret) + length st)", goal_cases)
  case 1
  show ?case by simp
next
  case (2 h st ret sr st' ret')
  from 2 have "anc_parents h (om_keys (from_of h (last st))) (butlast st) ret = Inr (st', ret')" by simp
  from anc_parents_measure [OF this] have
    "2 * card ({..<length h} - set ret') + length st' \<le> 2 * card ({..<length h} - set ret) + (length st - 1)"
    by simp
  moreover have "0 < length st" using 2(1) by simp
  ultimately have
    "2 * card ({..<length h} - set ret') + length st' < 2 * card ({..<length h} - set ret) + length st"
    by linarith
  then show ?case by simp
qed

declare anc_opt_loop.simps [simp del]

definition find_txn_anc_opt :: "txn_heap \<Rightarrow> vptr \<Rightarrow> vptr list \<Rightarrow> vptr list res" where
  "find_txn_anc_opt h source ret_set =
     rbind (anc_opt_loop h [source] ret_set) (\<lambda>r. Inr (os_erase source r))"

definition find_txn_anc_opt_id :: "txn_heap \<Rightarrow> graph \<Rightarrow> uint64 \<Rightarrow> vptr list \<Rightarrow> vptr list res" where
  "find_txn_anc_opt_id h g tid ret_set =
     (case gfind g tid of None \<Rightarrow> Inl VerifyFailed | Some v \<Rightarrow> find_txn_anc_opt h v ret_set)"

definition sub_txn_graph :: "txn_heap \<Rightarrow> graph \<Rightarrow> uint64 \<Rightarrow> vptr list \<Rightarrow> (nat \<times> vptr list) res" where
  "sub_txn_graph h g tid ret_set =
     (case gfind g tid of
        None \<Rightarrow> Inl VerifyFailed
      | Some source \<Rightarrow>
          rbind (find_txn_anc_opt h source ret_set)
            (\<lambda>r. let r' = (if source \<in> set r then r else r @ [source]) in Inr (length r', r')))"

definition find_txn_scc_anc_opt :: "txn_heap \<Rightarrow> graph \<Rightarrow> uint64 \<Rightarrow> vptr list \<Rightarrow> vptr list res" where
  "find_txn_scc_anc_opt h g tid ret_set =
     rbind (find_scc_id h g tid)
       (\<lambda>scc. verify (scc \<noteq> [])
          (rbind (find_txn_anc_opt h (scc ! 0) ret_set) (\<lambda>r. Inr (fold os_erase scc r))))"

section \<open>What the searches return\<close>

text \<open>The edges whose source is not committed: the searches follow these backwards.\<close>

definition uedges :: "txn_heap \<Rightarrow> (vptr \<times> vptr) set" where
  "uedges h = {(p, c). (p, c) \<in> edges_to h \<and> uncommitted h p}"

definition uanc :: "txn_heap \<Rightarrow> vptr \<Rightarrow> vptr set" where
  "uanc h v = {u. (u, v) \<in> (uedges h)\<^sup>+}"

definition anc_opt_inv :: "txn_heap \<Rightarrow> vptr \<Rightarrow> vptr list \<Rightarrow> vptr list \<Rightarrow> bool" where
  "anc_opt_inv h v st ret \<longleftrightarrow> distinct ret \<and> set ret \<subseteq> uanc h v \<and> set st \<subseteq> insert v (set ret) \<and>
     (\<forall>x \<in> insert v (set ret) - set st. {p. (p, x) \<in> uedges h} \<subseteq> set ret)"

lemma anc_parents_total:
  "\<forall>p \<in> set ps. deref h p \<noteq> None \<Longrightarrow> \<exists>sr. anc_parents h ps st ret = Inr sr"
  by (induction h ps st ret rule: anc_parents.induct) (auto split: option.splits)

lemma anc_opt_step:
  assumes wf: "wf_heap h" and inv: "anc_opt_inv h v (st @ [x]) ret"
  obtains ns where
    "anc_parents h (om_keys (from_of h x)) st ret = Inr (st @ ns, ret @ ns)"
    "anc_opt_inv h v (st @ ns) (ret @ ns)"
proof -
  have "\<forall>p \<in> set (om_keys (from_of h x)). deref h p \<noteq> None"
    using wf_heap_from [OF wf] by (force simp: om_keys_def)
  then obtain st' ret' where
    e: "anc_parents h (om_keys (from_of h x)) st ret = Inr (st', ret')"
    using anc_parents_total by fastforce
  from anc_parents_Inr [OF e] obtain ns where
    ns: "st' = st @ ns" "ret' = ret @ ns" "distinct ns"
      "set ns = {p \<in> set (om_keys (from_of h x)). uncommitted h p} - set ret" by auto
  have par: "{p \<in> set (om_keys (from_of h x)). uncommitted h p} = {p. (p, x) \<in> uedges h}"
    by (auto simp: uedges_def set_from_keys wf_heap_edges [OF wf])
  have inv': "distinct ret" "set ret \<subseteq> uanc h v" "set (st @ [x]) \<subseteq> insert v (set ret)"
    "\<forall>y \<in> insert v (set ret) - set (st @ [x]). {p. (p, y) \<in> uedges h} \<subseteq> set ret"
    using inv by (simp_all add: anc_opt_inv_def)
  have "p \<in> uanc h v" if "(p, x) \<in> uedges h" for p
    using that inv'(2,3) by (auto simp: uanc_def intro: trancl_into_trancl2)
  then have "set ns \<subseteq> uanc h v" using ns(4) par by auto
  moreover have "{p. (p, y) \<in> uedges h} \<subseteq> set (ret @ ns)"
    if y: "y \<in> insert v (set (ret @ ns)) - set (st @ ns)" for y
  proof (cases "y = x")
    case True
    then show ?thesis using ns(4) par by auto
  next
    case False
    with y have "y \<in> insert v (set ret) - set (st @ [x])" by auto
    from bspec [OF inv'(4) this] show ?thesis by auto
  qed
  ultimately have "anc_opt_inv h v (st @ ns) (ret @ ns)"
    using inv' ns(3,4) by (auto simp: anc_opt_inv_def)
  with that e ns(1,2) show ?thesis by simp
qed

lemma anc_opt_loop_spec:
  assumes wf: "wf_heap h" and "anc_opt_inv h v st ret"
  shows "\<exists>r. anc_opt_loop h st ret = Inr r \<and> anc_opt_inv h v [] r"
  using assms(2)
proof (induction h\<equiv>h st ret rule: anc_opt_loop.induct)
  case (1 st ret)
  show ?case
  proof (cases "st = []")
    case True
    then show ?thesis using "1.prems" by (simp add: anc_opt_loop.simps)
  next
    case False
    then have "anc_opt_inv h v (butlast st @ [last st]) ret" using "1.prems" by simp
    then obtain ns where
      ns: "anc_parents h (om_keys (from_of h (last st))) (butlast st) ret = Inr (butlast st @ ns, ret @ ns)"
        "anc_opt_inv h v (butlast st @ ns) (ret @ ns)"
      using anc_opt_step [OF wf] by metis
    from "1.hyps" [OF False ns(1) refl ns(2)] False ns(1) show ?thesis
      by (simp add: anc_opt_loop.simps [of h st])
  qed
qed

lemma find_txn_anc_opt_spec:
  assumes wf: "wf_heap h"
  obtains r where "find_txn_anc_opt h v [] = Inr r" and "distinct r" and "set r = uanc h v - {v}"
proof -
  have "anc_opt_inv h v [v] []" by (simp add: anc_opt_inv_def)
  from anc_opt_loop_spec [OF wf this] obtain r where
    r: "anc_opt_loop h [v] [] = Inr r" "anc_opt_inv h v [] r" by blast
  have "u \<in> set r" if "(u, v) \<in> (uedges h)\<^sup>+" for u
    using that
  proof (induction rule: converse_trancl_induct)
    case (base y)
    then show ?case using r(2) by (auto simp: anc_opt_inv_def)
  next
    case (step y z)
    then show ?case using r(2) by (auto simp: anc_opt_inv_def)
  qed
  then have "set r = uanc h v" using r(2) by (auto simp: anc_opt_inv_def uanc_def)
  with r that [of "os_erase v r"] show ?thesis
    by (simp add: find_txn_anc_opt_def anc_opt_inv_def)
qed

text \<open>C21. \<^verbatim>\<open>find_txn_anc_opt\<close> terminates and returns, without repetition, the transactions other than
  the source from which a path of uncommitted transactions leads to it; \<^verbatim>\<open>sub_txn_graph\<close> returns
  these and the source, with their number.\<close>

theorem sub_txn_graph_exact:
  assumes "wf_heap h" and "gfind g tid = Some v"
  shows "\<exists>r r'. find_txn_anc_opt h v [] = Inr r \<and> distinct r \<and>
      set r = {u. (u, v) \<in> (uedges h)\<^sup>+} - {v} \<and>
      sub_txn_graph h g tid [] = Inr (length r', r') \<and> distinct r' \<and>
      set r' = insert v {u. (u, v) \<in> (uedges h)\<^sup>+}"
proof -
  obtain r where r: "find_txn_anc_opt h v [] = Inr r" "distinct r" "set r = uanc h v - {v}"
    using find_txn_anc_opt_spec [OF assms(1)] by metis
  then have "sub_txn_graph h g tid [] = Inr (length (r @ [v]), r @ [v])"
    using assms(2) by (simp add: sub_txn_graph_def)
  moreover have "distinct (r @ [v])" "set (r @ [v]) = insert v (uanc h v)" using r by auto
  ultimately show ?thesis using r unfolding uanc_def by blast
qed

definition chain_heap :: txn_heap where
  "chain_heap = or_edge 1 2 1 (or_edge 0 1 1
     [Some \<lparr>vfrom = [], vto = [], vdata = new_txn_info\<lparr>txn_id := 10, status := TXN_COMMIT\<rparr>\<rparr>,
      Some \<lparr>vfrom = [], vto = [], vdata = new_txn_info\<lparr>txn_id := 11, status := TXN_FINISH\<rparr>\<rparr>,
      Some \<lparr>vfrom = [], vto = [], vdata = new_txn_info\<lparr>txn_id := 12\<rparr>\<rparr>])"

definition chain_graph :: graph where
  "chain_graph = gadd 12 2 (gadd 11 1 (gadd 10 0 empty_graph))"

theorem sub_txn_graph_exact_witness:
  "sub_txn_graph chain_heap chain_graph 12 [] = Inr (2, [1, 2]) \<and>
   {u. (u, 2) \<in> (uedges chain_heap)\<^sup>+} \<subseteq> {1, 2}"
proof -
  have "wf_heap chain_heap" by code_simp
  moreover have "gfind chain_graph 12 = Some 2" by code_simp
  moreover have e: "sub_txn_graph chain_heap chain_graph 12 [] = Inr (2, [1, 2])" by code_simp
  ultimately show ?thesis using sub_txn_graph_exact [of chain_heap chain_graph 12 2] by auto
qed

text \<open>C26. \<^verbatim>\<open>find_txn_scc_anc_opt\<close> returns exactly the transactions outside the component of the
  transaction from which a path of uncommitted transactions leads to the member of the component
  that \<^verbatim>\<open>find_scc\<close> lists first.\<close>

theorem scc_anc_opt_correct:
  assumes "wf_heap h" and "gfind g tid = Some v" and "v < length h"
  shows "\<exists>r. find_txn_scc_anc_opt h g tid [] = Inr r \<and> distinct r \<and>
    set r = {u. (u, find_scc h v ! 0) \<in> (uedges h)\<^sup>+} - scc_of (edges_to h) v"
proof -
  let ?s = "find_scc h v ! 0"
  have ok: "closed_heap h \<and> v < length h" using assms wf_heap_closed by simp
  obtain r where r: "find_txn_anc_opt h ?s [] = Inr r" "distinct r" "set r = uanc h ?s - {?s}"
    using find_txn_anc_opt_spec [OF assms(1)] by metis
  have ne: "find_scc h v \<noteq> []" by (rule tarjan.find_nonempty [OF ok])
  then have "?s \<in> scc_of (edges_to h) v" using tarjan.find_set [OF ok] nth_mem [of 0 "find_scc h v"] by auto
  then have "set (fold os_erase (find_scc h v) r) = uanc h ?s - scc_of (edges_to h) v"
    using r(3) by (auto simp: set_fold_os_erase tarjan.find_set [OF ok])
  moreover have "find_txn_scc_anc_opt h g tid [] = Inr (fold os_erase (find_scc h v) r)"
    using ne r(1) assms(2) by (simp add: find_txn_scc_anc_opt_def find_scc_id_def)
  ultimately show ?thesis using distinct_fold_os_erase [OF r(2)] unfolding uanc_def by blast
qed

theorem scc_anc_opt_correct_witness:
  "find_txn_scc_anc_opt chain_heap chain_graph 12 [] = Inr [1] \<and>
    1 \<in> {u. (u, 2) \<in> (uedges chain_heap)\<^sup>+} - scc_of (edges_to chain_heap) 2"
proof -
  have "wf_heap chain_heap" "2 < length chain_heap" by code_simp+
  moreover have "gfind chain_graph 12 = Some 2" by code_simp
  moreover have e: "find_txn_scc_anc_opt chain_heap chain_graph 12 [] = Inr [1]" by code_simp
  moreover have "find_scc chain_heap 2 = [2]" by code_simp
  ultimately show ?thesis using scc_anc_opt_correct [of chain_heap chain_graph 12 2] by auto
qed

end
