(* ===== verification/Graph_Union.thy ===== *)
theory Graph_Union
  imports Txn_Graph
begin

text \<open>
  \<^verbatim>\<open>Graph::union_graph\<close> (\<^verbatim>\<open>deptran/graph.h\<close>) at \<^verbatim>\<open>TxnInfo\<close>: a server merges the graph it
  receives into its own. The theory proves that it refines the union of abstract graphs, in which a
  graph is a partial function from ids to status and servers together with a partial function from
  pairs of ids to relations.
\<close>

section \<open>The operation\<close>

text \<open>The vertex for an edge target: found by id, or allocated with a copy of the data.\<close>

definition union_target :: "vptr \<Rightarrow> txn_heap \<Rightarrow> graph \<Rightarrow> (vptr \<times> txn_heap \<times> graph) res" where
  "union_target tv h g =
     (case deref h tv of
        None \<Rightarrow> Inl BadPointer
      | Some y \<Rightarrow> Inr (find_or_insert_data txn_id (vdata y) h g))"

text \<open>The vertex for a vertex of the other graph: allocated, or found and its data merged.\<close>

definition union_source ::
    "uint32 \<Rightarrow> bool \<Rightarrow> vptr \<Rightarrow> txn_heap \<Rightarrow> graph \<Rightarrow> (vptr \<times> txn_heap \<times> graph) res" where
  "union_source site is_server v h g =
     (case deref h v of
        None \<Rightarrow> Inl BadPointer
      | Some x \<Rightarrow>
          (case gfind g (txn_id (vdata x)) of
             None \<Rightarrow> (let (o1, h1) = new_vertex (vdata x) h in Inr (o1, h1, gadd (txn_id (vdata x)) o1 g))
           | Some o1 \<Rightarrow>
               Inr (o1, upd_vertex o1 (\<lambda>y. y\<lparr>vdata := snd (union_data site (vdata x) False is_server (vdata y))\<rparr>) h, g)))"

fun union_edges :: "vptr \<Rightarrow> (vptr \<times> int8) list \<Rightarrow> txn_heap \<Rightarrow> graph \<Rightarrow> (txn_heap \<times> graph) res" where
  "union_edges o1 [] h g = Inr (h, g)"
| "union_edges o1 ((tv, r) # es) h g =
     rbind (union_target tv h g) (\<lambda>(t, h1, g1). union_edges o1 es (or_edge o1 t r h1) g1)"

fun union_vertices ::
    "uint32 \<Rightarrow> bool \<Rightarrow> vptr list \<Rightarrow> txn_heap \<Rightarrow> graph \<Rightarrow> vptr list \<Rightarrow> (txn_heap \<times> graph \<times> vptr list) res" where
  "union_vertices site is_server [] h g new_vs = Inr (h, g, new_vs)"
| "union_vertices site is_server (v # vs) h g new_vs =
     rbind (union_source site is_server v h g)
       (\<lambda>(o1, h1, g1). rbind (union_edges o1 (to_of h1 v) h1 g1)
          (\<lambda>(h2, g2). union_vertices site is_server vs h2 g2 (os_ins o1 new_vs)))"

definition trigger_vertex :: "vptr \<Rightarrow> txn_heap \<Rightarrow> ball list \<times> txn_heap" where
  "trigger_vertex v h =
     (case deref h v of
        None \<Rightarrow> ([], h)
      | Some x \<Rightarrow> (fst (trigger (vdata x)), upd_vertex v (\<lambda>y. y\<lparr>vdata := snd (trigger (vdata y))\<rparr>) h))"

fun trigger_all :: "vptr list \<Rightarrow> txn_heap \<Rightarrow> ball list \<times> txn_heap" where
  "trigger_all [] h = ([], h)"
| "trigger_all (v # vs) h =
     (let (b1, h1) = trigger_vertex v h; (b2, h2) = trigger_all vs h1 in (b1 @ b2, h2))"

definition union_graph ::
    "uint32 \<Rightarrow> graph \<Rightarrow> bool \<Rightarrow> txn_heap \<Rightarrow> graph \<Rightarrow> (ball list \<times> txn_heap \<times> graph) res" where
  "union_graph site gra is_server h g =
     verify (gsize gra > 0)
       (rbind (union_vertices site is_server (vertex_index gra) h g [])
         (\<lambda>(h1, g1, new_vs). let (bs, h2) = trigger_all new_vs h1 in Inr (bs, h2, g1)))"

definition union_txn_graph :: "uint32 \<Rightarrow> graph \<Rightarrow> txn_heap \<Rightarrow> graph \<Rightarrow> (ball list \<times> txn_heap \<times> graph) res" where
  "union_txn_graph site gra h g = union_graph site gra True h g"

section \<open>Abstract graphs\<close>

type_synonym abs_txn = "int8 \<times> uint32 set"

definition core :: "txn_info \<Rightarrow> abs_txn" where
  "core ti = (status ti, set (servers ti))"

definition tdata :: "txn_heap \<Rightarrow> graph \<Rightarrow> uint64 \<Rightarrow> abs_txn option" where
  "tdata h g i = (case gfind g i of None \<Rightarrow> None | Some v \<Rightarrow> map_option (core \<circ> vdata) (deref h v))"

definition trel :: "txn_heap \<Rightarrow> graph \<Rightarrow> uint64 \<Rightarrow> uint64 \<Rightarrow> int8 option" where
  "trel h g i j = (case gfind g i of None \<Rightarrow> None | Some v \<Rightarrow>
     (case gfind g j of None \<Rightarrow> None | Some w \<Rightarrow> om_get (to_of h v) w))"

text \<open>The specification of a merge: relations are or-ed; servers are united; the status is or-ed,
  unless the server itself is involved and the merge runs on a server.\<close>

definition merge_rel :: "int8 option \<Rightarrow> int8 option \<Rightarrow> int8 option" where
  "merge_rel a b = (case a of None \<Rightarrow> b | Some x \<Rightarrow> (case b of None \<Rightarrow> Some x | Some y \<Rightarrow> Some (x OR y)))"

definition merge_core :: "uint32 \<Rightarrow> bool \<Rightarrow> abs_txn \<Rightarrow> abs_txn \<Rightarrow> abs_txn" where
  "merge_core site sv x y =
     (let S = snd x \<union> snd y in (if sv \<and> site \<in> S then fst x else fst x OR fst y, S))"

definition merge_txn :: "uint32 \<Rightarrow> bool \<Rightarrow> abs_txn option \<Rightarrow> abs_txn option \<Rightarrow> abs_txn option" where
  "merge_txn site sv a b =
     (case a of None \<Rightarrow> b | Some x \<Rightarrow> (case b of None \<Rightarrow> Some x | Some y \<Rightarrow> Some (merge_core site sv x y)))"

lemma core_union_data: "core (snd (union_data site d False sv ti)) = merge_core site sv (core ti) (core d)"
  by (auto simp: union_data_def core_def merge_core_def union_status_status is_involved_def
      set_fold_os_ins Let_def)

lemma txn_id_union_data [simp]: "txn_id (snd (union_data site d False sv ti)) = txn_id ti"
  by (simp add: union_data_def union_status_status)

lemma merge_core_idem [simp]: "merge_core site sv x x = x"
  by (cases x) (simp add: merge_core_def)

lemma merge_rel_None [simp]: "merge_rel a None = a" "merge_rel None b = b"
  by (simp_all add: merge_rel_def split: option.splits)

section \<open>One step at a time\<close>

text \<open>The state of the merge: both graphs are well formed and apart, in a well-formed heap, and the
  vertices of the other graph are as they were at the start (\<open>h0\<close>).\<close>

definition apart :: "txn_heap \<Rightarrow> graph \<Rightarrow> txn_heap \<Rightarrow> graph \<Rightarrow> bool" where
  "apart h0 gra h g \<longleftrightarrow> wf_heap h \<and> wf_graph txn_id h g \<and> wf_graph txn_id h gra \<and>
     set (vertex_index g) \<inter> set (vertex_index gra) = {} \<and>
     (\<forall>v \<in> set (vertex_index gra). deref h v = deref h0 v)"

lemma apartD:
  assumes "apart h0 gra h g"
  shows "wf_heap h" "wf_graph txn_id h g" "wf_graph txn_id h gra"
    "set (vertex_index g) \<inter> set (vertex_index gra) = {}"
    "\<And>v. v \<in> set (vertex_index gra) \<Longrightarrow> deref h v = deref h0 v"
  using assms by (simp_all add: apart_def)

text \<open>An update of \<open>h\<close> outside the other graph leaves that graph well formed.\<close>

lemma wf_graph_untouched:
  assumes "wf_graph idf h g" and "\<And>v. v \<in> set (vertex_index g) \<Longrightarrow> deref h' v = deref h v"
  shows "wf_graph idf h' g"
proof -
  have e: "to_of h' v = to_of h v" "from_of h' v = from_of h v" if "v \<in> set (vertex_index g)" for v
    using assms(2) [OF that] by (simp_all add: to_of_def from_of_def)
  have "deref h' (snd iv) = deref h (snd iv)" if "iv \<in> set (id_index g)" for iv
  proof -
    have "snd iv \<in> set (map snd (id_index g))" using that by simp
    then show ?thesis using assms by (simp add: wf_graph_def)
  qed
  with assms(1) e show ?thesis unfolding wf_graph_def by (simp cong: ball_cong)
qed

lemma apart_id:
  assumes "apart h0 gra h g" and "v \<in> set (vertex_index gra)"
  obtains x where "deref h v = Some x" and "deref h0 v = Some x" and "gfind gra (txn_id (vdata x)) = Some v"
  using wf_graph_vertex [OF apartD(3) [OF assms(1)] assms(2)] apartD(5) [OF assms] by metis

lemma find_or_insert_data_step:
  assumes ap: "apart h0 gra h g" and v: "v \<in> set (vertex_index gra)" and x: "deref h v = Some x"
  shows "\<exists>t h1 g1. find_or_insert_data txn_id (vdata x) h g = (t, h1, g1) \<and>
    apart h0 gra h1 g1 \<and> gfind g1 (txn_id (vdata x)) = Some t \<and>
    (\<forall>i. tdata h1 g1 i =
      (if i = txn_id (vdata x) \<and> gfind g i = None then Some (core (vdata x)) else tdata h g i)) \<and>
    (\<forall>i j. trel h1 g1 i j = trel h g i j) \<and>
    (\<forall>i w. gfind g i = Some w \<longrightarrow> gfind g1 i = Some w)"
proof (cases "gfind g (txn_id (vdata x))")
  case (Some t)
  then show ?thesis using ap by (intro exI [of _ t] exI [of _ h] exI [of _ g]) (auto simp: find_or_insert_data_def)
next
  case None
  let ?i = "txn_id (vdata x)"
  let ?h1 = "snd (new_vertex (vdata x) h)" and ?g1 = "gadd (txn_id (vdata x)) (length h) g"
  note a = apartD [OF ap]
  have live: "w < length h" if "deref h w = Some y" for w y
    using that by (simp add: deref_def split: if_splits)
  have lt: "w < length h" if "w \<in> set (vertex_index gra)" for w
    using wf_graph_vertex [OF a(3) that] live by metis
  have g_lt: "w < length h" if "gfind g k = Some w" for k w
    using wf_graph_find(1) [OF a(2) that] live by metis
  have old: "deref ?h1 w = deref h w" if "w \<in> set (vertex_index gra)" for w
    using lt [OF that] by (simp add: deref_new)
  have "set (vertex_index ?g1) \<inter> set (vertex_index gra) = {}" using a(4) lt by auto
  moreover have "wf_graph txn_id ?h1 gra" by (rule wf_graph_untouched [OF a(3) old])
  ultimately have ap1: "apart h0 gra ?h1 ?g1"
    using a(1,5) old new_vertex_wf [OF a(1)] wf_graph_add [OF a(2) None] by (simp add: apart_def)
  have td: "tdata ?h1 ?g1 k = (if k = ?i \<and> gfind g k = None then Some (core (vdata x)) else tdata h g k)" for k
    using None g_lt [of k] by (auto simp: tdata_def gfind_gadd deref_new split: option.splits)
  have out: "om_get (to_of h w) (length h) = None" if "gfind g k = Some w" for k w
  proof (rule ccontr)
    assume "om_get (to_of h w) (length h) \<noteq> None"
    then obtain r where "(length h, r) \<in> set (to_of h w)" by (auto dest: om_get_SomeD)
    from wf_heap_to [OF a(1) this] show False by (simp add: deref_def)
  qed
  have nil: "to_of h (length h) = []" by (simp add: to_of_def deref_def)
  have tr: "trel ?h1 ?g1 k l = trel h g k l" for k l
    using None out [of k] by (auto simp: trel_def gfind_gadd to_of_new nil split: option.splits)
  have "find_or_insert_data txn_id (vdata x) h g = (length h, ?h1, ?g1)"
    using None by (simp add: find_or_insert_data_def new_vertex_def)
  moreover have "gfind ?g1 ?i = Some (length h)" "\<forall>i w. gfind g i = Some w \<longrightarrow> gfind ?g1 i = Some w"
    using None by (auto simp: gfind_gadd)
  ultimately show ?thesis using ap1 td tr by blast
qed

lemma merge_rel_put:
  "om_inv m \<Longrightarrow> om_get (or_put k r m) k' = (if k' = k then merge_rel (om_get m k) (Some r) else om_get m k')"
  by (simp add: or_put_get merge_rel_def split: option.splits)

lemma or_edge_step:
  assumes ap: "apart h0 gra h g" and s: "gfind g i = Some s" and t: "gfind g j = Some t"
  shows "apart h0 gra (or_edge s t r h) g"
    and "tdata (or_edge s t r h) g k = tdata h g k"
    and "trel (or_edge s t r h) g k l =
      (if k = i \<and> l = j then merge_rel (trel h g k l) (Some r) else trel h g k l)"
proof -
  note a = apartD [OF ap]
  have live: "deref h s \<noteq> None" "deref h t \<noteq> None" "s \<in> set (vertex_index g)" "t \<in> set (vertex_index g)"
    using wf_graph_find [OF a(2) s] wf_graph_find [OF a(2) t] by auto
  have old: "deref (or_edge s t r h) w = deref h w" if "w \<in> set (vertex_index gra)" for w
  proof -
    have "w \<noteq> s" "w \<noteq> t" using that live a(4) by auto
    then show ?thesis by (simp add: or_edge_def or_to_def or_from_def deref_upd)
  qed
  show "apart h0 gra (or_edge s t r h) g"
    using a old live or_edge_wf [OF a(1)] or_edge_wf_graph [OF a(2)] wf_graph_untouched [OF a(3) old]
    by (simp add: apart_def)
  have "map_option (core \<circ> vdata) (deref (or_edge s t r h) w) = map_option (core \<circ> vdata) (deref h w)" for w
    using vdata_or_edge [of s t r h w] by (metis option.map_comp)
  then show "tdata (or_edge s t r h) g k = tdata h g k" by (simp add: tdata_def split: option.splits)
  have inj: "gfind g k = Some s \<longleftrightarrow> k = i" "gfind g l = Some t \<longleftrightarrow> l = j" for k l
    using wf_graph_inj [OF a(2)] s t by blast+
  show "trel (or_edge s t r h) g k l =
      (if k = i \<and> l = j then merge_rel (trel h g k l) (Some r) else trel h g k l)"
  proof (cases "gfind g k")
    case None
    then show ?thesis using s by (auto simp: trel_def)
  next
    case w: (Some w)
    show ?thesis
    proof (cases "gfind g l")
      case None
      then show ?thesis using t w by (auto simp: trel_def)
    next
      case (Some u)
      then have "w = s \<longleftrightarrow> k = i" "u = t \<longleftrightarrow> l = j" using w inj(1) [of k] inj(2) [of l] by simp_all
      then show ?thesis
        using w Some live(1) wf_heap_om_inv(1) [OF a(1), of s]
        by (auto simp: trel_def to_of_or_edge merge_rel_put)
    qed
  qed
qed

lemma union_source_step:
  assumes ap: "apart h0 gra h g" and v: "v \<in> set (vertex_index gra)" and x: "deref h0 v = Some x"
  shows "\<exists>o1 h1 g1. union_source site sv v h g = Inr (o1, h1, g1) \<and>
    apart h0 gra h1 g1 \<and> gfind g1 (txn_id (vdata x)) = Some o1 \<and>
    (\<forall>k. tdata h1 g1 k =
      (if k = txn_id (vdata x) then merge_txn site sv (tdata h g k) (Some (core (vdata x))) else tdata h g k)) \<and>
    (\<forall>i j. trel h1 g1 i j = trel h g i j)"
proof -
  note a = apartD [OF ap]
  have hv: "deref h v = Some x" using a(5) [OF v] x by simp
  let ?i = "txn_id (vdata x)"
  show ?thesis
  proof (cases "gfind g ?i")
    case None
    obtain t h1 g1 where f: "find_or_insert_data txn_id (vdata x) h g = (t, h1, g1)"
      "apart h0 gra h1 g1" "gfind g1 ?i = Some t"
      "\<forall>k. tdata h1 g1 k = (if k = ?i \<and> gfind g k = None then Some (core (vdata x)) else tdata h g k)"
      "\<forall>i j. trel h1 g1 i j = trel h g i j"
      using find_or_insert_data_step [OF ap v hv] by blast
    have "union_source site sv v h g = Inr (t, h1, g1)"
      using f(1) None hv by (simp add: union_source_def find_or_insert_data_def split: prod.splits)
    moreover have "tdata h1 g1 k =
      (if k = ?i then merge_txn site sv (tdata h g k) (Some (core (vdata x))) else tdata h g k)" for k
      using f(4) None by (simp add: merge_txn_def tdata_def)
    ultimately show ?thesis using f(2,3,5) by blast
  next
    case (Some o1)
    let ?f = "\<lambda>d. snd (union_data site (vdata x) False sv d)"
    let ?h1 = "upd_vertex o1 (\<lambda>y. y\<lparr>vdata := ?f (vdata y)\<rparr>) h"
    have o: "o1 \<in> set (vertex_index g)" "deref h o1 \<noteq> None" using wf_graph_find [OF a(2) Some] by auto
    have old: "deref ?h1 w = deref h w" if "w \<in> set (vertex_index gra)" for w
      using that o a(4) by (auto simp: deref_upd)
    have ap1: "apart h0 gra ?h1 g"
      using a old upd_data_wf [OF a(1)] upd_data_wf_graph [OF a(2), of ?f]
        wf_graph_untouched [OF a(3) old] by (simp add: apart_def)
    have td: "tdata ?h1 g k =
      (if k = ?i then merge_txn site sv (tdata h g k) (Some (core (vdata x))) else tdata h g k)" for k
    proof (cases "gfind g k")
      case None
      then show ?thesis using Some by (auto simp: tdata_def)
    next
      case w: (Some w)
      have "k = ?i" if "w = o1" using w that by (intro wf_graph_inj [OF a(2) _ Some]) simp
      then have "w = o1 \<longleftrightarrow> k = ?i" using w Some by auto
      then show ?thesis using w o(2)
        by (auto simp: tdata_def deref_upd merge_txn_def core_union_data)
    qed
    have "union_source site sv v h g = Inr (o1, ?h1, g)" using Some hv by (simp add: union_source_def)
    moreover have "\<forall>i j. trel ?h1 g i j = trel h g i j" by (auto simp: trel_def to_of_upd_data [where f = ?f] split: option.splits)
    ultimately show ?thesis using ap1 td Some by blast
  qed
qed

section \<open>The loops\<close>

definition vid :: "txn_heap \<Rightarrow> vptr \<Rightarrow> uint64" where
  "vid h v = (case deref h v of None \<Rightarrow> 0 | Some x \<Rightarrow> txn_id (vdata x))"

text \<open>While the loops run, the data under an id is unchanged or newly copied from the other graph.\<close>

definition adv :: "'a option \<Rightarrow> 'a option \<Rightarrow> 'a option \<Rightarrow> bool" where
  "adv c a b \<longleftrightarrow> b = a \<or> (a = None \<and> b = c)"

lemma adv_trans: "adv c a b \<Longrightarrow> adv c b d \<Longrightarrow> adv c a d"
  by (auto simp: adv_def)

lemma merge_adv: "adv c a b \<Longrightarrow> merge_txn site sv b c = merge_txn site sv a c"
  by (auto simp: adv_def merge_txn_def split: option.splits)

lemma union_edges_spec:
  assumes "apart h0 gra h g" and "gfind g i = Some o1"
    and "fst ` set es \<subseteq> set (vertex_index gra)" and "distinct (map (vid h0 \<circ> fst) es)"
  shows "\<exists>h' g'. union_edges o1 es h g = Inr (h', g') \<and> apart h0 gra h' g' \<and>
    (\<forall>k. adv (tdata h0 gra k) (tdata h g k) (tdata h' g' k)) \<and>
    (\<forall>k l. trel h' g' k l =
      (if k = i then merge_rel (trel h g k l) (map_of (map (\<lambda>(tv, r). (vid h0 tv, r)) es) l) else trel h g k l))"
  using assms
proof (induction o1 es h g rule: union_edges.induct)
  case (1 o1 h g)
  then show ?case by (simp add: adv_def)
next
  case (2 o1 tv r es h g)
  have tv: "tv \<in> set (vertex_index gra)" using "2.prems"(3) by simp
  obtain y where y: "deref h tv = Some y" "deref h0 tv = Some y" "gfind gra (txn_id (vdata y)) = Some tv"
    using apart_id [OF "2.prems"(1) tv] by metis
  let ?j = "txn_id (vdata y)"
  obtain t h1 g1 where f: "find_or_insert_data txn_id (vdata y) h g = (t, h1, g1)"
    "apart h0 gra h1 g1" "gfind g1 ?j = Some t"
    "\<forall>k. tdata h1 g1 k = (if k = ?j \<and> gfind g k = None then Some (core (vdata y)) else tdata h g k)"
    "\<forall>i j. trel h1 g1 i j = trel h g i j" "\<forall>i w. gfind g i = Some w \<longrightarrow> gfind g1 i = Some w"
    using find_or_insert_data_step [OF "2.prems"(1) tv y(1)] by blast
  have ut: "union_target tv h g = Inr (t, h1, g1)" using y(1) f(1) by (simp add: union_target_def)
  have o1: "gfind g1 i = Some o1" using f(6) "2.prems"(2) by blast
  note oe = or_edge_step [OF f(2) o1 f(3)]
  have jid: "vid h0 tv = ?j" using y(2) by (simp add: vid_def)
  have dist: "?j \<notin> vid h0 ` fst ` set es" "distinct (map (vid h0 \<circ> fst) es)"
    using "2.prems"(4) jid by (auto simp: image_image comp_def)
  have es: "fst ` set es \<subseteq> set (vertex_index gra)" using "2.prems"(3) by auto
  obtain h' g' where r: "union_edges o1 es (or_edge o1 t r h1) g1 = Inr (h', g')" "apart h0 gra h' g'"
    "\<forall>k. adv (tdata h0 gra k) (tdata (or_edge o1 t r h1) g1 k) (tdata h' g' k)"
    "\<forall>k l. trel h' g' k l = (if k = i then merge_rel (trel (or_edge o1 t r h1) g1 k l)
        (map_of (map (\<lambda>(tv, r). (vid h0 tv, r)) es) l) else trel (or_edge o1 t r h1) g1 k l)"
    using "2.IH" [OF oe(1) o1 es dist(2)] by blast
  have c: "tdata h0 gra ?j = Some (core (vdata y))" using y by (simp add: tdata_def)
  have "adv (tdata h0 gra k) (tdata h g k) (tdata (or_edge o1 t r h1) g1 k)" for k
    using f(4) [rule_format, of k] oe(2) [of r k] c by (auto simp: adv_def tdata_def)
  with r(3) have "adv (tdata h0 gra k) (tdata h g k) (tdata h' g' k)" for k by (blast intro: adv_trans)
  moreover have "map_of (map (\<lambda>(tv, r). (vid h0 tv, r)) es) ?j = None"
    using dist(1) by (force simp: map_of_eq_None_iff)
  then have "trel h' g' k l = (if k = i then merge_rel (trel h g k l)
      (map_of (map (\<lambda>(tv, r). (vid h0 tv, r)) ((tv, r) # es)) l) else trel h g k l)" for k l
    using r(4) [rule_format, of k l] oe(3) [of r k l] f(5) jid by auto
  moreover have "union_edges o1 ((tv, r) # es) h g = Inr (h', g')" using ut r(1) by simp
  ultimately show ?case using r(2) by blast
qed

lemma to_of_gra:
  assumes "apart h0 gra h g" and "v \<in> set (vertex_index gra)"
  shows "to_of h v = to_of h0 v"
  using apartD(5) [OF assms] by (simp add: to_of_def)

text \<open>The edges of a vertex of a well-formed graph, by the ids of their targets.\<close>

lemma gra_targets:
  assumes "wf_heap h0" and "wf_graph txn_id h0 gra" and "v \<in> set (vertex_index gra)"
  shows "fst ` set (to_of h0 v) \<subseteq> set (vertex_index gra)"
    and "distinct (map (vid h0 \<circ> fst) (to_of h0 v))"
proof -
  show sub: "fst ` set (to_of h0 v) \<subseteq> set (vertex_index gra)"
    using wf_graph_edges(1) [OF assms(2,3)] by (simp add: om_keys_def)
  have "inj_on (vid h0) (set (vertex_index gra))"
  proof (rule inj_onI)
    fix a b assume "a \<in> set (vertex_index gra)" "b \<in> set (vertex_index gra)" "vid h0 a = vid h0 b"
    moreover from this obtain x y where "deref h0 a = Some x" "gfind gra (txn_id (vdata x)) = Some a"
      "deref h0 b = Some y" "gfind gra (txn_id (vdata y)) = Some b"
      using wf_graph_vertex [OF assms(2)] by metis
    ultimately show "a = b" by (simp add: vid_def)
  qed
  then have "inj_on (vid h0) (set (map fst (to_of h0 v)))" using sub by (auto intro: inj_on_subset)
  moreover have "distinct (map fst (to_of h0 v))"
    using wf_heap_om_inv(1) [OF assms(1)] by (rule om_inv_distinct)
  ultimately have "distinct (map (vid h0) (map fst (to_of h0 v)))" by (simp only: distinct_map)
  then show "distinct (map (vid h0 \<circ> fst) (to_of h0 v))" by simp
qed

lemma trel_gra:
  assumes "wf_heap h0" and "wf_graph txn_id h0 gra" and "v \<in> set (vertex_index gra)"
  shows "map_of (map (\<lambda>(tv, r). (vid h0 tv, r)) (to_of h0 v)) l = trel h0 gra (vid h0 v) l"
proof -
  note t = gra_targets [OF assms]
  obtain x where x: "deref h0 v = Some x" "gfind gra (txn_id (vdata x)) = Some v"
    using wf_graph_vertex [OF assms(2,3)] by metis
  have dm: "distinct (map fst (map (\<lambda>(tv, r). (vid h0 tv, r)) (to_of h0 v)))"
    using t(2) by (simp add: comp_def split_beta)
  have idv: "gfind gra (vid h0 w) = Some w" if "w \<in> set (vertex_index gra)" for w
    using wf_graph_vertex [OF assms(2) that] by (metis option.simps(5) vid_def)
  show ?thesis
  proof (cases "gfind gra l")
    case None
    have "l \<notin> fst ` set (map (\<lambda>(tv, r). (vid h0 tv, r)) (to_of h0 v))"
      using idv t(1) None by force
    then show ?thesis using None by (simp add: trel_def map_of_eq_None_iff split: option.splits)
  next
    case (Some w)
    have "(\<exists>tv. l = vid h0 tv \<and> (tv, r) \<in> set (to_of h0 v)) \<longleftrightarrow> (w, r) \<in> set (to_of h0 v)" for r
    proof
      assume "\<exists>tv. l = vid h0 tv \<and> (tv, r) \<in> set (to_of h0 v)"
      then obtain tv where "l = vid h0 tv" "(tv, r) \<in> set (to_of h0 v)" by blast
      moreover from this have "tv \<in> set (vertex_index gra)" using t(1) by force
      ultimately show "(w, r) \<in> set (to_of h0 v)" using idv [of tv] Some by simp
    next
      assume "(w, r) \<in> set (to_of h0 v)"
      moreover have "vid h0 w = l"
        using wf_graph_find(1) [OF assms(2) Some] by (auto simp: vid_def)
      ultimately show "\<exists>tv. l = vid h0 tv \<and> (tv, r) \<in> set (to_of h0 v)" by blast
    qed
    moreover have "(l, r) \<in> set (map (\<lambda>(tv, r). (vid h0 tv, r)) (to_of h0 v)) \<longleftrightarrow>
        (\<exists>tv. l = vid h0 tv \<and> (tv, r) \<in> set (to_of h0 v))" for r by force
    ultimately have "map_of (map (\<lambda>(tv, r). (vid h0 tv, r)) (to_of h0 v)) l = Some r \<longleftrightarrow>
        om_get (to_of h0 v) w = Some r" for r
      unfolding map_of_eq_Some_iff [OF dm] om_get_Some_iff [OF wf_heap_om_inv(1) [OF assms(1)]] by simp
    then have "map_of (map (\<lambda>(tv, r). (vid h0 tv, r)) (to_of h0 v)) l = om_get (to_of h0 v) w"
      by (metis option.exhaust)
    then show ?thesis using Some x by (simp add: trel_def vid_def)
  qed
qed

lemma union_vertices_spec:
  assumes "wf_heap h0" and "wf_graph txn_id h0 gra"
    and "apart h0 gra h g" and "set vs \<subseteq> set (vertex_index gra)" and "distinct (map (vid h0) vs)"
  shows "\<exists>h' g' nv'. union_vertices site sv vs h g nv = Inr (h', g', nv') \<and> apart h0 gra h' g' \<and>
    (\<forall>k. if k \<in> vid h0 ` set vs then tdata h' g' k = merge_txn site sv (tdata h g k) (tdata h0 gra k)
         else adv (tdata h0 gra k) (tdata h g k) (tdata h' g' k)) \<and>
    (\<forall>k l. trel h' g' k l =
       merge_rel (trel h g k l) (if k \<in> vid h0 ` set vs then trel h0 gra k l else None))"
  using assms(3-5)
proof (induction vs arbitrary: h g nv)
  case Nil
  then show ?case by (simp add: adv_def)
next
  case (Cons v vs)
  have v: "v \<in> set (vertex_index gra)" "vid h0 v \<notin> vid h0 ` set vs" using Cons.prems by auto
  obtain x where x: "deref h0 v = Some x" "gfind gra (txn_id (vdata x)) = Some v"
    using wf_graph_vertex [OF assms(2) v(1)] by metis
  let ?i = "vid h0 v"
  have i: "?i = txn_id (vdata x)" "tdata h0 gra ?i = Some (core (vdata x))"
    using x by (simp_all add: vid_def tdata_def)
  obtain o1 h1 g1 where s: "union_source site sv v h g = Inr (o1, h1, g1)"
    "apart h0 gra h1 g1" "gfind g1 ?i = Some o1"
    "\<forall>k. tdata h1 g1 k = (if k = ?i then merge_txn site sv (tdata h g k) (Some (core (vdata x))) else tdata h g k)"
    "\<forall>k l. trel h1 g1 k l = trel h g k l"
    using union_source_step [OF Cons.prems(1) v(1) x(1)] unfolding i(1) by blast
  note t = gra_targets [OF assms(1,2) v(1)]
  obtain h2 g2 where e: "union_edges o1 (to_of h1 v) h1 g1 = Inr (h2, g2)" "apart h0 gra h2 g2"
    "\<forall>k. adv (tdata h0 gra k) (tdata h1 g1 k) (tdata h2 g2 k)"
    "\<forall>k l. trel h2 g2 k l = (if k = ?i then merge_rel (trel h1 g1 k l) (trel h0 gra ?i l) else trel h1 g1 k l)"
    using union_edges_spec [OF s(2,3) t] unfolding trel_gra [OF assms(1,2) v(1)] to_of_gra [OF s(2) v(1)]
    by blast
  obtain h' g' nv' where r: "union_vertices site sv vs h2 g2 (os_ins o1 nv) = Inr (h', g', nv')"
    "apart h0 gra h' g'"
    "\<forall>k. if k \<in> vid h0 ` set vs then tdata h' g' k = merge_txn site sv (tdata h2 g2 k) (tdata h0 gra k)
         else adv (tdata h0 gra k) (tdata h2 g2 k) (tdata h' g' k)"
    "\<forall>k l. trel h' g' k l = merge_rel (trel h2 g2 k l) (if k \<in> vid h0 ` set vs then trel h0 gra k l else None)"
    using Cons.IH [OF e(2), of "os_ins o1 nv"] Cons.prems(2,3) by auto
  have "if k \<in> vid h0 ` set (v # vs) then tdata h' g' k = merge_txn site sv (tdata h g k) (tdata h0 gra k)
         else adv (tdata h0 gra k) (tdata h g k) (tdata h' g' k)" for k
  proof (cases "k = ?i")
    case True
    have "tdata h1 g1 k \<noteq> None" using s(4) True by (simp add: merge_txn_def split: option.splits)
    with e(3) [rule_format, of k] r(3) [rule_format, of k] v(2) True
    have "tdata h' g' k = tdata h1 g1 k" by (auto simp: adv_def)
    then show ?thesis using s(4) True i(2) by simp
  next
    case False
    then have same: "adv (tdata h0 gra k) (tdata h g k) (tdata h2 g2 k)"
      using e(3) [rule_format, of k] s(4) [rule_format, of k] by simp
    show ?thesis using r(3) [rule_format, of k] False merge_adv [OF same] adv_trans [OF same] by (auto split: if_splits)
  qed
  moreover have "trel h' g' k l =
      merge_rel (trel h g k l) (if k \<in> vid h0 ` set (v # vs) then trel h0 gra k l else None)" for k l
    using r(4) e(4) s(5) v(2) by auto
  moreover have "union_vertices site sv (v # vs) h g nv = Inr (h', g', nv')" using s(1) e(1) r(1) by simp
  ultimately show ?case using r(2) by blast
qed

section \<open>Triggering\<close>

lemma trigger_vertex_data: "snd (trigger_vertex v h) = upd_vertex v (\<lambda>y. y\<lparr>vdata := snd (trigger (vdata y))\<rparr>) h"
  by (simp add: trigger_vertex_def upd_vertex_def split: option.splits)

lemma trigger_all_view:
  assumes "wf_heap h" and "wf_graph txn_id h g"
  shows "wf_heap (snd (trigger_all vs h)) \<and> wf_graph txn_id (snd (trigger_all vs h)) g \<and>
    (\<forall>k. tdata (snd (trigger_all vs h)) g k = tdata h g k) \<and>
    (\<forall>k l. trel (snd (trigger_all vs h)) g k l = trel h g k l)"
  using assms
proof (induction vs arbitrary: h)
  case (Cons v vs)
  let ?f = "\<lambda>d. snd (trigger d)"
  let ?h1 = "upd_vertex v (\<lambda>y. y\<lparr>vdata := ?f (vdata y)\<rparr>) h"
  have wf: "wf_heap ?h1" "wf_graph txn_id ?h1 g"
    using upd_data_wf [OF Cons.prems(1), of v ?f] upd_data_wf_graph [OF Cons.prems(2), of ?f v] by simp_all
  have "tdata ?h1 g k = tdata h g k" for k
    by (auto simp: tdata_def deref_upd core_def option.map_comp comp_def split: option.splits)
  moreover have "trel ?h1 g k l = trel h g k l" for k l
    by (auto simp: trel_def to_of_upd_data [where f = ?f] split: option.splits)
  moreover have "snd (trigger_all (v # vs) h) = snd (trigger_all vs ?h1)"
    by (simp add: trigger_vertex_data [symmetric] split_beta)
  ultimately show ?case using Cons.IH [OF wf] by simp
qed simp

text \<open>C2. \<^verbatim>\<open>union_graph\<close> refines the union of abstract graphs: on a well-formed heap with the two
  graphs apart, merging a non-empty graph succeeds, keeps the heap and the server's graph well
  formed, and afterwards the server's graph holds under every id the merge of the two transactions
  (servers united; status or-ed, unless the merge runs on a server that is itself involved) and
  between any two ids the or of the two relations.\<close>

theorem union_graph_refines:
  assumes "wf_heap h" and "wf_graph txn_id h g" and "wf_graph txn_id h gra"
    and "set (vertex_index g) \<inter> set (vertex_index gra) = {}" and "vertex_index gra \<noteq> []"
  shows "\<exists>bs h' g'. union_graph site gra sv h g = Inr (bs, h', g') \<and> wf_heap h' \<and> wf_graph txn_id h' g' \<and>
    (\<forall>k. tdata h' g' k = merge_txn site sv (tdata h g k) (tdata h gra k)) \<and>
    (\<forall>k l. trel h' g' k l = merge_rel (trel h g k l) (trel h gra k l))"
proof -
  have ap: "apart h gra h g" using assms by (simp add: apart_def)
  have idv: "gfind gra (vid h w) = Some w" if "w \<in> set (vertex_index gra)" for w
    using wf_graph_vertex [OF assms(3) that] by (metis option.simps(5) vid_def)
  then have "inj_on (vid h) (set (vertex_index gra))" by (metis inj_onI option.inject)
  then have "distinct (map (vid h) (vertex_index gra))"
    using assms(3) by (simp add: distinct_map wf_graph_def)
  from union_vertices_spec [OF assms(1,3) ap order_refl this, of site sv "[]"] obtain h1 g1 nv where
    r: "union_vertices site sv (vertex_index gra) h g [] = Inr (h1, g1, nv)" "apart h gra h1 g1"
    "\<forall>k. if k \<in> vid h ` set (vertex_index gra)
         then tdata h1 g1 k = merge_txn site sv (tdata h g k) (tdata h gra k)
         else adv (tdata h gra k) (tdata h g k) (tdata h1 g1 k)"
    "\<forall>k l. trel h1 g1 k l =
       merge_rel (trel h g k l) (if k \<in> vid h ` set (vertex_index gra) then trel h gra k l else None)"
    by blast
  have out: "gfind gra k = None" if "k \<notin> vid h ` set (vertex_index gra)" for k
  proof (cases "gfind gra k")
    case (Some w)
    from wf_graph_find [OF assms(3) this] have "vid h w = k" "w \<in> set (vertex_index gra)"
      by (auto simp: vid_def)
    with that show ?thesis by blast
  qed
  have "tdata h1 g1 k = merge_txn site sv (tdata h g k) (tdata h gra k)" for k
  proof (cases "k \<in> vid h ` set (vertex_index gra)")
    case False
    then have "tdata h gra k = None" using out by (simp add: tdata_def)
    with r(3) [rule_format, of k] False show ?thesis by (auto simp: adv_def merge_txn_def split: option.splits)
  qed (use r(3) in simp)
  moreover have "trel h1 g1 k l = merge_rel (trel h g k l) (trel h gra k l)" for k l
    using r(4) out [of k] by (simp add: trel_def)
  moreover note trigger_all_view [OF apartD(1,2) [OF r(2)], of nv]
  moreover have "union_graph site gra sv h g = Inr (fst (trigger_all nv h1), snd (trigger_all nv h1), g1)"
    using r(1) assms(5) by (simp add: union_graph_def gsize_def split_beta)
  ultimately show ?thesis by simp
qed

definition recv_heap :: txn_heap where
  "recv_heap = or_edge 3 4 2 (chain_heap @
     [Some \<lparr>vfrom = [], vto = [], vdata = new_txn_info\<lparr>txn_id := 12, status := TXN_FINISH, servers := [3]\<rparr>\<rparr>,
      Some \<lparr>vfrom = [], vto = [], vdata = new_txn_info\<lparr>txn_id := 13\<rparr>\<rparr>])"

definition recv_graph :: graph where
  "recv_graph = gadd 13 4 (gadd 12 3 empty_graph)"

theorem union_graph_refines_witness:
  "\<exists>bs h' g'. union_graph 7 recv_graph True recv_heap chain_graph = Inr (bs, h', g') \<and>
     tdata h' g' 12 = Some (TXN_FINISH, {3}) \<and> trel h' g' 12 13 = Some 2 \<and> trel h' g' 11 12 = Some 1"
proof -
  have wf: "wf_heap recv_heap" "wf_graph txn_id recv_heap chain_graph" "wf_graph txn_id recv_heap recv_graph"
    by code_simp+
  have "set (vertex_index chain_graph) \<inter> set (vertex_index recv_graph) = {}" "vertex_index recv_graph \<noteq> []"
    by code_simp+
  from union_graph_refines [OF wf this, of 7 True] obtain bs h' g' where
    r: "union_graph 7 recv_graph True recv_heap chain_graph = Inr (bs, h', g')"
    "\<forall>k. tdata h' g' k = merge_txn 7 True (tdata recv_heap chain_graph k) (tdata recv_heap recv_graph k)"
    "\<forall>k l. trel h' g' k l = merge_rel (trel recv_heap chain_graph k l) (trel recv_heap recv_graph k l)"
    by blast
  have "tdata recv_heap chain_graph 12 = Some (0, {})" "tdata recv_heap recv_graph 12 = Some (TXN_FINISH, {3})"
    "trel recv_heap chain_graph 12 13 = None" "trel recv_heap recv_graph 12 13 = Some 2"
    "trel recv_heap chain_graph 11 12 = Some 1" "trel recv_heap recv_graph 11 12 = None"
    by code_simp+
  with r show ?thesis by (simp add: merge_txn_def merge_core_def Let_def)
qed

end
