(* ===== verification/Mdb_Snapshot.thy ===== *)
theory Mdb_Snapshot
  imports Rococo_Prelude
begin

text \<open>
  The multi-version sorted map of the storage engine (\<^verbatim>\<open>memdb/snapshot.h\<close>): a group of maps that
  share one multimap of versioned values, at most one of them writable and the others snapshots. The
  members of a group form a ring; the model lists it in ring order with the version of each member.
  The theory proves that the shared representation behaves as separate maps: a write changes the
  content of the writer only, a snapshot starts as a copy, and garbage collection and the end of a
  member change nobody's content.

  Versions are integers without a bound: the code counts operations in 64 bits.
\<close>

section \<open>Versioned values and groups\<close>

record 'v versioned_value =
  created_at :: int
  removed_at :: int
  val :: 'v

definition new_vv :: "int \<Rightarrow> 'v \<Rightarrow> 'v versioned_value" where
  "new_vv created v = \<lparr>created_at = created, removed_at = -1, val = v\<rparr>"

definition valid_at :: "'v versioned_value \<Rightarrow> int \<Rightarrow> bool" where
  "valid_at vv v \<longleftrightarrow> created_at vv \<le> v \<and> (removed_at vv = -1 \<or> v < removed_at vv)"

definition vv_remove :: "int \<Rightarrow> 'v versioned_value \<Rightarrow> 'v versioned_value" where
  "vv_remove v vv = vv\<lparr>removed_at := v\<rparr>"

type_synonym handle = nat

record ('k, 'v) ssgroup =
  data :: "('k \<times> 'v versioned_value) list"
  writer :: "handle option"
  ring :: "(handle \<times> int) list"
  gc_insert_counter :: nat
  gc_erase_counter :: nat

definition new_sortedmap :: "handle \<Rightarrow> ('k, 'v) ssgroup" where
  "new_sortedmap h = \<lparr>data = [], writer = Some h, ring = [(h, 0)], gc_insert_counter = 0, gc_erase_counter = 0\<rparr>"

text \<open>The version of a member; \<open>-1\<close> is the version of a map that is not in the group.\<close>

definition version :: "('k, 'v) ssgroup \<Rightarrow> handle \<Rightarrow> int" where
  "version g h = (case map_of (ring g) h of None \<Rightarrow> -1 | Some v \<Rightarrow> v)"

definition readonly :: "('k, 'v) ssgroup \<Rightarrow> handle \<Rightarrow> bool" where
  "readonly g h \<longleftrightarrow> writer g \<noteq> Some h"

definition writable :: "('k, 'v) ssgroup \<Rightarrow> handle \<Rightarrow> bool" where
  "writable g h \<longleftrightarrow> writer g = Some h"

text \<open>\<^verbatim>\<open>prev_\<close> of a member: its left neighbour in the ring, cyclically.\<close>

definition prev_of :: "(handle \<times> int) list \<Rightarrow> handle \<Rightarrow> handle" where
  "prev_of rs h = (let before = takeWhile (\<lambda>m. fst m \<noteq> h) rs in fst (last (if before = [] then rs else before)))"

definition has_readonly_snapshot :: "('k, 'v) ssgroup \<Rightarrow> handle \<Rightarrow> bool" where
  "has_readonly_snapshot g h = (if readonly g h then True else readonly g (prev_of (ring g) h))"

definition has_writable_snapshot :: "('k, 'v) ssgroup \<Rightarrow> bool" where
  "has_writable_snapshot g \<longleftrightarrow> writer g \<noteq> None"

definition snapshot_count :: "('k, 'v) ssgroup \<Rightarrow> nat" where
  "snapshot_count g = length (ring g)"

definition set_version :: "handle \<Rightarrow> int \<Rightarrow> ('k, 'v) ssgroup \<Rightarrow> ('k, 'v) ssgroup" where
  "set_version h v g = g\<lparr>ring := map (\<lambda>m. if fst m = h then (h, v) else m) (ring g)\<rparr>"

section \<open>Writing\<close>

text \<open>A multimap inserts behind the entries with an equal key.\<close>

fun mm_insert :: "'k::linorder \<Rightarrow> 'a \<Rightarrow> ('k \<times> 'a) list \<Rightarrow> ('k \<times> 'a) list" where
  "mm_insert k x [] = [(k, x)]"
| "mm_insert k x (e # es) = (if fst e \<le> k then e # mm_insert k x es else (k, x) # e # es)"

definition ss_insert :: "handle \<Rightarrow> 'k::linorder \<Rightarrow> 'v \<Rightarrow> ('k, 'v) ssgroup \<Rightarrow> ('k, 'v) ssgroup res" where
  "ss_insert h k v g =
     verify (writable g h)
       (let ver = version g h + 1; g1 = set_version h ver g
        in Inr (g1\<lparr>data := mm_insert k (new_vv ver v) (data g1), gc_insert_counter := Suc (gc_insert_counter g1)\<rparr>))"

text \<open>Inserting a range of pairs takes one version for all of them.\<close>

definition ss_insert_range :: "handle \<Rightarrow> ('k::linorder \<times> 'v) list \<Rightarrow> ('k, 'v) ssgroup \<Rightarrow> ('k, 'v) ssgroup res" where
  "ss_insert_range h kvs g =
     verify (writable g h)
       (let ver = version g h + 1; g1 = set_version h ver g
        in Inr (g1\<lparr>data := fold (\<lambda>kv d. mm_insert (fst kv) (new_vv ver (snd kv)) d) kvs (data g1),
                   gc_insert_counter := gc_insert_counter g1 + length kvs\<rparr>))"

text \<open>The loop of \<^verbatim>\<open>erase\<close> over the entries with the key, when snapshots may see them: \<open>p\<close> selects
  the values, \<open>first\<close> is \<^verbatim>\<open>first_match_only\<close>. The result counts the values removed.\<close>

fun erase_loop :: "('v \<Rightarrow> bool) \<Rightarrow> bool \<Rightarrow> 'k \<Rightarrow> int \<Rightarrow> int \<Rightarrow> ('k \<times> 'v versioned_value) list \<Rightarrow>
    ('k \<times> 'v versioned_value) list \<times> nat" where
  "erase_loop p first k orig ver [] = ([], 0)"
| "erase_loop p first k orig ver (e # es) =
     (if fst e = k \<and> valid_at (snd e) orig \<and> p (val (snd e))
      then (if first then ((fst e, vv_remove ver (snd e)) # es, 1)
            else let (es', n) = erase_loop p first k orig ver es in ((fst e, vv_remove ver (snd e)) # es', Suc n))
      else let (es', n) = erase_loop p first k orig ver es in (e # es', n))"

text \<open>Erasing directly, when the writer is alone: the entry at \<^verbatim>\<open>lower_bound(key)\<close>, whatever its
  key; all entries with the key; the entries with the key and value.\<close>

fun erase_lower_bound :: "'k::linorder \<Rightarrow> ('k \<times> 'a) list \<Rightarrow> ('k \<times> 'a) list res" where
  "erase_lower_bound k [] = Inl BadPointer"
| "erase_lower_bound k (e # es) =
     (if fst e < k then rbind (erase_lower_bound k es) (\<lambda>es'. Inr (e # es')) else Inr es)"

fun erase_direct :: "('v \<Rightarrow> bool) \<Rightarrow> bool \<Rightarrow> 'k \<Rightarrow> ('k \<times> 'v versioned_value) list \<Rightarrow> ('k \<times> 'v versioned_value) list" where
  "erase_direct p first k [] = []"
| "erase_direct p first k (e # es) =
     (if fst e = k \<and> p (val (snd e)) then (if first then es else erase_direct p first k es)
      else e # erase_direct p first k es)"

definition ss_erase :: "handle \<Rightarrow> 'k::linorder \<Rightarrow> bool \<Rightarrow> ('k, 'v) ssgroup \<Rightarrow> ('k, 'v) ssgroup res" where
  "ss_erase h k first g =
     verify (writable g h)
       (let orig = version g h; ver = orig + 1; g1 = set_version h ver g
        in if has_readonly_snapshot g1 h
           then let (d, n) = erase_loop (\<lambda>_. True) first k orig ver (data g1)
                in Inr (g1\<lparr>data := d, gc_erase_counter := gc_erase_counter g1 + n\<rparr>)
           else if first then rbind (erase_lower_bound k (data g1)) (\<lambda>d. Inr (g1\<lparr>data := d\<rparr>))
           else Inr (g1\<lparr>data := erase_direct (\<lambda>_. True) False k (data g1)\<rparr>))"

definition ss_erase_value :: "handle \<Rightarrow> 'k::linorder \<Rightarrow> 'v \<Rightarrow> bool \<Rightarrow> ('k, 'v) ssgroup \<Rightarrow> ('k, 'v) ssgroup res" where
  "ss_erase_value h k v first g =
     verify (writable g h)
       (let orig = version g h; ver = orig + 1; g1 = set_version h ver g
        in if has_readonly_snapshot g1 h
           then let (d, n) = erase_loop (\<lambda>x. x = v) first k orig ver (data g1)
                in Inr (g1\<lparr>data := d, gc_erase_counter := gc_erase_counter g1 + n\<rparr>)
           else Inr (g1\<lparr>data := erase_direct (\<lambda>x. x = v) first k (data g1)\<rparr>))"

text \<open>Erasing the entries at the positions from \<open>lo\<close> to \<open>hi\<close>, the iterators of a range; the
  reverse ranges erase the same positions.\<close>

definition ss_erase_range :: "handle \<Rightarrow> nat \<Rightarrow> nat \<Rightarrow> ('k, 'v) ssgroup \<Rightarrow> ('k, 'v) ssgroup res" where
  "ss_erase_range h lo hi g =
     verify (writable g h)
       (let orig = version g h; ver = orig + 1; g1 = set_version h ver g; d = data g1
        in if has_readonly_snapshot g1 h
           then Inr (g1\<lparr>data := take lo d @
                  map (\<lambda>e. if valid_at (snd e) orig then (fst e, vv_remove ver (snd e)) else e) (take (hi - lo) (drop lo d)) @
                  drop (max lo hi) d\<rparr>)
           else Inr (g1\<lparr>data := take lo d @ drop (max lo hi) d\<rparr>))"

section \<open>Snapshots, garbage collection, the end of a member\<close>

text \<open>\<^verbatim>\<open>make_me_snapshot_of\<close>: the new member joins the ring to the left of the source.\<close>

definition make_snapshot :: "handle \<Rightarrow> handle \<Rightarrow> ('k, 'v) ssgroup \<Rightarrow> ('k, 'v) ssgroup" where
  "make_snapshot me src g =
     (let before = takeWhile (\<lambda>m. fst m \<noteq> src) (ring g);
          g1 = g\<lparr>ring := before @ (me, version g src) # drop (length before) (ring g)\<rparr>
      in if writable g src then g1\<lparr>gc_insert_counter := 0, gc_erase_counter := 0\<rparr> else g1)"

definition gc_keeps :: "int \<Rightarrow> int \<Rightarrow> 'v versioned_value \<Rightarrow> bool" where
  "gc_keeps low high vv \<longleftrightarrow> \<not> (created_at vv > high \<or> removed_at vv \<noteq> -1 \<and> removed_at vv < low)"

definition gc_run :: "handle \<Rightarrow> ('k, 'v) ssgroup \<Rightarrow> ('k, 'v) ssgroup" where
  "gc_run h g =
     (let low = fold (\<lambda>m a. if snd m < a then snd m else a) (ring g) (version g h);
          high = fold (\<lambda>m a. if snd m > a then snd m else a) (ring g) (-1)
      in g\<lparr>data := filter (\<lambda>e. gc_keeps low high (snd e)) (data g), gc_insert_counter := 0, gc_erase_counter := 0\<rparr>)"

definition gc_size :: "('k, 'v) ssgroup \<Rightarrow> nat" where
  "gc_size g = length (data g)"

definition gc_counter :: "('k, 'v) ssgroup \<Rightarrow> nat" where
  "gc_counter g = gc_insert_counter g + gc_erase_counter g"

text \<open>\<^verbatim>\<open>destroy_me\<close>; the group of the last member is released, which the model shows as an empty
  ring.\<close>

definition destroy_me :: "handle \<Rightarrow> ('k, 'v) ssgroup \<Rightarrow> ('k, 'v) ssgroup" where
  "destroy_me h g =
     (let auto_gc = (writer g = Some h \<and> gc_counter g \<ge> 16 \<and> gc_counter g \<ge> gc_size g div 2);
          g1 = (if writer g = Some h then g\<lparr>writer := None\<rparr> else g);
          after = drop (Suc (length (takeWhile (\<lambda>m. fst m \<noteq> h) (ring g)))) (ring g);
          nxt = fst (hd (if after = [] then ring g else after));
          g2 = g1\<lparr>ring := filter (\<lambda>m. fst m \<noteq> h) (ring g1)\<rparr>
      in if prev_of (ring g) h \<noteq> h \<and> auto_gc then gc_run nxt g2 else g2)"

section \<open>Reading\<close>

text \<open>The positions of the bounds in the multimap, and the values of a range that are visible at the
  version of a member.\<close>

definition lower_bound :: "'k::linorder \<Rightarrow> ('k \<times> 'a) list \<Rightarrow> nat" where
  "lower_bound k d = length (takeWhile (\<lambda>e. fst e < k) d)"

definition upper_bound :: "'k::linorder \<Rightarrow> ('k \<times> 'a) list \<Rightarrow> nat" where
  "upper_bound k d = length (takeWhile (\<lambda>e. fst e \<le> k) d)"

definition visible :: "int \<Rightarrow> ('k \<times> 'v versioned_value) list \<Rightarrow> ('k \<times> 'v) list" where
  "visible v d = map (\<lambda>e. (fst e, val (snd e))) (filter (\<lambda>e. valid_at (snd e) v) d)"

definition range_of :: "('k, 'v) ssgroup \<Rightarrow> handle \<Rightarrow> nat \<Rightarrow> nat \<Rightarrow> ('k \<times> 'v) list" where
  "range_of g h lo hi = visible (version g h) (take (hi - lo) (drop lo (data g)))"

definition ss_all :: "('k, 'v) ssgroup \<Rightarrow> handle \<Rightarrow> ('k \<times> 'v) list" where
  "ss_all g h = range_of g h 0 (length (data g))"

definition ss_reverse_all :: "('k, 'v) ssgroup \<Rightarrow> handle \<Rightarrow> ('k \<times> 'v) list" where
  "ss_reverse_all g h = rev (ss_all g h)"

definition ss_query :: "('k::linorder, 'v) ssgroup \<Rightarrow> handle \<Rightarrow> 'k \<Rightarrow> ('k \<times> 'v) list" where
  "ss_query g h k = range_of g h (lower_bound k (data g)) (upper_bound k (data g))"

definition ss_query_lt :: "('k::linorder, 'v) ssgroup \<Rightarrow> handle \<Rightarrow> 'k \<Rightarrow> ('k \<times> 'v) list" where
  "ss_query_lt g h k = range_of g h 0 (lower_bound k (data g))"

definition ss_query_gt :: "('k::linorder, 'v) ssgroup \<Rightarrow> handle \<Rightarrow> 'k \<Rightarrow> ('k \<times> 'v) list" where
  "ss_query_gt g h k = range_of g h (upper_bound k (data g)) (length (data g))"

text \<open>With bounds that cross, the first iterator of the range is behind the last one.\<close>

definition ss_query_in :: "('k::linorder, 'v) ssgroup \<Rightarrow> handle \<Rightarrow> 'k \<Rightarrow> 'k \<Rightarrow> ('k \<times> 'v) list res" where
  "ss_query_in g h lo hi =
     (if upper_bound lo (data g) \<le> lower_bound hi (data g)
      then Inr (range_of g h (upper_bound lo (data g)) (lower_bound hi (data g))) else Inl BadPointer)"

text \<open>The cursor \<^verbatim>\<open>snapshot_range\<close>: the entries ahead, and the one prefetched.\<close>

record ('k, 'v) snapshot_range =
  range_ver :: int
  ahead :: "('k \<times> 'v versioned_value) list"
  cached :: "('k \<times> 'v) option"

fun prefetch :: "int \<Rightarrow> ('k \<times> 'v versioned_value) list \<Rightarrow> ('k \<times> 'v) option \<times> ('k \<times> 'v versioned_value) list" where
  "prefetch v [] = (None, [])"
| "prefetch v (e # es) = (if valid_at (snd e) v then (Some (fst e, val (snd e)), es) else prefetch v es)"

definition prefetch_next :: "('k, 'v) snapshot_range \<Rightarrow> bool \<times> ('k, 'v) snapshot_range" where
  "prefetch_next r = (let (c, es) = prefetch (range_ver r) (ahead r) in (c \<noteq> None, r\<lparr>cached := c, ahead := es\<rparr>))"

definition range_has_next :: "('k, 'v) snapshot_range \<Rightarrow> bool \<times> ('k, 'v) snapshot_range" where
  "range_has_next r = (if cached r \<noteq> None then (True, r) else prefetch_next r)"

definition range_next :: "('k, 'v) snapshot_range \<Rightarrow> (('k \<times> 'v) \<times> ('k, 'v) snapshot_range) res" where
  "range_next r =
     (let r1 = (if cached r \<noteq> None then r else snd (prefetch_next r))
      in case cached r1 of None \<Rightarrow> Inl VerifyFailed | Some kv \<Rightarrow> Inr (kv, r1\<lparr>cached := None\<rparr>))"

definition range_count :: "int \<Rightarrow> ('k \<times> 'v versioned_value) list \<Rightarrow> nat" where
  "range_count v d = length (filter (\<lambda>e. valid_at (snd e) v) d)"

section \<open>Copies\<close>

text \<open>\<^verbatim>\<open>next_\<close> of a member, and the copy constructor. A copy of a snapshot is a snapshot in the same
  group; a copy of a writable map is a new group with the visible values, unless the writer is gone
  and the source has the largest version, in which case the copy would join the group.\<close>

definition next_of :: "(handle \<times> int) list \<Rightarrow> handle \<Rightarrow> handle" where
  "next_of rs h =
     (let after = drop (Suc (length (takeWhile (\<lambda>m. fst m \<noteq> h) rs))) rs in fst (hd (if after = [] then rs else after)))"

datatype ('k, 'v) copy_result = Joined "('k, 'v) ssgroup" | Fresh "('k, 'v) ssgroup"

definition insert_after :: "handle \<Rightarrow> handle \<Rightarrow> int \<Rightarrow> (handle \<times> int) list \<Rightarrow> (handle \<times> int) list" where
  "insert_after src me v rs =
     (let n = Suc (length (takeWhile (\<lambda>m. fst m \<noteq> src) rs)) in take n rs @ (me, v) # drop n rs)"

definition ss_copy :: "handle \<Rightarrow> handle \<Rightarrow> ('k::linorder, 'v) ssgroup \<Rightarrow> ('k, 'v) copy_result res" where
  "ss_copy me src g =
     (if readonly g src then Inr (Joined (make_snapshot me src g))
      else if \<not> has_writable_snapshot g \<and> version g src > version g (next_of (ring g) src)
           then Inr (Joined (g\<lparr>ring := insert_after src me (version g src) (ring g)\<rparr>))
           else rbind (ss_insert_range me (ss_all g src) (new_sortedmap me)) (\<lambda>g'. Inr (Fresh g')))"

section \<open>The invariant of a group\<close>

definition handles :: "('k, 'v) ssgroup \<Rightarrow> handle set" where
  "handles g = fst ` set (ring g)"

definition ss_inv :: "('k::linorder, 'v) ssgroup \<Rightarrow> bool" where
  "ss_inv g \<longleftrightarrow> distinct (map fst (ring g)) \<and> sorted (map fst (data g)) \<and>
     (\<forall>m \<in> set (ring g). 0 \<le> snd m) \<and>
     (\<forall>w. writer g = Some w \<longrightarrow> w \<in> handles g \<and> (\<forall>m \<in> set (ring g). snd m \<le> version g w) \<and>
        (\<forall>e \<in> set (data g). created_at (snd e) \<le> version g w \<and> removed_at (snd e) \<le> version g w))"

lemma ss_invD:
  assumes "ss_inv g"
  shows "distinct (map fst (ring g))" "sorted (map fst (data g))"
    "\<And>m. m \<in> set (ring g) \<Longrightarrow> 0 \<le> snd m"
    "\<And>w. writer g = Some w \<Longrightarrow> w \<in> handles g"
    "\<And>w m. writer g = Some w \<Longrightarrow> m \<in> set (ring g) \<Longrightarrow> snd m \<le> version g w"
    "\<And>w e. writer g = Some w \<Longrightarrow> e \<in> set (data g) \<Longrightarrow> created_at (snd e) \<le> version g w"
    "\<And>w e. writer g = Some w \<Longrightarrow> e \<in> set (data g) \<Longrightarrow> removed_at (snd e) \<le> version g w"
  using assms unfolding ss_inv_def by blast+

lemma version_mem: "distinct (map fst (ring g)) \<Longrightarrow> (h, v) \<in> set (ring g) \<Longrightarrow> version g h = v"
  by (simp add: version_def)

lemma version_in: "h \<in> handles g \<Longrightarrow> (h, version g h) \<in> set (ring g)"
proof -
  assume "h \<in> handles g"
  then obtain v where "map_of (ring g) h = Some v" using map_of_eq_None_iff [of "ring g" h] by (auto simp: handles_def)
  then show ?thesis by (simp add: version_def map_of_SomeD)
qed

lemma map_of_set_version:
  "map_of (map (\<lambda>m. if fst m = h then (h, v) else m) rs) h' =
     (if h' = h then map_option (\<lambda>_. v) (map_of rs h) else map_of rs h')"
  by (induction rs) auto

lemma version_set_version:
  "version (set_version h v g) h' = (if h' = h \<and> h \<in> handles g then v else version g h')"
proof -
  have "map_of (ring g) h = None \<longleftrightarrow> h \<notin> handles g" by (simp add: handles_def map_of_eq_None_iff)
  then show ?thesis
    by (auto simp: version_def set_version_def map_of_set_version split: option.splits)
qed

lemma set_version_fst [simp]: "map fst (ring (set_version h v g)) = map fst (ring g)"
  by (auto simp: set_version_def)

lemma set_version_sel [simp]: "data (set_version h v g) = data g" "writer (set_version h v g) = writer g"
  "gc_insert_counter (set_version h v g) = gc_insert_counter g" "gc_erase_counter (set_version h v g) = gc_erase_counter g"
  by (simp_all add: set_version_def)

lemma set_version_handles [simp]: "handles (set_version h v g) = handles g"
  using set_version_fst [of h v g] unfolding handles_def by (metis list.set_map)

lemma data_upd_sel [simp]: "version (g\<lparr>data := d\<rparr>) h = version g h" "handles (g\<lparr>data := d\<rparr>) = handles g"
  "version (g\<lparr>gc_insert_counter := n\<rparr>) h = version g h" "handles (g\<lparr>gc_insert_counter := n\<rparr>) = handles g"
  "version (g\<lparr>gc_erase_counter := n\<rparr>) h = version g h" "handles (g\<lparr>gc_erase_counter := n\<rparr>) = handles g"
  by (simp_all add: version_def handles_def)

section \<open>What a member sees\<close>

lemma ss_all_visible: "ss_all g h = visible (version g h) (data g)"
  by (simp add: ss_all_def range_of_def)

lemma visible_append [simp]: "visible v (xs @ ys) = visible v xs @ visible v ys"
  by (simp add: visible_def)

lemma visible_Nil [simp]: "visible v [] = []"
  by (simp add: visible_def)

lemma visible_Cons:
  "visible v (e # es) = (if valid_at (snd e) v then (fst e, val (snd e)) # visible v es else visible v es)"
  by (simp add: visible_def)

lemma visible_cong: "(\<And>e. e \<in> set d \<Longrightarrow> valid_at (snd e) v = valid_at (snd e) v') \<Longrightarrow> visible v d = visible v' d"
  unfolding visible_def by (metis (mono_tags, lifting) filter_cong)

lemma visible_next:
  assumes "\<And>e. e \<in> set d \<Longrightarrow> created_at (snd e) \<le> v \<and> removed_at (snd e) \<le> v"
  shows "visible (v + 1) d = visible v d"
proof (rule visible_cong)
  fix e assume "e \<in> set d"
  from assms [OF this] show "valid_at (snd e) (v + 1) = valid_at (snd e) v" by (auto simp: valid_at_def)
qed

lemma set_mm_insert: "set (mm_insert k x d) = insert (k, x) (set d)"
  by (induction d) auto

lemma sorted_mm_insert: "sorted (map fst d) \<Longrightarrow> sorted (map fst (mm_insert k x d))"
  by (induction d) (auto simp: set_mm_insert)

lemma mm_insert_front: "\<forall>e \<in> set d. k < fst e \<Longrightarrow> mm_insert k x d = (k, x) # d"
  by (cases d) auto

lemma visible_keys: "(k, x) \<in> set (visible v d) \<Longrightarrow> k \<in> fst ` set d"
  by (auto simp: visible_def)

lemma visible_mm_insert_new: "\<not> valid_at x v \<Longrightarrow> visible v (mm_insert k x d) = visible v d"
  by (induction d) (simp_all add: visible_Cons)

lemma visible_mm_insert:
  "sorted (map fst d) \<Longrightarrow> valid_at x v \<Longrightarrow> visible v (mm_insert k x d) = mm_insert k (val x) (visible v d)"
proof (induction d)
  case (Cons e d)
  show ?case
  proof (cases "fst e \<le> k")
    case True
    with Cons show ?thesis by (simp add: visible_Cons)
  next
    case False
    then have "\<forall>e' \<in> set (visible v (e # d)). k < fst e'"
      using Cons.prems(1) by (force dest: visible_keys)
    then show ?thesis using False Cons.prems(2) by (simp add: visible_Cons [of v "(k, x)"] mm_insert_front)
  qed
qed (simp add: visible_Cons)

text \<open>The fresh version of a write: nobody else's content changes.\<close>

lemma valid_new_vv: "valid_at (new_vv c x) v \<longleftrightarrow> c \<le> v"
  by (simp add: valid_at_def new_vv_def)

lemma visible_fold_insert_new:
  "v < ver \<Longrightarrow> visible v (fold (\<lambda>kv d. mm_insert (fst kv) (new_vv ver (snd kv)) d) kvs d) = visible v d"
  by (induction kvs arbitrary: d) (simp_all add: visible_mm_insert_new valid_new_vv)

lemma visible_fold_insert:
  "sorted (map fst d) \<Longrightarrow>
    visible ver (fold (\<lambda>kv d. mm_insert (fst kv) (new_vv ver (snd kv)) d) kvs d) =
      fold (\<lambda>kv. mm_insert (fst kv) (snd kv)) kvs (visible ver d)"
proof (induction kvs arbitrary: d)
  case (Cons kv kvs)
  then show ?case using sorted_mm_insert [of d "fst kv" "new_vv ver (snd kv)"]
    by (simp add: visible_mm_insert valid_new_vv) (simp add: new_vv_def)
qed simp

lemma sorted_fold_insert:
  "sorted (map fst d) \<Longrightarrow> sorted (map fst (fold (\<lambda>kv d. mm_insert (fst kv) (f kv) d) kvs d))"
  by (induction kvs arbitrary: d) (simp_all add: sorted_mm_insert)

lemma set_fold_insert:
  "e \<in> set (fold (\<lambda>kv d. mm_insert (fst kv) (new_vv ver (snd kv)) d) kvs d) \<Longrightarrow>
    e \<in> set d \<or> (\<exists>x. snd e = new_vv ver x)"
proof (induction kvs arbitrary: d)
  case (Cons kv kvs)
  then have "e \<in> set (mm_insert (fst kv) (new_vv ver (snd kv)) d) \<or> (\<exists>x. snd e = new_vv ver x)" by simp
  then show ?case by (auto simp: set_mm_insert)
qed simp

section \<open>Erasing\<close>

fun erase_spec :: "('v \<Rightarrow> bool) \<Rightarrow> bool \<Rightarrow> 'k \<Rightarrow> ('k \<times> 'v) list \<Rightarrow> ('k \<times> 'v) list" where
  "erase_spec p first k [] = []"
| "erase_spec p first k (e # es) =
     (if fst e = k \<and> p (snd e) then (if first then es else erase_spec p first k es)
      else e # erase_spec p first k es)"

lemma erase_loop_old:
  assumes "\<And>e. e \<in> set d \<Longrightarrow> removed_at (snd e) \<le> orig" and "v \<le> orig" and "0 \<le> orig"
  shows "visible v (fst (erase_loop p first k orig (orig + 1) d)) = visible v d"
  using assms(1)
proof (induction d)
  case (Cons e d)
  have "valid_at (vv_remove (orig + 1) (snd e)) v = valid_at (snd e) v" if "valid_at (snd e) orig"
    using that Cons.prems [of e] assms(2,3) by (auto simp: valid_at_def vv_remove_def)
  with Cons show ?case
    by (auto simp: visible_Cons split_beta Let_def vv_remove_def)
qed simp

lemma erase_loop_new:
  assumes "\<And>e. e \<in> set d \<Longrightarrow> created_at (snd e) \<le> orig \<and> removed_at (snd e) \<le> orig" and "0 \<le> orig"
  shows "visible (orig + 1) (fst (erase_loop p first k orig (orig + 1) d)) = erase_spec p first k (visible orig d)"
  using assms(1)
proof (induction d)
  case (Cons e d)
  have nx: "visible (orig + 1) d = visible orig d" using Cons.prems by (intro visible_next) auto
  have gone: "\<not> valid_at (vv_remove (orig + 1) (snd e)) (orig + 1)"
    using assms(2) by (simp add: valid_at_def vv_remove_def)
  have keep: "valid_at (snd e) (orig + 1) = valid_at (snd e) orig"
    using Cons.prems [of e] by (auto simp: valid_at_def)
  show ?case using Cons nx gone keep by (auto simp: visible_Cons split_beta Let_def)
qed simp

lemma erase_loop_entries:
  "e \<in> set (fst (erase_loop p first k orig ver d)) \<Longrightarrow>
    e \<in> set d \<or> (\<exists>e' \<in> set d. fst e = fst e' \<and> snd e = vv_remove ver (snd e'))"
  by (induction d) (auto simp: split_beta Let_def split: if_splits)

lemma erase_loop_keys: "map fst (fst (erase_loop p first k orig ver d)) = map fst d"
  by (induction d) (auto simp: split_beta Let_def)

lemma erase_direct_visible: "visible v (erase_direct p False k d) = erase_spec p False k (visible v d)"
  by (induction d) (auto simp: visible_Cons)

lemma set_erase_direct: "set (erase_direct p first k d) \<subseteq> set d"
  by (induction d) auto

lemma sorted_erase_direct: "sorted (map fst d) \<Longrightarrow> sorted (map fst (erase_direct p first k d))"
proof (induction d)
  case (Cons e d)
  then show ?case using set_erase_direct [of p first k d] by auto
qed simp

section \<open>The ring\<close>

lemma takeWhile_fst: "map fst (takeWhile (\<lambda>m. fst m \<noteq> h) rs) = takeWhile (\<lambda>x. x \<noteq> h) (map fst rs)"
  by (induction rs) auto

lemma prev_of_self:
  assumes "distinct (map fst rs)" and "h \<in> fst ` set rs" and "prev_of rs h = h"
  shows "\<exists>v. rs = [(h, v)]"
proof -
  let ?b = "takeWhile (\<lambda>m. fst m \<noteq> h) rs"
  have "?b = []"
  proof (rule ccontr)
    assume "?b \<noteq> []"
    then have "last ?b \<in> set ?b" "fst (last ?b) = h" using assms(3) by (simp_all add: prev_of_def Let_def)
    then show False by (auto dest: set_takeWhileD)
  qed
  then have l: "fst (last rs) = h" using assms(3) by (simp add: prev_of_def)
  obtain m rs' where rs: "rs = m # rs'" using assms(2) by (cases rs) auto
  with \<open>?b = []\<close> have m: "fst m = h" by (auto split: if_splits)
  have "rs' = []"
  proof (rule ccontr)
    assume "rs' \<noteq> []"
    then have "last rs' \<in> set rs'" "fst (last rs') = h" using l rs by simp_all
    then show False using assms(1) m rs by force
  qed
  then show ?thesis using rs m by (cases m) simp
qed

lemma writer_alone:
  assumes "ss_inv g" and "writer g = Some h" and "\<not> has_readonly_snapshot g h"
  shows "handles g = {h}"
proof -
  have "prev_of (ring g) h = h" using assms(2,3) by (simp add: has_readonly_snapshot_def readonly_def split: if_splits)
  with prev_of_self [of "ring g" h] ss_invD(1,4) [OF assms(1)] assms(2) show ?thesis
    unfolding handles_def by force
qed

section \<open>Histories and the separate maps they stand for\<close>

text \<open>The operations of a group; a call on a map that is not a member is a use of a destroyed object.
  The specification keeps one list of pairs per member and knows nothing of versions.\<close>

datatype ('k, 'v) ss_op =
    OpInsert handle 'k 'v
  | OpInsertRange handle "('k \<times> 'v) list"
  | OpErase handle 'k
  | OpEraseValue handle 'k 'v
  | OpSnapshot handle handle
  | OpGc handle
  | OpDestroy handle

fun ss_target :: "('k, 'v) ss_op \<Rightarrow> handle" where
  "ss_target (OpInsert h k v) = h"
| "ss_target (OpInsertRange h kvs) = h"
| "ss_target (OpErase h k) = h"
| "ss_target (OpEraseValue h k v) = h"
| "ss_target (OpSnapshot me src) = src"
| "ss_target (OpGc h) = h"
| "ss_target (OpDestroy h) = h"

fun ss_fresh :: "('k, 'v) ss_op \<Rightarrow> handle option" where
  "ss_fresh (OpSnapshot me src) = Some me"
| "ss_fresh _ = None"

fun ss_do :: "('k::linorder, 'v) ss_op \<Rightarrow> ('k, 'v) ssgroup \<Rightarrow> ('k, 'v) ssgroup res" where
  "ss_do (OpInsert h k v) g = ss_insert h k v g"
| "ss_do (OpInsertRange h kvs) g = ss_insert_range h kvs g"
| "ss_do (OpErase h k) g = ss_erase h k False g"
| "ss_do (OpEraseValue h k v) g = ss_erase_value h k v False g"
| "ss_do (OpSnapshot me src) g = Inr (make_snapshot me src g)"
| "ss_do (OpGc h) g = Inr (gc_run h g)"
| "ss_do (OpDestroy h) g = Inr (destroy_me h g)"

definition ss_step :: "('k::linorder, 'v) ss_op \<Rightarrow> ('k, 'v) ssgroup \<Rightarrow> ('k, 'v) ssgroup res" where
  "ss_step op g =
     (if ss_target op \<in> handles g \<and> (\<forall>me. ss_fresh op = Some me \<longrightarrow> me \<notin> handles g) then ss_do op g
      else Inl BadPointer)"

fun ss_run :: "('k::linorder, 'v) ss_op list \<Rightarrow> ('k, 'v) ssgroup \<Rightarrow> ('k, 'v) ssgroup res" where
  "ss_run [] g = Inr g"
| "ss_run (op # ops) g = rbind (ss_step op g) (ss_run ops)"

type_synonym ('k, 'v) maps = "handle option \<times> (handle \<rightharpoonup> ('k \<times> 'v) list)"

definition upd_writer :: "handle \<Rightarrow> (('k \<times> 'v) list \<Rightarrow> ('k \<times> 'v) list) \<Rightarrow> ('k, 'v) maps \<Rightarrow> ('k, 'v) maps res" where
  "upd_writer h f s = verify (fst s = Some h) (Inr (fst s, (snd s)(h := map_option f (snd s h))))"

fun maps_do :: "('k::linorder, 'v) ss_op \<Rightarrow> ('k, 'v) maps \<Rightarrow> ('k, 'v) maps res" where
  "maps_do (OpInsert h k v) s = upd_writer h (mm_insert k v) s"
| "maps_do (OpInsertRange h kvs) s = upd_writer h (fold (\<lambda>kv. mm_insert (fst kv) (snd kv)) kvs) s"
| "maps_do (OpErase h k) s = upd_writer h (filter (\<lambda>kv. fst kv \<noteq> k)) s"
| "maps_do (OpEraseValue h k v) s = upd_writer h (filter (\<lambda>kv. kv \<noteq> (k, v))) s"
| "maps_do (OpSnapshot me src) s = Inr (fst s, (snd s)(me := snd s src))"
| "maps_do (OpGc h) s = Inr s"
| "maps_do (OpDestroy h) s = Inr (if fst s = Some h then None else fst s, (snd s)(h := None))"

definition maps_step :: "('k::linorder, 'v) ss_op \<Rightarrow> ('k, 'v) maps \<Rightarrow> ('k, 'v) maps res" where
  "maps_step op s =
     (if snd s (ss_target op) \<noteq> None \<and> (\<forall>me. ss_fresh op = Some me \<longrightarrow> snd s me = None) then maps_do op s
      else Inl BadPointer)"

fun maps_run :: "('k::linorder, 'v) ss_op list \<Rightarrow> ('k, 'v) maps \<Rightarrow> ('k, 'v) maps res" where
  "maps_run [] s = Inr s"
| "maps_run (op # ops) s = rbind (maps_step op s) (maps_run ops)"

definition abs_maps :: "('k::linorder, 'v) ssgroup \<Rightarrow> ('k, 'v) maps" where
  "abs_maps g = (writer g, \<lambda>h. if h \<in> handles g then Some (ss_all g h) else None)"

definition map_res :: "('a \<Rightarrow> 'b) \<Rightarrow> 'a res \<Rightarrow> 'b res" where
  "map_res f m = rbind m (\<lambda>x. Inr (f x))"

lemma map_res_simps [simp]: "map_res f (Inl e) = Inl e" "map_res f (Inr x) = Inr (f x)"
  by (simp_all add: map_res_def)

lemma erase_spec_all: "erase_spec p False k d = filter (\<lambda>kv. \<not> (fst kv = k \<and> p (snd kv))) d"
  by (induction d) auto

text \<open>A write of the writer \<open>h\<close> that takes a new version and replaces the entries by \<open>d\<close>.\<close>

definition writes :: "handle \<Rightarrow> ('k, 'v) ssgroup \<Rightarrow> ('k \<times> 'v versioned_value) list \<Rightarrow> ('k, 'v) ssgroup \<Rightarrow> bool" where
  "writes h g d g' \<longleftrightarrow> writer g' = writer g \<and> data g' = d \<and> ring g' = ring (set_version h (version g h + 1) g)"

lemma writes_version:
  "writes h g d g' \<Longrightarrow> h \<in> handles g \<Longrightarrow> version g' h' = (if h' = h then version g h + 1 else version g h')"
  using version_set_version [of h "version g h + 1" g h'] by (simp add: writes_def version_def)

lemma writes_handles: "writes h g d g' \<Longrightarrow> handles g' = handles g"
  using set_version_handles [of h "version g h + 1" g] by (simp add: writes_def handles_def)

lemma writes_inv:
  assumes inv: "ss_inv g" and w: "writer g = Some h" and wr: "writes h g d g'"
    and d: "sorted (map fst d)"
    and ent: "\<And>e. e \<in> set d \<Longrightarrow> created_at (snd e) \<le> version g h + 1 \<and> removed_at (snd e) \<le> version g h + 1"
  shows "ss_inv g'"
proof -
  have h: "h \<in> handles g" using ss_invD(4) [OF inv w] .
  have ring: "\<forall>m \<in> set (ring g'). m = (h, version g h + 1) \<or> m \<in> set (ring g)"
    using wr by (auto simp: writes_def set_version_def)
  have v0: "0 \<le> version g h" using ss_invD(3) [OF inv version_in [OF h]] by simp
  have v: "version g' h = version g h + 1" using writes_version [OF wr h] by simp
  have "distinct (map fst (ring g'))" using ss_invD(1) [OF inv] wr by (simp add: writes_def del: map_map)
  moreover have "\<forall>m \<in> set (ring g'). 0 \<le> snd m" using ring v0 ss_invD(3) [OF inv] by force
  moreover have "\<forall>m \<in> set (ring g'). snd m \<le> version g' h" using ring v ss_invD(5) [OF inv w] by force
  moreover have "writer g' = Some h" "data g' = d" using wr w by (simp_all add: writes_def)
  ultimately show ?thesis
    unfolding ss_inv_def using d ent v h writes_handles [OF wr] by simp
qed

lemma writes_abs:
  assumes inv: "ss_inv g" and w: "writer g = Some h" and wr: "writes h g d g'"
    and new: "visible (version g h + 1) d = f (visible (version g h) (data g))"
    and old: "handles g = {h} \<or> (\<forall>v. 0 \<le> v \<longrightarrow> v \<le> version g h \<longrightarrow> visible v d = visible v (data g))"
  shows "upd_writer h f (abs_maps g) = Inr (abs_maps g')"
proof -
  have h: "h \<in> handles g" using ss_invD(4) [OF inv w] .
  have D: "data g' = d" "writer g' = writer g" using wr by (simp_all add: writes_def)
  have "ss_all g' x = ss_all g x" if "x \<in> handles g" "x \<noteq> h" for x
  proof -
    have "0 \<le> version g x" "version g x \<le> version g h"
      using ss_invD(3,5) [OF inv] w version_in [OF that(1)] by force+
    then show ?thesis using old that writes_version [OF wr h, of x] D by (auto simp: ss_all_visible)
  qed
  then show ?thesis
    using w h D new writes_version [OF wr h, of h] writes_handles [OF wr]
    by (auto simp: upd_writer_def abs_maps_def ss_all_visible fun_eq_iff)
qed

lemma ss_inv_entries:
  "ss_inv g \<Longrightarrow> writer g = Some h \<Longrightarrow> e \<in> set (data g) \<Longrightarrow>
    created_at (snd e) \<le> version g h \<and> removed_at (snd e) \<le> version g h"
  unfolding ss_inv_def by blast

lemma writer_version: "ss_inv g \<Longrightarrow> writer g = Some h \<Longrightarrow> 0 \<le> version g h"
  using ss_invD(3) [of g "(h, version g h)"] version_in [of h g] ss_invD(4) [of g h] by simp

lemma writer_next: "ss_inv g \<Longrightarrow> writer g = Some h \<Longrightarrow> visible (version g h + 1) (data g) = visible (version g h) (data g)"
  using ss_inv_entries [of g h] by (intro visible_next) blast

text \<open>Every write does what the specification says and keeps the invariant.\<close>

definition write_ok :: "handle \<Rightarrow> (('k \<times> 'v) list \<Rightarrow> ('k \<times> 'v) list) \<Rightarrow> ('k::linorder, 'v) ssgroup \<Rightarrow>
    ('k, 'v) ssgroup res \<Rightarrow> bool" where
  "write_ok h f g r \<longleftrightarrow> map_res abs_maps r = upd_writer h f (abs_maps g) \<and> (\<forall>g'. r = Inr g' \<longrightarrow> ss_inv g')"

lemma write_okI:
  assumes "ss_inv g" and "writer g = Some h" and "r = Inr g'" and "writes h g d g'" and "sorted (map fst d)"
    and "\<And>e. e \<in> set d \<Longrightarrow> created_at (snd e) \<le> version g h + 1 \<and> removed_at (snd e) \<le> version g h + 1"
    and "visible (version g h + 1) d = f (visible (version g h) (data g))"
    and "handles g = {h} \<or> (\<forall>v. 0 \<le> v \<longrightarrow> v \<le> version g h \<longrightarrow> visible v d = visible v (data g))"
  shows "write_ok h f g r"
  using writes_inv [OF assms(1,2,4-6)] writes_abs [where f = f, OF assms(1,2,4,7,8)] assms(3) by (simp add: write_ok_def)

lemma write_ok_readonly: "writer g \<noteq> Some h \<Longrightarrow> r = Inl VerifyFailed \<Longrightarrow> write_ok h f g r"
  by (simp add: write_ok_def upd_writer_def abs_maps_def)

lemma ss_insert_range_ok:
  assumes inv: "ss_inv g"
  shows "write_ok h (fold (\<lambda>kv. mm_insert (fst kv) (snd kv)) kvs) g (ss_insert_range h kvs g)"
proof (cases "writer g = Some h")
  case w: True
  let ?d = "fold (\<lambda>kv d. mm_insert (fst kv) (new_vv (version g h + 1) (snd kv)) d) kvs (data g)"
  let ?g1 = "set_version h (version g h + 1) g"
  let ?g' = "?g1\<lparr>data := ?d, gc_insert_counter := gc_insert_counter g + length kvs\<rparr>"
  show ?thesis
  proof (rule write_okI [where d = ?d and g' = ?g', OF inv w])
    show "ss_insert_range h kvs g = Inr ?g'" using w by (simp add: ss_insert_range_def writable_def Let_def)
    show "writes h g ?d ?g'" by (simp add: writes_def)
    show "sorted (map fst ?d)" using sorted_fold_insert [OF ss_invD(2) [OF inv]] .
    show "created_at (snd e) \<le> version g h + 1 \<and> removed_at (snd e) \<le> version g h + 1" if "e \<in> set ?d" for e
      using set_fold_insert [OF that] ss_inv_entries [OF inv w, of e] writer_version [OF inv w]
      by (auto simp: new_vv_def)
    show "visible (version g h + 1) ?d = fold (\<lambda>kv. mm_insert (fst kv) (snd kv)) kvs (visible (version g h) (data g))"
      using visible_fold_insert [OF ss_invD(2) [OF inv]] writer_next [OF inv w] by simp
  qed (simp add: visible_fold_insert_new)
qed (simp add: write_ok_readonly ss_insert_range_def writable_def)

lemma ss_insert_single: "ss_insert h k v g = ss_insert_range h [(k, v)] g"
  by (simp add: ss_insert_def ss_insert_range_def Let_def)

lemma has_readonly_set_version [simp]: "has_readonly_snapshot (set_version h v g) h' = has_readonly_snapshot g h'"
proof -
  have "prev_of (ring (set_version h v g)) h' = prev_of (ring g) h'"
  proof -
    let ?t = "\<lambda>rs. takeWhile (\<lambda>m. fst m \<noteq> h') rs"
    have e: "map fst (?t (ring (set_version h v g))) = map fst (?t (ring g))" by (simp only: takeWhile_fst set_version_fst)
    then have n: "?t (ring (set_version h v g)) = [] \<longleftrightarrow> ?t (ring g) = []" by (metis map_is_Nil_conv)
    have l: "fst (last xs) = fst (last ys)" if "map fst xs = map fst ys" "xs \<noteq> []" for xs ys :: "(nat \<times> int) list"
      using that by (metis last_map map_is_Nil_conv)
    have r: "ring (set_version h v g) = [] \<longleftrightarrow> ring g = []" by (simp add: set_version_def)
    show ?thesis
      using e n l [OF e] l [OF set_version_fst [of h v g]] r
      by (cases "ring g = []") (auto simp: prev_of_def Let_def)
  qed
  then show ?thesis by (simp add: has_readonly_snapshot_def readonly_def)
qed

lemma erase_ok:
  assumes inv: "ss_inv g" and w: "writer g = Some h"
    and r: "has_readonly_snapshot g h \<Longrightarrow> \<exists>n. r = Inr ((set_version h (version g h + 1) g)
      \<lparr>data := fst (erase_loop p False k (version g h) (version g h + 1) (data g)), gc_erase_counter := n\<rparr>)"
    and r': "\<not> has_readonly_snapshot g h \<Longrightarrow>
      r = Inr ((set_version h (version g h + 1) g)\<lparr>data := erase_direct p False k (data g)\<rparr>)"
  shows "write_ok h (erase_spec p False k) g r"
proof (cases "has_readonly_snapshot g h")
  case True
  let ?d = "fst (erase_loop p False k (version g h) (version g h + 1) (data g))"
  note ent = ss_inv_entries [OF inv w]
  obtain n where r: "r = Inr ((set_version h (version g h + 1) g)\<lparr>data := ?d, gc_erase_counter := n\<rparr>)" using r True by blast
  show ?thesis
  proof (rule write_okI [where d = ?d, OF inv w r])
    show "writes h g ?d ((set_version h (version g h + 1) g)\<lparr>data := ?d, gc_erase_counter := n\<rparr>)" by (simp add: writes_def)
    show "sorted (map fst ?d)" using ss_invD(2) [OF inv] by (simp only: erase_loop_keys)
    show "created_at (snd e) \<le> version g h + 1 \<and> removed_at (snd e) \<le> version g h + 1" if "e \<in> set ?d" for e
      using erase_loop_entries [OF that] ent by (fastforce simp: vv_remove_def)
    show "visible (version g h + 1) ?d = erase_spec p False k (visible (version g h) (data g))"
      by (rule erase_loop_new [OF ent writer_version [OF inv w]])
    show "handles g = {h} \<or> (\<forall>v. 0 \<le> v \<longrightarrow> v \<le> version g h \<longrightarrow> visible v ?d = visible v (data g))"
      using erase_loop_old [OF conjunct2 [OF ent] _ writer_version [OF inv w]] by blast
  qed
next
  case False
  let ?d = "erase_direct p False k (data g)"
  show ?thesis
  proof (rule write_okI [where d = ?d, OF inv w r' [OF False]])
    show "writes h g ?d ((set_version h (version g h + 1) g)\<lparr>data := ?d\<rparr>)" by (simp add: writes_def)
    show "sorted (map fst ?d)" using ss_invD(2) [OF inv] by (rule sorted_erase_direct)
    show "created_at (snd e) \<le> version g h + 1 \<and> removed_at (snd e) \<le> version g h + 1" if "e \<in> set ?d" for e
      using that set_erase_direct [of p False k "data g"] ss_inv_entries [OF inv w, of e] by auto
    show "visible (version g h + 1) ?d = erase_spec p False k (visible (version g h) (data g))"
      using erase_direct_visible writer_next [OF inv w] by metis
  qed (simp add: writer_alone [OF inv w False])
qed

lemma ss_erase_ok:
  assumes "ss_inv g"
  shows "write_ok h (erase_spec (\<lambda>_. True) False k) g (ss_erase h k False g)"
proof (cases "writer g = Some h")
  case True
  then show ?thesis
    by (rule erase_ok [OF assms]) (simp_all add: True ss_erase_def writable_def Let_def split_beta, blast)
qed (simp add: write_ok_readonly ss_erase_def writable_def)

lemma ss_erase_value_ok:
  assumes "ss_inv g"
  shows "write_ok h (erase_spec (\<lambda>x. x = v) False k) g (ss_erase_value h k v False g)"
proof (cases "writer g = Some h")
  case True
  then show ?thesis
    by (rule erase_ok [OF assms]) (simp_all add: True ss_erase_value_def writable_def Let_def split_beta, blast)
qed (simp add: write_ok_readonly ss_erase_value_def writable_def)

section \<open>Snapshots, garbage collection and destruction keep the contents\<close>

definition quiet_ok :: "('k::linorder, 'v) maps \<Rightarrow> ('k, 'v) ssgroup \<Rightarrow> bool" where
  "quiet_ok s g' \<longleftrightarrow> abs_maps g' = s \<and> ss_inv g'"

lemma make_snapshot_ring:
  "mset (ring (make_snapshot me src g)) = add_mset (me, version g src) (mset (ring g))"
proof -
  let ?b = "takeWhile (\<lambda>m. fst m \<noteq> src) (ring g)"
  have "?b @ drop (length ?b) (ring g) = ring g" by (metis append_take_drop_id takeWhile_eq_take)
  then have "mset ?b + mset (drop (length ?b) (ring g)) = mset (ring g)" by (metis mset_append)
  then show ?thesis by (simp add: make_snapshot_def Let_def)
qed

lemma make_snapshot_sel [simp]:
  "data (make_snapshot me src g) = data g" "writer (make_snapshot me src g) = writer g"
  by (simp_all add: make_snapshot_def Let_def)

lemma make_snapshot_set: "set (ring (make_snapshot me src g)) = insert (me, version g src) (set (ring g))"
  using make_snapshot_ring [of me src g] by (metis set_mset_add_mset_insert set_mset_mset)

lemma make_snapshot_handles: "handles (make_snapshot me src g) = insert me (handles g)"
  by (simp add: handles_def make_snapshot_set)

lemma make_snapshot_distinct:
  "distinct (map fst (ring g)) \<Longrightarrow> me \<notin> handles g \<Longrightarrow> distinct (map fst (ring (make_snapshot me src g)))"
proof -
  assume "distinct (map fst (ring g))" "me \<notin> handles g"
  then have "distinct (map fst ((me, version g src) # ring g))" by (simp add: handles_def)
  moreover have "mset (map fst (ring (make_snapshot me src g))) = mset (map fst ((me, version g src) # ring g))"
    by (simp add: make_snapshot_ring)
  ultimately show ?thesis by (metis mset_eq_imp_distinct_iff)
qed

lemma make_snapshot_version:
  assumes inv: "ss_inv g" and me: "me \<notin> handles g" and "h \<in> insert me (handles g)"
  shows "version (make_snapshot me src g) h = (if h = me then version g src else version g h)"
proof -
  note dist = make_snapshot_distinct [OF ss_invD(1) [OF inv] me]
  show ?thesis
    using assms version_in [of h g]
    by (auto intro!: version_mem [OF dist] simp: make_snapshot_set)
qed

lemma make_snapshot_ok:
  assumes inv: "ss_inv g" and me: "me \<notin> handles g" and src: "src \<in> handles g"
  shows "quiet_ok (fst (abs_maps g), (snd (abs_maps g))(me := snd (abs_maps g) src)) (make_snapshot me src g)"
proof -
  note ver = make_snapshot_version [OF inv me]
  have "ss_inv (make_snapshot me src g)"
    using inv me src make_snapshot_distinct [OF ss_invD(1) [OF inv] me] ver version_in [OF src]
    unfolding ss_inv_def make_snapshot_sel make_snapshot_set make_snapshot_handles by (auto dest!: bspec)
  moreover have "abs_maps (make_snapshot me src g) =
      (fst (abs_maps g), (snd (abs_maps g))(me := snd (abs_maps g) src))"
    using ver src by (auto simp: abs_maps_def make_snapshot_handles ss_all_visible fun_eq_iff)
  ultimately show ?thesis by (simp add: quiet_ok_def)
qed

lemma ss_inv_shrink:
  assumes inv: "ss_inv g" and "set (data g') \<subseteq> set (data g)" and "sorted (map fst (data g'))"
    and "set (ring g') \<subseteq> set (ring g)" and "distinct (map fst (ring g'))"
    and w: "\<And>w. writer g' = Some w \<Longrightarrow> writer g = Some w \<and> w \<in> handles g' \<and> version g' w = version g w"
  shows "ss_inv g'"
  unfolding ss_inv_def
proof (intro conjI allI impI ballI)
  show "0 \<le> snd m" if "m \<in> set (ring g')" for m using assms(4) that ss_invD(3) [OF inv] by blast
  fix x assume x: "writer g' = Some x"
  then have W: "writer g = Some x" "x \<in> handles g'" "version g' x = version g x" using w by simp_all
  show "x \<in> handles g'" by fact
  show "snd m \<le> version g' x" if "m \<in> set (ring g')" for m using W(3) assms(4) that ss_invD(5) [OF inv W(1), of m] by auto
  fix e assume "e \<in> set (data g')"
  then have "e \<in> set (data g)" using assms(2) by blast
  then show "created_at (snd e) \<le> version g' x" "removed_at (snd e) \<le> version g' x"
    using ss_inv_entries [OF inv W(1)] W(3) by simp_all
qed (use assms in simp_all)

lemma fold_min: "fold (\<lambda>m a. if snd m < a then snd m else a) rs a \<le> (a :: int) \<and>
    (\<forall>m \<in> set rs. fold (\<lambda>m a. if snd m < a then snd m else a) rs a \<le> snd m)"
  by (induction rs arbitrary: a) (auto, smt+)

lemma fold_max: "(a :: int) \<le> fold (\<lambda>m a. if snd m > a then snd m else a) rs a \<and>
    (\<forall>m \<in> set rs. snd m \<le> fold (\<lambda>m a. if snd m > a then snd m else a) rs a)"
  by (induction rs arbitrary: a) (auto, smt+)

lemma gc_keeps_valid: "valid_at vv v \<Longrightarrow> low \<le> v \<Longrightarrow> v \<le> high \<Longrightarrow> gc_keeps low high vv"
  by (auto simp: gc_keeps_def valid_at_def)

lemma gc_run_visible: "x \<in> handles g \<Longrightarrow> visible (version g x) (data (gc_run h g)) = visible (version g x) (data g)"
proof -
  let ?low = "fold (\<lambda>m a. if snd m < a then snd m else a) (ring g) (version g h)"
  let ?high = "fold (\<lambda>m a. if snd m > a then snd m else a) (ring g) (-1)"
  assume "x \<in> handles g"
  then have "?low \<le> version g x" "version g x \<le> ?high"
    using version_in [of x g] fold_min [of "ring g" "version g h"] fold_max [of "-1" "ring g"] by fastforce+
  then have "filter (\<lambda>e. valid_at (snd e) (version g x)) (filter (\<lambda>e. gc_keeps ?low ?high (snd e)) (data g)) =
      filter (\<lambda>e. valid_at (snd e) (version g x)) (data g)"
    unfolding filter_filter by (intro filter_cong) (auto dest: gc_keeps_valid)
  then show ?thesis by (simp add: gc_run_def visible_def Let_def)
qed

lemma gc_run_sel [simp]: "ring (gc_run h g) = ring g" "writer (gc_run h g) = writer g"
  "version (gc_run h g) x = version g x" "handles (gc_run h g) = handles g"
  by (simp_all add: gc_run_def Let_def version_def handles_def)

lemma gc_run_ok: "ss_inv g \<Longrightarrow> quiet_ok (abs_maps g) (gc_run h g)"
proof -
  assume inv: "ss_inv g"
  have "set (data (gc_run h g)) \<subseteq> set (data g)" by (auto simp: gc_run_def Let_def)
  moreover have "sorted (map fst (data (gc_run h g)))"
    using ss_invD(2) [OF inv] by (simp add: gc_run_def Let_def sorted_filter)
  ultimately have "ss_inv (gc_run h g)"
    using ss_invD(1,4) [OF inv] by (intro ss_inv_shrink [OF inv]) auto
  moreover have "abs_maps (gc_run h g) = abs_maps g"
    by (simp add: abs_maps_def ss_all_visible gc_run_visible fun_eq_iff)
  ultimately show ?thesis by (simp add: quiet_ok_def)
qed

lemma leave_version:
  assumes "x \<noteq> h"
  shows "version (g\<lparr>ring := filter (\<lambda>m. fst m \<noteq> h) (ring g)\<rparr>) x = version g x"
proof -
  have "map_of (filter (\<lambda>m. fst m \<noteq> h) rs) x = map_of rs x" for rs :: "(nat \<times> int) list"
    using assms by (induction rs) auto
  then show ?thesis by (simp add: version_def)
qed

lemma leave_ok:
  assumes inv: "ss_inv g" and h: "h \<in> handles g"
  shows "quiet_ok (if fst (abs_maps g) = Some h then None else fst (abs_maps g), (snd (abs_maps g))(h := None))
    ((if writer g = Some h then g\<lparr>writer := None\<rparr> else g)\<lparr>ring := filter (\<lambda>m. fst m \<noteq> h) (ring g)\<rparr>)"
    (is "quiet_ok ?s ?g")
proof -
  have ver: "version ?g x = version g x" if "x \<noteq> h" for x
    using leave_version [OF that, of g] by (auto simp: version_def)
  have hd: "handles ?g = handles g - {h}" by (auto simp: handles_def)
  have "distinct (map fst (ring ?g))" using ss_invD(1) [OF inv] by (simp add: distinct_map_filter)
  then have "ss_inv ?g"
  proof (intro ss_inv_shrink [OF inv])
    fix w assume "writer ?g = Some w"
    then have "writer g = Some w" "w \<noteq> h" by (auto split: if_splits)
    then show "writer g = Some w \<and> w \<in> handles ?g \<and> version ?g w = version g w"
      using ss_invD(4) [OF inv] ver hd by blast
  qed (use ss_invD(2) [OF inv] in auto)
  moreover have "snd (abs_maps ?g) x = snd ?s x" for x
    using ver [of x] hd by (simp add: abs_maps_def ss_all_visible)
  then have "abs_maps ?g = ?s" by (intro prod_eqI ext) (simp_all add: abs_maps_def)
  ultimately show ?thesis by (simp add: quiet_ok_def)
qed

lemma destroy_me_ok:
  assumes inv: "ss_inv g" and h: "h \<in> handles g"
  shows "quiet_ok (if fst (abs_maps g) = Some h then None else fst (abs_maps g), (snd (abs_maps g))(h := None))
    (destroy_me h g)"
proof -
  let ?g = "(if writer g = Some h then g\<lparr>writer := None\<rparr> else g)\<lparr>ring := filter (\<lambda>m. fst m \<noteq> h) (ring g)\<rparr>"
  have r: "ring (if writer g = Some h then g\<lparr>writer := None\<rparr> else g) = ring g" by simp
  have "destroy_me h g = ?g \<or> (\<exists>n. destroy_me h g = gc_run n ?g)" unfolding destroy_me_def Let_def r by metis
  then show ?thesis using leave_ok [OF assms] gc_run_ok [of ?g] unfolding quiet_ok_def by metis
qed

section \<open>Properties\<close>

lemma maps_alive: "snd (abs_maps g) h \<noteq> None \<longleftrightarrow> h \<in> handles g" "snd (abs_maps g) h = None \<longleftrightarrow> h \<notin> handles g"
  by (simp_all add: abs_maps_def)

lemma ss_do_refines:
  assumes "ss_inv g" and "ss_target op \<in> handles g" and "\<forall>me. ss_fresh op = Some me \<longrightarrow> me \<notin> handles g"
  shows "map_res abs_maps (ss_do op g) = maps_do op (abs_maps g) \<and> (\<forall>g'. ss_do op g = Inr g' \<longrightarrow> ss_inv g')"
proof (cases op)
  case (OpInsert h k v)
  then show ?thesis using ss_insert_range_ok [OF assms(1), of h "[(k, v)]"] by (simp add: ss_insert_single write_ok_def)
next
  case (OpErase h k)
  then show ?thesis using ss_erase_ok [OF assms(1), of h k] by (simp add: write_ok_def erase_spec_all [abs_def])
next
  case (OpEraseValue h k v)
  moreover have "(\<lambda>kv. fst kv = k \<longrightarrow> snd kv \<noteq> v) = (\<lambda>kv. kv \<noteq> (k, v))" by (auto simp: fun_eq_iff)
  ultimately show ?thesis
    using ss_erase_value_ok [OF assms(1), of h v k] by (simp add: write_ok_def erase_spec_all [abs_def])
next
  case (OpSnapshot me src)
  then show ?thesis using make_snapshot_ok [OF assms(1), of me src] assms(2,3) by (simp add: quiet_ok_def)
next
  case (OpDestroy h)
  then show ?thesis using destroy_me_ok [OF assms(1), of h] assms(2) by (simp add: quiet_ok_def)
next
  case (OpGc h)
  then show ?thesis using gc_run_ok [OF assms(1), of h] by (simp add: quiet_ok_def)
qed (use ss_insert_range_ok [OF assms(1)] in \<open>simp add: write_ok_def\<close>)

lemma ss_step_refines:
  assumes "ss_inv g"
  shows "map_res abs_maps (ss_step op g) = maps_step op (abs_maps g) \<and> (\<forall>g'. ss_step op g = Inr g' \<longrightarrow> ss_inv g')"
  using ss_do_refines [OF assms, of op] by (auto simp: ss_step_def maps_step_def maps_alive)

lemma ss_run_refines:
  "ss_inv g \<Longrightarrow> map_res abs_maps (ss_run ops g) = maps_run ops (abs_maps g) \<and> (\<forall>g'. ss_run ops g = Inr g' \<longrightarrow> ss_inv g')"
proof (induction ops arbitrary: g)
  case (Cons op ops)
  note step = ss_step_refines [OF Cons.prems, of op]
  show ?case
  proof (cases "ss_step op g")
    case (Inl e)
    then show ?thesis using step by (metis map_res_simps(1) maps_run.simps(2) rbind_simps(1) ss_run.simps(2) Inl_Inr_False)
  next
    case (Inr g1)
    then have "maps_step op (abs_maps g) = Inr (abs_maps g1)" "ss_inv g1" using step by simp_all
    then show ?thesis using Cons.IH [of g1] Inr by simp
  qed
qed simp

lemma new_sortedmap_inv: "ss_inv (new_sortedmap h)"
  by (simp add: ss_inv_def new_sortedmap_def handles_def version_def)


text \<open>The queries pick the pairs of the member's content that the bounds describe.\<close>

definition range_at :: "('k, 'v) ssgroup \<Rightarrow> handle \<Rightarrow> nat \<Rightarrow> nat \<Rightarrow> ('k, 'v) snapshot_range" where
  "range_at g h lo hi = \<lparr>range_ver = version g h, ahead = take (hi - lo) (drop lo (data g)), cached = None\<rparr>"

text \<open>Draining a cursor: \<^verbatim>\<open>while (range) range.next()\<close>.\<close>

fun drain :: "nat \<Rightarrow> ('k, 'v) snapshot_range \<Rightarrow> ('k \<times> 'v) list res" where
  "drain 0 r = Inl OutOfFuel"
| "drain (Suc n) r =
     (let (more, r1) = range_has_next r
      in if more then rbind (range_next r1) (\<lambda>(kv, r2). rbind (drain n r2) (\<lambda>kvs. Inr (kv # kvs))) else Inr [])"

lemma prefetch_spec:
  "visible v d = (case prefetch v d of (None, es) \<Rightarrow> [] | (Some kv, es) \<Rightarrow> kv # visible v es)"
  "length (snd (prefetch v d)) \<le> length d"
  "fst (prefetch v d) \<noteq> None \<Longrightarrow> length (snd (prefetch v d)) < length d"
  by (induction d) (auto simp: visible_Cons split: prod.splits option.splits)

lemma drain_visible:
  "length (ahead r) < n \<Longrightarrow> cached r = None \<Longrightarrow> drain n r = Inr (visible (range_ver r) (ahead r))"
proof (induction n arbitrary: r)
  case (Suc n)
  obtain c es where p: "prefetch (range_ver r) (ahead r) = (c, es)" by fastforce
  show ?case
  proof (cases c)
    case None
    then show ?thesis using p Suc.prems prefetch_spec(1) [of "range_ver r" "ahead r"]
      by (simp add: range_has_next_def prefetch_next_def)
  next
    case (Some kv)
    let ?r = "r\<lparr>ahead := es, cached := None\<rparr>"
    have "length es < length (ahead r)" using prefetch_spec(3) [of "range_ver r" "ahead r"] p Some by simp
    then have "drain n ?r = Inr (visible (range_ver r) es)" using Suc.IH [of ?r] Suc.prems by simp
    then show ?thesis using p Some Suc.prems prefetch_spec(1) [of "range_ver r" "ahead r"]
      by (simp add: range_has_next_def prefetch_next_def range_next_def)
  qed
qed simp

lemma visible_filter: "visible v (filter (\<lambda>e. P (fst e)) d) = filter (\<lambda>kv. P (fst kv)) (visible v d)"
  by (induction d) (simp_all add: visible_Cons)

lemma range_of_tail: "range_of g h lo (length (data g)) = visible (version g h) (drop lo (data g))"
  by (simp add: range_of_def)

lemma bounds_le: "lo < hi \<Longrightarrow> upper_bound lo d \<le> lower_bound hi d"
proof -
  assume "lo < hi"
  then have "takeWhile (\<lambda>e. fst e \<le> lo) (takeWhile (\<lambda>e. fst e < hi) d) = takeWhile (\<lambda>e. fst e \<le> lo) d"
    by (induction d) auto
  then have "length (takeWhile (\<lambda>e. fst e \<le> lo) d) \<le> length (takeWhile (\<lambda>e. fst e < hi) d)"
    by (metis length_takeWhile_le)
  then show ?thesis by (simp add: upper_bound_def lower_bound_def)
qed

lemma queries_spec:
  assumes "ss_inv g"
  shows "ss_query g h k = filter (\<lambda>kv. fst kv = k) (ss_all g h)"
    and "ss_query_lt g h k = filter (\<lambda>kv. fst kv < k) (ss_all g h)"
    and "ss_query_gt g h k = filter (\<lambda>kv. k < fst kv) (ss_all g h)"
    and "k < k' \<Longrightarrow> ss_query_in g h k k' = Inr (filter (\<lambda>kv. k < fst kv \<and> fst kv < k') (ss_all g h))"
    and "drain (Suc (length (data g))) (range_at g h lo hi) = Inr (range_of g h lo hi)"
proof -
  note d = ss_invD(2) [OF assms]
  note rb = range_between [OF _ _ _ d]
  have "take (upper_bound k (data g) - lower_bound k (data g)) (drop (lower_bound k (data g)) (data g)) =
      filter (\<lambda>e. fst e \<le> k \<and> \<not> fst e < k) (data g)"
    unfolding upper_bound_def lower_bound_def by (rule rb) auto
  moreover have "(\<lambda>x. x \<le> k \<and> \<not> x < k) = (\<lambda>x. x = k)" by auto
  ultimately show "ss_query g h k = filter (\<lambda>kv. fst kv = k) (ss_all g h)"
    by (simp add: ss_query_def range_of_def ss_all_visible visible_filter not_less order_class.order_eq_iff [symmetric] visible_filter [where P = "\<lambda>x. x = k"])
  show "ss_query_lt g h k = filter (\<lambda>kv. fst kv < k) (ss_all g h)"
    using sorted_split [of "\<lambda>x. x < k", OF _ d] le_less_trans [of _ _ k] takeWhile_eq_take [of "\<lambda>e. fst e < k" "data g"]
    by (simp add: ss_query_lt_def range_of_def ss_all_visible lower_bound_def visible_filter [where P = "\<lambda>x. x < k"])
  have "dropWhile (\<lambda>e. fst e \<le> k) (data g) = filter (\<lambda>e. \<not> fst e \<le> k) (data g)"
    using sorted_split [of "\<lambda>x. x \<le> k", OF _ d] order_trans [of _ _ k] by blast
  then have "drop (upper_bound k (data g)) (data g) = filter (\<lambda>e. k < fst e) (data g)"
    by (simp only: upper_bound_def dropWhile_eq_drop not_le)
  then show "ss_query_gt g h k = filter (\<lambda>kv. k < fst kv) (ss_all g h)"
    by (simp add: ss_query_gt_def range_of_tail ss_all_visible
        visible_filter [where P = "\<lambda>x. k < x"])
  show "ss_query_in g h k k' = Inr (filter (\<lambda>kv. k < fst kv \<and> fst kv < k') (ss_all g h))" if "k < k'"
  proof -
    have "take (lower_bound k' (data g) - upper_bound k (data g)) (drop (upper_bound k (data g)) (data g)) =
        filter (\<lambda>e. fst e < k' \<and> \<not> fst e \<le> k) (data g)"
      unfolding upper_bound_def lower_bound_def using that by (intro rb) auto
    then show ?thesis using bounds_le [OF that, of "data g"]
      by (simp add: ss_query_in_def range_of_def ss_all_visible not_le conj_commute visible_filter [where P = "\<lambda>x. k < x \<and> x < k'"])
  qed
  show "drain (Suc (length (data g))) (range_at g h lo hi) = Inr (range_of g h lo hi)"
    by (simp add: drain_visible range_at_def range_of_def del: drain.simps)
qed

text \<open>The queries of a map of the group: a query by key, below a key, above a key or strictly
  between two keys returns exactly the pairs of the map's content in that range, in order, and a
  cursor over the range, drained by calls of \<^verbatim>\<open>has_next\<close> and \<^verbatim>\<open>next\<close>, delivers exactly these.\<close>

theorem snapshot_queries:
  assumes "ss_inv g"
  shows "ss_query g h k = filter (\<lambda>kv. fst kv = k) (ss_all g h) \<and>
    ss_query_lt g h k = filter (\<lambda>kv. fst kv < k) (ss_all g h) \<and>
    ss_query_gt g h k = filter (\<lambda>kv. k < fst kv) (ss_all g h) \<and>
    (k < k' \<longrightarrow> ss_query_in g h k k' = Inr (filter (\<lambda>kv. k < fst kv \<and> fst kv < k') (ss_all g h))) \<and>
    drain (Suc (length (data g))) (range_at g h lo hi) = Inr (range_of g h lo hi)"
  using queries_spec [OF assms] by blast

theorem snapshot_queries_witness:
  "let g = \<lparr>data = [(1::nat, new_vv 1 True), (2, new_vv 2 False)], writer = Some 0, ring = [(1, 1), (0, 2)],
       gc_insert_counter = 2, gc_erase_counter = 0\<rparr>
   in ss_inv g \<and> ss_query g 1 1 = [(1, True)] \<and> ss_query g 1 2 = [] \<and> ss_query_gt g 0 1 = [(2, False)] \<and>
      ss_query_in g 0 0 2 = Inr [(1, True)]"
proof -
  let ?g = "\<lparr>data = [(1::nat, new_vv 1 True), (2, new_vv 2 False)], writer = Some 0, ring = [(1, 1), (0, 2)],
       gc_insert_counter = 2, gc_erase_counter = 0\<rparr>"
  have inv: "ss_inv ?g" by (simp add: ss_inv_def handles_def version_def new_vv_def)
  have all: "ss_all ?g 0 = [(1, True), (2, False)]" "ss_all ?g 1 = [(1, True)]" by code_simp+
  show ?thesis unfolding Let_def
    using inv snapshot_queries [OF inv, of 1 1] snapshot_queries [OF inv, of 1 2] snapshot_queries [OF inv, of 0 1]
      snapshot_queries [OF inv, of 0 0 2] all by simp
qed

text \<open>Where the code does not do what its callers may expect: with no snapshot left, erasing only the
  first match removes the entry at the lower bound, although the key has no entry.\<close>

lemma erase_first_match_other_key:
  "rbind (ss_insert 0 (5::nat) ''five'' (new_sortedmap 0)) (\<lambda>g. map_res (\<lambda>g. ss_all g 0) (ss_erase 0 3 True g)) = Inr []"
  by code_simp

text \<open>The branch of the copy constructor that would let the copy become the writer of the source's
  group is never taken: a map that is not read-only is itself the writer.\<close>

lemma ss_copy_never_joins_as_writer:
  "\<not> readonly g src \<Longrightarrow> \<exists>r. ss_copy me src g = rbind r (\<lambda>g'. Inr (Fresh g'))"
  by (auto simp: ss_copy_def readonly_def has_writable_snapshot_def)

lemma mm_insert_back: "\<forall>e \<in> set d. fst e \<le> k \<Longrightarrow> mm_insert k x d = d @ [(k, x)]"
  by (induction d) auto

lemma fold_mm_insert_sorted:
  "sorted (map fst (d @ kvs)) \<Longrightarrow> fold (\<lambda>kv. mm_insert (fst kv) (snd kv)) kvs d = d @ kvs"
proof (induction kvs arbitrary: d)
  case (Cons kv kvs)
  then have "mm_insert (fst kv) (snd kv) d = d @ [kv]" using mm_insert_back [of d "fst kv" "snd kv"] by (simp add: sorted_append)
  then show ?case using Cons.IH [of "d @ [kv]"] Cons.prems by simp
qed simp

text \<open>A copy of a map has the content of its source and leaves every other member as it is: it
  joins the group when the source is a snapshot, and is a new group otherwise.\<close>

theorem ss_copy_content:
  assumes "ss_inv g" and "src \<in> handles g" and "me \<notin> handles g"
  shows "(case ss_copy me src g of
      Inr (Joined g') \<Rightarrow> readonly g src \<and> ss_inv g' \<and> ss_all g' me = ss_all g src \<and> (\<forall>h \<in> handles g. ss_all g' h = ss_all g h)
    | Inr (Fresh g') \<Rightarrow> writable g src \<and> ss_inv g' \<and> handles g' = {me} \<and> ss_all g' me = ss_all g src
    | Inl e \<Rightarrow> False)"
proof (cases "readonly g src")
  case True
  have q: "quiet_ok (fst (abs_maps g), (snd (abs_maps g))(me := snd (abs_maps g) src)) (make_snapshot me src g)"
    using make_snapshot_ok assms by blast
  have "ss_all (make_snapshot me src g) me = ss_all g src"
    using assms make_snapshot_version [OF assms(1,3), of me src] by (simp add: ss_all_visible)
  moreover have "\<forall>h \<in> handles g. ss_all (make_snapshot me src g) h = ss_all g h"
    using assms make_snapshot_version [OF assms(1,3)] by (auto simp: ss_all_visible)
  ultimately show ?thesis using True q by (simp add: ss_copy_def quiet_ok_def)
next
  case False
  let ?n = "new_sortedmap me :: ('a, 'b) ssgroup"
  let ?kvs = "ss_all g src"
  have ok: "write_ok me (fold (\<lambda>kv. mm_insert (fst kv) (snd kv)) ?kvs) ?n (ss_insert_range me ?kvs ?n)"
    by (rule ss_insert_range_ok [OF new_sortedmap_inv])
  obtain g' where g': "ss_insert_range me ?kvs ?n = Inr g'"
    by (simp add: ss_insert_range_def writable_def new_sortedmap_def Let_def)
  have "sorted (map fst ?kvs)" using ss_invD(2) [OF assms(1)]
    by (simp add: ss_all_visible visible_def comp_def sorted_filter)
  then have fold: "fold (\<lambda>kv. mm_insert (fst kv) (snd kv)) ?kvs [] = ?kvs"
    using fold_mm_insert_sorted [of "[]" ?kvs] by simp
  have n: "abs_maps ?n = (Some me, [me \<mapsto> []])"
    by (auto simp: abs_maps_def new_sortedmap_def handles_def ss_all_visible fun_eq_iff)
  have "abs_maps g' = (Some me, [me \<mapsto> ?kvs])" "ss_inv g'"
    using ok g' fold n by (simp_all add: write_ok_def upd_writer_def)
  then have "handles g' = {me} \<and> ss_all g' me = ?kvs \<and> ss_inv g'"
    by (auto simp: abs_maps_def fun_eq_iff split: if_splits)
  then show ?thesis using False g'
    by (simp add: ss_copy_def readonly_def writable_def has_writable_snapshot_def)
qed

theorem ss_copy_content_witness:
  "let g = \<lparr>data = [(1::nat, new_vv 1 True), (2, new_vv 2 False)], writer = Some 0, ring = [(1, 1), (0, 2)],
       gc_insert_counter = 2, gc_erase_counter = 0\<rparr>
   in \<exists>g'. ss_copy 7 0 g = Inr (Fresh g') \<and> ss_all g' 7 = ss_all g 0 \<and> ss_all g 0 = [(1, True), (2, False)]"
proof -
  let ?g = "\<lparr>data = [(1::nat, new_vv 1 True), (2, new_vv 2 False)], writer = Some 0, ring = [(1, 1), (0, 2)],
       gc_insert_counter = 2, gc_erase_counter = 0\<rparr>"
  have "ss_inv ?g" "0 \<in> handles ?g" "7 \<notin> handles ?g" by (simp_all add: ss_inv_def handles_def version_def new_vv_def)
  note c = ss_copy_content [OF this]
  have "ss_all ?g 0 = [(1, True), (2, False)]" by code_simp
  with c show ?thesis unfolding Let_def
    by (auto simp: readonly_def split: sum.splits copy_result.splits)
qed

end
