(* ===== verification/Mdb_Value.thy ===== *)
theory Mdb_Value
  imports Rococo_Prelude
begin

text \<open>
  The values of the storage engine (\<^verbatim>\<open>memdb/value.h\<close>, \<^verbatim>\<open>value.cc\<close>) and their byte images
  (\<^verbatim>\<open>memdb/blob.h\<close>). Integers are words of their width, a double is its IEEE-754 bit pattern, a
  string is a list of bytes. The byte order is the little-endian one of the x86 machines the code
  is written for.
\<close>

section \<open>Values\<close>

type_synonym byte = "8 word"

datatype kind = K_UNKNOWN | K_I32 | K_I64 | K_DOUBLE | K_STR

datatype mvalue = UNKNOWN | I32 i32 | I64 i64 | DOUBLE "64 word" | STRING "byte list"

fun get_kind :: "mvalue \<Rightarrow> kind" where
  "get_kind UNKNOWN = K_UNKNOWN"
| "get_kind (I32 _) = K_I32"
| "get_kind (I64 _) = K_I64"
| "get_kind (DOUBLE _) = K_DOUBLE"
| "get_kind (STRING _) = K_STR"

section \<open>Comparison\<close>

text \<open>
  Comparison of doubles on their bit patterns: a number whose exponent bits are all set and whose
  mantissa is not zero is a NaN, which is neither less than nor equal to anything; the other
  patterns are ordered by sign and magnitude, with both zeros equal.
\<close>

definition dbl_mag :: "64 word \<Rightarrow> int" where
  "dbl_mag b = uint (b AND 0x7FFFFFFFFFFFFFFF)"

definition dbl_nan :: "64 word \<Rightarrow> bool" where
  "dbl_nan b \<longleftrightarrow> dbl_mag b > 0x7FF0000000000000"

definition dbl_key :: "64 word \<Rightarrow> int" where
  "dbl_key b = (if bit b 63 then - dbl_mag b else dbl_mag b)"

definition dbl_lt :: "64 word \<Rightarrow> 64 word \<Rightarrow> bool" where
  "dbl_lt a b \<longleftrightarrow> \<not> dbl_nan a \<and> \<not> dbl_nan b \<and> dbl_key a < dbl_key b"

definition dbl_eq :: "64 word \<Rightarrow> 64 word \<Rightarrow> bool" where
  "dbl_eq a b \<longleftrightarrow> \<not> dbl_nan a \<and> \<not> dbl_nan b \<and> dbl_key a = dbl_key b"

text \<open>\<^verbatim>\<open>std::string::operator<\<close>: bytes compare unsigned, a proper prefix is smaller.\<close>

fun bytes_lt :: "byte list \<Rightarrow> byte list \<Rightarrow> bool" where
  "bytes_lt _ [] = False"
| "bytes_lt [] (_ # _) = True"
| "bytes_lt (x # xs) (y # ys) = (x < y \<or> x = y \<and> bytes_lt xs ys)"

definition three_way :: "bool \<Rightarrow> bool \<Rightarrow> int" where
  "three_way lt eq = (if lt then -1 else if eq then 0 else 1)"

fun compare_value :: "mvalue \<Rightarrow> mvalue \<Rightarrow> int res" where
  "compare_value UNKNOWN UNKNOWN = Inr 0"
| "compare_value (I32 a) (I32 b) = Inr (three_way (sint a < sint b) (a = b))"
| "compare_value (I64 a) (I64 b) = Inr (three_way (sint a < sint b) (a = b))"
| "compare_value (DOUBLE a) (DOUBLE b) = Inr (three_way (dbl_lt a b) (dbl_eq a b))"
| "compare_value (STRING a) (STRING b) = Inr (three_way (bytes_lt a b) (a = b))"
| "compare_value _ _ = Inl VerifyFailed"

definition value_eq :: "mvalue \<Rightarrow> mvalue \<Rightarrow> bool res" where
  "value_eq a b = rbind (compare_value a b) (\<lambda>c. Inr (c = 0))"

definition value_less :: "mvalue \<Rightarrow> mvalue \<Rightarrow> bool res" where
  "value_less a b = rbind (compare_value a b) (\<lambda>c. Inr (c = -1))"

definition value_le :: "mvalue \<Rightarrow> mvalue \<Rightarrow> bool res" where
  "value_le a b = rbind (compare_value a b) (\<lambda>c. Inr (c \<noteq> 1))"

section \<open>Access\<close>

fun get_i32 :: "mvalue \<Rightarrow> i32 res" where
  "get_i32 (I32 v) = Inr v" | "get_i32 _ = Inl VerifyFailed"

fun get_i64 :: "mvalue \<Rightarrow> i64 res" where
  "get_i64 (I64 v) = Inr v" | "get_i64 _ = Inl VerifyFailed"

fun get_double :: "mvalue \<Rightarrow> 64 word res" where
  "get_double (DOUBLE v) = Inr v" | "get_double _ = Inl VerifyFailed"

fun get_str :: "mvalue \<Rightarrow> byte list res" where
  "get_str (STRING v) = Inr v" | "get_str _ = Inl VerifyFailed"

definition set_i32 :: "i32 \<Rightarrow> mvalue \<Rightarrow> mvalue res" where
  "set_i32 v x = verify (get_kind x = K_UNKNOWN \<or> get_kind x = K_I32) (Inr (I32 v))"

definition set_i64 :: "i64 \<Rightarrow> mvalue \<Rightarrow> mvalue res" where
  "set_i64 v x = verify (get_kind x = K_UNKNOWN \<or> get_kind x = K_I64) (Inr (I64 v))"

definition set_double :: "64 word \<Rightarrow> mvalue \<Rightarrow> mvalue res" where
  "set_double v x = verify (get_kind x = K_UNKNOWN \<or> get_kind x = K_DOUBLE) (Inr (DOUBLE v))"

definition set_str :: "byte list \<Rightarrow> mvalue \<Rightarrow> mvalue res" where
  "set_str v x = verify (get_kind x = K_UNKNOWN \<or> get_kind x = K_STR) (Inr (STRING v))"

section \<open>Byte images\<close>

text \<open>The \<open>n\<close> bytes of a word in memory order, and the word they stand for.\<close>

fun le_bytes :: "nat \<Rightarrow> 'a::len word \<Rightarrow> byte list" where
  "le_bytes 0 w = []"
| "le_bytes (Suc n) w = ucast w # le_bytes n (drop_bit 8 w)"

fun le_word :: "byte list \<Rightarrow> 'a::len word" where
  "le_word [] = 0"
| "le_word (b # bs) = ucast b OR push_bit 8 (le_word bs)"

text \<open>\<^verbatim>\<open>Value::get_blob\<close>, and \<^verbatim>\<open>write_binary\<close>, which copies the same bytes.\<close>

fun value_blob :: "mvalue \<Rightarrow> byte list res" where
  "value_blob (I32 v) = Inr (le_bytes 4 v)"
| "value_blob (I64 v) = Inr (le_bytes 8 v)"
| "value_blob (DOUBLE v) = Inr (le_bytes 8 v)"
| "value_blob (STRING v) = Inr v"
| "value_blob UNKNOWN = Inl VerifyFailed"

definition overwrite :: "nat \<Rightarrow> 'a list \<Rightarrow> 'a list \<Rightarrow> 'a list" where
  "overwrite pos bs buf = take pos buf @ bs @ drop (pos + length bs) buf"

definition write_binary :: "mvalue \<Rightarrow> nat \<Rightarrow> byte list \<Rightarrow> byte list res" where
  "write_binary v pos buf = rbind (value_blob v) (\<lambda>bs. Inr (overwrite pos bs buf))"

text \<open>\<^verbatim>\<open>MultiBlob\<close>: the list of its blobs; equality is that of lists of byte strings.\<close>

type_synonym multi_blob = "byte list list"

fun multi_blob_eq :: "multi_blob \<Rightarrow> multi_blob \<Rightarrow> bool" where
  "multi_blob_eq [] [] = True"
| "multi_blob_eq (x # xs) (y # ys) = (x = y \<and> multi_blob_eq xs ys)"
| "multi_blob_eq _ _ = False"

section \<open>Facts\<close>

lemma length_le_bytes [simp]: "length (le_bytes n w) = n"
  by (induction n w rule: le_bytes.induct) simp_all

lemma le_word_bytes: "LENGTH('a) \<le> 8 * n \<Longrightarrow> le_word (le_bytes n w) = (w :: 'a::len word)"
proof -
  have "le_word (le_bytes n w) = take_bit (8 * n) w" for w :: "'a word"
  proof (induction n arbitrary: w)
    case (Suc n)
    show ?case
      unfolding le_bytes.simps le_word.simps Suc
      by (rule bit_word_eqI)
        (auto simp: bit_or_iff bit_push_bit_iff bit_take_bit_iff bit_drop_bit_eq bit_ucast_iff
          bit_imp_le_length)
  qed simp
  then show "LENGTH('a) \<le> 8 * n \<Longrightarrow> le_word (le_bytes n w) = w"
    by (simp add: take_bit_word_eq_self)
qed

lemma multi_blob_eq_iff: "multi_blob_eq xs ys \<longleftrightarrow> xs = ys"
  by (induction xs ys rule: multi_blob_eq.induct) auto

lemma bytes_lt_irrefl [simp]: "\<not> bytes_lt xs xs"
  by (induction xs) auto

lemma bytes_lt_trans: "bytes_lt xs ys \<Longrightarrow> bytes_lt ys zs \<Longrightarrow> bytes_lt xs zs"
proof (induction xs ys arbitrary: zs rule: bytes_lt.induct)
  case (3 x xs y ys)
  then show ?case by (cases zs) auto
next
  case (2 y ys)
  then show ?case by (cases zs) auto
qed simp

lemma bytes_lt_total: "bytes_lt xs ys \<or> xs = ys \<or> bytes_lt ys xs"
  by (induction xs ys rule: bytes_lt.induct) (auto simp: neq_Nil_conv, metis bytes_lt.simps(2) list.exhaust)

text \<open>A value without an order: a double that is not a number.\<close>

fun is_nan :: "mvalue \<Rightarrow> bool" where
  "is_nan (DOUBLE b) = dbl_nan b"
| "is_nan _ = False"

lemma sint_inj: "sint a = sint b \<longleftrightarrow> a = (b :: 'a::len word)"
  by (auto intro: signed_word_eqI)

lemma compare_value_range:
  "get_kind a = get_kind b \<Longrightarrow> \<exists>c. compare_value a b = Inr c \<and> c \<in> {-1, 0, 1}"
  by (cases a; cases b) (auto simp: three_way_def)

lemma three_way_sint: "three_way (sint y < sint x) (y = x) = - three_way (sint x < sint y) (x = (y :: 'w::len word))"
  using sint_inj [of x y] by (auto simp: three_way_def)

lemma three_way_bytes: "three_way (bytes_lt y x) (y = x) = - three_way (bytes_lt x y) (x = y)"
  using bytes_lt_total [of x y] bytes_lt_trans [of x y x] bytes_lt_trans [of y x y]
  by (auto simp: three_way_def)

lemma three_way_dbl:
  "\<not> dbl_nan x \<Longrightarrow> \<not> dbl_nan y \<Longrightarrow> three_way (dbl_lt y x) (dbl_eq y x) = - three_way (dbl_lt x y) (dbl_eq x y)"
  by (auto simp: three_way_def dbl_lt_def dbl_eq_def)

lemma compare_value_flip:
  assumes "get_kind a = get_kind b" and "\<not> is_nan a" and "\<not> is_nan b" and "compare_value a b = Inr r"
  shows "compare_value b a = Inr (- r)"
proof (cases a; cases b)
  fix x y assume "a = I32 x" "b = I32 y"
  then show ?thesis using assms(4) three_way_sint [of y x] by simp
next
  fix x y assume "a = I64 x" "b = I64 y"
  then show ?thesis using assms(4) three_way_sint [of y x] by simp
next
  fix x y assume "a = DOUBLE x" "b = DOUBLE y"
  then show ?thesis using assms(2-4) three_way_dbl [of x y] by simp
next
  fix x y assume "a = STRING x" "b = STRING y"
  then show ?thesis using assms(4) three_way_bytes [of y x] by simp
qed (use assms in auto)

lemma three_way_le: "three_way lt eq \<le> 0 \<longleftrightarrow> lt \<or> eq"
  by (simp add: three_way_def)

lemma compare_value_trans:
  assumes "compare_value a b = Inr r" and "compare_value b c = Inr s" and "r \<le> 0" and "s \<le> 0"
  shows "\<exists>t \<le> 0. compare_value a c = Inr t"
  using assms
  by (cases a; cases b; cases c)
    (auto simp: three_way_le dbl_lt_def dbl_eq_def intro: bytes_lt_trans)

text \<open>On values of one kind that are not NaN, \<^verbatim>\<open>Value::compare\<close> is a total preorder: it
  returns -1, 0 or 1, the flipped comparison returns the negated result, and \<open>\<le>\<close> is transitive;
  it returns 0 exactly for equal integers and strings. Values of different kinds abort.\<close>

theorem compare_value_order:
  assumes "get_kind a = get_kind b" and "get_kind b = get_kind c"
    and "\<not> is_nan a" and "\<not> is_nan b" and "\<not> is_nan c"
  shows "\<exists>r s. compare_value a b = Inr r \<and> compare_value b a = Inr (- r) \<and> r \<in> {-1, 0, 1} \<and>
    compare_value b c = Inr s \<and>
    (r \<le> 0 \<and> s \<le> 0 \<longrightarrow> (\<exists>t \<le> 0. compare_value a c = Inr t)) \<and>
    (get_kind a \<noteq> K_DOUBLE \<longrightarrow> (r = 0 \<longleftrightarrow> a = b))"
proof -
  obtain r where r: "compare_value a b = Inr r" "r \<in> {-1, 0, 1}" using compare_value_range [OF assms(1)] by blast
  obtain s where s: "compare_value b c = Inr s" using compare_value_range [OF assms(2)] by blast
  have "get_kind a \<noteq> K_DOUBLE \<Longrightarrow> r = 0 \<longleftrightarrow> a = b"
    using assms(1) r(1) by (cases a; cases b) (auto simp: three_way_def split: if_splits)
  with r s compare_value_flip [OF assms(1,3,4) r(1)] compare_value_trans [OF r(1) s] show ?thesis by blast
qed

theorem compare_value_order_witness:
  "compare_value (STRING [97]) (STRING [97, 98]) = Inr (-1) \<and> compare_value (STRING [97, 98]) (STRING [97]) = Inr 1"
proof -
  have "compare_value (STRING [97]) (STRING [97, 98]) = Inr (-1)" by code_simp
  with compare_value_order [of "STRING [97]" "STRING [97, 98]" "STRING [98]"] show ?thesis by auto
qed

text \<open>A NaN is not equal to itself, and each of it and any other double compares as the greater
  one: a multimap keyed by doubles with a NaN has no order.\<close>

lemma compare_value_nan: "dbl_nan a \<or> dbl_nan b \<Longrightarrow> compare_value (DOUBLE a) (DOUBLE b) = Inr 1"
  by (auto simp: three_way_def dbl_lt_def dbl_eq_def)

end
