(* ===== verification/Mdb_Schema.thy ===== *)
theory Mdb_Schema
  imports Mdb_Value
begin

text \<open>
  Schemas of the storage engine (\<^verbatim>\<open>memdb/schema.h\<close>, \<^verbatim>\<open>schema.cc\<close>): the columns of a table with
  their place in a row. Fixed-size columns have an offset into the fixed part of a row, string
  columns an index into its table of variable parts. The theory proves that every operation keeps
  the layout consistent, so that the columns of a row do not overlap.
\<close>

section \<open>Schemas\<close>

text \<open>\<open>place\<close> is the union of \<^verbatim>\<open>fixed_size_offst\<close> and \<^verbatim>\<open>var_size_idx\<close>. Column ids are indices;
  the code's \<open>-1\<close> is a result of the operations only.\<close>

record column_info =
  col_id :: nat
  col_name :: string
  indexed :: bool
  col_type :: kind
  place :: nat

record schema =
  col_name_to_id :: "(string \<times> nat) list"
  col_info :: "column_info list"
  key_cols_id :: "nat list"
  var_size_cols :: nat
  fixed_part_size :: nat
  hidden_fixed :: nat
  hidden_var :: nat
  frozen :: bool

definition new_schema :: schema where
  "new_schema = \<lparr>col_name_to_id = [], col_info = [], key_cols_id = [], var_size_cols = 0,
     fixed_part_size = 0, hidden_fixed = 0, hidden_var = 0, frozen = False\<rparr>"

fun kind_size :: "kind \<Rightarrow> nat res" where
  "kind_size K_I32 = Inr 4"
| "kind_size K_I64 = Inr 8"
| "kind_size K_DOUBLE = Inr 8"
| "kind_size _ = Inl VerifyFailed"

definition do_add_column :: "string \<Rightarrow> kind \<Rightarrow> bool \<Rightarrow> 'a schema_scheme \<Rightarrow> (int \<times> 'a schema_scheme) res" where
  "do_add_column name ty key s =
     (let i = length (col_name_to_id s) in
      if map_of (col_name_to_id s) name \<noteq> None then Inr (-1, s)
      else let ci = \<lparr>col_id = i, col_name = name, indexed = key, col_type = ty,
                     place = (if ty = K_STR then var_size_cols s else fixed_part_size s)\<rparr>;
               s1 = s\<lparr>key_cols_id := (if key then key_cols_id s @ [i] else key_cols_id s),
                      col_name_to_id := (name, i) # col_name_to_id s,
                      col_info := col_info s @ [ci]\<rparr>
           in if ty = K_STR then Inr (int i, s1\<lparr>var_size_cols := Suc (var_size_cols s)\<rparr>)
              else rbind (kind_size ty)
                     (\<lambda>n. Inr (int i, s1\<lparr>fixed_part_size := fixed_part_size s + n\<rparr>)))"

definition add_column :: "string \<Rightarrow> kind \<Rightarrow> bool \<Rightarrow> 'a schema_scheme \<Rightarrow> (int \<times> 'a schema_scheme) res" where
  "add_column name ty key s =
     verify (\<not> frozen s \<and> hidden_fixed s = 0 \<and> hidden_var s = 0) (do_add_column name ty key s)"

definition add_key_column :: "string \<Rightarrow> kind \<Rightarrow> 'a schema_scheme \<Rightarrow> (int \<times> 'a schema_scheme) res" where
  "add_key_column name ty s = add_column name ty True s"

definition add_hidden_column :: "string \<Rightarrow> kind \<Rightarrow> 'a schema_scheme \<Rightarrow> (int \<times> 'a schema_scheme) res" where
  "add_hidden_column name ty s =
     verify (\<not> frozen s)
       (rbind (do_add_column name ty False s)
         (\<lambda>(r, s1). Inr (r, if ty = K_STR then s1\<lparr>hidden_var := Suc (hidden_var s1)\<rparr>
                             else s1\<lparr>hidden_fixed := Suc (hidden_fixed s1)\<rparr>)))"

definition get_column_id :: "'a schema_scheme \<Rightarrow> string \<Rightarrow> int" where
  "get_column_id s name = (case map_of (col_name_to_id s) name of None \<Rightarrow> -1 | Some i \<Rightarrow> int i)"

definition get_column_info :: "'a schema_scheme \<Rightarrow> nat \<Rightarrow> column_info res" where
  "get_column_info s i = (if i < length (col_info s) then Inr (col_info s ! i) else Inl OutOfRange)"

definition get_column_info_by_name :: "'a schema_scheme \<Rightarrow> string \<Rightarrow> column_info option res" where
  "get_column_info_by_name s name =
     (let i = get_column_id s name in
      if i < 0 then Inr None else rbind (get_column_info s (nat i)) (\<lambda>c. Inr (Some c)))"

definition columns_count :: "'a schema_scheme \<Rightarrow> nat" where
  "columns_count s = length (col_info s) - hidden_fixed s - hidden_var s"

text \<open>The range of \<^verbatim>\<open>begin()\<close> and \<^verbatim>\<open>end()\<close>: the columns that are not hidden.\<close>

definition visible_columns :: "'a schema_scheme \<Rightarrow> column_info list" where
  "visible_columns s = take (columns_count s) (col_info s)"

definition freeze :: "'a schema_scheme \<Rightarrow> 'a schema_scheme" where
  "freeze s = s\<lparr>frozen := True\<rparr>"

section \<open>Indexed schemas\<close>

record indexed_schema = schema +
  idx_col :: int
  all_idx :: "nat list list"
  idx_name :: "(string \<times> nat) list"

definition new_indexed_schema :: indexed_schema where
  "new_indexed_schema = schema.extend new_schema \<lparr>idx_col = -1, all_idx = [], idx_name = []\<rparr>"

definition index_sanity_check :: "indexed_schema \<Rightarrow> nat list \<Rightarrow> bool" where
  "index_sanity_check s idx \<longleftrightarrow> length (os_of idx) = length idx \<and> list_all (\<lambda>c. c < columns_count s) idx"

definition mark_indexed :: "nat list \<Rightarrow> column_info list \<Rightarrow> column_info list" where
  "mark_indexed idx cs = fold (\<lambda>c cs. cs[c := (cs ! c)\<lparr>indexed := True\<rparr>]) idx cs"

definition add_index :: "string \<Rightarrow> nat list \<Rightarrow> indexed_schema \<Rightarrow> (int \<times> indexed_schema) res" where
  "add_index name idx s =
     verify (index_sanity_check s idx)
       (let i = length (all_idx s) in
        if map_of (idx_name s) name \<noteq> None then Inr (-1, s)
        else Inr (int i, s\<lparr>col_info := mark_indexed idx (col_info s),
                           idx_name := (name, i) # idx_name s, all_idx := all_idx s @ [idx]\<rparr>))"

fun ids_of_names :: "'a schema_scheme \<Rightarrow> string list \<Rightarrow> nat list res" where
  "ids_of_names s [] = Inr []"
| "ids_of_names s (n # ns) =
     verify (get_column_id s n \<ge> 0)
       (rbind (ids_of_names s ns) (\<lambda>is. Inr (nat (get_column_id s n) # is)))"

definition add_index_by_column_names :: "string \<Rightarrow> string list \<Rightarrow> indexed_schema \<Rightarrow> (int \<times> indexed_schema) res" where
  "add_index_by_column_names name cols s = rbind (ids_of_names s cols) (\<lambda>idx. add_index name idx s)"

definition get_index_id :: "indexed_schema \<Rightarrow> string \<Rightarrow> nat res" where
  "get_index_id s name = (case map_of (idx_name s) name of None \<Rightarrow> Inl VerifyFailed | Some i \<Rightarrow> Inr i)"

definition get_index :: "indexed_schema \<Rightarrow> nat \<Rightarrow> nat list res" where
  "get_index s i = (if i < length (all_idx s) then Inr (all_idx s ! i) else Inl OutOfRange)"

definition freeze_indexed :: "indexed_schema \<Rightarrow> indexed_schema res" where
  "freeze_indexed s =
     (if frozen s then Inr s
      else rbind (add_hidden_column ''.index'' K_I64 s)
        (\<lambda>(r, s1). verify (r \<ge> 0) (Inr (freeze (s1\<lparr>idx_col := r\<rparr>)))))"

section \<open>The layout invariant\<close>

definition csize :: "column_info \<Rightarrow> nat" where
  "csize c = (case kind_size (col_type c) of Inl _ \<Rightarrow> 0 | Inr n \<Rightarrow> n)"

definition fsize :: "column_info list \<Rightarrow> nat" where
  "fsize cs = sum_list (map csize cs)"

definition nvar :: "column_info list \<Rightarrow> nat" where
  "nvar cs = length (filter (\<lambda>c. col_type c = K_STR) cs)"

definition schema_inv :: "'a schema_scheme \<Rightarrow> bool" where
  "schema_inv s \<longleftrightarrow>
     (\<forall>i < length (col_info s).
        col_id (col_info s ! i) = i \<and> map_of (col_name_to_id s) (col_name (col_info s ! i)) = Some i \<and>
        col_type (col_info s ! i) \<noteq> K_UNKNOWN \<and>
        place (col_info s ! i) = (if col_type (col_info s ! i) = K_STR then nvar (take i (col_info s))
                                  else fsize (take i (col_info s)))) \<and>
     length (col_name_to_id s) = length (col_info s) \<and>
     list_all (\<lambda>ni. snd ni < length (col_info s)) (col_name_to_id s) \<and>
     fixed_part_size s = fsize (col_info s) \<and> var_size_cols s = nvar (col_info s) \<and>
     list_all (\<lambda>c. c < length (col_info s) \<and> indexed (col_info s ! c)) (key_cols_id s) \<and>
     hidden_fixed s + hidden_var s \<le> length (col_info s)"

lemma fsize_append [simp]: "fsize (xs @ ys) = fsize xs + fsize ys"
  by (simp add: fsize_def)

lemma nvar_append [simp]: "nvar (xs @ ys) = nvar xs + nvar ys"
  by (simp add: nvar_def)

lemma new_schema_inv [simp]: "schema_inv new_schema"
  by (simp add: schema_inv_def new_schema_def fsize_def nvar_def)

lemma schema_inv_col:
  assumes "schema_inv s" and "i < length (col_info s)"
  shows "col_id (col_info s ! i) = i" "map_of (col_name_to_id s) (col_name (col_info s ! i)) = Some i"
    "col_type (col_info s ! i) \<noteq> K_UNKNOWN"
    "place (col_info s ! i) = (if col_type (col_info s ! i) = K_STR then nvar (take i (col_info s))
       else fsize (take i (col_info s)))"
  using assms unfolding schema_inv_def by blast+

lemma schema_inv_rest:
  assumes "schema_inv s"
  shows "length (col_name_to_id s) = length (col_info s)"
    "list_all (\<lambda>ni. snd ni < length (col_info s)) (col_name_to_id s)"
    "fixed_part_size s = fsize (col_info s)" "var_size_cols s = nvar (col_info s)"
    "list_all (\<lambda>c. c < length (col_info s) \<and> indexed (col_info s ! c)) (key_cols_id s)"
    "hidden_fixed s + hidden_var s \<le> length (col_info s)"
  using assms unfolding schema_inv_def by blast+

lemma do_add_column_inv:
  assumes inv: "schema_inv s" and ok: "do_add_column name ty key s = Inr (r, s')"
  shows "schema_inv s'"
proof (cases "map_of (col_name_to_id s) name")
  case (Some i)
  with ok inv show ?thesis by (simp add: do_add_column_def Let_def)
next
  case None
  let ?n = "length (col_info s)"
  note rest = schema_inv_rest [OF inv] and col = schema_inv_col [OF inv]
  define ci where "ci = \<lparr>col_id = ?n, col_name = name, indexed = key, col_type = ty,
    place = (if ty = K_STR then nvar (col_info s) else fsize (col_info s))\<rparr>"
  have s': "col_info s' = col_info s @ [ci]" "col_name_to_id s' = (name, ?n) # col_name_to_id s"
    "col_id ci = ?n" "col_name ci = name" "col_type ci = ty" "indexed ci = key"
    "place ci = (if ty = K_STR then nvar (col_info s) else fsize (col_info s))"
    "key_cols_id s' = (if key then key_cols_id s @ [?n] else key_cols_id s)"
    "fixed_part_size s' = fsize (col_info s) + csize ci"
    "var_size_cols s' = nvar (col_info s @ [ci])" "ty \<noteq> K_UNKNOWN"
    "hidden_fixed s' = hidden_fixed s" "hidden_var s' = hidden_var s"
    using ok None rest(1,3,4)
    by (cases ty; auto simp: do_add_column_def Let_def csize_def nvar_def ci_def)+
  have "col_id (col_info s' ! i) = i \<and> map_of (col_name_to_id s') (col_name (col_info s' ! i)) = Some i \<and>
        col_type (col_info s' ! i) \<noteq> K_UNKNOWN \<and>
        place (col_info s' ! i) = (if col_type (col_info s' ! i) = K_STR then nvar (take i (col_info s'))
                                  else fsize (take i (col_info s')))"
    if "i < length (col_info s')" for i
  proof (cases "i = ?n")
    case True
    then show ?thesis using s' by (simp add: nth_append)
  next
    case False
    then have i: "i < ?n" using that s'(1) by simp
    then have "col_name (col_info s ! i) \<noteq> name" using col(2) [OF i] None by auto
    then show ?thesis using col [OF i] i s' by (simp add: nth_append)
  qed
  moreover have "list_all (\<lambda>c. c < length (col_info s') \<and> indexed (col_info s' ! c)) (key_cols_id s')"
    using rest(5) s'(1,6,8) by (auto simp: list_all_iff nth_append)
  moreover have "list_all (\<lambda>ni. snd ni < length (col_info s')) (col_name_to_id s')"
    using rest(2) s'(1,2) by (auto simp: list_all_iff less_Suc_eq)
  ultimately show ?thesis
    unfolding schema_inv_def using s' rest(1,6) by (simp add: fsize_def)
qed

lemma do_add_column_frame:
  assumes "do_add_column name ty key s = Inr (r, s')"
  shows "hidden_fixed s' = hidden_fixed s" "hidden_var s' = hidden_var s" "frozen s' = frozen s"
    "r = -1 \<and> s' = s \<or> r = int (length (col_name_to_id s)) \<and> length (col_info s') = Suc (length (col_info s))"
  using assms by (auto simp: do_add_column_def Let_def split: if_splits)

lemma add_column_inv: "schema_inv s \<Longrightarrow> add_column name ty key s = Inr (r, s') \<Longrightarrow> schema_inv s'"
  by (auto simp: add_column_def intro: do_add_column_inv)

lemma schema_inv_hidden:
  assumes "schema_inv s" and "hidden_fixed s' + hidden_var s' \<le> length (col_info s)"
    and "col_info s' = col_info s" "col_name_to_id s' = col_name_to_id s" "key_cols_id s' = key_cols_id s"
      "fixed_part_size s' = fixed_part_size s" "var_size_cols s' = var_size_cols s"
  shows "schema_inv s'"
  using assms unfolding schema_inv_def by simp

lemma add_hidden_column_inv:
  assumes inv: "schema_inv s" and ok: "add_hidden_column name ty s = Inr (r, s')" and "r \<ge> 0"
  shows "schema_inv s'"
proof -
  from ok obtain s1 where s1: "do_add_column name ty False s = Inr (r, s1)"
    "s' = (if ty = K_STR then s1\<lparr>hidden_var := Suc (hidden_var s1)\<rparr> else s1\<lparr>hidden_fixed := Suc (hidden_fixed s1)\<rparr>)"
    by (auto simp: add_hidden_column_def)
  have len: "length (col_info s1) = Suc (length (col_info s))"
    using do_add_column_frame(4) [OF s1(1)] assms(3) by auto
  show ?thesis
    by (rule schema_inv_hidden [OF do_add_column_inv [OF inv s1(1)]])
      (use s1(2) len do_add_column_frame(1,2) [OF s1(1)] schema_inv_rest(6) [OF inv] in auto)
qed

lemma freeze_indexed_inv:
  assumes "schema_inv s" and "freeze_indexed s = Inr s'"
  shows "schema_inv s'"
proof (cases "frozen s")
  case True
  then show ?thesis using assms by (simp add: freeze_indexed_def)
next
  case False
  then obtain r s1 where "add_hidden_column ''.index'' K_I64 s = Inr (r, s1)" "r \<ge> 0"
    "s' = freeze (s1\<lparr>idx_col := r\<rparr>)"
    using assms(2) by (auto simp: freeze_indexed_def)
  then show ?thesis
    using add_hidden_column_inv [OF assms(1)] schema_inv_hidden [of s1 s'] schema_inv_rest(6) [of s1]
    by (simp add: freeze_def)
qed

lemma mark_indexed_same:
  "length (mark_indexed idx cs) = length cs \<and>
   (\<forall>i < length cs. col_id (mark_indexed idx cs ! i) = col_id (cs ! i) \<and>
      col_name (mark_indexed idx cs ! i) = col_name (cs ! i) \<and>
      col_type (mark_indexed idx cs ! i) = col_type (cs ! i) \<and> place (mark_indexed idx cs ! i) = place (cs ! i) \<and>
      (indexed (cs ! i) \<longrightarrow> indexed (mark_indexed idx cs ! i)))"
  unfolding mark_indexed_def
proof (induction idx arbitrary: cs)
  case (Cons c idx)
  let ?cs = "cs[c := (cs ! c)\<lparr>indexed := True\<rparr>]"
  have "col_id (?cs ! i) = col_id (cs ! i) \<and> col_name (?cs ! i) = col_name (cs ! i) \<and>
      col_type (?cs ! i) = col_type (cs ! i) \<and> place (?cs ! i) = place (cs ! i) \<and>
      (indexed (cs ! i) \<longrightarrow> indexed (?cs ! i))" if "i < length cs" for i
    using that by (cases "i = c") auto
  with Cons [of ?cs] show ?case by simp
qed simp

lemma mark_indexed_layout:
  "fsize (take i (mark_indexed idx cs)) = fsize (take i cs) \<and> nvar (take i (mark_indexed idx cs)) = nvar (take i cs)"
proof -
  have "map col_type (mark_indexed idx cs) = map col_type cs"
    using mark_indexed_same [of idx cs] by (intro nth_equalityI) auto
  then have "map col_type (take i (mark_indexed idx cs)) = map col_type (take i cs)" by (simp flip: take_map)
  moreover have "fsize xs = fsize ys \<and> nvar xs = nvar ys" if "map col_type xs = map col_type ys" for xs ys
    using that
  proof (induction xs arbitrary: ys)
    case (Cons x xs)
    then obtain y zs where "ys = y # zs" "col_type x = col_type y" "map col_type xs = map col_type zs"
      by (cases ys) auto
    with Cons.IH [of zs] show ?case by (simp add: fsize_def nvar_def csize_def)
  qed simp
  ultimately show ?thesis by blast
qed

lemma add_index_inv:
  assumes inv: "schema_inv s" and ok: "add_index name idx s = Inr (r, s')"
  shows "schema_inv s'"
proof (cases "map_of (idx_name s) name")
  case (Some i)
  then show ?thesis using ok inv by (simp add: add_index_def Let_def)
next
  case None
  let ?m = "mark_indexed idx (col_info s)"
  have s': "col_info s' = ?m" "col_name_to_id s' = col_name_to_id s" "key_cols_id s' = key_cols_id s"
    "fixed_part_size s' = fixed_part_size s" "var_size_cols s' = var_size_cols s"
    "hidden_fixed s' = hidden_fixed s" "hidden_var s' = hidden_var s"
    using ok None by (auto simp: add_index_def Let_def)
  note m = mark_indexed_same [of idx "col_info s"] and rest = schema_inv_rest [OF inv]
  have "col_id (?m ! i) = i \<and> map_of (col_name_to_id s) (col_name (?m ! i)) = Some i \<and>
        col_type (?m ! i) \<noteq> K_UNKNOWN \<and>
        place (?m ! i) = (if col_type (?m ! i) = K_STR then nvar (take i ?m) else fsize (take i ?m))"
    if "i < length ?m" for i
    using that m schema_inv_col [OF inv, of i] by (simp add: mark_indexed_layout)
  moreover have "list_all (\<lambda>c. c < length ?m \<and> indexed (?m ! c)) (key_cols_id s)"
    using rest(5) m by (auto simp: list_all_iff)
  moreover have "fsize ?m = fsize (col_info s)" "nvar ?m = nvar (col_info s)"
    using mark_indexed_layout [of "length ?m" idx "col_info s"] m by simp_all
  ultimately show ?thesis unfolding schema_inv_def using s' rest m by simp
qed

section \<open>Histories of a schema\<close>

datatype schema_op =
    AddColumn string kind bool
  | AddIndex string "nat list"
  | AddIndexByNames string "string list"
  | Freeze

fun schema_step :: "schema_op \<Rightarrow> indexed_schema \<Rightarrow> indexed_schema res" where
  "schema_step (AddColumn name ty key) s = rbind (add_column name ty key s) (\<lambda>(r, s'). Inr s')"
| "schema_step (AddIndex name idx) s = rbind (add_index name idx s) (\<lambda>(r, s'). Inr s')"
| "schema_step (AddIndexByNames name cols) s = rbind (add_index_by_column_names name cols s) (\<lambda>(r, s'). Inr s')"
| "schema_step Freeze s = freeze_indexed s"

fun schema_run :: "schema_op list \<Rightarrow> indexed_schema \<Rightarrow> indexed_schema res" where
  "schema_run [] s = Inr s"
| "schema_run (a # as) s = rbind (schema_step a s) (schema_run as)"

lemma schema_step_inv: "schema_inv s \<Longrightarrow> schema_step a s = Inr s' \<Longrightarrow> schema_inv s'"
  by (cases a) (auto simp: add_index_by_column_names_def
      intro: add_column_inv add_index_inv freeze_indexed_inv)

lemma schema_run_inv: "schema_inv s \<Longrightarrow> schema_run as s = Inr s' \<Longrightarrow> schema_inv s'"
  by (induction as arbitrary: s) (auto dest: schema_step_inv)

lemma new_indexed_schema_inv: "schema_inv new_indexed_schema"
  by (simp add: schema_inv_def new_indexed_schema_def new_schema_def schema.extend_def fsize_def nvar_def)

lemma take_split: "i < j \<Longrightarrow> j \<le> length xs \<Longrightarrow> take j xs = take i xs @ xs ! i # drop (Suc i) (take j xs)"
  by (metis Cons_nth_drop_Suc append_take_drop_id length_take less_le_trans min.absorb2
      min.strict_order_iff nth_take take_take less_imp_le)

lemma place_disjoint:
  assumes inv: "schema_inv s" and "i < j" and "j < length (col_info s)"
    and "col_type (col_info s ! i) \<noteq> K_STR" and "col_type (col_info s ! j) \<noteq> K_STR"
  shows "place (col_info s ! i) + csize (col_info s ! i) \<le> place (col_info s ! j)"
proof -
  let ?c = "col_info s"
  have "take j ?c = take i ?c @ ?c ! i # drop (Suc i) (take j ?c)"
    using assms(2,3) by (intro take_split) auto
  then have "fsize (take j ?c) = fsize (take i ?c) + (csize (?c ! i) + fsize (drop (Suc i) (take j ?c)))"
    by (metis fsize_append fsize_def list.simps(9) sum_list.Cons)
  then show ?thesis using assms schema_inv_col(4) [OF inv] by simp
qed

lemma place_bounds:
  assumes inv: "schema_inv s" and i: "i < length (col_info s)"
  shows "if col_type (col_info s ! i) = K_STR then place (col_info s ! i) < var_size_cols s
    else place (col_info s ! i) + csize (col_info s ! i) \<le> fixed_part_size s"
proof -
  let ?c = "col_info s"
  have c: "?c = take i ?c @ ?c ! i # drop (Suc i) ?c" using i by (rule id_take_nth_drop)
  have "fsize ?c = fsize (take i ?c) + (csize (?c ! i) + fsize (drop (Suc i) ?c))"
    by (subst c) (simp add: fsize_def)
  moreover have "nvar ?c = nvar (take i ?c) + ((if col_type (?c ! i) = K_STR then 1 else 0) + nvar (drop (Suc i) ?c))"
    by (subst c) (simp add: nvar_def)
  ultimately show ?thesis
    using schema_inv_col(4) [OF inv i] schema_inv_rest(3,4) [OF inv] by auto
qed



end
