(* ===== verification/Mdb_Row.thy ===== *)
theory Mdb_Row
  imports Mdb_Schema
begin

text \<open>
  Rows of the storage engine (\<^verbatim>\<open>memdb/row.h\<close>, \<^verbatim>\<open>row.cc\<close>) at the level of their bytes: the fixed
  part, and the variable part in its dense form (one buffer and the end positions of the strings)
  or its sparse form (one string per column). The theory proves that a row returns what it was
  created with, that an update changes exactly its column, and that the change of form and the copy
  keep every column.
\<close>

section \<open>Rows\<close>

datatype var_part = Dense "byte list" "nat list" | Sparse "byte list list"

record row =
  fixed_part :: "byte list"
  var_part :: var_part
  rdonly :: bool
  tbl :: "nat option"

type_synonym 'a sch = "'a schema_scheme"

text \<open>The bytes of one variable column, for both forms.\<close>

definition dense_start :: "nat list \<Rightarrow> nat \<Rightarrow> nat" where
  "dense_start idx k = (if k = 0 then 0 else idx ! (k - 1))"

fun var_blob :: "var_part \<Rightarrow> nat \<Rightarrow> byte list res" where
  "var_blob (Dense d idx) k =
     (if k < length idx then Inr (take (idx ! k - dense_start idx k) (drop (dense_start idx k) d))
      else Inl OutOfRange)"
| "var_blob (Sparse ss) k = (if k < length ss then Inr (ss ! k) else Inl OutOfRange)"

definition row_get_blob :: "'a sch \<Rightarrow> row \<Rightarrow> nat \<Rightarrow> byte list res" where
  "row_get_blob s r c =
     rbind (get_column_info s c)
       (\<lambda>ci. case col_type ci of
          K_I32 \<Rightarrow> Inr (take 4 (drop (place ci) (fixed_part r)))
        | K_I64 \<Rightarrow> Inr (take 8 (drop (place ci) (fixed_part r)))
        | K_DOUBLE \<Rightarrow> Inr (take 8 (drop (place ci) (fixed_part r)))
        | K_STR \<Rightarrow> var_blob (var_part r) (place ci)
        | K_UNKNOWN \<Rightarrow> Inl VerifyFailed)"

fun decode :: "kind \<Rightarrow> byte list \<Rightarrow> mvalue res" where
  "decode K_I32 b = Inr (I32 (le_word b))"
| "decode K_I64 b = Inr (I64 (le_word b))"
| "decode K_DOUBLE b = Inr (DOUBLE (le_word b))"
| "decode K_STR b = Inr (STRING b)"
| "decode K_UNKNOWN b = Inl VerifyFailed"

definition get_column :: "'a sch \<Rightarrow> row \<Rightarrow> nat \<Rightarrow> mvalue res" where
  "get_column s r c =
     rbind (get_column_info s c) (\<lambda>ci. rbind (row_get_blob s r c) (decode (col_type ci)))"

definition get_column_by_name :: "'a sch \<Rightarrow> row \<Rightarrow> string \<Rightarrow> mvalue res" where
  "get_column_by_name s r name =
     (if get_column_id s name < 0 then Inl OutOfRange else get_column s r (nat (get_column_id s name)))"

fun blobs_of :: "'a sch \<Rightarrow> row \<Rightarrow> nat list \<Rightarrow> multi_blob res" where
  "blobs_of s r [] = Inr []"
| "blobs_of s r (c # cs) = rbind (row_get_blob s r c) (\<lambda>b. rbind (blobs_of s r cs) (\<lambda>bs. Inr (b # bs)))"

definition get_key :: "'a sch \<Rightarrow> row \<Rightarrow> multi_blob res" where
  "get_key s r = blobs_of s r (key_cols_id s)"

section \<open>Creation\<close>

text \<open>The first pass writes the fixed-size values one after the other, whatever the types of the
  columns are, and adds up the sizes of the strings. A write behind the buffer is an error.\<close>

fun fill_fixed :: "mvalue list \<Rightarrow> byte list \<Rightarrow> nat \<Rightarrow> nat \<Rightarrow> (byte list \<times> nat \<times> nat) res" where
  "fill_fixed [] buf pos vsize = Inr (buf, pos, vsize)"
| "fill_fixed (v # vs) buf pos vsize =
     (case v of
        STRING str \<Rightarrow> fill_fixed vs buf pos (vsize + length str)
      | UNKNOWN \<Rightarrow> Inl VerifyFailed
      | _ \<Rightarrow> rbind (value_blob v)
          (\<lambda>bs. if pos + length bs \<le> length buf
                then fill_fixed vs (overwrite pos bs buf) (pos + length bs) vsize else Inl OutOfRange))"

text \<open>The hidden columns only advance the position.\<close>

fun skip_hidden :: "column_info list \<Rightarrow> nat \<Rightarrow> nat res" where
  "skip_hidden [] pos = Inr pos"
| "skip_hidden (c # cs) pos =
     (if col_type c = K_STR then skip_hidden cs pos
      else rbind (kind_size (col_type c)) (\<lambda>n. skip_hidden cs (pos + n)))"

text \<open>The second pass appends the strings to the variable part and records where each ends.\<close>

fun fill_var :: "mvalue list \<Rightarrow> byte list \<Rightarrow> nat list \<Rightarrow> byte list \<times> nat list" where
  "fill_var [] d idx = (d, idx)"
| "fill_var (STRING str # vs) d idx = fill_var vs (d @ str) (idx @ [length d + length str])"
| "fill_var (_ # vs) d idx = fill_var vs d idx"

fun hidden_var_cols :: "column_info list \<Rightarrow> nat list \<Rightarrow> nat list res" where
  "hidden_var_cols [] idx = Inr idx"
| "hidden_var_cols (c # cs) idx =
     (if col_type c = K_STR then (if idx = [] then Inl OutOfRange else hidden_var_cols cs (idx @ [last idx]))
      else hidden_var_cols cs idx)"

definition row_create :: "'a sch \<Rightarrow> mvalue list \<Rightarrow> row res" where
  "row_create s vals =
     verify (length vals = columns_count s)
       (rbind (fill_fixed vals (replicate (fixed_part_size s) 0) 0 0)
         (\<lambda>(buf, pos, vsize). rbind (skip_hidden (drop (length vals) (col_info s)) pos)
           (\<lambda>pos'. verify (pos' = fixed_part_size s)
             (if var_size_cols s > 0
              then let (d, idx) = fill_var vals [] [] in
                if length idx > var_size_cols s then Inl OutOfRange
                else verify (vsize = length d)
                  (rbind (hidden_var_cols (drop (length vals) (col_info s)) idx)
                    (\<lambda>idx'. verify (length idx' = var_size_cols s)
                      (Inr \<lparr>fixed_part = buf, var_part = Dense d idx', rdonly = False, tbl = None\<rparr>)))
              else Inr \<lparr>fixed_part = buf, var_part = Dense [] [], rdonly = False, tbl = None\<rparr>))))"

section \<open>Change of form and copy\<close>

definition make_sparse :: "'a sch \<Rightarrow> row \<Rightarrow> row" where
  "make_sparse s r =
     (case var_part r of
        Sparse ss \<Rightarrow> r
      | Dense d idx \<Rightarrow>
          (if var_size_cols s = 0 then r\<lparr>var_part := Sparse []\<rparr>
           else r\<lparr>var_part := Sparse (map (\<lambda>k. take (idx ! k - dense_start idx k) (drop (dense_start idx k) d))
                                       [0 ..< var_size_cols s])\<rparr>))"

fun collect_var :: "'a sch \<Rightarrow> row \<Rightarrow> column_info list \<Rightarrow> byte list \<Rightarrow> nat list \<Rightarrow> (byte list \<times> nat list) res" where
  "collect_var s r [] d idx = Inr (d, idx)"
| "collect_var s r (c # cs) d idx =
     (if col_type c \<noteq> K_STR then collect_var s r cs d idx
      else rbind (row_get_blob s r (col_id c))
        (\<lambda>b. collect_var s r cs (d @ b) (idx @ [length d + length b])))"

definition row_copy :: "'a sch \<Rightarrow> row \<Rightarrow> row res" where
  "row_copy s r =
     rbind (collect_var s r (visible_columns s) [] [])
       (\<lambda>(d, idx). Inr \<lparr>fixed_part = take (fixed_part_size s) (fixed_part r), var_part = Dense d idx,
                        rdonly = False, tbl = None\<rparr>)"

section \<open>Updates\<close>

text \<open>When an indexed column of a row in a table really changes, the row is taken out of the table
  and put back: the calls on the table, in order.\<close>

datatype tbl_call = NotifyBefore nat | RemoveRow | InsertRow | NotifyAfter nat

definition reinsert :: "bool \<Rightarrow> row \<Rightarrow> nat \<Rightarrow> tbl_call list" where
  "reinsert ind r c = (if ind \<and> tbl r \<noteq> None then [NotifyBefore c, RemoveRow, InsertRow, NotifyAfter c] else [])"

definition update_fixed :: "column_info \<Rightarrow> byte list \<Rightarrow> row \<Rightarrow> (row \<times> tbl_call list) res" where
  "update_fixed ci bs r =
     verify (\<not> rdonly r)
       (if take (length bs) (drop (place ci) (fixed_part r)) = bs then Inr (r, [])
        else Inr (r\<lparr>fixed_part := overwrite (place ci) bs (fixed_part r)\<rparr>, reinsert (indexed ci) r (col_id ci)))"

definition update_num :: "kind \<Rightarrow> byte list \<Rightarrow> 'a sch \<Rightarrow> nat \<Rightarrow> row \<Rightarrow> (row \<times> tbl_call list) res" where
  "update_num k bs s c r =
     rbind (get_column_info s c) (\<lambda>ci. verify (col_type ci = k) (update_fixed ci bs r))"

definition update_str :: "byte list \<Rightarrow> 'a sch \<Rightarrow> nat \<Rightarrow> row \<Rightarrow> (row \<times> tbl_call list) res" where
  "update_str v s c r =
     verify (\<not> rdonly r)
       (rbind (get_column_info s c)
         (\<lambda>ci. verify (col_type ci = K_STR)
           (rbind (row_get_blob s r c)
             (\<lambda>b. if b = v then Inr (r, [])
                  else let calls = reinsert (indexed ci) r c in
                    (case var_part r of
                       Dense d idx \<Rightarrow>
                         (if length b = length v
                          then Inr (r\<lparr>var_part := Dense (overwrite (dense_start idx (place ci)) v d) idx\<rparr>, calls)
                          else (case var_part (make_sparse s r) of
                                  Sparse ss \<Rightarrow> Inr (r\<lparr>var_part := Sparse (ss[place ci := v])\<rparr>, calls)
                                | Dense _ _ \<Rightarrow> Inl BadPointer))
                     | Sparse ss \<Rightarrow> Inr (r\<lparr>var_part := Sparse (ss[place ci := v])\<rparr>, calls))))))"

fun row_update :: "'a sch \<Rightarrow> nat \<Rightarrow> mvalue \<Rightarrow> row \<Rightarrow> (row \<times> tbl_call list) res" where
  "row_update s c (I32 v) r = update_num K_I32 (le_bytes 4 v) s c r"
| "row_update s c (I64 v) r = update_num K_I64 (le_bytes 8 v) s c r"
| "row_update s c (DOUBLE v) r = update_num K_DOUBLE (le_bytes 8 v) s c r"
| "row_update s c (STRING v) r = update_str v s c r"
| "row_update s c UNKNOWN r = Inl VerifyFailed"

definition make_readonly :: "row \<Rightarrow> row" where
  "make_readonly r = r\<lparr>rdonly := True\<rparr>"

definition set_table :: "nat option \<Rightarrow> row \<Rightarrow> row res" where
  "set_table t r = verify (t = None \<or> tbl r = None) (Inr (r\<lparr>tbl := t\<rparr>))"

section \<open>Well-formed rows\<close>

definition dense_ok :: "byte list \<Rightarrow> nat list \<Rightarrow> bool" where
  "dense_ok d idx \<longleftrightarrow> sorted idx \<and> list_all (\<lambda>e. e \<le> length d) idx"

definition row_inv :: "'a sch \<Rightarrow> row \<Rightarrow> bool" where
  "row_inv s r \<longleftrightarrow> length (fixed_part r) = fixed_part_size s \<and>
     (case var_part r of
        Dense d idx \<Rightarrow> length idx = var_size_cols s \<and> dense_ok d idx
      | Sparse ss \<Rightarrow> length ss = var_size_cols s)"

text \<open>The strings of the variable part, whatever its form.\<close>

fun var_strs :: "var_part \<Rightarrow> byte list list" where
  "var_strs (Dense d idx) =
     map (\<lambda>k. take (idx ! k - dense_start idx k) (drop (dense_start idx k) d)) [0 ..< length idx]"
| "var_strs (Sparse ss) = ss"

lemma var_blob_strs: "k < length (var_strs vp) \<Longrightarrow> var_blob vp k = Inr (var_strs vp ! k)"
  by (cases vp) auto

lemma length_var_strs: "row_inv s r \<Longrightarrow> length (var_strs (var_part r)) = var_size_cols s"
  by (cases "var_part r") (auto simp: row_inv_def)

lemma make_sparse_strs:
  assumes "row_inv s r"
  shows "var_part (make_sparse s r) = Sparse (var_strs (var_part r))" and "row_inv s (make_sparse s r)"
    and "fixed_part (make_sparse s r) = fixed_part r"
  using assms by (auto simp: make_sparse_def row_inv_def split: var_part.splits)

lemma take_drop_overwrite:
  assumes "pos + length bs \<le> length buf"
  shows "take (length bs) (drop pos (overwrite pos bs buf)) = bs"
    and "length (overwrite pos bs buf) = length buf"
    and "p + n \<le> pos \<Longrightarrow> take n (drop p (overwrite pos bs buf)) = take n (drop p buf)"
    and "pos + length bs \<le> p \<Longrightarrow> take n (drop p (overwrite pos bs buf)) = take n (drop p buf)"
proof -
  show "take (length bs) (drop pos (overwrite pos bs buf)) = bs" "length (overwrite pos bs buf) = length buf"
    using assms by (auto simp: overwrite_def)
  show "take n (drop p (overwrite pos bs buf)) = take n (drop p buf)" if "p + n \<le> pos"
    using that assms by (auto simp: overwrite_def drop_take take_append min_def)
  show "take n (drop p (overwrite pos bs buf)) = take n (drop p buf)" if "pos + length bs \<le> p"
    using that assms by (simp add: overwrite_def add.commute)
qed

lemma get_column_fixed:
  assumes "c < length (col_info s)" and "col_type (col_info s ! c) \<noteq> K_STR"
  shows "get_column s r c = decode (col_type (col_info s ! c))
    (take (csize (col_info s ! c)) (drop (place (col_info s ! c)) (fixed_part r)))"
  using assms
  by (cases "col_type (col_info s ! c)")
    (auto simp: get_column_def row_get_blob_def get_column_info_def csize_def)

lemma row_get_blob_str:
  assumes "schema_inv s" and "row_inv s r" and "c < length (col_info s)" and "col_type (col_info s ! c) = K_STR"
  shows "row_get_blob s r c = Inr (var_strs (var_part r) ! place (col_info s ! c))"
  using assms place_bounds [OF assms(1,3)] length_var_strs [OF assms(2)]
  by (simp add: row_get_blob_def get_column_info_def var_blob_strs)

lemma get_column_str:
  assumes "schema_inv s" and "row_inv s r" and "c < length (col_info s)" and "col_type (col_info s ! c) = K_STR"
  shows "get_column s r c = Inr (STRING (var_strs (var_part r) ! place (col_info s ! c)))"
  using assms by (simp add: get_column_def get_column_info_def row_get_blob_str)

lemma get_column_out: "\<not> c < length (col_info s) \<Longrightarrow> get_column s r c = Inl OutOfRange"
  by (simp add: get_column_def get_column_info_def)

text \<open>A column is determined by its bytes in the fixed part, or by its string.\<close>

lemma get_column_cong:
  assumes "schema_inv s" and "row_inv s r" and "row_inv s r'"
    and "c < length (col_info s) \<Longrightarrow> col_type (col_info s ! c) \<noteq> K_STR \<Longrightarrow>
      take (csize (col_info s ! c)) (drop (place (col_info s ! c)) (fixed_part r')) =
      take (csize (col_info s ! c)) (drop (place (col_info s ! c)) (fixed_part r))"
    and "c < length (col_info s) \<Longrightarrow> col_type (col_info s ! c) = K_STR \<Longrightarrow>
      var_strs (var_part r') ! place (col_info s ! c) = var_strs (var_part r) ! place (col_info s ! c)"
  shows "get_column s r' c = get_column s r c"
  using assms
  by (cases "c < length (col_info s)"; cases "col_type (col_info s ! c) = K_STR")
    (simp_all add: get_column_fixed get_column_str get_column_out)

lemma place_apart:
  assumes "schema_inv s" and "i < length (col_info s)" and "j < length (col_info s)" and "i \<noteq> j"
    and "col_type (col_info s ! i) \<noteq> K_STR" and "col_type (col_info s ! j) \<noteq> K_STR"
  shows "place (col_info s ! i) + csize (col_info s ! i) \<le> place (col_info s ! j) \<or>
    place (col_info s ! j) + csize (col_info s ! j) \<le> place (col_info s ! i)"
  using place_disjoint [OF assms(1), of i j] place_disjoint [OF assms(1), of j i] assms(2-6)
  by (cases "i < j") auto

lemma update_num_spec:
  assumes inv: "schema_inv s" "row_inv s r" and w: "\<not> rdonly r" and c: "c < length (col_info s)"
    and ty: "col_type (col_info s ! c) = k" "k \<noteq> K_STR" and len: "length bs = csize (col_info s ! c)"
  shows "\<exists>r' calls. update_num k bs s c r = Inr (r', calls) \<and> row_inv s r' \<and>
    get_column s r' c = decode k bs \<and> (\<forall>j. j \<noteq> c \<longrightarrow> get_column s r' j = get_column s r j)"
proof -
  let ?p = "place (col_info s ! c)"
  have pos: "?p + length bs \<le> length (fixed_part r)"
    using place_bounds [OF inv(1) c] inv(2) ty len by (simp add: row_inv_def)
  show ?thesis
  proof (cases "take (length bs) (drop ?p (fixed_part r)) = bs")
    case True
    then have "update_num k bs s c r = Inr (r, [])"
      using w c ty by (simp add: update_num_def get_column_info_def update_fixed_def)
    moreover have "get_column s r c = decode k bs" using True ty c len by (simp add: get_column_fixed)
    ultimately show ?thesis using inv by blast
  next
    case False
    let ?r' = "r\<lparr>fixed_part := overwrite ?p bs (fixed_part r)\<rparr>"
    note sp = take_drop_overwrite [OF pos]
    have upd: "update_num k bs s c r = Inr (?r', reinsert (indexed (col_info s ! c)) r (col_id (col_info s ! c)))"
      using False w c ty by (simp add: update_num_def get_column_info_def update_fixed_def)
    have inv': "row_inv s ?r'" using inv(2) sp(2) by (simp add: row_inv_def)
    have "get_column s ?r' c = decode k bs" using sp(1) ty c len by (simp add: get_column_fixed)
    moreover have "get_column s ?r' j = get_column s r j" if "j \<noteq> c" for j
    proof (rule get_column_cong [OF inv inv'])
      assume "j < length (col_info s)" "col_type (col_info s ! j) \<noteq> K_STR"
      then show "take (csize (col_info s ! j)) (drop (place (col_info s ! j)) (fixed_part ?r')) =
          take (csize (col_info s ! j)) (drop (place (col_info s ! j)) (fixed_part r))"
        using place_apart [OF inv(1) c, of j] that ty len sp(3,4) by fastforce
    qed simp
    ultimately show ?thesis using upd inv' by blast
  qed
qed

text \<open>Overwriting one string of a dense part by one of the same length.\<close>

lemma dense_slice_bounds:
  assumes "dense_ok d idx" and "k < length idx"
  shows "dense_start idx k \<le> idx ! k" and "idx ! k \<le> length d"
  using assms by (auto simp: dense_ok_def dense_start_def list_all_length sorted_iff_nth_mono)

lemma dense_overwrite:
  assumes ok: "dense_ok d idx" and k: "k < length idx" and len: "length v = idx ! k - dense_start idx k"
  shows "var_strs (Dense (overwrite (dense_start idx k) v d) idx) = (var_strs (Dense d idx))[k := v]"
    and "dense_ok (overwrite (dense_start idx k) v d) idx"
proof -
  note b = dense_slice_bounds [OF ok]
  have pos: "dense_start idx k + length v \<le> length d" using b [OF k] len by simp
  note sp = take_drop_overwrite [OF pos]
  show "dense_ok (overwrite (dense_start idx k) v d) idx" using ok sp(2) by (simp add: dense_ok_def)
  show "var_strs (Dense (overwrite (dense_start idx k) v d) idx) = (var_strs (Dense d idx))[k := v]"
  proof (rule nth_equalityI)
    fix j assume j: "j < length (var_strs (Dense (overwrite (dense_start idx k) v d) idx))"
    then have jl: "j < length idx" by simp
    have mono: "a \<le> b \<Longrightarrow> b < length idx \<Longrightarrow> idx ! a \<le> idx ! b" for a b
      using ok by (simp add: dense_ok_def sorted_iff_nth_mono)
    show "var_strs (Dense (overwrite (dense_start idx k) v d) idx) ! j = (var_strs (Dense d idx))[k := v] ! j"
    proof (cases "j = k")
      case True
      then show ?thesis using k sp(1) len by simp
    next
      case False
      consider "j < k" | "k < j" using False by linarith
      then have "dense_start idx j + (idx ! j - dense_start idx j) \<le> dense_start idx k \<or>
          dense_start idx k + length v \<le> dense_start idx j"
      proof cases
        case 1
        then have "idx ! j \<le> dense_start idx k" using mono [of j "k - 1"] k by (auto simp: dense_start_def)
        then show ?thesis using b(1) [OF jl] by simp
      next
        case 2
        then have "idx ! k \<le> dense_start idx j" using mono [of k "j - 1"] jl by (auto simp: dense_start_def)
        then show ?thesis using b(1) [OF k] len by simp
      qed
      then show ?thesis using False jl sp(3,4) by (auto)
    qed
  qed simp
qed

lemma update_str_spec:
  assumes inv: "schema_inv s" "row_inv s r" and w: "\<not> rdonly r" and c: "c < length (col_info s)"
    and ty: "col_type (col_info s ! c) = K_STR"
  shows "\<exists>r' calls. update_str v s c r = Inr (r', calls) \<and> row_inv s r' \<and> fixed_part r' = fixed_part r \<and>
    var_strs (var_part r') = (var_strs (var_part r))[place (col_info s ! c) := v]"
proof -
  let ?k = "place (col_info s ! c)" and ?ss = "var_strs (var_part r)"
  have k: "?k < length ?ss" using place_bounds [OF inv(1) c] ty length_var_strs [OF inv(2)] by simp
  note blob = row_get_blob_str [OF inv c ty]
  have run: "update_str v s c r = (if ?ss ! ?k = v then Inr (r, []) else
      let calls = reinsert (indexed (col_info s ! c)) r c in
                    (case var_part r of
                       Dense d idx \<Rightarrow>
                         (if length (?ss ! ?k) = length v
                          then Inr (r\<lparr>var_part := Dense (overwrite (dense_start idx ?k) v d) idx\<rparr>, calls)
                          else (case var_part (make_sparse s r) of
                                  Sparse ss \<Rightarrow> Inr (r\<lparr>var_part := Sparse (ss[?k := v])\<rparr>, calls)
                                | Dense _ _ \<Rightarrow> Inl BadPointer))
                     | Sparse ss \<Rightarrow> Inr (r\<lparr>var_part := Sparse (ss[?k := v])\<rparr>, calls)))"
    using w c ty blob by (simp add: update_str_def get_column_info_def)
  show ?thesis
  proof (cases "?ss ! ?k = v")
    case True
    then show ?thesis using run inv(2) by (auto simp: list_update_id)
  next
    case False
    show ?thesis
    proof (cases "var_part r")
      case (Sparse ss)
      then show ?thesis using run False inv(2) by (auto simp: Let_def row_inv_def)
    next
      case (Dense d idx)
      then have ok: "dense_ok d idx" "length idx = var_size_cols s" using inv(2) by (simp_all add: row_inv_def)
      show ?thesis
      proof (cases "length (?ss ! ?k) = length v")
        case True
        have kl: "?k < length idx" using k Dense by simp
        have len: "length v = idx ! ?k - dense_start idx ?k"
          using True Dense kl dense_slice_bounds [OF ok(1) kl] by simp
        show ?thesis
          using run False True Dense dense_overwrite [OF ok(1) kl len] inv(2) by (auto simp: Let_def row_inv_def)
      next
        case nl: False
        then show ?thesis
          using run False Dense make_sparse_strs [OF inv(2)] inv(2) length_var_strs [OF inv(2)]
          by (auto simp: Let_def row_inv_def)
      qed
    qed
  qed
qed

lemma place_str_inj:
  assumes inv: "schema_inv s" and "i < length (col_info s)" and "j < length (col_info s)" and "i \<noteq> j"
    and "col_type (col_info s ! i) = K_STR" and "col_type (col_info s ! j) = K_STR"
  shows "place (col_info s ! i) \<noteq> place (col_info s ! j)"
proof -
  have lt: "place (col_info s ! a) < place (col_info s ! b)"
    if "a < b" "b < length (col_info s)" "col_type (col_info s ! a) = K_STR" "col_type (col_info s ! b) = K_STR" for a b
  proof -
    have "nvar (take b (col_info s)) = nvar (take a (col_info s)) +
        ((if col_type (col_info s ! a) = K_STR then 1 else 0) + nvar (drop (Suc a) (take b (col_info s))))"
      using that by (subst take_split [of a b]) (simp_all add: nvar_def)
    then show ?thesis using that schema_inv_col(4) [OF inv] by auto
  qed
  show ?thesis using lt [of i j] lt [of j i] assms by (cases "i < j") auto
qed

lemma row_update_str_view:
  assumes inv: "schema_inv s" "row_inv s r" and w: "\<not> rdonly r" and c: "c < length (col_info s)"
    and ty: "col_type (col_info s ! c) = K_STR"
  shows "\<exists>r' calls. update_str v s c r = Inr (r', calls) \<and> row_inv s r' \<and>
    get_column s r' c = Inr (STRING v) \<and> (\<forall>j. j \<noteq> c \<longrightarrow> get_column s r' j = get_column s r j)"
proof -
  obtain r' calls where u: "update_str v s c r = Inr (r', calls)" "row_inv s r'" "fixed_part r' = fixed_part r"
    "var_strs (var_part r') = (var_strs (var_part r))[place (col_info s ! c) := v]"
    using update_str_spec [OF assms] by blast
  have k: "place (col_info s ! c) < length (var_strs (var_part r))"
    using place_bounds [OF inv(1) c] ty length_var_strs [OF inv(2)] by simp
  have "get_column s r' c = Inr (STRING v)"
    using get_column_str [OF inv(1) u(2) c ty] u(4) k by simp
  moreover have "get_column s r' j = get_column s r j" if "j \<noteq> c" for j
    by (rule get_column_cong [OF inv u(2)])
      (use u(3,4) place_str_inj [OF inv(1) c, of j] that ty in auto)
  ultimately show ?thesis using u(1,2) by blast
qed

lemma row_update_view:
  assumes "schema_inv s" and "row_inv s r" and "\<not> rdonly r" and "c < length (col_info s)"
    and "get_kind v = col_type (col_info s ! c)"
  shows "\<exists>r' calls. row_update s c v r = Inr (r', calls) \<and> row_inv s r' \<and>
    get_column s r' c = Inr v \<and> (\<forall>j. j \<noteq> c \<longrightarrow> get_column s r' j = get_column s r j)"
proof (cases v)
  case UNKNOWN
  then show ?thesis using assms(5) schema_inv_col(3) [OF assms(1,4)] by simp
next
  case (I32 w)
  then show ?thesis using update_num_spec [OF assms(1-4), of K_I32 "le_bytes 4 w"] assms(5)
    by (simp add: csize_def le_word_bytes)
next
  case (I64 w)
  then show ?thesis using update_num_spec [OF assms(1-4), of K_I64 "le_bytes 8 w"] assms(5)
    by (simp add: csize_def le_word_bytes)
next
  case (DOUBLE w)
  then show ?thesis using update_num_spec [OF assms(1-4), of K_DOUBLE "le_bytes 8 w"] assms(5)
    by (simp add: csize_def le_word_bytes)
next
  case (STRING str)
  then show ?thesis using row_update_str_view [OF assms(1-4), of str] assms(5) by simp
qed

text \<open>C22. Updating a column of a writable row with a value of the type of the column succeeds; the
  column then reads back as that value, every other column reads as before, and the row stays well
  formed, whether the update is in place, changes the form of the row, or changes nothing.\<close>

theorem row_update_correct:
  assumes "schema_inv s" and "row_inv s r" and "\<not> rdonly r" and "c < length (col_info s)"
    and "get_kind v = col_type (col_info s ! c)"
  shows "\<exists>r' calls. row_update s c v r = Inr (r', calls) \<and> row_inv s r' \<and>
    get_column s r' c = Inr v \<and> (\<forall>j. j \<noteq> c \<longrightarrow> get_column s r' j = get_column s r j)"
  by (rule row_update_view [OF assms])

definition demo_schema :: schema where
  "demo_schema = \<lparr>col_name_to_id = [(''bal'', 2), (''name'', 1), (''id'', 0)],
     col_info = [\<lparr>col_id = 0, col_name = ''id'', indexed = True, col_type = K_I32, place = 0\<rparr>,
                 \<lparr>col_id = 1, col_name = ''name'', indexed = False, col_type = K_STR, place = 0\<rparr>,
                 \<lparr>col_id = 2, col_name = ''bal'', indexed = False, col_type = K_I64, place = 4\<rparr>],
     key_cols_id = [0], var_size_cols = 1, fixed_part_size = 12, hidden_fixed = 0, hidden_var = 0, frozen = True\<rparr>"

definition demo_row :: row where
  "demo_row = \<lparr>fixed_part = le_bytes 4 (7 :: i32) @ le_bytes 8 (100 :: i64),
     var_part = Dense [97, 98] [2], rdonly = False, tbl = None\<rparr>"

lemma demo_inv: "schema_inv demo_schema" "row_inv demo_schema demo_row"
  by code_simp+

theorem row_update_correct_witness:
  "\<exists>r' calls. row_update demo_schema 1 (STRING [97, 98, 99]) demo_row = Inr (r', calls) \<and>
    get_column demo_schema r' 1 = Inr (STRING [97, 98, 99]) \<and> get_column demo_schema r' 2 = Inr (I64 100)"
proof -
  have "1 < length (col_info demo_schema)" "get_kind (STRING [97, 98, 99]) = col_type (col_info demo_schema ! 1)"
    "\<not> rdonly demo_row"
    by (simp_all add: demo_schema_def demo_row_def)
  moreover have "get_column demo_schema demo_row 2 = Inr (I64 100)" by code_simp
  ultimately show ?thesis using row_update_correct [OF demo_inv, of 1 "STRING [97, 98, 99]"] by force
qed

section \<open>Form and copy\<close>

lemma make_sparse_columns:
  assumes "schema_inv s" and "row_inv s r"
  shows "get_column s (make_sparse s r) c = get_column s r c"
  by (rule get_column_cong [OF assms make_sparse_strs(2) [OF assms(2)]])
    (simp_all add: make_sparse_strs [OF assms(2)])

text \<open>The strings a copy collects, in the order of the columns.\<close>

lemma collect_var_spec:
  assumes "schema_inv s" and "row_inv s r"
  shows "n \<le> length (col_info s) \<Longrightarrow>
    collect_var s r (take n (col_info s)) [] [] =
      Inr (concat (take (nvar (take n (col_info s))) (var_strs (var_part r))),
           map (\<lambda>k. length (concat (take (Suc k) (var_strs (var_part r))))) [0 ..< nvar (take n (col_info s))])"
proof (induction n)
  case 0
  then show ?case by (simp add: nvar_def)
next
  case (Suc n)
  let ?c = "col_info s" and ?ss = "var_strs (var_part r)"
  have snoc: "collect_var s r (cs @ [c]) d idx =
      rbind (collect_var s r cs d idx) (\<lambda>(d, idx). collect_var s r [c] d idx)" for cs c d idx
    by (induction cs arbitrary: d idx) (auto simp: rbind_def split: sum.splits)
  have n: "n < length ?c" using Suc.prems by simp
  have tk: "take (Suc n) ?c = take n ?c @ [?c ! n]" using n by (simp add: take_Suc_conv_app_nth)
  have id: "col_id (?c ! n) = n" using schema_inv_col(1) [OF assms(1) n] .
  show ?case
  proof (cases "col_type (?c ! n) = K_STR")
    case False
    then show ?thesis using Suc.IH n unfolding tk snoc by (simp add: nvar_def)
  next
    case True
    let ?k = "nvar (take n ?c)"
    have pl: "place (?c ! n) = ?k" using schema_inv_col(4) [OF assms(1) n] True by simp
    have k: "?k < length ?ss"
      using place_bounds [OF assms(1) n] True pl length_var_strs [OF assms(2)] by simp
    have "row_get_blob s r n = Inr (?ss ! ?k)" using row_get_blob_str [OF assms n True] pl by simp
    moreover have "take (Suc ?k) ?ss = take ?k ?ss @ [?ss ! ?k]" using k by (simp add: take_Suc_conv_app_nth)
    moreover have "nvar [?c ! n] = 1" using True by (simp add: nvar_def)
    ultimately show ?thesis using Suc.IH n True id unfolding tk snoc by simp
  qed
qed

lemma concat_slices:
  assumes "k < length ss"
  shows "take (length (concat (take (Suc k) ss)) - length (concat (take k ss))) (drop (length (concat (take k ss))) (concat ss)) = ss ! k"
proof -
  have "concat ss = concat (take k ss) @ ss ! k @ concat (drop (Suc k) ss)"
    using id_take_nth_drop [OF assms] by (metis concat.simps(2) concat_append)
  moreover have "length (concat (take (Suc k) ss)) - length (concat (take k ss)) = length (ss ! k)"
    using assms by (simp add: take_Suc_conv_app_nth)
  ultimately show ?thesis by simp
qed

lemma dense_of_strs:
  fixes ss :: "byte list list"
  defines "idx \<equiv> map (\<lambda>k. length (concat (take (Suc k) ss))) [0 ..< length ss]"
  shows "var_strs (Dense (concat ss) idx) = ss" and "dense_ok (concat ss) idx"
proof -
  have st: "dense_start idx k = length (concat (take k ss))" if "k < length ss" for k
    using that by (cases k) (auto simp: dense_start_def idx_def)
  show "var_strs (Dense (concat ss) idx) = ss"
  proof (rule nth_equalityI)
    fix k assume "k < length (var_strs (Dense (concat ss) idx))"
    then have k: "k < length ss" by (simp add: idx_def)
    then show "var_strs (Dense (concat ss) idx) ! k = ss ! k"
      using concat_slices [OF k] st [OF k] by (simp add: idx_def)
  qed (simp add: idx_def)
  have len: "length (concat (take a ss)) \<le> length (concat (take b ss))" if "a \<le> b" for a b
  proof -
    have "take b ss = take a ss @ take (b - a) (drop a ss)" using that by (metis le_add_diff_inverse take_add)
    then show ?thesis by simp
  qed
  have "length (concat (take k ss)) \<le> length (concat ss)" for k
    using len [of k "length ss + k"] by simp
  then show "dense_ok (concat ss) idx"
    using len by (auto simp: dense_ok_def idx_def sorted_iff_nth_mono list_all_iff)
qed

text \<open>A copy of a row of a schema without hidden string columns has the same columns, is
  writable and belongs to no table, and turning a row into its sparse form changes no column.\<close>

theorem row_copy_correct:
  assumes "schema_inv s" and "row_inv s r" and "nvar (visible_columns s) = var_size_cols s"
  shows "\<exists>r'. row_copy s r = Inr r' \<and> row_inv s r' \<and> \<not> rdonly r' \<and> tbl r' = None \<and>
    (\<forall>c. get_column s r' c = get_column s r c) \<and> (\<forall>c. get_column s (make_sparse s r) c = get_column s r c)"
proof -
  let ?ss = "var_strs (var_part r)"
  let ?idx = "map (\<lambda>k. length (concat (take (Suc k) ?ss))) [0 ..< length ?ss]"
  let ?r' = "\<lparr>fixed_part = fixed_part r, var_part = Dense (concat ?ss) ?idx, rdonly = False, tbl = None\<rparr>"
  have "collect_var s r (visible_columns s) [] [] = Inr (concat ?ss, ?idx)"
    using collect_var_spec [OF assms(1,2), of "columns_count s"] assms(3) length_var_strs [OF assms(2)]
    by (simp add: visible_columns_def columns_count_def)
  then have "row_copy s r = Inr ?r'" using assms(2) by (simp add: row_copy_def row_inv_def)
  moreover have inv: "row_inv s ?r'"
    using assms(2) dense_of_strs(2) [of ?ss] length_var_strs [OF assms(2)] by (simp add: row_inv_def)
  moreover have "get_column s ?r' c = get_column s r c" for c
    by (rule get_column_cong [OF assms(1,2) inv]) (simp_all add: dense_of_strs(1) del: var_strs.simps)
  ultimately show ?thesis using make_sparse_columns [OF assms(1,2)] by simp
qed

theorem row_copy_correct_witness:
  "\<exists>r'. row_copy demo_schema demo_row = Inr r' \<and> get_column demo_schema r' 1 = Inr (STRING [97, 98])"
proof -
  have "nvar (visible_columns demo_schema) = var_size_cols demo_schema" by code_simp
  moreover have "get_column demo_schema demo_row 1 = Inr (STRING [97, 98])" by code_simp
  ultimately show ?thesis using row_copy_correct [OF demo_inv] by force
qed

section \<open>Creation\<close>

text \<open>What a value contributes to the fixed part, and to the strings.\<close>

fun fbytes :: "mvalue \<Rightarrow> byte list" where
  "fbytes (I32 v) = le_bytes 4 v"
| "fbytes (I64 v) = le_bytes 8 v"
| "fbytes (DOUBLE v) = le_bytes 8 v"
| "fbytes _ = []"

fun sbytes :: "mvalue \<Rightarrow> byte list list" where
  "sbytes (STRING v) = [v]"
| "sbytes _ = []"

abbreviation fixed_of :: "mvalue list \<Rightarrow> byte list" where
  "fixed_of vs \<equiv> concat (map fbytes vs)"

abbreviation strs_of :: "mvalue list \<Rightarrow> byte list list" where
  "strs_of vs \<equiv> concat (map sbytes vs)"

lemma overwrite_end:
  "length bs \<le> m \<Longrightarrow> overwrite (length d) bs (d @ replicate m 0) = (d @ bs) @ replicate (m - length bs) 0"
  by (simp add: overwrite_def)

lemma fill_fixed_spec:
  assumes "UNKNOWN \<notin> set vs" and "length (fixed_of vs) \<le> m"
  shows "fill_fixed vs (d @ replicate m 0) (length d) vz =
    Inr (d @ fixed_of vs @ replicate (m - length (fixed_of vs)) 0, length d + length (fixed_of vs),
         vz + length (concat (strs_of vs)))"
  using assms
proof (induction vs arbitrary: d m vz)
  case (Cons v vs)
  have num: "fill_fixed vs (overwrite (length d) bs (d @ replicate m 0)) (length d + length bs) vz =
      Inr (d @ (bs @ fixed_of vs) @ replicate (m - length (bs @ fixed_of vs)) 0,
           length d + length (bs @ fixed_of vs), vz + length (concat (strs_of vs)))"
    if "length bs + length (fixed_of vs) \<le> m" for bs
    using Cons.IH [of "m - length bs" "d @ bs" vz] Cons.prems that by (simp add: overwrite_end)
  show ?case
  proof (cases v)
    case (I32 w)
    then show ?thesis using Cons.prems num [of "le_bytes 4 w"] by simp
  next
    case (I64 w)
    then show ?thesis using Cons.prems num [of "le_bytes 8 w"] by simp
  next
    case (DOUBLE w)
    then show ?thesis using Cons.prems num [of "le_bytes 8 w"] by simp
  qed (use Cons in auto)
qed simp

lemma skip_hidden_spec: "\<forall>c \<in> set cs. col_type c \<noteq> K_UNKNOWN \<Longrightarrow> skip_hidden cs pos = Inr (pos + fsize cs)"
proof (induction cs arbitrary: pos)
  case (Cons c cs)
  then show ?case by (cases "col_type c") (auto simp: fsize_def csize_def)
qed (simp add: fsize_def)

lemma fill_var_spec:
  "fill_var vs d idx = (d @ concat (strs_of vs),
     idx @ map (\<lambda>k. length d + length (concat (take (Suc k) (strs_of vs)))) [0 ..< length (strs_of vs)])"
proof (induction vs d idx rule: fill_var.induct)
  case (2 str vs d idx)
  let ?ss = "strs_of vs"
  have "map (\<lambda>k. length d + length (concat (take (Suc k) (str # ?ss)))) [0 ..< Suc (length ?ss)] =
      (length d + length str) # map (\<lambda>k. length (d @ str) + length (concat (take (Suc k) ?ss))) [0 ..< length ?ss]"
    by (simp add: upt_conv_Cons map_Suc_upt [symmetric] del: upt_Suc)
  then show ?case using 2 by simp
qed simp_all

lemma hidden_var_cols_none: "nvar cs = 0 \<Longrightarrow> hidden_var_cols cs idx = Inr idx"
  by (induction cs) (auto simp: nvar_def split: if_splits)

lemma kinds_layout:
  "map get_kind vs = map col_type cs \<Longrightarrow> UNKNOWN \<notin> set vs \<Longrightarrow>
    fsize cs = length (fixed_of vs) \<and> nvar cs = length (strs_of vs)"
proof (induction vs arbitrary: cs)
  case (Cons v vs)
  then obtain c cs' where c: "cs = c # cs'" "col_type c = get_kind v" "map get_kind vs = map col_type cs'"
    by (cases cs) auto
  with Cons.IH [of cs'] Cons.prems show ?case
    by (cases v) (auto simp: fsize_def nvar_def csize_def)
qed (auto simp: fsize_def nvar_def)

lemma decode_fbytes: "get_kind v \<noteq> K_STR \<Longrightarrow> v \<noteq> UNKNOWN \<Longrightarrow> decode (get_kind v) (fbytes v) = Inr v"
  by (cases v) (auto simp: le_word_bytes)

lemma nth_fixed_of:
  "i < length vs \<Longrightarrow> take (length (fbytes (vs ! i))) (drop (length (fixed_of (take i vs))) (fixed_of vs @ z)) = fbytes (vs ! i)"
proof -
  assume "i < length vs"
  then have "fixed_of vs = fixed_of (take i vs) @ fbytes (vs ! i) @ fixed_of (drop (Suc i) vs)"
    using id_take_nth_drop [of i vs] by (metis concat.simps(2) concat_append list.simps(9) map_append)
  then show ?thesis by (simp only: append.assoc append_eq_conv_conj take_append drop_append) simp
qed

lemma nth_strs_of:
  "i < length vs \<Longrightarrow> vs ! i = STRING w \<Longrightarrow> strs_of vs ! length (strs_of (take i vs)) = w"
proof -
  assume "i < length vs" "vs ! i = STRING w"
  then have "strs_of vs = strs_of (take i vs) @ w # strs_of (drop (Suc i) vs)"
    using id_take_nth_drop [of i vs] by (metis append.left_neutral append_Cons concat.simps(2) concat_append list.simps(9) map_append sbytes.simps(1))
  then show ?thesis by (metis nth_append_length)
qed

text \<open>Values of the types of the visible columns lie where the schema places the columns.\<close>

lemma vals_layout:
  assumes inv: "schema_inv s" and kinds: "map get_kind vals = map col_type (visible_columns s)"
  shows "length vals = columns_count s" "i < columns_count s \<Longrightarrow> get_kind (vals ! i) = col_type (col_info s ! i)" "UNKNOWN \<notin> set vals"
    "i \<le> columns_count s \<Longrightarrow> fsize (take i (col_info s)) = length (fixed_of (take i vals)) \<and> nvar (take i (col_info s)) = length (strs_of (take i vals))"
proof -
  let ?n = "columns_count s" and ?c = "col_info s"
  show len: "length vals = ?n" using arg_cong [OF kinds, of length] by (simp add: visible_columns_def columns_count_def)
  have n: "?n \<le> length ?c" by (simp add: columns_count_def)
  have kd: "get_kind (vals ! i) = col_type (?c ! i)" if "i < ?n" for i
    using arg_cong [OF kinds, of "\<lambda>xs. xs ! i"] that len n by (simp add: visible_columns_def)
  then show "i < ?n \<Longrightarrow> get_kind (vals ! i) = col_type (?c ! i)" .
  show unk: "UNKNOWN \<notin> set vals"
    using kd schema_inv_col(3) [OF inv] n len by (metis get_kind.simps(1) in_set_conv_nth less_le_trans)
  assume i: "i \<le> ?n"
  have "map get_kind (take i vals) = map col_type (take i ?c)"
    using arg_cong [OF kinds, of "take i"] i by (simp add: visible_columns_def take_map min_def)
  moreover have "UNKNOWN \<notin> set (take i vals)" using unk by (meson in_set_takeD)
  ultimately show "fsize (take i ?c) = length (fixed_of (take i vals)) \<and> nvar (take i ?c) = length (strs_of (take i vals))" by (rule kinds_layout)
qed

definition image_row :: "'a sch \<Rightarrow> mvalue list \<Rightarrow> row" where
  "image_row s vals = \<lparr>fixed_part = fixed_of vals @ replicate (fsize (drop (columns_count s) (col_info s))) 0,
     var_part = Dense (concat (strs_of vals)) (map (\<lambda>k. length (concat (take (Suc k) (strs_of vals)))) [0 ..< length (strs_of vals)]),
     rdonly = False, tbl = None\<rparr>"

lemma row_create_image:
  assumes inv: "schema_inv s" and kinds: "map get_kind vals = map col_type (visible_columns s)"
    and hid: "nvar (drop (columns_count s) (col_info s)) = 0"
  shows "row_create s vals = Inr (image_row s vals)" "row_inv s (image_row s vals)"
proof -
  let ?n = "columns_count s" and ?c = "col_info s" and ?ss = "strs_of vals"
  note V = vals_layout [OF inv kinds] and rest = schema_inv_rest [OF inv]
  have split: "?c = take ?n ?c @ drop ?n ?c" by simp
  have fs: "fixed_part_size s = length (fixed_of vals) + fsize (drop ?n ?c)"
    using rest(3) V(4) [of ?n] V(1) by (metis split fsize_append order_refl take_all)
  have nv: "var_size_cols s = length ?ss"
    using rest(4) V(4) [of ?n] V(1) hid by (metis split nvar_append order_refl take_all add.right_neutral)
  have ff: "fill_fixed vals (replicate (fixed_part_size s) 0) 0 0 =
      Inr (fixed_of vals @ replicate (fsize (drop ?n ?c)) 0, length (fixed_of vals), length (concat ?ss))"
    using fill_fixed_spec [OF V(3), of "fixed_part_size s" "[]" 0] fs by simp
  have sk: "skip_hidden (drop ?n ?c) pos = Inr (pos + fsize (drop ?n ?c))" for pos
    by (rule skip_hidden_spec) (use schema_inv_col(3) [OF inv] in \<open>auto simp: in_set_conv_nth\<close>)
  show "row_create s vals = Inr (image_row s vals)"
    using ff sk fs nv V(1) hidden_var_cols_none [OF hid] by (simp add: row_create_def image_row_def fill_var_spec)
  show "row_inv s (image_row s vals)" using fs nv dense_of_strs(2) [of ?ss] by (simp add: row_inv_def image_row_def)
qed

lemma image_row_column:
  assumes inv: "schema_inv s" and kinds: "map get_kind vals = map col_type (visible_columns s)" and rinv: "row_inv s (image_row s vals)"
    and c: "c < length vals"
  shows "get_column s (image_row s vals) c = Inr (vals ! c)"
proof -
  note V = vals_layout [OF inv kinds]
  have cn: "c < columns_count s" "c < length (col_info s)" using c V(1) by (auto simp: columns_count_def)
  note pl = schema_inv_col(4) [OF inv cn(2)]
  have nu: "vals ! c \<noteq> UNKNOWN" using V(3) c by (metis nth_mem)
  show ?thesis
  proof (cases "col_type (col_info s ! c) = K_STR")
    case True
    then obtain w where w: "vals ! c = STRING w" using V(2) [OF cn(1)] by (cases "vals ! c") auto
    have "var_strs (var_part (image_row s vals)) = strs_of vals" using dense_of_strs(1) [of "strs_of vals"] by (simp add: image_row_def)
    then show ?thesis
      using get_column_str [OF inv rinv cn(2) True] pl True V(4) [of c] cn nth_strs_of [OF c w] w by (simp del: var_strs.simps)
  next
    case False
    have cs: "csize (col_info s ! c) = length (fbytes (vals ! c))"
      using V(2) [OF cn(1)] nu by (cases "vals ! c") (auto simp: csize_def)
    have plc: "place (col_info s ! c) = length (fixed_of (take c vals))" using pl False V(4) [of c] cn by simp
    have "take (csize (col_info s ! c)) (drop (place (col_info s ! c)) (fixed_part (image_row s vals))) = fbytes (vals ! c)"
      unfolding cs plc by (simp only: image_row_def row.simps nth_fixed_of [OF c])
    with get_column_fixed [OF cn(2) False, of "image_row s vals"] V(2) [OF cn(1)] decode_fbytes [of "vals ! c"] nu False
    show ?thesis by simp
  qed
qed

lemma row_create_columns:
  assumes "schema_inv s" and "map get_kind vals = map col_type (visible_columns s)" and "nvar (drop (columns_count s) (col_info s)) = 0"
  shows "\<exists>r. row_create s vals = Inr r \<and> row_inv s r \<and> \<not> rdonly r \<and> tbl r = None \<and> (\<forall>c < length vals. get_column s r c = Inr (vals ! c))"
  using row_create_image [OF assms] image_row_column [OF assms(1,2)] by (intro exI [of _ "image_row s vals"]) (simp add: image_row_def)

text \<open>C23. Creating a row from values of the types of the visible columns (of a schema whose hidden
  columns are not strings) succeeds, the row is well formed, writable and in no table, and every
  column reads back as the value it was created with.\<close>

theorem row_create_roundtrip:
  assumes inv: "schema_inv s" and kinds: "map get_kind vals = map col_type (visible_columns s)"
    and hid: "nvar (drop (columns_count s) (col_info s)) = 0"
  shows "\<exists>r. row_create s vals = Inr r \<and> row_inv s r \<and> \<not> rdonly r \<and> tbl r = None \<and>
    (\<forall>c < length vals. get_column s r c = Inr (vals ! c))"
  by (rule row_create_columns [OF inv kinds hid])

theorem row_create_roundtrip_witness:
  "\<exists>r. row_create demo_schema [I32 7, STRING [97, 98], I64 100] = Inr r \<and>
    get_column demo_schema r 1 = Inr (STRING [97, 98]) \<and> get_column demo_schema r 2 = Inr (I64 100)"
proof -
  have "map get_kind [I32 7, STRING [97, 98], I64 100] = map col_type (visible_columns demo_schema)"
    "nvar (drop (columns_count demo_schema) (col_info demo_schema)) = 0" by code_simp+
  from row_create_roundtrip [OF demo_inv(1) this] show ?thesis by force
qed

end
