(* ===== verification/Mdb_Table.thy ===== *)
theory Mdb_Table
  imports Mdb_Row "HOL-Library.List_Lexorder"
begin

text \<open>
  Sorted and unsorted tables of the storage engine (\<^verbatim>\<open>memdb/table.h\<close>, \<^verbatim>\<open>table.cc\<close>): the comparison
  of multi-column keys on their bytes, the multimap of a table, its queries and cursors, and the
  removal of rows. Rows live in a heap with their reference count and schema; a table holds their
  addresses. The theory proves that the comparison of keys is the lexicographic comparison of the
  column values, that the queries return exactly the rows in the range asked for, in key order,
  and that every operation (an update of a key column included, which takes the row out and puts it
  back) keeps a table sorted by the current keys of its rows.
\<close>

section \<open>Keys\<close>

fun memcmp :: "byte list \<Rightarrow> byte list \<Rightarrow> int" where
  "memcmp (x # xs) (y # ys) = (if x < y then -1 else if y < x then 1 else memcmp xs ys)"
| "memcmp _ _ = 0"

text \<open>One column of \<^verbatim>\<open>SortedMultiKey::compare\<close>; a read behind a short blob is an error.\<close>

definition cmp_num :: "bool \<Rightarrow> bool \<Rightarrow> int" where
  "cmp_num lt gt = (if lt then -1 else if gt then 1 else 0)"

fun smk_col :: "kind \<Rightarrow> byte list \<Rightarrow> byte list \<Rightarrow> int res" where
  "smk_col K_I32 x y =
     (if length x < 4 \<or> length y < 4 then Inl OutOfRange
      else let mine = le_word (take 4 x) :: i32; other = le_word (take 4 y) :: i32
           in Inr (cmp_num (sint mine < sint other) (sint mine > sint other)))"
| "smk_col K_I64 x y =
     (if length x < 8 \<or> length y < 8 then Inl OutOfRange
      else let mine = le_word (take 8 x) :: i64; other = le_word (take 8 y) :: i64
           in Inr (cmp_num (sint mine < sint other) (sint mine > sint other)))"
| "smk_col K_DOUBLE x y =
     (if length x < 8 \<or> length y < 8 then Inl OutOfRange
      else let mine = le_word (take 8 x); other = le_word (take 8 y)
           in Inr (cmp_num (dbl_lt mine other) (dbl_lt other mine)))"
| "smk_col K_STR x y =
     (let n = min (length x) (length y); c = memcmp (take n x) (take n y)
      in Inr (if c \<noteq> 0 then c else cmp_num (length x < length y) (length x > length y)))"
| "smk_col K_UNKNOWN x y = Inl VerifyFailed"

fun smk_cols :: "'a sch \<Rightarrow> nat list \<Rightarrow> multi_blob \<Rightarrow> multi_blob \<Rightarrow> int res" where
  "smk_cols s [] xs ys = Inr 0"
| "smk_cols s (c # cs) (x # xs) (y # ys) =
     rbind (get_column_info s c)
       (\<lambda>info. verify (indexed info)
         (rbind (smk_col (col_type info) x y) (\<lambda>r. if r \<noteq> 0 then Inr r else smk_cols s cs xs ys)))"
| "smk_cols s (c # cs) _ _ = Inl OutOfRange"

definition smk_compare :: "'a sch \<Rightarrow> multi_blob \<Rightarrow> multi_blob \<Rightarrow> int res" where
  "smk_compare s x y = smk_cols s (key_cols_id s) x y"

definition new_smk :: "'a sch \<Rightarrow> multi_blob \<Rightarrow> multi_blob res" where
  "new_smk s mb = verify (length mb = length (key_cols_id s)) (Inr mb)"

definition smk_less :: "'a sch \<Rightarrow> multi_blob \<Rightarrow> multi_blob \<Rightarrow> bool res" where
  "smk_less s x y = rbind (smk_compare s x y) (\<lambda>c. Inr (c = -1))"

section \<open>The row heap\<close>

record cell =
  c_row :: row
  c_refs :: nat
  c_schema :: nat

type_synonym row_heap = "cell option list"

definition cell_at :: "row_heap \<Rightarrow> nat \<Rightarrow> cell res" where
  "cell_at h p = (if p < length h then (case h ! p of None \<Rightarrow> Inl BadPointer | Some c \<Rightarrow> Inr c) else Inl BadPointer)"

definition put_row :: "nat \<Rightarrow> row \<Rightarrow> row_heap \<Rightarrow> row_heap res" where
  "put_row p r h = rbind (cell_at h p) (\<lambda>c. Inr (h[p := Some (c\<lparr>c_row := r\<rparr>)]))"

text \<open>\<^verbatim>\<open>release\<close> drops a reference and frees the row with the last one.\<close>

definition release :: "nat \<Rightarrow> row_heap \<Rightarrow> row_heap res" where
  "release p h =
     rbind (cell_at h p)
       (\<lambda>c. verify (c_refs c > 0) (Inr (h[p := (if c_refs c = 1 then None else Some (c\<lparr>c_refs := c_refs c - 1\<rparr>))])))"

section \<open>Sorted tables\<close>

record table =
  t_id :: nat
  t_schema :: nat
  t_rows :: "(multi_blob \<times> nat) list"

type_synonym tstate = "row_heap \<times> table"

text \<open>The multimap bounds: how many entries, from the smallest on, satisfy a comparison.\<close>

fun scan :: "('e \<Rightarrow> bool res) \<Rightarrow> 'e list \<Rightarrow> nat res" where
  "scan p [] = Inr 0"
| "scan p (e # es) = rbind (p e) (\<lambda>b. if b then rbind (scan p es) (\<lambda>n. Inr (Suc n)) else Inr 0)"

definition st_lower :: "'a sch \<Rightarrow> multi_blob \<Rightarrow> (multi_blob \<times> nat) list \<Rightarrow> nat res" where
  "st_lower s k rows = scan (\<lambda>e. smk_less s (fst e) k) rows"

definition st_upper :: "'a sch \<Rightarrow> multi_blob \<Rightarrow> (multi_blob \<times> nat) list \<Rightarrow> nat res" where
  "st_upper s k rows = scan (\<lambda>e. rbind (smk_less s k (fst e)) (\<lambda>b. Inr (\<not> b))) rows"

definition st_insert :: "'a sch \<Rightarrow> nat \<Rightarrow> tstate \<Rightarrow> tstate res" where
  "st_insert s p = (\<lambda>(h, t).
     rbind (cell_at h p)
       (\<lambda>c. rbind (get_key s (c_row c))
         (\<lambda>mb. rbind (new_smk s mb)
           (\<lambda>k. verify (c_schema c = t_schema t)
             (rbind (set_table (Some (t_id t)) (c_row c))
               (\<lambda>r. rbind (put_row p r h)
                 (\<lambda>h'. rbind (st_upper s k (t_rows t))
                   (\<lambda>n. Inr (h', t\<lparr>t_rows := take n (t_rows t) @ (k, p) # drop n (t_rows t)\<rparr>)))))))))"

text \<open>Cursors: the positions of a range, the direction, and how many rows were delivered.\<close>

datatype order = ORD_ASC | ORD_DESC | ORD_ANY

record cursor =
  cur_begin :: nat
  cur_end :: nat
  cur_pos :: nat
  cur_reverse :: bool

definition mk_cursor :: "nat \<Rightarrow> nat \<Rightarrow> bool \<Rightarrow> cursor" where
  "mk_cursor lo hi backward = \<lparr>cur_begin = lo, cur_end = hi, cur_pos = 0, cur_reverse = backward\<rparr>"

definition cur_reset :: "cursor \<Rightarrow> cursor" where
  "cur_reset c = c\<lparr>cur_pos := 0\<rparr>"

definition cur_has_next :: "cursor \<Rightarrow> bool" where
  "cur_has_next c \<longleftrightarrow> cur_begin c + cur_pos c \<noteq> cur_end c"

definition cur_next :: "table \<Rightarrow> cursor \<Rightarrow> (nat \<times> cursor) res" where
  "cur_next t c =
     verify (cur_has_next c)
       (let i = (if cur_reverse c then cur_end c - 1 - cur_pos c else cur_begin c + cur_pos c)
        in if i < length (t_rows t) then Inr (snd (t_rows t ! i), c\<lparr>cur_pos := Suc (cur_pos c)\<rparr>) else Inl BadPointer)"

definition cur_count :: "cursor \<Rightarrow> nat" where
  "cur_count c = cur_end c - cur_begin c"

definition st_query :: "'a sch \<Rightarrow> multi_blob \<Rightarrow> table \<Rightarrow> cursor res" where
  "st_query s mb t =
     rbind (new_smk s mb)
       (\<lambda>k. rbind (st_lower s k (t_rows t)) (\<lambda>lo. rbind (st_upper s k (t_rows t)) (\<lambda>hi. Inr (mk_cursor lo hi False))))"

definition st_query_lt :: "'a sch \<Rightarrow> multi_blob \<Rightarrow> order \<Rightarrow> table \<Rightarrow> cursor res" where
  "st_query_lt s mb ord t =
     rbind (new_smk s mb) (\<lambda>k. rbind (st_lower s k (t_rows t)) (\<lambda>b. Inr (mk_cursor 0 b (ord = ORD_DESC))))"

definition st_query_gt :: "'a sch \<Rightarrow> multi_blob \<Rightarrow> order \<Rightarrow> table \<Rightarrow> cursor res" where
  "st_query_gt s mb ord t =
     rbind (new_smk s mb)
       (\<lambda>k. rbind (st_upper s k (t_rows t)) (\<lambda>b. Inr (mk_cursor b (length (t_rows t)) (ord = ORD_DESC))))"

definition st_query_in :: "'a sch \<Rightarrow> multi_blob \<Rightarrow> multi_blob \<Rightarrow> order \<Rightarrow> table \<Rightarrow> cursor res" where
  "st_query_in s lo hi ord t =
     rbind (new_smk s lo) (\<lambda>l. rbind (new_smk s hi) (\<lambda>h. rbind (smk_less s l h)
       (\<lambda>b. verify b
         (rbind (st_upper s l (t_rows t))
           (\<lambda>i. rbind (st_lower s h (t_rows t)) (\<lambda>j. Inr (mk_cursor i j (ord = ORD_DESC))))))))"

definition st_all :: "order \<Rightarrow> table \<Rightarrow> cursor" where
  "st_all ord t = mk_cursor 0 (length (t_rows t)) (ord = ORD_DESC)"

text \<open>Removal: the entry at a position; a range of positions; the rows with a key; one row.\<close>

definition st_remove_at :: "nat \<Rightarrow> bool \<Rightarrow> tstate \<Rightarrow> tstate res" where
  "st_remove_at i do_free = (\<lambda>(h, t).
     if i < length (t_rows t)
     then rbind (if do_free then release (snd (t_rows t ! i)) h else Inr h)
       (\<lambda>h'. Inr (h', t\<lparr>t_rows := take i (t_rows t) @ drop (Suc i) (t_rows t)\<rparr>))
     else Inr (h, t))"

fun st_remove_run :: "nat \<Rightarrow> nat \<Rightarrow> tstate \<Rightarrow> tstate res" where
  "st_remove_run i 0 st = Inr st"
| "st_remove_run i (Suc n) st = rbind (st_remove_at i True st) (st_remove_run i n)"

definition st_remove_key :: "'a sch \<Rightarrow> multi_blob \<Rightarrow> tstate \<Rightarrow> tstate res" where
  "st_remove_key s mb = (\<lambda>(h, t).
     rbind (st_query s mb t) (\<lambda>c. st_remove_run (cur_begin c) (cur_end c - cur_begin c) (h, t)))"

text \<open>A backward cursor leaves the forward iterators it is erased with unset.\<close>

definition st_remove_cursor :: "cursor \<Rightarrow> tstate \<Rightarrow> tstate res" where
  "st_remove_cursor c st =
     (if cur_reverse c then Inl BadPointer else st_remove_run (cur_begin c) (cur_end c - cur_begin c) st)"

fun find_row :: "nat \<Rightarrow> (multi_blob \<times> nat) list \<Rightarrow> nat \<Rightarrow> nat \<Rightarrow> nat option" where
  "find_row p rows i 0 = None"
| "find_row p rows i (Suc n) = (if snd (rows ! i) = p then Some i else find_row p rows (Suc i) n)"

definition st_remove_row :: "'a sch \<Rightarrow> nat \<Rightarrow> bool \<Rightarrow> tstate \<Rightarrow> tstate res" where
  "st_remove_row s p do_free = (\<lambda>(h, t).
     rbind (cell_at h p)
       (\<lambda>c. rbind (get_key s (c_row c))
         (\<lambda>mb. rbind (st_query s mb t)
           (\<lambda>cur. case find_row p (t_rows t) (cur_begin cur) (cur_end cur - cur_begin cur) of
              None \<Rightarrow> Inr (h, t)
            | Some i \<Rightarrow> rbind (set_table None (c_row c))
                (\<lambda>r. rbind (put_row p r h) (\<lambda>h'. st_remove_at i do_free (h', t)))))))"

fun release_all :: "nat list \<Rightarrow> row_heap \<Rightarrow> row_heap res" where
  "release_all [] h = Inr h"
| "release_all (p # ps) h = rbind (release p h) (release_all ps)"

definition st_clear :: "tstate \<Rightarrow> tstate res" where
  "st_clear = (\<lambda>(h, t). rbind (release_all (map snd (t_rows t)) h) (\<lambda>h'. Inr (h', t\<lparr>t_rows := []\<rparr>)))"

text \<open>The key of a table entry points into the bytes of its row. An update that makes a dense row
  sparse frees the buffer of the strings; the string columns of a key of the row then dangle, unless
  the row leaves and re-enters the table. The model reports the dangling key as an error at once.\<close>

fun is_dense :: "var_part \<Rightarrow> bool" where
  "is_dense (Dense d idx) = True"
| "is_dense (Sparse ss) = False"

definition str_key :: "'a sch \<Rightarrow> bool" where
  "str_key s \<longleftrightarrow> list_ex (\<lambda>c. c < length (col_info s) \<and> col_type (col_info s ! c) = K_STR) (key_cols_id s)"

definition key_dangles :: "'a sch \<Rightarrow> row \<Rightarrow> row \<Rightarrow> bool" where
  "key_dangles s r r' \<longleftrightarrow> tbl r \<noteq> None \<and> str_key s \<and> is_dense (var_part r) \<and> \<not> is_dense (var_part r')"

text \<open>\<^verbatim>\<open>Row::update\<close> of a row in the table: when the column is indexed the row leaves the table with
  its old key before the bytes change, and returns with its new key. The model covers a row of this
  table or of none.\<close>

definition st_update :: "'a sch \<Rightarrow> nat \<Rightarrow> nat \<Rightarrow> mvalue \<Rightarrow> tstate \<Rightarrow> tstate res" where
  "st_update s p col v = (\<lambda>(h, t).
     rbind (cell_at h p)
       (\<lambda>c. rbind (row_update s col v (c_row c))
         (\<lambda>(r', calls).
            if tbl (c_row c) \<notin> {None, Some (t_id t)} then Inl BadPointer
            else if RemoveRow \<in> set calls
            then rbind (st_remove_row s p False (h, t))
              (\<lambda>(h1, t1). rbind (cell_at h1 p)
                (\<lambda>c1. rbind (put_row p (r'\<lparr>tbl := tbl (c_row c1)\<rparr>) h1) (\<lambda>h2. st_insert s p (h2, t1))))
            else if key_dangles s (c_row c) r' then Inl BadPointer
            else rbind (put_row p r' h) (\<lambda>h'. Inr (h', t)))))"

section \<open>Unsorted tables\<close>

text \<open>An unordered multimap keeps equal keys together; the order of the groups is not specified, and
  the model keeps the order of their first insertion.\<close>

fun ut_add :: "multi_blob \<Rightarrow> nat \<Rightarrow> (multi_blob \<times> nat) list \<Rightarrow> (multi_blob \<times> nat) list" where
  "ut_add k p [] = [(k, p)]"
| "ut_add k p (e # es) =
     (if multi_blob_eq (fst e) k \<and> (\<forall>e' \<in> set es. \<not> multi_blob_eq (fst e') k) then e # (k, p) # es else e # ut_add k p es)"

definition ut_insert :: "'a sch \<Rightarrow> nat \<Rightarrow> tstate \<Rightarrow> tstate res" where
  "ut_insert s p = (\<lambda>(h, t).
     rbind (cell_at h p)
       (\<lambda>c. rbind (get_key s (c_row c))
         (\<lambda>k. verify (c_schema c = t_schema t)
           (rbind (set_table (Some (t_id t)) (c_row c))
             (\<lambda>r. rbind (put_row p r h) (\<lambda>h'. Inr (h', t\<lparr>t_rows := ut_add k p (t_rows t)\<rparr>)))))))"

definition ut_query :: "multi_blob \<Rightarrow> table \<Rightarrow> nat list" where
  "ut_query k t = map snd (filter (\<lambda>e. multi_blob_eq (fst e) k) (t_rows t))"

definition ut_all :: "table \<Rightarrow> nat list" where
  "ut_all t = map snd (t_rows t)"

definition ut_remove_key :: "multi_blob \<Rightarrow> tstate \<Rightarrow> tstate res" where
  "ut_remove_key k = (\<lambda>(h, t).
     rbind (release_all (ut_query k t) h)
       (\<lambda>h'. Inr (h', t\<lparr>t_rows := filter (\<lambda>e. \<not> multi_blob_eq (fst e) k) (t_rows t)\<rparr>)))"

fun ut_drop :: "multi_blob \<Rightarrow> nat \<Rightarrow> (multi_blob \<times> nat) list \<Rightarrow> (multi_blob \<times> nat) list" where
  "ut_drop k p [] = []"
| "ut_drop k p (e # es) = (if multi_blob_eq (fst e) k \<and> snd e = p then es else e # ut_drop k p es)"

definition ut_remove_row :: "'a sch \<Rightarrow> nat \<Rightarrow> bool \<Rightarrow> tstate \<Rightarrow> tstate res" where
  "ut_remove_row s p do_free = (\<lambda>(h, t).
     rbind (cell_at h p)
       (\<lambda>c. rbind (get_key s (c_row c))
         (\<lambda>k. if p \<in> set (ut_query k t)
              then rbind (set_table None (c_row c))
                (\<lambda>r. rbind (put_row p r h)
                  (\<lambda>h'. rbind (if do_free then release p h' else Inr h')
                    (\<lambda>h''. Inr (h'', t\<lparr>t_rows := ut_drop k p (t_rows t)\<rparr>))))
              else Inr (h, t))))"

text \<open>\<^verbatim>\<open>Row::update\<close> of a row in an unsorted table, as for a sorted one.\<close>

definition ut_update :: "'a sch \<Rightarrow> nat \<Rightarrow> nat \<Rightarrow> mvalue \<Rightarrow> tstate \<Rightarrow> tstate res" where
  "ut_update s p col v = (\<lambda>(h, t).
     rbind (cell_at h p)
       (\<lambda>c. rbind (row_update s col v (c_row c))
         (\<lambda>(r', calls).
            if tbl (c_row c) \<notin> {None, Some (t_id t)} then Inl BadPointer
            else if RemoveRow \<in> set calls
            then rbind (ut_remove_row s p False (h, t))
              (\<lambda>(h1, t1). rbind (cell_at h1 p)
                (\<lambda>c1. rbind (put_row p (r'\<lparr>tbl := tbl (c_row c1)\<rparr>) h1) (\<lambda>h2. ut_insert s p (h2, t1))))
            else if key_dangles s (c_row c) r' then Inl BadPointer
            else rbind (put_row p r' h) (\<lambda>h'. Inr (h', t)))))"

section \<open>The order of keys\<close>

text \<open>The rank of a key: one list of integers per column, so that the lexicographic order of ranks is
  the order of the values. A good key has blobs of the sizes of its columns and no NaN.\<close>

fun rank_blob :: "kind \<Rightarrow> byte list \<Rightarrow> int list" where
  "rank_blob K_I32 b = [sint (le_word (take 4 b) :: i32)]"
| "rank_blob K_I64 b = [sint (le_word (take 8 b) :: i64)]"
| "rank_blob K_DOUBLE b = [dbl_key (le_word (take 8 b))]"
| "rank_blob K_STR b = map uint b"
| "rank_blob K_UNKNOWN b = []"

fun good_blob :: "kind \<Rightarrow> byte list \<Rightarrow> bool" where
  "good_blob K_I32 b \<longleftrightarrow> length b = 4"
| "good_blob K_I64 b \<longleftrightarrow> length b = 8"
| "good_blob K_DOUBLE b \<longleftrightarrow> length b = 8 \<and> \<not> dbl_nan (le_word b)"
| "good_blob K_STR b \<longleftrightarrow> True"
| "good_blob K_UNKNOWN b \<longleftrightarrow> False"

definition col_kind :: "'a sch \<Rightarrow> nat \<Rightarrow> kind" where
  "col_kind s c = col_type (col_info s ! c)"

definition rank_key :: "'a sch \<Rightarrow> multi_blob \<Rightarrow> int list list" where
  "rank_key s mb = map (\<lambda>(c, b). rank_blob (col_kind s c) b) (zip (key_cols_id s) mb)"

definition good_key :: "'a sch \<Rightarrow> multi_blob \<Rightarrow> bool" where
  "good_key s mb \<longleftrightarrow> length mb = length (key_cols_id s) \<and> list_all2 (\<lambda>c b. good_blob (col_kind s c) b) (key_cols_id s) mb"

definition cmp :: "'a::linorder \<Rightarrow> 'a \<Rightarrow> int" where
  "cmp x y = cmp_num (x < y) (y < x)"

lemma cmp_list: "cmp (x # xs) (y # ys) = (if cmp x y \<noteq> 0 then cmp x y else cmp xs (ys :: 'a::linorder list))"
  by (auto simp: cmp_def cmp_num_def)

lemma cmp_single [simp]: "cmp [x] [y] = cmp x (y :: 'a::linorder)"
  by (auto simp: cmp_def cmp_num_def)

lemma uint_less: "uint a < uint b \<longleftrightarrow> a < (b :: byte)"
  by (simp add: word_less_def)

lemma nil_less_map: "[] < map uint xs \<longleftrightarrow> xs \<noteq> []"
  by (cases xs) simp_all

lemma memcmp_cmp:
  "(let n = min (length x) (length y); c = memcmp (take n x) (take n y)
    in if c \<noteq> 0 then c else cmp_num (length x < length y) (length x > length y)) = cmp (map uint x) (map uint y)"
proof (induction x y rule: memcmp.induct)
  case (1 a xs b ys)
  then show ?case
    by (auto simp: cmp_list [of "uint a" "map uint xs"] cmp_def [of "uint a"] uint_less cmp_num_def Let_def)
qed (auto simp: cmp_def cmp_num_def Let_def nil_less_map)

lemma smk_col_rank: "good_blob k x \<Longrightarrow> good_blob k y \<Longrightarrow> smk_col k x y = Inr (cmp (rank_blob k x) (rank_blob k y))"
proof (cases k)
  case K_STR
  then show ?thesis using memcmp_cmp [of x y] by (simp add: Let_def)
qed (auto simp: Let_def cmp_def dbl_lt_def)

lemma smk_cols_rank:
  assumes "\<forall>c \<in> set cs. c < length (col_info s) \<and> indexed (col_info s ! c)"
  shows "list_all2 (\<lambda>c b. good_blob (col_kind s c) b) cs xs \<Longrightarrow> list_all2 (\<lambda>c b. good_blob (col_kind s c) b) cs ys \<Longrightarrow>
    smk_cols s cs xs ys = Inr (cmp (map (\<lambda>(c, b). rank_blob (col_kind s c) b) (zip cs xs))
      (map (\<lambda>(c, b). rank_blob (col_kind s c) b) (zip cs ys)))"
  using assms
proof (induction cs arbitrary: xs ys)
  case Nil
  then show ?case by (simp add: cmp_def cmp_num_def)
next
  case (Cons c cs)
  then obtain x xs' y ys' where xy: "xs = x # xs'" "ys = y # ys'" by (auto simp: list_all2_Cons1)
  then show ?case
    using Cons by (simp add: get_column_info_def smk_col_rank [of "col_kind s c", unfolded col_kind_def] cmp_list col_kind_def)
qed

lemma smk_compare_rank:
  "schema_inv s \<Longrightarrow> good_key s x \<Longrightarrow> good_key s y \<Longrightarrow> smk_compare s x y = Inr (cmp (rank_key s x) (rank_key s y))"
  using smk_cols_rank [of "key_cols_id s" s x y] schema_inv_rest(5) [of s]
  by (simp add: smk_compare_def good_key_def rank_key_def list_all_iff)

lemma smk_less_rank:
  "schema_inv s \<Longrightarrow> good_key s x \<Longrightarrow> good_key s y \<Longrightarrow> smk_less s x y = Inr (rank_key s x < rank_key s y)"
  by (auto simp: smk_less_def smk_compare_rank cmp_def cmp_num_def)

text \<open>The reference: compare the values of the key columns one after the other.\<close>

fun lex_compare :: "mvalue list \<Rightarrow> mvalue list \<Rightarrow> int res" where
  "lex_compare [] [] = Inr 0"
| "lex_compare (v # vs) (w # ws) = rbind (compare_value v w) (\<lambda>r. if r \<noteq> 0 then Inr r else lex_compare vs ws)"
| "lex_compare _ _ = Inl OutOfRange"

definition dec :: "kind \<Rightarrow> byte list \<Rightarrow> mvalue" where
  "dec k b = (case decode k b of Inl _ \<Rightarrow> UNKNOWN | Inr v \<Rightarrow> v)"

definition decode_key :: "'a sch \<Rightarrow> multi_blob \<Rightarrow> mvalue list" where
  "decode_key s mb = map (\<lambda>(c, b). dec (col_kind s c) b) (zip (key_cols_id s) mb)"

lemma bytes_lt_rank: "bytes_lt x y \<longleftrightarrow> map uint x < map uint y"
  by (induction x y rule: bytes_lt.induct) (auto simp: uint_less word_uint_eq_iff)

lemma map_uint_inj: "map uint x = map uint y \<longleftrightarrow> x = (y :: byte list)"
  by (rule inj_map_eq_map) (simp add: inj_def word_uint_eq_iff)

lemma smk_col_value: "good_blob k x \<Longrightarrow> good_blob k y \<Longrightarrow> smk_col k x y = compare_value (dec k x) (dec k y)"
proof (cases k)
  case K_STR
  then show ?thesis using smk_col_rank [of k x y] map_uint_inj [of x y]
    by (auto simp: dec_def cmp_def cmp_num_def three_way_def bytes_lt_rank simp del: smk_col.simps)
qed (auto simp: dec_def Let_def cmp_num_def three_way_def dbl_lt_def dbl_eq_def sint_inj [symmetric] simp del: signed_eq_0_iff)

lemma smk_cols_value:
  assumes "\<forall>c \<in> set cs. c < length (col_info s) \<and> indexed (col_info s ! c)"
  shows "list_all2 (\<lambda>c b. good_blob (col_kind s c) b) cs xs \<Longrightarrow> list_all2 (\<lambda>c b. good_blob (col_kind s c) b) cs ys \<Longrightarrow>
    smk_cols s cs xs ys = lex_compare (map (\<lambda>(c, b). dec (col_kind s c) b) (zip cs xs)) (map (\<lambda>(c, b). dec (col_kind s c) b) (zip cs ys))"
  using assms
proof (induction cs arbitrary: xs ys)
  case (Cons c cs)
  then obtain x xs' y ys' where xy: "xs = x # xs'" "ys = y # ys'" by (auto simp: list_all2_Cons1)
  have "smk_cols s cs xs' ys' = lex_compare (map (\<lambda>(c, b). dec (col_kind s c) b) (zip cs xs')) (map (\<lambda>(c, b). dec (col_kind s c) b) (zip cs ys'))"
    using Cons xy by auto
  moreover have "smk_col (col_kind s c) x y = compare_value (dec (col_kind s c) x) (dec (col_kind s c) y)"
    using Cons.prems xy by (intro smk_col_value) simp_all
  ultimately show ?case using Cons.prems xy by (simp add: get_column_info_def col_kind_def cong: if_cong)
qed simp

text \<open>C30. On keys with blobs of the sizes of their columns and without NaN, the byte-level comparison
  of multi-column keys is the lexicographic comparison of the column values with
  \<^verbatim>\<open>Value::compare\<close>.\<close>

theorem key_compare_lex:
  assumes "schema_inv s" and "good_key s x" and "good_key s y"
  shows "smk_compare s x y = lex_compare (decode_key s x) (decode_key s y)"
  using smk_cols_value [of "key_cols_id s" s x y] schema_inv_rest(5) [OF assms(1)] assms(2,3)
  by (simp add: smk_compare_def good_key_def decode_key_def list_all_iff)

theorem key_compare_lex_witness:
  "smk_compare demo_schema [[255, 255, 255, 255]] [[0, 0, 0, 0]] = lex_compare [I32 (-1)] [I32 0] \<and>
    lex_compare [I32 (-1)] [I32 0] = Inr (-1)"
proof -
  have "good_key demo_schema [[255, 255, 255, 255]]" "good_key demo_schema [[0, 0, 0, 0]]"
    "decode_key demo_schema [[255, 255, 255, 255]] = [I32 (-1)]" "decode_key demo_schema [[0, 0, 0, 0]] = [I32 0]"
    "lex_compare [I32 (-1)] [I32 0] = Inr (-1)"
    by code_simp+
  then show ?thesis using key_compare_lex [OF demo_inv(1), of "[[255, 255, 255, 255]]" "[[0, 0, 0, 0]]"] by simp
qed

section \<open>The invariant of a sorted table\<close>

definition entry_ok :: "'a sch \<Rightarrow> row_heap \<Rightarrow> table \<Rightarrow> multi_blob \<times> nat \<Rightarrow> bool" where
  "entry_ok s h t e \<longleftrightarrow> good_key s (fst e) \<and>
     (case cell_at h (snd e) of
        Inl _ \<Rightarrow> False
      | Inr c \<Rightarrow> row_inv s (c_row c) \<and> 0 < c_refs c \<and> c_schema c = t_schema t \<and> tbl (c_row c) = Some (t_id t) \<and>
                 get_key s (c_row c) = Inr (fst e))"

definition krank :: "'a sch \<Rightarrow> multi_blob \<times> nat \<Rightarrow> int list list" where
  "krank s e = rank_key s (fst e)"

definition table_inv :: "'a sch \<Rightarrow> tstate \<Rightarrow> bool" where
  "table_inv s st \<longleftrightarrow> (case st of (h, t) \<Rightarrow>
     (\<forall>e \<in> set (t_rows t). entry_ok s h t e) \<and> sorted (map (krank s) (t_rows t)) \<and> distinct (map snd (t_rows t)))"

lemma table_invD:
  assumes "table_inv s (h, t)"
  shows "\<And>e. e \<in> set (t_rows t) \<Longrightarrow> entry_ok s h t e" "sorted (map (krank s) (t_rows t))" "distinct (map snd (t_rows t))"
    "\<And>e. e \<in> set (t_rows t) \<Longrightarrow> good_key s (fst e)"
  using assms by (auto simp: table_inv_def entry_ok_def)

lemma scan_takeWhile: "(\<And>e. e \<in> set es \<Longrightarrow> p e = Inr (q e)) \<Longrightarrow> scan p es = Inr (length (takeWhile q es))"
  by (induction es) auto

lemma st_bounds:
  assumes "schema_inv s" and "good_key s k" and "\<And>e. e \<in> set rows \<Longrightarrow> good_key s (fst e)"
  shows "st_lower s k rows = Inr (length (takeWhile (\<lambda>e. krank s e < rank_key s k) rows))"
    and "st_upper s k rows = Inr (length (takeWhile (\<lambda>e. krank s e \<le> rank_key s k) rows))"
  unfolding st_lower_def st_upper_def
  using assms by (auto intro!: scan_takeWhile simp: smk_less_rank krank_def not_less)

lemma new_smk_good: "good_key s k \<Longrightarrow> new_smk s k = Inr k"
  by (simp add: new_smk_def good_key_def)

section \<open>Cursors and queries\<close>

definition range_rows :: "table \<Rightarrow> nat \<Rightarrow> nat \<Rightarrow> nat list" where
  "range_rows t lo hi = map snd (take (hi - lo) (drop lo (t_rows t)))"

text \<open>Reading a cursor to its end.\<close>

fun cur_drain :: "nat \<Rightarrow> table \<Rightarrow> cursor \<Rightarrow> nat list res" where
  "cur_drain 0 t c = Inl OutOfFuel"
| "cur_drain (Suc n) t c =
     (if cur_has_next c then rbind (cur_next t c) (\<lambda>(p, c'). rbind (cur_drain n t c') (\<lambda>ps. Inr (p # ps))) else Inr [])"

lemma cur_next_spec:
  assumes "cur_end c \<le> length (t_rows t)" and "cur_pos c < cur_end c - cur_begin c"
  shows "cur_next t c = Inr ((if cur_reverse c then rev (range_rows t (cur_begin c) (cur_end c))
    else range_rows t (cur_begin c) (cur_end c)) ! cur_pos c, c\<lparr>cur_pos := Suc (cur_pos c)\<rparr>)"
proof -
  let ?xs = "if cur_reverse c then rev (range_rows t (cur_begin c) (cur_end c)) else range_rows t (cur_begin c) (cur_end c)"
  let ?i = "if cur_reverse c then cur_end c - 1 - cur_pos c else cur_begin c + cur_pos c"
  have len: "length (range_rows t (cur_begin c) (cur_end c)) = cur_end c - cur_begin c" using assms by (simp add: range_rows_def)
  have i: "?i < length (t_rows t)" using assms by auto
  have "snd (t_rows t ! ?i) = ?xs ! cur_pos c" using assms len by (auto simp: range_rows_def rev_nth add.commute)
  then show ?thesis using i assms by (auto simp: cur_next_def cur_has_next_def Let_def split: if_splits)
qed

lemma cur_drain_from:
  assumes "lo \<le> hi" and "hi \<le> length (t_rows t)"
  shows "cur_begin c = lo \<Longrightarrow> cur_end c = hi \<Longrightarrow> cur_pos c \<le> hi - lo \<Longrightarrow> hi - lo - cur_pos c < n \<Longrightarrow>
    cur_drain n t c = Inr (drop (cur_pos c) (if cur_reverse c then rev (range_rows t lo hi) else range_rows t lo hi))"
proof (induction n arbitrary: c)
  case (Suc n)
  let ?xs = "if cur_reverse c then rev (range_rows t lo hi) else range_rows t lo hi"
  have len: "length (range_rows t lo hi) = hi - lo" using assms by (simp add: range_rows_def)
  show ?case
  proof (cases "cur_pos c = hi - lo")
    case True
    then show ?thesis using Suc.prems assms len by (simp add: cur_has_next_def)
  next
    case False
    let ?c' = "c\<lparr>cur_pos := Suc (cur_pos c)\<rparr>"
    have pos: "cur_pos c < hi - lo" using False Suc.prems by simp
    have "drop (cur_pos c) ?xs = ?xs ! cur_pos c # drop (Suc (cur_pos c)) ?xs"
      using pos len by (intro Cons_nth_drop_Suc [symmetric]) simp
    moreover have "cur_drain n t ?c' = Inr (drop (Suc (cur_pos c)) ?xs)" using Suc.IH [of ?c'] Suc.prems pos by simp
    moreover have "cur_next t c = Inr (?xs ! cur_pos c, ?c')" using cur_next_spec [of c t] pos Suc.prems assms(2) by simp
    ultimately show ?thesis using pos Suc.prems by (simp add: cur_has_next_def)
  qed
qed simp

lemma cur_drain_range:
  assumes "lo \<le> hi" and "hi \<le> length (t_rows t)"
  shows "cur_drain (Suc (length (t_rows t))) t (mk_cursor lo hi b) =
    Inr (if b then rev (range_rows t lo hi) else range_rows t lo hi)"
  using cur_drain_from [OF assms, of "mk_cursor lo hi b" "Suc (length (t_rows t))"] assms
  by (simp add: mk_cursor_def del: cur_drain.simps)

definition rows_where :: "'a sch \<Rightarrow> table \<Rightarrow> (int list list \<Rightarrow> bool) \<Rightarrow> nat list" where
  "rows_where s t P = map snd (filter (\<lambda>e. P (krank s e)) (t_rows t))"

definition directed :: "order \<Rightarrow> 'b list \<Rightarrow> 'b list" where
  "directed ord xs = (if ord = ORD_DESC then rev xs else xs)"

definition drained :: "table \<Rightarrow> cursor res \<Rightarrow> nat list res" where
  "drained t r = rbind r (cur_drain (Suc (length (t_rows t))) t)"

lemma length_takeWhile_mono:
  "(\<And>e. Q e \<Longrightarrow> P e) \<Longrightarrow> length (takeWhile Q d) \<le> length (takeWhile P d)"
  by (induction d) auto

text \<open>What a cursor holds in its range, and what reading it to its end delivers.\<close>

definition delivers :: "table \<Rightarrow> cursor res \<Rightarrow> order \<Rightarrow> nat list \<Rightarrow> bool" where
  "delivers t q ord ps \<longleftrightarrow> (\<exists>lo hi. q = Inr (mk_cursor lo hi (ord = ORD_DESC)) \<and> lo \<le> hi \<and> hi \<le> length (t_rows t) \<and> ps = range_rows t lo hi)"

lemma delivers_mk: "lo \<le> hi \<Longrightarrow> hi \<le> length (t_rows t) \<Longrightarrow> delivers t (Inr (mk_cursor lo hi (ord = ORD_DESC))) ord (range_rows t lo hi)"
  unfolding delivers_def by blast

lemma delivers_drained: "delivers t q ord ps \<Longrightarrow> drained t q = Inr (directed ord ps)"
  using cur_drain_range [of _ _ t "ord = ORD_DESC"] unfolding delivers_def drained_def directed_def
  by (elim exE conjE) (simp only: rbind_simps)

lemma delivers_between:
  assumes inv: "table_inv s (h, t)" and "\<forall>a b. a \<le> b \<longrightarrow> P b \<longrightarrow> P a" and "\<forall>a b. a \<le> b \<longrightarrow> Q b \<longrightarrow> Q a" and QP: "\<forall>a. Q a \<longrightarrow> P a"
  shows "delivers t (Inr (mk_cursor (length (takeWhile (\<lambda>e. Q (krank s e)) (t_rows t)))
      (length (takeWhile (\<lambda>e. P (krank s e)) (t_rows t))) (ord = ORD_DESC))) ord (rows_where s t (\<lambda>x. P x \<and> \<not> Q x))"
proof -
  let ?lo = "length (takeWhile (\<lambda>e. Q (krank s e)) (t_rows t))" and ?hi = "length (takeWhile (\<lambda>e. P (krank s e)) (t_rows t))"
  have "?lo \<le> ?hi" using QP by (intro length_takeWhile_mono) simp
  moreover have "?hi \<le> length (t_rows t)" by (rule length_takeWhile_le)
  moreover have "range_rows t ?lo ?hi = rows_where s t (\<lambda>x. P x \<and> \<not> Q x)"
    using range_between [OF assms(2,3,4) table_invD(2) [OF inv]] by (simp add: range_rows_def rows_where_def)
  ultimately show ?thesis using delivers_mk [of ?lo ?hi t ord] by (simp only:)
qed

lemma le_down: "\<forall>a b. a \<le> b \<longrightarrow> b \<le> k \<longrightarrow> a \<le> (k :: 'k::linorder)" "\<forall>a b. a \<le> b \<longrightarrow> b < k \<longrightarrow> a < k"
  by auto

lemma takeWhile_trivial: "length (takeWhile (\<lambda>e. False) xs) = 0" "length (takeWhile (\<lambda>e. True) xs) = length xs"
  by (induction xs) auto

text \<open>A table with one row, and a heap with a second row outside of the table.\<close>

definition demo_heap :: row_heap where
  "demo_heap = [Some \<lparr>c_row = demo_row\<lparr>tbl := Some 5\<rparr>, c_refs = 1, c_schema = 9\<rparr>,
     Some \<lparr>c_row = demo_row\<lparr>fixed_part := le_bytes 4 (3 :: i32) @ le_bytes 8 (50 :: i64)\<rparr>, c_refs = 1, c_schema = 9\<rparr>]"

definition demo_table :: table where
  "demo_table = \<lparr>t_id = 5, t_schema = 9, t_rows = [(([7, 0, 0, 0] :: byte list) # [], 0)]\<rparr>"

lemma demo_table_inv: "table_inv demo_schema (demo_heap, demo_table)"
  by code_simp

lemma table_cursors:
  assumes "schema_inv s" and "table_inv s (h, t)" and "good_key s k" and "good_key s k'"
  shows "delivers t (st_query s k t) ORD_ANY (rows_where s t (\<lambda>x. x = rank_key s k))"
    and "delivers t (st_query_lt s k ord t) ord (rows_where s t (\<lambda>x. x < rank_key s k))"
    and "delivers t (st_query_gt s k ord t) ord (rows_where s t (\<lambda>x. rank_key s k < x))"
    and "if rank_key s k < rank_key s k'
      then delivers t (st_query_in s k k' ord t) ord (rows_where s t (\<lambda>x. rank_key s k < x \<and> x < rank_key s k'))
      else st_query_in s k k' ord t = Inl VerifyFailed"
    and "delivers t (Inr (st_all ord t)) ord (map snd (t_rows t))"
proof -
  let ?k = "rank_key s k" and ?k' = "rank_key s k'"
  note lo = st_bounds [OF assms(1,3) table_invD(4) [OF assms(2)]] and hi = st_bounds [OF assms(1,4) table_invD(4) [OF assms(2)]]
  note smk = new_smk_good [OF assms(3)] new_smk_good [OF assms(4)]
  note between = delivers_between [OF assms(2)]
  have eq: "(\<lambda>x. x \<le> ?k \<and> \<not> x < ?k) = (\<lambda>x. x = ?k)" by auto
  show "delivers t (st_query s k t) ORD_ANY (rows_where s t (\<lambda>x. x = ?k))"
    using between [of "\<lambda>x. x \<le> ?k" "\<lambda>x. x < ?k" ORD_ANY] le_down [of ?k]
    by (simp add: st_query_def smk lo eq less_imp_le del: not_less)
  show "delivers t (st_query_lt s k ord t) ord (rows_where s t (\<lambda>x. x < ?k))"
    using between [of "\<lambda>x. x < ?k" "\<lambda>x. False" ord] le_down [of ?k]
    by (simp add: st_query_lt_def smk lo takeWhile_trivial del: takeWhile_eq_Nil_iff)
  show "delivers t (st_query_gt s k ord t) ord (rows_where s t (\<lambda>x. ?k < x))"
    using between [of "\<lambda>x. True" "\<lambda>x. x \<le> ?k" ord] le_down [of ?k]
    by (simp add: st_query_gt_def smk lo takeWhile_trivial not_le)
  show "if ?k < ?k' then delivers t (st_query_in s k k' ord t) ord (rows_where s t (\<lambda>x. ?k < x \<and> x < ?k'))
      else st_query_in s k k' ord t = Inl VerifyFailed"
  proof (cases "?k < ?k'")
    case True
    then have "\<forall>a. a \<le> ?k \<longrightarrow> a < ?k'" by auto
    then show ?thesis using between [of "\<lambda>x. x < ?k'" "\<lambda>x. x \<le> ?k" ord] le_down [of ?k] le_down [of ?k'] True
      by (simp add: st_query_in_def smk lo hi smk_less_rank [OF assms(1,3,4)] not_le conj_commute)
  qed (simp add: st_query_in_def smk smk_less_rank [OF assms(1,3,4)])
  show "delivers t (Inr (st_all ord t)) ord (map snd (t_rows t))"
    using between [of "\<lambda>x. True" "\<lambda>x. False" ord]
    by (simp add: st_all_def takeWhile_trivial rows_where_def del: takeWhile_eq_Nil_iff)
qed

text \<open>C25. The queries of a sorted table with good keys succeed, and the cursor they return delivers
  exactly the rows whose key is equal to, below, above or strictly between the given keys, in key
  order, or in reverse when the caller asks for descending order.\<close>

theorem table_queries:
  assumes "schema_inv s" and "table_inv s (h, t)" and "good_key s k" and "good_key s k'"
  shows "drained t (st_query s k t) = Inr (rows_where s t (\<lambda>x. x = rank_key s k)) \<and>
    drained t (st_query_lt s k ord t) = Inr (directed ord (rows_where s t (\<lambda>x. x < rank_key s k))) \<and>
    drained t (st_query_gt s k ord t) = Inr (directed ord (rows_where s t (\<lambda>x. rank_key s k < x))) \<and>
    drained t (st_query_in s k k' ord t) =
      (if rank_key s k < rank_key s k'
       then Inr (directed ord (rows_where s t (\<lambda>x. rank_key s k < x \<and> x < rank_key s k'))) else Inl VerifyFailed) \<and>
    drained t (Inr (st_all ord t)) = Inr (directed ord (map snd (t_rows t)))"
proof -
  note q = table_cursors [OF assms]
  show ?thesis
    using q(1,2,3,5) [THEN delivers_drained] q(4) [of ord] delivers_drained [of t "st_query_in s k k' ord t" ord]
    by (auto simp: directed_def drained_def split: if_splits)
qed

theorem table_queries_witness:
  "drained demo_table (st_query_lt demo_schema [[9, 0, 0, 0]] ORD_DESC demo_table) = Inr [0] \<and>
   drained demo_table (st_query demo_schema [[9, 0, 0, 0]] demo_table) = Inr []"
proof -
  have k: "good_key demo_schema [[9, 0, 0, 0]]" by code_simp
  have w: "directed ORD_DESC (rows_where demo_schema demo_table (\<lambda>x. x < rank_key demo_schema [[9, 0, 0, 0]])) = [0]"
    "rows_where demo_schema demo_table (\<lambda>x. x = rank_key demo_schema [[9, 0, 0, 0]]) = []"
    by code_simp+
  show ?thesis using table_queries [OF demo_inv(1) demo_table_inv k k, of ORD_DESC] w by simp
qed

section \<open>Insertion and removal\<close>

lemma cell_at_Inr: "cell_at h p = Inr c \<longleftrightarrow> p < length h \<and> h ! p = Some c"
  by (auto simp: cell_at_def split: option.splits)

lemma cell_at_upd:
  "p < length h \<Longrightarrow> cell_at (h[p := x]) q = (if q = p then (case x of None \<Rightarrow> Inl BadPointer | Some c \<Rightarrow> Inr c) else cell_at h q)"
  by (auto simp: cell_at_def)

lemma entry_ok_frame: "cell_at h' (snd e) = cell_at h (snd e) \<Longrightarrow> t_schema t' = t_schema t \<Longrightarrow> t_id t' = t_id t \<Longrightarrow>
    entry_ok s h' t' e = entry_ok s h t e"
  by (simp add: entry_ok_def split: sum.split)

lemma entry_okD:
  assumes "entry_ok s h t e"
  shows "\<exists>c. cell_at h (snd e) = Inr c \<and> row_inv s (c_row c) \<and> 0 < c_refs c \<and> c_schema c = t_schema t \<and>
    tbl (c_row c) = Some (t_id t) \<and> get_key s (c_row c) = Inr (fst e) \<and> good_key s (fst e)"
  using assms by (auto simp: entry_ok_def split: sum.splits)

lemma table_inv_split:
  assumes "table_inv s (h, t)"
  shows "takeWhile (\<lambda>e. krank s e \<le> x) (t_rows t) = filter (\<lambda>e. krank s e \<le> x) (t_rows t)"
    and "dropWhile (\<lambda>e. krank s e \<le> x) (t_rows t) = filter (\<lambda>e. x < krank s e) (t_rows t)"
  using sorted_split [OF le_down(1) table_invD(2) [OF assms], of x] by (simp_all add: not_le)

lemma table_inv_take:
  assumes "table_inv s (h, t)"
  shows "take (length (filter (\<lambda>e. krank s e \<le> x) (t_rows t))) (t_rows t) = filter (\<lambda>e. krank s e \<le> x) (t_rows t)"
    and "drop (length (filter (\<lambda>e. krank s e \<le> x) (t_rows t))) (t_rows t) = filter (\<lambda>e. x < krank s e) (t_rows t)"
  using table_inv_split [OF assms] by (metis takeWhile_eq_take, metis dropWhile_eq_drop)

lemma get_key_cong:
  "fixed_part r' = fixed_part r \<Longrightarrow> var_part r' = var_part r \<Longrightarrow> get_key s r' = get_key s r"
proof -
  assume eq: "fixed_part r' = fixed_part r" "var_part r' = var_part r"
  have "row_get_blob s r' c = row_get_blob s r c" for c unfolding row_get_blob_def eq ..
  then have "blobs_of s r' cs = blobs_of s r cs" for cs by (induction cs) simp_all
  then show ?thesis by (simp add: get_key_def)
qed

lemma row_inv_cong: "fixed_part r' = fixed_part r \<Longrightarrow> var_part r' = var_part r \<Longrightarrow> row_inv s r' = row_inv s r"
  by (simp add: row_inv_def split: var_part.split)

lemma distinct_split_insert:
  assumes "distinct (map f xs)" and "f e \<notin> f ` set xs"
  shows "distinct (map f (filter P xs @ e # filter (\<lambda>x. \<not> P x) xs))"
  using assms by (auto simp: distinct_map distinct_map_filter inj_on_def)

text \<open>What a fresh row needs to enter a table.\<close>

definition insertable :: "'a sch \<Rightarrow> row_heap \<Rightarrow> table \<Rightarrow> nat \<Rightarrow> cell \<Rightarrow> multi_blob \<Rightarrow> bool" where
  "insertable s h t p c k \<longleftrightarrow> cell_at h p = Inr c \<and> row_inv s (c_row c) \<and> 0 < c_refs c \<and> c_schema c = t_schema t \<and>
     tbl (c_row c) = None \<and> get_key s (c_row c) = Inr k \<and> good_key s k"

lemma st_insert_spec:
  assumes sch: "schema_inv s" and inv: "table_inv s (h, t)" and ins: "insertable s h t p c k"
  shows "\<exists>h' t'. st_insert s p (h, t) = Inr (h', t') \<and> table_inv s (h', t') \<and>
    h' = h[p := Some (c\<lparr>c_row := (c_row c)\<lparr>tbl := Some (t_id t)\<rparr>\<rparr>)] \<and>
    t' = t\<lparr>t_rows := filter (\<lambda>e. krank s e \<le> rank_key s k) (t_rows t) @ (k, p) # filter (\<lambda>e. rank_key s k < krank s e) (t_rows t)\<rparr>"
proof -
  let ?c = "c\<lparr>c_row := (c_row c)\<lparr>tbl := Some (t_id t)\<rparr>\<rparr>" and ?x = "rank_key s k"
  let ?h = "h[p := Some ?c]"
  let ?lo = "filter (\<lambda>e. krank s e \<le> ?x) (t_rows t)" and ?hi = "filter (\<lambda>e. ?x < krank s e) (t_rows t)"
  let ?t = "t\<lparr>t_rows := ?lo @ (k, p) # ?hi\<rparr>"
  have c: "cell_at h p = Inr c" "p < length h" using ins by (simp_all add: insertable_def cell_at_Inr)
  have key: "get_key s (c_row ?c) = Inr k" "row_inv s (c_row ?c)"
    using ins get_key_cong [of "c_row ?c" "c_row c" s] row_inv_cong [of "c_row ?c" "c_row c" s]
    by (simp_all add: insertable_def)
  have "st_upper s k (t_rows t) = Inr (length (takeWhile (\<lambda>e. krank s e \<le> ?x) (t_rows t)))"
    using st_bounds(2) [OF sch _ table_invD(4) [OF inv]] ins by (simp add: insertable_def)
  then have "st_insert s p (h, t) = Inr (?h, ?t)"
    using ins c table_inv_split [OF inv, of ?x]
    by (simp add: st_insert_def insertable_def new_smk_good set_table_def put_row_def table_inv_take [OF inv])
  moreover have "table_inv s (?h, ?t)"
  proof -
    have np: "snd e \<noteq> p" if "e \<in> set (t_rows t)" for e
      using entry_okD [OF table_invD(1) [OF inv that]] ins by (auto simp: insertable_def)
    have "entry_ok s ?h ?t e" if "e \<in> set (t_rows t)" for e
      using table_invD(1) [OF inv that] np [OF that] c(2) entry_ok_frame [of ?h e h ?t t s] by (simp add: cell_at_upd)
    moreover have "entry_ok s ?h ?t (k, p)"
      using ins c key by (simp add: entry_ok_def insertable_def cell_at_upd)
    moreover have "sorted (map (krank s) (t_rows ?t))"
      using table_invD(2) [OF inv] by (auto simp: sorted_append sorted_filter krank_def)
    moreover have "distinct (map snd (t_rows ?t))"
    proof -
      have "p \<notin> snd ` set (t_rows t)" using np by force
      then show ?thesis
        using distinct_split_insert [OF table_invD(3) [OF inv], of "(k, p)" "\<lambda>e. krank s e \<le> ?x"] by (simp add: not_le)
    qed
    ultimately show ?thesis by (auto simp: table_inv_def)
  qed
  ultimately show ?thesis by blast
qed

text \<open>C28. Inserting a fresh row of the table's schema succeeds and keeps the table sorted by the keys
  of its rows; the row is the last of the rows with its key, and every query that does not cover its
  key returns what it returned before.\<close>

theorem table_insert:
  assumes "schema_inv s" and "table_inv s (h, t)" and "insertable s h t p c k"
  shows "\<exists>h' t'. st_insert s p (h, t) = Inr (h', t') \<and> table_inv s (h', t') \<and>
    rows_where s t' (\<lambda>x. x = rank_key s k) = rows_where s t (\<lambda>x. x = rank_key s k) @ [p] \<and>
    (\<forall>P. \<not> P (rank_key s k) \<longrightarrow> rows_where s t' P = rows_where s t P)"
proof -
  let ?x = "rank_key s k"
  let ?t = "t\<lparr>t_rows := filter (\<lambda>e. krank s e \<le> ?x) (t_rows t) @ (k, p) # filter (\<lambda>e. ?x < krank s e) (t_rows t)\<rparr>"
  obtain h' where st: "st_insert s p (h, t) = Inr (h', ?t)" "table_inv s (h', ?t)"
    using st_insert_spec [OF assms] by blast
  have k: "krank s (k, p) = ?x" by (simp add: krank_def)
  have "rows_where s ?t (\<lambda>x. x = ?x) = rows_where s t (\<lambda>x. x = ?x) @ [p]"
  proof -
    have "filter (\<lambda>e. krank s e \<le> ?x \<and> krank s e = ?x) (t_rows t) = filter (\<lambda>e. krank s e = ?x) (t_rows t)"
      by (intro filter_cong) auto
    moreover have "filter (\<lambda>e. ?x < krank s e \<and> krank s e = ?x) (t_rows t) = []" by (auto simp: filter_empty_conv)
    ultimately show ?thesis by (simp add: rows_where_def k conj_commute)
  qed
  moreover have "rows_where s ?t P = rows_where s t P" if "\<not> P ?x" for P
  proof -
    have "filter (\<lambda>e. krank s e \<le> ?x) (t_rows t) @ filter (\<lambda>e. ?x < krank s e) (t_rows t) = t_rows t"
      using table_inv_split [OF assms(2), of ?x] takeWhile_dropWhile_id by metis
    then have "filter (\<lambda>e. P (krank s e)) (filter (\<lambda>e. krank s e \<le> ?x) (t_rows t)) @
        filter (\<lambda>e. P (krank s e)) (filter (\<lambda>e. ?x < krank s e) (t_rows t)) = filter (\<lambda>e. P (krank s e)) (t_rows t)"
      by (metis filter_append)
    then show ?thesis using that k by (simp add: rows_where_def flip: map_append)
  qed
  ultimately show ?thesis using st by blast
qed

theorem table_insert_witness:
  "\<exists>h' t'. st_insert demo_schema 1 (demo_heap, demo_table) = Inr (h', t') \<and>
    rows_where demo_schema t' (\<lambda>x. x = rank_key demo_schema [[3, 0, 0, 0]]) = [1]"
proof -
  have "insertable demo_schema demo_heap demo_table 1 (the (demo_heap ! 1)) [[3, 0, 0, 0]]"
    "rows_where demo_schema demo_table (\<lambda>x. x = rank_key demo_schema [[3, 0, 0, 0]]) = []"
    by code_simp+
  then show ?thesis using table_insert [OF demo_inv(1) demo_table_inv, of 1] by force
qed

lemma find_row_spec:
  assumes "i \<le> j" and "j < i + n" and "snd (rows ! j) = p" and "\<forall>m. i \<le> m \<and> m < j \<longrightarrow> snd (rows ! m) \<noteq> p"
  shows "find_row p rows i n = Some j"
  using assms
proof (induction n arbitrary: i)
  case (Suc n)
  show ?case
  proof (cases "i = j")
    case False
    then have "snd (rows ! i) \<noteq> p" using Suc.prems by simp
    then show ?thesis using Suc.IH [of "Suc i"] Suc.prems False by simp
  qed (use Suc.prems in simp)
qed simp

lemma take_drop_filter:
  assumes "distinct (map snd rows)" and "j < length rows" and "snd (rows ! j) = p"
  shows "take j rows @ drop (Suc j) rows = filter (\<lambda>e. snd e \<noteq> p) rows"
proof -
  have r: "rows = take j rows @ rows ! j # drop (Suc j) rows" using id_take_nth_drop [OF assms(2)] .
  have "distinct (map snd (take j rows @ rows ! j # drop (Suc j) rows))" using assms(1) r by metis
  then have "p \<notin> snd ` set (take j rows)" "p \<notin> snd ` set (drop (Suc j) rows)" using assms(3) by auto
  then have "filter (\<lambda>e. snd e \<noteq> p) (take j rows) = take j rows" "filter (\<lambda>e. snd e \<noteq> p) (drop (Suc j) rows) = drop (Suc j) rows"
    by (auto simp: filter_id_conv)
  then have "filter (\<lambda>e. snd e \<noteq> p) (take j rows @ rows ! j # drop (Suc j) rows) = take j rows @ drop (Suc j) rows"
    using assms(3) by simp
  then show ?thesis using r by metis
qed

lemma equal_range_member:
  assumes inv: "table_inv s (h, t)" and e: "(k, p) \<in> set (t_rows t)"
  shows "find_row p (t_rows t) (length (takeWhile (\<lambda>e. krank s e < rank_key s k) (t_rows t)))
      (length (takeWhile (\<lambda>e. krank s e \<le> rank_key s k) (t_rows t)) - length (takeWhile (\<lambda>e. krank s e < rank_key s k) (t_rows t)))
    \<in> Some ` {j. j < length (t_rows t) \<and> snd (t_rows t ! j) = p}"
proof -
  let ?x = "rank_key s k" and ?R = "t_rows t"
  let ?lo = "length (takeWhile (\<lambda>e. krank s e < ?x) ?R)" and ?hi = "length (takeWhile (\<lambda>e. krank s e \<le> ?x) ?R)"
  obtain j where j: "j < length ?R" "?R ! j = (k, p)" using e by (auto simp: in_set_conv_nth)
  have kj: "krank s (?R ! j) = ?x" using j by (simp add: krank_def)
  have srt: "krank s (?R ! a) \<le> krank s (?R ! b)" if "a \<le> b" "b < length ?R" for a b
    using sorted_nth_mono [OF table_invD(2) [OF inv], of a b] that by simp
  have "?lo \<le> j"
  proof (rule ccontr)
    assume "\<not> ?lo \<le> j"
    then have "j < ?lo" by simp
    then have "?R ! j \<in> set (takeWhile (\<lambda>e. krank s e < ?x) ?R)" using takeWhile_nth nth_mem by metis
    then have "krank s (?R ! j) < ?x" by (blast dest: set_takeWhileD)
    then show False using kj by simp
  qed
  moreover have "j < ?hi"
  proof (rule ccontr)
    assume "\<not> j < ?hi"
    then have hi: "?hi \<le> j" "?hi < length ?R" using j(1) by simp_all
    then have "\<not> krank s (?R ! ?hi) \<le> ?x" by (rule_tac nth_length_takeWhile)
    then show False using srt [OF hi(1) j(1)] kj by simp
  qed
  moreover have "snd (?R ! m) \<noteq> p" if "m < j" for m
    using nth_eq_iff_index_eq [OF table_invD(3) [OF inv], of m j] that j by auto
  ultimately have "find_row p ?R ?lo (?hi - ?lo) = Some j" using j by (intro find_row_spec) auto
  then show ?thesis using j by auto
qed

text \<open>The heap after the row has left the table.\<close>

definition row_out :: "nat \<Rightarrow> cell \<Rightarrow> bool \<Rightarrow> row_heap \<Rightarrow> row_heap" where
  "row_out p c do_free h =
     (let c' = c\<lparr>c_row := (c_row c)\<lparr>tbl := None\<rparr>\<rparr>
      in h[p := (if \<not> do_free then Some c' else if c_refs c = 1 then None else Some (c'\<lparr>c_refs := c_refs c - 1\<rparr>))])"

lemma st_remove_row_spec:
  assumes sch: "schema_inv s" and inv: "table_inv s (h, t)" and e: "(k, p) \<in> set (t_rows t)" and c: "cell_at h p = Inr c"
  shows "st_remove_row s p do_free (h, t) =
    Inr (row_out p c do_free h, t\<lparr>t_rows := filter (\<lambda>e. snd e \<noteq> p) (t_rows t)\<rparr>)"
proof -
  have ok: "row_inv s (c_row c)" "0 < c_refs c" "tbl (c_row c) = Some (t_id t)" "get_key s (c_row c) = Inr k" "good_key s k"
    using entry_okD [OF table_invD(1) [OF inv e]] c by simp_all
  obtain j where j: "j < length (t_rows t)" "snd (t_rows t ! j) = p"
    and f: "find_row p (t_rows t) (length (takeWhile (\<lambda>e. krank s e < rank_key s k) (t_rows t)))
      (length (takeWhile (\<lambda>e. krank s e \<le> rank_key s k) (t_rows t)) - length (takeWhile (\<lambda>e. krank s e < rank_key s k) (t_rows t))) = Some j"
    using equal_range_member [OF inv e] by auto
  note b = st_bounds [OF sch ok(5) table_invD(4) [OF inv]]
  have p: "p < length h" "h ! p = Some c" using c by (simp_all add: cell_at_Inr)
  show ?thesis
    using ok p f j take_drop_filter [OF table_invD(3) [OF inv] j]
    by (simp add: st_remove_row_def c st_query_def new_smk_good b mk_cursor_def set_table_def put_row_def
        st_remove_at_def row_out_def release_def cell_at_upd Let_def)
qed

lemma row_out_cell: "q \<noteq> p \<Longrightarrow> cell_at (row_out p c f h) q = cell_at h q"
  by (cases "p < length h") (simp_all add: row_out_def Let_def cell_at_def)

lemma removed_inv:
  assumes inv: "table_inv s (h, t)" and frame: "\<And>q. q \<noteq> p \<Longrightarrow> cell_at h' q = cell_at h q"
  shows "table_inv s (h', t\<lparr>t_rows := filter (\<lambda>e. snd e \<noteq> p) (t_rows t)\<rparr>)"
proof -
  let ?t = "t\<lparr>t_rows := filter (\<lambda>e. snd e \<noteq> p) (t_rows t)\<rparr>"
  have "entry_ok s h' ?t e" if "e \<in> set (t_rows ?t)" for e
    using that table_invD(1) [OF inv, of e] frame [of "snd e"] entry_ok_frame [of h' e h ?t t s] by simp
  then show ?thesis
    using table_invD(2,3) [OF inv] by (simp add: table_inv_def sorted_filter distinct_map_filter)
qed

text \<open>Removing a row that is in the table takes out exactly that row, keeps the table sorted and
  frees the row when the table held its last reference; the row then belongs to no table.\<close>

theorem table_remove_row:
  assumes "schema_inv s" and "table_inv s (h, t)" and "(k, p) \<in> set (t_rows t)" and "cell_at h p = Inr c"
  shows "\<exists>h' t'. st_remove_row s p do_free (h, t) = Inr (h', t') \<and> table_inv s (h', t') \<and>
    (\<forall>P. rows_where s t' P = filter (\<lambda>q. q \<noteq> p) (rows_where s t P)) \<and>
    cell_at h' p = (if do_free \<and> c_refs c = 1 then Inl BadPointer
      else Inr (c\<lparr>c_row := (c_row c)\<lparr>tbl := None\<rparr>, c_refs := (if do_free then c_refs c - 1 else c_refs c)\<rparr>)) \<and>
    (\<forall>q. q \<noteq> p \<longrightarrow> cell_at h' q = cell_at h q)"
proof -
  let ?t = "t\<lparr>t_rows := filter (\<lambda>e. snd e \<noteq> p) (t_rows t)\<rparr>" and ?h = "row_out p c do_free h"
  have "filter (\<lambda>e. P (krank s e)) (filter (\<lambda>e. snd e \<noteq> p) rs) = filter (\<lambda>e. snd e \<noteq> p) (filter (\<lambda>e. P (krank s e)) rs)" for P rs
    by (simp add: conj_commute)
  then have "rows_where s ?t P = filter (\<lambda>q. q \<noteq> p) (rows_where s t P)" for P
    by (simp add: rows_where_def filter_map comp_def)
  moreover have "cell_at ?h p = (if do_free \<and> c_refs c = 1 then Inl BadPointer
      else Inr (c\<lparr>c_row := (c_row c)\<lparr>tbl := None\<rparr>, c_refs := (if do_free then c_refs c - 1 else c_refs c)\<rparr>))"
    using assms(4) by (simp add: row_out_def Let_def cell_at_Inr cell_at_upd)
  ultimately show ?thesis
    using st_remove_row_spec [OF assms] removed_inv [OF assms(2), of p ?h] row_out_cell [of _ p c do_free h] by auto
qed

lemma demo_entry: "([[7, 0, 0, 0]], 0) \<in> set (t_rows demo_table)" "cell_at demo_heap 0 = Inr (the (demo_heap ! 0))"
  by code_simp+

theorem table_remove_row_witness:
  "\<exists>h' t'. st_remove_row demo_schema 0 True (demo_heap, demo_table) = Inr (h', t') \<and> cell_at h' 0 = Inl BadPointer"
proof -
  have "c_refs (the (demo_heap ! 0)) = 1" by code_simp
  then show ?thesis using table_remove_row [OF demo_inv(1) demo_table_inv demo_entry, of True] by force
qed

section \<open>Updates of rows in a table\<close>

lemma bit_le_word: "bit (le_word bs :: 'a::len word) i \<Longrightarrow> i < 8 * length bs"
proof (induction bs arbitrary: i)
  case (Cons b bs)
  then have "bit (ucast b :: 'a word) i \<or> 8 \<le> i \<and> bit (le_word bs :: 'a word) (i - 8)"
    by (auto simp: bit_or_iff bit_push_bit_iff)
  then show ?case
  proof
    assume "bit (ucast b :: 'a word) i"
    then have "bit b i" by (simp add: bit_ucast_iff)
    then show ?thesis using bit_imp_le_length by force
  next
    assume "8 \<le> i \<and> bit (le_word bs :: 'a word) (i - 8)"
    then show ?thesis using Cons.IH [of "i - 8"] by simp
  qed
qed simp

lemma le_bytes_word: "8 * length bs \<le> LENGTH('a) \<Longrightarrow> le_bytes (length bs) (le_word bs :: 'a::len word) = bs"
proof (induction bs)
  case (Cons b bs)
  let ?w = "le_word bs :: 'a word"
  have "ucast (ucast b OR push_bit 8 ?w :: 'a word) = b"
    using Cons.prems by (intro bit_word_eqI) (auto simp: bit_or_iff bit_push_bit_iff bit_ucast_iff)
  moreover have "drop_bit 8 (ucast b OR push_bit 8 ?w :: 'a word) = ?w"
  proof (rule bit_word_eqI)
    fix n assume "n < LENGTH('a)"
    show "bit (drop_bit 8 (ucast b OR push_bit 8 ?w :: 'a word)) n = bit ?w n"
      using Cons.prems bit_le_word [of bs n, where 'a = 'a] bit_imp_le_length [of b "8 + n"]
      by (auto simp: bit_or_iff bit_push_bit_iff bit_ucast_iff bit_drop_bit_eq)
  qed
  ultimately show ?case using Cons by simp
qed simp

lemma blob_of_column:
  assumes sch: "schema_inv s" and r: "row_inv s r" and c: "c < length (col_info s)"
  shows "\<exists>b. row_get_blob s r c = Inr b \<and> get_column s r c = decode (col_kind s c) b \<and>
    rbind (get_column s r c) value_blob = Inr b \<and>
    (good_blob (col_kind s c) b \<longleftrightarrow> (\<forall>v. get_column s r c = Inr v \<longrightarrow> \<not> is_nan v))"
proof (cases "col_type (col_info s ! c) = K_STR")
  case True
  then show ?thesis
    using row_get_blob_str [OF sch r c True] get_column_str [OF sch r c True] by (auto simp: col_kind_def)
next
  case False
  note b = place_bounds [OF sch c]
  have fits: "place (col_info s ! c) + csize (col_info s ! c) \<le> length (fixed_part r)" using b False r by (simp add: row_inv_def)
  have g: "get_column s r c = decode (col_kind s c) (take (csize (col_info s ! c)) (drop (place (col_info s ! c)) (fixed_part r)))"
    using get_column_fixed [OF c False] by (simp add: col_kind_def)
  have l4: "8 * length bs \<le> 32 \<Longrightarrow> length bs = 4 \<Longrightarrow> le_bytes 4 (le_word bs :: i32) = bs" for bs
    using le_bytes_word [of bs, where 'a = 32] by simp
  have l8: "length bs = 8 \<Longrightarrow> le_bytes 8 (le_word bs :: 64 word) = bs" for bs
    using le_bytes_word [of bs, where 'a = 64] by simp
  show ?thesis
    using g fits False schema_inv_col(3) [OF sch c] c
    by (cases "col_type (col_info s ! c)")
      (auto simp: row_get_blob_def get_column_info_def col_kind_def csize_def l4 l8)
qed

lemma get_column_tbl [simp]: "get_column s (r\<lparr>tbl := x\<rparr>) j = get_column s r j"
proof -
  have eq: "fixed_part (r\<lparr>tbl := x\<rparr>) = fixed_part r" "var_part (r\<lparr>tbl := x\<rparr>) = var_part r" by simp_all
  show ?thesis unfolding get_column_def row_get_blob_def eq ..
qed

lemma blobs_of_columns:
  assumes sch: "schema_inv s" and r: "row_inv s r"
  shows "\<forall>c \<in> set cs. c < length (col_info s) \<Longrightarrow> \<exists>bs. blobs_of s r cs = Inr bs \<and> length bs = length cs \<and>
    (list_all2 (\<lambda>c b. good_blob (col_kind s c) b) cs bs \<longleftrightarrow> (\<forall>c \<in> set cs. \<forall>v. get_column s r c = Inr v \<longrightarrow> \<not> is_nan v))"
proof (induction cs)
  case (Cons c cs)
  obtain b where "row_get_blob s r c = Inr b" "good_blob (col_kind s c) b \<longleftrightarrow> (\<forall>v. get_column s r c = Inr v \<longrightarrow> \<not> is_nan v)"
    using blob_of_column [OF sch r, of c] Cons.prems by auto
  moreover obtain bs where "blobs_of s r cs = Inr bs" "length bs = length cs"
    "list_all2 (\<lambda>c b. good_blob (col_kind s c) b) cs bs \<longleftrightarrow> (\<forall>c \<in> set cs. \<forall>v. get_column s r c = Inr v \<longrightarrow> \<not> is_nan v)"
    using Cons by auto
  ultimately show ?case by simp
qed simp

lemma key_of_row:
  assumes sch: "schema_inv s" and r: "row_inv s r"
  shows "\<exists>k. get_key s r = Inr k \<and>
    (good_key s k \<longleftrightarrow> (\<forall>c \<in> set (key_cols_id s). \<forall>v. get_column s r c = Inr v \<longrightarrow> \<not> is_nan v))"
  using blobs_of_columns [OF sch r, of "key_cols_id s"] schema_inv_rest(5) [OF sch]
  by (auto simp: get_key_def good_key_def list_all_iff)

lemma blobs_of_same:
  assumes sch: "schema_inv s" and r: "row_inv s r" and r': "row_inv s r'"
  shows "\<forall>c \<in> set cs. c < length (col_info s) \<and> get_column s r' c = get_column s r c \<Longrightarrow> blobs_of s r' cs = blobs_of s r cs"
proof (induction cs)
  case (Cons c cs)
  then have c: "c < length (col_info s)" "get_column s r' c = get_column s r c" by simp_all
  obtain b where "row_get_blob s r c = Inr b" "rbind (get_column s r c) value_blob = Inr b"
    using blob_of_column [OF sch r c(1)] by blast
  moreover obtain b' where "row_get_blob s r' c = Inr b'" "rbind (get_column s r' c) value_blob = Inr b'"
    using blob_of_column [OF sch r' c(1)] by blast
  ultimately have "row_get_blob s r' c = row_get_blob s r c" using c(2) by (metis Inr_inject)
  then show ?case using Cons by simp
qed simp

lemma row_update_calls:
  assumes "schema_inv s" and "c < length (col_info s)" and "row_update s c v r = Inr (r', calls)"
  shows "tbl r' = tbl r \<and> rdonly r' = rdonly r \<and> (RemoveRow \<notin> set calls \<longrightarrow> r' = r \<or> \<not> indexed (col_info s ! c) \<or> tbl r = None) \<and>
    (RemoveRow \<in> set calls \<longrightarrow> indexed (col_info s ! c))"
  using assms
  by (cases v) (auto simp: update_num_def update_fixed_def update_str_def get_column_info_def reinsert_def Let_def make_sparse_def
      split: if_splits var_part.splits)

text \<open>The two ways an update of a row in the table goes: in place, or out of the table and back.\<close>

lemma key_kept:
  assumes sch: "schema_inv s" and r: "row_inv s r" "row_inv s r'" and k: "get_key s r = Inr k"
    and same: "\<forall>j. j \<noteq> col \<longrightarrow> get_column s r' j = get_column s r j" and ni: "r' = r \<or> \<not> indexed (col_info s ! col)"
  shows "get_key s r' = Inr k"
  using ni
proof
  assume "\<not> indexed (col_info s ! col)"
  then have "\<forall>c \<in> set (key_cols_id s). c < length (col_info s) \<and> c \<noteq> col"
    using schema_inv_rest(5) [OF sch] by (auto simp: list_all_iff)
  then show ?thesis using blobs_of_same [OF sch r] same k by (simp add: get_key_def)
qed (simp add: k)

lemma update_in_place:
  assumes inv: "table_inv s (h, t)" and e: "(k, p) \<in> set (t_rows t)" and c: "cell_at h p = Inr c"
    and r': "row_inv s r'" "tbl r' = Some (t_id t)" "get_key s r' = Inr k"
  shows "table_inv s (h[p := Some (c\<lparr>c_row := r'\<rparr>)], t)"
proof -
  let ?h = "h[p := Some (c\<lparr>c_row := r'\<rparr>)]"
  have ok: "0 < c_refs c" "c_schema c = t_schema t" "good_key s k" using entry_okD [OF table_invD(1) [OF inv e]] c by simp_all
  have p: "p < length h" using c by (simp add: cell_at_Inr)
  have kp: "entry_ok s ?h t (k, p)" using ok r' p by (simp add: entry_ok_def cell_at_upd)
  have "entry_ok s ?h t x" if "x \<in> set (t_rows t)" for x
  proof (cases "snd x = p")
    case True
    have "inj_on snd (set (t_rows t))" using table_invD(3) [OF inv] by (simp add: distinct_map)
    then have "x = (k, p)" using inj_onD [of snd _ x "(k, p)"] that e True by simp
    then show ?thesis using kp by simp
  qed (use table_invD(1) [OF inv that] p entry_ok_frame [of ?h x h t t s] in \<open>simp add: cell_at_upd\<close>)
  then show ?thesis using table_invD(2,3) [OF inv] by (simp add: table_inv_def)
qed

lemma update_moves:
  assumes sch: "schema_inv s" and inv: "table_inv s (h, t)" and e: "(k, p) \<in> set (t_rows t)" and c: "cell_at h p = Inr c"
    and r': "row_inv s r'" "\<forall>c \<in> set (key_cols_id s). \<forall>v'. get_column s r' c = Inr v' \<longrightarrow> \<not> is_nan v'"
  shows "\<exists>t'. st_insert s p (h[p := Some (c\<lparr>c_row := r'\<lparr>tbl := None\<rparr>\<rparr>)], t\<lparr>t_rows := filter (\<lambda>e. snd e \<noteq> p) (t_rows t)\<rparr>) =
      Inr (h[p := Some (c\<lparr>c_row := r'\<lparr>tbl := Some (t_id t)\<rparr>\<rparr>)], t') \<and>
    table_inv s (h[p := Some (c\<lparr>c_row := r'\<lparr>tbl := Some (t_id t)\<rparr>\<rparr>)], t') \<and>
    snd ` set (t_rows t') = snd ` set (t_rows t) \<and> t_id t' = t_id t \<and> t_schema t' = t_schema t"
proof -
  let ?t1 = "t\<lparr>t_rows := filter (\<lambda>e. snd e \<noteq> p) (t_rows t)\<rparr>"
  let ?c2 = "c\<lparr>c_row := r'\<lparr>tbl := None\<rparr>\<rparr>"
  let ?h2 = "h[p := Some ?c2]"
  have ok: "0 < c_refs c" "c_schema c = t_schema t" using entry_okD [OF table_invD(1) [OF inv e]] c by simp_all
  have p: "p < length h" using c by (simp add: cell_at_Inr)
  have inv2: "table_inv s (?h2, ?t1)" by (rule removed_inv [OF inv]) (simp add: cell_at_def)
  have "row_inv s (r'\<lparr>tbl := None\<rparr>)" using row_inv_cong [of "r'\<lparr>tbl := None\<rparr>" r' s] r'(1) by simp
  moreover obtain k' where "get_key s (r'\<lparr>tbl := None\<rparr>) = Inr k'" "good_key s k'"
    using key_of_row [OF sch r'(1)] r'(2) get_key_cong [of "r'\<lparr>tbl := None\<rparr>" r' s] by auto
  ultimately have "insertable s ?h2 ?t1 p ?c2 k'" using p ok by (simp add: insertable_def cell_at_upd)
  note spec = st_insert_spec [OF sch inv2 this]
  obtain h' t' where ins: "st_insert s p (?h2, ?t1) = Inr (h', t')" "table_inv s (h', t')"
    "h' = ?h2[p := Some (?c2\<lparr>c_row := (c_row ?c2)\<lparr>tbl := Some (t_id t)\<rparr>\<rparr>)]"
    "t' = ?t1\<lparr>t_rows := filter (\<lambda>e. krank s e \<le> rank_key s k') (t_rows ?t1) @ (k', p) # filter (\<lambda>e. rank_key s k' < krank s e) (t_rows ?t1)\<rparr>"
    using spec by auto
  have "snd ` set (t_rows t') = snd ` set (t_rows t)"
    using ins(4) e by (force simp: image_iff not_le [symmetric])
  moreover have "h' = h[p := Some (c\<lparr>c_row := r'\<lparr>tbl := Some (t_id t)\<rparr>\<rparr>)]" using ins(3) by simp
  ultimately show ?thesis using ins(1,2,4) by simp
qed

lemma table_update_spec:
  assumes sch: "schema_inv s" and inv: "table_inv s (h, t)" and e: "(k, p) \<in> set (t_rows t)" and c: "cell_at h p = Inr c"
    and w: "\<not> rdonly (c_row c)" and col: "col < length (col_info s)" and v: "get_kind v = col_type (col_info s ! col)" "indexed (col_info s ! col) \<Longrightarrow> \<not> is_nan v"
    and ptr: "str_key s \<Longrightarrow> is_dense (var_part (c_row c)) \<Longrightarrow> indexed (col_info s ! col)"
  shows "\<exists>t' r'. st_update s p col v (h, t) = Inr (h[p := Some (c\<lparr>c_row := r'\<rparr>)], t') \<and>
    table_inv s (h[p := Some (c\<lparr>c_row := r'\<rparr>)], t') \<and>
    snd ` set (t_rows t') = snd ` set (t_rows t) \<and> t_id t' = t_id t \<and> t_schema t' = t_schema t \<and>
    tbl r' = Some (t_id t) \<and> \<not> rdonly r' \<and>
    get_column s r' col = Inr v \<and> (\<forall>j. j \<noteq> col \<longrightarrow> get_column s r' j = get_column s (c_row c) j)"
proof -
  have ok: "row_inv s (c_row c)" "tbl (c_row c) = Some (t_id t)" "get_key s (c_row c) = Inr k" "good_key s k"
    using entry_okD [OF table_invD(1) [OF inv e]] c by simp_all
  obtain r' calls where u: "row_update s col v (c_row c) = Inr (r', calls)" "row_inv s r'" "get_column s r' col = Inr v"
    "\<forall>j. j \<noteq> col \<longrightarrow> get_column s r' j = get_column s (c_row c) j"
    using row_update_view [OF sch ok(1) w col v(1)] by blast
  note calls = row_update_calls [OF sch col u(1)]
  have tbl: "tbl r' = Some (t_id t)" "\<not> rdonly r'" using calls ok(2) w by simp_all
  have p: "p < length h" "h ! p = Some c" using c by (simp_all add: cell_at_Inr)
  show ?thesis
  proof (cases "RemoveRow \<in> set calls")
    case False
    have "\<not> key_dangles s (c_row c) r'" using calls False ok(2) ptr by (auto simp: key_dangles_def)
    then have run: "st_update s p col v (h, t) = Inr (h[p := Some (c\<lparr>c_row := r'\<rparr>)], t)"
      using c u(1) ok(2) False by (simp add: st_update_def put_row_def)
    have "get_key s r' = Inr k" using key_kept [OF sch ok(1) u(2) ok(3) u(4)] calls False ok(2) by simp
    then show ?thesis using update_in_place [OF inv e c u(2) tbl(1)] run u(3,4) tbl by auto
  next
    case True
    have "\<forall>c \<in> set (key_cols_id s). \<forall>v'. get_column s r' c = Inr v' \<longrightarrow> \<not> is_nan v'"
      using key_of_row [OF sch ok(1)] ok(3,4) u(3,4) v(2) calls True by (metis Inr_inject)
    note mv = update_moves [OF sch inv e c u(2) this]
    moreover have "st_update s p col v (h, t) =
        st_insert s p (h[p := Some (c\<lparr>c_row := r'\<lparr>tbl := None\<rparr>\<rparr>)], t\<lparr>t_rows := filter (\<lambda>e. snd e \<noteq> p) (t_rows t)\<rparr>)"
      using c u(1) ok(2) True st_remove_row_spec [OF sch inv e c, of False] p
      by (simp add: st_update_def put_row_def row_out_def Let_def cell_at_upd)
    moreover have "r'\<lparr>tbl := Some (t_id t)\<rparr> = r'" using tbl(1) by simp
    ultimately show ?thesis using u(3,4) tbl by auto
  qed
qed




definition str_schema :: schema where
  "str_schema = \<lparr>col_name_to_id = [(''note'', 1), (''name'', 0)],
     col_info = [\<lparr>col_id = 0, col_name = ''name'', indexed = True, col_type = K_STR, place = 0\<rparr>,
                 \<lparr>col_id = 1, col_name = ''note'', indexed = False, col_type = K_STR, place = 1\<rparr>],
     key_cols_id = [0], var_size_cols = 2, fixed_part_size = 0, hidden_fixed = 0, hidden_var = 0, frozen = True\<rparr>"


end
