(* ===== verification/Mdb_Lock.thy ===== *)
theory Mdb_Lock
  imports Rococo_Prelude
begin

text \<open>
  The reader-writer lock of the storage engine (\<^verbatim>\<open>memdb/locking.h\<close>) and the contract its users
  rely on, as a locale: mutual exclusion, and what a granted or refused request means.
\<close>

section \<open>RWLock\<close>

type_synonym lock_owner = i64

record rwlock =
  wlocked :: bool
  wowner :: lock_owner
  rowners :: "lock_owner list"

definition new_rwlock :: rwlock where
  "new_rwlock = \<lparr>wlocked = False, wowner = 0, rowners = []\<rparr>"

definition is_wlocked :: "rwlock \<Rightarrow> bool" where
  "is_wlocked l = wlocked l"

definition is_rlocked :: "rwlock \<Rightarrow> bool" where
  "is_rlocked l \<longleftrightarrow> rowners l \<noteq> []"

definition wlock_by :: "lock_owner \<Rightarrow> rwlock \<Rightarrow> bool \<times> rwlock" where
  "wlock_by ow l =
     (if wlocked l then (ow = wowner l, l)
      else if rowners l = [] then (True, l\<lparr>wlocked := True, wowner := ow\<rparr>)
      else if ow \<in> set (rowners l) \<and> length (rowners l) = 1
           then (True, l\<lparr>rowners := removeAll ow (rowners l), wlocked := True, wowner := ow\<rparr>)
           else (False, l))"

definition rlock_by :: "lock_owner \<Rightarrow> rwlock \<Rightarrow> bool \<times> rwlock" where
  "rlock_by ow l =
     (if wlocked l then (ow = wowner l, l)
      else (True, l\<lparr>rowners := (if ow \<in> set (rowners l) then rowners l else ow # rowners l)\<rparr>))"

definition unlock_by :: "lock_owner \<Rightarrow> rwlock \<Rightarrow> bool \<times> rwlock" where
  "unlock_by ow l =
     (let ret = wlocked l \<and> ow = wowner l;
          l1 = (if ret then l\<lparr>wlocked := False\<rparr> else l);
          ret2 = ow \<in> set (rowners l1)
      in (ret \<or> ret2, l1\<lparr>rowners := removeAll ow (rowners l1)\<rparr>))"

definition wlock_owner :: "rwlock \<Rightarrow> lock_owner res" where
  "wlock_owner l = verify (wlocked l) (Inr (wowner l))"

section \<open>The contract\<close>

text \<open>Who holds the lock for writing and for reading, and what the operations promise about it.\<close>

locale rw_lock =
  fixes wlock rlock unlock :: "'o \<Rightarrow> 'l \<Rightarrow> bool \<times> 'l"
    and writes reads :: "'l \<Rightarrow> 'o \<Rightarrow> bool"
    and inv :: "'l \<Rightarrow> bool"
    and init :: 'l
  assumes init_inv: "inv init"
    and init_free: "\<not> writes init p \<and> \<not> reads init p"
    and excl: "inv l \<Longrightarrow> writes l a \<Longrightarrow> writes l b \<or> reads l b \<Longrightarrow> b = a"
    and wlock_inv: "inv l \<Longrightarrow> inv (snd (wlock ow l))"
    and rlock_inv: "inv l \<Longrightarrow> inv (snd (rlock ow l))"
    and unlock_inv: "inv l \<Longrightarrow> inv (snd (unlock ow l))"
    and wlock_granted: "inv l \<Longrightarrow> fst (wlock ow l) \<longleftrightarrow> writes (snd (wlock ow l)) ow"
    and rlock_granted: "inv l \<Longrightarrow> fst (rlock ow l) \<longleftrightarrow>
          reads (snd (rlock ow l)) ow \<or> writes (snd (rlock ow l)) ow"
    and wlock_refused: "inv l \<Longrightarrow> \<not> fst (wlock ow l) \<Longrightarrow> snd (wlock ow l) = l"
    and rlock_refused: "inv l \<Longrightarrow> \<not> fst (rlock ow l) \<Longrightarrow> snd (rlock ow l) = l"
    and wlock_possible: "inv l \<Longrightarrow> (\<forall>p. p \<noteq> ow \<longrightarrow> \<not> writes l p \<and> \<not> reads l p) \<Longrightarrow> fst (wlock ow l)"
    and rlock_possible: "inv l \<Longrightarrow> (\<forall>p. p \<noteq> ow \<longrightarrow> \<not> writes l p) \<Longrightarrow> fst (rlock ow l)"
    and unlocked: "inv l \<Longrightarrow> \<not> writes (snd (unlock ow l)) ow \<and> \<not> reads (snd (unlock ow l)) ow"
    and others: "inv l \<Longrightarrow> p \<noteq> ow \<Longrightarrow>
          (writes (snd (wlock ow l)) p \<longleftrightarrow> writes l p) \<and> (reads (snd (wlock ow l)) p \<longleftrightarrow> reads l p) \<and>
          (writes (snd (rlock ow l)) p \<longleftrightarrow> writes l p) \<and> (reads (snd (rlock ow l)) p \<longleftrightarrow> reads l p) \<and>
          (writes (snd (unlock ow l)) p \<longleftrightarrow> writes l p) \<and> (reads (snd (unlock ow l)) p \<longleftrightarrow> reads l p)"
begin

text \<open>Histories of requests by any owners.\<close>

definition step :: "nat \<times> 'o \<Rightarrow> 'l \<Rightarrow> 'l" where
  "step a l = snd ((if fst a = 0 then wlock else if fst a = 1 then rlock else unlock) (snd a) l)"

lemma step_inv: "inv l \<Longrightarrow> inv (step a l)"
  by (simp add: step_def wlock_inv rlock_inv unlock_inv)

lemma run_inv: "inv l \<Longrightarrow> inv (fold step as l)"
  by (induction as arbitrary: l) (auto simp: step_inv)

lemma run_exclusive: "writes (fold step as init) a \<Longrightarrow> writes (fold step as init) b \<or> reads (fold step as init) b \<Longrightarrow> b = a"
  using excl run_inv init_inv by blast

text \<open>A holder keeps what it holds until it unlocks, whatever the others request.\<close>

lemma writer_stays: "inv l \<Longrightarrow> writes l p \<Longrightarrow> \<forall>a \<in> set as. snd a \<noteq> p \<Longrightarrow> writes (fold step as l) p"
proof (induction as arbitrary: l)
  case (Cons a as)
  then have "p \<noteq> snd a" by auto
  then have "writes (step a l) p" using Cons.prems others by (simp add: step_def)
  with Cons show ?case by (simp add: step_inv)
qed simp

lemma reader_stays: "inv l \<Longrightarrow> reads l p \<Longrightarrow> \<forall>a \<in> set as. snd a \<noteq> p \<Longrightarrow> reads (fold step as l) p"
proof (induction as arbitrary: l)
  case (Cons a as)
  then have "p \<noteq> snd a" by auto
  then have "reads (step a l) p" using Cons.prems others by (simp add: step_def)
  with Cons show ?case by (simp add: step_inv)
qed simp

text \<open>Between a granted read lock and its release nobody else gets the write lock.\<close>

lemma no_writer_while_read:
  assumes "inv l" and "reads l p" and "\<forall>a \<in> set as. snd a \<noteq> p" and "ow \<noteq> p"
  shows "\<not> fst (wlock ow (fold step as l))"
proof
  let ?l = "fold step as l"
  assume "fst (wlock ow ?l)"
  then have "writes (snd (wlock ow ?l)) ow" using wlock_granted [OF run_inv [OF assms(1)]] by simp
  moreover have "reads (snd (wlock ow ?l)) p"
    using reader_stays [OF assms(1-3)] others [OF run_inv [OF assms(1)]] assms(4) by metis
  ultimately show False using excl [OF wlock_inv [OF run_inv [OF assms(1)]]] assms(4) by metis
qed

end

section \<open>RWLock satisfies the contract\<close>

definition writes_by :: "rwlock \<Rightarrow> lock_owner \<Rightarrow> bool" where
  "writes_by l ow \<longleftrightarrow> wlocked l \<and> wowner l = ow"

definition reads_by :: "rwlock \<Rightarrow> lock_owner \<Rightarrow> bool" where
  "reads_by l ow \<longleftrightarrow> ow \<in> set (rowners l)"

definition rwlock_inv :: "rwlock \<Rightarrow> bool" where
  "rwlock_inv l \<longleftrightarrow> distinct (rowners l) \<and> (wlocked l \<longrightarrow> rowners l = [])"

lemmas rwlock_defs = writes_by_def reads_by_def rwlock_inv_def wlock_by_def rlock_by_def unlock_by_def Let_def

lemma singleton_owner: "distinct rs \<Longrightarrow> rs \<noteq> [] \<Longrightarrow> \<forall>p. p \<noteq> ow \<longrightarrow> p \<notin> set rs \<Longrightarrow> ow \<in> set rs \<and> length rs = 1"
  by (metis One_nat_def distinct_length_2_or_more length_0_conv length_Suc_conv list.exhaust list.set_intros(1,2))

interpretation rw: rw_lock wlock_by rlock_by unlock_by writes_by reads_by rwlock_inv new_rwlock
proof unfold_locales
  fix l ow assume "rwlock_inv l" "\<forall>p. p \<noteq> ow \<longrightarrow> \<not> writes_by l p \<and> \<not> reads_by l p"
  then show "fst (wlock_by ow l)"
    using singleton_owner [of "rowners l" ow] by (auto simp: rwlock_defs)
next
  fix l and ow :: lock_owner assume "rwlock_inv l"
  then show "rwlock_inv (snd (wlock_by ow l))"
    by (auto simp: rwlock_defs length_Suc_conv)
next
  fix l and p ow :: lock_owner assume "rwlock_inv l" "p \<noteq> ow"
  then show "(writes_by (snd (wlock_by ow l)) p \<longleftrightarrow> writes_by l p) \<and> (reads_by (snd (wlock_by ow l)) p \<longleftrightarrow> reads_by l p) \<and>
          (writes_by (snd (rlock_by ow l)) p \<longleftrightarrow> writes_by l p) \<and> (reads_by (snd (rlock_by ow l)) p \<longleftrightarrow> reads_by l p) \<and>
          (writes_by (snd (unlock_by ow l)) p \<longleftrightarrow> writes_by l p) \<and> (reads_by (snd (unlock_by ow l)) p \<longleftrightarrow> reads_by l p)"
    by (auto simp: rwlock_defs)
next
  fix l and ow :: lock_owner assume "rwlock_inv l" "\<forall>p. p \<noteq> ow \<longrightarrow> \<not> writes_by l p"
  then show "fst (rlock_by ow l)" by (cases "ow = wowner l") (auto simp: rwlock_defs)
qed (auto simp: rwlock_defs new_rwlock_def distinct_removeAll)

section \<open>Properties\<close>

datatype lock_op = WLock lock_owner | RLock lock_owner | Unlock lock_owner

fun lock_step :: "lock_op \<Rightarrow> rwlock \<Rightarrow> rwlock" where
  "lock_step (WLock ow) l = snd (wlock_by ow l)"
| "lock_step (RLock ow) l = snd (rlock_by ow l)"
| "lock_step (Unlock ow) l = snd (unlock_by ow l)"

fun enc_op :: "lock_op \<Rightarrow> nat \<times> lock_owner" where
  "enc_op (WLock ow) = (0, ow)" | "enc_op (RLock ow) = (1, ow)" | "enc_op (Unlock ow) = (2, ow)"

lemma lock_step_enc: "lock_step a l = rw.step (enc_op a) l"
  by (cases a) (simp_all add: rw.step_def)

lemma lock_run_enc: "fold lock_step as l = fold rw.step (map enc_op as) l"
  by (induction as arbitrary: l) (simp_all add: lock_step_enc)

text \<open>C27. Mutual exclusion: after any history of lock and unlock requests from a fresh lock, an owner
  that holds the write lock is the only holder of anything; and the next write request is granted
  exactly when the requester ends up as the writer, and is granted whenever nobody else holds the
  lock, upgrades included.\<close>

theorem rwlock_mutex:
  "(writes_by (fold lock_step as new_rwlock) a \<and>
      (writes_by (fold lock_step as new_rwlock) b \<or> reads_by (fold lock_step as new_rwlock) b) \<longrightarrow> b = a) \<and>
   (fst (wlock_by a (fold lock_step as new_rwlock)) \<longleftrightarrow>
      (\<forall>p. p \<noteq> a \<longrightarrow> \<not> writes_by (fold lock_step as new_rwlock) p \<and> \<not> reads_by (fold lock_step as new_rwlock) p))"
proof -
  let ?l = "fold lock_step as new_rwlock"
  have inv: "rwlock_inv ?l" unfolding lock_run_enc by (rule rw.run_inv [OF rw.init_inv])
  have "\<not> writes_by ?l p \<and> \<not> reads_by ?l p" if "fst (wlock_by a ?l)" "p \<noteq> a" for p
  proof -
    have w: "writes_by (snd (wlock_by a ?l)) a" using rw.wlock_granted [OF inv] that(1) by blast
    have "\<not> writes_by (snd (wlock_by a ?l)) p \<and> \<not> reads_by (snd (wlock_by a ?l)) p"
      using rw.excl [OF rw.wlock_inv [OF inv] w] that(2) by blast
    then show ?thesis using rw.others [OF inv that(2)] by blast
  qed
  then have "fst (wlock_by a ?l) \<longleftrightarrow> (\<forall>p. p \<noteq> a \<longrightarrow> \<not> writes_by ?l p \<and> \<not> reads_by ?l p)"
    using rw.wlock_possible [OF inv] by blast
  then show ?thesis using rw.excl [OF inv] by blast
qed

theorem rwlock_mutex_witness:
  "writes_by (fold lock_step [RLock 1, WLock 1, RLock 2] new_rwlock) 1 \<and>
   \<not> reads_by (fold lock_step [RLock 1, WLock 1, RLock 2] new_rwlock) 2"
proof -
  have "writes_by (fold lock_step [RLock 1, WLock 1, RLock 2] new_rwlock) 1" by code_simp
  with rwlock_mutex [of "[RLock 1, WLock 1, RLock 2]" 1 2] show ?thesis by auto
qed

text \<open>A granted read lock is respected until it is released: as long as its holder makes no
  request, no write request of anybody else is granted, whatever the other owners do in between.\<close>

theorem rwlock_reader_protected:
  assumes "fst (rlock_by p (fold lock_step as new_rwlock))"
    and "reads_by (snd (rlock_by p (fold lock_step as new_rwlock))) p"
    and "\<forall>a \<in> set bs. snd (enc_op a) \<noteq> p" and "ow \<noteq> p"
  shows "\<not> fst (wlock_by ow (fold lock_step bs (snd (rlock_by p (fold lock_step as new_rwlock)))))"
proof -
  have "rwlock_inv (snd (rlock_by p (fold lock_step as new_rwlock)))"
    unfolding lock_run_enc by (intro rw.rlock_inv rw.run_inv rw.init_inv)
  from rw.no_writer_while_read [OF this assms(2), of "map enc_op bs" ow] assms(3,4)
  show ?thesis by (simp add: lock_run_enc [of bs])
qed

theorem rwlock_reader_protected_witness:
  "\<not> fst (wlock_by 3 (fold lock_step [RLock 2, Unlock 2] (snd (rlock_by 1 (fold lock_step [] new_rwlock)))))"
proof -
  have "fst (rlock_by 1 (fold lock_step [] new_rwlock))"
    "reads_by (snd (rlock_by 1 (fold lock_step [] new_rwlock))) 1" by code_simp+
  from rwlock_reader_protected [OF this, of "[RLock 2, Unlock 2]" 3] show ?thesis by simp
qed

end
