(* ===== verification/Mdb_Db.thy ===== *)
theory Mdb_Db
  imports Mdb_Table Mdb_Lock
begin

text \<open>
  The database the transactions of \<^verbatim>\<open>memdb/txn.cc\<close> work on: the row heap, the schemas and the
  tables (\<^verbatim>\<open>memdb/table.h\<close>), and, for the rows of \<^verbatim>\<open>memdb/row.h\<close> that have them, the row lock
  and the versions of the columns. A pointer to a row, a schema or a table is its index. The
  operations dispatch on the kind of table as the virtual calls do: a column is read, a column of a
  row is updated (through its table, when it is in one), a row enters or leaves a table. Snapshot
  tables are modelled in \<^verbatim>\<open>Mdb_Snapshot\<close> and are not part of this database.

  The contract \<open>column_store\<close> is what a client of a transaction relies on: a read returns the view, a
  write changes the view at one place. It is proved here for unprotected accesses (\<^verbatim>\<open>TxnUnsafe\<close>), and
  in the theories above for each kind of transaction.
\<close>

section \<open>The database\<close>

datatype tkind = TBL_SORTED | TBL_UNSORTED

datatype row_kind = ROW_BASIC | ROW_COARSE | ROW_FINE | ROW_VERSIONED

record db =
  d_heap :: row_heap
  d_schemas :: "schema list"
  d_tables :: "(tkind \<times> table) list"
  d_kind :: "nat \<Rightarrow> row_kind"
  d_ver :: "nat \<Rightarrow> nat \<Rightarrow> int"
  d_lock :: "nat \<Rightarrow> rwlock"

definition schema_at :: "db \<Rightarrow> nat \<Rightarrow> schema res" where
  "schema_at d i = (if i < length (d_schemas d) then Inr (d_schemas d ! i) else Inl BadPointer)"

definition table_at :: "db \<Rightarrow> nat \<Rightarrow> (tkind \<times> table) res" where
  "table_at d t = (if t < length (d_tables d) then Inr (d_tables d ! t) else Inl BadPointer)"

definition put_table :: "nat \<Rightarrow> tkind \<Rightarrow> tstate \<Rightarrow> db \<Rightarrow> db" where
  "put_table t k st d = d\<lparr>d_heap := fst st, d_tables := (d_tables d)[t := (k, snd st)]\<rparr>"

text \<open>\<^verbatim>\<open>Row::get_table\<close>, \<^verbatim>\<open>Row::get_column\<close> and \<^verbatim>\<open>Row::get_key\<close> through a pointer.\<close>

definition row_table :: "nat \<Rightarrow> db \<Rightarrow> nat option res" where
  "row_table p d = rbind (cell_at (d_heap d) p) (\<lambda>c. Inr (tbl (c_row c)))"

definition row_get :: "nat \<Rightarrow> nat \<Rightarrow> db \<Rightarrow> mvalue res" where
  "row_get p col d =
     rbind (cell_at (d_heap d) p) (\<lambda>c. rbind (schema_at d (c_schema c)) (\<lambda>s. get_column s (c_row c) col))"

definition row_key :: "nat \<Rightarrow> db \<Rightarrow> multi_blob res" where
  "row_key p d =
     rbind (cell_at (d_heap d) p) (\<lambda>c. rbind (schema_at d (c_schema c)) (\<lambda>s. get_key s (c_row c)))"

text \<open>The virtual \<^verbatim>\<open>Table::insert\<close> and \<^verbatim>\<open>Table::remove(Row*, bool)\<close>.\<close>

definition tbl_insert :: "nat \<Rightarrow> nat \<Rightarrow> db \<Rightarrow> db res" where
  "tbl_insert t p d =
     rbind (table_at d t)
       (\<lambda>(k, tab). rbind (schema_at d (t_schema tab))
         (\<lambda>s. rbind (case k of TBL_SORTED \<Rightarrow> st_insert s p (d_heap d, tab) | TBL_UNSORTED \<Rightarrow> ut_insert s p (d_heap d, tab))
           (\<lambda>st. Inr (put_table t k st d))))"

definition tbl_remove :: "nat \<Rightarrow> nat \<Rightarrow> bool \<Rightarrow> db \<Rightarrow> db res" where
  "tbl_remove t p do_free d =
     rbind (table_at d t)
       (\<lambda>(k, tab). rbind (schema_at d (t_schema tab))
         (\<lambda>s. rbind (case k of TBL_SORTED \<Rightarrow> st_remove_row s p do_free (d_heap d, tab)
                             | TBL_UNSORTED \<Rightarrow> ut_remove_row s p do_free (d_heap d, tab))
           (\<lambda>st. Inr (put_table t k st d))))"

text \<open>\<^verbatim>\<open>Row::update(int, const Value&)\<close>: a row in a table is updated through its table.\<close>

definition row_upd :: "nat \<Rightarrow> nat \<Rightarrow> mvalue \<Rightarrow> db \<Rightarrow> db res" where
  "row_upd p col v d =
     rbind (cell_at (d_heap d) p)
       (\<lambda>c. rbind (schema_at d (c_schema c))
         (\<lambda>s. case tbl (c_row c) of
            None \<Rightarrow> rbind (row_update s col v (c_row c))
              (\<lambda>(r, calls). rbind (put_row p r (d_heap d)) (\<lambda>h. Inr (d\<lparr>d_heap := h\<rparr>)))
          | Some t \<Rightarrow> rbind (table_at d t)
              (\<lambda>(k, tab). rbind (case k of TBL_SORTED \<Rightarrow> st_update s p col v (d_heap d, tab)
                                         | TBL_UNSORTED \<Rightarrow> ut_update s p col v (d_heap d, tab))
                (\<lambda>st. Inr (put_table t k st d)))))"

text \<open>References, row locks and column versions.\<close>

definition ref_copy :: "nat \<Rightarrow> db \<Rightarrow> db res" where
  "ref_copy p d =
     rbind (cell_at (d_heap d) p) (\<lambda>c. Inr (d\<lparr>d_heap := (d_heap d)[p := Some (c\<lparr>c_refs := Suc (c_refs c)\<rparr>)]\<rparr>))"

definition row_release :: "nat \<Rightarrow> db \<Rightarrow> db res" where
  "row_release p d = rbind (release p (d_heap d)) (\<lambda>h. Inr (d\<lparr>d_heap := h\<rparr>))"

definition rlock_row_by :: "lock_owner \<Rightarrow> nat \<Rightarrow> db \<Rightarrow> (bool \<times> db) res" where
  "rlock_row_by ow p d =
     rbind (cell_at (d_heap d) p) (\<lambda>c. let (b, l) = rlock_by ow (d_lock d p) in Inr (b, d\<lparr>d_lock := (d_lock d)(p := l)\<rparr>))"

definition wlock_row_by :: "lock_owner \<Rightarrow> nat \<Rightarrow> db \<Rightarrow> (bool \<times> db) res" where
  "wlock_row_by ow p d =
     rbind (cell_at (d_heap d) p) (\<lambda>c. let (b, l) = wlock_by ow (d_lock d p) in Inr (b, d\<lparr>d_lock := (d_lock d)(p := l)\<rparr>))"

definition unlock_row_by :: "lock_owner \<Rightarrow> nat \<Rightarrow> db \<Rightarrow> (bool \<times> db) res" where
  "unlock_row_by ow p d =
     rbind (cell_at (d_heap d) p) (\<lambda>c. let (b, l) = unlock_by ow (d_lock d p) in Inr (b, d\<lparr>d_lock := (d_lock d)(p := l)\<rparr>))"

text \<open>The array \<^verbatim>\<open>ver_\<close> has a version for each column that is not hidden. A version counts the
  updates of a column; the 64 bits of \<^verbatim>\<open>version_t\<close> are not exhausted, and the model counts exactly.\<close>

definition get_column_ver :: "nat \<Rightarrow> nat \<Rightarrow> db \<Rightarrow> int res" where
  "get_column_ver p col d =
     rbind (cell_at (d_heap d) p)
       (\<lambda>c. rbind (schema_at d (c_schema c)) (\<lambda>s. if col < columns_count s then Inr (d_ver d p col) else Inl OutOfRange))"

definition incr_column_ver :: "nat \<Rightarrow> nat \<Rightarrow> db \<Rightarrow> db res" where
  "incr_column_ver p col d =
     rbind (get_column_ver p col d)
       (\<lambda>n. Inr (d\<lparr>d_ver := (d_ver d)(p := (d_ver d p)(col := n + 1))\<rparr>))"

definition row_columns_count :: "nat \<Rightarrow> db \<Rightarrow> nat res" where
  "row_columns_count p d =
     rbind (cell_at (d_heap d) p) (\<lambda>c. rbind (schema_at d (c_schema c)) (\<lambda>s. Inr (columns_count s)))"

section \<open>The invariant\<close>

definition table_wf :: "db \<Rightarrow> nat \<Rightarrow> bool" where
  "table_wf d t \<longleftrightarrow> (case d_tables d ! t of (k, tab) \<Rightarrow>
     t_id tab = t \<and> t_schema tab < length (d_schemas d) \<and>
     (k = TBL_SORTED \<longrightarrow> table_inv (d_schemas d ! t_schema tab) (d_heap d, tab)))"

definition db_inv :: "db \<Rightarrow> bool" where
  "db_inv d \<longleftrightarrow> list_all schema_inv (d_schemas d) \<and> (\<forall>t < length (d_tables d). table_wf d t)"

text \<open>A row that is in a sorted table and not read-only; a column of it; a value that can be stored
  there (the type fits, no NaN comes into a key, and no key with a string column can dangle).\<close>

definition in_table :: "nat \<Rightarrow> db \<Rightarrow> bool" where
  "in_table p d \<longleftrightarrow> (case cell_at (d_heap d) p of Inl _ \<Rightarrow> False | Inr c \<Rightarrow>
     (case tbl (c_row c) of None \<Rightarrow> False | Some t \<Rightarrow>
        t < length (d_tables d) \<and> fst (d_tables d ! t) = TBL_SORTED \<and>
        p \<in> snd ` set (t_rows (snd (d_tables d ! t))) \<and> \<not> rdonly (c_row c)))"

definition row_schema :: "nat \<Rightarrow> db \<Rightarrow> schema" where
  "row_schema p d = (case cell_at (d_heap d) p of Inl _ \<Rightarrow> new_schema | Inr c \<Rightarrow> d_schemas d ! c_schema c)"

definition db_readable :: "db \<Rightarrow> nat \<Rightarrow> nat \<Rightarrow> bool" where
  "db_readable d p col \<longleftrightarrow> in_table p d \<and> col < columns_count (row_schema p d)"

definition db_writable :: "db \<Rightarrow> nat \<Rightarrow> nat \<Rightarrow> mvalue \<Rightarrow> bool" where
  "db_writable d p col v \<longleftrightarrow> in_table p d \<and> col < columns_count (row_schema p d) \<and>
     get_kind v = col_type (col_info (row_schema p d) ! col) \<and> (indexed (col_info (row_schema p d) ! col) \<longrightarrow> \<not> is_nan v) \<and>
     (str_key (row_schema p d) \<longrightarrow> indexed (col_info (row_schema p d) ! col))"

text \<open>The contents: the value of a column of a row.\<close>

definition db_val :: "db \<Rightarrow> nat \<Rightarrow> nat \<Rightarrow> mvalue" where
  "db_val d p col = (case row_get p col d of Inl _ \<Rightarrow> UNKNOWN | Inr v \<Rightarrow> v)"

lemma schema_at_upd [simp]:
  "schema_at (d\<lparr>d_heap := h\<rparr>) = schema_at d" "schema_at (d\<lparr>d_ver := x\<rparr>) = schema_at d" "schema_at (d\<lparr>d_lock := y\<rparr>) = schema_at d"
  "schema_at (put_table t k st d) = schema_at d"
  by (simp_all add: schema_at_def put_table_def fun_eq_iff cong: if_cong)

lemma put_table_sel [simp]:
  "d_heap (put_table t k st d) = fst st" "d_schemas (put_table t k st d) = d_schemas d"
  "d_tables (put_table t k st d) = (d_tables d)[t := (k, snd st)]" "d_kind (put_table t k st d) = d_kind d"
  "d_ver (put_table t k st d) = d_ver d" "d_lock (put_table t k st d) = d_lock d"
  by (simp_all add: put_table_def)

lemma in_tableD:
  assumes "db_inv d" and "in_table p d"
  shows "\<exists>c t tab k. cell_at (d_heap d) p = Inr c \<and> tbl (c_row c) = Some t \<and> t < length (d_tables d) \<and>
    d_tables d ! t = (TBL_SORTED, tab) \<and> t_id tab = t \<and> (k, p) \<in> set (t_rows tab) \<and> \<not> rdonly (c_row c) \<and>
    c_schema c = t_schema tab \<and> c_schema c < length (d_schemas d) \<and> schema_inv (row_schema p d) \<and>
    row_schema p d = d_schemas d ! t_schema tab \<and> table_inv (row_schema p d) (d_heap d, tab) \<and> row_inv (row_schema p d) (c_row c)"
proof -
  obtain c t where c: "cell_at (d_heap d) p = Inr c" "tbl (c_row c) = Some t" "t < length (d_tables d)"
    "fst (d_tables d ! t) = TBL_SORTED" "p \<in> snd ` set (t_rows (snd (d_tables d ! t)))" "\<not> rdonly (c_row c)"
    using assms(2) by (auto simp: in_table_def split: sum.splits option.splits)
  define tab where "tab = snd (d_tables d ! t)"
  have dt: "d_tables d ! t = (TBL_SORTED, tab)" using c(4) tab_def by (metis prod.collapse)
  obtain k where k: "(k, p) \<in> set (t_rows tab)" using c(5) tab_def by force
  have wf: "table_wf d t" using assms(1) c(3) by (simp add: db_inv_def)
  then have tw: "t_id tab = t" "t_schema tab < length (d_schemas d)" "table_inv (d_schemas d ! t_schema tab) (d_heap d, tab)"
    using dt by (simp_all add: table_wf_def)
  have e: "c_schema c = t_schema tab" "row_inv (d_schemas d ! t_schema tab) (c_row c)"
    using entry_okD [OF table_invD(1) [OF tw(3) k]] c(1) by simp_all
  have s: "row_schema p d = d_schemas d ! t_schema tab" using c(1) e(1) by (simp add: row_schema_def)
  have "schema_inv (d_schemas d ! t_schema tab)" using assms(1) tw(2) by (simp add: db_inv_def list_all_length)
  then show ?thesis using c dt k tw e s by auto
qed

lemma columns_count_le: "columns_count s \<le> length (col_info s)"
  by (simp add: columns_count_def)

lemma row_get_eq:
  "cell_at (d_heap d) p = Inr c \<Longrightarrow> c_schema c < length (d_schemas d) \<Longrightarrow> row_get p col d = get_column (row_schema p d) (c_row c) col"
  by (simp add: row_get_def row_schema_def schema_at_def)

lemma row_get_readable:
  assumes "db_inv d" and "db_readable d p col"
  shows "row_get p col d = Inr (db_val d p col)"
proof -
  obtain c where c: "cell_at (d_heap d) p = Inr c" "c_schema c < length (d_schemas d)" "schema_inv (row_schema p d)" "row_inv (row_schema p d) (c_row c)"
    using in_tableD [OF assms(1), of p] assms(2) by (auto simp: db_readable_def)
  have "col < length (col_info (row_schema p d))" using assms(2) columns_count_le [of "row_schema p d"] by (simp add: db_readable_def)
  then obtain b where "rbind (get_column (row_schema p d) (c_row c) col) value_blob = Inr b"
    using blob_of_column [OF c(3,4)] by blast
  then obtain v where "row_get p col d = Inr v" using row_get_eq [OF c(1,2), of col] by auto
  then show ?thesis by (simp add: db_val_def)
qed

text \<open>A heap and a table list that differ from the database's only at one row and its table.\<close>

lemma table_inv_frame:
  assumes "table_inv s (h, tab)" and "\<And>e. e \<in> set (t_rows tab) \<Longrightarrow> cell_at h' (snd e) = cell_at h (snd e)"
  shows "table_inv s (h', tab)"
  using assms entry_ok_frame [of h' _ h tab tab s] by (simp add: table_inv_def)

lemma db_inv_put:
  assumes inv: "db_inv d" and t: "t < length (d_tables d)" "d_tables d ! t = (TBL_SORTED, tab)"
    and tab: "t_id tab' = t_id tab" "t_schema tab' = t_schema tab" "table_inv (d_schemas d ! t_schema tab) (h', tab')"
    and frame: "\<And>q. q \<noteq> p \<Longrightarrow> cell_at h' q = cell_at (d_heap d) q"
    and p: "\<And>u tab2 e. u < length (d_tables d) \<Longrightarrow> u \<noteq> t \<Longrightarrow> d_tables d ! u = (TBL_SORTED, tab2) \<Longrightarrow> e \<in> set (t_rows tab2) \<Longrightarrow> snd e \<noteq> p"
  shows "db_inv (put_table t TBL_SORTED (h', tab') d)"
proof -
  let ?d = "put_table t TBL_SORTED (h', tab') d"
  have "table_wf ?d u" if u: "u < length (d_tables d)" for u
  proof (cases "u = t")
    case True
    then show ?thesis using inv t tab by (auto simp: table_wf_def put_table_def db_inv_def)
  next
    case False
    obtain k2 tab2 where t2: "d_tables d ! u = (k2, tab2)" by fastforce
    have "table_wf d u" using inv u by (simp add: db_inv_def)
    then show ?thesis
      using False t2 u p [OF u False] frame table_inv_frame [of _ "d_heap d" tab2 h']
      by (auto simp: table_wf_def put_table_def)
  qed
  then show ?thesis using inv by (simp add: db_inv_def put_table_def)
qed

lemma other_table:
  assumes "db_inv d" and "u < length (d_tables d)" and "d_tables d ! u = (TBL_SORTED, tab2)" and "e \<in> set (t_rows tab2)"
    and "cell_at (d_heap d) p = Inr c" and "tbl (c_row c) \<noteq> Some u"
  shows "snd e \<noteq> p"
proof -
  have "table_wf d u" using assms(1,2) by (simp add: db_inv_def)
  then have tw: "t_id tab2 = u" "table_inv (d_schemas d ! t_schema tab2) (d_heap d, tab2)" using assms(3) by (simp_all add: table_wf_def)
  then show ?thesis using entry_okD [OF table_invD(1) [OF tw(2) assms(4)]] assms(5,6) by auto
qed

text \<open>The law of an update: it succeeds, keeps the invariant, changes one column of one row, and keeps
  which rows are in which tables and what can be read and written.\<close>

definition db_rows :: "nat \<Rightarrow> db \<Rightarrow> nat set" where
  "db_rows t d = snd ` set (t_rows (snd (d_tables d ! t)))"

definition same_frame :: "db \<Rightarrow> db \<Rightarrow> bool" where
  "same_frame d d' \<longleftrightarrow> d_schemas d' = d_schemas d \<and> d_kind d' = d_kind d \<and> length (d_tables d') = length (d_tables d) \<and>
     (\<forall>u. fst (d_tables d' ! u) = fst (d_tables d ! u) \<and> t_schema (snd (d_tables d' ! u)) = t_schema (snd (d_tables d ! u)))"

lemma same_frame_refl [simp]: "same_frame d d"
  by (simp add: same_frame_def)

lemma same_frame_trans: "same_frame d d' \<Longrightarrow> same_frame d' d'' \<Longrightarrow> same_frame d d''"
  by (simp add: same_frame_def)

lemma same_frame_put:
  assumes "d_tables d ! t = (k, tab)" and "t_schema (snd st) = t_schema tab"
  shows "same_frame d (put_table t k st d)"
  using assms by (cases "t < length (d_tables d)") (auto simp: same_frame_def nth_list_update list_update_beyond)

definition same_shape :: "db \<Rightarrow> db \<Rightarrow> bool" where
  "same_shape d d' \<longleftrightarrow> same_frame d d' \<and> (\<forall>u. db_rows u d' = db_rows u d) \<and>
     (\<forall>p. in_table p d' = in_table p d) \<and> (\<forall>p. row_schema p d' = row_schema p d) \<and> (\<forall>p. row_table p d' = row_table p d)"

lemma same_shape_refl [simp]: "same_shape d d"
  by (simp add: same_shape_def)

lemma same_shape_trans: "same_shape d d' \<Longrightarrow> same_shape d' d'' \<Longrightarrow> same_shape d d''"
  by (auto simp: same_shape_def intro: same_frame_trans)

lemma same_shapeD:
  assumes "same_shape d d'"
  shows "db_readable d' = db_readable d" "db_writable d' = db_writable d" "in_table p d' = in_table p d"
    "row_table p d' = row_table p d" "row_schema p d' = row_schema p d" "d_kind d' = d_kind d"
  using assms by (auto simp: same_shape_def same_frame_def db_readable_def db_writable_def fun_eq_iff)

lemma row_upd_spec:
  assumes inv: "db_inv d" and w: "db_writable d p col v"
  shows "\<exists>d'. row_upd p col v d = Inr d' \<and> db_inv d' \<and> same_shape d d' \<and> d_ver d' = d_ver d \<and> d_lock d' = d_lock d \<and>
    db_val d' = (db_val d)(p := (db_val d p)(col := v))"
proof -
  let ?s = "row_schema p d"
  obtain c t tab k where c: "cell_at (d_heap d) p = Inr c" "tbl (c_row c) = Some t" "t < length (d_tables d)"
    "d_tables d ! t = (TBL_SORTED, tab)" "t_id tab = t" "(k, p) \<in> set (t_rows tab)" "\<not> rdonly (c_row c)"
    "c_schema c = t_schema tab" "c_schema c < length (d_schemas d)" "schema_inv ?s" "?s = d_schemas d ! t_schema tab"
    "table_inv ?s (d_heap d, tab)"
    using in_tableD [OF inv, of p] w unfolding db_writable_def by blast
  have col: "col < length (col_info ?s)" "get_kind v = col_type (col_info ?s ! col)" "indexed (col_info ?s ! col) \<Longrightarrow> \<not> is_nan v"
    "str_key ?s \<Longrightarrow> indexed (col_info ?s ! col)"
    using w columns_count_le [of ?s] by (auto simp: db_writable_def)
  obtain tab' r' where u: "st_update ?s p col v (d_heap d, tab) = Inr ((d_heap d)[p := Some (c\<lparr>c_row := r'\<rparr>)], tab')"
    "table_inv ?s ((d_heap d)[p := Some (c\<lparr>c_row := r'\<rparr>)], tab')" "snd ` set (t_rows tab') = snd ` set (t_rows tab)"
    "t_id tab' = t_id tab" "t_schema tab' = t_schema tab" "tbl r' = Some (t_id tab)" "\<not> rdonly r'"
    "get_column ?s r' col = Inr v" "\<forall>j. j \<noteq> col \<longrightarrow> get_column ?s r' j = get_column ?s (c_row c) j"
    using table_update_spec [OF c(10,12,6,1,7) col] by blast
  let ?h = "(d_heap d)[p := Some (c\<lparr>c_row := r'\<rparr>)]"
  let ?d = "put_table t TBL_SORTED (?h, tab') d"
  have h: "cell_at ?h q = (if q = p then Inr (c\<lparr>c_row := r'\<rparr>) else cell_at (d_heap d) q)" for q
    using c(1) by (simp add: cell_at_Inr cell_at_upd)
  have "row_upd p col v d = Inr ?d"
    using c u(1) by (simp add: row_upd_def schema_at_def table_at_def)
  moreover have "db_inv ?d"
  proof (rule db_inv_put [OF inv c(3,4) u(4,5), where p = p])
    fix w tab2 e assume a: "w < length (d_tables d)" "w \<noteq> t" "d_tables d ! w = (TBL_SORTED, tab2)" "e \<in> set (t_rows tab2)"
    show "snd e \<noteq> p" using other_table [OF inv a(1,3,4) c(1)] c(2) a(2) by simp
  qed (use u(2) c(11) h in auto)
  moreover have sh: "row_schema q ?d = row_schema q d" "row_table q ?d = row_table q d" "in_table q ?d = in_table q d" for q
  proof -
    show "row_schema q ?d = row_schema q d" using c(1) by (simp add: row_schema_def h split: sum.split)
    show "row_table q ?d = row_table q d" using c(1,2,5) u(6) by (simp add: row_table_def h)
    show "in_table q ?d = in_table q d"
      using c(1-7) u(3,6,7) by (auto simp: in_table_def h nth_list_update split: sum.splits option.splits)
  qed
  moreover have "db_val ?d q j = (if q = p \<and> j = col then v else db_val d q j)" for q j
  proof (cases "q = p")
    case True
    then show ?thesis
      using row_get_eq [OF c(1,9), of j] row_get_eq [of ?d p "c\<lparr>c_row := r'\<rparr>" j] sh(1) [of p] u(8,9) c(9)
      by (auto simp: db_val_def h)
  qed (simp add: db_val_def row_get_def h)
  moreover have "db_rows w ?d = db_rows w d" for w
    using c(3,4) u(3) by (auto simp: db_rows_def nth_list_update)
  ultimately show ?thesis
    using same_frame_put [OF c(4), of "(?h, tab')"] u(5) by (intro exI [of _ ?d]) (auto simp: same_shape_def fun_eq_iff)
qed

section \<open>Rows that enter and leave tables\<close>

text \<open>A row that is in no table and fits the sorted table it is to enter.\<close>

definition fresh_row :: "nat \<Rightarrow> nat \<Rightarrow> db \<Rightarrow> bool" where
  "fresh_row t p d \<longleftrightarrow> t < length (d_tables d) \<and> fst (d_tables d ! t) = TBL_SORTED \<and>
     (case cell_at (d_heap d) p of Inl _ \<Rightarrow> False | Inr c \<Rightarrow>
        let tab = snd (d_tables d ! t); s = d_schemas d ! t_schema tab
        in row_inv s (c_row c) \<and> 0 < c_refs c \<and> c_schema c = t_schema tab \<and> tbl (c_row c) = None \<and> \<not> rdonly (c_row c) \<and>
           (case get_key s (c_row c) of Inl _ \<Rightarrow> False | Inr k \<Rightarrow> good_key s k))"

lemma sorted_table:
  assumes "db_inv d" and "t < length (d_tables d)" and "fst (d_tables d ! t) = TBL_SORTED"
  shows "\<exists>tab. d_tables d ! t = (TBL_SORTED, tab) \<and> t_id tab = t \<and> t_schema tab < length (d_schemas d) \<and>
    schema_inv (d_schemas d ! t_schema tab) \<and> table_inv (d_schemas d ! t_schema tab) (d_heap d, tab)"
proof -
  obtain tab where t: "d_tables d ! t = (TBL_SORTED, tab)" using assms(3) by (metis prod.collapse)
  have "table_wf d t" using assms(1,2) by (simp add: db_inv_def)
  then show ?thesis using t assms(1) by (auto simp: table_wf_def db_inv_def list_all_length)
qed

lemma tbl_insert_spec:
  assumes inv: "db_inv d" and fr: "fresh_row t p d"
  shows "\<exists>d'. tbl_insert t p d = Inr d' \<and> db_inv d' \<and> db_val d' = db_val d \<and> same_frame d d' \<and>
    d_ver d' = d_ver d \<and> d_lock d' = d_lock d \<and>
    (\<forall>u. db_rows u d' = (if u = t then insert p (db_rows t d) else db_rows u d)) \<and>
    row_table p d' = Inr (Some t) \<and> in_table p d' \<and> row_schema p d' = row_schema p d \<and>
    (\<forall>q. q \<noteq> p \<longrightarrow> cell_at (d_heap d') q = cell_at (d_heap d) q)"
proof -
  obtain tab where t: "d_tables d ! t = (TBL_SORTED, tab)" "t < length (d_tables d)" "t_id tab = t"
    "t_schema tab < length (d_schemas d)" "schema_inv (d_schemas d ! t_schema tab)"
    "table_inv (d_schemas d ! t_schema tab) (d_heap d, tab)"
    using sorted_table [OF inv, of t] fr by (auto simp: fresh_row_def)
  let ?s = "d_schemas d ! t_schema tab"
  obtain c k where c: "insertable ?s (d_heap d) tab p c k" "\<not> rdonly (c_row c)"
    using fr t(1) by (auto simp: fresh_row_def insertable_def Let_def split: sum.splits)
  then have cc: "cell_at (d_heap d) p = Inr c" "c_schema c = t_schema tab" "tbl (c_row c) = None" by (simp_all add: insertable_def)
  define c' where "c' = c\<lparr>c_row := (c_row c)\<lparr>tbl := Some (t_id tab)\<rparr>\<rparr>"
  define h' where "h' = (d_heap d)[p := Some c']"
  have h: "cell_at h' q = (if q = p then Inr c' else cell_at (d_heap d) q)" for q
    using cc(1) by (simp add: cell_at_Inr cell_at_upd h'_def)
  obtain tab' where ins: "st_insert ?s p (d_heap d, tab) = Inr (h', tab')" "table_inv ?s (h', tab')"
    "snd ` set (t_rows tab') = insert p (snd ` set (t_rows tab))" "t_id tab' = t_id tab" "t_schema tab' = t_schema tab"
  proof -
    let ?rows = "filter (\<lambda>e. krank ?s e \<le> rank_key ?s k) (t_rows tab) @ (k, p) # filter (\<lambda>e. rank_key ?s k < krank ?s e) (t_rows tab)"
    have "set ?rows = insert (k, p) (set (t_rows tab))" by (auto simp: not_le)
    then have "snd ` set ?rows = insert p (snd ` set (t_rows tab))" by (metis image_insert snd_conv)
    then show ?thesis using that [of "tab\<lparr>t_rows := ?rows\<rparr>"] st_insert_spec [OF t(5,6) c(1)] by (simp add: c'_def h'_def)
  qed
  let ?d = "put_table t TBL_SORTED (h', tab') d"
  have "tbl_insert t p d = Inr ?d" using t ins(1) by (simp add: tbl_insert_def table_at_def schema_at_def)
  moreover have "db_inv ?d"
  proof (rule db_inv_put [OF inv t(2,1) ins(4,5,2), where p = p])
    fix w tab2 e assume a: "w < length (d_tables d)" "w \<noteq> t" "d_tables d ! w = (TBL_SORTED, tab2)" "e \<in> set (t_rows tab2)"
    show "snd e \<noteq> p" using other_table [OF inv a(1,3,4) cc(1)] cc(3) by simp
  qed (simp add: h)
  moreover have "db_val ?d q j = db_val d q j" for q j
    using cc(1) by (simp add: db_val_def row_get_def h c'_def)
  moreover have "row_table p ?d = Inr (Some t)" "in_table p ?d" "row_schema p ?d = row_schema p d"
    using t ins(3) c(2) cc(1) by (simp_all add: row_table_def in_table_def row_schema_def h c'_def)
  ultimately show ?thesis
    using t ins(3) same_frame_put [OF t(1), of "(h', tab')"] ins(5)
    by (intro exI [of _ ?d]) (auto simp: fun_eq_iff h db_rows_def nth_list_update)
qed

lemma tbl_remove_spec:
  assumes inv: "db_inv d" and p: "in_table p d" "row_table p d = Inr (Some t)"
  shows "\<exists>d'. tbl_remove t p do_free d = Inr d' \<and> db_inv d' \<and> same_frame d d' \<and>
    d_ver d' = d_ver d \<and> d_lock d' = d_lock d \<and>
    (\<forall>u. db_rows u d' = (if u = t then db_rows t d - {p} else db_rows u d)) \<and>
    (\<not> do_free \<longrightarrow> (\<exists>c. cell_at (d_heap d) p = Inr c \<and> 0 < c_refs c \<and>
       cell_at (d_heap d') p = Inr (c\<lparr>c_row := (c_row c)\<lparr>tbl := None\<rparr>\<rparr>))) \<and>
    (\<forall>q. q \<noteq> p \<longrightarrow> cell_at (d_heap d') q = cell_at (d_heap d) q)"
proof -
  let ?s = "row_schema p d"
  obtain c tab k where c: "cell_at (d_heap d) p = Inr c" "tbl (c_row c) = Some t" "t < length (d_tables d)"
    "d_tables d ! t = (TBL_SORTED, tab)" "t_id tab = t" "(k, p) \<in> set (t_rows tab)" "\<not> rdonly (c_row c)"
    "c_schema c = t_schema tab" "c_schema c < length (d_schemas d)" "schema_inv ?s" "?s = d_schemas d ! t_schema tab"
    "table_inv ?s (d_heap d, tab)"
    using in_tableD [OF inv p(1)] p(2) by (auto simp: row_table_def)
  let ?h = "row_out p c do_free (d_heap d)" and ?tab = "tab\<lparr>t_rows := filter (\<lambda>e. snd e \<noteq> p) (t_rows tab)\<rparr>"
  let ?d = "put_table t TBL_SORTED (?h, ?tab) d"
  have "tbl_remove t p do_free d = Inr ?d"
    using c st_remove_row_spec [OF c(10,12,6,1)] by (simp add: tbl_remove_def table_at_def schema_at_def)
  moreover have "db_inv ?d"
  proof (rule db_inv_put [OF inv c(3,4), where p = p])
    show "table_inv (d_schemas d ! t_schema tab) (?h, ?tab)" using removed_inv [OF c(12), of p ?h] row_out_cell c(11) by metis
    fix w tab2 e assume a: "w < length (d_tables d)" "w \<noteq> t" "d_tables d ! w = (TBL_SORTED, tab2)" "e \<in> set (t_rows tab2)"
    show "snd e \<noteq> p" using other_table [OF inv a(1,3,4) c(1)] c(2) a(2) by simp
  qed (simp_all add: row_out_cell)
  moreover have "snd ` set (t_rows ?tab) = snd ` set (t_rows tab) - {p}" by auto
  moreover have "cell_at ?h p = Inr (c\<lparr>c_row := (c_row c)\<lparr>tbl := None\<rparr>\<rparr>)" if "\<not> do_free"
    using that c(1) by (simp add: row_out_def Let_def cell_at_Inr cell_at_upd)
  moreover have "0 < c_refs c" using entry_okD [OF table_invD(1) [OF c(12,6)]] c(1) by simp
  ultimately show ?thesis
    using c(1,3,4) same_frame_put [OF c(4), of "(?h, ?tab)"]
    by (intro exI [of _ ?d]) (auto simp: row_out_cell db_rows_def nth_list_update)
qed

text \<open>Dropping a reference to a row outside of the tables.\<close>

lemma row_release_spec:
  assumes inv: "db_inv d" and c: "cell_at (d_heap d) p = Inr c" "tbl (c_row c) = None" "0 < c_refs c"
  shows "\<exists>d'. row_release p d = Inr d' \<and> db_inv d' \<and> same_frame d d' \<and> d_ver d' = d_ver d \<and> d_lock d' = d_lock d \<and>
    (\<forall>u. db_rows u d' = db_rows u d) \<and> (\<forall>q. q \<noteq> p \<longrightarrow> cell_at (d_heap d') q = cell_at (d_heap d) q)"
proof -
  let ?h = "(d_heap d)[p := (if c_refs c = 1 then None else Some (c\<lparr>c_refs := c_refs c - 1\<rparr>))]"
  let ?d = "d\<lparr>d_heap := ?h\<rparr>"
  have h: "cell_at ?h q = cell_at (d_heap d) q" if "q \<noteq> p" for q using that by (simp add: cell_at_def)
  have "table_wf ?d u" if u: "u < length (d_tables d)" for u
  proof -
    obtain k tab where t: "d_tables d ! u = (k, tab)" by fastforce
    have "table_wf d u" using inv u by (simp add: db_inv_def)
    moreover have "table_inv (d_schemas d ! t_schema tab) (?h, tab)" if "k = TBL_SORTED" "table_inv (d_schemas d ! t_schema tab) (d_heap d, tab)"
      using table_inv_frame [OF that(2), of ?h] other_table [OF inv u _ _ c(1)] t that(1) c(2) h by auto
    ultimately show ?thesis using t by (simp add: table_wf_def)
  qed
  then have "db_inv ?d" using inv by (simp add: db_inv_def)
  moreover have "row_release p d = Inr ?d" using c by (simp add: row_release_def release_def)
  ultimately show ?thesis using h by (intro exI [of _ ?d]) (auto simp: same_frame_def db_rows_def)
qed

text \<open>What holds of a row whose cell and whose table's rows are unchanged.\<close>

lemma row_frame:
  assumes "same_frame d d'" and "cell_at (d_heap d') q = cell_at (d_heap d) q"
  shows "row_table q d' = row_table q d" "row_schema q d' = row_schema q d" "db_val d' q = db_val d q"
    "row_key q d' = row_key q d" "fresh_row t q d' = fresh_row t q d"
proof -
  have s: "schema_at d' = schema_at d" "d_schemas d' = d_schemas d"
    using assms(1) by (simp_all add: same_frame_def schema_at_def fun_eq_iff cong: if_cong)
  show "row_table q d' = row_table q d" "row_schema q d' = row_schema q d" "db_val d' q = db_val d q" "row_key q d' = row_key q d"
    unfolding row_table_def row_schema_def db_val_def row_get_def row_key_def assms(2) s by (rule refl)+
  have t: "fst (d_tables d' ! t) = fst (d_tables d ! t)" "t_schema (snd (d_tables d' ! t)) = t_schema (snd (d_tables d ! t))"
    "length (d_tables d') = length (d_tables d)"
    using assms(1) by (simp_all add: same_frame_def)
  show "fresh_row t q d' = fresh_row t q d" unfolding fresh_row_def assms(2) s t Let_def by (rule refl)
qed

lemma in_table_frame:
  assumes "same_frame d d'" and "cell_at (d_heap d') q = cell_at (d_heap d) q" and "\<forall>u. q \<in> db_rows u d \<longrightarrow> q \<in> db_rows u d'"
    and "in_table q d"
  shows "in_table q d'"
  using assms by (auto simp: in_table_def same_frame_def db_rows_def split: sum.splits option.splits)

lemma row_frame_ok:
  assumes "same_frame d d'" and "cell_at (d_heap d') q = cell_at (d_heap d) q" and "\<forall>u. q \<in> db_rows u d \<longrightarrow> q \<in> db_rows u d'"
  shows "db_readable d q col \<Longrightarrow> db_readable d' q col" "db_writable d q col v \<Longrightarrow> db_writable d' q col v"
  using in_table_frame [OF assms] row_frame(2) [OF assms(1,2)] by (auto simp: db_readable_def db_writable_def)

section \<open>The contract of column accesses\<close>

text \<open>A client program of column reads and writes, its run against an implementation, and its meaning
  on plain contents. A read that the transaction refuses yields \<open>None\<close>.\<close>

datatype col_op = Rd nat nat | Wr nat nat mvalue

type_synonym contents = "nat \<Rightarrow> nat \<Rightarrow> mvalue"

fun run_ops :: "(nat \<Rightarrow> nat \<Rightarrow> 's \<Rightarrow> (mvalue option \<times> 's) res) \<Rightarrow> (nat \<Rightarrow> nat \<Rightarrow> mvalue \<Rightarrow> 's \<Rightarrow> (bool \<times> 's) res) \<Rightarrow>
    col_op list \<Rightarrow> 's \<Rightarrow> (mvalue option list \<times> 's) res" where
  "run_ops rd wr [] s = Inr ([], s)"
| "run_ops rd wr (Rd p c # ops) s =
     rbind (rd p c s) (\<lambda>(v, s'). rbind (run_ops rd wr ops s') (\<lambda>(vs, s''). Inr (v # vs, s'')))"
| "run_ops rd wr (Wr p c v # ops) s = rbind (wr p c v s) (\<lambda>(b, s'). run_ops rd wr ops s')"

definition store_val :: "nat \<Rightarrow> nat \<Rightarrow> mvalue \<Rightarrow> contents \<Rightarrow> contents" where
  "store_val p c v m = m(p := (m p)(c := v))"

fun spec_ops :: "col_op list \<Rightarrow> contents \<Rightarrow> mvalue option list \<times> contents" where
  "spec_ops [] m = ([], m)"
| "spec_ops (Rd p c # ops) m = (let (vs, m') = spec_ops ops m in (Some (m p c) # vs, m'))"
| "spec_ops (Wr p c v # ops) m = spec_ops ops (store_val p c v m)"

fun op_ok :: "(nat \<Rightarrow> nat \<Rightarrow> bool) \<Rightarrow> (nat \<Rightarrow> nat \<Rightarrow> mvalue \<Rightarrow> bool) \<Rightarrow> col_op \<Rightarrow> bool" where
  "op_ok rd wr (Rd p c) = rd p c"
| "op_ok rd wr (Wr p c v) = wr p c v"

locale column_store =
  fixes inv :: "'s \<Rightarrow> bool"
    and readable :: "'s \<Rightarrow> nat \<Rightarrow> nat \<Rightarrow> bool"
    and writable :: "'s \<Rightarrow> nat \<Rightarrow> nat \<Rightarrow> mvalue \<Rightarrow> bool"
    and view :: "'s \<Rightarrow> contents"
    and rd :: "nat \<Rightarrow> nat \<Rightarrow> 's \<Rightarrow> (mvalue option \<times> 's) res"
    and wr :: "nat \<Rightarrow> nat \<Rightarrow> mvalue \<Rightarrow> 's \<Rightarrow> (bool \<times> 's) res"
  assumes rd_law: "inv s \<Longrightarrow> readable s p c \<Longrightarrow> \<exists>s'. rd p c s = Inr (Some (view s p c), s') \<and> inv s' \<and> view s' = view s \<and>
      readable s' = readable s \<and> writable s' = writable s"
    and wr_law: "inv s \<Longrightarrow> writable s p c v \<Longrightarrow> \<exists>s'. wr p c v s = Inr (True, s') \<and> inv s' \<and> view s' = store_val p c v (view s) \<and>
      readable s' = readable s \<and> writable s' = writable s"
begin

lemma run_spec:
  "inv s \<Longrightarrow> list_all (op_ok (readable s) (writable s)) ops \<Longrightarrow>
    \<exists>s'. run_ops rd wr ops s = Inr (fst (spec_ops ops (view s)), s') \<and> inv s' \<and> view s' = snd (spec_ops ops (view s)) \<and>
      readable s' = readable s \<and> writable s' = writable s"
proof (induction ops arbitrary: s)
  case (Cons op ops)
  show ?case
  proof (cases op)
    case (Rd p c)
    obtain s1 where s1: "rd p c s = Inr (Some (view s p c), s1)" "inv s1" "view s1 = view s" "readable s1 = readable s" "writable s1 = writable s"
      using rd_law Cons.prems Rd by fastforce
    then show ?thesis using Cons.IH [of s1] Cons.prems Rd by (auto simp: case_prod_beta Let_def)
  next
    case (Wr p c v)
    obtain s1 where s1: "wr p c v s = Inr (True, s1)" "inv s1" "view s1 = store_val p c v (view s)" "readable s1 = readable s" "writable s1 = writable s"
      using wr_law Cons.prems Wr by fastforce
    then show ?thesis using Cons.IH [of s1] Cons.prems Wr by auto
  qed
qed simp

end

text \<open>A transaction: the stored contents change when it commits, and become its view.\<close>

locale transaction = column_store inv readable writable view rd wr
  for inv :: "'s \<Rightarrow> bool" and readable writable view rd wr +
  fixes stored :: "'s \<Rightarrow> contents"
    and commit :: "'s \<Rightarrow> (bool \<times> 's) res"
  assumes commit_law: "inv s \<Longrightarrow> \<exists>s'. commit s = Inr (True, s') \<and> stored s' = view s"
begin

lemma run_commit:
  assumes "inv s" and "list_all (op_ok (readable s) (writable s)) ops"
  shows "\<exists>s' s''. run_ops rd wr ops s = Inr (fst (spec_ops ops (view s)), s') \<and> commit s' = Inr (True, s'') \<and>
    stored s'' = snd (spec_ops ops (view s))"
  using run_spec [OF assms] commit_law by metis

end

text \<open>A transaction that keeps its writes to itself until it commits.\<close>

locale isolated_transaction = transaction +
  assumes rd_stored: "inv s \<Longrightarrow> readable s p c \<Longrightarrow> rd p c s = Inr (r, s') \<Longrightarrow> stored s' = stored s"
    and wr_stored: "inv s \<Longrightarrow> writable s p c v \<Longrightarrow> wr p c v s = Inr (b, s') \<Longrightarrow> stored s' = stored s"
begin

lemma run_stored:
  "inv s \<Longrightarrow> list_all (op_ok (readable s) (writable s)) ops \<Longrightarrow> run_ops rd wr ops s = Inr (vs, s') \<Longrightarrow> stored s' = stored s"
proof (induction ops arbitrary: s vs)
  case (Cons op ops)
  show ?case
  proof (cases op)
    case (Rd p c)
    then obtain s1 where s1: "rd p c s = Inr (Some (view s p c), s1)" "inv s1" "readable s1 = readable s" "writable s1 = writable s"
      using rd_law [OF Cons.prems(1), of p c] Cons.prems(2) by auto
    then obtain ws where "run_ops rd wr ops s1 = Inr (ws, s')" using Cons.prems(3) Rd by auto
    then show ?thesis using Cons.IH [OF s1(2)] Cons.prems(1,2) Rd s1 rd_stored [of s p c _ s1] by auto
  next
    case (Wr p c v)
    then obtain s1 where s1: "wr p c v s = Inr (True, s1)" "inv s1" "readable s1 = readable s" "writable s1 = writable s"
      using wr_law [OF Cons.prems(1), of p c v] Cons.prems(2) by auto
    then show ?thesis using Cons.IH [OF s1(2)] Cons.prems Wr wr_stored [of s p c v True s1] by auto
  qed
qed simp

end

section \<open>TxnUnsafe\<close>

text \<open>Accesses without protection go to the rows and tables directly.\<close>

definition unsafe_read_column :: "nat \<Rightarrow> nat \<Rightarrow> db \<times> 'x \<Rightarrow> (mvalue option \<times> db \<times> 'x) res" where
  "unsafe_read_column p col = (\<lambda>(d, x). rbind (row_get p col d) (\<lambda>v. Inr (Some v, d, x)))"

definition unsafe_write_column :: "nat \<Rightarrow> nat \<Rightarrow> mvalue \<Rightarrow> db \<times> 'x \<Rightarrow> (bool \<times> db \<times> 'x) res" where
  "unsafe_write_column p col v = (\<lambda>(d, x). rbind (row_upd p col v d) (\<lambda>d'. Inr (True, d', x)))"

definition unsafe_insert_row :: "nat \<Rightarrow> nat \<Rightarrow> db \<times> 'x \<Rightarrow> (bool \<times> db \<times> 'x) res" where
  "unsafe_insert_row t p = (\<lambda>(d, x). rbind (tbl_insert t p d) (\<lambda>d'. Inr (True, d', x)))"

definition unsafe_remove_row :: "nat \<Rightarrow> nat \<Rightarrow> db \<times> 'x \<Rightarrow> (bool \<times> db \<times> 'x) res" where
  "unsafe_remove_row t p = (\<lambda>(d, x). rbind (tbl_remove t p True d) (\<lambda>d'. Inr (True, d', x)))"

definition unsafe_commit :: "db \<times> 'x \<Rightarrow> (bool \<times> db \<times> 'x) res" where
  "unsafe_commit st = Inr (True, st)"

definition unsafe_abort :: "db \<times> 'x \<Rightarrow> (db \<times> 'x) res" where
  "unsafe_abort st = Inr st"

interpretation unsafe: transaction "\<lambda>s :: db \<times> unit. db_inv (fst s)" "\<lambda>s. db_readable (fst s)" "\<lambda>s. db_writable (fst s)"
  "\<lambda>s. db_val (fst s)" unsafe_read_column unsafe_write_column "\<lambda>s. db_val (fst s)" unsafe_commit
proof unfold_locales
  fix s :: "db \<times> unit" and p c v
  show "db_inv (fst s) \<Longrightarrow> db_readable (fst s) p c \<Longrightarrow> \<exists>s'. unsafe_read_column p c s = Inr (Some (db_val (fst s) p c), s') \<and>
      db_inv (fst s') \<and> db_val (fst s') = db_val (fst s) \<and> db_readable (fst s') = db_readable (fst s) \<and>
      db_writable (fst s') = db_writable (fst s)"
    by (cases s) (auto simp: unsafe_read_column_def row_get_readable)
  assume "db_inv (fst s)" "db_writable (fst s) p c v"
  then obtain d' where "row_upd p c v (fst s) = Inr d'" "db_inv d'" "same_shape (fst s) d'"
    "db_val d' = store_val p c v (db_val (fst s))"
    using row_upd_spec [of "fst s" p c v] by (auto simp: store_val_def)
  then show "\<exists>s'. unsafe_write_column p c v s = Inr (True, s') \<and> db_inv (fst s') \<and>
      db_val (fst s') = store_val p c v (db_val (fst s)) \<and> db_readable (fst s') = db_readable (fst s) \<and>
      db_writable (fst s') = db_writable (fst s)"
    using same_shapeD(1,2) [of "fst s" d'] by (cases s) (auto simp: unsafe_write_column_def)
qed (simp add: unsafe_commit_def)

section \<open>A small database\<close>

text \<open>Two rows with the keys 7 and 9 in a sorted table, and a third row with the key 3 outside.\<close>

definition demo_cell :: "i32 \<Rightarrow> i64 \<Rightarrow> nat option \<Rightarrow> cell" where
  "demo_cell i b t = \<lparr>c_row = demo_row\<lparr>fixed_part := le_bytes 4 i @ le_bytes 8 b, tbl := t\<rparr>, c_refs = 1, c_schema = 0\<rparr>"

definition demo_db :: db where
  "demo_db = \<lparr>d_heap = [Some (demo_cell 7 100 (Some 0)), Some (demo_cell 9 200 (Some 0)), Some (demo_cell 3 50 None)],
     d_schemas = [demo_schema],
     d_tables = [(TBL_SORTED, \<lparr>t_id = 0, t_schema = 0, t_rows = [([[7, 0, 0, 0]], 0), ([[9, 0, 0, 0]], 1)]\<rparr>)],
     d_kind = (\<lambda>_. ROW_VERSIONED), d_ver = (\<lambda>_ _. 0), d_lock = (\<lambda>_. new_rwlock)\<rparr>"

lemma demo_db_inv: "db_inv demo_db"
proof -
  have "list_all schema_inv (d_schemas demo_db)" using demo_inv(1) by (simp add: demo_db_def)
  moreover have "table_wf demo_db 0" by code_simp
  moreover have "length (d_tables demo_db) = 1" by (simp add: demo_db_def)
  ultimately show ?thesis by (simp add: db_inv_def)
qed

lemma demo_db_ok: "db_readable demo_db 0 2" "db_readable demo_db 1 2" "db_writable demo_db 0 2 (I64 5)" "db_writable demo_db 1 2 (I64 6)"
  "fresh_row 0 2 demo_db"
  by code_simp+

end
