(* ===== verification/Mdb_Cursor.thy ===== *)
theory Mdb_Cursor
  imports Mdb_Db "HOL-Library.Sublist"
begin

text \<open>
  Result sets of queries inside a transaction (\<^verbatim>\<open>memdb/txn.cc\<close>): the class \<^verbatim>\<open>MergedCursor\<close>, which
  merges the rows a query finds in the table (or in the base transaction) with the rows the
  transaction has staged for insertion, and leaves out the rows it has staged for removal.

  The contract of \<^verbatim>\<open>Enumerator\<close> is a locale: \<open>rows\<close> is what is still to be delivered. Table cursors meet
  it, and a merged cursor over any cursor that meets it does too, so that it holds for the cursors of
  nested transactions of any depth. A cursor is read while neither the table nor the staging area
  changes: it holds the rows of its range from its creation.
\<close>

section \<open>Enumerators\<close>

text \<open>The virtual methods of \<^verbatim>\<open>Enumerator<const Row*>\<close>. \<^verbatim>\<open>has_next\<close> may advance the internal state.\<close>

record 'e enum_vt =
  vt_has_next :: "'e \<Rightarrow> (bool \<times> 'e) res"
  vt_next :: "'e \<Rightarrow> (nat \<times> 'e) res"
  vt_reset :: "'e \<Rightarrow> 'e"

locale enumerator =
  fixes vt :: "'e enum_vt"
    and rows :: "'e \<Rightarrow> nat list"
    and ok :: "'e \<Rightarrow> bool"
  assumes has_next_law: "ok e \<Longrightarrow> \<exists>e'. vt_has_next vt e = Inr (rows e \<noteq> [], e') \<and> rows e' = rows e \<and> ok e'"
    and next_law: "ok e \<Longrightarrow> rows e = p # ps \<Longrightarrow> \<exists>e'. vt_next vt e = Inr (p, e') \<and> rows e' = ps \<and> ok e'"

text \<open>Reading an enumerator to its end.\<close>

fun drain :: "nat \<Rightarrow> 'e enum_vt \<Rightarrow> 'e \<Rightarrow> (nat list \<times> 'e) res" where
  "drain 0 vt e = Inl OutOfFuel"
| "drain (Suc n) vt e =
     rbind (vt_has_next vt e)
       (\<lambda>(b, e'). if b then rbind (vt_next vt e') (\<lambda>(p, e''). rbind (drain n vt e'') (\<lambda>(ps, z). Inr (p # ps, z)))
                 else Inr ([], e'))"

context enumerator
begin

lemma drain_rows: "ok e \<Longrightarrow> length (rows e) < n \<Longrightarrow> \<exists>e'. drain n vt e = Inr (rows e, e') \<and> rows e' = [] \<and> ok e'"
proof (induction n arbitrary: e)
  case (Suc n)
  obtain e1 where e1: "vt_has_next vt e = Inr (rows e \<noteq> [], e1)" "rows e1 = rows e" "ok e1"
    using has_next_law [OF Suc.prems(1)] by blast
  show ?case
  proof (cases "rows e")
    case (Cons p ps)
    obtain e2 where e2: "vt_next vt e1 = Inr (p, e2)" "rows e2 = ps" "ok e2" using next_law [OF e1(3)] e1(2) Cons by auto
    obtain e3 where "drain n vt e2 = Inr (rows e2, e3)" "rows e3 = []" "ok e3" using Suc.IH [OF e2(3)] e2(2) Suc.prems(2) Cons by auto
    then show ?thesis using e1 e2 Cons by simp
  qed (use e1 in simp)
qed simp

end

section \<open>Table cursors\<close>

text \<open>The cursors of sorted and of unsorted tables.\<close>

datatype raw_cursor = SortedCur table cursor | UnsortedCur "nat list" nat

fun raw_has_next :: "raw_cursor \<Rightarrow> (bool \<times> raw_cursor) res" where
  "raw_has_next (SortedCur t c) = Inr (cur_has_next c, SortedCur t c)"
| "raw_has_next (UnsortedCur ps i) = Inr (i < length ps, UnsortedCur ps i)"

fun raw_next :: "raw_cursor \<Rightarrow> (nat \<times> raw_cursor) res" where
  "raw_next (SortedCur t c) = rbind (cur_next t c) (\<lambda>(p, c'). Inr (p, SortedCur t c'))"
| "raw_next (UnsortedCur ps i) = verify (i < length ps) (Inr (ps ! i, UnsortedCur ps (Suc i)))"

fun raw_reset :: "raw_cursor \<Rightarrow> raw_cursor" where
  "raw_reset (SortedCur t c) = SortedCur t (cur_reset c)"
| "raw_reset (UnsortedCur ps i) = UnsortedCur ps 0"

definition raw_vt :: "raw_cursor enum_vt" where
  "raw_vt = \<lparr>vt_has_next = raw_has_next, vt_next = raw_next, vt_reset = raw_reset\<rparr>"

fun raw_rows :: "raw_cursor \<Rightarrow> nat list" where
  "raw_rows (SortedCur t c) =
     drop (cur_pos c) (if cur_reverse c then rev (range_rows t (cur_begin c) (cur_end c)) else range_rows t (cur_begin c) (cur_end c))"
| "raw_rows (UnsortedCur ps i) = drop i ps"

fun raw_ok :: "raw_cursor \<Rightarrow> bool" where
  "raw_ok (SortedCur t c) \<longleftrightarrow> cur_begin c + cur_pos c \<le> cur_end c \<and> cur_end c \<le> length (t_rows t)"
| "raw_ok (UnsortedCur ps i) \<longleftrightarrow> i \<le> length ps"

lemma length_range_rows: "hi \<le> length (t_rows t) \<Longrightarrow> length (range_rows t lo hi) = hi - lo"
  by (simp add: range_rows_def)

lemma raw_next_rows:
  assumes "raw_ok e" and "raw_rows e = p # ps"
  shows "\<exists>e'. raw_next e = Inr (p, e') \<and> raw_rows e' = ps \<and> raw_ok e'"
proof (cases e)
  case (SortedCur t c)
  let ?rs = "if cur_reverse c then rev (range_rows t (cur_begin c) (cur_end c)) else range_rows t (cur_begin c) (cur_end c)"
  have b: "cur_begin c + cur_pos c \<le> cur_end c" "cur_end c \<le> length (t_rows t)" and d: "drop (cur_pos c) ?rs = p # ps"
    using assms unfolding SortedCur raw_ok.simps raw_rows.simps by blast+
  have len: "length ?rs = cur_end c - cur_begin c" using length_range_rows [OF b(2), of "cur_begin c"] by simp
  have lt: "cur_pos c < length ?rs" using d by (metis drop_eq_Nil leI list.distinct(1))
  have "?rs ! cur_pos c # drop (Suc (cur_pos c)) ?rs = p # ps" using d Cons_nth_drop_Suc [OF lt] by metis
  then have p: "?rs ! cur_pos c = p" "drop (Suc (cur_pos c)) ?rs = ps" by (metis list.inject)+
  have "cur_next t c = Inr (p, c\<lparr>cur_pos := Suc (cur_pos c)\<rparr>)" using cur_next_spec [OF b(2)] lt len p(1) by simp
  then have "raw_next e = Inr (p, SortedCur t (c\<lparr>cur_pos := Suc (cur_pos c)\<rparr>))" using SortedCur by simp
  moreover have "raw_rows (SortedCur t (c\<lparr>cur_pos := Suc (cur_pos c)\<rparr>)) = ps" using p(2) by (simp split: if_splits)
  moreover have "raw_ok (SortedCur t (c\<lparr>cur_pos := Suc (cur_pos c)\<rparr>))" using lt len b by simp
  ultimately show ?thesis by blast
next
  case (UnsortedCur qs i)
  then have "drop i qs = p # ps" using assms by simp
  moreover have "i < length qs" using calculation by (metis drop_eq_Nil leI list.distinct(1))
  ultimately show ?thesis using Cons_nth_drop_Suc [of i qs] UnsortedCur by simp
qed

interpretation raw: enumerator raw_vt raw_rows raw_ok
proof unfold_locales
  fix e assume ok: "raw_ok e"
  show "\<exists>e'. vt_has_next raw_vt e = Inr (raw_rows e \<noteq> [], e') \<and> raw_rows e' = raw_rows e \<and> raw_ok e'"
  proof (cases e)
    case (SortedCur t c)
    then show ?thesis
      using ok length_range_rows [of "cur_end c" t "cur_begin c"] by (auto simp: raw_vt_def cur_has_next_def)
  qed (use ok in \<open>auto simp: raw_vt_def\<close>)
qed (use raw_next_rows in \<open>simp add: raw_vt_def\<close>)

section \<open>MergedCursor\<close>

record 'e merged =
  mc_tbl :: nat
  mc_cursor :: 'e
  mc_inserts :: "nat list"
  mc_removes :: "(nat \<times> nat) list"
  mc_cached :: "nat option"
  mc_candidate :: "nat option"

definition new_merged :: "nat \<Rightarrow> 'e \<Rightarrow> nat list \<Rightarrow> (nat \<times> nat) list \<Rightarrow> 'e merged" where
  "new_merged t cur ins rem =
     \<lparr>mc_tbl = t, mc_cursor = cur, mc_inserts = ins, mc_removes = rem, mc_cached = None, mc_candidate = None\<rparr>"

text \<open>The loop of \<^verbatim>\<open>prefetch_next\<close> looks for the next row of the underlying cursor that is not removed.\<close>

fun mc_skip :: "nat \<Rightarrow> 'e enum_vt \<Rightarrow> nat \<Rightarrow> (nat \<times> nat) list \<Rightarrow> 'e \<Rightarrow> nat option \<Rightarrow> ('e \<times> nat option) res" where
  "mc_skip n vt t rem e (Some p) = Inr (e, Some p)"
| "mc_skip 0 vt t rem e None = Inl OutOfFuel"
| "mc_skip (Suc n) vt t rem e None =
     rbind (vt_has_next vt e)
       (\<lambda>(b, e'). if b
          then rbind (vt_next vt e') (\<lambda>(p, e''). mc_skip n vt t rem e'' (if (t, p) \<in> set rem then None else Some p))
          else Inr (e', None))"

definition mc_prefetch :: "nat \<Rightarrow> 'e enum_vt \<Rightarrow> 'e merged \<Rightarrow> (bool \<times> 'e merged) res" where
  "mc_prefetch n vt m =
     verify (mc_cached m = None)
       (rbind (mc_skip n vt (mc_tbl m) (mc_removes m) (mc_cursor m) (mc_candidate m))
         (\<lambda>(e, cand). let m1 = m\<lparr>mc_cursor := e, mc_candidate := cand\<rparr> in
            case cand of
              None \<Rightarrow> (case mc_inserts m1 of [] \<Rightarrow> Inr (False, m1)
                       | q # qs \<Rightarrow> Inr (True, m1\<lparr>mc_cached := Some q, mc_inserts := qs\<rparr>))
            | Some p \<Rightarrow> (case mc_inserts m1 of [] \<Rightarrow> Inr (True, m1\<lparr>mc_cached := Some p, mc_candidate := None\<rparr>)
                         | q # qs \<Rightarrow> if p < q then Inr (True, m1\<lparr>mc_cached := Some p, mc_candidate := None\<rparr>)
                                    else Inr (True, m1\<lparr>mc_cached := Some q, mc_inserts := qs\<rparr>))))"

definition mc_has_next :: "nat \<Rightarrow> 'e enum_vt \<Rightarrow> 'e merged \<Rightarrow> (bool \<times> 'e merged) res" where
  "mc_has_next n vt m = (if mc_cached m \<noteq> None then Inr (True, m) else mc_prefetch n vt m)"

definition mc_next :: "nat \<Rightarrow> 'e enum_vt \<Rightarrow> 'e merged \<Rightarrow> (nat \<times> 'e merged) res" where
  "mc_next n vt m =
     rbind (if mc_cached m = None then rbind (mc_prefetch n vt m) (\<lambda>(b, m'). verify b (Inr m')) else Inr m)
       (\<lambda>m'. case mc_cached m' of None \<Rightarrow> Inl BadPointer | Some p \<Rightarrow> Inr (p, m'\<lparr>mc_cached := None\<rparr>))"

text \<open>\<^verbatim>\<open>reset\<close> resets the underlying cursor only: \<^verbatim>\<open>insert_reset\<close> has no body.\<close>

definition mc_reset :: "'e enum_vt \<Rightarrow> 'e merged \<Rightarrow> 'e merged" where
  "mc_reset vt m = m\<lparr>mc_cursor := vt_reset vt (mc_cursor m)\<rparr>"

definition merged_vt :: "nat \<Rightarrow> 'e enum_vt \<Rightarrow> 'e merged enum_vt" where
  "merged_vt n vt = \<lparr>vt_has_next = mc_has_next n vt, vt_next = mc_next n vt, vt_reset = mc_reset vt\<rparr>"

text \<open>What a merged cursor delivers: two sequences merged by the addresses of the rows.\<close>

fun merge_ptr :: "nat list \<Rightarrow> nat list \<Rightarrow> nat list" where
  "merge_ptr [] ys = ys"
| "merge_ptr xs [] = xs"
| "merge_ptr (x # xs) (y # ys) = (if x < y then x # merge_ptr xs (y # ys) else y # merge_ptr (x # xs) ys)"

lemma merge_ptr_Nil [simp]: "merge_ptr xs [] = xs"
  by (cases xs) simp_all

definition kept :: "nat \<Rightarrow> (nat \<times> nat) list \<Rightarrow> nat list \<Rightarrow> nat list" where
  "kept t rem ps = filter (\<lambda>p. (t, p) \<notin> set rem) ps"

definition opt_list :: "'a option \<Rightarrow> 'a list" where
  "opt_list x = (case x of None \<Rightarrow> [] | Some y \<Rightarrow> [y])"

definition merged_rows :: "('e \<Rightarrow> nat list) \<Rightarrow> 'e merged \<Rightarrow> nat list" where
  "merged_rows rows m =
     opt_list (mc_cached m) @
     merge_ptr (opt_list (mc_candidate m) @ kept (mc_tbl m) (mc_removes m) (rows (mc_cursor m))) (mc_inserts m)"

definition merged_ok :: "nat \<Rightarrow> ('e \<Rightarrow> nat list) \<Rightarrow> ('e \<Rightarrow> bool) \<Rightarrow> 'e merged \<Rightarrow> bool" where
  "merged_ok n rows ok m \<longleftrightarrow> ok (mc_cursor m) \<and> length (rows (mc_cursor m)) < n"

context enumerator
begin

lemma mc_skip_spec:
  "ok e \<Longrightarrow> length (rows e) < n \<Longrightarrow>
    \<exists>e' cand'. mc_skip n vt t rem e cand = Inr (e', cand') \<and> ok e' \<and> length (rows e') < n \<and>
      opt_list cand' @ kept t rem (rows e') = opt_list cand @ kept t rem (rows e) \<and> (cand' = None \<longrightarrow> kept t rem (rows e') = [])"
proof (induction n arbitrary: e cand)
  case (Suc n)
  show ?case
  proof (cases cand)
    case None
    obtain e1 where e1: "vt_has_next vt e = Inr (rows e \<noteq> [], e1)" "rows e1 = rows e" "ok e1"
      using has_next_law [OF Suc.prems(1)] by blast
    show ?thesis
    proof (cases "rows e")
      case (Cons p ps)
      let ?cand = "if (t, p) \<in> set rem then None else Some p"
      obtain e2 where e2: "vt_next vt e1 = Inr (p, e2)" "rows e2 = ps" "ok e2" using next_law [OF e1(3)] e1(2) Cons by auto
      have len: "length (rows e2) < n" using Suc.prems(2) Cons e2(2) by simp
      obtain e3 cand3 where "mc_skip n vt t rem e2 ?cand = Inr (e3, cand3)" "ok e3" "length (rows e3) < n"
        "opt_list cand3 @ kept t rem (rows e3) = opt_list ?cand @ kept t rem (rows e2)" "cand3 = None \<longrightarrow> kept t rem (rows e3) = []"
        using Suc.IH [OF e2(3) len, of ?cand] by blast
      then show ?thesis using None Cons e1 e2 by (auto simp: opt_list_def kept_def)
    qed (use None e1 Suc.prems in \<open>simp add: opt_list_def kept_def\<close>)
  qed (use Suc.prems in simp)
qed simp

lemma mc_prefetch_spec:
  assumes "merged_ok n rows ok m" and "mc_cached m = None"
  shows "\<exists>m'. mc_prefetch n vt m = Inr (merged_rows rows m \<noteq> [], m') \<and> merged_ok n rows ok m' \<and>
    merged_rows rows m' = merged_rows rows m \<and> (mc_cached m' = None \<longleftrightarrow> merged_rows rows m = [])"
proof -
  let ?t = "mc_tbl m" and ?rem = "mc_removes m"
  obtain e cand where sk: "mc_skip n vt ?t ?rem (mc_cursor m) (mc_candidate m) = Inr (e, cand)" "ok e" "length (rows e) < n"
    and eq: "opt_list cand @ kept ?t ?rem (rows e) = opt_list (mc_candidate m) @ kept ?t ?rem (rows (mc_cursor m))"
    and none: "cand = None \<longrightarrow> kept ?t ?rem (rows e) = []"
    using mc_skip_spec [of "mc_cursor m" n ?t ?rem "mc_candidate m"] assms(1) unfolding merged_ok_def by blast
  have mr: "merged_rows rows m = merge_ptr (opt_list cand @ kept ?t ?rem (rows e)) (mc_inserts m)"
    using eq assms(2) by (simp add: merged_rows_def opt_list_def)
  show ?thesis
  proof (cases cand)
    case None
    then show ?thesis using sk none mr assms(2)
      by (cases "mc_inserts m") (auto simp: mc_prefetch_def merged_ok_def merged_rows_def opt_list_def)
  next
    case (Some p)
    then show ?thesis using sk mr assms(2)
      by (cases "mc_inserts m") (auto simp: mc_prefetch_def merged_ok_def merged_rows_def opt_list_def merge_ptr_Nil)
  qed
qed

lemma merged_enumerator: "enumerator (merged_vt n vt) (merged_rows rows) (merged_ok n rows ok)"
proof
  fix m :: "'e merged" assume ok: "merged_ok n rows ok m"
  have cached: "merged_rows rows m \<noteq> []" if "mc_cached m \<noteq> None" using that by (auto simp: merged_rows_def opt_list_def)
  show "\<exists>m'. vt_has_next (merged_vt n vt) m = Inr (merged_rows rows m \<noteq> [], m') \<and> merged_rows rows m' = merged_rows rows m \<and> merged_ok n rows ok m'"
    using mc_prefetch_spec [OF ok] ok cached by (cases "mc_cached m") (auto simp: merged_vt_def mc_has_next_def)
  fix p ps assume r: "merged_rows rows m = p # ps"
  have deliver: "mc_cached m2 = Some p \<and> merged_rows rows (m2\<lparr>mc_cached := None\<rparr>) = ps"
    if "merged_rows rows m2 = p # ps" "mc_cached m2 \<noteq> None" for m2 :: "'e merged"
    using that by (auto simp: merged_rows_def opt_list_def)
  show "\<exists>m'. vt_next (merged_vt n vt) m = Inr (p, m') \<and> merged_rows rows m' = ps \<and> merged_ok n rows ok m'"
  proof (cases "mc_cached m")
    case None
    obtain m2 where m2: "mc_prefetch n vt m = Inr (True, m2)" "merged_ok n rows ok m2" "merged_rows rows m2 = p # ps" "mc_cached m2 \<noteq> None"
      using mc_prefetch_spec [OF ok None] r by auto
    then show ?thesis using deliver [OF m2(3,4)] None by (auto simp: merged_vt_def mc_next_def merged_ok_def)
  next
    case (Some q)
    then show ?thesis using deliver [OF r] ok by (auto simp: merged_vt_def mc_next_def merged_ok_def)
  qed
qed

end

interpretation merged_raw: enumerator "merged_vt n raw_vt" "merged_rows raw_rows" "merged_ok n raw_rows raw_ok" for n
  by (rule raw.merged_enumerator)

interpretation merged_twice: enumerator "merged_vt k (merged_vt n raw_vt)" "merged_rows (merged_rows raw_rows)"
    "merged_ok k (merged_rows raw_rows) (merged_ok n raw_rows raw_ok)" for k n
  by (rule merged_raw.merged_enumerator)

section \<open>What a merged cursor delivers\<close>

lemma merge_ptr_mset: "mset (merge_ptr xs ys) = mset xs + mset ys"
  by (induction xs ys rule: merge_ptr.induct) simp_all

lemma merge_ptr_subseq: "subseq xs (merge_ptr xs ys)" "subseq ys (merge_ptr xs ys)"
  by (induction xs ys rule: merge_ptr.induct) (auto dest: subseq_Cons')

lemma length_kept: "length (kept t rem ps) \<le> length ps"
  by (simp add: kept_def)

lemma merge_ptr_eq_Nil: "merge_ptr xs ys = [] \<longleftrightarrow> xs = [] \<and> ys = []"
  by (induction xs ys rule: merge_ptr.induct) simp_all

lemma length_merge_ptr [simp]: "length (merge_ptr xs ys) = length xs + length ys"
  by (induction xs ys rule: merge_ptr.induct) simp_all

lemma merged_rows_new: "merged_rows rows (new_merged t e ins rem) = merge_ptr (kept t rem (rows e)) ins"
  by (simp add: merged_rows_def new_merged_def opt_list_def)

text \<open>C33. Reading the result of a query inside a transaction to its end terminates and delivers
  exactly the rows the table cursor finds that the transaction has not removed, together with the
  rows it has staged: each of them once, and the rows of either source in the order of that source.\<close>

theorem merged_cursor_exact:
  assumes "raw_ok e" and "length (raw_rows e) < n" and "length (raw_rows e) + length ins < k"
  shows "\<exists>ps m'. drain k (merged_vt n raw_vt) (new_merged t e ins rem) = Inr (ps, m') \<and>
    mset ps = mset (filter (\<lambda>p. (t, p) \<notin> set rem) (raw_rows e)) + mset ins \<and>
    subseq (filter (\<lambda>p. (t, p) \<notin> set rem) (raw_rows e)) ps \<and> subseq ins ps"
proof -
  let ?m = "new_merged t e ins rem" and ?ps = "merge_ptr (kept t rem (raw_rows e)) ins"
  have "merged_ok n raw_rows raw_ok ?m" using assms(1,2) by (simp add: merged_ok_def new_merged_def)
  moreover have "length (merged_rows raw_rows ?m) < k"
    using assms(3) length_kept [of t rem "raw_rows e"] by (simp add: merged_rows_new)
  ultimately obtain m' where "drain k (merged_vt n raw_vt) ?m = Inr (?ps, m')"
    using merged_raw.drain_rows [of n ?m k] by (auto simp: merged_rows_new)
  then show ?thesis using merge_ptr_mset [of "kept t rem (raw_rows e)" ins] merge_ptr_subseq(1) [of "kept t rem (raw_rows e)" ins]
      merge_ptr_subseq(2) [of ins "kept t rem (raw_rows e)"]
    by (auto simp: kept_def)
qed

theorem merged_cursor_exact_witness:
  "\<exists>ps m'. drain 9 (merged_vt 9 raw_vt) (new_merged 4 (UnsortedCur [5, 2, 8] 0) [7, 3] [(4, 2)]) = Inr (ps, m') \<and> mset ps = {#5, 8, 7, 3#}"
proof -
  have "raw_ok (UnsortedCur [5, 2, 8] 0)" "length (raw_rows (UnsortedCur [5, 2, 8] 0)) < 9"
    "length (raw_rows (UnsortedCur [5, 2, 8] 0)) + length [7, 3 :: nat] < 9" by simp_all
  from merged_cursor_exact [OF this, of 4 "[(4, 2)]"] show ?thesis by (auto simp: add_mset_commute)
qed

section \<open>Reading a result set again\<close>

locale resettable = enumerator +
  fixes all :: "'a \<Rightarrow> nat list"
  assumes has_next_all: "ok e \<Longrightarrow> vt_has_next vt e = Inr (b, e') \<Longrightarrow> all e' = all e"
    and next_all: "ok e \<Longrightarrow> vt_next vt e = Inr (p, e') \<Longrightarrow> all e' = all e"
    and reset_law: "ok e \<Longrightarrow> rows (vt_reset vt e) = all e \<and> ok (vt_reset vt e)"
begin

lemma mc_skip_all:
  "ok e \<Longrightarrow> length (rows e) < n \<Longrightarrow> mc_skip n vt t rem e cand = Inr (e', cand') \<Longrightarrow> all e' = all e"
proof (induction n arbitrary: e cand)
  case (Suc n)
  show ?case
  proof (cases cand)
    case None
    obtain e1 where e1: "vt_has_next vt e = Inr (rows e \<noteq> [], e1)" "rows e1 = rows e" "ok e1"
      using has_next_law [OF Suc.prems(1)] by blast
    have a1: "all e1 = all e" using has_next_all [OF Suc.prems(1) e1(1)] .
    show ?thesis
    proof (cases "rows e")
      case (Cons p ps)
      obtain e2 where e2: "vt_next vt e1 = Inr (p, e2)" "rows e2 = ps" "ok e2" using next_law [OF e1(3)] e1(2) Cons by auto
      have "all e' = all e2" using Suc.IH [OF e2(3)] Suc.prems e1 e2 None Cons by simp
      then show ?thesis using next_all [OF e1(3) e2(1)] a1 by simp
    qed (use Suc.prems None e1 a1 in simp)
  qed (use Suc.prems in simp)
qed simp

lemma mc_prefetch_all:
  assumes "merged_ok n rows ok m" and "mc_prefetch n vt m = Inr (b, m')"
  shows "all (mc_cursor m') = all (mc_cursor m) \<and> mc_tbl m' = mc_tbl m \<and> mc_removes m' = mc_removes m"
proof -
  obtain e cand where "mc_skip n vt (mc_tbl m) (mc_removes m) (mc_cursor m) (mc_candidate m) = Inr (e, cand)" "mc_cursor m' = e"
    "mc_tbl m' = mc_tbl m \<and> mc_removes m' = mc_removes m"
    using assms(2) by (auto simp: mc_prefetch_def Let_def split: option.splits list.splits if_splits)
  then show ?thesis using mc_skip_all assms(1) by (auto simp: merged_ok_def)
qed

lemma drain_all:
  assumes "drain k (merged_vt n vt) m = Inr (ps, m')" and "merged_ok n rows ok m"
  shows "all (mc_cursor m') = all (mc_cursor m) \<and> mc_tbl m' = mc_tbl m \<and> mc_removes m' = mc_removes m"
  using assms
proof (induction k arbitrary: m ps)
  case (Suc k)
  have h: "merged_ok n rows ok m1 \<and> all (mc_cursor m1) = all (mc_cursor m) \<and> mc_tbl m1 = mc_tbl m \<and> mc_removes m1 = mc_removes m"
    if "mc_has_next n vt m = Inr (b, m1)" for b m1
    using that mc_prefetch_all [OF Suc.prems(2)] mc_prefetch_spec [OF Suc.prems(2)] Suc.prems(2)
    by (cases "mc_cached m") (auto simp: mc_has_next_def)
  have x: "merged_ok n rows ok m2 \<and> all (mc_cursor m2) = all (mc_cursor m1) \<and> mc_tbl m2 = mc_tbl m1 \<and> mc_removes m2 = mc_removes m1"
    if "mc_next n vt m1 = Inr (p, m2)" "merged_ok n rows ok m1" for p m1 m2
    using that mc_prefetch_all [OF that(2)] mc_prefetch_spec [OF that(2)]
    by (cases "mc_cached m1") (auto simp: mc_next_def merged_ok_def split: option.splits)
  obtain b m1 where m1: "mc_has_next n vt m = Inr (b, m1)" using Suc.prems(1) by (auto simp: merged_vt_def)
  show ?case
  proof (cases b)
    case True
    then obtain p m2 qs where "mc_next n vt m1 = Inr (p, m2)" "drain k (merged_vt n vt) m2 = Inr (qs, m')"
      using Suc.prems(1) m1 by (auto simp: merged_vt_def)
    then show ?thesis using Suc.IH [of m2 qs] h [OF m1] x [of m1 p m2] by simp
  next
    case False
    then show ?thesis using Suc.prems(1) m1 h [OF m1] by (auto simp: merged_vt_def)
  qed
qed simp

lemma reset_after_drain:
  assumes ok: "ok e" "length (rows e) < n" "length (all e) < n" and k: "length (rows e) + length ins < k" "length (all e) < k"
    and d: "drain k (merged_vt n vt) (new_merged t e ins rem) = Inr (ps, m')"
  shows "\<exists>m''. drain k (merged_vt n vt) (vt_reset (merged_vt n vt) m') = Inr (kept t rem (all e), m'')"
proof -
  let ?m = "new_merged t e ins rem" and ?r = "vt_reset (merged_vt n vt) m'"
  have mok: "merged_ok n rows ok ?m" using ok by (simp add: merged_ok_def new_merged_def)
  have "length (merged_rows rows ?m) < k"
    using k(1) length_kept [of t rem "rows e"] by (simp add: merged_rows_new)
  then have e: "merged_rows rows m' = []" "merged_ok n rows ok m'"
    using enumerator.drain_rows [OF merged_enumerator mok, of k] d by simp_all
  then have none: "mc_cached m' = None" "mc_candidate m' = None" "mc_inserts m' = []"
    by (auto simp: merged_rows_def merge_ptr_eq_Nil opt_list_def split: option.splits)
  have same: "all (mc_cursor m') = all e" "mc_tbl m' = t" "mc_removes m' = rem"
    using drain_all [OF d mok] by (simp_all add: new_merged_def)
  have r: "?r = m'\<lparr>mc_cursor := vt_reset vt (mc_cursor m')\<rparr>" by (simp add: merged_vt_def mc_reset_def)
  have "merged_rows rows ?r = kept t rem (all e)" "merged_ok n rows ok ?r"
    using r none same reset_law [of "mc_cursor m'"] e(2) ok(3) by (simp_all add: merged_rows_def merged_ok_def opt_list_def)
  moreover have "length (kept t rem (all e)) < k"
    using k(2) length_kept [of t rem "all e"] by simp
  ultimately show ?thesis using enumerator.drain_rows [OF merged_enumerator, of n ?r k] by auto
qed

end

fun raw_all :: "raw_cursor \<Rightarrow> nat list" where
  "raw_all (SortedCur t c) = (if cur_reverse c then rev (range_rows t (cur_begin c) (cur_end c)) else range_rows t (cur_begin c) (cur_end c))"
| "raw_all (UnsortedCur ps i) = ps"

interpretation raw: resettable raw_vt raw_rows raw_ok raw_all
proof unfold_locales
  fix e b e' p
  show "vt_has_next raw_vt e = Inr (b, e') \<Longrightarrow> raw_all e' = raw_all e" by (cases e) (auto simp: raw_vt_def)
  show "vt_next raw_vt e = Inr (p, e') \<Longrightarrow> raw_all e' = raw_all e"
    by (cases e) (auto simp: raw_vt_def cur_next_def Let_def split: if_splits)
  show "raw_ok e \<Longrightarrow> raw_rows (vt_reset raw_vt e) = raw_all e \<and> raw_ok (vt_reset raw_vt e)"
    by (cases e) (auto simp: raw_vt_def cur_reset_def)
qed

text \<open>C37. Where the code goes wrong: after a query's result has been read to its end, resetting it and
  reading it again delivers the rows of the table that were not removed, and none of the rows the
  transaction had staged, because the position in the staged rows is not reset.\<close>

theorem merged_reset_loses_inserts:
  assumes "raw_ok e" and "raw_rows e = raw_all e" and "length (raw_rows e) + length ins < k"
    and "drain k (merged_vt k raw_vt) (new_merged t e ins rem) = Inr (ps, m')"
  shows "\<exists>m''. drain k (merged_vt k raw_vt) (vt_reset (merged_vt k raw_vt) m') =
    Inr (filter (\<lambda>p. (t, p) \<notin> set rem) (raw_all e), m'')"
  using raw.reset_after_drain [OF assms(1) _ _ assms(3) _ assms(4)] assms(2,3) by (simp add: kept_def)

theorem merged_reset_loses_inserts_witness:
  "\<exists>m' m''. drain 5 (merged_vt 5 raw_vt) (new_merged 4 (UnsortedCur [2] 0) [7] []) = Inr ([2, 7], m') \<and>
    drain 5 (merged_vt 5 raw_vt) (vt_reset (merged_vt 5 raw_vt) m') = Inr ([2], m'')"
proof -
  let ?m = "\<lparr>mc_tbl = 4, mc_cursor = UnsortedCur [2] (Suc 0), mc_inserts = [], mc_removes = [], mc_cached = None, mc_candidate = None\<rparr>"
  have d: "drain 5 (merged_vt 5 raw_vt) (new_merged 4 (UnsortedCur [2] 0) [7] []) = Inr ([2, 7], ?m)" by code_simp
  have "raw_ok (UnsortedCur [2] 0)" "raw_rows (UnsortedCur [2] 0) = raw_all (UnsortedCur [2] 0)"
    "length (raw_rows (UnsortedCur [2] 0)) + length [7 :: nat] < 5" by simp_all
  from merged_reset_loses_inserts [OF this d] d show ?thesis by auto
qed

end
