(* ===== verification/Mdb_Staging.thy ===== *)
theory Mdb_Staging
  imports Mdb_Cursor "HOL-Library.Product_Lexorder"
begin

text \<open>
  The staging area of a transaction (the protected members of \<^verbatim>\<open>Txn2PL\<close> in \<^verbatim>\<open>memdb/txn.h\<close>, which
  \<^verbatim>\<open>TxnOCC\<close> and \<^verbatim>\<open>TxnNested\<close> inherit): the columns read, the updates kept back, and the rows to be
  inserted into and removed from tables when the transaction commits; and the queries that show a
  transaction its own staged rows. The staged rows are a multiset ordered by table and key
  (\<^verbatim>\<open>table_row_pair::operator<\<close>): a list in that order.
\<close>

section \<open>The staging area\<close>

datatype outcome = NONE | TXN_ABORT | TXN_COMMIT

record stage =
  sg_id :: i64
  sg_outcome :: outcome
  sg_reads :: "(nat \<times> nat) list"
  sg_updates :: "(nat \<times> nat \<times> mvalue) list"
  sg_inserts :: "(nat \<times> nat) list"
  sg_removes :: "(nat \<times> nat) list"

definition new_stage :: "i64 \<Rightarrow> stage" where
  "new_stage tid = \<lparr>sg_id = tid, sg_outcome = NONE, sg_reads = [], sg_updates = [], sg_inserts = [], sg_removes = []\<rparr>"

text \<open>A multimap keeps its pairs ordered by key, equal keys in the order of their insertion.\<close>

definition mm_ins :: "'k::linorder \<Rightarrow> 'v \<Rightarrow> ('k \<times> 'v) list \<Rightarrow> ('k \<times> 'v) list" where
  "mm_ins k v m = takeWhile (\<lambda>e. fst e \<le> k) m @ (k, v) # dropWhile (\<lambda>e. fst e \<le> k) m"

text \<open>The loops over \<^verbatim>\<open>updates_.equal_range(row)\<close>: the staged value of a column, and its replacement.\<close>

fun upd_find :: "nat \<Rightarrow> nat \<Rightarrow> (nat \<times> nat \<times> mvalue) list \<Rightarrow> mvalue option" where
  "upd_find p c [] = None"
| "upd_find p c ((q, c', v) # us) = (if q = p \<and> c' = c then Some v else upd_find p c us)"

fun upd_set :: "nat \<Rightarrow> nat \<Rightarrow> mvalue \<Rightarrow> (nat \<times> nat \<times> mvalue) list \<Rightarrow> (nat \<times> nat \<times> mvalue) list" where
  "upd_set p c v [] = []"
| "upd_set p c v ((q, c', w) # us) = (if q = p \<and> c' = c then (q, c', v) # us else (q, c', w) # upd_set p c v us)"

definition upd_erase :: "nat \<Rightarrow> (nat \<times> nat \<times> mvalue) list \<Rightarrow> (nat \<times> nat \<times> mvalue) list" where
  "upd_erase p us = filter (\<lambda>u. fst u \<noteq> p) us"

text \<open>\<^verbatim>\<open>table_row_pair\<close>: a table, and a row, one of the two markers, or a row that has only a key
  (\<^verbatim>\<open>KeyOnlySearchRow\<close>).\<close>

datatype search_row = ROW_MIN | ROW_MAX | RowAt nat | KeyOnlySearchRow nat multi_blob

fun search_key :: "db \<Rightarrow> search_row \<Rightarrow> (nat \<times> multi_blob) res" where
  "search_key d (RowAt p) = rbind (cell_at (d_heap d) p) (\<lambda>c. rbind (row_key p d) (\<lambda>k. Inr (c_schema c, k)))"
| "search_key d (KeyOnlySearchRow s k) = Inr (s, k)"
| "search_key d _ = Inl BadPointer"

definition row_compare :: "db \<Rightarrow> search_row \<Rightarrow> search_row \<Rightarrow> int res" where
  "row_compare d a b =
     (if a = b then Inr 0
      else rbind (search_key d a)
        (\<lambda>(s1, k1). rbind (search_key d b)
          (\<lambda>(s2, k2). verify (s1 = s2)
            (rbind (schema_at d s1)
              (\<lambda>s. rbind (new_smk s k1) (\<lambda>x. rbind (new_smk s k2) (\<lambda>y. smk_compare s x y)))))))"

definition pair_less :: "db \<Rightarrow> nat \<times> search_row \<Rightarrow> nat \<times> search_row \<Rightarrow> bool res" where
  "pair_less d = (\<lambda>(t, a) (u, b).
     if t \<noteq> u then Inr (t < u)
     else if a = ROW_MIN then Inr (b \<noteq> ROW_MIN)
     else if a = ROW_MAX then Inr False
     else if b = ROW_MIN then Inr False
     else if b = ROW_MAX then Inr (a \<noteq> ROW_MAX)
     else rbind (row_compare d a b) (\<lambda>r. Inr (r = -1)))"

definition as_pair :: "nat \<times> nat \<Rightarrow> nat \<times> search_row" where
  "as_pair e = (fst e, RowAt (snd e))"

definition ins_lower :: "db \<Rightarrow> nat \<times> search_row \<Rightarrow> (nat \<times> nat) list \<Rightarrow> nat res" where
  "ins_lower d x ins = scan (\<lambda>e. pair_less d (as_pair e) x) ins"

definition ins_upper :: "db \<Rightarrow> nat \<times> search_row \<Rightarrow> (nat \<times> nat) list \<Rightarrow> nat res" where
  "ins_upper d x ins = scan (\<lambda>e. rbind (pair_less d x (as_pair e)) (\<lambda>b. Inr (\<not> b))) ins"

definition stage_insert :: "db \<Rightarrow> nat \<Rightarrow> nat \<Rightarrow> (nat \<times> nat) list \<Rightarrow> (nat \<times> nat) list res" where
  "stage_insert d t p ins =
     rbind (ins_upper d (t, RowAt p) ins) (\<lambda>n. Inr (take n ins @ (t, p) # drop n ins))"

text \<open>The sweep for a staged row with the given address, between the bounds of its key.\<close>

fun sweep :: "nat \<Rightarrow> (nat \<times> nat) list \<Rightarrow> nat \<Rightarrow> nat \<Rightarrow> nat option" where
  "sweep p ins i 0 = None"
| "sweep p ins i (Suc n) = (if snd (ins ! i) = p then Some i else sweep p ins (Suc i) n)"

definition stage_find :: "db \<Rightarrow> nat \<Rightarrow> nat \<Rightarrow> (nat \<times> nat) list \<Rightarrow> nat option res" where
  "stage_find d t p ins =
     rbind (ins_lower d (t, RowAt p) ins)
       (\<lambda>lo. rbind (ins_upper d (t, RowAt p) ins) (\<lambda>hi. Inr (sweep p ins lo (hi - lo))))"

definition erase_at :: "nat \<Rightarrow> 'e list \<Rightarrow> 'e list" where
  "erase_at i xs = take i xs @ drop (Suc i) xs"

section \<open>Queries of a table\<close>

definition tbl_query :: "nat \<Rightarrow> multi_blob \<Rightarrow> db \<Rightarrow> raw_cursor res" where
  "tbl_query t mb d =
     rbind (table_at d t)
       (\<lambda>(k, tab). rbind (schema_at d (t_schema tab))
         (\<lambda>s. case k of
            TBL_UNSORTED \<Rightarrow> Inr (UnsortedCur (ut_query mb tab) 0)
          | TBL_SORTED \<Rightarrow> rbind (st_query s mb tab) (\<lambda>c. Inr (SortedCur tab c))))"

text \<open>A range query works on sorted tables only.\<close>

definition tbl_range :: "nat \<Rightarrow> (schema \<Rightarrow> table \<Rightarrow> cursor res) \<Rightarrow> db \<Rightarrow> raw_cursor res" where
  "tbl_range t q d =
     rbind (table_at d t)
       (\<lambda>(k, tab). rbind (schema_at d (t_schema tab))
         (\<lambda>s. verify (k = TBL_SORTED) (rbind (q s tab) (\<lambda>c. Inr (SortedCur tab c)))))"

definition tbl_query_lt :: "nat \<Rightarrow> multi_blob \<Rightarrow> order \<Rightarrow> db \<Rightarrow> raw_cursor res" where
  "tbl_query_lt t mb ord d = tbl_range t (\<lambda>s tab. st_query_lt s mb ord tab) d"

definition tbl_query_gt :: "nat \<Rightarrow> multi_blob \<Rightarrow> order \<Rightarrow> db \<Rightarrow> raw_cursor res" where
  "tbl_query_gt t mb ord d = tbl_range t (\<lambda>s tab. st_query_gt s mb ord tab) d"

definition tbl_query_in :: "nat \<Rightarrow> multi_blob \<Rightarrow> multi_blob \<Rightarrow> order \<Rightarrow> db \<Rightarrow> raw_cursor res" where
  "tbl_query_in t lo hi ord d = tbl_range t (\<lambda>s tab. st_query_in s lo hi ord tab) d"

definition tbl_all :: "nat \<Rightarrow> order \<Rightarrow> db \<Rightarrow> raw_cursor res" where
  "tbl_all t ord d =
     rbind (table_at d t)
       (\<lambda>(k, tab). case k of
          TBL_UNSORTED \<Rightarrow> verify (ord = ORD_ANY) (Inr (UnsortedCur (ut_all tab) 0))
        | TBL_SORTED \<Rightarrow> Inr (SortedCur tab (st_all ord tab)))"

section \<open>Queries inside a transaction\<close>

text \<open>The staged rows in the range of a query, backwards for a descending one.\<close>

definition ins_range :: "order \<Rightarrow> (nat \<times> nat) list \<Rightarrow> nat res \<Rightarrow> nat res \<Rightarrow> nat list res" where
  "ins_range ord ins lo hi =
     rbind lo (\<lambda>l. rbind hi (\<lambda>h. Inr (directed ord (map snd (take (h - l) (drop l ins))))))"

definition search_in :: "nat \<Rightarrow> multi_blob \<Rightarrow> db \<Rightarrow> (nat \<times> search_row) res" where
  "search_in t mb d = rbind (table_at d t) (\<lambda>(k, tab). Inr (t, KeyOnlySearchRow (t_schema tab) mb))"

definition staged :: "nat \<Rightarrow> multi_blob \<Rightarrow> db \<times> 'a stage_scheme \<Rightarrow> nat list res" where
  "staged t mb = (\<lambda>(d, x).
     rbind (search_in t mb d) (\<lambda>k. ins_range ORD_ANY (sg_inserts x) (ins_lower d k (sg_inserts x)) (ins_upper d k (sg_inserts x))))"

definition staged_lt :: "nat \<Rightarrow> multi_blob \<Rightarrow> order \<Rightarrow> db \<times> 'a stage_scheme \<Rightarrow> nat list res" where
  "staged_lt t mb ord = (\<lambda>(d, x).
     rbind (search_in t mb d)
       (\<lambda>k. ins_range ord (sg_inserts x) (ins_lower d (t, ROW_MIN) (sg_inserts x)) (ins_lower d k (sg_inserts x))))"

definition staged_gt :: "nat \<Rightarrow> multi_blob \<Rightarrow> order \<Rightarrow> db \<times> 'a stage_scheme \<Rightarrow> nat list res" where
  "staged_gt t mb ord = (\<lambda>(d, x).
     rbind (search_in t mb d)
       (\<lambda>k. ins_range ord (sg_inserts x) (ins_upper d k (sg_inserts x)) (ins_upper d (t, ROW_MAX) (sg_inserts x))))"

definition staged_in :: "nat \<Rightarrow> multi_blob \<Rightarrow> multi_blob \<Rightarrow> order \<Rightarrow> db \<times> 'a stage_scheme \<Rightarrow> nat list res" where
  "staged_in t lo hi ord = (\<lambda>(d, x).
     rbind (search_in t lo d)
       (\<lambda>k. rbind (search_in t hi d)
         (\<lambda>k'. ins_range ord (sg_inserts x) (ins_upper d k (sg_inserts x)) (ins_lower d k' (sg_inserts x)))))"

definition staged_all :: "nat \<Rightarrow> order \<Rightarrow> db \<times> 'a stage_scheme \<Rightarrow> nat list res" where
  "staged_all t ord = (\<lambda>(d, x).
     ins_range ord (sg_inserts x) (ins_lower d (t, ROW_MIN) (sg_inserts x)) (ins_upper d (t, ROW_MAX) (sg_inserts x)))"

text \<open>\<^verbatim>\<open>Txn2PL::do_query\<close> and its companions.\<close>

definition merge_result :: "nat \<Rightarrow> (nat \<times> nat) list \<Rightarrow> nat list res \<Rightarrow> 'e res \<Rightarrow> 'e merged res" where
  "merge_result t rem ins cur = rbind ins (\<lambda>ps. rbind cur (\<lambda>e. Inr (new_merged t e ps rem)))"

definition do_query :: "nat \<Rightarrow> multi_blob \<Rightarrow> db \<times> 'a stage_scheme \<Rightarrow> raw_cursor merged res" where
  "do_query t mb st = merge_result t (sg_removes (snd st)) (staged t mb st) (tbl_query t mb (fst st))"

definition do_query_lt :: "nat \<Rightarrow> multi_blob \<Rightarrow> order \<Rightarrow> db \<times> 'a stage_scheme \<Rightarrow> raw_cursor merged res" where
  "do_query_lt t mb ord st = merge_result t (sg_removes (snd st)) (staged_lt t mb ord st) (tbl_query_lt t mb ord (fst st))"

definition do_query_gt :: "nat \<Rightarrow> multi_blob \<Rightarrow> order \<Rightarrow> db \<times> 'a stage_scheme \<Rightarrow> raw_cursor merged res" where
  "do_query_gt t mb ord st = merge_result t (sg_removes (snd st)) (staged_gt t mb ord st) (tbl_query_gt t mb ord (fst st))"

definition do_query_in :: "nat \<Rightarrow> multi_blob \<Rightarrow> multi_blob \<Rightarrow> order \<Rightarrow> db \<times> 'a stage_scheme \<Rightarrow> raw_cursor merged res" where
  "do_query_in t lo hi ord st = merge_result t (sg_removes (snd st)) (staged_in t lo hi ord st) (tbl_query_in t lo hi ord (fst st))"

definition do_all :: "nat \<Rightarrow> order \<Rightarrow> db \<times> 'a stage_scheme \<Rightarrow> raw_cursor merged res" where
  "do_all t ord st = merge_result t (sg_removes (snd st)) (staged_all t ord st) (tbl_all t ord (fst st))"

section \<open>The staged rows in key order\<close>

text \<open>The place of a staged row in the order of the multiset: its table, then the rank of its key.\<close>

definition table_schema :: "nat \<Rightarrow> db \<Rightarrow> schema" where
  "table_schema t d = d_schemas d ! t_schema (snd (d_tables d ! t))"

definition pair_rank :: "db \<Rightarrow> nat \<times> nat \<Rightarrow> nat \<times> int list list" where
  "pair_rank d e = (fst e, case row_key (snd e) d of Inl _ \<Rightarrow> [] | Inr k \<Rightarrow> rank_key (table_schema (fst e) d) k)"

definition staged_sorted :: "db \<Rightarrow> (nat \<times> nat) list \<Rightarrow> bool" where
  "staged_sorted d ins \<longleftrightarrow> list_all (\<lambda>e. fresh_row (fst e) (snd e) d) ins \<and> sorted (map (pair_rank d) ins)"

lemma fresh_rowD:
  assumes "db_inv d" and "fresh_row t p d"
  shows "\<exists>c k. cell_at (d_heap d) p = Inr c \<and> c_schema c = t_schema (snd (d_tables d ! t)) \<and> row_key p d = Inr k \<and>
    good_key (table_schema t d) k \<and> pair_rank d (t, p) = (t, rank_key (table_schema t d) k) \<and>
    t < length (d_tables d) \<and> c_schema c < length (d_schemas d) \<and> schema_inv (table_schema t d)"
proof -
  obtain tab where t: "d_tables d ! t = (TBL_SORTED, tab)" "t < length (d_tables d)" "t_schema tab < length (d_schemas d)"
    "schema_inv (d_schemas d ! t_schema tab)"
    using sorted_table [OF assms(1), of t] assms(2) by (auto simp: fresh_row_def)
  then show ?thesis using assms(2)
    by (auto simp: fresh_row_def row_key_def schema_at_def table_schema_def pair_rank_def Let_def split: sum.splits)
qed

lemma compare_less: "cmp x y = -1 \<longleftrightarrow> x < (y :: 'k::linorder)"
  by (auto simp: cmp_def cmp_num_def)

lemma pair_less_rows:
  assumes inv: "db_inv d" and f: "fresh_row (fst e) (snd e) d" "fresh_row (fst e') (snd e') d"
  shows "pair_less d (as_pair e) (as_pair e') = Inr (pair_rank d e < pair_rank d e')"
proof (cases "fst e = fst e'")
  case True
  obtain c k where c: "cell_at (d_heap d) (snd e) = Inr c" "c_schema c = t_schema (snd (d_tables d ! fst e))" "row_key (snd e) d = Inr k"
    "good_key (table_schema (fst e) d) k" "pair_rank d e = (fst e, rank_key (table_schema (fst e) d) k)"
    "c_schema c < length (d_schemas d)" "schema_inv (table_schema (fst e) d)"
    using fresh_rowD [OF inv f(1)] by auto
  obtain c' k' where c': "cell_at (d_heap d) (snd e') = Inr c'" "c_schema c' = t_schema (snd (d_tables d ! fst e'))" "row_key (snd e') d = Inr k'"
    "good_key (table_schema (fst e') d) k'" "pair_rank d e' = (fst e', rank_key (table_schema (fst e') d) k')"
    using fresh_rowD [OF inv f(2)] by auto
  have "schema_at d (c_schema c) = Inr (table_schema (fst e) d)" using c(2,6) by (simp add: schema_at_def table_schema_def)
  then show ?thesis
    using True c c' smk_compare_rank [OF c(7,4)]
    by (auto simp: pair_less_def as_pair_def row_compare_def new_smk_good compare_less)
next
  case False
  then show ?thesis by (auto simp: pair_less_def as_pair_def pair_rank_def)
qed

lemma pair_less_key:
  assumes inv: "db_inv d" and f: "fresh_row (fst e) (snd e) d" and k: "good_key (table_schema t d) mb"
  shows "pair_less d (as_pair e) (t, KeyOnlySearchRow (t_schema (snd (d_tables d ! t))) mb) = Inr (pair_rank d e < (t, rank_key (table_schema t d) mb))"
    and "pair_less d (t, KeyOnlySearchRow (t_schema (snd (d_tables d ! t))) mb) (as_pair e) = Inr ((t, rank_key (table_schema t d) mb) < pair_rank d e)"
proof -
  obtain c ke where c: "cell_at (d_heap d) (snd e) = Inr c" "c_schema c = t_schema (snd (d_tables d ! fst e))" "row_key (snd e) d = Inr ke"
    "good_key (table_schema (fst e) d) ke" "pair_rank d e = (fst e, rank_key (table_schema (fst e) d) ke)"
    "c_schema c < length (d_schemas d)" "schema_inv (table_schema (fst e) d)"
    using fresh_rowD [OF inv f] by auto
  have s: "schema_at d (c_schema c) = Inr (table_schema (fst e) d)" using c(2,6) by (simp add: schema_at_def table_schema_def)
  show "pair_less d (as_pair e) (t, KeyOnlySearchRow (t_schema (snd (d_tables d ! t))) mb) = Inr (pair_rank d e < (t, rank_key (table_schema t d) mb))"
    using c s k smk_compare_rank [OF c(7,4)]
    by (cases "fst e = t") (auto simp: pair_less_def as_pair_def row_compare_def new_smk_good compare_less)
  show "pair_less d (t, KeyOnlySearchRow (t_schema (snd (d_tables d ! t))) mb) (as_pair e) = Inr ((t, rank_key (table_schema t d) mb) < pair_rank d e)"
    using c s k smk_compare_rank [OF c(7) _ c(4)]
    by (cases "fst e = t") (auto simp: pair_less_def as_pair_def row_compare_def new_smk_good compare_less)
qed

lemma staged_bounds:
  assumes inv: "db_inv d" and st: "staged_sorted d ins" and k: "good_key (table_schema t d) mb"
  shows "ins_lower d (t, KeyOnlySearchRow (t_schema (snd (d_tables d ! t))) mb) ins = Inr (length (takeWhile (\<lambda>e. pair_rank d e < (t, rank_key (table_schema t d) mb)) ins))"
    and "ins_upper d (t, KeyOnlySearchRow (t_schema (snd (d_tables d ! t))) mb) ins = Inr (length (takeWhile (\<lambda>e. pair_rank d e \<le> (t, rank_key (table_schema t d) mb)) ins))"
    and "ins_lower d (t, ROW_MIN) ins = Inr (length (takeWhile (\<lambda>e. fst (pair_rank d e) < t) ins))"
    and "ins_upper d (t, ROW_MAX) ins = Inr (length (takeWhile (\<lambda>e. fst (pair_rank d e) \<le> t) ins))"
proof -
  have f: "fresh_row (fst e) (snd e) d" if "e \<in> set ins" for e using that st by (auto simp: staged_sorted_def list_all_iff)
  show "ins_lower d (t, KeyOnlySearchRow (t_schema (snd (d_tables d ! t))) mb) ins = Inr (length (takeWhile (\<lambda>e. pair_rank d e < (t, rank_key (table_schema t d) mb)) ins))"
    unfolding ins_lower_def using pair_less_key(1) [OF inv f k] by (intro scan_takeWhile)
  show "ins_upper d (t, KeyOnlySearchRow (t_schema (snd (d_tables d ! t))) mb) ins = Inr (length (takeWhile (\<lambda>e. pair_rank d e \<le> (t, rank_key (table_schema t d) mb)) ins))"
    unfolding ins_upper_def using pair_less_key(2) [OF inv f k] by (intro scan_takeWhile) (simp add: not_less)
  show "ins_lower d (t, ROW_MIN) ins = Inr (length (takeWhile (\<lambda>e. fst (pair_rank d e) < t) ins))"
    unfolding ins_lower_def by (intro scan_takeWhile) (auto simp: pair_less_def as_pair_def pair_rank_def)
  show "ins_upper d (t, ROW_MAX) ins = Inr (length (takeWhile (\<lambda>e. fst (pair_rank d e) \<le> t) ins))"
    unfolding ins_upper_def by (intro scan_takeWhile) (auto simp: pair_less_def as_pair_def pair_rank_def)
qed

text \<open>Staging a row keeps the order: it goes behind the staged rows of its table with its key.\<close>

lemma stage_insert_spec:
  assumes inv: "db_inv d" and st: "staged_sorted d ins" and f: "fresh_row t p d"
  shows "\<exists>ins'. stage_insert d t p ins = Inr ins' \<and> staged_sorted d ins' \<and> mset ins' = add_mset (t, p) (mset ins)"
proof -
  have fr: "fresh_row (fst e) (snd e) d" if "e \<in> set ins" for e using that st by (auto simp: staged_sorted_def list_all_iff)
  have srt: "sorted (map (pair_rank d) ins)" using st by (simp add: staged_sorted_def)
  let ?n = "length (takeWhile (\<lambda>e. pair_rank d e \<le> pair_rank d (t, p)) ins)"
  have "pair_less d (t, RowAt p) (as_pair e) = Inr (pair_rank d (t, p) < pair_rank d e)" if "e \<in> set ins" for e
    using pair_less_rows [OF inv, of "(t, p)" e] f fr [OF that] by (simp add: as_pair_def [of "(t, p)"])
  then have n: "ins_upper d (t, RowAt p) ins = Inr ?n" unfolding ins_upper_def by (intro scan_takeWhile) (simp add: not_less)
  let ?lo = "filter (\<lambda>e. pair_rank d e \<le> pair_rank d (t, p)) ins" and ?hi = "filter (\<lambda>e. \<not> pair_rank d e \<le> pair_rank d (t, p)) ins"
  have sp: "take ?n ins = ?lo" "drop ?n ins = ?hi"
    using sorted_split [of "\<lambda>x. x \<le> pair_rank d (t, p)", OF le_down(1) srt] takeWhile_eq_take [of _ ins] dropWhile_eq_drop [of _ ins] by metis+
  have "sorted (map (pair_rank d) (?lo @ (t, p) # ?hi))"
    using srt by (auto simp: sorted_append sorted_filter intro: less_imp_le)
  moreover have "mset (?lo @ (t, p) # ?hi) = add_mset (t, p) (mset ins)" by simp
  ultimately show ?thesis using n sp f fr by (auto simp: stage_insert_def staged_sorted_def list_all_iff)
qed

section \<open>Queries of a transaction see its staged rows\<close>

definition staged_where :: "db \<Rightarrow> nat \<Rightarrow> (nat \<times> nat) list \<Rightarrow> (int list list \<Rightarrow> bool) \<Rightarrow> nat list" where
  "staged_where d t ins P = map snd (filter (\<lambda>e. fst (pair_rank d e) = t \<and> P (snd (pair_rank d e))) ins)"

lemma ins_range_between:
  assumes "staged_sorted d ins" and "lo = Inr (length (takeWhile (\<lambda>e. Q (pair_rank d e)) ins))"
    and "hi = Inr (length (takeWhile (\<lambda>e. P (pair_rank d e)) ins))"
    and "\<forall>a b. a \<le> b \<longrightarrow> P b \<longrightarrow> P a" and "\<forall>a b. a \<le> b \<longrightarrow> Q b \<longrightarrow> Q a" and "\<forall>a. Q a \<longrightarrow> P a"
    and eq: "\<And>r. P r \<and> \<not> Q r \<longleftrightarrow> fst r = t \<and> R (snd r)"
  shows "ins_range ord ins lo hi = Inr (directed ord (staged_where d t ins R))"
  using range_between [OF assms(4-6), of "pair_rank d" ins] assms(1-3) eq
  by (simp add: ins_range_def staged_where_def staged_sorted_def)

lemma fst_down: "\<forall>a b. a \<le> b \<longrightarrow> fst b < t \<longrightarrow> fst a < (t :: nat)" "\<forall>a b. a \<le> b \<longrightarrow> fst b \<le> t \<longrightarrow> fst a \<le> t"
  by (auto simp: less_eq_prod_def)

lemma staged_ranges:
  assumes inv: "db_inv d" and t: "t < length (d_tables d)" and st: "staged_sorted d (sg_inserts x)"
    and k: "good_key (table_schema t d) k" "good_key (table_schema t d) k'"
  shows "staged t k (d, x) = Inr (staged_where d t (sg_inserts x) (\<lambda>r. r = rank_key (table_schema t d) k))"
    and "staged_lt t k ord (d, x) = Inr (directed ord (staged_where d t (sg_inserts x) (\<lambda>r. r < rank_key (table_schema t d) k)))"
    and "staged_gt t k ord (d, x) = Inr (directed ord (staged_where d t (sg_inserts x) (\<lambda>r. rank_key (table_schema t d) k < r)))"
    and "rank_key (table_schema t d) k < rank_key (table_schema t d) k' \<Longrightarrow> staged_in t k k' ord (d, x) =
      Inr (directed ord (staged_where d t (sg_inserts x) (\<lambda>r. rank_key (table_schema t d) k < r \<and> r < rank_key (table_schema t d) k')))"
    and "staged_all t ord (d, x) = Inr (directed ord (staged_where d t (sg_inserts x) (\<lambda>r. True)))"
proof -
  let ?K = "rank_key (table_schema t d) k" and ?K' = "rank_key (table_schema t d) k'"
  note b = staged_bounds [OF inv st k(1)] and b' = staged_bounds [OF inv st k(2)]
  have s: "search_in t mb d = Inr (t, KeyOnlySearchRow (t_schema (snd (d_tables d ! t))) mb)" for mb
    using t by (simp add: search_in_def table_at_def split: prod.split)
  note r = ins_range_between [OF st]
  have "ins_range ORD_ANY (sg_inserts x) (ins_lower d (t, KeyOnlySearchRow (t_schema (snd (d_tables d ! t))) k) (sg_inserts x))
      (ins_upper d (t, KeyOnlySearchRow (t_schema (snd (d_tables d ! t))) k) (sg_inserts x)) =
    Inr (directed ORD_ANY (staged_where d t (sg_inserts x) (\<lambda>r. r = ?K)))"
    by (rule r [OF b(1,2) le_down(1,2)]) (auto simp: less_imp_le)
  then show "staged t k (d, x) = Inr (staged_where d t (sg_inserts x) (\<lambda>r. r = ?K))"
    by (simp add: staged_def s directed_def)
  show "staged_lt t k ord (d, x) = Inr (directed ord (staged_where d t (sg_inserts x) (\<lambda>r. r < ?K)))"
    unfolding staged_lt_def prod.case s rbind_simps
    by (rule r [OF b(3,1) le_down(2) fst_down(1)]) (auto simp: less_prod_def)
  show "staged_gt t k ord (d, x) = Inr (directed ord (staged_where d t (sg_inserts x) (\<lambda>r. ?K < r)))"
    unfolding staged_gt_def prod.case s rbind_simps
    by (rule r [OF b(2,4) fst_down(2) le_down(1)]) (auto simp: less_eq_prod_def not_le)
  show "staged_in t k k' ord (d, x) = Inr (directed ord (staged_where d t (sg_inserts x) (\<lambda>r. ?K < r \<and> r < ?K')))" if "?K < ?K'"
    unfolding staged_in_def prod.case s rbind_simps
    by (rule r [OF b(2) b'(1) le_down(2) le_down(1)]) (use that in \<open>auto simp: less_prod_def less_eq_prod_def not_le\<close>)
  show "staged_all t ord (d, x) = Inr (directed ord (staged_where d t (sg_inserts x) (\<lambda>r. True)))"
    unfolding staged_all_def prod.case
    by (rule r [OF b(3,4) fst_down(2) fst_down(1)]) auto
qed

text \<open>A query inside a transaction, read to its end: the rows of the table that satisfy the query and
  are not staged for removal, and the staged rows of this table that satisfy it.\<close>

definition tx_fuel :: "nat \<Rightarrow> db \<Rightarrow> 'a stage_scheme \<Rightarrow> nat" where
  "tx_fuel t d x = Suc (length (t_rows (snd (d_tables d ! t))) + length (sg_inserts x))"

definition tx_finds :: "nat \<Rightarrow> db \<times> 'a stage_scheme \<Rightarrow> raw_cursor merged res \<Rightarrow> (int list list \<Rightarrow> bool) \<Rightarrow> bool" where
  "tx_finds t st q P \<longleftrightarrow> (case st of (d, x) \<Rightarrow>
     case rbind q (drain (tx_fuel t d x) (merged_vt (tx_fuel t d x) raw_vt)) of
       Inl _ \<Rightarrow> False
     | Inr (ps, _) \<Rightarrow> mset ps = mset (filter (\<lambda>p. (t, p) \<notin> set (sg_removes x)) (rows_where (table_schema t d) (snd (d_tables d ! t)) P)) +
                       mset (staged_where d t (sg_inserts x) P))"

lemma mset_directed [simp]: "mset (directed ord xs) = mset xs" "length (directed ord xs) = length xs"
  by (simp_all add: directed_def)

lemma filter_directed: "filter P (directed ord xs) = directed ord (filter P xs)"
  by (simp add: directed_def rev_filter)

lemma delivers_raw:
  assumes "delivers tab q ord ps"
  shows "\<exists>c. q = Inr c \<and> raw_ok (SortedCur tab c) \<and> raw_rows (SortedCur tab c) = directed ord ps \<and> length ps \<le> length (t_rows tab)"
  using assms by (auto simp: delivers_def mk_cursor_def directed_def range_rows_def)

lemma merged_drain:
  assumes "raw_ok e" and "length (raw_rows e) + length ins < n"
  shows "\<exists>m'. drain n (merged_vt n raw_vt) (new_merged t e ins rem) = Inr (merge_ptr (kept t rem (raw_rows e)) ins, m')"
proof -
  have "merged_ok n raw_rows raw_ok (new_merged t e ins rem)" using assms by (simp add: merged_ok_def new_merged_def)
  moreover have "length (merged_rows raw_rows (new_merged t e ins rem)) < n"
    using assms(2) length_kept [of t rem "raw_rows e"] by (simp add: merged_rows_new)
  ultimately show ?thesis using merged_raw.drain_rows [of n "new_merged t e ins rem" n] by (auto simp: merged_rows_new)
qed

lemma tx_findsI:
  assumes tab: "d_tables d ! t = (TBL_SORTED, tab)"
    and del: "delivers tab cq ord (rows_where (table_schema t d) tab P)"
    and q: "q = merge_result t (sg_removes x) (Inr (directed ord (staged_where d t (sg_inserts x) P))) (rbind cq (\<lambda>c. Inr (SortedCur tab c)))"
  shows "tx_finds t (d, x) q P"
proof -
  obtain c where c: "cq = Inr c" "raw_ok (SortedCur tab c)" "raw_rows (SortedCur tab c) = directed ord (rows_where (table_schema t d) tab P)"
    "length (rows_where (table_schema t d) tab P) \<le> length (t_rows tab)"
    using delivers_raw [OF del] by blast
  have "length (staged_where d t (sg_inserts x) P) \<le> length (sg_inserts x)" by (simp add: staged_where_def)
  then have len: "length (raw_rows (SortedCur tab c)) + length (directed ord (staged_where d t (sg_inserts x) P)) < tx_fuel t d x"
    using c(3,4) tab by (simp add: tx_fuel_def)
  show ?thesis
    using merged_drain [OF c(2) len, of t "sg_removes x"] tab c(1,3)
    by (auto simp: tx_finds_def q merge_result_def merge_ptr_mset kept_def filter_directed)
qed

text \<open>C34. Every query of a transaction on a sorted table sees the transaction's own changes: with the
  staged rows in their order, reading the result of a query for a key, of a range query or of a scan to
  its end delivers exactly the rows of the table with keys in the range that the transaction has not
  removed, and the rows with keys in the range that it has staged for this table.\<close>

theorem txn_queries:
  assumes inv: "db_inv d" and t: "t < length (d_tables d)" "fst (d_tables d ! t) = TBL_SORTED"
    and st: "staged_sorted d (sg_inserts x)" and k: "good_key (table_schema t d) k" "good_key (table_schema t d) k'"
    and lt: "rank_key (table_schema t d) k < rank_key (table_schema t d) k'"
  shows "tx_finds t (d, x) (do_query t k (d, x)) (\<lambda>r. r = rank_key (table_schema t d) k) \<and>
    tx_finds t (d, x) (do_query_lt t k ord (d, x)) (\<lambda>r. r < rank_key (table_schema t d) k) \<and>
    tx_finds t (d, x) (do_query_gt t k ord (d, x)) (\<lambda>r. rank_key (table_schema t d) k < r) \<and>
    tx_finds t (d, x) (do_query_in t k k' ord (d, x)) (\<lambda>r. rank_key (table_schema t d) k < r \<and> r < rank_key (table_schema t d) k') \<and>
    tx_finds t (d, x) (do_all t ord (d, x)) (\<lambda>r. True)"
proof -
  obtain tab where tab: "d_tables d ! t = (TBL_SORTED, tab)" "t_schema tab < length (d_schemas d)"
    "schema_inv (table_schema t d)" "table_inv (table_schema t d) (d_heap d, tab)"
    using sorted_table [OF inv t] by (auto simp: table_schema_def)
  have s: "schema_at d (t_schema tab) = Inr (table_schema t d)" using tab(1,2) by (simp add: schema_at_def table_schema_def)
  note q = table_cursors [OF tab(3,4) k] and sr = staged_ranges [OF inv t(1) st k]
  have all: "rows_where (table_schema t d) tab (\<lambda>r. True) = map snd (t_rows tab)" by (simp add: rows_where_def)
  have "tx_finds t (d, x) (do_query t k (d, x)) (\<lambda>r. r = rank_key (table_schema t d) k)"
    by (rule tx_findsI [OF tab(1) q(1)]) (simp add: do_query_def sr(1) tbl_query_def table_at_def t tab(1) s directed_def)
  moreover have "tx_finds t (d, x) (do_query_lt t k ord (d, x)) (\<lambda>r. r < rank_key (table_schema t d) k)"
    by (rule tx_findsI [OF tab(1) q(2)]) (simp add: do_query_lt_def sr(2) tbl_query_lt_def tbl_range_def table_at_def t tab(1) s)
  moreover have "tx_finds t (d, x) (do_query_gt t k ord (d, x)) (\<lambda>r. rank_key (table_schema t d) k < r)"
    by (rule tx_findsI [OF tab(1) q(3)]) (simp add: do_query_gt_def sr(3) tbl_query_gt_def tbl_range_def table_at_def t tab(1) s)
  moreover have "tx_finds t (d, x) (do_query_in t k k' ord (d, x)) (\<lambda>r. rank_key (table_schema t d) k < r \<and> r < rank_key (table_schema t d) k')"
    by (rule tx_findsI [OF tab(1), of "st_query_in (table_schema t d) k k' ord tab"])
      (use q(4) [of ord] lt in \<open>simp_all add: do_query_in_def sr(4) tbl_query_in_def tbl_range_def table_at_def t tab(1) s\<close>)
  moreover have "tx_finds t (d, x) (do_all t ord (d, x)) (\<lambda>r. True)"
    by (rule tx_findsI [OF tab(1), of "Inr (st_all ord tab)"])
      (use q(5) [of ord] in \<open>simp_all add: do_all_def sr(5) tbl_all_def table_at_def t tab(1) all\<close>)
  ultimately show ?thesis by blast
qed

theorem txn_queries_witness:
  "let x = (new_stage 1)\<lparr>sg_inserts := [(0, 2)], sg_removes := [(0, 1)]\<rparr>
   in tx_finds 0 (demo_db, x) (do_query_lt 0 [[8, 0, 0, 0]] ORD_DESC (demo_db, x)) (\<lambda>r. r < rank_key demo_schema [[8, 0, 0, 0]])"
proof -
  let ?x = "(new_stage 1)\<lparr>sg_inserts := [(0, 2)], sg_removes := [(0, 1)]\<rparr>"
  have s: "table_schema 0 demo_db = demo_schema" by code_simp
  have "0 < length (d_tables demo_db)" "fst (d_tables demo_db ! 0) = TBL_SORTED" "staged_sorted demo_db (sg_inserts ?x)"
    "good_key (table_schema 0 demo_db) [[8, 0, 0, 0]]" "good_key (table_schema 0 demo_db) [[9, 0, 0, 0]]"
    "rank_key (table_schema 0 demo_db) [[8, 0, 0, 0]] < rank_key (table_schema 0 demo_db) [[9, 0, 0, 0]]"
    by code_simp+
  from txn_queries [OF demo_db_inv this, of ORD_DESC] show ?thesis by (simp add: s)
qed

end
