(* ===== verification/Mdb_Piece.thy ===== *)
theory Mdb_Piece
  imports Mdb_Staging
begin

text \<open>
  The pieces of a two-phase-locking transaction (\<^verbatim>\<open>Txn2PL::PieceStatus\<close> in \<^verbatim>\<open>memdb/txn.h\<close>): what a
  piece waits for, whether its locks were granted or refused, and the wound-die protocol between the
  lock groups and the transaction. The lock groups themselves (\<^verbatim>\<open>rrr::ALockGroup\<close>) belong to a
  library outside the repository: the model records the calls the code makes to them, in order, and
  their answers come in as the callbacks \<^verbatim>\<open>start_yes_callback\<close>, \<^verbatim>\<open>start_no_callback\<close> and the wound
  callback.
\<close>

section \<open>Pieces\<close>

datatype alock_type = RLOCK | WLOCK

text \<open>The lock of a column of a row, and a group of requests with its priority.\<close>

type_synonym alock = "nat \<times> nat"

record lock_group =
  lg_priority :: i64
  lg_locks :: "(alock \<times> alock_type) list"

datatype group_call = LockAll lock_group | UnlockAll lock_group

text \<open>The output of a piece: the size cell of an array, or a vector of values.\<close>

datatype piece_output = OutArray i32 | OutVec "mvalue list"

text \<open>The results of the queries of a piece (\<^verbatim>\<open>query_buf_t\<close>). A procedure is called twice; its second call asks with \<^verbatim>\<open>retrieve\<close> for
  the results of its first one, in order. A \<^verbatim>\<open>ResultSet\<close> shares its cursor with its copies: it is a position in the buffer here.\<close>

record query_buf =
  retrieve_index :: nat
  qb_buf :: "raw_cursor merged list"

definition new_query_buf :: query_buf where
  "new_query_buf = \<lparr>retrieve_index = 0, qb_buf = []\<rparr>"

definition buf_query :: "bool \<Rightarrow> raw_cursor merged res \<Rightarrow> query_buf \<Rightarrow> (nat \<times> query_buf) res" where
  "buf_query retrieve q qb =
     (let i = retrieve_index qb; n = length (qb_buf qb)
      in if retrieve
         then (if i < n then Inr (i, qb\<lparr>retrieve_index := Suc i, qb_buf := (qb_buf qb)[i := mc_reset raw_vt (qb_buf qb ! i)]\<rparr>) else Inl OutOfRange)
         else rbind q (\<lambda>m. Inr (n, qb\<lparr>qb_buf := qb_buf qb @ [m]\<rparr>)))"

text \<open>\<^verbatim>\<open>next\<close> of a result, and the loop that reads it to its end.\<close>

definition rs_next :: "nat \<Rightarrow> query_buf \<Rightarrow> (nat \<times> query_buf) res" where
  "rs_next i qb =
     (if i < length (qb_buf qb)
      then let m = qb_buf qb ! i
        in rbind (mc_next (Suc (length (raw_rows (mc_cursor m)))) raw_vt m) (\<lambda>(r, m'). Inr (r, qb\<lparr>qb_buf := (qb_buf qb)[i := m']\<rparr>))
      else Inl BadPointer)"

definition rs_rows :: "nat \<Rightarrow> query_buf \<Rightarrow> (nat list \<times> query_buf) res" where
  "rs_rows i qb =
     (if i < length (qb_buf qb)
      then let m = qb_buf qb ! i
        in rbind (drain (Suc (length (merged_rows raw_rows m))) (merged_vt (Suc (length (raw_rows (mc_cursor m)))) raw_vt) m)
             (\<lambda>(rs, m'). Inr (rs, qb\<lparr>qb_buf := (qb_buf qb)[i := m']\<rparr>))
      else Inl BadPointer)"

record piece =
  ps_pid :: i64
  ps_num_waiting :: int
  ps_num_acquired :: int
  ps_rej :: bool
  ps_output :: piece_output
  ps_finish :: bool
  ps_rw_succ :: bool
  ps_rw_group :: lock_group
  ps_rm_succ :: bool
  ps_rm_group :: lock_group
  ps_is_rw :: bool
  ps_query_buf :: query_buf

definition swap_bits :: "i64 \<Rightarrow> i64" where
  "swap_bits num = push_bit 32 num OR (drop_bit 32 num AND 0xFFFFFFFF)"

definition new_piece :: "i64 \<Rightarrow> i64 \<Rightarrow> piece_output \<Rightarrow> piece" where
  "new_piece tid pid out =
     \<lparr>ps_pid = pid, ps_num_waiting = 1, ps_num_acquired = 0, ps_rej = False, ps_output = out, ps_finish = False,
      ps_rw_succ = False, ps_rw_group = \<lparr>lg_priority = swap_bits tid, lg_locks = []\<rparr>,
      ps_rm_succ = False, ps_rm_group = \<lparr>lg_priority = swap_bits tid, lg_locks = []\<rparr>, ps_is_rw = False,
      ps_query_buf = new_query_buf\<rparr>"

definition is_rejected :: "bool \<Rightarrow> piece \<Rightarrow> bool" where
  "is_rejected wound ps \<longleftrightarrow> ps_rej ps \<or> wound"

definition add_locks :: "(alock \<times> alock_type) list \<Rightarrow> lock_group \<Rightarrow> lock_group" where
  "add_locks ls g = g\<lparr>lg_locks := lg_locks g @ ls\<rparr>"

text \<open>Locking a whole row for removal; locking columns for reading and writing.\<close>

definition reg_rm_lock :: "db \<Rightarrow> nat \<Rightarrow> piece \<Rightarrow> (piece \<times> group_call list) res" where
  "reg_rm_lock d row ps =
     verify (d_kind d row = ROW_FINE)
       (rbind (row_columns_count row d)
         (\<lambda>n. let g = add_locks (map (\<lambda>i. ((row, i), WLOCK)) [0 ..< n]) (ps_rm_group ps)
              in Inr (ps\<lparr>ps_rm_succ := False, ps_is_rw := False, ps_rm_group := g\<rparr>, [LockAll g])))"

definition reg_rw_lock :: "db \<Rightarrow> (alock \<times> alock_type) list \<Rightarrow> piece \<Rightarrow> (piece \<times> group_call list) res" where
  "reg_rw_lock d col_locks ps =
     verify (list_all (\<lambda>l. d_kind d (fst (fst l)) = ROW_FINE) col_locks)
       (let g = add_locks col_locks (ps_rw_group ps)
        in Inr (ps\<lparr>ps_rw_succ := False, ps_is_rw := True, ps_rw_group := g\<rparr>, [LockAll g]))"

definition ps_abort :: "piece \<Rightarrow> group_call list res" where
  "ps_abort ps =
     verify (ps_finish ps)
       (Inr ((if ps_rw_succ ps then [UnlockAll (ps_rw_group ps)] else []) @ (if ps_rm_succ ps then [UnlockAll (ps_rm_group ps)] else [])))"

definition ps_commit :: "piece \<Rightarrow> group_call list res" where
  "ps_commit ps = verify (ps_finish ps) (Inr (if ps_rw_succ ps then [UnlockAll (ps_rw_group ps)] else []))"

definition remove_output :: "piece \<Rightarrow> piece" where
  "remove_output ps = ps\<lparr>ps_output := (case ps_output ps of OutArray n \<Rightarrow> OutArray 0 | OutVec vs \<Rightarrow> OutVec [])\<rparr>"

definition set_num_waiting_locks :: "int \<Rightarrow> piece \<Rightarrow> piece res" where
  "set_num_waiting_locks num ps = verify (num \<le> 1) (Inr (ps\<lparr>ps_num_waiting := num, ps_num_acquired := 0\<rparr>))"

definition start_yes_callback :: "piece \<Rightarrow> piece res" where
  "start_yes_callback ps =
     verify (ps_num_acquired ps + 1 \<le> ps_num_waiting ps)
       (let ps1 = ps\<lparr>ps_num_acquired := ps_num_acquired ps + 1\<rparr>
        in Inr (if ps_is_rw ps then ps1\<lparr>ps_rw_succ := True\<rparr> else ps1\<lparr>ps_rm_succ := True\<rparr>))"

definition start_no_callback :: "piece \<Rightarrow> piece res" where
  "start_no_callback ps =
     verify (ps_num_acquired ps + 1 \<le> ps_num_waiting ps)
       (Inr (ps\<lparr>ps_num_acquired := ps_num_acquired ps + 1, ps_rej := True\<rparr>))"

definition can_proceed :: "piece \<Rightarrow> bool" where
  "can_proceed ps \<longleftrightarrow> ps_num_waiting ps = ps_num_acquired ps"

definition set_finish :: "piece \<Rightarrow> piece res" where
  "set_finish ps = verify (\<not> ps_finish ps) (Inr (ps\<lparr>ps_finish := True\<rparr>))"

section \<open>The pieces of a transaction\<close>

text \<open>The private members of \<^verbatim>\<open>Txn2PL\<close>, with the calls made to lock groups so far. The static
  \<^verbatim>\<open>ps_cache_\<close> holds the piece used last; \<open>t2_cache\<close> is its transaction and piece id.\<close>

record txn2pl = stage +
  t2_wound :: bool
  t2_prepared :: bool
  t2_pieces :: "(i64 \<times> piece) list"
  t2_cache :: "(i64 \<times> i64) option"
  t2_calls :: "group_call list"

definition new_txn2pl :: "i64 \<Rightarrow> (i64 \<times> i64) option \<Rightarrow> txn2pl" where
  "new_txn2pl tid cache = stage.extend (new_stage tid)
     \<lparr>t2_wound = False, t2_prepared = False, t2_pieces = [], t2_cache = cache, t2_calls = []\<rparr>"

definition piece_put :: "i64 \<Rightarrow> piece \<Rightarrow> (i64 \<times> piece) list \<Rightarrow> (i64 \<times> piece) list" where
  "piece_put pid ps m = (pid, ps) # filter (\<lambda>e. fst e \<noteq> pid) m"

definition init_piece :: "i64 \<Rightarrow> i64 \<Rightarrow> piece_output \<Rightarrow> txn2pl \<Rightarrow> txn2pl" where
  "init_piece tid pid out x =
     x\<lparr>t2_pieces := piece_put pid (new_piece tid pid out) (t2_pieces x), t2_cache := Some (sg_id x, pid)\<rparr>"

text \<open>The wound callback of the lock groups: 1 refuses.\<close>

definition wound_callback :: "txn2pl \<Rightarrow> int \<times> txn2pl" where
  "wound_callback x = (if t2_prepared x then (1, x) else (0, x\<lparr>t2_wound := True\<rparr>))"

definition t2_commit_prepare :: "txn2pl \<Rightarrow> bool \<times> txn2pl" where
  "t2_commit_prepare x = (let x1 = x\<lparr>t2_prepared := True\<rparr> in (\<not> t2_wound x1, x1))"

text \<open>A cached piece of this transaction that was deleted dangles; a piece of another transaction is
  taken to be alive. Only the piece id is compared.\<close>

definition get_piece_status :: "i64 \<Rightarrow> txn2pl \<Rightarrow> ((i64 \<times> i64) \<times> txn2pl) res" where
  "get_piece_status pid x =
     (case t2_cache x of
        None \<Rightarrow> Inl VerifyFailed
      | Some (tid, cpid) \<Rightarrow>
          if tid = sg_id x \<and> map_of (t2_pieces x) cpid = None then Inl BadPointer
          else if cpid \<noteq> pid
          then (if map_of (t2_pieces x) pid = None then Inl BadPointer
                else Inr ((sg_id x, pid), x\<lparr>t2_cache := Some (sg_id x, pid)\<rparr>))
          else Inr ((tid, pid), x))"

fun release_pieces :: "(piece \<Rightarrow> group_call list res) \<Rightarrow> (i64 \<times> piece) list \<Rightarrow> group_call list res" where
  "release_pieces f [] = Inr []"
| "release_pieces f (e # es) = rbind (f (snd e)) (\<lambda>cs. rbind (release_pieces f es) (\<lambda>cs'. Inr (cs @ cs')))"

definition release_piece_map :: "bool \<Rightarrow> txn2pl \<Rightarrow> txn2pl res" where
  "release_piece_map commit x =
     verify (t2_pieces x \<noteq> [])
       (rbind (release_pieces (if commit then ps_commit else ps_abort) (t2_pieces x))
         (\<lambda>cs. Inr (x\<lparr>t2_pieces := [], t2_calls := t2_calls x @ cs\<rparr>)))"

section \<open>Wound and prepare\<close>

text \<open>What happens to a transaction until it ends, as far as the protocol is concerned: a lock group
  asks to wound it, it is prepared, a piece is started or changes.\<close>

datatype t2_event = EvWound | EvPrepare | EvInit i64 piece_output | EvPiece i64 piece

fun t2_step :: "t2_event \<Rightarrow> txn2pl \<Rightarrow> txn2pl" where
  "t2_step EvWound x = snd (wound_callback x)"
| "t2_step EvPrepare x = snd (t2_commit_prepare x)"
| "t2_step (EvInit pid out) x = init_piece (sg_id x) pid out x"
| "t2_step (EvPiece pid ps) x = x\<lparr>t2_pieces := piece_put pid ps (t2_pieces x)\<rparr>"

lemma prepared_stays:
  "t2_prepared x \<Longrightarrow> t2_prepared (fold t2_step evs x) \<and> t2_wound (fold t2_step evs x) = t2_wound x"
proof (induction evs arbitrary: x)
  case (Cons ev evs)
  have "t2_prepared (t2_step ev x) \<and> t2_wound (t2_step ev x) = t2_wound x"
    using Cons.prems by (cases ev) (simp_all add: wound_callback_def t2_commit_prepare_def init_piece_def Let_def)
  then show ?case using Cons.IH [of "t2_step ev x"] by simp
qed simp

text \<open>C35. Once \<^verbatim>\<open>commit_prepare\<close> of a transaction has answered yes, no lock group can wound it any
  more: whatever happens afterwards, the wound callback refuses, the transaction is not wounded, and
  preparing it again answers yes.\<close>

theorem prepared_not_wounded:
  assumes "t2_commit_prepare x = (True, x')"
  shows "\<not> t2_wound (fold t2_step evs x') \<and> fst (wound_callback (fold t2_step evs x')) = 1 \<and>
    fst (t2_commit_prepare (fold t2_step evs x'))"
proof -
  have "t2_prepared x'" "\<not> t2_wound x'" using assms by (auto simp: t2_commit_prepare_def Let_def)
  then show ?thesis using prepared_stays [of x' evs] by (simp add: wound_callback_def t2_commit_prepare_def)
qed

theorem prepared_not_wounded_witness:
  "\<not> t2_wound (fold t2_step [EvWound, EvInit 5 (OutVec []), EvWound] (snd (t2_commit_prepare (new_txn2pl 3 None))))"
proof -
  have "t2_commit_prepare (new_txn2pl 3 None) = (True, (new_txn2pl 3 None)\<lparr>t2_prepared := True\<rparr>)" by code_simp
  from prepared_not_wounded [OF this, of "[EvWound, EvInit 5 (OutVec []), EvWound]"]
  show ?thesis by (simp add: t2_commit_prepare_def Let_def)
qed

end
