(* ===== verification/Mdb_Txn.thy ===== *)
theory Mdb_Txn
  imports Mdb_Piece
begin

text \<open>
  Two-phase-locking transactions and nested transactions (\<^verbatim>\<open>Txn2PL\<close> and \<^verbatim>\<open>TxnNested\<close> in
  \<^verbatim>\<open>memdb/txn.cc\<close>). A transaction keeps its writes in the staging area until it commits. The virtual
  methods of a transaction are a record of functions, so that a nested transaction is defined over any
  base transaction, at any depth. The assertions of the code are compiled out (\<^verbatim>\<open>-DNDEBUG\<close>).
\<close>

section \<open>Txn2PL\<close>

definition t2_read_column :: "nat \<Rightarrow> nat \<Rightarrow> db \<times> 'a stage_scheme \<Rightarrow> (mvalue option \<times> db \<times> 'a stage_scheme) res" where
  "t2_read_column p col = (\<lambda>(d, x).
     verify (sg_outcome x = NONE)
       (rbind (row_table p d)
         (\<lambda>to. case to of
            None \<Rightarrow> rbind (row_get p col d) (\<lambda>v. Inr (Some v, d, x))
          | Some t \<Rightarrow> (case upd_find p col (sg_updates x) of
              Some v \<Rightarrow> Inr (Some v, d, x)
            | None \<Rightarrow> rbind (row_get p col d) (\<lambda>v. Inr (Some v, d, x\<lparr>sg_reads := mm_ins p col (sg_reads x)\<rparr>))))))"

text \<open>The staging of a write: the value of a pair already there is replaced.\<close>

definition stage_write :: "nat \<Rightarrow> nat \<Rightarrow> mvalue \<Rightarrow> (nat \<times> nat \<times> mvalue) list \<Rightarrow> (nat \<times> nat \<times> mvalue) list" where
  "stage_write p col v us = (case upd_find p col us of Some _ \<Rightarrow> upd_set p col v us | None \<Rightarrow> mm_ins p (col, v) us)"

definition t2_write_column :: "nat \<Rightarrow> nat \<Rightarrow> mvalue \<Rightarrow> db \<times> 'a stage_scheme \<Rightarrow> (bool \<times> db \<times> 'a stage_scheme) res" where
  "t2_write_column p col v = (\<lambda>(d, x).
     verify (sg_outcome x = NONE)
       (rbind (row_table p d)
         (\<lambda>to. case to of
            None \<Rightarrow> rbind (row_upd p col v d) (\<lambda>d'. Inr (True, d', x))
          | Some t \<Rightarrow> Inr (True, d, x\<lparr>sg_updates := stage_write p col v (sg_updates x)\<rparr>))))"

definition set_insert :: "'k \<Rightarrow> 'k list \<Rightarrow> 'k list" where
  "set_insert k ks = (if k \<in> set ks then ks else ks @ [k])"

definition t2_insert_row :: "nat \<Rightarrow> nat \<Rightarrow> db \<times> 'a stage_scheme \<Rightarrow> (bool \<times> db \<times> 'a stage_scheme) res" where
  "t2_insert_row t p = (\<lambda>(d, x).
     verify (sg_outcome x = NONE)
       (rbind (row_table p d)
         (\<lambda>to. verify (to = None)
           (rbind (stage_insert d t p (sg_inserts x))
             (\<lambda>ins. Inr (True, d, x\<lparr>sg_inserts := ins, sg_removes := filter (\<lambda>e. e \<noteq> (t, p)) (sg_removes x)\<rparr>))))))"

text \<open>A row that is only staged is dropped; a row of a table is staged for removal.\<close>

definition t2_remove_row :: "nat \<Rightarrow> nat \<Rightarrow> db \<times> 'a stage_scheme \<Rightarrow> (bool \<times> db \<times> 'a stage_scheme) res" where
  "t2_remove_row t p = (\<lambda>(d, x).
     verify (sg_outcome x = NONE)
       (rbind (stage_find d t p (sg_inserts x))
         (\<lambda>found. case found of
            None \<Rightarrow> Inr (True, d, x\<lparr>sg_removes := set_insert (t, p) (sg_removes x), sg_updates := upd_erase p (sg_updates x)\<rparr>)
          | Some i \<Rightarrow> rbind (row_release p d)
              (\<lambda>d'. Inr (True, d', x\<lparr>sg_inserts := erase_at i (sg_inserts x), sg_updates := upd_erase p (sg_updates x)\<rparr>)))))"

definition release_resource :: "'a stage_scheme \<Rightarrow> 'a stage_scheme" where
  "release_resource x = x\<lparr>sg_updates := [], sg_inserts := [], sg_removes := []\<rparr>"

definition t2_abort :: "db \<times> txn2pl \<Rightarrow> (db \<times> txn2pl) res" where
  "t2_abort = (\<lambda>(d, x).
     verify (sg_outcome x = NONE)
       (rbind (release_piece_map False (release_resource (x\<lparr>sg_outcome := TXN_ABORT\<rparr>))) (\<lambda>x'. Inr (d, x'))))"

text \<open>The three passes of \<^verbatim>\<open>commit\<close>. The table of an updated row is dereferenced.\<close>

fun apply_inserts :: "(nat \<times> nat) list \<Rightarrow> db \<Rightarrow> db res" where
  "apply_inserts [] d = Inr d"
| "apply_inserts ((t, p) # es) d = rbind (tbl_insert t p d) (apply_inserts es)"

fun apply_updates :: "(nat \<times> nat \<times> mvalue) list \<Rightarrow> db \<Rightarrow> db res" where
  "apply_updates [] d = Inr d"
| "apply_updates ((p, col, v) # us) d =
     rbind (row_table p d)
       (\<lambda>to. if to = None then Inl BadPointer else rbind (row_upd p col v d) (apply_updates us))"

fun apply_removes :: "bool \<Rightarrow> (nat \<times> nat) list \<Rightarrow> db \<Rightarrow> db res" where
  "apply_removes do_free [] d = Inr d"
| "apply_removes do_free ((t, p) # es) d = rbind (tbl_remove t p do_free d) (apply_removes do_free es)"

fun release_rows :: "nat list \<Rightarrow> db \<Rightarrow> db res" where
  "release_rows [] d = Inr d"
| "release_rows (p # ps) d = rbind (row_release p d) (release_rows ps)"

definition t2_commit :: "db \<times> txn2pl \<Rightarrow> (bool \<times> db \<times> txn2pl) res" where
  "t2_commit = (\<lambda>(d, x).
     verify (sg_outcome x = NONE)
       (rbind (apply_inserts (sg_inserts x) d)
         (\<lambda>d1. rbind (apply_updates (sg_updates x) d1)
           (\<lambda>d2. rbind (apply_removes False (sg_removes x) d2)
             (\<lambda>d3. rbind (release_rows (map snd (sg_removes x)) d3)
               (\<lambda>d4. rbind (release_piece_map True (release_resource (x\<lparr>sg_outcome := TXN_COMMIT\<rparr>)))
                 (\<lambda>x'. Inr (True, d4, x'))))))))"

section \<open>TxnNested\<close>

text \<open>The virtual methods of a transaction; the state is the database and the transaction's own part.\<close>

record ('x, 'e) txn_vt =
  v_read :: "nat \<Rightarrow> nat \<Rightarrow> db \<times> 'x \<Rightarrow> (mvalue option \<times> db \<times> 'x) res"
  v_write :: "nat \<Rightarrow> nat \<Rightarrow> mvalue \<Rightarrow> db \<times> 'x \<Rightarrow> (bool \<times> db \<times> 'x) res"
  v_insert :: "nat \<Rightarrow> nat \<Rightarrow> db \<times> 'x \<Rightarrow> (bool \<times> db \<times> 'x) res"
  v_remove :: "nat \<Rightarrow> nat \<Rightarrow> db \<times> 'x \<Rightarrow> (bool \<times> db \<times> 'x) res"
  v_query :: "nat \<Rightarrow> multi_blob \<Rightarrow> db \<times> 'x \<Rightarrow> 'e res"
  v_query_lt :: "nat \<Rightarrow> multi_blob \<Rightarrow> order \<Rightarrow> db \<times> 'x \<Rightarrow> 'e res"
  v_query_gt :: "nat \<Rightarrow> multi_blob \<Rightarrow> order \<Rightarrow> db \<times> 'x \<Rightarrow> 'e res"
  v_query_in :: "nat \<Rightarrow> multi_blob \<Rightarrow> multi_blob \<Rightarrow> order \<Rightarrow> db \<times> 'x \<Rightarrow> 'e res"
  v_all :: "nat \<Rightarrow> order \<Rightarrow> db \<times> 'x \<Rightarrow> 'e res"

definition unsafe_vt :: "(unit, raw_cursor) txn_vt" where
  "unsafe_vt = \<lparr>v_read = unsafe_read_column, v_write = unsafe_write_column, v_insert = unsafe_insert_row, v_remove = unsafe_remove_row,
     v_query = (\<lambda>t mb st. tbl_query t mb (fst st)), v_query_lt = (\<lambda>t mb ord st. tbl_query_lt t mb ord (fst st)),
     v_query_gt = (\<lambda>t mb ord st. tbl_query_gt t mb ord (fst st)), v_query_in = (\<lambda>t lo hi ord st. tbl_query_in t lo hi ord (fst st)),
     v_all = (\<lambda>t ord st. tbl_all t ord (fst st))\<rparr>"

definition t2_vt :: "(txn2pl, raw_cursor merged) txn_vt" where
  "t2_vt = \<lparr>v_read = t2_read_column, v_write = t2_write_column, v_insert = t2_insert_row, v_remove = t2_remove_row,
     v_query = do_query, v_query_lt = do_query_lt, v_query_gt = do_query_gt, v_query_in = do_query_in, v_all = do_all\<rparr>"

record nested = stage +
  row_inserts :: "nat list"

definition new_nested :: "i64 \<Rightarrow> nested" where
  "new_nested tid = stage.extend (new_stage tid) \<lparr>row_inserts = []\<rparr>"

text \<open>A nested transaction knows the rows it has inserted: a row in no table may belong to the base.\<close>

definition nested_read_column :: "('x, 'e) txn_vt \<Rightarrow> nat \<Rightarrow> nat \<Rightarrow> db \<times> 'x \<times> nested \<Rightarrow> (mvalue option \<times> db \<times> 'x \<times> nested) res" where
  "nested_read_column base p col = (\<lambda>(d, b, x).
     verify (sg_outcome x = NONE)
       (if p \<in> set (row_inserts x) then rbind (row_get p col d) (\<lambda>v. Inr (Some v, d, b, x))
        else case upd_find p col (sg_updates x) of
          Some v \<Rightarrow> Inr (Some v, d, b, x)
        | None \<Rightarrow> rbind (v_read base p col (d, b)) (\<lambda>(v, d', b'). Inr (v, d', b', x))))"

definition nested_write_column :: "nat \<Rightarrow> nat \<Rightarrow> mvalue \<Rightarrow> db \<times> 'x \<times> nested \<Rightarrow> (bool \<times> db \<times> 'x \<times> nested) res" where
  "nested_write_column p col v = (\<lambda>(d, b, x).
     verify (sg_outcome x = NONE)
       (if p \<in> set (row_inserts x) then rbind (row_upd p col v d) (\<lambda>d'. Inr (True, d', b, x))
        else Inr (True, d, b, x\<lparr>sg_updates := stage_write p col v (sg_updates x)\<rparr>)))"

definition nested_insert_row :: "nat \<Rightarrow> nat \<Rightarrow> db \<times> 'x \<times> nested \<Rightarrow> (bool \<times> db \<times> 'x \<times> nested) res" where
  "nested_insert_row t p = (\<lambda>(d, b, x).
     verify (sg_outcome x = NONE)
       (rbind (row_table p d)
         (\<lambda>to. verify (to = None)
           (rbind (stage_insert d t p (sg_inserts x))
             (\<lambda>ins. Inr (True, d, b, x\<lparr>sg_inserts := ins, row_inserts := set_insert p (row_inserts x),
                                       sg_removes := filter (\<lambda>e. e \<noteq> (t, p)) (sg_removes x)\<rparr>))))))"

definition nested_remove_row :: "nat \<Rightarrow> nat \<Rightarrow> db \<times> 'x \<times> nested \<Rightarrow> (bool \<times> db \<times> 'x \<times> nested) res" where
  "nested_remove_row t p = (\<lambda>(d, b, x).
     verify (sg_outcome x = NONE)
       (rbind (stage_find d t p (sg_inserts x))
         (\<lambda>found. case found of
            None \<Rightarrow> Inr (True, d, b, x\<lparr>sg_removes := set_insert (t, p) (sg_removes x), sg_updates := upd_erase p (sg_updates x)\<rparr>)
          | Some i \<Rightarrow> rbind (row_release p d)
              (\<lambda>d'. Inr (True, d', b, x\<lparr>sg_inserts := erase_at i (sg_inserts x), row_inserts := filter (\<lambda>q. q \<noteq> p) (row_inserts x),
                                        sg_updates := upd_erase p (sg_updates x)\<rparr>)))))"

definition nested_abort :: "db \<times> 'x \<times> nested \<Rightarrow> (db \<times> 'x \<times> nested) res" where
  "nested_abort = (\<lambda>(d, b, x). verify (sg_outcome x = NONE) (Inr (d, b, x\<lparr>sg_outcome := TXN_ABORT\<rparr>)))"

text \<open>The passes of the nested commit hand the staged changes to the base.\<close>

fun base_inserts :: "('x, 'e) txn_vt \<Rightarrow> (nat \<times> nat) list \<Rightarrow> db \<times> 'x \<Rightarrow> (db \<times> 'x) res" where
  "base_inserts base [] st = Inr st"
| "base_inserts base ((t, p) # es) st = rbind (v_insert base t p st) (\<lambda>(r, st'). base_inserts base es st')"

fun base_updates :: "('x, 'e) txn_vt \<Rightarrow> (nat \<times> nat \<times> mvalue) list \<Rightarrow> db \<times> 'x \<Rightarrow> (db \<times> 'x) res" where
  "base_updates base [] st = Inr st"
| "base_updates base ((p, col, v) # us) st = rbind (v_write base p col v st) (\<lambda>(r, st'). base_updates base us st')"

fun base_removes :: "('x, 'e) txn_vt \<Rightarrow> (nat \<times> nat) list \<Rightarrow> db \<times> 'x \<Rightarrow> (db \<times> 'x) res" where
  "base_removes base [] st = Inr st"
| "base_removes base ((t, p) # es) st = rbind (v_remove base t p st) (\<lambda>(r, st'). base_removes base es st')"

definition nested_commit :: "('x, 'e) txn_vt \<Rightarrow> db \<times> 'x \<times> nested \<Rightarrow> (bool \<times> db \<times> 'x \<times> nested) res" where
  "nested_commit base = (\<lambda>(d, b, x).
     verify (sg_outcome x = NONE)
       (rbind (base_inserts base (sg_inserts x) (d, b))
         (\<lambda>st1. rbind (base_updates base (sg_updates x) st1)
           (\<lambda>st2. rbind (base_removes base (sg_removes x) st2)
             (\<lambda>(d', b'). Inr (True, d', b', x\<lparr>sg_outcome := TXN_COMMIT\<rparr>))))))"

definition nested_query :: "('x, 'e) txn_vt \<Rightarrow> nat \<Rightarrow> multi_blob \<Rightarrow> db \<times> 'x \<times> nested \<Rightarrow> 'e merged res" where
  "nested_query base t mb = (\<lambda>(d, b, x). merge_result t (sg_removes x) (staged t mb (d, x)) (v_query base t mb (d, b)))"

definition nested_query_lt :: "('x, 'e) txn_vt \<Rightarrow> nat \<Rightarrow> multi_blob \<Rightarrow> order \<Rightarrow> db \<times> 'x \<times> nested \<Rightarrow> 'e merged res" where
  "nested_query_lt base t mb ord = (\<lambda>(d, b, x). merge_result t (sg_removes x) (staged_lt t mb ord (d, x)) (v_query_lt base t mb ord (d, b)))"

definition nested_query_gt :: "('x, 'e) txn_vt \<Rightarrow> nat \<Rightarrow> multi_blob \<Rightarrow> order \<Rightarrow> db \<times> 'x \<times> nested \<Rightarrow> 'e merged res" where
  "nested_query_gt base t mb ord = (\<lambda>(d, b, x). merge_result t (sg_removes x) (staged_gt t mb ord (d, x)) (v_query_gt base t mb ord (d, b)))"

definition nested_query_in :: "('x, 'e) txn_vt \<Rightarrow> nat \<Rightarrow> multi_blob \<Rightarrow> multi_blob \<Rightarrow> order \<Rightarrow> db \<times> 'x \<times> nested \<Rightarrow> 'e merged res" where
  "nested_query_in base t lo hi ord = (\<lambda>(d, b, x). merge_result t (sg_removes x) (staged_in t lo hi ord (d, x)) (v_query_in base t lo hi ord (d, b)))"

definition nested_all :: "('x, 'e) txn_vt \<Rightarrow> nat \<Rightarrow> order \<Rightarrow> db \<times> 'x \<times> nested \<Rightarrow> 'e merged res" where
  "nested_all base t ord = (\<lambda>(d, b, x). merge_result t (sg_removes x) (staged_all t ord (d, x)) (v_all base t ord (d, b)))"

definition nested_vt :: "('x, 'e) txn_vt \<Rightarrow> ('x \<times> nested, 'e merged) txn_vt" where
  "nested_vt base = \<lparr>v_read = nested_read_column base, v_write = nested_write_column, v_insert = nested_insert_row,
     v_remove = nested_remove_row, v_query = nested_query base, v_query_lt = nested_query_lt base,
     v_query_gt = nested_query_gt base, v_query_in = nested_query_in base, v_all = nested_all base\<rparr>"

section \<open>Staged updates\<close>

definition upd_keys :: "(nat \<times> nat \<times> mvalue) list \<Rightarrow> (nat \<times> nat) list" where
  "upd_keys us = map (\<lambda>(p, c, v). (p, c)) us"

lemma upd_keys_simps [simp]: "upd_keys [] = []" "upd_keys ((p, c, v) # us) = (p, c) # upd_keys us" "upd_keys (us @ vs) = upd_keys us @ upd_keys vs"
  by (simp_all add: upd_keys_def)

lemma upd_find_append: "upd_find p c (us @ vs) = (case upd_find p c us of None \<Rightarrow> upd_find p c vs | Some v \<Rightarrow> Some v)"
  by (induction p c us rule: upd_find.induct) auto

lemma upd_find_None: "upd_find p c us = None \<longleftrightarrow> (p, c) \<notin> set (upd_keys us)"
  by (induction p c us rule: upd_find.induct) auto

lemma upd_find_SomeD: "upd_find p c us = Some v \<Longrightarrow> (p, c, v) \<in> set us"
  by (induction p c us rule: upd_find.induct) (auto split: if_splits)

lemma upd_find_set: "upd_find p c us \<noteq> None \<Longrightarrow> upd_find q j (upd_set p c v us) = (if q = p \<and> j = c then Some v else upd_find q j us)"
  by (induction p c v us rule: upd_set.induct) (auto split: if_splits)

lemma upd_keys_set [simp]: "upd_keys (upd_set p c v us) = upd_keys us"
  by (induction p c v us rule: upd_set.induct) auto

lemma set_upd_set: "set (upd_set p c v us) \<subseteq> insert (p, c, v) (set us)"
  by (induction p c v us rule: upd_set.induct) auto

lemma mm_ins_split: "\<exists>xs ys. m = xs @ ys \<and> mm_ins k v m = xs @ (k, v) # ys"
  unfolding mm_ins_def by (metis takeWhile_dropWhile_id)

lemma upd_find_stage_write:
  "upd_find q j (stage_write p c v us) = (if q = p \<and> j = c then Some v else upd_find q j us)"
proof (cases "upd_find p c us")
  case None
  obtain xs ys where "us = xs @ ys" "mm_ins p (c, v) us = xs @ (p, c, v) # ys" using mm_ins_split by metis
  then show ?thesis using None by (auto simp: stage_write_def upd_find_append split: option.splits)
qed (simp add: stage_write_def upd_find_set)

lemma stage_write_pred:
  assumes "list_all (\<lambda>(p, c, v). P p c v) us" and "distinct (upd_keys us)" and "P p c v"
  shows "list_all (\<lambda>(p, c, v). P p c v) (stage_write p c v us)" "distinct (upd_keys (stage_write p c v us))"
proof -
  have "list_all (\<lambda>(p, c, v). P p c v) (stage_write p c v us) \<and> distinct (upd_keys (stage_write p c v us))"
  proof (cases "upd_find p c us")
    case None
    obtain xs ys where "us = xs @ ys" "mm_ins p (c, v) us = xs @ (p, c, v) # ys" using mm_ins_split by metis
    moreover have "(p, c) \<notin> set (upd_keys us)" using None upd_find_None by simp
    moreover have "stage_write p c v us = mm_ins p (c, v) us" using None by (simp add: stage_write_def)
    ultimately show ?thesis using assms by auto
  next
    case (Some w)
    then show ?thesis using assms set_upd_set [of p c v us] by (auto simp: stage_write_def list_all_iff)
  qed
  then show "list_all (\<lambda>(p, c, v). P p c v) (stage_write p c v us)" "distinct (upd_keys (stage_write p c v us))" by simp_all
qed

definition updates_ok :: "db \<Rightarrow> (nat \<times> nat \<times> mvalue) list \<Rightarrow> bool" where
  "updates_ok d us \<longleftrightarrow> list_all (\<lambda>(p, c, v). db_writable d p c v) us \<and> distinct (upd_keys us)"

lemma stage_write_ok: "updates_ok d us \<Longrightarrow> db_writable d p c v \<Longrightarrow> updates_ok d (stage_write p c v us)"
  using stage_write_pred [of "db_writable d" us p c v] by (simp add: updates_ok_def)

text \<open>The contents as the transaction sees them.\<close>

definition overlay :: "(nat \<times> nat \<times> mvalue) list \<Rightarrow> contents \<Rightarrow> contents" where
  "overlay us m = (\<lambda>p c. case upd_find p c us of None \<Rightarrow> m p c | Some v \<Rightarrow> v)"

lemma overlay_Nil [simp]: "overlay [] m = m"
  by (simp add: overlay_def fun_eq_iff)

lemma overlay_at: "upd_find p c us = None \<Longrightarrow> overlay us m p c = m p c" "upd_find p c us = Some v \<Longrightarrow> overlay us m p c = v"
  by (simp_all add: overlay_def)

lemma overlay_write: "overlay (stage_write p c v us) m = store_val p c v (overlay us m)"
  by (auto simp: overlay_def store_val_def fun_eq_iff upd_find_stage_write)

lemma overlay_Cons: "(p, c) \<notin> set (upd_keys us) \<Longrightarrow> overlay us (store_val p c v m) = overlay ((p, c, v) # us) m"
  by (auto simp: overlay_def store_val_def fun_eq_iff upd_find_None [symmetric] split: option.splits)

section \<open>The passes of a commit\<close>

lemma apply_updates_spec:
  "db_inv d \<Longrightarrow> updates_ok d us \<Longrightarrow>
    \<exists>d'. apply_updates us d = Inr d' \<and> db_inv d' \<and> same_shape d d' \<and> d_ver d' = d_ver d \<and> d_lock d' = d_lock d \<and>
      db_val d' = overlay us (db_val d)"
proof (induction us arbitrary: d)
  case (Cons u us)
  obtain p c v where u: "u = (p, c, v)" by (cases u)
  have w: "db_writable d p c v" "updates_ok d us" "(p, c) \<notin> set (upd_keys us)" using Cons.prems(2) u by (auto simp: updates_ok_def)
  obtain d1 where d1: "row_upd p c v d = Inr d1" "db_inv d1" "same_shape d d1" "d_ver d1 = d_ver d" "d_lock d1 = d_lock d"
    "db_val d1 = store_val p c v (db_val d)"
    using row_upd_spec [OF Cons.prems(1) w(1)] by (auto simp: store_val_def)
  have "\<exists>t. row_table p d = Inr (Some t)" using w(1) in_tableD [OF Cons.prems(1)] by (fastforce simp: db_writable_def row_table_def)
  then obtain t where t: "row_table p d = Inr (Some t)" ..
  have "updates_ok d1 us" using w(2) same_shapeD(2) [OF d1(3)] by (simp add: updates_ok_def)
  then obtain d' where "apply_updates us d1 = Inr d'" "db_inv d'" "same_shape d1 d'" "d_ver d' = d_ver d1" "d_lock d' = d_lock d1"
    "db_val d' = overlay us (db_val d1)"
    using Cons.IH [OF d1(2)] by blast
  then show ?case using u t d1 w(3) same_shape_trans by (fastforce simp: overlay_Cons)
qed simp

definition inserts_ok :: "db \<Rightarrow> (nat \<times> nat) list \<Rightarrow> bool" where
  "inserts_ok d es \<longleftrightarrow> list_all (\<lambda>e. fresh_row (fst e) (snd e) d) es \<and> distinct (map snd es)"

definition removes_ok :: "db \<Rightarrow> (nat \<times> nat) list \<Rightarrow> bool" where
  "removes_ok d es \<longleftrightarrow> list_all (\<lambda>e. in_table (snd e) d \<and> row_table (snd e) d = Inr (Some (fst e))) es \<and> distinct (map snd es)"

lemma apply_inserts_spec:
  "db_inv d \<Longrightarrow> inserts_ok d es \<Longrightarrow>
    \<exists>d'. apply_inserts es d = Inr d' \<and> db_inv d' \<and> same_frame d d' \<and> d_ver d' = d_ver d \<and> d_lock d' = d_lock d \<and>
      db_val d' = db_val d \<and> (\<forall>u. db_rows u d' = db_rows u d \<union> {p. (u, p) \<in> set es}) \<and>
      (\<forall>q. q \<notin> snd ` set es \<longrightarrow> cell_at (d_heap d') q = cell_at (d_heap d) q)"
proof (induction es arbitrary: d)
  case (Cons e es)
  obtain t p where e: "e = (t, p)" by (cases e)
  have f: "fresh_row t p d" "p \<notin> snd ` set es" using Cons.prems(2) e by (auto simp: inserts_ok_def)
  obtain d1 where d1: "tbl_insert t p d = Inr d1" "db_inv d1" "db_val d1 = db_val d" "same_frame d d1" "d_ver d1 = d_ver d" "d_lock d1 = d_lock d"
    "\<forall>u. db_rows u d1 = (if u = t then insert p (db_rows t d) else db_rows u d)"
    "\<forall>q. q \<noteq> p \<longrightarrow> cell_at (d_heap d1) q = cell_at (d_heap d) q"
    using tbl_insert_spec [OF Cons.prems(1) f(1)] by blast
  have "fresh_row (fst e') (snd e') d1" if "e' \<in> set es" for e'
  proof -
    have "snd e' \<noteq> p" using f(2) that by auto
    then show ?thesis using row_frame(5) [OF d1(4)] d1(8) Cons.prems(2) that by (simp add: inserts_ok_def list_all_iff)
  qed
  then have "inserts_ok d1 es" using Cons.prems(2) by (simp add: inserts_ok_def list_all_iff)
  then obtain d' where "apply_inserts es d1 = Inr d'" "db_inv d'" "same_frame d1 d'" "d_ver d' = d_ver d1" "d_lock d' = d_lock d1"
    "db_val d' = db_val d1" "\<forall>u. db_rows u d' = db_rows u d1 \<union> {p. (u, p) \<in> set es}"
    "\<forall>q. q \<notin> snd ` set es \<longrightarrow> cell_at (d_heap d') q = cell_at (d_heap d1) q"
    using Cons.IH [OF d1(2)] by blast
  then show ?case using e d1 same_frame_trans [OF d1(4)] by (intro exI [of _ d']) auto
qed simp

lemma apply_removes_spec:
  "db_inv d \<Longrightarrow> removes_ok d es \<Longrightarrow>
    \<exists>d'. apply_removes False es d = Inr d' \<and> db_inv d' \<and> same_frame d d' \<and> d_ver d' = d_ver d \<and> d_lock d' = d_lock d \<and>
      (\<forall>u. db_rows u d' = db_rows u d - {p. (u, p) \<in> set es}) \<and>
      (\<forall>p \<in> snd ` set es. \<exists>c. cell_at (d_heap d') p = Inr c \<and> tbl (c_row c) = None \<and> 0 < c_refs c) \<and>
      (\<forall>q. q \<notin> snd ` set es \<longrightarrow> cell_at (d_heap d') q = cell_at (d_heap d) q)"
proof (induction es arbitrary: d)
  case (Cons e es)
  obtain t p where e: "e = (t, p)" by (cases e)
  have f: "in_table p d" "row_table p d = Inr (Some t)" "p \<notin> snd ` set es" using Cons.prems(2) e by (auto simp: removes_ok_def)
  obtain d1 where d1: "tbl_remove t p False d = Inr d1" "db_inv d1" "same_frame d d1" "d_ver d1 = d_ver d" "d_lock d1 = d_lock d"
    "\<forall>u. db_rows u d1 = (if u = t then db_rows t d - {p} else db_rows u d)"
    "\<exists>c. 0 < c_refs c \<and> cell_at (d_heap d1) p = Inr (c\<lparr>c_row := (c_row c)\<lparr>tbl := None\<rparr>\<rparr>)"
    "\<forall>q. q \<noteq> p \<longrightarrow> cell_at (d_heap d1) q = cell_at (d_heap d) q"
    using tbl_remove_spec [OF Cons.prems(1) f(1,2), of False] by auto
  obtain c where c: "0 < c_refs c" "cell_at (d_heap d1) p = Inr (c\<lparr>c_row := (c_row c)\<lparr>tbl := None\<rparr>\<rparr>)" using d1(7) by blast
  have "in_table (snd e') d1 \<and> row_table (snd e') d1 = Inr (Some (fst e'))" if "e' \<in> set es" for e'
  proof -
    have ne: "snd e' \<noteq> p" using f(3) that by auto
    then have "\<forall>u. snd e' \<in> db_rows u d \<longrightarrow> snd e' \<in> db_rows u d1" using d1(6) by auto
    then show ?thesis
      using in_table_frame [OF d1(3), of "snd e'"] row_frame(1) [OF d1(3), of "snd e'"] d1(8) ne Cons.prems(2) that
      by (simp add: removes_ok_def list_all_iff)
  qed
  then have "removes_ok d1 es" using Cons.prems(2) by (simp add: removes_ok_def list_all_iff)
  then obtain d' where d': "apply_removes False es d1 = Inr d'" "db_inv d'" "same_frame d1 d'" "d_ver d' = d_ver d1" "d_lock d' = d_lock d1"
    "\<forall>u. db_rows u d' = db_rows u d1 - {p. (u, p) \<in> set es}"
    "\<forall>p \<in> snd ` set es. \<exists>c. cell_at (d_heap d') p = Inr c \<and> tbl (c_row c) = None \<and> 0 < c_refs c"
    "\<forall>q. q \<notin> snd ` set es \<longrightarrow> cell_at (d_heap d') q = cell_at (d_heap d1) q"
    using Cons.IH [OF d1(2)] by blast
  have "cell_at (d_heap d') p = Inr (c\<lparr>c_row := (c_row c)\<lparr>tbl := None\<rparr>\<rparr>)" using d'(8) f(3) c(2) by simp
  then have "\<exists>c. cell_at (d_heap d') p = Inr c \<and> tbl (c_row c) = None \<and> 0 < c_refs c" using c(1) by simp
  then show ?case using e d1 d' same_frame_trans [OF d1(3) d'(3)] by (intro exI [of _ d']) auto
qed simp

lemma release_rows_spec:
  "db_inv d \<Longrightarrow> distinct ps \<Longrightarrow> \<forall>p \<in> set ps. \<exists>c. cell_at (d_heap d) p = Inr c \<and> tbl (c_row c) = None \<and> 0 < c_refs c \<Longrightarrow>
    \<exists>d'. release_rows ps d = Inr d' \<and> db_inv d' \<and> same_frame d d' \<and> d_ver d' = d_ver d \<and> d_lock d' = d_lock d \<and>
      (\<forall>u. db_rows u d' = db_rows u d) \<and> (\<forall>q. q \<notin> set ps \<longrightarrow> cell_at (d_heap d') q = cell_at (d_heap d) q)"
proof (induction ps arbitrary: d)
  case (Cons p ps)
  obtain c where c: "cell_at (d_heap d) p = Inr c" "tbl (c_row c) = None" "0 < c_refs c" using Cons.prems(3) by auto
  obtain d1 where d1: "row_release p d = Inr d1" "db_inv d1" "same_frame d d1" "d_ver d1 = d_ver d" "d_lock d1 = d_lock d"
    "\<forall>u. db_rows u d1 = db_rows u d" "\<forall>q. q \<noteq> p \<longrightarrow> cell_at (d_heap d1) q = cell_at (d_heap d) q"
    using row_release_spec [OF Cons.prems(1) c] by blast
  have "\<forall>q \<in> set ps. \<exists>c. cell_at (d_heap d1) q = Inr c \<and> tbl (c_row c) = None \<and> 0 < c_refs c"
  proof
    fix q assume "q \<in> set ps"
    then show "\<exists>c. cell_at (d_heap d1) q = Inr c \<and> tbl (c_row c) = None \<and> 0 < c_refs c" using Cons.prems(2,3) d1(7) by (metis distinct.simps(2) list.set_intros(2))
  qed
  then obtain d' where "release_rows ps d1 = Inr d'" "db_inv d'" "same_frame d1 d'" "d_ver d' = d_ver d1" "d_lock d' = d_lock d1"
    "\<forall>u. db_rows u d' = db_rows u d1" "\<forall>q. q \<notin> set ps \<longrightarrow> cell_at (d_heap d') q = cell_at (d_heap d1) q"
    using Cons.IH [OF d1(2)] Cons.prems(2) by auto
  then show ?case using d1 same_frame_trans [OF d1(3)] by (intro exI [of _ d']) auto
qed simp

lemma fresh_not_in_table: "fresh_row t p d \<Longrightarrow> \<not> in_table p d"
  by (auto simp: fresh_row_def in_table_def Let_def split: sum.splits option.splits)

lemma db_writable_in_table: "db_writable d p c v \<Longrightarrow> in_table p d"
  by (simp add: db_writable_def)

text \<open>All passes in order, for what a transaction may have staged.\<close>

definition stage_ok :: "db \<Rightarrow> 'a stage_scheme \<Rightarrow> bool" where
  "stage_ok d x \<longleftrightarrow> sg_outcome x = NONE \<and> updates_ok d (sg_updates x) \<and> inserts_ok d (sg_inserts x) \<and> removes_ok d (sg_removes x)"

lemma stage_kept:
  assumes "same_frame d d1" and "\<forall>u. db_rows u d1 = db_rows u d \<union> {p. (u, p) \<in> set ins}"
    and "\<forall>q. q \<notin> snd ` set ins \<longrightarrow> cell_at (d_heap d1) q = cell_at (d_heap d) q" and "inserts_ok d ins" and "in_table q d"
  shows "in_table q d1" "row_table q d1 = row_table q d" "db_writable d q c v \<Longrightarrow> db_writable d1 q c v"
proof -
  have "q \<notin> snd ` set ins" using assms(4,5) fresh_not_in_table [of _ q d] by (force simp: inserts_ok_def list_all_iff)
  then have c: "cell_at (d_heap d1) q = cell_at (d_heap d) q" using assms(3) by simp
  show "in_table q d1" "row_table q d1 = row_table q d" "db_writable d q c v \<Longrightarrow> db_writable d1 q c v"
    using in_table_frame [OF assms(1) c] row_frame(1) [OF assms(1) c] row_frame_ok(2) [OF assms(1) c] assms(2,5) by auto
qed

lemma commit_passes:
  assumes inv: "db_inv d" and ok: "stage_ok d x"
  shows "\<exists>d1 d2 d3 d4. apply_inserts (sg_inserts x) d = Inr d1 \<and> apply_updates (sg_updates x) d1 = Inr d2 \<and>
    apply_removes False (sg_removes x) d2 = Inr d3 \<and> release_rows (map snd (sg_removes x)) d3 = Inr d4 \<and> db_inv d4 \<and> same_frame d d4 \<and>
    (\<forall>u. db_rows u d4 = (db_rows u d \<union> {p. (u, p) \<in> set (sg_inserts x)}) - {p. (u, p) \<in> set (sg_removes x)}) \<and>
    (\<forall>p. p \<notin> snd ` set (sg_removes x) \<longrightarrow> db_val d4 p = overlay (sg_updates x) (db_val d) p)"
proof -
  let ?ins = "sg_inserts x" and ?us = "sg_updates x" and ?rem = "sg_removes x"
  obtain d1 where d1: "apply_inserts ?ins d = Inr d1" "db_inv d1" "same_frame d d1" "db_val d1 = db_val d"
    "\<forall>u. db_rows u d1 = db_rows u d \<union> {p. (u, p) \<in> set ?ins}" "\<forall>q. q \<notin> snd ` set ?ins \<longrightarrow> cell_at (d_heap d1) q = cell_at (d_heap d) q"
    using apply_inserts_spec [OF inv] ok unfolding stage_ok_def by blast
  note kept = stage_kept [OF d1(3,5,6)]
  have "inserts_ok d ?ins" using ok by (simp add: stage_ok_def)
  then have "db_writable d1 p c v" if "db_writable d p c v" for p c v using kept(3) that db_writable_in_table by blast
  then have "updates_ok d1 ?us" using ok by (fastforce simp: stage_ok_def updates_ok_def list_all_iff)
  then obtain d2 where d2: "apply_updates ?us d1 = Inr d2" "db_inv d2" "same_shape d1 d2" "db_val d2 = overlay ?us (db_val d1)"
    using apply_updates_spec [OF d1(2)] by blast
  have "removes_ok d2 ?rem"
    using ok kept(1,2) same_shapeD(3,4) [OF d2(3)] by (auto simp: stage_ok_def removes_ok_def list_all_iff)
  then obtain d3 where d3: "apply_removes False ?rem d2 = Inr d3" "db_inv d3" "same_frame d2 d3"
    "\<forall>u. db_rows u d3 = db_rows u d2 - {p. (u, p) \<in> set ?rem}"
    "\<forall>p \<in> snd ` set ?rem. \<exists>c. cell_at (d_heap d3) p = Inr c \<and> tbl (c_row c) = None \<and> 0 < c_refs c"
    "\<forall>q. q \<notin> snd ` set ?rem \<longrightarrow> cell_at (d_heap d3) q = cell_at (d_heap d2) q"
    using apply_removes_spec [OF d2(2)] by blast
  have "distinct (map snd ?rem)" using ok by (simp add: stage_ok_def removes_ok_def)
  then obtain d4 where d4: "release_rows (map snd ?rem) d3 = Inr d4" "db_inv d4" "same_frame d3 d4" "\<forall>u. db_rows u d4 = db_rows u d3"
    "\<forall>q. q \<notin> snd ` set ?rem \<longrightarrow> cell_at (d_heap d4) q = cell_at (d_heap d3) q"
    using release_rows_spec [OF d3(2), of "map snd ?rem"] d3(5) by auto
  have fr: "same_frame d2 d4" using same_frame_trans [OF d3(3) d4(3)] .
  have "same_frame d d4" using same_frame_trans [OF d1(3)] same_frame_trans [OF _ fr] d2(3) by (simp add: same_shape_def)
  moreover have "db_val d4 p = overlay ?us (db_val d) p" if "p \<notin> snd ` set ?rem" for p
    using row_frame(3) [OF fr, of p] d3(6) d4(5) that d2(4) d1(4) by simp
  moreover have "db_rows u d4 = (db_rows u d \<union> {p. (u, p) \<in> set ?ins}) - {p. (u, p) \<in> set ?rem}" for u
    using d4(4) d3(4) d2(3) d1(5) by (simp add: same_shape_def)
  ultimately show ?thesis using d1(1) d2(1) d3(1) d4(1,2) by blast
qed

section \<open>Properties of two-phase-locking transactions\<close>

definition pieces_ok :: "txn2pl \<Rightarrow> bool" where
  "pieces_ok x \<longleftrightarrow> t2_pieces x \<noteq> [] \<and> list_all (\<lambda>e. ps_finish (snd e)) (t2_pieces x)"

text \<open>The lock groups of the pieces that are unlocked at the end.\<close>

definition held_rw :: "(i64 \<times> piece) list \<Rightarrow> group_call list" where
  "held_rw es = concat (map (\<lambda>e. if ps_rw_succ (snd e) then [UnlockAll (ps_rw_group (snd e))] else []) es)"

definition held_all :: "(i64 \<times> piece) list \<Rightarrow> group_call list" where
  "held_all es = concat (map (\<lambda>e. (if ps_rw_succ (snd e) then [UnlockAll (ps_rw_group (snd e))] else []) @
     (if ps_rm_succ (snd e) then [UnlockAll (ps_rm_group (snd e))] else [])) es)"

lemma release_pieces_spec:
  "list_all (\<lambda>e. ps_finish (snd e)) es \<Longrightarrow> release_pieces ps_commit es = Inr (held_rw es) \<and> release_pieces ps_abort es = Inr (held_all es)"
  by (induction es) (simp_all add: held_rw_def held_all_def ps_commit_def ps_abort_def)

lemma t2_commit_spec:
  assumes inv: "db_inv d" and ok: "stage_ok d x" and ps: "pieces_ok x"
  shows "\<exists>d' x'. t2_commit (d, x) = Inr (True, d', x') \<and> db_inv d' \<and> same_frame d d' \<and>
    (\<forall>u. db_rows u d' = (db_rows u d \<union> {p. (u, p) \<in> set (sg_inserts x)}) - {p. (u, p) \<in> set (sg_removes x)}) \<and>
    (\<forall>p. p \<notin> snd ` set (sg_removes x) \<longrightarrow> db_val d' p = overlay (sg_updates x) (db_val d) p) \<and>
    sg_outcome x' = TXN_COMMIT \<and> sg_updates x' = [] \<and> sg_inserts x' = [] \<and> sg_removes x' = [] \<and>
    t2_calls x' = t2_calls x @ held_rw (t2_pieces x)"
  using commit_passes [OF inv ok] ok ps release_pieces_spec [of "t2_pieces x"]
  by (auto simp: t2_commit_def stage_ok_def release_piece_map_def release_resource_def pieces_ok_def)

text \<open>C17. A commit of a two-phase-locking transaction applies everything it staged and nothing else:
  it succeeds, the tables gain the staged rows and lose the removed ones, every other row has the
  columns the transaction saw (its own last write, or the stored value), the invariant of the database
  is kept, the staging area is empty, and the lock groups of the pieces that were granted for reading
  and writing are unlocked.\<close>

theorem txn2pl_commit:
  assumes "db_inv d" and "stage_ok d x" and "pieces_ok x"
  shows "\<exists>d' x'. t2_commit (d, x) = Inr (True, d', x') \<and> db_inv d' \<and>
    (\<forall>u. db_rows u d' = (db_rows u d \<union> {p. (u, p) \<in> set (sg_inserts x)}) - {p. (u, p) \<in> set (sg_removes x)}) \<and>
    (\<forall>p c. p \<notin> snd ` set (sg_removes x) \<longrightarrow>
       db_val d' p c = (case upd_find p c (sg_updates x) of None \<Rightarrow> db_val d p c | Some v \<Rightarrow> v)) \<and>
    sg_outcome x' = TXN_COMMIT \<and> sg_updates x' = [] \<and> sg_inserts x' = [] \<and> sg_removes x' = [] \<and>
    t2_calls x' = t2_calls x @ held_rw (t2_pieces x)"
proof -
  obtain d' x' where "t2_commit (d, x) = Inr (True, d', x')" "db_inv d'"
    "\<forall>u. db_rows u d' = (db_rows u d \<union> {p. (u, p) \<in> set (sg_inserts x)}) - {p. (u, p) \<in> set (sg_removes x)}"
    "\<forall>p. p \<notin> snd ` set (sg_removes x) \<longrightarrow> db_val d' p = overlay (sg_updates x) (db_val d) p"
    "sg_outcome x' = TXN_COMMIT" "sg_updates x' = []" "sg_inserts x' = []" "sg_removes x' = []"
    "t2_calls x' = t2_calls x @ held_rw (t2_pieces x)"
    using t2_commit_spec [OF assms] by blast
  then show ?thesis by (intro exI [of _ d'] exI [of _ x']) (simp add: overlay_def)
qed

definition demo_tx :: txn2pl where
  "demo_tx = (init_piece 1 8 (OutVec []) (new_txn2pl 1 None))
     \<lparr>sg_updates := [(0, 2, I64 5)], sg_inserts := [(0, 2)], sg_removes := [(0, 1)],
      t2_pieces := [(8, (new_piece 1 8 (OutVec []))\<lparr>ps_finish := True, ps_rw_succ := True\<rparr>)]\<rparr>"

theorem txn2pl_commit_witness:
  "\<exists>d' x'. t2_commit (demo_db, demo_tx) = Inr (True, d', x') \<and> db_rows 0 d' = {0, 2} \<and> db_val d' 0 2 = I64 5 \<and> db_val d' 2 2 = I64 50"
proof -
  have "stage_ok demo_db demo_tx" "pieces_ok demo_tx" by code_simp+
  note commit = txn2pl_commit [OF demo_db_inv this]
  have "db_rows 0 demo_db = {0, 1}" "sg_inserts demo_tx = [(0, 2)]" "sg_removes demo_tx = [(0, 1)]" "sg_updates demo_tx = [(0, 2, I64 5)]"
    "db_val demo_db 2 2 = I64 50"
    by code_simp+
  then show ?thesis using commit by (fastforce simp: insert_commute)
qed

text \<open>The contract of transactions for \<^verbatim>\<open>Txn2PL\<close>. The database does not change before the commit.\<close>

definition t2_inv :: "db \<Rightarrow> db \<times> txn2pl \<Rightarrow> bool" where
  "t2_inv d0 s \<longleftrightarrow> fst s = d0 \<and> db_inv d0 \<and> stage_ok d0 (snd s) \<and> sg_removes (snd s) = [] \<and> pieces_ok (snd s)"

definition t2_view :: "db \<times> txn2pl \<Rightarrow> contents" where
  "t2_view s = overlay (sg_updates (snd s)) (db_val (fst s))"

lemma in_table_row_table: "db_inv d \<Longrightarrow> in_table p d \<Longrightarrow> \<exists>t. row_table p d = Inr (Some t)"
  using in_tableD [of d p] by (auto simp: row_table_def)

lemma t2_read_spec:
  assumes inv: "db_inv d" and r: "db_readable d p c" and x: "sg_outcome x = NONE"
  shows "\<exists>x'. t2_read_column p c (d, x) = Inr (Some (overlay (sg_updates x) (db_val d) p c), d, x') \<and>
    (x' = x \<or> x' = x\<lparr>sg_reads := mm_ins p c (sg_reads x)\<rparr>)"
proof -
  obtain t where "row_table p d = Inr (Some t)" using in_table_row_table [OF inv] r by (auto simp: db_readable_def)
  then show ?thesis using row_get_readable [OF inv r] x by (simp add: t2_read_column_def overlay_def split: option.split)
qed

interpretation t2: isolated_transaction "t2_inv d0" "\<lambda>s. db_readable (fst s)" "\<lambda>s. db_writable (fst s)" t2_view
  t2_read_column t2_write_column "\<lambda>s. db_val (fst s)" t2_commit for d0
proof unfold_locales
  fix s :: "db \<times> txn2pl" and p c v
  assume inv: "t2_inv d0 s"
  then obtain x where s: "s = (d0, x)" by (cases s) (simp add: t2_inv_def)
  have ok: "db_inv d0" "stage_ok d0 x" "sg_removes x = []" "pieces_ok x" using inv s by (simp_all add: t2_inv_def)
  have none: "sg_outcome x = NONE" using ok(2) by (simp add: stage_ok_def)
  show "db_readable (fst s) p c \<Longrightarrow> \<exists>s'. t2_read_column p c s = Inr (Some (t2_view s p c), s') \<and> t2_inv d0 s' \<and> t2_view s' = t2_view s \<and>
      db_readable (fst s') = db_readable (fst s) \<and> db_writable (fst s') = db_writable (fst s)"
    using t2_read_spec [OF ok(1) _ none] ok s by (fastforce simp: t2_inv_def t2_view_def stage_ok_def pieces_ok_def)
  show "db_writable (fst s) p c v \<Longrightarrow> \<exists>s'. t2_write_column p c v s = Inr (True, s') \<and> t2_inv d0 s' \<and>
      t2_view s' = store_val p c v (t2_view s) \<and> db_readable (fst s') = db_readable (fst s) \<and> db_writable (fst s') = db_writable (fst s)"
    using in_table_row_table [OF ok(1), of p] db_writable_in_table [of d0 p c v] stage_write_ok [of d0 "sg_updates x" p c v] ok none s
    by (auto simp: t2_write_column_def t2_inv_def t2_view_def stage_ok_def pieces_ok_def overlay_write)
  obtain d' x' where "t2_commit (d0, x) = Inr (True, d', x')" "\<forall>p. db_val d' p = overlay (sg_updates x) (db_val d0) p"
    using t2_commit_spec [OF ok(1,2,4)] ok(3) by auto
  then show "\<exists>s'. t2_commit s = Inr (True, s') \<and> db_val (fst s') = t2_view s" using s by (auto simp: t2_view_def)
  fix r b s'
  show "db_readable (fst s) p c \<Longrightarrow> t2_read_column p c s = Inr (r, s') \<Longrightarrow> db_val (fst s') = db_val (fst s)"
    using t2_read_spec [OF ok(1) _ none, of p c] s by auto
  show "db_writable (fst s) p c v \<Longrightarrow> t2_write_column p c v s = Inr (b, s') \<Longrightarrow> db_val (fst s') = db_val (fst s)"
    using in_table_row_table [OF ok(1), of p] db_writable_in_table [of d0 p c v] s none by (auto simp: t2_write_column_def)
qed

text \<open>Running a client program of column accesses in a two-phase-locking transaction and then
  committing it is equivalent to running it without protection: the reads return the same values and
  the database ends with the same columns. Until the commit the database is unchanged, and an abort
  leaves it so and unlocks every lock group that was granted.\<close>

theorem txn2pl_equals_unsafe:
  assumes inv: "t2_inv d (d, x)" and fresh: "sg_updates x = []" and ops: "list_all (op_ok (db_readable d) (db_writable d)) ops"
  shows "\<exists>vs x' d' x'' d''. run_ops t2_read_column t2_write_column ops (d, x) = Inr (vs, d, x') \<and>
    t2_commit (d, x') = Inr (True, d', x'') \<and>
    run_ops unsafe_read_column unsafe_write_column ops (d, ()) = Inr (vs, d'', ()) \<and> db_val d' = db_val d'' \<and>
    (\<exists>y. t2_abort (d, x') = Inr (d, y) \<and> t2_calls y = t2_calls x' @ held_all (t2_pieces x'))"
proof -
  have v: "t2_view (d, x) = db_val d" using fresh by (simp add: t2_view_def)
  obtain s' where s': "run_ops t2_read_column t2_write_column ops (d, x) = Inr (fst (spec_ops ops (db_val d)), s')" "t2_inv d s'"
    "t2_view s' = snd (spec_ops ops (db_val d))"
    using t2.run_spec [OF inv, of ops] ops v by auto
  obtain x' where x': "s' = (d, x')" using s'(2) by (cases s') (simp add: t2_inv_def)
  obtain t where t: "t2_commit s' = Inr (True, t)" "db_val (fst t) = t2_view s'" using t2.commit_law [OF s'(2)] by blast
  obtain d' x'' where dx: "t = (d', x'')" by (cases t)
  have di: "db_inv d" using inv by (simp add: t2_inv_def)
  then obtain u where "run_ops unsafe_read_column unsafe_write_column ops (d, ()) = Inr (fst (spec_ops ops (db_val d)), u)"
    "db_val (fst u) = snd (spec_ops ops (db_val d))"
    using unsafe.run_spec [of "(d, ())" ops] ops by auto
  moreover have "\<exists>y. t2_abort (d, x') = Inr (d, y) \<and> t2_calls y = t2_calls x' @ held_all (t2_pieces x')"
    using s'(2) x' release_pieces_spec [of "t2_pieces x'"]
    by (auto simp: t2_abort_def t2_inv_def stage_ok_def release_piece_map_def release_resource_def pieces_ok_def)
  ultimately show ?thesis using s' x' t dx by (cases u) fastforce
qed

definition demo_tx0 :: txn2pl where
  "demo_tx0 = (new_txn2pl 1 None)\<lparr>t2_pieces := [(8, (new_piece 1 8 (OutVec []))\<lparr>ps_finish := True, ps_rw_succ := True\<rparr>)]\<rparr>"

lemma demo_tx0_inv: "t2_inv demo_db (demo_db, demo_tx0)"
proof -
  have "stage_ok demo_db demo_tx0" "sg_removes demo_tx0 = []" "pieces_ok demo_tx0" by code_simp+
  then show ?thesis using demo_db_inv by (simp add: t2_inv_def)
qed

theorem txn2pl_equals_unsafe_witness:
  "\<exists>vs x' d' x''. run_ops t2_read_column t2_write_column [Wr 0 2 (I64 5), Rd 0 2, Rd 1 2] (demo_db, demo_tx0) = Inr (vs, demo_db, x') \<and>
    t2_commit (demo_db, x') = Inr (True, d', x'')"
proof -
  have "sg_updates demo_tx0 = []" by code_simp
  from txn2pl_equals_unsafe [OF demo_tx0_inv this, of "[Wr 0 2 (I64 5), Rd 0 2, Rd 1 2]"] demo_db_ok show ?thesis by fastforce
qed

section \<open>Nested transactions over any base\<close>

text \<open>A nested transaction over a base that meets the contract of column accesses meets the contract of
  transactions: what it stores when it commits is the view of the base.\<close>

definition nested_stage_ok :: "(nat \<Rightarrow> nat \<Rightarrow> mvalue \<Rightarrow> bool) \<Rightarrow> nested \<Rightarrow> bool" where
  "nested_stage_ok wr x \<longleftrightarrow> sg_outcome x = NONE \<and> list_all (\<lambda>(p, c, v). wr p c v) (sg_updates x) \<and> distinct (upd_keys (sg_updates x)) \<and>
     sg_inserts x = [] \<and> sg_removes x = [] \<and> row_inserts x = []"

definition base_of :: "db \<times> 'x \<times> nested \<Rightarrow> db \<times> 'x" where
  "base_of s = (fst s, fst (snd s))"

definition nested_inv :: "(db \<times> 'x \<Rightarrow> bool) \<Rightarrow> (db \<times> 'x \<Rightarrow> nat \<Rightarrow> nat \<Rightarrow> mvalue \<Rightarrow> bool) \<Rightarrow> db \<times> 'x \<times> nested \<Rightarrow> bool" where
  "nested_inv base_inv wr s \<longleftrightarrow> base_inv (base_of s) \<and> nested_stage_ok (wr (base_of s)) (snd (snd s))"

definition nested_view :: "(db \<times> 'x \<Rightarrow> contents) \<Rightarrow> db \<times> 'x \<times> nested \<Rightarrow> contents" where
  "nested_view view s = overlay (sg_updates (snd (snd s))) (view (base_of s))"

locale base_txn = column_store inv readable writable view "v_read base" "v_write base"
  for inv :: "db \<times> 'x \<Rightarrow> bool" and readable writable view and base :: "('x, 'e) txn_vt"
begin

lemma base_updates_spec:
  "inv s \<Longrightarrow> list_all (\<lambda>(p, c, v). writable s p c v) us \<Longrightarrow> distinct (upd_keys us) \<Longrightarrow>
    \<exists>s'. base_updates base us s = Inr s' \<and> inv s' \<and> view s' = overlay us (view s) \<and> readable s' = readable s \<and> writable s' = writable s"
proof (induction us arbitrary: s)
  case (Cons u us)
  obtain p c v where u: "u = (p, c, v)" by (cases u)
  obtain s1 where s1: "v_write base p c v s = Inr (True, s1)" "inv s1" "view s1 = store_val p c v (view s)"
    "readable s1 = readable s" "writable s1 = writable s"
    using wr_law [OF Cons.prems(1)] Cons.prems(2) u by fastforce
  obtain s' where "base_updates base us s1 = Inr s'" "inv s'" "view s' = overlay us (view s1)" "readable s' = readable s1" "writable s' = writable s1"
    using Cons.IH [OF s1(2)] Cons.prems(2,3) s1(5) u by auto
  then show ?case using u s1 Cons.prems(3) by (auto simp: overlay_Cons)
qed simp

lemma nested_transaction:
  "isolated_transaction (nested_inv inv writable) (\<lambda>s. readable (base_of s)) (\<lambda>s. writable (base_of s)) (nested_view view)
     (v_read (nested_vt base)) (v_write (nested_vt base)) (\<lambda>s. view (base_of s)) (nested_commit base)"
proof
  fix s :: "db \<times> 'x \<times> nested" and p c v
  obtain d b x where s: "s = (d, b, x)" by (cases s) auto
  assume "nested_inv inv writable s"
  then have ok: "inv (d, b)" "nested_stage_ok (writable (d, b)) x" using s by (simp_all add: nested_inv_def base_of_def)
  then have x: "sg_outcome x = NONE" "list_all (\<lambda>(p, c, v). writable (d, b) p c v) (sg_updates x)" "distinct (upd_keys (sg_updates x))"
    "sg_inserts x = []" "sg_removes x = []" "row_inserts x = []"
    by (simp_all add: nested_stage_ok_def)
  show "readable (base_of s) p c \<Longrightarrow> \<exists>s'. v_read (nested_vt base) p c s = Inr (Some (nested_view view s p c), s') \<and>
      nested_inv inv writable s' \<and> nested_view view s' = nested_view view s \<and> readable (base_of s') = readable (base_of s) \<and>
      writable (base_of s') = writable (base_of s)"
    using rd_law [OF ok(1), of p c] ok x s
    by (cases "upd_find p c (sg_updates x)")
      (auto simp: nested_vt_def nested_read_column_def nested_view_def nested_inv_def base_of_def overlay_at)
  show "writable (base_of s) p c v \<Longrightarrow> \<exists>s'. v_write (nested_vt base) p c v s = Inr (True, s') \<and>
      nested_inv inv writable s' \<and> nested_view view s' = store_val p c v (nested_view view s) \<and>
      readable (base_of s') = readable (base_of s) \<and> writable (base_of s') = writable (base_of s)"
    using stage_write_pred [OF x(2,3), of p c v] ok x s
    by (auto simp: nested_vt_def nested_write_column_def nested_view_def nested_inv_def nested_stage_ok_def base_of_def overlay_write)
  obtain s' where "base_updates base (sg_updates x) (d, b) = Inr s'" "view s' = overlay (sg_updates x) (view (d, b))"
    using base_updates_spec [OF ok(1) x(2,3)] by blast
  then show "\<exists>s'. nested_commit base s = Inr (True, s') \<and> view (base_of s') = nested_view view s"
    using x s by (cases s') (auto simp: nested_commit_def nested_view_def base_of_def)
  fix r bo t
  show "readable (base_of s) p c \<Longrightarrow> v_read (nested_vt base) p c s = Inr (r, t) \<Longrightarrow> view (base_of t) = view (base_of s)"
    using rd_law [OF ok(1), of p c] x s
    by (cases "upd_find p c (sg_updates x)") (auto simp: nested_vt_def nested_read_column_def base_of_def)
  show "v_write (nested_vt base) p c v s = Inr (bo, t) \<Longrightarrow> view (base_of t) = view (base_of s)"
    using x s by (auto simp: nested_vt_def nested_write_column_def base_of_def)
qed

text \<open>The commit of the nested transaction keeps the base usable, with the nested view.\<close>

lemma nested_commit_base:
  assumes "nested_inv inv writable (d, b, x)"
  shows "\<exists>d' b' x'. nested_commit base (d, b, x) = Inr (True, d', b', x') \<and> inv (d', b') \<and> view (d', b') = nested_view view (d, b, x)"
proof -
  have ok: "inv (d, b)" "nested_stage_ok (writable (d, b)) x" using assms by (simp_all add: nested_inv_def base_of_def)
  then obtain s' where "base_updates base (sg_updates x) (d, b) = Inr s'" "inv s'" "view s' = overlay (sg_updates x) (view (d, b))"
    using base_updates_spec [of "(d, b)" "sg_updates x"] by (auto simp: nested_stage_ok_def)
  then show ?thesis using ok(2) by (cases s') (auto simp: nested_commit_def nested_view_def base_of_def nested_stage_ok_def)
qed

end

interpretation unsafe_base: base_txn "\<lambda>s. db_inv (fst s)" "\<lambda>s. db_readable (fst s)" "\<lambda>s. db_writable (fst s)" "\<lambda>s. db_val (fst s)" unsafe_vt
  using unsafe.column_store_axioms by (simp add: base_txn_def unsafe_vt_def)

interpretation t2_base: base_txn "t2_inv d0" "\<lambda>s. db_readable (fst s)" "\<lambda>s. db_writable (fst s)" t2_view t2_vt for d0
  using t2.column_store_axioms by (simp add: base_txn_def t2_vt_def)

interpretation nested_t2: isolated_transaction "nested_inv (t2_inv d0) (\<lambda>s. db_writable (fst s))" "\<lambda>s. db_readable (fst (base_of s))"
    "\<lambda>s. db_writable (fst (base_of s))" "nested_view t2_view" "v_read (nested_vt t2_vt)" "v_write (nested_vt t2_vt)"
    "\<lambda>s. t2_view (base_of s)" "nested_commit t2_vt" for d0
  by (rule t2_base.nested_transaction)

text \<open>C16. A nested transaction is transparent: a client program run in a transaction nested in a
  two-phase-locking transaction sees the values it would see in the outer one, nothing of it is seen
  outside before it commits, its commit makes the outer transaction see exactly its final view, and the
  commit of the outer transaction stores that view in the database.\<close>

theorem nested_transparent:
  assumes inv: "nested_inv (t2_inv d) (\<lambda>s. db_writable (fst s)) (d, b, x)"
    and ops: "list_all (op_ok (db_readable d) (db_writable d)) ops"
  shows "\<exists>b' x' b'' x'' d' z. run_ops (v_read (nested_vt t2_vt)) (v_write (nested_vt t2_vt)) ops (d, b, x) =
      Inr (fst (spec_ops ops (nested_view t2_view (d, b, x))), d, b', x') \<and> t2_view (d, b') = t2_view (d, b) \<and>
    nested_commit t2_vt (d, b', x') = Inr (True, d, b'', x'') \<and>
    t2_view (d, b'') = snd (spec_ops ops (nested_view t2_view (d, b, x))) \<and>
    t2_commit (d, b'') = Inr (True, d', z) \<and> db_val d' = snd (spec_ops ops (nested_view t2_view (d, b, x)))"
proof -
  let ?m = "nested_view t2_view (d, b, x)"
  obtain s' where s': "run_ops (v_read (nested_vt t2_vt)) (v_write (nested_vt t2_vt)) ops (d, b, x) = Inr (fst (spec_ops ops ?m), s')"
    "nested_inv (t2_inv d) (\<lambda>s. db_writable (fst s)) s'" "nested_view t2_view s' = snd (spec_ops ops ?m)"
    using nested_t2.run_spec [OF inv, of ops] ops by (auto simp: base_of_def)
  obtain b' x' where bx: "s' = (d, b', x')" using s'(2) by (cases s') (auto simp: nested_inv_def base_of_def t2_inv_def)
  obtain d2 b'' x'' where c: "nested_commit t2_vt (d, b', x') = Inr (True, d2, b'', x'')" "t2_inv d (d2, b'')"
    "t2_view (d2, b'') = nested_view t2_view s'"
    using t2_base.nested_commit_base s'(2) bx by blast
  have d2: "d2 = d" using c(2) by (simp add: t2_inv_def)
  obtain t where "t2_commit (d, b'') = Inr (True, t)" "db_val (fst t) = t2_view (d, b'')" using t2.commit_law c(2) d2 by blast
  then have fin: "\<exists>d' z. t2_commit (d, b'') = Inr (True, d', z) \<and> db_val d' = t2_view (d, b'')" by (cases t) auto
  have "t2_view (d, b') = t2_view (d, b)" using nested_t2.run_stored [OF inv _ s'(1)] ops bx by (simp add: base_of_def)
  then show ?thesis using s'(1,3) bx c(1,3) d2 fin by auto
qed

theorem nested_transparent_witness:
  "\<exists>b' x' b'' x'' d' z. run_ops (v_read (nested_vt t2_vt)) (v_write (nested_vt t2_vt)) [Wr 0 2 (I64 5), Rd 0 2] (demo_db, demo_tx0, new_nested 1) =
      Inr ([Some (I64 5)], demo_db, b', x') \<and> t2_view (demo_db, b') 0 2 = I64 100 \<and>
    nested_commit t2_vt (demo_db, b', x') = Inr (True, demo_db, b'', x'') \<and> t2_commit (demo_db, b'') = Inr (True, d', z) \<and> db_val d' 0 2 = I64 5"
proof -
  have "nested_stage_ok (db_writable demo_db) (new_nested 1)" by code_simp
  then have inv: "nested_inv (t2_inv demo_db) (\<lambda>s. db_writable (fst s)) (demo_db, demo_tx0, new_nested 1)"
    using demo_tx0_inv by (simp add: nested_inv_def base_of_def)
  have v: "t2_view (demo_db, demo_tx0) 0 2 = I64 100" by code_simp
  show ?thesis
    using nested_transparent [OF inv, of "[Wr 0 2 (I64 5), Rd 0 2]"] demo_db_ok v by (fastforce simp: store_val_def)
qed

end
