(* ===== verification/Mdb_Occ.thy ===== *)
theory Mdb_Occ
  imports Mdb_Txn
begin

text \<open>
  Optimistic transactions (\<^verbatim>\<open>TxnOCC\<close> in \<^verbatim>\<open>memdb/txn.cc\<close>): every column read or written is recorded
  with its version, the versions are checked before the commit, and for a two-phase commit the rows are
  locked between \<^verbatim>\<open>commit_prepare\<close> and \<^verbatim>\<open>commit_confirm\<close>. The versions are increased when the
  transaction commits (\<^verbatim>\<open>OCC_LAZY\<close>, the policy \<^verbatim>\<open>deptran/dtxn.cc\<close> sets) or at the first write
  (\<^verbatim>\<open>OCC_EAGER\<close>, the default).

  The helper \<^verbatim>\<open>insert_into_map\<close> belongs to a library outside the repository. Where it fills the maps of
  versions it is the argument \<open>iim\<close> of the operations, and \<open>keeps_first\<close> states what the code relies on:
  it inserts as \<^verbatim>\<open>std::unordered_map::insert\<close> does, and a version recorded first stays.

  Read-only transactions over snapshots are modelled up to their guards; the snapshot tables are not
  part of the database here.
\<close>

section \<open>TxnOCC\<close>

datatype policy = OCC_EAGER | OCC_LAZY

type_synonym ver_map = "((nat \<times> nat) \<times> int) list"
type_synonym ver_ins = "nat \<times> nat \<Rightarrow> int \<Rightarrow> ver_map \<Rightarrow> ver_map"

record txnocc = stage +
  oc_locks :: "(nat \<times> int) list"
  oc_ver_read :: ver_map
  oc_ver_write :: ver_map
  oc_accessed :: "nat list"
  oc_verified :: bool
  oc_policy :: policy
  oc_snapshot_tables :: "nat list"

definition new_txnocc :: "i64 \<Rightarrow> txnocc" where
  "new_txnocc tid = stage.extend (new_stage tid)
     \<lparr>oc_locks = [], oc_ver_read = [], oc_ver_write = [], oc_accessed = [], oc_verified = False, oc_policy = OCC_EAGER, oc_snapshot_tables = []\<rparr>"

definition is_readonly :: "txnocc \<Rightarrow> bool" where
  "is_readonly x \<longleftrightarrow> oc_snapshot_tables x \<noteq> []"

definition set_policy :: "policy \<Rightarrow> txnocc \<Rightarrow> txnocc" where
  "set_policy pol x = x\<lparr>oc_policy := pol\<rparr>"

type_synonym ostate = "db \<times> txnocc"

definition incr_row_refcount :: "nat \<Rightarrow> ostate \<Rightarrow> ostate res" where
  "incr_row_refcount p = (\<lambda>(d, x).
     if p \<in> set (oc_accessed x) then Inr (d, x)
     else rbind (ref_copy p d) (\<lambda>d'. Inr (d', x\<lparr>oc_accessed := os_ins p (oc_accessed x)\<rparr>)))"

fun ver_info_check :: "ver_map \<Rightarrow> db \<Rightarrow> bool res" where
  "ver_info_check [] d = Inr True"
| "ver_info_check (((p, col), n) # es) d =
     verify (d_kind d p = ROW_VERSIONED)
       (rbind (get_column_ver p col d) (\<lambda>m. if m \<noteq> n then Inr False else ver_info_check es d))"

definition version_check :: "ostate \<Rightarrow> bool res" where
  "version_check = (\<lambda>(d, x).
     if is_readonly x then Inr True
     else rbind (ver_info_check (oc_ver_read x) d) (\<lambda>b. if b then ver_info_check (oc_ver_write x) d else Inr False))"

fun unlock_rows :: "i64 \<Rightarrow> (nat \<times> int) list \<Rightarrow> db \<Rightarrow> db res" where
  "unlock_rows tid [] d = Inr d"
| "unlock_rows tid ((p, c) # es) d =
     verify (d_kind d p = ROW_VERSIONED) (rbind (unlock_row_by tid p d) (\<lambda>(b, d'). unlock_rows tid es d'))"

definition occ_release_resource :: "ostate \<Rightarrow> ostate res" where
  "occ_release_resource = (\<lambda>(d, x).
     rbind (unlock_rows (sg_id x) (oc_locks x) d)
       (\<lambda>d1. rbind (release_rows (oc_accessed x) d1)
         (\<lambda>d2. Inr (d2, x\<lparr>sg_updates := [], sg_inserts := [], sg_removes := [], oc_locks := [], oc_ver_read := [], oc_ver_write := [],
                          oc_accessed := [], oc_snapshot_tables := []\<rparr>))))"

definition occ_abort :: "ostate \<Rightarrow> ostate res" where
  "occ_abort = (\<lambda>(d, x). verify (sg_outcome x = NONE) (occ_release_resource (d, x\<lparr>sg_outcome := TXN_ABORT\<rparr>)))"

text \<open>The two locking loops of \<^verbatim>\<open>commit_prepare\<close>: a row that cannot be locked undoes all of them.\<close>

fun lock_rows :: "(i64 \<Rightarrow> nat \<Rightarrow> db \<Rightarrow> (bool \<times> db) res) \<Rightarrow> i64 \<Rightarrow> ver_map \<Rightarrow> db \<times> (nat \<times> int) list \<Rightarrow> (bool \<times> db \<times> (nat \<times> int) list) res" where
  "lock_rows lk tid [] st = Inr (True, st)"
| "lock_rows lk tid (((p, col), n) # es) (d, ls) =
     rbind (lk tid p d)
       (\<lambda>(b, d'). if b then lock_rows lk tid es (d', (p, -1) # ls)
                  else rbind (unlock_rows tid ls d') (\<lambda>d''. Inr (False, d'', [])))"

definition occ_commit_prepare :: "ostate \<Rightarrow> (bool \<times> ostate) res" where
  "occ_commit_prepare = (\<lambda>(d, x).
     verify (sg_outcome x = NONE)
       (verify (\<not> oc_verified x)
         (rbind (version_check (d, x))
           (\<lambda>ok. if \<not> ok then Inr (False, d, x)
             else rbind (lock_rows rlock_row_by (sg_id x) (oc_ver_read x) (d, oc_locks x))
               (\<lambda>(b, d1, ls1). if \<not> b then Inr (False, d1, x\<lparr>oc_locks := ls1\<rparr>)
                 else rbind (lock_rows wlock_row_by (sg_id x) (oc_ver_write x) (d1, ls1))
                   (\<lambda>(b', d2, ls2). if \<not> b' then Inr (False, d2, x\<lparr>oc_locks := ls2\<rparr>)
                     else Inr (True, d2, x\<lparr>oc_locks := ls2, oc_verified := True\<rparr>)))))))"

fun occ_updates :: "policy \<Rightarrow> (nat \<times> nat \<times> mvalue) list \<Rightarrow> db \<Rightarrow> db res" where
  "occ_updates pol [] d = Inr d"
| "occ_updates pol ((p, col, v) # us) d =
     verify (d_kind d p = ROW_VERSIONED)
       (rbind (row_table p d)
         (\<lambda>to. if to = None then Inl BadPointer
           else rbind (row_upd p col v d)
             (\<lambda>d1. rbind (if pol = OCC_LAZY then incr_column_ver p col d1 else Inr d1) (occ_updates pol us))))"

fun incr_columns :: "nat \<Rightarrow> nat list \<Rightarrow> db \<Rightarrow> db res" where
  "incr_columns p [] d = Inr d"
| "incr_columns p (c # cs) d = rbind (incr_column_ver p c d) (incr_columns p cs)"

fun occ_removes :: "policy \<Rightarrow> (nat \<times> nat) list \<Rightarrow> db \<times> (nat \<times> int) list \<Rightarrow> (db \<times> (nat \<times> int) list) res" where
  "occ_removes pol [] st = Inr st"
| "occ_removes pol ((t, p) # es) (d, ls) =
     rbind (if pol = OCC_LAZY
            then verify (d_kind d p = ROW_VERSIONED) (rbind (row_columns_count p d) (\<lambda>n. incr_columns p [0 ..< n] d))
            else Inr d)
       (\<lambda>d1. rbind (tbl_remove t p True d1) (\<lambda>d2. occ_removes pol es (d2, filter (\<lambda>l. fst l \<noteq> p) ls)))"

definition occ_commit_confirm :: "ostate \<Rightarrow> ostate res" where
  "occ_commit_confirm = (\<lambda>(d, x).
     verify (sg_outcome x = NONE)
       (verify (oc_verified x)
         (rbind (apply_inserts (sg_inserts x) d)
           (\<lambda>d1. rbind (occ_updates (oc_policy x) (sg_updates x) d1)
             (\<lambda>d2. rbind (occ_removes (oc_policy x) (sg_removes x) (d2, oc_locks x))
               (\<lambda>(d3, ls). occ_release_resource (d3, x\<lparr>oc_locks := ls, sg_outcome := TXN_COMMIT\<rparr>)))))))"

definition occ_commit :: "ostate \<Rightarrow> (bool \<times> ostate) res" where
  "occ_commit = (\<lambda>(d, x).
     verify (sg_outcome x = NONE)
       (rbind (version_check (d, x))
         (\<lambda>ok. if \<not> ok then Inr (False, d, x)
           else rbind (occ_commit_confirm (d, x\<lparr>oc_verified := True\<rparr>)) (\<lambda>st. Inr (True, st)))))"

definition occ_read_column :: "ver_ins \<Rightarrow> nat \<Rightarrow> nat \<Rightarrow> ostate \<Rightarrow> (mvalue option \<times> ostate) res" where
  "occ_read_column iim p col = (\<lambda>(d, x).
     if is_readonly x then rbind (row_get p col d) (\<lambda>v. Inr (Some v, d, x))
     else verify (sg_outcome x = NONE)
       (rbind (row_table p d)
         (\<lambda>to. case to of
            None \<Rightarrow> rbind (row_get p col d) (\<lambda>v. Inr (Some v, d, x))
          | Some t \<Rightarrow> (case upd_find p col (sg_updates x) of
              Some v \<Rightarrow> Inr (Some v, d, x)
            | None \<Rightarrow> verify (d_kind d p = ROW_VERSIONED)
                (rbind (get_column_ver p col d)
                  (\<lambda>n. rbind (incr_row_refcount p (d, x\<lparr>oc_ver_read := iim (p, col) n (oc_ver_read x)\<rparr>))
                    (\<lambda>(d', x'). rbind (row_get p col d')
                      (\<lambda>v. Inr (Some v, d', x'\<lparr>sg_reads := mm_ins p col (sg_reads x')\<rparr>)))))))))"

text \<open>Recording a write: the version is increased first under the eager policy.\<close>

definition track_write :: "ver_ins \<Rightarrow> nat \<Rightarrow> nat \<Rightarrow> ostate \<Rightarrow> ostate res" where
  "track_write iim p col = (\<lambda>(d, x).
     rbind (if oc_policy x = OCC_EAGER then incr_column_ver p col d else Inr d)
       (\<lambda>d1. rbind (get_column_ver p col d1)
         (\<lambda>n. incr_row_refcount p (d1, x\<lparr>oc_ver_write := iim (p, col) n (oc_ver_write x)\<rparr>))))"

definition occ_write_column :: "ver_ins \<Rightarrow> nat \<Rightarrow> nat \<Rightarrow> mvalue \<Rightarrow> ostate \<Rightarrow> (bool \<times> ostate) res" where
  "occ_write_column iim p col v = (\<lambda>(d, x).
     verify (\<not> is_readonly x)
       (verify (sg_outcome x = NONE)
         (rbind (row_table p d)
           (\<lambda>to. case to of
              None \<Rightarrow> rbind (row_upd p col v d) (\<lambda>d'. Inr (True, d', x))
            | Some t \<Rightarrow> (case upd_find p col (sg_updates x) of
                Some w \<Rightarrow> Inr (True, d, x\<lparr>sg_updates := upd_set p col v (sg_updates x)\<rparr>)
              | None \<Rightarrow> verify (d_kind d p = ROW_VERSIONED)
                  (rbind (track_write iim p col (d, x))
                    (\<lambda>(d', x'). Inr (True, d', x'\<lparr>sg_updates := mm_ins p (col, v) (sg_updates x')\<rparr>))))))))"

definition occ_insert_row :: "nat \<Rightarrow> nat \<Rightarrow> ostate \<Rightarrow> (bool \<times> ostate) res" where
  "occ_insert_row t p = (\<lambda>(d, x).
     verify (\<not> is_readonly x)
       (verify (sg_outcome x = NONE)
         (verify (d_kind d p = ROW_VERSIONED)
           (rbind (row_table p d)
             (\<lambda>to. verify (to = None)
               (rbind (stage_insert d t p (sg_inserts x))
                 (\<lambda>ins. Inr (True, d, x\<lparr>sg_inserts := ins, sg_removes := filter (\<lambda>e. e \<noteq> (t, p)) (sg_removes x)\<rparr>))))))))"

fun track_columns :: "ver_ins \<Rightarrow> nat \<Rightarrow> nat list \<Rightarrow> ostate \<Rightarrow> ostate res" where
  "track_columns iim p [] st = Inr st"
| "track_columns iim p (c # cs) st = rbind (track_write iim p c st) (track_columns iim p cs)"

definition occ_remove_row :: "ver_ins \<Rightarrow> nat \<Rightarrow> nat \<Rightarrow> ostate \<Rightarrow> (bool \<times> ostate) res" where
  "occ_remove_row iim t p = (\<lambda>(d, x).
     verify (\<not> is_readonly x)
       (verify (sg_outcome x = NONE)
         (rbind (stage_find d t p (sg_inserts x))
           (\<lambda>found. case found of
              None \<Rightarrow> verify (d_kind d p = ROW_VERSIONED)
                (rbind (row_columns_count p d)
                  (\<lambda>n. rbind (track_columns iim p [0 ..< n] (d, x))
                    (\<lambda>(d', x'). Inr (True, d', x'\<lparr>sg_removes := set_insert (t, p) (sg_removes x'), sg_updates := upd_erase p (sg_updates x')\<rparr>))))
            | Some i \<Rightarrow> rbind (row_release p d)
                (\<lambda>d'. Inr (True, d', x\<lparr>sg_inserts := erase_at i (sg_inserts x), sg_updates := upd_erase p (sg_updates x)\<rparr>))))))"

text \<open>The queries of a read-only transaction are restricted to its snapshots.\<close>

definition occ_guarded :: "nat \<Rightarrow> (ostate \<Rightarrow> 'e res) \<Rightarrow> ostate \<Rightarrow> 'e res" where
  "occ_guarded t q st = verify (\<not> is_readonly (snd st) \<or> t \<in> set (oc_snapshot_tables (snd st))) (q st)"

definition occ_vt :: "ver_ins \<Rightarrow> (txnocc, raw_cursor merged) txn_vt" where
  "occ_vt iim = \<lparr>v_read = occ_read_column iim, v_write = occ_write_column iim, v_insert = occ_insert_row, v_remove = occ_remove_row iim,
     v_query = (\<lambda>t mb. occ_guarded t (do_query t mb)), v_query_lt = (\<lambda>t mb ord. occ_guarded t (do_query_lt t mb ord)),
     v_query_gt = (\<lambda>t mb ord. occ_guarded t (do_query_gt t mb ord)), v_query_in = (\<lambda>t lo hi ord. occ_guarded t (do_query_in t lo hi ord)),
     v_all = (\<lambda>t ord. occ_guarded t (do_all t ord))\<rparr>"

section \<open>Changes that do not touch the contents\<close>

text \<open>References and row locks may change while contents, versions and tables stay.\<close>

definition quiet :: "db \<Rightarrow> db \<Rightarrow> bool" where
  "quiet d d' \<longleftrightarrow> db_inv d' \<and> same_shape d d' \<and> db_val d' = db_val d \<and> d_ver d' = d_ver d"

lemma quiet_refl: "db_inv d \<Longrightarrow> quiet d d"
  by (simp add: quiet_def)

lemma quiet_trans: "quiet d d' \<Longrightarrow> quiet d' d'' \<Longrightarrow> quiet d d''"
  by (auto simp: quiet_def intro: same_shape_trans)

lemma quietD:
  assumes "quiet d d'"
  shows "db_inv d'" "same_shape d d'" "db_val d' = db_val d" "d_ver d' = d_ver d" "in_table p d' = in_table p d" "d_kind d' = d_kind d"
    "row_table p d' = row_table p d" "db_readable d' = db_readable d" "db_writable d' = db_writable d" "row_schema p d' = row_schema p d"
  using assms same_shapeD [of d d'] by (auto simp: quiet_def)

definition refs :: "db \<Rightarrow> nat \<Rightarrow> nat" where
  "refs d p = (case cell_at (d_heap d) p of Inl _ \<Rightarrow> 0 | Inr c \<Rightarrow> c_refs c)"

lemma lock_quiet: "db_inv d \<Longrightarrow> quiet d (d\<lparr>d_lock := l\<rparr>)"
proof -
  assume inv: "db_inv d"
  have "table_wf (d\<lparr>d_lock := l\<rparr>) t = table_wf d t" for t by (simp add: table_wf_def split: prod.split)
  moreover have "row_schema p (d\<lparr>d_lock := l\<rparr>) = row_schema p d" "in_table p (d\<lparr>d_lock := l\<rparr>) = in_table p d"
    "row_table p (d\<lparr>d_lock := l\<rparr>) = row_table p d" for p
    by (simp_all add: row_schema_def in_table_def row_table_def split: sum.split option.split)
  moreover have "db_val (d\<lparr>d_lock := l\<rparr>) = db_val d" by (simp add: db_val_def row_get_def fun_eq_iff)
  ultimately show ?thesis using inv by (auto simp: quiet_def db_inv_def same_shape_def same_frame_def db_rows_def)
qed

lemma refs_lock [simp]: "refs (d\<lparr>d_lock := l\<rparr>) p = refs d p"
  by (simp add: refs_def)

text \<open>Changing the number of references of a live row.\<close>

lemma entry_ok_refs:
  assumes "entry_ok s h t e" and "cell_at h p = Inr c" and "0 < r"
  shows "entry_ok s (h[p := Some (c\<lparr>c_refs := r\<rparr>)]) t e"
proof -
  have p: "p < length h" using assms(2) by (simp add: cell_at_Inr)
  show ?thesis using assms by (auto simp: entry_ok_def cell_at_upd [OF p] split: sum.splits)
qed

lemma set_refs_quiet:
  assumes inv: "db_inv d" and c: "cell_at (d_heap d) p = Inr c" and r: "0 < r"
  shows "quiet d (d\<lparr>d_heap := (d_heap d)[p := Some (c\<lparr>c_refs := r\<rparr>)]\<rparr>)"
proof -
  let ?h = "(d_heap d)[p := Some (c\<lparr>c_refs := r\<rparr>)]"
  let ?d = "d\<lparr>d_heap := ?h\<rparr>"
  have h: "cell_at ?h q = (if q = p then Inr (c\<lparr>c_refs := r\<rparr>) else cell_at (d_heap d) q)" for q
    using c by (simp add: cell_at_Inr cell_at_upd)
  have "table_inv s (?h, tab)" if "table_inv s (d_heap d, tab)" for s :: schema and tab
    using that entry_ok_refs [of s "d_heap d" tab _ p c r] c r by (auto simp: table_inv_def)
  then have "table_wf ?d t" if "table_wf d t" for t using that by (simp add: table_wf_def split: prod.splits)
  then have "db_inv ?d" using inv by (simp add: db_inv_def)
  moreover have "row_schema q ?d = row_schema q d" "in_table q ?d = in_table q d" "row_table q ?d = row_table q d" for q
    using c by (auto simp: row_schema_def in_table_def row_table_def h split: sum.split option.split)
  moreover have "db_val ?d q j = db_val d q j" for q j using c by (simp add: db_val_def row_get_def h)
  ultimately show ?thesis by (auto simp: quiet_def same_shape_def same_frame_def db_rows_def fun_eq_iff)
qed

lemma in_table_cell: "db_inv d \<Longrightarrow> in_table p d \<Longrightarrow> \<exists>c. cell_at (d_heap d) p = Inr c \<and> c_refs c = refs d p"
  using in_tableD [of d p] by (auto simp: refs_def)

lemma ref_copy_quiet:
  assumes "db_inv d" and "in_table p d"
  shows "\<exists>d'. ref_copy p d = Inr d' \<and> quiet d d' \<and> d_lock d' = d_lock d \<and> refs d' = (refs d)(p := Suc (refs d p))"
proof -
  obtain c where c: "cell_at (d_heap d) p = Inr c" "c_refs c = refs d p" using in_table_cell [OF assms] by blast
  let ?d = "d\<lparr>d_heap := (d_heap d)[p := Some (c\<lparr>c_refs := Suc (c_refs c)\<rparr>)]\<rparr>"
  have "refs ?d q = ((refs d)(p := Suc (refs d p))) q" for q
    using c by (simp add: refs_def cell_at_Inr cell_at_upd)
  then show ?thesis using c set_refs_quiet [OF assms(1) c(1), of "Suc (c_refs c)"] by (auto simp: ref_copy_def)
qed

lemma release_quiet:
  assumes "db_inv d" and "in_table p d" and "1 < refs d p"
  shows "\<exists>d'. row_release p d = Inr d' \<and> quiet d d' \<and> d_lock d' = d_lock d \<and> refs d' = (refs d)(p := refs d p - 1)"
proof -
  obtain c where c: "cell_at (d_heap d) p = Inr c" "c_refs c = refs d p" using in_table_cell [OF assms(1,2)] by blast
  let ?d = "d\<lparr>d_heap := (d_heap d)[p := Some (c\<lparr>c_refs := c_refs c - 1\<rparr>)]\<rparr>"
  have "refs ?d q = ((refs d)(p := refs d p - 1)) q" for q
    using c by (simp add: refs_def cell_at_Inr cell_at_upd)
  then show ?thesis using c assms(3) set_refs_quiet [OF assms(1) c(1), of "c_refs c - 1"] by (auto simp: row_release_def release_def)
qed

lemma release_rows_quiet:
  "db_inv d \<Longrightarrow> distinct ps \<Longrightarrow> \<forall>p \<in> set ps. in_table p d \<and> 1 < refs d p \<Longrightarrow>
    \<exists>d'. release_rows ps d = Inr d' \<and> quiet d d' \<and> d_lock d' = d_lock d \<and> refs d' = (\<lambda>p. if p \<in> set ps then refs d p - 1 else refs d p)"
proof (induction ps arbitrary: d)
  case (Cons p ps)
  obtain d1 where d1: "row_release p d = Inr d1" "quiet d d1" "d_lock d1 = d_lock d" "refs d1 = (refs d)(p := refs d p - 1)"
    using release_quiet [of d p] Cons.prems by auto
  have "\<forall>q \<in> set ps. in_table q d1 \<and> 1 < refs d1 q" using Cons.prems(2,3) d1(4) quietD(5) [OF d1(2)] by auto
  then obtain d' where "release_rows ps d1 = Inr d'" "quiet d1 d'" "d_lock d' = d_lock d1"
    "refs d' = (\<lambda>p. if p \<in> set ps then refs d1 p - 1 else refs d1 p)"
    using Cons.IH [OF quietD(1) [OF d1(2)]] Cons.prems(2) by auto
  then show ?case using d1 Cons.prems(2) quiet_trans [OF d1(2)] by (intro exI [of _ d']) (auto simp: fun_eq_iff)
qed (simp add: quiet_refl)

section \<open>Row locks of a prepared transaction\<close>

definition locks_ok :: "db \<Rightarrow> bool" where
  "locks_ok d \<longleftrightarrow> (\<forall>p. rwlock_inv (d_lock d p))"

definition holds :: "db \<Rightarrow> i64 \<Rightarrow> nat \<Rightarrow> bool" where
  "holds d tid p \<longleftrightarrow> reads_by (d_lock d p) tid \<or> writes_by (d_lock d p) tid"

definition holds_w :: "db \<Rightarrow> i64 \<Rightarrow> nat \<Rightarrow> bool" where
  "holds_w d tid p \<longleftrightarrow> writes_by (d_lock d p) tid"

text \<open>What the holders other than \<open>tid\<close> have is unchanged.\<close>

definition others_keep :: "i64 \<Rightarrow> db \<Rightarrow> db \<Rightarrow> bool" where
  "others_keep tid d d' \<longleftrightarrow> (\<forall>o' p. o' \<noteq> tid \<longrightarrow> holds d' o' p = holds d o' p \<and> holds_w d' o' p = holds_w d o' p)"

lemma others_keep_refl [simp]: "others_keep tid d d"
  by (simp add: others_keep_def)

lemma others_keep_trans: "others_keep tid d d' \<Longrightarrow> others_keep tid d' d'' \<Longrightarrow> others_keep tid d d''"
  by (simp add: others_keep_def)

lemma others_keep_same: "d_lock d' = d_lock d \<Longrightarrow> others_keep tid d d'"
  by (simp add: others_keep_def holds_def holds_w_def)

lemma holds_excl: "locks_ok d \<Longrightarrow> holds_w d a p \<Longrightarrow> holds d b p \<Longrightarrow> b = a"
  using rw.excl [of "d_lock d p" a b] by (auto simp: locks_ok_def holds_def holds_w_def)

lemma unlock_row_spec:
  assumes "db_inv d" and "in_table p d" and "locks_ok d"
  shows "\<exists>b d'. unlock_row_by tid p d = Inr (b, d') \<and> quiet d d' \<and> locks_ok d' \<and> others_keep tid d d' \<and> refs d' = refs d"
proof -
  obtain c where c: "cell_at (d_heap d) p = Inr c" using in_table_cell [OF assms(1,2)] by blast
  let ?l = "snd (unlock_by tid (d_lock d p))"
  let ?d = "d\<lparr>d_lock := (d_lock d)(p := ?l)\<rparr>"
  have "unlock_row_by tid p d = Inr (fst (unlock_by tid (d_lock d p)), ?d)" using c by (simp add: unlock_row_by_def case_prod_beta)
  moreover have "locks_ok ?d" using assms(3) rw.unlock_inv by (simp add: locks_ok_def)
  moreover have "others_keep tid d ?d" using assms(3) rw.others by (auto simp: others_keep_def holds_def holds_w_def locks_ok_def)
  ultimately show ?thesis using lock_quiet [OF assms(1)] by (auto simp: fun_eq_iff)
qed

lemma unlock_rows_spec:
  "db_inv d \<Longrightarrow> locks_ok d \<Longrightarrow> \<forall>p. d_kind d p = ROW_VERSIONED \<Longrightarrow> \<forall>l \<in> set ls. in_table (fst l) d \<Longrightarrow>
    \<exists>d'. unlock_rows tid ls d = Inr d' \<and> quiet d d' \<and> locks_ok d' \<and> others_keep tid d d' \<and> refs d' = refs d"
proof (induction ls arbitrary: d)
  case (Cons l ls)
  obtain p n where l: "l = (p, n)" by (cases l)
  obtain b d1 where d1: "unlock_row_by tid p d = Inr (b, d1)" "quiet d d1" "locks_ok d1" "others_keep tid d d1" "refs d1 = refs d"
    using unlock_row_spec [of d p tid] Cons.prems l by auto
  obtain d' where "unlock_rows tid ls d1 = Inr d'" "quiet d1 d'" "locks_ok d'" "others_keep tid d1 d'" "refs d' = refs d1"
    using Cons.IH [OF quietD(1) [OF d1(2)] d1(3)] Cons.prems quietD(5,6) [OF d1(2)] by auto
  then show ?case using d1 l Cons.prems(3) quiet_trans others_keep_trans by fastforce
qed (simp add: quiet_refl)

text \<open>A locking loop, for either kind of lock: if it succeeds every row is held, and nothing held before
  is lost; in either case the other transactions keep what they hold.\<close>

lemma lock_rows_spec:
  assumes lk: "\<And>d p. db_inv d \<Longrightarrow> in_table p d \<Longrightarrow> locks_ok d \<Longrightarrow> \<exists>b d'. lk tid p d = Inr (b, d') \<and> quiet d d' \<and> locks_ok d' \<and>
      others_keep tid d d' \<and> refs d' = refs d \<and> (b \<longrightarrow> H d' p) \<and> (\<forall>q. holds d tid q \<longrightarrow> holds d' tid q) \<and> (\<forall>q. H d q \<longrightarrow> H d' q)"
  shows "db_inv d \<Longrightarrow> locks_ok d \<Longrightarrow> \<forall>p. d_kind d p = ROW_VERSIONED \<Longrightarrow> \<forall>l \<in> set ls. in_table (fst l) d \<Longrightarrow>
    \<forall>e \<in> set es. in_table (fst (fst e)) d \<Longrightarrow>
    \<exists>b d' ls'. lock_rows lk tid es (d, ls) = Inr (b, d', ls') \<and> quiet d d' \<and> locks_ok d' \<and> others_keep tid d d' \<and> refs d' = refs d \<and>
      (b \<longrightarrow> (\<forall>e \<in> set es. H d' (fst (fst e))) \<and> (\<forall>q. holds d tid q \<longrightarrow> holds d' tid q) \<and> (\<forall>q. H d q \<longrightarrow> H d' q)) \<and>
      (\<forall>l \<in> set ls'. in_table (fst l) d) \<and> (\<not> b \<longrightarrow> ls' = [])"
proof (induction es arbitrary: d ls)
  case (Cons e es)
  obtain p c n where e: "e = ((p, c), n)" by (metis prod.exhaust)
  obtain b d1 where d1: "lk tid p d = Inr (b, d1)" "quiet d d1" "locks_ok d1" "others_keep tid d d1" "refs d1 = refs d"
    "b \<longrightarrow> H d1 p" "\<forall>q. holds d tid q \<longrightarrow> holds d1 tid q" "\<forall>q. H d q \<longrightarrow> H d1 q"
    using lk [of d p] Cons.prems e by auto
  note q1 = quietD [OF d1(2)]
  show ?case
  proof (cases b)
    case True
    obtain b2 d2 ls2 where d2: "lock_rows lk tid es (d1, (p, -1) # ls) = Inr (b2, d2, ls2)" "quiet d1 d2" "locks_ok d2" "others_keep tid d1 d2"
      "refs d2 = refs d1" "b2 \<longrightarrow> (\<forall>e \<in> set es. H d2 (fst (fst e))) \<and> (\<forall>q. holds d1 tid q \<longrightarrow> holds d2 tid q) \<and> (\<forall>q. H d1 q \<longrightarrow> H d2 q)"
      "\<forall>l \<in> set ls2. in_table (fst l) d1" "\<not> b2 \<longrightarrow> ls2 = []"
      using Cons.IH [OF q1(1) d1(3), of "(p, -1) # ls"] Cons.prems e q1(5,6) by auto
    have "lock_rows lk tid (e # es) (d, ls) = Inr (b2, d2, ls2)" using e d1(1) d2(1) True by simp
    then show ?thesis using d1 d2 e True q1(5) quiet_trans [OF d1(2) d2(2)] others_keep_trans [OF d1(4) d2(4)]
      by (intro exI [of _ b2] exI [of _ d2] exI [of _ ls2]) auto
  next
    case False
    obtain d2 where d2: "unlock_rows tid ls d1 = Inr d2" "quiet d1 d2" "locks_ok d2" "others_keep tid d1 d2" "refs d2 = refs d1"
      using unlock_rows_spec [OF q1(1) d1(3), of ls tid] Cons.prems q1(5,6) by auto
    then show ?thesis using d1 e False quiet_trans [OF d1(2) d2(2)] others_keep_trans [OF d1(4) d2(4)]
      by (intro exI [of _ False] exI [of _ d2] exI [of _ "[]"]) simp
  qed
qed (auto simp: quiet_refl)

lemma lock_one_spec:
  assumes "db_inv d" and "in_table p d" and "locks_ok d"
  shows "\<exists>b d'. rlock_row_by tid p d = Inr (b, d') \<and> quiet d d' \<and> locks_ok d' \<and> others_keep tid d d' \<and> refs d' = refs d \<and>
      (b \<longrightarrow> holds d' tid p) \<and> (\<forall>q. holds d tid q \<longrightarrow> holds d' tid q)"
    and "\<exists>b d'. wlock_row_by tid p d = Inr (b, d') \<and> quiet d d' \<and> locks_ok d' \<and> others_keep tid d d' \<and> refs d' = refs d \<and>
      (b \<longrightarrow> holds_w d' tid p) \<and> (\<forall>q. holds d tid q \<longrightarrow> holds d' tid q) \<and> (\<forall>q. holds_w d tid q \<longrightarrow> holds_w d' tid q)"
proof -
  obtain c where c: "cell_at (d_heap d) p = Inr c" using in_table_cell [OF assms(1,2)] by blast
  have l: "rwlock_inv (d_lock d p)" using assms(3) by (simp add: locks_ok_def)
  let ?r = "d\<lparr>d_lock := (d_lock d)(p := snd (rlock_by tid (d_lock d p)))\<rparr>" and ?w = "d\<lparr>d_lock := (d_lock d)(p := snd (wlock_by tid (d_lock d p)))\<rparr>"
  have own: "reads_by (d_lock d p) tid \<or> writes_by (d_lock d p) tid \<Longrightarrow>
      reads_by (snd (rlock_by tid (d_lock d p))) tid \<or> writes_by (snd (rlock_by tid (d_lock d p))) tid"
    "reads_by (d_lock d p) tid \<or> writes_by (d_lock d p) tid \<Longrightarrow>
      reads_by (snd (wlock_by tid (d_lock d p))) tid \<or> writes_by (snd (wlock_by tid (d_lock d p))) tid"
    "writes_by (d_lock d p) tid \<Longrightarrow> writes_by (snd (wlock_by tid (d_lock d p))) tid"
    by (auto simp: rwlock_defs)
  have "rlock_row_by tid p d = Inr (fst (rlock_by tid (d_lock d p)), ?r)" "wlock_row_by tid p d = Inr (fst (wlock_by tid (d_lock d p)), ?w)"
    using c by (simp_all add: rlock_row_by_def wlock_row_by_def case_prod_beta)
  moreover have "locks_ok ?r" "locks_ok ?w" using assms(3) rw.rlock_inv rw.wlock_inv by (simp_all add: locks_ok_def)
  moreover have "others_keep tid d ?r" "others_keep tid d ?w"
    using assms(3) rw.others by (auto simp: others_keep_def holds_def holds_w_def locks_ok_def)
  moreover have "fst (rlock_by tid (d_lock d p)) \<longrightarrow> holds ?r tid p" "fst (wlock_by tid (d_lock d p)) \<longrightarrow> holds_w ?w tid p"
    using rw.rlock_granted [OF l, of tid] rw.wlock_granted [OF l, of tid] by (simp_all add: holds_def holds_w_def)
  moreover have "\<forall>q. holds d tid q \<longrightarrow> holds ?r tid q" "\<forall>q. holds d tid q \<longrightarrow> holds ?w tid q" "\<forall>q. holds_w d tid q \<longrightarrow> holds_w ?w tid q"
    using own by (auto simp: holds_def holds_w_def)
  ultimately show "\<exists>b d'. rlock_row_by tid p d = Inr (b, d') \<and> quiet d d' \<and> locks_ok d' \<and> others_keep tid d d' \<and> refs d' = refs d \<and>
      (b \<longrightarrow> holds d' tid p) \<and> (\<forall>q. holds d tid q \<longrightarrow> holds d' tid q)"
    "\<exists>b d'. wlock_row_by tid p d = Inr (b, d') \<and> quiet d d' \<and> locks_ok d' \<and> others_keep tid d d' \<and> refs d' = refs d \<and>
      (b \<longrightarrow> holds_w d' tid p) \<and> (\<forall>q. holds d tid q \<longrightarrow> holds d' tid q) \<and> (\<forall>q. holds_w d tid q \<longrightarrow> holds_w d' tid q)"
    using lock_quiet [OF assms(1)] by (metis (no_types, lifting) ext refs_lock)+
qed

section \<open>Checking versions and applying updates\<close>

lemma get_column_ver_readable:
  assumes "db_inv d" and "db_readable d p c"
  shows "get_column_ver p c d = Inr (d_ver d p c)"
proof -
  obtain e where "cell_at (d_heap d) p = Inr e" "c_schema e < length (d_schemas d)"
    using in_tableD [OF assms(1), of p] assms(2) by (auto simp: db_readable_def)
  then show ?thesis using assms(2) by (simp add: get_column_ver_def schema_at_def db_readable_def row_schema_def)
qed

lemma ver_info_check_spec:
  "db_inv d \<Longrightarrow> \<forall>p. d_kind d p = ROW_VERSIONED \<Longrightarrow> \<forall>e \<in> set es. db_readable d (fst (fst e)) (snd (fst e)) \<Longrightarrow>
    ver_info_check es d = Inr (\<forall>e \<in> set es. d_ver d (fst (fst e)) (snd (fst e)) = snd e)"
proof (induction es)
  case (Cons e es)
  obtain p c n where e: "e = ((p, c), n)" by (metis prod.exhaust)
  then show ?case using Cons get_column_ver_readable [of d p c] by auto
qed simp

lemma version_check_spec:
  assumes "db_inv d" and "\<forall>p. d_kind d p = ROW_VERSIONED" and "oc_snapshot_tables x = []"
    and "\<forall>e \<in> set (oc_ver_read x) \<union> set (oc_ver_write x). db_readable d (fst (fst e)) (snd (fst e))"
  shows "version_check (d, x) = Inr (\<forall>e \<in> set (oc_ver_read x) \<union> set (oc_ver_write x). d_ver d (fst (fst e)) (snd (fst e)) = snd e)"
  using assms ver_info_check_spec [OF assms(1,2), of "oc_ver_read x"] ver_info_check_spec [OF assms(1,2), of "oc_ver_write x"]
  by (auto simp: version_check_def is_readonly_def)

lemma incr_column_ver_spec:
  assumes inv: "db_inv d" and r: "db_readable d p c"
  shows "\<exists>d'. incr_column_ver p c d = Inr d' \<and> db_inv d' \<and> same_shape d d' \<and> db_val d' = db_val d \<and> d_lock d' = d_lock d \<and> refs d' = refs d \<and>
    d_ver d' = (d_ver d)(p := (d_ver d p)(c := d_ver d p c + 1))"
proof -
  let ?d = "d\<lparr>d_ver := (d_ver d)(p := (d_ver d p)(c := d_ver d p c + 1))\<rparr>"
  have "table_wf ?d t = table_wf d t" for t by (simp add: table_wf_def split: prod.split)
  moreover have "row_schema q ?d = row_schema q d" "in_table q ?d = in_table q d" "row_table q ?d = row_table q d" for q
    by (simp_all add: row_schema_def in_table_def row_table_def split: sum.split option.split)
  moreover have "db_val ?d = db_val d" "refs ?d = refs d" by (simp_all add: db_val_def row_get_def refs_def fun_eq_iff)
  ultimately show ?thesis using inv get_column_ver_readable [OF inv r]
    by (auto simp: incr_column_ver_def db_inv_def same_shape_def same_frame_def db_rows_def)
qed

lemma row_upd_refs:
  assumes "db_inv d" and "db_writable d p c v" and "row_upd p c v d = Inr d'"
  shows "refs d' = refs d"
proof -
  let ?s = "row_schema p d"
  obtain e t tab k where e: "cell_at (d_heap d) p = Inr e" "tbl (c_row e) = Some t" "t < length (d_tables d)"
    "d_tables d ! t = (TBL_SORTED, tab)" "(k, p) \<in> set (t_rows tab)" "\<not> rdonly (c_row e)"
    "c_schema e = t_schema tab" "c_schema e < length (d_schemas d)" "schema_inv ?s" "?s = d_schemas d ! t_schema tab"
    "table_inv ?s (d_heap d, tab)"
    using in_tableD [OF assms(1), of p] assms(2) unfolding db_writable_def by blast
  have col: "c < length (col_info ?s)" "get_kind v = col_type (col_info ?s ! c)" "indexed (col_info ?s ! c) \<Longrightarrow> \<not> is_nan v" "str_key ?s \<Longrightarrow> indexed (col_info ?s ! c)"
    using assms(2) columns_count_le [of ?s] by (auto simp: db_writable_def)
  obtain tab' r' where "st_update ?s p c v (d_heap d, tab) = Inr ((d_heap d)[p := Some (e\<lparr>c_row := r'\<rparr>)], tab')"
    using table_update_spec [OF e(9,11,5,1,6) col] by blast
  then have "d_heap d' = (d_heap d)[p := Some (e\<lparr>c_row := r'\<rparr>)]" using assms(3) e by (auto simp: row_upd_def schema_at_def table_at_def)
  moreover have "p < length (d_heap d)" using e(1) by (simp add: cell_at_Inr)
  ultimately show ?thesis using e(1) by (auto simp: refs_def fun_eq_iff cell_at_upd)
qed

text \<open>The updates of a lazy commit: the contents become the view, and exactly the versions of the
  updated columns increase.\<close>

lemma occ_updates_spec:
  "db_inv d \<Longrightarrow> \<forall>p. d_kind d p = ROW_VERSIONED \<Longrightarrow> updates_ok d us \<Longrightarrow>
    \<exists>d'. occ_updates OCC_LAZY us d = Inr d' \<and> db_inv d' \<and> same_shape d d' \<and> d_lock d' = d_lock d \<and> refs d' = refs d \<and>
      db_val d' = overlay us (db_val d) \<and> d_ver d' = (\<lambda>p c. if (p, c) \<in> set (upd_keys us) then d_ver d p c + 1 else d_ver d p c)"
proof (induction us arbitrary: d)
  case (Cons u us)
  obtain p c v where u: "u = (p, c, v)" by (cases u)
  have w: "db_writable d p c v" "updates_ok d us" "(p, c) \<notin> set (upd_keys us)" using Cons.prems(3) u by (auto simp: updates_ok_def)
  obtain d1 where d1: "row_upd p c v d = Inr d1" "db_inv d1" "same_shape d d1" "d_ver d1 = d_ver d" "d_lock d1 = d_lock d"
    "db_val d1 = store_val p c v (db_val d)"
    using row_upd_spec [OF Cons.prems(1) w(1)] by (auto simp: store_val_def)
  have r1: "refs d1 = refs d" using row_upd_refs [OF Cons.prems(1) w(1) d1(1)] .
  have "db_readable d1 p c" using w(1) same_shapeD(1) [OF d1(3)] by (simp add: db_writable_def db_readable_def)
  then obtain d2 where d2: "incr_column_ver p c d1 = Inr d2" "db_inv d2" "same_shape d1 d2" "db_val d2 = db_val d1" "d_lock d2 = d_lock d1"
    "refs d2 = refs d1" "d_ver d2 = (d_ver d1)(p := (d_ver d1 p)(c := d_ver d1 p c + 1))"
    using incr_column_ver_spec [OF d1(2)] by blast
  have sh: "same_shape d d2" using same_shape_trans [OF d1(3) d2(3)] .
  obtain t where t: "row_table p d = Inr (Some t)" using in_table_row_table [OF Cons.prems(1)] db_writable_in_table [OF w(1)] by blast
  have "updates_ok d2 us" "\<forall>p. d_kind d2 p = ROW_VERSIONED" using w(2) same_shapeD(2,6) [OF sh] Cons.prems(2) by (simp_all add: updates_ok_def)
  then obtain d' where d': "occ_updates OCC_LAZY us d2 = Inr d'" "db_inv d'" "same_shape d2 d'" "d_lock d' = d_lock d2" "refs d' = refs d2"
    "db_val d' = overlay us (db_val d2)" "d_ver d' = (\<lambda>p c. if (p, c) \<in> set (upd_keys us) then d_ver d2 p c + 1 else d_ver d2 p c)"
    using Cons.IH [OF d2(2)] by blast
  have "occ_updates OCC_LAZY (u # us) d = Inr d'" using u t d1(1) d2(1) d'(1) Cons.prems(2) by simp
  moreover have "d_ver d' = (\<lambda>q j. if (q, j) \<in> set (upd_keys (u # us)) then d_ver d q j + 1 else d_ver d q j)"
    using d'(7) d2(7) d1(4) w(3) u by (auto simp: fun_eq_iff)
  ultimately show ?case
    using d' d2 d1 r1 u w(3) same_shape_trans [OF sh d'(3)] by (intro exI [of _ d']) (simp add: overlay_Cons)
qed simp

end
