(* ===== verification/Dtxn_Occ.thy ===== *)
theory Dtxn_Occ
  imports Mdb_Occ
begin

text \<open>
  The transactions of one server in the optimistic mode (\<^verbatim>\<open>TxnRunner\<close> in \<^verbatim>\<open>deptran/dtxn.cc\<close>): the map
  of running transactions, their creation at the first request, and the prepare, commit and abort
  requests of the coordinators. Histories interleave the requests of any number of transactions; the
  model records what each transaction read and wrote, and the committed transactions in the order of
  their commits. With the lazy policy every history is serializable in commit order; with the eager
  policy, the default of \<^verbatim>\<open>TxnOCC\<close>, one is shown that is not.
\<close>

section \<open>Requests\<close>

datatype access = AccR nat nat mvalue | AccW nat nat mvalue

record occ_sys =
  sy_db :: db
  sy_txns :: "(i64 \<times> txnocc) list"
  sy_trace :: "i64 \<Rightarrow> access list"
  sy_log :: "access list list"

definition upd_txn :: "i64 \<Rightarrow> txnocc \<Rightarrow> (i64 \<times> txnocc) list \<Rightarrow> (i64 \<times> txnocc) list" where
  "upd_txn tid x ts = map (\<lambda>e. if fst e = tid then (tid, x) else e) ts"

definition del_txn :: "i64 \<Rightarrow> (i64 \<times> txnocc) list \<Rightarrow> (i64 \<times> txnocc) list" where
  "del_txn tid ts = filter (\<lambda>e. fst e \<noteq> tid) ts"

text \<open>\<^verbatim>\<open>get_txn\<close>: a transaction is started at its first request and gets the policy of the server.\<close>

definition get_txn :: "policy \<Rightarrow> i64 \<Rightarrow> occ_sys \<Rightarrow> txnocc \<times> occ_sys" where
  "get_txn pol tid sys =
     (case map_of (sy_txns sys) tid of
        Some x \<Rightarrow> (x, sys)
      | None \<Rightarrow> let x = set_policy pol (new_txnocc tid)
                in (x, sys\<lparr>sy_txns := (tid, x) # sy_txns sys, sy_trace := (sy_trace sys)(tid := [])\<rparr>))"

definition do_prepare :: "i64 \<Rightarrow> occ_sys \<Rightarrow> (bool \<times> occ_sys) res" where
  "do_prepare tid sys =
     (case map_of (sy_txns sys) tid of
        None \<Rightarrow> Inl VerifyFailed
      | Some x \<Rightarrow> rbind (occ_commit_prepare (sy_db sys, x))
          (\<lambda>(b, d, x'). Inr (b, sys\<lparr>sy_db := d, sy_txns := upd_txn tid x' (sy_txns sys)\<rparr>)))"

definition do_commit :: "i64 \<Rightarrow> occ_sys \<Rightarrow> occ_sys res" where
  "do_commit tid sys =
     (case map_of (sy_txns sys) tid of
        None \<Rightarrow> Inl VerifyFailed
      | Some x \<Rightarrow> rbind (occ_commit_confirm (sy_db sys, x))
          (\<lambda>(d, x'). Inr (sys\<lparr>sy_db := d, sy_txns := del_txn tid (sy_txns sys), sy_log := sy_log sys @ [sy_trace sys tid]\<rparr>)))"

definition do_abort :: "i64 \<Rightarrow> occ_sys \<Rightarrow> occ_sys res" where
  "do_abort tid sys =
     (case map_of (sy_txns sys) tid of
        None \<Rightarrow> Inl VerifyFailed
      | Some x \<Rightarrow> rbind (occ_abort (sy_db sys, x)) (\<lambda>(d, x'). Inr (sys\<lparr>sy_db := d, sy_txns := del_txn tid (sy_txns sys)\<rparr>)))"

text \<open>The requests that reach a server. A coordinator sends no access after the prepare request, no
  commit request before a prepare request was answered with yes, and nothing for a transaction that has
  ended but a new one: other requests are not part of a history and have no effect here.\<close>

datatype request = ReqRead i64 nat nat | ReqWrite i64 nat nat mvalue | ReqPrepare i64 | ReqCommit i64 | ReqAbort i64

definition add_access :: "i64 \<Rightarrow> access \<Rightarrow> occ_sys \<Rightarrow> occ_sys" where
  "add_access tid a sys = sys\<lparr>sy_trace := (sy_trace sys)(tid := sy_trace sys tid @ [a])\<rparr>"

fun handle :: "policy \<Rightarrow> ver_ins \<Rightarrow> request \<Rightarrow> occ_sys \<Rightarrow> occ_sys res" where
  "handle pol iim (ReqRead tid p c) sys =
     (let (x, sys1) = get_txn pol tid sys
      in if oc_verified x then Inr sys1
         else rbind (occ_read_column iim p c (sy_db sys1, x))
           (\<lambda>(v, d, x'). let sys2 = sys1\<lparr>sy_db := d, sy_txns := upd_txn tid x' (sy_txns sys1)\<rparr>
             in Inr (case v of None \<Rightarrow> sys2 | Some w \<Rightarrow> add_access tid (AccR p c w) sys2)))"
| "handle pol iim (ReqWrite tid p c w) sys =
     (let (x, sys1) = get_txn pol tid sys
      in if oc_verified x then Inr sys1
         else rbind (occ_write_column iim p c w (sy_db sys1, x))
           (\<lambda>(b, d, x'). Inr (add_access tid (AccW p c w) (sys1\<lparr>sy_db := d, sy_txns := upd_txn tid x' (sy_txns sys1)\<rparr>))))"
| "handle pol iim (ReqPrepare tid) sys =
     (case map_of (sy_txns sys) tid of
        None \<Rightarrow> Inr sys
      | Some x \<Rightarrow> if oc_verified x then Inr sys else rbind (do_prepare tid sys) (\<lambda>(b, sys'). Inr sys'))"
| "handle pol iim (ReqCommit tid) sys =
     (case map_of (sy_txns sys) tid of
        None \<Rightarrow> Inr sys
      | Some x \<Rightarrow> if oc_verified x then do_commit tid sys else Inr sys)"
| "handle pol iim (ReqAbort tid) sys =
     (case map_of (sy_txns sys) tid of None \<Rightarrow> Inr sys | Some x \<Rightarrow> do_abort tid sys)"

fun serve :: "policy \<Rightarrow> ver_ins \<Rightarrow> request list \<Rightarrow> occ_sys \<Rightarrow> occ_sys res" where
  "serve pol iim [] sys = Inr sys"
| "serve pol iim (r # rs) sys = rbind (handle pol iim r sys) (serve pol iim rs)"

definition new_server :: "db \<Rightarrow> occ_sys" where
  "new_server d = \<lparr>sy_db = d, sy_txns = [], sy_trace = (\<lambda>_. []), sy_log = []\<rparr>"

section \<open>Serial executions\<close>

text \<open>Accesses one after the other on plain contents: every read has to return the value it returned.\<close>

fun replay :: "access list \<Rightarrow> contents \<Rightarrow> contents option" where
  "replay [] m = Some m"
| "replay (AccR p c v # as) m = (if m p c = v then replay as m else None)"
| "replay (AccW p c v # as) m = replay as (store_val p c v m)"

lemma replay_append: "replay (as @ bs) m = (case replay as m of None \<Rightarrow> None | Some m' \<Rightarrow> replay bs m')"
  by (induction as m rule: replay.induct) auto

text \<open>What the code relies on of \<^verbatim>\<open>insert_into_map\<close>: the keys stay distinct, a new key gets its version,
  and a key that is there keeps the one it has.\<close>

definition keeps_first :: "ver_ins \<Rightarrow> bool" where
  "keeps_first iim \<longleftrightarrow> (\<forall>k n m. distinct (map fst m) \<longrightarrow> distinct (map fst (iim k n m)) \<and>
     map_of (iim k n m) = (if map_of m k = None then (map_of m)(k \<mapsto> n) else map_of m))"

fun legal_req :: "db \<Rightarrow> request \<Rightarrow> bool" where
  "legal_req d (ReqRead tid p c) = db_readable d p c"
| "legal_req d (ReqWrite tid p c v) = db_writable d p c v"
| "legal_req d _ = True"

section \<open>The invariant\<close>

text \<open>A running transaction: its own data, and how its recorded versions, its locks and its reads relate
  to the database.\<close>

definition txn_wf :: "db \<Rightarrow> i64 \<times> txnocc \<Rightarrow> bool" where
  "txn_wf d e \<longleftrightarrow> (case e of (tid, x) \<Rightarrow> sg_id x = tid \<and> sg_outcome x = NONE \<and> sg_inserts x = [] \<and> sg_removes x = [] \<and>
     oc_snapshot_tables x = [] \<and> oc_policy x = OCC_LAZY \<and> updates_ok d (sg_updates x) \<and>
     distinct (oc_accessed x) \<and> (\<forall>p \<in> set (oc_accessed x). in_table p d) \<and>
     distinct (map fst (oc_ver_read x)) \<and> distinct (map fst (oc_ver_write x)) \<and>
     (\<forall>v \<in> set (oc_ver_read x) \<union> set (oc_ver_write x). db_readable d (fst (fst v)) (snd (fst v))) \<and>
     set (upd_keys (sg_updates x)) \<subseteq> fst ` set (oc_ver_write x) \<and> (\<forall>l \<in> set (oc_locks x). in_table (fst l) d))"

definition txn_vers :: "db \<Rightarrow> i64 \<times> txnocc \<Rightarrow> bool" where
  "txn_vers d e \<longleftrightarrow> (\<forall>v \<in> set (oc_ver_read (snd e)). snd v \<le> d_ver d (fst (fst v)) (snd (fst v)))"

definition txn_locked :: "db \<Rightarrow> i64 \<times> txnocc \<Rightarrow> bool" where
  "txn_locked d e \<longleftrightarrow> (oc_verified (snd e) \<longrightarrow>
     (\<forall>v \<in> set (oc_ver_read (snd e)). d_ver d (fst (fst v)) (snd (fst v)) = snd v \<and> holds d (fst e) (fst (fst v))) \<and>
     (\<forall>v \<in> set (oc_ver_write (snd e)). holds_w d (fst e) (fst (fst v))))"

definition fits :: "(nat \<times> nat \<times> mvalue) set \<Rightarrow> contents \<Rightarrow> bool" where
  "fits E m \<longleftrightarrow> (\<forall>e \<in> E. m (fst e) (fst (snd e)) = snd (snd e))"

definition observed :: "db \<Rightarrow> ver_map \<Rightarrow> (nat \<times> nat \<times> mvalue) set \<Rightarrow> bool" where
  "observed d vr E \<longleftrightarrow> (\<forall>e \<in> E. \<exists>n. ((fst e, fst (snd e)), n) \<in> set vr \<and>
     (d_ver d (fst e) (fst (snd e)) = n \<longrightarrow> db_val d (fst e) (fst (snd e)) = snd (snd e)))"

definition txn_reads :: "db \<Rightarrow> access list \<Rightarrow> i64 \<times> txnocc \<Rightarrow> bool" where
  "txn_reads d tr e \<longleftrightarrow> (\<exists>E. observed d (oc_ver_read (snd e)) E \<and>
     (\<forall>m. fits E m \<longrightarrow> replay tr m = Some (overlay (sg_updates (snd e)) m)))"

definition txn_ok :: "db \<Rightarrow> (i64 \<Rightarrow> access list) \<Rightarrow> i64 \<times> txnocc \<Rightarrow> bool" where
  "txn_ok d tr e \<longleftrightarrow> txn_wf d e \<and> txn_vers d e \<and> txn_locked d e \<and> txn_reads d (tr (fst e)) e"

definition uses :: "nat \<Rightarrow> txnocc \<Rightarrow> nat" where
  "uses p x = (if p \<in> set (oc_accessed x) then 1 else 0)"

definition users :: "nat \<Rightarrow> (i64 \<times> txnocc) list \<Rightarrow> nat" where
  "users p ts = sum_list (map (\<lambda>e. uses p (snd e)) ts)"

definition sys_inv :: "db \<Rightarrow> occ_sys \<Rightarrow> bool" where
  "sys_inv d0 sys \<longleftrightarrow> db_inv (sy_db sys) \<and> same_shape d0 (sy_db sys) \<and> (\<forall>p. d_kind (sy_db sys) p = ROW_VERSIONED) \<and> locks_ok (sy_db sys) \<and>
     distinct (map fst (sy_txns sys)) \<and> (\<forall>e \<in> set (sy_txns sys). txn_ok (sy_db sys) (sy_trace sys) e) \<and>
     (\<forall>p. in_table p d0 \<longrightarrow> users p (sy_txns sys) < refs (sy_db sys) p) \<and>
     replay (concat (sy_log sys)) (db_val d0) = Some (db_val (sy_db sys))"

lemma upd_txn_set:
  "distinct (map fst ts) \<Longrightarrow> map_of ts tid = Some x0 \<Longrightarrow> set (upd_txn tid x ts) = insert (tid, x) {e \<in> set ts. fst e \<noteq> tid}"
  by (force simp: upd_txn_def dest: map_of_SomeD)

lemma upd_txn_fst [simp]: "map fst (upd_txn tid x ts) = map fst ts"
  by (simp add: upd_txn_def comp_def if_distrib [of fst] cong: map_cong if_cong)

lemma users_upd:
  "distinct (map fst ts) \<Longrightarrow> map_of ts tid = Some x0 \<Longrightarrow> users p (upd_txn tid x ts) + uses p x0 = users p ts + uses p x"
proof (induction ts)
  case (Cons e ts)
  show ?case
  proof (cases "fst e = tid")
    case True
    then have "\<forall>e' \<in> set ts. fst e' \<noteq> tid" using Cons.prems(1) by (force simp: image_iff)
    then have "upd_txn tid x ts = ts" by (simp add: upd_txn_def cong: map_cong)
    then show ?thesis using True Cons.prems(2) by (cases e) (simp add: users_def upd_txn_def)
  next
    case False
    then show ?thesis using Cons by (cases e) (simp add: users_def upd_txn_def)
  qed
qed simp

lemma users_del:
  "distinct (map fst ts) \<Longrightarrow> map_of ts tid = Some x0 \<Longrightarrow> users p (del_txn tid ts) + uses p x0 = users p ts"
proof (induction ts)
  case (Cons e ts)
  show ?case
  proof (cases "fst e = tid")
    case True
    then have "\<forall>e' \<in> set ts. fst e' \<noteq> tid" using Cons.prems(1) by (force simp: image_iff)
    then have "del_txn tid ts = ts" by (simp add: del_txn_def filter_id_conv)
    then show ?thesis using True Cons.prems(2) by (cases e) (simp add: users_def del_txn_def)
  next
    case False
    then show ?thesis using Cons by (cases e) (simp add: users_def del_txn_def)
  qed
qed simp

lemma txn_wf_shape: "same_shape d d' \<Longrightarrow> txn_wf d' e = txn_wf d e"
  using same_shapeD(1,2,3) [of d d'] by (simp add: txn_wf_def updates_ok_def)

text \<open>What another transaction does to references and locks does not matter.\<close>

lemma txn_ok_quiet:
  assumes "quiet d d'" and "others_keep tid d d'" and "fst e \<noteq> tid" and "txn_ok d tr e"
  shows "txn_ok d' tr e"
  using assms txn_wf_shape [OF quietD(2) [OF assms(1)]] quietD(3,4) [OF assms(1)]
  by (auto simp: txn_ok_def txn_vers_def txn_locked_def txn_reads_def observed_def others_keep_def)

lemma sys_invD:
  assumes "sys_inv d0 sys" and "map_of (sy_txns sys) tid = Some x"
  shows "db_inv (sy_db sys)" "same_shape d0 (sy_db sys)" "\<forall>p. d_kind (sy_db sys) p = ROW_VERSIONED" "locks_ok (sy_db sys)"
    "distinct (map fst (sy_txns sys))" "txn_ok (sy_db sys) (sy_trace sys) (tid, x)" "txn_wf (sy_db sys) (tid, x)"
    "uses p x \<le> users p (sy_txns sys)"
proof -
  show "txn_ok (sy_db sys) (sy_trace sys) (tid, x)" using assms map_of_SomeD [OF assms(2)] by (auto simp: sys_inv_def)
  then show "txn_wf (sy_db sys) (tid, x)" by (simp add: txn_ok_def)
  show "uses p x \<le> users p (sy_txns sys)" using users_del [of "sy_txns sys" tid x p] assms by (simp add: sys_inv_def)
qed (use assms in \<open>simp_all add: sys_inv_def\<close>)

text \<open>One transaction goes on, or ends, while the contents stay.\<close>

lemma sys_inv_step:
  assumes inv: "sys_inv d0 sys" and x: "map_of (sy_txns sys) tid = Some x"
    and q: "quiet (sy_db sys) d'" "others_keep tid (sy_db sys) d'" "locks_ok d'"
    and tr: "\<And>o'. o' \<noteq> tid \<Longrightarrow> tr o' = sy_trace sys o'" and ok: "txn_ok d' tr (tid, x')"
    and refs: "\<And>p. refs d' p + uses p x = refs (sy_db sys) p + uses p x'"
  shows "sys_inv d0 (sys\<lparr>sy_db := d', sy_txns := upd_txn tid x' (sy_txns sys), sy_trace := tr\<rparr>)"
proof -
  note D = sys_invD [OF inv x]
  have "txn_ok d' tr e" if e: "e \<in> set (sy_txns sys)" "fst e \<noteq> tid" for e
  proof -
    have "txn_ok d' (sy_trace sys) e" using txn_ok_quiet [OF q(1,2) e(2)] inv e(1) by (simp add: sys_inv_def)
    then show ?thesis using tr [OF e(2)] by (simp add: txn_ok_def)
  qed
  moreover have "users p (upd_txn tid x' (sy_txns sys)) < refs d' p" if "in_table p d0" for p
  proof -
    have "users p (sy_txns sys) < refs (sy_db sys) p" using inv that by (simp add: sys_inv_def)
    then show ?thesis using users_upd [OF D(5) x, of p x'] refs [of p] by linarith
  qed
  ultimately show ?thesis
    using inv ok q(3) quietD(1,3,6) [OF q(1)] same_shape_trans [OF D(2) quietD(2) [OF q(1)]] upd_txn_set [OF D(5) x]
    by (auto simp: sys_inv_def)
qed

lemma del_txn_simps [simp]: "set (del_txn tid ts) = {e \<in> set ts. fst e \<noteq> tid}" "distinct (map fst ts) \<Longrightarrow> distinct (map fst (del_txn tid ts))"
  by (auto simp: del_txn_def distinct_map_filter)

lemma sys_inv_end:
  assumes inv: "sys_inv d0 sys" and x: "map_of (sy_txns sys) tid = Some x"
    and q: "quiet (sy_db sys) d'" "others_keep tid (sy_db sys) d'" "locks_ok d'"
    and refs: "\<And>p. refs d' p + uses p x = refs (sy_db sys) p"
  shows "sys_inv d0 (sys\<lparr>sy_db := d', sy_txns := del_txn tid (sy_txns sys)\<rparr>)"
proof -
  note D = sys_invD [OF inv x]
  have "txn_ok d' (sy_trace sys) e" if e: "e \<in> set (sy_txns sys)" "fst e \<noteq> tid" for e
    using txn_ok_quiet [OF q(1,2) e(2)] inv e(1) by (simp add: sys_inv_def)
  moreover have "users p (del_txn tid (sy_txns sys)) < refs d' p" if "in_table p d0" for p
  proof -
    have "users p (sy_txns sys) < refs (sy_db sys) p" using inv that by (simp add: sys_inv_def)
    then show ?thesis using users_del [OF D(5) x, of p] refs [of p] by linarith
  qed
  ultimately show ?thesis
    using inv q(3) quietD(1,3,6) [OF q(1)] same_shape_trans [OF D(2) quietD(2) [OF q(1)]] by (auto simp: sys_inv_def)
qed

section \<open>Every request keeps the invariant\<close>

lemma get_txn_spec:
  assumes "sys_inv d0 sys"
  shows "\<exists>x sys'. get_txn OCC_LAZY tid sys = (x, sys') \<and> sys_inv d0 sys' \<and> map_of (sy_txns sys') tid = Some x"
proof (cases "map_of (sy_txns sys) tid")
  case None
  let ?x = "set_policy OCC_LAZY (new_txnocc tid)"
  let ?tr = "(sy_trace sys)(tid := [])"
  have new: "txn_ok (sy_db sys) ?tr (tid, ?x)" "uses p ?x = 0" for p
    by (auto simp: txn_ok_def txn_wf_def txn_vers_def txn_locked_def txn_reads_def observed_def set_policy_def new_txnocc_def new_stage_def
        stage.defs updates_ok_def uses_def)
  have fresh: "tid \<notin> fst ` set (sy_txns sys)" using None by (simp add: map_of_eq_None_iff)
  then have "\<forall>e \<in> set (sy_txns sys). txn_ok (sy_db sys) ?tr e" using assms by (auto simp: sys_inv_def txn_ok_def)
  then have "sys_inv d0 (sys\<lparr>sy_txns := (tid, ?x) # sy_txns sys, sy_trace := ?tr\<rparr>)"
    using assms new fresh by (simp add: sys_inv_def users_def)
  then show ?thesis using None by (simp add: get_txn_def Let_def)
qed (use assms in \<open>simp add: get_txn_def\<close>)

lemma distinct_os_ins: "distinct xs \<Longrightarrow> x \<notin> set xs \<Longrightarrow> distinct (os_ins x xs)"
  by (induction xs) auto

lemma incr_row_refcount_spec:
  assumes "db_inv d" and "in_table p d" and "distinct (oc_accessed x)" and "\<forall>q \<in> set (oc_accessed x). in_table q d"
  shows "\<exists>d' acc. incr_row_refcount p (d, x) = Inr (d', x\<lparr>oc_accessed := acc\<rparr>) \<and> quiet d d' \<and> d_lock d' = d_lock d \<and>
    distinct acc \<and> (\<forall>q \<in> set acc. in_table q d) \<and> (\<forall>q. refs d' q + uses q x = refs d q + uses q (x\<lparr>oc_accessed := acc\<rparr>))"
proof (cases "p \<in> set (oc_accessed x)")
  case True
  then show ?thesis using assms quiet_refl [OF assms(1)] by (intro exI [of _ d] exI [of _ "oc_accessed x"]) (simp add: incr_row_refcount_def)
next
  case False
  obtain d' where d': "ref_copy p d = Inr d'" "quiet d d'" "d_lock d' = d_lock d" "refs d' = (refs d)(p := Suc (refs d p))"
    using ref_copy_quiet [OF assms(1,2)] by blast
  then show ?thesis using assms False by (intro exI [of _ d'] exI [of _ "os_ins p (oc_accessed x)"]) (auto simp: incr_row_refcount_def uses_def distinct_os_ins)
qed

text \<open>A recorded version map grows by one entry.\<close>

lemma keeps_firstD:
  assumes "keeps_first iim" and "distinct (map fst m)"
  shows "distinct (map fst (iim k n m))" "set m \<subseteq> set (iim k n m)" "set (iim k n m) \<subseteq> insert (k, n) (set m)" "k \<in> fst ` set (iim k n m)"
proof -
  have m: "distinct (map fst (iim k n m))" "map_of (iim k n m) = (if map_of m k = None then (map_of m)(k \<mapsto> n) else map_of m)"
    using assms unfolding keeps_first_def by blast+
  then show "distinct (map fst (iim k n m))" by simp
  have i: "e \<in> set (iim k n m) \<longleftrightarrow> map_of (iim k n m) (fst e) = Some (snd e)" and j: "e \<in> set m \<longleftrightarrow> map_of m (fst e) = Some (snd e)" for e
    using m(1) assms(2) by (metis map_of_SomeD map_of_is_SomeI prod.collapse)+
  show "set m \<subseteq> set (iim k n m)" "set (iim k n m) \<subseteq> insert (k, n) (set m)"
    using m(2) i j by (auto split: if_splits)
  have "map_of (iim k n m) k \<noteq> None" using m(2) by auto
  then show "k \<in> fst ` set (iim k n m)" by (simp add: map_of_eq_None_iff)
qed

lemma txn_wfD:
  assumes "txn_wf d (tid, x)"
  shows "sg_id x = tid" "sg_outcome x = NONE" "sg_inserts x = []" "sg_removes x = []" "oc_snapshot_tables x = []" "oc_policy x = OCC_LAZY"
    "updates_ok d (sg_updates x)" "distinct (oc_accessed x)" "\<forall>p \<in> set (oc_accessed x). in_table p d"
    "distinct (map fst (oc_ver_read x))" "distinct (map fst (oc_ver_write x))"
    "\<forall>v \<in> set (oc_ver_read x) \<union> set (oc_ver_write x). db_readable d (fst (fst v)) (snd (fst v))"
    "set (upd_keys (sg_updates x)) \<subseteq> fst ` set (oc_ver_write x)" "\<forall>l \<in> set (oc_locks x). in_table (fst l) d"
  using assms by (simp_all add: txn_wf_def)

text \<open>The trace of a transaction is extended by an access.\<close>

lemma txn_reads_read:
  assumes "txn_reads d tr (tid, x)" and "set (oc_ver_read x) \<subseteq> set (oc_ver_read x')" and "sg_updates x' = sg_updates x"
    and "(p, c) \<in> fst ` set (oc_ver_read x')" and "upd_find p c (sg_updates x) = None"
  shows "txn_reads d (tr @ [AccR p c (db_val d p c)]) (tid, x')"
proof -
  obtain E where E: "observed d (oc_ver_read x) E" "\<forall>m. fits E m \<longrightarrow> replay tr m = Some (overlay (sg_updates x) m)"
    using assms(1) by (auto simp: txn_reads_def)
  let ?E = "insert (p, c, db_val d p c) E"
  obtain n where "((p, c), n) \<in> set (oc_ver_read x')" using assms(4) by force
  then have "observed d (oc_ver_read x') ?E" using E(1) assms(2) unfolding observed_def by auto
  moreover have "replay (tr @ [AccR p c (db_val d p c)]) m = Some (overlay (sg_updates x') m)" if "fits ?E m" for m
  proof -
    have "fits E m" "m p c = db_val d p c" using that by (simp_all add: fits_def)
    then show ?thesis using E(2) assms(3,5) by (simp add: replay_append overlay_at)
  qed
  ultimately show ?thesis unfolding txn_reads_def snd_conv by blast
qed

lemma txn_reads_own:
  assumes "txn_reads d tr (tid, x)" and "upd_find p c (sg_updates x) = Some v"
  shows "txn_reads d (tr @ [AccR p c v]) (tid, x)"
proof -
  obtain E where E: "observed d (oc_ver_read x) E" "\<forall>m. fits E m \<longrightarrow> replay tr m = Some (overlay (sg_updates x) m)"
    using assms(1) by (auto simp: txn_reads_def)
  then have "\<forall>m. fits E m \<longrightarrow> replay (tr @ [AccR p c v]) m = Some (overlay (sg_updates x) m)"
    using assms(2) by (simp add: replay_append overlay_at)
  then show ?thesis using E(1) unfolding txn_reads_def snd_conv by blast
qed

lemma txn_reads_write:
  assumes "txn_reads d tr (tid, x)" and "oc_ver_read x' = oc_ver_read x" and "sg_updates x' = stage_write p c v (sg_updates x)"
  shows "txn_reads d (tr @ [AccW p c v]) (tid, x')"
proof -
  obtain E where E: "observed d (oc_ver_read x) E" "\<forall>m. fits E m \<longrightarrow> replay tr m = Some (overlay (sg_updates x) m)"
    using assms(1) by (auto simp: txn_reads_def)
  then have "\<forall>m. fits E m \<longrightarrow> replay (tr @ [AccW p c v]) m = Some (overlay (sg_updates x') m)"
    using assms(3) by (simp add: replay_append overlay_write)
  then show ?thesis using E(1) assms(2) unfolding txn_reads_def snd_conv by auto
qed

lemma txn_reads_quiet: "quiet d d' \<Longrightarrow> txn_reads d' tr e = txn_reads d tr e"
  using quietD(3,4) [of d d'] by (simp add: txn_reads_def observed_def)

lemma stage_write_keys: "set (upd_keys (stage_write p c v us)) \<subseteq> insert (p, c) (set (upd_keys us))"
proof
  fix k assume "k \<in> set (upd_keys (stage_write p c v us))"
  then have "upd_find (fst k) (snd k) (stage_write p c v us) \<noteq> None" using upd_find_None by simp
  then show "k \<in> insert (p, c) (set (upd_keys us))"
    using upd_find_None [of "fst k" "snd k" us] by (cases k) (auto simp: upd_find_stage_write split: if_splits)
qed

lemma occ_read_spec:
  assumes kf: "keeps_first iim" and inv: "sys_inv d0 sys" and x: "map_of (sy_txns sys) tid = Some x" and nv: "\<not> oc_verified x"
    and r: "db_readable d0 p c"
  shows "\<exists>v d' x'. occ_read_column iim p c (sy_db sys, x) = Inr (Some v, d', x') \<and>
    sys_inv d0 (add_access tid (AccR p c v) (sys\<lparr>sy_db := d', sy_txns := upd_txn tid x' (sy_txns sys)\<rparr>))"
proof -
  let ?d = "sy_db sys" and ?tr = "sy_trace sys tid"
  note D = sys_invD [OF inv x] and W = txn_wfD [OF sys_invD(7) [OF inv x]]
  have r': "db_readable ?d p c" "in_table p ?d" using r same_shapeD(1,3) [OF D(2)] by (simp_all add: db_readable_def)
  obtain t where t: "row_table p ?d = Inr (Some t)" using in_table_row_table [OF D(1) r'(2)] by blast
  have ok: "txn_vers ?d (tid, x)" "txn_locked ?d (tid, x)" "txn_reads ?d ?tr (tid, x)" using D(6) by (simp_all add: txn_ok_def)
  show ?thesis
  proof (cases "upd_find p c (sg_updates x)")
    case (Some v)
    let ?sys = "sys\<lparr>sy_db := ?d, sy_txns := upd_txn tid x (sy_txns sys), sy_trace := (sy_trace sys)(tid := ?tr @ [AccR p c v])\<rparr>"
    have "sys_inv d0 ?sys"
      using quiet_refl [OF D(1)] D(4,6) txn_reads_own [OF ok(3) Some] by (intro sys_inv_step [OF inv x]) (simp_all add: txn_ok_def)
    then show ?thesis using W(2,5) t Some by (simp add: occ_read_column_def is_readonly_def add_access_def)
  next
    case None
    let ?vr = "iim (p, c) (d_ver ?d p c) (oc_ver_read x)" and ?v = "db_val ?d p c"
    obtain d' acc where d': "incr_row_refcount p (?d, x\<lparr>oc_ver_read := ?vr\<rparr>) = Inr (d', x\<lparr>oc_ver_read := ?vr, oc_accessed := acc\<rparr>)"
      "quiet ?d d'" "d_lock d' = d_lock ?d" "distinct acc" "\<forall>q \<in> set acc. in_table q ?d"
      "\<forall>q. refs d' q + uses q x = refs ?d q + uses q (x\<lparr>oc_accessed := acc\<rparr>)"
      using incr_row_refcount_spec [OF D(1) r'(2), of "x\<lparr>oc_ver_read := ?vr\<rparr>"] W(8,9) by (auto simp: uses_def)
    let ?x = "x\<lparr>oc_ver_read := ?vr, oc_accessed := acc, sg_reads := mm_ins p c (sg_reads x)\<rparr>"
    let ?sys = "sys\<lparr>sy_db := d', sy_txns := upd_txn tid ?x (sy_txns sys), sy_trace := (sy_trace sys)(tid := ?tr @ [AccR p c ?v])\<rparr>"
    note Q = quietD [OF d'(2)] and K = keeps_firstD [OF kf W(10), of "(p, c)" "d_ver ?d p c"]
    have "txn_wf ?d (tid, ?x)" using W d'(4,5) K(1,3) r'(1) by (auto simp: txn_wf_def)
    then have "txn_wf d' (tid, ?x)" using txn_wf_shape [OF Q(2)] by simp
    moreover have "txn_vers d' (tid, ?x)" "txn_locked d' (tid, ?x)" using ok(1) K(3) nv Q(4) by (auto simp: txn_vers_def txn_locked_def)
    moreover have "txn_reads d' (?tr @ [AccR p c ?v]) (tid, ?x)"
      using txn_reads_read [OF ok(3), of ?x p c] K(2,4) None txn_reads_quiet [OF d'(2)] by simp
    ultimately have "sys_inv d0 ?sys"
      using d'(2,3,6) D(4) others_keep_same [OF d'(3)] by (intro sys_inv_step [OF inv x]) (simp_all add: txn_ok_def locks_ok_def uses_def)
    moreover have "row_get p c d' = Inr ?v" using row_get_readable [OF Q(1), of p c] Q(3,8) r'(1) by simp
    ultimately show ?thesis
      using W(2,5) t None D(3) get_column_ver_readable [OF D(1) r'(1)] d'(1) by (simp add: occ_read_column_def is_readonly_def add_access_def)
  qed
qed

lemma occ_write_spec:
  assumes kf: "keeps_first iim" and inv: "sys_inv d0 sys" and x: "map_of (sy_txns sys) tid = Some x" and nv: "\<not> oc_verified x"
    and w: "db_writable d0 p c v"
  shows "\<exists>d' x'. occ_write_column iim p c v (sy_db sys, x) = Inr (True, d', x') \<and>
    sys_inv d0 (add_access tid (AccW p c v) (sys\<lparr>sy_db := d', sy_txns := upd_txn tid x' (sy_txns sys)\<rparr>))"
proof -
  let ?d = "sy_db sys" and ?tr = "sy_trace sys tid" and ?us = "stage_write p c v (sg_updates x)"
  note D = sys_invD [OF inv x] and W = txn_wfD [OF sys_invD(7) [OF inv x]]
  have w': "db_writable ?d p c v" "in_table p ?d" "db_readable ?d p c"
    using w same_shapeD(2,3,5) [OF D(2)] by (simp_all add: db_writable_def db_readable_def)
  obtain t where t: "row_table p ?d = Inr (Some t)" using in_table_row_table [OF D(1) w'(2)] by blast
  have ok: "txn_vers ?d (tid, x)" "txn_locked ?d (tid, x)" "txn_reads ?d ?tr (tid, x)" using D(6) by (simp_all add: txn_ok_def)
  have us: "updates_ok ?d ?us" using stage_write_ok [OF W(7) w'(1)] .
  have keys: "set (upd_keys ?us) \<subseteq> insert (p, c) (set (upd_keys (sg_updates x)))" by (rule stage_write_keys)
  show ?thesis
  proof (cases "upd_find p c (sg_updates x)")
    case (Some w')
    let ?x = "x\<lparr>sg_updates := ?us\<rparr>"
    let ?sys = "sys\<lparr>sy_db := ?d, sy_txns := upd_txn tid ?x (sy_txns sys), sy_trace := (sy_trace sys)(tid := ?tr @ [AccW p c v])\<rparr>"
    have "(p, c) \<in> set (upd_keys (sg_updates x))" using Some upd_find_None [of p c "sg_updates x"] by auto
    then have "txn_wf ?d (tid, ?x)" using W us keys by (auto simp: txn_wf_def)
    then have "sys_inv d0 ?sys"
      using quiet_refl [OF D(1)] D(4,6) ok txn_reads_write [OF ok(3), of ?x p c v]
      by (intro sys_inv_step [OF inv x]) (simp_all add: txn_ok_def txn_vers_def txn_locked_def uses_def)
    then show ?thesis using W(2,5) t Some by (simp add: occ_write_column_def is_readonly_def add_access_def stage_write_def)
  next
    case None
    let ?vw = "iim (p, c) (d_ver ?d p c) (oc_ver_write x)"
    obtain d' acc where d': "incr_row_refcount p (?d, x\<lparr>oc_ver_write := ?vw\<rparr>) = Inr (d', x\<lparr>oc_ver_write := ?vw, oc_accessed := acc\<rparr>)"
      "quiet ?d d'" "d_lock d' = d_lock ?d" "distinct acc" "\<forall>q \<in> set acc. in_table q ?d"
      "\<forall>q. refs d' q + uses q x = refs ?d q + uses q (x\<lparr>oc_accessed := acc\<rparr>)"
      using incr_row_refcount_spec [OF D(1) w'(2), of "x\<lparr>oc_ver_write := ?vw\<rparr>"] W(8,9) by (auto simp: uses_def)
    let ?x = "x\<lparr>oc_ver_write := ?vw, oc_accessed := acc, sg_updates := ?us\<rparr>"
    let ?sys = "sys\<lparr>sy_db := d', sy_txns := upd_txn tid ?x (sy_txns sys), sy_trace := (sy_trace sys)(tid := ?tr @ [AccW p c v])\<rparr>"
    note Q = quietD [OF d'(2)] and K = keeps_firstD [OF kf W(11), of "(p, c)" "d_ver ?d p c"]
    have "set (upd_keys ?us) \<subseteq> fst ` set ?vw" using keys W(13) K(2,4) by blast
    then have "txn_wf ?d (tid, ?x)" using W us d'(4,5) K(1,3) w'(3) by (auto simp: txn_wf_def)
    then have "txn_wf d' (tid, ?x)" using txn_wf_shape [OF Q(2)] by simp
    moreover have "txn_vers d' (tid, ?x)" "txn_locked d' (tid, ?x)" using ok(1) nv Q(4) by (auto simp: txn_vers_def txn_locked_def)
    moreover have "txn_reads d' (?tr @ [AccW p c v]) (tid, ?x)"
      using txn_reads_write [OF ok(3), of ?x p c v] txn_reads_quiet [OF d'(2)] by simp
    ultimately have "sys_inv d0 ?sys"
      using d'(2,3,6) D(4) others_keep_same [OF d'(3)] by (intro sys_inv_step [OF inv x]) (simp_all add: txn_ok_def locks_ok_def uses_def)
    then show ?thesis
      using W(2,5,6) t None D(3) get_column_ver_readable [OF D(1) w'(3)] d'(1)
      by (simp add: occ_write_column_def is_readonly_def add_access_def track_write_def stage_write_def)
  qed
qed

lemma occ_release_spec:
  assumes "db_inv d" and "locks_ok d" and "\<forall>p. d_kind d p = ROW_VERSIONED" and "\<forall>l \<in> set (oc_locks x). in_table (fst l) d"
    and "distinct (oc_accessed x)" and "\<forall>p \<in> set (oc_accessed x). in_table p d \<and> 1 < refs d p"
  shows "\<exists>d' x'. occ_release_resource (d, x) = Inr (d', x') \<and> quiet d d' \<and> others_keep (sg_id x) d d' \<and> locks_ok d' \<and>
    (\<forall>p. refs d' p + uses p x = refs d p)"
proof -
  obtain d1 where d1: "unlock_rows (sg_id x) (oc_locks x) d = Inr d1" "quiet d d1" "locks_ok d1" "others_keep (sg_id x) d d1" "refs d1 = refs d"
    using unlock_rows_spec [OF assms(1-4)] by blast
  obtain d2 where d2: "release_rows (oc_accessed x) d1 = Inr d2" "quiet d1 d2" "d_lock d2 = d_lock d1"
    "refs d2 = (\<lambda>p. if p \<in> set (oc_accessed x) then refs d1 p - 1 else refs d1 p)"
    using release_rows_quiet [OF quietD(1) [OF d1(2)] assms(5)] assms(6) d1(5) quietD(5) [OF d1(2)] by auto
  have "\<forall>p. refs d2 p + uses p x = refs d p" using d2(4) d1(5) assms(6) by (auto simp: uses_def)
  then show ?thesis
    using d1 d2 quiet_trans [OF d1(2) d2(2)] others_keep_trans [OF d1(4) others_keep_same [OF d2(3)]]
    by (auto simp: occ_release_resource_def locks_ok_def)
qed

lemma accessed_refs:
  assumes "sys_inv d0 sys" and "map_of (sy_txns sys) tid = Some x" and "p \<in> set (oc_accessed x)"
  shows "1 < refs (sy_db sys) p"
proof -
  have "in_table p d0" using txn_wfD(9) [OF sys_invD(7) [OF assms(1,2)]] same_shapeD(3) [OF sys_invD(2) [OF assms(1,2)]] assms(3) by simp
  then have "users p (sy_txns sys) < refs (sy_db sys) p" using assms(1) by (simp add: sys_inv_def)
  then show ?thesis using sys_invD(8) [OF assms(1,2), of p] assms(3) by (simp add: uses_def)
qed

lemma do_abort_spec:
  assumes inv: "sys_inv d0 sys" and x: "map_of (sy_txns sys) tid = Some x"
  shows "\<exists>sys'. do_abort tid sys = Inr sys' \<and> sys_inv d0 sys'"
proof -
  let ?x = "x\<lparr>sg_outcome := TXN_ABORT\<rparr>"
  note D = sys_invD [OF inv x] and W = txn_wfD [OF sys_invD(7) [OF inv x]]
  obtain d' x' where d': "occ_release_resource (sy_db sys, ?x) = Inr (d', x')" "quiet (sy_db sys) d'" "others_keep tid (sy_db sys) d'" "locks_ok d'"
    "\<forall>p. refs d' p + uses p x = refs (sy_db sys) p"
    using occ_release_spec [OF D(1,4,3), of ?x] W(1,8,9,14) accessed_refs [OF inv x] by (auto simp: uses_def)
  then show ?thesis using W(2) x sys_inv_end [OF inv x d'(2-4)] by (simp add: do_abort_def occ_abort_def)
qed

text \<open>Whatever the outcome of the locking, the transaction goes on with the locks it got.\<close>

lemma prepare_step:
  assumes inv: "sys_inv d0 sys" and x: "map_of (sy_txns sys) tid = Some x"
    and d': "quiet (sy_db sys) d'" "others_keep tid (sy_db sys) d'" "locks_ok d'" "refs d' = refs (sy_db sys)"
      "\<forall>l \<in> set ls. in_table (fst l) (sy_db sys)" "b \<longrightarrow> txn_locked d' (tid, x\<lparr>oc_locks := ls, oc_verified := True\<rparr>)"
  shows "sys_inv d0 (sys\<lparr>sy_db := d', sy_txns := upd_txn tid (x\<lparr>oc_locks := ls, oc_verified := b\<rparr>) (sy_txns sys)\<rparr>)"
proof -
  let ?x = "x\<lparr>oc_locks := ls, oc_verified := b\<rparr>"
  note D = sys_invD [OF inv x] and W = txn_wfD [OF sys_invD(7) [OF inv x]]
  have ok: "txn_vers (sy_db sys) (tid, x)" "txn_reads (sy_db sys) (sy_trace sys tid) (tid, x)" using D(6) by (simp_all add: txn_ok_def)
  have "txn_wf (sy_db sys) (tid, ?x)" using W d'(5) by (simp add: txn_wf_def)
  then have "txn_wf d' (tid, ?x)" using txn_wf_shape [OF quietD(2) [OF d'(1)]] by simp
  moreover have "txn_reads d' (sy_trace sys tid) (tid, ?x)"
    using ok(2) txn_reads_quiet [OF d'(1), of "sy_trace sys tid" "(tid, ?x)"] by (simp add: txn_reads_def)
  moreover have "txn_vers d' (tid, ?x)" "txn_locked d' (tid, ?x)"
    using ok(1) quietD(4) [OF d'(1)] d'(6) by (cases b; simp add: txn_vers_def txn_locked_def)+
  ultimately have "txn_ok d' (sy_trace sys) (tid, ?x)" by (simp add: txn_ok_def)
  then show ?thesis using sys_inv_step [OF inv x d'(1-3), of "sy_trace sys" ?x] d'(4) by (simp add: uses_def)
qed

lemma occ_commit_prepare_spec:
  assumes inv: "db_inv d" "locks_ok d" "\<forall>p. d_kind d p = ROW_VERSIONED" and wf: "txn_wf d (tid, x)" and nv: "\<not> oc_verified x"
  shows "\<exists>b d' ls. occ_commit_prepare (d, x) = Inr (b, d', x\<lparr>oc_locks := ls, oc_verified := b\<rparr>) \<and> quiet d d' \<and> others_keep tid d d' \<and>
    locks_ok d' \<and> refs d' = refs d \<and> (\<forall>l \<in> set ls. in_table (fst l) d) \<and> (b \<longrightarrow> txn_locked d' (tid, x\<lparr>oc_locks := ls, oc_verified := True\<rparr>))"
proof -
  let ?vr = "oc_ver_read x" and ?vw = "oc_ver_write x"
  note W = txn_wfD [OF wf]
  have vc: "version_check (d, x) = Inr (\<forall>e \<in> set ?vr \<union> set ?vw. d_ver d (fst (fst e)) (snd (fst e)) = snd e)"
    using version_check_spec [OF inv(1,3) W(5)] W(12) by blast
  have same: "x\<lparr>oc_locks := ls, oc_verified := False\<rparr> = x\<lparr>oc_locks := ls\<rparr>" for ls using nv by (cases x) simp
  show ?thesis
  proof (cases "\<forall>e \<in> set ?vr \<union> set ?vw. d_ver d (fst (fst e)) (snd (fst e)) = snd e")
    case False
    then have "occ_commit_prepare (d, x) = Inr (False, d, x)" using vc W(2) nv by (simp add: occ_commit_prepare_def del: ball_Un)
    moreover have "x\<lparr>oc_locks := oc_locks x, oc_verified := False\<rparr> = x" using nv by (cases x) simp
    ultimately have "occ_commit_prepare (d, x) = Inr (False, d, x\<lparr>oc_locks := oc_locks x, oc_verified := False\<rparr>)" by metis
    then show ?thesis using quiet_refl [OF inv(1)] inv(2) W(14) others_keep_refl by blast
  next
    case True
    have tabs: "\<forall>e \<in> set ?vr. in_table (fst (fst e)) d" "\<forall>e \<in> set ?vw. in_table (fst (fst e)) d" using W(12) by (auto simp: db_readable_def)
    have lk: "\<exists>b d'. rlock_row_by tid p d = Inr (b, d') \<and> quiet d d' \<and> locks_ok d' \<and> others_keep tid d d' \<and> refs d' = refs d \<and> (b \<longrightarrow> holds d' tid p) \<and>
      (\<forall>q. holds d tid q \<longrightarrow> holds d' tid q) \<and> (\<forall>q. holds d tid q \<longrightarrow> holds d' tid q)" if "db_inv d" "in_table p d" "locks_ok d" for d p
      using lock_one_spec(1) [OF that, of tid] by simp
    obtain b1 d1 ls1 where d1: "lock_rows rlock_row_by tid ?vr (d, oc_locks x) = Inr (b1, d1, ls1)" "quiet d d1" "locks_ok d1"
      "others_keep tid d d1" "refs d1 = refs d" "b1 \<longrightarrow> (\<forall>e \<in> set ?vr. holds d1 tid (fst (fst e)))" "\<forall>l \<in> set ls1. in_table (fst l) d"
      using lock_rows_spec [of rlock_row_by tid "\<lambda>d p. holds d tid p", OF lk inv W(14) tabs(1)] by blast
    note q1 = quietD [OF d1(2)]
    have pre: "\<forall>p. d_kind d1 p = ROW_VERSIONED" "\<forall>l \<in> set ls1. in_table (fst l) d1" "\<forall>e \<in> set ?vw. in_table (fst (fst e)) d1"
      using q1(5,6) inv(3) d1(7) tabs(2) by simp_all
    obtain b2 d2 ls2 where d2: "lock_rows wlock_row_by tid ?vw (d1, ls1) = Inr (b2, d2, ls2)" "quiet d1 d2" "locks_ok d2"
      "others_keep tid d1 d2" "refs d2 = refs d1" "\<forall>l \<in> set ls2. in_table (fst l) d1"
      "b2 \<longrightarrow> (\<forall>e \<in> set ?vw. holds_w d2 tid (fst (fst e))) \<and> (\<forall>q. holds d1 tid q \<longrightarrow> holds d2 tid q)"
      using lock_rows_spec [of wlock_row_by tid "\<lambda>d p. holds_w d tid p" d1 ls1 ?vw] lock_one_spec(2) q1(1) d1(3) pre by blast
    have tot: "quiet d d2" "others_keep tid d d2" using quiet_trans [OF d1(2) d2(2)] others_keep_trans [OF d1(4) d2(4)] by simp_all
    show ?thesis
    proof (cases b1)
      case False
      then have "occ_commit_prepare (d, x) = Inr (False, d1, x\<lparr>oc_locks := ls1\<rparr>)" using True d1(1) vc W(1,2) nv by (simp add: occ_commit_prepare_def)
      then show ?thesis using d1 same by (intro exI [of _ False] exI [of _ d1] exI [of _ ls1]) simp
    next
      case b1: True
      then have "occ_commit_prepare (d, x) = Inr (b2, d2, x\<lparr>oc_locks := ls2, oc_verified := b2\<rparr>)"
        using d1(1) d2(1) True vc W(1,2) nv same by (cases b2) (simp_all add: occ_commit_prepare_def)
      moreover have "b2 \<longrightarrow> txn_locked d2 (tid, x\<lparr>oc_locks := ls2, oc_verified := True\<rparr>)"
        using True d1(6) b1 d2(7) quietD(4) [OF tot(1)] by (simp add: txn_locked_def)
      ultimately show ?thesis using tot d1(5) d2(3,5,6) q1(5) by (intro exI [of _ b2] exI [of _ d2] exI [of _ ls2]) simp
    qed
  qed
qed

lemma do_prepare_spec:
  assumes inv: "sys_inv d0 sys" and x: "map_of (sy_txns sys) tid = Some x" and nv: "\<not> oc_verified x"
  shows "\<exists>b sys'. do_prepare tid sys = Inr (b, sys') \<and> sys_inv d0 sys'"
proof -
  note D = sys_invD [OF inv x]
  obtain b d' ls where r: "occ_commit_prepare (sy_db sys, x) = Inr (b, d', x\<lparr>oc_locks := ls, oc_verified := b\<rparr>)" "quiet (sy_db sys) d'"
    "others_keep tid (sy_db sys) d'" "locks_ok d'" "refs d' = refs (sy_db sys)" "\<forall>l \<in> set ls. in_table (fst l) (sy_db sys)"
    "b \<longrightarrow> txn_locked d' (tid, x\<lparr>oc_locks := ls, oc_verified := True\<rparr>)"
    using occ_commit_prepare_spec [OF D(1,4,3,7) nv] by blast
  let ?sys = "sys\<lparr>sy_db := d', sy_txns := upd_txn tid (x\<lparr>oc_locks := ls, oc_verified := b\<rparr>) (sy_txns sys)\<rparr>"
  have "do_prepare tid sys = Inr (b, ?sys)" using x r(1) by (simp add: do_prepare_def)
  moreover have "sys_inv d0 ?sys" using prepare_step [OF inv x r(2-7)] .
  ultimately show ?thesis by blast
qed

text \<open>A prepared transaction commits: what it read is current, so its accesses replay on the contents; and
  its locks keep the other transactions clear of the columns it changes.\<close>

lemma commit_replay:
  assumes "txn_ok d tr (tid, x)" and "oc_verified x"
  shows "replay (tr tid) (db_val d) = Some (overlay (sg_updates x) (db_val d))"
proof -
  obtain E where E: "observed d (oc_ver_read x) E" "\<forall>m. fits E m \<longrightarrow> replay (tr tid) m = Some (overlay (sg_updates x) m)"
    using assms(1) by (auto simp: txn_ok_def txn_reads_def)
  have "\<forall>v \<in> set (oc_ver_read x). d_ver d (fst (fst v)) (snd (fst v)) = snd v" using assms by (simp add: txn_ok_def txn_locked_def)
  then have "fits E (db_val d)" using E(1) unfolding observed_def fits_def by fastforce
  then show ?thesis using E(2) by blast
qed

lemma commit_others:
  assumes l: "locks_ok d" and x: "txn_wf d (tid, x)" "txn_locked d (tid, x)" "oc_verified x" and e: "fst e \<noteq> tid" "txn_ok d tr e"
    and d2: "same_shape d d2" "d_lock d2 = d_lock d" "db_val d2 = overlay (sg_updates x) (db_val d)"
      "d_ver d2 = (\<lambda>p c. if (p, c) \<in> set (upd_keys (sg_updates x)) then d_ver d p c + 1 else d_ver d p c)"
  shows "txn_ok d2 tr e"
proof -
  have hold: "holds d2 = holds d" "holds_w d2 = holds_w d" using d2(2) by (simp_all add: holds_def holds_w_def fun_eq_iff)
  have free: "\<not> holds d (fst e) p" if p: "(p, c) \<in> set (upd_keys (sg_updates x))" for p c
  proof -
    obtain v where "v \<in> set (oc_ver_write x)" "fst v = (p, c)" using txn_wfD(13) [OF x(1)] p by fastforce
    then have "holds_w d tid p" using x(2,3) by (auto simp: txn_locked_def)
    then show ?thesis using holds_excl [OF l] e(1) by blast
  qed
  have vers: "txn_vers d e" "txn_locked d e" and rd: "txn_reads d (tr (fst e)) e" using e(2) by (simp_all add: txn_ok_def)
  have "txn_vers d2 e" using vers(1) d2(4) by (auto simp: txn_vers_def)
  moreover have "txn_locked d2 e" using vers(2) free d2(4) hold by (auto simp: txn_locked_def)
  moreover have "observed d2 (oc_ver_read (snd e)) E" if E: "observed d (oc_ver_read (snd e)) E" for E
  proof -
    have "d_ver d2 p c = n \<longrightarrow> db_val d2 p c = w"
      if n: "((p, c), n) \<in> set (oc_ver_read (snd e))" "d_ver d p c = n \<longrightarrow> db_val d p c = w" for p c n w
    proof
      assume n2: "d_ver d2 p c = n"
      have "n \<le> d_ver d p c" using vers(1) n(1) by (force simp: txn_vers_def)
      then have k: "(p, c) \<notin> set (upd_keys (sg_updates x))" using n2 d2(4) by auto
      then have "upd_find p c (sg_updates x) = None" using upd_find_None by blast
      then show "db_val d2 p c = w" using n(2) n2 k d2(3,4) by (simp add: overlay_at)
    qed
    then show ?thesis using E unfolding observed_def by blast
  qed
  then have "txn_reads d2 (tr (fst e)) e" using rd unfolding txn_reads_def by blast
  ultimately show ?thesis using e(2) txn_wf_shape [OF d2(1)] by (simp add: txn_ok_def)
qed

lemma do_commit_spec:
  assumes inv: "sys_inv d0 sys" and x: "map_of (sy_txns sys) tid = Some x" and v: "oc_verified x"
  shows "\<exists>sys'. do_commit tid sys = Inr sys' \<and> sys_inv d0 sys'"
proof -
  let ?d = "sy_db sys" and ?x = "x\<lparr>sg_outcome := TXN_COMMIT\<rparr>"
  note D = sys_invD [OF inv x] and W = txn_wfD [OF sys_invD(7) [OF inv x]]
  obtain d2 where d2: "occ_updates OCC_LAZY (sg_updates x) ?d = Inr d2" "db_inv d2" "same_shape ?d d2" "d_lock d2 = d_lock ?d" "refs d2 = refs ?d"
    "db_val d2 = overlay (sg_updates x) (db_val ?d)"
    "d_ver d2 = (\<lambda>p c. if (p, c) \<in> set (upd_keys (sg_updates x)) then d_ver ?d p c + 1 else d_ver ?d p c)"
    using occ_updates_spec [OF D(1,3) W(7)] by blast
  have sh: "in_table p d2 = in_table p ?d" "d_kind d2 = d_kind ?d" for p using same_shapeD(3,6) [OF d2(3)] by simp_all
  obtain d' x' where d': "occ_release_resource (d2, ?x) = Inr (d', x')" "quiet d2 d'" "others_keep tid d2 d'" "locks_ok d'"
    "\<forall>p. refs d' p + uses p x = refs ?d p"
    using occ_release_spec [OF d2(2), of ?x] d2(4,5) D(3,4) W(1,8,9,14) accessed_refs [OF inv x] sh by (auto simp: locks_ok_def uses_def)
  note Q = quietD [OF d'(2)]
  let ?sys = "sys\<lparr>sy_db := d', sy_txns := del_txn tid (sy_txns sys), sy_log := sy_log sys @ [sy_trace sys tid]\<rparr>"
  have run: "do_commit tid sys = Inr ?sys" using x v W(2,3,4,6) d2(1) d'(1) by (simp add: do_commit_def occ_commit_confirm_def)
  have "txn_locked ?d (tid, x)" using D(6) by (simp add: txn_ok_def)
  then have "txn_ok d' (sy_trace sys) e" if e: "e \<in> set (sy_txns sys)" "fst e \<noteq> tid" for e
    using commit_others [OF D(4,7) _ v e(2) _ d2(3,4,6,7)] txn_ok_quiet [OF d'(2,3) e(2)] inv e(1) by (simp add: sys_inv_def)
  moreover have "users p (del_txn tid (sy_txns sys)) < refs d' p" if "in_table p d0" for p
  proof -
    have "users p (sy_txns sys) < refs ?d p" using inv that by (simp add: sys_inv_def)
    then show ?thesis using users_del [OF D(5) x, of p] d'(5) [rule_format, of p] by linarith
  qed
  moreover have "replay (concat (sy_log ?sys)) (db_val d0) = Some (db_val d')"
    using inv commit_replay [OF D(6) v] d2(6) Q(3) by (simp add: replay_append sys_inv_def)
  ultimately have "sys_inv d0 ?sys"
    using D d'(4) Q(1,6) sh(2) same_shape_trans [OF D(2) same_shape_trans [OF d2(3) Q(2)]] by (simp add: sys_inv_def)
  then show ?thesis using run by blast
qed

lemma handle_spec:
  assumes "keeps_first iim" and "sys_inv d0 sys" and "legal_req d0 r"
  shows "\<exists>sys'. handle OCC_LAZY iim r sys = Inr sys' \<and> sys_inv d0 sys'"
proof (cases r)
  case (ReqRead tid p c)
  obtain x sys1 where g: "get_txn OCC_LAZY tid sys = (x, sys1)" "sys_inv d0 sys1" "map_of (sy_txns sys1) tid = Some x"
    using get_txn_spec [OF assms(2)] by blast
  show ?thesis using occ_read_spec [OF assms(1) g(2,3), of p c] g assms(3) ReqRead by (cases "oc_verified x") auto
next
  case (ReqWrite tid p c v)
  obtain x sys1 where g: "get_txn OCC_LAZY tid sys = (x, sys1)" "sys_inv d0 sys1" "map_of (sy_txns sys1) tid = Some x"
    using get_txn_spec [OF assms(2)] by blast
  show ?thesis using occ_write_spec [OF assms(1) g(2,3), of p c v] g assms(3) ReqWrite by (cases "oc_verified x") auto
next
  case (ReqPrepare tid)
  then show ?thesis using do_prepare_spec [OF assms(2), of tid] assms(2) by (auto split: option.split)
next
  case (ReqCommit tid)
  then show ?thesis using do_commit_spec [OF assms(2), of tid] assms(2) by (auto split: option.split)
next
  case (ReqAbort tid)
  then show ?thesis using do_abort_spec [OF assms(2), of tid] assms(2) by (auto split: option.split)
qed

lemma serve_spec:
  "keeps_first iim \<Longrightarrow> sys_inv d0 sys \<Longrightarrow> list_all (legal_req d0) rs \<Longrightarrow> \<exists>sys'. serve OCC_LAZY iim rs sys = Inr sys' \<and> sys_inv d0 sys'"
proof (induction rs arbitrary: sys)
  case (Cons r rs)
  obtain sys1 where s: "handle OCC_LAZY iim r sys = Inr sys1" "sys_inv d0 sys1" using handle_spec [of iim d0 sys r] Cons.prems by auto
  then show ?case using Cons.IH [OF Cons.prems(1) s(2)] Cons.prems(3) by simp
qed simp

section \<open>Serializability\<close>

text \<open>A database as a server starts with it: versioned rows in tables, and no row locked.\<close>

definition server_db :: "db \<Rightarrow> bool" where
  "server_db d \<longleftrightarrow> db_inv d \<and> (\<forall>p. d_kind d p = ROW_VERSIONED) \<and> locks_ok d"

lemma new_server_inv: "server_db d \<Longrightarrow> sys_inv d (new_server d)"
proof -
  assume d: "server_db d"
  have "0 < refs d p" if p: "in_table p d" for p
  proof -
    obtain c t tab k where "cell_at (d_heap d) p = Inr c" "(k, p) \<in> set (t_rows tab)" "table_inv (row_schema p d) (d_heap d, tab)"
      using in_tableD [of d p] d p unfolding server_db_def by blast
    then show ?thesis using entry_okD [OF table_invD(1), of "row_schema p d" "d_heap d" tab "(k, p)"] by (auto simp: refs_def)
  qed
  then show ?thesis using d by (simp add: sys_inv_def new_server_def server_db_def users_def)
qed


definition first_kept :: ver_ins where
  "first_kept k n m = (if k \<in> fst ` set m then m else (k, n) # m)"

lemma first_kept: "keeps_first first_kept"
proof -
  have "map_of (first_kept k n m) = (if map_of m k = None then (map_of m)(k \<mapsto> n) else map_of m)" for k n m
    by (simp add: first_kept_def map_of_eq_None_iff)
  then show ?thesis by (auto simp: keeps_first_def first_kept_def)
qed

text \<open>Two transactions that read what the other writes.\<close>

definition skew_history :: "request list" where
  "skew_history = [ReqRead 1 0 2, ReqWrite 1 1 2 (I64 6), ReqRead 2 1 2, ReqPrepare 1, ReqCommit 1,
     ReqWrite 2 0 2 (I64 5), ReqPrepare 2, ReqCommit 2]"


text \<open>C36. With the eager policy, the default of \<^verbatim>\<open>TxnOCC\<close>, a version changes at the first write and not at
  the commit, so a transaction that reads between the two passes the check with the old value: both of
  two transactions that read what the other writes commit, and neither order of them explains the
  values they read.\<close>

theorem occ_eager_write_skew:
  "keeps_first first_kept \<and> (\<exists>sys t1 t2. serve OCC_EAGER first_kept skew_history (new_server demo_db) = Inr sys \<and> sy_log sys = [t1, t2] \<and>
     replay (t1 @ t2) (db_val demo_db) = None \<and> replay (t2 @ t1) (db_val demo_db) = None)"
proof -
  have "map_sum id sy_log (serve OCC_EAGER first_kept skew_history (new_server demo_db)) =
      Inr [[AccR 0 2 (I64 100), AccW 1 2 (I64 6)], [AccR 1 2 (I64 200), AccW 0 2 (I64 5)]]"
    by code_simp
  moreover have "db_val demo_db 0 2 = I64 100" "db_val demo_db 1 2 = I64 200" by code_simp+
  ultimately show ?thesis using first_kept
    by (cases "serve OCC_EAGER first_kept skew_history (new_server demo_db)") (auto simp: store_val_def)
qed

end
