(* ===== verification/Rcc_Server.thy ===== *)
theory Rcc_Server
  imports Graph_Order Graph_Union Mdb_Value
begin

text \<open>
  A server in the dependency-tracking mode (\<^verbatim>\<open>deptran/rcc_service.cc\<close>, \<^verbatim>\<open>deptran/dtxn.cc\<close>,
  \<^verbatim>\<open>deptran/dtxn.h\<close>). A start request runs a piece and records, through the dependency entries of the
  columns it touches, the edges of the transaction graph. A finish request merges the graph the client
  has collected and then waits: first until every uncommitted ancestor is known to have finished, then
  until the nearest ancestors of its strongly connected component have committed; then the component
  is executed in the order of \<^verbatim>\<open>sorted_scc\<close>.

  The code waits by callbacks: a \<^verbatim>\<open>DragonBall\<close> counts triggers and runs its callback inside the last of
  them, which may trigger other balls in turn. The model is a machine with a stack of frames, one frame
  for each suspended piece of code, so that calls happen in the order in which the code makes them.

  \<^verbatim>\<open>DragonBall\<close> belongs to a library outside the repository: when a ball runs its callback is the
  parameter \<open>en_fires\<close> (needed triggers, triggers so far). The registered procedures
  (\<^verbatim>\<open>TxnRegistry::all_\<close>) are parameters as well: what they return, which dependency entries they touch,
  and what they do to the database. Logging and statistics are left out, and the clients of the other
  servers are the \<open>Asked\<close> entries of the output.
\<close>

section \<open>Environment and state\<close>

record request_header =
  hd_t_type :: i32
  hd_p_type :: i32
  hd_tid :: uint64
  hd_cid :: uint32
  hd_pid :: uint64

datatype defer_t = DF_REAL | DF_NO | DF_FAKE

text \<open>A dependency entry is one column of a row (\<^verbatim>\<open>DepRow::get_dep_entry\<close>).\<close>

type_synonym dep_entry = "nat \<times> nat"

record 'd rcc_env =
  en_site :: uint32
  en_fires :: "nat \<Rightarrow> nat \<Rightarrow> bool"
  en_defer :: "i32 \<times> i32 \<Rightarrow> defer_t option"
  en_start :: "request_header \<Rightarrow> mvalue list \<Rightarrow> 'd \<Rightarrow> mvalue list \<times> (dep_entry \<times> bool) list \<times> 'd"
  en_finish :: "request_header \<Rightarrow> mvalue list \<Rightarrow> 'd \<Rightarrow> mvalue list \<times> 'd"
  en_readonly :: "request_header \<Rightarrow> mvalue list \<Rightarrow> 'd \<Rightarrow> mvalue list \<times> dep_entry list \<times> 'd"

text \<open>The callbacks a ball can hold; a reply that is delayed is an identifier.\<close>

datatype rcc_cb = CbAncFinish vptr "nat option" | CbSccCommit vptr "nat option" | CbSubGraph uint64 nat | CbReadOnly nat

text \<open>A ball with the number of triggers it needs, the number it has got, and its callback. What the ball
  was made to wait for, a status of some transactions, is kept beside it for the statements below; the
  code has it only in the events of the transactions.\<close>

record ball_rec =
  bl_need :: nat
  bl_count :: nat
  bl_live :: bool
  bl_cb :: rcc_cb
  bl_level :: int8
  bl_waits :: "vptr list"

datatype rcc_out =
    Replied nat
  | Asked uint32 uint64
  | Executed uint64 "(request_header \<times> mvalue list) list"
  | Committed vptr
  | StartReply nat bool "mvalue list" "vptr list"
  | SubGraphReply nat "vptr list"

record 'd rcc_server =
  sv_heap :: txn_heap
  sv_gra :: graph
  sv_pies :: "pie_info heap"
  sv_balls :: "ball_rec list"
  sv_entries :: "dep_entry \<Rightarrow> vptr option"
  sv_deferred :: "(uint64 \<times> (request_header \<times> mvalue list) list) list"
  sv_db :: 'd
  sv_out :: "rcc_out list"

definition new_rcc_server :: "'d \<Rightarrow> 'd rcc_server" where
  "new_rcc_server d = \<lparr>sv_heap = [], sv_gra = empty_graph, sv_pies = [], sv_balls = [], sv_entries = (\<lambda>_. None), sv_deferred = [],
     sv_db = d, sv_out = []\<rparr>"

definition emit :: "rcc_out \<Rightarrow> 'd rcc_server \<Rightarrow> 'd rcc_server" where
  "emit x s = s\<lparr>sv_out := sv_out s @ [x]\<rparr>"

definition upd_info :: "vptr \<Rightarrow> (txn_info \<Rightarrow> txn_info) \<Rightarrow> 'd rcc_server \<Rightarrow> 'd rcc_server" where
  "upd_info v f s = s\<lparr>sv_heap := upd_vertex v (\<lambda>x. x\<lparr>vdata := f (vdata x)\<rparr>) (sv_heap s)\<rparr>"

definition info_at :: "vptr \<Rightarrow> 'd rcc_server \<Rightarrow> txn_info res" where
  "info_at v s = (case deref (sv_heap s) v of None \<Rightarrow> Inl BadPointer | Some x \<Rightarrow> Inr (vdata x))"

section \<open>Pieces\<close>

definition EDGE_D :: int8 where "EDGE_D = 0x1"
definition EDGE_I :: int8 where "EDGE_I = 0x2"

text \<open>\<^verbatim>\<open>entry_t::touch\<close>: the entry keeps the first transaction that touched it.\<close>

definition touch :: "vptr \<Rightarrow> dep_entry \<times> bool \<Rightarrow> 'd rcc_server \<Rightarrow> 'd rcc_server" where
  "touch tv e s =
     (let edge_type = (if snd e then EDGE_I else EDGE_D)
      in case sv_entries s (fst e) of
           Some l \<Rightarrow> s\<lparr>sv_heap := or_edge l tv edge_type (sv_heap s)\<rparr>
         | None \<Rightarrow> s\<lparr>sv_entries := (sv_entries s)(fst e := Some tv)\<rparr>)"

definition ro_touch :: "'d rcc_server \<Rightarrow> dep_entry \<Rightarrow> vptr list \<Rightarrow> vptr list" where
  "ro_touch s e conflicts = (case sv_entries s e of None \<Rightarrow> conflicts | Some l \<Rightarrow> conflicts @ [l])"

definition add_deferred :: "request_header \<Rightarrow> mvalue list \<Rightarrow> 'd rcc_server \<Rightarrow> 'd rcc_server" where
  "add_deferred hdr input s =
     s\<lparr>sv_deferred := AList.update (hd_tid hdr)
         ((case map_of (sv_deferred s) (hd_tid hdr) of None \<Rightarrow> [] | Some rs \<Rightarrow> rs) @ [(hdr, input)]) (sv_deferred s)\<rparr>"

definition exe_deptran_start ::
    "'d rcc_env \<Rightarrow> request_header \<Rightarrow> mvalue list \<Rightarrow> vptr \<Rightarrow> 'd rcc_server \<Rightarrow> (bool \<times> mvalue list \<times> 'd rcc_server) res" where
  "exe_deptran_start env hdr input tv s =
     (case en_defer env (hd_t_type hdr, hd_p_type hdr) of
        None \<Rightarrow> Inl VerifyFailed
      | Some df \<Rightarrow>
          let (outs, touches, d) = en_start env hdr input (sv_db s);
              s1 = (if df = DF_NO then s else add_deferred hdr input s);
              s2 = fold (touch tv) touches (s1\<lparr>sv_db := d\<rparr>)
          in Inr (df = DF_REAL, if df = DF_REAL then [] else outs, s2))"

text \<open>The deferred pieces of a transaction run when it commits. One stored procedure has a fixed size of
  its output.\<close>

definition TPCC_PAYMENT :: i32 where "TPCC_PAYMENT = 20"
definition TPCC_PAYMENT_4 :: i32 where "TPCC_PAYMENT_4 = 204"

fun run_deferred ::
    "'d rcc_env \<Rightarrow> uint64 \<Rightarrow> (request_header \<times> mvalue list) list \<Rightarrow> 'd \<Rightarrow> ((request_header \<times> mvalue list) list \<times> 'd) res" where
  "run_deferred env tid [] d = Inr ([], d)"
| "run_deferred env tid ((hdr, input) # reqs) d =
     verify (en_defer env (hd_t_type hdr, hd_p_type hdr) \<noteq> None \<and> hd_tid hdr = tid)
       (let (outp, d1) = en_finish env hdr input d
        in verify (\<not> (hd_p_type hdr = TPCC_PAYMENT_4 \<and> hd_t_type hdr = TPCC_PAYMENT) \<or> length outp = 15)
             (rbind (run_deferred env tid reqs d1) (\<lambda>(outs, d2). Inr ((hdr, outp) # outs, d2))))"

definition exe_deptran_finish :: "'d rcc_env \<Rightarrow> uint64 \<Rightarrow> 'd rcc_server \<Rightarrow> 'd rcc_server res" where
  "exe_deptran_finish env tid s =
     (case map_of (sv_deferred s) tid of
        None \<Rightarrow> Inr s
      | Some reqs \<Rightarrow> rbind (run_deferred env tid reqs (sv_db s))
          (\<lambda>(outs, d). Inr (emit (Executed tid outs) (s\<lparr>sv_db := d, sv_deferred := filter (\<lambda>e. fst e \<noteq> tid) (sv_deferred s)\<rparr>))))"

definition rcc_start_pie_job :: "'d rcc_env \<Rightarrow> request_header \<Rightarrow> mvalue list \<Rightarrow> nat \<Rightarrow> 'd rcc_server \<Rightarrow> 'd rcc_server res" where
  "rcc_start_pie_job env hdr input defer s =
     (let pi = \<lparr>pie_id = hd_pid hdr, pie_txn_id = hd_tid hdr, deferred = False, pie_type = hd_p_type hdr\<rparr>
      in rbind (start_pie (en_site env) pi True True (sv_pies s) (sv_heap s) (sv_gra s))
           (\<lambda>(pv, ph, tv, h, g).
              rbind (exe_deptran_start env hdr input tv (s\<lparr>sv_pies := ph, sv_heap := h, sv_gra := g\<rparr>))
                (\<lambda>(is_def, outs, s1).
                   rbind (sub_txn_graph (sv_heap s1) (sv_gra s1) (hd_tid hdr) [])
                     (\<lambda>(n, ret). Inr (emit (StartReply defer is_def outs ret) s1)))))"

section \<open>Waiting and committing\<close>

datatype frame =
    FinishToCommit vptr "nat option"
  | WaitFor bool int8 ball "vptr list"
  | AskFinish vptr
  | TriggerBall ball
  | TriggerEvents vptr int
  | Callback rcc_cb
  | Reply "nat option"
  | FinishRequest uint64 nat nat

definition new_ball :: "nat \<Rightarrow> rcc_cb \<Rightarrow> int8 \<Rightarrow> vptr list \<Rightarrow> 'd rcc_server \<Rightarrow> ball \<times> 'd rcc_server" where
  "new_ball n cb st ws s =
     (length (sv_balls s),
      s\<lparr>sv_balls := sv_balls s @ [\<lparr>bl_need = n, bl_count = 0, bl_live = True, bl_cb = cb, bl_level = st, bl_waits = ws\<rparr>]\<rparr>)"

text \<open>The keys of \<^verbatim>\<open>events_\<close> are at least -128.\<close>

definition trigger_frames :: "vptr list \<Rightarrow> frame list" where
  "trigger_frames vs = map (\<lambda>v. TriggerEvents v (-128)) vs"

definition finish_to_commit :: "'d rcc_env \<Rightarrow> vptr \<Rightarrow> nat option \<Rightarrow> 'd rcc_server \<Rightarrow> (frame list \<times> 'd rcc_server) res" where
  "finish_to_commit env v defer s =
     rbind (info_at v s)
       (\<lambda>ti. if during_commit ti then Inr ([], s)
             else let s1 = upd_info v (\<lambda>ti. ti\<lparr>during_commit := True\<rparr>) s
               in rbind (find_txn_anc_opt (sv_heap s1) v [])
                 (\<lambda>anc. let (b, s2) = new_ball (length anc + 1) (CbAncFinish v defer) TXN_FINISH anc s1
                        in Inr ([WaitFor True TXN_FINISH b anc], s2)))"

text \<open>The loops that register a ball with the events of some transactions, ask for those the server is
  not involved in, and give the ball the trigger of its own.\<close>

fun wait_for :: "bool \<Rightarrow> int8 \<Rightarrow> ball \<Rightarrow> vptr list \<Rightarrow> 'd rcc_server \<Rightarrow> (frame list \<times> 'd rcc_server) res" where
  "wait_for ask st b [] s = Inr ([TriggerBall b], s)"
| "wait_for ask st b (av # avs) s =
     rbind (info_at av s)
       (\<lambda>ti. Inr (map TriggerBall (fst (register_event st b ti)) @ (if ask then [AskFinish av] else []) @ [WaitFor ask st b avs],
                  upd_info av (\<lambda>ti. snd (register_event st b ti)) s))"

definition ask_finish :: "'d rcc_env \<Rightarrow> vptr \<Rightarrow> 'd rcc_server \<Rightarrow> (frame list \<times> 'd rcc_server) res" where
  "ask_finish env av s =
     rbind (info_at av s)
       (\<lambda>ti. if is_involved (en_site env) ti then Inr ([], s)
             else if is_commit ti then Inr ([], s)
             else if is_finish ti then Inr ([FinishToCommit av None], s)
             else if during_asking ti then Inr ([], s)
             else rbind (random_server 0 ti)
               (\<lambda>sid. Inr ([], emit (Asked sid (txn_id ti)) (upd_info av (\<lambda>ti. ti\<lparr>during_asking := True\<rparr>) s))))"

definition trigger_ball :: "'d rcc_env \<Rightarrow> ball \<Rightarrow> 'd rcc_server \<Rightarrow> (frame list \<times> 'd rcc_server) res" where
  "trigger_ball env b s =
     (if b < length (sv_balls s) \<and> bl_live (sv_balls s ! b)
      then let r = sv_balls s ! b; r1 = r\<lparr>bl_count := bl_count r + 1\<rparr>
        in if en_fires env (bl_need r) (bl_count r1)
           then Inr ([Callback (bl_cb r)], s\<lparr>sv_balls := (sv_balls s)[b := r1\<lparr>bl_live := False\<rparr>]\<rparr>)
           else Inr ([], s\<lparr>sv_balls := (sv_balls s)[b := r1]\<rparr>)
      else Inl BadPointer)"

text \<open>One round of the loops of \<^verbatim>\<open>TxnInfo::trigger\<close>, at the keys from \<open>k\<close> on.\<close>

definition trigger_events :: "vptr \<Rightarrow> int \<Rightarrow> 'd rcc_server \<Rightarrow> (frame list \<times> 'd rcc_server) res" where
  "trigger_events v k s =
     rbind (info_at v s)
       (\<lambda>ti. case filter (\<lambda>e. k \<le> fst e) (events ti) of
          [] \<Rightarrow> Inr ([], s)
        | (k1, bs) # es \<Rightarrow>
            if k1 \<le> sint (status ti) \<and> bs \<noteq> []
            then Inr ([TriggerBall (last bs), TriggerEvents v k1],
                      upd_info v (\<lambda>ti. ti\<lparr>events := om_put k1 (butlast bs) (events ti)\<rparr>) s)
            else Inr ([TriggerEvents v (k1 + 1)], s))"

text \<open>The members of a component, in their order: a member that no other server has committed is
  executed and committed.\<close>

fun commit_scc :: "'d rcc_env \<Rightarrow> vptr list \<Rightarrow> 'd rcc_server \<Rightarrow> 'd rcc_server res" where
  "commit_scc env [] s = Inr s"
| "commit_scc env (vv # vvs) s =
     rbind (info_at vv s)
       (\<lambda>ti. if is_commit ti then commit_scc env vvs s
             else rbind (if res_ptr ti \<noteq> None then exe_deptran_finish env (txn_id ti) s else Inr s)
               (\<lambda>s1. verify (\<not> committed ti)
                  (commit_scc env vvs (emit (Committed vv)
                    (upd_info vv (\<lambda>ti. snd (union_status (en_site env) TXN_COMMIT False False (ti\<lparr>committed := True\<rparr>))) s1)))))"

fun callback :: "'d rcc_env \<Rightarrow> rcc_cb \<Rightarrow> 'd rcc_server \<Rightarrow> (frame list \<times> 'd rcc_server) res" where
  "callback env (CbAncFinish v defer) s =
     (let scc_anc = find_txn_scc_nearest_anc (sv_heap s) v [];
          (b, s1) = new_ball (length scc_anc + 1) (CbSccCommit v defer) TXN_COMMIT scc_anc s
      in Inr ([WaitFor True TXN_COMMIT b scc_anc], s1))"
| "callback env (CbSccCommit v defer) s =
     rbind (info_at v s)
       (\<lambda>ti. if is_commit ti then Inr ([Reply defer], s)
             else rbind (sorted_scc (id_of txn_id (sv_heap s)) (sv_heap s) v)
               (\<lambda>sscc. rbind (commit_scc env sscc s) (\<lambda>s1. Inr (trigger_frames sscc @ [Reply defer], s1))))"
| "callback env (CbSubGraph tid defer) s =
     rbind (sub_txn_graph (sv_heap s) (sv_gra s) tid []) (\<lambda>(n, ret). Inr ([], emit (SubGraphReply defer ret) s))"
| "callback env (CbReadOnly defer) s = Inr ([], emit (Replied defer) s)"

text \<open>The part of a finish request after the merge of the graph.\<close>

definition finish_request :: "'d rcc_env \<Rightarrow> uint64 \<Rightarrow> nat \<Rightarrow> nat \<Rightarrow> 'd rcc_server \<Rightarrow> (frame list \<times> 'd rcc_server) res" where
  "finish_request env tid res defer s =
     (case gfind (sv_gra s) tid of
        None \<Rightarrow> Inl VerifyFailed
      | Some v \<Rightarrow> Inr ([TriggerEvents v (-128), FinishToCommit v (Some defer)],
          upd_info v (\<lambda>ti. snd (union_status (en_site env) TXN_FINISH False False (ti\<lparr>res_ptr := Some res\<rparr>))) s))"

fun rcc_step :: "'d rcc_env \<Rightarrow> frame \<Rightarrow> 'd rcc_server \<Rightarrow> (frame list \<times> 'd rcc_server) res" where
  "rcc_step env (FinishToCommit v defer) s = finish_to_commit env v defer s"
| "rcc_step env (WaitFor ask st b avs) s = wait_for ask st b avs s"
| "rcc_step env (AskFinish av) s = ask_finish env av s"
| "rcc_step env (TriggerBall b) s = trigger_ball env b s"
| "rcc_step env (TriggerEvents v k) s = trigger_events v k s"
| "rcc_step env (Callback cb) s = callback env cb s"
| "rcc_step env (Reply defer) s = Inr ([], case defer of None \<Rightarrow> s | Some d \<Rightarrow> emit (Replied d) s)"
| "rcc_step env (FinishRequest tid res defer) s = finish_request env tid res defer s"

section \<open>Requests\<close>

text \<open>The merge of a received graph \<open>gra\<close>, whose vertices are in the heap: \<^verbatim>\<open>union_graph\<close> up to the
  triggers, which are frames.\<close>

definition merge_received :: "'d rcc_env \<Rightarrow> graph \<Rightarrow> 'd rcc_server \<Rightarrow> (frame list \<times> 'd rcc_server) res" where
  "merge_received env gra s =
     verify (gsize gra > 0)
       (rbind (union_vertices (en_site env) True (vertex_index gra) (sv_heap s) (sv_gra s) [])
         (\<lambda>(h, g, new_vs). Inr (trigger_frames new_vs, s\<lparr>sv_heap := h, sv_gra := g\<rparr>)))"

definition rcc_finish_txn ::
    "'d rcc_env \<Rightarrow> uint64 \<Rightarrow> graph \<Rightarrow> nat \<Rightarrow> nat \<Rightarrow> 'd rcc_server \<Rightarrow> (frame list \<times> 'd rcc_server) res" where
  "rcc_finish_txn env tid gra res defer s =
     rbind (merge_received env gra s) (\<lambda>(fs, s1). Inr (fs @ [FinishRequest tid res defer], s1))"

text \<open>The reply to a request that was asked of another server about the transaction of \<open>av\<close>.\<close>

definition ask_reply :: "'d rcc_env \<Rightarrow> vptr \<Rightarrow> graph \<Rightarrow> 'd rcc_server \<Rightarrow> (frame list \<times> 'd rcc_server) res" where
  "ask_reply env av gra s = rbind (merge_received env gra s) (\<lambda>(fs, s1). Inr (fs @ [FinishToCommit av None], s1))"

definition rcc_ask_txn :: "'d rcc_env \<Rightarrow> uint64 \<Rightarrow> nat \<Rightarrow> 'd rcc_server \<Rightarrow> (frame list \<times> 'd rcc_server) res" where
  "rcc_ask_txn env tid defer s =
     (case gfind (sv_gra s) tid of
        None \<Rightarrow> Inl BadPointer
      | Some v \<Rightarrow> rbind (info_at v s)
          (\<lambda>ti. verify (is_involved (en_site env) ti)
             (let (b, s1) = new_ball 2 (CbSubGraph tid defer) TXN_FINISH [v] s
              in Inr ([WaitFor False TXN_FINISH b [v]], s1))))"

definition rcc_ro_start_pie ::
    "'d rcc_env \<Rightarrow> request_header \<Rightarrow> mvalue list \<Rightarrow> nat \<Rightarrow> 'd rcc_server \<Rightarrow> (frame list \<times> 'd rcc_server) res" where
  "rcc_ro_start_pie env hdr input defer s =
     (if en_defer env (hd_t_type hdr, hd_p_type hdr) = None then Inl VerifyFailed
      else let (outs, es, d) = en_readonly env hdr input (sv_db s);
               conflicts = fold (ro_touch s) es [];
               (b, s1) = new_ball (length conflicts + 1) (CbReadOnly defer) TXN_COMMIT conflicts (s\<lparr>sv_db := d\<rparr>)
           in Inr ([WaitFor False TXN_COMMIT b conflicts], s1))"

end
