(* ===== verification/Rcc_Safety.thy ===== *)
theory Rcc_Safety
  imports Rcc_Server
begin

text \<open>
  The invariant of the dependency-tracking server. The configurations a server can reach are an inductive
  relation: requests arrive when no code is running, and the code runs frame by frame. In every reachable
  configuration a ball that still exists has got as many triggers as it needs less those it will still get
  from events and frames, a ball that is gone gets none, every transaction a ball waits for has reached
  the status or holds the ball in its events, and no transaction is committed twice.
\<close>

section \<open>Reachable configurations\<close>

text \<open>The vertices of a received graph are fresh: they come with an id, a status and servers, and refer
  to each other only.\<close>

definition fresh_info :: "txn_info \<Rightarrow> bool" where
  "fresh_info ti \<longleftrightarrow> events ti = [] \<and> \<not> committed ti \<and> status_ok (status ti)"

definition fresh_cell :: "nat \<Rightarrow> nat \<Rightarrow> txn_info vertex option \<Rightarrow> bool" where
  "fresh_cell lo hi c \<longleftrightarrow> (case c of None \<Rightarrow> True
     | Some x \<Rightarrow> fresh_info (vdata x) \<and> list_all (\<lambda>e. lo \<le> fst e \<and> fst e < hi) (vto x))"

definition received :: "txn_heap \<Rightarrow> txn_heap \<Rightarrow> graph \<Rightarrow> bool" where
  "received h cells gra \<longleftrightarrow> list_all (fresh_cell (length h) (length h + length cells)) cells \<and>
     list_all (\<lambda>v. length h \<le> v \<and> v < length h + length cells) (vertex_index gra)"

inductive rcc_reach :: "'d rcc_env \<Rightarrow> 'd \<Rightarrow> frame list \<Rightarrow> 'd rcc_server \<Rightarrow> bool" for env d where
  init: "rcc_reach env d [] (new_rcc_server d)"
| run: "rcc_reach env d (f # fs) s \<Longrightarrow> rcc_step env f s = Inr (gs, s') \<Longrightarrow> rcc_reach env d (gs @ fs) s'"
| start: "rcc_reach env d [] s \<Longrightarrow> rcc_start_pie_job env hdr input defer s = Inr s' \<Longrightarrow> rcc_reach env d [] s'"
| finish: "rcc_reach env d [] s \<Longrightarrow> received (sv_heap s) cells gra \<Longrightarrow>
    rcc_finish_txn env tid gra res defer (s\<lparr>sv_heap := sv_heap s @ cells\<rparr>) = Inr (fs, s') \<Longrightarrow> rcc_reach env d fs s'"
| answer: "rcc_reach env d [] s \<Longrightarrow> received (sv_heap s) cells gra \<Longrightarrow>
    ask_reply env av gra (s\<lparr>sv_heap := sv_heap s @ cells\<rparr>) = Inr (fs, s') \<Longrightarrow> rcc_reach env d fs s'"
| ask: "rcc_reach env d [] s \<Longrightarrow> rcc_ask_txn env tid defer s = Inr (fs, s') \<Longrightarrow> rcc_reach env d fs s'"
| read_only: "rcc_reach env d [] s \<Longrightarrow> rcc_ro_start_pie env hdr input defer s = Inr (fs, s') \<Longrightarrow> rcc_reach env d fs s'"

text \<open>What the code relies on of a \<^verbatim>\<open>DragonBall\<close>: it runs its callback at the trigger that makes their
  number the one it was made for.\<close>

definition counts_down :: "(nat \<Rightarrow> nat \<Rightarrow> bool) \<Rightarrow> bool" where
  "counts_down fires \<longleftrightarrow> (\<forall>n k. fires n k \<longleftrightarrow> k = n)"

section \<open>Waiting balls in the heap\<close>

definition txn_at :: "txn_heap \<Rightarrow> vptr \<Rightarrow> txn_info option" where
  "txn_at h v = map_option vdata (deref h v)"

definition queue_count :: "ball \<Rightarrow> txn_info option \<Rightarrow> nat" where
  "queue_count b i = (case i of None \<Rightarrow> 0 | Some ti \<Rightarrow> count (waiting ti) b)"

definition cnt :: "ball \<Rightarrow> txn_heap \<Rightarrow> nat" where
  "cnt b h = (\<Sum>v < length h. queue_count b (txn_at h v))"

definition node_ok :: "txn_info \<Rightarrow> bool" where
  "node_ok ti \<longleftrightarrow> om_inv (events ti) \<and> status_ok (status ti) \<and> (committed ti \<longrightarrow> is_commit ti)"

definition heap_ok :: "txn_heap \<Rightarrow> bool" where
  "heap_ok h \<longleftrightarrow> (\<forall>v ti. txn_at h v = Some ti \<longrightarrow> node_ok ti)"

lemma txn_at_beyond: "length h \<le> v \<Longrightarrow> txn_at h v = None"
  by (simp add: txn_at_def deref_def)

lemma txn_at_upd: "txn_at (upd_vertex v (\<lambda>x. x\<lparr>vdata := f (vdata x)\<rparr>) h) w = (if w = v then map_option f (txn_at h w) else txn_at h w)"
  by (simp add: txn_at_def deref_upd option.map_comp comp_def)

lemma txn_at_or_edge: "txn_at (or_edge a b r h) v = txn_at h v"
  by (simp add: txn_at_def vdata_or_edge)

lemma txn_at_new: "txn_at (snd (new_vertex ti h)) v = (if v = length h then Some ti else txn_at h v)"
  by (auto simp: txn_at_def deref_new)

lemma length_new: "length (snd (new_vertex ti h)) = Suc (length h)"
  by (simp add: new_vertex_def)

lemma txn_at_append: "txn_at (h @ cs) v = (if v < length h then txn_at h v else if v < length h + length cs then map_option vdata (cs ! (v - length h)) else None)"
  by (simp add: txn_at_def deref_def nth_append)

lemma cnt_upd:
  assumes "txn_at h v = Some ti"
  shows "cnt b (upd_vertex v (\<lambda>x. x\<lparr>vdata := f (vdata x)\<rparr>) h) + count (waiting ti) b = cnt b h + count (waiting (f ti)) b"
proof -
  let ?h = "upd_vertex v (\<lambda>x. x\<lparr>vdata := f (vdata x)\<rparr>) h"
  have v: "v < length h" using assms txn_at_beyond [of h v] by (cases "v < length h") auto
  have "cnt b ?h = queue_count b (txn_at ?h v) + (\<Sum>w \<in> {..<length h} - {v}. queue_count b (txn_at ?h w))"
    "cnt b h = queue_count b (txn_at h v) + (\<Sum>w \<in> {..<length h} - {v}. queue_count b (txn_at h w))"
    using v by (simp_all add: cnt_def sum.remove)
  moreover have "(\<Sum>w \<in> {..<length h} - {v}. queue_count b (txn_at ?h w)) = (\<Sum>w \<in> {..<length h} - {v}. queue_count b (txn_at h w))"
    by (rule sum.cong) (auto simp: txn_at_upd)
  ultimately show ?thesis using assms by (simp add: txn_at_upd queue_count_def)
qed

text \<open>Changes of the heap that touch no event: statuses grow and fresh vertices appear.\<close>

definition still_info :: "txn_info \<Rightarrow> txn_info \<Rightarrow> bool" where
  "still_info ti ti' \<longleftrightarrow> events ti' = events ti \<and> sint (status ti) \<le> sint (status ti') \<and> committed ti' = committed ti \<and> (node_ok ti \<longrightarrow> node_ok ti')"

definition still :: "txn_heap \<Rightarrow> txn_heap \<Rightarrow> bool" where
  "still h h' \<longleftrightarrow> length h \<le> length h' \<and> (\<forall>v < length h. rel_option still_info (txn_at h v) (txn_at h' v)) \<and>
     (\<forall>v \<ge> length h. \<forall>ti. txn_at h' v = Some ti \<longrightarrow> fresh_info ti)"

lemma still_info_refl [simp]: "still_info ti ti"
  by (simp add: still_info_def)

lemma still_info_trans: "still_info a b \<Longrightarrow> still_info b c \<Longrightarrow> still_info a c"
  by (auto simp: still_info_def)

lemma fresh_still: "fresh_info a \<Longrightarrow> still_info a b \<Longrightarrow> fresh_info b"
  by (auto simp: fresh_info_def still_info_def status_ok_def)

lemma fresh_node: "fresh_info ti \<Longrightarrow> node_ok ti"
  by (simp add: fresh_info_def node_ok_def)

lemma still_refl [simp]: "still h h"
  by (auto simp: still_def txn_at_beyond option.rel_refl)

lemma still_trans:
  assumes "still a b" and "still b c"
  shows "still a c"
proof -
  have "rel_option still_info (txn_at a v) (txn_at c v)" if "v < length a" for v
  proof -
    have "rel_option still_info (txn_at a v) (txn_at b v)" "rel_option still_info (txn_at b v) (txn_at c v)"
      using assms that by (auto simp: still_def)
    then show ?thesis by (cases "txn_at a v"; cases "txn_at b v"; cases "txn_at c v") (auto intro: still_info_trans)
  qed
  moreover have "fresh_info ti" if v: "length a \<le> v" "txn_at c v = Some ti" for v ti
  proof (cases "v < length b")
    case True
    then have "rel_option still_info (txn_at b v) (Some ti)" using assms(2) v(2) by (auto simp: still_def)
    then obtain ti' where "txn_at b v = Some ti'" "still_info ti' ti" by (cases "txn_at b v") auto
    then show ?thesis using assms(1) v(1) fresh_still by (auto simp: still_def)
  next
    case False
    then show ?thesis using assms(2) v(2) by (simp add: still_def not_less)
  qed
  ultimately show ?thesis using assms by (auto simp: still_def)
qed

lemma stillD:
  assumes "still h h'" and "txn_at h v = Some ti"
  shows "\<exists>ti'. txn_at h' v = Some ti' \<and> still_info ti ti'"
proof -
  have "v < length h" using assms(2) txn_at_beyond [of h v] by (cases "v < length h") auto
  then have "rel_option still_info (Some ti) (txn_at h' v)" using assms by (auto simp: still_def)
  then show ?thesis by (cases "txn_at h' v") auto
qed

lemma still_heap_ok: "still h h' \<Longrightarrow> heap_ok h \<Longrightarrow> heap_ok h'"
proof -
  assume a: "still h h'" "heap_ok h"
  have "node_ok ti'" if t: "txn_at h' v = Some ti'" for v ti'
  proof (cases "v < length h")
    case True
    then have "rel_option still_info (txn_at h v) (Some ti')" using a(1) t by (auto simp: still_def)
    then show ?thesis using a(2) by (cases "txn_at h v") (auto simp: heap_ok_def still_info_def)
  next
    case False
    then show ?thesis using a(1) t fresh_node by (simp add: still_def not_less)
  qed
  then show ?thesis by (simp add: heap_ok_def)
qed

lemma still_cnt: "still h h' \<Longrightarrow> cnt b h' = cnt b h"
proof -
  assume a: "still h h'"
  have "queue_count b (txn_at h' v) = queue_count b (txn_at h v)" if v: "v < length h" for v
  proof -
    have "rel_option still_info (txn_at h v) (txn_at h' v)" using a v by (auto simp: still_def)
    then show ?thesis by (cases "txn_at h v"; cases "txn_at h' v") (auto simp: queue_count_def still_info_def waiting_def)
  qed
  moreover have "queue_count b (txn_at h' v) = 0" if v: "length h \<le> v" for v
    using a v by (auto simp: queue_count_def still_def fresh_info_def waiting_def split: option.split)
  ultimately have "(\<Sum>v < length h'. queue_count b (txn_at h' v)) = (\<Sum>v < length h. queue_count b (txn_at h v))"
    using a by (intro sum.mono_neutral_cong_right) (auto simp: still_def)
  then show ?thesis by (simp add: cnt_def)
qed

lemma still_upd:
  "(\<And>ti. txn_at h v = Some ti \<Longrightarrow> still_info ti (f ti)) \<Longrightarrow> still h (upd_vertex v (\<lambda>x. x\<lparr>vdata := f (vdata x)\<rparr>) h)"
  by (auto simp: still_def txn_at_upd txn_at_beyond option.rel_map option.rel_refl intro: option.rel_refl_strong)

lemma still_new: "fresh_info ti \<Longrightarrow> still h (snd (new_vertex ti h))"
  by (auto simp: still_def txn_at_new length_new txn_at_beyond option.rel_refl split: if_splits)

lemma still_or_edge: "still h (or_edge a b r h)"
  by (auto simp: still_def txn_at_or_edge txn_at_beyond option.rel_refl)

section \<open>Starting a piece and merging a graph\<close>

lemma still_append: "received h cells gra \<Longrightarrow> still h (h @ cells)"
proof -
  assume r: "received h cells gra"
  have "fresh_info (vdata x)" if v: "length h \<le> v" "v < length h + length cells" "cells ! (v - length h) = Some x" for v x
  proof -
    have "v - length h < length cells" using v(1,2) by linarith
    then have "fresh_cell (length h) (length h + length cells) (cells ! (v - length h))" using r by (simp add: received_def list_all_length)
    then show ?thesis using v(3) by (simp add: fresh_cell_def)
  qed
  then show ?thesis by (auto simp: still_def txn_at_append txn_at_beyond option.rel_refl split: if_splits)
qed

text \<open>The vertices of the server's graph are in the heap before the received ones arrive.\<close>

definition gra_below :: "txn_heap \<Rightarrow> graph \<Rightarrow> bool" where
  "gra_below h g \<longleftrightarrow> (\<forall>i v. gfind g i = Some v \<longrightarrow> v < length h)"

lemma fresh_new: "fresh_info (set_txn_id new_txn_info tid)"
  by (simp add: fresh_info_def set_txn_id_def new_txn_info_def status_ok_def TXN_UNKNOWN_def)

lemma still_start_pie:
  assumes "start_pie site pi True True ph h g = Inr (pv, ph', tv, h', g')"
  shows "still h h' \<and> (gra_below h g \<longrightarrow> gra_below h' g')"
proof -
  obtain h1 where f: "foi_txn (pie_txn_id pi) h g = (tv, h1, g')" "h' = add_server site tv h1"
    using assms by (auto simp: start_pie_def Let_def split: prod.splits)
  have "still h h1" using f(1) still_new [OF fresh_new, of h]
    by (auto simp: foi_txn_def find_or_insert_def new_vertex_def split: option.splits prod.splits)
  moreover have "gra_below h g \<longrightarrow> gra_below h1 g'" using f(1)
    by (auto simp: foi_txn_def find_or_insert_def new_vertex_def gra_below_def gfind_gadd less_Suc_eq split: option.splits prod.splits if_splits)
  moreover have "still h1 h'" unfolding f(2) add_server_def
    by (rule still_upd) (auto simp: still_info_def node_ok_def is_commit_def)
  moreover have "length h' = length h1" unfolding f(2) add_server_def by simp
  ultimately show ?thesis using still_trans [of h h1 h'] by (auto simp: gra_below_def)
qed

lemma touch_heap: "sv_heap (touch tv e s) = sv_heap s \<or> (\<exists>l r. sv_heap (touch tv e s) = or_edge l tv r (sv_heap s))"
  by (auto simp: touch_def Let_def split: option.split)

lemma touch_sel [simp]: "sv_balls (touch tv e s) = sv_balls s" "sv_out (touch tv e s) = sv_out s" "sv_db (touch tv e s) = sv_db s"
  "sv_gra (touch tv e s) = sv_gra s"
  by (simp_all add: touch_def Let_def split: option.split)

lemma touches_still:
  "still (sv_heap s) (sv_heap (fold (touch tv) es s)) \<and> sv_balls (fold (touch tv) es s) = sv_balls s \<and> sv_out (fold (touch tv) es s) = sv_out s \<and>
    sv_gra (fold (touch tv) es s) = sv_gra s"
proof (induction es arbitrary: s)
  case (Cons e es)
  have "still (sv_heap s) (sv_heap (touch tv e s))" using touch_heap [of tv e s] still_or_edge by auto
  then show ?case using Cons.IH [of "touch tv e s"] still_trans by auto
qed simp

lemma start_pie_job_spec:
  assumes "rcc_start_pie_job env hdr input defer s = Inr s'"
  shows "still (sv_heap s) (sv_heap s')" "sv_balls s' = sv_balls s" "\<exists>d b vs ws. sv_out s' = sv_out s @ [StartReply d b vs ws]"
    "gra_below (sv_heap s) (sv_gra s) \<Longrightarrow> gra_below (sv_heap s') (sv_gra s')"
proof -
  let ?pi = "\<lparr>pie_id = hd_pid hdr, pie_txn_id = hd_tid hdr, deferred = False, pie_type = hd_p_type hdr\<rparr>"
  obtain pv ph tv h g where a: "start_pie (en_site env) ?pi True True (sv_pies s) (sv_heap s) (sv_gra s) = Inr (pv, ph, tv, h, g)"
    using assms by (cases "start_pie (en_site env) ?pi True True (sv_pies s) (sv_heap s) (sv_gra s)") (auto simp: rcc_start_pie_job_def)
  let ?s = "s\<lparr>sv_pies := ph, sv_heap := h, sv_gra := g\<rparr>"
  obtain df outs s1 where b: "exe_deptran_start env hdr input tv ?s = Inr (df, outs, s1)"
    using assms a by (cases "exe_deptran_start env hdr input tv ?s") (auto simp: rcc_start_pie_job_def)
  obtain n ret where c: "sub_txn_graph (sv_heap s1) (sv_gra s1) (hd_tid hdr) [] = Inr (n, ret)"
    using assms a b by (cases "sub_txn_graph (sv_heap s1) (sv_gra s1) (hd_tid hdr) []") (auto simp: rcc_start_pie_job_def)
  have s': "s' = emit (StartReply defer df outs ret) s1" using assms a b c by (simp add: rcc_start_pie_job_def)
  obtain touches d s0 where t: "s1 = fold (touch tv) touches (s0\<lparr>sv_db := d\<rparr>)" "sv_heap s0 = h" "sv_balls s0 = sv_balls s" "sv_out s0 = sv_out s" "sv_gra s0 = g"
    using b by (auto simp: exe_deptran_start_def Let_def add_deferred_def split: option.splits prod.splits if_splits)
  have r: "still h (sv_heap s1)" "sv_balls s1 = sv_balls s" "sv_out s1 = sv_out s" "sv_gra s1 = g"
    using touches_still [of "s0\<lparr>sv_db := d\<rparr>" tv touches] t by simp_all
  have sp: "still (sv_heap s) h" "gra_below (sv_heap s) (sv_gra s) \<Longrightarrow> gra_below h g" using still_start_pie [OF a] by auto
  show "still (sv_heap s) (sv_heap s')" "sv_balls s' = sv_balls s" "\<exists>d b vs ws. sv_out s' = sv_out s @ [StartReply d b vs ws]"
    using still_trans [OF sp(1) r(1)] r s' by (simp_all add: emit_def)
  show "gra_below (sv_heap s') (sv_gra s')" if "gra_below (sv_heap s) (sv_gra s)"
  proof -
    have "length h \<le> length (sv_heap s1)" using r(1) by (simp add: still_def)
    then show ?thesis using sp(2) [OF that] r(4) s' by (auto simp: gra_below_def emit_def intro: less_le_trans)
  qed
qed

text \<open>The merge copies fresh data only: the received vertices stay apart from the vertices of the server's
  graph.\<close>

definition apart_from :: "nat \<Rightarrow> nat \<Rightarrow> txn_heap \<Rightarrow> graph \<Rightarrow> bool" where
  "apart_from lo hi h g \<longleftrightarrow> hi \<le> length h \<and> (\<forall>i v. gfind g i = Some v \<longrightarrow> v < length h \<and> \<not> (lo \<le> v \<and> v < hi)) \<and>
     (\<forall>v. lo \<le> v \<and> v < hi \<longrightarrow> fresh_cell lo hi (deref h v))"

lemma apart_fresh: "apart_from lo hi h g \<Longrightarrow> lo \<le> v \<Longrightarrow> v < hi \<Longrightarrow> deref h v = Some x \<Longrightarrow> fresh_info (vdata x)"
  by (force simp: apart_from_def fresh_cell_def)

lemma apart_to: "apart_from lo hi h g \<Longrightarrow> lo \<le> v \<Longrightarrow> v < hi \<Longrightarrow> e \<in> set (to_of h v) \<Longrightarrow> lo \<le> fst e \<and> fst e < hi"
  by (force simp: apart_from_def fresh_cell_def to_of_def list_all_iff split: option.splits)

lemma apart_new:
  assumes "apart_from lo hi h g"
  shows "apart_from lo hi (snd (new_vertex ti h)) (gadd i (length h) g)"
  using assms by (auto simp: apart_from_def gfind_gadd deref_new length_new less_SucI split: if_splits)

lemma apart_upd:
  assumes "apart_from lo hi h g" and "\<not> (lo \<le> v \<and> v < hi)"
  shows "apart_from lo hi (upd_vertex v f h) g"
  using assms by (auto simp: apart_from_def deref_upd)

lemma apart_or_edge:
  assumes "apart_from lo hi h g" and "\<not> (lo \<le> a \<and> a < hi)" and "\<not> (lo \<le> b \<and> b < hi)"
  shows "apart_from lo hi (or_edge a b r h) g"
  unfolding or_edge_def or_from_def or_to_def using assms by (intro apart_upd) auto

lemma union_target_still:
  assumes "apart_from lo hi h g" and "lo \<le> tv \<and> tv < hi" and "union_target tv h g = Inr (t, h', g')"
  shows "still h h' \<and> apart_from lo hi h' g' \<and> \<not> (lo \<le> t \<and> t < hi)"
proof -
  obtain y where y: "deref h tv = Some y" "find_or_insert_data txn_id (vdata y) h g = (t, h', g')"
    using assms(3) by (auto simp: union_target_def split: option.splits)
  show ?thesis
  proof (cases "gfind g (txn_id (vdata y))")
    case None
    then have "t = length h" "h' = snd (new_vertex (vdata y) h)" "g' = gadd (txn_id (vdata y)) (length h) g"
      using y(2) by (auto simp: find_or_insert_data_def new_vertex_def)
    then show ?thesis using apart_new [OF assms(1)] still_new [OF apart_fresh [OF assms(1) _ _ y(1)]] assms(1,2) by (auto simp: apart_from_def)
  next
    case (Some v)
    then show ?thesis using y(2) assms(1) by (auto simp: find_or_insert_data_def apart_from_def)
  qed
qed

lemma union_edges_still:
  "apart_from lo hi h g \<Longrightarrow> \<not> (lo \<le> o1 \<and> o1 < hi) \<Longrightarrow> \<forall>e \<in> set es. lo \<le> fst e \<and> fst e < hi \<Longrightarrow>
    union_edges o1 es h g = Inr (h', g') \<Longrightarrow> still h h' \<and> apart_from lo hi h' g'"
proof (induction es arbitrary: h g)
  case (Cons e es)
  obtain tv r where e: "e = (tv, r)" by (cases e)
  obtain t h1 g1 where t: "union_target tv h g = Inr (t, h1, g1)" "union_edges o1 es (or_edge o1 t r h1) g1 = Inr (h', g')"
    using Cons.prems(4) e by (cases "union_target tv h g") auto
  have u: "still h h1" "apart_from lo hi h1 g1" "\<not> (lo \<le> t \<and> t < hi)"
    using union_target_still [OF Cons.prems(1) _ t(1)] Cons.prems(3) e by auto
  have "still (or_edge o1 t r h1) h' \<and> apart_from lo hi h' g'"
    using Cons.IH [OF apart_or_edge [OF u(2) Cons.prems(2) u(3)] Cons.prems(2) _ t(2)] Cons.prems(3) by simp
  then show ?case using still_trans [OF u(1) still_trans [OF still_or_edge]] by blast
qed auto

lemma still_union_data: "status_ok (status d) \<Longrightarrow> still_info ti (snd (union_data site d False sv ti))"
proof -
  assume d: "status_ok (status d)"
  have "is_commit (ti\<lparr>servers := ss, status := status ti OR x\<rparr>)" if "is_commit ti" for x ss
    using that by (simp add: is_commit_def bit.conj_disj_distrib2 or_eq_0_iff)
  then show ?thesis using d status_grows [OF d, of "status ti"]
    by (auto simp: still_info_def union_data_def union_status_def Let_def node_ok_def is_commit_def)
qed

lemma union_source_still:
  assumes "apart_from lo hi h g" and "lo \<le> v \<and> v < hi" and "union_source site sv v h g = Inr (o1, h', g')"
  shows "still h h' \<and> apart_from lo hi h' g' \<and> \<not> (lo \<le> o1 \<and> o1 < hi)"
proof -
  obtain x where x: "deref h v = Some x" using assms(3) by (auto simp: union_source_def split: option.splits)
  have fr: "fresh_info (vdata x)" using apart_fresh [OF assms(1) _ _ x] assms(2) by simp
  show ?thesis
  proof (cases "gfind g (txn_id (vdata x))")
    case None
    then have "o1 = length h" "h' = snd (new_vertex (vdata x) h)" "g' = gadd (txn_id (vdata x)) (length h) g"
      using assms(3) x by (auto simp: union_source_def new_vertex_def)
    then show ?thesis using apart_new [OF assms(1)] still_new [OF fr] assms(1,2) by (auto simp: apart_from_def)
  next
    case (Some w)
    let ?f = "\<lambda>ti. snd (union_data site (vdata x) False sv ti)"
    have r: "o1 = w" "h' = upd_vertex w (\<lambda>y. y\<lparr>vdata := ?f (vdata y)\<rparr>) h" "g' = g"
      using assms(3) x Some by (auto simp: union_source_def)
    have "still h h'" unfolding r(2) using fr by (intro still_upd still_union_data) (simp add: fresh_info_def)
    moreover have "\<not> (lo \<le> w \<and> w < hi)" using Some assms(1) by (auto simp: apart_from_def)
    ultimately show ?thesis using r apart_upd [OF assms(1)] by simp
  qed
qed

lemma union_vertices_still:
  "apart_from lo hi h g \<Longrightarrow> \<forall>v \<in> set vs. lo \<le> v \<and> v < hi \<Longrightarrow> union_vertices site sv vs h g nv = Inr (h', g', nv') \<Longrightarrow>
    still h h' \<and> apart_from lo hi h' g'"
proof (induction vs arbitrary: h g nv)
  case (Cons v vs)
  obtain o1 h1 g1 where a: "union_source site sv v h g = Inr (o1, h1, g1)"
    using Cons.prems(3) by (cases "union_source site sv v h g") auto
  have u: "still h h1" "apart_from lo hi h1 g1" "\<not> (lo \<le> o1 \<and> o1 < hi)"
    using union_source_still [OF Cons.prems(1) _ a] Cons.prems(2) by auto
  obtain h2 g2 where b: "union_edges o1 (to_of h1 v) h1 g1 = Inr (h2, g2)"
    using Cons.prems(3) a by (cases "union_edges o1 (to_of h1 v) h1 g1") auto
  have "lo \<le> v" "v < hi" using Cons.prems(2) by simp_all
  then have "\<forall>e \<in> set (to_of h1 v). lo \<le> fst e \<and> fst e < hi" using apart_to [OF u(2)] by blast
  from union_edges_still [OF u(2,3) this b] have e: "still h1 h2" "apart_from lo hi h2 g2" by simp_all
  have "still h2 h' \<and> apart_from lo hi h' g'" using Cons.IH [OF e(2)] Cons.prems(2,3) a b by simp
  then show ?case using still_trans [OF still_trans [OF u(1) e(1)], of h'] by simp
qed simp

lemma received_apart:
  assumes "gra_below h g" and "received h cells gra"
  shows "apart_from (length h) (length h + length cells) (h @ cells) g"
proof -
  have "fresh_cell (length h) (length h + length cells) (deref (h @ cells) v)" if "length h \<le> v" "v < length h + length cells" for v
  proof -
    have "v - length h < length cells" using that by linarith
    then have "fresh_cell (length h) (length h + length cells) (cells ! (v - length h))" using assms(2) by (simp add: received_def list_all_length)
    then show ?thesis using that by (simp add: deref_def nth_append)
  qed
  moreover have "v < length (h @ cells)" "\<not> (length h \<le> v \<and> v < length h + length cells)" if "gfind g i = Some v" for i v
    using assms(1) that by (auto simp: gra_below_def intro: trans_less_add1 dest: less_le_trans)
  ultimately show ?thesis unfolding apart_from_def by (intro conjI allI impI) (simp, blast+)
qed

lemma merge_received_spec:
  assumes "gra_below (sv_heap s) (sv_gra s)" and "received (sv_heap s) cells gra"
    and "merge_received env gra (s\<lparr>sv_heap := sv_heap s @ cells\<rparr>) = Inr (fs, s')"
  shows "\<exists>nv h g. fs = trigger_frames nv \<and> s' = s\<lparr>sv_heap := h, sv_gra := g\<rparr> \<and> still (sv_heap s) h \<and> gra_below h g"
proof -
  obtain h g nv where u: "union_vertices (en_site env) True (vertex_index gra) (sv_heap s @ cells) (sv_gra s) [] = Inr (h, g, nv)"
    "fs = trigger_frames nv" "s' = s\<lparr>sv_heap := h, sv_gra := g\<rparr>"
    using assms(3) unfolding merge_received_def verify_def rbind_def by (auto split: if_splits sum.splits)
  have "\<forall>v \<in> set (vertex_index gra). length (sv_heap s) \<le> v \<and> v < length (sv_heap s) + length cells"
    using assms(2) by (simp add: received_def list_all_iff)
  from union_vertices_still [OF received_apart [OF assms(1,2)] this u(1)]
  have "still (sv_heap s @ cells) h" "gra_below h g" by (auto simp: apart_from_def gra_below_def)
  then show ?thesis using u(2,3) still_trans [OF still_append [OF assms(2)]] by blast
qed

section \<open>The invariant\<close>

fun frame_count :: "ball \<Rightarrow> frame \<Rightarrow> nat" where
  "frame_count b (TriggerBall b') = (if b' = b then 1 else 0)"
| "frame_count b (WaitFor ask st b' vs) = (if b' = b then length vs + 1 else 0)"
| "frame_count b _ = 0"

text \<open>The triggers a ball will still get: from events, and from the code that is running.\<close>

definition pending :: "ball \<Rightarrow> frame list \<Rightarrow> txn_heap \<Rightarrow> nat" where
  "pending b fs h = cnt b h + sum_list (map (frame_count b) fs)"

definition owed :: "ball_rec list \<Rightarrow> ball \<Rightarrow> nat \<Rightarrow> bool" where
  "owed bs b n \<longleftrightarrow> (if b < length bs \<and> bl_live (bs ! b) then bl_count (bs ! b) + n = bl_need (bs ! b) else n = 0)"

definition balls_inv :: "frame list \<Rightarrow> txn_heap \<Rightarrow> ball_rec list \<Rightarrow> bool" where
  "balls_inv fs h bs \<longleftrightarrow> (\<forall>b. owed bs b (pending b fs h))"

definition reached :: "int8 \<Rightarrow> txn_heap \<Rightarrow> vptr \<Rightarrow> bool" where
  "reached st h w \<longleftrightarrow> (\<exists>ti. txn_at h w = Some ti \<and> sint st \<le> sint (status ti))"

definition queued :: "ball \<Rightarrow> int8 \<Rightarrow> txn_heap \<Rightarrow> vptr \<Rightarrow> bool" where
  "queued b st h w \<longleftrightarrow> (\<exists>ti bs. txn_at h w = Some ti \<and> om_get (events ti) (sint st) = Some bs \<and> b \<in> set bs)"

definition still_asking :: "frame list \<Rightarrow> ball \<Rightarrow> vptr \<Rightarrow> bool" where
  "still_asking fs b w \<longleftrightarrow> (\<exists>ask st vs. WaitFor ask st b vs \<in> set fs \<and> w \<in> set vs)"

definition settled :: "frame list \<Rightarrow> txn_heap \<Rightarrow> ball \<Rightarrow> int8 \<Rightarrow> vptr \<Rightarrow> bool" where
  "settled fs h b st w \<longleftrightarrow> reached st h w \<or> queued b st h w \<or> still_asking fs b w"

definition waits_inv :: "frame list \<Rightarrow> txn_heap \<Rightarrow> ball_rec list \<Rightarrow> bool" where
  "waits_inv fs h bs \<longleftrightarrow> (\<forall>b < length bs. \<forall>w \<in> set (bl_waits (bs ! b)). settled fs h b (bl_level (bs ! b)) w)"

fun frame_ok :: "ball_rec list \<Rightarrow> frame \<Rightarrow> bool" where
  "frame_ok bs (WaitFor ask st b vs) \<longleftrightarrow> b < length bs \<and> st = bl_level (bs ! b)"
| "frame_ok bs (Callback cb) \<longleftrightarrow> (\<exists>b < length bs. \<not> bl_live (bs ! b) \<and> bl_cb (bs ! b) = cb)"
| "frame_ok bs _ \<longleftrightarrow> True"

fun cb_ok :: "ball_rec list \<Rightarrow> ball_rec \<Rightarrow> rcc_cb \<Rightarrow> bool" where
  "cb_ok bs r (CbAncFinish v d) \<longleftrightarrow> bl_level r = TXN_FINISH"
| "cb_ok bs r (CbSccCommit v d) \<longleftrightarrow> bl_level r = TXN_COMMIT \<and> (\<exists>a < length bs. \<not> bl_live (bs ! a) \<and> bl_cb (bs ! a) = CbAncFinish v d)"
| "cb_ok bs r _ \<longleftrightarrow> True"

definition committed_log :: "rcc_out list \<Rightarrow> vptr list" where
  "committed_log os = concat (map (\<lambda>x. case x of Committed v \<Rightarrow> [v] | _ \<Rightarrow> []) os)"

definition log_inv :: "rcc_out list \<Rightarrow> txn_heap \<Rightarrow> bool" where
  "log_inv os h \<longleftrightarrow> distinct (committed_log os) \<and> (\<forall>v \<in> set (committed_log os). \<exists>ti. txn_at h v = Some ti \<and> committed ti)"

definition rcc_inv :: "frame list \<Rightarrow> 'd rcc_server \<Rightarrow> bool" where
  "rcc_inv fs s \<longleftrightarrow> heap_ok (sv_heap s) \<and> gra_below (sv_heap s) (sv_gra s) \<and> balls_inv fs (sv_heap s) (sv_balls s) \<and>
     waits_inv fs (sv_heap s) (sv_balls s) \<and> list_all (frame_ok (sv_balls s)) fs \<and> (\<forall>r \<in> set (sv_balls s). cb_ok (sv_balls s) r (bl_cb r)) \<and>
     log_inv (sv_out s) (sv_heap s)"

lemma pending_simps [simp]:
  "pending b (f # fs) h = frame_count b f + pending b fs h" "pending b (fs @ gs) h = sum_list (map (frame_count b) fs) + pending b gs h"
  by (simp_all add: pending_def)

lemma committed_log_append [simp]: "committed_log (os @ os') = committed_log os @ committed_log os'"
  by (simp add: committed_log_def)

lemma still_reached: "still h h' \<Longrightarrow> reached st h w \<Longrightarrow> reached st h' w"
  using stillD [of h h' w] by (fastforce simp: reached_def still_info_def)

lemma still_queued: "still h h' \<Longrightarrow> queued b st h w \<Longrightarrow> queued b st h' w"
  using stillD [of h h' w] by (fastforce simp: queued_def still_info_def)

lemma still_log: "still h h' \<Longrightarrow> log_inv os h \<Longrightarrow> log_inv os h'"
  using stillD [of h h'] by (fastforce simp: log_inv_def still_info_def)

lemma still_pending: "still h h' \<Longrightarrow> pending b fs h' = pending b fs h"
  by (simp add: pending_def still_cnt)

text \<open>Frames that neither wait nor trigger balls nor run a callback may come and go.\<close>

fun mute :: "frame \<Rightarrow> bool" where
  "mute (WaitFor _ _ _ _) = False"
| "mute (TriggerBall _) = False"
| "mute _ = True"

fun idle :: "frame \<Rightarrow> bool" where
  "idle (Callback _) = False"
| "idle f = mute f"

lemma mute_count: "list_all mute fs \<Longrightarrow> sum_list (map (frame_count b) fs) = 0"
proof (induction fs)
  case (Cons f fs)
  then show ?case by (cases f) auto
qed simp

lemma idle_mute: "list_all idle fs \<Longrightarrow> list_all mute fs"
proof (induction fs)
  case (Cons f fs)
  then show ?case by (cases f) auto
qed simp

lemma idle_ok: "list_all idle fs \<Longrightarrow> list_all (frame_ok bs) fs"
proof (induction fs)
  case (Cons f fs)
  then show ?case by (cases f) auto
qed simp

lemma mute_asking: "list_all mute fs \<Longrightarrow> still_asking (fs @ gs) b w = still_asking gs b w"
  by (auto simp: still_asking_def list_all_iff)

lemma rcc_invD:
  assumes "rcc_inv fs s"
  shows "heap_ok (sv_heap s)" "gra_below (sv_heap s) (sv_gra s)" "balls_inv fs (sv_heap s) (sv_balls s)" "waits_inv fs (sv_heap s) (sv_balls s)"
    "list_all (frame_ok (sv_balls s)) fs" "\<And>r. r \<in> set (sv_balls s) \<Longrightarrow> cb_ok (sv_balls s) r (bl_cb r)" "log_inv (sv_out s) (sv_heap s)"
  using assms by (simp_all add: rcc_inv_def)

lemma log_cong: "committed_log os' = committed_log os \<Longrightarrow> log_inv os' h = log_inv os h"
  by (simp add: log_inv_def)

lemma inv_still:
  assumes inv: "rcc_inv (f # fs) s" and f: "mute f" and gs: "list_all idle gs" and h: "still (sv_heap s) (sv_heap s')" "gra_below (sv_heap s') (sv_gra s')"
    and b: "sv_balls s' = sv_balls s" and out: "committed_log (sv_out s') = committed_log (sv_out s)"
  shows "rcc_inv (gs @ fs) s'"
proof -
  note I = rcc_invD [OF inv]
  have "frame_count b f = 0" for b using mute_count [of "[f]" b] f by simp
  then have p: "pending b (gs @ fs) (sv_heap s') = pending b (f # fs) (sv_heap s)" for b
    using mute_count [OF idle_mute [OF gs]] still_pending [OF h(1)] by simp
  have a: "still_asking (gs @ fs) b w = still_asking (f # fs) b w" for b w
    using mute_asking [OF idle_mute [OF gs]] mute_asking [of "[f]" fs] f by simp
  have "log_inv (sv_out s') (sv_heap s')" using still_log [OF h(1) I(7)] log_cong [OF out] by simp
  moreover have "waits_inv (gs @ fs) (sv_heap s') (sv_balls s')"
    using I(4) b a still_reached [OF h(1)] still_queued [OF h(1)] unfolding waits_inv_def settled_def by metis
  moreover have "balls_inv (gs @ fs) (sv_heap s') (sv_balls s')" using I(3) b p unfolding balls_inv_def by metis
  ultimately show ?thesis using I(5,6) h(2) b idle_ok [OF gs] still_heap_ok [OF h(1) I(1)] by (simp add: rcc_inv_def)
qed

lemma cb_ok_grow:
  assumes "cb_ok bs r cb" and "\<And>a. a < length bs \<Longrightarrow> a < length bs' \<and> bl_cb (bs' ! a) = bl_cb (bs ! a) \<and> (\<not> bl_live (bs ! a) \<longrightarrow> \<not> bl_live (bs' ! a))"
  shows "cb_ok bs' r cb"
proof (cases cb)
  case (CbSccCommit v d)
  then obtain a where "a < length bs" "\<not> bl_live (bs ! a)" "bl_cb (bs ! a) = CbAncFinish v d" "bl_level r = TXN_COMMIT"
    using assms(1) by auto
  then show ?thesis using assms(2) [of a] CbSccCommit by auto
qed (use assms(1) in auto)

lemma frame_ok_grow:
  assumes "frame_ok bs f"
    and "\<And>a. a < length bs \<Longrightarrow> a < length bs' \<and> bl_cb (bs' ! a) = bl_cb (bs ! a) \<and> bl_level (bs' ! a) = bl_level (bs ! a) \<and>
      (\<not> bl_live (bs ! a) \<longrightarrow> \<not> bl_live (bs' ! a))"
  shows "frame_ok bs' f"
proof (cases f)
  case (Callback cb)
  then obtain b where "b < length bs" "\<not> bl_live (bs ! b)" "bl_cb (bs ! b) = cb" using assms(1) by auto
  then show ?thesis using assms(2) [of b] Callback by auto
qed (use assms in auto)

text \<open>A new ball with the loop that makes it wait.\<close>

lemma inv_new_ball:
  assumes inv: "rcc_inv (f # fs) s" and f: "mute f"
    and cb: "cb_ok (sv_balls s) \<lparr>bl_need = length ws + 1, bl_count = 0, bl_live = True, bl_cb = cb, bl_level = st, bl_waits = ws\<rparr> cb"
    and new: "new_ball (length ws + 1) cb st ws s = (b, s')"
  shows "rcc_inv (WaitFor ask st b ws # fs) s'"
proof -
  note I = rcc_invD [OF inv]
  let ?r = "\<lparr>bl_need = length ws + 1, bl_count = 0, bl_live = True, bl_cb = cb, bl_level = st, bl_waits = ws\<rparr>"
  have s': "b = length (sv_balls s)" "s' = s\<lparr>sv_balls := sv_balls s @ [?r]\<rparr>" using new by (auto simp: new_ball_def)
  have "frame_count x f = 0" for x using mute_count [of "[f]" x] f by simp
  then have p: "owed (sv_balls s) x (pending x fs (sv_heap s))" for x using I(3) by (simp add: balls_inv_def)
  have "owed (sv_balls s @ [?r]) x (pending x (WaitFor ask st b ws # fs) (sv_heap s))" for x
    using p [of x] s'(1) by (cases "x < b") (auto simp: owed_def nth_append split: if_splits)
  then have "balls_inv (WaitFor ask st b ws # fs) (sv_heap s) (sv_balls s @ [?r])" by (simp add: balls_inv_def)
  moreover have "waits_inv (WaitFor ask st b ws # fs) (sv_heap s) (sv_balls s @ [?r])"
  proof -
    have "still_asking (WaitFor ask st b ws # fs) x w" if "still_asking (f # fs) x w" for x w
      using that mute_asking [of "[f]" fs] f by (auto simp: still_asking_def)
    then have old: "settled (WaitFor ask st b ws # fs) (sv_heap s) x l w" if "settled (f # fs) (sv_heap s) x l w" for x l w
      using that by (auto simp: settled_def)
    have "settled (WaitFor ask st b ws # fs) (sv_heap s) b st w" if "w \<in> set ws" for w using that by (auto simp: settled_def still_asking_def)
    then show ?thesis using I(4) old s'(1) by (simp add: waits_inv_def nth_append less_Suc_eq)
  qed
  moreover have "list_all (frame_ok (sv_balls s @ [?r])) fs"
    using I(5) frame_ok_grow [of "sv_balls s" _ "sv_balls s @ [?r]"] by (auto simp: list_all_iff nth_append)
  moreover have "cb_ok (sv_balls s @ [?r]) r (bl_cb r)" if "r \<in> set (sv_balls s @ [?r])" for r
    using that I(6) cb cb_ok_grow [of "sv_balls s" _ _ "sv_balls s @ [?r]"] by (auto simp: nth_append)
  ultimately show ?thesis using I(1,2,7) s' by (simp add: rcc_inv_def)
qed

lemma info_at_Inr: "info_at v s = Inr ti \<longleftrightarrow> txn_at (sv_heap s) v = Some ti"
  by (auto simp: info_at_def txn_at_def split: option.splits)

lemma upd_info_sel [simp]:
  "sv_balls (upd_info v f s) = sv_balls s" "sv_out (upd_info v f s) = sv_out s" "sv_gra (upd_info v f s) = sv_gra s"
  "sv_deferred (upd_info v f s) = sv_deferred s" "sv_db (upd_info v f s) = sv_db s" "length (sv_heap (upd_info v f s)) = length (sv_heap s)"
  "txn_at (sv_heap (upd_info v f s)) w = (if w = v then map_option f (txn_at (sv_heap s) w) else txn_at (sv_heap s) w)"
  by (simp_all add: upd_info_def txn_at_upd)

lemma cnt_upd_info:
  "txn_at (sv_heap s) v = Some ti \<Longrightarrow> cnt b (sv_heap (upd_info v f s)) + count (waiting ti) b = cnt b (sv_heap s) + count (waiting (f ti)) b"
  using cnt_upd [of "sv_heap s" v ti b f] by (simp add: upd_info_def)

text \<open>An update of one record that keeps its status and commit flag, for steps that move a ball between
  the events and the frames.\<close>

lemma inv_events:
  assumes inv: "rcc_inv (f # fs) s" and ti: "txn_at (sv_heap s) v = Some ti"
    and g: "status (g ti) = status ti" "committed (g ti) = committed ti" "om_inv (events ti) \<Longrightarrow> om_inv (events (g ti))"
    and p: "\<And>b. sum_list (map (frame_count b) gs) + count (waiting (g ti)) b = frame_count b f + count (waiting ti) b"
    and w: "\<And>b w. b < length (sv_balls s) \<Longrightarrow> settled (f # fs) (sv_heap s) b (bl_level (sv_balls s ! b)) w \<Longrightarrow>
      settled (gs @ fs) (sv_heap (upd_info v g s)) b (bl_level (sv_balls s ! b)) w"
    and ok: "list_all (frame_ok (sv_balls s)) gs"
  shows "rcc_inv (gs @ fs) (upd_info v g s)"
proof -
  note I = rcc_invD [OF inv]
  let ?h = "sv_heap (upd_info v g s)"
  have "node_ok (g ti)" using I(1) ti g by (auto simp: heap_ok_def node_ok_def is_commit_def)
  then have "heap_ok ?h" using I(1) ti by (auto simp: heap_ok_def)
  moreover have "gra_below ?h (sv_gra s)" using I(2) by (simp add: gra_below_def)
  moreover have "pending b (gs @ fs) ?h = pending b (f # fs) (sv_heap s)" for b
    using cnt_upd_info [OF ti, of b g] p [of b] by (simp add: pending_def)
  then have "balls_inv (gs @ fs) ?h (sv_balls s)" using I(3) by (simp add: balls_inv_def)
  moreover have "waits_inv (gs @ fs) ?h (sv_balls s)" using I(4) w by (simp add: waits_inv_def)
  moreover have "log_inv (sv_out s) ?h" using I(7) ti g(2) by (auto simp: log_inv_def)
  ultimately show ?thesis using I(5,6) ok by (simp add: rcc_inv_def)
qed

lemma balls_inv_cong: "(\<And>b. pending b fs' h' = pending b fs h) \<Longrightarrow> balls_inv fs h bs \<Longrightarrow> balls_inv fs' h' bs"
  by (simp add: balls_inv_def)

lemma waits_inv_cong: "(\<And>b w. still_asking fs' b w = still_asking fs b w) \<Longrightarrow> waits_inv fs h bs \<Longrightarrow> waits_inv fs' h bs"
  by (simp add: waits_inv_def settled_def)

lemma count_triggers: "sum_list (map (frame_count b) (map TriggerBall xs)) = count (mset xs) b"
  by (induction xs) auto

lemma register_queues:
  assumes "om_inv (events ti)"
  shows "\<And>k bs c. om_get (events ti) k = Some bs \<Longrightarrow> c \<in> set bs \<Longrightarrow>
      \<exists>bs'. om_get (events (snd (register_event st b ti))) k = Some bs' \<and> c \<in> set bs'"
    and "sint st \<le> sint (status ti) \<or> (\<exists>bs. om_get (events (snd (register_event st b ti))) (sint st) = Some bs \<and> b \<in> set bs)"
  by (auto simp: register_event_def om_put_get)

lemma register_sel: "committed (snd (register_event st b ti)) = committed ti" "om_inv (events ti) \<Longrightarrow> om_inv (events (snd (register_event st b ti)))"
  by (simp_all add: register_event_def om_put_inv)

lemma inv_wait_for:
  assumes inv: "rcc_inv (WaitFor ask st b vs # fs) s" and step: "wait_for ask st b vs s = Inr (gs, s')"
  shows "rcc_inv (gs @ fs) s'"
proof (cases vs)
  case Nil
  then have s': "gs = [TriggerBall b]" "s' = s" using step by auto
  have "waits_inv (gs @ fs) (sv_heap s) (sv_balls s)"
    by (rule waits_inv_cong [OF _ rcc_invD(4) [OF inv]]) (use Nil s'(1) in \<open>auto simp: still_asking_def\<close>)
  moreover have "balls_inv (gs @ fs) (sv_heap s) (sv_balls s)"
    by (rule balls_inv_cong [OF _ rcc_invD(3) [OF inv]]) (use Nil s'(1) in simp)
  ultimately show ?thesis using inv s' by (simp add: rcc_inv_def)
next
  case (Cons av avs)
  note I = rcc_invD [OF inv]
  obtain ti where ti: "txn_at (sv_heap s) av = Some ti" using step Cons by (cases "info_at av s") (auto simp: info_at_Inr)
  let ?r = "register_event st b ti" and ?g = "\<lambda>ti. snd (register_event st b ti)"
  have s': "gs = map TriggerBall (fst ?r) @ (if ask then [AskFinish av] else []) @ [WaitFor ask st b avs]" "s' = upd_info av ?g s"
    using step Cons ti by (auto simp: info_at_Inr [symmetric])
  have om: "om_inv (events ti)" using I(1) ti by (auto simp: heap_ok_def node_ok_def)
  have lvl: "b < length (sv_balls s)" "st = bl_level (sv_balls s ! b)" using I(5) by auto
  have cons: "count (mset (fst ?r)) c + count (waiting (snd ?r)) c = (if c = b then 1 else 0) + count (waiting ti) c" for c
  proof -
    have "count (mset (fst ?r) + waiting (snd ?r)) c = count (add_mset b (waiting ti)) c" using register_conserves [OF om, of st b] by simp
    then show ?thesis by simp
  qed
  have "rcc_inv (gs @ fs) (upd_info av ?g s)"
  proof (rule inv_events [OF inv ti])
    show "sum_list (map (frame_count c) gs) + count (waiting (?g ti)) c = frame_count c (WaitFor ask st b vs) + count (waiting ti) c" for c
    proof -
      have "sum_list (map (frame_count c) gs) = count (mset (fst ?r)) c + frame_count c (WaitFor ask st b avs)"
        unfolding s'(1) map_append sum_list_append count_triggers by simp
      then show ?thesis using cons [of c] Cons by auto
    qed
    fix c w
    assume c: "c < length (sv_balls s)" "settled (WaitFor ask st b vs # fs) (sv_heap s) c (bl_level (sv_balls s ! c)) w"
    have q: "queued c l (sv_heap (upd_info av ?g s)) w" if "queued c l (sv_heap s) w" for l
      using that register_queues(1) [OF om, of _ _ c st b] ti by (auto simp: queued_def)
    have r: "reached l (sv_heap (upd_info av ?g s)) w" if "reached l (sv_heap s) w" for l using that by (auto simp: reached_def)
    have "still_asking (gs @ fs) c w \<or> (c = b \<and> w = av)" if a: "still_asking (WaitFor ask st b vs # fs) c w"
    proof -
      obtain ask' st' vs' where w: "WaitFor ask' st' c vs' \<in> set (WaitFor ask st b vs # fs)" "w \<in> set vs'" using a by (auto simp: still_asking_def)
      have here: "WaitFor ask st b avs \<in> set (gs @ fs)" using s'(1) by simp
      show ?thesis
      proof (cases "WaitFor ask' st' c vs' \<in> set fs")
        case True
        then have "WaitFor ask' st' c vs' \<in> set (gs @ fs)" by simp
        then show ?thesis using w(2) unfolding still_asking_def by blast
      next
        case False
        then have "c = b" "vs' = av # avs" using w(1) Cons by simp_all
        then show ?thesis using w(2) here unfolding still_asking_def by (cases "w = av") (simp, force)
      qed
    qed
    moreover have "reached st (sv_heap (upd_info av ?g s)) av \<or> queued b st (sv_heap (upd_info av ?g s)) av"
      using register_queues(2) [OF om, of st b] ti by (auto simp: reached_def queued_def)
    ultimately show "settled (gs @ fs) (sv_heap (upd_info av ?g s)) c (bl_level (sv_balls s ! c)) w"
      using c(2) q r lvl(2) unfolding settled_def by blast
  qed (use s'(1) lvl register_sel om in \<open>auto simp: list_all_iff\<close>)
  then show ?thesis using s'(2) by simp
qed

text \<open>A trigger: the ball exists, and what its callback waits for has happened when it runs.\<close>

lemma trigger_live:
  assumes "rcc_inv (TriggerBall b # fs) s"
  shows "b < length (sv_balls s)" "bl_live (sv_balls s ! b)"
    "bl_count (sv_balls s ! b) + (1 + pending b fs (sv_heap s)) = bl_need (sv_balls s ! b)"
proof -
  have "owed (sv_balls s) b (pending b (TriggerBall b # fs) (sv_heap s))" using rcc_invD(3) [OF assms] unfolding balls_inv_def by blast
  then have "owed (sv_balls s) b (1 + pending b fs (sv_heap s))" by simp
  then show "b < length (sv_balls s)" "bl_live (sv_balls s ! b)" "bl_count (sv_balls s ! b) + (1 + pending b fs (sv_heap s)) = bl_need (sv_balls s ! b)"
    by (auto simp: owed_def split: if_splits)
qed

lemma set_list_updD: "r \<in> set (xs[i := y]) \<Longrightarrow> r = y \<or> r \<in> set xs"
  using set_update_subset_insert [of xs i y] by blast

lemma inv_trigger_ball:
  assumes fires: "counts_down (en_fires env)" and inv: "rcc_inv (TriggerBall b # fs) s" and step: "trigger_ball env b s = Inr (gs, s')"
  shows "rcc_inv (gs @ fs) s'"
proof -
  note I = rcc_invD [OF inv] and L = trigger_live [OF inv]
  let ?r = "sv_balls s ! b"
  let ?fire = "bl_count ?r + 1 = bl_need ?r"
  let ?r1 = "?r\<lparr>bl_count := bl_count ?r + 1, bl_live := \<not> ?fire\<rparr>"
  let ?bs = "(sv_balls s)[b := ?r1]"
  have s': "gs = (if ?fire then [Callback (bl_cb ?r)] else []) \<and> s' = s\<lparr>sv_balls := ?bs\<rparr>"
  proof (cases ?fire)
    case True
    then show ?thesis using step L fires by (simp add: trigger_ball_def counts_down_def Let_def)
  next
    case False
    have "?r\<lparr>bl_count := bl_count ?r + 1\<rparr> = ?r1" using False L(2) by (cases ?r) simp
    moreover have "trigger_ball env b s = Inr ([], s\<lparr>sv_balls := (sv_balls s)[b := ?r\<lparr>bl_count := bl_count ?r + 1\<rparr>]\<rparr>)"
      using L fires False by (simp add: trigger_ball_def counts_down_def Let_def)
    ultimately have "Inr (gs, s') = (Inr ([], s\<lparr>sv_balls := ?bs\<rparr>) :: (frame list \<times> 'a rcc_server) res)" using step by (simp only:)
    then show ?thesis using False by simp
  qed
  note s' = conjunct1 [OF s'] conjunct2 [OF s']
  have same: "length ?bs = length (sv_balls s)" "\<And>a. a < length (sv_balls s) \<Longrightarrow> bl_cb (?bs ! a) = bl_cb (sv_balls s ! a) \<and>
      bl_level (?bs ! a) = bl_level (sv_balls s ! a) \<and> bl_waits (?bs ! a) = bl_waits (sv_balls s ! a) \<and> (\<not> bl_live (sv_balls s ! a) \<longrightarrow> \<not> bl_live (?bs ! a))"
    using L(1,2) by (auto simp: nth_list_update)
  have c0: "pending c (gs @ fs) h = pending c fs h" for c h using s'(1) by simp
  have "owed ?bs c (pending c (gs @ fs) (sv_heap s))" for c
  proof (cases "c = b")
    case True
    then show ?thesis using L unfolding c0 by (auto simp: owed_def)
  next
    case False
    have "owed (sv_balls s) c (pending c fs (sv_heap s))" using I(3) [unfolded balls_inv_def, rule_format, of c] False by simp
    then show ?thesis using False unfolding c0 by (simp add: owed_def)
  qed
  then have "balls_inv (gs @ fs) (sv_heap s) ?bs" by (simp add: balls_inv_def)
  moreover have "still_asking (gs @ fs) c w = still_asking (TriggerBall b # fs) c w" for c w using s'(1) by (auto simp: still_asking_def split: if_splits)
  then have "waits_inv (gs @ fs) (sv_heap s) ?bs" using I(4) same by (simp add: waits_inv_def settled_def)
  moreover have "list_all (frame_ok ?bs) fs" using I(5) frame_ok_grow [of "sv_balls s" _ ?bs] same by (simp add: list_all_iff)
  moreover have "list_all (frame_ok ?bs) gs" using s'(1) L(1) by (auto intro: exI [of _ b])
  moreover have "cb_ok ?bs r (bl_cb r)" if "r \<in> set ?bs" for r
  proof -
    have "cb_ok (sv_balls s) r (bl_cb r)" using set_list_updD [OF that] I(6) I(6) [of ?r] L(1) by (cases "bl_cb ?r") auto
    then show ?thesis using cb_ok_grow [of "sv_balls s" r "bl_cb r" ?bs] same by simp
  qed
  ultimately show ?thesis using I(1,2,7) s'(2) by (simp add: rcc_inv_def)
qed

text \<open>A round of the event loop: a ball that is taken out has its status reached.\<close>

lemma pop_waiting:
  assumes "om_inv (events ti)" and "(k, bs) \<in> set (events ti)" and "bs \<noteq> []"
  shows "count (waiting (ti\<lparr>events := om_put k (butlast bs) (events ti)\<rparr>)) b + (if last bs = b then 1 else 0) = count (waiting ti) b"
proof -
  have "mset (concat (map snd (om_put k xs m))) + mset ys = mset (concat (map snd m)) + mset xs" if "om_inv m" "(k, ys) \<in> set m" for xs ys and m :: "(int, ball list) omap"
    using that
  proof (induction m)
    case (Cons e m)
    show ?case
    proof (cases "fst e = k")
      case True
      have "snd e = ys" using Cons.prems True om_inv_distinct [OF Cons.prems(1)] by (cases e) (auto simp: image_iff)
      then show ?thesis using True by (cases e) (simp add: union_ac)
    next
      case False
      have "(k, ys) \<in> set m" "om_inv m" using Cons.prems False by (auto simp: om_inv_def)
      moreover have "\<not> k < fst e" using Cons.prems(1) calculation(1) by (force simp: om_inv_def)
      ultimately show ?thesis using Cons.IH False by (cases e) (simp add: union_ac)
    qed
  qed simp
  from this [OF assms(1,2), of "butlast bs"]
  have "count (waiting (ti\<lparr>events := om_put k (butlast bs) (events ti)\<rparr>)) b + count (mset bs) b = count (waiting ti) b + count (mset (butlast bs)) b"
    by (simp add: waiting_def flip: count_union)
  moreover have "count (mset (butlast bs @ [last bs])) b = count (mset (butlast bs)) b + (if last bs = b then 1 else 0)" by simp
  then have "count (mset bs) b = count (mset (butlast bs)) b + (if last bs = b then 1 else 0)" unfolding append_butlast_last_id [OF assms(3)] .
  ultimately show ?thesis by simp
qed

lemma inv_trigger_events:
  assumes inv: "rcc_inv (TriggerEvents v k # fs) s" and step: "trigger_events v k s = Inr (gs, s')"
  shows "rcc_inv (gs @ fs) s'"
proof -
  note I = rcc_invD [OF inv]
  obtain ti where ti: "txn_at (sv_heap s) v = Some ti" using step by (cases "info_at v s") (auto simp: trigger_events_def info_at_Inr)
  have om: "om_inv (events ti)" using I(1) ti by (auto simp: heap_ok_def node_ok_def)
  have st: "(case filter (\<lambda>e. k \<le> fst e) (events ti) of [] \<Rightarrow> Inr ([], s) | (k1, bs) # es \<Rightarrow>
            if k1 \<le> sint (status ti) \<and> bs \<noteq> []
            then Inr ([TriggerBall (last bs), TriggerEvents v k1], upd_info v (\<lambda>ti. ti\<lparr>events := om_put k1 (butlast bs) (events ti)\<rparr>) s)
            else Inr ([TriggerEvents v (k1 + 1)], s)) = (Inr (gs, s') :: (frame list \<times> 'a rcc_server) res)"
    using step ti by (simp add: trigger_events_def info_at_Inr [symmetric])
  show ?thesis
  proof (cases "filter (\<lambda>e. k \<le> fst e) (events ti)")
    case Nil
    then show ?thesis using st inv_still [OF inv, of "[]" s] I(2) by simp
  next
    case (Cons e es)
    obtain k1 bs where e: "e = (k1, bs)" by (cases e)
    have mem: "(k1, bs) \<in> set (events ti)" 
    proof -
      have "(k1, bs) \<in> set (filter (\<lambda>e. k \<le> fst e) (events ti))" using Cons e by simp
      then show ?thesis by simp
    qed
    show ?thesis
    proof (cases "k1 \<le> sint (status ti) \<and> bs \<noteq> []")
      case False
      then show ?thesis using st Cons e inv_still [OF inv, of "[TriggerEvents v (k1 + 1)]" s] I(2) by auto
    next
      case True
      let ?g = "\<lambda>ti. ti\<lparr>events := om_put k1 (butlast bs) (events ti)\<rparr>"
      have s': "gs = [TriggerBall (last bs), TriggerEvents v k1]" "s' = upd_info v ?g s" using st Cons e True by auto
      have "rcc_inv (gs @ fs) (upd_info v ?g s)"
      proof (rule inv_events [OF inv ti])
        show "sum_list (map (frame_count c) gs) + count (waiting (?g ti)) c = frame_count c (TriggerEvents v k) + count (waiting ti) c" for c
          using pop_waiting [OF om mem, of c] True s'(1) by simp
        fix c w
        let ?l = "bl_level (sv_balls s ! c)"
        assume c: "settled (TriggerEvents v k # fs) (sv_heap s) c ?l w"
        have "still_asking (gs @ fs) c w" if "still_asking (TriggerEvents v k # fs) c w" using that s'(1) by (auto simp: still_asking_def)
        moreover have r: "reached ?l (sv_heap (upd_info v ?g s)) w" if "reached ?l (sv_heap s) w" using that by (auto simp: reached_def)
        moreover have "reached ?l (sv_heap (upd_info v ?g s)) w \<or> queued c ?l (sv_heap (upd_info v ?g s)) w" if q: "queued c ?l (sv_heap s) w"
        proof (cases "w = v \<and> sint ?l = k1")
          case True
          then show ?thesis using r ti \<open>k1 \<le> sint (status ti) \<and> bs \<noteq> []\<close> by (auto simp: reached_def)
        next
          case False
          then show ?thesis using q ti by (auto simp: queued_def om_put_get)
        qed
        ultimately show "settled (gs @ fs) (sv_heap (upd_info v ?g s)) c ?l w" using c unfolding settled_def by blast
      qed (use s'(1) om in \<open>auto simp: om_put_inv\<close>)
      then show ?thesis using s'(2) by simp
    qed
  qed
qed


lemma emit_sel [simp]: "sv_heap (emit x s) = sv_heap s" "sv_gra (emit x s) = sv_gra s" "sv_balls (emit x s) = sv_balls s" "sv_out (emit x s) = sv_out s @ [x]"
  by (simp_all add: emit_def)

lemma upd_info_heap: "sv_heap (upd_info v f s) = upd_vertex v (\<lambda>x. x\<lparr>vdata := f (vdata x)\<rparr>) (sv_heap s)"
  by (simp add: upd_info_def)

lemma still_upd_info: "(\<And>ti. still_info ti (f ti)) \<Longrightarrow> still (sv_heap s) (sv_heap (upd_info v f s))"
  unfolding upd_info_heap by (rule still_upd)

lemma still_flags: "still (sv_heap s) (sv_heap (upd_info v (during_asking_update (\<lambda>_. a)) s))"
    "still (sv_heap s) (sv_heap (upd_info v (during_commit_update (\<lambda>_. a)) s))"
  by (rule still_upd_info; auto simp: still_info_def node_ok_def is_commit_def)+

lemma inv_quiet:
  assumes "rcc_inv (f # fs) s" and "mute f" and "list_all idle gs"
  shows "rcc_inv (gs @ fs) s"
  using inv_still [OF assms, of s] rcc_invD(2) [OF assms(1)] by simp

lemma inv_ask_finish:
  assumes inv: "rcc_inv (AskFinish av # fs) s" and step: "ask_finish env av s = Inr (gs, s')"
  shows "rcc_inv (gs @ fs) s'"
proof -
  obtain ti where ti: "info_at av s = Inr ti" using step by (cases "info_at av s") (auto simp: ask_finish_def)
  consider "gs = []" "s' = s" | "gs = [FinishToCommit av None]" "s' = s"
    | sid where "gs = []" "s' = emit (Asked sid (txn_id ti)) (upd_info av (\<lambda>ti. ti\<lparr>during_asking := True\<rparr>) s)"
    using step ti by (cases "random_server 0 ti") (auto simp: ask_finish_def split: if_splits)
  then show ?thesis
  proof cases
    case 3
    have "gra_below (sv_heap s') (sv_gra s')" using rcc_invD(2) [OF inv] 3(2) by (simp add: gra_below_def)
    then show ?thesis using inv_still [OF inv, of gs s'] 3 still_flags(1) [of s av True] by (simp add: committed_log_def)
  qed (use inv_quiet [OF inv, of gs] in simp_all)
qed

lemma inv_finish_to_commit:
  assumes inv: "rcc_inv (FinishToCommit v defer # fs) s" and step: "finish_to_commit env v defer s = Inr (gs, s')"
  shows "rcc_inv (gs @ fs) s'"
proof -
  obtain ti where ti: "info_at v s = Inr ti" using step by (cases "info_at v s") (auto simp: finish_to_commit_def)
  show ?thesis
  proof (cases "during_commit ti")
    case True
    then show ?thesis using step ti inv_quiet [OF inv, of "[]"] by (simp add: finish_to_commit_def)
  next
    case False
    let ?s = "upd_info v (\<lambda>ti. ti\<lparr>during_commit := True\<rparr>) s"
    obtain anc where anc: "find_txn_anc_opt (sv_heap ?s) v [] = Inr anc"
      using step ti False by (cases "find_txn_anc_opt (sv_heap ?s) v []") (auto simp: finish_to_commit_def Let_def)
    obtain b s2 where b: "new_ball (length anc + 1) (CbAncFinish v defer) TXN_FINISH anc ?s = (b, s2)" by (cases "new_ball (length anc + 1) (CbAncFinish v defer) TXN_FINISH anc ?s")
    have s': "gs = [WaitFor True TXN_FINISH b anc]" "s' = s2" using step ti False anc b by (auto simp: finish_to_commit_def Let_def)
    have "gra_below (sv_heap ?s) (sv_gra ?s)" using rcc_invD(2) [OF inv] by (simp add: gra_below_def)
    then have "rcc_inv ([Reply None] @ fs) ?s" using inv_still [OF inv, of "[Reply None]" ?s] still_flags(2) [of s v True] by simp
    then have "rcc_inv (Reply None # fs) ?s" by simp
    from inv_new_ball [OF this _ _ b, of True] s' show ?thesis by simp
  qed
qed

text \<open>The commit of one transaction sets its flag with its status.\<close>

lemma inv_commit:
  assumes inv: "rcc_inv fs s" and ti: "txn_at (sv_heap s) v = Some ti" "\<not> committed ti"
  shows "rcc_inv fs (emit (Committed v) (upd_info v (\<lambda>ti. snd (union_status site TXN_COMMIT False False (ti\<lparr>committed := True\<rparr>))) s))"
    (is "rcc_inv fs ?s")
proof -
  note I = rcc_invD [OF inv]
  let ?g = "\<lambda>ti. snd (union_status site TXN_COMMIT False False (ti\<lparr>committed := True\<rparr>))"
  have g: "events (?g x) = events x" "status (?g x) = status x OR TXN_COMMIT" "committed (?g x)" for x
    by (simp_all add: union_status_def Let_def)
  have ok: "status_ok TXN_COMMIT" by (simp add: status_ok_def TXN_COMMIT_def)
  have up: "sint (status x) \<le> sint (status (?g x))" for x unfolding g(2) using status_grows [OF ok] by blast
  have "status_ok (status ti)" "om_inv (events ti)" using I(1) ti(1) by (auto simp: heap_ok_def node_ok_def)
  moreover have "is_commit (?g ti)" unfolding is_commit_def g(2) by (simp add: TXN_COMMIT_def or_eq_0_iff bit.conj_disj_distrib2)
  ultimately have "node_ok (?g ti)" using g ok up [of ti] unfolding node_ok_def status_ok_def by simp
  then have "heap_ok (sv_heap ?s)" using I(1) ti(1) by (auto simp: heap_ok_def)
  moreover have "gra_below (sv_heap ?s) (sv_gra ?s)" using I(2) by (simp add: gra_below_def)
  moreover have "cnt b (sv_heap ?s) = cnt b (sv_heap s)" for b
  proof -
    have "count (waiting (?g ti)) b = count (waiting ti) b" by (simp add: waiting_def g(1))
    then show ?thesis using cnt_upd_info [OF ti(1), of b ?g] by simp
  qed
  then have "balls_inv fs (sv_heap ?s) (sv_balls ?s)" using I(3) by (simp add: balls_inv_def pending_def)
  moreover have "reached l (sv_heap ?s) w" if "reached l (sv_heap s) w" for l w using that up by (auto simp: reached_def intro: order_trans)
  then have "settled fs (sv_heap ?s) b l w" if "settled fs (sv_heap s) b l w" for b l w
    using that g(1) by (auto simp: settled_def queued_def)
  then have "waits_inv fs (sv_heap ?s) (sv_balls ?s)" using I(4) by (simp add: waits_inv_def)
  moreover have "log_inv (sv_out ?s) (sv_heap ?s)"
  proof -
    have "v \<notin> set (committed_log (sv_out s))" using I(7) ti by (auto simp: log_inv_def)
    then show ?thesis using I(7) ti(1) g(3) by (auto simp: log_inv_def committed_log_def)
  qed
  ultimately show ?thesis using I(5,6) by (simp add: rcc_inv_def)
qed

lemma exe_finish_sel:
  assumes "exe_deptran_finish env tid s = Inr s'"
  shows "sv_heap s' = sv_heap s" "sv_gra s' = sv_gra s" "sv_balls s' = sv_balls s" "committed_log (sv_out s') = committed_log (sv_out s)"
proof -
  consider "s' = s" | outs d ds where "s' = emit (Executed tid outs) (s\<lparr>sv_db := d, sv_deferred := ds\<rparr>)"
    using assms by (auto simp: exe_deptran_finish_def rbind_def split: option.splits sum.splits)
  then show "sv_heap s' = sv_heap s" "sv_gra s' = sv_gra s" "sv_balls s' = sv_balls s" "committed_log (sv_out s') = committed_log (sv_out s)"
    by (cases, simp_all add: committed_log_def)+
qed

lemma inv_commit_scc:
  "commit_scc env vs s = Inr s' \<Longrightarrow> rcc_inv (Reply None # fs) s \<Longrightarrow> rcc_inv (Reply None # fs) s'"
proof (induction vs arbitrary: s)
  case (Cons v vs)
  obtain ti where ti: "info_at v s = Inr ti" using Cons.prems(1) by (cases "info_at v s") auto
  show ?case
  proof (cases "is_commit ti")
    case True
    then show ?thesis using Cons ti by simp
  next
    case False
    obtain s1 where s1: "(if res_ptr ti \<noteq> None then exe_deptran_finish env (txn_id ti) s else Inr s) = Inr s1"
      using Cons.prems(1) ti False by (cases "if res_ptr ti \<noteq> None then exe_deptran_finish env (txn_id ti) s else Inr s") auto
    have e: "sv_heap s1 = sv_heap s" "sv_gra s1 = sv_gra s" "sv_balls s1 = sv_balls s" "committed_log (sv_out s1) = committed_log (sv_out s)"
      using s1 exe_finish_sel [of env "txn_id ti" s s1] by (auto split: if_splits)
    have "rcc_inv ([Reply None] @ fs) s1" using inv_still [OF Cons.prems(2), of "[Reply None]" s1] e rcc_invD(2) [OF Cons.prems(2)] by simp
    then have inv1: "rcc_inv (Reply None # fs) s1" by simp
    let ?s2 = "emit (Committed v) (upd_info v (\<lambda>ti. snd (union_status (en_site env) TXN_COMMIT False False (ti\<lparr>committed := True\<rparr>))) s1)"
    have r: "verify (\<not> committed ti) (commit_scc env vs ?s2) = Inr s'" using Cons.prems(1) ti False s1 by simp
    then have c: "\<not> committed ti" "commit_scc env vs ?s2 = Inr s'" by (auto simp: verify_def split: if_splits)
    have "txn_at (sv_heap s1) v = Some ti" using ti e(1) by (simp add: info_at_Inr)
    from inv_commit [OF inv1 this c(1)] show ?thesis by (rule Cons.IH [OF c(2)])
  qed
qed simp

lemma idle_triggers: "list_all idle (trigger_frames vs)"
  by (simp add: trigger_frames_def list_all_iff)

lemma inv_callback:
  assumes inv: "rcc_inv (Callback cb # fs) s" and step: "callback env cb s = Inr (gs, s')"
  shows "rcc_inv (gs @ fs) s'"
proof -
  have q: "rcc_inv (Reply None # fs) s" using inv_quiet [OF inv, of "[Reply None]"] by simp
  show ?thesis
  proof (cases cb)
    case (CbAncFinish v d)
    let ?anc = "find_txn_scc_nearest_anc (sv_heap s) v []"
    obtain b s1 where b: "new_ball (length ?anc + 1) (CbSccCommit v d) TXN_COMMIT ?anc s = (b, s1)" by (cases "new_ball (length ?anc + 1) (CbSccCommit v d) TXN_COMMIT ?anc s")
    have s': "gs = [WaitFor True TXN_COMMIT b ?anc]" "s' = s1" using step CbAncFinish b by (auto simp: Let_def)
    have "\<exists>a < length (sv_balls s). \<not> bl_live (sv_balls s ! a) \<and> bl_cb (sv_balls s ! a) = CbAncFinish v d"
      using rcc_invD(5) [OF inv] CbAncFinish by simp
    from inv_new_ball [OF inv _ _ b, of True] this s' show ?thesis by simp
  next
    case (CbSccCommit v d)
    obtain ti where ti: "info_at v s = Inr ti" using step CbSccCommit by (cases "info_at v s") auto
    show ?thesis
    proof (cases "is_commit ti")
      case True
      then have "gs = [Reply d]" "s' = s" using step CbSccCommit ti by simp_all
      then show ?thesis using inv_quiet [OF inv, of "[Reply d]"] by simp
    next
      case False
      obtain sscc where sc: "sorted_scc (id_of txn_id (sv_heap s)) (sv_heap s) v = Inr sscc"
        using step CbSccCommit ti False by (cases "sorted_scc (id_of txn_id (sv_heap s)) (sv_heap s) v") auto
      obtain s1 where c: "commit_scc env sscc s = Inr s1" using step CbSccCommit ti False sc by (cases "commit_scc env sscc s") auto
      have s': "gs = trigger_frames sscc @ [Reply d]" "s' = s1" using step CbSccCommit ti False sc c by auto
      show ?thesis using inv_quiet [OF inv_commit_scc [OF c q], of gs] s' idle_triggers [of sscc] by simp
    qed
  next
    case (CbSubGraph tid d)
    then obtain x where "gs = []" "s' = emit (SubGraphReply d x) s" using step
      by (cases "sub_txn_graph (sv_heap s) (sv_gra s) tid []") auto
    then show ?thesis using inv_still [OF inv, of gs s'] rcc_invD(2) [OF inv] by (simp add: committed_log_def)
  next
    case (CbReadOnly d)
    then have "gs = []" "s' = emit (Replied d) s" using step by auto
    then show ?thesis using inv_still [OF inv, of gs s'] rcc_invD(2) [OF inv] by (simp add: committed_log_def)
  qed
qed


lemma inv_finish_request:
  assumes inv: "rcc_inv (FinishRequest tid res d # fs) s" and step: "finish_request env tid res d s = Inr (gs, s')"
  shows "rcc_inv (gs @ fs) s'"
proof -
  let ?g = "\<lambda>ti. snd (union_status (en_site env) TXN_FINISH False False (ti\<lparr>res_ptr := Some res\<rparr>))"
  obtain v where v: "gs = [TriggerEvents v (-128), FinishToCommit v (Some d)]" "s' = upd_info v ?g s"
    using step by (auto simp: finish_request_def split: option.splits)
  have ok: "status_ok TXN_FINISH" by (simp add: status_ok_def TXN_FINISH_def)
  have "is_commit (?g ti)" if "is_commit ti" for ti
    using that by (simp add: is_commit_def union_status_def Let_def bit.conj_disj_distrib2 or_eq_0_iff)
  then have "still_info ti (?g ti)" for ti using ok status_grows [OF ok, of "status ti"]
    by (auto simp: still_info_def node_ok_def status_ok_def union_status_def Let_def)
  then have "still (sv_heap s) (sv_heap s')" unfolding v(2) by (rule still_upd_info)
  moreover have "gra_below (sv_heap s') (sv_gra s')" using rcc_invD(2) [OF inv] v(2) by (simp add: gra_below_def)
  ultimately show ?thesis using inv_still [OF inv, of gs s'] v by simp
qed

lemma inv_step:
  assumes "counts_down (en_fires env)" and "rcc_inv (f # fs) s" and "rcc_step env f s = Inr (gs, s')"
  shows "rcc_inv (gs @ fs) s'"
proof (cases f)
  case (Reply d)
  then have "gs = []" "s' = (case d of None \<Rightarrow> s | Some x \<Rightarrow> emit (Replied x) s)" using assms(3) by simp_all
  then show ?thesis using inv_still [OF assms(2), of gs s'] rcc_invD(2) [OF assms(2)] Reply by (cases d) (simp_all add: committed_log_def)
next
  case (FinishToCommit v d)
  then show ?thesis using inv_finish_to_commit assms(2,3) by simp
next
  case (WaitFor ask st b vs)
  then show ?thesis using inv_wait_for assms(2,3) by simp
next
  case (AskFinish v)
  then show ?thesis using inv_ask_finish assms(2,3) by simp
next
  case (TriggerBall b)
  then show ?thesis using inv_trigger_ball assms by simp
next
  case (TriggerEvents v k)
  then show ?thesis using inv_trigger_events assms(2,3) by simp
next
  case (Callback cb)
  then show ?thesis using inv_callback assms(2,3) by simp
next
  case (FinishRequest tid res d)
  then show ?thesis using inv_finish_request assms(2,3) by simp
qed

lemma inv_rest: "rcc_inv [] s \<Longrightarrow> rcc_inv [Reply None] s"
  by (simp add: rcc_inv_def balls_inv_def waits_inv_def settled_def still_asking_def)

lemma inv_request:
  assumes "rcc_inv [] s" and "list_all idle gs" and "still (sv_heap s) (sv_heap s')" and "gra_below (sv_heap s') (sv_gra s')"
    and "sv_balls s' = sv_balls s" and "committed_log (sv_out s') = committed_log (sv_out s)"
  shows "rcc_inv gs s'"
  using inv_still [OF inv_rest [OF assms(1)] _ assms(2-)] by simp

lemma inv_merge:
  assumes inv: "rcc_inv [] s" and r: "received (sv_heap s) cells gra" and f: "idle f"
    and m: "rbind (merge_received env gra (s\<lparr>sv_heap := sv_heap s @ cells\<rparr>)) (\<lambda>(fs, s1). Inr (fs @ [f], s1)) = Inr (fs, s')"
  shows "rcc_inv fs s'"
proof -
  obtain fs1 where m1: "merge_received env gra (s\<lparr>sv_heap := sv_heap s @ cells\<rparr>) = Inr (fs1, s')" "fs = fs1 @ [f]"
    using m by (cases "merge_received env gra (s\<lparr>sv_heap := sv_heap s @ cells\<rparr>)") auto
  obtain nv h g where n: "fs1 = trigger_frames nv" "s' = s\<lparr>sv_heap := h, sv_gra := g\<rparr>" "still (sv_heap s) h" "gra_below h g"
    using merge_received_spec [OF rcc_invD(2) [OF inv] r m1(1)] by metis
  show ?thesis by (rule inv_request [OF inv]) (use n m1(2) f idle_triggers in simp_all)
qed

lemma inv_waiting_request:
  assumes inv: "rcc_inv [] s" and same: "s1 = s \<or> s1 = s\<lparr>sv_db := d\<rparr>" and n: "n = length ws + 1" and new: "new_ball n cb st ws s1 = (b, s')"
    and cb: "\<And>bs r. cb_ok bs r cb"
  shows "rcc_inv [WaitFor ask st b ws] s'"
proof -
  have "rcc_inv [Reply None] s1" by (rule inv_request [OF inv]) (use same rcc_invD(2) [OF inv] in auto)
  from inv_new_ball [OF this _ cb new [unfolded n]] show ?thesis by simp
qed

lemma rcc_invariant:
  assumes "counts_down (en_fires env)"
  shows "rcc_reach env d fs s \<Longrightarrow> rcc_inv fs s"
proof (induction rule: rcc_reach.induct)
  case init
  show ?case by (simp add: rcc_inv_def new_rcc_server_def heap_ok_def txn_at_beyond gra_below_def empty_graph_def gfind_def balls_inv_def
      owed_def pending_def cnt_def waits_inv_def log_inv_def committed_log_def)
next
  case (run f fs s gs s')
  then show ?case using inv_step [OF assms] by blast
next
  case (start s hdr input x s')
  note S = start_pie_job_spec [OF start.hyps(2)]
  show ?case by (rule inv_request [OF start.IH]) (use S rcc_invD(2) [OF start.IH] in \<open>auto simp: committed_log_def\<close>)
next
  case (finish s cells gra tid res x fs s')
  show ?case by (rule inv_merge [OF finish.IH finish.hyps(2) _ finish.hyps(3) [unfolded rcc_finish_txn_def]]) simp
next
  case (answer s cells gra av fs s')
  show ?case by (rule inv_merge [OF answer.IH answer.hyps(2) _ answer.hyps(3) [unfolded ask_reply_def]]) simp
next
  case (ask s tid x fs s')
  then obtain v b where v: "fs = [WaitFor False TXN_FINISH b [v]]" "new_ball 2 (CbSubGraph tid x) TXN_FINISH [v] s = (b, s')"
    by (auto simp: rcc_ask_txn_def rbind_def verify_def split: option.splits sum.splits if_splits prod.splits)
  show ?case unfolding v(1) by (rule inv_waiting_request [OF ask.IH _ _ v(2)]) auto
next
  case (read_only s hdr input x fs s')
  then obtain y cs b where v: "fs = [WaitFor False TXN_COMMIT b cs]" "new_ball (length cs + 1) (CbReadOnly x) TXN_COMMIT cs (s\<lparr>sv_db := y\<rparr>) = (b, s')"
    by (auto simp: rcc_ro_start_pie_def Let_def split: if_splits prod.splits)
  show ?case unfolding v(1) by (rule inv_waiting_request [OF read_only.IH _ _ v(2)]) auto
qed

end
