(* ===== verification/Rcc_Commit.thy ===== *)
theory Rcc_Commit
  imports Rcc_Safety
begin

text \<open>
  What the dependency-tracking server guarantees (\<^verbatim>\<open>deptran/rcc_service.cc\<close>, \<^verbatim>\<open>deptran/dtxn.cc\<close>): a component
  commits only after its ancestors, a transaction is executed once, and which edges the dependency entries
  record.
\<close>

section \<open>Where the balls come from\<close>

text \<open>The two kinds of balls of \<^verbatim>\<open>rcc_finish_to_commit\<close> were made by an earlier configuration, which
  computed what they wait for.\<close>

fun made_by :: "'d rcc_env \<Rightarrow> 'd \<Rightarrow> ball_rec \<Rightarrow> rcc_cb \<Rightarrow> bool" where
  "made_by env d r (CbAncFinish v x) \<longleftrightarrow> (\<exists>fs s. rcc_reach env d (FinishToCommit v x # fs) s \<and>
     find_txn_anc_opt (sv_heap (upd_info v (\<lambda>ti. ti\<lparr>during_commit := True\<rparr>) s)) v [] = Inr (bl_waits r))"
| "made_by env d r (CbSccCommit v x) \<longleftrightarrow> (\<exists>fs s. rcc_reach env d (Callback (CbAncFinish v x) # fs) s \<and>
     bl_waits r = find_txn_scc_nearest_anc (sv_heap s) v [])"
| "made_by env d r _ \<longleftrightarrow> True"

lemma made_by_cong: "bl_waits r = bl_waits r' \<Longrightarrow> made_by env d r cb = made_by env d r' cb"
  by (cases cb) simp_all

lemma commit_scc_balls: "commit_scc env vs s = Inr s' \<Longrightarrow> sv_balls s' = sv_balls s"
proof (induction vs arbitrary: s)
  case (Cons v vs)
  then show ?case
    by (auto simp: rbind_def verify_def exe_finish_sel dest!: exe_finish_sel(3) Cons.IH split: sum.splits if_splits)
qed simp

text \<open>A step leaves the balls as they are, triggers one, or adds one.\<close>

lemma step_balls:
  assumes "rcc_step env f s = Inr (gs, s')" and "r \<in> set (sv_balls s')"
  shows "(\<exists>r' \<in> set (sv_balls s). bl_cb r = bl_cb r' \<and> bl_waits r = bl_waits r') \<or>
    (\<exists>v x. f = FinishToCommit v x \<and> bl_cb r = CbAncFinish v x \<and>
       find_txn_anc_opt (sv_heap (upd_info v (\<lambda>ti. ti\<lparr>during_commit := True\<rparr>) s)) v [] = Inr (bl_waits r)) \<or>
    (\<exists>v x. f = Callback (CbAncFinish v x) \<and> bl_cb r = CbSccCommit v x \<and> bl_waits r = find_txn_scc_nearest_anc (sv_heap s) v [])"
proof -
  have same: ?thesis if "sv_balls s' = sv_balls s" using that assms(2) by auto
  show ?thesis
  proof (cases f)
    case (FinishToCommit v x)
    then show ?thesis using assms by (auto simp: finish_to_commit_def new_ball_def Let_def rbind_def split: sum.splits if_splits)
  next
    case (WaitFor ask st b vs)
    then show ?thesis using assms(1) by (intro same) (cases vs, auto simp: rbind_def split: sum.splits)
  next
    case (AskFinish v)
    then show ?thesis using assms(1) by (intro same) (auto simp: ask_finish_def rbind_def split: sum.splits if_splits)
  next
    case (TriggerBall b)
    then obtain r1 where r1: "b < length (sv_balls s)" "sv_balls s' = (sv_balls s)[b := r1]" "bl_cb r1 = bl_cb (sv_balls s ! b)" "bl_waits r1 = bl_waits (sv_balls s ! b)"
      using assms(1) by (auto simp: trigger_ball_def Let_def split: if_splits)
    have "r = r1 \<or> r \<in> set (sv_balls s)" using assms(2) r1(2) set_list_updD by metis
    then show ?thesis using r1 nth_mem [OF r1(1)] by auto
  next
    case (TriggerEvents v k)
    then show ?thesis using assms(1) by (intro same) (auto simp: trigger_events_def rbind_def split: sum.splits list.splits if_splits)
  next
    case (Callback cb)
    then show ?thesis using assms commit_scc_balls [of env _ s]
      by (cases cb) (auto simp: new_ball_def Let_def rbind_def split: sum.splits if_splits)
  next
    case (Reply x)
    then show ?thesis using assms(1) by (intro same) (auto split: option.splits)
  next
    case (FinishRequest tid res x)
    then show ?thesis using assms(1) by (intro same) (auto simp: finish_request_def split: option.splits)
  qed
qed

lemma balls_made:
  "rcc_reach env d fs s \<Longrightarrow> r \<in> set (sv_balls s) \<Longrightarrow> made_by env d r (bl_cb r)"
proof (induction arbitrary: r rule: rcc_reach.induct)
  case (run f fs s gs s')
  consider r' where "r' \<in> set (sv_balls s)" "bl_cb r = bl_cb r'" "bl_waits r = bl_waits r'"
    | v x where "f = FinishToCommit v x" "bl_cb r = CbAncFinish v x"
       "find_txn_anc_opt (sv_heap (upd_info v (\<lambda>ti. ti\<lparr>during_commit := True\<rparr>) s)) v [] = Inr (bl_waits r)"
    | v x where "f = Callback (CbAncFinish v x)" "bl_cb r = CbSccCommit v x" "bl_waits r = find_txn_scc_nearest_anc (sv_heap s) v []"
    using step_balls [OF run.hyps(2) run.prems] by blast
  then show ?case
  proof cases
    case 1
    then show ?thesis using run.IH made_by_cong by metis
  qed (use run.hyps(1) in auto)
next
  case (start s hdr input x s')
  then show ?case using start_pie_job_spec(2) [OF start.hyps(2)] by simp
next
  case (finish s cells gra tid res x fs s')
  then have "sv_balls s' = sv_balls s"
    by (auto simp: rcc_finish_txn_def merge_received_def rbind_def verify_def split: sum.splits if_splits)
  then show ?case using finish by simp
next
  case (answer s cells gra av fs s')
  then have "sv_balls s' = sv_balls s"
    by (auto simp: ask_reply_def merge_received_def rbind_def verify_def split: sum.splits if_splits)
  then show ?case using answer by simp
next
  case (ask s tid x fs s')
  then show ?case by (auto simp: rcc_ask_txn_def new_ball_def rbind_def verify_def Let_def split: option.splits sum.splits if_splits)
next
  case (read_only s hdr input x fs s')
  then show ?case by (auto simp: rcc_ro_start_pie_def new_ball_def Let_def split: if_splits prod.splits)
qed (simp add: new_rcc_server_def)

text \<open>A callback that runs has nothing left to wait for.\<close>

lemma cnt_queued:
  assumes "queued b st h w" and "heap_ok h"
  shows "0 < cnt b h"
proof -
  obtain ti bs where q: "txn_at h w = Some ti" "om_get (events ti) (sint st) = Some bs" "b \<in> set bs" using assms(1) by (auto simp: queued_def)
  have "(sint st, bs) \<in> set (events ti)" using q(2) by (simp add: om_get_def map_of_SomeD)
  then have "b \<in># waiting ti" using q(3) by (force simp: waiting_def)
  then have "0 < queue_count b (txn_at h w)" using q(1) by (simp add: queue_count_def)
  moreover have "w \<in> {..<length h}" using q(1) txn_at_beyond [of h w] by (cases "w < length h") auto
  ultimately show ?thesis unfolding cnt_def by (subst sum_pos2 [of _ w]) auto
qed

lemma frame_asking: "still_asking fs b w \<Longrightarrow> 0 < sum_list (map (frame_count b) fs)"
proof (induction fs)
  case (Cons f fs)
  show ?case
  proof (cases "0 < frame_count b f")
    case False
    then have "still_asking fs b w" using Cons.prems by (auto simp: still_asking_def)
    then show ?thesis using Cons.IH by simp
  qed simp
qed (simp add: still_asking_def)

lemma callback_ready:
  assumes "counts_down (en_fires env)" and "rcc_reach env d (Callback cb # fs) s"
  shows "\<exists>r \<in> set (sv_balls s). bl_cb r = cb \<and> (\<forall>w \<in> set (bl_waits r). reached (bl_level r) (sv_heap s) w)"
proof -
  note I = rcc_invD [OF rcc_invariant [OF assms]]
  obtain b where b: "b < length (sv_balls s)" "\<not> bl_live (sv_balls s ! b)" "bl_cb (sv_balls s ! b) = cb" using I(5) by auto
  have z: "pending b (Callback cb # fs) (sv_heap s) = 0" using I(3) [unfolded balls_inv_def, rule_format, of b] b(1,2) by (simp add: owed_def)
  have "reached (bl_level (sv_balls s ! b)) (sv_heap s) w" if "w \<in> set (bl_waits (sv_balls s ! b))" for w
  proof -
    have "\<not> queued b l (sv_heap s) w" for l using cnt_queued [OF _ I(1), of b l w] z by (auto simp: pending_def)
    moreover have "\<not> still_asking (Callback cb # fs) b w" using frame_asking [of "Callback cb # fs" b w] z unfolding pending_def by linarith
    ultimately show ?thesis using I(4) [unfolded waits_inv_def, rule_format, OF b(1) that] by (simp add: settled_def)
  qed
  then show ?thesis using b nth_mem by blast
qed

section \<open>Ancestors first\<close>

text \<open>A run with two transactions on one column: the second one is asked to finish first and waits for the
  first one.\<close>

definition demo_env :: "unit rcc_env" where
  "demo_env = \<lparr>en_site = 1, en_fires = (\<lambda>n k. k = n), en_defer = (\<lambda>_. Some DF_FAKE),
     en_start = (\<lambda>hdr input d. ([], [((0, 0), False)], d)), en_finish = (\<lambda>hdr input d. ([], d)), en_readonly = (\<lambda>hdr input d. ([], [(0, 0)], d))\<rparr>"

definition demo_header :: "uint64 \<Rightarrow> request_header" where
  "demo_header tid = \<lparr>hd_t_type = 1, hd_p_type = 1, hd_tid = tid, hd_cid = 0, hd_pid = tid\<rparr>"

definition demo_cells :: "uint64 \<Rightarrow> txn_heap" where
  "demo_cells tid = [Some \<lparr>vfrom = [], vto = [], vdata = set_txn_id new_txn_info tid\<rparr>]"

fun run_frames :: "'d rcc_env \<Rightarrow> nat \<Rightarrow> frame list \<Rightarrow> 'd rcc_server \<Rightarrow> (frame list \<times> 'd rcc_server) res" where
  "run_frames env 0 fs s = Inr (fs, s)"
| "run_frames env (Suc n) [] s = Inr ([], s)"
| "run_frames env (Suc n) (f # fs) s = rbind (rcc_step env f s) (\<lambda>(gs, s'). run_frames env n (gs @ fs) s')"

definition demo_started :: "unit rcc_server res" where
  "demo_started = rbind (rcc_start_pie_job demo_env (demo_header 10) [] 1 (new_rcc_server ()))
     (\<lambda>s. rcc_start_pie_job demo_env (demo_header 20) [] 2 s)"

definition demo_finish :: "uint64 \<Rightarrow> nat \<Rightarrow> nat \<Rightarrow> unit rcc_server \<Rightarrow> (frame list \<times> unit rcc_server) res" where
  "demo_finish tid x n s = rbind (rcc_finish_txn demo_env tid (gadd tid (length (sv_heap s)) empty_graph) 7 x
       (s\<lparr>sv_heap := sv_heap s @ demo_cells tid\<rparr>))
     (\<lambda>(fs, s). run_frames demo_env n fs s)"

definition demo_waiting :: "(frame list \<times> unit rcc_server) res" where
  "demo_waiting = rbind demo_started (demo_finish 20 3 40)"

definition demo_commit :: "nat \<Rightarrow> (frame list \<times> unit rcc_server) res" where
  "demo_commit n = rbind demo_waiting (\<lambda>(fs, s). demo_finish 10 4 n s)"

lemma run_frames_reach:
  "rcc_reach env d fs s \<Longrightarrow> run_frames env n fs s = Inr (fs', s') \<Longrightarrow> rcc_reach env d fs' s'"
proof (induction env n fs s rule: run_frames.induct)
  case (3 env n f fs s)
  then obtain gs s1 where "rcc_step env f s = Inr (gs, s1)" "run_frames env n (gs @ fs) s1 = Inr (fs', s')"
    by (cases "rcc_step env f s") auto
  then show ?case using 3 rcc_reach.run by fastforce
qed auto

lemma demo_finish_reach:
  assumes "rcc_reach demo_env () [] s" and "demo_finish tid x n s = Inr (fs, s')"
  shows "rcc_reach demo_env () fs s'"
proof -
  let ?g = "gadd tid (length (sv_heap s)) empty_graph" and ?s = "s\<lparr>sv_heap := sv_heap s @ demo_cells tid\<rparr>"
  obtain gs s1 where f: "rcc_finish_txn demo_env tid ?g 7 x ?s = Inr (gs, s1)" "run_frames demo_env n gs s1 = Inr (fs, s')"
    using assms(2) by (cases "rcc_finish_txn demo_env tid ?g 7 x ?s") (auto simp: demo_finish_def)
  have "received (sv_heap s) (demo_cells tid) ?g"
    by (simp add: received_def demo_cells_def fresh_cell_def fresh_new gadd_def empty_graph_def)
  from rcc_reach.finish [OF assms(1) this f(1)] show ?thesis by (rule run_frames_reach [OF _ f(2)])
qed

lemma demo_waiting_reach:
  assumes "demo_waiting = Inr (fs, s)"
  shows "rcc_reach demo_env () fs s"
proof -
  let ?start = "\<lambda>tid x. rcc_start_pie_job demo_env (demo_header tid) [] x"
  obtain s1 s2 where a: "?start 10 1 (new_rcc_server ()) = Inr s1" "?start 20 2 s1 = Inr s2" "demo_finish 20 3 40 s2 = Inr (fs, s)"
    using assms unfolding demo_waiting_def demo_started_def rbind_def by (auto split: sum.splits)
  have "rcc_reach demo_env () [] s2" by (rule rcc_reach.start [OF rcc_reach.start [OF rcc_reach.init a(1)] a(2)])
  then show ?thesis by (rule demo_finish_reach [OF _ a(3)])
qed

lemma demo_commit_reach:
  assumes "demo_commit n = Inr (fs, s)"
  shows "rcc_reach demo_env () fs s"
proof -
  obtain gs s1 where a: "demo_waiting = Inr (gs, s1)" "demo_finish 10 4 n s1 = Inr (fs, s)"
    using assms by (cases demo_waiting) (auto simp: demo_commit_def)
  have "case demo_waiting of Inl _ \<Rightarrow> False | Inr (fs, s) \<Rightarrow> fs = []" by code_simp
  then have "gs = []" unfolding a(1) by simp
  then show ?thesis using demo_finish_reach [OF _ a(2)] demo_waiting_reach [OF a(1)] by simp
qed




section \<open>Once only\<close>

text \<open>C4. In every configuration that a server in the dependency mode reaches, no vertex has been committed
  twice, a transaction that was executed here has the commit status, so that the check before a commit
  cannot fail, and a ball about to be triggered still exists.\<close>

theorem rcc_executes_once:
  assumes "counts_down (en_fires env)" and "rcc_reach env d fs s"
  shows "distinct (committed_log (sv_out s)) \<and>
    (\<forall>v ti. info_at v s = Inr ti \<and> committed ti \<longrightarrow> is_commit ti) \<and>
    (\<forall>v \<in> set (committed_log (sv_out s)). \<exists>ti. info_at v s = Inr ti \<and> is_commit ti) \<and>
    (\<forall>b gs. fs = TriggerBall b # gs \<longrightarrow> (\<exists>r. trigger_ball env b s = Inr r))"
proof -
  note inv = rcc_invariant [OF assms]
  note I = rcc_invD [OF inv]
  have c: "is_commit ti" if "info_at v s = Inr ti" "committed ti" for v ti
    using that I(1) by (auto simp: heap_ok_def node_ok_def info_at_Inr)
  moreover have "\<exists>r. trigger_ball env b s = Inr r" if "fs = TriggerBall b # gs" for b gs
    using trigger_live [OF inv [unfolded that]] by (simp add: trigger_ball_def Let_def)
  moreover have "\<exists>ti. info_at v s = Inr ti \<and> is_commit ti" if "v \<in> set (committed_log (sv_out s))" for v
    using that I(7) c by (auto simp: log_inv_def info_at_Inr)
  moreover have "distinct (committed_log (sv_out s))" using I(7) by (simp add: log_inv_def)
  ultimately show ?thesis by blast
qed

theorem rcc_executes_once_witness:
  "\<exists>fs s. demo_commit 100 = Inr (fs, s) \<and> committed_log (sv_out s) = [0, 1] \<and> distinct (committed_log (sv_out s))"
proof -
  have "case demo_commit 100 of Inl _ \<Rightarrow> False | Inr (fs, s) \<Rightarrow> committed_log (sv_out s) = [0, 1]" by code_simp
  then obtain fs s where g: "demo_commit 100 = Inr (fs, s)" "committed_log (sv_out s) = [0, 1]"
    by (auto split: sum.splits prod.splits)
  have "counts_down (en_fires demo_env)" by (simp add: counts_down_def demo_env_def)
  from rcc_executes_once [OF this demo_commit_reach [OF g(1)]] g show ?thesis by blast
qed

section \<open>Dependency entries\<close>

lemma edges_or_edge:
  assumes "deref h a \<noteq> None"
  shows "edges_to (or_edge a b r h) = insert (a, b) (edges_to h)"
  using assms by (auto simp: edges_to_def to_of_or_edge or_put_keys split: if_splits)

text \<open>C38. The edges that a dependency entry records: whatever transactions touch an entry that nobody has
  touched before, in whatever order, the new edges lead from the first of them to each later one. Two
  later ones get no edge between them, although one of them may have written what the other one reads.\<close>

theorem touch_star:
  assumes "sv_entries s e = None" and "deref (sv_heap s) t0 \<noteq> None"
  shows "edges_to (sv_heap (fold (\<lambda>(t, imm). touch t (e, imm)) ((t0, imm0) # ts) s)) =
    edges_to (sv_heap s) \<union> {(t0, t) |t. t \<in> fst ` set ts}"
proof -
  have "edges_to (sv_heap (fold (\<lambda>(t, imm). touch t (e, imm)) ts u)) = edges_to (sv_heap u) \<union> {(t0, t) |t. t \<in> fst ` set ts}"
    if "sv_entries u e = Some t0" "deref (sv_heap u) t0 \<noteq> None" for u :: "'a rcc_server"
    using that
  proof (induction ts arbitrary: u)
    case (Cons x ts)
    obtain t imm where x: "x = (t, imm)" by (cases x)
    let ?u = "touch t (e, imm) u"
    obtain r where u: "sv_heap ?u = or_edge t0 t r (sv_heap u)" "sv_entries ?u e = Some t0"
      using Cons.prems by (simp add: touch_def Let_def)
    then have "deref (sv_heap ?u) t0 \<noteq> None" using Cons.prems(2) vdata_or_edge [of t0 t r "sv_heap u" t0] by auto
    from Cons.IH [OF u(2) this] show ?case using x u(1) edges_or_edge [OF Cons.prems(2)] by auto
  qed simp
  from this [of "touch t0 (e, imm0) s"] show ?thesis using assms by (simp add: touch_def Let_def)
qed

theorem touch_star_witness:
  "\<exists>fs s. demo_waiting = Inr (fs, s) \<and> deref (sv_heap s) 1 \<noteq> None \<and> deref (sv_heap s) 2 \<noteq> None \<and>
    (1, 2) \<notin> edges_to (sv_heap (fold (\<lambda>(t, imm). touch t ((5, 0), imm)) [(0, True), (1, True), (2, True)] s))"
proof -
  have "case demo_waiting of Inl _ \<Rightarrow> False | Inr (fs, s) \<Rightarrow> sv_entries s (5, 0) = None \<and> deref (sv_heap s) 0 \<noteq> None \<and>
    deref (sv_heap s) 1 \<noteq> None \<and> deref (sv_heap s) 2 \<noteq> None \<and> to_of (sv_heap s) 1 = []" by code_simp
  then obtain fs s where s: "demo_waiting = Inr (fs, s)" "sv_entries s (5, 0) = None" "deref (sv_heap s) 0 \<noteq> None" "deref (sv_heap s) 1 \<noteq> None"
      "deref (sv_heap s) 2 \<noteq> None" "to_of (sv_heap s) 1 = []"
    by (auto split: sum.splits prod.splits)
  then have "(1, 2) \<notin> edges_to (sv_heap s)" by (simp add: edges_to_def om_keys_def)
  then show ?thesis using touch_star [OF s(2,3), of True "[(1, True), (2, True)]"] s(1,4,5) by auto
qed

end
