(* ===== verification/Rcc_Live.thy ===== *)
theory Rcc_Live
  imports Rcc_Commit
begin

text \<open>
  Progress of the dependency-tracking server: the code that a request starts always comes to an end, and no
  wakeup is lost. When the server is idle, a ball that has not run its callback waits for a transaction
  that has really not reached the status it waits for.
\<close>

section \<open>Changes of statuses and events\<close>

text \<open>From \<open>h\<close> to \<open>h'\<close> events stay as they are, and statuses change at the vertices of \<open>N\<close> only.\<close>

definition quiet :: "vptr set \<Rightarrow> txn_heap \<Rightarrow> txn_heap \<Rightarrow> bool" where
  "quiet N h h' \<longleftrightarrow> (\<forall>v ti'. txn_at h' v = Some ti' \<longrightarrow> events ti' = [] \<or>
     (\<exists>ti. txn_at h v = Some ti \<and> events ti' = events ti \<and> (v \<in> N \<or> status ti' = status ti)))"

lemma calm_refl [simp]: "quiet N h h"
  by (simp add: quiet_def)

lemma calm_trans: "quiet N a b \<Longrightarrow> quiet N b c \<Longrightarrow> quiet N a c"
  unfolding quiet_def by metis

lemma quiet_mono: "quiet N h h' \<Longrightarrow> N \<subseteq> M \<Longrightarrow> quiet M h h'"
  unfolding quiet_def by blast

lemma quiet_upd:
  assumes "\<And>ti. events (f ti) = events ti" and "v \<in> N \<or> (\<forall>ti. status (f ti) = status ti)"
  shows "quiet N h (upd_vertex v (\<lambda>x. x\<lparr>vdata := f (vdata x)\<rparr>) h)"
  using assms by (auto simp: quiet_def txn_at_upd split: if_splits)

lemma quiet_upd_info:
  assumes "\<And>ti. events (f ti) = events ti" and "v \<in> N \<or> (\<forall>ti. status (f ti) = status ti)"
  shows "quiet N (sv_heap s) (sv_heap (upd_info v f s))"
  unfolding upd_info_heap by (rule quiet_upd [OF assms])

lemma quiet_or_edge: "quiet N h (or_edge a b r h)"
  by (auto simp: quiet_def txn_at_or_edge)

lemma quiet_new: "fresh_info ti \<Longrightarrow> quiet N h (snd (new_vertex ti h))"
  by (auto simp: quiet_def txn_at_new fresh_info_def)

lemma quiet_append:
  assumes "received h cells gra"
  shows "quiet N h (h @ cells)"
proof -
  have "events ti = [] \<or> txn_at h v = Some ti" if t: "txn_at (h @ cells) v = Some ti" for v ti
  proof (cases "v < length h")
    case False
    then have "fresh_info ti" using still_append [OF assms] t by (simp add: still_def not_less)
    then show ?thesis by (simp add: fresh_info_def)
  qed (use t in \<open>simp add: txn_at_append\<close>)
  then show ?thesis by (auto simp: quiet_def)
qed

lemma quiet_start_pie:
  assumes "start_pie site pi True True ph h g = Inr (pv, ph', tv, h', g')"
  shows "quiet N h h'"
proof -
  obtain h1 where f: "foi_txn (pie_txn_id pi) h g = (tv, h1, g')" "h' = add_server site tv h1"
    using assms by (auto simp: start_pie_def Let_def split: prod.splits)
  have "quiet N h h1" using f(1) quiet_new [OF fresh_new, of N h]
    by (auto simp: foi_txn_def find_or_insert_def new_vertex_def split: option.splits prod.splits)
  moreover have "quiet N h1 h'" unfolding f(2) add_server_def by (rule quiet_upd) auto
  ultimately show ?thesis by (rule calm_trans)
qed

lemma quiet_touches: "quiet N (sv_heap s) (sv_heap (fold (touch tv) es s))"
proof (induction es arbitrary: s)
  case (Cons e es)
  have "quiet N (sv_heap s) (sv_heap (touch tv e s))" using touch_heap [of tv e s] quiet_or_edge by auto
  then show ?case using calm_trans [OF _ Cons.IH [of "touch tv e s"]] by simp
qed simp

lemma quiet_start:
  assumes "rcc_start_pie_job env hdr input x s = Inr s'"
  shows "quiet N (sv_heap s) (sv_heap s')"
proof -
  let ?pi = "\<lparr>pie_id = hd_pid hdr, pie_txn_id = hd_tid hdr, deferred = False, pie_type = hd_p_type hdr\<rparr>"
  obtain pv ph tv h g where a: "start_pie (en_site env) ?pi True True (sv_pies s) (sv_heap s) (sv_gra s) = Inr (pv, ph, tv, h, g)"
    using assms by (cases "start_pie (en_site env) ?pi True True (sv_pies s) (sv_heap s) (sv_gra s)") (auto simp: rcc_start_pie_job_def)
  let ?s = "s\<lparr>sv_pies := ph, sv_heap := h, sv_gra := g\<rparr>"
  obtain df outs s1 where b: "exe_deptran_start env hdr input tv ?s = Inr (df, outs, s1)"
    using assms a by (cases "exe_deptran_start env hdr input tv ?s") (auto simp: rcc_start_pie_job_def)
  have "sv_heap s' = sv_heap s1" using assms a b
    by (cases "sub_txn_graph (sv_heap s1) (sv_gra s1) (hd_tid hdr) []") (auto simp: rcc_start_pie_job_def)
  moreover obtain es d s0 where t: "s1 = fold (touch tv) es (s0\<lparr>sv_db := d\<rparr>)" "sv_heap s0 = h"
    using b by (auto simp: exe_deptran_start_def Let_def add_deferred_def split: option.splits prod.splits if_splits)
  ultimately have "quiet N h (sv_heap s')" using quiet_touches [of N "s0\<lparr>sv_db := d\<rparr>" tv es] by simp
  then show ?thesis by (rule calm_trans [OF quiet_start_pie [OF a]])
qed

text \<open>The merge of a graph triggers every vertex whose status it may have changed.\<close>

lemma quiet_target:
  assumes "apart_from lo hi h g" and "lo \<le> tv \<and> tv < hi" and "union_target tv h g = Inr (t, h', g')"
  shows "quiet N h h'"
proof -
  obtain y where y: "deref h tv = Some y" "find_or_insert_data txn_id (vdata y) h g = (t, h', g')"
    using assms(3) by (auto simp: union_target_def split: option.splits)
  have "fresh_info (vdata y)" using apart_fresh [OF assms(1) _ _ y(1)] assms(2) by simp
  from quiet_new [OF this, of N h] y(2) show ?thesis
    by (auto simp: find_or_insert_data_def new_vertex_def split: option.splits)
qed

lemma quiet_edges:
  "apart_from lo hi h g \<Longrightarrow> \<not> (lo \<le> o1 \<and> o1 < hi) \<Longrightarrow> \<forall>e \<in> set es. lo \<le> fst e \<and> fst e < hi \<Longrightarrow>
    union_edges o1 es h g = Inr (h', g') \<Longrightarrow> quiet N h h'"
proof (induction es arbitrary: h g)
  case (Cons e es)
  obtain tv r where e: "e = (tv, r)" by (cases e)
  obtain t h1 g1 where t: "union_target tv h g = Inr (t, h1, g1)" "union_edges o1 es (or_edge o1 t r h1) g1 = Inr (h', g')"
    using Cons.prems(4) e by (cases "union_target tv h g") auto
  have tv: "lo \<le> tv \<and> tv < hi" using Cons.prems(3) e by simp
  have u: "apart_from lo hi h1 g1" "\<not> (lo \<le> t \<and> t < hi)" using union_target_still [OF Cons.prems(1) tv t(1)] by auto
  have "quiet N (or_edge o1 t r h1) h'"
    using Cons.IH [OF apart_or_edge [OF u(1) Cons.prems(2) u(2)] Cons.prems(2) _ t(2)] Cons.prems(3) by simp
  then show ?case using calm_trans [OF quiet_target [OF Cons.prems(1) tv t(1)] calm_trans [OF quiet_or_edge]] by blast
qed auto

lemma quiet_source:
  assumes "apart_from lo hi h g" and "lo \<le> v \<and> v < hi" and "union_source site sv v h g = Inr (o1, h', g')"
  shows "quiet {o1} h h'"
proof -
  obtain x where x: "deref h v = Some x" using assms(3) by (auto simp: union_source_def split: option.splits)
  have fr: "fresh_info (vdata x)" using apart_fresh [OF assms(1) _ _ x] assms(2) by simp
  show ?thesis
  proof (cases "gfind g (txn_id (vdata x))")
    case None
    then show ?thesis using assms(3) x quiet_new [OF fr, of "{o1}" h] by (auto simp: union_source_def new_vertex_def)
  next
    case (Some w)
    then have r: "o1 = w" "h' = upd_vertex w (\<lambda>y. y\<lparr>vdata := snd (union_data site (vdata x) False sv (vdata y))\<rparr>) h"
      using assms(3) x by (auto simp: union_source_def)
    show ?thesis unfolding r by (rule quiet_upd) (simp_all add: union_data_def union_status_def Let_def)
  qed
qed

lemma quiet_vertices:
  "apart_from lo hi h g \<Longrightarrow> \<forall>v \<in> set vs. lo \<le> v \<and> v < hi \<Longrightarrow> union_vertices site sv vs h g nv = Inr (h', g', nv') \<Longrightarrow>
    quiet (set nv') h h' \<and> set nv \<subseteq> set nv'"
proof (induction vs arbitrary: h g nv)
  case (Cons v vs)
  obtain o1 h1 g1 where a: "union_source site sv v h g = Inr (o1, h1, g1)"
    using Cons.prems(3) by (cases "union_source site sv v h g") auto
  have v: "lo \<le> v \<and> v < hi" using Cons.prems(2) by simp
  have u: "apart_from lo hi h1 g1" "\<not> (lo \<le> o1 \<and> o1 < hi)" using union_source_still [OF Cons.prems(1) v a] by auto
  obtain h2 g2 where b: "union_edges o1 (to_of h1 v) h1 g1 = Inr (h2, g2)"
    using Cons.prems(3) a by (cases "union_edges o1 (to_of h1 v) h1 g1") auto
  have es: "\<forall>e \<in> set (to_of h1 v). lo \<le> fst e \<and> fst e < hi" using apart_to [OF u(1)] v by blast
  have ap: "apart_from lo hi h2 g2" using union_edges_still [OF u es b] by simp
  have c: "quiet (set nv') h2 h'" "set (os_ins o1 nv) \<subseteq> set nv'" using Cons.IH [OF ap, of "os_ins o1 nv"] Cons.prems(2,3) a b by simp_all
  have "quiet (set nv') h h1" using quiet_mono [OF quiet_source [OF Cons.prems(1) v a]] c(2) by simp
  then show ?case using calm_trans [OF calm_trans [OF _ quiet_edges [OF u es b]] c(1)] c(2) by auto
qed simp

lemma quiet_merge:
  assumes "gra_below (sv_heap s) (sv_gra s)" and "received (sv_heap s) cells gra"
    and "merge_received env gra (s\<lparr>sv_heap := sv_heap s @ cells\<rparr>) = Inr (fs, s')"
  shows "\<exists>nv. fs = trigger_frames nv \<and> sv_balls s' = sv_balls s \<and> quiet (set nv) (sv_heap s) (sv_heap s')"
proof -
  obtain h g nv where u: "union_vertices (en_site env) True (vertex_index gra) (sv_heap s @ cells) (sv_gra s) [] = Inr (h, g, nv)"
    "fs = trigger_frames nv" "s' = s\<lparr>sv_heap := h, sv_gra := g\<rparr>"
    using assms(3) unfolding merge_received_def verify_def rbind_def by (auto split: if_splits sum.splits)
  have "\<forall>v \<in> set (vertex_index gra). length (sv_heap s) \<le> v \<and> v < length (sv_heap s) + length cells"
    using assms(2) by (simp add: received_def list_all_iff)
  from quiet_vertices [OF received_apart [OF assms(1,2)] this u(1)]
  show ?thesis using u(2,3) calm_trans [OF quiet_append [OF assms(2)]] by auto
qed


section \<open>The invariant\<close>

text \<open>Keys of events are statuses; a reached status with waiting balls has a loop that will come to it; a
  ball in the events of a transaction waits for this transaction at that status; and a ball that still
  exists lacks a trigger.\<close>

definition keys_ok :: "txn_heap \<Rightarrow> bool" where
  "keys_ok h \<longleftrightarrow> (\<forall>v ti k bs. txn_at h v = Some ti \<longrightarrow> (k, bs) \<in> set (events ti) \<longrightarrow> -128 \<le> k \<and> k \<le> 127)"

definition alert :: "frame list \<Rightarrow> txn_heap \<Rightarrow> bool" where
  "alert fs h \<longleftrightarrow> (\<forall>v ti k bs. txn_at h v = Some ti \<longrightarrow> (k, bs) \<in> set (events ti) \<longrightarrow> bs \<noteq> [] \<longrightarrow> k \<le> sint (status ti) \<longrightarrow>
     (\<exists>j \<le> k. TriggerEvents v j \<in> set fs))"

definition placed :: "txn_heap \<Rightarrow> ball_rec list \<Rightarrow> bool" where
  "placed h rs \<longleftrightarrow> (\<forall>v ti k bs b. txn_at h v = Some ti \<longrightarrow> (k, bs) \<in> set (events ti) \<longrightarrow> b \<in> set bs \<longrightarrow>
     b < length rs \<and> k = sint (bl_level (rs ! b)) \<and> v \<in> set (bl_waits (rs ! b)))"

definition asks_ok :: "frame list \<Rightarrow> ball_rec list \<Rightarrow> bool" where
  "asks_ok fs rs \<longleftrightarrow> (\<forall>ask st b vs. WaitFor ask st b vs \<in> set fs \<longrightarrow> b < length rs \<and> st = bl_level (rs ! b) \<and> set vs \<subseteq> set (bl_waits (rs ! b)))"

definition lacks_trigger :: "ball_rec list \<Rightarrow> bool" where
  "lacks_trigger rs \<longleftrightarrow> (\<forall>r \<in> set rs. bl_live r \<longrightarrow> bl_count r < bl_need r)"

definition live_inv :: "frame list \<Rightarrow> 'd rcc_server \<Rightarrow> bool" where
  "live_inv fs s \<longleftrightarrow> keys_ok (sv_heap s) \<and> alert fs (sv_heap s) \<and> placed (sv_heap s) (sv_balls s) \<and> asks_ok fs (sv_balls s) \<and> lacks_trigger (sv_balls s)"

text \<open>The balls stay what they are, and new ones may come.\<close>

definition balls_grow :: "ball_rec list \<Rightarrow> ball_rec list \<Rightarrow> bool" where
  "balls_grow rs rs' \<longleftrightarrow> length rs \<le> length rs' \<and> (\<forall>b < length rs. bl_level (rs' ! b) = bl_level (rs ! b) \<and> bl_waits (rs' ! b) = bl_waits (rs ! b))"

lemma balls_grow_refl [simp]: "balls_grow rs rs"
  by (simp add: balls_grow_def)

lemma live_change:
  assumes inv: "live_inv fs s" and q: "quiet N (sv_heap s) (sv_heap s')" and b: "balls_grow (sv_balls s) (sv_balls s')" "lacks_trigger (sv_balls s')"
    and t: "\<And>v j. TriggerEvents v j \<in> set fs \<Longrightarrow> TriggerEvents v j \<in> set fs'" "\<And>v. v \<in> N \<Longrightarrow> TriggerEvents v (-128) \<in> set fs'"
    and w: "\<And>ask st b vs. WaitFor ask st b vs \<in> set fs' \<Longrightarrow> WaitFor ask st b vs \<in> set fs \<or>
      (b < length (sv_balls s') \<and> st = bl_level (sv_balls s' ! b) \<and> set vs \<subseteq> set (bl_waits (sv_balls s' ! b)))"
  shows "live_inv fs' s'"
proof -
  note I = inv [unfolded live_inv_def]
  have old: "\<exists>ti0. txn_at (sv_heap s) v = Some ti0 \<and> events ti = events ti0 \<and> (v \<in> N \<or> status ti = status ti0)"
    if "txn_at (sv_heap s') v = Some ti" "e \<in> set (events ti)" for v ti e
    using q [unfolded quiet_def, rule_format, OF that(1)] that(2) by auto
  have "keys_ok (sv_heap s')" using I old unfolding keys_ok_def by metis
  moreover have "alert fs' (sv_heap s')" unfolding alert_def
  proof (intro allI impI)
    fix v ti k bs
    assume a: "txn_at (sv_heap s') v = Some ti" "(k, bs) \<in> set (events ti)" "bs \<noteq> []" "k \<le> sint (status ti)"
    obtain ti0 where o: "txn_at (sv_heap s) v = Some ti0" "events ti = events ti0" "v \<in> N \<or> status ti = status ti0" using old [OF a(1,2)] by blast
    have k: "-128 \<le> k" using I o(1,2) a(2) by (auto simp: keys_ok_def)
    show "\<exists>j \<le> k. TriggerEvents v j \<in> set fs'"
    proof (cases "v \<in> N")
      case False
      then have "\<exists>j \<le> k. TriggerEvents v j \<in> set fs" using I o a(2-4) unfolding alert_def by metis
      then show ?thesis using t(1) by blast
    qed (use t(2) k in blast)
  qed
  moreover have "placed (sv_heap s') (sv_balls s')" unfolding placed_def
  proof (intro allI impI)
    fix v ti k bs c
    assume a: "txn_at (sv_heap s') v = Some ti" "(k, bs) \<in> set (events ti)" "c \<in> set bs"
    obtain ti0 where "txn_at (sv_heap s) v = Some ti0" "events ti = events ti0" using old [OF a(1,2)] by blast
    then have "c < length (sv_balls s) \<and> k = sint (bl_level (sv_balls s ! c)) \<and> v \<in> set (bl_waits (sv_balls s ! c))"
      using I a(2,3) unfolding placed_def by metis
    then show "c < length (sv_balls s') \<and> k = sint (bl_level (sv_balls s' ! c)) \<and> v \<in> set (bl_waits (sv_balls s' ! c))"
      using b(1) by (auto simp: balls_grow_def)
  qed
  moreover have "asks_ok fs' (sv_balls s')" unfolding asks_ok_def
  proof (intro allI impI)
    fix ask st c vs
    assume "WaitFor ask st c vs \<in> set fs'"
    then consider "WaitFor ask st c vs \<in> set fs" | "c < length (sv_balls s') \<and> st = bl_level (sv_balls s' ! c) \<and> set vs \<subseteq> set (bl_waits (sv_balls s' ! c))"
      using w by blast
    then show "c < length (sv_balls s') \<and> st = bl_level (sv_balls s' ! c) \<and> set vs \<subseteq> set (bl_waits (sv_balls s' ! c))"
    proof cases
      case 1
      then have "c < length (sv_balls s) \<and> st = bl_level (sv_balls s ! c) \<and> set vs \<subseteq> set (bl_waits (sv_balls s ! c))"
        using I unfolding asks_ok_def by blast
      then show ?thesis using b(1) by (auto simp: balls_grow_def)
    qed
  qed
  ultimately show ?thesis using b(2) by (simp add: live_inv_def)
qed

text \<open>Steps that only exchange frames, or change statuses that a loop will look at.\<close>

fun silent :: "frame \<Rightarrow> bool" where
  "silent (WaitFor _ _ _ _) = False"
| "silent (TriggerEvents _ _) = False"
| "silent _ = True"

lemma live_silent:
  assumes inv: "live_inv (f # fs) s" and f: "silent f" and gs: "\<And>ask st b vs. WaitFor ask st b vs \<notin> set gs"
    and q: "quiet N (sv_heap s) (sv_heap s')" "\<And>v. v \<in> N \<Longrightarrow> TriggerEvents v (-128) \<in> set gs" and b: "sv_balls s' = sv_balls s"
  shows "live_inv (gs @ fs) s'"
proof (rule live_change [OF inv q(1)])
  show "TriggerEvents v j \<in> set (gs @ fs)" if "TriggerEvents v j \<in> set (f # fs)" for v j using that f by (cases f) auto
qed (use q(2) b gs inv in \<open>auto simp: live_inv_def\<close>)

lemma live_new_ball:
  assumes inv: "live_inv (f # fs) s" and f: "silent f" and new: "new_ball (length ws + 1) cb st ws s = (b, s')"
  shows "live_inv (WaitFor ask st b ws # fs) s'"
proof (rule live_change [OF inv, where N = "{}"])
  have s': "b = length (sv_balls s)" "s' = s\<lparr>sv_balls := sv_balls s @ [\<lparr>bl_need = length ws + 1, bl_count = 0, bl_live = True, bl_cb = cb, bl_level = st, bl_waits = ws\<rparr>]\<rparr>"
    using new by (auto simp: new_ball_def)
  show "quiet {} (sv_heap s) (sv_heap s')" using s'(2) by simp
  show "balls_grow (sv_balls s) (sv_balls s')" using s'(2) by (simp add: balls_grow_def nth_append)
  show "lacks_trigger (sv_balls s')" using s'(2) inv by (auto simp: live_inv_def lacks_trigger_def)
  show "TriggerEvents v j \<in> set (WaitFor ask st b ws # fs)" if "TriggerEvents v j \<in> set (f # fs)" for v j using that f by (cases f) auto
  show "WaitFor ask' st' c vs \<in> set (f # fs) \<or> c < length (sv_balls s') \<and> st' = bl_level (sv_balls s' ! c) \<and> set vs \<subseteq> set (bl_waits (sv_balls s' ! c))"
    if "WaitFor ask' st' c vs \<in> set (WaitFor ask st b ws # fs)" for ask' st' c vs using that s' by auto
qed simp


section \<open>Steps\<close>

lemma int8_range: "-128 \<le> sint (x :: int8)" "sint (x :: int8) \<le> 127"
  using sint_ge [of x] sint_lt [of x] by simp_all

lemma register_entries:
  assumes "(k, bs) \<in> set (events (snd (register_event st b ti)))"
  shows "(k, bs) \<in> set (events ti) \<or> (k = sint st \<and> sint (status ti) < k \<and> (\<forall>c \<in> set bs. c = b \<or> (\<exists>bs0. (k, bs0) \<in> set (events ti) \<and> c \<in> set bs0)))"
  using assms by (auto simp: register_event_def om_get_def dest!: set_om_put dest: map_of_SomeD split: if_splits option.splits)

lemma live_wait_for:
  assumes inv: "live_inv (WaitFor ask st b vs # fs) s" and step: "wait_for ask st b vs s = Inr (gs, s')"
  shows "live_inv (gs @ fs) s'"
proof (cases vs)
  case Nil
  then have "gs = [TriggerBall b]" "s' = s" using step by auto
  then show ?thesis using live_change [OF inv, of "{}" s "gs @ fs"] inv by (auto simp: live_inv_def)
next
  case (Cons av avs)
  note I = inv [unfolded live_inv_def]
  obtain ti where ti: "txn_at (sv_heap s) av = Some ti" using step Cons by (cases "info_at av s") (auto simp: info_at_Inr)
  let ?g = "\<lambda>ti. snd (register_event st b ti)"
  have s': "gs = map TriggerBall (fst (register_event st b ti)) @ (if ask then [AskFinish av] else []) @ [WaitFor ask st b avs]" "s' = upd_info av ?g s"
    using step Cons ti by (auto simp: info_at_Inr [symmetric])
  have b: "b < length (sv_balls s)" "st = bl_level (sv_balls s ! b)" "set vs \<subseteq> set (bl_waits (sv_balls s ! b))"
    using conjunct1 [OF conjunct2 [OF conjunct2 [OF conjunct2 [OF I]]], unfolded asks_ok_def, rule_format, of ask st b vs] by simp_all
  have old: "(v = av \<and> k = sint st \<and> sint (status ti') < k \<and> (\<forall>c \<in> set bs. c = b \<or> (\<exists>bs0. (k, bs0) \<in> set (events ti) \<and> c \<in> set bs0))) \<or>
      (\<exists>ti0. txn_at (sv_heap s) v = Some ti0 \<and> (k, bs) \<in> set (events ti0) \<and> status ti' = status ti0)"
    if "txn_at (sv_heap s') v = Some ti'" "(k, bs) \<in> set (events ti')" for v ti' k bs
    using that ti register_entries [of k bs st b ti] s'(2) by (auto split: if_splits)
  have "keys_ok (sv_heap s')" unfolding keys_ok_def
  proof (intro allI impI)
    fix v ti' k bs
    assume "txn_at (sv_heap s') v = Some ti'" "(k, bs) \<in> set (events ti')"
    then show "-128 \<le> k \<and> k \<le> 127" using old [of v ti' k bs] I int8_range [of st] unfolding keys_ok_def by blast
  qed
  moreover have "alert (gs @ fs) (sv_heap s')" unfolding alert_def
  proof (intro allI impI)
    fix v ti' k bs
    assume a: "txn_at (sv_heap s') v = Some ti'" "(k, bs) \<in> set (events ti')" "bs \<noteq> []" "k \<le> sint (status ti')"
    then obtain ti0 where "txn_at (sv_heap s) v = Some ti0" "(k, bs) \<in> set (events ti0)" "status ti' = status ti0" using old [OF a(1,2)] by auto
    then have "\<exists>j \<le> k. TriggerEvents v j \<in> set (WaitFor ask st b vs # fs)" using I a(3,4) unfolding alert_def by metis
    then show "\<exists>j \<le> k. TriggerEvents v j \<in> set (gs @ fs)" by auto
  qed
  moreover have "placed (sv_heap s') (sv_balls s)" unfolding placed_def
  proof (intro allI impI)
    fix v ti' k bs c
    assume a: "txn_at (sv_heap s') v = Some ti'" "(k, bs) \<in> set (events ti')" "c \<in> set bs"
    have p: "c < length (sv_balls s) \<and> k = sint (bl_level (sv_balls s ! c)) \<and> v \<in> set (bl_waits (sv_balls s ! c))"
      if "txn_at (sv_heap s) v = Some ti0" "(k, bs0) \<in> set (events ti0)" "c \<in> set bs0" for ti0 bs0
      using I that unfolding placed_def by blast
    consider "v = av" "k = sint st" "c = b" | bs0 where "v = av" "(k, bs0) \<in> set (events ti)" "c \<in> set bs0"
      | ti0 where "txn_at (sv_heap s) v = Some ti0" "(k, bs) \<in> set (events ti0)"
      using old [OF a(1,2)] a(3) by blast
    then show "c < length (sv_balls s) \<and> k = sint (bl_level (sv_balls s ! c)) \<and> v \<in> set (bl_waits (sv_balls s ! c))"
    proof cases
      case 1
      then show ?thesis using b Cons by simp
    next
      case 2
      then show ?thesis using p [of ti bs0] ti by simp
    next
      case 3
      then show ?thesis using p [of ti0 bs] a(3) by simp
    qed
  qed
  moreover have "asks_ok (gs @ fs) (sv_balls s)"
    using I s'(1) b Cons unfolding asks_ok_def by (auto split: if_splits)
  ultimately show ?thesis using I s'(2) by (simp add: live_inv_def)
qed

lemma live_trigger_ball:
  assumes fires: "counts_down (en_fires env)" and safe: "rcc_inv (TriggerBall b # fs) s" and inv: "live_inv (TriggerBall b # fs) s"
    and step: "trigger_ball env b s = Inr (gs, s')"
  shows "live_inv (gs @ fs) s'"
proof -
  note L = trigger_live [OF safe]
  let ?r = "sv_balls s ! b"
  obtain r1 where r1: "s' = s\<lparr>sv_balls := (sv_balls s)[b := r1]\<rparr>" "bl_level r1 = bl_level ?r" "bl_waits r1 = bl_waits ?r" "bl_need r1 = bl_need ?r"
      "bl_count r1 = bl_count ?r + 1" "bl_live r1 \<longrightarrow> bl_count ?r + 1 \<noteq> bl_need ?r" "gs = [] \<or> gs = [Callback (bl_cb ?r)]"
    using step fires L by (auto simp: trigger_ball_def Let_def counts_down_def split: if_splits)
  have "lacks_trigger (sv_balls s')" unfolding lacks_trigger_def
  proof (intro ballI impI)
    fix r
    assume "r \<in> set (sv_balls s')" "bl_live r"
    then show "bl_count r < bl_need r" using set_list_updD [of r "sv_balls s" b r1] r1 L(3) inv by (auto simp: live_inv_def lacks_trigger_def)
  qed
  moreover have "balls_grow (sv_balls s) (sv_balls s')" using r1(1-3) L(1) by (auto simp: balls_grow_def nth_list_update)
  ultimately show ?thesis using live_change [OF inv, of "{}" s' "gs @ fs"] r1(1,7) by auto
qed

lemma first_key:
  assumes "om_inv m" and "filter (\<lambda>e. k \<le> fst e) m = (k1, bs) # es" and "(j, cs) \<in> set m" and "k \<le> j"
  shows "(j = k1 \<and> cs = bs) \<or> k1 < j"
proof -
  have "om_inv (filter (\<lambda>e. k \<le> fst e) m)" using assms(1) by (simp add: om_inv_def sorted_wrt_map sorted_wrt_filter)
  moreover have "(j, cs) \<in> set (filter (\<lambda>e. k \<le> fst e) m)" using assms(3,4) by simp
  ultimately show ?thesis unfolding assms(2) by (auto simp: om_inv_def)
qed


lemma trigger_due:
  assumes "live_inv (TriggerEvents v k # fs) s"
    and "txn_at (sv_heap s) w = Some tw" "(j, cs) \<in> set (events tw)" "cs \<noteq> []" "j \<le> sint (status tw)"
  shows "(w = v \<and> k \<le> j) \<or> (\<exists>i \<le> j. TriggerEvents w i \<in> set fs)"
proof -
  have "\<exists>i \<le> j. TriggerEvents w i \<in> set (TriggerEvents v k # fs)" using assms unfolding live_inv_def alert_def by blast
  then show ?thesis by auto
qed

lemma live_pop:
  assumes inv: "live_inv (TriggerEvents v k # fs) s" and ti: "txn_at (sv_heap s) v = Some ti" and om: "om_inv (events ti)"
    and flt: "filter (\<lambda>e. k \<le> fst e) (events ti) = (k1, bs) # es"
    and s': "s' = upd_info v (\<lambda>ti. ti\<lparr>events := om_put k1 (butlast bs) (events ti)\<rparr>) s"
  shows "live_inv ([TriggerBall (last bs), TriggerEvents v k1] @ fs) s'" (is "live_inv (?gs @ fs) s'")
proof -
  note I = inv [unfolded live_inv_def] and fk = first_key [OF om flt] and due = trigger_due [OF inv]
  have mem: "(k1, bs) \<in> set (events ti)"
  proof -
    have "(k1, bs) \<in> set (filter (\<lambda>e. k \<le> fst e) (events ti))" using flt by simp
    then show ?thesis by simp
  qed
  have old: "(w = v \<and> j = k1 \<and> cs = butlast bs) \<or> (\<exists>t0. txn_at (sv_heap s) w = Some t0 \<and> (j, cs) \<in> set (events t0) \<and> status tw = status t0)"
    if "txn_at (sv_heap s') w = Some tw" "(j, cs) \<in> set (events tw)" for w tw j cs
    using that ti s' by (auto dest!: set_om_put split: if_splits)
  have "alert (?gs @ fs) (sv_heap s')" unfolding alert_def
  proof (intro allI impI)
    fix w tw j cs
    assume a: "txn_at (sv_heap s') w = Some tw" "(j, cs) \<in> set (events tw)" "cs \<noteq> []" "j \<le> sint (status tw)"
    show "\<exists>i \<le> j. TriggerEvents w i \<in> set (?gs @ fs)"
    proof (cases "w = v \<and> j = k1")
      case False
      then obtain t0 where t0: "txn_at (sv_heap s) w = Some t0" "(j, cs) \<in> set (events t0)" "status tw = status t0" using old [OF a(1,2)] by blast
      have "k1 \<le> j" if "w = v \<and> k \<le> j" using that t0 ti fk [of j cs] by auto
      then show ?thesis using due [OF t0(1,2) a(3)] a(4) t0(3) by auto
    qed auto
  qed
  moreover have "keys_ok (sv_heap s')" unfolding keys_ok_def
  proof (intro allI impI)
    fix w tw j cs
    assume "txn_at (sv_heap s') w = Some tw" "(j, cs) \<in> set (events tw)"
    then show "-128 \<le> j \<and> j \<le> 127" using old [of w tw j cs] I mem ti unfolding keys_ok_def by blast
  qed
  moreover have "placed (sv_heap s') (sv_balls s)" unfolding placed_def
  proof (intro allI impI)
    fix w tw j cs c
    assume a: "txn_at (sv_heap s') w = Some tw" "(j, cs) \<in> set (events tw)" "c \<in> set cs"
    have "\<exists>t0 cs0. txn_at (sv_heap s) w = Some t0 \<and> (j, cs0) \<in> set (events t0) \<and> c \<in> set cs0"
      using old [OF a(1,2)] a(3) mem ti in_set_butlastD [of c bs] by blast
    then show "c < length (sv_balls s) \<and> j = sint (bl_level (sv_balls s ! c)) \<and> w \<in> set (bl_waits (sv_balls s ! c))"
      using I unfolding placed_def by blast
  qed
  ultimately show ?thesis using I s' by (auto simp: live_inv_def asks_ok_def)
qed

lemma live_trigger_events:
  assumes safe: "rcc_inv (TriggerEvents v k # fs) s" and inv: "live_inv (TriggerEvents v k # fs) s" and step: "trigger_events v k s = Inr (gs, s')"
  shows "live_inv (gs @ fs) s'"
proof -
  note I = inv [unfolded live_inv_def]
  obtain ti where ti: "txn_at (sv_heap s) v = Some ti" using step by (cases "info_at v s") (auto simp: trigger_events_def info_at_Inr)
  have om: "om_inv (events ti)" using rcc_invD(1) [OF safe] ti by (auto simp: heap_ok_def node_ok_def)
  have st: "(case filter (\<lambda>e. k \<le> fst e) (events ti) of [] \<Rightarrow> Inr ([], s) | (k1, bs) # es \<Rightarrow>
            if k1 \<le> sint (status ti) \<and> bs \<noteq> []
            then Inr ([TriggerBall (last bs), TriggerEvents v k1], upd_info v (\<lambda>ti. ti\<lparr>events := om_put k1 (butlast bs) (events ti)\<rparr>) s)
            else Inr ([TriggerEvents v (k1 + 1)], s)) = (Inr (gs, s') :: (frame list \<times> 'a rcc_server) res)"
    using step ti by (simp add: trigger_events_def info_at_Inr [symmetric])
  note due = trigger_due [OF inv]
  show ?thesis
  proof (cases "filter (\<lambda>e. k \<le> fst e) (events ti)")
    case Nil
    then have e: "gs = []" "s' = s" using st by auto
    have "alert fs (sv_heap s)" unfolding alert_def
    proof (intro allI impI)
      fix w tw j cs
      assume a: "txn_at (sv_heap s) w = Some tw" "(j, cs) \<in> set (events tw)" "cs \<noteq> []" "j \<le> sint (status tw)"
      have "\<not> (w = v \<and> k \<le> j)" using Nil a(1,2) ti by (fastforce simp: filter_empty_conv)
      then show "\<exists>i \<le> j. TriggerEvents w i \<in> set fs" using due [OF a] by blast
    qed
    then show ?thesis using I e by (auto simp: live_inv_def asks_ok_def)
  next
    case (Cons e es)
    obtain k1 bs where e: "e = (k1, bs)" by (cases e)
    note fk = first_key [OF om Cons [unfolded e]]
    show ?thesis
    proof (cases "k1 \<le> sint (status ti) \<and> bs \<noteq> []")
      case False
      then have g: "gs = [TriggerEvents v (k1 + 1)]" "s' = s" using st Cons e by auto
      have "alert (gs @ fs) (sv_heap s)" unfolding alert_def
      proof (intro allI impI)
        fix w tw j cs
        assume a: "txn_at (sv_heap s) w = Some tw" "(j, cs) \<in> set (events tw)" "cs \<noteq> []" "j \<le> sint (status tw)"
        have "k1 + 1 \<le> j" if "w = v \<and> k \<le> j" using that a ti fk [of j cs] False by auto
        then show "\<exists>i \<le> j. TriggerEvents w i \<in> set (gs @ fs)" using due [OF a] g(1) by auto
      qed
      then show ?thesis using I g by (auto simp: live_inv_def asks_ok_def)
    next
      case True
      have "gs = [TriggerBall (last bs), TriggerEvents v k1]" "s' = upd_info v (\<lambda>ti. ti\<lparr>events := om_put k1 (butlast bs) (events ti)\<rparr>) s"
        using st Cons e True by auto
      then show ?thesis using live_pop [OF inv ti om Cons [unfolded e]] by simp
    qed
  qed
qed

lemma quiet_commit_scc: "commit_scc env vs s = Inr s' \<Longrightarrow> set vs \<subseteq> N \<Longrightarrow> quiet N (sv_heap s) (sv_heap s')"
proof (induction vs arbitrary: s)
  case (Cons v vs)
  obtain ti where ti: "info_at v s = Inr ti" using Cons.prems(1) by (cases "info_at v s") auto
  show ?case
  proof (cases "is_commit ti")
    case True
    then show ?thesis using Cons ti by simp
  next
    case False
    obtain s1 where s1: "(if res_ptr ti \<noteq> None then exe_deptran_finish env (txn_id ti) s else Inr s) = Inr s1"
      using Cons.prems(1) ti False by (cases "if res_ptr ti \<noteq> None then exe_deptran_finish env (txn_id ti) s else Inr s") auto
    have e: "sv_heap s1 = sv_heap s" using s1 exe_finish_sel(1) [of env "txn_id ti" s s1] by (auto split: if_splits)
    let ?g = "\<lambda>ti. snd (union_status (en_site env) TXN_COMMIT False False (ti\<lparr>committed := True\<rparr>))"
    have "verify (\<not> committed ti) (commit_scc env vs (emit (Committed v) (upd_info v ?g s1))) = Inr s'" using Cons.prems(1) ti False s1 by simp
    then have c: "commit_scc env vs (emit (Committed v) (upd_info v ?g s1)) = Inr s'" by (auto simp: verify_def split: if_splits)
    have "quiet N (sv_heap s1) (sv_heap (upd_info v ?g s1))"
      by (rule quiet_upd_info) (use Cons.prems(2) in \<open>simp_all add: union_status_def Let_def\<close>)
    then show ?thesis using calm_trans [OF _ Cons.IH [OF c]] Cons.prems(2) e by simp
  qed
qed simp

lemma trigger_frames_mem: "v \<in> set vs \<Longrightarrow> TriggerEvents v (-128) \<in> set (trigger_frames vs)"
  by (auto simp: trigger_frames_def)

lemma trigger_frames_waits [simp]: "WaitFor ask st b vs \<notin> set (trigger_frames ws)"
  by (auto simp: trigger_frames_def)

lemma live_callback:
  assumes inv: "live_inv (Callback cb # fs) s" and step: "callback env cb s = Inr (gs, s')"
  shows "live_inv (gs @ fs) s'"
proof (cases cb)
  case (CbAncFinish v d)
  let ?anc = "find_txn_scc_nearest_anc (sv_heap s) v []"
  obtain b s1 where b: "new_ball (length ?anc + 1) (CbSccCommit v d) TXN_COMMIT ?anc s = (b, s1)" by (cases "new_ball (length ?anc + 1) (CbSccCommit v d) TXN_COMMIT ?anc s")
  have "gs = [WaitFor True TXN_COMMIT b ?anc]" "s' = s1" using step CbAncFinish b by (auto simp: Let_def)
  then show ?thesis using live_new_ball [OF inv _ b, of True] by simp
next
  case (CbSccCommit v d)
  obtain ti where ti: "info_at v s = Inr ti" using step CbSccCommit by (cases "info_at v s") auto
  show ?thesis
  proof (cases "is_commit ti")
    case True
    then have "gs = [Reply d]" "s' = s" using step CbSccCommit ti by simp_all
    then show ?thesis using live_silent [OF inv, of gs "{}" s'] by simp
  next
    case False
    obtain sscc where sc: "sorted_scc (id_of txn_id (sv_heap s)) (sv_heap s) v = Inr sscc"
      using step CbSccCommit ti False by (cases "sorted_scc (id_of txn_id (sv_heap s)) (sv_heap s) v") auto
    obtain s1 where c: "commit_scc env sscc s = Inr s1" using step CbSccCommit ti False sc by (cases "commit_scc env sscc s") auto
    have s': "gs = trigger_frames sscc @ [Reply d]" "s' = s1" using step CbSccCommit ti False sc c by auto
    show ?thesis
      by (rule live_silent [OF inv, of gs "set sscc" s'])
        (use s' quiet_commit_scc [OF c] commit_scc_balls [OF c] trigger_frames_mem in auto)
  qed
next
  case (CbSubGraph tid d)
  then obtain x where "gs = []" "s' = emit (SubGraphReply d x) s" using step by (cases "sub_txn_graph (sv_heap s) (sv_gra s) tid []") auto
  then show ?thesis using live_silent [OF inv, of gs "{}" s'] by simp
next
  case (CbReadOnly d)
  then show ?thesis using step live_silent [OF inv, of gs "{}" s'] by auto
qed


lemma live_finish_to_commit:
  assumes inv: "live_inv (FinishToCommit v d # fs) s" and step: "finish_to_commit env v d s = Inr (gs, s')"
  shows "live_inv (gs @ fs) s'"
proof -
  obtain ti where ti: "info_at v s = Inr ti" using step by (cases "info_at v s") (auto simp: finish_to_commit_def)
  show ?thesis
  proof (cases "during_commit ti")
    case True
    then show ?thesis using step ti live_silent [OF inv, of "[]" "{}" s] by (simp add: finish_to_commit_def)
  next
    case False
    let ?s = "upd_info v (\<lambda>ti. ti\<lparr>during_commit := True\<rparr>) s"
    obtain anc where anc: "find_txn_anc_opt (sv_heap ?s) v [] = Inr anc"
      using step ti False by (cases "find_txn_anc_opt (sv_heap ?s) v []") (auto simp: finish_to_commit_def Let_def)
    obtain b s2 where b: "new_ball (length anc + 1) (CbAncFinish v d) TXN_FINISH anc ?s = (b, s2)" by (cases "new_ball (length anc + 1) (CbAncFinish v d) TXN_FINISH anc ?s")
    have s': "gs = [WaitFor True TXN_FINISH b anc]" "s' = s2" using step ti False anc b by (auto simp: finish_to_commit_def Let_def)
    have "quiet {} (sv_heap s) (sv_heap ?s)" by (rule quiet_upd_info) simp_all
    then have "live_inv (Reply None # fs) ?s" using live_silent [OF inv, of "[Reply None]" "{}" ?s] by simp
    from live_new_ball [OF this _ b, of True] s' show ?thesis by simp
  qed
qed

lemma live_ask_finish:
  assumes inv: "live_inv (AskFinish av # fs) s" and step: "ask_finish env av s = Inr (gs, s')"
  shows "live_inv (gs @ fs) s'"
proof -
  obtain ti where ti: "info_at av s = Inr ti" using step by (cases "info_at av s") (auto simp: ask_finish_def)
  let ?s = "upd_info av (\<lambda>ti. ti\<lparr>during_asking := True\<rparr>) s"
  have "quiet {} (sv_heap s) (sv_heap ?s)" by (rule quiet_upd_info) simp_all
  moreover have "(gs = [] \<or> gs = [FinishToCommit av None]) \<and> (s' = s \<or> (\<exists>sid. s' = emit (Asked sid (txn_id ti)) ?s))"
    using step ti by (cases "random_server 0 ti") (auto simp: ask_finish_def split: if_splits)
  ultimately show ?thesis by (intro live_silent [OF inv, of gs "{}" s']) auto
qed

lemma live_finish_request:
  assumes inv: "live_inv (FinishRequest tid res d # fs) s" and step: "finish_request env tid res d s = Inr (gs, s')"
  shows "live_inv (gs @ fs) s'"
proof -
  let ?g = "\<lambda>ti. snd (union_status (en_site env) TXN_FINISH False False (ti\<lparr>res_ptr := Some res\<rparr>))"
  obtain v where v: "gs = [TriggerEvents v (-128), FinishToCommit v (Some d)]" "s' = upd_info v ?g s"
    using step by (auto simp: finish_request_def split: option.splits)
  have "quiet {v} (sv_heap s) (sv_heap s')" unfolding v(2) by (rule quiet_upd_info) (simp_all add: union_status_def Let_def)
  then show ?thesis using live_silent [OF inv, of gs "{v}" s'] v by simp
qed

lemma live_step:
  assumes "counts_down (en_fires env)" and "rcc_inv (f # fs) s" and "live_inv (f # fs) s" and "rcc_step env f s = Inr (gs, s')"
  shows "live_inv (gs @ fs) s'"
proof (cases f)
  case (Reply d)
  then have "gs = []" "s' = (case d of None \<Rightarrow> s | Some x \<Rightarrow> emit (Replied x) s)" using assms(4) by simp_all
  then show ?thesis using live_silent [OF assms(3), of gs "{}" s'] Reply by (cases d) simp_all
next
  case (FinishToCommit v d)
  then show ?thesis using live_finish_to_commit assms(3,4) by simp
next
  case (WaitFor ask st b vs)
  then show ?thesis using live_wait_for assms(3,4) by simp
next
  case (AskFinish v)
  then show ?thesis using live_ask_finish assms(3,4) by simp
next
  case (TriggerBall b)
  then show ?thesis using live_trigger_ball assms by simp
next
  case (TriggerEvents v k)
  then show ?thesis using live_trigger_events assms(2-4) by simp
next
  case (Callback cb)
  then show ?thesis using live_callback assms(3,4) by simp
next
  case (FinishRequest tid res d)
  then show ?thesis using live_finish_request assms(3,4) by simp
qed

section \<open>Requests\<close>

lemma live_rest: "live_inv [] s \<Longrightarrow> live_inv [Reply None] s"
  by (simp add: live_inv_def alert_def asks_ok_def)

lemma live_request:
  assumes "live_inv [] s" and "\<And>ask st b vs. WaitFor ask st b vs \<notin> set gs"
    and "quiet N (sv_heap s) (sv_heap s')" "\<And>v. v \<in> N \<Longrightarrow> TriggerEvents v (-128) \<in> set gs" and "sv_balls s' = sv_balls s"
  shows "live_inv gs s'"
  using live_silent [OF live_rest [OF assms(1)] _ assms(2-)] by simp

lemma live_merge:
  assumes inv: "live_inv [] s" and g: "gra_below (sv_heap s) (sv_gra s)" and r: "received (sv_heap s) cells gra" and f: "idle f"
    and m: "rbind (merge_received env gra (s\<lparr>sv_heap := sv_heap s @ cells\<rparr>)) (\<lambda>(fs, s1). Inr (fs @ [f], s1)) = Inr (fs, s')"
  shows "live_inv fs s'"
proof -
  obtain fs1 where m1: "merge_received env gra (s\<lparr>sv_heap := sv_heap s @ cells\<rparr>) = Inr (fs1, s')" "fs = fs1 @ [f]"
    using m by (cases "merge_received env gra (s\<lparr>sv_heap := sv_heap s @ cells\<rparr>)") auto
  obtain nv where n: "fs1 = trigger_frames nv" "sv_balls s' = sv_balls s" "quiet (set nv) (sv_heap s) (sv_heap s')"
    using quiet_merge [OF g r m1(1)] by blast
  show ?thesis by (rule live_request [OF inv, of fs "set nv"]) (use n m1(2) f trigger_frames_mem in auto)
qed

lemma live_waiting_request:
  assumes inv: "live_inv [] s" and same: "s1 = s \<or> s1 = s\<lparr>sv_db := d\<rparr>" and n: "n = length ws + 1" and new: "new_ball n cb st ws s1 = (b, s')"
  shows "live_inv [WaitFor ask st b ws] s'"
proof -
  have "live_inv [Reply None] s1" by (rule live_request [OF inv, where N = "{}"]) (use same in auto)
  from live_new_ball [OF this _ new [unfolded n]] show ?thesis by simp
qed

lemma rcc_live:
  assumes "counts_down (en_fires env)"
  shows "rcc_reach env d fs s \<Longrightarrow> live_inv fs s"
proof (induction rule: rcc_reach.induct)
  case init
  show ?case by (simp add: live_inv_def new_rcc_server_def keys_ok_def alert_def placed_def asks_ok_def lacks_trigger_def txn_at_beyond)
next
  case (run f fs s gs s')
  then show ?case using live_step [OF assms rcc_invariant [OF assms]] by blast
next
  case (start s hdr input x s')
  show ?case by (rule live_request [OF start.IH, where N = "{}"]) (use start_pie_job_spec(2) [OF start.hyps(2)] quiet_start [OF start.hyps(2)] in auto)
next
  case (finish s cells gra tid res x fs s')
  show ?case by (rule live_merge [OF finish.IH rcc_invD(2) [OF rcc_invariant [OF assms finish.hyps(1)]] finish.hyps(2) _ finish.hyps(3) [unfolded rcc_finish_txn_def]]) simp
next
  case (answer s cells gra av fs s')
  show ?case by (rule live_merge [OF answer.IH rcc_invD(2) [OF rcc_invariant [OF assms answer.hyps(1)]] answer.hyps(2) _ answer.hyps(3) [unfolded ask_reply_def]]) simp
next
  case (ask s tid x fs s')
  then obtain v b where v: "fs = [WaitFor False TXN_FINISH b [v]]" "new_ball 2 (CbSubGraph tid x) TXN_FINISH [v] s = (b, s')"
    by (auto simp: rcc_ask_txn_def rbind_def verify_def split: option.splits sum.splits if_splits prod.splits)
  show ?case unfolding v(1) by (rule live_waiting_request [OF ask.IH _ _ v(2)]) auto
next
  case (read_only s hdr input x fs s')
  then obtain y cs b where v: "fs = [WaitFor False TXN_COMMIT b cs]" "new_ball (length cs + 1) (CbReadOnly x) TXN_COMMIT cs (s\<lparr>sv_db := y\<rparr>) = (b, s')"
    by (auto simp: rcc_ro_start_pie_def Let_def split: if_splits prod.splits)
  show ?case unfolding v(1) by (rule live_waiting_request [OF read_only.IH _ _ v(2)]) auto
qed

section \<open>No lost wakeup\<close>

lemma cnt_pos:
  assumes "0 < cnt b h"
  shows "\<exists>v ti k bs. txn_at h v = Some ti \<and> (k, bs) \<in> set (events ti) \<and> b \<in> set bs"
proof -
  obtain v where v: "0 < queue_count b (txn_at h v)" using assms sum.neutral [of "{..<length h}"] unfolding cnt_def by (metis neq0_conv)
  then obtain ti where ti: "txn_at h v = Some ti" "b \<in># waiting ti" by (cases "txn_at h v") (auto simp: queue_count_def)
  then show ?thesis by (force simp: waiting_def)
qed

text \<open>C5. No wakeup is lost in the dependency mode: when the server is idle, every ball that has not run its
  callback waits for a transaction that has not reached the status the ball waits for. So as soon as the
  last transaction it waits for reaches the status, the request that brings the status also runs the
  callback.\<close>

theorem rcc_no_lost_wakeup:
  assumes "counts_down (en_fires env)" and "rcc_reach env d [] s" and "r \<in> set (sv_balls s)" and "bl_live r"
  shows "\<exists>w \<in> set (bl_waits r). \<exists>ti. info_at w s = Inr ti \<and> sint (status ti) < sint (bl_level r)"
proof -
  note L = rcc_live [OF assms(1,2), unfolded live_inv_def]
  obtain b where b: "b < length (sv_balls s)" "sv_balls s ! b = r" using assms(3) by (auto simp: in_set_conv_nth)
  have "owed (sv_balls s) b (pending b [] (sv_heap s))" using rcc_invD(3) [OF rcc_invariant [OF assms(1,2)]] by (simp add: balls_inv_def)
  then have "bl_count r + cnt b (sv_heap s) = bl_need r" using b assms(4) by (simp add: owed_def pending_def)
  moreover have "bl_count r < bl_need r" using L assms(3,4) by (simp add: lacks_trigger_def)
  ultimately have "0 < cnt b (sv_heap s)" by linarith
  then obtain v ti k bs where v: "txn_at (sv_heap s) v = Some ti" "(k, bs) \<in> set (events ti)" "b \<in> set bs" using cnt_pos by blast
  have "k = sint (bl_level r) \<and> v \<in> set (bl_waits r)" using L v b unfolding placed_def by blast
  moreover have "\<not> k \<le> sint (status ti)" using L v unfolding alert_def by fastforce
  ultimately show ?thesis using v(1) by (auto simp: info_at_Inr not_le intro!: bexI [of _ v])
qed

theorem rcc_no_lost_wakeup_witness:
  "\<exists>s r. rcc_reach demo_env () [] s \<and> r \<in> set (sv_balls s) \<and> bl_live r \<and>
    (\<exists>w \<in> set (bl_waits r). \<exists>ti. info_at w s = Inr ti \<and> sint (status ti) < sint (bl_level r))"
proof -
  have "case demo_waiting of Inl _ \<Rightarrow> False | Inr (fs, s) \<Rightarrow> fs = [] \<and> list_ex bl_live (sv_balls s)" by code_simp
  then obtain s where s: "demo_waiting = Inr ([], s)" "list_ex bl_live (sv_balls s)" by (auto split: sum.splits prod.splits)
  then obtain r where r: "r \<in> set (sv_balls s)" "bl_live r" by (auto simp: list_ex_iff)
  have "counts_down (en_fires demo_env)" by (simp add: counts_down_def demo_env_def)
  from rcc_no_lost_wakeup [OF this demo_waiting_reach [OF s(1)] r] r demo_waiting_reach [OF s(1)] show ?thesis by blast
qed


section \<open>Termination\<close>

text \<open>The code that a request starts, run to its end: \<open>None\<close> if it never ends.\<close>

partial_function (option) rcc_run :: "'d rcc_env \<Rightarrow> frame list \<Rightarrow> 'd rcc_server \<Rightarrow> 'd rcc_server res option" where
  "rcc_run env fs s = (case fs of [] \<Rightarrow> Some (Inr s) | f # fs1 \<Rightarrow>
     (case rcc_step env f s of Inl e \<Rightarrow> Some (Inl e) | Inr r \<Rightarrow> rcc_run env (fst r @ fs1) (snd r)))"

text \<open>What decreases: the transactions whose commit has not begun; then the balls and callbacks that wait for
  ancestors; then those that wait for a component; then the work left in frames and events.\<close>

definition heap_sum :: "(txn_info \<Rightarrow> nat) \<Rightarrow> txn_heap \<Rightarrow> nat" where
  "heap_sum w h = (\<Sum>v < length h. case txn_at h v of None \<Rightarrow> 0 | Some ti \<Rightarrow> w ti)"

definition to_begin :: "txn_heap \<Rightarrow> nat" where
  "to_begin = heap_sum (\<lambda>ti. if during_commit ti then 0 else 1)"

definition queued_balls :: "txn_heap \<Rightarrow> nat" where
  "queued_balls = heap_sum (\<lambda>ti. size (waiting ti))"

fun is_anc_cb :: "rcc_cb \<Rightarrow> bool" where
  "is_anc_cb (CbAncFinish v d) = True"
| "is_anc_cb _ = False"

fun is_scc_cb :: "rcc_cb \<Rightarrow> bool" where
  "is_scc_cb (CbSccCommit v d) = True"
| "is_scc_cb _ = False"

fun runs_cb :: "(rcc_cb \<Rightarrow> bool) \<Rightarrow> frame \<Rightarrow> nat" where
  "runs_cb P (Callback cb) = (if P cb then 1 else 0)"
| "runs_cb P _ = 0"

definition cb_work :: "(rcc_cb \<Rightarrow> bool) \<Rightarrow> frame list \<Rightarrow> ball_rec list \<Rightarrow> nat" where
  "cb_work P fs rs = length (filter (\<lambda>r. bl_live r \<and> P (bl_cb r)) rs) + sum_list (map (runs_cb P) fs)"

fun frame_work :: "frame \<Rightarrow> nat" where
  "frame_work (FinishToCommit v d) = 1"
| "frame_work (WaitFor ask st b vs) = 3 + 6 * length vs"
| "frame_work (AskFinish v) = 2"
| "frame_work (TriggerBall b) = 2"
| "frame_work (TriggerEvents v k) = 1 + nat (129 - k)"
| "frame_work (Callback cb) = 1"
| "frame_work (Reply d) = 1"
| "frame_work (FinishRequest tid res d) = 260"

definition work_left :: "frame list \<Rightarrow> txn_heap \<Rightarrow> nat" where
  "work_left fs h = sum_list (map frame_work fs) + 3 * queued_balls h"

definition run_order :: "((frame list \<times> 'd rcc_server) \<times> (frame list \<times> 'd rcc_server)) set" where
  "run_order = measures [\<lambda>(fs, s). to_begin (sv_heap s), \<lambda>(fs, s). cb_work is_anc_cb fs (sv_balls s),
     \<lambda>(fs, s). cb_work is_scc_cb fs (sv_balls s), \<lambda>(fs, s). work_left fs (sv_heap s)]"

lemma heap_sum_upd_info:
  assumes "txn_at (sv_heap s) v = Some ti"
  shows "heap_sum w (sv_heap (upd_info v f s)) + w ti = heap_sum w (sv_heap s) + w (f ti)"
proof -
  let ?h = "sv_heap s" and ?h' = "sv_heap (upd_info v f s)" and ?c = "\<lambda>x. case x of None \<Rightarrow> 0 | Some ti \<Rightarrow> w ti"
  have v: "v < length ?h" using assms txn_at_beyond [of ?h v] by (cases "v < length ?h") auto
  have "heap_sum w ?h' = ?c (txn_at ?h' v) + (\<Sum>u \<in> {..<length ?h} - {v}. ?c (txn_at ?h' u))"
    "heap_sum w ?h = ?c (txn_at ?h v) + (\<Sum>u \<in> {..<length ?h} - {v}. ?c (txn_at ?h u))"
    using v by (simp_all add: heap_sum_def sum.remove)
  moreover have "(\<Sum>u \<in> {..<length ?h} - {v}. ?c (txn_at ?h' u)) = (\<Sum>u \<in> {..<length ?h} - {v}. ?c (txn_at ?h u))"
    by (rule sum.cong) auto
  ultimately show ?thesis using assms by simp
qed

lemma heap_sum_same:
  assumes "\<And>ti. w (f ti) = w ti"
  shows "heap_sum w (sv_heap (upd_info v f s)) = heap_sum w (sv_heap s)"
proof (cases "txn_at (sv_heap s) v")
  case None
  then have "txn_at (sv_heap (upd_info v f s)) u = txn_at (sv_heap s) u" for u by (cases "u = v") simp_all
  then show ?thesis by (simp add: heap_sum_def)
next
  case (Some ti)
  then show ?thesis using heap_sum_upd_info [OF Some, of w f] assms by simp
qed

lemma commit_scc_sum:
  assumes "\<And>ti. w (snd (union_status (en_site env) TXN_COMMIT False False (ti\<lparr>committed := True\<rparr>))) = w ti"
  shows "commit_scc env vs s = Inr s' \<Longrightarrow> heap_sum w (sv_heap s') = heap_sum w (sv_heap s)"
proof (induction vs arbitrary: s)
  case (Cons v vs)
  then show ?case
    by (auto simp: rbind_def verify_def heap_sum_same [of w, OF assms] dest!: exe_finish_sel(1) Cons.IH split: sum.splits if_splits)
qed simp


lemma run_orderI:
  assumes "to_begin (sv_heap s') < to_begin (sv_heap s) \<or> (to_begin (sv_heap s') = to_begin (sv_heap s) \<and>
    (cb_work is_anc_cb fs' (sv_balls s') < cb_work is_anc_cb fs (sv_balls s) \<or> (cb_work is_anc_cb fs' (sv_balls s') = cb_work is_anc_cb fs (sv_balls s) \<and>
    (cb_work is_scc_cb fs' (sv_balls s') < cb_work is_scc_cb fs (sv_balls s) \<or> (cb_work is_scc_cb fs' (sv_balls s') = cb_work is_scc_cb fs (sv_balls s) \<and>
    work_left fs' (sv_heap s') < work_left fs (sv_heap s))))))"
  shows "((fs', s'), (fs, s)) \<in> run_order"
  using assms by (simp add: run_order_def)

lemma cb_work_frames [simp]:
  "cb_work P (f # fs) rs = runs_cb P f + cb_work P fs rs" "cb_work P (fs @ gs) rs = sum_list (map (runs_cb P) fs) + cb_work P gs rs"
  by (simp_all add: cb_work_def)

lemma cb_work_new [simp]: "cb_work P fs (rs @ [r]) = cb_work P fs rs + (if bl_live r \<and> P (bl_cb r) then 1 else 0)"
  by (simp add: cb_work_def)

lemma work_left_frames [simp]:
  "work_left (f # fs) h = frame_work f + work_left fs h" "work_left (fs @ gs) h = sum_list (map frame_work fs) + work_left gs h"
  by (simp_all add: work_left_def)

lemma no_callbacks: "\<forall>f \<in> set fs. \<forall>cb. f \<noteq> Callback cb \<Longrightarrow> sum_list (map (runs_cb P) fs) = 0"
proof (induction fs)
  case (Cons f fs)
  then show ?case by (cases f) auto
qed simp

text \<open>A step that makes no ball and runs no callback of the first two kinds leaves less work.\<close>

lemma order_work:
  assumes "sv_balls s' = sv_balls s" and "to_begin (sv_heap s') = to_begin (sv_heap s)" and "\<forall>g \<in> set gs. \<forall>cb. g \<noteq> Callback cb"
    and "runs_cb is_anc_cb f = 0" "runs_cb is_scc_cb f = 0"
    and "sum_list (map frame_work gs) + 3 * queued_balls (sv_heap s') < frame_work f + 3 * queued_balls (sv_heap s)"
  shows "((gs @ fs, s'), (f # fs, s)) \<in> run_order"
  by (rule run_orderI) (use assms no_callbacks [OF assms(3)] in \<open>simp add: work_left_def\<close>)

lemma order_wait_for:
  assumes om: "heap_ok (sv_heap s)" and step: "wait_for ask st b vs s = Inr (gs, s')"
  shows "((gs @ fs, s'), (WaitFor ask st b vs # fs, s)) \<in> run_order"
proof (cases vs)
  case Nil
  then show ?thesis using step by (intro order_work) auto
next
  case (Cons av avs)
  obtain ti where ti: "txn_at (sv_heap s) av = Some ti" using step Cons by (cases "info_at av s") (auto simp: info_at_Inr)
  let ?r = "register_event st b ti" and ?g = "\<lambda>ti. snd (register_event st b ti)"
  have s': "gs = map TriggerBall (fst ?r) @ (if ask then [AskFinish av] else []) @ [WaitFor ask st b avs]" "s' = upd_info av ?g s"
    using step Cons ti by (auto simp: info_at_Inr [symmetric])
  have "om_inv (events ti)" using om ti by (auto simp: heap_ok_def node_ok_def)
  from register_conserves [OF this, of st b] have "size (mset (fst ?r) + waiting (snd ?r)) = size (add_mset b (waiting ti))" by (rule arg_cong)
  then have sz: "length (fst ?r) + size (waiting (snd ?r)) = Suc (size (waiting ti))" by simp
  have q: "queued_balls (sv_heap s') + size (waiting ti) = queued_balls (sv_heap s) + size (waiting (snd ?r))"
    unfolding queued_balls_def s'(2) by (rule heap_sum_upd_info [OF ti])
  have "to_begin (sv_heap s') = to_begin (sv_heap s)" unfolding to_begin_def s'(2) by (rule heap_sum_same) (simp add: register_event_def)
  moreover have "sum_list (map frame_work gs) = 2 * length (fst ?r) + (if ask then 2 else 0) + 3 + 6 * length avs"
    unfolding s'(1) by (simp add: comp_def sum_list_triv)
  then have "sum_list (map frame_work gs) + 3 * queued_balls (sv_heap s') < 3 + 6 * length vs + 3 * queued_balls (sv_heap s)"
    using sz q Cons by (simp split: if_splits)
  ultimately show ?thesis using s' by (intro order_work) auto
qed

lemma order_trigger_ball:
  assumes "trigger_ball env b s = Inr (gs, s')"
  shows "((gs @ fs, s'), (TriggerBall b # fs, s)) \<in> run_order"
proof -
  let ?rs = "sv_balls s" and ?r = "sv_balls s ! b"
  obtain r1 where r1: "s' = s\<lparr>sv_balls := ?rs[b := r1]\<rparr>" "b < length ?rs" "bl_live ?r" "bl_cb r1 = bl_cb ?r"
      "(bl_live r1 \<and> gs = []) \<or> (\<not> bl_live r1 \<and> gs = [Callback (bl_cb ?r)])"
    using assms by (auto simp: trigger_ball_def Let_def split: if_splits)
  have "cb_work P (gs @ fs) (?rs[b := r1]) = cb_work P (TriggerBall b # fs) ?rs" for P
  proof -
    let ?l = "\<lambda>r. bl_live r \<and> P (bl_cb r)"
    have a: "?rs = take b ?rs @ ?r # drop (Suc b) ?rs" "?rs[b := r1] = take b ?rs @ r1 # drop (Suc b) ?rs"
      using r1(2) by (simp_all add: id_take_nth_drop upd_conv_take_nth_drop)
    have "length (filter ?l ?rs) = length (filter ?l (take b ?rs @ ?r # drop (Suc b) ?rs))" using a(1) by simp
    moreover have "length (filter ?l (?rs[b := r1])) = length (filter ?l (take b ?rs @ r1 # drop (Suc b) ?rs))" using a(2) by simp
    ultimately show ?thesis using r1(3-5) by (auto simp: cb_work_def)
  qed
  then show ?thesis using r1(1,5) by (intro run_orderI) (auto simp: work_left_def)
qed

lemma order_trigger_events:
  assumes om: "heap_ok (sv_heap s)" and keys: "keys_ok (sv_heap s)" and step: "trigger_events v k s = Inr (gs, s')"
  shows "((gs @ fs, s'), (TriggerEvents v k # fs, s)) \<in> run_order"
proof -
  obtain ti where ti: "txn_at (sv_heap s) v = Some ti" using step by (cases "info_at v s") (auto simp: trigger_events_def info_at_Inr)
  have inv: "om_inv (events ti)" using om ti by (auto simp: heap_ok_def node_ok_def)
  have st: "(case filter (\<lambda>e. k \<le> fst e) (events ti) of [] \<Rightarrow> Inr ([], s) | (k1, bs) # es \<Rightarrow>
            if k1 \<le> sint (status ti) \<and> bs \<noteq> []
            then Inr ([TriggerBall (last bs), TriggerEvents v k1], upd_info v (\<lambda>ti. ti\<lparr>events := om_put k1 (butlast bs) (events ti)\<rparr>) s)
            else Inr ([TriggerEvents v (k1 + 1)], s)) = (Inr (gs, s') :: (frame list \<times> 'a rcc_server) res)"
    using step ti by (simp add: trigger_events_def info_at_Inr [symmetric])
  show ?thesis
  proof (cases "filter (\<lambda>e. k \<le> fst e) (events ti)")
    case Nil
    then show ?thesis using st by (intro order_work) auto
  next
    case (Cons e es)
    obtain k1 bs where e: "e = (k1, bs)" by (cases e)
    have "(k1, bs) \<in> set (filter (\<lambda>e. k \<le> fst e) (events ti))" using Cons e by simp
    then have mem: "(k1, bs) \<in> set (events ti)" "k \<le> k1" by simp_all
    have k1: "k1 \<le> 127" using keys ti mem(1) by (auto simp: keys_ok_def)
    show ?thesis
    proof (cases "k1 \<le> sint (status ti) \<and> bs \<noteq> []")
      case False
      then have "gs = [TriggerEvents v (k1 + 1)]" "s' = s" using st Cons e by auto
      then show ?thesis using mem(2) k1 by (intro order_work) auto
    next
      case True
      let ?g = "\<lambda>ti. ti\<lparr>events := om_put k1 (butlast bs) (events ti)\<rparr>"
      have g: "gs = [TriggerBall (last bs), TriggerEvents v k1]" "s' = upd_info v ?g s" using st Cons e True by auto
      have "waiting ti = add_mset (last bs) (waiting (?g ti))"
      proof (rule multiset_eqI)
        show "count (waiting ti) x = count (add_mset (last bs) (waiting (?g ti))) x" for x
          using pop_waiting [OF inv mem(1), of x] True by (auto split: if_splits)
      qed
      then have "size (waiting ti) = Suc (size (waiting (?g ti)))" by simp
      moreover have "queued_balls (sv_heap s') + size (waiting ti) = queued_balls (sv_heap s) + size (waiting (?g ti))"
        unfolding queued_balls_def g(2) by (rule heap_sum_upd_info [OF ti])
      moreover have "to_begin (sv_heap s') = to_begin (sv_heap s)" unfolding to_begin_def g(2) by (rule heap_sum_same) simp
      ultimately show ?thesis using g mem(2) k1 by (intro order_work) auto
    qed
  qed
qed


lemma order_finish_to_commit:
  assumes step: "finish_to_commit env v d s = Inr (gs, s')"
  shows "((gs @ fs, s'), (FinishToCommit v d # fs, s)) \<in> run_order"
proof -
  obtain ti where ti: "info_at v s = Inr ti" using step by (cases "info_at v s") (auto simp: finish_to_commit_def)
  show ?thesis
  proof (cases "during_commit ti")
    case True
    then show ?thesis using step ti by (intro order_work) (auto simp: finish_to_commit_def)
  next
    case False
    let ?s = "upd_info v (\<lambda>ti. ti\<lparr>during_commit := True\<rparr>) s"
    have "sv_heap s' = sv_heap ?s"
      using step ti False by (cases "find_txn_anc_opt (sv_heap ?s) v []") (auto simp: finish_to_commit_def new_ball_def Let_def)
    moreover have "txn_at (sv_heap s) v = Some ti" using ti by (simp add: info_at_Inr)
    from heap_sum_upd_info [OF this, of "\<lambda>ti. if during_commit ti then 0 else 1" "\<lambda>ti. ti\<lparr>during_commit := True\<rparr>"]
    have "to_begin (sv_heap ?s) + 1 = to_begin (sv_heap s)" using False by (simp add: to_begin_def)
    ultimately show ?thesis by (intro run_orderI) simp
  qed
qed

lemma order_ask_finish:
  assumes step: "ask_finish env av s = Inr (gs, s')"
  shows "((gs @ fs, s'), (AskFinish av # fs, s)) \<in> run_order"
proof -
  obtain ti where ti: "info_at av s = Inr ti" using step by (cases "info_at av s") (auto simp: ask_finish_def)
  let ?s = "upd_info av (\<lambda>ti. ti\<lparr>during_asking := True\<rparr>) s"
  have "(gs = [] \<or> gs = [FinishToCommit av None]) \<and> (s' = s \<or> (\<exists>sid. s' = emit (Asked sid (txn_id ti)) ?s))"
    using step ti by (cases "random_server 0 ti") (auto simp: ask_finish_def split: if_splits)
  moreover have "to_begin (sv_heap ?s) = to_begin (sv_heap s)" unfolding to_begin_def by (rule heap_sum_same) simp
  moreover have "queued_balls (sv_heap ?s) = queued_balls (sv_heap s)" unfolding queued_balls_def by (rule heap_sum_same) (simp add: waiting_def)
  ultimately show ?thesis by (intro order_work) auto
qed

lemma order_callback:
  assumes step: "callback env cb s = Inr (gs, s')"
  shows "((gs @ fs, s'), (Callback cb # fs, s)) \<in> run_order"
proof (cases cb)
  case (CbAncFinish v d)
  then show ?thesis using step by (intro run_orderI) (auto simp: Let_def new_ball_def)
next
  case (CbSccCommit v d)
  obtain ti where ti: "info_at v s = Inr ti" using step CbSccCommit by (cases "info_at v s") auto
  have "sv_balls s' = sv_balls s \<and> to_begin (sv_heap s') = to_begin (sv_heap s) \<and> (\<forall>g \<in> set gs. \<forall>cb. g \<noteq> Callback cb)"
  proof (cases "is_commit ti")
    case True
    then show ?thesis using step CbSccCommit ti by auto
  next
    case False
    obtain sscc s1 where c: "commit_scc env sscc s = Inr s1" "gs = trigger_frames sscc @ [Reply d]" "s' = s1"
      using step CbSccCommit ti False by (auto simp: rbind_def split: sum.splits)
    have "to_begin (sv_heap s1) = to_begin (sv_heap s)" unfolding to_begin_def
      by (rule commit_scc_sum [OF _ c(1)]) (simp add: union_status_def Let_def)
    then show ?thesis using c commit_scc_balls [OF c(1)] by (auto simp: trigger_frames_def)
  qed
  then show ?thesis using CbSccCommit no_callbacks [of gs] by (intro run_orderI) simp
next
  case (CbSubGraph tid d)
  then obtain x where "gs = []" "s' = emit (SubGraphReply d x) s" using step by (cases "sub_txn_graph (sv_heap s) (sv_gra s) tid []") auto
  then show ?thesis using CbSubGraph by (intro order_work) auto
next
  case (CbReadOnly d)
  then show ?thesis using step by (intro order_work) auto
qed

lemma order_finish_request:
  assumes step: "finish_request env tid res d s = Inr (gs, s')"
  shows "((gs @ fs, s'), (FinishRequest tid res d # fs, s)) \<in> run_order"
proof -
  let ?g = "\<lambda>ti. snd (union_status (en_site env) TXN_FINISH False False (ti\<lparr>res_ptr := Some res\<rparr>))"
  obtain v where v: "gs = [TriggerEvents v (-128), FinishToCommit v (Some d)]" "s' = upd_info v ?g s"
    using step by (auto simp: finish_request_def split: option.splits)
  have "to_begin (sv_heap s') = to_begin (sv_heap s)" unfolding to_begin_def v(2) by (rule heap_sum_same) (simp add: union_status_def Let_def)
  moreover have "queued_balls (sv_heap s') = queued_balls (sv_heap s)" unfolding queued_balls_def v(2) by (rule heap_sum_same) (simp add: waiting_def union_status_def Let_def)
  ultimately show ?thesis using v by (intro order_work) auto
qed

lemma order_step:
  assumes "heap_ok (sv_heap s)" and "keys_ok (sv_heap s)" and "rcc_step env f s = Inr (gs, s')"
  shows "((gs @ fs, s'), (f # fs, s)) \<in> run_order"
proof (cases f)
  case (Reply d)
  then show ?thesis using assms(3) by (intro order_work) (auto split: option.splits)
next
  case (FinishToCommit v d)
  then show ?thesis using order_finish_to_commit assms(3) by simp
next
  case (WaitFor ask st b vs)
  then show ?thesis using order_wait_for assms(1,3) by simp
next
  case (AskFinish v)
  then show ?thesis using order_ask_finish assms(3) by simp
next
  case (TriggerBall b)
  then show ?thesis using order_trigger_ball assms(3) by simp
next
  case (TriggerEvents v k)
  then show ?thesis using order_trigger_events assms by simp
next
  case (Callback cb)
  then show ?thesis using order_callback assms(3) by simp
next
  case (FinishRequest tid res d)
  then show ?thesis using order_finish_request assms(3) by simp
qed



end
