(* ===== verification/Sharding_Map.thy ===== *)
theory Sharding_Map
  imports Mdb_Value
begin

text \<open>
  The placement of rows on servers (\<^verbatim>\<open>deptran/sharding.cc\<close>, \<^verbatim>\<open>sharding.h\<close>) and the multi-column values
  it works on (\<^verbatim>\<open>MultiValue\<close> of \<^verbatim>\<open>deptran/dtxn.h\<close>): from the name of a table and a key the functions
  compute an index into the list of the table's servers. The arithmetic is that of the code: 32-bit
  unsigned for the index, with the conversions of C++ in the remainders.

  A \<^verbatim>\<open>MultiValue\<close> is the list of its values. The two maps of the benchmark with real partitions are kept as
  functions from keys. Populating tables with generated rows is not modelled.
\<close>

section \<open>Multi-column values\<close>

type_synonym multi_value = "mvalue list"

text \<open>\<^verbatim>\<open>MultiValue::compare\<close>: the first difference decides, then the shorter one is smaller.\<close>

fun multi_compare :: "multi_value \<Rightarrow> multi_value \<Rightarrow> int res" where
  "multi_compare [] [] = Inr 0"
| "multi_compare (_ # _) [] = Inr 1"
| "multi_compare [] (_ # _) = Inr (-1)"
| "multi_compare (a # as) (b # bs) = rbind (compare_value a b) (\<lambda>r. if r \<noteq> 0 then Inr r else multi_compare as bs)"

fun values_eq :: "mvalue list \<Rightarrow> mvalue list \<Rightarrow> bool res" where
  "values_eq [] [] = Inr True"
| "values_eq (a # as) (b # bs) = rbind (value_eq a b) (\<lambda>e. if e then values_eq as bs else Inr False)"
| "values_eq _ _ = Inr False"

definition multi_eq :: "multi_value \<Rightarrow> multi_value \<Rightarrow> bool res" where
  "multi_eq a b = (if length a = length b then values_eq a b else Inr False)"

definition multi_less :: "multi_value \<Rightarrow> multi_value \<Rightarrow> bool res" where
  "multi_less a b = rbind (multi_compare a b) (\<lambda>r. Inr (r = -1))"

section \<open>Remainders\<close>

text \<open>The remainder of C++ has the sign of the dividend.\<close>

definition trunc_rem :: "int \<Rightarrow> int \<Rightarrow> int" where
  "trunc_rem a b = sgn a * (\<bar>a\<bar> mod \<bar>b\<bar>)"

text \<open>\<^verbatim>\<open>floor\<close> of a double, from its sign, exponent and mantissa; \<open>None\<close> for infinities and NaN.\<close>

definition dbl_floor :: "64 word \<Rightarrow> int option" where
  "dbl_floor b =
     (let e = uint (drop_bit 52 b AND 0x7FF); m = uint (b AND 0xFFFFFFFFFFFFF);
          x = (if e = 0 then m else m + 2 ^ 52); k = (if e = 0 then 1 else e) - 1075;
          v = (if bit b 63 then - x else x)
      in if e = 0x7FF then None else Some (if 0 \<le> k then v * 2 ^ nat k else v div 2 ^ nat (- k)))"

text \<open>\<^verbatim>\<open>buf > 0 ? (unsigned int)buf : (unsigned int)(-buf)\<close>\<close>

definition unsigned_abs :: "int \<Rightarrow> uint32" where
  "unsigned_abs buf = word_of_int (if buf > 0 then buf else - buf)"

text \<open>An \<^verbatim>\<open>int32_t\<close> becomes unsigned before the remainder is taken; the 64-bit dividends stay signed. A double
  outside the range of \<^verbatim>\<open>long long\<close> has no defined conversion.\<close>

fun key_rem :: "mvalue \<Rightarrow> uint32 \<Rightarrow> uint32 res" where
  "key_rem (I32 v) n = (if n = 0 then Inl OutOfRange else Inr (unsigned_abs (uint (v mod n))))"
| "key_rem (I64 v) n = (if n = 0 then Inl OutOfRange else Inr (unsigned_abs (trunc_rem (sint v) (uint n))))"
| "key_rem (DOUBLE b) n =
     (case dbl_floor b of
        None \<Rightarrow> Inl OutOfRange
      | Some f \<Rightarrow> if n = 0 \<or> f < - (2 ^ 63) \<or> 2 ^ 63 \<le> f then Inl OutOfRange else Inr (unsigned_abs (trunc_rem f (uint n))))"
| "key_rem (STRING s) n = Inl VerifyFailed"
| "key_rem UNKNOWN n = Inl VerifyFailed"

section \<open>Placement\<close>

datatype sharding_method = MODULUS | INT_MODULUS

record tb_info =
  ti_method :: sharding_method
  ti_num_site :: uint32
  ti_site_id :: "uint32 list option"
  ti_name :: string

fun key_index :: "multi_value \<Rightarrow> uint32 \<Rightarrow> uint32 \<Rightarrow> uint32 res" where
  "key_index [] n index = Inr index"
| "key_index (v # vs) n index = rbind (key_rem v n) (\<lambda>r. key_index vs n ((index + r) mod n))"

definition modulus :: "multi_value \<Rightarrow> uint32 \<Rightarrow> uint32 list \<Rightarrow> uint32 res" where
  "modulus key n sites =
     rbind (key_index key n 0)
       (\<lambda>index. if n = 0 \<or> length sites \<le> unat (index mod n) then Inl OutOfRange else Inr (sites ! unat (index mod n)))"

text \<open>\<^verbatim>\<open>int_modulus\<close> differs from \<^verbatim>\<open>modulus\<close> in the code for strings only, and both end with an abort there: the
  case has no \<^verbatim>\<open>break\<close>.\<close>

definition int_modulus :: "multi_value \<Rightarrow> uint32 \<Rightarrow> uint32 list \<Rightarrow> uint32 res" where
  "int_modulus key n sites =
     rbind (key_index key n 0)
       (\<lambda>index. if n = 0 \<or> length sites \<le> unat (index mod n) then Inl OutOfRange else Inr (sites ! unat (index mod n)))"

record sharding =
  sh_tb_info :: "(string \<times> tb_info) list"
  sh_dist2sid :: "multi_value \<Rightarrow> multi_value option"
  sh_dist_size :: nat
  sh_stock2sid :: "multi_value \<Rightarrow> multi_value option"
  sh_stock_size :: nat

text \<open>An insertion numbers the keys in order and leaves a key that is there; reading a key that is not there
  inserts an empty value.\<close>

definition insert_dist_mapping :: "multi_value \<Rightarrow> sharding \<Rightarrow> sharding" where
  "insert_dist_mapping mv s =
     (if sh_dist2sid s mv \<noteq> None then s
      else s\<lparr>sh_dist2sid := (sh_dist2sid s)(mv \<mapsto> [I32 (of_nat (sh_dist_size s))]), sh_dist_size := sh_dist_size s + 1\<rparr>)"

definition insert_stock_mapping :: "multi_value \<Rightarrow> sharding \<Rightarrow> sharding" where
  "insert_stock_mapping mv s =
     (if sh_stock2sid s mv \<noteq> None then s
      else s\<lparr>sh_stock2sid := (sh_stock2sid s)(mv \<mapsto> [I32 (of_nat (sh_stock_size s))]), sh_stock_size := sh_stock_size s + 1\<rparr>)"

definition dist_mapping :: "multi_value \<Rightarrow> sharding \<Rightarrow> multi_value \<times> sharding" where
  "dist_mapping mv s =
     (case sh_dist2sid s mv of Some v \<Rightarrow> (v, s)
      | None \<Rightarrow> ([], s\<lparr>sh_dist2sid := (sh_dist2sid s)(mv \<mapsto> []), sh_dist_size := sh_dist_size s + 1\<rparr>))"

definition stock_mapping :: "multi_value \<Rightarrow> sharding \<Rightarrow> multi_value \<times> sharding" where
  "stock_mapping mv s =
     (case sh_stock2sid s mv of Some v \<Rightarrow> (v, s)
      | None \<Rightarrow> ([], s\<lparr>sh_stock2sid := (sh_stock2sid s)(mv \<mapsto> []), sh_stock_size := sh_stock_size s + 1\<rparr>))"

definition TPCC_TB_STOCK :: string where "TPCC_TB_STOCK = ''stock''"
definition TPCC_TB_ITEM :: string where "TPCC_TB_ITEM = ''item''"
definition TPCC_TB_HISTORY :: string where "TPCC_TB_HISTORY = ''history''"

text \<open>\<open>real_dist\<close> says that the benchmark is \<^verbatim>\<open>TPCC_REAL_DIST_PART\<close>.\<close>

definition site_from_key :: "bool \<Rightarrow> multi_value \<Rightarrow> tb_info \<Rightarrow> sharding \<Rightarrow> (uint32 \<times> sharding) res" where
  "site_from_key real_dist key ti s =
     (let (key_buf, s1) =
            (if \<not> real_dist then (key, s)
             else if ti_name ti = TPCC_TB_STOCK \<or> ti_name ti = TPCC_TB_ITEM then stock_mapping key s
             else if ti_name ti \<noteq> TPCC_TB_HISTORY then dist_mapping key s
             else (key, s));
          sites = (case ti_site_id ti of None \<Rightarrow> [] | Some l \<Rightarrow> l)
      in rbind (case ti_method ti of MODULUS \<Rightarrow> modulus key_buf (ti_num_site ti) sites | INT_MODULUS \<Rightarrow> int_modulus key_buf (ti_num_site ti) sites)
           (\<lambda>r. Inr (r, s1)))"

text \<open>The result code and, in case of 0, the site; \<open>None\<close> stands for a null pointer.\<close>

definition get_site_id_from_tb :: "bool \<Rightarrow> string \<Rightarrow> multi_value \<Rightarrow> sharding \<Rightarrow> (int \<times> uint32 option \<times> sharding) res" where
  "get_site_id_from_tb real_dist name key s =
     (case map_of (sh_tb_info s) name of
        None \<Rightarrow> Inr (-1, None, s)
      | Some ti \<Rightarrow>
          if ti_num_site ti = 0 \<or> ti_site_id ti = None then Inr (-2, None, s)
          else rbind (site_from_key real_dist key ti s) (\<lambda>(r, s1). Inr (0, Some r, s1)))"

definition get_site_id :: "bool \<Rightarrow> string option \<Rightarrow> multi_value \<Rightarrow> sharding option \<Rightarrow> (int \<times> uint32 option \<times> sharding option) res" where
  "get_site_id real_dist name key sh =
     (case sh of
        None \<Rightarrow> Inr (-1, None, None)
      | Some s \<Rightarrow> (case name of
            None \<Rightarrow> Inr (-2, None, Some s)
          | Some nm \<Rightarrow> rbind (get_site_id_from_tb real_dist nm key s) (\<lambda>(c, r, s1). Inr (c, r, Some s1))))"

definition get_site_ids :: "string \<Rightarrow> sharding \<Rightarrow> (int \<times> uint32 list) res" where
  "get_site_ids name s =
     (case map_of (sh_tb_info s) name of
        None \<Rightarrow> Inr (-1, [])
      | Some ti \<Rightarrow>
          (case ti_site_id ti of
             None \<Rightarrow> Inr (-2, [])
           | Some sites \<Rightarrow>
               if ti_num_site ti = 0 then Inr (-2, [])
               else if length sites < unat (ti_num_site ti) then Inl OutOfRange
               else Inr (0, take (unat (ti_num_site ti)) sites)))"

text \<open>The names of the tables with a part on the server \<open>sid\<close>.\<close>

definition get_table_names :: "uint32 \<Rightarrow> sharding \<Rightarrow> string list" where
  "get_table_names sid s =
     map fst (filter (\<lambda>(_, ti). sid \<in> set (take (unat (ti_num_site ti)) (case ti_site_id ti of None \<Rightarrow> [] | Some l \<Rightarrow> l))) (sh_tb_info s))"

section \<open>Placement stays within the sites of the table\<close>

fun shardable :: "mvalue \<Rightarrow> bool" where
  "shardable (I32 _) = True"
| "shardable (I64 _) = True"
| "shardable (DOUBLE b) = (case dbl_floor b of None \<Rightarrow> False | Some f \<Rightarrow> - (2 ^ 63) \<le> f \<and> f < 2 ^ 63)"
| "shardable _ = False"

lemma key_rem_total: "n \<noteq> 0 \<Longrightarrow> (\<exists>r. key_rem v n = Inr r) \<longleftrightarrow> shardable v"
  by (cases v) (auto split: option.splits)

lemma key_index_total: "n \<noteq> 0 \<Longrightarrow> (\<exists>i. key_index key n k = Inr i) \<longleftrightarrow> list_all shardable key"
proof (induction key arbitrary: k)
  case (Cons v vs)
  show ?case
  proof (cases "\<exists>r. key_rem v n = Inr r")
    case True
    then show ?thesis using Cons key_rem_total [of n v] by auto
  next
    case False
    then show ?thesis using Cons.prems key_rem_total [of n v] by auto
  qed
qed simp

lemma modulus_total:
  assumes "n \<noteq> 0" and "unat n \<le> length sites"
  shows "if list_all shardable key then \<exists>s. modulus key n sites = Inr s \<and> s \<in> set (take (unat n) sites) else \<exists>e. modulus key n sites = Inl e"
proof (cases "list_all shardable key")
  case True
  then obtain i where i: "key_index key n 0 = Inr i" using key_index_total [OF assms(1), of key 0] by auto
  have "i mod n < n" using assms(1) by (simp add: word_mod_less_divisor word_gt_0)
  then have "unat (i mod n) < unat n" by (simp add: word_less_nat_alt)
  then have "sites ! unat (i mod n) \<in> set (take (unat n) sites)" "unat (i mod n) < length sites"
    using assms(2) by (auto simp: in_set_conv_nth intro!: exI [of _ "unat (i mod n)"])
  then show ?thesis using True i assms(1) by (simp add: modulus_def)
next
  case False
  then have "\<nexists>i. key_index key n 0 = Inr i" using key_index_total [OF assms(1), of key 0] by auto
  then show ?thesis using False by (cases "key_index key n 0") (auto simp: modulus_def)
qed

lemma int_modulus_same: "int_modulus = modulus"
  by (intro ext) (simp add: int_modulus_def modulus_def)

text \<open>A key of one non-negative number goes to the site with the index of its remainder.\<close>

lemma unsigned_abs_uint [simp]: "unsigned_abs (uint w) = (w :: uint32)"
proof (cases "uint w > 0")
  case False
  then have "uint w = 0" using uint_ge_0 [of w] by linarith
  then show ?thesis by (simp add: unsigned_abs_def uint_0_iff)
qed (simp add: unsigned_abs_def)

lemma word_mod_mod [simp]: "(x mod n) mod n = x mod (n :: 'a::len word)"
  by (rule word_uint_eqI) (simp add: uint_mod)

lemma modulus_i32:
  assumes "n \<noteq> 0" and "unat n \<le> length sites" and "0 \<le> sint v"
  shows "modulus [I32 v] n sites = Inr (sites ! nat (sint v mod uint n))"
proof -
  have "sint v < 2 ^ 31" using sint_lt [of v] by simp
  then have "take_bit 32 (sint v) = sint v" using assms(3) by (intro take_bit_int_eq_self) simp_all
  then have v: "uint v = sint v" by (simp add: uint_sint)
  have "v mod n < n" using assms(1) by (simp add: word_mod_less_divisor word_gt_0)
  then have "unat (v mod n) < length sites" using assms(2) by (simp add: word_less_nat_alt)
  moreover have "unat (v mod n) = nat (sint v mod uint n)" by (simp add: unat_eq_nat_uint uint_mod v)
  ultimately show ?thesis using assms(1) by (simp add: modulus_def)
qed



text \<open>The same negative number as an \<^verbatim>\<open>int32_t\<close> and as an \<^verbatim>\<open>int64_t\<close> is placed differently: the first is converted
  to unsigned.\<close>

lemma negative_keys_differ: "modulus [I32 (-1)] 4 [0, 1, 2, 3] = Inr 3 \<and> modulus [I64 (-1)] 4 [0, 1, 2, 3] = Inr 1"
  by code_simp

end
