(* ===== verification/Chopper.thy ===== *)
theory Chopper
  imports Rcc_Server Sharding_Map
begin

text \<open>
  A transaction on its client (\<^verbatim>\<open>TxnChopper\<close>, \<^verbatim>\<open>deptran/txn_chopper.h\<close> and \<^verbatim>\<open>txn_chopper.cc\<close>): the pieces with their
  inputs, servers and states, the servers involved, the counters of the replies, and the graph collected
  in the dependency mode. The benchmarks derive classes from it; such a class is a record that extends
  this one, with its virtual functions in a table (\<open>chop_vt\<close>). Times are left out.
\<close>

section \<open>State\<close>

definition SUCCESS :: int where "SUCCESS = 0"
definition REJECT :: int where "REJECT = -1"

text \<open>The states of a piece: -1 waiting, 0 ready, 1 ongoing, 2 finished without being sent.\<close>

record chopper =
  ch_outputs :: "mvalue list list"
  ch_read_only_failed :: bool
  ch_early_return :: bool
  ch_txn_id :: uint64
  ch_txn_type :: i32
  ch_heap :: txn_heap
  ch_gra :: graph
  ch_inputs :: "mvalue list list"
  ch_output_size :: "nat list"
  ch_p_types :: "i32 list"
  ch_commit :: bool
  ch_sharding :: "uint32 list"
  ch_status :: "int list"
  ch_proxies :: "uint32 list"
  ch_n_start_sent :: int
  ch_n_pieces :: int
  ch_n_started :: int
  ch_n_prepared :: int
  ch_n_finished :: int
  ch_max_try :: int
  ch_n_try :: int
  ch_res :: int

definition new_chopper :: "bool \<Rightarrow> chopper" where
  "new_chopper early_return = \<lparr>ch_outputs = [], ch_read_only_failed = False, ch_early_return = early_return, ch_txn_id = 0, ch_txn_type = 0,
     ch_heap = [], ch_gra = empty_graph, ch_inputs = [], ch_output_size = [], ch_p_types = [], ch_commit = False, ch_sharding = [], ch_status = [],
     ch_proxies = [], ch_n_start_sent = 0, ch_n_pieces = 0, ch_n_started = 0, ch_n_prepared = 0, ch_n_finished = 0, ch_max_try = 0, ch_n_try = 0,
     ch_res = 0\<rparr>"

record 'c chop_vt =
  vt_start_callback :: "nat \<Rightarrow> int \<Rightarrow> mvalue list \<Rightarrow> 'c \<Rightarrow> (bool \<times> 'c) res"
  vt_is_read_only :: "'c \<Rightarrow> bool res"
  vt_retry :: "'c \<Rightarrow> 'c res"

definition can_retry :: "'a chopper_scheme \<Rightarrow> bool" where
  "can_retry ch \<longleftrightarrow> ch_max_try ch = 0 \<or> ch_n_try ch < ch_max_try ch"

section \<open>Pieces to start\<close>

definition ready :: "int list \<Rightarrow> nat list" where
  "ready st = filter (\<lambda>i. st ! i = 0) [0..<length st]"

text \<open>\<^verbatim>\<open>next_piece\<close>: its result code and, with code 0, the piece, which is now ongoing.\<close>

definition next_piece :: "'a chopper_scheme \<Rightarrow> (int \<times> nat \<times> 'a chopper_scheme) res" where
  "next_piece ch =
     (if ch_n_started ch = ch_n_pieces ch then Inr (2, 0, ch)
      else case ready (ch_status ch) of
        i # _ \<Rightarrow>
          if i < length (ch_sharding ch) \<and> i < length (ch_p_types ch) \<and> i < length (ch_inputs ch) \<and> i < length (ch_output_size ch)
          then Inr (0, i, ch\<lparr>ch_proxies := os_ins (ch_sharding ch ! i) (ch_proxies ch), ch_status := (ch_status ch)[i := 1]\<rparr>)
          else Inl OutOfRange
      | [] \<Rightarrow> Inr (if -1 \<in> set (ch_status ch) then -1 else 1, 0, ch))"

lemma ready_update:
  assumes "ready st = i # is"
  shows "ready (st[i := 1]) = is" "i < length st" "st ! i = 0"
proof -
  have m: "i \<in> set (ready st)" using assms by simp
  then show i: "i < length st" "st ! i = 0" by (auto simp: ready_def)
  have "ready (st[i := 1]) = filter (\<lambda>j. j \<noteq> i) (ready st)"
    unfolding ready_def filter_filter length_list_update by (rule filter_cong) (auto simp: nth_list_update i(1))
  moreover have "distinct (ready st)" by (simp add: ready_def)
  then have "i \<notin> set is" using assms by simp
  then have "filter (\<lambda>j. j \<noteq> i) is = is" by (auto simp: filter_id_conv)
  ultimately show "ready (st[i := 1]) = is" using assms by simp
qed

text \<open>The loops over \<^verbatim>\<open>next_piece\<close>: the pieces it returns until its code is not 0. The code sends each piece
  when it gets it; what it sends does not depend on what \<^verbatim>\<open>next_piece\<close> changes.\<close>

function (sequential) take_pieces :: "'a chopper_scheme \<Rightarrow> (nat list \<times> 'a chopper_scheme) res" where
  "take_pieces ch =
     (case next_piece ch of
        Inl e \<Rightarrow> Inl e
      | Inr (code, i, ch1) \<Rightarrow>
          if code = 0 then rbind (take_pieces ch1) (\<lambda>(is, ch2). Inr (i # is, ch2)) else Inr ([], ch1))"
  by pat_completeness auto
termination
  by (relation "measure (\<lambda>ch. length (ready (ch_status ch)))")
    (auto simp: next_piece_def ready_update split: if_splits list.splits)

declare take_pieces.simps [simp del]

section \<open>Replies to started pieces\<close>

text \<open>\<^verbatim>\<open>start_callback\<close> in the dependency mode: a deferred piece has no output yet.\<close>

definition dep_start_callback :: "'a chopper_scheme chop_vt \<Rightarrow> nat \<Rightarrow> mvalue list \<Rightarrow> bool \<Rightarrow> 'a chopper_scheme \<Rightarrow> (bool \<times> 'a chopper_scheme) res" where
  "dep_start_callback vt pi output is_defer ch =
     (if is_defer
      then if pi < length (ch_output_size ch)
           then Inr (False, if ch_output_size ch ! pi \<noteq> 0 then ch\<lparr>ch_early_return := False\<rparr> else ch)
           else Inl OutOfRange
      else vt_start_callback vt pi SUCCESS output ch)"

definition read_only_reset :: "'a chopper_scheme chop_vt \<Rightarrow> 'a chopper_scheme \<Rightarrow> 'a chopper_scheme res" where
  "read_only_reset vt ch = vt_retry vt (ch\<lparr>ch_read_only_failed := False\<rparr>)"

definition resize :: "nat \<Rightarrow> 'b \<Rightarrow> 'b list \<Rightarrow> 'b list" where
  "resize n x xs = (if n \<le> length xs then take n xs else xs @ replicate (n - length xs) x)"

text \<open>\<^verbatim>\<open>read_only_start_callback\<close>: in the first phase outputs are stored; in the second one the result says
  whether all outputs of this try so far are those stored before.\<close>

definition ro_check :: "nat \<Rightarrow> mvalue list \<Rightarrow> 'a chopper_scheme \<Rightarrow> (int \<times> 'a chopper_scheme) res" where
  "ro_check pi output ch =
     (let n = nat (ch_n_pieces ch)
      in if ch_read_only_failed ch
         then Inr (REJECT, if n \<noteq> length (ch_outputs ch) then ch\<lparr>ch_outputs := resize n [] (ch_outputs ch)\<rparr> else ch)
         else if length (ch_outputs ch) \<le> pi
         then Inr (REJECT, ch\<lparr>ch_outputs := resize n [] (ch_outputs ch), ch_read_only_failed := True\<rparr>)
         else rbind (if length output = length (ch_outputs ch ! pi) then values_eq output (ch_outputs ch ! pi) else Inr False)
                (\<lambda>ok. Inr (if ok then (SUCCESS, ch) else (REJECT, ch\<lparr>ch_read_only_failed := True\<rparr>))))"

definition store_output :: "nat \<Rightarrow> mvalue list \<Rightarrow> 'a chopper_scheme \<Rightarrow> 'a chopper_scheme res" where
  "store_output pi output ch =
     (if pi < length (ch_outputs ch) then Inr (ch\<lparr>ch_outputs := (ch_outputs ch)[pi := output]\<rparr>) else Inl OutOfRange)"

definition ro_start_callback ::
    "'a chopper_scheme chop_vt \<Rightarrow> nat \<Rightarrow> bool \<Rightarrow> mvalue list \<Rightarrow> 'a chopper_scheme \<Rightarrow> (bool \<times> int \<times> 'a chopper_scheme) res" where
  "ro_start_callback vt pi phase2 output ch =
     verify (int pi < ch_n_pieces ch)
       (rbind (if phase2 then ro_check pi output ch
               else Inr (SUCCESS, ch\<lparr>ch_outputs := resize (nat (ch_n_pieces ch)) [] (ch_outputs ch)\<rparr>))
         (\<lambda>(res, ch1). rbind (store_output pi output ch1)
            (\<lambda>ch2. rbind (vt_start_callback vt pi SUCCESS output ch2) (\<lambda>(more, ch3). Inr (more, res, ch3)))))"

end
