(* ===== verification/Coordinator.thy ===== *)
theory Coordinator
  imports Chopper
begin

text \<open>
  The coordinator on the client (\<^verbatim>\<open>deptran/coordinator.cc\<close>, \<^verbatim>\<open>coordinator.h\<close>). It starts the pieces of
  transactions, and everything else happens in the callbacks of the replies: with optimistic concurrency
  control and two-phase locking it prepares and then commits or aborts on all servers involved, and
  retries; in the dependency mode it merges the graphs of the replies and sends them with the finish
  request; read-only transactions of that mode are read twice and compared.

  The state holds the transactions (a deleted one is \<open>None\<close>), the calls that are not answered yet with the
  callbacks they will run, and a log of what was sent, received and reported. Which call is answered next
  and with what is up to the servers. Statistics, timers and the recorder are left out. The servers of a
  batch are visited in the order of an \<^verbatim>\<open>unordered_map\<close>, which is the parameter \<open>ord\<close>.
\<close>

section \<open>State\<close>

definition MODE_NONE :: int where "MODE_NONE = 0"
definition MODE_2PL :: int where "MODE_2PL = 1"
definition MODE_OCC :: int where "MODE_OCC = 2"
definition MODE_DEPTRAN :: int where "MODE_DEPTRAN = 3"
definition MODE_RPC_NULL :: int where "MODE_RPC_NULL = 4"

lemmas mode_defs = MODE_NONE_def MODE_2PL_def MODE_OCC_def MODE_DEPTRAN_def MODE_RPC_NULL_def

datatype co_request =
    ReqStart request_header "mvalue list" nat
  | ReqBatch "request_header list" "mvalue list list" "nat list"
  | ReqPrepare uint64 "uint32 list"
  | ReqCommit uint64
  | ReqAbort uint64
  | ReqRccStart request_header "mvalue list"
  | ReqRccBatch "request_header list" "mvalue list list"
  | ReqRccFinish uint64 txn_heap graph
  | ReqRoStart request_header "mvalue list"
  | ReqNull

text \<open>The callbacks of the calls, with what they capture: the transaction and its pieces.\<close>

datatype co_cb =
    OnStart nat nat | OnBatch nat "nat list" | OnPrepare nat | OnFinish nat
  | OnRccStart nat nat | OnRccBatch nat "nat list" | OnRccFinish nat | OnRo nat nat | OnRoCheck nat nat | OnNull nat

fun cb_txn :: "co_cb \<Rightarrow> nat" where
  "cb_txn (OnStart c _) = c" | "cb_txn (OnBatch c _) = c" | "cb_txn (OnPrepare c) = c" | "cb_txn (OnFinish c) = c"
| "cb_txn (OnRccStart c _) = c" | "cb_txn (OnRccBatch c _) = c" | "cb_txn (OnRccFinish c) = c"
| "cb_txn (OnRo c _) = c" | "cb_txn (OnRoCheck c _) = c" | "cb_txn (OnNull c) = c"

text \<open>The answers of servers; \<open>None\<close> of a prepare is a failed call.\<close>

datatype answer =
    AStart int "mvalue list" | ABatch "int list" "mvalue list list" | APrepare "int option" | ADone
  | ARcc bool "mvalue list" txn_heap graph | ARccBatch "bool list" "mvalue list list" txn_heap graph | ARo "mvalue list"

datatype co_event = Begun nat | Sent nat uint32 co_request | Got nat uint32 answer | Restarted nat | Reported nat int

record 'c coo =
  co_id :: uint32
  co_mode :: int
  co_batch :: bool
  co_sites :: nat
  co_next_pie :: uint64
  co_next_txn :: uint64
  co_site_prepare :: "int list"
  co_site_commit :: "int list"
  co_site_abort :: "int list"
  co_site_piece :: "int list"
  co_txns :: "'c option list"
  co_calls :: "(uint32 \<times> co_cb) list"
  co_log :: "co_event list"

definition new_coo :: "uint32 \<Rightarrow> nat \<Rightarrow> int \<Rightarrow> bool \<Rightarrow> 'c coo" where
  "new_coo cid n mode batch =
     (let k = push_bit 32 (ucast cid) in
      \<lparr>co_id = cid, co_mode = mode, co_batch = batch, co_sites = n, co_next_pie = k, co_next_txn = k,
       co_site_prepare = replicate n 0, co_site_commit = replicate n 0, co_site_abort = replicate n 0, co_site_piece = replicate n 0,
       co_txns = [], co_calls = [], co_log = []\<rparr>)"

definition next_pie_id :: "'c coo \<Rightarrow> uint64 \<times> 'c coo" where
  "next_pie_id s = (co_next_pie s, s\<lparr>co_next_pie := co_next_pie s + 1\<rparr>)"

definition next_txn_id :: "'c coo \<Rightarrow> uint64 \<times> 'c coo" where
  "next_txn_id s = (co_next_txn s, s\<lparr>co_next_txn := co_next_txn s + 1\<rparr>)"

definition txn_at :: "nat \<Rightarrow> 'c coo \<Rightarrow> 'c res" where
  "txn_at c s = (if c < length (co_txns s) then (case co_txns s ! c of None \<Rightarrow> Inl BadPointer | Some ch \<Rightarrow> Inr ch) else Inl BadPointer)"

definition put_txn :: "nat \<Rightarrow> 'c \<Rightarrow> 'c coo \<Rightarrow> 'c coo" where
  "put_txn c ch s = s\<lparr>co_txns := (co_txns s)[c := Some ch]\<rparr>"

definition gen_header :: "'a chopper_scheme \<Rightarrow> 'a chopper_scheme coo \<Rightarrow> request_header" where
  "gen_header ch s = \<lparr>hd_t_type = ch_txn_type ch, hd_p_type = 0, hd_tid = ch_txn_id ch, hd_cid = co_id s, hd_pid = 0\<rparr>"

definition log_event :: "co_event \<Rightarrow> 'c coo \<Rightarrow> 'c coo" where
  "log_event e s = s\<lparr>co_log := co_log s @ [e]\<rparr>"

text \<open>An asynchronous call of the server \<open>k\<close>.\<close>

definition call :: "uint32 \<Rightarrow> co_cb \<Rightarrow> co_request \<Rightarrow> 'c coo \<Rightarrow> 'c coo res" where
  "call k cb req s =
     (if unat k < co_sites s then Inr (log_event (Sent (cb_txn cb) k req) (s\<lparr>co_calls := co_calls s @ [(k, cb)]\<rparr>)) else Inl OutOfRange)"

text \<open>A report to the caller; \<open>deleted\<close> says whether the transaction is deleted then.\<close>

definition report :: "nat \<Rightarrow> bool \<Rightarrow> 'a chopper_scheme coo \<Rightarrow> 'a chopper_scheme coo res" where
  "report c deleted s = rbind (txn_at c s)
     (\<lambda>ch. let s1 = log_event (Reported c (ch_res ch)) s in Inr (if deleted then s1\<lparr>co_txns := (co_txns s1)[c := None]\<rparr> else s1))"

definition incr_at :: "uint32 \<Rightarrow> int list \<Rightarrow> int list" where
  "incr_at k xs = xs[unat k := xs ! unat k + 1]"

fun each :: "('b \<Rightarrow> 's \<Rightarrow> 's res) \<Rightarrow> 'b list \<Rightarrow> 's \<Rightarrow> 's res" where
  "each f [] s = Inr s"
| "each f (x # xs) s = rbind (f x s) (each f xs)"

section \<open>Sending pieces\<close>

definition piece_header :: "'a chopper_scheme \<Rightarrow> nat \<Rightarrow> uint64 \<Rightarrow> 'a chopper_scheme coo \<Rightarrow> request_header" where
  "piece_header ch i pid s = (gen_header ch s)\<lparr>hd_p_type := ch_p_types ch ! i, hd_pid := pid\<rparr>"

definition send_piece :: "nat \<Rightarrow> 'a chopper_scheme \<Rightarrow> nat \<Rightarrow> 'a chopper_scheme coo \<Rightarrow> 'a chopper_scheme coo res" where
  "send_piece c ch i s =
     (let (pid, s1) = next_pie_id s; k = ch_sharding ch ! i
      in rbind (call k (OnStart c i) (ReqStart (piece_header ch i pid s) (ch_inputs ch ! i) (ch_output_size ch ! i)) s1)
           (\<lambda>s2. Inr (s2\<lparr>co_site_piece := incr_at k (co_site_piece s2)\<rparr>)))"

definition start :: "nat \<Rightarrow> 'a chopper_scheme coo \<Rightarrow> 'a chopper_scheme coo res" where
  "start c s =
     rbind (txn_at c s)
       (\<lambda>ch. rbind (take_pieces ch)
         (\<lambda>(is, ch1). rbind (each (send_piece c ch1) is s)
            (\<lambda>s1. Inr (put_txn c (ch1\<lparr>ch_n_start_sent := ch_n_start_sent ch1 + int (length is)\<rparr>) s1))))"

fun number_pieces :: "'a chopper_scheme \<Rightarrow> nat list \<Rightarrow> 'a chopper_scheme coo \<Rightarrow> (nat \<times> request_header) list \<times> 'a chopper_scheme coo" where
  "number_pieces ch [] s = ([], s)"
| "number_pieces ch (i # is) s =
     (let (pid, s1) = next_pie_id s; (hs, s2) = number_pieces ch is s1 in ((i, piece_header ch i pid s) # hs, s2))"

definition on_server :: "'a chopper_scheme \<Rightarrow> uint32 \<Rightarrow> (nat \<times> 'h) list \<Rightarrow> (nat \<times> 'h) list" where
  "on_server ch k hs = filter (\<lambda>(i, h). ch_sharding ch ! i = k) hs"

definition send_batch ::
    "nat \<Rightarrow> 'a chopper_scheme \<Rightarrow> (nat \<times> request_header) list \<Rightarrow> uint32 \<Rightarrow> 'a chopper_scheme coo \<Rightarrow> 'a chopper_scheme coo res" where
  "send_batch c ch hs k s =
     (let ps = on_server ch k hs; is = map fst ps
      in call k (OnBatch c is) (ReqBatch (map snd ps) (map (\<lambda>i. ch_inputs ch ! i) is) (map (\<lambda>i. ch_output_size ch ! i) is)) s)"

definition servers_of :: "(uint32 list \<Rightarrow> uint32 list) \<Rightarrow> 'a chopper_scheme \<Rightarrow> nat list \<Rightarrow> uint32 list" where
  "servers_of ord ch is = ord (remdups (map (\<lambda>i. ch_sharding ch ! i) is))"

definition naive_batch_start :: "(uint32 list \<Rightarrow> uint32 list) \<Rightarrow> nat \<Rightarrow> 'a chopper_scheme coo \<Rightarrow> 'a chopper_scheme coo res" where
  "naive_batch_start ord c s =
     rbind (txn_at c s)
       (\<lambda>ch. rbind (take_pieces ch)
         (\<lambda>(is, ch1). let (hs, s1) = number_pieces ch1 is s
            in rbind (each (send_batch c ch1 hs) (servers_of ord ch1 is) s1)
                 (\<lambda>s2. Inr (put_txn c (ch1\<lparr>ch_n_start_sent := ch_n_start_sent ch1 + int (length is)\<rparr>) s2))))"

definition start_txn :: "(uint32 list \<Rightarrow> uint32 list) \<Rightarrow> nat \<Rightarrow> 'a chopper_scheme coo \<Rightarrow> 'a chopper_scheme coo res" where
  "start_txn ord c s = (if co_batch s then naive_batch_start ord c s else start c s)"

section \<open>Prepare, commit, abort and retry\<close>

definition prepare :: "nat \<Rightarrow> 'a chopper_scheme coo \<Rightarrow> 'a chopper_scheme coo res" where
  "prepare c s =
     verify (co_mode s = MODE_OCC \<or> co_mode s = MODE_2PL)
       (rbind (txn_at c s)
         (\<lambda>ch. each (\<lambda>rp s. rbind (call rp (OnPrepare c) (ReqPrepare (ch_txn_id ch) (ch_proxies ch)) s)
                        (\<lambda>s1. Inr (s1\<lparr>co_site_prepare := incr_at rp (co_site_prepare s1)\<rparr>))) (ch_proxies ch) s))"

definition finish :: "nat \<Rightarrow> 'a chopper_scheme coo \<Rightarrow> 'a chopper_scheme coo res" where
  "finish c s =
     verify (co_mode s = MODE_OCC \<or> co_mode s = MODE_2PL)
       (rbind (txn_at c s)
         (\<lambda>ch. if ch_commit ch
            then each (\<lambda>rp s. rbind (call rp (OnFinish c) (ReqCommit (ch_txn_id ch)) s)
                   (\<lambda>s1. Inr (s1\<lparr>co_site_commit := incr_at rp (co_site_commit s1)\<rparr>))) (ch_proxies ch) (put_txn c (ch\<lparr>ch_res := SUCCESS\<rparr>) s)
            else each (\<lambda>rp s. rbind (call rp (OnFinish c) (ReqAbort (ch_txn_id ch)) s)
                   (\<lambda>s1. Inr (s1\<lparr>co_site_abort := incr_at rp (co_site_abort s1)\<rparr>))) (ch_proxies ch) (put_txn c (ch\<lparr>ch_res := REJECT\<rparr>) s)))"

definition restart :: "(uint32 list \<Rightarrow> uint32 list) \<Rightarrow> 'a chopper_scheme chop_vt \<Rightarrow> nat \<Rightarrow> 'a chopper_scheme coo \<Rightarrow> 'a chopper_scheme coo res" where
  "restart ord vt c s =
     rbind (txn_at c s)
       (\<lambda>ch. rbind (vt_retry vt (ch\<lparr>ch_n_start_sent := 0\<rparr>))
         (\<lambda>ch1. start_txn ord c (log_event (Restarted c) (put_txn c ch1 s))))"

text \<open>What follows when the last piece has been answered.\<close>

definition all_started :: "nat \<Rightarrow> bool \<Rightarrow> 'a chopper_scheme coo \<Rightarrow> 'a chopper_scheme coo res" where
  "all_started c deleted s =
     (if co_mode s = MODE_OCC \<or> co_mode s = MODE_2PL then prepare c s
      else if co_mode s = MODE_NONE then rbind (txn_at c s) (\<lambda>ch. report c deleted (put_txn c (ch\<lparr>ch_res := SUCCESS\<rparr>) s))
      else Inr s)"

text \<open>The counters at the reply of one piece, and a reject.\<close>

definition count_reply :: "int \<Rightarrow> int \<Rightarrow> 'a chopper_scheme \<Rightarrow> 'a chopper_scheme res" where
  "count_reply mode res ch =
     (let ch1 = ch\<lparr>ch_n_started := ch_n_started ch + 1, ch_n_start_sent := ch_n_start_sent ch - 1\<rparr>
      in if res = REJECT then verify (mode = MODE_2PL) (Inr (ch1\<lparr>ch_commit := False\<rparr>)) else Inr ch1)"

definition on_start ::
    "'a chopper_scheme chop_vt \<Rightarrow> nat \<Rightarrow> nat \<Rightarrow> int \<Rightarrow> mvalue list \<Rightarrow> 'a chopper_scheme coo \<Rightarrow> 'a chopper_scheme coo res" where
  "on_start vt c pi res output s =
     rbind (txn_at c s)
       (\<lambda>ch. rbind (count_reply (co_mode s) res ch)
         (\<lambda>ch1. if \<not> ch_commit ch1
            then (if ch_n_start_sent ch1 = 0 then finish c (put_txn c ch1 s) else Inr (put_txn c ch1 s))
            else rbind (vt_start_callback vt pi res output ch1)
              (\<lambda>(again, ch2). let s1 = put_txn c ch2 s
                 in if again then start c s1
                    else if ch_n_started ch2 = ch_n_pieces ch2 then all_started c True s1
                    else Inr s1)))"

text \<open>The loop over the pieces of a batch: whether there are new pieces, and whether the last answer is in and
  the transaction must abort.\<close>

fun batch_replies ::
    "'a chopper_scheme chop_vt \<Rightarrow> int \<Rightarrow> nat list \<Rightarrow> int list \<Rightarrow> mvalue list list \<Rightarrow> bool \<Rightarrow> bool \<Rightarrow> 'a chopper_scheme \<Rightarrow>
      (bool \<times> bool \<times> 'a chopper_scheme) res" where
  "batch_replies vt mode (pi # pis) (res # rs) (output # os) again fin ch =
     rbind (count_reply mode res ch)
       (\<lambda>ch1. if \<not> ch_commit ch1 then batch_replies vt mode pis rs os again (fin \<or> ch_n_start_sent ch1 = 0) ch1
              else rbind (vt_start_callback vt pi res output ch1) (\<lambda>(m, ch2). batch_replies vt mode pis rs os (again \<or> m) fin ch2))"
| "batch_replies vt mode [] rs os again fin ch = Inr (again, fin, ch)"
| "batch_replies vt mode _ _ _ again fin ch = Inl OutOfRange"

definition on_batch ::
    "(uint32 list \<Rightarrow> uint32 list) \<Rightarrow> 'a chopper_scheme chop_vt \<Rightarrow> nat \<Rightarrow> nat list \<Rightarrow> int list \<Rightarrow> mvalue list list \<Rightarrow> 'a chopper_scheme coo \<Rightarrow> 'a chopper_scheme coo res" where
  "on_batch ord vt c pis rs os s =
     rbind (txn_at c s)
       (\<lambda>ch. verify (length pis = length rs)
         (rbind (batch_replies vt (co_mode s) pis rs os False False ch)
           (\<lambda>(again, fin, ch1). let s1 = put_txn c ch1 s
              in if fin then finish c s1
                 else if again then naive_batch_start ord c s1
                 else if ch_n_started ch1 = ch_n_pieces ch1 then all_started c False s1
                 else Inr s1)))"

definition on_prepare :: "nat \<Rightarrow> int option \<Rightarrow> 'a chopper_scheme coo \<Rightarrow> 'a chopper_scheme coo res" where
  "on_prepare c vote s =
     rbind (txn_at c s)
       (\<lambda>ch. let ch1 = ch\<lparr>ch_n_prepared := ch_n_prepared ch + 1, ch_commit := ch_commit ch \<and> vote \<noteq> None \<and> vote \<noteq> Some REJECT\<rparr>;
                 s1 = put_txn c ch1 s
             in if ch_n_prepared ch1 = int (length (ch_proxies ch1)) then finish c s1 else Inr s1)"

definition on_finish ::
    "(uint32 list \<Rightarrow> uint32 list) \<Rightarrow> 'a chopper_scheme chop_vt \<Rightarrow> nat \<Rightarrow> 'a chopper_scheme coo \<Rightarrow> 'a chopper_scheme coo res" where
  "on_finish ord vt c s =
     rbind (txn_at c s)
       (\<lambda>ch. let ch1 = ch\<lparr>ch_n_finished := ch_n_finished ch + 1\<rparr>; s1 = put_txn c ch1 s
             in if ch_n_finished ch1 = int (length (ch_proxies ch1))
                then if ch_res ch1 = REJECT \<and> can_retry ch1 then restart ord vt c s1 else report c True s1
                else Inr s1)"

section \<open>The dependency mode\<close>

definition send_rcc :: "nat \<Rightarrow> 'a chopper_scheme \<Rightarrow> nat \<Rightarrow> 'a chopper_scheme coo \<Rightarrow> 'a chopper_scheme coo res" where
  "send_rcc c ch i s =
     (let (pid, s1) = next_pie_id s
      in call (ch_sharding ch ! i) (OnRccStart c i) (ReqRccStart (piece_header ch i pid s) (ch_inputs ch ! i)) s1)"

definition deptran_start :: "nat \<Rightarrow> 'a chopper_scheme coo \<Rightarrow> 'a chopper_scheme coo res" where
  "deptran_start c s =
     rbind (txn_at c s) (\<lambda>ch. rbind (take_pieces ch) (\<lambda>(is, ch1). rbind (each (send_rcc c ch1) is s) (\<lambda>s1. Inr (put_txn c ch1 s1))))"

definition send_rcc_batch ::
    "nat \<Rightarrow> 'a chopper_scheme \<Rightarrow> (nat \<times> request_header) list \<Rightarrow> uint32 \<Rightarrow> 'a chopper_scheme coo \<Rightarrow> 'a chopper_scheme coo res" where
  "send_rcc_batch c ch hs k s =
     (let ps = on_server ch k hs; is = map fst ps
      in call k (OnRccBatch c is) (ReqRccBatch (map snd ps) (map (\<lambda>i. ch_inputs ch ! i) is)) s)"

definition deptran_batch_start :: "(uint32 list \<Rightarrow> uint32 list) \<Rightarrow> nat \<Rightarrow> 'a chopper_scheme coo \<Rightarrow> 'a chopper_scheme coo res" where
  "deptran_batch_start ord c s =
     rbind (txn_at c s)
       (\<lambda>ch. rbind (take_pieces ch)
         (\<lambda>(is, ch1). let (hs, s1) = number_pieces ch1 is s
            in rbind (each (send_rcc_batch c ch1 hs) (servers_of ord ch1 is) s1) (\<lambda>s2. Inr (put_txn c ch1 s2))))"

definition deptran_finish :: "nat \<Rightarrow> 'a chopper_scheme coo \<Rightarrow> 'a chopper_scheme coo res" where
  "deptran_finish c s =
     verify (co_mode s = MODE_DEPTRAN)
       (rbind (txn_at c s)
         (\<lambda>ch. case gfind (ch_gra ch) (ch_txn_id ch) of
            None \<Rightarrow> Inl BadPointer
          | Some v \<Rightarrow> (case deref (ch_heap ch) v of
              None \<Rightarrow> Inl BadPointer
            | Some x \<Rightarrow>
                verify (length (ch_proxies ch) = length (servers (vdata x)) \<and> gsize (ch_gra ch) > 0)
                  (each (\<lambda>rp. call rp (OnRccFinish c) (ReqRccFinish (ch_txn_id ch) (ch_heap ch) (ch_gra ch))) (ch_proxies ch) s))))"

text \<open>The graph of a reply is merged into that of the transaction. \<open>cells\<close> are its vertices, placed behind those
  of the transaction.\<close>

definition merge_reply :: "txn_heap \<Rightarrow> graph \<Rightarrow> 'a chopper_scheme \<Rightarrow> 'a chopper_scheme res" where
  "merge_reply cells gra ch =
     verify (gsize gra > 0)
       (rbind (union_graph 0 gra False (ch_heap ch @ cells) (ch_gra ch))
         (\<lambda>(bs, h, g). let ch1 = ch\<lparr>ch_heap := h, ch_gra := g\<rparr> in Inr (if gsize gra > 1 then ch1\<lparr>ch_early_return := False\<rparr> else ch1)))"

definition finish_or_wait :: "nat \<Rightarrow> 'a chopper_scheme coo \<Rightarrow> 'a chopper_scheme coo res" where
  "finish_or_wait c s =
     rbind (txn_at c s)
       (\<lambda>ch. if ch_n_started ch = ch_n_pieces ch
             then rbind (deptran_finish c s)
               (\<lambda>s1. if ch_early_return ch then report c False (put_txn c (ch\<lparr>ch_res := SUCCESS\<rparr>) s1) else Inr s1)
             else Inr s)"

definition on_rcc_start ::
    "'a chopper_scheme chop_vt \<Rightarrow> nat \<Rightarrow> nat \<Rightarrow> bool \<Rightarrow> mvalue list \<Rightarrow> txn_heap \<Rightarrow> graph \<Rightarrow> 'a chopper_scheme coo \<Rightarrow> 'a chopper_scheme coo res" where
  "on_rcc_start vt c pi is_defered output cells gra s =
     rbind (txn_at c s)
       (\<lambda>ch. rbind (merge_reply cells gra ch)
         (\<lambda>ch1. rbind (dep_start_callback vt pi output is_defered (ch1\<lparr>ch_n_started := ch_n_started ch1 + 1\<rparr>))
           (\<lambda>(again, ch2). let s1 = put_txn c ch2 s in if again then deptran_start c s1 else finish_or_wait c s1)))"

fun rcc_batch_replies ::
    "'a chopper_scheme chop_vt \<Rightarrow> nat list \<Rightarrow> bool list \<Rightarrow> mvalue list list \<Rightarrow> bool \<Rightarrow> 'a chopper_scheme \<Rightarrow> (bool \<times> 'a chopper_scheme) res" where
  "rcc_batch_replies vt (pi # pis) (d # ds) (output # os) again ch =
     rbind (dep_start_callback vt pi output d (ch\<lparr>ch_n_started := ch_n_started ch + 1\<rparr>)) (\<lambda>(m, ch1). rcc_batch_replies vt pis ds os (again \<or> m) ch1)"
| "rcc_batch_replies vt [] [] os again ch = Inr (again, ch)"
| "rcc_batch_replies vt _ _ _ again ch = Inl OutOfRange"

definition on_rcc_batch ::
    "(uint32 list \<Rightarrow> uint32 list) \<Rightarrow> 'a chopper_scheme chop_vt \<Rightarrow> nat \<Rightarrow> nat list \<Rightarrow> bool list \<Rightarrow> mvalue list list \<Rightarrow> txn_heap \<Rightarrow> graph \<Rightarrow>
      'a chopper_scheme coo \<Rightarrow> 'a chopper_scheme coo res" where
  "on_rcc_batch ord vt c pis ds os cells gra s =
     rbind (txn_at c s)
       (\<lambda>ch. verify (length pis = length ds)
         (rbind (merge_reply cells gra ch)
           (\<lambda>ch1. rbind (rcc_batch_replies vt pis ds os False ch1)
             (\<lambda>(again, ch2). let s1 = put_txn c ch2 s in if again then deptran_batch_start ord c s1 else finish_or_wait c s1))))"

definition on_rcc_finish :: "nat \<Rightarrow> 'a chopper_scheme coo \<Rightarrow> 'a chopper_scheme coo res" where
  "on_rcc_finish c s =
     rbind (txn_at c s)
       (\<lambda>ch. let ch1 = ch\<lparr>ch_n_finished := ch_n_finished ch + 1\<rparr>
             in if ch_n_finished ch1 = int (length (ch_proxies ch1))
                then if ch_early_return ch1 then Inr (s\<lparr>co_txns := (co_txns s)[c := None]\<rparr>)
                     else report c True (put_txn c (ch1\<lparr>ch_res := SUCCESS\<rparr>) s)
                else Inr (put_txn c ch1 s))"

section \<open>Read-only transactions\<close>

definition send_ro :: "(nat \<Rightarrow> nat \<Rightarrow> co_cb) \<Rightarrow> nat \<Rightarrow> 'a chopper_scheme \<Rightarrow> nat \<Rightarrow> 'a chopper_scheme coo \<Rightarrow> 'a chopper_scheme coo res" where
  "send_ro cb c ch i s =
     (let (pid, s1) = next_pie_id s
      in call (ch_sharding ch ! i) (cb c i) (ReqRoStart (piece_header ch i pid s) (ch_inputs ch ! i)) s1)"

definition deptran_start_ro :: "nat \<Rightarrow> 'a chopper_scheme coo \<Rightarrow> 'a chopper_scheme coo res" where
  "deptran_start_ro c s =
     rbind (txn_at c s) (\<lambda>ch. rbind (take_pieces ch) (\<lambda>(is, ch1). rbind (each (send_ro OnRo c ch1) is s) (\<lambda>s1. Inr (put_txn c ch1 s1))))"

definition deptran_finish_ro :: "nat \<Rightarrow> 'a chopper_scheme coo \<Rightarrow> 'a chopper_scheme coo res" where
  "deptran_finish_ro c s =
     rbind (txn_at c s) (\<lambda>ch. rbind (take_pieces ch) (\<lambda>(is, ch1). rbind (each (send_ro OnRoCheck c ch1) is s) (\<lambda>s1. Inr (put_txn c ch1 s1))))"

definition on_ro :: "'a chopper_scheme chop_vt \<Rightarrow> nat \<Rightarrow> nat \<Rightarrow> mvalue list \<Rightarrow> 'a chopper_scheme coo \<Rightarrow> 'a chopper_scheme coo res" where
  "on_ro vt c pi output s =
     rbind (txn_at c s)
       (\<lambda>ch. rbind (ro_start_callback vt pi False output (ch\<lparr>ch_n_started := ch_n_started ch + 1\<rparr>))
         (\<lambda>(again, res, ch1).
            if again then deptran_start_ro c (put_txn c ch1 s)
            else if ch_n_started ch1 = ch_n_pieces ch1
            then rbind (read_only_reset vt ch1) (\<lambda>ch2. deptran_finish_ro c (put_txn c ch2 s))
            else Inr (put_txn c ch1 s)))"

definition on_ro_check :: "'a chopper_scheme chop_vt \<Rightarrow> nat \<Rightarrow> nat \<Rightarrow> mvalue list \<Rightarrow> 'a chopper_scheme coo \<Rightarrow> 'a chopper_scheme coo res" where
  "on_ro_check vt c pi output s =
     rbind (txn_at c s)
       (\<lambda>ch. rbind (ro_start_callback vt pi True output (ch\<lparr>ch_n_started := ch_n_started ch + 1\<rparr>))
         (\<lambda>(again, res, ch1).
            if again then deptran_finish_ro c (put_txn c ch1 s)
            else if ch_n_started ch1 = ch_n_pieces ch1
            then if res = SUCCESS then report c True (put_txn c (ch1\<lparr>ch_res := SUCCESS\<rparr>) s)
                 else if can_retry ch1
                 then rbind (read_only_reset vt ch1) (\<lambda>ch2. deptran_finish_ro c (log_event (Restarted c) (put_txn c ch2 s)))
                 else report c True (put_txn c (ch1\<lparr>ch_res := REJECT\<rparr>) s)
            else Inr (put_txn c ch1 s)))"

section \<open>Requests and replies\<close>

definition on_null :: "nat \<Rightarrow> 'a chopper_scheme coo \<Rightarrow> 'a chopper_scheme coo res" where
  "on_null c s = rbind (txn_at c s) (\<lambda>ch. report c True (put_txn c (ch\<lparr>ch_res := SUCCESS\<rparr>) s))"

definition rpc_null_start :: "nat \<Rightarrow> 'a chopper_scheme coo \<Rightarrow> 'a chopper_scheme coo res" where
  "rpc_null_start c s = (if co_sites s = 0 then Inl OutOfRange else call (of_nat (unat (co_id s) mod co_sites s)) (OnNull c) ReqNull s)"

text \<open>\<^verbatim>\<open>do_one\<close> with the transaction \<open>ch\<close> that the factory has made of the request.\<close>

definition do_one :: "(uint32 list \<Rightarrow> uint32 list) \<Rightarrow> 'a chopper_scheme chop_vt \<Rightarrow> 'a chopper_scheme \<Rightarrow> 'a chopper_scheme coo \<Rightarrow> 'a chopper_scheme coo res" where
  "do_one ord vt ch s =
     (let (tid, s1) = next_txn_id s; c = length (co_txns s);
          s2 = log_event (Begun c) (s1\<lparr>co_txns := co_txns s1 @ [Some (ch\<lparr>ch_txn_id := tid\<rparr>)]\<rparr>)
      in if co_mode s = MODE_NONE \<or> co_mode s = MODE_OCC \<or> co_mode s = MODE_2PL then start_txn ord c s2
         else if co_mode s = MODE_DEPTRAN
         then rbind (vt_is_read_only vt ch)
           (\<lambda>ro. if ro then deptran_start_ro c s2 else if co_batch s then deptran_batch_start ord c s2 else deptran_start c s2)
         else if co_mode s = MODE_RPC_NULL then rpc_null_start c s2
         else Inl VerifyFailed)"

definition run_callback ::
    "(uint32 list \<Rightarrow> uint32 list) \<Rightarrow> 'a chopper_scheme chop_vt \<Rightarrow> co_cb \<Rightarrow> answer \<Rightarrow> 'a chopper_scheme coo \<Rightarrow> 'a chopper_scheme coo res" where
  "run_callback ord vt cb ans s =
     (case cb of
        OnStart c pi \<Rightarrow> (case ans of AStart res output \<Rightarrow> on_start vt c pi res output s | _ \<Rightarrow> Inl OutOfRange)
      | OnBatch c pis \<Rightarrow> (case ans of ABatch rs os \<Rightarrow> on_batch ord vt c pis rs os s | _ \<Rightarrow> Inl OutOfRange)
      | OnPrepare c \<Rightarrow> (case ans of APrepare vote \<Rightarrow> on_prepare c vote s | _ \<Rightarrow> Inl OutOfRange)
      | OnFinish c \<Rightarrow> (case ans of ADone \<Rightarrow> on_finish ord vt c s | _ \<Rightarrow> Inl OutOfRange)
      | OnRccStart c pi \<Rightarrow> (case ans of ARcc d output cells gra \<Rightarrow> on_rcc_start vt c pi d output cells gra s | _ \<Rightarrow> Inl OutOfRange)
      | OnRccBatch c pis \<Rightarrow> (case ans of ARccBatch ds os cells gra \<Rightarrow> on_rcc_batch ord vt c pis ds os cells gra s | _ \<Rightarrow> Inl OutOfRange)
      | OnRccFinish c \<Rightarrow> (case ans of ADone \<Rightarrow> on_rcc_finish c s | _ \<Rightarrow> Inl OutOfRange)
      | OnRo c pi \<Rightarrow> (case ans of ARo output \<Rightarrow> on_ro vt c pi output s | _ \<Rightarrow> Inl OutOfRange)
      | OnRoCheck c pi \<Rightarrow> (case ans of ARo output \<Rightarrow> on_ro_check vt c pi output s | _ \<Rightarrow> Inl OutOfRange)
      | OnNull c \<Rightarrow> (case ans of ADone \<Rightarrow> on_null c s | _ \<Rightarrow> Inl OutOfRange))"

text \<open>The answer \<open>ans\<close> to the \<open>n\<close>-th open call.\<close>

definition coo_reply ::
    "(uint32 list \<Rightarrow> uint32 list) \<Rightarrow> 'a chopper_scheme chop_vt \<Rightarrow> nat \<Rightarrow> answer \<Rightarrow> 'a chopper_scheme coo \<Rightarrow> 'a chopper_scheme coo res" where
  "coo_reply ord vt n ans s =
     (if n < length (co_calls s)
      then let (k, cb) = co_calls s ! n
        in run_callback ord vt cb ans
             (log_event (Got (cb_txn cb) k ans) (s\<lparr>co_calls := take n (co_calls s) @ drop (Suc n) (co_calls s)\<rparr>))
      else Inl OutOfRange)"

end
