(* ===== verification/Coordinator_Run.thy ===== *)
theory Coordinator_Run
  imports Coordinator
begin

text \<open>
  Executions of the coordinator: the states reached by requests and by answers in any order. A step concerns
  one transaction, and what it does is described by its effect on the view of that transaction: its record,
  its open calls and its events.
\<close>

section \<open>Reachable states\<close>

text \<open>\<open>fresh\<close> are the transactions that requests are turned into. The servers of a batch are all visited, once each.\<close>

definition visits_all :: "(uint32 list \<Rightarrow> uint32 list) \<Rightarrow> bool" where
  "visits_all ord \<longleftrightarrow> (\<forall>ks. mset (ord ks) = mset ks)"

inductive coo_reach ::
    "(uint32 list \<Rightarrow> uint32 list) \<Rightarrow> 'a chopper_scheme chop_vt \<Rightarrow> ('a chopper_scheme \<Rightarrow> bool) \<Rightarrow> uint32 \<Rightarrow> nat \<Rightarrow> int \<Rightarrow> bool \<Rightarrow>
      'a chopper_scheme coo \<Rightarrow> bool"
  for ord vt fresh cid n mode batch where
  coo_init: "coo_reach ord vt fresh cid n mode batch (new_coo cid n mode batch)"
| coo_request: "coo_reach ord vt fresh cid n mode batch s \<Longrightarrow> fresh ch \<Longrightarrow> do_one ord vt ch s = Inr s' \<Longrightarrow> coo_reach ord vt fresh cid n mode batch s'"
| coo_answer: "coo_reach ord vt fresh cid n mode batch s \<Longrightarrow> coo_reply ord vt i ans s = Inr s' \<Longrightarrow> coo_reach ord vt fresh cid n mode batch s'"

section \<open>The view of one transaction\<close>

fun ev_txn :: "co_event \<Rightarrow> nat" where
  "ev_txn (Begun c) = c" | "ev_txn (Sent c _ _) = c" | "ev_txn (Got c _ _) = c" | "ev_txn (Restarted c) = c" | "ev_txn (Reported c _) = c"

definition txn_of :: "nat \<Rightarrow> 'c coo \<Rightarrow> 'c option" where
  "txn_of c s = (if c < length (co_txns s) then co_txns s ! c else None)"

definition calls_of :: "nat \<Rightarrow> 'c coo \<Rightarrow> (uint32 \<times> co_cb) list" where
  "calls_of c s = filter (\<lambda>p. cb_txn (snd p) = c) (co_calls s)"

definition events_of :: "nat \<Rightarrow> 'c coo \<Rightarrow> co_event list" where
  "events_of c s = filter (\<lambda>e. ev_txn e = c) (co_log s)"

lemma txn_at_Inr [simp]: "txn_at c s = Inr ch \<longleftrightarrow> txn_of c s = Some ch"
  by (auto simp: txn_at_def txn_of_def split: option.splits)

text \<open>What a part of a step does: the transaction \<open>c\<close> becomes \<open>t\<close>, and the calls \<open>cs\<close> and the events \<open>es\<close> are added.\<close>

definition eff :: "nat \<Rightarrow> 'c option \<Rightarrow> (uint32 \<times> co_cb) list \<Rightarrow> co_event list \<Rightarrow> 'c coo \<Rightarrow> 'c coo \<Rightarrow> bool" where
  "eff c t cs es s s' \<longleftrightarrow>
     co_mode s' = co_mode s \<and> co_batch s' = co_batch s \<and> length (co_txns s') = length (co_txns s) \<and>
     txn_of c s' = t \<and> calls_of c s' = calls_of c s @ cs \<and> events_of c s' = events_of c s @ es \<and>
     (\<forall>d. d \<noteq> c \<longrightarrow> txn_of d s' = txn_of d s \<and> calls_of d s' = calls_of d s \<and> events_of d s' = events_of d s)"

lemma eff_refl: "txn_of c s = t \<Longrightarrow> eff c t [] [] s s"
  by (simp add: eff_def)

lemma eff_trans: "eff c t cs es s s1 \<Longrightarrow> eff c t' cs' es' s1 s2 \<Longrightarrow> eff c t' (cs @ cs') (es @ es') s s2"
  by (simp add: eff_def)

lemma eff_txn: "eff c t cs es s s' \<Longrightarrow> txn_of c s' = t"
  by (simp add: eff_def)

lemma eff_mode: "eff c t cs es s s' \<Longrightarrow> co_mode s' = co_mode s" "eff c t cs es s s' \<Longrightarrow> co_batch s' = co_batch s"
  by (simp_all add: eff_def)

lemma eff_put: "txn_of c s = Some ch \<Longrightarrow> eff c (Some ch') [] [] s (put_txn c ch' s)"
  by (auto simp: eff_def put_txn_def txn_of_def calls_of_def events_of_def split: if_splits)

lemma eff_log: "ev_txn e = c \<Longrightarrow> txn_of c s = t \<Longrightarrow> eff c t [] [e] s (log_event e s)"
  by (auto simp: eff_def log_event_def txn_of_def calls_of_def events_of_def)

lemma eff_delete: "txn_of c s = Some ch \<Longrightarrow> eff c None [] [] s (s\<lparr>co_txns := (co_txns s)[c := None]\<rparr>)"
  by (auto simp: eff_def txn_of_def calls_of_def events_of_def split: if_splits)

lemma eff_call: "call k cb req s = Inr s' \<Longrightarrow> cb_txn cb = c \<Longrightarrow> txn_of c s = t \<Longrightarrow> eff c t [(k, cb)] [Sent c k req] s s'"
  by (auto simp: call_def eff_def log_event_def txn_of_def calls_of_def events_of_def split: if_splits)

lemma view_cong:
  "co_txns s' = co_txns s \<Longrightarrow> txn_of c s' = txn_of c s" "co_calls s' = co_calls s \<Longrightarrow> calls_of c s' = calls_of c s"
  "co_log s' = co_log s \<Longrightarrow> events_of c s' = events_of c s"
  by (simp_all add: txn_of_def calls_of_def events_of_def)

lemma eff_cong:
  assumes "eff c t cs es s s1" "co_txns s2 = co_txns s1" "co_calls s2 = co_calls s1" "co_log s2 = co_log s1" "co_mode s2 = co_mode s1"
    "co_batch s2 = co_batch s1"
  shows "eff c t cs es s s2"
  using assms by (simp add: eff_def view_cong(1) [OF assms(2)] view_cong(2) [OF assms(3)] view_cong(3) [OF assms(4)])

lemma eff_cong0:
  assumes "eff c t cs es s1 s'" "co_txns s1 = co_txns s" "co_calls s1 = co_calls s" "co_log s1 = co_log s" "co_mode s1 = co_mode s"
    "co_batch s1 = co_batch s"
  shows "eff c t cs es s s'"
  using assms by (simp add: eff_def view_cong(1) [OF assms(2)] view_cong(2) [OF assms(3)] view_cong(3) [OF assms(4)])

lemma eff_report:
  assumes "report c del s = Inr s'" "txn_of c s = Some ch"
  shows "eff c (if del then None else Some ch) [] [Reported c (ch_res ch)] s s'"
proof -
  let ?s1 = "log_event (Reported c (ch_res ch)) s"
  have l: "eff c (Some ch) [] [Reported c (ch_res ch)] s ?s1" using assms(2) by (intro eff_log) simp_all
  show ?thesis
  proof (cases del)
    case True
    then have "s' = ?s1\<lparr>co_txns := (co_txns ?s1)[c := None]\<rparr>" using assms by (simp add: report_def Let_def)
    then show ?thesis using eff_trans [OF l eff_delete [OF eff_txn [OF l]]] True by simp
  next
    case False
    then show ?thesis using assms l by (simp add: report_def Let_def)
  qed
qed

text \<open>A loop of calls.\<close>

lemma eff_each:
  assumes step: "\<And>x s s'. x \<in> set xs \<Longrightarrow> f x s = Inr s' \<Longrightarrow> txn_of c s = t \<Longrightarrow> \<exists>r. P x r \<and> eff c t [(g x, h x)] [Sent c (g x) r] s s'"
    and "each f xs s = Inr s'" "txn_of c s = t"
  shows "\<exists>rs. list_all2 P xs rs \<and> eff c t (map (\<lambda>x. (g x, h x)) xs) (map2 (\<lambda>x r. Sent c (g x) r) xs rs) s s'"
  using assms
proof (induction xs arbitrary: s)
  case Nil
  then show ?case by (auto intro: exI [of _ "[]"] eff_refl)
next
  case (Cons x xs)
  from Cons.prems(2) obtain s1 where s1: "f x s = Inr s1" "each f xs s1 = Inr s'" by auto
  from Cons.prems(1) [OF _ s1(1) Cons.prems(3)] obtain r where r: "P x r" "eff c t [(g x, h x)] [Sent c (g x) r] s s1" by auto
  from Cons.IH [OF Cons.prems(1) s1(2) eff_txn [OF r(2)]] obtain rs where rs: "list_all2 P xs rs"
    "eff c t (map (\<lambda>x. (g x, h x)) xs) (map2 (\<lambda>x r. Sent c (g x) r) xs rs) s1 s'" by auto
  then show ?case using eff_trans [OF r(2) rs(2)] r(1) by (auto intro!: exI [of _ "r # rs"])
qed

section \<open>The effect of starting pieces\<close>

fun cb_pieces :: "co_cb \<Rightarrow> nat list" where
  "cb_pieces (OnStart _ i) = [i]" | "cb_pieces (OnBatch _ is) = is" | "cb_pieces (OnRccStart _ i) = [i]" | "cb_pieces (OnRccBatch _ is) = is"
| "cb_pieces (OnRo _ i) = [i]" | "cb_pieces (OnRoCheck _ i) = [i]" | "cb_pieces _ = []"

definition pieces_of :: "(uint32 \<times> co_cb) list \<Rightarrow> nat list" where
  "pieces_of cs = concat (map (\<lambda>p. cb_pieces (snd p)) cs)"

lemma pieces_of_simps [simp]:
  "pieces_of [] = []" "pieces_of (p # cs) = cb_pieces (snd p) @ pieces_of cs" "pieces_of (cs @ ds) = pieces_of cs @ pieces_of ds"
  by (simp_all add: pieces_of_def)

fun start_req :: "co_request \<Rightarrow> bool" where
  "start_req (ReqStart _ _ _) = True" | "start_req (ReqBatch _ _ _) = True" | "start_req (ReqRccStart _ _) = True"
| "start_req (ReqRccBatch _ _) = True" | "start_req (ReqRoStart _ _) = True" | "start_req _ = False"

fun plain_cb :: "co_cb \<Rightarrow> bool" where
  "plain_cb (OnStart _ _) = True" | "plain_cb (OnBatch _ _) = True" | "plain_cb _ = False"

text \<open>The servers that got pieces.\<close>

fun contacted :: "co_event list \<Rightarrow> uint32 list" where
  "contacted [] = []"
| "contacted (Sent c k r # es) = (if start_req r then k # contacted es else contacted es)"
| "contacted (_ # es) = contacted es"

lemma contacted_append [simp]: "contacted (es @ fs) = contacted es @ contacted fs"
  by (induction es rule: contacted.induct) auto

definition begun :: "bool \<Rightarrow> nat \<Rightarrow> 'a chopper_scheme \<Rightarrow> (uint32 \<times> co_cb) list \<Rightarrow> co_event list \<Rightarrow> 'a chopper_scheme \<Rightarrow> bool" where
  "begun plain c ch cs es ch' \<longleftrightarrow>
     (\<exists>is ch1. take_pieces ch = Inr (is, ch1) \<and> ch' = (if plain then ch1\<lparr>ch_n_start_sent := ch_n_start_sent ch1 + int (length is)\<rparr> else ch1) \<and>
       mset (pieces_of cs) = mset is \<and> (\<forall>p\<in>set cs. cb_pieces (snd p) \<noteq> [] \<and> plain_cb (snd p) = plain) \<and>
       set (contacted es) = (\<lambda>i. ch_sharding ch1 ! i) ` set is \<and> (\<forall>e\<in>set es. \<exists>k r. e = Sent c k r \<and> start_req r))"

lemma sent_pieces:
  assumes "list_all2 (\<lambda>i r. start_req r) is rs"
  shows "set (contacted (map2 (\<lambda>i r. Sent c (sh i) r) is rs)) = sh ` set is"
    "\<forall>e\<in>set (map2 (\<lambda>i r. Sent c (sh i) r) is rs). \<exists>k r. e = Sent c k r \<and> start_req r"
  using assms by (induction rule: list_all2_induct) auto

lemma pieces_of_single:
  assumes "\<And>i. cb_pieces (cb i) = [i]"
  shows "pieces_of (map (\<lambda>i. (sh i, cb i)) is) = is"
  by (induction "is") (simp_all add: assms)

text \<open>Pieces that are sent one by one.\<close>

lemma begun_single:
  assumes t: "txn_of c s = Some ch" and tp: "take_pieces ch = Inr (is, ch1)"
    and st: "\<And>i s s'. f i s = Inr s' \<Longrightarrow> txn_of c s = Some ch \<Longrightarrow> \<exists>r. start_req r \<and> eff c (Some ch) [(ch_sharding ch1 ! i, cb i)] [Sent c (ch_sharding ch1 ! i) r] s s'"
    and e: "each f is s = Inr s1" and cb: "\<And>i. cb_pieces (cb i) = [i]" "\<And>i. plain_cb (cb i) = plain"
    and ch2: "ch2 = (if plain then ch1\<lparr>ch_n_start_sent := ch_n_start_sent ch1 + int (length is)\<rparr> else ch1)"
  shows "\<exists>cs es. eff c (Some ch2) cs es s (put_txn c ch2 s1) \<and> begun plain c ch cs es ch2"
proof -
  let ?sh = "\<lambda>i. ch_sharding ch1 ! i"
  from eff_each [of "is" f c "Some ch" "\<lambda>i r. start_req r" ?sh cb, OF st e t] obtain rs where
    rs: "list_all2 (\<lambda>i r. start_req r) is rs" and
    ef: "eff c (Some ch) (map (\<lambda>i. (?sh i, cb i)) is) (map2 (\<lambda>i r. Sent c (?sh i) r) is rs) s s1" by auto
  have "eff c (Some ch2) (map (\<lambda>i. (?sh i, cb i)) is) (map2 (\<lambda>i r. Sent c (?sh i) r) is rs) s (put_txn c ch2 s1)"
    using eff_trans [OF ef eff_put [OF eff_txn [OF ef]]] by simp
  moreover have "begun plain c ch (map (\<lambda>i. (?sh i, cb i)) is) (map2 (\<lambda>i r. Sent c (?sh i) r) is rs) ch2"
    unfolding begun_def using tp ch2 sent_pieces [OF rs, of c ?sh] pieces_of_single [of cb ?sh "is", OF cb(1)] cb by auto
  ultimately show ?thesis by blast
qed

text \<open>Pieces that are sent in one batch per server.\<close>

lemma pieces_of_batches:
  assumes "distinct ks" "\<And>k. cb_pieces (cb k) = filter (\<lambda>i. sh i = k) is" "sh ` set is = set ks"
  shows "mset (pieces_of (map (\<lambda>k. (k, cb k)) ks)) = mset is"
proof -
  have "mset (pieces_of (map (\<lambda>k. (k, cb k)) ks)) = mset (filter (\<lambda>i. sh i \<in> set ks) is)"
    using assms(1)
  proof (induction ks)
    case (Cons k ks)
    then have k: "k \<notin> set ks" by simp
    have "mset (filter (\<lambda>i. sh i \<in> set (k # ks)) is) = mset (filter (\<lambda>i. sh i = k) is) + mset (filter (\<lambda>i. sh i \<in> set ks) is)"
      using k by (induction "is") auto
    then show ?case using Cons by (simp add: assms(2))
  qed simp
  moreover have "filter (\<lambda>i. sh i \<in> set ks) is = is" using assms(3) by (auto simp: filter_id_conv)
  ultimately show ?thesis by simp
qed

lemma servers_of_set:
  assumes "visits_all ord"
  shows "set (servers_of ord ch is) = (\<lambda>i. ch_sharding ch ! i) ` set is" "distinct (servers_of ord ch is)"
proof -
  have m: "mset (servers_of ord ch is) = mset (remdups (map (\<lambda>i. ch_sharding ch ! i) is))"
    using assms by (simp add: visits_all_def servers_of_def)
  show "set (servers_of ord ch is) = (\<lambda>i. ch_sharding ch ! i) ` set is" using mset_eq_setD [OF m] by simp
  show "distinct (servers_of ord ch is)" using mset_eq_imp_distinct_iff [OF m] by simp
qed

lemma number_pieces_fst: "number_pieces ch is s = (hs, s1) \<Longrightarrow>
    map fst hs = is \<and> co_txns s1 = co_txns s \<and> co_calls s1 = co_calls s \<and> co_log s1 = co_log s \<and> co_mode s1 = co_mode s \<and> co_batch s1 = co_batch s"
proof (induction "is" arbitrary: s hs s1)
  case (Cons i "is")
  obtain hs' s2 where r: "number_pieces ch is (s\<lparr>co_next_pie := co_next_pie s + 1\<rparr>) = (hs', s2)" by fastforce
  then have "hs = (i, piece_header ch i (co_next_pie s) s) # hs'" "s1 = s2" using Cons.prems by (simp_all add: next_pie_id_def)
  then show ?case using Cons.IH [OF r] by simp
qed simp

lemma on_server_fst: "map fst (on_server ch k hs) = filter (\<lambda>i. ch_sharding ch ! i = k) (map fst hs)"
  by (induction hs) (auto simp: on_server_def)

lemma begun_batch:
  assumes va: "visits_all ord" and t: "txn_of c s = Some ch" and tp: "take_pieces ch = Inr (is, ch1)" and nm: "number_pieces ch1 is s = (hs, s1)"
    and st: "\<And>k s s'. f k s = Inr s' \<Longrightarrow> txn_of c s = Some ch \<Longrightarrow> \<exists>r. start_req r \<and> eff c (Some ch) [(k, cb k)] [Sent c k r] s s'"
    and e: "each f (servers_of ord ch1 is) s1 = Inr s2"
    and cb: "\<And>k. cb_pieces (cb k) = map fst (on_server ch1 k hs)" "\<And>k. plain_cb (cb k) = plain"
    and ch2: "ch2 = (if plain then ch1\<lparr>ch_n_start_sent := ch_n_start_sent ch1 + int (length is)\<rparr> else ch1)"
  shows "\<exists>cs es. eff c (Some ch2) cs es s (put_txn c ch2 s2) \<and> begun plain c ch cs es ch2"
proof -
  let ?ks = "servers_of ord ch1 is"
  note n = number_pieces_fst [OF nm]
  note ks = servers_of_set [OF va, of ch1 "is"]
  have t1: "txn_of c s1 = Some ch" using t n by (simp add: view_cong(1) [of s1 s])
  from eff_each [of ?ks f c "Some ch" "\<lambda>k r. start_req r" "\<lambda>k. k" cb, OF st e t1] obtain rs where
    rs: "list_all2 (\<lambda>k r. start_req r) ?ks rs" and
    ef1: "eff c (Some ch) (map (\<lambda>k. (k, cb k)) ?ks) (map2 (\<lambda>k r. Sent c k r) ?ks rs) s1 s2" by auto
  have ef: "eff c (Some ch) (map (\<lambda>k. (k, cb k)) ?ks) (map2 (\<lambda>k r. Sent c k r) ?ks rs) s s2"
    by (rule eff_cong0 [OF ef1]) (use n in simp_all)
  have p: "\<And>k. cb_pieces (cb k) = filter (\<lambda>i. ch_sharding ch1 ! i = k) is" using cb(1) n by (simp add: on_server_fst)
  have ne: "cb_pieces (cb k) \<noteq> []" if "k \<in> set ?ks" for k using that ks(1) by (auto simp: p filter_empty_conv)
  have "eff c (Some ch2) (map (\<lambda>k. (k, cb k)) ?ks) (map2 (\<lambda>k r. Sent c k r) ?ks rs) s (put_txn c ch2 s2)"
    using eff_trans [OF ef eff_put [OF eff_txn [OF ef]]] by simp
  moreover have "begun plain c ch (map (\<lambda>k. (k, cb k)) ?ks) (map2 (\<lambda>k r. Sent c k r) ?ks rs) ch2"
    unfolding begun_def using tp ch2 sent_pieces [OF rs, of c "\<lambda>k. k"] ks(1) ne cb(2)
      pieces_of_batches [of ?ks cb "\<lambda>i. ch_sharding ch1 ! i" "is", OF ks(2) p ks(1) [symmetric]] by auto
  ultimately show ?thesis by blast
qed

text \<open>The effects of the functions that start pieces.\<close>

lemma eff_send_piece:
  assumes "send_piece c ch1 i s = Inr s'" "txn_of c s = t"
  shows "\<exists>r. start_req r \<and> eff c t [(ch_sharding ch1 ! i, OnStart c i)] [Sent c (ch_sharding ch1 ! i) r] s s'"
proof -
  let ?r = "ReqStart (piece_header ch1 i (co_next_pie s) s) (ch_inputs ch1 ! i) (ch_output_size ch1 ! i)"
  let ?s1 = "s\<lparr>co_next_pie := co_next_pie s + 1\<rparr>"
  from assms(1) obtain s2 where s2: "call (ch_sharding ch1 ! i) (OnStart c i) ?r ?s1 = Inr s2"
    "s' = s2\<lparr>co_site_piece := incr_at (ch_sharding ch1 ! i) (co_site_piece s2)\<rparr>"
    by (auto simp: send_piece_def next_pie_id_def Let_def)
  have "eff c t [(ch_sharding ch1 ! i, OnStart c i)] [Sent c (ch_sharding ch1 ! i) ?r] ?s1 s2"
    by (rule eff_call [OF s2(1)]) (simp_all add: assms(2) [symmetric] txn_of_def)
  then have "eff c t [(ch_sharding ch1 ! i, OnStart c i)] [Sent c (ch_sharding ch1 ! i) ?r] s s2" by (rule eff_cong0) simp_all
  then have "eff c t [(ch_sharding ch1 ! i, OnStart c i)] [Sent c (ch_sharding ch1 ! i) ?r] s s'" by (rule eff_cong) (simp_all add: s2(2))
  then show ?thesis by (intro exI [of _ ?r]) simp
qed

lemma eff_numbered_call:
  assumes "call k cb (req (co_next_pie s)) (s\<lparr>co_next_pie := co_next_pie s + 1\<rparr>) = Inr s'" "txn_of c s = t" "cb_txn cb = c"
  shows "eff c t [(k, cb)] [Sent c k (req (co_next_pie s))] s s'"
proof (rule eff_cong0)
  show "eff c t [(k, cb)] [Sent c k (req (co_next_pie s))] (s\<lparr>co_next_pie := co_next_pie s + 1\<rparr>) s'"
    by (rule eff_call [OF assms(1)]) (simp_all add: assms(3) assms(2) [symmetric] txn_of_def)
qed simp_all

lemma begun_start:
  assumes "start c s = Inr s'" "txn_of c s = Some ch"
  shows "\<exists>cs es ch'. eff c (Some ch') cs es s s' \<and> begun True c ch cs es ch'"
proof -
  from assms obtain "is" ch1 s1 where tp: "take_pieces ch = Inr (is, ch1)" and e: "each (send_piece c ch1) is s = Inr s1"
    and s': "s' = put_txn c (ch1\<lparr>ch_n_start_sent := ch_n_start_sent ch1 + int (length is)\<rparr>) s1"
    by (auto simp: start_def)
  have "\<exists>cs es. eff c (Some (ch1\<lparr>ch_n_start_sent := ch_n_start_sent ch1 + int (length is)\<rparr>)) cs es s s' \<and>
      begun True c ch cs es (ch1\<lparr>ch_n_start_sent := ch_n_start_sent ch1 + int (length is)\<rparr>)"
    unfolding s' by (rule begun_single [where cb = "OnStart c", OF assms(2) tp eff_send_piece e]) simp_all
  then show ?thesis by blast
qed

lemma begun_naive_batch:
  assumes "visits_all ord" "naive_batch_start ord c s = Inr s'" "txn_of c s = Some ch"
  shows "\<exists>cs es ch'. eff c (Some ch') cs es s s' \<and> begun True c ch cs es ch'"
proof -
  from assms obtain "is" ch1 where tp: "take_pieces ch = Inr (is, ch1)"
    and r: "(case number_pieces ch1 is s of (hs, s1) \<Rightarrow> rbind (each (send_batch c ch1 hs) (servers_of ord ch1 is) s1) (\<lambda>s2. Inr (put_txn c (ch1\<lparr>ch_n_start_sent := ch_n_start_sent ch1 + int (length is)\<rparr>) s2))) = Inr s'"
    by (auto simp: naive_batch_start_def Let_def)
  obtain hs s1 where nm: "number_pieces ch1 is s = (hs, s1)" by fastforce
  from r obtain s2 where e: "each (send_batch c ch1 hs) (servers_of ord ch1 is) s1 = Inr s2" and s': "s' = put_txn c (ch1\<lparr>ch_n_start_sent := ch_n_start_sent ch1 + int (length is)\<rparr>) s2"
    by (auto simp: nm)
  let ?cb = "\<lambda>k. OnBatch c (map fst (on_server ch1 k hs))"
  have st: "\<exists>r. start_req r \<and> eff c (Some ch) [(k, ?cb k)] [Sent c k r] s s'"
    if "send_batch c ch1 hs k s = Inr s'" "txn_of c s = Some ch" for k s s'
    using that by (auto simp: send_batch_def Let_def intro!: exI eff_call)
  have "\<exists>cs es. eff c (Some (ch1\<lparr>ch_n_start_sent := ch_n_start_sent ch1 + int (length is)\<rparr>)) cs es s s' \<and>
      begun True c ch cs es (ch1\<lparr>ch_n_start_sent := ch_n_start_sent ch1 + int (length is)\<rparr>)"
    unfolding s' by (rule begun_batch [where cb = ?cb, OF assms(1,3) tp nm st e]) simp_all
  then show ?thesis by blast
qed

lemma begun_start_txn:
  assumes "visits_all ord" "start_txn ord c s = Inr s'" "txn_of c s = Some ch"
  shows "\<exists>cs es ch'. eff c (Some ch') cs es s s' \<and> begun True c ch cs es ch'"
  using begun_start [of c s s' ch] begun_naive_batch [of ord c s s' ch] assms by (auto simp: start_txn_def split: if_splits)

lemma begun_deptran:
  assumes "deptran_start c s = Inr s'" "txn_of c s = Some ch"
  shows "\<exists>cs es ch'. eff c (Some ch') cs es s s' \<and> begun False c ch cs es ch'"
proof -
  from assms obtain "is" ch1 s1 where tp: "take_pieces ch = Inr (is, ch1)" and e: "each (send_rcc c ch1) is s = Inr s1" and s': "s' = put_txn c ch1 s1"
    by (auto simp: deptran_start_def)
  have st: "\<exists>r. start_req r \<and> eff c (Some ch) [(ch_sharding ch1 ! i, OnRccStart c i)] [Sent c (ch_sharding ch1 ! i) r] s s'"
    if "send_rcc c ch1 i s = Inr s'" "txn_of c s = Some ch" for i s s'
  proof -
    let ?r = "\<lambda>pid. ReqRccStart (piece_header ch1 i pid s) (ch_inputs ch1 ! i)"
    have "eff c (Some ch) [(ch_sharding ch1 ! i, OnRccStart c i)] [Sent c (ch_sharding ch1 ! i) (?r (co_next_pie s))] s s'"
      by (rule eff_numbered_call) (use that in \<open>simp_all add: send_rcc_def next_pie_id_def Let_def\<close>)
    then show ?thesis by (intro exI [of _ "?r (co_next_pie s)"]) simp
  qed
  have "\<exists>cs es. eff c (Some ch1) cs es s s' \<and> begun False c ch cs es ch1"
    unfolding s' by (rule begun_single [where cb = "OnRccStart c", OF assms(2) tp st e]) simp_all
  then show ?thesis by blast
qed

lemma begun_deptran_batch:
  assumes "visits_all ord" "deptran_batch_start ord c s = Inr s'" "txn_of c s = Some ch"
  shows "\<exists>cs es ch'. eff c (Some ch') cs es s s' \<and> begun False c ch cs es ch'"
proof -
  from assms obtain "is" ch1 where tp: "take_pieces ch = Inr (is, ch1)"
    and r: "(case number_pieces ch1 is s of (hs, s1) \<Rightarrow> rbind (each (send_rcc_batch c ch1 hs) (servers_of ord ch1 is) s1) (\<lambda>s2. Inr (put_txn c ch1 s2))) = Inr s'"
    by (auto simp: deptran_batch_start_def Let_def)
  obtain hs s1 where nm: "number_pieces ch1 is s = (hs, s1)" by fastforce
  from r obtain s2 where e: "each (send_rcc_batch c ch1 hs) (servers_of ord ch1 is) s1 = Inr s2" and s': "s' = put_txn c ch1 s2"
    by (auto simp: nm)
  let ?cb = "\<lambda>k. OnRccBatch c (map fst (on_server ch1 k hs))"
  have st: "\<exists>r. start_req r \<and> eff c (Some ch) [(k, ?cb k)] [Sent c k r] s s'"
    if "send_rcc_batch c ch1 hs k s = Inr s'" "txn_of c s = Some ch" for k s s'
    using that by (auto simp: send_rcc_batch_def Let_def intro!: exI eff_call)
  have "\<exists>cs es. eff c (Some ch1) cs es s s' \<and> begun False c ch cs es ch1"
    unfolding s' by (rule begun_batch [where cb = ?cb, OF assms(1,3) tp nm st e]) simp_all
  then show ?thesis by blast
qed

lemma begun_ro:
  assumes "rbind (take_pieces ch) (\<lambda>(is, ch1). rbind (each (send_ro cb c ch1) is s) (\<lambda>s1. Inr (put_txn c ch1 s1))) = Inr s'" "txn_of c s = Some ch"
    and cb: "\<And>i. cb_txn (cb c i) = c" "\<And>i. cb_pieces (cb c i) = [i]" "\<And>i. \<not> plain_cb (cb c i)"
  shows "\<exists>cs es ch'. eff c (Some ch') cs es s s' \<and> begun False c ch cs es ch'"
proof -
  from assms(1) obtain "is" ch1 s1 where tp: "take_pieces ch = Inr (is, ch1)" and e: "each (send_ro cb c ch1) is s = Inr s1" and s': "s' = put_txn c ch1 s1"
    by auto
  have st: "\<exists>r. start_req r \<and> eff c (Some ch) [(ch_sharding ch1 ! i, cb c i)] [Sent c (ch_sharding ch1 ! i) r] s s'"
    if "send_ro cb c ch1 i s = Inr s'" "txn_of c s = Some ch" for i s s'
  proof -
    let ?r = "\<lambda>pid. ReqRoStart (piece_header ch1 i pid s) (ch_inputs ch1 ! i)"
    have "eff c (Some ch) [(ch_sharding ch1 ! i, cb c i)] [Sent c (ch_sharding ch1 ! i) (?r (co_next_pie s))] s s'"
      by (rule eff_numbered_call) (use that cb(1) in \<open>simp_all add: send_ro_def next_pie_id_def Let_def\<close>)
    then show ?thesis by (intro exI [of _ "?r (co_next_pie s)"]) simp
  qed
  have "\<exists>cs es. eff c (Some ch1) cs es s s' \<and> begun False c ch cs es ch1"
    unfolding s' by (rule begun_single [where cb = "cb c", OF assms(2) tp st e cb(2)]) (simp_all add: cb(3))
  then show ?thesis by blast
qed

lemma begun_start_ro:
  assumes "deptran_start_ro c s = Inr s'" "txn_of c s = Some ch"
  shows "\<exists>cs es ch'. eff c (Some ch') cs es s s' \<and> begun False c ch cs es ch'"
  by (rule begun_ro [of ch OnRo c]) (use assms in \<open>simp_all add: deptran_start_ro_def\<close>)

lemma begun_finish_ro:
  assumes "deptran_finish_ro c s = Inr s'" "txn_of c s = Some ch"
  shows "\<exists>cs es ch'. eff c (Some ch') cs es s s' \<and> begun False c ch cs es ch'"
  by (rule begun_ro [of ch OnRoCheck c]) (use assms in \<open>simp_all add: deptran_finish_ro_def\<close>)

end
