(* ===== verification/Coordinator_Safety.thy ===== *)
theory Coordinator_Safety
  imports Coordinator_Run
begin

text \<open>
  What the coordinator guarantees for every class of transactions that keeps the contract of
  \<^verbatim>\<open>TxnChopper\<close>: the counters of a transaction agree with its open calls, with two-phase commit a decision
  follows the votes and is the same everywhere, a transaction is reported at most once, and no callback
  uses a deleted transaction.
\<close>

section \<open>The contract of a class of transactions\<close>

text \<open>\<open>slack\<close> is the number of pieces that are neither counted as started nor waiting nor ready: those that are sent
  and not answered.\<close>

definition slack :: "'a chopper_scheme \<Rightarrow> int" where
  "slack ch = ch_n_pieces ch - ch_n_started ch - int (length (filter (\<lambda>x. x \<noteq> 1 \<and> x \<noteq> 2) (ch_status ch)))"

definition ones :: "'a chopper_scheme \<Rightarrow> nat set" where
  "ones ch = {i. i < length (ch_status ch) \<and> ch_status ch ! i = 1}"

text \<open>The part of the state that belongs to the class, and the part that belongs to the coordinator.\<close>

definition own where
  "own ch = (ch_txn_type ch, ch_inputs ch, ch_output_size ch, ch_p_types ch, ch_sharding ch, ch_status ch, ch_n_pieces ch, chopper.more ch)"

definition counters :: "'a chopper_scheme \<Rightarrow> uint32 list \<times> bool \<times> int \<times> int \<times> int" where
  "counters ch = (ch_proxies ch, ch_commit ch, ch_n_start_sent ch, ch_n_prepared ch, ch_n_finished ch)"

definition pristine :: "'a chopper_scheme \<Rightarrow> bool" where
  "pristine ch \<longleftrightarrow> ch_proxies ch = [] \<and> ch_commit ch \<and> ch_n_prepared ch = 0 \<and> ch_n_finished ch = 0 \<and> slack ch = 0"

text \<open>The contract: the invariant \<open>J D\<close> of the class says what holds when the replies of the pieces \<open>D\<close> have been
  handled. A callback runs at most once for a piece of an attempt, may make pieces ready, add pieces or
  finish waiting ones, and does not touch what is counted by the coordinator; a retry starts afresh.\<close>

locale chopper_class =
  fixes vt :: "'a chopper_scheme chop_vt"
    and J :: "nat set \<Rightarrow> 'a chopper_scheme \<Rightarrow> bool"
  assumes callback: "vt_start_callback vt pi res output ch = Inr (b, ch') \<Longrightarrow> J D ch \<Longrightarrow> D \<subseteq> ones ch \<Longrightarrow> pi \<notin> D \<Longrightarrow> pi \<in> ones ch \<Longrightarrow>
      J (insert pi D) ch' \<and> counters ch' = counters ch \<and> slack ch' = slack ch \<and> ones ch \<subseteq> ones ch'"
    and retry: "vt_retry vt ch = Inr ch' \<Longrightarrow> J D ch \<Longrightarrow> J {} ch' \<and> pristine ch' \<and> ch_n_start_sent ch' = ch_n_start_sent ch"
    and own_part: "J D ch \<Longrightarrow> own ch' = own ch \<Longrightarrow> J D ch'"
    and taken: "J D ch \<Longrightarrow> i < length (ch_status ch) \<Longrightarrow> ch_status ch ! i = 0 \<Longrightarrow> J D (ch\<lparr>ch_status := (ch_status ch)[i := 1]\<rparr>)"

text \<open>A transaction with the open pieces \<open>ps\<close>.\<close>

definition running :: "(nat set \<Rightarrow> 'a chopper_scheme \<Rightarrow> bool) \<Rightarrow> 'a chopper_scheme \<Rightarrow> nat list \<Rightarrow> bool" where
  "running J ch ps \<longleftrightarrow> (\<exists>D. J D ch \<and> distinct ps \<and> D \<union> set ps \<subseteq> ones ch \<and> D \<inter> set ps = {}) \<and> slack ch = int (length ps)"

lemma own_ones: "own ch' = own ch \<Longrightarrow> ones ch' = ones ch"
  by (simp add: own_def ones_def)

lemma own_slack: "own ch' = own ch \<Longrightarrow> slack ch' = slack ch + ch_n_started ch - ch_n_started ch'"
  by (simp add: own_def slack_def)

lemma running_perm: "running J ch ps \<Longrightarrow> mset qs = mset ps \<Longrightarrow> running J ch qs"
  unfolding running_def using mset_eq_imp_distinct_iff [of qs ps] mset_eq_setD [of qs ps] mset_eq_length [of qs ps] by auto

lemma running_done: "running J ch ps \<Longrightarrow> ch_n_started ch = ch_n_pieces ch \<Longrightarrow> ps = []"
  by (auto simp: running_def slack_def)

lemma slack_take:
  assumes "i < length (ch_status ch)" "ch_status ch ! i = 0"
  shows "slack (ch\<lparr>ch_status := (ch_status ch)[i := 1], ch_proxies := ps\<rparr>) = slack ch + 1"
proof -
  let ?P = "\<lambda>x. x \<noteq> 1 \<and> x \<noteq> (2::int)" and ?xs = "ch_status ch"
  have xs: "?xs = take i ?xs @ 0 # drop (Suc i) ?xs" using id_take_nth_drop [OF assms(1)] assms(2) by simp
  have "length (filter ?P ?xs) = Suc (length (filter ?P (?xs[i := 1])))"
    by (subst xs) (simp add: upd_conv_take_nth_drop [OF assms(1)])
  then show ?thesis by (simp add: slack_def)
qed

lemma ones_take: "i < length (ch_status ch) \<Longrightarrow> ones (ch\<lparr>ch_status := (ch_status ch)[i := 1], ch_proxies := ps\<rparr>) = insert i (ones ch)"
  by (auto simp: ones_def nth_list_update)

context chopper_class
begin

lemma running_own: "running J ch ps \<Longrightarrow> own ch' = own ch \<Longrightarrow> ch_n_started ch' = ch_n_started ch \<Longrightarrow> running J ch' ps"
  unfolding running_def using own_part own_ones [of ch' ch] own_slack [of ch' ch] by auto

text \<open>A reply whose callback is not run.\<close>

lemma running_skip:
  assumes "running J ch (pi # ps)" "own ch' = own ch" "ch_n_started ch' = ch_n_started ch + 1"
  shows "running J ch' ps"
  using assms own_part [of _ ch ch'] own_ones [of ch' ch] own_slack [of ch' ch] unfolding running_def by auto

lemma running_callback:
  assumes r: "running J ch (pi # ps)" and o: "own ch1 = own ch" "ch_n_started ch1 = ch_n_started ch + 1"
    and cb: "vt_start_callback vt pi res output ch1 = Inr (b, ch')"
  shows "running J ch' ps" "counters ch' = counters ch1"
proof -
  from r obtain D where D: "J D ch" "distinct (pi # ps)" "D \<union> set (pi # ps) \<subseteq> ones ch" "D \<inter> set (pi # ps) = {}"
    and sl: "slack ch = int (length (pi # ps))" by (auto simp: running_def)
  have on: "ones ch1 = ones ch" by (rule own_ones [OF o(1)])
  have c: "J (insert pi D) ch' \<and> counters ch' = counters ch1 \<and> slack ch' = slack ch1 \<and> ones ch1 \<subseteq> ones ch'"
    by (rule callback [OF cb own_part [OF D(1) o(1)]]) (use D on in auto)
  have "slack ch1 = int (length ps)" using own_slack [OF o(1)] sl o(2) by simp
  then show "running J ch' ps" unfolding running_def using c D on by (intro conjI exI [of _ "insert pi D"]) auto
  show "counters ch' = counters ch1" using c by simp
qed

lemma running_pristine: "J {} ch \<Longrightarrow> pristine ch \<Longrightarrow> running J ch []"
  unfolding running_def pristine_def by (auto intro!: exI [of _ "{}"])

lemma running_retry:
  assumes "running J ch ps" "own ch1 = own ch" "vt_retry vt ch1 = Inr ch'"
  shows "running J ch' []" "pristine ch'" "ch_n_start_sent ch' = ch_n_start_sent ch1"
proof -
  from assms(1) obtain D where "J D ch" by (auto simp: running_def)
  then have "J {} ch' \<and> pristine ch' \<and> ch_n_start_sent ch' = ch_n_start_sent ch1" using retry [OF assms(3)] own_part assms(2) by blast
  then show "running J ch' []" "pristine ch'" "ch_n_start_sent ch' = ch_n_start_sent ch1" using running_pristine by auto
qed

text \<open>Taking pieces to start.\<close>

lemma running_next:
  assumes r: "running J ch ps" and n: "next_piece ch = Inr (0, i, ch1)"
  shows "running J ch1 (i # ps)" "ch_proxies ch1 = os_ins (ch_sharding ch ! i) (ch_proxies ch)" "ch_commit ch1 = ch_commit ch"
    "ch_n_start_sent ch1 = ch_n_start_sent ch" "ch_n_prepared ch1 = ch_n_prepared ch" "ch_n_finished ch1 = ch_n_finished ch"
    "ch_sharding ch1 = ch_sharding ch"
proof -
  from n obtain "is" where rd: "ready (ch_status ch) = i # is"
    and ch1: "ch1 = ch\<lparr>ch_status := (ch_status ch)[i := 1], ch_proxies := os_ins (ch_sharding ch ! i) (ch_proxies ch)\<rparr>"
    by (auto simp: next_piece_def split: if_splits list.splits)
  note i = ready_update(2,3) [OF rd]
  from r obtain D where D: "J D ch" "distinct ps" "D \<union> set ps \<subseteq> ones ch" "D \<inter> set ps = {}" and sl: "slack ch = int (length ps)" by (auto simp: running_def)
  have J: "J D ch1" by (rule own_part [OF taken [OF D(1) i]]) (simp add: own_def ch1)
  have i1: "i \<notin> ones ch" using i by (simp add: ones_def)
  have on: "ones ch1 = insert i (ones ch)" unfolding ch1 by (rule ones_take [OF i(1)])
  have "slack ch1 = slack ch + 1" unfolding ch1 by (rule slack_take [OF i])
  then show "running J ch1 (i # ps)" unfolding running_def using D J i1 on sl by (intro conjI exI [of _ D]) auto
qed (use n in \<open>auto simp: next_piece_def split: if_splits list.splits\<close>)

lemma running_take:
  assumes "take_pieces ch = Inr (is, ch1)" "running J ch ps" "sorted_wrt (<) (ch_proxies ch)"
  shows "running J ch1 (ps @ is) \<and> set (ch_proxies ch1) = set (ch_proxies ch) \<union> (\<lambda>i. ch_sharding ch1 ! i) ` set is \<and>
    sorted_wrt (<) (ch_proxies ch1) \<and> ch_commit ch1 = ch_commit ch \<and> ch_n_start_sent ch1 = ch_n_start_sent ch \<and>
    ch_n_prepared ch1 = ch_n_prepared ch \<and> ch_n_finished ch1 = ch_n_finished ch \<and> ch_sharding ch1 = ch_sharding ch"
  using assms
proof (induction ch arbitrary: "is" ps rule: take_pieces.induct)
  case (1 ch)
  from "1.prems"(1) obtain code i ch2 where n: "next_piece ch = Inr (code, i, ch2)"
    by (cases "next_piece ch") (auto simp: take_pieces.simps [of ch])
  show ?case
  proof (cases "code = 0")
    case False
    then have "ch2 = ch" using n by (auto simp: next_piece_def split: if_splits list.splits)
    then have "is = []" "ch1 = ch" using "1.prems"(1) n False by (simp_all add: take_pieces.simps [of ch])
    then show ?thesis using "1.prems" by simp
  next
    case True
    then obtain is' where is': "take_pieces ch2 = Inr (is', ch1)" "is = i # is'" using "1.prems"(1) n by (auto simp: take_pieces.simps [of ch])
    note nx = running_next [OF "1.prems"(2) n [unfolded True]]
    have "sorted_wrt (<) (ch_proxies ch2)" using "1.prems"(3) by (simp add: nx(2))
    from "1.IH" [OF n refl refl True is'(1) nx(1) this]
    have "running J ch1 (ps @ is)"
      using running_perm [of J ch1 "(i # ps) @ is'" "ps @ is"] is'(2) by simp
    then show ?thesis using "1.IH" [OF n refl refl True is'(1) nx(1)] nx is'(2) "1.prems"(3) by auto
  qed
qed

end

section \<open>Attempts, votes and decisions\<close>

definition two_phase :: "int \<Rightarrow> bool" where
  "two_phase mode \<longleftrightarrow> mode = MODE_OCC \<or> mode = MODE_2PL"

fun begins :: "co_event \<Rightarrow> bool" where
  "begins (Begun _) = True" | "begins (Restarted _) = True" | "begins _ = False"

text \<open>The events of a transaction since its last start.\<close>

definition attempt :: "co_event list \<Rightarrow> co_event list" where
  "attempt es = rev (takeWhile (\<lambda>e. \<not> begins e) (rev es))"

lemma attempt_snoc: "attempt (es @ [e]) = (if begins e then [] else attempt es @ [e])"
  by (simp add: attempt_def)

lemma attempt_append: "(\<forall>e\<in>set fs. \<not> begins e) \<Longrightarrow> attempt (es @ fs) = attempt es @ fs"
  by (induction fs rule: rev_induct) (simp_all add: attempt_snoc flip: append_assoc)

text \<open>A server refuses by rejecting a piece, by voting no or by not answering a prepare.\<close>

fun refuses :: "answer \<Rightarrow> bool" where
  "refuses (AStart res _) = (res = REJECT)" | "refuses (ABatch rs _) = (REJECT \<in> set rs)"
| "refuses (APrepare v) = (v = None \<or> v = Some REJECT)" | "refuses _ = False"

fun refusal :: "co_event \<Rightarrow> bool" where
  "refusal (Got _ _ ans) = refuses ans" | "refusal _ = False"

definition refused :: "co_event list \<Rightarrow> bool" where
  "refused a = list_ex refusal a"

fun is_vote :: "uint32 \<Rightarrow> co_event \<Rightarrow> bool" where
  "is_vote k (Got _ k' (APrepare _)) = (k' = k)" | "is_vote k _ = False"

fun is_yes :: "uint32 \<Rightarrow> co_event \<Rightarrow> bool" where
  "is_yes k (Got _ k' (APrepare (Some r))) = (k' = k \<and> r \<noteq> REJECT)" | "is_yes k _ = False"

fun is_ack :: "uint32 \<Rightarrow> co_event \<Rightarrow> bool" where
  "is_ack k (Got _ k' ADone) = (k' = k)" | "is_ack k _ = False"

fun commit_to :: "uint32 \<Rightarrow> co_event \<Rightarrow> bool" where
  "commit_to k (Sent _ k' (ReqCommit _)) = (k' = k)" | "commit_to k _ = False"

fun abort_to :: "uint32 \<Rightarrow> co_event \<Rightarrow> bool" where
  "abort_to k (Sent _ k' (ReqAbort _)) = (k' = k)" | "abort_to k _ = False"

fun sends_commit :: "co_event \<Rightarrow> bool" where
  "sends_commit (Sent _ _ (ReqCommit _)) = True" | "sends_commit _ = False"

fun sends_abort :: "co_event \<Rightarrow> bool" where
  "sends_abort (Sent _ _ (ReqAbort _)) = True" | "sends_abort _ = False"

fun is_report :: "co_event \<Rightarrow> bool" where
  "is_report (Reported _ _) = True" | "is_report _ = False"

definition reports :: "co_event list \<Rightarrow> nat" where
  "reports es = length (filter is_report es)"

lemma reports_simps [simp]: "reports [] = 0" "reports (es @ fs) = reports es + reports fs" "reports (e # es) = (if is_report e then 1 else 0) + reports es"
  by (simp_all add: reports_def)

lemma refused_simps [simp]: "refused [] = False" "refused (es @ fs) \<longleftrightarrow> refused es \<or> refused fs" "refused (e # es) \<longleftrightarrow> refusal e \<or> refused es"
  by (simp_all add: refused_def)

text \<open>When the event \<open>e\<close> may follow the history \<open>h\<close> of a transaction with two-phase commit. A server is told to commit
  only if every server that got a piece in this attempt has voted yes and none has refused, and to abort
  only if one has refused; no attempt has both decisions, or pieces after a decision; a retry and a report
  wait for all servers, and nothing follows a report.\<close>

definition step_ok :: "co_event list \<Rightarrow> co_event \<Rightarrow> bool" where
  "step_ok h e \<longleftrightarrow> reports h = 0 \<and>
     (let a = attempt h in
      case e of
        Begun c \<Rightarrow> h = []
      | Sent c k r \<Rightarrow>
          if sends_commit e then k \<in> set (contacted a) \<and> list_all (\<lambda>j. list_ex (is_yes j) a) (contacted a) \<and> \<not> refused a \<and> \<not> list_ex sends_abort a
          else if sends_abort e then k \<in> set (contacted a) \<and> refused a \<and> \<not> list_ex sends_commit a
          else \<not> list_ex sends_commit a \<and> \<not> list_ex sends_abort a
      | Got c k ans \<Rightarrow> True
      | Restarted c \<Rightarrow> refused a \<and> list_all (\<lambda>j. list_ex (abort_to j) a \<and> list_ex (is_ack j) a) (contacted a)
      | Reported c r \<Rightarrow>
          if r = SUCCESS then \<not> refused a \<and> list_all (\<lambda>j. list_ex (commit_to j) a \<and> list_ex (is_ack j) a) (contacted a)
          else refused a \<and> list_all (\<lambda>j. list_ex (abort_to j) a \<and> list_ex (is_ack j) a) (contacted a))"

definition history_ok :: "co_event list \<Rightarrow> bool" where
  "history_ok h \<longleftrightarrow> list_all (\<lambda>i. step_ok (take i h) (h ! i)) [0..<length h]"

lemma history_ok_Nil [simp]: "history_ok []"
  by (simp add: history_ok_def)

lemma history_ok_snoc: "history_ok (h @ [e]) \<longleftrightarrow> history_ok h \<and> step_ok h e"
  unfolding history_ok_def by (auto simp: list_all_iff nth_append)

lemma history_ok_at: "history_ok (h @ e # t) \<Longrightarrow> step_ok h e"
  unfolding history_ok_def list_all_iff by (drule bspec [of _ _ "length h"]) auto

lemma history_ok_append:
  assumes "history_ok h" "\<And>es1 e es2. es = es1 @ e # es2 \<Longrightarrow> step_ok (h @ es1) e"
  shows "history_ok (h @ es)"
  using assms(2)
proof (induction es rule: rev_induct)
  case (snoc e es)
  have "history_ok (h @ es)" by (rule snoc.IH) (use snoc.prems in force)
  moreover have "step_ok (h @ es) e" by (rule snoc.prems [of es e "[]"]) simp
  ultimately show ?case by (simp add: history_ok_snoc flip: append_assoc)
qed (use assms(1) in simp)

section \<open>The invariant of a transaction\<close>

definition undecided :: "co_event list \<Rightarrow> bool" where
  "undecided a \<longleftrightarrow> \<not> list_ex sends_commit a \<and> \<not> list_ex sends_abort a"

text \<open>The record of the transaction agrees with its history.\<close>

definition tp_ok :: "'a chopper_scheme \<Rightarrow> co_event list \<Rightarrow> bool" where
  "tp_ok ch log \<longleftrightarrow> history_ok log \<and> set (ch_proxies ch) = set (contacted (attempt log)) \<and> ch_commit ch = (\<not> refused (attempt log))"

text \<open>Pieces are being started; the votes are being collected; the decision is being sent out; the same for the
  dependency mode; a null call.\<close>

definition start_inv :: "(nat set \<Rightarrow> 'a chopper_scheme \<Rightarrow> bool) \<Rightarrow> int \<Rightarrow> 'a chopper_scheme \<Rightarrow> (uint32 \<times> co_cb) list \<Rightarrow> co_event list \<Rightarrow> bool" where
  "start_inv J mode ch calls log \<longleftrightarrow>
     running J ch (pieces_of calls) \<and> sorted_wrt (<) (ch_proxies ch) \<and> ch_n_prepared ch = 0 \<and> ch_n_finished ch = 0 \<and> reports log = 0 \<and>
     (\<forall>p\<in>set calls. cb_pieces (snd p) \<noteq> [] \<and> (two_phase mode \<longrightarrow> plain_cb (snd p))) \<and>
     (two_phase mode \<longrightarrow> ch_n_start_sent ch = int (length (pieces_of calls)) \<and> tp_ok ch log \<and> undecided (attempt log))"

definition prepare_inv :: "(nat set \<Rightarrow> 'a chopper_scheme \<Rightarrow> bool) \<Rightarrow> nat \<Rightarrow> 'a chopper_scheme \<Rightarrow> (uint32 \<times> co_cb) list \<Rightarrow> co_event list \<Rightarrow> bool" where
  "prepare_inv J c ch calls log \<longleftrightarrow>
     running J ch [] \<and> sorted_wrt (<) (ch_proxies ch) \<and> ch_n_finished ch = 0 \<and> reports log = 0 \<and> (\<forall>p\<in>set calls. snd p = OnPrepare c) \<and>
     ch_n_prepared ch + int (length calls) = int (length (ch_proxies ch)) \<and>
     (\<forall>k\<in>set (ch_proxies ch). (k, OnPrepare c) \<in> set calls \<or> list_ex (is_vote k) (attempt log)) \<and> tp_ok ch log \<and> undecided (attempt log)"

definition finish_inv :: "(nat set \<Rightarrow> 'a chopper_scheme \<Rightarrow> bool) \<Rightarrow> nat \<Rightarrow> 'a chopper_scheme \<Rightarrow> (uint32 \<times> co_cb) list \<Rightarrow> co_event list \<Rightarrow> bool" where
  "finish_inv J c ch calls log \<longleftrightarrow>
     running J ch [] \<and> sorted_wrt (<) (ch_proxies ch) \<and> reports log = 0 \<and> (\<forall>p\<in>set calls. snd p = OnFinish c) \<and>
     ch_n_finished ch + int (length calls) = int (length (ch_proxies ch)) \<and> ch_res ch = (if ch_commit ch then SUCCESS else REJECT) \<and>
     (\<forall>k\<in>set (ch_proxies ch). list_ex (if ch_commit ch then commit_to k else abort_to k) (attempt log) \<and>
        ((k, OnFinish c) \<in> set calls \<or> list_ex (is_ack k) (attempt log))) \<and> tp_ok ch log"

definition dep_finish_inv :: "nat \<Rightarrow> 'a chopper_scheme \<Rightarrow> (uint32 \<times> co_cb) list \<Rightarrow> co_event list \<Rightarrow> bool" where
  "dep_finish_inv c ch calls log \<longleftrightarrow>
     (\<forall>p\<in>set calls. snd p = OnRccFinish c) \<and> ch_n_finished ch + int (length calls) = int (length (ch_proxies ch)) \<and>
     reports log = (if ch_early_return ch then 1 else 0)"

definition null_inv :: "nat \<Rightarrow> (uint32 \<times> co_cb) list \<Rightarrow> co_event list \<Rightarrow> bool" where
  "null_inv c calls log \<longleftrightarrow> (\<forall>p\<in>set calls. snd p = OnNull c) \<and> length calls \<le> 1 \<and> reports log = 0"

definition co_txn_ok ::
    "(nat set \<Rightarrow> 'a chopper_scheme \<Rightarrow> bool) \<Rightarrow> int \<Rightarrow> nat \<Rightarrow> 'a chopper_scheme option \<Rightarrow> (uint32 \<times> co_cb) list \<Rightarrow> co_event list \<Rightarrow> bool" where
  "co_txn_ok J mode c t calls log \<longleftrightarrow>
     (case t of
        None \<Rightarrow> calls = [] \<and> reports log \<le> 1 \<and> (two_phase mode \<longrightarrow> history_ok log)
      | Some ch \<Rightarrow>
          start_inv J mode ch calls log \<or>
          (if two_phase mode then prepare_inv J c ch calls log \<or> finish_inv J c ch calls log
           else dep_finish_inv c ch calls log \<or> null_inv c calls log \<or> calls = [] \<and> reports log \<le> 1))"

abbreviation ok_view :: "(nat set \<Rightarrow> 'a chopper_scheme \<Rightarrow> bool) \<Rightarrow> int \<Rightarrow> nat \<Rightarrow> 'a chopper_scheme coo \<Rightarrow> bool" where
  "ok_view J mode c s \<equiv> co_txn_ok J mode c (txn_of c s) (calls_of c s) (events_of c s)"

definition keeps_others :: "nat \<Rightarrow> 'c coo \<Rightarrow> 'c coo \<Rightarrow> bool" where
  "keeps_others c s s' \<longleftrightarrow> (\<exists>t cs es. eff c t cs es s s')"

lemma keeps_others_trans: "keeps_others c s s1 \<Longrightarrow> keeps_others c s1 s2 \<Longrightarrow> keeps_others c s s2"
  unfolding keeps_others_def using eff_trans by blast

lemma eff_frame: "eff c t cs es s s' \<Longrightarrow> keeps_others c s s'"
  unfolding keeps_others_def by blast

lemma eff_view: "eff c t cs es s s' \<Longrightarrow> txn_of c s' = t \<and> calls_of c s' = calls_of c s @ cs \<and> events_of c s' = events_of c s @ es"
  by (simp add: eff_def)

end
