(* ===== verification/Coordinator_Inv.thy ===== *)
theory Coordinator_Inv
  imports Coordinator_Safety
begin

text \<open>
  Every step of the coordinator keeps the invariant of its transactions, for each class of transactions with
  the contract \<open>chopper_class\<close>.
\<close>

section \<open>Effects of prepare and finish\<close>

lemma map2_same_req: "list_all2 (\<lambda>k r. r = q) ks rs \<Longrightarrow> map2 (\<lambda>k r. Sent c k r) ks rs = map (\<lambda>k. Sent c k q) ks"
  by (induction rule: list_all2_induct) simp_all

lemma eff_broadcast:
  assumes "each (\<lambda>k s. rbind (call k cb req s) (\<lambda>s1. Inr (upd k s1))) ks s = Inr s'" "txn_of c s = t" "cb_txn cb = c"
    and upd: "\<And>k s. co_txns (upd k s) = co_txns s \<and> co_calls (upd k s) = co_calls s \<and> co_log (upd k s) = co_log s \<and>
        co_mode (upd k s) = co_mode s \<and> co_batch (upd k s) = co_batch s"
  shows "eff c t (map (\<lambda>k. (k, cb)) ks) (map (\<lambda>k. Sent c k req) ks) s s'"
proof -
  have st: "\<exists>r. r = req \<and> eff c t [(k, cb)] [Sent c k r] s s'"
    if "rbind (call k cb req s) (\<lambda>s1. Inr (upd k s1)) = Inr s'" "txn_of c s = t" for k s s'
  proof -
    from that(1) obtain s1 where s1: "call k cb req s = Inr s1" "s' = upd k s1" by auto
    from eff_cong [OF eff_call [OF s1(1) assms(3) that(2)], of s'] show ?thesis using s1(2) upd by simp
  qed
  from eff_each [of ks "\<lambda>k s. rbind (call k cb req s) (\<lambda>s1. Inr (upd k s1))" c t "\<lambda>k r. r = req" "\<lambda>k. k" "\<lambda>k. cb", OF st assms(1,2)]
  show ?thesis using map2_same_req by auto
qed

lemma eff_prepare:
  assumes "prepare c s = Inr s'" "txn_of c s = Some ch"
  shows "eff c (Some ch) (map (\<lambda>k. (k, OnPrepare c)) (ch_proxies ch)) (map (\<lambda>k. Sent c k (ReqPrepare (ch_txn_id ch) (ch_proxies ch))) (ch_proxies ch)) s s'"
  by (rule eff_broadcast [where upd = "\<lambda>rp s1. s1\<lparr>co_site_prepare := incr_at rp (co_site_prepare s1)\<rparr>"]) (use assms in \<open>auto simp: prepare_def\<close>)

lemma eff_finish:
  assumes "finish c s = Inr s'" "txn_of c s = Some ch"
  shows "eff c (Some (ch\<lparr>ch_res := if ch_commit ch then SUCCESS else REJECT\<rparr>)) (map (\<lambda>k. (k, OnFinish c)) (ch_proxies ch))
      (map (\<lambda>k. Sent c k (if ch_commit ch then ReqCommit (ch_txn_id ch) else ReqAbort (ch_txn_id ch))) (ch_proxies ch)) s s'"
proof -
  let ?ch = "ch\<lparr>ch_res := if ch_commit ch then SUCCESS else REJECT\<rparr>"
  have p: "eff c (Some ?ch) [] [] s (put_txn c ?ch s)" by (rule eff_put [OF assms(2)])
  have "eff c (Some ?ch) (map (\<lambda>k. (k, OnFinish c)) (ch_proxies ch))
      (map (\<lambda>k. Sent c k (if ch_commit ch then ReqCommit (ch_txn_id ch) else ReqAbort (ch_txn_id ch))) (ch_proxies ch)) (put_txn c ?ch s) s'"
    by (rule eff_broadcast [where upd = "\<lambda>rp s1. if ch_commit ch then s1\<lparr>co_site_commit := incr_at rp (co_site_commit s1)\<rparr>
          else s1\<lparr>co_site_abort := incr_at rp (co_site_abort s1)\<rparr>"])
      (use assms eff_txn [OF p] in \<open>auto simp: finish_def split: if_splits\<close>)
  with p show ?thesis using eff_trans by fastforce
qed

lemma two_phase_prepare: "prepare c s = Inr s' \<Longrightarrow> two_phase (co_mode s)"
  by (auto simp: prepare_def two_phase_def)

lemma two_phase_finish: "finish c s = Inr s' \<Longrightarrow> two_phase (co_mode s)"
  by (auto simp: finish_def two_phase_def)

section \<open>Histories\<close>

lemma start_events:
  assumes "\<forall>e\<in>set es. \<exists>k r. e = Sent c k r \<and> start_req r"
  shows "\<not> refused es" "undecided es" "reports es = 0" "\<forall>e\<in>set es. \<not> begins e"
proof -
  have "\<forall>e\<in>set es. \<not> refusal e \<and> \<not> sends_commit e \<and> \<not> sends_abort e \<and> \<not> is_report e \<and> \<not> begins e"
  proof
    fix e
    assume "e \<in> set es"
    then obtain k r where "e = Sent c k r" "start_req r" using assms by blast
    then show "\<not> refusal e \<and> \<not> sends_commit e \<and> \<not> sends_abort e \<and> \<not> is_report e \<and> \<not> begins e" by (cases r) simp_all
  qed
  then show "\<not> refused es" "undecided es" "reports es = 0" "\<forall>e\<in>set es. \<not> begins e"
    by (auto simp: refused_def undecided_def list_ex_iff reports_def filter_empty_conv)
qed

lemma undecided_append [simp]: "undecided (a @ b) \<longleftrightarrow> undecided a \<and> undecided b"
  by (auto simp: undecided_def)

lemma contacted_broadcast: "\<not> start_req r \<Longrightarrow> contacted (map (\<lambda>k. Sent c k r) ks) = []"
  by (induction ks) simp_all

text \<open>Sending pieces or prepare requests while nothing is decided.\<close>

lemma history_undecided:
  assumes h: "history_ok log" "reports log = 0" "undecided (attempt log)"
    and es: "\<forall>e\<in>set es. (\<exists>k r. e = Sent c k r) \<and> \<not> sends_commit e \<and> \<not> sends_abort e"
  shows "history_ok (log @ es)"
proof (rule history_ok_append [OF h(1)])
  fix es1 e es2
  assume e: "es = es1 @ e # es2"
  have "\<forall>e\<in>set es1. \<exists>k r. e = Sent c k r" "undecided es1" using es unfolding e by (auto simp: undecided_def list_ex_iff)
  then have 1: "\<forall>e\<in>set es1. \<not> begins e" "\<forall>e\<in>set es1. \<not> is_report e" "undecided es1" by fastforce+
  then have a: "attempt (log @ es1) = attempt log @ es1" "reports es1 = 0" by (simp_all add: attempt_append reports_def)
  obtain k r where "e = Sent c k r" "\<not> sends_commit e" "\<not> sends_abort e" using es unfolding e by auto
  then show "step_ok (log @ es1) e" unfolding step_ok_def using a h(2,3) 1(3) by (simp add: undecided_def)
qed

lemma history_got: "history_ok log \<Longrightarrow> reports log = 0 \<Longrightarrow> history_ok (log @ [Got c k ans])"
  by (simp add: history_ok_snoc step_ok_def)

lemma attempt_got: "attempt (log @ [Got c k ans]) = attempt log @ [Got c k ans]"
  by (simp add: attempt_snoc)

text \<open>Sending the decision.\<close>

lemma history_decided:
  assumes h: "history_ok log" "reports log = 0" "undecided (attempt log)" and ks: "set ks \<subseteq> set (contacted (attempt log))"
    and d: "if commit then \<not> refused (attempt log) \<and> (\<forall>k\<in>set (contacted (attempt log)). list_ex (is_yes k) (attempt log)) else refused (attempt log)"
  shows "history_ok (log @ map (\<lambda>k. Sent c k (if commit then ReqCommit t else ReqAbort t)) ks)"
proof (rule history_ok_append [OF h(1)])
  fix es1 e es2
  assume e: "map (\<lambda>k. Sent c k (if commit then ReqCommit t else ReqAbort t)) ks = es1 @ e # es2"
  then obtain ks1 k ks2 where k: "ks = ks1 @ k # ks2" "es1 = map (\<lambda>k. Sent c k (if commit then ReqCommit t else ReqAbort t)) ks1"
    "e = Sent c k (if commit then ReqCommit t else ReqAbort t)" by (auto simp: map_eq_append_conv map_eq_Cons_conv)
  have 1: "\<forall>e\<in>set es1. \<not> begins e" "reports es1 = 0" "contacted es1 = []" "\<not> refused es1"
    "list_ex sends_commit es1 \<longrightarrow> commit" "list_ex sends_abort es1 \<longrightarrow> \<not> commit"
    unfolding k(2) by (induction ks1) auto
  then have a: "attempt (log @ es1) = attempt log @ es1" by (simp add: attempt_append)
  show "step_ok (log @ es1) e"
    using k ks d h(2,3) 1 unfolding step_ok_def a by (cases commit) (auto simp: undecided_def list_all_iff)
qed

section \<open>Phases\<close>

context chopper_class
begin

text \<open>More pieces are started.\<close>

lemma begun_inv:
  assumes inv: "start_inv J mode ch calls log" and b: "begun plain c ch cs es ch'" and tp: "two_phase mode \<Longrightarrow> plain"
  shows "start_inv J mode ch' (calls @ cs) (log @ es)"
proof -
  from b obtain "is" ch1 where t: "take_pieces ch = Inr (is, ch1)"
    and ch': "ch' = (if plain then ch1\<lparr>ch_n_start_sent := ch_n_start_sent ch1 + int (length is)\<rparr> else ch1)"
    and m: "mset (pieces_of cs) = mset is" and cs: "\<forall>p\<in>set cs. cb_pieces (snd p) \<noteq> [] \<and> plain_cb (snd p) = plain"
    and co: "set (contacted es) = (\<lambda>i. ch_sharding ch1 ! i) ` set is" and es: "\<forall>e\<in>set es. \<exists>k r. e = Sent c k r \<and> start_req r"
    unfolding begun_def by blast
  have r: "running J ch (pieces_of calls)" "sorted_wrt (<) (ch_proxies ch)" using inv by (simp_all add: start_inv_def)
  note rt = running_take [OF t r]
  note ev = start_events [OF es]
  have a: "attempt (log @ es) = attempt log @ es" by (rule attempt_append [OF ev(4)])
  have "running J ch' (pieces_of calls @ is)" by (rule running_own [of ch1]) (use rt ch' in \<open>simp_all add: own_def\<close>)
  then have run: "running J ch' (pieces_of (calls @ cs))" using running_perm [of J ch' "pieces_of calls @ is"] m by simp
  have h: "history_ok (log @ es)" if "two_phase mode"
  proof (rule history_undecided)
    show "\<forall>e\<in>set es. (\<exists>k r. e = Sent c k r) \<and> \<not> sends_commit e \<and> \<not> sends_abort e" using es ev(2) by (auto simp: undecided_def list_ex_iff)
  qed (use inv that in \<open>simp_all add: start_inv_def tp_ok_def\<close>)
  have "length (pieces_of cs) = length is" by (rule mset_eq_length [OF m])
  then show ?thesis
    unfolding start_inv_def using run inv rt ev a cs co tp h ch' by (auto simp: start_inv_def tp_ok_def)
qed

text \<open>All pieces are answered: prepare.\<close>

lemma prepare_inv_prepare:
  assumes inv: "start_inv J mode ch [] (events_of c s)" and p: "prepare c s = Inr s'" and mode: "mode = co_mode s"
    and v: "txn_of c s = Some ch" "calls_of c s = []"
  shows "ok_view J mode c s' \<and> keeps_others c s s'"
proof -
  let ?ks = "ch_proxies ch" and ?es = "map (\<lambda>k. Sent c k (ReqPrepare (ch_txn_id ch) (ch_proxies ch))) (ch_proxies ch)" and ?log = "events_of c s"
  note ef = eff_prepare [OF p v(1)]
  have tp: "two_phase mode" using two_phase_prepare [OF p] mode by simp
  have 1: "\<not> refused ?es" "undecided ?es" "reports ?es = 0" "\<forall>e\<in>set ?es. \<not> begins e" "contacted ?es = []"
    by (auto simp: undecided_def list_ex_iff refused_def reports_def contacted_broadcast)
  have a: "attempt (?log @ ?es) = attempt ?log @ ?es" by (rule attempt_append [OF 1(4)])
  have h: "history_ok (?log @ ?es)" by (rule history_undecided [where c = c]) (use inv tp in \<open>auto simp: start_inv_def tp_ok_def\<close>)
  have "prepare_inv J c ch (map (\<lambda>k. (k, OnPrepare c)) ?ks) (?log @ ?es)"
    unfolding prepare_inv_def using inv tp h a 1 by (auto simp: start_inv_def tp_ok_def)
  then show ?thesis using eff_view [OF ef] eff_frame [OF ef] tp v by (simp add: co_txn_ok_def)
qed

text \<open>The decision is sent.\<close>

lemma vote_yes: "list_ex (is_vote k) a \<Longrightarrow> \<not> refused a \<Longrightarrow> list_ex (is_yes k) a"
  unfolding list_ex_iff refused_def
proof -
  assume "\<exists>e\<in>set a. is_vote k e" and nr: "\<not> (\<exists>e\<in>set a. refusal e)"
  then obtain e where e: "e \<in> set a" "is_vote k e" "\<not> refusal e" by blast
  then have "is_yes k e" by (cases "(k, e)" rule: is_vote.cases) (auto split: option.splits)
  then show "\<exists>e\<in>set a. is_yes k e" using e(1) by blast
qed

lemma finish_inv_finish:
  assumes r: "running J ch []" "sorted_wrt (<) (ch_proxies ch)" "ch_n_finished ch = 0" "reports (events_of c s) = 0"
    and tp: "tp_ok ch (events_of c s)" "undecided (attempt (events_of c s))"
    and yes: "ch_commit ch \<Longrightarrow> \<forall>k\<in>set (ch_proxies ch). list_ex (is_vote k) (attempt (events_of c s))"
    and f: "finish c s = Inr s'" and mode: "mode = co_mode s" and v: "txn_of c s = Some ch" "calls_of c s = []"
  shows "ok_view J mode c s' \<and> keeps_others c s s'"
proof -
  let ?ks = "ch_proxies ch" and ?log = "events_of c s"
  let ?r = "if ch_commit ch then ReqCommit (ch_txn_id ch) else ReqAbort (ch_txn_id ch)"
  let ?es = "map (\<lambda>k. Sent c k ?r) (ch_proxies ch)" and ?ch = "ch\<lparr>ch_res := if ch_commit ch then SUCCESS else REJECT\<rparr>"
  note ef = eff_finish [OF f v(1)]
  have 1: "\<not> refused ?es" "reports ?es = 0" "\<forall>e\<in>set ?es. \<not> begins e" "contacted ?es = []"
    by (auto simp: refused_def list_ex_iff reports_def contacted_broadcast)
  have a: "attempt (?log @ ?es) = attempt ?log @ ?es" by (rule attempt_append [OF 1(3)])
  have d: "if ch_commit ch then \<not> refused (attempt ?log) \<and> (\<forall>k\<in>set (contacted (attempt ?log)). list_ex (is_yes k) (attempt ?log)) else refused (attempt ?log)"
    using tp(1) yes vote_yes by (auto simp: tp_ok_def)
  have h: "history_ok (?log @ ?es)" by (rule history_decided [OF _ r(4) tp(2) _ d]) (use tp in \<open>simp_all add: tp_ok_def\<close>)
  have sent: "\<forall>k\<in>set ?ks. list_ex (if ch_commit ch then commit_to k else abort_to k) ?es" by (auto simp: list_ex_iff)
  have run: "running J ?ch []" by (rule running_own [OF r(1)]) (simp_all add: own_def)
  have "finish_inv J c ?ch (map (\<lambda>k. (k, OnFinish c)) ?ks) (?log @ ?es)"
    unfolding finish_inv_def using run r tp a 1 h sent by (auto simp: tp_ok_def)
  then show ?thesis using eff_view [OF ef] eff_frame [OF ef] v two_phase_finish [OF f] mode by (simp add: co_txn_ok_def)
qed

lemma start_inv_done:
  assumes "start_inv J mode ch calls log" "ch_n_started ch = ch_n_pieces ch"
  shows "calls = []"
proof (cases calls)
  case (Cons p ps)
  have "pieces_of calls = []" by (rule running_done [of J, OF _ assms(2)]) (use assms(1) in \<open>simp add: start_inv_def\<close>)
  then show ?thesis using assms(1) Cons by (simp add: start_inv_def)
qed

lemma co_txn_ok_start: "start_inv J mode ch calls log \<Longrightarrow> co_txn_ok J mode c (Some ch) calls log"
  by (simp add: co_txn_ok_def)

lemma all_started_ok:
  assumes inv: "start_inv J mode ch (calls_of c s) (events_of c s)" and f: "all_started c del s = Inr s'" and mode: "mode = co_mode s"
    and v: "txn_of c s = Some ch" and n: "ch_n_started ch = ch_n_pieces ch"
  shows "ok_view J mode c s' \<and> keeps_others c s s'"
proof -
  have c: "calls_of c s = []" by (rule start_inv_done [OF inv n])
  have r: "reports (events_of c s) = 0" using inv by (simp add: start_inv_def)
  show ?thesis
  proof (cases "two_phase mode")
    case True
    then have "prepare c s = Inr s'" using f mode by (auto simp: all_started_def two_phase_def)
    from prepare_inv_prepare [OF _ this mode v c] inv c show ?thesis by simp
  next
    case False
    show ?thesis
    proof (cases "mode = MODE_NONE")
      case True
      let ?ch = "ch\<lparr>ch_res := SUCCESS\<rparr>"
      have rp: "report c del (put_txn c ?ch s) = Inr s'" using f False True v mode by (auto simp: all_started_def two_phase_def)
      have p: "eff c (Some ?ch) [] [] s (put_txn c ?ch s)" by (rule eff_put [OF v])
      note ef = eff_trans [OF p eff_report [OF rp eff_txn [OF p]]]
      show ?thesis using eff_view [OF ef] eff_frame [OF ef] c r False by (simp add: co_txn_ok_def split: option.splits)
    next
      case no: False
      then have "s' = s" using f False mode by (auto simp: all_started_def two_phase_def)
      then show ?thesis using inv v eff_frame [OF eff_refl [OF v]] by (simp add: co_txn_ok_start)
    qed
  qed
qed

text \<open>The reply of a call that started pieces.\<close>

lemma reply_inv:
  assumes inv: "start_inv J mode ch (xs @ (k, cb) # ys) log" and run: "running J ch' (pieces_of (xs @ ys))"
    and c: "ch_proxies ch' = ch_proxies ch" "ch_n_prepared ch' = ch_n_prepared ch" "ch_n_finished ch' = ch_n_finished ch"
      "two_phase mode \<Longrightarrow> ch_n_start_sent ch' = ch_n_start_sent ch - int (length (cb_pieces cb)) \<and> ch_commit ch' = (ch_commit ch \<and> \<not> refuses ans)"
  shows "start_inv J mode ch' (xs @ ys) (log @ [Got c k ans])"
  using assms unfolding start_inv_def tp_ok_def by (auto simp: attempt_got history_got undecided_def)

lemma start_more:
  assumes inv: "start_inv J mode ch (calls_of c s) (events_of c s)"
    and b: "\<exists>cs es ch'. eff c (Some ch') cs es s s' \<and> begun plain c ch cs es ch'" and tp: "two_phase mode \<Longrightarrow> plain"
  shows "ok_view J mode c s' \<and> keeps_others c s s'"
proof -
  from b obtain cs es ch' where ef: "eff c (Some ch') cs es s s'" and bg: "begun plain c ch cs es ch'" by blast
  show ?thesis using begun_inv [OF inv bg tp] eff_view [OF ef] eff_frame [OF ef] by (simp add: co_txn_ok_start)
qed

lemma abort_ok:
  assumes inv: "start_inv J mode ch (calls_of c s) (events_of c s)" and "\<not> ch_commit ch" "ch_n_start_sent ch = 0"
    and f: "finish c s = Inr s'" and mode: "mode = co_mode s" and v: "txn_of c s = Some ch"
  shows "ok_view J mode c s' \<and> keeps_others c s s'"
proof -
  have tp: "two_phase mode" using two_phase_finish [OF f] mode by simp
  have p: "pieces_of (calls_of c s) = []" using inv tp assms(3) by (simp add: start_inv_def)
  have "calls_of c s = []"
  proof (cases "calls_of c s")
    case (Cons q qs)
    then show ?thesis using p inv by (simp add: start_inv_def)
  qed
  then show ?thesis
    by (intro finish_inv_finish [OF _ _ _ _ _ _ _ f mode v]) (use inv tp assms(2) p in \<open>simp_all add: start_inv_def\<close>)
qed

lemma put_view:
  assumes "txn_of c s = Some ch"
  shows "txn_of c (put_txn c ch' s) = Some ch'" "calls_of c (put_txn c ch' s) = calls_of c s" "events_of c (put_txn c ch' s) = events_of c s"
    "co_mode (put_txn c ch' s) = co_mode s" "keeps_others c s (put_txn c ch' s)"
  using eff_view [OF eff_put [OF assms, of ch']] eff_mode [OF eff_put [OF assms, of ch']] eff_frame [OF eff_put [OF assms, of ch']] by simp_all

text \<open>What follows the callbacks of a reply.\<close>

lemma on_start_ok:
  assumes inv: "start_inv J mode ch (xs @ (k, OnStart c pi) # ys) log" and f: "on_start vt c pi res output s = Inr s'"
    and mode: "mode = co_mode s" and v: "txn_of c s = Some ch" "calls_of c s = xs @ ys" "events_of c s = log @ [Got c k (AStart res output)]"
  shows "ok_view J mode c s' \<and> keeps_others c s s'"
proof -
  let ?log = "log @ [Got c k (AStart res output)]"
  from f v(1) obtain ch1 where cr: "count_reply (co_mode s) res ch = Inr ch1" by (auto simp: on_start_def)
  then have ch1: "ch1 = ch\<lparr>ch_n_started := ch_n_started ch + 1, ch_n_start_sent := ch_n_start_sent ch - 1, ch_commit := ch_commit ch \<and> res \<noteq> REJECT\<rparr>"
    by (auto simp: count_reply_def Let_def split: if_splits)
  have o: "own ch1 = own ch" "ch_n_started ch1 = ch_n_started ch + 1" by (simp_all add: ch1 own_def)
  have "running J ch (pieces_of (xs @ (k, OnStart c pi) # ys))" using inv by (simp add: start_inv_def)
  then have r: "running J ch (pi # pieces_of (xs @ ys))" by (rule running_perm) simp
  show ?thesis
  proof (cases "ch_commit ch1")
    case False
    note pv = put_view [OF v(1), of ch1]
    have i1: "start_inv J mode ch1 (xs @ ys) ?log"
      by (rule reply_inv [OF inv running_skip [OF r o]]) (simp_all add: ch1)
    have i1': "start_inv J mode ch1 (calls_of c (put_txn c ch1 s)) (events_of c (put_txn c ch1 s))" using i1 pv(2,3) v(2,3) by simp
    show ?thesis
    proof (cases "ch_n_start_sent ch1 = 0")
      case True
      then have "finish c (put_txn c ch1 s) = Inr s'" using f v(1) cr False by (simp add: on_start_def)
      from abort_ok [OF i1' False True this _ pv(1)] show ?thesis using pv(4) mode keeps_others_trans [OF pv(5)] by simp
    next
      case no: False
      then have "s' = put_txn c ch1 s" using f v(1) cr False by (simp add: on_start_def)
      then show ?thesis using co_txn_ok_start [OF i1'] pv(1,5) by simp
    qed
  next
    case True
    then obtain b ch2 where cb: "vt_start_callback vt pi res output ch1 = Inr (b, ch2)"
      and rest: "(if b then start c (put_txn c ch2 s) else if ch_n_started ch2 = ch_n_pieces ch2 then all_started c True (put_txn c ch2 s) else Inr (put_txn c ch2 s)) = Inr s'"
      using f v(1) cr by (auto simp: on_start_def Let_def split: if_splits)
    note pv = put_view [OF v(1), of ch2]
    note rc = running_callback [OF r o cb]
    have i2: "start_inv J mode ch2 (xs @ ys) ?log"
      by (rule reply_inv [OF inv rc(1)]) (use rc(2) in \<open>simp_all add: counters_def ch1\<close>)
    have i2': "start_inv J mode ch2 (calls_of c (put_txn c ch2 s)) (events_of c (put_txn c ch2 s))" using i2 pv(2,3) v(2,3) by simp
    consider "b" "start c (put_txn c ch2 s) = Inr s'" | "ch_n_started ch2 = ch_n_pieces ch2" "all_started c True (put_txn c ch2 s) = Inr s'"
      | "s' = put_txn c ch2 s" using rest by (auto split: if_splits)
    then show ?thesis
    proof cases
      case 1
      from start_more [OF i2' begun_start [OF 1(2) pv(1)]] show ?thesis using keeps_others_trans [OF pv(5)] by blast
    next
      case 2
      from all_started_ok [OF i2' 2(2) _ pv(1) 2(1)] show ?thesis using pv(4) mode keeps_others_trans [OF pv(5)] by metis
    next
      case 3
      then show ?thesis using co_txn_ok_start [OF i2'] pv(1,5) by simp
    qed
  qed
qed

lemma batch_replies_run:
  assumes "batch_replies vt mode pis rs os ag fin ch = Inr (ag', fin', ch')" "length pis = length rs" "running J ch (pis @ ps)"
  shows "running J ch' ps \<and> ch_proxies ch' = ch_proxies ch \<and> ch_n_prepared ch' = ch_n_prepared ch \<and> ch_n_finished ch' = ch_n_finished ch \<and>
    ch_n_start_sent ch' = ch_n_start_sent ch - int (length pis) \<and> ch_commit ch' = (ch_commit ch \<and> REJECT \<notin> set rs) \<and>
    (int (length pis) \<le> ch_n_start_sent ch \<longrightarrow> fin' \<longrightarrow> fin \<or> \<not> ch_commit ch' \<and> ch_n_start_sent ch' = 0)"
  using assms
proof (induction pis arbitrary: rs os ag fin ch)
  case Nil
  then show ?case by simp
next
  case (Cons pi pis)
  from Cons.prems(2) obtain res rs' where rs: "rs = res # rs'" by (cases rs) auto
  from Cons.prems(1) obtain out os' where os: "os = out # os'" by (cases os) (auto simp: rs)
  from Cons.prems(1) obtain ch1 where cr: "count_reply mode res ch = Inr ch1" by (auto simp: rs os)
  then have ch1: "ch1 = ch\<lparr>ch_n_started := ch_n_started ch + 1, ch_n_start_sent := ch_n_start_sent ch - 1, ch_commit := ch_commit ch \<and> res \<noteq> REJECT\<rparr>"
    by (auto simp: count_reply_def Let_def split: if_splits)
  have o: "own ch1 = own ch" "ch_n_started ch1 = ch_n_started ch + 1" by (simp_all add: ch1 own_def)
  have r: "running J ch (pi # (pis @ ps))" using Cons.prems(3) by simp
  have len: "length pis = length rs'" using Cons.prems(2) rs by simp
  show ?case
  proof (cases "ch_commit ch1")
    case False
    then have "batch_replies vt mode pis rs' os' ag (fin \<or> ch_n_start_sent ch1 = 0) ch1 = Inr (ag', fin', ch')"
      using Cons.prems(1) cr by (simp add: rs os)
    note ih = Cons.IH [OF this len running_skip [OF r o]]
    have "ch_n_start_sent ch1 = 0 \<Longrightarrow> int (length pis) \<le> ch_n_start_sent ch1 \<Longrightarrow> pis = []" by simp
    then show ?thesis using ih False rs by (auto simp: ch1)
  next
    case True
    then obtain m ch2 where cb: "vt_start_callback vt pi res out ch1 = Inr (m, ch2)"
      and b: "batch_replies vt mode pis rs' os' (ag \<or> m) fin ch2 = Inr (ag', fin', ch')" using Cons.prems(1) cr by (auto simp: rs os)
    note rc = running_callback [OF r o cb]
    from Cons.IH [OF b len rc(1)] show ?thesis using rc(2) True rs by (auto simp: counters_def ch1)
  qed
qed

lemma on_batch_ok:
  assumes va: "visits_all ord" and inv: "start_inv J mode ch (xs @ (k, OnBatch c pis) # ys) log" and f: "on_batch ord vt c pis rs os s = Inr s'"
    and mode: "mode = co_mode s" and v: "txn_of c s = Some ch" "calls_of c s = xs @ ys" "events_of c s = log @ [Got c k (ABatch rs os)]"
  shows "ok_view J mode c s' \<and> keeps_others c s s'"
proof -
  let ?log = "log @ [Got c k (ABatch rs os)]"
  have "length pis = length rs \<and> (\<exists>x. batch_replies vt (co_mode s) pis rs os False False ch = Inr x)"
    using f v(1) unfolding on_batch_def by (simp only: rbind_eq_Inr txn_at_Inr verify_eq_Inr) blast
  then obtain ag fin ch1 where len: "length pis = length rs"
    and b: "batch_replies vt (co_mode s) pis rs os False False ch = Inr (ag, fin, ch1)" by fast
  note pv = put_view [OF v(1), of ch1]
  have rest: "(if fin then finish c (put_txn c ch1 s) else if ag then naive_batch_start ord c (put_txn c ch1 s)
      else if ch_n_started ch1 = ch_n_pieces ch1 then all_started c False (put_txn c ch1 s) else Inr (put_txn c ch1 s)) = Inr s'"
    using f v(1) len b by (simp add: on_batch_def Let_def)
  have "running J ch (pieces_of (xs @ (k, OnBatch c pis) # ys))" using inv by (simp add: start_inv_def)
  then have r: "running J ch (pis @ pieces_of (xs @ ys))" by (rule running_perm) simp
  note br = batch_replies_run [OF b len r]
  have i1: "start_inv J mode ch1 (xs @ ys) ?log" by (rule reply_inv [OF inv]) (use br in simp_all)
  have i1': "start_inv J mode ch1 (calls_of c (put_txn c ch1 s)) (events_of c (put_txn c ch1 s))" using i1 pv(2,3) v(2,3) by simp
  consider "fin" "finish c (put_txn c ch1 s) = Inr s'" | "naive_batch_start ord c (put_txn c ch1 s) = Inr s'"
    | "ch_n_started ch1 = ch_n_pieces ch1" "all_started c False (put_txn c ch1 s) = Inr s'" | "s' = put_txn c ch1 s"
    using rest by (cases fin; cases ag; cases "ch_n_started ch1 = ch_n_pieces ch1") (simp_all del: not_None_eq)
  then show ?thesis
  proof cases
    case 1
    have "two_phase mode" using two_phase_finish [OF 1(2)] pv(4) mode by simp
    then have "int (length pis) \<le> ch_n_start_sent ch" using inv by (simp add: start_inv_def)
    then have "\<not> ch_commit ch1" "ch_n_start_sent ch1 = 0" using br 1(1) by auto
    from abort_ok [OF i1' this 1(2) _ pv(1)] show ?thesis using pv(4) mode keeps_others_trans [OF pv(5)] by simp
  next
    case 2
    from start_more [OF i1' begun_naive_batch [OF va 2 pv(1)]] show ?thesis using keeps_others_trans [OF pv(5)] by blast
  next
    case 3
    from all_started_ok [OF i1' 3(2) _ pv(1) 3(1)] show ?thesis using pv(4) mode keeps_others_trans [OF pv(5)] by simp
  next
    case 4
    then show ?thesis using co_txn_ok_start [OF i1'] pv(1,5) by simp
  qed
qed

text \<open>The votes.\<close>

lemma on_prepare_ok:
  assumes inv: "prepare_inv J c ch (xs @ (k, OnPrepare c) # ys) log" and tp: "two_phase mode" and f: "on_prepare c vote s = Inr s'"
    and mode: "mode = co_mode s" and v: "txn_of c s = Some ch" "calls_of c s = xs @ ys" "events_of c s = log @ [Got c k (APrepare vote)]"
  shows "ok_view J mode c s' \<and> keeps_others c s s'"
proof -
  let ?log = "log @ [Got c k (APrepare vote)]"
  define ch1 where "ch1 = ch\<lparr>ch_n_prepared := ch_n_prepared ch + 1, ch_commit := ch_commit ch \<and> vote \<noteq> None \<and> vote \<noteq> Some REJECT\<rparr>"
  have g: "txn_at c s = Inr ch" using v(1) by simp
  have op: "on_prepare c vote s = (if ch_n_prepared ch1 = int (length (ch_proxies ch1)) then finish c (put_txn c ch1 s) else Inr (put_txn c ch1 s))"
    by (simp only: on_prepare_def g rbind_simps Let_def ch1_def)
  note pv = put_view [OF v(1), of ch1]
  have run: "running J ch1 []" by (rule running_own [of ch]) (use inv in \<open>simp_all add: own_def prepare_inv_def ch1_def\<close>)
  have i: "prepare_inv J c ch1 (xs @ ys) ?log"
    using inv run unfolding prepare_inv_def tp_ok_def by (auto simp: attempt_got history_got undecided_def ch1_def)
  show ?thesis
  proof (cases "ch_n_prepared ch1 = int (length (ch_proxies ch1))")
    case True
    then have fin: "finish c (put_txn c ch1 s) = Inr s'" using f op by simp
    have "int (length (xs @ ys)) = 0" using i True by (simp add: prepare_inv_def)
    then have e: "xs @ ys = []" by (simp only: of_nat_eq_0_iff length_0_conv)
    have "ok_view J mode c s' \<and> keeps_others c (put_txn c ch1 s) s'"
      by (rule finish_inv_finish [OF run _ _ _ _ _ _ fin _ pv(1)]) (use i e pv v mode in \<open>simp_all add: prepare_inv_def\<close>)
    then show ?thesis using keeps_others_trans [OF pv(5)] by blast
  next
    case False
    then have "s' = put_txn c ch1 s" using f op by simp
    then show ?thesis using i pv v(2,3) tp by (simp add: co_txn_ok_def)
  qed
qed

text \<open>The decision is acknowledged everywhere: a retry or the report.\<close>

lemma restart_ok:
  assumes va: "visits_all ord" and f: "restart ord vt c s = Inr s'" and mode: "mode = co_mode s" and tp: "two_phase mode"
    and v: "txn_of c s = Some ch" "calls_of c s = []" and r: "running J ch []" "reports (events_of c s) = 0"
    and h: "history_ok (events_of c s @ [Restarted c])"
  shows "ok_view J mode c s' \<and> keeps_others c s s'"
proof -
  from f v(1) obtain ch1 where rt: "vt_retry vt (ch\<lparr>ch_n_start_sent := 0\<rparr>) = Inr ch1"
    and st: "start_txn ord c (log_event (Restarted c) (put_txn c ch1 s)) = Inr s'" by (auto simp: restart_def)
  let ?s = "log_event (Restarted c) (put_txn c ch1 s)"
  have p: "eff c (Some ch1) [] [] s (put_txn c ch1 s)" by (rule eff_put [OF v(1)])
  have "eff c (Some ch1) [] [Restarted c] (put_txn c ch1 s) ?s" by (rule eff_log) (simp_all add: eff_txn [OF p])
  from eff_trans [OF p this] have ef: "eff c (Some ch1) [] [Restarted c] s ?s" by simp
  note q = running_retry [OF r(1) _ rt]
  have "start_inv J mode ch1 [] (events_of c s @ [Restarted c])"
    unfolding start_inv_def tp_ok_def using q r h by (simp add: own_def pristine_def attempt_snoc undecided_def)
  then have "start_inv J mode ch1 (calls_of c ?s) (events_of c ?s)" using eff_view [OF ef] v(2) by simp
  from start_more [OF this begun_start_txn [OF va st eff_txn [OF ef]]] show ?thesis using keeps_others_trans [OF eff_frame [OF ef]] by blast
qed

lemma on_finish_ok:
  assumes va: "visits_all ord" and inv: "finish_inv J c ch (xs @ (k, OnFinish c) # ys) log" and tp: "two_phase mode" and f: "on_finish ord vt c s = Inr s'"
    and mode: "mode = co_mode s" and v: "txn_of c s = Some ch" "calls_of c s = xs @ ys" "events_of c s = log @ [Got c k ADone]"
  shows "ok_view J mode c s' \<and> keeps_others c s s'"
proof -
  let ?log = "log @ [Got c k ADone]" and ?ch = "ch\<lparr>ch_n_finished := ch_n_finished ch + 1\<rparr>"
  note pv = put_view [OF v(1), of ?ch]
  have run: "running J ?ch []" by (rule running_own [of ch]) (use inv in \<open>simp_all add: own_def finish_inv_def\<close>)
  have i: "finish_inv J c ?ch (xs @ ys) ?log"
    using inv run unfolding finish_inv_def tp_ok_def by (auto simp: attempt_got history_got)
  show ?thesis
  proof (cases "ch_n_finished ?ch = int (length (ch_proxies ?ch))")
    case False
    then have "s' = put_txn c ?ch s" using f v(1) by (simp add: on_finish_def Let_def)
    then show ?thesis using i pv v(2,3) tp by (simp add: co_txn_ok_def)
  next
    case True
    then have "int (length (xs @ ys)) = 0" using i by (simp add: finish_inv_def)
    then have e: "xs @ ys = []" by (simp only: of_nat_eq_0_iff length_0_conv)
    have all: "list_all (\<lambda>j. list_ex (if ch_commit ch then commit_to j else abort_to j) (attempt ?log) \<and> list_ex (is_ack j) (attempt ?log)) (contacted (attempt ?log))"
      using i e by (auto simp: finish_inv_def tp_ok_def list_all_iff)
    have t: "history_ok ?log" "reports ?log = 0" "ch_commit ch = (\<not> refused (attempt ?log))" "ch_res ch = (if ch_commit ch then SUCCESS else REJECT)"
      using i by (simp_all add: finish_inv_def tp_ok_def)
    show ?thesis
    proof (cases "ch_res ?ch = REJECT \<and> can_retry ?ch")
      case rt: True
      then have st: "restart ord vt c (put_txn c ?ch s) = Inr s'" using f v(1) True by (simp add: on_finish_def Let_def)
      have nc: "\<not> ch_commit ch" using rt t(4) by (auto simp: SUCCESS_def REJECT_def)
      have "step_ok ?log (Restarted c)" using all t nc by (simp add: step_ok_def)
      then have h: "history_ok (?log @ [Restarted c])" using t(1) by (simp only: history_ok_snoc)
      have "ok_view J mode c s' \<and> keeps_others c (put_txn c ?ch s) s'"
        by (rule restart_ok [OF va st _ tp pv(1)]) (use mode pv v e run t h in simp_all)
      then show ?thesis using keeps_others_trans [OF pv(5)] by blast
    next
      case rt: False
      then have "report c True (put_txn c ?ch s) = Inr s'" using f v(1) True by (auto simp: on_finish_def Let_def)
      from eff_report [OF this pv(1)] have ef: "eff c None [] [Reported c (ch_res ch)] (put_txn c ?ch s) s'" by simp
      have "step_ok ?log (Reported c (ch_res ch))" using all t by (auto simp: step_ok_def SUCCESS_def REJECT_def)
      then have h: "history_ok (?log @ [Reported c (ch_res ch)])" using t(1) by (simp only: history_ok_snoc)
      show ?thesis using eff_view [OF ef] keeps_others_trans [OF pv(5) eff_frame [OF ef]] pv v e t(2) h by (simp add: co_txn_ok_def)
    qed
  qed
qed

end

end
