(* ===== verification/Coordinator_Dep.thy ===== *)
theory Coordinator_Dep
  imports Coordinator_Inv
begin

text \<open>
  The callbacks of the dependency mode and of read-only transactions keep the invariant of the coordinator,
  and with them every step does.
\<close>

section \<open>Effects\<close>

lemma rbind_Inr_id [simp]: "rbind m Inr = m"
  by (cases m) simp_all

lemma eff_deptran_finish:
  assumes "deptran_finish c s = Inr s'" "txn_of c s = Some ch"
  shows "eff c (Some ch) (map (\<lambda>k. (k, OnRccFinish c)) (ch_proxies ch))
      (map (\<lambda>k. Sent c k (ReqRccFinish (ch_txn_id ch) (ch_heap ch) (ch_gra ch))) (ch_proxies ch)) s s'"
  by (rule eff_broadcast [where upd = "\<lambda>k s. s"]) (use assms in \<open>auto simp: deptran_finish_def split: option.splits\<close>)

lemma merge_reply_own:
  assumes "merge_reply cells gra ch = Inr ch1"
  shows "own ch1 = own ch \<and> counters ch1 = counters ch \<and> ch_n_started ch1 = ch_n_started ch"
  using assms by (auto simp: merge_reply_def own_def counters_def Let_def split: if_splits)

lemma ro_check_own:
  assumes "ro_check pi outp ch = Inr (res, ch1)"
  shows "own ch1 = own ch \<and> counters ch1 = counters ch \<and> ch_n_started ch1 = ch_n_started ch"
  using assms by (auto simp: ro_check_def own_def counters_def Let_def split: if_splits)

lemma store_output_own:
  assumes "store_output pi outp ch = Inr ch1"
  shows "own ch1 = own ch \<and> counters ch1 = counters ch \<and> ch_n_started ch1 = ch_n_started ch"
  using assms by (auto simp: store_output_def own_def counters_def split: if_splits)

context chopper_class
begin

section \<open>The dependency mode\<close>

lemma dep_callback_run:
  assumes r: "running J ch (pi # ps)" and o: "own ch1 = own ch" "ch_n_started ch1 = ch_n_started ch + 1"
    and cb: "dep_start_callback vt pi outp d ch1 = Inr (b, ch')"
  shows "running J ch' ps \<and> counters ch' = counters ch1"
proof (cases d)
  case True
  then have "own ch' = own ch1 \<and> counters ch' = counters ch1 \<and> ch_n_started ch' = ch_n_started ch1"
    using cb by (auto simp: dep_start_callback_def own_def counters_def split: if_splits)
  then show ?thesis using running_skip [OF r] o by simp
next
  case False
  then have "vt_start_callback vt pi SUCCESS outp ch1 = Inr (b, ch')" using cb by (simp add: dep_start_callback_def)
  then show ?thesis using running_callback [OF r o] by blast
qed

lemma rcc_batch_replies_run:
  assumes "rcc_batch_replies vt pis ds os ag ch = Inr (ag', ch')" "running J ch (pis @ ps)"
  shows "running J ch' ps \<and> counters ch' = counters ch"
  using assms
proof (induction pis arbitrary: ds os ag ch)
  case Nil
  then show ?case by (cases ds) auto
next
  case (Cons pi pis)
  let ?ch = "ch\<lparr>ch_n_started := ch_n_started ch + 1\<rparr>"
  from Cons.prems(1) obtain d ds' outp os' where do: "ds = d # ds'" "os = outp # os'" by (cases ds; cases os) auto
  from Cons.prems(1) obtain m ch1 where cb: "dep_start_callback vt pi outp d ?ch = Inr (m, ch1)"
    and b: "rcc_batch_replies vt pis ds' os' (ag \<or> m) ch1 = Inr (ag', ch')" by (auto simp: do)
  have "running J ch1 (pis @ ps) \<and> counters ch1 = counters ?ch"
    by (rule dep_callback_run [OF _ _ _ cb, of ch]) (use Cons.prems(2) in \<open>simp_all add: own_def\<close>)
  then show ?case using Cons.IH [OF b] by (simp add: counters_def)
qed

lemma rcc_reply_inv:
  assumes inv: "start_inv J mode ch (xs @ (k, cb) # ys) log" and run: "running J ch' (pieces_of (xs @ ys))" and c: "counters ch' = counters ch"
    and np: "\<not> plain_cb cb"
  shows "start_inv J mode ch' (xs @ ys) (log @ [Got c k ans])" "\<not> two_phase mode"
proof -
  show "\<not> two_phase mode" using inv np by (auto simp: start_inv_def)
  then show "start_inv J mode ch' (xs @ ys) (log @ [Got c k ans])" by (intro reply_inv [OF inv run]) (use c in \<open>simp_all add: counters_def\<close>)
qed

lemma finish_or_wait_ok:
  assumes inv: "start_inv J mode ch (calls_of c s) (events_of c s)" and np: "\<not> two_phase mode" and f: "finish_or_wait c s = Inr s'"
    and v: "txn_of c s = Some ch"
  shows "ok_view J mode c s' \<and> keeps_others c s s'"
proof (cases "ch_n_started ch = ch_n_pieces ch")
  case False
  then have "s' = s" using f v by (auto simp: finish_or_wait_def)
  then show ?thesis using inv v eff_frame [OF eff_refl [OF v]] by (simp add: co_txn_ok_start)
next
  case True
  have c: "calls_of c s = []" by (rule start_inv_done [OF inv True])
  have n: "reports (events_of c s) = 0" "ch_n_finished ch = 0" using inv by (simp_all add: start_inv_def)
  let ?es = "map (\<lambda>k. Sent c k (ReqRccFinish (ch_txn_id ch) (ch_heap ch) (ch_gra ch))) (ch_proxies ch)"
  let ?ch = "ch\<lparr>ch_res := SUCCESS\<rparr>"
  from f v True obtain s1 where s1: "deptran_finish c s = Inr s1"
    and rest: "(if ch_early_return ch then report c False (put_txn c ?ch s1) else Inr s1) = Inr s'" by (auto simp: finish_or_wait_def)
  note ef = eff_deptran_finish [OF s1 v]
  have rp: "reports ?es = 0" by (auto simp: reports_def)
  show ?thesis
  proof (cases "ch_early_return ch")
    case False
    then show ?thesis using rest eff_view [OF ef] eff_frame [OF ef] c n rp np by (simp add: co_txn_ok_def dep_finish_inv_def)
  next
    case True
    note pv = put_view [OF eff_txn [OF ef], of ?ch]
    have "report c False (put_txn c ?ch s1) = Inr s'" using rest True by simp
    from eff_report [OF this pv(1)] have er: "eff c (Some ?ch) [] [Reported c SUCCESS] (put_txn c ?ch s1) s'" by simp
    have "dep_finish_inv c ?ch (calls_of c s') (events_of c s')"
      using eff_view [OF ef] eff_view [OF er] pv c n rp True by (simp add: dep_finish_inv_def)
    then show ?thesis using eff_txn [OF er] np keeps_others_trans [OF eff_frame [OF ef] keeps_others_trans [OF pv(5) eff_frame [OF er]]] by (simp add: co_txn_ok_def)
  qed
qed

lemma on_rcc_start_ok:
  assumes inv: "start_inv J mode ch (xs @ (k, OnRccStart c pi) # ys) log" and f: "on_rcc_start vt c pi d outp cells gra s = Inr s'"
    and v: "txn_of c s = Some ch" "calls_of c s = xs @ ys" "events_of c s = log @ [Got c k ans]"
  shows "ok_view J mode c s' \<and> keeps_others c s s'"
proof -
  from f v(1) obtain ch1 b ch2 where m: "merge_reply cells gra ch = Inr ch1"
    and cb: "dep_start_callback vt pi outp d (ch1\<lparr>ch_n_started := ch_n_started ch1 + 1\<rparr>) = Inr (b, ch2)"
    and rest: "(if b then deptran_start c (put_txn c ch2 s) else finish_or_wait c (put_txn c ch2 s)) = Inr s'"
    by (auto simp: on_rcc_start_def Let_def)
  have o: "own ch1 = own ch \<and> counters ch1 = counters ch \<and> ch_n_started ch1 = ch_n_started ch" by (rule merge_reply_own [OF m])
  have "running J ch (pieces_of (xs @ (k, OnRccStart c pi) # ys))" using inv by (simp add: start_inv_def)
  then have r: "running J ch (pi # pieces_of (xs @ ys))" by (rule running_perm) simp
  have c: "running J ch2 (pieces_of (xs @ ys)) \<and> counters ch2 = counters (ch1\<lparr>ch_n_started := ch_n_started ch1 + 1\<rparr>)"
    by (rule dep_callback_run [OF r _ _ cb]) (use o in \<open>simp_all add: own_def\<close>)
  then have ct: "counters ch2 = counters ch" using o by (simp add: counters_def)
  note pv = put_view [OF v(1), of ch2]
  have ri: "start_inv J mode ch2 (xs @ ys) (log @ [Got c k ans])" "\<not> two_phase mode" using rcc_reply_inv [OF inv c [THEN conjunct1] ct] by simp_all
  have i2: "start_inv J mode ch2 (calls_of c (put_txn c ch2 s)) (events_of c (put_txn c ch2 s))" using ri(1) pv(2,3) v(2,3) by simp
  show ?thesis
  proof (cases b)
    case True
    then have "deptran_start c (put_txn c ch2 s) = Inr s'" using rest by simp
    from start_more [OF i2 begun_deptran [OF this pv(1)]] show ?thesis using ri(2) keeps_others_trans [OF pv(5)] by blast
  next
    case False
    then have "finish_or_wait c (put_txn c ch2 s) = Inr s'" using rest by simp
    from finish_or_wait_ok [OF i2 ri(2) this pv(1)] show ?thesis using keeps_others_trans [OF pv(5)] by blast
  qed
qed

lemma on_rcc_batch_ok:
  assumes va: "visits_all ord" and inv: "start_inv J mode ch (xs @ (k, OnRccBatch c pis) # ys) log"
    and f: "on_rcc_batch ord vt c pis ds os cells gra s = Inr s'"
    and v: "txn_of c s = Some ch" "calls_of c s = xs @ ys" "events_of c s = log @ [Got c k ans]"
  shows "ok_view J mode c s' \<and> keeps_others c s s'"
proof -
  from f v(1) obtain ch1 b ch2 where m: "merge_reply cells gra ch = Inr ch1" and cb: "rcc_batch_replies vt pis ds os False ch1 = Inr (b, ch2)"
    and rest: "(if b then deptran_batch_start ord c (put_txn c ch2 s) else finish_or_wait c (put_txn c ch2 s)) = Inr s'"
    by (auto simp: on_rcc_batch_def Let_def)
  have o: "own ch1 = own ch \<and> counters ch1 = counters ch \<and> ch_n_started ch1 = ch_n_started ch" by (rule merge_reply_own [OF m])
  have "running J ch (pieces_of (xs @ (k, OnRccBatch c pis) # ys))" using inv by (simp add: start_inv_def)
  then have "running J ch (pis @ pieces_of (xs @ ys))" by (rule running_perm) simp
  then have "running J ch1 (pis @ pieces_of (xs @ ys))" by (rule running_own) (use o in simp_all)
  note c = rcc_batch_replies_run [OF cb this]
  then have ct: "counters ch2 = counters ch" using o by simp
  note pv = put_view [OF v(1), of ch2]
  have ri: "start_inv J mode ch2 (xs @ ys) (log @ [Got c k ans])" "\<not> two_phase mode" using rcc_reply_inv [OF inv c [THEN conjunct1] ct] by simp_all
  have i2: "start_inv J mode ch2 (calls_of c (put_txn c ch2 s)) (events_of c (put_txn c ch2 s))" using ri(1) pv(2,3) v(2,3) by simp
  show ?thesis
  proof (cases b)
    case True
    then have "deptran_batch_start ord c (put_txn c ch2 s) = Inr s'" using rest by simp
    from start_more [OF i2 begun_deptran_batch [OF va this pv(1)]] show ?thesis using ri(2) keeps_others_trans [OF pv(5)] by blast
  next
    case False
    then have "finish_or_wait c (put_txn c ch2 s) = Inr s'" using rest by simp
    from finish_or_wait_ok [OF i2 ri(2) this pv(1)] show ?thesis using keeps_others_trans [OF pv(5)] by blast
  qed
qed

lemma on_rcc_finish_ok:
  assumes inv: "dep_finish_inv c ch (xs @ (k, OnRccFinish c) # ys) log" and np: "\<not> two_phase mode" and f: "on_rcc_finish c s = Inr s'"
    and v: "txn_of c s = Some ch" "calls_of c s = xs @ ys" "events_of c s = log @ [Got c k ans]"
  shows "ok_view J mode c s' \<and> keeps_others c s s'"
proof -
  let ?ch = "ch\<lparr>ch_n_finished := ch_n_finished ch + 1\<rparr>" and ?ch2 = "ch\<lparr>ch_n_finished := ch_n_finished ch + 1, ch_res := SUCCESS\<rparr>"
  have i: "dep_finish_inv c ?ch (xs @ ys) (log @ [Got c k ans])" using inv by (auto simp: dep_finish_inv_def)
  consider "ch_n_finished ?ch = int (length (ch_proxies ?ch))" "ch_early_return ch" "s' = s\<lparr>co_txns := (co_txns s)[c := None]\<rparr>"
    | "ch_n_finished ?ch = int (length (ch_proxies ?ch))" "\<not> ch_early_return ch" "report c True (put_txn c ?ch2 s) = Inr s'"
    | "s' = put_txn c ?ch s"
    using f v(1) by (auto simp: on_rcc_finish_def Let_def split: if_splits)
  then show ?thesis
  proof cases
    case 1
    have "int (length (xs @ ys)) = 0" using i 1(1) by (simp add: dep_finish_inv_def)
    then have e: "xs @ ys = []" by (simp only: of_nat_eq_0_iff length_0_conv)
    note ef = eff_delete [OF v(1), folded 1(3)]
    show ?thesis using eff_view [OF ef] eff_frame [OF ef] v(2,3) e i 1(2) np by (simp add: co_txn_ok_def dep_finish_inv_def)
  next
    case 2
    have "int (length (xs @ ys)) = 0" using i 2(1) by (simp add: dep_finish_inv_def)
    then have e: "xs @ ys = []" by (simp only: of_nat_eq_0_iff length_0_conv)
    note pv = put_view [OF v(1), of ?ch2]
    from eff_report [OF 2(3) pv(1)] have ef: "eff c None [] [Reported c SUCCESS] (put_txn c ?ch2 s) s'" by simp
    show ?thesis using eff_view [OF ef] keeps_others_trans [OF pv(5) eff_frame [OF ef]] pv v(2,3) e i 2(2) np by (simp add: co_txn_ok_def dep_finish_inv_def)
  next
    case 3
    then show ?thesis using i put_view [OF v(1), of ?ch] v(2,3) np by (simp add: co_txn_ok_def)
  qed
qed

section \<open>Read-only transactions\<close>

lemma ro_callback_run:
  assumes r: "running J ch (pi # ps)" and cb: "ro_start_callback vt pi ph outp (ch\<lparr>ch_n_started := ch_n_started ch + 1\<rparr>) = Inr (b, res, ch')"
  shows "running J ch' ps \<and> counters ch' = counters ch"
proof -
  let ?ch = "ch\<lparr>ch_n_started := ch_n_started ch + 1\<rparr>"
  from cb obtain ch1 ch2 where 1: "(if ph then ro_check pi outp ?ch else Inr (SUCCESS, ?ch\<lparr>ch_outputs := resize (nat (ch_n_pieces ?ch)) [] (ch_outputs ?ch)\<rparr>)) = Inr (res, ch1)"
    and 2: "store_output pi outp ch1 = Inr ch2" and 3: "vt_start_callback vt pi SUCCESS outp ch2 = Inr (b, ch')"
    by (fastforce simp: ro_start_callback_def)
  have "own ch1 = own ?ch \<and> counters ch1 = counters ?ch \<and> ch_n_started ch1 = ch_n_started ?ch"
    using 1 ro_check_own [of pi outp ?ch res ch1] by (cases ph) (auto simp: own_def counters_def)
  then have o: "own ch2 = own ch" "counters ch2 = counters ch" "ch_n_started ch2 = ch_n_started ch + 1"
    using store_output_own [OF 2] by (simp_all add: own_def counters_def)
  show ?thesis using running_callback [OF r o(1,3) 3] o(2) by simp
qed

lemma ro_reset_inv:
  assumes inv: "start_inv J mode ch [] log" and f: "read_only_reset vt ch = Inr ch'" and np: "\<not> two_phase mode" and e: "reports es = 0"
  shows "start_inv J mode ch' [] (log @ es)"
proof -
  have r: "running J ch []" using inv by (simp add: start_inv_def)
  have "vt_retry vt (ch\<lparr>ch_read_only_failed := False\<rparr>) = Inr ch'" using f by (simp add: read_only_reset_def)
  note q = running_retry [OF r _ this]
  show ?thesis using q inv np e by (simp add: start_inv_def own_def pristine_def)
qed

lemma on_ro_ok:
  assumes inv: "start_inv J mode ch (xs @ (k, OnRo c pi) # ys) log" and f: "on_ro vt c pi outp s = Inr s'"
    and v: "txn_of c s = Some ch" "calls_of c s = xs @ ys" "events_of c s = log @ [Got c k ans]"
  shows "ok_view J mode c s' \<and> keeps_others c s s'"
proof -
  from f v(1) obtain b res ch1 where cb: "ro_start_callback vt pi False outp (ch\<lparr>ch_n_started := ch_n_started ch + 1\<rparr>) = Inr (b, res, ch1)"
    and rest: "(if b then deptran_start_ro c (put_txn c ch1 s) else if ch_n_started ch1 = ch_n_pieces ch1
      then rbind (read_only_reset vt ch1) (\<lambda>ch2. deptran_finish_ro c (put_txn c ch2 s)) else Inr (put_txn c ch1 s)) = Inr s'"
    by (auto simp: on_ro_def)
  have "running J ch (pieces_of (xs @ (k, OnRo c pi) # ys))" using inv by (simp add: start_inv_def)
  then have "running J ch (pi # pieces_of (xs @ ys))" by (rule running_perm) simp
  note c = ro_callback_run [OF this cb]
  have ri: "start_inv J mode ch1 (xs @ ys) (log @ [Got c k ans])" "\<not> two_phase mode" using rcc_reply_inv [OF inv c [THEN conjunct1] c [THEN conjunct2]] by simp_all
  note pv = put_view [OF v(1), of ch1]
  have i1: "start_inv J mode ch1 (calls_of c (put_txn c ch1 s)) (events_of c (put_txn c ch1 s))" using ri(1) pv(2,3) v(2,3) by simp
  consider "deptran_start_ro c (put_txn c ch1 s) = Inr s'" | ch2 where "ch_n_started ch1 = ch_n_pieces ch1" "read_only_reset vt ch1 = Inr ch2"
    "deptran_finish_ro c (put_txn c ch2 s) = Inr s'" | "s' = put_txn c ch1 s"
    using rest by (cases b; cases "ch_n_started ch1 = ch_n_pieces ch1") auto
  then show ?thesis
  proof cases
    case 1
    from start_more [OF i1 begun_start_ro [OF 1 pv(1)]] show ?thesis using ri(2) keeps_others_trans [OF pv(5)] by blast
  next
    case 2
    note pv2 = put_view [OF v(1), of ch2]
    have e: "xs @ ys = []" by (rule start_inv_done [OF ri(1) 2(1)])
    have "start_inv J mode ch2 [] ((log @ [Got c k ans]) @ [])" by (rule ro_reset_inv [OF _ 2(2) ri(2)]) (use ri(1) e in simp_all)
    then have "start_inv J mode ch2 (calls_of c (put_txn c ch2 s)) (events_of c (put_txn c ch2 s))" using pv2(2,3) v(2,3) e by simp
    from start_more [OF this begun_finish_ro [OF 2(3) pv2(1)]] show ?thesis using ri(2) keeps_others_trans [OF pv2(5)] by blast
  next
    case 3
    then show ?thesis using co_txn_ok_start [OF i1] pv(1,5) by simp
  qed
qed

lemma on_ro_check_ok:
  assumes inv: "start_inv J mode ch (xs @ (k, OnRoCheck c pi) # ys) log" and f: "on_ro_check vt c pi outp s = Inr s'"
    and v: "txn_of c s = Some ch" "calls_of c s = xs @ ys" "events_of c s = log @ [Got c k ans]"
  shows "ok_view J mode c s' \<and> keeps_others c s s'"
proof -
  from f v(1) obtain b res ch1 where cb: "ro_start_callback vt pi True outp (ch\<lparr>ch_n_started := ch_n_started ch + 1\<rparr>) = Inr (b, res, ch1)"
    and rest: "(if b then deptran_finish_ro c (put_txn c ch1 s) else if ch_n_started ch1 = ch_n_pieces ch1
      then if res = SUCCESS then report c True (put_txn c (ch1\<lparr>ch_res := SUCCESS\<rparr>) s)
        else if can_retry ch1 then rbind (read_only_reset vt ch1) (\<lambda>ch2. deptran_finish_ro c (log_event (Restarted c) (put_txn c ch2 s)))
        else report c True (put_txn c (ch1\<lparr>ch_res := REJECT\<rparr>) s)
      else Inr (put_txn c ch1 s)) = Inr s'"
    by (auto simp: on_ro_check_def)
  have "running J ch (pieces_of (xs @ (k, OnRoCheck c pi) # ys))" using inv by (simp add: start_inv_def)
  then have "running J ch (pi # pieces_of (xs @ ys))" by (rule running_perm) simp
  note c = ro_callback_run [OF this cb]
  have ri: "start_inv J mode ch1 (xs @ ys) (log @ [Got c k ans])" "\<not> two_phase mode" using rcc_reply_inv [OF inv c [THEN conjunct1] c [THEN conjunct2]] by simp_all
  note pv = put_view [OF v(1), of ch1]
  have i1: "start_inv J mode ch1 (calls_of c (put_txn c ch1 s)) (events_of c (put_txn c ch1 s))" using ri(1) pv(2,3) v(2,3) by simp
  consider "deptran_finish_ro c (put_txn c ch1 s) = Inr s'"
    | r where "ch_n_started ch1 = ch_n_pieces ch1" "report c True (put_txn c (ch1\<lparr>ch_res := r\<rparr>) s) = Inr s'"
    | ch2 where "ch_n_started ch1 = ch_n_pieces ch1" "read_only_reset vt ch1 = Inr ch2" "deptran_finish_ro c (log_event (Restarted c) (put_txn c ch2 s)) = Inr s'"
    | "s' = put_txn c ch1 s"
    using rest by (cases b; cases "ch_n_started ch1 = ch_n_pieces ch1"; cases "res = SUCCESS"; cases "can_retry ch1") auto
  then show ?thesis
  proof cases
    case 1
    from start_more [OF i1 begun_finish_ro [OF 1 pv(1)]] show ?thesis using ri(2) keeps_others_trans [OF pv(5)] by blast
  next
    case (2 r)
    have e: "xs @ ys = []" by (rule start_inv_done [OF ri(1) 2(1)])
    note pv2 = put_view [OF v(1), of "ch1\<lparr>ch_res := r\<rparr>"]
    from eff_report [OF 2(2) pv2(1)] have ef: "eff c None [] [Reported c r] (put_txn c (ch1\<lparr>ch_res := r\<rparr>) s) s'" by simp
    have "reports log = 0" using inv by (simp add: start_inv_def)
    then show ?thesis using eff_view [OF ef] keeps_others_trans [OF pv2(5) eff_frame [OF ef]] pv2 v(2,3) e ri(2) by (simp add: co_txn_ok_def)
  next
    case (3 ch2)
    note pv2 = put_view [OF v(1), of ch2]
    let ?s = "log_event (Restarted c) (put_txn c ch2 s)"
    have el: "eff c (Some ch2) [] [Restarted c] (put_txn c ch2 s) ?s" by (rule eff_log) (simp_all add: pv2(1))
    have e: "xs @ ys = []" by (rule start_inv_done [OF ri(1) 3(1)])
    have "start_inv J mode ch2 [] ((log @ [Got c k ans]) @ [Restarted c])" by (rule ro_reset_inv [OF _ 3(2) ri(2)]) (use ri(1) e in simp_all)
    then have "start_inv J mode ch2 (calls_of c ?s) (events_of c ?s)" using eff_view [OF el] pv2(2,3) v(2,3) e by simp
    from start_more [OF this begun_finish_ro [OF 3(3) eff_txn [OF el]]] show ?thesis
      using ri(2) keeps_others_trans [OF pv2(5) keeps_others_trans [OF eff_frame [OF el]]] by blast
  next
    case 4
    then show ?thesis using co_txn_ok_start [OF i1] pv(1,5) by simp
  qed
qed

lemma on_null_ok:
  assumes inv: "null_inv c (xs @ (k, OnNull c) # ys) log" and np: "\<not> two_phase mode" and f: "on_null c s = Inr s'"
    and v: "txn_of c s = Some ch" "calls_of c s = xs @ ys" "events_of c s = log @ [Got c k ans]"
  shows "ok_view J mode c s' \<and> keeps_others c s s'"
proof -
  note pv = put_view [OF v(1), of "ch\<lparr>ch_res := SUCCESS\<rparr>"]
  have "report c True (put_txn c (ch\<lparr>ch_res := SUCCESS\<rparr>) s) = Inr s'" using f v(1) by (auto simp: on_null_def)
  from eff_report [OF this pv(1)] have ef: "eff c None [] [Reported c SUCCESS] (put_txn c (ch\<lparr>ch_res := SUCCESS\<rparr>) s) s'" by simp
  have "xs @ ys = []" "reports log = 0" using inv by (simp_all add: null_inv_def)
  then show ?thesis using eff_view [OF ef] keeps_others_trans [OF pv(5) eff_frame [OF ef]] pv v(2,3) np by (simp add: co_txn_ok_def)
qed

section \<open>Every step\<close>

lemma co_txn_ok_callback:
  assumes "co_txn_ok J mode c (Some ch) calls log" "(k, cb) \<in> set calls"
  shows "start_inv J mode ch calls log \<and> cb_pieces cb \<noteq> [] \<or> two_phase mode \<and> prepare_inv J c ch calls log \<and> cb = OnPrepare c \<or>
    two_phase mode \<and> finish_inv J c ch calls log \<and> cb = OnFinish c \<or> \<not> two_phase mode \<and> dep_finish_inv c ch calls log \<and> cb = OnRccFinish c \<or>
    \<not> two_phase mode \<and> null_inv c calls log \<and> cb = OnNull c"
proof -
  have "start_inv J mode ch calls log \<or> two_phase mode \<and> prepare_inv J c ch calls log \<or> two_phase mode \<and> finish_inv J c ch calls log \<or>
    \<not> two_phase mode \<and> dep_finish_inv c ch calls log \<or> \<not> two_phase mode \<and> null_inv c calls log"
    using assms by (auto simp: co_txn_ok_def split: if_splits)
  moreover have "start_inv J mode ch calls log \<Longrightarrow> cb_pieces (snd (k, cb)) \<noteq> []" using assms(2) unfolding start_inv_def by blast
  moreover have "prepare_inv J c ch calls log \<Longrightarrow> snd (k, cb) = OnPrepare c" using assms(2) unfolding prepare_inv_def by blast
  moreover have "finish_inv J c ch calls log \<Longrightarrow> snd (k, cb) = OnFinish c" using assms(2) unfolding finish_inv_def by blast
  moreover have "dep_finish_inv c ch calls log \<Longrightarrow> snd (k, cb) = OnRccFinish c" using assms(2) unfolding dep_finish_inv_def by blast
  moreover have "null_inv c calls log \<Longrightarrow> snd (k, cb) = OnNull c" using assms(2) unfolding null_inv_def by blast
  ultimately show ?thesis by auto
qed

lemma run_callback_ok:
  assumes va: "visits_all ord" and ok: "co_txn_ok J mode c (Some ch) (xs @ (k, cb) # ys) log" and f: "run_callback ord vt cb ans s = Inr s'"
    and c: "cb_txn cb = c" and mode: "mode = co_mode s"
    and v: "txn_of c s = Some ch" "calls_of c s = xs @ ys" "events_of c s = log @ [Got c k ans]"
  shows "ok_view J mode c s' \<and> keeps_others c s s'"
proof -
  have ph: "start_inv J mode ch (xs @ (k, cb) # ys) log \<and> cb_pieces cb \<noteq> [] \<or> two_phase mode \<and> prepare_inv J c ch (xs @ (k, cb) # ys) log \<and> cb = OnPrepare c \<or>
    two_phase mode \<and> finish_inv J c ch (xs @ (k, cb) # ys) log \<and> cb = OnFinish c \<or> \<not> two_phase mode \<and> dep_finish_inv c ch (xs @ (k, cb) # ys) log \<and> cb = OnRccFinish c \<or>
    \<not> two_phase mode \<and> null_inv c (xs @ (k, cb) # ys) log \<and> cb = OnNull c"
    by (rule co_txn_ok_callback [OF ok, of k]) simp
  show ?thesis
  proof (cases cb)
    case (OnStart d pi)
    then have i: "start_inv J mode ch (xs @ (k, OnStart c pi) # ys) log" using ph c by auto
    from f OnStart c obtain res outp where "ans = AStart res outp" "on_start vt c pi res outp s = Inr s'" by (auto simp: run_callback_def split: answer.splits)
    then show ?thesis using on_start_ok [OF i _ mode v(1,2)] v(3) by simp
  next
    case (OnBatch d pis)
    then have i: "start_inv J mode ch (xs @ (k, OnBatch c pis) # ys) log" using ph c by auto
    from f OnBatch c obtain rs os where "ans = ABatch rs os" "on_batch ord vt c pis rs os s = Inr s'" by (auto simp: run_callback_def split: answer.splits)
    then show ?thesis using on_batch_ok [OF va i _ mode v(1,2)] v(3) by simp
  next
    case (OnPrepare d)
    then have i: "prepare_inv J c ch (xs @ (k, OnPrepare c) # ys) log" "two_phase mode" using ph c by auto
    from f OnPrepare c obtain vote where "ans = APrepare vote" "on_prepare c vote s = Inr s'" by (auto simp: run_callback_def split: answer.splits)
    then show ?thesis using on_prepare_ok [OF i _ mode v(1,2)] v(3) by simp
  next
    case (OnFinish d)
    then have i: "finish_inv J c ch (xs @ (k, OnFinish c) # ys) log" "two_phase mode" using ph c by auto
    from f OnFinish c have "ans = ADone" "on_finish ord vt c s = Inr s'" by (auto simp: run_callback_def split: answer.splits)
    then show ?thesis using on_finish_ok [OF va i _ mode v(1,2)] v(3) by simp
  next
    case (OnRccStart d pi)
    then have i: "start_inv J mode ch (xs @ (k, OnRccStart c pi) # ys) log" using ph c by auto
    from f OnRccStart c obtain df outp cells gra where "on_rcc_start vt c pi df outp cells gra s = Inr s'" by (auto simp: run_callback_def split: answer.splits)
    then show ?thesis by (rule on_rcc_start_ok [OF i _ v])
  next
    case (OnRccBatch d pis)
    then have i: "start_inv J mode ch (xs @ (k, OnRccBatch c pis) # ys) log" using ph c by auto
    from f OnRccBatch c obtain dfs os cells gra where "on_rcc_batch ord vt c pis dfs os cells gra s = Inr s'" by (auto simp: run_callback_def split: answer.splits)
    then show ?thesis by (rule on_rcc_batch_ok [OF va i _ v])
  next
    case (OnRccFinish d)
    then have i: "dep_finish_inv c ch (xs @ (k, OnRccFinish c) # ys) log" "\<not> two_phase mode" using ph c by auto
    from f OnRccFinish c have "on_rcc_finish c s = Inr s'" by (auto simp: run_callback_def split: answer.splits)
    then show ?thesis by (rule on_rcc_finish_ok [OF i _ v])
  next
    case (OnRo d pi)
    then have i: "start_inv J mode ch (xs @ (k, OnRo c pi) # ys) log" using ph c by auto
    from f OnRo c obtain outp where "on_ro vt c pi outp s = Inr s'" by (auto simp: run_callback_def split: answer.splits)
    then show ?thesis by (rule on_ro_ok [OF i _ v])
  next
    case (OnRoCheck d pi)
    then have i: "start_inv J mode ch (xs @ (k, OnRoCheck c pi) # ys) log" using ph c by auto
    from f OnRoCheck c obtain outp where "on_ro_check vt c pi outp s = Inr s'" by (auto simp: run_callback_def split: answer.splits)
    then show ?thesis by (rule on_ro_check_ok [OF i _ v])
  next
    case (OnNull d)
    then have i: "null_inv c (xs @ (k, OnNull c) # ys) log" "\<not> two_phase mode" using ph c by auto
    from f OnNull c have "on_null c s = Inr s'" by (auto simp: run_callback_def split: answer.splits)
    then show ?thesis by (rule on_null_ok [OF i _ v])
  qed
qed

end

text \<open>The invariant of the coordinator.\<close>

definition coo_ok :: "(nat set \<Rightarrow> 'a chopper_scheme \<Rightarrow> bool) \<Rightarrow> int \<Rightarrow> 'a chopper_scheme coo \<Rightarrow> bool" where
  "coo_ok J mode s \<longleftrightarrow> co_mode s = mode \<and> (\<forall>c. ok_view J mode c s) \<and> (\<forall>c \<ge> length (co_txns s). events_of c s = [])"

lemma coo_ok_frame:
  assumes ok: "co_mode s = mode" "\<And>d. d \<noteq> c \<Longrightarrow> ok_view J mode d s" "\<forall>d \<ge> length (co_txns s). events_of d s = []"
    and c: "c < length (co_txns s)" and st: "ok_view J mode c s' \<and> keeps_others c s s'"
  shows "coo_ok J mode s'"
proof -
  from st obtain t cs es where ef: "eff c t cs es s s'" unfolding keeps_others_def by blast
  have "ok_view J mode d s'" for d
    using st ok(2) [of d] ef by (cases "d = c") (auto simp: eff_def)
  moreover have "events_of d s' = []" if "length (co_txns s') \<le> d" for d
    using that ok(3) c ef by (auto simp: eff_def)
  ultimately show ?thesis using ok(1) eff_mode(1) [OF ef] by (simp add: coo_ok_def)
qed

lemma reply_view:
  assumes "n < length (co_calls s)" "co_calls s ! n = (k, cb)"
    "s1 = log_event (Got (cb_txn cb) k ans) (s\<lparr>co_calls := take n (co_calls s) @ drop (Suc n) (co_calls s)\<rparr>)"
  shows "\<exists>xs ys. calls_of (cb_txn cb) s = xs @ (k, cb) # ys \<and> calls_of (cb_txn cb) s1 = xs @ ys"
    "events_of (cb_txn cb) s1 = events_of (cb_txn cb) s @ [Got (cb_txn cb) k ans]" "txn_of d s1 = txn_of d s"
    "d \<noteq> cb_txn cb \<Longrightarrow> calls_of d s1 = calls_of d s" "d \<noteq> cb_txn cb \<Longrightarrow> events_of d s1 = events_of d s"
    "co_mode s1 = co_mode s" "co_txns s1 = co_txns s"
proof -
  have e: "co_calls s = take n (co_calls s) @ (k, cb) # drop (Suc n) (co_calls s)" using id_take_nth_drop [OF assms(1)] assms(2) by simp
  have f: "calls_of d s = calls_of d (s\<lparr>co_calls := take n (co_calls s)\<rparr>) @ (if d = cb_txn cb then [(k, cb)] else []) @ calls_of d (s\<lparr>co_calls := drop (Suc n) (co_calls s)\<rparr>)" for d
    unfolding calls_of_def by (subst e) simp
  have g: "calls_of d s1 = calls_of d (s\<lparr>co_calls := take n (co_calls s)\<rparr>) @ calls_of d (s\<lparr>co_calls := drop (Suc n) (co_calls s)\<rparr>)" for d
    by (simp add: calls_of_def assms(3) log_event_def)
  show "\<exists>xs ys. calls_of (cb_txn cb) s = xs @ (k, cb) # ys \<and> calls_of (cb_txn cb) s1 = xs @ ys" using f [of "cb_txn cb"] g [of "cb_txn cb"] by auto
  show "d \<noteq> cb_txn cb \<Longrightarrow> calls_of d s1 = calls_of d s" using f [of d] g [of d] by simp
qed (auto simp: assms(3) log_event_def events_of_def txn_of_def)

context chopper_class
begin

lemma coo_reply_ok:
  assumes va: "visits_all ord" and ok: "coo_ok J mode s" and f: "coo_reply ord vt n ans s = Inr s'"
  shows "coo_ok J mode s'"
proof -
  obtain k cb where n: "n < length (co_calls s)" "co_calls s ! n = (k, cb)" using f by (cases "co_calls s ! n") (auto simp: coo_reply_def split: if_splits)
  let ?c = "cb_txn cb"
  define s1 where "s1 = log_event (Got ?c k ans) (s\<lparr>co_calls := take n (co_calls s) @ drop (Suc n) (co_calls s)\<rparr>)"
  note rv = reply_view [OF n s1_def]
  have r: "run_callback ord vt cb ans s1 = Inr s'" using f n by (simp add: coo_reply_def s1_def)
  from rv(1) obtain xs ys where xy: "calls_of ?c s = xs @ (k, cb) # ys" "calls_of ?c s1 = xs @ ys" by blast
  have v: "ok_view J mode ?c s" using ok by (simp add: coo_ok_def)
  then obtain ch where ch: "txn_of ?c s = Some ch" using xy(1) by (cases "txn_of ?c s") (auto simp: co_txn_ok_def)
  have m: "mode = co_mode s1" using ok rv(6) by (simp add: coo_ok_def)
  have "co_txn_ok J mode ?c (Some ch) (xs @ (k, cb) # ys) (events_of ?c s)" using v ch xy(1) by simp
  from run_callback_ok [OF va this r refl m _ xy(2) rv(2)] have st: "ok_view J mode ?c s' \<and> keeps_others ?c s1 s'" using rv(3) ch by simp
  have c: "?c < length (co_txns s)" using ch by (auto simp: txn_of_def split: if_splits)
  show ?thesis
  proof (rule coo_ok_frame [OF _ _ _ _ st])
    show "ok_view J mode d s1" if "d \<noteq> ?c" for d using ok rv(3) rv(4,5) [OF that] by (simp add: coo_ok_def)
    show "\<forall>d\<ge>length (co_txns s1). events_of d s1 = []" using ok rv(5,7) c by (auto simp: coo_ok_def)
  qed (use m c rv(7) in simp_all)
qed

lemma do_one_ok:
  assumes va: "visits_all ord" and ok: "coo_ok J mode s" and f: "do_one ord vt ch s = Inr s'"
    and fr: "J {} ch" "pristine ch" "ch_n_start_sent ch = 0"
  shows "coo_ok J mode s'"
proof -
  let ?c = "length (co_txns s)" and ?ch = "ch\<lparr>ch_txn_id := co_next_txn s\<rparr>"
  define s2 where "s2 = log_event (Begun ?c) (s\<lparr>co_next_txn := co_next_txn s + 1, co_txns := co_txns (s\<lparr>co_next_txn := co_next_txn s + 1\<rparr>) @ [Some ?ch]\<rparr>)"
  have v: "txn_of ?c s2 = Some ?ch" "calls_of d s2 = calls_of d s" "events_of ?c s2 = events_of ?c s @ [Begun ?c]"
    "d \<noteq> ?c \<Longrightarrow> txn_of d s2 = txn_of d s" "d \<noteq> ?c \<Longrightarrow> events_of d s2 = events_of d s" "co_mode s2 = co_mode s" "length (co_txns s2) = Suc ?c" for d
    by (auto simp: s2_def log_event_def txn_of_def calls_of_def events_of_def nth_append)
  have d: "do_one ord vt ch s = (if co_mode s = MODE_NONE \<or> co_mode s = MODE_OCC \<or> co_mode s = MODE_2PL then start_txn ord ?c s2
      else if co_mode s = MODE_DEPTRAN then rbind (vt_is_read_only vt ch)
        (\<lambda>ro. if ro then deptran_start_ro ?c s2 else if co_batch s then deptran_batch_start ord ?c s2 else deptran_start ?c s2)
      else if co_mode s = MODE_RPC_NULL then rpc_null_start ?c s2 else Inl VerifyFailed)"
    by (simp only: do_one_def next_txn_id_def s2_def Let_def prod.case)
  have m: "co_mode s = mode" "ok_view J mode ?c s" "events_of ?c s = []" using ok unfolding coo_ok_def by blast+
  have c0: "calls_of ?c s2 = []" using m(2) v(2) [of ?c] by (simp add: co_txn_ok_def txn_of_def)
  have e0: "events_of ?c s2 = [Begun ?c]" using v(3) m(3) by simp
  have "running J ?ch []" by (rule running_own [OF running_pristine [OF fr(1,2)]]) (simp_all add: own_def)
  moreover have "history_ok ([] @ [Begun ?c])" unfolding history_ok_snoc by (simp add: step_ok_def)
  ultimately have i: "start_inv J mode ?ch (calls_of ?c s2) (events_of ?c s2)"
    unfolding start_inv_def c0 e0 using fr(2,3) attempt_snoc [of "[]" "Begun ?c"] by (simp add: pristine_def tp_ok_def undecided_def)
  have st: "ok_view J mode ?c s' \<and> keeps_others ?c s2 s'"
  proof (cases "mode = MODE_NONE \<or> mode = MODE_OCC \<or> mode = MODE_2PL")
    case True
    then have "start_txn ord ?c s2 = Inr s'" using f m(1) by (auto simp: d)
    from start_more [OF i begun_start_txn [OF va this v(1)]] show ?thesis by simp
  next
    case False
    then have np: "\<not> two_phase mode" by (simp add: two_phase_def)
    show ?thesis
    proof (cases "mode = MODE_DEPTRAN")
      case True
      then obtain ro where rest: "(if ro then deptran_start_ro ?c s2 else if co_batch s then deptran_batch_start ord ?c s2 else deptran_start ?c s2) = Inr s'"
        using f m(1) False by (auto simp: d)
      consider "deptran_start_ro ?c s2 = Inr s'" | "deptran_batch_start ord ?c s2 = Inr s'" | "deptran_start ?c s2 = Inr s'" using rest by (auto split: if_splits)
      then have "\<exists>cs es ch'. eff ?c (Some ch') cs es s2 s' \<and> begun False ?c ?ch cs es ch'"
        by cases (use begun_start_ro [OF _ v(1)] begun_deptran_batch [OF va _ v(1)] begun_deptran [OF _ v(1)] in blast)+
      from start_more [OF i this] np show ?thesis by simp
    next
      case nd: False
      then have "rpc_null_start ?c s2 = Inr s'" using f m(1) False by (auto simp: d split: if_splits)
      then obtain k where "call k (OnNull ?c) ReqNull s2 = Inr s'" by (auto simp: rpc_null_start_def split: if_splits)
      from eff_call [OF this _ v(1)] have ef: "eff ?c (Some ?ch) [(k, OnNull ?c)] [Sent ?c k ReqNull] s2 s'" by simp
      show ?thesis using eff_view [OF ef] eff_frame [OF ef] np c0 e0 by (simp add: co_txn_ok_def null_inv_def)
    qed
  qed
  show ?thesis
  proof (rule coo_ok_frame [OF _ _ _ _ st])
    show "ok_view J mode d s2" if "d \<noteq> ?c" for d using ok v(2) [of d] v(4,5) [OF that] by (simp add: coo_ok_def)
    show "\<forall>d\<ge>length (co_txns s2). events_of d s2 = []" using ok v(5,7) by (auto simp: coo_ok_def)
  qed (use m v in simp_all)
qed

theorem coo_invariant:
  assumes "coo_reach ord vt fresh cid n mode batch s" and va: "visits_all ord"
    and fr: "\<And>ch. fresh ch \<Longrightarrow> J {} ch \<and> pristine ch \<and> ch_n_start_sent ch = 0"
  shows "coo_ok J mode s"
  using assms(1)
proof (induction rule: coo_reach.induct)
  case coo_init
  then show ?case by (simp add: coo_ok_def co_txn_ok_def new_coo_def Let_def txn_of_def calls_of_def events_of_def)
next
  case (coo_request s ch s')
  then show ?case using do_one_ok [OF va coo_request.IH coo_request.hyps(3)] fr by blast
next
  case (coo_answer s i ans s')
  then show ?case using coo_reply_ok [OF va coo_answer.IH coo_answer.hyps(2)] by blast
qed

text \<open>With two-phase commit every event of a transaction is allowed by the history before it.\<close>

lemma history_steps:
  assumes "coo_ok J mode s" "two_phase mode" "co_log s = pre @ e # post"
  shows "step_ok (filter (\<lambda>x. ev_txn x = ev_txn e) pre) e"
proof -
  have "history_ok (events_of (ev_txn e) s)"
    using assms(1,2) by (auto simp: coo_ok_def co_txn_ok_def start_inv_def prepare_inv_def finish_inv_def tp_ok_def split: option.splits dest!: spec [of _ "ev_txn e"])
  then show ?thesis using assms(3) by (auto simp: events_of_def intro: history_ok_at)
qed

lemma reported_once:
  assumes "coo_ok J mode s"
  shows "reports (events_of c s) \<le> 1"
proof -
  have "ok_view J mode c s" using assms by (simp add: coo_ok_def)
  then show ?thesis
    by (auto simp: co_txn_ok_def start_inv_def prepare_inv_def finish_inv_def dep_finish_inv_def null_inv_def split: option.splits if_splits)
qed

lemma open_call_live:
  assumes "coo_ok J mode s" "(k, cb) \<in> set (co_calls s)"
  shows "txn_of (cb_txn cb) s \<noteq> None"
proof
  assume n: "txn_of (cb_txn cb) s = None"
  have "ok_view J mode (cb_txn cb) s" using assms(1) by (simp add: coo_ok_def)
  then have "calls_of (cb_txn cb) s = []" using n by (simp add: co_txn_ok_def)
  then show False using assms(2) by (auto simp: calls_of_def filter_empty_conv)
qed

end

end
