(* ===== verification/Bench_Chopper.thy ===== *)
theory Bench_Chopper
  imports Coordinator_Dep
begin

text \<open>
  The transactions of three benchmarks as classes of transactions: TPC-A (\<^verbatim>\<open>tpca/chopper.h\<close>), the
  read/write benchmark (\<^verbatim>\<open>rw_benchmark/chopper.cc\<close>) and the micro benchmark (\<^verbatim>\<open>micro/chopper.cc\<close>). Their
  pieces are all ready from the start. The record of a transaction has one more field for the union of
  the classes of TPC-C.
\<close>

section \<open>Requests and pieces\<close>

record txn_request =
  rq_txn_type :: uint32
  rq_input :: "mvalue list"
  rq_n_try :: int

record new_order_dep =
  no_ol_cnt :: nat
  no_piece_0_dist :: bool
  no_piece_items :: "bool list"
  no_piece_stocks :: "bool list"

record payment_dep =
  pa_piece_warehouse :: bool
  pa_piece_district :: bool
  pa_piece_last2id :: bool
  pa_piece_ori_last2id :: bool

record order_status_dep =
  os_piece_last2id :: bool
  os_piece_ori_last2id :: bool
  os_piece_order :: bool

record delivery_dep =
  de_piece_new_orders :: bool
  de_piece_orders :: bool
  de_piece_order_lines :: bool

record stock_level_dep =
  sl_threshold :: i32
  sl_w_id :: i32

datatype tpcc_dep =
    NoDep | NewOrderDep new_order_dep | PaymentDep payment_dep | OrderStatusDep order_status_dep
  | DeliveryDep delivery_dep | StockLevelDep stock_level_dep

record bench_chopper = chopper +
  bc_dep :: tpcc_dep

text \<open>An element of a vector.\<close>

definition at :: "'b list \<Rightarrow> nat \<Rightarrow> 'b res" where
  "at xs i = (if i < length xs then Inr (xs ! i) else Inl OutOfRange)"

lemma at_Inr [simp]: "at xs i = Inr x \<longleftrightarrow> i < length xs \<and> x = xs ! i"
  by (auto simp: at_def)

text \<open>The site of a key: \<^verbatim>\<open>Sharding::get_site_id\<close> with its result code. What a look-up adds to the maps of the real
  partitions does not change later look-ups and is left out.\<close>

definition site_of_key :: "sharding option \<Rightarrow> bool \<Rightarrow> string \<Rightarrow> multi_value \<Rightarrow> (int \<times> uint32 option) res" where
  "site_of_key sh rd tb mv = rbind (get_site_id rd (Some tb) mv sh) (\<lambda>(code, r, _). Inr (code, r))"

text \<open>These classes do not look at the code; the site keeps its initial 0 then.\<close>

definition site_or_0 :: "sharding option \<Rightarrow> string \<Rightarrow> mvalue \<Rightarrow> uint32 res" where
  "site_or_0 sh tb key = rbind (site_of_key sh False tb [key]) (\<lambda>(code, r). Inr (case r of Some k \<Rightarrow> k | None \<Rightarrow> 0))"

record piece_spec =
  ps_input :: "mvalue list"
  ps_output_size :: nat
  ps_p_type :: i32
  ps_site :: uint32
  ps_status :: int

definition mk_piece :: "mvalue list \<Rightarrow> nat \<Rightarrow> i32 \<Rightarrow> int \<Rightarrow> uint32 \<Rightarrow> piece_spec" where
  "mk_piece inp n pt st site = \<lparr>ps_input = inp, ps_output_size = n, ps_p_type = pt, ps_site = site, ps_status = st\<rparr>"

definition set_pieces :: "piece_spec list \<Rightarrow> 'a chopper_scheme \<Rightarrow> 'a chopper_scheme" where
  "set_pieces ps ch = ch\<lparr>ch_inputs := map ps_input ps, ch_output_size := map ps_output_size ps, ch_p_types := map ps_p_type ps,
     ch_sharding := map ps_site ps, ch_status := map ps_status ps, ch_n_pieces := int (length ps)\<rparr>"

definition begin_init :: "txn_request \<Rightarrow> 'a chopper_scheme \<Rightarrow> 'a chopper_scheme" where
  "begin_init rq ch = ch\<lparr>ch_txn_type := rq_txn_type rq, ch_max_try := rq_n_try rq, ch_n_try := 1, ch_commit := True\<rparr>"

definition clear_counts :: "'a chopper_scheme \<Rightarrow> 'a chopper_scheme" where
  "clear_counts ch = ch\<lparr>ch_proxies := [], ch_n_started := 0, ch_n_prepared := 0, ch_n_finished := 0, ch_n_try := ch_n_try ch + 1, ch_commit := True\<rparr>"

fun rmap :: "('b \<Rightarrow> 'c res) \<Rightarrow> 'b list \<Rightarrow> 'c list res" where
  "rmap f [] = Inr []"
| "rmap f (x # xs) = rbind (f x) (\<lambda>y. rbind (rmap f xs) (\<lambda>ys. Inr (y # ys)))"

lemma rmap_length: "rmap f xs = Inr ys \<Longrightarrow> length ys = length xs"
  by (induction xs arbitrary: ys) auto

section \<open>TPC-A\<close>

definition TPCA_PAYMENT :: i32 where "TPCA_PAYMENT = 0"
definition TPCA_PAYMENT_1 :: i32 where "TPCA_PAYMENT_1 = 0"
definition TPCA_PAYMENT_2 :: i32 where "TPCA_PAYMENT_2 = 1"
definition TPCA_PAYMENT_3 :: i32 where "TPCA_PAYMENT_3 = 2"
definition TPCA_BRANCH :: string where "TPCA_BRANCH = ''branch''"
definition TPCA_TELLER :: string where "TPCA_TELLER = ''teller''"
definition TPCA_CUSTOMER :: string where "TPCA_CUSTOMER = ''customer''"

definition tpca_init :: "sharding option \<Rightarrow> txn_request \<Rightarrow> 'a chopper_scheme \<Rightarrow> 'a chopper_scheme res" where
  "tpca_init sh rq ch =
     verify (rq_txn_type rq = TPCA_PAYMENT)
       (rbind (at (rq_input rq) 0) (\<lambda>cus. rbind (at (rq_input rq) 1) (\<lambda>tel. rbind (at (rq_input rq) 2) (\<lambda>bra.
        rbind (site_or_0 sh TPCA_CUSTOMER cus) (\<lambda>s0. rbind (site_or_0 sh TPCA_TELLER tel) (\<lambda>s1. rbind (site_or_0 sh TPCA_BRANCH bra) (\<lambda>s2.
          Inr (set_pieces [mk_piece [cus] 0 TPCA_PAYMENT_1 0 s0, mk_piece [tel] 0 TPCA_PAYMENT_2 0 s1, mk_piece [bra] 0 TPCA_PAYMENT_3 0 s2]
                 (begin_init rq ch)))))))))"

definition tpca_retry :: "'a chopper_scheme \<Rightarrow> 'a chopper_scheme res" where
  "tpca_retry ch = Inr ((clear_counts ch)\<lparr>ch_status := [0, 0, 0]\<rparr>)"

definition tpca_vt :: "'a chopper_scheme chop_vt" where
  "tpca_vt = \<lparr>vt_start_callback = \<lambda>pi res outp ch. Inr (False, ch), vt_is_read_only = \<lambda>ch. Inr False, vt_retry = tpca_retry\<rparr>"

section \<open>The read/write benchmark\<close>

definition RW_BENCHMARK_W_TXN :: i32 where "RW_BENCHMARK_W_TXN = 1"
definition RW_BENCHMARK_R_TXN :: i32 where "RW_BENCHMARK_R_TXN = 2"
definition RW_BENCHMARK_W_TXN_0 :: i32 where "RW_BENCHMARK_W_TXN_0 = 10"
definition RW_BENCHMARK_R_TXN_0 :: i32 where "RW_BENCHMARK_R_TXN_0 = 20"
definition RW_BENCHMARK_TABLE :: string where "RW_BENCHMARK_TABLE = ''customer''"

definition W_txn_init :: "sharding option \<Rightarrow> txn_request \<Rightarrow> 'a chopper_scheme \<Rightarrow> 'a chopper_scheme res" where
  "W_txn_init sh rq ch =
     rbind (at (rq_input rq) 0) (\<lambda>k. rbind (site_or_0 sh RW_BENCHMARK_TABLE k) (\<lambda>s. Inr (set_pieces [mk_piece [k] 0 RW_BENCHMARK_W_TXN_0 0 s] ch)))"

definition R_txn_init :: "sharding option \<Rightarrow> txn_request \<Rightarrow> 'a chopper_scheme \<Rightarrow> 'a chopper_scheme res" where
  "R_txn_init sh rq ch =
     rbind (at (rq_input rq) 0) (\<lambda>k. rbind (site_or_0 sh RW_BENCHMARK_TABLE k) (\<lambda>s. Inr (set_pieces [mk_piece [k] 1 RW_BENCHMARK_R_TXN_0 0 s] ch)))"

definition rw_init :: "sharding option \<Rightarrow> txn_request \<Rightarrow> 'a chopper_scheme \<Rightarrow> 'a chopper_scheme res" where
  "rw_init sh rq ch =
     (if rq_txn_type rq = RW_BENCHMARK_W_TXN then W_txn_init sh rq (begin_init rq ch)
      else if rq_txn_type rq = RW_BENCHMARK_R_TXN then R_txn_init sh rq (begin_init rq ch)
      else Inl VerifyFailed)"

definition rw_is_read_only :: "'a chopper_scheme \<Rightarrow> bool res" where
  "rw_is_read_only ch =
     (if ch_txn_type ch = RW_BENCHMARK_W_TXN then Inr False else if ch_txn_type ch = RW_BENCHMARK_R_TXN then Inr True else Inl VerifyFailed)"

definition rw_retry :: "'a chopper_scheme \<Rightarrow> 'a chopper_scheme res" where
  "rw_retry ch = Inr ((clear_counts ch)\<lparr>ch_status := [0]\<rparr>)"

definition rw_vt :: "'a chopper_scheme chop_vt" where
  "rw_vt = \<lparr>vt_start_callback = \<lambda>pi res outp ch. Inr (False, ch), vt_is_read_only = rw_is_read_only, vt_retry = rw_retry\<rparr>"

section \<open>The micro benchmark\<close>

definition MICRO_BENCH_R :: i32 where "MICRO_BENCH_R = 1"
definition MICRO_BENCH_W :: i32 where "MICRO_BENCH_W = 2"
definition MICRO_BENCH_TABLES :: "string list" where "MICRO_BENCH_TABLES = [''table_a'', ''table_b'', ''table_c'', ''table_d'']"

text \<open>The input, the number of outputs and the type (10 to 13, 20 to 23) of the piece \<open>i\<close>.\<close>

definition micro_init_R :: "txn_request \<Rightarrow> nat \<Rightarrow> (mvalue list \<times> nat \<times> i32) res" where
  "micro_init_R rq i = rbind (at (rq_input rq) i) (\<lambda>k. Inr ([k], 1, 10 + of_nat i))"

definition micro_init_W :: "txn_request \<Rightarrow> nat \<Rightarrow> (mvalue list \<times> nat \<times> i32) res" where
  "micro_init_W rq i = rbind (at (rq_input rq) i) (\<lambda>k. rbind (at (rq_input rq) (4 + i)) (\<lambda>v. Inr ([k, v], 0, 20 + of_nat i)))"

definition micro_init :: "sharding option \<Rightarrow> txn_request \<Rightarrow> 'a chopper_scheme \<Rightarrow> 'a chopper_scheme res" where
  "micro_init sh rq ch =
     (if rq_txn_type rq = MICRO_BENCH_R \<or> rq_txn_type rq = MICRO_BENCH_W
      then rbind (rmap (\<lambda>i. rbind (if rq_txn_type rq = MICRO_BENCH_R then micro_init_R rq i else micro_init_W rq i)
               (\<lambda>(inp, n, pt). rbind (at (rq_input rq) i) (\<lambda>k. rbind (site_or_0 sh (MICRO_BENCH_TABLES ! i) k)
                 (\<lambda>s. Inr (mk_piece inp n pt 0 s))))) [0..<4])
             (\<lambda>ps. Inr (set_pieces ps (begin_init rq ch)))
      else Inl VerifyFailed)"

definition micro_retry :: "'a chopper_scheme \<Rightarrow> 'a chopper_scheme res" where
  "micro_retry ch = Inr ((clear_counts ch)\<lparr>ch_status := [0, 0, 0, 0]\<rparr>)"

definition micro_vt :: "'a chopper_scheme chop_vt" where
  "micro_vt = \<lparr>vt_start_callback = \<lambda>pi res outp ch. Inr (False, ch), vt_is_read_only = \<lambda>ch. Inr False, vt_retry = micro_retry\<rparr>"

section \<open>The three classes keep the contract\<close>

definition sized :: "nat \<Rightarrow> nat set \<Rightarrow> 'a chopper_scheme \<Rightarrow> bool" where
  "sized n D ch \<longleftrightarrow> ch_n_pieces ch = int n \<and> length (ch_status ch) = n"

lemma sized_class:
  assumes "\<And>pi res outp ch. vt_start_callback vt pi res outp ch = Inr (False, ch)"
    and "\<And>ch. vt_retry vt ch = Inr ((clear_counts ch)\<lparr>ch_status := replicate n 0\<rparr>)"
  shows "chopper_class vt (sized n)"
  by unfold_locales
    (auto simp: assms sized_def own_def pristine_def slack_def counters_def clear_counts_def)

interpretation tpca: chopper_class tpca_vt "sized 3"
  by (rule sized_class) (simp_all add: tpca_vt_def tpca_retry_def numeral_eq_Suc)

interpretation rw: chopper_class rw_vt "sized 1"
  by (rule sized_class) (simp_all add: rw_vt_def rw_retry_def)

interpretation micro: chopper_class micro_vt "sized 4"
  by (rule sized_class) (simp_all add: micro_vt_def micro_retry_def numeral_eq_Suc)

text \<open>The transactions that come out of the requests.\<close>

definition idle_chopper :: "'a chopper_scheme \<Rightarrow> bool" where
  "idle_chopper ch \<longleftrightarrow> ch_proxies ch = [] \<and> ch_n_started ch = 0 \<and> ch_n_prepared ch = 0 \<and> ch_n_finished ch = 0 \<and> ch_n_start_sent ch = 0"

lemma init_ready:
  assumes "idle_chopper ch" "\<forall>p\<in>set ps. ps_status p = 0"
  shows "sized (length ps) {} (set_pieces ps (begin_init rq ch)) \<and> pristine (set_pieces ps (begin_init rq ch)) \<and>
    ch_n_start_sent (set_pieces ps (begin_init rq ch)) = 0"
proof -
  have "filter (\<lambda>x. x \<noteq> 1 \<and> x \<noteq> (2::int)) (map ps_status ps) = map ps_status ps" using assms(2) by (simp add: filter_id_conv)
  then show ?thesis using assms(1) by (simp add: sized_def set_pieces_def begin_init_def pristine_def slack_def idle_chopper_def)
qed

lemma tpca_fresh: "tpca_init sh rq ch = Inr ch' \<Longrightarrow> idle_chopper ch \<Longrightarrow> sized 3 {} ch' \<and> pristine ch' \<and> ch_n_start_sent ch' = 0"
  by (auto simp: tpca_init_def mk_piece_def numeral_eq_Suc dest!: init_ready [of _ "[_, _, _]"])

lemma rw_fresh: "rw_init sh rq ch = Inr ch' \<Longrightarrow> idle_chopper ch \<Longrightarrow> sized 1 {} ch' \<and> pristine ch' \<and> ch_n_start_sent ch' = 0"
  by (auto simp: rw_init_def W_txn_init_def R_txn_init_def mk_piece_def dest!: init_ready [of _ "[_]"] split: if_splits)

lemma micro_fresh:
  assumes "micro_init sh rq ch = Inr ch'" "idle_chopper ch"
  shows "sized 4 {} ch' \<and> pristine ch' \<and> ch_n_start_sent ch' = 0"
proof -
  let ?f = "\<lambda>i. rbind (if rq_txn_type rq = MICRO_BENCH_R then micro_init_R rq i else micro_init_W rq i)
      (\<lambda>(inp, n, pt). rbind (at (rq_input rq) i) (\<lambda>k. rbind (site_or_0 sh (MICRO_BENCH_TABLES ! i) k) (\<lambda>s. Inr (mk_piece inp n pt 0 s))))"
  from assms(1) obtain ps where ps: "rmap ?f [0..<4] = Inr ps" "ch' = set_pieces ps (begin_init rq ch)"
    by (auto simp: micro_init_def split: if_splits)
  have "ps_status p = 0" if "rmap ?f xs = Inr qs" "p \<in> set qs" for xs qs p
    using that by (induction xs arbitrary: qs) (auto simp: mk_piece_def)
  then show ?thesis using init_ready [OF assms(2), of ps rq] ps rmap_length [OF ps(1)] by simp
qed

end
