(* ===== verification/Tpcc_Chopper.thy ===== *)
theory Tpcc_Chopper
  imports Bench_Chopper
begin

text \<open>
  The five transactions of TPC-C on the client (\<^verbatim>\<open>tpcc/chopper.cc\<close>) and the two variants that differ in the
  placement of rows (\<^verbatim>\<open>tpcc_dist/chopper.cc\<close>, \<^verbatim>\<open>tpcc_real_dist/chopper.cc\<close>). Pieces wait for the outputs of
  others; the callbacks fill in inputs and make pieces ready. The product of a double and an integer is
  the parameter \<open>mul\<close>, and the order of an \<^verbatim>\<open>unordered_set\<close> is \<open>iord\<close>.
\<close>

section \<open>Names and types\<close>

definition TPCC_TB_WAREHOUSE :: string where "TPCC_TB_WAREHOUSE = ''warehouse''"
definition TPCC_TB_DISTRICT :: string where "TPCC_TB_DISTRICT = ''district''"
definition TPCC_TB_CUSTOMER :: string where "TPCC_TB_CUSTOMER = ''customer''"
definition TPCC_TB_ORDER :: string where "TPCC_TB_ORDER = ''order''"
definition TPCC_TB_NEW_ORDER :: string where "TPCC_TB_NEW_ORDER = ''new_order''"
definition TPCC_TB_ORDER_LINE :: string where "TPCC_TB_ORDER_LINE = ''order_line''"

definition TPCC_NEW_ORDER :: i32 where "TPCC_NEW_ORDER = 10"
definition TPCC_ORDER_STATUS :: i32 where "TPCC_ORDER_STATUS = 30"
definition TPCC_DELIVERY :: i32 where "TPCC_DELIVERY = 40"
definition TPCC_STOCK_LEVEL :: i32 where "TPCC_STOCK_LEVEL = 50"

lemmas tpcc_types = TPCC_NEW_ORDER_def TPCC_PAYMENT_def TPCC_ORDER_STATUS_def TPCC_DELIVERY_def TPCC_STOCK_LEVEL_def

section \<open>Placement\<close>

text \<open>The key that decides on the server of a piece. A table that a transaction does not use fails a \<^verbatim>\<open>verify\<close>.\<close>

definition key_at :: "string \<Rightarrow> mvalue list \<Rightarrow> nat list \<Rightarrow> (string \<times> multi_value) res" where
  "key_at tb input js = rbind (rmap (at input) js) (\<lambda>mv. Inr (tb, mv))"

definition new_order_shard :: "string \<Rightarrow> mvalue list \<Rightarrow> nat \<Rightarrow> (string \<times> multi_value) res" where
  "new_order_shard tb input cnt =
     (if tb \<in> {TPCC_TB_DISTRICT, TPCC_TB_WAREHOUSE, TPCC_TB_CUSTOMER, TPCC_TB_ORDER, TPCC_TB_NEW_ORDER, TPCC_TB_ORDER_LINE} then key_at tb input [0]
      else if tb = TPCC_TB_ITEM then key_at tb input [4 + 3 * cnt]
      else if tb = TPCC_TB_STOCK then key_at tb input [5 + 3 * cnt]
      else Inl VerifyFailed)"

definition payment_shard :: "string \<Rightarrow> mvalue list \<Rightarrow> (string \<times> multi_value) res" where
  "payment_shard tb input =
     (if tb \<in> {TPCC_TB_WAREHOUSE, TPCC_TB_DISTRICT} then key_at tb input [0]
      else if tb = TPCC_TB_CUSTOMER then key_at tb input [3]
      else if tb = TPCC_TB_HISTORY then key_at tb input [6]
      else Inl VerifyFailed)"

definition order_status_shard :: "string \<Rightarrow> mvalue list \<Rightarrow> (string \<times> multi_value) res" where
  "order_status_shard tb input =
     (if tb \<in> {TPCC_TB_CUSTOMER, TPCC_TB_ORDER, TPCC_TB_ORDER_LINE} then key_at tb input [0] else Inl VerifyFailed)"

definition delivery_shard :: "string \<Rightarrow> mvalue list \<Rightarrow> i32 \<Rightarrow> (string \<times> multi_value) res" where
  "delivery_shard tb input cnt =
     (if tb \<in> {TPCC_TB_NEW_ORDER, TPCC_TB_ORDER, TPCC_TB_ORDER_LINE, TPCC_TB_CUSTOMER} then key_at tb input [0] else Inl VerifyFailed)"

definition stock_level_shard :: "string \<Rightarrow> mvalue list \<Rightarrow> (string \<times> multi_value) res" where
  "stock_level_shard tb input =
     (if tb \<in> {TPCC_TB_DISTRICT, TPCC_TB_ORDER_LINE} then key_at tb input [0]
      else if tb = TPCC_TB_STOCK then key_at tb input [1]
      else Inl VerifyFailed)"

text \<open>Partitions by district (\<^verbatim>\<open>TpccDistChopper\<close>).\<close>

definition dist_new_order_shard :: "string \<Rightarrow> mvalue list \<Rightarrow> nat \<Rightarrow> (string \<times> multi_value) res" where
  "dist_new_order_shard tb input cnt =
     (if tb \<in> {TPCC_TB_DISTRICT, TPCC_TB_CUSTOMER, TPCC_TB_ORDER, TPCC_TB_NEW_ORDER, TPCC_TB_ORDER_LINE} then key_at tb input [1, 0]
      else if tb = TPCC_TB_WAREHOUSE then key_at tb input [0]
      else if tb = TPCC_TB_ITEM then key_at tb input [4 + 3 * cnt]
      else if tb = TPCC_TB_STOCK then key_at tb input [4 + 3 * cnt, 5 + 3 * cnt]
      else Inl VerifyFailed)"

definition dist_payment_shard :: "string \<Rightarrow> mvalue list \<Rightarrow> (string \<times> multi_value) res" where
  "dist_payment_shard tb input =
     (if tb = TPCC_TB_WAREHOUSE then key_at tb input [0]
      else if tb = TPCC_TB_DISTRICT then key_at tb input [1, 0]
      else if tb = TPCC_TB_CUSTOMER then key_at tb input [4, 3]
      else if tb = TPCC_TB_HISTORY then key_at tb input [6]
      else Inl VerifyFailed)"

definition dist_order_status_shard :: "string \<Rightarrow> mvalue list \<Rightarrow> (string \<times> multi_value) res" where
  "dist_order_status_shard tb input =
     (if tb \<in> {TPCC_TB_CUSTOMER, TPCC_TB_ORDER, TPCC_TB_ORDER_LINE} then key_at tb input [1, 0] else Inl VerifyFailed)"

definition dist_delivery_shard :: "string \<Rightarrow> mvalue list \<Rightarrow> i32 \<Rightarrow> (string \<times> multi_value) res" where
  "dist_delivery_shard tb input cnt =
     (if tb \<in> {TPCC_TB_NEW_ORDER, TPCC_TB_ORDER, TPCC_TB_ORDER_LINE, TPCC_TB_CUSTOMER}
      then rbind (at input 0) (\<lambda>w. Inr (tb, [I32 cnt, w])) else Inl VerifyFailed)"

definition dist_stock_level_shard :: "string \<Rightarrow> mvalue list \<Rightarrow> (string \<times> multi_value) res" where
  "dist_stock_level_shard tb input =
     (if tb \<in> {TPCC_TB_DISTRICT, TPCC_TB_ORDER_LINE} then key_at tb input [1, 0]
      else if tb = TPCC_TB_STOCK then key_at tb input [0, 1]
      else Inl VerifyFailed)"

text \<open>\<^verbatim>\<open>TpccRealDistChopper\<close>: warehouses are on the server of their district.\<close>

definition real_new_order_shard :: "string \<Rightarrow> mvalue list \<Rightarrow> nat \<Rightarrow> (string \<times> multi_value) res" where
  "real_new_order_shard tb input cnt =
     (if tb \<in> {TPCC_TB_DISTRICT, TPCC_TB_CUSTOMER, TPCC_TB_ORDER, TPCC_TB_NEW_ORDER, TPCC_TB_ORDER_LINE} then key_at tb input [1, 0]
      else if tb = TPCC_TB_WAREHOUSE then key_at TPCC_TB_DISTRICT input [1, 0]
      else if tb \<in> {TPCC_TB_ITEM, TPCC_TB_STOCK} then key_at tb input [4 + 3 * cnt, 5 + 3 * cnt]
      else Inl VerifyFailed)"

definition real_payment_shard :: "string \<Rightarrow> mvalue list \<Rightarrow> (string \<times> multi_value) res" where
  "real_payment_shard tb input =
     (if tb = TPCC_TB_WAREHOUSE then key_at TPCC_TB_DISTRICT input [1, 0]
      else if tb = TPCC_TB_DISTRICT then key_at tb input [1, 0]
      else if tb = TPCC_TB_CUSTOMER then key_at tb input [4, 3]
      else if tb = TPCC_TB_HISTORY then key_at tb input [6]
      else Inl VerifyFailed)"

definition real_order_status_shard :: "string \<Rightarrow> mvalue list \<Rightarrow> (string \<times> multi_value) res" where
  "real_order_status_shard tb input =
     (if tb \<in> {TPCC_TB_CUSTOMER, TPCC_TB_ORDER, TPCC_TB_ORDER_LINE} then key_at tb input [1, 0] else Inl VerifyFailed)"

definition real_delivery_shard :: "string \<Rightarrow> mvalue list \<Rightarrow> i32 \<Rightarrow> (string \<times> multi_value) res" where
  "real_delivery_shard tb input cnt =
     (if tb \<in> {TPCC_TB_NEW_ORDER, TPCC_TB_ORDER, TPCC_TB_ORDER_LINE, TPCC_TB_CUSTOMER}
      then rbind (at input 0) (\<lambda>w. Inr (tb, [I32 cnt, w])) else Inl VerifyFailed)"

definition real_stock_level_shard :: "string \<Rightarrow> mvalue list \<Rightarrow> (string \<times> multi_value) res" where
  "real_stock_level_shard tb input =
     (if tb \<in> {TPCC_TB_DISTRICT, TPCC_TB_ORDER_LINE} then key_at tb input [1, 0]
      else if tb = TPCC_TB_STOCK then key_at tb input [0, 1]
      else Inl VerifyFailed)"

text \<open>A class with its virtual functions.\<close>

record tpcc_class =
  tc_new_order :: "string \<Rightarrow> mvalue list \<Rightarrow> nat \<Rightarrow> (string \<times> multi_value) res"
  tc_payment :: "string \<Rightarrow> mvalue list \<Rightarrow> (string \<times> multi_value) res"
  tc_order_status :: "string \<Rightarrow> mvalue list \<Rightarrow> (string \<times> multi_value) res"
  tc_delivery :: "string \<Rightarrow> mvalue list \<Rightarrow> i32 \<Rightarrow> (string \<times> multi_value) res"
  tc_stock_level :: "string \<Rightarrow> mvalue list \<Rightarrow> (string \<times> multi_value) res"
  tc_real :: bool

definition TpccChopper :: tpcc_class where
  "TpccChopper = \<lparr>tc_new_order = new_order_shard, tc_payment = payment_shard, tc_order_status = order_status_shard,
     tc_delivery = delivery_shard, tc_stock_level = stock_level_shard, tc_real = False\<rparr>"

definition TpccDistChopper :: tpcc_class where
  "TpccDistChopper = \<lparr>tc_new_order = dist_new_order_shard, tc_payment = dist_payment_shard, tc_order_status = dist_order_status_shard,
     tc_delivery = dist_delivery_shard, tc_stock_level = dist_stock_level_shard, tc_real = False\<rparr>"

definition TpccRealDistChopper :: tpcc_class where
  "TpccRealDistChopper = \<lparr>tc_new_order = real_new_order_shard, tc_payment = real_payment_shard, tc_order_status = real_order_status_shard,
     tc_delivery = real_delivery_shard, tc_stock_level = real_stock_level_shard, tc_real = True\<rparr>"

definition shard :: "sharding option \<Rightarrow> tpcc_class \<Rightarrow> (string \<times> multi_value) res \<Rightarrow> uint32 res" where
  "shard sh cl key =
     rbind key (\<lambda>(tb, mv). rbind (site_of_key sh (tc_real cl) tb mv)
       (\<lambda>(code, r). verify (code = 0) (case r of Some k \<Rightarrow> Inr k | None \<Rightarrow> Inl BadPointer)))"

text \<open>A piece with its server.\<close>

definition placed_piece :: "sharding option \<Rightarrow> tpcc_class \<Rightarrow> (string \<times> multi_value) res \<Rightarrow> (uint32 \<Rightarrow> piece_spec) \<Rightarrow> piece_spec res" where
  "placed_piece sh cl key p = rbind (shard sh cl key) (\<lambda>s. Inr (p s))"

definition set_input :: "nat \<Rightarrow> nat \<Rightarrow> mvalue \<Rightarrow> bench_chopper \<Rightarrow> bench_chopper res" where
  "set_input i j v ch =
     (if i < length (ch_inputs ch) \<and> j < length (ch_inputs ch ! i)
      then Inr (ch\<lparr>ch_inputs := (ch_inputs ch)[i := (ch_inputs ch ! i)[j := v]]\<rparr>) else Inl OutOfRange)"

definition set_status :: "nat \<Rightarrow> int \<Rightarrow> bench_chopper \<Rightarrow> bench_chopper res" where
  "set_status i x ch = (if i < length (ch_status ch) then Inr (ch\<lparr>ch_status := (ch_status ch)[i := x]\<rparr>) else Inl OutOfRange)"

section \<open>New order\<close>

text \<open>The four pieces of the order line \<open>i\<close>, and whether its item is in the warehouse of the order.\<close>

definition new_order_line :: "sharding option \<Rightarrow> tpcc_class \<Rightarrow> mvalue list \<Rightarrow> nat \<Rightarrow> (bool \<times> piece_spec list) res" where
  "new_order_line sh cl inp i =
     rbind (at inp 0) (\<lambda>w. rbind (at inp 1) (\<lambda>d. rbind (at inp (4 + 3 * i)) (\<lambda>item. rbind (at inp (5 + 3 * i)) (\<lambda>sup. rbind (at inp (6 + 3 * i)) (\<lambda>qty.
     rbind (value_eq sup w) (\<lambda>same.
     rbind (placed_piece sh cl (tc_new_order cl TPCC_TB_ITEM inp i) (mk_piece [item] 3 105 0)) (\<lambda>p5.
     rbind (placed_piece sh cl (tc_new_order cl TPCC_TB_STOCK inp i) (mk_piece [item, sup, d] 2 106 0)) (\<lambda>p6.
     rbind (placed_piece sh cl (tc_new_order cl TPCC_TB_STOCK inp i) (mk_piece [item, sup, qty, I32 (if same then 0 else 1)] 0 107 0)) (\<lambda>p7.
     rbind (placed_piece sh cl (tc_new_order cl TPCC_TB_ORDER_LINE inp 0)
         (mk_piece [d, w, I32 0, I32 (of_nat i), item, sup, STRING [], qty, DOUBLE 0, STRING []] 0 108 (-1))) (\<lambda>p8.
     Inr (same, [p5, p6, p7, p8])))))))))))"

definition new_order_init :: "sharding option \<Rightarrow> tpcc_class \<Rightarrow> txn_request \<Rightarrow> bench_chopper \<Rightarrow> bench_chopper res" where
  "new_order_init sh cl rq ch =
     (let inp = rq_input rq in
      rbind (at inp 0) (\<lambda>w. rbind (at inp 1) (\<lambda>d. rbind (at inp 2) (\<lambda>c. rbind (at inp 3) (\<lambda>oc. rbind (get_i32 oc) (\<lambda>n.
      if sint n < 0 then Inl OutOfRange
      else
        rbind (placed_piece sh cl (tc_new_order cl TPCC_TB_DISTRICT inp 0) (mk_piece [w, d] 2 100 0)) (\<lambda>p0.
        rbind (placed_piece sh cl (tc_new_order cl TPCC_TB_WAREHOUSE inp 0) (mk_piece [w] 1 101 0)) (\<lambda>p1.
        rbind (placed_piece sh cl (tc_new_order cl TPCC_TB_CUSTOMER inp 0) (mk_piece [w, d, c] 3 102 0)) (\<lambda>p2.
        rbind (rmap (new_order_line sh cl inp) [0..<nat (sint n)]) (\<lambda>ls.
        rbind (placed_piece sh cl (tc_new_order cl TPCC_TB_ORDER inp 0)
            (mk_piece [I32 0, d, w, c, I32 0, oc, I32 (if list_all fst ls then 1 else 0)] 0 103 (-1))) (\<lambda>p3.
        rbind (placed_piece sh cl (tc_new_order cl TPCC_TB_NEW_ORDER inp 0) (mk_piece [I32 0, d, w] 0 104 (-1))) (\<lambda>p4.
        Inr ((set_pieces ([p0, p1, p2, p3, p4] @ concat (map snd ls)) ch)\<lparr>bc_dep := NewOrderDep
          \<lparr>no_ol_cnt = nat (sint n), no_piece_0_dist = False, no_piece_items = replicate (nat (sint n)) False,
           no_piece_stocks = replicate (nat (sint n)) False\<rparr>\<rparr>)))))))))))))"

definition new_order_of :: "bench_chopper \<Rightarrow> new_order_dep res" where
  "new_order_of ch = (case bc_dep ch of NewOrderDep d \<Rightarrow> Inr d | _ \<Rightarrow> Inl BadPointer)"

definition order_line_ready :: "new_order_dep \<Rightarrow> mvalue \<Rightarrow> nat \<Rightarrow> bench_chopper \<Rightarrow> bench_chopper res" where
  "order_line_ready d o_id i ch =
     rbind (set_input (8 + 4 * i) 2 o_id ch)
       (\<lambda>ch1. rbind (at (no_piece_items d) i) (\<lambda>a. rbind (at (no_piece_stocks d) i)
         (\<lambda>b. if a \<and> b then set_status (8 + 4 * i) 0 ch1 else Inr ch1)))"

definition new_order_callback :: "(64 word \<Rightarrow> i32 \<Rightarrow> 64 word) \<Rightarrow> nat \<Rightarrow> mvalue list \<Rightarrow> bench_chopper \<Rightarrow> (bool \<times> bench_chopper) res" where
  "new_order_callback mul pi outp ch =
     rbind (new_order_of ch)
       (\<lambda>d. if pi = 0
          then rbind (at outp 1) (\<lambda>o_id.
               rbind (set_input 3 0 o_id (ch\<lparr>bc_dep := NewOrderDep (d\<lparr>no_piece_0_dist := True\<rparr>)\<rparr>)) (\<lambda>ch1. rbind (set_status 3 0 ch1)
               (\<lambda>ch2. rbind (set_input 4 0 o_id ch2) (\<lambda>ch3. rbind (set_status 4 0 ch3)
               (\<lambda>ch4. rbind (each (order_line_ready d o_id) [0..<no_ol_cnt d] ch4) (\<lambda>ch5. Inr (True, ch5)))))))
          else if 5 \<le> pi \<and> pi mod 4 = 1
          then rbind (at outp 1) (\<lambda>v. rbind (get_double v) (\<lambda>price. rbind (at (ch_inputs ch) (pi + 2)) (\<lambda>stock. rbind (at stock 2) (\<lambda>q. rbind (get_i32 q)
               (\<lambda>qty. rbind (set_input (pi + 3) 8 (DOUBLE (mul price qty)) ch)
               (\<lambda>ch1. let i = (pi - 5) div 4; d1 = d\<lparr>no_piece_items := (no_piece_items d)[i := True]\<rparr>; ch2 = ch1\<lparr>bc_dep := NewOrderDep d1\<rparr>
                  in if length (no_piece_items d) \<le> i \<or> length (no_piece_stocks d) \<le> i then Inl OutOfRange
                     else if no_piece_0_dist d \<and> no_piece_stocks d ! i then rbind (set_status (pi + 3) 0 ch2) (\<lambda>ch3. Inr (True, ch3))
                     else Inr (False, ch2)))))))
          else if 5 \<le> pi \<and> pi mod 4 = 2
          then rbind (at outp 0) (\<lambda>v. rbind (set_input (pi + 2) 9 v ch)
               (\<lambda>ch1. let i = (pi - 6) div 4; d1 = d\<lparr>no_piece_stocks := (no_piece_stocks d)[i := True]\<rparr>; ch2 = ch1\<lparr>bc_dep := NewOrderDep d1\<rparr>
                  in if length (no_piece_items d) \<le> i \<or> length (no_piece_stocks d) \<le> i then Inl OutOfRange
                     else if no_piece_0_dist d \<and> no_piece_items d ! i then rbind (set_status (pi + 2) 0 ch2) (\<lambda>ch3. Inr (True, ch3))
                     else Inr (False, ch2)))
          else Inr (False, ch))"

definition new_order_retry :: "bench_chopper \<Rightarrow> bench_chopper res" where
  "new_order_retry ch =
     rbind (new_order_of ch)
       (\<lambda>d. let n = no_ol_cnt d in
          if length (ch_status ch) < 5 + 4 * n \<or> length (no_piece_items d) < n \<or> length (no_piece_stocks d) < n then Inl OutOfRange
          else Inr (ch\<lparr>ch_status := overwrite 0 ([0, 0, 0, -1, -1] @ concat (replicate n [0, 0, 0, -1])) (ch_status ch),
                 bc_dep := NewOrderDep (d\<lparr>no_piece_0_dist := False, no_piece_items := overwrite 0 (replicate n False) (no_piece_items d),
                   no_piece_stocks := overwrite 0 (replicate n False) (no_piece_stocks d)\<rparr>)\<rparr>))"

section \<open>Payment\<close>

definition payment_init :: "sharding option \<Rightarrow> tpcc_class \<Rightarrow> txn_request \<Rightarrow> bench_chopper \<Rightarrow> bench_chopper res" where
  "payment_init sh cl rq ch =
     (let inp = rq_input rq in
      rbind (at inp 0) (\<lambda>w. rbind (at inp 1) (\<lambda>d. rbind (at inp 2) (\<lambda>c. rbind (at inp 3) (\<lambda>cw. rbind (at inp 4) (\<lambda>cd. rbind (at inp 5) (\<lambda>amt. rbind (at inp 6) (\<lambda>hk.
      let by_name = (get_kind c = K_STR) in
      rbind (placed_piece sh cl (tc_payment cl TPCC_TB_WAREHOUSE inp) (mk_piece [w, amt] 6 200 0)) (\<lambda>p0.
      rbind (placed_piece sh cl (tc_payment cl TPCC_TB_DISTRICT inp) (mk_piece [w, d] 6 201 0)) (\<lambda>p1.
      rbind (placed_piece sh cl (tc_payment cl TPCC_TB_DISTRICT inp) (mk_piece [w, d, amt] 0 202 0)) (\<lambda>p2.
      rbind (if by_name then placed_piece sh cl (tc_payment cl TPCC_TB_CUSTOMER inp) (mk_piece [c, cw, cd] 1 203 0) else Inr (mk_piece [] 0 0 2 0)) (\<lambda>p3.
      rbind (placed_piece sh cl (tc_payment cl TPCC_TB_CUSTOMER inp) (mk_piece [c, cw, cd, amt, w, d] 15 204 (if by_name then -1 else 0))) (\<lambda>p4.
      rbind (placed_piece sh cl (tc_payment cl TPCC_TB_HISTORY inp) (mk_piece [hk, UNKNOWN, UNKNOWN, w, d, c, cw, cd, amt] 0 205 (-1))) (\<lambda>p5.
      Inr ((set_pieces [p0, p1, p2, p3, p4, p5] ch)\<lparr>ch_n_started := (if by_name then ch_n_started ch else 1), bc_dep := PaymentDep
        \<lparr>pa_piece_warehouse = False, pa_piece_district = False, pa_piece_last2id = (\<not> by_name), pa_piece_ori_last2id = (\<not> by_name)\<rparr>\<rparr>)))))))))))))))"

definition payment_of :: "bench_chopper \<Rightarrow> payment_dep res" where
  "payment_of ch = (case bc_dep ch of PaymentDep d \<Rightarrow> Inr d | _ \<Rightarrow> Inl BadPointer)"

definition payment_callback :: "nat \<Rightarrow> mvalue list \<Rightarrow> bench_chopper \<Rightarrow> (bool \<times> bench_chopper) res" where
  "payment_callback pi outp ch =
     rbind (payment_of ch)
       (\<lambda>d. if pi = 0
          then verify (\<not> pa_piece_warehouse d \<and> length outp = 6)
            (rbind (set_input 5 1 (outp ! 0) (ch\<lparr>bc_dep := PaymentDep (d\<lparr>pa_piece_warehouse := True\<rparr>)\<rparr>))
              (\<lambda>ch1. if pa_piece_district d \<and> pa_piece_last2id d then rbind (set_status 5 0 ch1) (\<lambda>ch2. Inr (True, ch2)) else Inr (False, ch1)))
          else if pi = 1
          then verify (\<not> pa_piece_district d \<and> length outp = 6)
            (rbind (set_input 5 2 (outp ! 0) (ch\<lparr>bc_dep := PaymentDep (d\<lparr>pa_piece_district := True\<rparr>)\<rparr>))
              (\<lambda>ch1. if pa_piece_warehouse d \<and> pa_piece_last2id d then rbind (set_status 5 0 ch1) (\<lambda>ch2. Inr (True, ch2)) else Inr (False, ch1)))
          else if pi = 2 then Inr (False, ch)
          else if pi = 3
          then verify (\<not> pa_piece_last2id d \<and> length outp = 1)
            (rbind (set_input 4 0 (outp ! 0) (ch\<lparr>bc_dep := PaymentDep (d\<lparr>pa_piece_last2id := True\<rparr>)\<rparr>))
              (\<lambda>ch1. rbind (set_status 4 0 ch1) (\<lambda>ch2. rbind (set_input 5 5 (outp ! 0) ch2)
                (\<lambda>ch3. rbind (if pa_piece_warehouse d \<and> pa_piece_district d then set_status 5 0 ch3 else Inr ch3) (\<lambda>ch4. Inr (True, ch4))))))
          else if pi = 4
          then verify (length outp = 15)
            (if pa_piece_ori_last2id d then Inr (False, ch)
             else rbind (get_str (outp ! 3)) (\<lambda>a. rbind (at (ch_inputs ch) 3) (\<lambda>inp3. rbind (at inp3 0) (\<lambda>x. rbind (get_str x) (\<lambda>b. verify (a = b) (Inr (False, ch)))))))
          else if pi = 5 then Inr (False, ch)
          else Inl VerifyFailed)"

definition payment_retry :: "bench_chopper \<Rightarrow> bench_chopper res" where
  "payment_retry ch =
     rbind (payment_of ch)
       (\<lambda>d. if length (ch_status ch) < 6 then Inl OutOfRange
          else Inr (ch\<lparr>ch_status := overwrite 0 (if pa_piece_ori_last2id d then [0, 0, 0, 2, 0, -1] else [0, 0, 0, 0, -1, -1]) (ch_status ch),
                 ch_n_started := (if pa_piece_ori_last2id d then 1 else ch_n_started ch),
                 bc_dep := PaymentDep (d\<lparr>pa_piece_warehouse := False, pa_piece_district := False, pa_piece_last2id := pa_piece_ori_last2id d\<rparr>)\<rparr>))"

section \<open>Order status\<close>

definition order_status_init :: "sharding option \<Rightarrow> tpcc_class \<Rightarrow> txn_request \<Rightarrow> bench_chopper \<Rightarrow> bench_chopper res" where
  "order_status_init sh cl rq ch =
     (let inp = rq_input rq in
      rbind (at inp 0) (\<lambda>w. rbind (at inp 1) (\<lambda>d. rbind (at inp 2) (\<lambda>c.
      let by_id = (get_kind c = K_I32) in
      rbind (if by_id then Inr (mk_piece [] 0 0 2 0) else placed_piece sh cl (tc_order_status cl TPCC_TB_CUSTOMER inp) (mk_piece [c, w, d] 1 300 0)) (\<lambda>p0.
      rbind (placed_piece sh cl (tc_order_status cl TPCC_TB_CUSTOMER inp) (mk_piece [w, d, c] 4 301 (if by_id then 0 else -1))) (\<lambda>p1.
      rbind (placed_piece sh cl (tc_order_status cl TPCC_TB_ORDER inp) (mk_piece [w, d, c] 3 302 (if by_id then 0 else -1))) (\<lambda>p2.
      rbind (placed_piece sh cl (tc_order_status cl TPCC_TB_ORDER_LINE inp) (mk_piece [w, d, UNKNOWN] (15 * 5) 303 (-1))) (\<lambda>p3.
      Inr ((set_pieces [p0, p1, p2, p3] ch)\<lparr>ch_n_started := (if by_id then 1 else ch_n_started ch), bc_dep := OrderStatusDep
        \<lparr>os_piece_last2id = by_id, os_piece_ori_last2id = by_id, os_piece_order = False\<rparr>\<rparr>)))))))))"

definition order_status_of :: "bench_chopper \<Rightarrow> order_status_dep res" where
  "order_status_of ch = (case bc_dep ch of OrderStatusDep d \<Rightarrow> Inr d | _ \<Rightarrow> Inl BadPointer)"

definition order_status_callback :: "nat \<Rightarrow> mvalue list \<Rightarrow> bench_chopper \<Rightarrow> (bool \<times> bench_chopper) res" where
  "order_status_callback pi outp ch =
     rbind (order_status_of ch)
       (\<lambda>d. if pi = 0
          then verify (\<not> os_piece_last2id d)
            (rbind (at outp 0) (\<lambda>v. rbind (set_input 1 2 v (ch\<lparr>bc_dep := OrderStatusDep (d\<lparr>os_piece_last2id := True\<rparr>)\<rparr>)) (\<lambda>ch1. rbind (set_status 1 0 ch1)
              (\<lambda>ch2. rbind (set_input 2 2 v ch2) (\<lambda>ch3. rbind (set_status 2 0 ch3) (\<lambda>ch4. Inr (True, ch4)))))))
          else if pi = 1 then Inr (False, ch)
          else if pi = 2
          then verify (length outp = 3 \<and> \<not> os_piece_order d)
            (rbind (set_input 3 2 (outp ! 0) (ch\<lparr>bc_dep := OrderStatusDep (d\<lparr>os_piece_order := True\<rparr>)\<rparr>))
              (\<lambda>ch1. rbind (set_status 3 0 ch1) (\<lambda>ch2. Inr (True, ch2))))
          else if pi = 3 then Inr (False, ch)
          else Inl VerifyFailed)"

definition order_status_retry :: "bench_chopper \<Rightarrow> bench_chopper res" where
  "order_status_retry ch =
     rbind (order_status_of ch)
       (\<lambda>d. if length (ch_status ch) < 4 then Inl OutOfRange
          else Inr (ch\<lparr>ch_status := overwrite 0 (if os_piece_ori_last2id d then [2, 0, 0, -1] else [0, -1, -1, -1]) (ch_status ch),
                 ch_n_started := (if os_piece_ori_last2id d then 1 else ch_n_started ch),
                 bc_dep := OrderStatusDep (d\<lparr>os_piece_last2id := os_piece_ori_last2id d, os_piece_order := False\<rparr>)\<rparr>))"

section \<open>Delivery\<close>

definition delivery_init :: "sharding option \<Rightarrow> tpcc_class \<Rightarrow> txn_request \<Rightarrow> bench_chopper \<Rightarrow> bench_chopper res" where
  "delivery_init sh cl rq ch =
     (let inp = rq_input rq in
      rbind (at inp 0) (\<lambda>w. rbind (at inp 1) (\<lambda>carrier. rbind (at inp 2) (\<lambda>d. rbind (get_i32 d) (\<lambda>d_id.
      rbind (placed_piece sh cl (tc_delivery cl TPCC_TB_NEW_ORDER inp d_id) (mk_piece [w, d] 1 400 0)) (\<lambda>p0.
      rbind (placed_piece sh cl (tc_delivery cl TPCC_TB_ORDER inp d_id) (mk_piece [UNKNOWN, w, d, carrier] 1 401 (-1))) (\<lambda>p1.
      rbind (placed_piece sh cl (tc_delivery cl TPCC_TB_ORDER_LINE inp d_id) (mk_piece [UNKNOWN, w, d] 1 402 (-1))) (\<lambda>p2.
      rbind (placed_piece sh cl (tc_delivery cl TPCC_TB_CUSTOMER inp d_id) (mk_piece [UNKNOWN, w, d, UNKNOWN] 0 403 (-1))) (\<lambda>p3.
      Inr ((set_pieces [p0, p1, p2, p3] ch)\<lparr>bc_dep := DeliveryDep
        \<lparr>de_piece_new_orders = False, de_piece_orders = False, de_piece_order_lines = False\<rparr>\<rparr>))))))))))"

definition delivery_of :: "bench_chopper \<Rightarrow> delivery_dep res" where
  "delivery_of ch = (case bc_dep ch of DeliveryDep d \<Rightarrow> Inr d | _ \<Rightarrow> Inl BadPointer)"

text \<open>The message that there is no order reads two inputs.\<close>

definition log_no_order :: "bench_chopper \<Rightarrow> unit res" where
  "log_no_order ch =
     rbind (at (ch_inputs ch) 0) (\<lambda>inp. rbind (at inp 0) (\<lambda>w. rbind (get_i32 w) (\<lambda>_. rbind (at inp 1) (\<lambda>d. rbind (get_i32 d) (\<lambda>_. Inr ())))))"

definition delivery_callback :: "nat \<Rightarrow> mvalue list \<Rightarrow> bench_chopper \<Rightarrow> (bool \<times> bench_chopper) res" where
  "delivery_callback pi outp ch =
     rbind (delivery_of ch)
       (\<lambda>d. if pi = 0
          then verify (length outp = 1 \<and> \<not> de_piece_new_orders d)
            (rbind (get_i32 (outp ! 0)) (\<lambda>o_id. if o_id = -1
               then rbind (set_status 1 2 ch) (\<lambda>ch1. rbind (set_status 2 2 ch1) (\<lambda>ch2. rbind (set_status 3 2 ch2)
                 (\<lambda>ch3. rbind (log_no_order ch3) (\<lambda>_. Inr (False, ch3\<lparr>ch_n_started := ch_n_started ch3 + 3\<rparr>)))))
               else rbind (set_input 1 0 (outp ! 0) ch) (\<lambda>ch1. rbind (set_input 2 0 (outp ! 0) ch1) (\<lambda>ch2. rbind (set_status 1 0 ch2)
                 (\<lambda>ch3. rbind (set_status 2 0 ch3) (\<lambda>ch4. Inr (True, ch4\<lparr>bc_dep := DeliveryDep (d\<lparr>de_piece_new_orders := True\<rparr>)\<rparr>)))))))
          else if pi = 1
          then verify (length outp = 1)
            (rbind (set_input 3 0 (outp ! 0) (ch\<lparr>bc_dep := DeliveryDep (d\<lparr>de_piece_orders := True\<rparr>)\<rparr>))
              (\<lambda>ch1. if de_piece_order_lines d then rbind (set_status 3 0 ch1) (\<lambda>ch2. Inr (True, ch2)) else Inr (False, ch1)))
          else if pi = 2
          then verify (length outp = 1)
            (rbind (set_input 3 3 (outp ! 0) (ch\<lparr>bc_dep := DeliveryDep (d\<lparr>de_piece_order_lines := True\<rparr>)\<rparr>))
              (\<lambda>ch1. if de_piece_orders d then rbind (set_status 3 0 ch1) (\<lambda>ch2. Inr (True, ch2)) else Inr (False, ch1)))
          else if pi = 3 then Inr (False, ch)
          else Inl VerifyFailed)"

definition delivery_retry :: "bench_chopper \<Rightarrow> bench_chopper res" where
  "delivery_retry ch =
     rbind (delivery_of ch)
       (\<lambda>d. if length (ch_status ch) < 4 then Inl OutOfRange
          else Inr (ch\<lparr>ch_status := overwrite 0 [0, -1, -1, -1] (ch_status ch),
                 bc_dep := DeliveryDep \<lparr>de_piece_new_orders = False, de_piece_orders = False, de_piece_order_lines = False\<rparr>\<rparr>))"

section \<open>Stock level\<close>

definition stock_level_init :: "sharding option \<Rightarrow> tpcc_class \<Rightarrow> txn_request \<Rightarrow> bench_chopper \<Rightarrow> bench_chopper res" where
  "stock_level_init sh cl rq ch =
     (let inp = rq_input rq in
      rbind (at inp 0) (\<lambda>w. rbind (at inp 1) (\<lambda>d. rbind (at inp 2) (\<lambda>th. rbind (get_i32 w) (\<lambda>w_id. rbind (get_i32 th) (\<lambda>threshold.
      rbind (placed_piece sh cl (tc_stock_level cl TPCC_TB_DISTRICT inp) (mk_piece [w, d] 1 500 0)) (\<lambda>p0.
      rbind (placed_piece sh cl (tc_stock_level cl TPCC_TB_ORDER_LINE inp) (mk_piece [UNKNOWN, w, d] (20 * 15) 501 (-1))) (\<lambda>p1.
      Inr ((set_pieces [p0, p1] ch)\<lparr>bc_dep := StockLevelDep \<lparr>sl_threshold = threshold, sl_w_id = w_id\<rparr>\<rparr>)))))))))"

definition stock_level_of :: "bench_chopper \<Rightarrow> stock_level_dep res" where
  "stock_level_of ch = (case bc_dep ch of StockLevelDep d \<Rightarrow> Inr d | _ \<Rightarrow> Inl BadPointer)"

text \<open>A piece for each item of the answer, behind the first two.\<close>

definition stock_piece :: "sharding option \<Rightarrow> tpcc_class \<Rightarrow> stock_level_dep \<Rightarrow> i32 \<Rightarrow> piece_spec res" where
  "stock_piece sh cl d i =
     (let inp = [I32 i, I32 (sl_w_id d), I32 (sl_threshold d)] in placed_piece sh cl (tc_stock_level cl TPCC_TB_STOCK inp) (mk_piece inp 1 502 0))"

definition add_pieces :: "piece_spec list \<Rightarrow> bench_chopper \<Rightarrow> bench_chopper" where
  "add_pieces ps ch =
     (let n = nat (ch_n_pieces ch) + length ps in
      ch\<lparr>ch_n_pieces := int n, ch_inputs := overwrite 2 (map ps_input ps) (resize n [] (ch_inputs ch)),
         ch_output_size := overwrite 2 (map ps_output_size ps) (resize n 0 (ch_output_size ch)),
         ch_p_types := overwrite 2 (map ps_p_type ps) (resize n 0 (ch_p_types ch)),
         ch_sharding := overwrite 2 (map ps_site ps) (resize n 0 (ch_sharding ch)),
         ch_status := overwrite 2 (map ps_status ps) (resize n 0 (ch_status ch))\<rparr>)"

definition stock_level_callback ::
    "(i32 list \<Rightarrow> i32 list) \<Rightarrow> sharding option \<Rightarrow> tpcc_class \<Rightarrow> nat \<Rightarrow> mvalue list \<Rightarrow> bench_chopper \<Rightarrow> (bool \<times> bench_chopper) res" where
  "stock_level_callback iord sh cl pi outp ch =
     rbind (stock_level_of ch)
       (\<lambda>d. if pi = 0
          then verify (length outp = 1) (rbind (set_input 1 0 (outp ! 0) ch) (\<lambda>ch1. rbind (set_status 1 0 ch1) (\<lambda>ch2. Inr (True, ch2))))
          else if pi = 1
          then verify (length outp \<le> 20 * 15)
            (rbind (rmap get_i32 outp) (\<lambda>ids. rbind (rmap (stock_piece sh cl d) (iord (remdups ids))) (\<lambda>ps. Inr (True, add_pieces ps ch))))
          else Inr (False, ch))"

definition stock_level_retry :: "bench_chopper \<Rightarrow> bench_chopper res" where
  "stock_level_retry ch =
     Inr (ch\<lparr>ch_n_pieces := 2, ch_inputs := resize 2 [] (ch_inputs ch), ch_output_size := resize 2 0 (ch_output_size ch),
             ch_p_types := resize 2 0 (ch_p_types ch), ch_sharding := resize 2 0 (ch_sharding ch), ch_status := [0, -1]\<rparr>)"

section \<open>The class\<close>

definition tpcc_init :: "sharding option \<Rightarrow> tpcc_class \<Rightarrow> txn_request \<Rightarrow> bench_chopper \<Rightarrow> bench_chopper res" where
  "tpcc_init sh cl rq ch0 =
     (let ch = begin_init rq ch0; t = rq_txn_type rq in
      if t = TPCC_NEW_ORDER then new_order_init sh cl rq ch
      else if t = TPCC_PAYMENT then payment_init sh cl rq ch
      else if t = TPCC_ORDER_STATUS then order_status_init sh cl rq ch
      else if t = TPCC_DELIVERY then delivery_init sh cl rq ch
      else if t = TPCC_STOCK_LEVEL then stock_level_init sh cl rq ch
      else Inl VerifyFailed)"

definition tpcc_start_callback ::
    "(64 word \<Rightarrow> i32 \<Rightarrow> 64 word) \<Rightarrow> (i32 list \<Rightarrow> i32 list) \<Rightarrow> sharding option \<Rightarrow> tpcc_class \<Rightarrow>
      nat \<Rightarrow> int \<Rightarrow> mvalue list \<Rightarrow> bench_chopper \<Rightarrow> (bool \<times> bench_chopper) res" where
  "tpcc_start_callback mul iord sh cl pi res outp ch =
     (let t = ch_txn_type ch in
      if t = TPCC_NEW_ORDER then new_order_callback mul pi outp ch
      else if t = TPCC_PAYMENT then payment_callback pi outp ch
      else if t = TPCC_ORDER_STATUS then order_status_callback pi outp ch
      else if t = TPCC_DELIVERY then delivery_callback pi outp ch
      else if t = TPCC_STOCK_LEVEL then stock_level_callback iord sh cl pi outp ch
      else Inl VerifyFailed)"

definition tpcc_retry :: "bench_chopper \<Rightarrow> bench_chopper res" where
  "tpcc_retry ch0 =
     (let ch = clear_counts ch0; t = ch_txn_type ch in
      if t = TPCC_NEW_ORDER then new_order_retry ch
      else if t = TPCC_PAYMENT then payment_retry ch
      else if t = TPCC_ORDER_STATUS then order_status_retry ch
      else if t = TPCC_DELIVERY then delivery_retry ch
      else if t = TPCC_STOCK_LEVEL then stock_level_retry ch
      else Inl VerifyFailed)"

definition tpcc_is_read_only :: "bench_chopper \<Rightarrow> bool res" where
  "tpcc_is_read_only ch =
     (let t = ch_txn_type ch in
      if t = TPCC_NEW_ORDER \<or> t = TPCC_PAYMENT \<or> t = TPCC_DELIVERY then Inr False
      else if t = TPCC_ORDER_STATUS \<or> t = TPCC_STOCK_LEVEL then Inr True
      else Inl VerifyFailed)"

definition tpcc_vt :: "(64 word \<Rightarrow> i32 \<Rightarrow> 64 word) \<Rightarrow> (i32 list \<Rightarrow> i32 list) \<Rightarrow> sharding option \<Rightarrow> tpcc_class \<Rightarrow> bench_chopper chop_vt" where
  "tpcc_vt mul iord sh cl = \<lparr>vt_start_callback = tpcc_start_callback mul iord sh cl, vt_is_read_only = tpcc_is_read_only, vt_retry = tpcc_retry\<rparr>"

end
