(* ===== verification/Tpcc_Contract.thy ===== *)
theory Tpcc_Contract
  imports Tpcc_Chopper
begin

text \<open>
  The transactions of TPC-C keep the contract of a class of transactions: what their flags say about the
  pieces that have been answered, and that a piece becomes ready only while it is waiting.
\<close>

section \<open>Small steps\<close>

definition grow :: "bench_chopper \<Rightarrow> bench_chopper \<Rightarrow> bool" where
  "grow ch ch' \<longleftrightarrow> counters ch' = counters ch \<and> slack ch' = slack ch \<and> ones ch \<subseteq> ones ch'"

lemma grow_refl [simp]: "grow ch ch"
  by (simp add: grow_def)

lemma grow_trans: "grow ch ch1 \<Longrightarrow> grow ch1 ch2 \<Longrightarrow> grow ch ch2"
  by (auto simp: grow_def)

lemma grow_dep [simp]: "grow ch (ch\<lparr>bc_dep := d\<rparr>)"
  by (simp add: grow_def counters_def slack_def ones_def)

lemma set_input_grow:
  assumes "set_input i j v ch = Inr ch'"
  shows "grow ch ch' \<and> ch_status ch' = ch_status ch \<and> ch_n_pieces ch' = ch_n_pieces ch \<and> ch_txn_type ch' = ch_txn_type ch \<and> bc_dep ch' = bc_dep ch"
  using assms by (auto simp: set_input_def grow_def counters_def slack_def ones_def split: if_splits)

text \<open>A waiting piece becomes ready.\<close>

lemma filter_update_same:
  assumes "i < length xs" "P (xs ! i) = P y"
  shows "length (filter P (xs[i := y])) = length (filter P xs)"
proof -
  have xs: "xs = take i xs @ xs ! i # drop (Suc i) xs" by (rule id_take_nth_drop [OF assms(1)])
  have "length (filter P xs) = length (filter P (take i xs)) + (if P (xs ! i) then 1 else 0) + length (filter P (drop (Suc i) xs))"
    by (subst xs) simp
  then show ?thesis using assms by (simp add: upd_conv_take_nth_drop)
qed

lemma set_ready_grow:
  assumes "set_status i 0 ch = Inr ch'" "ch_status ch ! i = -1"
  shows "grow ch ch' \<and> i < length (ch_status ch) \<and> ch_status ch' = (ch_status ch)[i := 0] \<and> ch_n_pieces ch' = ch_n_pieces ch \<and>
    ch_txn_type ch' = ch_txn_type ch \<and> bc_dep ch' = bc_dep ch \<and> ch_inputs ch' = ch_inputs ch"
proof -
  have i: "i < length (ch_status ch)" "ch' = ch\<lparr>ch_status := (ch_status ch)[i := 0]\<rparr>" using assms(1) by (auto simp: set_status_def split: if_splits)
  have "length (filter (\<lambda>x. x \<noteq> 1 \<and> x \<noteq> (2::int)) ((ch_status ch)[i := 0])) = length (filter (\<lambda>x. x \<noteq> 1 \<and> x \<noteq> 2) (ch_status ch))"
    by (rule filter_update_same [OF i(1)]) (simp add: assms(2))
  moreover have "ones ch \<subseteq> ones ch'" using assms(2) i(1) by (auto simp: ones_def i(2) nth_list_update)
  ultimately show ?thesis using i by (simp add: grow_def counters_def slack_def)
qed

lemma set_input_dep: "set_input i j v ch = Inr ch1 \<Longrightarrow> set_input i j v (ch\<lparr>bc_dep := x\<rparr>) = Inr (ch1\<lparr>bc_dep := x\<rparr>)"
  by (auto simp: set_input_def split: if_splits)

text \<open>An input is filled in, and if it was the last one the piece becomes ready.\<close>

lemma fill_then_ready:
  assumes ch1: "set_input i j v (ch\<lparr>bc_dep := dep\<rparr>) = Inr ch1"
    and rest: "(if r then rbind (set_status k 0 ch1) (\<lambda>ch2. Inr (True, ch2)) else Inr (False, ch1)) = Inr (b, ch')"
    and w: "r \<Longrightarrow> ch_status ch ! k = -1"
  shows "grow ch ch' \<and> bc_dep ch' = dep \<and> ch_n_pieces ch' = ch_n_pieces ch \<and> ch_txn_type ch' = ch_txn_type ch \<and>
    ch_status ch' = (if r then (ch_status ch)[k := 0] else ch_status ch)"
proof -
  note i = set_input_grow [OF ch1]
  have g: "grow ch ch1" using grow_trans [OF grow_dep [of ch dep]] i by blast
  show ?thesis
  proof (cases r)
    case True
    then have st: "set_status k 0 ch1 = Inr ch'" using rest by auto
    have "ch_status ch1 ! k = -1" using i w True by simp
    note s = set_ready_grow [OF st this]
    then have "grow ch ch'" using grow_trans [OF g] by blast
    then show ?thesis using i s True by simp
  next
    case False
    then show ?thesis using rest i g by simp
  qed
qed

section \<open>Payment, order status, delivery\<close>

definition payment_inv :: "nat set \<Rightarrow> bench_chopper \<Rightarrow> bool" where
  "payment_inv D ch \<longleftrightarrow> (\<exists>d. bc_dep ch = PaymentDep d \<and> length (ch_status ch) = 6 \<and> ch_n_pieces ch = 6 \<and>
     pa_piece_warehouse d = (0 \<in> D) \<and> pa_piece_district d = (1 \<in> D) \<and> pa_piece_last2id d = (pa_piece_ori_last2id d \<or> 3 \<in> D) \<and>
     (pa_piece_last2id d \<or> ch_status ch ! 4 = -1) \<and>
     (pa_piece_warehouse d \<and> pa_piece_district d \<and> pa_piece_last2id d \<or> ch_status ch ! 5 = -1))"

lemma payment_callback_ok:
  assumes cb: "payment_callback pi outp ch = Inr (b, ch')" and inv: "payment_inv D ch" and pi: "pi \<notin> D" "pi \<in> ones ch"
  shows "payment_inv (insert pi D) ch' \<and> grow ch ch' \<and> ch_txn_type ch' = ch_txn_type ch"
proof -
  from inv obtain d where d: "bc_dep ch = PaymentDep d" "length (ch_status ch) = 6" "ch_n_pieces ch = 6"
    "pa_piece_warehouse d = (0 \<in> D)" "pa_piece_district d = (1 \<in> D)" "pa_piece_last2id d = (pa_piece_ori_last2id d \<or> 3 \<in> D)"
    "pa_piece_last2id d \<or> ch_status ch ! 4 = -1" "pa_piece_warehouse d \<and> pa_piece_district d \<and> pa_piece_last2id d \<or> ch_status ch ! 5 = -1"
    by (auto simp: payment_inv_def)
  have dep: "payment_of ch = Inr d" by (simp add: payment_of_def d(1))
  consider "pi = 0" | "pi = 1" | "pi = 3" | "pi \<in> {2, 4, 5}" using cb by (auto simp: payment_callback_def dep split: if_splits)
  then show ?thesis
  proof cases
    case 1
    from cb 1 obtain ch1 where ch1: "set_input 5 1 (outp ! 0) (ch\<lparr>bc_dep := PaymentDep (d\<lparr>pa_piece_warehouse := True\<rparr>)\<rparr>) = Inr ch1"
      and nw: "\<not> pa_piece_warehouse d"
      and rest: "(if pa_piece_district d \<and> pa_piece_last2id d then rbind (set_status 5 0 ch1) (\<lambda>ch2. Inr (True, ch2)) else Inr (False, ch1)) = Inr (b, ch')"
      by (auto simp: payment_callback_def dep)
    note f = fill_then_ready [OF ch1 rest]
    show ?thesis using f d 1 nw by (auto simp: payment_inv_def)
  next
    case 2
    from cb 2 obtain ch1 where ch1: "set_input 5 2 (outp ! 0) (ch\<lparr>bc_dep := PaymentDep (d\<lparr>pa_piece_district := True\<rparr>)\<rparr>) = Inr ch1"
      and nw: "\<not> pa_piece_district d"
      and rest: "(if pa_piece_warehouse d \<and> pa_piece_last2id d then rbind (set_status 5 0 ch1) (\<lambda>ch2. Inr (True, ch2)) else Inr (False, ch1)) = Inr (b, ch')"
      by (auto simp: payment_callback_def dep)
    note f = fill_then_ready [OF ch1 rest]
    show ?thesis using f d 2 nw by (auto simp: payment_inv_def)
  next
    case 3
    let ?ch = "ch\<lparr>bc_dep := PaymentDep (d\<lparr>pa_piece_last2id := True\<rparr>)\<rparr>"
    from cb 3 obtain ch1 ch2 ch3 where nl: "\<not> pa_piece_last2id d" and ch1: "set_input 4 0 (outp ! 0) ?ch = Inr ch1" and ch2: "set_status 4 0 ch1 = Inr ch2"
      and ch3: "set_input 5 5 (outp ! 0) ch2 = Inr ch3" and ch4: "(if pa_piece_warehouse d \<and> pa_piece_district d then set_status 5 0 ch3 else Inr ch3) = Inr ch'"
      by (auto simp: payment_callback_def dep)
    note i1 = set_input_grow [OF ch1] and i3 = set_input_grow [OF ch3]
    have s4: "ch_status ch1 ! 4 = -1" using i1 d(7) nl by simp
    note i2 = set_ready_grow [OF ch2 s4]
    have g: "grow ch ch3" by (rule grow_trans [OF grow_dep grow_trans [OF _ grow_trans]]) (use i1 i2 i3 in blast)+
    show ?thesis
    proof (cases "pa_piece_warehouse d \<and> pa_piece_district d")
      case True
      then have st: "set_status 5 0 ch3 = Inr ch'" using ch4 by simp
      have "ch_status ch3 ! 5 = -1" using i1 i2 i3 d(8) nl by simp
      note i4 = set_ready_grow [OF st this]
      show ?thesis using i1 i2 i3 i4 d 3 True grow_trans [OF g] by (auto simp: payment_inv_def)
    next
      case False
      then have "ch' = ch3" using ch4 by (auto split: if_splits)
      then show ?thesis using i1 i2 i3 d 3 False nl g by (auto simp: payment_inv_def)
    qed
  next
    case 4
    then have "ch' = ch" using cb by (auto simp: payment_callback_def dep split: if_splits)
    then show ?thesis using inv 4 by (auto simp: payment_inv_def)
  qed
qed

definition order_status_inv :: "nat set \<Rightarrow> bench_chopper \<Rightarrow> bool" where
  "order_status_inv D ch \<longleftrightarrow> (\<exists>d. bc_dep ch = OrderStatusDep d \<and> length (ch_status ch) = 4 \<and> ch_n_pieces ch = 4 \<and>
     os_piece_last2id d = (os_piece_ori_last2id d \<or> 0 \<in> D) \<and> os_piece_order d = (2 \<in> D) \<and>
     (os_piece_last2id d \<or> ch_status ch ! 1 = -1 \<and> ch_status ch ! 2 = -1) \<and> (os_piece_order d \<or> ch_status ch ! 3 = -1))"

lemma order_status_callback_ok:
  assumes cb: "order_status_callback pi outp ch = Inr (b, ch')" and inv: "order_status_inv D ch" and pi: "pi \<notin> D" "pi \<in> ones ch"
  shows "order_status_inv (insert pi D) ch' \<and> grow ch ch' \<and> ch_txn_type ch' = ch_txn_type ch"
proof -
  from inv obtain d where d: "bc_dep ch = OrderStatusDep d" "length (ch_status ch) = 4" "ch_n_pieces ch = 4"
    "os_piece_last2id d = (os_piece_ori_last2id d \<or> 0 \<in> D)" "os_piece_order d = (2 \<in> D)"
    "os_piece_last2id d \<or> ch_status ch ! 1 = -1 \<and> ch_status ch ! 2 = -1" "os_piece_order d \<or> ch_status ch ! 3 = -1"
    by (auto simp: order_status_inv_def)
  have dep: "order_status_of ch = Inr d" by (simp add: order_status_of_def d(1))
  consider "pi = 0" | "pi = 2" | "pi \<in> {1, 3}" using cb by (auto simp: order_status_callback_def dep split: if_splits)
  then show ?thesis
  proof cases
    case 1
    let ?ch = "ch\<lparr>bc_dep := OrderStatusDep (d\<lparr>os_piece_last2id := True\<rparr>)\<rparr>"
    from cb 1 obtain v ch1 ch2 ch3 where nl: "\<not> os_piece_last2id d" and ch1: "set_input 1 2 v ?ch = Inr ch1" and ch2: "set_status 1 0 ch1 = Inr ch2"
      and ch3: "set_input 2 2 v ch2 = Inr ch3" and ch4: "set_status 2 0 ch3 = Inr ch'"
      by (auto simp: order_status_callback_def dep)
    note i1 = set_input_grow [OF ch1] and i3 = set_input_grow [OF ch3]
    have "ch_status ch1 ! 1 = -1" using i1 d(6) nl by simp
    note i2 = set_ready_grow [OF ch2 this]
    have "ch_status ch3 ! 2 = -1" using i1 i2 i3 d(6) nl by simp
    note i4 = set_ready_grow [OF ch4 this]
    have "grow ch ch'" by (rule grow_trans [OF grow_dep grow_trans [OF _ grow_trans [OF _ grow_trans]]]) (use i1 i2 i3 i4 in blast)+
    then show ?thesis using i1 i2 i3 i4 d 1 by (auto simp: order_status_inv_def)
  next
    case 2
    from cb 2 obtain ch1 where no: "\<not> os_piece_order d"
      and ch1: "set_input 3 2 (outp ! 0) (ch\<lparr>bc_dep := OrderStatusDep (d\<lparr>os_piece_order := True\<rparr>)\<rparr>) = Inr ch1"
      and rest: "(if True then rbind (set_status 3 0 ch1) (\<lambda>ch2. Inr (True, ch2)) else Inr (False, ch1)) = Inr (b, ch')"
      by (auto simp: order_status_callback_def dep)
    note f = fill_then_ready [OF ch1 rest]
    show ?thesis using f d 2 no pi by (auto simp: order_status_inv_def ones_def)
  next
    case 3
    then have "ch' = ch" using cb by (auto simp: order_status_callback_def dep)
    then show ?thesis using inv 3 by (auto simp: order_status_inv_def)
  qed
qed

text \<open>If there is no order to deliver, the last three pieces are finished at once.\<close>

definition delivery_inv :: "nat set \<Rightarrow> bench_chopper \<Rightarrow> bool" where
  "delivery_inv D ch \<longleftrightarrow> (\<exists>d. bc_dep ch = DeliveryDep d \<and> length (ch_status ch) = 4 \<and> ch_n_pieces ch = 4 \<and>
     (0 \<in> D \<or> ch_status ch ! 1 = -1 \<and> ch_status ch ! 2 = -1 \<and> ch_status ch ! 3 = -1) \<and>
     (ch_status ch ! 1 = 2 \<and> ch_status ch ! 2 = 2 \<or>
      de_piece_orders d = (1 \<in> D) \<and> de_piece_order_lines d = (2 \<in> D) \<and> (1 \<in> D \<and> 2 \<in> D \<or> ch_status ch ! 3 = -1)))"

lemma skip_three:
  assumes c: "set_status 1 2 ch = Inr ch1" "set_status 2 2 ch1 = Inr ch2" "set_status 3 2 ch2 = Inr ch3" and len: "length (ch_status ch) = 4"
    and w: "ch_status ch ! 1 = -1" "ch_status ch ! 2 = -1" "ch_status ch ! 3 = -1"
  shows "grow ch (ch3\<lparr>ch_n_started := ch_n_started ch3 + 3\<rparr>) \<and> ch_status ch3 = [ch_status ch ! 0, 2, 2, 2] \<and> bc_dep ch3 = bc_dep ch \<and>
    ch_n_pieces ch3 = ch_n_pieces ch \<and> ch_txn_type ch3 = ch_txn_type ch"
proof -
  obtain x y z u where xs: "ch_status ch = [x, y, z, u]" using len by (auto simp: numeral_eq_Suc length_Suc_conv)
  then have st: "ch_status ch = [x, -1, -1, -1]" using w by simp
  have c3: "ch3 = ch\<lparr>ch_status := [x, 2, 2, 2]\<rparr>" using c by (auto simp: set_status_def st split: if_splits)
  have "slack (ch3\<lparr>ch_n_started := ch_n_started ch3 + 3\<rparr>) = slack ch" by (simp add: slack_def c3 st)
  moreover have "ones ch \<subseteq> ones (ch3\<lparr>ch_n_started := ch_n_started ch3 + 3\<rparr>)" by (auto simp: ones_def c3 st nth_Cons' split: if_splits)
  ultimately show ?thesis using c3 st by (simp add: grow_def counters_def)
qed

lemma delivery_callback_ok:
  assumes cb: "delivery_callback pi outp ch = Inr (b, ch')" and inv: "delivery_inv D ch" and pi: "pi \<notin> D" "pi \<in> ones ch" and D: "D \<subseteq> ones ch"
  shows "delivery_inv (insert pi D) ch' \<and> grow ch ch' \<and> ch_txn_type ch' = ch_txn_type ch"
proof -
  from inv obtain d where d: "bc_dep ch = DeliveryDep d" "length (ch_status ch) = 4" "ch_n_pieces ch = 4"
    "0 \<in> D \<or> ch_status ch ! 1 = -1 \<and> ch_status ch ! 2 = -1 \<and> ch_status ch ! 3 = -1"
    "ch_status ch ! 1 = 2 \<and> ch_status ch ! 2 = 2 \<or>
      de_piece_orders d = (1 \<in> D) \<and> de_piece_order_lines d = (2 \<in> D) \<and> (1 \<in> D \<and> 2 \<in> D \<or> ch_status ch ! 3 = -1)"
    by (auto simp: delivery_inv_def)
  have dep: "delivery_of ch = Inr d" by (simp add: delivery_of_def d(1))
  consider "pi = 0" | "pi = 1" | "pi = 2" | "pi = 3" using cb by (auto simp: delivery_callback_def dep split: if_splits)
  then show ?thesis
  proof cases
    case 1
    then have w: "ch_status ch ! 1 = -1" "ch_status ch ! 2 = -1" "ch_status ch ! 3 = -1" using d(4) pi by auto
    have D12: "1 \<notin> D" "2 \<notin> D" using D w by (auto simp: ones_def)
    from cb 1 obtain o_id where o: "get_i32 (outp ! 0) = Inr o_id" by (auto simp: delivery_callback_def dep)
    show ?thesis
    proof (cases "o_id = -1")
      case True
      then obtain ch1 ch2 ch3 where c: "set_status 1 2 ch = Inr ch1" "set_status 2 2 ch1 = Inr ch2" "set_status 3 2 ch2 = Inr ch3"
        "ch' = ch3\<lparr>ch_n_started := ch_n_started ch3 + 3\<rparr>" using cb 1 o by (auto simp: delivery_callback_def dep)
      show ?thesis using skip_three [OF c(1-3) d(2) w] c(4) d 1 by (auto simp: delivery_inv_def)
    next
      case False
      then obtain ch1 ch2 ch3 ch4 where c: "set_input 1 0 (outp ! 0) ch = Inr ch1" "set_input 2 0 (outp ! 0) ch1 = Inr ch2" "set_status 1 0 ch2 = Inr ch3"
        "set_status 2 0 ch3 = Inr ch4" "ch' = ch4\<lparr>bc_dep := DeliveryDep (d\<lparr>de_piece_new_orders := True\<rparr>)\<rparr>"
        using cb 1 o by (auto simp: delivery_callback_def dep)
      note i1 = set_input_grow [OF c(1)] and i2 = set_input_grow [OF c(2)]
      have "ch_status ch2 ! 1 = -1" using i1 i2 w by simp
      note i3 = set_ready_grow [OF c(3) this]
      have "ch_status ch3 ! 2 = -1" using i1 i2 i3 w by simp
      note i4 = set_ready_grow [OF c(4) this]
      have "grow ch ch'" unfolding c(5) by (rule grow_trans [OF _ grow_trans [OF _ grow_trans [OF _ grow_trans [OF _ grow_dep]]]]) (use i1 i2 i3 i4 in blast)+
      then show ?thesis using i1 i2 i3 i4 c(5) d w D12 1 by (auto simp: delivery_inv_def)
    qed
  next
    case 2
    then have s1: "ch_status ch ! 1 = 1" using pi by (simp add: ones_def)
    from cb 2 obtain ch1 where ch1: "set_input 3 0 (outp ! 0) (ch\<lparr>bc_dep := DeliveryDep (d\<lparr>de_piece_orders := True\<rparr>)\<rparr>) = Inr ch1"
      and rest: "(if de_piece_order_lines d then rbind (set_status 3 0 ch1) (\<lambda>ch2. Inr (True, ch2)) else Inr (False, ch1)) = Inr (b, ch')"
      by (auto simp: delivery_callback_def dep)
    note f = fill_then_ready [OF ch1 rest]
    show ?thesis using f d 2 s1 pi by (auto simp: delivery_inv_def)
  next
    case 3
    then have s1: "ch_status ch ! 2 = 1" using pi by (simp add: ones_def)
    from cb 3 obtain ch1 where ch1: "set_input 3 3 (outp ! 0) (ch\<lparr>bc_dep := DeliveryDep (d\<lparr>de_piece_order_lines := True\<rparr>)\<rparr>) = Inr ch1"
      and rest: "(if de_piece_orders d then rbind (set_status 3 0 ch1) (\<lambda>ch2. Inr (True, ch2)) else Inr (False, ch1)) = Inr (b, ch')"
      by (auto simp: delivery_callback_def dep)
    note f = fill_then_ready [OF ch1 rest]
    show ?thesis using f d 3 s1 pi by (auto simp: delivery_inv_def)
  next
    case 4
    then have "ch' = ch" using cb by (auto simp: delivery_callback_def dep)
    then show ?thesis using inv 4 by (auto simp: delivery_inv_def)
  qed
qed

section \<open>Stock level\<close>

definition stock_level_inv :: "nat set \<Rightarrow> bench_chopper \<Rightarrow> bool" where
  "stock_level_inv D ch \<longleftrightarrow> (\<exists>d. bc_dep ch = StockLevelDep d \<and> ch_n_pieces ch = int (length (ch_status ch)) \<and> 2 \<le> length (ch_status ch) \<and>
     (1 \<in> D \<or> length (ch_status ch) = 2) \<and> (0 \<in> D \<or> ch_status ch ! 1 = -1))"

lemma rmap_all: "rmap f xs = Inr ys \<Longrightarrow> (\<And>x y. f x = Inr y \<Longrightarrow> P y) \<Longrightarrow> \<forall>y\<in>set ys. P y"
  by (induction xs arbitrary: ys) auto

lemma placed_status: "placed_piece sh cl key (mk_piece inp n pt st) = Inr p \<Longrightarrow> ps_status p = st"
  by (auto simp: placed_piece_def mk_piece_def)

lemma add_pieces_grow:
  assumes len: "length (ch_status ch) = 2" "ch_n_pieces ch = 2" and ps: "\<forall>p\<in>set ps. ps_status p = 0"
  shows "grow ch (add_pieces ps ch) \<and> ch_status (add_pieces ps ch) = ch_status ch @ replicate (length ps) 0 \<and>
    ch_n_pieces (add_pieces ps ch) = 2 + int (length ps) \<and> bc_dep (add_pieces ps ch) = bc_dep ch \<and> ch_txn_type (add_pieces ps ch) = ch_txn_type ch"
proof -
  have m: "map ps_status ps = replicate (length ps) 0" using ps by (simp add: map_eq_conv map_replicate_const [symmetric])
  have st: "ch_status (add_pieces ps ch) = ch_status ch @ replicate (length ps) 0"
    using len m by (simp add: add_pieces_def Let_def overwrite_def resize_def)
  have n: "ch_n_pieces (add_pieces ps ch) = 2 + int (length ps)" "bc_dep (add_pieces ps ch) = bc_dep ch" "ch_txn_type (add_pieces ps ch) = ch_txn_type ch"
    "counters (add_pieces ps ch) = counters ch" "ch_n_started (add_pieces ps ch) = ch_n_started ch"
    using len by (simp_all add: add_pieces_def Let_def counters_def)
  have "slack (add_pieces ps ch) = slack ch" using len n st by (simp add: slack_def)
  moreover have "ones ch \<subseteq> ones (add_pieces ps ch)" by (auto simp: ones_def st nth_append)
  ultimately show ?thesis using st n by (simp add: grow_def)
qed

lemma stock_level_callback_ok:
  assumes cb: "stock_level_callback iord sh cl pi outp ch = Inr (b, ch')" and inv: "stock_level_inv D ch" and pi: "pi \<notin> D" "pi \<in> ones ch"
  shows "stock_level_inv (insert pi D) ch' \<and> grow ch ch' \<and> ch_txn_type ch' = ch_txn_type ch"
proof -
  from inv obtain d where d: "bc_dep ch = StockLevelDep d" "ch_n_pieces ch = int (length (ch_status ch))" "2 \<le> length (ch_status ch)"
    "1 \<in> D \<or> length (ch_status ch) = 2" "0 \<in> D \<or> ch_status ch ! 1 = -1" by (auto simp: stock_level_inv_def)
  have dep: "stock_level_of ch = Inr d" by (simp add: stock_level_of_def d(1))
  consider "pi = 0" | "pi = 1" | "pi \<noteq> 0" "pi \<noteq> 1" by blast
  then show ?thesis
  proof cases
    case 1
    then obtain ch1 where ch1: "set_input 1 0 (outp ! 0) ch = Inr ch1" and ch2: "set_status 1 0 ch1 = Inr ch'"
      using cb by (auto simp: stock_level_callback_def dep)
    note i1 = set_input_grow [OF ch1]
    have "ch_status ch1 ! 1 = -1" using i1 d(5) pi 1 by simp
    note i2 = set_ready_grow [OF ch2 this]
    show ?thesis using i1 i2 d 1 grow_trans [of ch ch1 ch'] by (auto simp: stock_level_inv_def)
  next
    case 2
    then obtain ids ps where ps: "rmap (stock_piece sh cl d) ids = Inr ps" and ch': "ch' = add_pieces ps ch"
      using cb by (auto simp: stock_level_callback_def dep)
    have "\<forall>p\<in>set ps. ps_status p = 0" by (rule rmap_all [OF ps]) (auto simp: stock_piece_def Let_def intro: placed_status)
    moreover have "length (ch_status ch) = 2" "ch_n_pieces ch = 2" using d 2 pi by simp_all
    moreover have "0 \<in> D" using d(5) pi(2) 2 by (auto simp: ones_def)
    ultimately show ?thesis using add_pieces_grow [of ch ps] ch' d 2 by (auto simp: stock_level_inv_def)
  next
    case 3
    then have "ch' = ch" using cb by (auto simp: stock_level_callback_def dep)
    then show ?thesis using inv by (auto simp: stock_level_inv_def)
  qed
qed

section \<open>New order\<close>

definition new_order_inv :: "nat set \<Rightarrow> bench_chopper \<Rightarrow> bool" where
  "new_order_inv D ch \<longleftrightarrow> (\<exists>d. bc_dep ch = NewOrderDep d \<and> length (ch_status ch) = 5 + 4 * no_ol_cnt d \<and> ch_n_pieces ch = int (5 + 4 * no_ol_cnt d) \<and>
     length (no_piece_items d) = no_ol_cnt d \<and> length (no_piece_stocks d) = no_ol_cnt d \<and> no_piece_0_dist d = (0 \<in> D) \<and>
     (\<forall>i < no_ol_cnt d. no_piece_items d ! i = (5 + 4 * i \<in> D) \<and> no_piece_stocks d ! i = (6 + 4 * i \<in> D) \<and>
        (0 \<in> D \<and> 5 + 4 * i \<in> D \<and> 6 + 4 * i \<in> D \<or> ch_status ch ! (8 + 4 * i) = -1)) \<and>
     (0 \<in> D \<or> ch_status ch ! 3 = -1 \<and> ch_status ch ! 4 = -1))"

lemma order_lines_ready:
  assumes "each (order_line_ready d o_id) is ch = Inr ch'" "distinct is" "\<forall>i\<in>set is. ch_status ch ! (8 + 4 * i) = -1"
  shows "grow ch ch' \<and> bc_dep ch' = bc_dep ch \<and> ch_n_pieces ch' = ch_n_pieces ch \<and> ch_txn_type ch' = ch_txn_type ch \<and>
    length (ch_status ch') = length (ch_status ch) \<and>
    (\<forall>j. ch_status ch' ! j \<noteq> ch_status ch ! j \<longrightarrow> (\<exists>i\<in>set is. j = 8 + 4 * i \<and> no_piece_items d ! i \<and> no_piece_stocks d ! i))"
  using assms
proof (induction "is" arbitrary: ch)
  case (Cons i "is")
  from Cons.prems(1) obtain ch1 where ch1: "order_line_ready d o_id i ch = Inr ch1" and r: "each (order_line_ready d o_id) is ch1 = Inr ch'" by auto
  from ch1 obtain ch0 where ch0: "set_input (8 + 4 * i) 2 o_id ch = Inr ch0"
    and st: "(if no_piece_items d ! i \<and> no_piece_stocks d ! i then set_status (8 + 4 * i) 0 ch0 else Inr ch0) = Inr ch1" by (auto simp: order_line_ready_def)
  note i0 = set_input_grow [OF ch0]
  have w: "ch_status ch0 ! (8 + 4 * i) = -1" using i0 Cons.prems(3) by simp
  have 1: "grow ch ch1 \<and> bc_dep ch1 = bc_dep ch \<and> ch_n_pieces ch1 = ch_n_pieces ch \<and> ch_txn_type ch1 = ch_txn_type ch \<and>
      ch_status ch1 = (if no_piece_items d ! i \<and> no_piece_stocks d ! i then (ch_status ch)[8 + 4 * i := 0] else ch_status ch)"
  proof (cases "no_piece_items d ! i \<and> no_piece_stocks d ! i")
    case True
    then show ?thesis using set_ready_grow [OF _ w, of ch1] st i0 grow_trans [of ch ch0 ch1] by simp
  next
    case False
    then show ?thesis using st i0 by auto
  qed
  have "ch_status ch1 ! (8 + 4 * k) = -1" if "k \<in> set is" for k
  proof -
    have "8 + 4 * i \<noteq> 8 + 4 * k" using that Cons.prems(2) by auto
    then show ?thesis using 1 that Cons.prems(3) by simp
  qed
  from Cons.IH [OF r _ ballI [OF this]] Cons.prems(2)
  have 2: "grow ch1 ch' \<and> bc_dep ch' = bc_dep ch1 \<and> ch_n_pieces ch' = ch_n_pieces ch1 \<and> ch_txn_type ch' = ch_txn_type ch1 \<and>
    length (ch_status ch') = length (ch_status ch1) \<and>
    (\<forall>j. ch_status ch' ! j \<noteq> ch_status ch1 ! j \<longrightarrow> (\<exists>i\<in>set is. j = 8 + 4 * i \<and> no_piece_items d ! i \<and> no_piece_stocks d ! i))" by simp
  have "ch_status ch1 ! j \<noteq> ch_status ch ! j \<Longrightarrow> j = 8 + 4 * i \<and> no_piece_items d ! i \<and> no_piece_stocks d ! i" for j
    using 1 by (auto simp: nth_list_update split: if_splits) (metis nth_list_update_neq)
  then have "\<exists>k\<in>set (i # is). j = 8 + 4 * k \<and> no_piece_items d ! k \<and> no_piece_stocks d ! k" if "ch_status ch' ! j \<noteq> ch_status ch ! j" for j
    using 2 that by (metis list.set_intros(1,2))
  moreover have "grow ch ch'" using 1 2 grow_trans by blast
  ultimately show ?case using 1 2 by simp
qed simp

text \<open>The piece that the flag of the order line \<open>i\<close> stands for: its item or its stock.\<close>

lemma line_flag:
  assumes f: "grow ch ch' \<and> bc_dep ch' = NewOrderDep d1 \<and> ch_n_pieces ch' = ch_n_pieces ch \<and> ch_txn_type ch' = ch_txn_type ch \<and>
      ch_status ch' = (if r then (ch_status ch)[8 + 4 * i := 0] else ch_status ch)"
    and d: "bc_dep ch = NewOrderDep d" and inv: "new_order_inv D ch" and i: "i < no_ol_cnt d"
    and d1: "no_ol_cnt d1 = no_ol_cnt d" "no_piece_0_dist d1 = no_piece_0_dist d" "length (no_piece_items d1) = no_ol_cnt d" "length (no_piece_stocks d1) = no_ol_cnt d"
    and e: "\<And>k. k < no_ol_cnt d \<Longrightarrow> no_piece_items d1 ! k = (5 + 4 * k \<in> insert pi D) \<and> no_piece_stocks d1 ! k = (6 + 4 * k \<in> insert pi D)"
    and r: "r \<Longrightarrow> 0 \<in> D \<and> 5 + 4 * i \<in> insert pi D \<and> 6 + 4 * i \<in> insert pi D" and p0: "pi \<noteq> 0"
  shows "new_order_inv (insert pi D) ch' \<and> grow ch ch' \<and> ch_txn_type ch' = ch_txn_type ch"
proof -
  have st: "ch_status ch' ! j = ch_status ch ! j" if "\<not> r \<or> j \<noteq> 8 + 4 * i" for j using f that by (auto split: if_splits)
  have "0 \<in> insert pi D \<and> 5 + 4 * k \<in> insert pi D \<and> 6 + 4 * k \<in> insert pi D \<or> ch_status ch' ! (8 + 4 * k) = -1" if k: "k < no_ol_cnt d" for k
  proof (cases "r \<and> k = i")
    case True
    then show ?thesis using r by auto
  next
    case False
    then have "ch_status ch' ! (8 + 4 * k) = ch_status ch ! (8 + 4 * k)" by (intro st) auto
    then show ?thesis using inv d k by (auto simp: new_order_inv_def)
  qed
  moreover have "0 \<in> insert pi D \<or> ch_status ch' ! 3 = -1 \<and> ch_status ch' ! 4 = -1" using inv d st [of 3] st [of 4] by (auto simp: new_order_inv_def)
  ultimately show ?thesis using f inv d d1 e p0 by (auto simp: new_order_inv_def)
qed

lemma new_order_callback_ok:
  assumes cb: "new_order_callback mul pi outp ch = Inr (b, ch')" and inv: "new_order_inv D ch" and pi: "pi \<notin> D" "pi \<in> ones ch"
  shows "new_order_inv (insert pi D) ch' \<and> grow ch ch' \<and> ch_txn_type ch' = ch_txn_type ch"
proof -
  from inv obtain d where d: "bc_dep ch = NewOrderDep d" "length (ch_status ch) = 5 + 4 * no_ol_cnt d" "ch_n_pieces ch = int (5 + 4 * no_ol_cnt d)"
    "length (no_piece_items d) = no_ol_cnt d" "length (no_piece_stocks d) = no_ol_cnt d" "no_piece_0_dist d = (0 \<in> D)"
    "\<And>i. i < no_ol_cnt d \<Longrightarrow> no_piece_items d ! i = (5 + 4 * i \<in> D) \<and> no_piece_stocks d ! i = (6 + 4 * i \<in> D) \<and>
        (0 \<in> D \<and> 5 + 4 * i \<in> D \<and> 6 + 4 * i \<in> D \<or> ch_status ch ! (8 + 4 * i) = -1)"
    "0 \<in> D \<or> ch_status ch ! 3 = -1 \<and> ch_status ch ! 4 = -1" by (auto simp: new_order_inv_def)
  have dep: "new_order_of ch = Inr d" by (simp add: new_order_of_def d(1))
  consider "pi = 0" | "pi \<noteq> 0" "5 \<le> pi \<and> pi mod 4 = 1" | "pi \<noteq> 0" "5 \<le> pi \<and> pi mod 4 = 2"
    | "pi \<noteq> 0" "\<not> (5 \<le> pi \<and> pi mod 4 = 1)" "\<not> (5 \<le> pi \<and> pi mod 4 = 2)" by blast
  then show ?thesis
  proof cases
    case 1
    let ?ch = "ch\<lparr>bc_dep := NewOrderDep (d\<lparr>no_piece_0_dist := True\<rparr>)\<rparr>"
    from cb 1 obtain o_id ch1 ch2 ch3 ch4 where ch1: "set_input 3 0 o_id ?ch = Inr ch1" and ch2: "set_status 3 0 ch1 = Inr ch2"
      and ch3: "set_input 4 0 o_id ch2 = Inr ch3" and ch4: "set_status 4 0 ch3 = Inr ch4" and ch5: "each (order_line_ready d o_id) [0..<no_ol_cnt d] ch4 = Inr ch'"
      by (auto simp: new_order_callback_def dep)
    have w: "ch_status ch ! 3 = -1" "ch_status ch ! 4 = -1" using d(8) pi 1 by auto
    note i1 = set_input_grow [OF ch1] and i3 = set_input_grow [OF ch3]
    have "ch_status ch1 ! 3 = -1" using i1 w by simp
    note i2 = set_ready_grow [OF ch2 this]
    have "ch_status ch3 ! 4 = -1" using i1 i2 i3 w by simp
    note i4 = set_ready_grow [OF ch4 this]
    have st4: "ch_status ch4 = (ch_status ch)[3 := 0, 4 := 0]" using i1 i2 i3 i4 by simp
    have l4: "ch_status ch4 ! (8 + 4 * i) = -1" if "i < no_ol_cnt d" for i using d(7) [OF that] pi 1 by (auto simp: st4)
    have i5: "grow ch4 ch' \<and> bc_dep ch' = bc_dep ch4 \<and> ch_n_pieces ch' = ch_n_pieces ch4 \<and> ch_txn_type ch' = ch_txn_type ch4 \<and>
      length (ch_status ch') = length (ch_status ch4) \<and>
      (\<forall>j. ch_status ch' ! j \<noteq> ch_status ch4 ! j \<longrightarrow> (\<exists>i\<in>set [0..<no_ol_cnt d]. j = 8 + 4 * i \<and> no_piece_items d ! i \<and> no_piece_stocks d ! i))"
      by (rule order_lines_ready [OF ch5]) (use l4 in auto)
    have g: "grow ch ch'"
      by (rule grow_trans [OF grow_dep grow_trans [OF _ grow_trans [OF _ grow_trans [OF _ grow_trans]]]]) (use i1 i2 i3 i4 i5 in blast)+
    have ol: "5 + 4 * i \<in> D \<and> 6 + 4 * i \<in> D \<or> ch_status ch' ! (8 + 4 * i) = -1" if "i < no_ol_cnt d" for i
      using i5 [THEN conjunct2, THEN conjunct2, THEN conjunct2, THEN conjunct2, THEN conjunct2, rule_format, of "8 + 4 * i"] l4 [OF that] d(7) that by auto
    have "bc_dep ch' = NewOrderDep (d\<lparr>no_piece_0_dist := True\<rparr>)" "length (ch_status ch') = length (ch_status ch)" "ch_n_pieces ch' = ch_n_pieces ch" "ch_txn_type ch' = ch_txn_type ch"
      using i1 i2 i3 i4 i5 by simp_all
    then show ?thesis using g ol d 1 by (auto simp: new_order_inv_def)
  next
    case 2
    then have dv: "4 dvd pi - 5" by presburger
    define i where "i = (pi - 5) div 4"
    have pe: "pi = 5 + 4 * i" using dv 2(2) by (auto simp: i_def)
    let ?d1 = "d\<lparr>no_piece_items := (no_piece_items d)[i := True]\<rparr>"
    from cb 2 obtain v ch1 where ch1: "set_input (pi + 3) 8 v ch = Inr ch1" and il: "i < no_ol_cnt d"
      and rest: "(if no_piece_0_dist d \<and> no_piece_stocks d ! i then rbind (set_status (pi + 3) 0 (ch1\<lparr>bc_dep := NewOrderDep ?d1\<rparr>)) (\<lambda>ch3. Inr (True, ch3))
        else Inr (False, ch1\<lparr>bc_dep := NewOrderDep ?d1\<rparr>)) = Inr (b, ch')"
      using d(4,5) by (auto simp: new_order_callback_def dep Let_def i_def [symmetric] split: if_splits)
    have p3: "pi + 3 = 8 + 4 * i" using pe by simp
    have w: "ch_status ch ! (pi + 3) = -1" unfolding p3 using d(7) [OF il] pi pe by auto
    note f = fill_then_ready [OF set_input_dep [OF ch1] rest w, unfolded p3]
    have k: "5 + 4 * k = pi \<longleftrightarrow> k = i" "6 + 4 * k \<noteq> pi" for k using pe by presburger+
    show ?thesis
      by (rule line_flag [OF f d(1) inv il]) (use d il k pe in \<open>auto simp: nth_list_update\<close>)
  next
    case 3
    then have dv: "4 dvd pi - 6" by presburger
    define i where "i = (pi - 6) div 4"
    have pe: "pi = 6 + 4 * i" using dv 3(2) by (auto simp: i_def) presburger
    let ?d1 = "d\<lparr>no_piece_stocks := (no_piece_stocks d)[i := True]\<rparr>"
    have ni: "\<not> (5 \<le> pi \<and> pi mod 4 = 1)" using 3 by simp
    from cb 3 obtain v ch1 where ch1: "set_input (pi + 2) 9 v ch = Inr ch1" and il: "i < no_ol_cnt d"
      and rest: "(if no_piece_0_dist d \<and> no_piece_items d ! i then rbind (set_status (pi + 2) 0 (ch1\<lparr>bc_dep := NewOrderDep ?d1\<rparr>)) (\<lambda>ch3. Inr (True, ch3))
        else Inr (False, ch1\<lparr>bc_dep := NewOrderDep ?d1\<rparr>)) = Inr (b, ch')"
      using d(4,5) ni by (auto simp: new_order_callback_def dep Let_def i_def [symmetric] split: if_splits)
    have p3: "pi + 2 = 8 + 4 * i" using pe by simp
    have w: "ch_status ch ! (pi + 2) = -1" unfolding p3 using d(7) [OF il] pi pe by auto
    note f = fill_then_ready [OF set_input_dep [OF ch1] rest w, unfolded p3]
    have k: "6 + 4 * k = pi \<longleftrightarrow> k = i" "5 + 4 * k \<noteq> pi" for k using pe by presburger+
    show ?thesis
      by (rule line_flag [OF f d(1) inv il]) (use d il k pe in \<open>auto simp: nth_list_update\<close>)
  next
    case 4
    then have ch': "ch' = ch" using cb by (auto simp: new_order_callback_def dep)
    have "5 + 4 * k \<noteq> pi" "6 + 4 * k \<noteq> pi" for k using 4 by presburger+
    then show ?thesis using ch' d 4(1) by (auto simp: new_order_inv_def)
  qed
qed

section \<open>Starting afresh\<close>

definition line_status :: "nat \<Rightarrow> int list" where
  "line_status n = concat (replicate n [0, 0, 0, -1])"

lemma line_status_nth: "i < n \<Longrightarrow> line_status n ! (3 + 4 * i) = -1"
proof (induction n arbitrary: i)
  case (Suc n)
  show ?case
  proof (cases i)
    case 0
    then show ?thesis by (simp add: line_status_def numeral_eq_Suc)
  next
    case (Suc k)
    then have "line_status (Suc n) ! (3 + 4 * i) = line_status n ! (3 + 4 * k)" by (simp add: line_status_def nth_append)
    then show ?thesis using Suc.IH [of k] Suc.prems Suc by simp
  qed
qed simp

lemma length_line_status: "length (line_status n) = 4 * n"
  by (induction n) (simp_all add: line_status_def)

lemma filter_line_status: "filter (\<lambda>x. x \<noteq> 1 \<and> x \<noteq> 2) (line_status n) = line_status n"
  by (induction n) (simp_all add: line_status_def)

text \<open>The states that the five transactions start from, at first and at a retry.\<close>

lemma new_order_start:
  assumes "bc_dep ch = NewOrderDep d" "ch_status ch = [0, 0, 0, -1, -1] @ line_status (no_ol_cnt d)" "ch_n_pieces ch = int (5 + 4 * no_ol_cnt d)"
    "no_piece_items d = replicate (no_ol_cnt d) False" "no_piece_stocks d = replicate (no_ol_cnt d) False" "\<not> no_piece_0_dist d" "ch_n_started ch = 0"
  shows "new_order_inv {} ch \<and> slack ch = 0"
proof -
  have "ch_status ch ! (8 + 4 * i) = -1" if "i < no_ol_cnt d" for i
  proof -
    have "ch_status ch ! (8 + 4 * i) = line_status (no_ol_cnt d) ! (3 + 4 * i)" by (simp add: assms(2) nth_append numeral_eq_Suc)
    then show ?thesis using line_status_nth [OF that] by simp
  qed
  moreover have "ch_status ch ! 3 = -1" "ch_status ch ! 4 = -1" "length (ch_status ch) = 5 + 4 * no_ol_cnt d"
    by (simp_all add: assms(2) nth_append numeral_eq_Suc length_line_status)
  moreover have "slack ch = 0" by (simp add: slack_def assms(2,3,7) filter_line_status length_line_status)
  ultimately show ?thesis using assms by (auto simp: new_order_inv_def)
qed

lemma payment_start:
  assumes "bc_dep ch = PaymentDep d" "ch_status ch = (if pa_piece_ori_last2id d then [0, 0, 0, 2, 0, -1] else [0, 0, 0, 0, -1, -1])" "ch_n_pieces ch = 6"
    "\<not> pa_piece_warehouse d" "\<not> pa_piece_district d" "pa_piece_last2id d = pa_piece_ori_last2id d" "ch_n_started ch = (if pa_piece_ori_last2id d then 1 else 0)"
  shows "payment_inv {} ch \<and> slack ch = 0"
  using assms by (auto simp: payment_inv_def slack_def)

lemma order_status_start:
  assumes "bc_dep ch = OrderStatusDep d" "ch_status ch = (if os_piece_ori_last2id d then [2, 0, 0, -1] else [0, -1, -1, -1])" "ch_n_pieces ch = 4"
    "\<not> os_piece_order d" "os_piece_last2id d = os_piece_ori_last2id d" "ch_n_started ch = (if os_piece_ori_last2id d then 1 else 0)"
  shows "order_status_inv {} ch \<and> slack ch = 0"
  using assms by (auto simp: order_status_inv_def slack_def)

lemma delivery_start:
  assumes "bc_dep ch = DeliveryDep \<lparr>de_piece_new_orders = False, de_piece_orders = False, de_piece_order_lines = False\<rparr>"
    "ch_status ch = [0, -1, -1, -1]" "ch_n_pieces ch = 4" "ch_n_started ch = 0"
  shows "delivery_inv {} ch \<and> slack ch = 0"
  using assms by (auto simp: delivery_inv_def slack_def)

lemma stock_level_start:
  assumes "bc_dep ch = StockLevelDep d" "ch_status ch = [0, -1]" "ch_n_pieces ch = 2" "ch_n_started ch = 0"
  shows "stock_level_inv {} ch \<and> slack ch = 0"
  using assms by (auto simp: stock_level_inv_def slack_def)

section \<open>The contract\<close>

definition tpcc_inv :: "nat set \<Rightarrow> bench_chopper \<Rightarrow> bool" where
  "tpcc_inv D ch \<longleftrightarrow>
     ch_txn_type ch = TPCC_NEW_ORDER \<and> new_order_inv D ch \<or> ch_txn_type ch = TPCC_PAYMENT \<and> payment_inv D ch \<or>
     ch_txn_type ch = TPCC_ORDER_STATUS \<and> order_status_inv D ch \<or> ch_txn_type ch = TPCC_DELIVERY \<and> delivery_inv D ch \<or>
     ch_txn_type ch = TPCC_STOCK_LEVEL \<and> stock_level_inv D ch"

lemma tpcc_callback_ok:
  assumes cb: "tpcc_start_callback mul iord sh cl pi res outp ch = Inr (b, ch')" and inv: "tpcc_inv D ch" and D: "D \<subseteq> ones ch" and pi: "pi \<notin> D" "pi \<in> ones ch"
  shows "tpcc_inv (insert pi D) ch' \<and> grow ch ch'"
  using inv [unfolded tpcc_inv_def]
proof (elim disjE conjE)
  assume t: "ch_txn_type ch = TPCC_NEW_ORDER" and i: "new_order_inv D ch"
  then have "new_order_callback mul pi outp ch = Inr (b, ch')" using cb by (simp add: tpcc_start_callback_def tpcc_types)
  from new_order_callback_ok [OF this i pi] show ?thesis by (simp add: t tpcc_inv_def)
next
  assume t: "ch_txn_type ch = TPCC_PAYMENT" and i: "payment_inv D ch"
  then have "payment_callback pi outp ch = Inr (b, ch')" using cb by (simp add: tpcc_start_callback_def tpcc_types)
  from payment_callback_ok [OF this i pi] show ?thesis by (simp add: t tpcc_inv_def)
next
  assume t: "ch_txn_type ch = TPCC_ORDER_STATUS" and i: "order_status_inv D ch"
  then have "order_status_callback pi outp ch = Inr (b, ch')" using cb by (simp add: tpcc_start_callback_def tpcc_types)
  from order_status_callback_ok [OF this i pi] show ?thesis by (simp add: t tpcc_inv_def)
next
  assume t: "ch_txn_type ch = TPCC_DELIVERY" and i: "delivery_inv D ch"
  then have "delivery_callback pi outp ch = Inr (b, ch')" using cb by (simp add: tpcc_start_callback_def tpcc_types)
  from delivery_callback_ok [OF this i pi D] show ?thesis by (simp add: t tpcc_inv_def)
next
  assume t: "ch_txn_type ch = TPCC_STOCK_LEVEL" and i: "stock_level_inv D ch"
  then have "stock_level_callback iord sh cl pi outp ch = Inr (b, ch')" using cb by (simp add: tpcc_start_callback_def tpcc_types)
  from stock_level_callback_ok [OF this i pi] show ?thesis by (simp add: t tpcc_inv_def)
qed

lemma overwrite_all: "length xs = length ys \<Longrightarrow> overwrite 0 xs ys = xs"
  by (simp add: overwrite_def)

lemma tpcc_retry_ok:
  assumes rt: "tpcc_retry ch = Inr ch'" and inv: "tpcc_inv D ch"
  shows "tpcc_inv {} ch' \<and> pristine ch' \<and> ch_n_start_sent ch' = ch_n_start_sent ch"
proof -
  let ?ch = "clear_counts ch"
  have p: "ch_proxies ch' = [] \<and> ch_commit ch' \<and> ch_n_prepared ch' = 0 \<and> ch_n_finished ch' = 0 \<and> ch_n_start_sent ch' = ch_n_start_sent ch \<and> ch_txn_type ch' = ch_txn_type ch"
    using rt by (auto simp: tpcc_retry_def new_order_retry_def payment_retry_def order_status_retry_def delivery_retry_def stock_level_retry_def clear_counts_def Let_def
        split: if_splits)
  have "tpcc_inv {} ch' \<and> slack ch' = 0"
    using inv [unfolded tpcc_inv_def]
  proof (elim disjE conjE)
    assume t: "ch_txn_type ch = TPCC_NEW_ORDER" and i: "new_order_inv D ch"
    from i obtain d where d: "bc_dep ch = NewOrderDep d" "length (ch_status ch) = 5 + 4 * no_ol_cnt d" "ch_n_pieces ch = int (5 + 4 * no_ol_cnt d)"
      "length (no_piece_items d) = no_ol_cnt d" "length (no_piece_stocks d) = no_ol_cnt d" by (auto simp: new_order_inv_def)
    let ?xs = "[0, 0, 0, -1, -1] @ line_status (no_ol_cnt d)"
    have "new_order_retry ?ch = Inr ch'" using rt t by (simp add: tpcc_retry_def tpcc_types clear_counts_def)
    then have ch': "ch' = ?ch\<lparr>ch_status := ?xs, bc_dep := NewOrderDep (d\<lparr>no_piece_0_dist := False,
        no_piece_items := replicate (no_ol_cnt d) False, no_piece_stocks := replicate (no_ol_cnt d) False\<rparr>)\<rparr>"
      using d overwrite_all [of ?xs "ch_status ch"] by (simp add: new_order_retry_def new_order_of_def clear_counts_def Let_def overwrite_all length_line_status flip: line_status_def)
    have "new_order_inv {} ch' \<and> slack ch' = 0"
      by (rule new_order_start [where d = "d\<lparr>no_piece_0_dist := False, no_piece_items := replicate (no_ol_cnt d) False, no_piece_stocks := replicate (no_ol_cnt d) False\<rparr>"]) (use d in \<open>simp_all add: ch' clear_counts_def\<close>)
    then show ?thesis using t p by (simp add: tpcc_inv_def)
  next
    assume t: "ch_txn_type ch = TPCC_PAYMENT" and i: "payment_inv D ch"
    from i obtain d where d: "bc_dep ch = PaymentDep d" "length (ch_status ch) = 6" "ch_n_pieces ch = 6" by (auto simp: payment_inv_def)
    have "payment_retry ?ch = Inr ch'" using rt t by (simp add: tpcc_retry_def tpcc_types clear_counts_def)
    then have "payment_inv {} ch' \<and> slack ch' = 0"
      using d by (auto simp: payment_retry_def payment_of_def clear_counts_def overwrite_all payment_inv_def slack_def)
    then show ?thesis using t p by (simp add: tpcc_inv_def)
  next
    assume t: "ch_txn_type ch = TPCC_ORDER_STATUS" and i: "order_status_inv D ch"
    from i obtain d where d: "bc_dep ch = OrderStatusDep d" "length (ch_status ch) = 4" "ch_n_pieces ch = 4" by (auto simp: order_status_inv_def)
    have "order_status_retry ?ch = Inr ch'" using rt t by (simp add: tpcc_retry_def tpcc_types clear_counts_def)
    then have "order_status_inv {} ch' \<and> slack ch' = 0"
      using d by (auto simp: order_status_retry_def order_status_of_def clear_counts_def overwrite_all order_status_inv_def slack_def)
    then show ?thesis using t p by (simp add: tpcc_inv_def)
  next
    assume t: "ch_txn_type ch = TPCC_DELIVERY" and i: "delivery_inv D ch"
    from i obtain d where d: "bc_dep ch = DeliveryDep d" "length (ch_status ch) = 4" "ch_n_pieces ch = 4" by (auto simp: delivery_inv_def)
    have "delivery_retry ?ch = Inr ch'" using rt t by (simp add: tpcc_retry_def tpcc_types clear_counts_def)
    then have "delivery_inv {} ch' \<and> slack ch' = 0"
      using d by (auto simp: delivery_retry_def delivery_of_def clear_counts_def overwrite_all delivery_inv_def slack_def)
    then show ?thesis using t p by (simp add: tpcc_inv_def)
  next
    assume t: "ch_txn_type ch = TPCC_STOCK_LEVEL" and i: "stock_level_inv D ch"
    from i obtain d where d: "bc_dep ch = StockLevelDep d" by (auto simp: stock_level_inv_def)
    have "stock_level_retry ?ch = Inr ch'" using rt t by (simp add: tpcc_retry_def tpcc_types clear_counts_def)
    then have "stock_level_inv {} ch' \<and> slack ch' = 0"
      using d by (intro stock_level_start) (auto simp: stock_level_retry_def clear_counts_def)
    then show ?thesis using t p by (simp add: tpcc_inv_def)
  qed
  then show ?thesis using p by (simp add: pristine_def)
qed

lemma tpcc_inv_own:
  assumes "tpcc_inv D ch" "own ch' = own ch"
  shows "tpcc_inv D ch'"
proof -
  have "bc_dep ch' = bc_dep ch" "ch_status ch' = ch_status ch" "ch_n_pieces ch' = ch_n_pieces ch" "ch_txn_type ch' = ch_txn_type ch"
    using assms(2) by (cases ch; cases ch'; simp add: own_def)+
  then show ?thesis using assms(1)
    by (simp add: tpcc_inv_def new_order_inv_def payment_inv_def order_status_inv_def delivery_inv_def stock_level_inv_def)
qed

lemma tpcc_inv_taken:
  assumes "tpcc_inv D ch" "i < length (ch_status ch)" "ch_status ch ! i = 0"
  shows "tpcc_inv D (ch\<lparr>ch_status := (ch_status ch)[i := 1]\<rparr>)"
proof -
  have k: "ch_status ch ! j = -1 \<Longrightarrow> (ch_status ch)[i := 1] ! j = -1" "ch_status ch ! j = 2 \<Longrightarrow> (ch_status ch)[i := 1] ! j = 2" for j
    using assms(2,3) by (auto simp: nth_list_update)
  let ?ch = "ch\<lparr>ch_status := (ch_status ch)[i := 1]\<rparr>"
  have "new_order_inv D ?ch" if "new_order_inv D ch" using that k(1) unfolding new_order_inv_def by simp blast
  moreover have "payment_inv D ?ch" if "payment_inv D ch" using that k(1) unfolding payment_inv_def by simp blast
  moreover have "order_status_inv D ?ch" if "order_status_inv D ch" using that k(1) unfolding order_status_inv_def by simp blast
  moreover have "delivery_inv D ?ch" if "delivery_inv D ch" using that k unfolding delivery_inv_def by simp blast
  moreover have "stock_level_inv D ?ch" if "stock_level_inv D ch" using that k(1) unfolding stock_level_inv_def by simp blast
  ultimately show ?thesis using assms(1) unfolding tpcc_inv_def by auto
qed

interpretation tpcc: chopper_class "tpcc_vt mul iord sh cl" tpcc_inv for mul iord sh cl
proof unfold_locales
  fix pi res outp ch b ch' D
  assume "vt_start_callback (tpcc_vt mul iord sh cl) pi res outp ch = Inr (b, ch')" "tpcc_inv D ch" "D \<subseteq> ones ch" "pi \<notin> D" "pi \<in> ones ch"
  then show "tpcc_inv (insert pi D) ch' \<and> counters ch' = counters ch \<and> slack ch' = slack ch \<and> ones ch \<subseteq> ones ch'"
    using tpcc_callback_ok [of mul iord sh cl pi res outp ch b ch' D] by (simp add: tpcc_vt_def grow_def)
qed (use tpcc_retry_ok tpcc_inv_own tpcc_inv_taken in \<open>auto simp: tpcc_vt_def\<close>)

section \<open>Requests\<close>

lemma set_pieces_frame:
  assumes "idle_chopper ch"
  shows "ch_proxies (set_pieces ps (begin_init rq ch)) = []" "ch_commit (set_pieces ps (begin_init rq ch))" "ch_n_prepared (set_pieces ps (begin_init rq ch)) = 0"
    "ch_n_finished (set_pieces ps (begin_init rq ch)) = 0" "ch_n_start_sent (set_pieces ps (begin_init rq ch)) = 0"
    "ch_txn_type (set_pieces ps (begin_init rq ch)) = rq_txn_type rq" "ch_status (set_pieces ps (begin_init rq ch)) = map ps_status ps"
    "ch_n_pieces (set_pieces ps (begin_init rq ch)) = int (length ps)" "ch_n_started (set_pieces ps (begin_init rq ch)) = 0" "ch_n_started (begin_init rq ch) = 0"
  using assms by (simp_all add: set_pieces_def begin_init_def idle_chopper_def)

lemma new_order_line_status:
  assumes "rmap (new_order_line sh cl inp) is = Inr ls"
  shows "map ps_status (concat (map snd ls)) = line_status (length is)"
  using assms
proof (induction "is" arbitrary: ls)
  case (Cons i "is")
  then obtain l ls' where l: "new_order_line sh cl inp i = Inr l" "rmap (new_order_line sh cl inp) is = Inr ls'" "ls = l # ls'" by auto
  have "map ps_status (snd l) = [0, 0, 0, -1]" using l(1) by (auto simp: new_order_line_def dest!: placed_status)
  then show ?case using Cons.IH [OF l(2)] l(3) by (simp add: line_status_def)
qed (simp add: line_status_def)

lemma tpcc_fresh:
  assumes i: "tpcc_init sh cl rq ch = Inr ch'" and ic: "idle_chopper ch"
  shows "tpcc_inv {} ch' \<and> pristine ch' \<and> ch_n_start_sent ch' = 0"
proof -
  let ?ch = "begin_init rq ch"
  note fr = set_pieces_frame [OF ic]
  consider "rq_txn_type rq = TPCC_NEW_ORDER" "new_order_init sh cl rq ?ch = Inr ch'" | "rq_txn_type rq = TPCC_PAYMENT" "payment_init sh cl rq ?ch = Inr ch'"
    | "rq_txn_type rq = TPCC_ORDER_STATUS" "order_status_init sh cl rq ?ch = Inr ch'" | "rq_txn_type rq = TPCC_DELIVERY" "delivery_init sh cl rq ?ch = Inr ch'"
    | "rq_txn_type rq = TPCC_STOCK_LEVEL" "stock_level_init sh cl rq ?ch = Inr ch'"
    using i by (auto simp: tpcc_init_def Let_def split: if_splits)
  then show ?thesis
  proof cases
    case 1
    from 1(2) obtain p0 p1 p2 p3 p4 ls n where ls: "rmap (new_order_line sh cl (rq_input rq)) [0..<n] = Inr ls"
      and st: "ps_status p0 = 0" "ps_status p1 = 0" "ps_status p2 = 0" "ps_status p3 = -1" "ps_status p4 = -1"
      and ch': "ch' = (set_pieces ([p0, p1, p2, p3, p4] @ concat (map snd ls)) ?ch)\<lparr>bc_dep := NewOrderDep
          \<lparr>no_ol_cnt = n, no_piece_0_dist = False, no_piece_items = replicate n False, no_piece_stocks = replicate n False\<rparr>\<rparr>"
      by (auto simp: new_order_init_def Let_def dest!: placed_status split: if_splits)
    note l = new_order_line_status [OF ls]
    have "length (map ps_status (concat (map snd ls))) = 4 * n" by (simp add: l length_line_status del: length_map)
    then have len: "length (concat (map snd ls)) = 4 * n" by (simp only: length_map)
    have "new_order_inv {} ch' \<and> slack ch' = 0"
      by (rule new_order_start [where d = "\<lparr>no_ol_cnt = n, no_piece_0_dist = False, no_piece_items = replicate n False, no_piece_stocks = replicate n False\<rparr>"])
        (use l st len fr in \<open>simp_all add: ch'\<close>)
    then show ?thesis using 1(1) fr by (simp add: tpcc_inv_def pristine_def ch')
  next
    case 2
    then show ?thesis using fr
      by (auto simp: payment_init_def Let_def tpcc_inv_def pristine_def payment_inv_def slack_def mk_piece_def [of "[]"] dest!: placed_status split: if_splits)
  next
    case 3
    then show ?thesis using fr
      by (auto simp: order_status_init_def Let_def tpcc_inv_def pristine_def order_status_inv_def slack_def mk_piece_def [of "[]"] dest!: placed_status split: if_splits)
  next
    case 4
    then show ?thesis using fr
      by (auto simp: delivery_init_def Let_def tpcc_inv_def pristine_def delivery_inv_def slack_def dest!: placed_status)
  next
    case 5
    then show ?thesis using fr
      by (auto simp: stock_level_init_def Let_def tpcc_inv_def pristine_def stock_level_inv_def slack_def dest!: placed_status)
  qed
qed

end
