(* ===== verification/Txn_Client.thy ===== *)
theory Txn_Client
  imports Tpcc_Contract
begin

text \<open>
  The client: requests of a benchmark become transactions (\<^verbatim>\<open>txn-chopper-factory.cc\<close>) and the coordinator runs
  them. All benchmarks keep the contract of a class of transactions, so what is proved of the coordinator
  holds for them.
\<close>

section \<open>The factory\<close>

definition TPCA :: int where "TPCA = 0"
definition TPCC :: int where "TPCC = 1"
definition RW_BENCHMARK :: int where "RW_BENCHMARK = 2"
definition TPCC_DIST_PART :: int where "TPCC_DIST_PART = 3"
definition TPCC_REAL_DIST_PART :: int where "TPCC_REAL_DIST_PART = 4"
definition MICRO_BENCH :: int where "MICRO_BENCH = 5"

definition new_bench_chopper :: "bool \<Rightarrow> bench_chopper" where
  "new_bench_chopper early_return = chopper.extend (new_chopper early_return) (bench_chopper.fields NoDep)"

definition gen_chopper :: "sharding option \<Rightarrow> bool \<Rightarrow> int \<Rightarrow> txn_request \<Rightarrow> bench_chopper res" where
  "gen_chopper sh early_return benchmark rq =
     (let ch = new_bench_chopper early_return in
      if benchmark = TPCA then verify (rq_txn_type rq = TPCA_PAYMENT) (tpca_init sh rq ch)
      else if benchmark = TPCC then tpcc_init sh TpccChopper rq ch
      else if benchmark = TPCC_DIST_PART then tpcc_init sh TpccDistChopper rq ch
      else if benchmark = TPCC_REAL_DIST_PART then tpcc_init sh TpccRealDistChopper rq ch
      else if benchmark = RW_BENCHMARK then rw_init sh rq ch
      else if benchmark = MICRO_BENCH then micro_init sh rq ch
      else Inl VerifyFailed)"

text \<open>The virtual functions of the transactions of a benchmark.\<close>

definition bench_vt :: "(64 word \<Rightarrow> i32 \<Rightarrow> 64 word) \<Rightarrow> (i32 list \<Rightarrow> i32 list) \<Rightarrow> sharding option \<Rightarrow> int \<Rightarrow> bench_chopper chop_vt" where
  "bench_vt mul iord sh benchmark =
     (if benchmark = TPCA then tpca_vt
      else if benchmark = TPCC then tpcc_vt mul iord sh TpccChopper
      else if benchmark = TPCC_DIST_PART then tpcc_vt mul iord sh TpccDistChopper
      else if benchmark = TPCC_REAL_DIST_PART then tpcc_vt mul iord sh TpccRealDistChopper
      else if benchmark = RW_BENCHMARK then rw_vt
      else micro_vt)"

definition bench_inv :: "int \<Rightarrow> nat set \<Rightarrow> bench_chopper \<Rightarrow> bool" where
  "bench_inv benchmark =
     (if benchmark = TPCA then sized 3
      else if benchmark = TPCC \<or> benchmark = TPCC_DIST_PART \<or> benchmark = TPCC_REAL_DIST_PART then tpcc_inv
      else if benchmark = RW_BENCHMARK then sized 1
      else sized 4)"

interpretation client: chopper_class "bench_vt mul iord sh b" "bench_inv b" for mul iord sh b
  by (simp add: bench_vt_def bench_inv_def tpca.chopper_class_axioms rw.chopper_class_axioms [unfolded One_nat_def] micro.chopper_class_axioms tpcc.chopper_class_axioms)

lemma gen_chopper_fresh:
  assumes "gen_chopper sh er b rq = Inr ch"
  shows "bench_inv b {} ch \<and> pristine ch \<and> ch_n_start_sent ch = 0"
proof -
  have i: "idle_chopper (new_bench_chopper er)" by (simp add: idle_chopper_def new_bench_chopper_def new_chopper_def chopper.defs bench_chopper.defs)
  consider "b = TPCA" "tpca_init sh rq (new_bench_chopper er) = Inr ch"
    | cl where "b \<noteq> TPCA" "b = TPCC \<or> b = TPCC_DIST_PART \<or> b = TPCC_REAL_DIST_PART" "tpcc_init sh cl rq (new_bench_chopper er) = Inr ch"
    | "b = RW_BENCHMARK" "rw_init sh rq (new_bench_chopper er) = Inr ch" | "b = MICRO_BENCH" "micro_init sh rq (new_bench_chopper er) = Inr ch"
    using assms by (auto simp: gen_chopper_def Let_def split: if_splits)
  then show ?thesis
  proof cases
    case 1
    then show ?thesis using tpca_fresh [OF 1(2) i] by (simp add: bench_inv_def)
  next
    case (2 cl)
    then show ?thesis using tpcc_fresh [OF 2(3) i] by (simp add: bench_inv_def)
  next
    case 3
    then show ?thesis using rw_fresh [OF 3(2) i] by (simp add: bench_inv_def RW_BENCHMARK_def TPCA_def TPCC_def TPCC_DIST_PART_def TPCC_REAL_DIST_PART_def)
  next
    case 4
    then show ?thesis
      using micro_fresh [OF 4(2) i] by (simp add: bench_inv_def MICRO_BENCH_def RW_BENCHMARK_def TPCA_def TPCC_def TPCC_DIST_PART_def TPCC_REAL_DIST_PART_def)
  qed
qed

section \<open>Runs of a client\<close>

definition requested :: "sharding option \<Rightarrow> bool \<Rightarrow> int \<Rightarrow> bench_chopper \<Rightarrow> bool" where
  "requested sh er b ch \<longleftrightarrow> (\<exists>rq. gen_chopper sh er b rq = Inr ch)"

text \<open>The states that a client reaches that was made with the identity \<open>cid\<close> for \<open>n\<close> servers.\<close>

definition client_reach ::
    "(uint32 list \<Rightarrow> uint32 list) \<Rightarrow> (64 word \<Rightarrow> i32 \<Rightarrow> 64 word) \<Rightarrow> (i32 list \<Rightarrow> i32 list) \<Rightarrow> sharding option \<Rightarrow> bool \<Rightarrow> int \<Rightarrow> uint32 \<Rightarrow> nat \<Rightarrow> int \<Rightarrow> bool \<Rightarrow>
      bench_chopper coo \<Rightarrow> bool" where
  "client_reach ord mul iord sh er b cid n mode batch s \<longleftrightarrow> coo_reach ord (bench_vt mul iord sh b) (requested sh er b) cid n mode batch s"

lemma client_ok:
  assumes "client_reach ord mul iord sh er b cid n mode batch s" "visits_all ord"
  shows "coo_ok (bench_inv b) mode s"
  using client.coo_invariant [OF assms(1) [unfolded client_reach_def] assms(2)] gen_chopper_fresh unfolding requested_def by blast

text \<open>A small run: one write of the read/write benchmark with two-phase locking on one server, until the decision.\<close>

definition demo_sharding :: sharding where
  "demo_sharding = \<lparr>sh_tb_info = [(''customer'', \<lparr>ti_method = MODULUS, ti_num_site = 1, ti_site_id = Some [0], ti_name = ''customer''\<rparr>)],
     sh_dist2sid = (\<lambda>_. None), sh_dist_size = 0, sh_stock2sid = (\<lambda>_. None), sh_stock_size = 0\<rparr>"

definition demo_request :: txn_request where
  "demo_request = \<lparr>rq_txn_type = 1, rq_input = [I32 7], rq_n_try = 1\<rparr>"

abbreviation demo_vt :: "bench_chopper chop_vt" where
  "demo_vt \<equiv> bench_vt (\<lambda>x y. 0) (\<lambda>x. x) (Some demo_sharding) RW_BENCHMARK"

definition demo_start :: "bench_chopper coo res" where
  "demo_start = rbind (gen_chopper (Some demo_sharding) False RW_BENCHMARK demo_request) (\<lambda>ch. do_one (\<lambda>x. x) demo_vt ch (new_coo 3 1 MODE_2PL False))"

definition demo_voting :: "bench_chopper coo res" where
  "demo_voting = rbind demo_start (coo_reply (\<lambda>x. x) demo_vt 0 (AStart 0 []))"

definition demo_decided :: "bench_chopper coo res" where
  "demo_decided = rbind demo_voting (coo_reply (\<lambda>x. x) demo_vt 0 (APrepare (Some 0)))"

lemma demo_reach:
  assumes "demo_decided = Inr s"
  shows "client_reach (\<lambda>x. x) (\<lambda>x y. 0) (\<lambda>x. x) (Some demo_sharding) False RW_BENCHMARK 3 1 MODE_2PL False s"
proof -
  from assms obtain ch s1 s2 where c: "gen_chopper (Some demo_sharding) False RW_BENCHMARK demo_request = Inr ch"
    "do_one (\<lambda>x. x) demo_vt ch (new_coo 3 1 MODE_2PL False) = Inr s1" "coo_reply (\<lambda>x. x) demo_vt 0 (AStart 0 []) s1 = Inr s2"
    "coo_reply (\<lambda>x. x) demo_vt 0 (APrepare (Some 0)) s2 = Inr s" by (auto simp: demo_decided_def demo_voting_def demo_start_def)
  have "requested (Some demo_sharding) False RW_BENCHMARK ch" using c(1) by (auto simp: requested_def)
  from coo_request [where fresh = "requested (Some demo_sharding) False RW_BENCHMARK", OF coo_init this c(2)]
  have "coo_reach (\<lambda>x. x) demo_vt (requested (Some demo_sharding) False RW_BENCHMARK) 3 1 MODE_2PL False s1" .
  from coo_answer [OF coo_answer [OF this c(3)] c(4)] show ?thesis by (simp add: client_reach_def)
qed

definition demo_reported :: "bench_chopper coo res" where
  "demo_reported = rbind demo_decided (coo_reply (\<lambda>x. x) demo_vt 0 ADone)"

lemma demo_reach_reported:
  assumes "demo_reported = Inr s"
  shows "client_reach (\<lambda>x. x) (\<lambda>x y. 0) (\<lambda>x. x) (Some demo_sharding) False RW_BENCHMARK 3 1 MODE_2PL False s"
proof -
  from assms obtain s1 where s1: "demo_decided = Inr s1" "coo_reply (\<lambda>x. x) demo_vt 0 ADone s1 = Inr s"
    unfolding demo_reported_def rbind_eq_Inr by blast
  show ?thesis using coo_answer [OF demo_reach [OF s1(1), unfolded client_reach_def] s1(2)] by (simp add: client_reach_def)
qed

section \<open>What the coordinator guarantees\<close>

text \<open>C7. Two-phase commit: in every run of the coordinator of a client, for every benchmark and with the answers of the
  servers in any order, a server is told to commit a transaction only if it got a piece in the current attempt, every
  server that got a piece in this attempt has answered its prepare request with yes, no server has refused, and no server
  has been told to abort in this attempt.\<close>

theorem commit_is_unanimous:
  assumes "client_reach ord mul iord sh er b cid n mode batch s" "visits_all ord" "two_phase mode"
    and log: "co_log s = pre @ Sent c k (ReqCommit t) # post" and a: "a = attempt (filter (\<lambda>e. ev_txn e = c) pre)"
  shows "k \<in> set (contacted a) \<and> (\<forall>j\<in>set (contacted a). list_ex (is_yes j) a) \<and> \<not> refused a \<and> \<not> list_ex sends_abort a"
  using client.history_steps [OF client_ok [OF assms(1,2)] assms(3) log] by (simp add: step_ok_def a list_all_iff Let_def)

lemma demo_log:
  "\<exists>s. demo_decided = Inr s \<and> co_log s = (butlast (co_log s)) @ Sent 0 0 (ReqCommit 12884901888) # []"
proof -
  have h: "case demo_decided of Inl e \<Rightarrow> False | Inr s \<Rightarrow> co_log s = (butlast (co_log s)) @ Sent 0 0 (ReqCommit 12884901888) # []" by code_simp
  show ?thesis
  proof (cases demo_decided)
    case (Inl e)
    have False using h [unfolded Inl sum.case(1)] .
    then show ?thesis ..
  next
    case (Inr s)
    have "co_log s = (butlast (co_log s)) @ Sent 0 0 (ReqCommit 12884901888) # []" using h [unfolded Inr sum.case(2)] .
    then show ?thesis using Inr by blast
  qed
qed

theorem commit_is_unanimous_witness:
  "\<exists>s a. demo_decided = Inr s \<and> a = attempt (filter (\<lambda>e. ev_txn e = 0) (butlast (co_log s))) \<and> 0 \<in> set (contacted a) \<and> list_ex (is_yes 0) a \<and> \<not> refused a"
proof -
  obtain s where s: "demo_decided = Inr s" "co_log s = (butlast (co_log s)) @ Sent 0 0 (ReqCommit 12884901888) # []" using demo_log by blast
  have "visits_all (\<lambda>x. x)" "two_phase MODE_2PL" by (simp_all add: visits_all_def two_phase_def)
  from commit_is_unanimous [OF demo_reach [OF s(1)] this s(2) refl] show ?thesis using s(1) by blast
qed


lemma demo_reported_log:
  "\<exists>s. demo_reported = Inr s \<and> co_log s = (butlast (co_log s)) @ Reported 0 0 # []"
proof -
  have h: "case demo_reported of Inl e \<Rightarrow> False | Inr s \<Rightarrow> co_log s = (butlast (co_log s)) @ Reported 0 0 # []" by code_simp
  show ?thesis
  proof (cases demo_reported)
    case (Inl e)
    have False using h [unfolded Inl sum.case(1)] .
    then show ?thesis ..
  next
    case (Inr s)
    have "co_log s = (butlast (co_log s)) @ Reported 0 0 # []" using h [unfolded Inr sum.case(2)] .
    then show ?thesis using Inr by blast
  qed
qed


text \<open>C9. In every mode of the coordinator, including the dependency mode with early replies, read-only transactions and
  batches, a transaction is reported to its caller at most once, and every call whose answer is still to come belongs
  to a transaction that has not been deleted: no callback runs on freed memory.\<close>

theorem reported_once_and_live:
  assumes "client_reach ord mul iord sh er b cid n mode batch s" "visits_all ord"
  shows "length (filter is_report (events_of c s)) \<le> 1 \<and> (\<forall>(k, cb)\<in>set (co_calls s). txn_of (cb_txn cb) s \<noteq> None)"
  using client.reported_once [OF client_ok [OF assms], of c] client.open_call_live [OF client_ok [OF assms]] by (auto simp: reports_def)

theorem reported_once_and_live_witness:
  "\<exists>s. demo_decided = Inr s \<and> length (filter is_report (events_of 0 s)) \<le> 1 \<and> (\<forall>(k, cb)\<in>set (co_calls s). txn_of (cb_txn cb) s \<noteq> None)"
proof -
  obtain s where s: "demo_decided = Inr s" using demo_log by blast
  have "visits_all (\<lambda>x. x)" by (simp add: visits_all_def)
  from reported_once_and_live [OF demo_reach [OF s] this] show ?thesis using s by blast
qed

end
