(* ===== verification/Dtxn_2pl.thy ===== *)
theory Dtxn_2pl
  imports Dtxn_Occ Chopper
begin

text \<open>
  A server with two-phase locking (\<^verbatim>\<open>deptran/dtxn.cc\<close> and the handlers of \<^verbatim>\<open>rcc_service.cc\<close>). A stored procedure
  is called twice: first to find its rows and to ask a lock group for the locks of a piece, and again, from
  the callback of the lock group, to read and write. The reply to a request is sent by a \<^verbatim>\<open>DragonBall\<close> when all
  its pieces are done.

  The lock groups and the ball are code of \<^verbatim>\<open>rrr\<close>: the answers of lock groups and the wounds come in
  as steps of their own, and \<open>pe_fires\<close> says when a ball fires. A lock group may answer inside the call of
  \<^verbatim>\<open>lock_all\<close>; the pieces of a request are therefore started by separate steps, with answers in between.
  A batch and a single piece take their cells for results with them.
\<close>

section \<open>Procedures\<close>

text \<open>The state a procedure works on: the database, the transaction, and its accesses so far. The accesses are
  kept for the statements below, the code does not have them.\<close>

type_synonym proc_state = "db \<times> txn2pl \<times> access list"

definition col_read :: "nat \<Rightarrow> nat \<Rightarrow> proc_state \<Rightarrow> (mvalue option \<times> proc_state) res" where
  "col_read p c = (\<lambda>(d, x, tr). rbind (t2_read_column p c (d, x))
     (\<lambda>(v, d', x'). Inr (v, d', x', case v of None \<Rightarrow> tr | Some w \<Rightarrow> tr @ [AccR p c w])))"

definition col_write :: "nat \<Rightarrow> nat \<Rightarrow> mvalue \<Rightarrow> proc_state \<Rightarrow> (bool \<times> proc_state) res" where
  "col_write p c v = (\<lambda>(d, x, tr). rbind (t2_write_column p c v (d, x))
     (\<lambda>(b, d', x'). Inr (b, d', x', if b then tr @ [AccW p c v] else tr)))"

text \<open>The two calls of a procedure, with the results of queries that the first one leaves in the piece for the second one. The first one
  returns the locks to ask for; \<open>None\<close> stands for a piece that needs no locks and goes on at once
  (\<^verbatim>\<open>get_2pl_proceed_callback\<close>). The second one gets the size of the output and returns the result code and the output.\<close>

record proc2pl =
  pr_locks :: "request_header \<Rightarrow> mvalue list \<Rightarrow> query_buf \<Rightarrow> db \<times> txn2pl \<Rightarrow> ((alock \<times> alock_type) list option \<times> query_buf) res"
  pr_run :: "request_header \<Rightarrow> mvalue list \<Rightarrow> query_buf \<Rightarrow> nat \<Rightarrow> proc_state \<Rightarrow> (int \<times> mvalue list \<times> proc_state) res"

record tpl_env =
  pe_fires :: "nat \<Rightarrow> nat \<Rightarrow> bool"
  pe_proc :: "i32 \<times> i32 \<Rightarrow> proc2pl option"

section \<open>The server\<close>

text \<open>A ball with the triggers it needs and has got; the cells are the results it answers with.\<close>

record reply_ball =
  rb_need :: nat
  rb_count :: nat
  rb_live :: bool
  rb_cells :: "(int \<times> mvalue list) list"

record pie_call =
  pc_header :: request_header
  pc_input :: "mvalue list"
  pc_ball :: nat
  pc_cell :: nat

datatype tpl_out = Answered nat "(int \<times> mvalue list) list" | Voted i64 int | Ended i64

text \<open>\<open>tl_todo\<close> are the pieces of requests that are still to be started, \<open>tl_pies\<close> what the callbacks of a piece have
  captured, \<open>tl_asked\<close> the lock groups without an answer. \<open>tl_trace\<close> and \<open>tl_log\<close> are the accesses of the running and
  of the committed transactions.\<close>

record tpl_server =
  tl_db :: db
  tl_txns :: "(i64 \<times> txn2pl) list"
  tl_cache :: "(i64 \<times> i64) option"
  tl_balls :: "reply_ball list"
  tl_todo :: "pie_call list"
  tl_pies :: "((i64 \<times> i64) \<times> pie_call) list"
  tl_asked :: "(i64 \<times> i64) list"
  tl_out :: "tpl_out list"
  tl_trace :: "i64 \<Rightarrow> access list"
  tl_log :: "access list list"

definition new_tpl_server :: "db \<Rightarrow> tpl_server" where
  "new_tpl_server d = \<lparr>tl_db = d, tl_txns = [], tl_cache = None, tl_balls = [], tl_todo = [], tl_pies = [], tl_asked = [], tl_out = [],
     tl_trace = (\<lambda>_. []), tl_log = []\<rparr>"

definition say :: "tpl_out \<Rightarrow> tpl_server \<Rightarrow> tpl_server" where
  "say x s = s\<lparr>tl_out := tl_out s @ [x]\<rparr>"

text \<open>\<^verbatim>\<open>get_txn\<close> starts a transaction at its first request. All transactions share the cached piece.\<close>

definition get_txn_2pl :: "i64 \<Rightarrow> tpl_server \<Rightarrow> txn2pl \<times> tpl_server" where
  "get_txn_2pl tid s =
     (case map_of (tl_txns s) tid of
        Some x \<Rightarrow> (x\<lparr>t2_cache := tl_cache s\<rparr>, s)
      | None \<Rightarrow> let x = new_txn2pl tid (tl_cache s)
                in (x, s\<lparr>tl_txns := (tid, x) # tl_txns s, tl_trace := (tl_trace s)(tid := [])\<rparr>))"

definition put_txn_2pl :: "i64 \<Rightarrow> txn2pl \<Rightarrow> tpl_server \<Rightarrow> tpl_server" where
  "put_txn_2pl tid x s = s\<lparr>tl_txns := map (\<lambda>e. if fst e = tid then (tid, x) else e) (tl_txns s), tl_cache := t2_cache x\<rparr>"

definition put_cell :: "nat \<Rightarrow> nat \<Rightarrow> int \<times> mvalue list \<Rightarrow> tpl_server \<Rightarrow> tpl_server res" where
  "put_cell b i r s =
     (if b < length (tl_balls s) \<and> i < length (rb_cells (tl_balls s ! b))
      then Inr (s\<lparr>tl_balls := (tl_balls s)[b := (tl_balls s ! b)\<lparr>rb_cells := (rb_cells (tl_balls s ! b))[i := r]\<rparr>]\<rparr>)
      else Inl BadPointer)"

text \<open>A ball that has fired is gone.\<close>

definition trigger_reply :: "(nat \<Rightarrow> nat \<Rightarrow> bool) \<Rightarrow> nat \<Rightarrow> tpl_server \<Rightarrow> tpl_server res" where
  "trigger_reply fires b s =
     (if b < length (tl_balls s) \<and> rb_live (tl_balls s ! b)
      then let r = (tl_balls s ! b)\<lparr>rb_count := rb_count (tl_balls s ! b) + 1\<rparr>
        in if fires (rb_need r) (rb_count r)
           then Inr (say (Answered b (rb_cells r)) (s\<lparr>tl_balls := (tl_balls s)[b := r\<lparr>rb_live := False\<rparr>]\<rparr>))
           else Inr (s\<lparr>tl_balls := (tl_balls s)[b := r]\<rparr>)
      else Inl BadPointer)"

section \<open>Requests\<close>

definition start_pie_2pl :: "request_header \<Rightarrow> mvalue list \<Rightarrow> nat \<Rightarrow> tpl_server \<Rightarrow> tpl_server" where
  "start_pie_2pl h inp output_size s =
     s\<lparr>tl_balls := tl_balls s @ [\<lparr>rb_need = 1, rb_count = 0, rb_live = True, rb_cells = [(SUCCESS, replicate output_size UNKNOWN)]\<rparr>],
       tl_todo := tl_todo s @ [\<lparr>pc_header = h, pc_input = inp, pc_ball = length (tl_balls s), pc_cell = 0\<rparr>]\<rparr>"

definition naive_batch_start_pie :: "request_header list \<Rightarrow> mvalue list list \<Rightarrow> nat list \<Rightarrow> tpl_server \<Rightarrow> tpl_server res" where
  "naive_batch_start_pie hs inputs output_sizes s =
     (if hs = [] \<or> length inputs < length hs \<or> length output_sizes < length hs then Inl OutOfRange
      else Inr (s\<lparr>tl_balls := tl_balls s @
              [\<lparr>rb_need = length hs, rb_count = 0, rb_live = True, rb_cells = map (\<lambda>i. (0, replicate (output_sizes ! i) UNKNOWN)) [0..<length hs]\<rparr>],
            tl_todo := tl_todo s @ map (\<lambda>i. \<lparr>pc_header = hs ! i, pc_input = inputs ! i, pc_ball = length (tl_balls s), pc_cell = i\<rparr>) [0..<length hs]\<rparr>))"

text \<open>The end of a piece: its results are in the cells, the ball is triggered, and the piece is marked.\<close>

definition out_values :: "piece_output \<Rightarrow> mvalue list" where
  "out_values out = (case out of OutArray n \<Rightarrow> [] | OutVec vs \<Rightarrow> vs)"

definition end_piece :: "tpl_env \<Rightarrow> i64 \<Rightarrow> pie_call \<Rightarrow> int \<Rightarrow> piece \<Rightarrow> txn2pl \<Rightarrow> tpl_server \<Rightarrow> tpl_server res" where
  "end_piece env tid pc res ps x s =
     rbind (put_cell (pc_ball pc) (pc_cell pc) (res, out_values (ps_output ps)) s)
       (\<lambda>s1. rbind (trigger_reply (pe_fires env) (pc_ball pc) s1)
         (\<lambda>s2. rbind (set_finish ps)
           (\<lambda>ps1. Inr (put_txn_2pl tid (x\<lparr>t2_pieces := piece_put (hd_pid (pc_header pc)) ps1 (t2_pieces x)\<rparr>) s2))))"

text \<open>The second call of the procedure, or a rejection.\<close>

definition run_piece :: "tpl_env \<Rightarrow> i64 \<Rightarrow> pie_call \<Rightarrow> piece \<Rightarrow> txn2pl \<Rightarrow> tpl_server \<Rightarrow> tpl_server res" where
  "run_piece env tid pc ps x s =
     (if is_rejected (t2_wound x) ps then end_piece env tid pc REJECT (remove_output ps) x s
      else case pe_proc env (hd_t_type (pc_header pc), hd_p_type (pc_header pc)) of
        None \<Rightarrow> Inl VerifyFailed
      | Some pr \<Rightarrow> rbind (pr_run pr (pc_header pc) (pc_input pc) (ps_query_buf ps) (length (out_values (ps_output ps))) (tl_db s, x, tl_trace s tid))
          (\<lambda>(res, outp, d, x1, tr). end_piece env tid pc res (ps\<lparr>ps_output := OutVec outp\<rparr>) x1
             (s\<lparr>tl_db := d, tl_trace := (tl_trace s)(tid := tr)\<rparr>)))"

definition live_piece :: "i64 \<Rightarrow> i64 \<Rightarrow> tpl_server \<Rightarrow> (txn2pl \<times> piece) res" where
  "live_piece tid pid s =
     (case map_of (tl_txns s) tid of
        None \<Rightarrow> Inl BadPointer
      | Some x \<Rightarrow> (case map_of (t2_pieces x) pid of None \<Rightarrow> Inl BadPointer | Some ps \<Rightarrow> Inr (x, ps)))"

text \<open>The callbacks of a lock group of the piece \<open>pid\<close>: they set the cached piece.\<close>

definition lock_answer :: "(piece \<Rightarrow> piece res) \<Rightarrow> (pie_call \<Rightarrow> piece \<Rightarrow> txn2pl \<Rightarrow> tpl_server \<Rightarrow> tpl_server res) \<Rightarrow>
    i64 \<Rightarrow> i64 \<Rightarrow> tpl_server \<Rightarrow> tpl_server res" where
  "lock_answer upd go tid pid s =
     (case map_of (tl_pies s) (tid, pid) of
        None \<Rightarrow> Inl BadPointer
      | Some pc \<Rightarrow> rbind (live_piece tid pid s)
          (\<lambda>(x, ps). rbind (upd ps)
            (\<lambda>ps1. let x1 = x\<lparr>t2_pieces := piece_put pid ps1 (t2_pieces x), t2_cache := Some (tid, pid)\<rparr>;
                       s1 = put_txn_2pl tid x1 (s\<lparr>tl_asked := filter (\<lambda>k. k \<noteq> (tid, pid)) (tl_asked s)\<rparr>)
                   in if can_proceed ps1 then go pc ps1 x1 s1 else Inr s1)))"

definition get_2pl_succ_callback :: "tpl_env \<Rightarrow> i64 \<Rightarrow> i64 \<Rightarrow> tpl_server \<Rightarrow> tpl_server res" where
  "get_2pl_succ_callback env tid pid s = lock_answer start_yes_callback (run_piece env tid) tid pid s"

definition get_2pl_fail_callback :: "tpl_env \<Rightarrow> i64 \<Rightarrow> i64 \<Rightarrow> tpl_server \<Rightarrow> tpl_server res" where
  "get_2pl_fail_callback env tid pid s =
     lock_answer start_no_callback (\<lambda>pc ps. end_piece env tid pc REJECT (remove_output ps)) tid pid s"

definition get_2pl_proceed_callback :: "tpl_env \<Rightarrow> i64 \<Rightarrow> pie_call \<Rightarrow> txn2pl \<Rightarrow> tpl_server \<Rightarrow> tpl_server res" where
  "get_2pl_proceed_callback env tid pc x s =
     rbind (get_piece_status (hd_pid (pc_header pc)) x)
       (\<lambda>(k, x1). case map_of (t2_pieces x1) (hd_pid (pc_header pc)) of
          None \<Rightarrow> Inl BadPointer
        | Some ps \<Rightarrow> run_piece env tid pc ps x1 s)"

definition ask_locks :: "db \<Rightarrow> i64 \<Rightarrow> (alock \<times> alock_type) list \<Rightarrow> txn2pl \<Rightarrow> txn2pl res" where
  "ask_locks d pid ls x =
     rbind (get_piece_status pid x)
       (\<lambda>(k, x1). case map_of (t2_pieces x1) pid of
          None \<Rightarrow> Inl BadPointer
        | Some ps \<Rightarrow> rbind (reg_rw_lock d ls ps)
            (\<lambda>(ps1, calls). Inr (x1\<lparr>t2_pieces := piece_put pid ps1 (t2_pieces x1), t2_calls := t2_calls x1 @ calls\<rparr>)))"

definition put_buf :: "i64 \<Rightarrow> query_buf \<Rightarrow> txn2pl \<Rightarrow> txn2pl" where
  "put_buf pid qb x = (case map_of (t2_pieces x) pid of
     None \<Rightarrow> x
   | Some ps \<Rightarrow> x\<lparr>t2_pieces := piece_put pid (ps\<lparr>ps_query_buf := qb\<rparr>) (t2_pieces x)\<rparr>)"

definition pre_execute_2pl :: "tpl_env \<Rightarrow> pie_call \<Rightarrow> tpl_server \<Rightarrow> tpl_server res" where
  "pre_execute_2pl env pc s =
     (let h = pc_header pc; tid = hd_tid h; pid = hd_pid h; (x, s1) = get_txn_2pl tid s
      in if t2_wound x
         then rbind (put_cell (pc_ball pc) (pc_cell pc) (REJECT, []) s1) (trigger_reply (pe_fires env) (pc_ball pc))
         else if length (tl_balls s1) \<le> pc_ball pc \<or> length (rb_cells (tl_balls s1 ! pc_ball pc)) \<le> pc_cell pc then Inl BadPointer
         else let x1 = init_piece tid pid (OutVec (snd (rb_cells (tl_balls s1 ! pc_ball pc) ! pc_cell pc))) x
              in case pe_proc env (hd_t_type h, hd_p_type h) of
                   None \<Rightarrow> Inl VerifyFailed
                 | Some pr \<Rightarrow> rbind (pr_locks pr h (pc_input pc) new_query_buf (tl_db s1, x1))
                     (\<lambda>(lo, qb). let x2 = put_buf pid qb x1; s2 = put_txn_2pl tid x2 (s1\<lparr>tl_pies := ((tid, pid), pc) # tl_pies s1\<rparr>)
                       in case lo of
                            None \<Rightarrow> get_2pl_proceed_callback env tid pc x2 s2
                          | Some ls \<Rightarrow> rbind (ask_locks (tl_db s2) pid ls x2)
                              (\<lambda>x3. Inr (put_txn_2pl tid x3 (s2\<lparr>tl_asked := tl_asked s2 @ [(tid, pid)]\<rparr>)))))"

definition start_next :: "tpl_env \<Rightarrow> tpl_server \<Rightarrow> tpl_server res" where
  "start_next env s = (case tl_todo s of [] \<Rightarrow> Inr s | pc # rest \<Rightarrow> pre_execute_2pl env pc (s\<lparr>tl_todo := rest\<rparr>))"

section \<open>Prepare, commit and abort\<close>

definition do_prepare_2pl :: "i64 \<Rightarrow> tpl_server \<Rightarrow> tpl_server res" where
  "do_prepare_2pl tid s =
     (case map_of (tl_txns s) tid of
        None \<Rightarrow> Inl VerifyFailed
      | Some x \<Rightarrow> let (yes, x1) = t2_commit_prepare x
          in Inr (say (Voted tid (if yes then SUCCESS else REJECT)) (put_txn_2pl tid (x1\<lparr>t2_cache := tl_cache s\<rparr>) s)))"

text \<open>The transaction is deleted and its entry erased. Its destructor checks that it has no pieces.\<close>

definition end_txn_2pl :: "i64 \<Rightarrow> txn2pl \<Rightarrow> tpl_server \<Rightarrow> tpl_server res" where
  "end_txn_2pl tid x s = verify (t2_pieces x = []) (Inr (say (Ended tid) (s\<lparr>tl_txns := filter (\<lambda>e. fst e \<noteq> tid) (tl_txns s)\<rparr>)))"

definition do_commit_2pl :: "i64 \<Rightarrow> tpl_server \<Rightarrow> tpl_server res" where
  "do_commit_2pl tid s =
     (case map_of (tl_txns s) tid of
        None \<Rightarrow> Inl VerifyFailed
      | Some x \<Rightarrow> rbind (t2_commit (tl_db s, x))
          (\<lambda>(b, d, x1). end_txn_2pl tid x1 (s\<lparr>tl_db := d, tl_log := tl_log s @ [tl_trace s tid]\<rparr>)))"

definition do_abort_2pl :: "i64 \<Rightarrow> tpl_server \<Rightarrow> tpl_server res" where
  "do_abort_2pl tid s =
     (case map_of (tl_txns s) tid of
        None \<Rightarrow> Inl VerifyFailed
      | Some x \<Rightarrow> rbind (t2_abort (tl_db s, x)) (\<lambda>(d, x1). end_txn_2pl tid x1 (s\<lparr>tl_db := d\<rparr>)))"

text \<open>A lock group asks to wound a transaction.\<close>

definition wound_txn :: "i64 \<Rightarrow> tpl_server \<Rightarrow> (int \<times> tpl_server) res" where
  "wound_txn tid s =
     (case map_of (tl_txns s) tid of
        None \<Rightarrow> Inl BadPointer
      | Some x \<Rightarrow> let (r, x1) = wound_callback x in Inr (r, put_txn_2pl tid (x1\<lparr>t2_cache := tl_cache s\<rparr>) s))"

section \<open>Runs\<close>

text \<open>The locks that a transaction has got. Two requests for a lock conflict if one of them is for writing.\<close>

definition piece_locks :: "piece \<Rightarrow> (alock \<times> alock_type) list" where
  "piece_locks ps = (if ps_rw_succ ps then lg_locks (ps_rw_group ps) else []) @ (if ps_rm_succ ps then lg_locks (ps_rm_group ps) else [])"

definition held_locks :: "txn2pl \<Rightarrow> (alock \<times> alock_type) list" where
  "held_locks x = concat (map (\<lambda>e. piece_locks (snd e)) (t2_pieces x))"

fun conflicting :: "alock \<times> alock_type \<Rightarrow> alock \<times> alock_type \<Rightarrow> bool" where
  "conflicting (l, t) (l', t') \<longleftrightarrow> l = l' \<and> (t = WLOCK \<or> t' = WLOCK)"

text \<open>What is relied on of the lock groups: a group is granted only if its locks do not conflict with locks of other
  transactions that have not been wounded. (A wounded transaction may lose its locks before it is aborted.)\<close>

definition grantable :: "i64 \<Rightarrow> i64 \<Rightarrow> tpl_server \<Rightarrow> bool" where
  "grantable tid pid s \<longleftrightarrow> (case live_piece tid pid s of
     Inl _ \<Rightarrow> False
   | Inr (x, ps) \<Rightarrow> list_all (\<lambda>(tid', x'). tid' = tid \<or> t2_wound x' \<or>
       list_all (\<lambda>l. list_all (\<lambda>l'. \<not> conflicting l l') (held_locks x')) (lg_locks (ps_rw_group ps))) (tl_txns s))"

text \<open>A transaction has answered its prepare request with yes.\<close>

definition voted_yes :: "i64 \<Rightarrow> tpl_server \<Rightarrow> bool" where
  "voted_yes tid s \<longleftrightarrow> (case map_of (tl_txns s) tid of None \<Rightarrow> False | Some x \<Rightarrow> t2_prepared x \<and> \<not> t2_wound x)"

text \<open>The configurations that a server reaches. Clients do not use a piece id twice in a transaction and commit only a
  transaction that has voted yes.\<close>

inductive tpl_reach :: "tpl_env \<Rightarrow> db \<Rightarrow> tpl_server \<Rightarrow> bool" for env d0 where
  tpl_init: "tpl_reach env d0 (new_tpl_server d0)"
| tpl_start: "tpl_reach env d0 s \<Longrightarrow> tpl_reach env d0 (start_pie_2pl h inp n s)"
| tpl_batch: "tpl_reach env d0 s \<Longrightarrow> naive_batch_start_pie hs inps ns s = Inr s' \<Longrightarrow> tpl_reach env d0 s'"
| tpl_next: "tpl_reach env d0 s \<Longrightarrow> tl_todo s = pc # rest \<Longrightarrow> map_of (tl_pies s) (hd_tid (pc_header pc), hd_pid (pc_header pc)) = None \<Longrightarrow>
    start_next env s = Inr s' \<Longrightarrow> tpl_reach env d0 s'"
| tpl_grant: "tpl_reach env d0 s \<Longrightarrow> (tid, pid) \<in> set (tl_asked s) \<Longrightarrow> grantable tid pid s \<Longrightarrow>
    get_2pl_succ_callback env tid pid s = Inr s' \<Longrightarrow> tpl_reach env d0 s'"
| tpl_refuse: "tpl_reach env d0 s \<Longrightarrow> (tid, pid) \<in> set (tl_asked s) \<Longrightarrow> get_2pl_fail_callback env tid pid s = Inr s' \<Longrightarrow> tpl_reach env d0 s'"
| tpl_wound: "tpl_reach env d0 s \<Longrightarrow> wound_txn tid s = Inr (r, s') \<Longrightarrow> tpl_reach env d0 s'"
| tpl_prepare: "tpl_reach env d0 s \<Longrightarrow> do_prepare_2pl tid s = Inr s' \<Longrightarrow> tpl_reach env d0 s'"
| tpl_commit: "tpl_reach env d0 s \<Longrightarrow> voted_yes tid s \<Longrightarrow> do_commit_2pl tid s = Inr s' \<Longrightarrow> tpl_reach env d0 s'"
| tpl_abort: "tpl_reach env d0 s \<Longrightarrow> do_abort_2pl tid s = Inr s' \<Longrightarrow> tpl_reach env d0 s'"

end
