(* ===== verification/Dtxn_2pl_Inv.thy ===== *)
theory Dtxn_2pl_Inv
  imports Dtxn_2pl
begin

text \<open>
  Isolation with two-phase locking. A stored procedure keeps to a discipline (\<open>guarded_procs\<close>): it only reads and writes columns
  whose guard is among the locks that its first call asked for, with the lock for writing where it writes, and it writes no
  column of a key. For servers with such procedures every run is serializable in the order of the commits: the invariant says
  what the accesses of a running transaction have to do with the locks it holds.
\<close>

section \<open>Writes that keep the tables\<close>

definition plain_write :: "db \<Rightarrow> nat \<Rightarrow> nat \<Rightarrow> mvalue \<Rightarrow> bool" where
  "plain_write d p c v \<longleftrightarrow> db_writable d p c v \<and> \<not> indexed (col_info (row_schema p d) ! c)"

definition updates_plain :: "db \<Rightarrow> (nat \<times> nat \<times> mvalue) list \<Rightarrow> bool" where
  "updates_plain d us \<longleftrightarrow> list_all (\<lambda>(p, c, v). plain_write d p c v) us \<and> distinct (upd_keys us)"

lemma updates_plain_ok: "updates_plain d us \<Longrightarrow> updates_ok d us"
  by (auto simp: updates_plain_def updates_ok_def plain_write_def list_all_iff)

lemma plain_write_shape: "same_shape d d' \<Longrightarrow> plain_write d' = plain_write d"
  by (simp add: plain_write_def same_shapeD(2,5) fun_eq_iff)

lemma row_upd_plain:
  assumes inv: "db_inv d" and w: "plain_write d p c v" and u: "row_upd p c v d = Inr d'"
  shows "d_tables d' = d_tables d"
proof -
  let ?s = "row_schema p d"
  obtain e t tab where e: "cell_at (d_heap d) p = Inr e" "tbl (c_row e) = Some t" "t < length (d_tables d)"
    "d_tables d ! t = (TBL_SORTED, tab)" "c_schema e = t_schema tab" "c_schema e < length (d_schemas d)" "?s = d_schemas d ! t_schema tab" "schema_inv ?s"
    using in_tableD [OF inv, of p] w unfolding plain_write_def db_writable_def by blast
  have c: "c < length (col_info ?s)" "\<not> indexed (col_info ?s ! c)"
    using w columns_count_le [of ?s] by (auto simp: plain_write_def db_writable_def)
  obtain h' tab' where st: "st_update ?s p c v (d_heap d, tab) = Inr (h', tab')" "d_tables d' = (d_tables d)[t := (TBL_SORTED, tab')]"
    using u e by (auto simp: row_upd_def schema_at_def table_at_def)
  then have "tab' = tab" using e(1,8) c row_update_calls [of ?s c v] by (auto simp: st_update_def split: if_splits)
  then show ?thesis using st(2) e(3,4) by (metis list_update_id)
qed

lemma apply_updates_plain:
  "db_inv d \<Longrightarrow> updates_plain d us \<Longrightarrow>
    \<exists>d'. apply_updates us d = Inr d' \<and> db_inv d' \<and> same_shape d d' \<and> d_tables d' = d_tables d \<and> db_val d' = overlay us (db_val d)"
proof (induction us arbitrary: d)
  case (Cons u us)
  obtain p c v where u: "u = (p, c, v)" by (cases u)
  have w: "plain_write d p c v" "db_writable d p c v" "updates_plain d us" "(p, c) \<notin> set (upd_keys us)"
    using Cons.prems(2) u by (auto simp: updates_plain_def plain_write_def)
  obtain d1 where d1: "row_upd p c v d = Inr d1" "db_inv d1" "same_shape d d1" "db_val d1 = store_val p c v (db_val d)"
    using row_upd_spec [OF Cons.prems(1) w(2)] by (auto simp: store_val_def)
  obtain t where t: "row_table p d = Inr (Some t)" using in_table_row_table [OF Cons.prems(1)] db_writable_in_table [OF w(2)] by blast
  have "updates_plain d1 us" using w(3) plain_write_shape [OF d1(3)] by (simp add: updates_plain_def)
  then obtain d' where "apply_updates us d1 = Inr d'" "db_inv d'" "same_shape d1 d'" "d_tables d' = d_tables d1" "db_val d' = overlay us (db_val d1)"
    using Cons.IH [OF d1(2)] by blast
  then show ?case using u t d1 w(4) row_upd_plain [OF Cons.prems(1) w(1) d1(1)] same_shape_trans [OF d1(3)]
    by (intro exI [of _ d']) (simp add: overlay_Cons)
qed simp

section \<open>Accesses under locks\<close>

text \<open>Every fact that a transaction has read, and every update that it has staged, is covered by a lock; the accesses replay on all
  contents with these facts.\<close>

type_synonym lock_set = "(alock \<times> alock_type) set"

definition reads_ok :: "(alock \<Rightarrow> alock) \<Rightarrow> db \<Rightarrow> lock_set \<Rightarrow> access list \<Rightarrow> (nat \<times> nat \<times> mvalue) list \<Rightarrow> bool" where
  "reads_ok guard d L tr us \<longleftrightarrow> (\<exists>E. fits E (db_val d) \<and> (\<forall>e \<in> E. \<exists>ty. (guard (fst e, fst (snd e)), ty) \<in> L) \<and>
     (\<forall>m. fits E m \<longrightarrow> replay tr m = Some (overlay us m)))"

definition writes_ok :: "(alock \<Rightarrow> alock) \<Rightarrow> lock_set \<Rightarrow> (nat \<times> nat \<times> mvalue) list \<Rightarrow> bool" where
  "writes_ok guard L us \<longleftrightarrow> (\<forall>k \<in> set (upd_keys us). (guard k, WLOCK) \<in> L)"

lemma reads_ok_start: "reads_ok guard d L [] []"
  by (auto simp: reads_ok_def fits_def intro: exI [of _ "{}"])

lemma reads_ok_mono: "reads_ok guard d L tr us \<Longrightarrow> L \<subseteq> L' \<Longrightarrow> reads_ok guard d L' tr us"
  unfolding reads_ok_def by blast

lemma reads_ok_read:
  assumes "reads_ok guard d L tr us" and "(guard (p, c), ty) \<in> L"
  shows "reads_ok guard d L (tr @ [AccR p c (overlay us (db_val d) p c)]) us"
proof -
  obtain E where E: "fits E (db_val d)" "\<forall>e \<in> E. \<exists>ty. (guard (fst e, fst (snd e)), ty) \<in> L" "\<forall>m. fits E m \<longrightarrow> replay tr m = Some (overlay us m)"
    using assms(1) by (auto simp: reads_ok_def)
  let ?E = "insert (p, c, db_val d p c) E"
  have "replay (tr @ [AccR p c (overlay us (db_val d) p c)]) m = Some (overlay us m)" if "fits ?E m" for m
  proof -
    have "fits E m" "m p c = db_val d p c" using that by (simp_all add: fits_def)
    then show ?thesis using E(3) by (simp add: replay_append overlay_def split: option.split)
  qed
  moreover have "fits ?E (db_val d)" "\<forall>e \<in> ?E. \<exists>ty. (guard (fst e, fst (snd e)), ty) \<in> L" using E(1,2) assms(2) by (auto simp: fits_def)
  ultimately show ?thesis unfolding reads_ok_def by blast
qed

lemma reads_ok_write:
  assumes "reads_ok guard d L tr us"
  shows "reads_ok guard d L (tr @ [AccW p c v]) (stage_write p c v us)"
proof -
  obtain E where E: "fits E (db_val d)" "\<forall>e \<in> E. \<exists>ty. (guard (fst e, fst (snd e)), ty) \<in> L" "\<forall>m. fits E m \<longrightarrow> replay tr m = Some (overlay us m)"
    using assms by (auto simp: reads_ok_def)
  then have "\<forall>m. fits E m \<longrightarrow> replay (tr @ [AccW p c v]) m = Some (overlay (stage_write p c v us) m)"
    by (simp add: replay_append overlay_write)
  then show ?thesis using E(1,2) unfolding reads_ok_def by blast
qed

text \<open>Updates of another transaction that holds its locks do not change the facts.\<close>

lemma reads_ok_others:
  assumes r: "reads_ok guard d L tr us" and w: "writes_ok guard L' us'" and free: "\<And>l l'. l \<in> L' \<Longrightarrow> l' \<in> L \<Longrightarrow> \<not> conflicting l l'"
    and v: "db_val d' = overlay us' (db_val d)"
  shows "reads_ok guard d' L tr us"
proof -
  obtain E where E: "fits E (db_val d)" "\<forall>e \<in> E. \<exists>ty. (guard (fst e, fst (snd e)), ty) \<in> L" "\<forall>m. fits E m \<longrightarrow> replay tr m = Some (overlay us m)"
    using r by (auto simp: reads_ok_def)
  have "fits E (db_val d')" unfolding fits_def
  proof
    fix e assume e: "e \<in> E"
    obtain ty where "(guard (fst e, fst (snd e)), ty) \<in> L" using E(2) e by blast
    then have "(guard (fst e, fst (snd e)), WLOCK) \<notin> L'" using free by (metis conflicting.simps)
    then have "upd_find (fst e) (fst (snd e)) us' = None" using w upd_find_None unfolding writes_ok_def by blast
    then show "db_val d' (fst e) (fst (snd e)) = snd (snd e)" using v E(1) e by (simp add: overlay_at fits_def)
  qed
  then show ?thesis using E(2,3) unfolding reads_ok_def by blast
qed

lemma writes_ok_stage: "writes_ok guard L us \<Longrightarrow> (guard (p, c), WLOCK) \<in> L \<Longrightarrow> writes_ok guard L (stage_write p c v us)"
  using stage_write_keys [of p c v us] by (auto simp: writes_ok_def)

section \<open>Client programs of column accesses\<close>

definition guarded_op :: "(alock \<Rightarrow> alock) \<Rightarrow> db \<Rightarrow> lock_set \<Rightarrow> col_op \<Rightarrow> bool" where
  "guarded_op guard d L = op_ok (\<lambda>p c. db_readable d p c \<and> (\<exists>ty. (guard (p, c), ty) \<in> L)) (\<lambda>p c v. plain_write d p c v \<and> (guard (p, c), WLOCK) \<in> L)"

lemma guarded_op_mono: "list_all (guarded_op guard d L) ops \<Longrightarrow> L \<subseteq> L' \<Longrightarrow> list_all (guarded_op guard d L') ops"
proof (induction ops)
  case (Cons op ops)
  then show ?case by (cases op) (auto simp: guarded_op_def)
qed simp

definition txn_grows :: "txn2pl \<Rightarrow> txn2pl \<Rightarrow> bool" where
  "txn_grows x x' \<longleftrightarrow> x = x'\<lparr>sg_reads := sg_reads x, sg_updates := sg_updates x\<rparr>"

lemma txn_grows_refl [simp]: "txn_grows x x"
  by (cases x) (simp add: txn_grows_def)

lemma txn_growsD:
  assumes "txn_grows x x'"
  shows "sg_id x' = sg_id x" "sg_outcome x' = sg_outcome x" "sg_inserts x' = sg_inserts x" "sg_removes x' = sg_removes x"
    "t2_pieces x' = t2_pieces x" "t2_wound x' = t2_wound x" "t2_prepared x' = t2_prepared x"
  using assms by (cases x; cases x'; simp add: txn_grows_def)+

lemma run_ops_guarded:
  "db_inv d \<Longrightarrow> sg_outcome x = NONE \<Longrightarrow> updates_plain d (sg_updates x) \<Longrightarrow> list_all (guarded_op guard d L) ops \<Longrightarrow>
    \<exists>vs x' tr'. run_ops col_read col_write ops (d, x, tr) = Inr (vs, d, x', tr') \<and> txn_grows x x' \<and> updates_plain d (sg_updates x') \<and>
      (reads_ok guard d L tr (sg_updates x) \<longrightarrow> reads_ok guard d L tr' (sg_updates x')) \<and>
      (writes_ok guard L (sg_updates x) \<longrightarrow> writes_ok guard L (sg_updates x'))"
proof (induction ops arbitrary: x tr)
  case (Cons op ops)
  show ?case
  proof (cases op)
    case (Rd p c)
    then obtain ty where r: "db_readable d p c" "(guard (p, c), ty) \<in> L" using Cons.prems(4) by (auto simp: guarded_op_def)
    obtain x1 where x1: "t2_read_column p c (d, x) = Inr (Some (overlay (sg_updates x) (db_val d) p c), d, x1)"
      "x1 = x \<or> x1 = x\<lparr>sg_reads := mm_ins p c (sg_reads x)\<rparr>"
      using t2_read_spec [OF Cons.prems(1) r(1) Cons.prems(2)] by blast
    have u1: "sg_outcome x1 = NONE" "sg_updates x1 = sg_updates x" using x1(2) Cons.prems(2) by auto
    obtain vs x' tr' where "run_ops col_read col_write ops (d, x1, tr @ [AccR p c (overlay (sg_updates x) (db_val d) p c)]) = Inr (vs, d, x', tr')"
      "txn_grows x1 x'" "updates_plain d (sg_updates x')"
      "reads_ok guard d L (tr @ [AccR p c (overlay (sg_updates x) (db_val d) p c)]) (sg_updates x) \<longrightarrow> reads_ok guard d L tr' (sg_updates x')"
      "writes_ok guard L (sg_updates x) \<longrightarrow> writes_ok guard L (sg_updates x')"
      using Cons.IH [OF Cons.prems(1) u1(1)] Cons.prems(3,4) u1(2) by fastforce
    moreover have "col_read p c (d, x, tr) = Inr (Some (overlay (sg_updates x) (db_val d) p c), d, x1, tr @ [AccR p c (overlay (sg_updates x) (db_val d) p c)])"
      using x1(1) by (simp add: col_read_def)
    moreover have "txn_grows x x'" using calculation(2) x1(2) by (cases x; cases x'; auto simp: txn_grows_def)
    ultimately show ?thesis using r(2) reads_ok_read [of guard d L tr "sg_updates x" p c ty] Rd by (intro exI) auto
  next
    case (Wr p c v)
    then have w: "plain_write d p c v" "db_writable d p c v" "(guard (p, c), WLOCK) \<in> L"
      using Cons.prems(4) by (auto simp: guarded_op_def plain_write_def)
    let ?x = "x\<lparr>sg_updates := stage_write p c v (sg_updates x)\<rparr>"
    obtain t where t: "row_table p d = Inr (Some t)" using in_table_row_table [OF Cons.prems(1)] db_writable_in_table [OF w(2)] by blast
    have u: "updates_plain d (sg_updates ?x)"
      using stage_write_pred [of "plain_write d" "sg_updates x" p c v] Cons.prems(3) w(1) by (simp add: updates_plain_def)
    obtain vs x' tr' where "run_ops col_read col_write ops (d, ?x, tr @ [AccW p c v]) = Inr (vs, d, x', tr')" "txn_grows ?x x'"
      "updates_plain d (sg_updates x')" "reads_ok guard d L (tr @ [AccW p c v]) (sg_updates ?x) \<longrightarrow> reads_ok guard d L tr' (sg_updates x')"
      "writes_ok guard L (sg_updates ?x) \<longrightarrow> writes_ok guard L (sg_updates x')"
      using Cons.IH [OF Cons.prems(1) _ u] Cons.prems(2,4) by fastforce
    moreover have "col_write p c v (d, x, tr) = Inr (True, d, ?x, tr @ [AccW p c v])"
      using t Cons.prems(2) by (simp add: col_write_def t2_write_column_def)
    moreover have "txn_grows x x'" using calculation(2) by (cases x; cases x'; auto simp: txn_grows_def)
    ultimately show ?thesis
      using reads_ok_write [of guard d L tr "sg_updates x" p c v] writes_ok_stage [of guard L "sg_updates x" p c v] w(3) Wr by (intro exI) auto
  qed
qed auto

section \<open>Procedures that keep to their locks\<close>

definition plain_db :: "db \<Rightarrow> db \<Rightarrow> bool" where
  "plain_db d0 d \<longleftrightarrow> db_inv d \<and> same_shape d0 d \<and> d_tables d = d_tables d0"

definition plain_txn :: "txn2pl \<Rightarrow> bool" where
  "plain_txn x \<longleftrightarrow> sg_outcome x = NONE \<and> sg_inserts x = [] \<and> sg_removes x = []"

definition locks_of :: "(alock \<times> alock_type) list option \<Rightarrow> lock_set" where
  "locks_of lo = (case lo of None \<Rightarrow> {} | Some ls \<Rightarrow> set ls)"

text \<open>The locks and the results of queries come from a first call of the procedure, at some earlier time.\<close>

definition from_proc :: "tpl_env \<Rightarrow> db \<Rightarrow> pie_call \<Rightarrow> lock_set \<Rightarrow> query_buf \<Rightarrow> bool" where
  "from_proc env d0 pc L qb \<longleftrightarrow> (\<exists>pr d1 x1 lo. pe_proc env (hd_t_type (pc_header pc), hd_p_type (pc_header pc)) = Some pr \<and> plain_db d0 d1 \<and>
     plain_txn x1 \<and> pr_locks pr (pc_header pc) (pc_input pc) new_query_buf (d1, x1) = Inr (lo, qb) \<and> L = locks_of lo)"

locale guarded_procs =
  fixes env :: tpl_env
    and guard :: "alock \<Rightarrow> alock"
    and good :: "db \<Rightarrow> bool"
  assumes start_inv: "good d0 \<Longrightarrow> db_inv d0"
    and guarded: "good d0 \<Longrightarrow> from_proc env d0 pc L qb \<Longrightarrow> pe_proc env (hd_t_type (pc_header pc), hd_p_type (pc_header pc)) = Some pr \<Longrightarrow>
      plain_db d0 d \<Longrightarrow> plain_txn x \<Longrightarrow> updates_plain d (sg_updates x) \<Longrightarrow> pr_run pr (pc_header pc) (pc_input pc) qb n (d, x, tr) = Inr (res, outp, st) \<Longrightarrow>
      \<exists>ops vs. list_all (guarded_op guard d L) ops \<and> run_ops col_read col_write ops (d, x, tr) = Inr (vs, st)"

section \<open>The invariant\<close>

definition txn_locks :: "txn2pl \<Rightarrow> lock_set" where
  "txn_locks x = set (held_locks x)"

definition no_conflict :: "lock_set \<Rightarrow> lock_set \<Rightarrow> bool" where
  "no_conflict L L' \<longleftrightarrow> (\<forall>l \<in> L. \<forall>l' \<in> L'. \<not> conflicting l l')"

definition txn2_ok :: "(alock \<Rightarrow> alock) \<Rightarrow> db \<Rightarrow> access list \<Rightarrow> i64 \<times> txn2pl \<Rightarrow> bool" where
  "txn2_ok guard d tr e \<longleftrightarrow> sg_id (snd e) = fst e \<and> plain_txn (snd e) \<and> updates_plain d (sg_updates (snd e)) \<and> distinct (map fst (t2_pieces (snd e))) \<and>
     (\<not> t2_wound (snd e) \<longrightarrow> reads_ok guard d (txn_locks (snd e)) tr (sg_updates (snd e)) \<and> writes_ok guard (txn_locks (snd e)) (sg_updates (snd e)))"

definition lock_waiting :: "piece \<Rightarrow> bool" where
  "lock_waiting ps \<longleftrightarrow> ps_is_rw ps \<and> \<not> ps_rw_succ ps \<and> \<not> ps_rm_succ ps \<and> \<not> ps_finish ps \<and> ps_num_acquired ps = 0 \<and> ps_num_waiting ps = 1"

definition asked_ok :: "tpl_env \<Rightarrow> db \<Rightarrow> ((i64 \<times> i64) \<times> pie_call) list \<Rightarrow> txn2pl \<Rightarrow> i64 \<times> i64 \<Rightarrow> bool" where
  "asked_ok env d0 pies x k \<longleftrightarrow> (\<exists>pc ps. map_of pies k = Some pc \<and> hd_tid (pc_header pc) = fst k \<and> hd_pid (pc_header pc) = snd k \<and>
     map_of (t2_pieces x) (snd k) = Some ps \<and> lock_waiting ps \<and> from_proc env d0 pc (set (lg_locks (ps_rw_group ps))) (ps_query_buf ps))"

definition tpl_inv :: "tpl_env \<Rightarrow> (alock \<Rightarrow> alock) \<Rightarrow> db \<Rightarrow> tpl_server \<Rightarrow> bool" where
  "tpl_inv env guard d0 s \<longleftrightarrow> plain_db d0 (tl_db s) \<and> distinct (map fst (tl_txns s)) \<and>
     (\<forall>e \<in> set (tl_txns s). txn2_ok guard (tl_db s) (tl_trace s (fst e)) e) \<and>
     (\<forall>e \<in> set (tl_txns s). \<forall>e' \<in> set (tl_txns s). fst e \<noteq> fst e' \<longrightarrow> \<not> t2_wound (snd e) \<longrightarrow> \<not> t2_wound (snd e') \<longrightarrow>
        no_conflict (txn_locks (snd e)) (txn_locks (snd e'))) \<and>
     (\<forall>k \<in> set (tl_asked s). \<exists>x. map_of (tl_txns s) (fst k) = Some x \<and> asked_ok env d0 (tl_pies s) x k) \<and>
     (\<forall>e \<in> set (tl_txns s). \<forall>pid \<in> fst ` set (t2_pieces (snd e)). map_of (tl_pies s) (fst e, pid) \<noteq> None) \<and>
     replay (concat (tl_log s)) (db_val d0) = Some (db_val (tl_db s))"

lemma no_conflict_sym: "no_conflict L L' \<Longrightarrow> no_conflict L' L"
  by (fastforce simp: no_conflict_def)

lemma tpl_inv_core:
  assumes "tl_db s' = tl_db s" and "tl_txns s' = tl_txns s" and "tl_pies s' = tl_pies s" and "tl_asked s' = tl_asked s" and "tl_trace s' = tl_trace s"
    and "tl_log s' = tl_log s"
  shows "tpl_inv env guard d0 s' = tpl_inv env guard d0 s"
  using assms by (simp add: tpl_inv_def)

lemma tpl_invD:
  assumes "tpl_inv env guard d0 s" and "map_of (tl_txns s) tid = Some x"
  shows "plain_db d0 (tl_db s)" "distinct (map fst (tl_txns s))" "txn2_ok guard (tl_db s) (tl_trace s tid) (tid, x)"
    "e' \<in> set (tl_txns s) \<Longrightarrow> fst e' \<noteq> tid \<Longrightarrow> \<not> t2_wound x \<Longrightarrow> \<not> t2_wound (snd e') \<Longrightarrow> no_conflict (txn_locks x) (txn_locks (snd e'))"
    "(tid, pid) \<in> set (tl_asked s) \<Longrightarrow> asked_ok env d0 (tl_pies s) x (tid, pid)"
    "map_of (t2_pieces x) pid \<noteq> None \<Longrightarrow> map_of (tl_pies s) (tid, pid) \<noteq> None"
    "replay (concat (tl_log s)) (db_val d0) = Some (db_val (tl_db s))"
proof -
  note m = map_of_SomeD [OF assms(2)] and I = assms(1) [unfolded tpl_inv_def]
  show "txn2_ok guard (tl_db s) (tl_trace s tid) (tid, x)" using bspec [OF conjunct1 [OF conjunct2 [OF conjunct2 [OF I]]] m] by simp
  have "\<forall>e' \<in> set (tl_txns s). tid \<noteq> fst e' \<longrightarrow> \<not> t2_wound x \<longrightarrow> \<not> t2_wound (snd e') \<longrightarrow> no_conflict (txn_locks x) (txn_locks (snd e'))"
    using bspec [OF conjunct1 [OF conjunct2 [OF conjunct2 [OF conjunct2 [OF I]]]] m] by simp
  then show "e' \<in> set (tl_txns s) \<Longrightarrow> fst e' \<noteq> tid \<Longrightarrow> \<not> t2_wound x \<Longrightarrow> \<not> t2_wound (snd e') \<Longrightarrow> no_conflict (txn_locks x) (txn_locks (snd e'))"
    by metis
  have "\<forall>k \<in> set (tl_asked s). \<exists>x. map_of (tl_txns s) (fst k) = Some x \<and> asked_ok env d0 (tl_pies s) x k" using I by blast
  then show "(tid, pid) \<in> set (tl_asked s) \<Longrightarrow> asked_ok env d0 (tl_pies s) x (tid, pid)" using assms(2) by fastforce
  have "\<forall>e \<in> set (tl_txns s). \<forall>pid \<in> fst ` set (t2_pieces (snd e)). map_of (tl_pies s) (fst e, pid) \<noteq> None" using I by blast
  then have "\<forall>pid \<in> fst ` set (t2_pieces x). map_of (tl_pies s) (tid, pid) \<noteq> None" using m by (metis fst_conv snd_conv)
  then show "map_of (t2_pieces x) pid \<noteq> None \<Longrightarrow> map_of (tl_pies s) (tid, pid) \<noteq> None" by (metis map_of_eq_None_iff)
qed (use assms(1) in \<open>simp_all add: tpl_inv_def\<close>)

section \<open>One transaction goes on\<close>

definition set_txn :: "i64 \<Rightarrow> txn2pl \<Rightarrow> (i64 \<times> txn2pl) list \<Rightarrow> (i64 \<times> txn2pl) list" where
  "set_txn tid x ts = map (\<lambda>e. if fst e = tid then (tid, x) else e) ts"

lemma set_txn_fst [simp]: "map fst (set_txn tid x ts) = map fst ts"
  by (simp add: set_txn_def comp_def if_distrib [of fst] cong: map_cong if_cong)

lemma set_txn_set:
  "distinct (map fst ts) \<Longrightarrow> map_of ts tid = Some x0 \<Longrightarrow> set (set_txn tid x ts) = insert (tid, x) {e \<in> set ts. fst e \<noteq> tid}"
  by (force simp: set_txn_def dest: map_of_SomeD)

lemma map_of_set_txn: "map_of (set_txn tid x ts) t = (if t = tid then map_option (\<lambda>_. x) (map_of ts tid) else map_of ts t)"
  by (induction ts) (auto simp: set_txn_def)

lemma set_txn_map_of: "map_of ts tid = Some x0 \<Longrightarrow> map_of (set_txn tid x ts) t = (if t = tid then Some x else map_of ts t)"
  by (simp add: map_of_set_txn)

lemma set_txn_twice [simp]: "set_txn tid x' (set_txn tid x ts) = set_txn tid x' ts"
  by (simp add: set_txn_def comp_def if_distrib [of fst] cong: map_cong if_cong)

lemma put_txn_fields [simp]:
  "tl_txns (put_txn_2pl tid x s) = set_txn tid x (tl_txns s)" "tl_db (put_txn_2pl tid x s) = tl_db s" "tl_pies (put_txn_2pl tid x s) = tl_pies s"
  "tl_asked (put_txn_2pl tid x s) = tl_asked s" "tl_trace (put_txn_2pl tid x s) = tl_trace s" "tl_log (put_txn_2pl tid x s) = tl_log s"
  "tl_balls (put_txn_2pl tid x s) = tl_balls s" "tl_todo (put_txn_2pl tid x s) = tl_todo s" "tl_out (put_txn_2pl tid x s) = tl_out s"
  by (simp_all add: put_txn_2pl_def set_txn_def)

lemma tpl_step:
  assumes inv: "tpl_inv env guard d0 s" and x: "map_of (tl_txns s) tid = Some x"
    and s': "tl_db s' = tl_db s" "tl_txns s' = set_txn tid x' (tl_txns s)" "tl_log s' = tl_log s" "\<And>t. t \<noteq> tid \<Longrightarrow> tl_trace s' t = tl_trace s t"
    and ok: "txn2_ok guard (tl_db s) (tl_trace s' tid) (tid, x')"
    and pies: "\<And>k pc. map_of (tl_pies s) k = Some pc \<Longrightarrow> map_of (tl_pies s') k = Some pc"
    and keys: "\<And>pid. map_of (t2_pieces x') pid \<noteq> None \<Longrightarrow> map_of (tl_pies s') (tid, pid) \<noteq> None"
    and excl: "\<And>e. \<not> t2_wound x' \<Longrightarrow> e \<in> set (tl_txns s) \<Longrightarrow> fst e \<noteq> tid \<Longrightarrow> \<not> t2_wound (snd e) \<Longrightarrow> no_conflict (txn_locks x') (txn_locks (snd e))"
    and asked: "\<And>t pid. (t, pid) \<in> set (tl_asked s') \<Longrightarrow> if t = tid then asked_ok env d0 (tl_pies s') x' (t, pid) else (t, pid) \<in> set (tl_asked s)"
  shows "tpl_inv env guard d0 s'"
proof -
  note D = tpl_invD [OF inv x]
  note S = set_txn_set [OF D(2) x, of x'] and M = set_txn_map_of [OF x, of x']
  have "\<forall>e \<in> set (tl_txns s'). txn2_ok guard (tl_db s') (tl_trace s' (fst e)) e" using inv s' ok S by (auto simp: tpl_inv_def)
  moreover have "\<forall>e \<in> set (tl_txns s'). \<forall>e' \<in> set (tl_txns s'). fst e \<noteq> fst e' \<longrightarrow> \<not> t2_wound (snd e) \<longrightarrow> \<not> t2_wound (snd e') \<longrightarrow>
      no_conflict (txn_locks (snd e)) (txn_locks (snd e'))"
  proof (intro ballI impI)
    fix e e' assume e: "e \<in> set (tl_txns s')" "e' \<in> set (tl_txns s')" "fst e \<noteq> fst e'" "\<not> t2_wound (snd e)" "\<not> t2_wound (snd e')"
    have m: "e = (tid, x') \<or> e \<in> set (tl_txns s) \<and> fst e \<noteq> tid" "e' = (tid, x') \<or> e' \<in> set (tl_txns s) \<and> fst e' \<noteq> tid"
      using e(1,2) s'(2) S by auto
    show "no_conflict (txn_locks (snd e)) (txn_locks (snd e'))"
    proof (cases "e = (tid, x')")
      case True
      then show ?thesis using excl [of e'] m(2) e(3-5) by auto
    next
      case False
      then show ?thesis using excl [of e, THEN no_conflict_sym] m e(3-5) inv [unfolded tpl_inv_def] by (cases "e' = (tid, x')") auto
    qed
  qed
  moreover have "\<forall>k \<in> set (tl_asked s'). \<exists>y. map_of (tl_txns s') (fst k) = Some y \<and> asked_ok env d0 (tl_pies s') y k"
  proof
    fix k assume k: "k \<in> set (tl_asked s')"
    show "\<exists>y. map_of (tl_txns s') (fst k) = Some y \<and> asked_ok env d0 (tl_pies s') y k"
    proof (cases "fst k = tid")
      case True
      then show ?thesis using asked [of tid "snd k"] k s'(2) M by (metis prod.collapse)
    next
      case False
      then have "k \<in> set (tl_asked s)" using asked [of "fst k" "snd k"] k by simp
      then obtain y where "map_of (tl_txns s) (fst k) = Some y" "asked_ok env d0 (tl_pies s) y k" using inv by (auto simp: tpl_inv_def)
      then show ?thesis using pies [of k] False s'(2) M unfolding asked_ok_def by auto
    qed
  qed
  moreover have "\<forall>e \<in> set (tl_txns s'). \<forall>pid \<in> fst ` set (t2_pieces (snd e)). map_of (tl_pies s') (fst e, pid) \<noteq> None"
  proof (intro ballI)
    fix e pid assume e: "e \<in> set (tl_txns s')" "pid \<in> fst ` set (t2_pieces (snd e))"
    show "map_of (tl_pies s') (fst e, pid) \<noteq> None"
    proof (cases "fst e = tid")
      case True
      then have "snd e = x'" using e(1) s'(2) S by auto
      then show ?thesis using keys [of pid] True e(2) by (auto simp: map_of_eq_None_iff)
    next
      case False
      then have "e \<in> set (tl_txns s)" using e(1) s'(2) S by auto
      then have "map_of (tl_pies s) (fst e, pid) \<noteq> None" using inv e(2) unfolding tpl_inv_def by blast
      then show ?thesis using pies by auto
    qed
  qed
  ultimately show ?thesis using inv D(2) s'(1,2,3) by (simp add: tpl_inv_def)
qed

section \<open>Locks of a transaction\<close>

lemma piece_put_of: "map_of (piece_put pid ps m) = (map_of m)(pid \<mapsto> ps)"
proof
  fix k
  have "map_of (filter (\<lambda>e. fst e \<noteq> pid) m) k = (if k = pid then None else map_of m k)"
    by (induction m) auto
  then show "map_of (piece_put pid ps m) k = ((map_of m)(pid \<mapsto> ps)) k" by (simp add: piece_put_def)
qed

lemma piece_put_distinct: "distinct (map fst m) \<Longrightarrow> distinct (map fst (piece_put pid ps m))"
  by (auto simp: piece_put_def distinct_map_filter)

lemma piece_put_twice [simp]: "piece_put pid ps' (piece_put pid ps m) = piece_put pid ps' m"
  by (simp add: piece_put_def)

lemma txn_locks_put:
  assumes "distinct (map fst (t2_pieces x))" and "\<And>ps0. map_of (t2_pieces x) pid = Some ps0 \<Longrightarrow> set (piece_locks ps0) \<subseteq> set (piece_locks ps)"
    and "t2_pieces y = piece_put pid ps (t2_pieces x)"
  shows "txn_locks y = set (piece_locks ps) \<union> txn_locks x"
proof -
  have "set (piece_locks (snd e)) \<subseteq> set (piece_locks ps)" if "e \<in> set (t2_pieces x)" "fst e = pid" for e
    using assms(1,2) that by (metis map_of_eq_Some_iff prod.collapse)
  then show ?thesis using assms(3) by (auto simp: txn_locks_def held_locks_def piece_put_def)
qed

lemma new_piece_locks [simp]: "piece_locks ((new_piece tid pid out)\<lparr>ps_query_buf := qb\<rparr>) = []"
  by (simp add: piece_locks_def new_piece_def)

lemma txn_locks_pieces: "t2_pieces y = t2_pieces x \<Longrightarrow> txn_locks y = txn_locks x"
  by (simp add: txn_locks_def held_locks_def)

section \<open>Pieces\<close>

lemma put_cell_fields:
  "put_cell b i r s = Inr s' \<Longrightarrow> \<exists>bs. s' = s\<lparr>tl_balls := bs\<rparr>"
  by (auto simp: put_cell_def split: if_splits)

lemma trigger_reply_fields:
  "trigger_reply fires b s = Inr s' \<Longrightarrow> \<exists>bs out. s' = s\<lparr>tl_balls := bs, tl_out := out\<rparr>"
  by (cases s) (auto simp: trigger_reply_def say_def Let_def split: if_splits)

lemma end_piece_fields:
  assumes "end_piece env tid pc res ps x s = Inr s'"
  shows "\<not> ps_finish ps" "\<exists>bs out. s' = put_txn_2pl tid (x\<lparr>t2_pieces := piece_put (hd_pid (pc_header pc)) (ps\<lparr>ps_finish := True\<rparr>) (t2_pieces x)\<rparr>)
      (s\<lparr>tl_balls := bs, tl_out := out\<rparr>)"
  using assms by (auto simp: end_piece_def set_finish_def dest!: put_cell_fields trigger_reply_fields) blast

lemma pre_execute_go:
  assumes run: "pre_execute_2pl env pc s = Inr s'" and g: "get_txn_2pl (hd_tid (pc_header pc)) s = (x, s1)" "\<not> t2_wound x"
    and x1: "x1 = init_piece (hd_tid (pc_header pc)) (hd_pid (pc_header pc)) (OutVec (snd (rb_cells (tl_balls s1 ! pc_ball pc) ! pc_cell pc))) x"
    and s2: "\<And>qb. s2 qb = put_txn_2pl (hd_tid (pc_header pc)) (put_buf (hd_pid (pc_header pc)) qb x1)
      (s1\<lparr>tl_pies := ((hd_tid (pc_header pc), hd_pid (pc_header pc)), pc) # tl_pies s1\<rparr>)"
  shows "\<exists>pr lo qb. pe_proc env (hd_t_type (pc_header pc), hd_p_type (pc_header pc)) = Some pr \<and>
    pr_locks pr (pc_header pc) (pc_input pc) new_query_buf (tl_db s1, x1) = Inr (lo, qb) \<and>
    (case lo of None \<Rightarrow> get_2pl_proceed_callback env (hd_tid (pc_header pc)) pc (put_buf (hd_pid (pc_header pc)) qb x1) (s2 qb)
     | Some ls \<Rightarrow> rbind (ask_locks (tl_db (s2 qb)) (hd_pid (pc_header pc)) ls (put_buf (hd_pid (pc_header pc)) qb x1))
         (\<lambda>x3. Inr (put_txn_2pl (hd_tid (pc_header pc)) x3
           ((s2 qb)\<lparr>tl_asked := tl_asked (s2 qb) @ [(hd_tid (pc_header pc), hd_pid (pc_header pc))]\<rparr>)))) = Inr s'"
proof -
  obtain pr where pr: "pe_proc env (hd_t_type (pc_header pc), hd_p_type (pc_header pc)) = Some pr"
    using run g by (auto simp: pre_execute_2pl_def Let_def split: option.splits if_splits)
  obtain lo qb where lo: "pr_locks pr (pc_header pc) (pc_input pc) new_query_buf (tl_db s1, x1) = Inr (lo, qb)"
    using run g pr by (cases "pr_locks pr (pc_header pc) (pc_input pc) new_query_buf (tl_db s1, x1)")
      (auto simp: pre_execute_2pl_def Let_def x1 split: if_splits)
  show ?thesis
    using run g pr lo by (intro exI [of _ pr] exI [of _ lo] exI [of _ qb], cases lo) (simp_all add: pre_execute_2pl_def Let_def x1 s2 split: if_splits)
qed

context guarded_procs
begin

lemma finish_inv:
  assumes inv: "tpl_inv env guard d0 s" and x: "map_of (tl_txns s) tid = Some x" and ps: "map_of (t2_pieces x) pid = Some ps"
    and na: "(tid, pid) \<notin> set (tl_asked s)" and x1: "txn_grows x x1" "updates_plain (tl_db s) (sg_updates x1)"
    and ok: "\<not> t2_wound x \<Longrightarrow> reads_ok guard (tl_db s) (txn_locks x) tr (sg_updates x1) \<and> writes_ok guard (txn_locks x) (sg_updates x1)"
    and ps1: "piece_locks ps1 = piece_locks ps"
    and s': "tl_db s' = tl_db s" "tl_txns s' = set_txn tid (x1\<lparr>t2_pieces := piece_put pid ps1 (t2_pieces x1)\<rparr>) (tl_txns s)" "tl_log s' = tl_log s"
      "tl_trace s' = (tl_trace s)(tid := tr)" "tl_pies s' = tl_pies s" "tl_asked s' = tl_asked s"
  shows "tpl_inv env guard d0 s'"
proof -
  let ?x = "x1\<lparr>t2_pieces := piece_put pid ps1 (t2_pieces x1)\<rparr>"
  note D = tpl_invD [OF inv x] and G = txn_growsD [OF x1(1)]
  have T: "sg_id x = tid" "plain_txn x" "distinct (map fst (t2_pieces x))" using D(3) by (simp_all add: txn2_ok_def)
  have L: "txn_locks ?x = txn_locks x"
    using txn_locks_put [OF T(3), of pid ps1 ?x] ps ps1 G(5) map_of_SomeD [OF ps] by (auto simp: txn_locks_def held_locks_def)
  have "txn2_ok guard (tl_db s) (tl_trace s' tid) (tid, ?x)"
    using T x1(2) ok G s'(4) L piece_put_distinct by (simp add: txn2_ok_def plain_txn_def)
  then show ?thesis
  proof (rule tpl_step [OF inv x s'(1-3), rotated])
    show "map_of (tl_pies s') (tid, q) \<noteq> None" if "map_of (t2_pieces ?x) q \<noteq> None" for q
      using that ps D(6) [of q] D(6) [of pid] s'(5) G(5) by (cases "q = pid") (auto simp: piece_put_of)
    show "if t = tid then asked_ok env d0 (tl_pies s') ?x (t, q) else (t, q) \<in> set (tl_asked s)" if "(t, q) \<in> set (tl_asked s')" for t q
      using that D(5) [of q] na s'(5,6) G(5) by (auto simp: asked_ok_def piece_put_of)
  qed (use L D(4) G(6) s'(4,5) in auto)
qed

lemma run_piece_inv:
  assumes good: "good d0" and inv: "tpl_inv env guard d0 s" and x: "map_of (tl_txns s) tid = Some x" and ps: "map_of (t2_pieces x) (hd_pid (pc_header pc)) = Some ps"
    and na: "(tid, hd_pid (pc_header pc)) \<notin> set (tl_asked s)" and L: "from_proc env d0 pc L (ps_query_buf ps)" "L \<subseteq> txn_locks x"
    and run: "run_piece env tid pc ps x s = Inr s'"
  shows "tpl_inv env guard d0 s'"
proof -
  note D = tpl_invD [OF inv x]
  have T: "plain_txn x" "updates_plain (tl_db s) (sg_updates x)"
    "\<not> t2_wound x \<Longrightarrow> reads_ok guard (tl_db s) (txn_locks x) (tl_trace s tid) (sg_updates x) \<and> writes_ok guard (txn_locks x) (sg_updates x)"
    using D(3) by (simp_all add: txn2_ok_def)
  show ?thesis
  proof (cases "is_rejected (t2_wound x) ps")
    case True
    then have "end_piece env tid pc REJECT (remove_output ps) x s = Inr s'" using run by (simp add: run_piece_def)
    from end_piece_fields(2) [OF this] show ?thesis
      using finish_inv [OF inv x ps na txn_grows_refl T(2,3), of "(remove_output ps)\<lparr>ps_finish := True\<rparr>"] by (auto simp: remove_output_def piece_locks_def)
  next
    case False
    obtain pr res outp d x1 tr where pr: "pe_proc env (hd_t_type (pc_header pc), hd_p_type (pc_header pc)) = Some pr"
      "pr_run pr (pc_header pc) (pc_input pc) (ps_query_buf ps) (length (out_values (ps_output ps))) (tl_db s, x, tl_trace s tid) = Inr (res, outp, d, x1, tr)"
      "end_piece env tid pc res (ps\<lparr>ps_output := OutVec outp\<rparr>) x1 (s\<lparr>tl_db := d, tl_trace := (tl_trace s)(tid := tr)\<rparr>) = Inr s'"
      using run False by (auto simp: run_piece_def split: option.splits)
    have wd: "\<not> t2_wound x" using False by (simp add: is_rejected_def)
    obtain ops vs where ops: "list_all (guarded_op guard (tl_db s) L) ops"
      "run_ops col_read col_write ops (tl_db s, x, tl_trace s tid) = Inr (vs, d, x1, tr)"
      using guarded [OF good L(1) pr(1) D(1) T(1,2) pr(2)] by auto
    have "db_inv (tl_db s)" "sg_outcome x = NONE" using D(1) T(1) by (simp_all add: plain_db_def plain_txn_def)
    then have r: "d = tl_db s" "txn_grows x x1" "updates_plain (tl_db s) (sg_updates x1)"
      "reads_ok guard (tl_db s) (txn_locks x) tr (sg_updates x1)" "writes_ok guard (txn_locks x) (sg_updates x1)"
      using run_ops_guarded [OF _ _ T(2) guarded_op_mono [OF ops(1) L(2)], of "tl_trace s tid"] ops(2) T(3) wd by auto
    show ?thesis
      using end_piece_fields(2) [OF pr(3)] finish_inv [OF inv x ps na r(2,3), of tr "ps\<lparr>ps_output := OutVec outp, ps_finish := True\<rparr>"] r(1,4,5)
      by (auto simp: piece_locks_def)
  qed
qed

text \<open>A transaction starts.\<close>

lemma txn2_ok_cache [simp]: "txn2_ok guard d tr (tid, x\<lparr>t2_cache := c\<rparr>) = txn2_ok guard d tr (tid, x)"
  using txn_locks_pieces [of "x\<lparr>t2_cache := c\<rparr>" x] by (simp add: txn2_ok_def plain_txn_def)

lemma new_txn_inv:
  assumes inv: "tpl_inv env guard d0 s" and new: "map_of (tl_txns s) tid = None"
  shows "tpl_inv env guard d0 (s\<lparr>tl_txns := (tid, new_txn2pl tid c) # tl_txns s, tl_trace := (tl_trace s)(tid := [])\<rparr>)"
proof -
  let ?x = "new_txn2pl tid c"
  have x: "sg_id ?x = tid" "plain_txn ?x" "sg_updates ?x = []" "t2_pieces ?x = []"
    by (simp_all add: new_txn2pl_def new_stage_def plain_txn_def stage.defs)
  have t: "tid \<notin> fst ` set (tl_txns s)" using new by (simp add: map_of_eq_None_iff)
  have l: "txn_locks ?x = {}" using x(4) by (simp add: txn_locks_def held_locks_def)
  have "txn2_ok guard (tl_db s) [] (tid, ?x)" using x reads_ok_start by (simp add: txn2_ok_def updates_plain_def writes_ok_def)
  moreover have "\<forall>k \<in> set (tl_asked s). fst k \<noteq> tid" using inv new unfolding tpl_inv_def by fastforce
  moreover have "\<forall>e \<in> set (tl_txns s). fst e \<noteq> tid" using t by force
  ultimately show ?thesis using inv t l x(4) by (simp add: tpl_inv_def no_conflict_def del: map_of_eq_Some_iff)
qed

lemma get_txn_inv:
  assumes inv: "tpl_inv env guard d0 s" and g: "get_txn_2pl tid s = (x, s1)"
  shows "tpl_inv env guard d0 s1" "\<exists>x0. map_of (tl_txns s1) tid = Some x0 \<and> x = x0\<lparr>t2_cache := tl_cache s\<rparr>" "tl_pies s1 = tl_pies s"
    "tl_db s1 = tl_db s" "tl_balls s1 = tl_balls s" "tl_asked s1 = tl_asked s" "tl_todo s1 = tl_todo s" "tl_out s1 = tl_out s"
proof -
  have "tpl_inv env guard d0 s1 \<and> (\<exists>x0. map_of (tl_txns s1) tid = Some x0 \<and> x = x0\<lparr>t2_cache := tl_cache s\<rparr>)"
  proof (cases "map_of (tl_txns s) tid")
    case None
    then show ?thesis using new_txn_inv [OF inv None] g
      by (auto simp: get_txn_2pl_def Let_def new_txn2pl_def stage.defs)
  qed (use inv g in \<open>auto simp: get_txn_2pl_def\<close>)
  then show "tpl_inv env guard d0 s1" "\<exists>x0. map_of (tl_txns s1) tid = Some x0 \<and> x = x0\<lparr>t2_cache := tl_cache s\<rparr>" by simp_all
qed (use g in \<open>auto simp: get_txn_2pl_def Let_def split: option.splits\<close>)

text \<open>A piece starts: at first without locks.\<close>

lemma init_piece_inv:
  assumes inv: "tpl_inv env guard d0 s" and x0: "map_of (tl_txns s) tid = Some x0" "x = x0\<lparr>t2_cache := c\<rparr>"
    and new: "map_of (tl_pies s) (tid, pid) = None"
  shows "tpl_inv env guard d0 (put_txn_2pl tid (put_buf pid qb (init_piece tid pid out x)) (s\<lparr>tl_pies := ((tid, pid), pc) # tl_pies s\<rparr>))"
    "map_of (t2_pieces (put_buf pid qb (init_piece tid pid out x))) pid = Some ((new_piece tid pid out)\<lparr>ps_query_buf := qb\<rparr>)"
    "plain_txn (init_piece tid pid out x)" "(tid, pid) \<notin> set (tl_asked s)"
proof -
  let ?x = "put_buf pid qb (init_piece tid pid out x)" and ?s = "put_txn_2pl tid (put_buf pid qb (init_piece tid pid out x)) (s\<lparr>tl_pies := ((tid, pid), pc) # tl_pies s\<rparr>)"
  note D = tpl_invD [OF inv x0(1)]
  have T: "sg_id x0 = tid" "plain_txn x0" "distinct (map fst (t2_pieces x0))" using D(3) by (simp_all add: txn2_ok_def)
  have xx: "?x = x0\<lparr>t2_pieces := piece_put pid ((new_piece tid pid out)\<lparr>ps_query_buf := qb\<rparr>) (t2_pieces x0), t2_cache := Some (sg_id x0, pid)\<rparr>"
    by (simp add: put_buf_def init_piece_def x0(2) piece_put_of)
  then have p: "t2_pieces ?x = piece_put pid ((new_piece tid pid out)\<lparr>ps_query_buf := qb\<rparr>) (t2_pieces x0)" by simp
  have none: "map_of (t2_pieces x0) pid = None" using D(6) new by blast
  then have L: "txn_locks ?x = txn_locks x0" using txn_locks_put [OF T(3) _ p] by simp
  show na: "(tid, pid) \<notin> set (tl_asked s)" using D(5) [of pid] new by (auto simp: asked_ok_def)
  show "map_of (t2_pieces ?x) pid = Some ((new_piece tid pid out)\<lparr>ps_query_buf := qb\<rparr>)" using p by (simp add: piece_put_of)
  show "plain_txn (init_piece tid pid out x)" using T(2) x0(2) by (simp add: init_piece_def plain_txn_def)
  have ok: "txn2_ok guard (tl_db s) (tl_trace ?s tid) (tid, ?x)"
    using D(3) L piece_put_distinct [OF T(3)] by (simp add: xx txn2_ok_def plain_txn_def)
  show "tpl_inv env guard d0 ?s"
  proof (rule tpl_step [OF inv x0(1) _ _ _ _ ok])
    show "map_of (tl_pies ?s) (tid, q) \<noteq> None" if "map_of (t2_pieces ?x) q \<noteq> None" for q
      using that D(6) [of q] by (cases "q = pid") (auto simp: p piece_put_of)
    show "if t = tid then asked_ok env d0 (tl_pies ?s) ?x (t, q) else (t, q) \<in> set (tl_asked s)" if "(t, q) \<in> set (tl_asked ?s)" for t q
    proof (cases "t = tid")
      case True
      then have "q \<noteq> pid" "asked_ok env d0 (tl_pies s) x0 (tid, q)" using that na D(5) by auto
      then show ?thesis using True p by (auto simp: asked_ok_def piece_put_of)
    qed (use that in simp)
  qed (use new L D(4) in \<open>auto simp: xx\<close>)
qed

text \<open>The locks of a piece are asked for.\<close>

lemma ask_inv:
  assumes inv: "tpl_inv env guard d0 s" and x: "map_of (tl_txns s) tid = Some x" and ps: "map_of (t2_pieces x) pid = Some ((new_piece tid pid out)\<lparr>ps_query_buf := qb\<rparr>)"
    and na: "(tid, pid) \<notin> set (tl_asked s)" and pc: "map_of (tl_pies s) (tid, pid) = Some pc" "hd_tid (pc_header pc) = tid" "hd_pid (pc_header pc) = pid"
    and L: "from_proc env d0 pc (set ls) qb" and cache: "t2_cache x = Some (sg_id x, pid)" and ask: "ask_locks d pid ls x = Inr x2"
  shows "tpl_inv env guard d0 (put_txn_2pl tid x2 (s\<lparr>tl_asked := tl_asked s @ [(tid, pid)]\<rparr>))"
proof -
  let ?s = "put_txn_2pl tid x2 (s\<lparr>tl_asked := tl_asked s @ [(tid, pid)]\<rparr>)"
  note D = tpl_invD [OF inv x]
  have T: "sg_id x = tid" "plain_txn x" "distinct (map fst (t2_pieces x))" using D(3) by (simp_all add: txn2_ok_def)
  obtain ps1 cs where x2: "x2 = x\<lparr>t2_pieces := piece_put pid ps1 (t2_pieces x), t2_calls := cs\<rparr>" "lock_waiting ps1" "piece_locks ps1 = []"
    "lg_locks (ps_rw_group ps1) = ls" "ps_query_buf ps1 = qb"
  proof -
    have "get_piece_status pid x = Inr ((sg_id x, pid), x)" using cache ps by (simp add: get_piece_status_def)
    then show ?thesis using that ask ps
      by (auto simp: ask_locks_def reg_rw_lock_def add_locks_def Let_def lock_waiting_def piece_locks_def new_piece_def)
  qed
  have Lk: "txn_locks x2 = txn_locks x"
    using txn_locks_put [OF T(3), of pid ps1 x2] ps x2(1,3) by simp
  have ok: "txn2_ok guard (tl_db s) (tl_trace ?s tid) (tid, x2)"
    using D(3) Lk piece_put_distinct [OF T(3)] x2(1) by (simp add: txn2_ok_def plain_txn_def)
  show ?thesis
  proof (rule tpl_step [OF inv x _ _ _ _ ok])
    show "map_of (tl_pies ?s) (tid, q) \<noteq> None" if "map_of (t2_pieces x2) q \<noteq> None" for q
      using that D(6) [of q] pc(1) x2(1) by (cases "q = pid") (auto simp: piece_put_of)
    show "if t = tid then asked_ok env d0 (tl_pies ?s) x2 (t, q) else (t, q) \<in> set (tl_asked s)" if "(t, q) \<in> set (tl_asked ?s)" for t q
    proof (cases "(t, q) = (tid, pid)")
      case True
      then show ?thesis using pc L x2 by (simp add: asked_ok_def piece_put_of)
    next
      case False
      then show ?thesis using that D(5) [of q] x2(1) by (auto simp: asked_ok_def piece_put_of)
    qed
  qed (use Lk D(4) x2(1) in auto)
qed

lemma pre_execute_inv:
  assumes good: "good d0" and inv: "tpl_inv env guard d0 s" and new: "map_of (tl_pies s) (hd_tid (pc_header pc), hd_pid (pc_header pc)) = None"
    and run: "pre_execute_2pl env pc s = Inr s'"
  shows "tpl_inv env guard d0 s'"
proof -
  let ?tid = "hd_tid (pc_header pc)" and ?pid = "hd_pid (pc_header pc)"
  obtain x s1 where g: "get_txn_2pl ?tid s = (x, s1)" by fastforce
  note G = get_txn_inv [OF inv g]
  obtain x0 where x0: "map_of (tl_txns s1) ?tid = Some x0" "x = x0\<lparr>t2_cache := tl_cache s\<rparr>" using G(2) by blast
  show ?thesis
  proof (cases "t2_wound x")
    case True
    then obtain t where "put_cell (pc_ball pc) (pc_cell pc) (REJECT, []) s1 = Inr t" "trigger_reply (pe_fires env) (pc_ball pc) t = Inr s'"
      using run g by (auto simp: pre_execute_2pl_def)
    then obtain bs out where "s' = s1\<lparr>tl_balls := bs, tl_out := out\<rparr>" by (auto dest!: put_cell_fields trigger_reply_fields)
    then show ?thesis using G(1) tpl_inv_core [of s' s1] by simp
  next
    case False
    define out where "out = OutVec (snd (rb_cells (tl_balls s1 ! pc_ball pc) ! pc_cell pc))"
    define x1 where "x1 = init_piece ?tid ?pid out x"
    define x2 where "x2 qb = put_buf ?pid qb x1" for qb
    define s2 where "s2 qb = put_txn_2pl ?tid (x2 qb) (s1\<lparr>tl_pies := ((?tid, ?pid), pc) # tl_pies s1\<rparr>)" for qb
    have new1: "map_of (tl_pies s1) (?tid, ?pid) = None" using new G(3) by simp
    note I = init_piece_inv(1) [OF G(1) x0 new1, of _ out pc, folded x1_def, folded x2_def, folded s2_def]
      init_piece_inv(2) [OF G(1) x0 new1, of _ out, folded x1_def, folded x2_def] init_piece_inv(3) [OF G(1) x0 new1, of out, folded x1_def]
      init_piece_inv(4) [OF G(1) x0 new1]
    have x2: "map_of (tl_txns (s2 qb)) ?tid = Some (x2 qb)" for qb using set_txn_map_of [OF x0(1)] by (simp add: s2_def)
    have na: "(?tid, ?pid) \<notin> set (tl_asked (s2 qb))" for qb using I(4) by (simp add: s2_def)
    have pd: "plain_db d0 (tl_db s1)" using tpl_invD(1) [OF G(1) x0(1)] .
    have ch: "t2_cache (x2 qb) = Some (sg_id (x2 qb), ?pid)" for qb by (simp add: x2_def x1_def put_buf_def init_piece_def split: option.split)
    obtain pr lo qb where pr: "pe_proc env (hd_t_type (pc_header pc), hd_p_type (pc_header pc)) = Some pr"
        "pr_locks pr (pc_header pc) (pc_input pc) new_query_buf (tl_db s1, x1) = Inr (lo, qb)"
      and cont: "(case lo of None \<Rightarrow> get_2pl_proceed_callback env ?tid pc (x2 qb) (s2 qb)
         | Some ls \<Rightarrow> rbind (ask_locks (tl_db (s2 qb)) ?pid ls (x2 qb))
             (\<lambda>x3. Inr (put_txn_2pl ?tid x3 ((s2 qb)\<lparr>tl_asked := tl_asked (s2 qb) @ [(?tid, ?pid)]\<rparr>)))) = Inr s'"
      using pre_execute_go [OF run g False x1_def [unfolded out_def] s2_def [unfolded x2_def]] unfolding x2_def by blast
    have L: "from_proc env d0 pc (locks_of lo) qb" using pr pd I(3) unfolding from_proc_def by blast
    show ?thesis
    proof (cases lo)
      case None
      then have "run_piece env ?tid pc ((new_piece ?tid ?pid out)\<lparr>ps_query_buf := qb\<rparr>) (x2 qb) (s2 qb) = Inr s'"
        using cont ch I(2) by (simp add: get_2pl_proceed_callback_def get_piece_status_def)
      then show ?thesis using run_piece_inv [OF good I(1) x2 I(2) na] L None by (simp add: locks_of_def)
    next
      case (Some ls)
      then obtain x3 where x3: "ask_locks (tl_db (s2 qb)) ?pid ls (x2 qb) = Inr x3"
        "s' = put_txn_2pl ?tid x3 ((s2 qb)\<lparr>tl_asked := tl_asked (s2 qb) @ [(?tid, ?pid)]\<rparr>)" using cont by auto
      have "map_of (tl_pies (s2 qb)) (?tid, ?pid) = Some pc" by (simp add: s2_def)
      then show ?thesis using ask_inv [OF I(1) x2 I(2) na _ refl refl _ ch x3(1)] L Some x3(2) by (simp add: locks_of_def)
    qed
  qed
qed

text \<open>A lock group answers.\<close>

lemma answer_inv:
  assumes inv: "tpl_inv env guard d0 s" and x: "map_of (tl_txns s) tid = Some x" and ps: "map_of (t2_pieces x) pid = Some ps" "piece_locks ps = []"
    and pies: "map_of (tl_pies s) (tid, pid) \<noteq> None"
    and free: "\<And>e. e \<in> set (tl_txns s) \<Longrightarrow> fst e \<noteq> tid \<Longrightarrow> \<not> t2_wound (snd e) \<Longrightarrow> no_conflict (set (piece_locks ps1)) (txn_locks (snd e))"
    and x1: "x1 = x\<lparr>t2_pieces := piece_put pid ps1 (t2_pieces x), t2_cache := c\<rparr>"
  shows "tpl_inv env guard d0 (put_txn_2pl tid x1 (s\<lparr>tl_asked := filter (\<lambda>k. k \<noteq> (tid, pid)) (tl_asked s)\<rparr>))"
    "txn_locks x1 = set (piece_locks ps1) \<union> txn_locks x"
proof -
  let ?s = "put_txn_2pl tid x1 (s\<lparr>tl_asked := filter (\<lambda>k. k \<noteq> (tid, pid)) (tl_asked s)\<rparr>)"
  note D = tpl_invD [OF inv x]
  have T: "sg_id x = tid" "plain_txn x" "distinct (map fst (t2_pieces x))" using D(3) by (simp_all add: txn2_ok_def)
  show L: "txn_locks x1 = set (piece_locks ps1) \<union> txn_locks x" using txn_locks_put [OF T(3), of pid ps1 x1] ps x1 by simp
  have "txn_locks x \<subseteq> txn_locks x1" using L by simp
  then have ok: "txn2_ok guard (tl_db s) (tl_trace ?s tid) (tid, x1)"
    using D(3) piece_put_distinct [OF T(3)] x1 reads_ok_mono by (auto simp: txn2_ok_def plain_txn_def writes_ok_def)
  show "tpl_inv env guard d0 ?s"
  proof (rule tpl_step [OF inv x _ _ _ _ ok])
    show "map_of (tl_pies ?s) (tid, q) \<noteq> None" if "map_of (t2_pieces x1) q \<noteq> None" for q
      using that D(6) [of q] pies x1 by (cases "q = pid") (auto simp: piece_put_of)
    show "if t = tid then asked_ok env d0 (tl_pies ?s) x1 (t, q) else (t, q) \<in> set (tl_asked s)" if "(t, q) \<in> set (tl_asked ?s)" for t q
      using that D(5) [of q] x1 by (auto simp: asked_ok_def piece_put_of)
    show "no_conflict (txn_locks x1) (txn_locks (snd e))"
      if "\<not> t2_wound x1" "e \<in> set (tl_txns s)" "fst e \<noteq> tid" "\<not> t2_wound (snd e)" for e
      using free [OF that(2-4)] D(4) [OF that(2,3) _ that(4)] that(1) L x1 by (auto simp: no_conflict_def)
  qed auto
qed

lemma asked_lookup:
  assumes inv: "tpl_inv env guard d0 s" and a: "(tid, pid) \<in> set (tl_asked s)"
  shows "\<exists>x ps pc. map_of (tl_txns s) tid = Some x \<and> map_of (t2_pieces x) pid = Some ps \<and> lock_waiting ps \<and> map_of (tl_pies s) (tid, pid) = Some pc \<and>
    hd_tid (pc_header pc) = tid \<and> hd_pid (pc_header pc) = pid \<and> from_proc env d0 pc (set (lg_locks (ps_rw_group ps))) (ps_query_buf ps)"
proof -
  have "\<forall>k \<in> set (tl_asked s). \<exists>x. map_of (tl_txns s) (fst k) = Some x \<and> asked_ok env d0 (tl_pies s) x k"
    using inv unfolding tpl_inv_def by blast
  then show ?thesis using a by (fastforce simp: asked_ok_def)
qed

lemma lock_answer_go:
  assumes "map_of (tl_txns s) tid = Some x" and "map_of (t2_pieces x) pid = Some ps" and "map_of (tl_pies s) (tid, pid) = Some pc"
    and "upd ps = Inr ps1" and "can_proceed ps1" and "x1 = x\<lparr>t2_pieces := piece_put pid ps1 (t2_pieces x), t2_cache := Some (tid, pid)\<rparr>"
  shows "lock_answer upd go tid pid s = go pc ps1 x1 (put_txn_2pl tid x1 (s\<lparr>tl_asked := filter (\<lambda>k. k \<noteq> (tid, pid)) (tl_asked s)\<rparr>))"
  using assms by (simp add: lock_answer_def live_piece_def Let_def)

lemma waiting_answers:
  assumes "lock_waiting ps"
  shows "start_yes_callback ps = Inr (ps\<lparr>ps_num_acquired := 1, ps_rw_succ := True\<rparr>)" "start_no_callback ps = Inr (ps\<lparr>ps_num_acquired := 1, ps_rej := True\<rparr>)"
    "can_proceed (ps\<lparr>ps_num_acquired := 1, ps_rw_succ := True\<rparr>)" "can_proceed (ps\<lparr>ps_num_acquired := 1, ps_rej := True\<rparr>)"
  using assms by (simp_all add: lock_waiting_def start_yes_callback_def start_no_callback_def can_proceed_def)

lemma grant_inv:
  assumes good: "good d0" and inv: "tpl_inv env guard d0 s" and a: "(tid, pid) \<in> set (tl_asked s)" and g: "grantable tid pid s"
    and run: "get_2pl_succ_callback env tid pid s = Inr s'"
  shows "tpl_inv env guard d0 s'"
proof -
  obtain x ps pc where A: "map_of (tl_txns s) tid = Some x" "map_of (t2_pieces x) pid = Some ps" "lock_waiting ps" "map_of (tl_pies s) (tid, pid) = Some pc"
    "hd_tid (pc_header pc) = tid" "hd_pid (pc_header pc) = pid" "from_proc env d0 pc (set (lg_locks (ps_rw_group ps))) (ps_query_buf ps)"
    using asked_lookup [OF inv a] by blast
  define ps1 where "ps1 = ps\<lparr>ps_num_acquired := 1, ps_rw_succ := True\<rparr>"
  define x1 where "x1 = x\<lparr>t2_pieces := piece_put pid ps1 (t2_pieces x), t2_cache := Some (tid, pid)\<rparr>"
  define s1 where "s1 = put_txn_2pl tid x1 (s\<lparr>tl_asked := filter (\<lambda>k. k \<noteq> (tid, pid)) (tl_asked s)\<rparr>)"
  have run1: "run_piece env tid pc ps1 x1 s1 = Inr s'"
    using run lock_answer_go [where upd = start_yes_callback, OF A(1,2,4) waiting_answers(1,3) [OF A(3)] x1_def [unfolded ps1_def]]
    by (simp add: get_2pl_succ_callback_def s1_def ps1_def)
  have none: "piece_locks ps = []" "piece_locks ps1 = lg_locks (ps_rw_group ps)" using A(3) by (simp_all add: lock_waiting_def piece_locks_def ps1_def)
  have "no_conflict (set (piece_locks ps1)) (txn_locks (snd e))" if "e \<in> set (tl_txns s)" "fst e \<noteq> tid" "\<not> t2_wound (snd e)" for e
    using g A(1,2) that none(2) by (fastforce simp: grantable_def live_piece_def list_all_iff no_conflict_def txn_locks_def)
  note S = answer_inv [OF inv A(1,2) none(1) _ this x1_def, folded s1_def]
  have m: "map_of (tl_txns s1) tid = Some x1" using set_txn_map_of [OF A(1)] by (simp add: s1_def)
  have p: "map_of (t2_pieces x1) (hd_pid (pc_header pc)) = Some ps1" using A(6) by (simp add: x1_def piece_put_of)
  have "(tid, hd_pid (pc_header pc)) \<notin> set (tl_asked s1)" using A(6) by (simp add: s1_def)
  then show ?thesis using run_piece_inv [OF good S(1) m p _ _ _ run1, of "set (lg_locks (ps_rw_group ps))"] A(7) S(2) A(4) none(2) by (simp add: ps1_def)
qed

lemma refuse_inv:
  assumes inv: "tpl_inv env guard d0 s" and a: "(tid, pid) \<in> set (tl_asked s)" and run: "get_2pl_fail_callback env tid pid s = Inr s'"
  shows "tpl_inv env guard d0 s'"
proof -
  obtain x ps pc where A: "map_of (tl_txns s) tid = Some x" "map_of (t2_pieces x) pid = Some ps" "lock_waiting ps" "map_of (tl_pies s) (tid, pid) = Some pc"
    "hd_pid (pc_header pc) = pid"
    using asked_lookup [OF inv a] by blast
  define ps1 where "ps1 = ps\<lparr>ps_num_acquired := 1, ps_rej := True\<rparr>"
  define x1 where "x1 = x\<lparr>t2_pieces := piece_put pid ps1 (t2_pieces x), t2_cache := Some (tid, pid)\<rparr>"
  define s1 where "s1 = put_txn_2pl tid x1 (s\<lparr>tl_asked := filter (\<lambda>k. k \<noteq> (tid, pid)) (tl_asked s)\<rparr>)"
  have run1: "end_piece env tid pc REJECT (remove_output ps1) x1 s1 = Inr s'"
    using run lock_answer_go [where upd = start_no_callback, OF A(1,2,4) waiting_answers(2,4) [OF A(3)] x1_def [unfolded ps1_def]]
    by (simp add: get_2pl_fail_callback_def s1_def ps1_def)
  have none: "piece_locks ps = []" "piece_locks ps1 = []" using A(3) by (simp_all add: lock_waiting_def piece_locks_def ps1_def)
  have S: "tpl_inv env guard d0 s1"
    using answer_inv(1) [OF inv A(1,2) none(1) _ _ x1_def, folded s1_def] A(4) none(2) by (simp add: no_conflict_def)
  have m: "map_of (tl_txns s1) tid = Some x1" using set_txn_map_of [OF A(1)] by (simp add: s1_def)
  have p: "map_of (t2_pieces x1) pid = Some ps1" by (simp add: x1_def piece_put_of)
  have na: "(tid, pid) \<notin> set (tl_asked s1)" by (simp add: s1_def)
  have T: "updates_plain (tl_db s1) (sg_updates x1)"
    "\<not> t2_wound x1 \<Longrightarrow> reads_ok guard (tl_db s1) (txn_locks x1) (tl_trace s1 tid) (sg_updates x1) \<and> writes_ok guard (txn_locks x1) (sg_updates x1)"
    using tpl_invD(3) [OF S m] by (simp_all add: txn2_ok_def)
  show ?thesis
    using end_piece_fields(2) [OF run1] finish_inv [OF S m p na txn_grows_refl T, of "(remove_output ps1)\<lparr>ps_finish := True\<rparr>"] A(5)
    by (auto simp: remove_output_def piece_locks_def)
qed

text \<open>A wound or a prepare request changes flags only.\<close>

lemma flags_inv:
  assumes inv: "tpl_inv env guard d0 s" and x: "map_of (tl_txns s) tid = Some x" and w: "t2_wound x \<longrightarrow> w"
  shows "tpl_inv env guard d0 (put_txn_2pl tid (x\<lparr>t2_wound := w, t2_prepared := b, t2_cache := c\<rparr>) s)"
proof -
  let ?x = "x\<lparr>t2_wound := w, t2_prepared := b, t2_cache := c\<rparr>"
  note D = tpl_invD [OF inv x]
  have L: "txn_locks ?x = txn_locks x" by (rule txn_locks_pieces) simp
  have "txn2_ok guard (tl_db s) (tl_trace (put_txn_2pl tid ?x s) tid) (tid, ?x)" using D(3) L w by (auto simp: txn2_ok_def plain_txn_def)
  then show ?thesis
    by (rule tpl_step [OF inv x, rotated 4]) (use D(4-6) L w in \<open>auto simp: asked_ok_def\<close>)
qed

lemma wound_inv:
  assumes "tpl_inv env guard d0 s" and "wound_txn tid s = Inr (r, s')"
  shows "tpl_inv env guard d0 s'"
proof -
  obtain x where x: "map_of (tl_txns s) tid = Some x" using assms(2) by (auto simp: wound_txn_def split: option.splits)
  have "s' = put_txn_2pl tid (x\<lparr>t2_wound := t2_wound x \<or> \<not> t2_prepared x, t2_prepared := t2_prepared x, t2_cache := tl_cache s\<rparr>) s"
    using assms(2) x by (cases x; cases "t2_prepared x") (auto simp: wound_txn_def wound_callback_def)
  then show ?thesis using flags_inv [OF assms(1) x, where w = "t2_wound x \<or> \<not> t2_prepared x" and b = "t2_prepared x" and c = "tl_cache s"] by simp
qed

lemma prepare_inv:
  assumes "tpl_inv env guard d0 s" and "do_prepare_2pl tid s = Inr s'"
  shows "tpl_inv env guard d0 s'"
proof -
  obtain x where x: "map_of (tl_txns s) tid = Some x" using assms(2) by (auto simp: do_prepare_2pl_def split: option.splits)
  have "s' = say (Voted tid (if t2_wound x then REJECT else SUCCESS)) (put_txn_2pl tid (x\<lparr>t2_wound := t2_wound x, t2_prepared := True, t2_cache := tl_cache s\<rparr>) s)"
    using assms(2) x by (cases x) (auto simp: do_prepare_2pl_def t2_commit_prepare_def Let_def)
  then show ?thesis
    using flags_inv [OF assms(1) x, where w = "t2_wound x" and b = True and c = "tl_cache s"]
      tpl_inv_core [of s' "put_txn_2pl tid (x\<lparr>t2_wound := t2_wound x, t2_prepared := True, t2_cache := tl_cache s\<rparr>) s"] by (simp add: say_def)
qed

text \<open>A transaction ends: its pieces are finished, so none of them waits for locks.\<close>

lemma release_finished: "release_pieces f es = Inr cs \<Longrightarrow> f \<in> {ps_commit, ps_abort} \<Longrightarrow> e \<in> set es \<Longrightarrow> ps_finish (snd e)"
  by (induction es arbitrary: cs) (auto simp: ps_commit_def ps_abort_def)

lemma end_inv:
  assumes inv: "tpl_inv env guard d0 s" and x: "map_of (tl_txns s) tid = Some x" and fin: "\<forall>e \<in> set (t2_pieces x). ps_finish (snd e)"
    and db: "plain_db d0 d'" "same_shape (tl_db s) d'" "db_val d' = db_val (tl_db s) \<or> \<not> t2_wound x \<and> db_val d' = overlay (sg_updates x) (db_val (tl_db s))"
    and log: "replay (concat log) (db_val d0) = Some (db_val d')"
    and s': "tl_db s' = d'" "tl_txns s' = filter (\<lambda>e. fst e \<noteq> tid) (tl_txns s)" "tl_log s' = log" "tl_trace s' = tl_trace s" "tl_pies s' = tl_pies s"
      "tl_asked s' = tl_asked s"
  shows "tpl_inv env guard d0 s'"
proof -
  note D = tpl_invD [OF inv x]
  have W: "\<not> t2_wound x \<Longrightarrow> writes_ok guard (txn_locks x) (sg_updates x)" using D(3) by (simp add: txn2_ok_def)
  have "txn2_ok guard d' (tl_trace s (fst e)) e" if e: "e \<in> set (tl_txns s)" "fst e \<noteq> tid" for e
  proof -
    have ok: "txn2_ok guard (tl_db s) (tl_trace s (fst e)) e" using inv e(1) unfolding tpl_inv_def by blast
    have "reads_ok guard d' (txn_locks (snd e)) (tl_trace s (fst e)) (sg_updates (snd e))" if nw: "\<not> t2_wound (snd e)"
    proof -
      have r: "reads_ok guard (tl_db s) (txn_locks (snd e)) (tl_trace s (fst e)) (sg_updates (snd e))" using ok nw by (simp add: txn2_ok_def)
      then show ?thesis using db(3)
      proof (elim disjE conjE)
        assume "\<not> t2_wound x" "db_val d' = overlay (sg_updates x) (db_val (tl_db s))"
        then show ?thesis using reads_ok_others [OF r W] D(4) [OF e _ nw] by (simp add: no_conflict_def)
      qed (simp add: reads_ok_def)
    qed
    then show ?thesis using ok plain_write_shape [OF db(2)] by (simp add: txn2_ok_def updates_plain_def)
  qed
  moreover have "\<forall>k \<in> set (tl_asked s). \<exists>y. map_of (tl_txns s') (fst k) = Some y \<and> asked_ok env d0 (tl_pies s) y k"
  proof
    fix k assume k: "k \<in> set (tl_asked s)"
    have nf: "fst k \<noteq> tid"
    proof
      assume "fst k = tid"
      then have "asked_ok env d0 (tl_pies s) x (tid, snd k)" using D(5) [of "snd k"] k by (metis prod.collapse)
      then show False using fin map_of_SomeD by (fastforce simp: asked_ok_def lock_waiting_def)
    qed
    have "map_of (filter (\<lambda>e. fst e \<noteq> tid) ts) (fst k) = map_of ts (fst k)" for ts :: "(i64 \<times> txn2pl) list"
      using nf by (induction ts) auto
    then show "\<exists>y. map_of (tl_txns s') (fst k) = Some y \<and> asked_ok env d0 (tl_pies s) y k"
      using inv k s'(2) unfolding tpl_inv_def by auto
  qed
  moreover have "\<forall>e \<in> set (tl_txns s). \<forall>e' \<in> set (tl_txns s). fst e \<noteq> fst e' \<longrightarrow> \<not> t2_wound (snd e) \<longrightarrow> \<not> t2_wound (snd e') \<longrightarrow>
      no_conflict (txn_locks (snd e)) (txn_locks (snd e'))" "\<forall>e \<in> set (tl_txns s). \<forall>pid \<in> fst ` set (t2_pieces (snd e)). map_of (tl_pies s) (fst e, pid) \<noteq> None"
    using inv unfolding tpl_inv_def by blast+
  ultimately show ?thesis using db(1) log s' distinct_map_filter [OF D(2)] unfolding tpl_inv_def s' by (auto simp del: map_of_eq_Some_iff)
qed

lemma commit_inv:
  assumes inv: "tpl_inv env guard d0 s" and v: "voted_yes tid s" and run: "do_commit_2pl tid s = Inr s'"
  shows "tpl_inv env guard d0 s'"
proof -
  obtain x where x: "map_of (tl_txns s) tid = Some x" "\<not> t2_wound x" using v by (auto simp: voted_yes_def split: option.splits)
  note D = tpl_invD [OF inv x(1)]
  have T: "plain_txn x" "updates_plain (tl_db s) (sg_updates x)" "reads_ok guard (tl_db s) (txn_locks x) (tl_trace s tid) (sg_updates x)"
    using D(3) x(2) by (simp_all add: txn2_ok_def)
  have db: "db_inv (tl_db s)" "same_shape d0 (tl_db s)" "d_tables (tl_db s) = d_tables d0" using D(1) by (simp_all add: plain_db_def)
  obtain d' where d': "apply_updates (sg_updates x) (tl_db s) = Inr d'" "db_inv d'" "same_shape (tl_db s) d'" "d_tables d' = d_tables (tl_db s)"
    "db_val d' = overlay (sg_updates x) (db_val (tl_db s))"
    using apply_updates_plain [OF db(1) T(2)] by blast
  obtain cs where "release_pieces ps_commit (t2_pieces x) = Inr cs"
    and s': "s' = say (Ended tid) (s\<lparr>tl_db := d', tl_txns := filter (\<lambda>e. fst e \<noteq> tid) (tl_txns s), tl_log := tl_log s @ [tl_trace s tid]\<rparr>)"
    using run x(1) T(1) d'(1)
    by (auto simp: do_commit_2pl_def t2_commit_def plain_txn_def release_piece_map_def release_resource_def end_txn_2pl_def say_def)
  then have fin: "\<forall>e \<in> set (t2_pieces x). ps_finish (snd e)" using release_finished by blast
  obtain E where "fits E (db_val (tl_db s))" "\<forall>m. fits E m \<longrightarrow> replay (tl_trace s tid) m = Some (overlay (sg_updates x) m)"
    using T(3) by (auto simp: reads_ok_def)
  then have "replay (concat (tl_log s @ [tl_trace s tid])) (db_val d0) = Some (db_val d')" using D(7) d'(5) by (simp add: replay_append)
  moreover have "plain_db d0 d'" using db(3) d' same_shape_trans [OF db(2) d'(3)] by (simp add: plain_db_def)
  ultimately show ?thesis
    using end_inv [OF inv x(1) fin _ d'(3), where log = "tl_log s @ [tl_trace s tid]" and s' = s'] d'(5) x(2) s' by (simp add: say_def)
qed

lemma abort_inv:
  assumes inv: "tpl_inv env guard d0 s" and run: "do_abort_2pl tid s = Inr s'"
  shows "tpl_inv env guard d0 s'"
proof -
  obtain x where x: "map_of (tl_txns s) tid = Some x" using run by (auto simp: do_abort_2pl_def split: option.splits)
  note D = tpl_invD [OF inv x]
  obtain cs where "release_pieces ps_abort (t2_pieces x) = Inr cs" and s': "s' = say (Ended tid) (s\<lparr>tl_txns := filter (\<lambda>e. fst e \<noteq> tid) (tl_txns s)\<rparr>)"
    using run x by (auto simp: do_abort_2pl_def t2_abort_def release_piece_map_def release_resource_def end_txn_2pl_def say_def)
  then have fin: "\<forall>e \<in> set (t2_pieces x). ps_finish (snd e)" using release_finished by blast
  show ?thesis using end_inv [OF inv x fin D(1) same_shape_refl] D(7) s' by (simp add: say_def)
qed

text \<open>Every configuration that a server reaches has the invariant.\<close>

lemma reach_inv:
  assumes good: "good d0" and "tpl_reach env d0 s"
  shows "tpl_inv env guard d0 s"
  using assms(2)
proof (induction rule: tpl_reach.induct)
  case tpl_init
  then show ?case using start_inv [OF good] by (simp add: tpl_inv_def new_tpl_server_def plain_db_def)
next
  case (tpl_start s h inp n)
  then show ?case using tpl_inv_core [of "start_pie_2pl h inp n s" s] by (simp add: start_pie_2pl_def)
next
  case (tpl_batch s hs inps ns s')
  then show ?case using tpl_inv_core [of s' s] by (auto simp: naive_batch_start_pie_def split: if_splits)
next
  case (tpl_next s pc rest s')
  have "tpl_inv env guard d0 (s\<lparr>tl_todo := rest\<rparr>)" using tpl_next.IH tpl_inv_core [of "s\<lparr>tl_todo := rest\<rparr>" s] by simp
  then show ?case using pre_execute_inv [OF good, of "s\<lparr>tl_todo := rest\<rparr>" pc] tpl_next.hyps by (simp add: start_next_def)
next
  case (tpl_grant s tid pid s')
  then show ?case using grant_inv [OF good] by blast
next
  case (tpl_refuse s tid pid s')
  then show ?case using refuse_inv by blast
next
  case (tpl_wound s tid r s')
  then show ?case using wound_inv by blast
next
  case (tpl_prepare s tid s')
  then show ?case using prepare_inv by blast
next
  case (tpl_commit s tid s')
  then show ?case using commit_inv by blast
next
  case (tpl_abort s tid s')
  then show ?case using abort_inv by blast
qed

lemma reach_serializable:
  assumes "good d0" and "tpl_reach env d0 s"
  shows "replay (concat (tl_log s)) (db_val d0) = Some (db_val (tl_db s)) \<and> db_inv (tl_db s)"
  using reach_inv [OF assms] by (simp add: tpl_inv_def plain_db_def)

end

section \<open>Properties of traces\<close>

text \<open>What every run of a procedure keeps holds of all traces, and of the accesses of the committed transactions.\<close>

definition traces_ok :: "(access list \<Rightarrow> bool) \<Rightarrow> tpl_server \<Rightarrow> bool" where
  "traces_ok P s \<longleftrightarrow> (\<forall>tid. P (tl_trace s tid)) \<and> list_all P (tl_log s)"

definition keeps_traces :: "tpl_env \<Rightarrow> (access list \<Rightarrow> bool) \<Rightarrow> bool" where
  "keeps_traces env P \<longleftrightarrow> P [] \<and> (\<forall>k pr h inp qb n d x tr res outp d' x' tr'. pe_proc env k = Some pr \<longrightarrow>
     pr_run pr h inp qb n (d, x, tr) = Inr (res, outp, d', x', tr') \<longrightarrow> P tr \<longrightarrow> P tr')"

lemma traces_core: "tl_trace s' = tl_trace s \<Longrightarrow> tl_log s' = tl_log s \<Longrightarrow> traces_ok P s' = traces_ok P s"
  by (simp add: traces_ok_def)

lemma end_piece_traces: "end_piece env tid pc res ps x s = Inr s' \<Longrightarrow> traces_ok P s' = traces_ok P s"
  by (drule end_piece_fields(2)) (auto simp: traces_ok_def)

lemma run_piece_traces:
  assumes k: "keeps_traces env P" and t: "traces_ok P s" and run: "run_piece env tid pc ps x s = Inr s'"
  shows "traces_ok P s'"
proof (cases "is_rejected (t2_wound x) ps")
  case True
  then show ?thesis using run t end_piece_traces by (fastforce simp: run_piece_def)
next
  case False
  then obtain pr res outp d x1 tr where r: "pe_proc env (hd_t_type (pc_header pc), hd_p_type (pc_header pc)) = Some pr"
    "pr_run pr (pc_header pc) (pc_input pc) (ps_query_buf ps) (length (out_values (ps_output ps))) (tl_db s, x, tl_trace s tid) = Inr (res, outp, d, x1, tr)"
    "end_piece env tid pc res (ps\<lparr>ps_output := OutVec outp\<rparr>) x1 (s\<lparr>tl_db := d, tl_trace := (tl_trace s)(tid := tr)\<rparr>) = Inr s'"
    using run by (auto simp: run_piece_def split: option.splits)
  have "P (tl_trace s tid)" using t by (simp add: traces_ok_def)
  then have "P tr" using k r(1,2) unfolding keeps_traces_def by blast
  then show ?thesis using end_piece_traces [OF r(3)] t by (simp add: traces_ok_def)
qed

lemma pre_execute_traces:
  assumes k: "keeps_traces env P" and t: "traces_ok P s" and run: "pre_execute_2pl env pc s = Inr s'"
  shows "traces_ok P s'"
proof -
  obtain x s1 where g: "get_txn_2pl (hd_tid (pc_header pc)) s = (x, s1)" by fastforce
  have t1: "traces_ok P s1" using g t k by (auto simp: get_txn_2pl_def Let_def traces_ok_def keeps_traces_def split: option.splits)
  show ?thesis
  proof (cases "t2_wound x")
    case True
    then obtain u where "put_cell (pc_ball pc) (pc_cell pc) (REJECT, []) s1 = Inr u" "trigger_reply (pe_fires env) (pc_ball pc) u = Inr s'"
      using run g by (auto simp: pre_execute_2pl_def)
    then show ?thesis using t1 by (auto simp: traces_ok_def dest!: put_cell_fields trigger_reply_fields)
  next
    case False
    define x1 where "x1 = init_piece (hd_tid (pc_header pc)) (hd_pid (pc_header pc)) (OutVec (snd (rb_cells (tl_balls s1 ! pc_ball pc) ! pc_cell pc))) x"
    define s2 where "s2 qb = put_txn_2pl (hd_tid (pc_header pc)) (put_buf (hd_pid (pc_header pc)) qb x1)
      (s1\<lparr>tl_pies := ((hd_tid (pc_header pc), hd_pid (pc_header pc)), pc) # tl_pies s1\<rparr>)" for qb
    have t2: "traces_ok P (s2 qb)" for qb using t1 by (simp add: s2_def traces_ok_def)
    from pre_execute_go [OF run g False x1_def s2_def]
    consider (proceed) ps y qb where "run_piece env (hd_tid (pc_header pc)) pc ps y (s2 qb) = Inr s'"
      | (ask) x2 qb where "s' = put_txn_2pl (hd_tid (pc_header pc)) x2 ((s2 qb)\<lparr>tl_asked := tl_asked (s2 qb) @ [(hd_tid (pc_header pc), hd_pid (pc_header pc))]\<rparr>)"
      by (auto simp: get_2pl_proceed_callback_def split: option.splits)
    then show ?thesis using run_piece_traces [OF k t2] t2 by cases (simp_all add: traces_ok_def)
  qed
qed

lemma lock_answer_cases:
  assumes "lock_answer upd go tid pid s = Inr s'"
    and "\<And>pc ps x. go pc ps x (put_txn_2pl tid x (s\<lparr>tl_asked := filter (\<lambda>k. k \<noteq> (tid, pid)) (tl_asked s)\<rparr>)) = Inr s' \<Longrightarrow> thesis"
    and "\<And>x. s' = put_txn_2pl tid x (s\<lparr>tl_asked := filter (\<lambda>k. k \<noteq> (tid, pid)) (tl_asked s)\<rparr>) \<Longrightarrow> thesis"
  shows thesis
  using assms(1) by (auto simp: lock_answer_def Let_def split: option.splits if_splits intro: assms(2,3))

lemma lock_answer_traces:
  assumes "\<And>pc ps x t t'. go pc ps x t = Inr t' \<Longrightarrow> traces_ok P t \<Longrightarrow> traces_ok P t'" and "traces_ok P s" and "lock_answer upd go tid pid s = Inr s'"
  shows "traces_ok P s'"
proof (rule lock_answer_cases [OF assms(3)])
  fix pc ps x assume g: "go pc ps x (put_txn_2pl tid x (s\<lparr>tl_asked := filter (\<lambda>k. k \<noteq> (tid, pid)) (tl_asked s)\<rparr>)) = Inr s'"
  show ?thesis using assms(1) [OF g] assms(2) by (simp add: traces_ok_def)
next
  fix x assume "s' = put_txn_2pl tid x (s\<lparr>tl_asked := filter (\<lambda>k. k \<noteq> (tid, pid)) (tl_asked s)\<rparr>)"
  then show ?thesis using assms(2) by (simp add: traces_ok_def)
qed

lemma reach_traces:
  assumes k: "keeps_traces env P" and "tpl_reach env d0 s"
  shows "traces_ok P s"
  using assms(2)
proof (induction rule: tpl_reach.induct)
  case tpl_init
  then show ?case using k by (simp add: traces_ok_def new_tpl_server_def keeps_traces_def)
next
  case (tpl_start s h inp n)
  then show ?case by (simp add: start_pie_2pl_def traces_ok_def)
next
  case (tpl_batch s hs inps ns s')
  then show ?case by (auto simp: naive_batch_start_pie_def traces_ok_def split: if_splits)
next
  case (tpl_next s pc rest s')
  then show ?case using pre_execute_traces [OF k, of "s\<lparr>tl_todo := rest\<rparr>" pc] by (simp add: start_next_def traces_ok_def)
next
  case (tpl_grant s tid pid s')
  show ?case using tpl_grant.hyps(4) unfolding get_2pl_succ_callback_def
    by (rule lock_answer_traces [where go = "run_piece env tid", rotated 2]) (use run_piece_traces [OF k] tpl_grant.IH in blast)+
next
  case (tpl_refuse s tid pid s')
  show ?case using tpl_refuse.hyps(3) unfolding get_2pl_fail_callback_def
    by (rule lock_answer_traces [where go = "\<lambda>pc ps. end_piece env tid pc REJECT (remove_output ps)", rotated 2])
      (use end_piece_traces tpl_refuse.IH in blast)+
next
  case (tpl_wound s tid r s')
  then show ?case by (auto simp: wound_txn_def traces_ok_def split: option.splits prod.splits)
next
  case (tpl_prepare s tid s')
  then show ?case by (auto simp: do_prepare_2pl_def say_def traces_ok_def split: option.splits prod.splits)
next
  case (tpl_commit s tid s')
  then show ?case by (auto simp: do_commit_2pl_def end_txn_2pl_def say_def traces_ok_def split: option.splits)
next
  case (tpl_abort s tid s')
  then show ?case by (auto simp: do_abort_2pl_def end_txn_2pl_def say_def traces_ok_def split: option.splits)
qed

end
