(* ===== verification/Dtxn_2pl_Reply.thy ===== *)
theory Dtxn_2pl_Reply
  imports Dtxn_2pl_Inv Rcc_Safety "HOL-Library.Multiset"
begin

text \<open>
  Replies with two-phase locking. Every request has a ball; it counts the pieces of the request that are done, with results or
  rejected. A piece is outstanding while it has not been started or while a lock group owes it an answer. The invariant relates the
  balls to the outstanding pieces; it follows that a request is answered once, when its last piece is done, and that the callbacks of
  the lock groups do not fail.
\<close>

section \<open>Balls and outstanding pieces\<close>

definition answers :: "nat \<Rightarrow> tpl_out list \<Rightarrow> nat" where
  "answers b out = length (filter (\<lambda>x. case x of Answered b' _ \<Rightarrow> b' = b | _ \<Rightarrow> False) out)"

definition outstanding :: "tpl_server \<Rightarrow> pie_call multiset" where
  "outstanding s = mset (tl_todo s) + image_mset (\<lambda>k. the (map_of (tl_pies s) k)) (mset (tl_asked s))"

definition open_pieces :: "nat \<Rightarrow> pie_call multiset \<Rightarrow> nat" where
  "open_pieces b W = size (filter_mset (\<lambda>pc. pc_ball pc = b) W)"

definition ball_inv :: "pie_call multiset \<Rightarrow> reply_ball list \<Rightarrow> tpl_out list \<Rightarrow> bool" where
  "ball_inv W bs out \<longleftrightarrow> (\<forall>pc \<in># W. pc_ball pc < length bs \<and> pc_cell pc < length (rb_cells (bs ! pc_ball pc))) \<and>
     (\<forall>b < length bs. rb_count (bs ! b) + open_pieces b W = rb_need (bs ! b) \<and> (rb_live (bs ! b) \<longleftrightarrow> 0 < open_pieces b W) \<and>
        answers b out = (if rb_live (bs ! b) then 0 else 1)) \<and>
     (\<forall>b \<ge> length bs. answers b out = 0)"

lemma answers_simps [simp]:
  "answers b [] = 0" "answers b (out @ [Answered b' r]) = answers b out + (if b' = b then 1 else 0)" "answers b (out @ [Voted t v]) = answers b out"
  "answers b (out @ [Ended t]) = answers b out"
  by (simp_all add: answers_def)

lemma open_pieces_simps [simp]: "open_pieces b {#} = 0" "open_pieces b (add_mset pc W) = (if pc_ball pc = b then Suc (open_pieces b W) else open_pieces b W)"
  "open_pieces b (V + W) = open_pieces b V + open_pieces b W"
  by (simp_all add: open_pieces_def)

lemma fire_once:
  assumes inv: "ball_inv (add_mset pc W) (tl_balls s) (tl_out s)" and f: "counts_down fires"
  shows "\<exists>s1 bs out. put_cell (pc_ball pc) (pc_cell pc) r s = Inr s1 \<and> trigger_reply fires (pc_ball pc) s1 = Inr (s\<lparr>tl_balls := bs, tl_out := out\<rparr>) \<and>
    ball_inv W bs out"
proof -
  let ?b = "pc_ball pc" and ?bs = "tl_balls s"
  have b: "?b < length ?bs" "pc_cell pc < length (rb_cells (?bs ! ?b))" "rb_live (?bs ! ?b)" "rb_count (?bs ! ?b) + Suc (open_pieces ?b W) = rb_need (?bs ! ?b)"
    using inv by (auto simp: ball_inv_def)
  define r1 where "r1 = (?bs ! ?b)\<lparr>rb_cells := (rb_cells (?bs ! ?b))[pc_cell pc := r], rb_count := rb_count (?bs ! ?b) + 1\<rparr>"
  have fin: "fires (rb_need (?bs ! ?b)) (rb_count (?bs ! ?b) + 1) \<longleftrightarrow> open_pieces ?b W = 0" using f b(4) by (auto simp: counts_down_def)
  define bs where "bs = ?bs[?b := (if open_pieces ?b W = 0 then r1\<lparr>rb_live := False\<rparr> else r1)]"
  define out where "out = (if open_pieces ?b W = 0 then tl_out s @ [Answered ?b (rb_cells r1)] else tl_out s)"
  define s1 where "s1 = s\<lparr>tl_balls := ?bs[?b := (?bs ! ?b)\<lparr>rb_cells := (rb_cells (?bs ! ?b))[pc_cell pc := r]\<rparr>]\<rparr>"
  have "put_cell ?b (pc_cell pc) r s = Inr s1" using b(1,2) by (simp add: put_cell_def s1_def)
  moreover have "trigger_reply fires ?b s1 = Inr (s\<lparr>tl_balls := bs, tl_out := out\<rparr>)"
    using b(1,3) fin by (cases s) (simp add: trigger_reply_def s1_def bs_def out_def r1_def say_def Let_def)
  moreover have "ball_inv W bs out"
    using inv b by (auto simp: ball_inv_def bs_def out_def r1_def nth_list_update)
  ultimately show ?thesis by blast
qed

lemma end_piece_reply:
  assumes "ball_inv (add_mset pc W) (tl_balls s) (tl_out s)" and "counts_down (pe_fires env)" and "\<not> ps_finish ps"
  shows "\<exists>bs out. end_piece env tid pc res ps x s = Inr (put_txn_2pl tid (x\<lparr>t2_pieces := piece_put (hd_pid (pc_header pc)) (ps\<lparr>ps_finish := True\<rparr>) (t2_pieces x)\<rparr>)
      (s\<lparr>tl_balls := bs, tl_out := out\<rparr>)) \<and> ball_inv W bs out"
proof -
  obtain s1 bs out where "put_cell (pc_ball pc) (pc_cell pc) (res, out_values (ps_output ps)) s = Inr s1"
    "trigger_reply (pe_fires env) (pc_ball pc) s1 = Inr (s\<lparr>tl_balls := bs, tl_out := out\<rparr>)" "ball_inv W bs out"
    using fire_once [OF assms(1,2)] by blast
  then show ?thesis using assms(3) by (auto simp: end_piece_def set_finish_def)
qed

lemma run_piece_reply:
  assumes "ball_inv (add_mset pc W) (tl_balls s) (tl_out s)" and "counts_down (pe_fires env)" and "run_piece env tid pc ps x s = Inr s'"
  shows "ball_inv W (tl_balls s') (tl_out s')" "tl_todo s' = tl_todo s" "tl_asked s' = tl_asked s" "tl_pies s' = tl_pies s"
proof -
  obtain res ps1 x1 d tr where e: "end_piece env tid pc res ps1 x1 (s\<lparr>tl_db := d, tl_trace := tr\<rparr>) = Inr s'"
  proof (cases "is_rejected (t2_wound x) ps")
    case True
    then show ?thesis using that [of REJECT "remove_output ps" x "tl_trace s" "tl_db s"] assms(3) by (simp add: run_piece_def)
  qed (use that assms(3) in \<open>auto simp: run_piece_def split: option.splits\<close>)
  have "\<not> ps_finish ps1" using end_piece_fields(1) [OF e] .
  from end_piece_reply [OF _ assms(2) this, of pc W "s\<lparr>tl_db := d, tl_trace := tr\<rparr>" tid res x1] assms(1) e
  obtain bs out where "s' = put_txn_2pl tid (x1\<lparr>t2_pieces := piece_put (hd_pid (pc_header pc)) (ps1\<lparr>ps_finish := True\<rparr>) (t2_pieces x1)\<rparr>)
      (s\<lparr>tl_db := d, tl_trace := tr, tl_balls := bs, tl_out := out\<rparr>)" "ball_inv W bs out"
    by auto
  then show "ball_inv W (tl_balls s') (tl_out s')" "tl_todo s' = tl_todo s" "tl_asked s' = tl_asked s" "tl_pies s' = tl_pies s" by simp_all
qed

section \<open>The invariant of the replies\<close>

definition reply_inv :: "tpl_server \<Rightarrow> bool" where
  "reply_inv s \<longleftrightarrow> distinct (tl_asked s) \<and> ball_inv (outstanding s) (tl_balls s) (tl_out s)"

lemma outstanding_core:
  "tl_todo s' = tl_todo s \<Longrightarrow> tl_asked s' = tl_asked s \<Longrightarrow> tl_pies s' = tl_pies s \<Longrightarrow> outstanding s' = outstanding s"
  by (simp add: outstanding_def)

lemma reply_inv_core:
  "tl_todo s' = tl_todo s \<Longrightarrow> tl_asked s' = tl_asked s \<Longrightarrow> tl_pies s' = tl_pies s \<Longrightarrow> tl_balls s' = tl_balls s \<Longrightarrow> tl_out s' = tl_out s \<Longrightarrow>
    reply_inv s' = reply_inv s"
  by (simp add: reply_inv_def outstanding_def)

lemma mset_take_out: "distinct xs \<Longrightarrow> k \<in> set xs \<Longrightarrow> mset xs = add_mset k (mset (filter (\<lambda>j. j \<noteq> k) xs))"
proof (induction xs)
  case (Cons j xs)
  show ?case
  proof (cases "j = k")
    case True
    then have "filter (\<lambda>j. j \<noteq> k) xs = xs" using Cons.prems(1) by (auto simp: filter_id_conv)
    then show ?thesis using True by simp
  qed (use Cons in simp)
qed simp

text \<open>A request with its pieces and its ball.\<close>

lemma new_ball_inv:
  assumes "ball_inv W bs out" and "n = size V" and "0 < n" and "\<forall>pc \<in># V. pc_ball pc = length bs \<and> pc_cell pc < length cells"
  shows "ball_inv (W + V) (bs @ [\<lparr>rb_need = n, rb_count = 0, rb_live = True, rb_cells = cells\<rparr>]) out"
proof -
  have w: "\<forall>pc \<in># W. pc_ball pc < length bs" using assms(1) by (simp add: ball_inv_def)
  have "filter_mset (\<lambda>pc. pc_ball pc = length bs) V = V" using assms(4) by (simp add: filter_mset_eq_conv)
  then have p: "open_pieces (length bs) V = n" using assms(2) by (simp add: open_pieces_def)
  have v: "open_pieces b V = 0" if "b \<noteq> length bs" for b using assms(4) that by (auto simp: open_pieces_def)
  have "open_pieces (length bs) W = 0" using w by (auto simp: open_pieces_def)
  then show ?thesis using assms p v w by (auto simp: ball_inv_def nth_append less_Suc_eq)
qed

lemma start_pie_2pl_reply: "reply_inv s \<Longrightarrow> reply_inv (start_pie_2pl h inp n s)"
  using new_ball_inv [of "outstanding s" "tl_balls s" "tl_out s" 1 "{#\<lparr>pc_header = h, pc_input = inp, pc_ball = length (tl_balls s), pc_cell = 0\<rparr>#}"
      "[(SUCCESS, replicate n UNKNOWN)]"]
  by (simp add: reply_inv_def start_pie_2pl_def outstanding_def ac_simps)

lemma batch_reply:
  assumes "reply_inv s" and "naive_batch_start_pie hs inps ns s = Inr s'"
  shows "reply_inv s'"
proof -
  let ?V = "mset (map (\<lambda>i. \<lparr>pc_header = hs ! i, pc_input = inps ! i, pc_ball = length (tl_balls s), pc_cell = i\<rparr>) [0..<length hs])"
  have "hs \<noteq> []" using assms(2) by (auto simp: naive_batch_start_pie_def)
  then have "ball_inv (outstanding s + ?V) (tl_balls s @ [\<lparr>rb_need = length hs, rb_count = 0, rb_live = True,
      rb_cells = map (\<lambda>i. (0, replicate (ns ! i) UNKNOWN)) [0..<length hs]\<rparr>]) (tl_out s)"
    using assms(1) by (intro new_ball_inv) (auto simp: reply_inv_def)
  then show ?thesis using assms by (auto simp: reply_inv_def naive_batch_start_pie_def outstanding_def ac_simps split: if_splits)
qed

text \<open>The procedures run to their end once their locks are granted, and balls count.\<close>

locale answering_procs = guarded_procs +
  assumes fires: "good d0 \<Longrightarrow> counts_down (pe_fires env)"
    and runs: "good d0 \<Longrightarrow> from_proc env d0 pc L qb \<Longrightarrow> pe_proc env (hd_t_type (pc_header pc), hd_p_type (pc_header pc)) = Some pr \<Longrightarrow>
      plain_db d0 d \<Longrightarrow> plain_txn x \<Longrightarrow> updates_plain d (sg_updates x) \<Longrightarrow> \<exists>r. pr_run pr (pc_header pc) (pc_input pc) qb n (d, x, tr) = Inr r"
begin

lemma pre_execute_reply:
  assumes good: "good d0" and inv: "tpl_inv env guard d0 s" and new: "map_of (tl_pies s) (hd_tid (pc_header pc), hd_pid (pc_header pc)) = None"
    and ds: "distinct (tl_asked s)" and bi: "ball_inv (add_mset pc (outstanding s)) (tl_balls s) (tl_out s)"
    and run: "pre_execute_2pl env pc s = Inr s'"
  shows "reply_inv s'"
proof -
  let ?tid = "hd_tid (pc_header pc)" and ?pid = "hd_pid (pc_header pc)"
  obtain x s1 where g: "get_txn_2pl ?tid s = (x, s1)" by fastforce
  note G = get_txn_inv [OF inv g]
  have o1: "outstanding s1 = outstanding s" using G(3,6,7) outstanding_core by blast
  have bi1: "ball_inv (add_mset pc (outstanding s1)) (tl_balls s1) (tl_out s1)" using bi G(5,8) o1 by simp
  have nk: "(?tid, ?pid) \<notin> set (tl_asked s)" using asked_lookup [OF inv] new by force
  show ?thesis
  proof (cases "t2_wound x")
    case True
    obtain t bs out where "put_cell (pc_ball pc) (pc_cell pc) (REJECT, []) s1 = Inr t"
      "trigger_reply (pe_fires env) (pc_ball pc) t = Inr (s1\<lparr>tl_balls := bs, tl_out := out\<rparr>)" "ball_inv (outstanding s1) bs out"
      using fire_once [OF bi1 fires [OF good]] by blast
    then have "s' = s1\<lparr>tl_balls := bs, tl_out := out\<rparr>" "ball_inv (outstanding s1) bs out" using run g True by (auto simp: pre_execute_2pl_def)
    then show ?thesis using ds G(6) by (simp add: reply_inv_def outstanding_def)
  next
    case False
    define x1 where "x1 = init_piece ?tid ?pid (OutVec (snd (rb_cells (tl_balls s1 ! pc_ball pc) ! pc_cell pc))) x"
    define s2 where "s2 qb = put_txn_2pl ?tid (put_buf ?pid qb x1) (s1\<lparr>tl_pies := ((?tid, ?pid), pc) # tl_pies s1\<rparr>)" for qb
    have "the (map_of (((?tid, ?pid), pc) # tl_pies s1) k) = the (map_of (tl_pies s1) k)" if "k \<in># mset (tl_asked s1)" for k
      using that nk G(6) by auto
    then have "image_mset (\<lambda>k. the (map_of (((?tid, ?pid), pc) # tl_pies s1) k)) (mset (tl_asked s1)) =
        image_mset (\<lambda>k. the (map_of (tl_pies s1) k)) (mset (tl_asked s1))" by (rule image_mset_cong)
    then have o2: "outstanding (s2 qb) = outstanding s1" for qb by (simp add: outstanding_def s2_def)
    have bi2: "ball_inv (add_mset pc (outstanding (s2 qb))) (tl_balls (s2 qb)) (tl_out (s2 qb))" for qb using bi1 o2 by (simp add: s2_def)
    have ds2: "distinct (tl_asked (s2 qb))" "tl_asked (s2 qb) = tl_asked s" for qb using ds G(6) by (simp_all add: s2_def)
    from pre_execute_go [OF run g False x1_def s2_def]
    consider (proceed) ps y qb where "run_piece env ?tid pc ps y (s2 qb) = Inr s'"
      | (ask) x2 qb where "s' = put_txn_2pl ?tid x2 ((s2 qb)\<lparr>tl_asked := tl_asked (s2 qb) @ [(?tid, ?pid)]\<rparr>)"
      by (auto simp: get_2pl_proceed_callback_def split: option.splits)
    then show ?thesis
    proof cases
      case proceed
      note R = run_piece_reply [OF bi2 fires [OF good] proceed]
      then show ?thesis using ds2 outstanding_core [OF R(2-4)] by (simp add: reply_inv_def)
    next
      case ask
      have "map_of (tl_pies (s2 qb)) (?tid, ?pid) = Some pc" by (simp add: s2_def)
      then have "outstanding s' = add_mset pc (outstanding (s2 qb))" using ask by (simp add: outstanding_def)
      then show ?thesis using ask bi2 ds2 nk by (simp add: reply_inv_def)
    qed
  qed
qed

text \<open>Both answers of a lock group get through and end the piece.\<close>

lemma answer_spec:
  assumes good: "good d0" and inv: "tpl_inv env guard d0 s" and a: "(tid, pid) \<in> set (tl_asked s)" and r: "reply_inv s"
  shows "\<exists>s'. get_2pl_fail_callback env tid pid s = Inr s' \<and> reply_inv s'" "\<exists>s'. get_2pl_succ_callback env tid pid s = Inr s' \<and> reply_inv s'"
proof -
  obtain x ps pc where A: "map_of (tl_txns s) tid = Some x" "map_of (t2_pieces x) pid = Some ps" "lock_waiting ps" "map_of (tl_pies s) (tid, pid) = Some pc"
    "hd_pid (pc_header pc) = pid" "from_proc env d0 pc (set (lg_locks (ps_rw_group ps))) (ps_query_buf ps)"
    using asked_lookup [OF inv a] by blast
  have T: "plain_db d0 (tl_db s)" "plain_txn x" "updates_plain (tl_db s) (sg_updates x)" using tpl_invD(1,3) [OF inv A(1)] by (simp_all add: txn2_ok_def)
  define st where "st y = put_txn_2pl tid y (s\<lparr>tl_asked := filter (\<lambda>k. k \<noteq> (tid, pid)) (tl_asked s)\<rparr>)" for y
  have ds: "distinct (tl_asked s)" and bi: "ball_inv (outstanding s) (tl_balls s) (tl_out s)" using r by (simp_all add: reply_inv_def)
  have "mset (tl_asked s) = add_mset (tid, pid) (mset (filter (\<lambda>k. k \<noteq> (tid, pid)) (tl_asked s)))"
    using mset_take_out [OF ds a] .
  from arg_cong [OF this, of "image_mset (\<lambda>k. the (map_of (tl_pies s) k))"]
  have o: "outstanding s = add_mset pc (outstanding (st y))" for y using A(4) by (simp add: outstanding_def st_def)
  have bs: "ball_inv (add_mset pc (outstanding (st y))) (tl_balls (st y)) (tl_out (st y))" for y using bi o by (simp add: st_def)
  have fin: "reply_inv s'" if "ball_inv (outstanding (st y)) (tl_balls s') (tl_out s')" "tl_todo s' = tl_todo (st y)" "tl_asked s' = tl_asked (st y)"
    "tl_pies s' = tl_pies (st y)" for s' y
    using that ds outstanding_core [OF that(2-4)] by (simp add: reply_inv_def st_def)
  have ps: "\<not> ps_finish ps" using A(3) by (simp add: lock_waiting_def)
  let ?x = "\<lambda>ps1. x\<lparr>t2_pieces := piece_put pid ps1 (t2_pieces x), t2_cache := Some (tid, pid)\<rparr>"
  let ?no = "ps\<lparr>ps_num_acquired := 1, ps_rej := True\<rparr>" and ?yes = "ps\<lparr>ps_num_acquired := 1, ps_rw_succ := True\<rparr>"
  have "get_2pl_fail_callback env tid pid s = end_piece env tid pc REJECT (remove_output ?no) (?x ?no) (st (?x ?no))"
    using lock_answer_go [where upd = start_no_callback, OF A(1,2,4) waiting_answers(2,4) [OF A(3)] refl] by (simp add: get_2pl_fail_callback_def st_def)
  moreover obtain bs out where "end_piece env tid pc REJECT (remove_output ?no) (?x ?no) (st (?x ?no)) =
      Inr (put_txn_2pl tid ((?x ?no)\<lparr>t2_pieces := piece_put (hd_pid (pc_header pc)) ((remove_output ?no)\<lparr>ps_finish := True\<rparr>) (t2_pieces (?x ?no))\<rparr>)
        (st (?x ?no)\<lparr>tl_balls := bs, tl_out := out\<rparr>))" "ball_inv (outstanding (st (?x ?no))) bs out"
    using end_piece_reply [OF bs fires [OF good], of "remove_output ?no" tid REJECT "?x ?no" "?x ?no"] ps by (auto simp: remove_output_def)
  ultimately show "\<exists>s'. get_2pl_fail_callback env tid pid s = Inr s' \<and> reply_inv s'" using fin [of "?x ?no"] by auto
  have succ: "get_2pl_succ_callback env tid pid s = run_piece env tid pc ?yes (?x ?yes) (st (?x ?yes))"
    using lock_answer_go [where upd = start_yes_callback, OF A(1,2,4) waiting_answers(1,3) [OF A(3)] refl] by (simp add: get_2pl_succ_callback_def st_def)
  have "\<exists>s'. run_piece env tid pc ?yes (?x ?yes) (st (?x ?yes)) = Inr s'"
  proof (cases "is_rejected (t2_wound x) ps")
    case True
    then show ?thesis using end_piece_reply [OF bs fires [OF good], of "remove_output ?yes" tid REJECT "?x ?yes" "?x ?yes"] ps
      by (auto simp: run_piece_def is_rejected_def remove_output_def)
  next
    case False
    obtain pr where pr: "pe_proc env (hd_t_type (pc_header pc), hd_p_type (pc_header pc)) = Some pr" using A(6) by (auto simp: from_proc_def)
    obtain res outp d y tr where "pr_run pr (pc_header pc) (pc_input pc) (ps_query_buf ps) (length (out_values (ps_output ps))) (tl_db s, ?x ?yes, tl_trace s tid) = Inr (res, outp, d, y, tr)"
      using runs [OF good A(6) pr T(1), of "?x ?yes"] T(2,3) by (fastforce simp: plain_txn_def)
    moreover obtain s' where "end_piece env tid pc res (?yes\<lparr>ps_output := OutVec outp\<rparr>) y
        (st (?x ?yes)\<lparr>tl_db := d, tl_trace := (tl_trace s)(tid := tr)\<rparr>) = Inr s'"
      using end_piece_reply [of pc "outstanding (st (?x ?yes))" "st (?x ?yes)\<lparr>tl_db := d, tl_trace := (tl_trace s)(tid := tr)\<rparr>" env "?yes\<lparr>ps_output := OutVec outp\<rparr>"
          tid res y] bs [of "?x ?yes"] fires [OF good] ps by auto
    ultimately show ?thesis using False pr by (simp add: run_piece_def is_rejected_def st_def)
  qed
  then obtain s' where s': "run_piece env tid pc ?yes (?x ?yes) (st (?x ?yes)) = Inr s'" by blast
  show "\<exists>s'. get_2pl_succ_callback env tid pid s = Inr s' \<and> reply_inv s'"
    using succ s' fin [of "?x ?yes" s'] run_piece_reply [OF bs fires [OF good] s'] by auto
qed

lemma reach_reply:
  assumes good: "good d0" and "tpl_reach env d0 s"
  shows "reply_inv s"
  using assms(2)
proof (induction rule: tpl_reach.induct)
  case tpl_init
  then show ?case by (simp add: reply_inv_def new_tpl_server_def outstanding_def ball_inv_def)
next
  case (tpl_start s h inp n)
  then show ?case using start_pie_2pl_reply by blast
next
  case (tpl_batch s hs inps ns s')
  then show ?case using batch_reply by blast
next
  case (tpl_next s pc rest s')
  have i: "tpl_inv env guard d0 (s\<lparr>tl_todo := rest\<rparr>)" using reach_inv [OF good tpl_next.hyps(1)] tpl_inv_core [of "s\<lparr>tl_todo := rest\<rparr>" s] by simp
  have "outstanding s = add_mset pc (outstanding (s\<lparr>tl_todo := rest\<rparr>))" using tpl_next.hyps(2) by (simp add: outstanding_def)
  then show ?case using pre_execute_reply [OF good i] tpl_next.hyps tpl_next.IH by (simp add: start_next_def reply_inv_def)
next
  case (tpl_grant s tid pid s')
  then show ?case using answer_spec(2) [OF good reach_inv [OF good tpl_grant.hyps(1)] tpl_grant.hyps(2)] by auto
next
  case (tpl_refuse s tid pid s')
  then show ?case using answer_spec(1) [OF good reach_inv [OF good tpl_refuse.hyps(1)] tpl_refuse.hyps(2)] by auto
next
  case (tpl_wound s tid r s')
  then show ?case using reply_inv_core [of s' s] by (auto simp: wound_txn_def split: option.splits prod.splits)
next
  case (tpl_prepare s tid s')
  then show ?case by (auto simp: reply_inv_def outstanding_def do_prepare_2pl_def say_def ball_inv_def split: option.splits prod.splits)
next
  case (tpl_commit s tid s')
  then show ?case by (auto simp: reply_inv_def outstanding_def do_commit_2pl_def end_txn_2pl_def say_def ball_inv_def split: option.splits)
next
  case (tpl_abort s tid s')
  then show ?case by (auto simp: reply_inv_def outstanding_def do_abort_2pl_def end_txn_2pl_def say_def ball_inv_def split: option.splits)
qed

lemma answered_once:
  assumes "good d0" and "tpl_reach env d0 s" and "b < length (tl_balls s)"
  shows "answers b (tl_out s) = (if open_pieces b (outstanding s) = 0 then 1 else 0)"
  using reach_reply [OF assms(1,2)] assms(3) by (auto simp: reply_inv_def ball_inv_def)

lemma answers_get_through:
  assumes "good d0" and "tpl_reach env d0 s" and "(tid, pid) \<in> set (tl_asked s)"
  shows "\<exists>s'. get_2pl_fail_callback env tid pid s = Inr s'" "\<exists>s'. get_2pl_succ_callback env tid pid s = Inr s'"
  using answer_spec [OF assms(1) reach_inv [OF assms(1,2)] assms(3) reach_reply [OF assms(1,2)]] by auto

end

end
