(* ===== verification/Tpca_Piece.thy ===== *)
theory Tpca_Piece
  imports Dtxn_2pl_Reply Bench_Chopper
begin

text \<open>
  The stored procedures of TPC-A with two-phase locking (\<^verbatim>\<open>tpca/piece.cc\<close>). Each of the three finds a row by its key, in the customer, teller
  or branch table. Called without an output it asks for the lock of column 0 of the row; called again it adds 1 to column 1. That one lock is
  enough: the procedures meet the contract \<open>guarded_procs\<close> with the lock of column 0 as the guard of all columns of a row.
\<close>

section \<open>The procedures\<close>

text \<open>\<^verbatim>\<open>TxnMgr::get_table\<close> is a map of names; a missing table is a null pointer that the query dereferences.\<close>

definition tpca_row :: "(string \<Rightarrow> nat option) \<Rightarrow> string \<Rightarrow> mvalue list \<Rightarrow> db \<times> txn2pl \<Rightarrow> nat res" where
  "tpca_row get_table name inp st =
     verify (length inp = 1)
       (rbind (value_blob (inp ! 0))
         (\<lambda>key. case get_table name of
            None \<Rightarrow> Inl BadPointer
          | Some t \<Rightarrow> rbind (do_query t [key] st)
              (\<lambda>m. rbind (mc_next (Suc (length (raw_rows (mc_cursor m)))) raw_vt m) (\<lambda>(r, m'). Inr r))))"

definition tpca_locks :: "(string \<Rightarrow> nat option) \<Rightarrow> string \<Rightarrow> request_header \<Rightarrow> mvalue list \<Rightarrow> query_buf \<Rightarrow> db \<times> txn2pl \<Rightarrow>
    ((alock \<times> alock_type) list option \<times> query_buf) res" where
  "tpca_locks get_table name h inp qb st = rbind (tpca_row get_table name inp st) (\<lambda>r. Inr (Some [((r, 0), WLOCK)], qb))"

definition tpca_finish :: "nat \<Rightarrow> nat \<Rightarrow> proc_state \<Rightarrow> (int \<times> mvalue list \<times> proc_state) res" where
  "tpca_finish r output_size st =
     rbind (col_read r 1 st)
       (\<lambda>(v, st1). case v of
          None \<Rightarrow> Inr (REJECT, [], st1)
        | Some buf \<Rightarrow> rbind (get_i64 buf)
            (\<lambda>k. rbind (set_i64 (k + 1) buf)
              (\<lambda>buf1. rbind (col_write r 1 buf1 st1)
                (\<lambda>(ok, st2). if ok then verify (0 \<le> output_size) (Inr (SUCCESS, [], st2)) else Inr (REJECT, [], st2)))))"

definition tpca_run :: "(string \<Rightarrow> nat option) \<Rightarrow> string \<Rightarrow> request_header \<Rightarrow> mvalue list \<Rightarrow> query_buf \<Rightarrow> nat \<Rightarrow> proc_state \<Rightarrow>
    (int \<times> mvalue list \<times> proc_state) res" where
  "tpca_run get_table name h inp qb output_size = (\<lambda>(d, x, tr).
     rbind (tpca_row get_table name inp (d, x)) (\<lambda>r. tpca_finish r output_size (d, x, tr)))"

definition tpca_payment_1 :: "(string \<Rightarrow> nat option) \<Rightarrow> proc2pl" where
  "tpca_payment_1 get_table = \<lparr>pr_locks = tpca_locks get_table TPCA_CUSTOMER, pr_run = tpca_run get_table TPCA_CUSTOMER\<rparr>"

definition tpca_payment_2 :: "(string \<Rightarrow> nat option) \<Rightarrow> proc2pl" where
  "tpca_payment_2 get_table = \<lparr>pr_locks = tpca_locks get_table TPCA_TELLER, pr_run = tpca_run get_table TPCA_TELLER\<rparr>"

definition tpca_payment_3 :: "(string \<Rightarrow> nat option) \<Rightarrow> proc2pl" where
  "tpca_payment_3 get_table = \<lparr>pr_locks = tpca_locks get_table TPCA_BRANCH, pr_run = tpca_run get_table TPCA_BRANCH\<rparr>"

definition reg_pieces :: "(string \<Rightarrow> nat option) \<Rightarrow> i32 \<times> i32 \<Rightarrow> proc2pl option" where
  "reg_pieces get_table k =
     (if k = (TPCA_PAYMENT, TPCA_PAYMENT_1) then Some (tpca_payment_1 get_table)
      else if k = (TPCA_PAYMENT, TPCA_PAYMENT_2) then Some (tpca_payment_2 get_table)
      else if k = (TPCA_PAYMENT, TPCA_PAYMENT_3) then Some (tpca_payment_3 get_table)
      else None)"

definition tpca_env :: "(nat \<Rightarrow> nat \<Rightarrow> bool) \<Rightarrow> (string \<Rightarrow> nat option) \<Rightarrow> tpl_env" where
  "tpca_env fires get_table = \<lparr>pe_fires = fires, pe_proc = reg_pieces get_table\<rparr>"

section \<open>The rows of a query\<close>

text \<open>The tables of the benchmark are sorted, and column 1 of their rows holds a 64-bit integer outside of the key.\<close>

definition tpca_table :: "db \<Rightarrow> nat \<Rightarrow> bool" where
  "tpca_table d t \<longleftrightarrow> t < length (d_tables d) \<and> fst (d_tables d ! t) = TBL_SORTED \<and> list_all (\<lambda>e. plain_write d (snd e) 1 (I64 0)) (t_rows (snd (d_tables d ! t)))"

definition tpca_db :: "(string \<Rightarrow> nat option) \<Rightarrow> db \<Rightarrow> bool" where
  "tpca_db get_table d \<longleftrightarrow>
     list_all (\<lambda>name. case get_table name of None \<Rightarrow> True | Some t \<Rightarrow> tpca_table d t) [TPCA_CUSTOMER, TPCA_TELLER, TPCA_BRANCH]"

lemma plain_i64: "plain_write d p c (I64 v) = plain_write d p c (I64 w)"
  by (simp add: plain_write_def db_writable_def)

text \<open>In a transaction without staged rows a query depends on the tables only.\<close>

lemma do_query_plain:
  assumes "plain_txn x"
  shows "do_query t mb (d, x) = rbind (table_at d t) (\<lambda>_. rbind (tbl_query t mb d) (\<lambda>c. Inr (new_merged t c [] [])))"
  using assms by (cases "table_at d t") (auto simp: do_query_def merge_result_def staged_def search_in_def ins_range_def ins_lower_def ins_upper_def
      plain_txn_def directed_def)

lemma tbl_query_same:
  assumes "plain_db d0 d"
  shows "tbl_query t mb d = tbl_query t mb d0" "table_at d t = table_at d0 t"
proof -
  have "d_tables d = d_tables d0" "d_schemas d = d_schemas d0" using assms by (simp_all add: plain_db_def same_shape_def same_frame_def)
  then show "tbl_query t mb d = tbl_query t mb d0" "table_at d t = table_at d0 t" by (simp_all add: tbl_query_def table_at_def schema_at_def cong: if_cong)
qed

lemma tpca_row_same:
  assumes "plain_db d0 d" and "plain_txn x" and "plain_db d0 d'" and "plain_txn x'"
  shows "tpca_row gt name inp (d, x) = tpca_row gt name inp (d', x')"
  unfolding tpca_row_def do_query_plain [OF assms(2)] do_query_plain [OF assms(4)] tbl_query_same [OF assms(1)] tbl_query_same [OF assms(3)] ..

lemma sorted_next:
  assumes "mc_next n raw_vt (new_merged t (SortedCur tab c) [] []) = Inr (p, m)"
  shows "p \<in> snd ` set (t_rows tab)"
  using assms
  by (cases n) (auto simp: mc_next_def mc_prefetch_def new_merged_def raw_vt_def cur_next_def Let_def split: if_splits option.splits)

lemma tpca_row_in:
  assumes "tpca_db gt d0" and "plain_db d0 d" and "plain_txn x" and "name \<in> {TPCA_CUSTOMER, TPCA_TELLER, TPCA_BRANCH}"
    and r: "tpca_row gt name inp (d, x) = Inr p"
  shows "plain_write d p 1 (I64 v)" "db_readable d p 1"
proof -
  obtain t key m m' where t: "gt name = Some t" "do_query t [key] (d, x) = Inr m" "mc_next (Suc (length (raw_rows (mc_cursor m)))) raw_vt m = Inr (p, m')"
    using r by (auto simp: tpca_row_def split: option.splits)
  have tt: "tpca_table d0 t" using assms(1,4) t(1) by (auto simp: tpca_db_def)
  obtain tab where tab: "d_tables d0 ! t = (TBL_SORTED, tab)" using tt by (metis tpca_table_def prod.collapse)
  obtain c where "m = new_merged t (SortedCur tab c) [] []"
    using t(2) tab unfolding do_query_plain [OF assms(3)] tbl_query_same [OF assms(2)]
    by (auto simp: tbl_query_def table_at_def split: if_splits)
  then have "p \<in> snd ` set (t_rows tab)" using t(3) sorted_next by blast
  then have w: "plain_write d0 p 1 (I64 v)" using tt tab plain_i64 [of d0 p 1 0 v] by (auto simp: tpca_table_def list_all_iff)
  then show "plain_write d p 1 (I64 v)" using plain_write_shape [of d0 d] assms(2) by (simp add: plain_db_def)
  then show "db_readable d p 1" by (simp add: plain_write_def db_writable_def db_readable_def)
qed

text \<open>The column has the type of its declaration.\<close>

lemma decode_kind: "decode k b = Inr v \<Longrightarrow> get_kind v = k"
  by (cases k) auto

lemma db_val_kind:
  assumes "db_inv d" and "db_readable d p c"
  shows "get_kind (db_val d p c) = col_type (col_info (row_schema p d) ! c)"
proof -
  obtain e where e: "cell_at (d_heap d) p = Inr e" "c_schema e < length (d_schemas d)" "schema_inv (row_schema p d)" "row_inv (row_schema p d) (c_row e)"
    using in_tableD [OF assms(1), of p] assms(2) by (auto simp: db_readable_def)
  have c: "c < length (col_info (row_schema p d))" using assms(2) columns_count_le [of "row_schema p d"] by (simp add: db_readable_def)
  obtain b where b: "get_column (row_schema p d) (c_row e) c = decode (col_kind (row_schema p d) c) b" using blob_of_column [OF e(3,4) c] by blast
  have "get_column (row_schema p d) (c_row e) c = Inr (db_val d p c)" using row_get_readable [OF assms] row_get_eq [OF e(1,2), of c] by simp
  then show ?thesis using b decode_kind [of "col_kind (row_schema p d) c" b] by (simp add: col_kind_def)
qed

lemma overlay_kind:
  assumes "db_inv d" and "db_readable d p c" and "updates_plain d us"
  shows "get_kind (overlay us (db_val d) p c) = col_type (col_info (row_schema p d) ! c)"
proof (cases "upd_find p c us")
  case (Some v)
  then have "plain_write d p c v" using upd_find_SomeD [OF Some] assms(3) by (auto simp: updates_plain_def list_all_iff)
  then show ?thesis using Some by (simp add: overlay_at plain_write_def db_writable_def)
qed (use db_val_kind [OF assms(1,2)] in \<open>simp add: overlay_at\<close>)

lemma get_i64_kind: "get_kind v = K_I64 \<Longrightarrow> \<exists>k. v = I64 k"
  by (cases v) auto

text \<open>The second call is a program of two accesses and succeeds.\<close>

lemma tpca_finish_spec:
  assumes d: "db_inv d" "plain_write d r 1 (I64 0)" and x: "plain_txn x" "updates_plain d (sg_updates x)"
  shows "\<exists>k st. tpca_finish r n (d, x, tr) = Inr (SUCCESS, [], st) \<and>
    run_ops col_read col_write [Rd r 1, Wr r 1 (I64 k)] (d, x, tr) = Inr ([Some (overlay (sg_updates x) (db_val d) r 1)], st)"
proof -
  let ?v = "overlay (sg_updates x) (db_val d) r 1"
  have w: "db_readable d r 1" "in_table r d" "col_type (col_info (row_schema r d) ! 1) = K_I64"
    using d(2) by (auto simp: plain_write_def db_writable_def db_readable_def)
  obtain k where k: "?v = I64 k" using overlay_kind [OF d(1) w(1) x(2)] w(3) get_i64_kind by metis
  have o: "sg_outcome x = NONE" using x(1) by (simp add: plain_txn_def)
  obtain x1 where x1: "t2_read_column r 1 (d, x) = Inr (Some ?v, d, x1)" "x1 = x \<or> x1 = x\<lparr>sg_reads := mm_ins r 1 (sg_reads x)\<rparr>"
    using t2_read_spec [OF d(1) w(1) o] by blast
  obtain t where t: "row_table r d = Inr (Some t)" using in_table_row_table [OF d(1) w(2)] by blast
  have rd: "col_read r 1 (d, x, tr) = Inr (Some ?v, d, x1, tr @ [AccR r 1 ?v])" using x1(1) by (simp add: col_read_def)
  have "sg_outcome x1 = NONE" using x1(2) o by auto
  then have wr: "\<exists>st. col_write r 1 u (d, x1, tr') = Inr (True, st)" for u tr' using t by (simp add: col_write_def t2_write_column_def)
  then obtain st where "col_write r 1 (I64 (k + 1)) (d, x1, tr @ [AccR r 1 ?v]) = Inr (True, st)" by blast
  then show ?thesis using rd k by (intro exI [of _ "k + 1"] exI [of _ st]) (simp add: tpca_finish_def set_i64_def)
qed

section \<open>The contract\<close>

definition tpca_guard :: "alock \<Rightarrow> alock" where
  "tpca_guard l = (fst l, 0)"

definition tpca_good :: "(nat \<Rightarrow> nat \<Rightarrow> bool) \<Rightarrow> (string \<Rightarrow> nat option) \<Rightarrow> db \<Rightarrow> bool" where
  "tpca_good fires get_table d \<longleftrightarrow> db_inv d \<and> tpca_db get_table d \<and> counts_down fires"

lemma reg_pieces_Some:
  assumes "reg_pieces gt k = Some pr"
  shows "\<exists>name \<in> {TPCA_CUSTOMER, TPCA_TELLER, TPCA_BRANCH}. pr_locks pr = tpca_locks gt name \<and> pr_run pr = tpca_run gt name"
  using assms by (auto simp: reg_pieces_def tpca_payment_1_def tpca_payment_2_def tpca_payment_3_def split: if_splits)

lemma tpca_calls:
  assumes good: "tpca_good fires gt d0" and L: "from_proc (tpca_env fires gt) d0 pc L qb"
    and pr: "pe_proc (tpca_env fires gt) (hd_t_type (pc_header pc), hd_p_type (pc_header pc)) = Some pr"
    and d: "plain_db d0 d" and x: "plain_txn x"
  shows "\<exists>r. L = {((r, 0), WLOCK)} \<and> plain_write d r 1 (I64 v) \<and> db_readable d r 1 \<and>
    (\<forall>n tr. pr_run pr (pc_header pc) (pc_input pc) qb n (d, x, tr) = tpca_finish r n (d, x, tr))"
proof -
  have rp: "reg_pieces gt (hd_t_type (pc_header pc), hd_p_type (pc_header pc)) = Some pr" using pr by (simp add: tpca_env_def)
  obtain name where name: "name \<in> {TPCA_CUSTOMER, TPCA_TELLER, TPCA_BRANCH}" "pr_locks pr = tpca_locks gt name" "pr_run pr = tpca_run gt name"
    using reg_pieces_Some [OF rp] by blast
  obtain d1 x1 lo where lo: "plain_db d0 d1" "plain_txn x1" "tpca_locks gt name (pc_header pc) (pc_input pc) new_query_buf (d1, x1) = Inr (lo, qb)"
      "L = locks_of lo"
    using L rp name(2) by (auto simp: from_proc_def tpca_env_def)
  then obtain r where r: "tpca_row gt name (pc_input pc) (d1, x1) = Inr r" "L = {((r, 0), WLOCK)}" by (auto simp: tpca_locks_def locks_of_def)
  have "tpca_row gt name (pc_input pc) (d, x) = Inr r" using tpca_row_same [OF lo(1,2) d x, of gt name "pc_input pc"] r(1) by simp
  moreover have "tpca_db gt d0" using good by (simp add: tpca_good_def)
  ultimately show ?thesis using tpca_row_in [OF _ d x name(1)] r(2) name(3) by (auto simp: tpca_run_def)
qed

interpretation tpca: answering_procs "tpca_env fires gt" tpca_guard "tpca_good fires gt" for fires gt
proof
  fix d0 :: db
  show "tpca_good fires gt d0 \<Longrightarrow> db_inv d0" "tpca_good fires gt d0 \<Longrightarrow> counts_down (pe_fires (tpca_env fires gt))"
    by (simp_all add: tpca_good_def tpca_env_def)
  fix pc L qb pr d x n tr res outp st
  assume a: "tpca_good fires gt d0" "from_proc (tpca_env fires gt) d0 pc L qb"
    "pe_proc (tpca_env fires gt) (hd_t_type (pc_header pc), hd_p_type (pc_header pc)) = Some pr" "plain_db d0 d" "plain_txn x" "updates_plain d (sg_updates x)"
  obtain r where r: "L = {((r, 0), WLOCK)}" "plain_write d r 1 (I64 0)" "db_readable d r 1"
    "\<forall>n tr. pr_run pr (pc_header pc) (pc_input pc) qb n (d, x, tr) = tpca_finish r n (d, x, tr)"
    using tpca_calls [OF a(1-5), of 0] by blast
  have "db_inv d" using a(4) by (simp add: plain_db_def)
  note F = tpca_finish_spec [OF this r(2) a(5,6), of n tr]
  then show "\<exists>res. pr_run pr (pc_header pc) (pc_input pc) qb n (d, x, tr) = Inr res" using r(4) by fastforce
  assume "pr_run pr (pc_header pc) (pc_input pc) qb n (d, x, tr) = Inr (res, outp, st)"
  then obtain k vs where "run_ops col_read col_write [Rd r 1, Wr r 1 (I64 k)] (d, x, tr) = Inr (vs, st)" using F r(4) by fastforce
  moreover have "list_all (guarded_op tpca_guard d L) [Rd r 1, Wr r 1 (I64 k)]"
    using r(1,2,3) plain_i64 [of d r 1 0 k] by (simp add: guarded_op_def tpca_guard_def)
  ultimately show "\<exists>ops vs. list_all (guarded_op tpca_guard d L) ops \<and> run_ops col_read col_write ops (d, x, tr) = Inr (vs, st)" by blast
qed

section \<open>What the procedures leave in the traces\<close>

text \<open>The accesses of payments: each adds 1 to the value it has read.\<close>

fun increments :: "access list \<Rightarrow> bool" where
  "increments [] \<longleftrightarrow> True"
| "increments (AccR r c (I64 k) # AccW r' c' (I64 k') # as) \<longleftrightarrow> r' = r \<and> c = 1 \<and> c' = 1 \<and> k' = k + 1 \<and> increments as"
| "increments _ \<longleftrightarrow> False"

definition payments :: "nat \<Rightarrow> access list \<Rightarrow> nat" where
  "payments r as = length (filter (\<lambda>a. case a of AccW r' _ _ \<Rightarrow> r' = r | AccR _ _ _ \<Rightarrow> False) as)"

lemma increments_append: "increments as \<Longrightarrow> increments bs \<Longrightarrow> increments (as @ bs)"
  by (induction as rule: increments.induct) auto

lemma increments_concat: "list_all increments ass \<Longrightarrow> increments (concat ass)"
  by (induction ass) (auto intro: increments_append)

lemma replay_increments:
  "increments as \<Longrightarrow> replay as m = Some m' \<Longrightarrow> m r 1 = I64 v \<Longrightarrow> m' r 1 = I64 (v + of_nat (payments r as))"
proof (induction as arbitrary: m v rule: increments.induct)
  case (2 q c k q' c' k' as)
  then have e: "q' = q" "c = 1" "c' = 1" "k' = k + 1" "increments as" "m q 1 = I64 k" "replay as (store_val q 1 (I64 (k + 1)) m) = Some m'"
    by (auto split: if_splits)
  have "store_val q 1 (I64 (k + 1)) m r 1 = I64 (if r = q then v + 1 else v)" using e(6) "2.prems"(3) by (auto simp: store_val_def)
  from "2.IH" [OF e(5,7) this] show ?case using e(1) by (simp add: payments_def)
qed (auto simp: payments_def)

lemma tpca_finish_trace:
  assumes "tpca_finish r n (d, x, tr) = Inr (res, outp, d', x', tr')"
  shows "\<exists>k. tr' = tr @ [AccR r 1 (I64 k), AccW r 1 (I64 (k + 1))]"
proof -
  have wr: "b = True" if "t2_write_column p c v (d1, y) = Inr (b, st)" for p c v d1 y b st
    using that by (auto simp: t2_write_column_def split: option.splits)
  have rd: "v \<noteq> None" if "t2_read_column p c (d1, y) = Inr (v, st)" for p c v d1 y st
    using that by (auto simp: t2_read_column_def split: option.splits)
  have i: "get_i64 buf = Inr k \<longleftrightarrow> buf = I64 k" for buf k by (cases buf) auto
  show ?thesis using assms
    by (auto simp: tpca_finish_def col_read_def col_write_def set_i64_def i dest!: rd wr split: option.splits if_splits)
qed

lemma tpca_run_trace:
  assumes "pe_proc (tpca_env fires gt) k = Some pr" and "pr_run pr h inp qb n (d, x, tr) = Inr (res, outp, d', x', tr')" and "increments tr"
  shows "increments tr'"
proof -
  obtain name where "pr_run pr = tpca_run gt name" using reg_pieces_Some [of gt k pr] assms(1) by (auto simp: tpca_env_def)
  then obtain r where "tpca_finish r n (d, x, tr) = Inr (res, outp, d', x', tr')" using assms(2) by (auto simp: tpca_run_def)
  then obtain k where "tr' = tr @ [AccR r 1 (I64 k), AccW r 1 (I64 (k + 1))]" using tpca_finish_trace by blast
  then show ?thesis using increments_append assms(3) by simp
qed

section \<open>A run\<close>

text \<open>Runs as functions: a step whose guard does not hold is an error.\<close>

datatype tpl_step = DoStart request_header "mvalue list" nat | DoNext | DoGrant i64 i64 | DoRefuse i64 i64 | DoPrepare i64 | DoCommit i64 | DoAbort i64

fun tpl_do :: "tpl_env \<Rightarrow> tpl_step \<Rightarrow> tpl_server \<Rightarrow> tpl_server res" where
  "tpl_do env (DoStart h inp n) s = Inr (start_pie_2pl h inp n s)"
| "tpl_do env DoNext s = (case tl_todo s of
     [] \<Rightarrow> Inl OutOfRange
   | pc # _ \<Rightarrow> verify (map_of (tl_pies s) (hd_tid (pc_header pc), hd_pid (pc_header pc)) = None) (start_next env s))"
| "tpl_do env (DoGrant tid pid) s = verify ((tid, pid) \<in> set (tl_asked s) \<and> grantable tid pid s) (get_2pl_succ_callback env tid pid s)"
| "tpl_do env (DoRefuse tid pid) s = verify ((tid, pid) \<in> set (tl_asked s)) (get_2pl_fail_callback env tid pid s)"
| "tpl_do env (DoPrepare tid) s = do_prepare_2pl tid s"
| "tpl_do env (DoCommit tid) s = verify (voted_yes tid s) (do_commit_2pl tid s)"
| "tpl_do env (DoAbort tid) s = do_abort_2pl tid s"

fun tpl_do_all :: "tpl_env \<Rightarrow> tpl_step list \<Rightarrow> tpl_server \<Rightarrow> tpl_server res" where
  "tpl_do_all env [] s = Inr s"
| "tpl_do_all env (e # es) s = rbind (tpl_do env e s) (tpl_do_all env es)"

lemma tpl_do_reach: "tpl_reach env d0 s \<Longrightarrow> tpl_do env e s = Inr s' \<Longrightarrow> tpl_reach env d0 s'"
  by (cases e) (auto split: list.splits intro: tpl_reach.intros)

lemma tpl_do_all_reach: "tpl_reach env d0 s \<Longrightarrow> tpl_do_all env es s = Inr s' \<Longrightarrow> tpl_reach env d0 s'"
  by (induction es arbitrary: s) (auto dest: tpl_do_reach)

text \<open>Three tables of one row each, with the keys 7, 8 and 9 and the balances 100, 200 and 300. Two transactions pay to the same customer; the
  second one waits for the lock of the first. A third one asks for the lock of a branch.\<close>

definition pay_schema :: schema where
  "pay_schema = \<lparr>col_name_to_id = [(''balance'', 1), (''id'', 0)],
     col_info = [\<lparr>col_id = 0, col_name = ''id'', indexed = True, col_type = K_I32, place = 0\<rparr>,
                 \<lparr>col_id = 1, col_name = ''balance'', indexed = False, col_type = K_I64, place = 4\<rparr>],
     key_cols_id = [0], var_size_cols = 0, fixed_part_size = 12, hidden_fixed = 0, hidden_var = 0, frozen = True\<rparr>"

definition pay_cell :: "i32 \<Rightarrow> i64 \<Rightarrow> nat \<Rightarrow> cell" where
  "pay_cell i b t = \<lparr>c_row = \<lparr>fixed_part = le_bytes 4 i @ le_bytes 8 b, var_part = Dense [] [], rdonly = False, tbl = Some t\<rparr>, c_refs = 1, c_schema = 0\<rparr>"

definition pay_db :: db where
  "pay_db = \<lparr>d_heap = [Some (pay_cell 7 100 0), Some (pay_cell 8 200 1), Some (pay_cell 9 300 2)], d_schemas = [pay_schema],
     d_tables = [(TBL_SORTED, \<lparr>t_id = 0, t_schema = 0, t_rows = [([[7, 0, 0, 0]], 0)]\<rparr>), (TBL_SORTED, \<lparr>t_id = 1, t_schema = 0, t_rows = [([[8, 0, 0, 0]], 1)]\<rparr>),
                 (TBL_SORTED, \<lparr>t_id = 2, t_schema = 0, t_rows = [([[9, 0, 0, 0]], 2)]\<rparr>)],
     d_kind = (\<lambda>_. ROW_FINE), d_ver = (\<lambda>_ _. 0), d_lock = (\<lambda>_. new_rwlock)\<rparr>"

definition pay_tables :: "string \<Rightarrow> nat option" where
  "pay_tables = map_of [(TPCA_CUSTOMER, 0), (TPCA_TELLER, 1), (TPCA_BRANCH, 2)]"

definition pay_env :: tpl_env where
  "pay_env = tpca_env (\<lambda>n k. k = n) pay_tables"

definition pay_header :: "i32 \<Rightarrow> uint64 \<Rightarrow> uint64 \<Rightarrow> request_header" where
  "pay_header pt tid pid = \<lparr>hd_t_type = TPCA_PAYMENT, hd_p_type = pt, hd_tid = tid, hd_cid = 0, hd_pid = pid\<rparr>"

definition pay_steps :: "tpl_step list" where
  "pay_steps = [DoStart (pay_header TPCA_PAYMENT_1 1 11) [I32 7] 0, DoStart (pay_header TPCA_PAYMENT_1 2 21) [I32 7] 0, DoNext, DoNext,
     DoGrant 1 11, DoPrepare 1, DoCommit 1, DoGrant 2 21, DoPrepare 2, DoCommit 2, DoStart (pay_header TPCA_PAYMENT_3 3 31) [I32 9] 0, DoNext]"

definition pay_state :: tpl_server where
  "pay_state = projr (tpl_do_all pay_env pay_steps (new_tpl_server pay_db))"

lemma pay_good: "tpca_good (\<lambda>n k. k = n) pay_tables pay_db"
proof -
  have "schema_inv pay_schema" by code_simp
  moreover have "table_wf pay_db 0" "table_wf pay_db 1" "table_wf pay_db 2" by code_simp+
  moreover have "\<forall>t < length (d_tables pay_db). t = 0 \<or> t = 1 \<or> t = 2" by (auto simp: pay_db_def)
  ultimately have "db_inv pay_db" by (auto simp: db_inv_def) (simp add: pay_db_def)
  moreover have "tpca_db pay_tables pay_db" by code_simp
  ultimately show ?thesis by (simp add: tpca_good_def counts_down_def)
qed

definition pay_view :: "tpl_server res \<Rightarrow> (access list list \<times> nat \<times> nat \<times> nat \<times> (i64 \<times> i64) list) option" where
  "pay_view r = (case r of
     Inl _ \<Rightarrow> None
   | Inr s \<Rightarrow> Some (tl_log s, length (tl_balls s), open_pieces 0 (outstanding s), open_pieces 2 (outstanding s), tl_asked s))"

lemma pay_run: "pay_view (tpl_do_all pay_env pay_steps (new_tpl_server pay_db)) =
    Some ([[AccR 0 1 (I64 100), AccW 0 1 (I64 101)], [AccR 0 1 (I64 101), AccW 0 1 (I64 102)]], 3, 0, 1, [(3, 31)])"
  by code_simp

lemma pay_facts:
  "tpl_do_all pay_env pay_steps (new_tpl_server pay_db) = Inr pay_state"
  "tl_log pay_state = [[AccR 0 1 (I64 100), AccW 0 1 (I64 101)], [AccR 0 1 (I64 101), AccW 0 1 (I64 102)]]"
  "length (tl_balls pay_state) = 3" "open_pieces 0 (outstanding pay_state) = 0" "open_pieces 2 (outstanding pay_state) = 1" "tl_asked pay_state = [(3, 31)]"
  using pay_run by (auto simp: pay_view_def pay_state_def split: sum.splits)

lemma pay_reach: "tpl_reach (tpca_env (\<lambda>n k. k = n) pay_tables) pay_db pay_state"
  using tpl_do_all_reach [OF tpl_init pay_facts(1)] by (simp add: pay_env_def)

section \<open>Properties\<close>

text \<open>C11. Isolation: whatever the order of requests, lock answers, wounds, prepares, commits and aborts on a server that runs the TPC-A procedures
  with two-phase locking, the accesses of the committed transactions, one transaction after the other in the order of the commits, read
  the values they have read and end in the contents of the database, which keeps its invariant.\<close>

theorem tpca_2pl_serializable:
  assumes "tpca_good fires get_table d" and "tpl_reach (tpca_env fires get_table) d s"
  shows "replay (concat (tl_log s)) (db_val d) = Some (db_val (tl_db s)) \<and> db_inv (tl_db s)"
  by (rule tpca.reach_serializable [OF assms])

theorem tpca_2pl_serializable_witness:
  "replay (concat (tl_log pay_state)) (db_val pay_db) = Some (db_val (tl_db pay_state)) \<and> length (tl_log pay_state) = 2"
  using tpca_2pl_serializable [OF pay_good pay_reach] pay_facts(2) by simp

text \<open>C15. No payment is lost: the balance of a row is its first balance and the number of committed payments to the row, modulo
  the 64 bits of the column.\<close>

theorem tpca_no_lost_payment:
  assumes "tpca_good fires get_table d" and "tpl_reach (tpca_env fires get_table) d s" and "db_val d r 1 = I64 v"
  shows "db_val (tl_db s) r 1 = I64 (v + of_nat (payments r (concat (tl_log s))))"
proof -
  have "keeps_traces (tpca_env fires get_table) increments" using tpca_run_trace unfolding keeps_traces_def by (metis increments.simps(1))
  then have "list_all increments (tl_log s)" using reach_traces assms(2) by (auto simp: traces_ok_def)
  then have "increments (concat (tl_log s))" by (rule increments_concat)
  then show ?thesis using replay_increments assms(3) tpca.reach_serializable [OF assms(1,2)] by blast
qed

theorem tpca_no_lost_payment_witness: "db_val (tl_db pay_state) 0 1 = I64 102"
proof -
  have v: "db_val pay_db 0 1 = I64 100" by code_simp
  have "payments 0 (concat (tl_log pay_state)) = 2" unfolding pay_facts(2) by code_simp
  then show ?thesis using tpca_no_lost_payment [OF pay_good pay_reach v] by simp
qed

text \<open>C14. Every request is answered once, when its last piece is done: while a piece has not been started or waits for a lock there is no
  answer. Whether a lock group grants or refuses its locks, the callback runs to its end.\<close>

theorem tpca_request_answered:
  assumes "tpca_good fires get_table d" and "tpl_reach (tpca_env fires get_table) d s"
  shows "(\<forall>b < length (tl_balls s). answers b (tl_out s) = (if open_pieces b (outstanding s) = 0 then 1 else 0)) \<and>
    (\<forall>k \<in> set (tl_asked s). (\<exists>s'. get_2pl_succ_callback (tpca_env fires get_table) (fst k) (snd k) s = Inr s') \<and>
       (\<exists>s'. get_2pl_fail_callback (tpca_env fires get_table) (fst k) (snd k) s = Inr s'))"
  using tpca.answered_once [OF assms] tpca.answers_get_through [OF assms] by auto

theorem tpca_request_answered_witness:
  "answers 0 (tl_out pay_state) = 1 \<and> answers 2 (tl_out pay_state) = 0 \<and> (\<exists>s'. get_2pl_fail_callback pay_env 3 31 pay_state = Inr s')"
  using tpca_request_answered [OF pay_good pay_reach] pay_facts(3-6) by (simp add: pay_env_def)



end
