(* ===== verification/Tpcc_Piece.thy ===== *)
theory Tpcc_Piece
  imports Tpca_Piece Tpcc_Chopper
begin

text \<open>
  The stored procedures of TPC-C with two-phase locking (\<^verbatim>\<open>tpcc/piece.cc\<close>), those that work on columns of rows that are there: the
  server passes no row map, no vertices and no list of conflicts, so the branches of the other modes are not taken. A procedure is two
  calls, \<open>two_calls look locks body\<close>: both find the rows, the first one by a query and the second one by retrieving the result of that
  query; the first one asks for locks and the second one reads and writes.

  The arithmetic of doubles, the texts of doubles and of the time, and the index from last names to customers are parameters: a record
  \<open>tpcc_machine\<close>.
\<close>

section \<open>Tables and parameters\<close>

record tpcc_machine =
  tm_add :: "64 word \<Rightarrow> 64 word \<Rightarrow> 64 word"
  tm_sub :: "64 word \<Rightarrow> 64 word \<Rightarrow> 64 word"
  tm_dbl_str :: "64 word \<Rightarrow> byte list"
  tm_time :: "request_header \<Rightarrow> nat \<Rightarrow> byte list"
  tm_table :: "string \<Rightarrow> nat option"
  tm_c_last_schema :: schema
  tm_c_last2id :: "((byte list \<times> multi_blob) \<times> i32) list"

text \<open>\<^verbatim>\<open>to_string\<close> of a value: its kind and its contents.\<close>

definition str_bytes :: "string \<Rightarrow> byte list" where
  "str_bytes s = map of_char s"

function dec_digits :: "nat \<Rightarrow> byte list" where
  "dec_digits n = (if n < 10 then [of_nat (48 + n)] else dec_digits (n div 10) @ [of_nat (48 + n mod 10)])"
  by auto
termination by (relation "measure id") auto

declare dec_digits.simps [simp del]

definition int_str :: "int \<Rightarrow> byte list" where
  "int_str i = (if i < 0 then 45 # dec_digits (nat (- i)) else dec_digits (nat i))"

fun value_str :: "(64 word \<Rightarrow> byte list) \<Rightarrow> mvalue \<Rightarrow> byte list" where
  "value_str ds UNKNOWN = str_bytes ''UNKNOWN''"
| "value_str ds (I32 i) = str_bytes ''I32:'' @ int_str (sint i)"
| "value_str ds (I64 i) = str_bytes ''I64:'' @ int_str (sint i)"
| "value_str ds (DOUBLE v) = str_bytes ''DOUBLE:'' @ ds v"
| "value_str ds (STRING s) = str_bytes ''STR:'' @ s"

section \<open>Finding rows\<close>

definition key_blobs :: "mvalue list \<Rightarrow> nat list \<Rightarrow> multi_blob res" where
  "key_blobs inp js = rbind (rmap (at inp) js) (rmap value_blob)"

text \<open>The row of a key: the inputs \<open>js\<close> of a request with \<open>k\<close> inputs. A missing table is a null pointer.\<close>

type_synonym 'r finder = "bool \<Rightarrow> mvalue list \<Rightarrow> db \<times> txn2pl \<Rightarrow> query_buf \<Rightarrow> ('r \<times> query_buf) res"

definition query_row :: "tpcc_machine \<Rightarrow> string \<Rightarrow> nat \<Rightarrow> nat list \<Rightarrow> nat finder" where
  "query_row m name k js retrieve inp st qb =
     verify (length inp = k)
       (rbind (key_blobs inp js)
         (\<lambda>mb. rbind (buf_query retrieve (case tm_table m name of None \<Rightarrow> Inl BadPointer | Some t \<Rightarrow> do_query t mb st) qb)
           (\<lambda>(i, qb1). rs_next i qb1)))"

text \<open>All rows between two keys; \<^verbatim>\<open>query_in\<close> looks at the schema of the table in both calls.\<close>

definition query_rows :: "tpcc_machine \<Rightarrow> string \<Rightarrow> nat \<Rightarrow> (mvalue list \<Rightarrow> multi_blob res) \<Rightarrow> (mvalue list \<Rightarrow> multi_blob res) \<Rightarrow> order \<Rightarrow> nat list finder" where
  "query_rows m name k lo hi ord retrieve inp st qb =
     verify (length inp = k)
       (rbind (lo inp)
         (\<lambda>l. rbind (hi inp)
           (\<lambda>h. case tm_table m name of
              None \<Rightarrow> Inl BadPointer
            | Some t \<Rightarrow> rbind (buf_query retrieve (do_query_in t l h ord st) qb) (\<lambda>(i, qb1). rs_rows i qb1))))"

definition some_rows :: "nat list finder \<Rightarrow> nat list finder" where
  "some_rows f retrieve inp st qb = rbind (f retrieve inp st qb) (\<lambda>(rs, qb1). verify (rs \<noteq> []) (Inr (rs, qb1)))"

text \<open>A message of the log reads inputs as integers, before the query in one procedure and after it in another.\<close>

definition log_ints :: "nat list \<Rightarrow> mvalue list \<Rightarrow> i32 list res" where
  "log_ints js inp = rmap (\<lambda>j. get_i32 (inp ! j)) js"

definition logged :: "nat list \<Rightarrow> 'r finder \<Rightarrow> 'r finder" where
  "logged js f retrieve inp st qb = rbind (f retrieve inp st qb) (\<lambda>found. rbind (log_ints js inp) (\<lambda>_. Inr found))"

definition I32_MIN :: i32 where "I32_MIN = 0x80000000"
definition I32_MAX :: i32 where "I32_MAX = 0x7FFFFFFF"

definition key_with :: "nat list \<Rightarrow> i32 \<Rightarrow> mvalue list \<Rightarrow> multi_blob res" where
  "key_with js v inp = rbind (key_blobs inp js) (\<lambda>mb. Inr (mb @ [le_bytes 4 v]))"

section \<open>Reading and writing\<close>

text \<open>Statements of a procedure with what comes after them: a refused access ends the procedure with \<^verbatim>\<open>REJECT\<close> and the output so far.\<close>

type_synonym proc_body = "proc_state \<Rightarrow> (int \<times> mvalue list \<times> proc_state) res"

definition read_col :: "nat \<Rightarrow> nat \<Rightarrow> mvalue list \<Rightarrow> (mvalue \<Rightarrow> proc_body) \<Rightarrow> proc_body" where
  "read_col r c outs k st =
     rbind (col_read r c st) (\<lambda>(v, st1). case v of None \<Rightarrow> Inr (REJECT, outs, st1) | Some buf \<Rightarrow> k buf st1)"

definition write_col :: "nat \<Rightarrow> nat \<Rightarrow> mvalue \<Rightarrow> mvalue list \<Rightarrow> proc_body \<Rightarrow> proc_body" where
  "write_col r c v outs k st = rbind (col_write r c v st) (\<lambda>(ok, st1). if ok then k st1 else Inr (REJECT, outs, st1))"

definition with_val :: "'v res \<Rightarrow> ('v \<Rightarrow> proc_body) \<Rightarrow> proc_body" where
  "with_val e k st = rbind e (\<lambda>v. k v st)"

definition finish_ok :: "nat \<Rightarrow> mvalue list \<Rightarrow> proc_body" where
  "finish_ok output_size outs st = verify (length outs \<le> output_size) (Inr (SUCCESS, outs, st))"

text \<open>Columns that go to the output one after the other.\<close>

fun read_outs :: "nat \<Rightarrow> nat list \<Rightarrow> mvalue list \<Rightarrow> (mvalue list \<Rightarrow> proc_body) \<Rightarrow> proc_body" where
  "read_outs r [] outs k = k outs"
| "read_outs r (c # cs) outs k = read_col r c outs (\<lambda>v. read_outs r cs (outs @ [v]) k)"

fun read_rows :: "nat list \<Rightarrow> nat list \<Rightarrow> mvalue list \<Rightarrow> (mvalue list \<Rightarrow> proc_body) \<Rightarrow> proc_body" where
  "read_rows [] cs outs k = k outs"
| "read_rows (r # rs) cs outs k = read_outs r cs outs (\<lambda>outs1. read_rows rs cs outs1 k)"

text \<open>\<^verbatim>\<open>Txn::read_columns\<close> and \<^verbatim>\<open>Txn::write_columns\<close>.\<close>

fun read_columns :: "nat \<Rightarrow> nat list \<Rightarrow> mvalue list \<Rightarrow> mvalue list \<Rightarrow> (mvalue list \<Rightarrow> proc_body) \<Rightarrow> proc_body" where
  "read_columns r [] vs outs k = k vs"
| "read_columns r (c # cs) vs outs k = read_col r c outs (\<lambda>v. read_columns r cs (vs @ [v]) outs k)"

fun write_columns :: "nat \<Rightarrow> (nat \<times> mvalue) list \<Rightarrow> mvalue list \<Rightarrow> proc_body \<Rightarrow> proc_body" where
  "write_columns r [] outs k = k"
| "write_columns r (cv # cvs) outs k = write_col r (fst cv) (snd cv) outs (write_columns r cvs outs k)"

section \<open>Procedures\<close>

definition two_calls :: "'r finder \<Rightarrow> (mvalue list \<Rightarrow> 'r \<Rightarrow> (alock \<times> alock_type) list res) \<Rightarrow>
    (request_header \<Rightarrow> mvalue list \<Rightarrow> nat \<Rightarrow> 'r \<Rightarrow> proc_body) \<Rightarrow> proc2pl" where
  "two_calls look locks body = \<lparr>
     pr_locks = (\<lambda>h inp qb st. rbind (look False inp st qb) (\<lambda>(r, qb1). rbind (locks inp r) (\<lambda>ls. Inr (Some ls, qb1)))),
     pr_run = (\<lambda>h inp qb n st. rbind (look True inp (fst st, fst (snd st)) qb) (\<lambda>(r, qb1). body h inp n r st))\<rparr>"

text \<open>A procedure without locks goes on at once.\<close>

definition one_call :: "nat \<Rightarrow> (request_header \<Rightarrow> mvalue list \<Rightarrow> nat \<Rightarrow> proc_body) \<Rightarrow> proc2pl" where
  "one_call k body = \<lparr>
     pr_locks = (\<lambda>h inp qb st. verify (length inp = k) (Inr (None, qb))),
     pr_run = (\<lambda>h inp qb n st. verify (length inp = k) (body h inp n st))\<rparr>"

definition lock_cols :: "nat \<Rightarrow> (nat \<times> alock_type) list \<Rightarrow> (alock \<times> alock_type) list" where
  "lock_cols r cts = map (\<lambda>(c, t). ((r, c), t)) cts"

definition rlocks :: "nat list \<Rightarrow> nat \<Rightarrow> (alock \<times> alock_type) list" where
  "rlocks cs r = lock_cols r (map (\<lambda>c. (c, RLOCK)) cs)"

text \<open>A procedure that only reads the columns of one row.\<close>

definition read_proc :: "nat finder \<Rightarrow> nat list \<Rightarrow> proc2pl" where
  "read_proc look cs = two_calls look (\<lambda>inp r. Inr (rlocks cs r)) (\<lambda>h inp n r. read_outs r cs [] (finish_ok n))"

subsection \<open>New order\<close>

definition new_order_0 :: "tpcc_machine \<Rightarrow> proc2pl" where
  "new_order_0 m = two_calls (query_row m TPCC_TB_DISTRICT 2 [1, 0])
     (\<lambda>inp r. Inr (lock_cols r [(8, RLOCK), (10, WLOCK)]))
     (\<lambda>h inp n r. read_col r 8 [] (\<lambda>d_tax. read_col r 10 [d_tax] (\<lambda>buf. with_val (get_i32 buf) (\<lambda>o_id.
        with_val (set_i32 (o_id + 1) buf) (\<lambda>buf1. write_col r 10 buf1 [d_tax, buf] (finish_ok n [d_tax, buf]))))))"

definition new_order_1 :: "tpcc_machine \<Rightarrow> proc2pl" where
  "new_order_1 m = read_proc (query_row m TPCC_TB_WAREHOUSE 1 [0]) [7]"

definition new_order_2 :: "tpcc_machine \<Rightarrow> proc2pl" where
  "new_order_2 m = read_proc (query_row m TPCC_TB_CUSTOMER 3 [2, 1, 0]) [5, 13, 15]"

definition new_order_5 :: "tpcc_machine \<Rightarrow> proc2pl" where
  "new_order_5 m = read_proc (query_row m TPCC_TB_ITEM 1 [0]) [2, 3, 4]"

definition new_order_6 :: "tpcc_machine \<Rightarrow> proc2pl" where
  "new_order_6 m = read_proc (query_row m TPCC_TB_STOCK 3 [0, 1]) [3, 16]"

definition new_order_7 :: "tpcc_machine \<Rightarrow> proc2pl" where
  "new_order_7 m = two_calls (query_row m TPCC_TB_STOCK 4 [0, 1])
     (\<lambda>inp r. Inr (lock_cols r [(2, WLOCK), (13, WLOCK), (14, WLOCK), (15, WLOCK)]))
     (\<lambda>h inp n r.
        read_col r 2 [] (\<lambda>b. with_val (get_i32 b) (\<lambda>qty. with_val (get_i32 (inp ! 2)) (\<lambda>ol.
        read_col r 13 [] (\<lambda>b. with_val (get_i32 b) (\<lambda>ytd.
        read_col r 14 [] (\<lambda>b. with_val (get_i32 b) (\<lambda>order_cnt.
        read_col r 15 [] (\<lambda>b. with_val (get_i32 b) (\<lambda>remote_cnt. with_val (get_i32 (inp ! 3)) (\<lambda>remote.
        let q = qty - ol; q1 = (if sint q < 10 then q + 91 else q)
        in write_columns r [(2, I32 q1), (13, I32 (ytd + ol)), (14, I32 (order_cnt + 1)), (15, I32 (remote_cnt + remote))] []
             (finish_ok n []))))))))))))"

subsection \<open>Payment\<close>

definition payment_0 :: "tpcc_machine \<Rightarrow> proc2pl" where
  "payment_0 m = read_proc (query_row m TPCC_TB_WAREHOUSE 2 [0]) [1, 2, 3, 4, 5, 6]"

definition payment_1 :: "tpcc_machine \<Rightarrow> proc2pl" where
  "payment_1 m = read_proc (query_row m TPCC_TB_DISTRICT 2 [1, 0]) [2, 3, 4, 5, 6, 7]"

definition payment_2 :: "tpcc_machine \<Rightarrow> proc2pl" where
  "payment_2 m = two_calls (query_row m TPCC_TB_DISTRICT 3 [1, 0])
     (\<lambda>inp r. Inr (lock_cols r [(9, WLOCK)]))
     (\<lambda>h inp n r. read_col r 9 [] (\<lambda>buf. with_val (get_double buf) (\<lambda>ytd. with_val (get_double (inp ! 2)) (\<lambda>amount.
        with_val (set_double (tm_add m ytd amount) buf) (\<lambda>buf1. write_col r 9 buf1 [] (finish_ok n []))))))"

text \<open>The index from last names to customers is a multimap in the order of \<^verbatim>\<open>c_last_id_t::operator<\<close>: C strings first, then keys.\<close>

definition c_str :: "byte list \<Rightarrow> byte list" where
  "c_str s = takeWhile (\<lambda>b. b \<noteq> 0) s"

definition c_last_less :: "schema \<Rightarrow> byte list \<times> multi_blob \<Rightarrow> byte list \<times> multi_blob \<Rightarrow> bool res" where
  "c_last_less s a b =
     (if bytes_lt (c_str (fst a)) (c_str (fst b)) then Inr True
      else if c_str (fst a) = c_str (fst b) then smk_less s (snd a) (snd b) else Inr False)"

text \<open>The loop over the customers of a name moves the middle one at every other step.\<close>

fun mid_scan :: "nat \<Rightarrow> nat \<Rightarrow> bool \<Rightarrow> nat option \<Rightarrow> nat option" where
  "mid_scan 0 it inc mid = mid"
| "mid_scan (Suc n) it inc mid =
     (case mid of
        Some j \<Rightarrow> if inc then mid_scan n (Suc it) False (Some (Suc j)) else mid_scan n (Suc it) True (Some j)
      | None \<Rightarrow> mid_scan n (Suc it) inc (Some it))"

definition c_last_range :: "tpcc_machine \<Rightarrow> mvalue list \<Rightarrow> (nat \<times> nat) res" where
  "c_last_range m inp =
     (let s = tm_c_last_schema m; es = tm_c_last2id m
      in rbind (key_blobs inp [2, 1])
           (\<lambda>mb. rbind (get_str (inp ! 0))
             (\<lambda>name. rbind (new_smk s (mb @ [le_bytes 4 I32_MIN]))
               (\<lambda>lo. rbind (new_smk s (mb @ [le_bytes 4 I32_MAX]))
                 (\<lambda>hi. rbind (scan (\<lambda>e. c_last_less s (fst e) (name, lo)) es)
                   (\<lambda>it_low. rbind (scan (\<lambda>e. rbind (c_last_less s (name, hi) (fst e)) (\<lambda>b. Inr (\<not> b))) es)
                     (\<lambda>it_high. Inr (it_low, it_high))))))))"

text \<open>The message of the log reads two inputs as numbers.\<close>

definition customer_by_last :: "tpcc_machine \<Rightarrow> mvalue list \<Rightarrow> i32 res" where
  "customer_by_last m inp =
     rbind (c_last_range m inp)
       (\<lambda>(it_low, it_high). rbind (get_i32 (inp ! 1))
         (\<lambda>_. rbind (get_i32 (inp ! 2))
           (\<lambda>_. case mid_scan (it_high - it_low) it_low False None of
              None \<Rightarrow> Inl VerifyFailed
            | Some it_mid \<Rightarrow> rbind (at (tm_c_last2id m) it_mid) (\<lambda>e. Inr (snd e)))))"

definition payment_3 :: "tpcc_machine \<Rightarrow> proc2pl" where
  "payment_3 m = one_call 3 (\<lambda>h inp n. with_val (customer_by_last m inp) (\<lambda>c_id. finish_ok n [I32 c_id]))"

definition payment_data :: "tpcc_machine \<Rightarrow> mvalue list \<Rightarrow> byte list \<Rightarrow> byte list" where
  "payment_data m inp old =
     take 500 (concat (map (\<lambda>i. value_str (tm_dbl_str m) (inp ! i)) [0, 2, 1, 5, 4, 3]) @ old)"

definition payment_4 :: "tpcc_machine \<Rightarrow> proc2pl" where
  "payment_4 m = two_calls (query_row m TPCC_TB_CUSTOMER 6 [0, 2, 1])
     (\<lambda>inp r. rbind (get_i32 (inp ! 0))
        (\<lambda>c_id. Inr (rlocks [3, 4, 5, 6, 7, 8, 9, 10, 11, 12, 13, 14, 15] r @
           lock_cols r [(16, WLOCK), (17, WLOCK), (20, if 10 dvd sint c_id then WLOCK else RLOCK)])))
     (\<lambda>h inp n r. read_columns r [3, 4, 5, 6, 7, 8, 9, 10, 11, 12, 13, 14, 15, 16, 17, 20] [] [] (\<lambda>buf.
        with_val (get_i32 (inp ! 0)) (\<lambda>c_id.
        with_val (get_double (buf ! 13)) (\<lambda>balance. with_val (get_double (buf ! 14)) (\<lambda>ytd. with_val (get_double (inp ! 3)) (\<lambda>amount.
        let new_balance = DOUBLE (tm_sub m balance amount); new_ytd = DOUBLE (tm_add m ytd amount);
            fin = finish_ok n (inp ! 0 # take 13 buf @ [new_balance])
        in if 10 dvd sint c_id
           then with_val (get_str (buf ! 15)) (\<lambda>c_data. write_columns r [(16, new_balance), (17, new_ytd), (20, STRING (payment_data m inp c_data))] [] fin)
           else write_columns r [(16, new_balance), (17, new_ytd)] [] fin))))))"

subsection \<open>Order status\<close>

definition order_status_0 :: "tpcc_machine \<Rightarrow> proc2pl" where
  "order_status_0 m = one_call 3 (\<lambda>h inp n. with_val (customer_by_last m inp) (\<lambda>c_id. finish_ok n [I32 c_id]))"

definition order_status_1 :: "tpcc_machine \<Rightarrow> proc2pl" where
  "order_status_1 m = read_proc (query_row m TPCC_TB_CUSTOMER 3 [2, 1, 0]) [3, 4, 5, 16]"

definition order_status_3 :: "tpcc_machine \<Rightarrow> proc2pl" where
  "order_status_3 m = two_calls (some_rows (query_rows m TPCC_TB_ORDER_LINE 3 (\<lambda>inp. rbind (log_ints [2, 1, 0] inp) (\<lambda>_. key_with [1, 0, 2] I32_MIN inp)) (key_with [1, 0, 2] I32_MAX) ORD_DESC))
     (\<lambda>inp rs. Inr (concat (map (rlocks [4, 5, 6, 7, 8]) rs)))
     (\<lambda>h inp n rs. read_rows rs [4, 5, 6, 7, 8] [] (finish_ok n))"

subsection \<open>Delivery\<close>

definition delivery_1 :: "tpcc_machine \<Rightarrow> proc2pl" where
  "delivery_1 m = two_calls (query_row m TPCC_TB_ORDER 4 [2, 1, 0])
     (\<lambda>inp r. Inr (lock_cols r [(3, RLOCK), (5, WLOCK)]))
     (\<lambda>h inp n r. read_col r 3 [] (\<lambda>c_id. write_col r 5 (inp ! 3) [c_id] (finish_ok n [c_id])))"

fun deliver_lines :: "tpcc_machine \<Rightarrow> request_header \<Rightarrow> nat \<Rightarrow> nat list \<Rightarrow> 64 word \<Rightarrow> (64 word \<Rightarrow> proc_body) \<Rightarrow> proc_body" where
  "deliver_lines m h i [] amount k = k amount"
| "deliver_lines m h i (r # rs) amount k =
     read_col r 8 [] (\<lambda>buf. with_val (get_double buf) (\<lambda>v. write_col r 6 (STRING (tm_time m h i)) [] (deliver_lines m h (Suc i) rs (tm_add m amount v) k)))"

definition delivery_2 :: "tpcc_machine \<Rightarrow> proc2pl" where
  "delivery_2 m = two_calls (query_rows m TPCC_TB_ORDER_LINE 3 (key_with [2, 1, 0] I32_MIN) (key_with [2, 1, 0] I32_MAX) ORD_ASC)
     (\<lambda>inp rs. Inr (concat (map (\<lambda>r. lock_cols r [(6, WLOCK), (8, RLOCK)]) rs)))
     (\<lambda>h inp n rs. deliver_lines m h 0 rs 0 (\<lambda>amount. finish_ok n [DOUBLE amount]))"

definition delivery_3 :: "tpcc_machine \<Rightarrow> proc2pl" where
  "delivery_3 m = two_calls (query_row m TPCC_TB_CUSTOMER 4 [0, 2, 1])
     (\<lambda>inp r. Inr (lock_cols r [(16, WLOCK), (19, WLOCK)]))
     (\<lambda>h inp n r. read_col r 16 [] (\<lambda>buf. with_val (get_double buf) (\<lambda>balance. with_val (get_double (inp ! 3)) (\<lambda>amount.
        with_val (set_double (tm_add m balance amount) buf) (\<lambda>buf1. write_col r 16 buf1 []
        (read_col r 19 [] (\<lambda>buf. with_val (get_i32 buf) (\<lambda>cnt.
        with_val (set_i32 (cnt + 1) buf) (\<lambda>buf1. write_col r 19 buf1 [] (finish_ok n []))))))))))"

subsection \<open>Stock level\<close>

definition stock_level_0 :: "tpcc_machine \<Rightarrow> proc2pl" where
  "stock_level_0 m = read_proc (query_row m TPCC_TB_DISTRICT 2 [1, 0]) [10]"

text \<open>The order lines of the last twenty orders before the given one: both bounds are excluded.\<close>

definition recent_low :: "mvalue list \<Rightarrow> multi_blob res" where
  "recent_low inp = rbind (key_blobs inp [2, 1])
     (\<lambda>mb. rbind (get_i32 (inp ! 0)) (\<lambda>o_id. Inr (mb @ [le_bytes 4 (o_id - 21), le_bytes 4 I32_MAX])))"

definition stock_level_1 :: "tpcc_machine \<Rightarrow> proc2pl" where
  "stock_level_1 m = two_calls (some_rows (logged [0, 1, 2] (query_rows m TPCC_TB_ORDER_LINE 3 recent_low (key_with [2, 1, 0] I32_MIN) ORD_ASC)))
     (\<lambda>inp rs. Inr (concat (map (rlocks [4]) rs)))
     (\<lambda>h inp n rs. read_rows rs [4] [] (\<lambda>outs st. verify (length outs \<le> n \<and> 100 \<le> n \<and> n \<le> 300) (Inr (SUCCESS, outs, st))))"

definition stock_level_2 :: "tpcc_machine \<Rightarrow> proc2pl" where
  "stock_level_2 m = two_calls (query_row m TPCC_TB_STOCK 3 [0, 1])
     (\<lambda>inp r. Inr (rlocks [2] r))
     (\<lambda>h inp n r. read_col r 2 [] (\<lambda>buf. with_val (get_i32 buf) (\<lambda>qty. with_val (get_i32 (inp ! 2)) (\<lambda>limit.
        finish_ok n [I32 (if sint qty < sint limit then 1 else 0)]))))"

section \<open>Retrieving a result\<close>

text \<open>In a transaction without staged rows a result that is reset is as it was at first.\<close>

definition untouched :: "raw_cursor merged \<Rightarrow> bool" where
  "untouched q \<longleftrightarrow> (\<exists>t c. q = new_merged t c [] [] \<and> raw_reset c = c)"

lemma raw_next_reset: "raw_next e = Inr (p, e') \<Longrightarrow> raw_reset e' = raw_reset e"
  by (cases e) (auto simp: cur_next_def cur_reset_def Let_def split: if_splits)

lemma skip_plain:
  "mc_skip n raw_vt t [] e None = Inr (e', cand) \<Longrightarrow> raw_reset e' = raw_reset e \<and> (case cand of None \<Rightarrow> e' = e | Some p \<Rightarrow> raw_next e = Inr (p, e'))"
proof (cases n)
  case (Suc k)
  assume a: "mc_skip n raw_vt t [] e None = Inr (e', cand)"
  obtain b where h: "raw_has_next e = Inr (b, e)" by (cases e) auto
  show ?thesis
  proof (cases b)
    case True
    then obtain p e1 where "raw_next e = Inr (p, e1)" "e1 = e'" "cand = Some p" using a Suc h by (cases k) (auto simp: raw_vt_def)
    then show ?thesis using raw_next_reset by auto
  qed (use a Suc h in \<open>auto simp: raw_vt_def\<close>)
qed simp

lemma prefetch_plain:
  assumes "mc_prefetch n raw_vt (new_merged t e [] []) = Inr (b, q)"
  shows "\<exists>e'. raw_reset e' = raw_reset e \<and> (if b then \<exists>p. raw_next e = Inr (p, e') \<and> q = (new_merged t e' [] [])\<lparr>mc_cached := Some p\<rparr> else q = new_merged t e' [] [])"
  using assms by (auto simp: mc_prefetch_def new_merged_def Let_def dest!: skip_plain split: option.splits)

lemma next_plain:
  assumes "mc_next n raw_vt (new_merged t e [] []) = Inr (p, q)"
  shows "\<exists>e'. raw_next e = Inr (p, e') \<and> q = new_merged t e' [] []"
proof -
  obtain q1 where q1: "mc_prefetch n raw_vt (new_merged t e [] []) = Inr (True, q1)" "mc_cached q1 = Some p" "q = q1\<lparr>mc_cached := None\<rparr>"
    using assms by (auto simp: mc_next_def new_merged_def split: option.splits)
  show ?thesis using prefetch_plain [OF q1(1)] q1(2,3) by (auto simp: new_merged_def)
qed

lemma drain_plain:
  "drain k (merged_vt n raw_vt) (new_merged t e [] []) = Inr (ps, q) \<Longrightarrow>
    \<exists>e'. raw_reset e' = raw_reset e \<and> q = new_merged t e' [] [] \<and> (\<forall>tab c. e = SortedCur tab c \<longrightarrow> set ps \<subseteq> snd ` set (t_rows tab))"
proof (induction k arbitrary: e ps)
  case (Suc k)
  obtain b q1 where h: "mc_prefetch n raw_vt (new_merged t e [] []) = Inr (b, q1)" using Suc.prems by (auto simp: merged_vt_def mc_has_next_def new_merged_def)
  obtain e1 where e1: "raw_reset e1 = raw_reset e"
    "if b then \<exists>p. raw_next e = Inr (p, e1) \<and> q1 = (new_merged t e1 [] [])\<lparr>mc_cached := Some p\<rparr> else q1 = new_merged t e1 [] []"
    using prefetch_plain [OF h] by blast
  show ?case
  proof (cases b)
    case True
    then obtain p where p: "raw_next e = Inr (p, e1)" "q1 = (new_merged t e1 [] [])\<lparr>mc_cached := Some p\<rparr>" using e1(2) by auto
    then obtain ps' where ps': "ps = p # ps'" "drain k (merged_vt n raw_vt) (new_merged t e1 [] []) = Inr (ps', q)"
      using Suc.prems h True by (auto simp: merged_vt_def mc_has_next_def mc_next_def new_merged_def)
    obtain e' where e': "raw_reset e' = raw_reset e1" "q = new_merged t e' [] []" "\<forall>tab c. e1 = SortedCur tab c \<longrightarrow> set ps' \<subseteq> snd ` set (t_rows tab)"
      using Suc.IH [OF ps'(2)] by blast
    have "set ps \<subseteq> snd ` set (t_rows tab)" if "e = SortedCur tab c" for tab c
      using that p(1) e'(3) ps'(1) by (auto simp: cur_next_def Let_def split: if_splits)
    then show ?thesis using e' e1(1) by auto
  next
    case False
    then have "ps = []" "q = q1" using Suc.prems h by (auto simp: merged_vt_def mc_has_next_def new_merged_def)
    then show ?thesis using e1 False by auto
  qed
qed simp

lemma reset_plain: "untouched (new_merged t c [] []) \<Longrightarrow> raw_reset e = raw_reset c \<Longrightarrow> mc_reset raw_vt (new_merged t e [] []) = new_merged t c [] []"
  by (simp add: mc_reset_def new_merged_def raw_vt_def untouched_def)

lemma tbl_query_reset: "tbl_query t mb d = Inr c \<Longrightarrow> raw_reset c = c"
  by (auto simp: tbl_query_def st_query_def mk_cursor_def cur_reset_def split: tkind.splits) (metis tkind.exhaust)

lemma tbl_query_in_reset: "tbl_query_in t lo hi ord d = Inr c \<Longrightarrow> raw_reset c = c"
  by (auto simp: tbl_query_in_def tbl_range_def st_query_in_def mk_cursor_def cur_reset_def)

lemma do_query_in_plain:
  assumes "plain_txn x"
  shows "do_query_in t lo hi ord (d, x) = rbind (table_at d t) (\<lambda>_. rbind (tbl_query_in t lo hi ord d) (\<lambda>c. Inr (new_merged t c [] [])))"
  using assms by (cases "table_at d t") (auto simp: do_query_in_def merge_result_def staged_in_def search_in_def ins_range_def ins_lower_def ins_upper_def
      plain_txn_def directed_def)

lemma do_query_untouched:
  assumes "plain_txn x"
  shows "do_query t mb (d, x) = Inr q \<Longrightarrow> untouched q" "do_query_in t lo hi ord (d, x) = Inr q \<Longrightarrow> untouched q"
  unfolding do_query_plain [OF assms] do_query_in_plain [OF assms] untouched_def
  by (auto dest: tbl_query_reset tbl_query_in_reset)

lemma rs_next_at:
  assumes "untouched q" and "i < length (qb_buf qb)" "qb_buf qb ! i = q" and "rs_next i qb = Inr (r, qb')"
  shows "\<exists>q'. qb' = qb\<lparr>qb_buf := (qb_buf qb)[i := q']\<rparr> \<and> mc_reset raw_vt q' = q"
proof -
  obtain t c where q: "q = new_merged t c [] []" "raw_reset c = c" using assms(1) by (auto simp: untouched_def)
  obtain q' where q': "mc_next (Suc (length (raw_rows (mc_cursor q)))) raw_vt q = Inr (r, q')" "qb' = qb\<lparr>qb_buf := (qb_buf qb)[i := q']\<rparr>"
    using assms(2-4) by (auto simp: rs_next_def Let_def)
  obtain e' where "raw_next c = Inr (r, e')" "q' = new_merged t e' [] []" using next_plain q'(1) q(1) by blast
  then show ?thesis using reset_plain [of t c e'] raw_next_reset assms(1) q q'(2) by auto
qed

lemma rs_next_again:
  assumes "untouched q" and "rs_next 0 \<lparr>retrieve_index = 0, qb_buf = [q]\<rparr> = Inr (r, qb)"
  shows "\<exists>q'. qb = \<lparr>retrieve_index = 0, qb_buf = [q']\<rparr> \<and> mc_reset raw_vt q' = q"
  using rs_next_at [OF assms(1) _ _ assms(2)] by auto

lemma rs_rows_again:
  assumes "untouched q" and "rs_rows 0 \<lparr>retrieve_index = 0, qb_buf = [q]\<rparr> = Inr (rs, qb)"
  shows "\<exists>q'. qb = \<lparr>retrieve_index = 0, qb_buf = [q']\<rparr> \<and> mc_reset raw_vt q' = q"
proof -
  obtain t c where q: "q = new_merged t c [] []" "raw_reset c = c" using assms(1) by (auto simp: untouched_def)
  obtain q' where q': "drain (Suc (length (merged_rows raw_rows q))) (merged_vt (Suc (length (raw_rows (mc_cursor q)))) raw_vt) q = Inr (rs, q')"
    "qb = \<lparr>retrieve_index = 0, qb_buf = [q']\<rparr>"
    using assms(2) by (auto simp: rs_rows_def Let_def)
  obtain e' where "raw_reset e' = raw_reset c" "q' = new_merged t e' [] []" using drain_plain q'(1) unfolding q(1) by blast
  then show ?thesis using reset_plain [of t c e'] assms(1) q q'(2) by auto
qed

text \<open>The second call of a procedure finds what its first call has found.\<close>

definition replays :: "'r finder \<Rightarrow> bool" where
  "replays f \<longleftrightarrow> (\<forall>inp d1 x1 st r qb r' qb'. plain_txn x1 \<longrightarrow> f False inp (d1, x1) new_query_buf = Inr (r, qb) \<longrightarrow> f True inp st qb = Inr (r', qb') \<longrightarrow> r' = r)"

lemma query_row_replays: "replays (query_row m name k js)"
  unfolding replays_def
proof (intro allI impI)
  fix inp d1 x1 st r qb r' qb'
  assume x1: "plain_txn x1" and a: "query_row m name k js False inp (d1, x1) new_query_buf = Inr (r, qb)" "query_row m name k js True inp st qb = Inr (r', qb')"
  obtain mb t q where q: "key_blobs inp js = Inr mb" "tm_table m name = Some t" "do_query t mb (d1, x1) = Inr q"
    "rs_next 0 \<lparr>retrieve_index = 0, qb_buf = [q]\<rparr> = Inr (r, qb)"
    using a(1) by (auto simp: query_row_def buf_query_def new_query_buf_def split: option.splits)
  obtain q' where q': "qb = \<lparr>retrieve_index = 0, qb_buf = [q']\<rparr>" "mc_reset raw_vt q' = q"
    using rs_next_again [OF do_query_untouched(1) [OF x1 q(3)] q(4)] by blast
  have "rs_next 0 \<lparr>retrieve_index = 1, qb_buf = [q]\<rparr> = Inr (r', qb')"
    using a(2) q(1) q' by (auto simp: query_row_def buf_query_def)
  then show "r' = r" using q(4) by (auto simp: rs_next_def Let_def)
qed

lemma query_rows_replays: "replays (query_rows m name k lo hi ord)"
  unfolding replays_def
proof (intro allI impI)
  fix inp d1 x1 st r qb r' qb'
  assume x1: "plain_txn x1" and a: "query_rows m name k lo hi ord False inp (d1, x1) new_query_buf = Inr (r, qb)"
    "query_rows m name k lo hi ord True inp st qb = Inr (r', qb')"
  obtain l h t q where q: "lo inp = Inr l" "hi inp = Inr h" "tm_table m name = Some t" "do_query_in t l h ord (d1, x1) = Inr q"
    "rs_rows 0 \<lparr>retrieve_index = 0, qb_buf = [q]\<rparr> = Inr (r, qb)"
    using a(1) by (auto simp: query_rows_def buf_query_def new_query_buf_def split: option.splits)
  obtain q' where q': "qb = \<lparr>retrieve_index = 0, qb_buf = [q']\<rparr>" "mc_reset raw_vt q' = q"
    using rs_rows_again [OF do_query_untouched(2) [OF x1 q(4)] q(5)] by blast
  have "rs_rows 0 \<lparr>retrieve_index = 1, qb_buf = [q]\<rparr> = Inr (r', qb')"
    using a(2) q(1-3) q' by (auto simp: query_rows_def buf_query_def)
  then show "r' = r" using q(5) by (auto simp: rs_rows_def Let_def)
qed

lemma some_rows_replays: "replays f \<Longrightarrow> replays (some_rows f)"
  unfolding replays_def some_rows_def by (fastforce split: prod.splits)

lemma logged_replays: "replays f \<Longrightarrow> replays (logged js f)"
  unfolding replays_def logged_def by fastforce

text \<open>What is found is in the table.\<close>

definition name_rows :: "tpcc_machine \<Rightarrow> string \<Rightarrow> db \<Rightarrow> nat set" where
  "name_rows m name d = (case tm_table m name of None \<Rightarrow> {} | Some t \<Rightarrow> snd ` set (t_rows (snd (d_tables d ! t))))"

definition name_sorted :: "tpcc_machine \<Rightarrow> string \<Rightarrow> db \<Rightarrow> bool" where
  "name_sorted m name d \<longleftrightarrow> (case tm_table m name of None \<Rightarrow> True | Some t \<Rightarrow> t < length (d_tables d) \<and> fst (d_tables d ! t) = TBL_SORTED)"

definition finds :: "tpcc_machine \<Rightarrow> string \<Rightarrow> ('r \<Rightarrow> nat set) \<Rightarrow> 'r finder \<Rightarrow> bool" where
  "finds m name rows f \<longleftrightarrow> (\<forall>inp d1 x1 r qb. plain_txn x1 \<longrightarrow> name_sorted m name d1 \<longrightarrow> f False inp (d1, x1) new_query_buf = Inr (r, qb) \<longrightarrow>
     rows r \<subseteq> name_rows m name d1)"

lemma query_row_finds: "finds m name (\<lambda>r. {r}) (query_row m name k js)"
  unfolding finds_def
proof (intro allI impI)
  fix inp d1 x1 r qb
  assume x1: "plain_txn x1" and s: "name_sorted m name d1" and a: "query_row m name k js False inp (d1, x1) new_query_buf = Inr (r, qb)"
  obtain mb t q q' where q: "tm_table m name = Some t" "do_query t mb (d1, x1) = Inr q" "mc_next (Suc (length (raw_rows (mc_cursor q)))) raw_vt q = Inr (r, q')"
    using a by (auto simp: query_row_def buf_query_def new_query_buf_def rs_next_def Let_def split: option.splits)
  obtain tab where tab: "d_tables d1 ! t = (TBL_SORTED, tab)" "t < length (d_tables d1)" using s q(1) by (cases "d_tables d1 ! t") (auto simp: name_sorted_def)
  then obtain c where "q = new_merged t (SortedCur tab c) [] []"
    using q(2) unfolding do_query_plain [OF x1] by (auto simp: tbl_query_def table_at_def split: if_splits)
  then show "{r} \<subseteq> name_rows m name d1" using sorted_next q(1,3) tab by (auto simp: name_rows_def)
qed

lemma query_rows_finds: "finds m name set (query_rows m name k lo hi ord)"
  unfolding finds_def
proof (intro allI impI)
  fix inp d1 x1 r qb
  assume x1: "plain_txn x1" and s: "name_sorted m name d1" and a: "query_rows m name k lo hi ord False inp (d1, x1) new_query_buf = Inr (r, qb)"
  obtain l h t q q' where q: "tm_table m name = Some t" "do_query_in t l h ord (d1, x1) = Inr q"
    "drain (Suc (length (merged_rows raw_rows q))) (merged_vt (Suc (length (raw_rows (mc_cursor q)))) raw_vt) q = Inr (r, q')"
    using a by (auto simp: query_rows_def buf_query_def new_query_buf_def rs_rows_def Let_def split: option.splits)
  obtain tab where tab: "d_tables d1 ! t = (TBL_SORTED, tab)" "t < length (d_tables d1)" using s q(1) by (cases "d_tables d1 ! t") (auto simp: name_sorted_def)
  then obtain c where qq: "q = new_merged t (SortedCur tab c) [] []"
    using q(2) unfolding do_query_in_plain [OF x1] by (auto simp: tbl_query_in_def tbl_range_def table_at_def split: if_splits)
  show "set r \<subseteq> name_rows m name d1" using drain_plain [OF q(3) [unfolded qq]] q(1) tab by (auto simp: name_rows_def)
qed

lemma some_rows_finds: "finds m name rows f \<Longrightarrow> finds m name rows (some_rows f)"
  unfolding finds_def some_rows_def by (fastforce split: prod.splits)

lemma logged_finds: "finds m name rows f \<Longrightarrow> finds m name rows (logged js f)"
  unfolding finds_def logged_def by fastforce

section \<open>Bodies within their locks\<close>

text \<open>A body that reads and writes under the locks of the set \<open>L\<close>, and writes values of the types of the columns.\<close>

definition within :: "db \<Rightarrow> lock_set \<Rightarrow> proc_body \<Rightarrow> bool" where
  "within d L f \<longleftrightarrow> (\<forall>x tr res outp st. plain_txn x \<longrightarrow> updates_plain d (sg_updates x) \<longrightarrow> f (d, x, tr) = Inr (res, outp, st) \<longrightarrow>
     (\<exists>ops vs. list_all (guarded_op (\<lambda>l. l) d L) ops \<and> run_ops col_read col_write ops (d, x, tr) = Inr (vs, st)))"

definition can_read :: "db \<Rightarrow> lock_set \<Rightarrow> nat \<Rightarrow> nat \<Rightarrow> bool" where
  "can_read d L r c \<longleftrightarrow> db_readable d r c \<and> (\<exists>ty. ((r, c), ty) \<in> L)"

definition can_write :: "db \<Rightarrow> lock_set \<Rightarrow> nat \<Rightarrow> nat \<Rightarrow> mvalue \<Rightarrow> bool" where
  "can_write d L r c v \<longleftrightarrow> plain_write d r c v \<and> ((r, c), WLOCK) \<in> L"

named_theorems within_intros \<open>bodies of procedures that keep to their locks\<close>

lemma withinI:
  assumes "\<And>x tr res outp st. plain_txn x \<Longrightarrow> updates_plain d (sg_updates x) \<Longrightarrow> f (d, x, tr) = Inr (res, outp, st) \<Longrightarrow>
    \<exists>ops vs. list_all (guarded_op (\<lambda>l. l) d L) ops \<and> run_ops col_read col_write ops (d, x, tr) = Inr (vs, st)"
  shows "within d L f"
  using assms by (simp add: within_def)

lemma within_end: "within d L (\<lambda>st. verify b (Inr (res, outs, st)))"
  by (rule withinI) (auto intro!: exI [of _ "[]"])

lemma within_finish [within_intros]: "within d L (finish_ok n outs)"
  using within_end [of d L "length outs \<le> n" SUCCESS outs] by (simp add: finish_ok_def [abs_def])

lemma within_val [within_intros]: "(\<And>v. e = Inr v \<Longrightarrow> within d L (k v)) \<Longrightarrow> within d L (with_val e k)"
  unfolding within_def with_val_def by auto

lemma within_read [within_intros]:
  assumes "db_inv d" and cl: "can_read d L r c" and k: "\<And>v. within d L (k v)"
  shows "within d L (read_col r c outs k)"
proof (rule withinI)
  obtain ty where c: "db_readable d r c" and l: "((r, c), ty) \<in> L" using cl by (auto simp: can_read_def)
  fix x tr res outp st
  assume x: "plain_txn x" "updates_plain d (sg_updates x)" and run: "read_col r c outs k (d, x, tr) = Inr (res, outp, st)"
  have "sg_outcome x = NONE" using x(1) by (simp add: plain_txn_def)
  then obtain v x1 where x1: "t2_read_column r c (d, x) = Inr (Some v, d, x1)" "x1 = x \<or> x1 = x\<lparr>sg_reads := mm_ins r c (sg_reads x)\<rparr>"
    using t2_read_spec [OF assms(1) c] by blast
  have rd: "col_read r c (d, x, tr) = Inr (Some v, d, x1, tr @ [AccR r c v])" using x1(1) by (simp add: col_read_def)
  have "plain_txn x1" "updates_plain d (sg_updates x1)" using x x1(2) by (auto simp: plain_txn_def)
  moreover have "k v (d, x1, tr @ [AccR r c v]) = Inr (res, outp, st)" using run rd by (simp add: read_col_def)
  ultimately obtain ops vs where "list_all (guarded_op (\<lambda>l. l) d L) ops" "run_ops col_read col_write ops (d, x1, tr @ [AccR r c v]) = Inr (vs, st)"
    using k [of v] unfolding within_def by blast
  then show "\<exists>ops vs. list_all (guarded_op (\<lambda>l. l) d L) ops \<and> run_ops col_read col_write ops (d, x, tr) = Inr (vs, st)"
    using rd c l by (intro exI [of _ "Rd r c # ops"] exI [of _ "Some v # vs"]) (auto simp: guarded_op_def)
qed

lemma within_write [within_intros]:
  assumes "db_inv d" and cl: "can_write d L r c v" and k: "within d L k"
  shows "within d L (write_col r c v outs k)"
proof (rule withinI)
  have w: "plain_write d r c v" and l: "((r, c), WLOCK) \<in> L" using cl by (simp_all add: can_write_def)
  fix x tr res outp st
  assume x: "plain_txn x" "updates_plain d (sg_updates x)" and run: "write_col r c v outs k (d, x, tr) = Inr (res, outp, st)"
  let ?x = "x\<lparr>sg_updates := stage_write r c v (sg_updates x)\<rparr>"
  have "in_table r d" using w by (simp add: plain_write_def db_writable_def)
  then obtain t where "row_table r d = Inr (Some t)" using in_table_row_table [OF assms(1)] by blast
  then have wr: "col_write r c v (d, x, tr) = Inr (True, d, ?x, tr @ [AccW r c v])" using x(1) by (simp add: col_write_def t2_write_column_def plain_txn_def)
  have "plain_txn ?x" "updates_plain d (sg_updates ?x)"
    using x w stage_write_pred [of "plain_write d" "sg_updates x" r c v] by (simp_all add: plain_txn_def updates_plain_def)
  moreover have "k (d, ?x, tr @ [AccW r c v]) = Inr (res, outp, st)" using run wr by (simp add: write_col_def)
  ultimately obtain ops vs where "list_all (guarded_op (\<lambda>l. l) d L) ops" "run_ops col_read col_write ops (d, ?x, tr @ [AccW r c v]) = Inr (vs, st)"
    using k unfolding within_def by blast
  then show "\<exists>ops vs. list_all (guarded_op (\<lambda>l. l) d L) ops \<and> run_ops col_read col_write ops (d, x, tr) = Inr (vs, st)"
    using wr w l by (intro exI [of _ "Wr r c v # ops"] exI [of _ vs]) (auto simp: guarded_op_def)
qed

lemma within_outs [within_intros]:
  "db_inv d \<Longrightarrow> (\<And>c. c \<in> set cs \<Longrightarrow> can_read d L r c) \<Longrightarrow> (\<And>outs. within d L (k outs)) \<Longrightarrow> within d L (read_outs r cs outs k)"
  by (induction cs arbitrary: outs) (auto intro!: within_read)

lemma within_rows [within_intros]:
  "db_inv d \<Longrightarrow> (\<And>r c. r \<in> set rs \<Longrightarrow> c \<in> set cs \<Longrightarrow> can_read d L r c) \<Longrightarrow> (\<And>outs. within d L (k outs)) \<Longrightarrow> within d L (read_rows rs cs outs k)"
  by (induction rs arbitrary: outs) (auto intro!: within_outs)

lemma within_columns [within_intros]:
  "db_inv d \<Longrightarrow> (\<And>c. c \<in> set cs \<Longrightarrow> can_read d L r c) \<Longrightarrow> (\<And>vs. within d L (k vs)) \<Longrightarrow> within d L (read_columns r cs vs outs k)"
  by (induction cs arbitrary: vs) (auto intro!: within_read)

lemma within_writes [within_intros]:
  "db_inv d \<Longrightarrow> (\<And>c v. (c, v) \<in> set cvs \<Longrightarrow> can_write d L r c v) \<Longrightarrow> within d L k \<Longrightarrow> within d L (write_columns r cvs outs k)"
  by (induction cvs) (auto intro!: within_write)

text \<open>The columns of a table that the procedures read, and those that they write with their types.\<close>

definition plain_col :: "db \<Rightarrow> nat \<Rightarrow> nat \<times> kind option \<Rightarrow> bool" where
  "plain_col d p = (\<lambda>(c, k). db_readable d p c \<and> (case k of None \<Rightarrow> True | Some ty \<Rightarrow>
     col_type (col_info (row_schema p d) ! c) = ty \<and> \<not> indexed (col_info (row_schema p d) ! c) \<and> \<not> str_key (row_schema p d)))"

definition rd_cols :: "nat list \<Rightarrow> (nat \<times> kind option) list" where
  "rd_cols cs = map (\<lambda>c. (c, None)) cs"

definition tpcc_cols :: "(string \<times> (nat \<times> kind option) list) list" where
  "tpcc_cols = [
     (TPCC_TB_WAREHOUSE, rd_cols [1, 2, 3, 4, 5, 6, 7]),
     (TPCC_TB_DISTRICT, rd_cols [2, 3, 4, 5, 6, 7, 8] @ [(9, Some K_DOUBLE), (10, Some K_I32)]),
     (TPCC_TB_CUSTOMER, rd_cols [3, 4, 5, 6, 7, 8, 9, 10, 11, 12, 13, 14, 15] @ [(16, Some K_DOUBLE), (17, Some K_DOUBLE), (19, Some K_I32), (20, Some K_STR)]),
     (TPCC_TB_ITEM, rd_cols [2, 3, 4]),
     (TPCC_TB_STOCK, rd_cols [3, 16] @ [(2, Some K_I32), (13, Some K_I32), (14, Some K_I32), (15, Some K_I32)]),
     (TPCC_TB_ORDER_LINE, rd_cols [4, 5, 7, 8] @ [(6, Some K_STR)]),
     (TPCC_TB_ORDER, [(3, None), (5, Some K_I32)])]"

definition tpcc_db :: "tpcc_machine \<Rightarrow> db \<Rightarrow> bool" where
  "tpcc_db m d \<longleftrightarrow> list_all (\<lambda>(name, cols). case tm_table m name of
     None \<Rightarrow> True
   | Some t \<Rightarrow> t < length (d_tables d) \<and> fst (d_tables d ! t) = TBL_SORTED \<and>
       list_all (\<lambda>e. list_all (plain_col d (snd e)) cols) (t_rows (snd (d_tables d ! t)))) tpcc_cols"

lemma tpcc_dbD:
  assumes "tpcc_db m d" and "(name, cols) \<in> set tpcc_cols"
  shows "name_sorted m name d" "r \<in> name_rows m name d \<Longrightarrow> col \<in> set cols \<Longrightarrow> plain_col d r col"
proof -
  have "case tm_table m name of None \<Rightarrow> True | Some t \<Rightarrow> t < length (d_tables d) \<and> fst (d_tables d ! t) = TBL_SORTED \<and>
      list_all (\<lambda>e. list_all (plain_col d (snd e)) cols) (t_rows (snd (d_tables d ! t)))"
    using assms by (auto simp: tpcc_db_def list_all_iff)
  then show "name_sorted m name d" "r \<in> name_rows m name d \<Longrightarrow> col \<in> set cols \<Longrightarrow> plain_col d r col"
    by (auto simp: name_sorted_def name_rows_def list_all_iff split: option.splits)
qed

lemma plain_col_shape: "same_shape d0 d \<Longrightarrow> plain_col d = plain_col d0"
  by (simp add: plain_col_def same_shapeD(1,5) fun_eq_iff split: option.split)

lemma plain_colD:
  assumes "plain_col d r (c, k)"
  shows "db_readable d r c" "k = Some (get_kind v) \<Longrightarrow> plain_write d r c v"
  using assms by (auto simp: plain_col_def plain_write_def db_writable_def db_readable_def)

section \<open>The procedures keep to their locks\<close>

definition proc_within :: "tpcc_machine \<Rightarrow> proc2pl \<Rightarrow> bool" where
  "proc_within m pr \<longleftrightarrow> (\<forall>d0 d1 x1 h inp lo qb d n. tpcc_db m d0 \<longrightarrow> plain_db d0 d1 \<longrightarrow> plain_txn x1 \<longrightarrow>
     pr_locks pr h inp new_query_buf (d1, x1) = Inr (lo, qb) \<longrightarrow> plain_db d0 d \<longrightarrow> within d (locks_of lo) (pr_run pr h inp qb n))"

text \<open>What a body may rely on for the rows \<open>rs\<close> of a table.\<close>

definition usable :: "db \<Rightarrow> (nat \<times> kind option) list \<Rightarrow> nat set \<Rightarrow> bool" where
  "usable d cols rs \<longleftrightarrow> db_inv d \<and> (\<forall>r \<in> rs. \<forall>col \<in> set cols. plain_col d r col)"

lemma usable_read: "usable d cols rs \<Longrightarrow> r \<in> rs \<Longrightarrow> c \<in> fst ` set cols \<Longrightarrow> \<exists>ty. ((r, c), ty) \<in> L \<Longrightarrow> can_read d L r c"
  using plain_colD(1) by (fastforce simp: usable_def can_read_def)

lemma usable_write: "usable d cols rs \<Longrightarrow> r \<in> rs \<Longrightarrow> (c, Some (get_kind v)) \<in> set cols \<Longrightarrow> ((r, c), WLOCK) \<in> L \<Longrightarrow> can_write d L r c v"
  using plain_colD(2) by (fastforce simp: usable_def can_write_def)

lemma usable_inv: "usable d cols rs \<Longrightarrow> db_inv d"
  by (simp add: usable_def)

lemma two_calls_within:
  assumes look: "replays look" "finds m name rows look" and cols: "(name, cols) \<in> set tpcc_cols"
    and body: "\<And>d inp r ls h n. usable d cols (rows r) \<Longrightarrow> locks inp r = Inr ls \<Longrightarrow> within d (set ls) (body h inp n r)"
  shows "proc_within m (two_calls look locks body)"
  unfolding proc_within_def
proof (intro allI impI)
  fix d0 d1 x1 h inp lo qb d n
  assume db: "tpcc_db m d0" "plain_db d0 d1" "plain_db d0 d" and x1: "plain_txn x1"
    and l: "pr_locks (two_calls look locks body) h inp new_query_buf (d1, x1) = Inr (lo, qb)"
  obtain r ls where r: "look False inp (d1, x1) new_query_buf = Inr (r, qb)" "locks inp r = Inr ls" "lo = Some ls"
    using l by (auto simp: two_calls_def)
  have sh: "same_shape d0 d" "db_inv d" "d_tables d1 = d_tables d0" using db by (simp_all add: plain_db_def)
  have "name_sorted m name d1" "name_rows m name d1 = name_rows m name d0"
    using tpcc_dbD(1) [OF db(1) cols] sh(3) by (simp_all add: name_sorted_def name_rows_def cong: option.case_cong)
  then have "rows r \<subseteq> name_rows m name d0" using look(2) x1 r(1) unfolding finds_def by blast
  then have "usable d cols (rows r)" using tpcc_dbD(2) [OF db(1) cols] sh(2) plain_col_shape [OF sh(1)] by (auto simp: usable_def)
  note w = body [OF this r(2), of h n]
  have L: "locks_of lo = set ls" using r(3) by (simp add: locks_of_def)
  show "within d (locks_of lo) (pr_run (two_calls look locks body) h inp qb n)"
  proof (rule withinI)
    fix x tr res outp st
    assume x: "plain_txn x" "updates_plain d (sg_updates x)" and run: "pr_run (two_calls look locks body) h inp qb n (d, x, tr) = Inr (res, outp, st)"
    obtain r' qb' where "look True inp (d, x) qb = Inr (r', qb')" "body h inp n r' (d, x, tr) = Inr (res, outp, st)" using run by (auto simp: two_calls_def)
    moreover have "r' = r" using look(1) x1 r(1) calculation(1) unfolding replays_def by blast
    ultimately show "\<exists>ops vs. list_all (guarded_op (\<lambda>l. l) d (locks_of lo)) ops \<and> run_ops col_read col_write ops (d, x, tr) = Inr (vs, st)"
      using w x L unfolding within_def by metis
  qed
qed

lemma one_call_within: "(\<And>d h inp n. within d {} (body h inp n)) \<Longrightarrow> proc_within m (one_call k body)"
  unfolding proc_within_def by (auto simp: one_call_def locks_of_def within_def)

lemma lock_cols_mem [simp]: "((q, c), ty) \<in> set (lock_cols r cts) \<longleftrightarrow> q = r \<and> (c, ty) \<in> set cts"
  by (auto simp: lock_cols_def)

lemma rlocks_mem [simp]: "((q, c), ty) \<in> set (rlocks cs r) \<longleftrightarrow> q = r \<and> c \<in> set cs \<and> ty = RLOCK"
  by (auto simp: rlocks_def)

lemma read_proc_within:
  assumes "(name, cols) \<in> set tpcc_cols" and "set cs \<subseteq> fst ` set cols"
  shows "proc_within m (read_proc (query_row m name k js) cs)"
  unfolding read_proc_def
proof (rule two_calls_within [OF query_row_replays query_row_finds assms(1)])
  fix d inp r ls h n
  assume u: "usable d cols {r}" and "Inr (rlocks cs r) = Inr ls"
  then show "within d (set ls) (read_outs r cs [] (finish_ok n))" using assms(2) usable_inv [OF u] by (auto intro!: within_intros usable_read [OF u])
qed

text \<open>The columns of the tables, one table at a time.\<close>

lemma tpcc_cols_mem:
  "(TPCC_TB_WAREHOUSE, rd_cols [1, 2, 3, 4, 5, 6, 7]) \<in> set tpcc_cols"
  "(TPCC_TB_DISTRICT, rd_cols [2, 3, 4, 5, 6, 7, 8] @ [(9, Some K_DOUBLE), (10, Some K_I32)]) \<in> set tpcc_cols"
  "(TPCC_TB_CUSTOMER, rd_cols [3, 4, 5, 6, 7, 8, 9, 10, 11, 12, 13, 14, 15] @ [(16, Some K_DOUBLE), (17, Some K_DOUBLE), (19, Some K_I32), (20, Some K_STR)]) \<in> set tpcc_cols"
  "(TPCC_TB_ITEM, rd_cols [2, 3, 4]) \<in> set tpcc_cols"
  "(TPCC_TB_STOCK, rd_cols [3, 16] @ [(2, Some K_I32), (13, Some K_I32), (14, Some K_I32), (15, Some K_I32)]) \<in> set tpcc_cols"
  "(TPCC_TB_ORDER_LINE, rd_cols [4, 5, 7, 8] @ [(6, Some K_STR)]) \<in> set tpcc_cols" "(TPCC_TB_ORDER, [(3, None), (5, Some K_I32)]) \<in> set tpcc_cols"
  by (simp_all add: tpcc_cols_def)

lemma read_procs_within:
  "proc_within m (new_order_1 m)" "proc_within m (new_order_2 m)" "proc_within m (new_order_5 m)" "proc_within m (new_order_6 m)"
  "proc_within m (payment_0 m)" "proc_within m (payment_1 m)" "proc_within m (order_status_1 m)" "proc_within m (stock_level_0 m)"
  unfolding new_order_1_def new_order_2_def new_order_5_def new_order_6_def payment_0_def payment_1_def order_status_1_def stock_level_0_def
  by (rule read_proc_within, rule tpcc_cols_mem, simp add: rd_cols_def)+

lemma index_procs_within: "proc_within m (payment_3 m)" "proc_within m (order_status_0 m)"
  unfolding payment_3_def order_status_0_def by (auto intro!: one_call_within within_intros)

lemma set_kind: "set_i32 i v = Inr w \<Longrightarrow> w = I32 i" "set_double x v = Inr w \<Longrightarrow> w = DOUBLE x"
  by (auto simp: set_i32_def set_double_def)

lemmas row_within = two_calls_within [OF query_row_replays query_row_finds]
lemmas rows_within = two_calls_within [OF query_rows_replays query_rows_finds] two_calls_within [OF some_rows_replays [OF query_rows_replays] some_rows_finds [OF query_rows_finds]]
  two_calls_within [OF some_rows_replays [OF logged_replays [OF query_rows_replays]] some_rows_finds [OF logged_finds [OF query_rows_finds]]]

lemma new_order_0_within: "proc_within m (new_order_0 m)"
  unfolding new_order_0_def
  apply (rule row_within [OF tpcc_cols_mem(2)])
  subgoal premises u for d inp r ls h n
    using usable_inv [OF u(1)] u(2) by (auto intro!: within_intros usable_read [OF u(1)] usable_write [OF u(1)] simp: rd_cols_def dest!: set_kind)
  done

lemma new_order_7_within: "proc_within m (new_order_7 m)"
  unfolding new_order_7_def
  apply (rule row_within [OF tpcc_cols_mem(5)])
  subgoal premises u for d inp r ls h n
    using usable_inv [OF u(1)] u(2) by (auto intro!: within_intros usable_read [OF u(1)] usable_write [OF u(1)] simp: rd_cols_def Let_def)
  done

lemma payment_2_within: "proc_within m (payment_2 m)"
  unfolding payment_2_def
  apply (rule row_within [OF tpcc_cols_mem(2)])
  subgoal premises u for d inp r ls h n
    using usable_inv [OF u(1)] u(2) by (auto intro!: within_intros usable_read [OF u(1)] usable_write [OF u(1)] simp: rd_cols_def dest!: set_kind)
  done

lemma payment_4_within: "proc_within m (payment_4 m)"
  unfolding payment_4_def
  apply (rule row_within [OF tpcc_cols_mem(3)])
  subgoal premises u for d inp r ls h n
    using usable_inv [OF u(1)] u(2) by (auto intro!: within_intros usable_read [OF u(1)] usable_write [OF u(1)] simp: rd_cols_def Let_def)
  done

lemma order_status_3_within: "proc_within m (order_status_3 m)"
  unfolding order_status_3_def
  apply (rule rows_within(2) [OF tpcc_cols_mem(6)])
  subgoal premises u for d inp r ls h n
    using usable_inv [OF u(1)] u(2) by (auto intro!: within_intros usable_read [OF u(1)] simp: rd_cols_def)
  done

lemma deliver_lines_within:
  assumes "db_inv d" and "\<And>r. r \<in> set rs \<Longrightarrow> can_read d L r 8" and "\<And>r t. r \<in> set rs \<Longrightarrow> can_write d L r 6 (STRING t)" and "\<And>a. within d L (k a)"
  shows "within d L (deliver_lines m h i rs amount k)"
  using assms by (induction rs arbitrary: i amount) (auto intro!: within_intros)

lemma delivery_2_within: "proc_within m (delivery_2 m)"
  unfolding delivery_2_def
  apply (rule rows_within(1) [OF tpcc_cols_mem(6)])
  subgoal premises u for d inp r ls h n
    using usable_inv [OF u(1)] u(2) by (auto intro!: deliver_lines_within within_intros usable_read [OF u(1)] usable_write [OF u(1)] simp: rd_cols_def)
  done

lemma delivery_3_within: "proc_within m (delivery_3 m)"
  unfolding delivery_3_def
  apply (rule row_within [OF tpcc_cols_mem(3)])
  subgoal premises u for d inp r ls h n
    using usable_inv [OF u(1)] u(2) by (auto intro!: within_intros usable_read [OF u(1)] usable_write [OF u(1)] simp: rd_cols_def dest!: set_kind)
  done

lemma stock_level_1_within: "proc_within m (stock_level_1 m)"
  unfolding stock_level_1_def
  apply (rule rows_within(3) [OF tpcc_cols_mem(6)])
  subgoal premises u for d inp r ls h n
    using usable_inv [OF u(1)] u(2) by (auto intro!: within_intros within_end usable_read [OF u(1)] simp: rd_cols_def)
  done

lemma stock_level_2_within: "proc_within m (stock_level_2 m)"
  unfolding stock_level_2_def
  apply (rule row_within [OF tpcc_cols_mem(5)])
  subgoal premises u for d inp r ls h n
    using usable_inv [OF u(1)] u(2) by (auto intro!: within_intros usable_read [OF u(1)] simp: rd_cols_def)
  done

section \<open>Isolation\<close>

text \<open>The procedures by the types of transactions and pieces. \<^verbatim>\<open>delivery_1\<close> stores an input without looking at its type; the server that
  the statements are about does not run it.\<close>

definition column_pieces :: "tpcc_machine \<Rightarrow> ((i32 \<times> i32) \<times> proc2pl) list" where
  "column_pieces m = [
     ((TPCC_NEW_ORDER, 100), new_order_0 m), ((TPCC_NEW_ORDER, 101), new_order_1 m), ((TPCC_NEW_ORDER, 102), new_order_2 m),
     ((TPCC_NEW_ORDER, 105), new_order_5 m), ((TPCC_NEW_ORDER, 106), new_order_6 m), ((TPCC_NEW_ORDER, 107), new_order_7 m),
     ((TPCC_PAYMENT, 200), payment_0 m), ((TPCC_PAYMENT, 201), payment_1 m), ((TPCC_PAYMENT, 202), payment_2 m),
     ((TPCC_PAYMENT, 203), payment_3 m), ((TPCC_PAYMENT, 204), payment_4 m),
     ((TPCC_ORDER_STATUS, 300), order_status_0 m), ((TPCC_ORDER_STATUS, 301), order_status_1 m), ((TPCC_ORDER_STATUS, 303), order_status_3 m),
     ((TPCC_DELIVERY, 402), delivery_2 m), ((TPCC_DELIVERY, 403), delivery_3 m),
     ((TPCC_STOCK_LEVEL, 500), stock_level_0 m), ((TPCC_STOCK_LEVEL, 501), stock_level_1 m), ((TPCC_STOCK_LEVEL, 502), stock_level_2 m)]"

definition tpcc_env :: "(nat \<Rightarrow> nat \<Rightarrow> bool) \<Rightarrow> tpcc_machine \<Rightarrow> tpl_env" where
  "tpcc_env fires m = \<lparr>pe_fires = fires, pe_proc = map_of (column_pieces m)\<rparr>"

definition tpcc_good :: "tpcc_machine \<Rightarrow> db \<Rightarrow> bool" where
  "tpcc_good m d \<longleftrightarrow> db_inv d \<and> tpcc_db m d"

lemmas procs_within = read_procs_within index_procs_within new_order_0_within new_order_7_within payment_2_within payment_4_within
  order_status_3_within delivery_2_within delivery_3_within stock_level_1_within stock_level_2_within

lemma env_within: "pe_proc (tpcc_env fires m) k = Some pr \<Longrightarrow> proc_within m pr"
  using procs_within [of m] by (auto simp: tpcc_env_def column_pieces_def split: if_splits)

interpretation tpcc: guarded_procs "tpcc_env fires m" "\<lambda>l. l" "tpcc_good m" for fires m
proof
  fix d0 :: db
  show "tpcc_good m d0 \<Longrightarrow> db_inv d0" by (simp add: tpcc_good_def)
  fix pc L qb pr d x n tr res outp st
  assume a: "tpcc_good m d0" "from_proc (tpcc_env fires m) d0 pc L qb" "pe_proc (tpcc_env fires m) (hd_t_type (pc_header pc), hd_p_type (pc_header pc)) = Some pr"
    "plain_db d0 d" "plain_txn x" "updates_plain d (sg_updates x)" "pr_run pr (pc_header pc) (pc_input pc) qb n (d, x, tr) = Inr (res, outp, st)"
  obtain d1 x1 lo where "plain_db d0 d1" "plain_txn x1" "pr_locks pr (pc_header pc) (pc_input pc) new_query_buf (d1, x1) = Inr (lo, qb)" "L = locks_of lo"
    using a(2,3) by (auto simp: from_proc_def)
  then have "within d L (pr_run pr (pc_header pc) (pc_input pc) qb n)" using env_within [OF a(3)] a(1,4) unfolding proc_within_def tpcc_good_def by blast
  then show "\<exists>ops vs. list_all (guarded_op (\<lambda>l. l) d L) ops \<and> run_ops col_read col_write ops (d, x, tr) = Inr (vs, st)" using a(5-7) unfolding within_def by blast
qed

text \<open>\<^verbatim>\<open>delivery_1\<close> keeps to its locks too, for an input of the type of the column.\<close>

lemma delivery_1_within:
  assumes "usable d [(3, None), (5, Some K_I32)] {r}" and "get_kind (inp ! 3) = K_I32"
  shows "within d (set (lock_cols r [(3, RLOCK), (5, WLOCK)])) (read_col r 3 [] (\<lambda>c_id. write_col r 5 (inp ! 3) [c_id] (finish_ok n [c_id])))"
  using usable_inv [OF assms(1)] assms(2) by (auto intro!: within_intros usable_read [OF assms(1)] usable_write [OF assms(1)])

section \<open>Order numbers\<close>

text \<open>A new order takes the number in column 10 of its district and stores the next one. In the traces a write of that column
  follows a read of it and adds 1.\<close>

fun takes_next :: "access option \<Rightarrow> nat \<Rightarrow> mvalue \<Rightarrow> bool" where
  "takes_next (Some (AccR r c (I32 k))) r' w \<longleftrightarrow> r' = r \<and> c = 10 \<and> w = I32 (k + 1)"
| "takes_next _ r' w \<longleftrightarrow> False"

fun ids_ok :: "access option \<Rightarrow> access list \<Rightarrow> bool" where
  "ids_ok prev [] \<longleftrightarrow> True"
| "ids_ok prev (AccR r c v # as) \<longleftrightarrow> ids_ok (Some (AccR r c v)) as"
| "ids_ok prev (AccW r c w # as) \<longleftrightarrow> (c = 10 \<longrightarrow> takes_next prev r w) \<and> ids_ok (Some (AccW r c w)) as"

text \<open>The numbers taken from a district: what was stored, minus 1.\<close>

fun order_ids :: "nat \<Rightarrow> access list \<Rightarrow> i32 list" where
  "order_ids r [] = []"
| "order_ids r (AccW r' c (I32 w) # as) = (if r' = r \<and> c = 10 then (w - 1) # order_ids r as else order_ids r as)"
| "order_ids r (_ # as) = order_ids r as"

lemma ids_ok_any: "ids_ok None as \<Longrightarrow> ids_ok p as"
proof (cases as)
  case (Cons a bs)
  then show "ids_ok None as \<Longrightarrow> ids_ok p as" by (cases a) auto
qed simp

lemma ids_ok_append: "ids_ok p as \<Longrightarrow> ids_ok None bs \<Longrightarrow> ids_ok p (as @ bs)"
  by (induction p as rule: ids_ok.induct) (auto intro: ids_ok_any)

lemma ids_ok_concat: "list_all (ids_ok None) ass \<Longrightarrow> ids_ok None (concat ass)"
  by (induction ass) (auto intro: ids_ok_append)

lemma replay_ids:
  "ids_ok prev as \<Longrightarrow> (\<And>q k. prev = Some (AccR q 10 (I32 k)) \<Longrightarrow> m q 10 = I32 k) \<Longrightarrow> replay as m = Some m' \<Longrightarrow> m r 10 = I32 v \<Longrightarrow>
    order_ids r as = map (\<lambda>i. v + of_nat i) [0..<length (order_ids r as)] \<and> m' r 10 = I32 (v + of_nat (length (order_ids r as)))"
proof (induction prev as arbitrary: m v rule: ids_ok.induct)
  case (2 prev q c w as)
  then show ?case by (auto split: if_splits)
next
  case (3 prev q c w as)
  have rp: "replay as (store_val q c w m) = Some m'" using "3.prems"(3) by simp
  have ok: "ids_ok (Some (AccW q c w)) as" using "3.prems"(1) by simp
  note IH = "3.IH" [OF ok _ rp]
  show ?case
  proof (cases "q = r \<and> c = 10")
    case True
    then have "takes_next prev r w" using "3.prems"(1) by simp
    then obtain k where k: "prev = Some (AccR r 10 (I32 k))" "w = I32 (k + 1)" by (cases "(prev, r, w)" rule: takes_next.cases) auto
    then have "k = v" using "3.prems"(2,4) by auto
    then have "store_val q c w m r 10 = I32 (v + 1)" using True k(2) by (simp add: store_val_def)
    from IH [OF _ this] have i: "order_ids r as = map (\<lambda>i. v + 1 + of_nat i) [0..<length (order_ids r as)]" "m' r 10 = I32 (v + 1 + of_nat (length (order_ids r as)))"
      by simp_all
    have "map (\<lambda>i. v + of_nat i) [0..<Suc n] = v # map (\<lambda>i. v + 1 + of_nat i) [0..<n]" for n
      by (induction n) (simp_all add: ac_simps)
    then show ?thesis using i True k(2) \<open>k = v\<close> by (auto simp: ac_simps)
  next
    case False
    then have "store_val q c w m r 10 = I32 v" using "3.prems"(4) by (auto simp: store_val_def)
    moreover have "order_ids r (AccW q c w # as) = order_ids r as" using False by (cases w) auto
    ultimately show ?thesis using IH by simp
  qed
qed simp

text \<open>What a body adds to the trace.\<close>

definition adds :: "(access list \<Rightarrow> bool) \<Rightarrow> proc_body \<Rightarrow> bool" where
  "adds P f \<longleftrightarrow> (\<forall>d x tr res outp d' x' tr'. f (d, x, tr) = Inr (res, outp, d', x', tr') \<longrightarrow> (\<exists>as. tr' = tr @ as \<and> P as))"

definition no_next :: "access list \<Rightarrow> bool" where
  "no_next as \<longleftrightarrow> list_all (\<lambda>a. case a of AccW r c v \<Rightarrow> c \<noteq> 10 | AccR r c v \<Rightarrow> True) as"

lemma no_next_simps [simp]: "no_next []" "no_next (a # as) \<longleftrightarrow> (case a of AccW r c v \<Rightarrow> c \<noteq> 10 | AccR r c v \<Rightarrow> True) \<and> no_next as"
  by (simp_all add: no_next_def)

lemma no_next_ids: "no_next as \<Longrightarrow> ids_ok p as"
  by (induction p as rule: ids_ok.induct) auto

named_theorems adds_intros \<open>bodies of procedures that take no order number\<close>

lemma adds_end [adds_intros]: "adds no_next (\<lambda>st. verify b (Inr (res, outs, st)))"
  by (auto simp: adds_def)

lemma adds_finish [adds_intros]: "adds no_next (finish_ok n outs)"
  by (auto simp: adds_def finish_ok_def)

lemma adds_val [adds_intros]: "(\<And>v. adds P (k v)) \<Longrightarrow> adds P (with_val e k)"
  unfolding adds_def with_val_def by auto

lemma adds_read [adds_intros]:
  assumes "\<And>v. adds no_next (k v)"
  shows "adds no_next (read_col r c outs k)"
  unfolding adds_def
proof (intro allI impI)
  fix d x tr res outp d' x' tr'
  assume run: "read_col r c outs k (d, x, tr) = Inr (res, outp, d', x', tr')"
  then obtain v d1 x1 where v: "t2_read_column r c (d, x) = Inr (v, d1, x1)" by (auto simp: read_col_def col_read_def)
  show "\<exists>as. tr' = tr @ as \<and> no_next as"
  proof (cases v)
    case (Some w)
    then have "k w (d1, x1, tr @ [AccR r c w]) = Inr (res, outp, d', x', tr')" using run v by (simp add: read_col_def col_read_def)
    then obtain as where "tr' = (tr @ [AccR r c w]) @ as" "no_next as" using assms unfolding adds_def by blast
    then show ?thesis by (intro exI [of _ "AccR r c w # as"]) simp
  qed (use run v in \<open>auto simp: read_col_def col_read_def\<close>)
qed

lemma adds_write [adds_intros]:
  assumes "c \<noteq> 10" and "adds no_next k"
  shows "adds no_next (write_col r c v outs k)"
  unfolding adds_def
proof (intro allI impI)
  fix d x tr res outp d' x' tr'
  assume run: "write_col r c v outs k (d, x, tr) = Inr (res, outp, d', x', tr')"
  then obtain b d1 x1 where b: "t2_write_column r c v (d, x) = Inr (b, d1, x1)" by (auto simp: write_col_def col_write_def)
  show "\<exists>as. tr' = tr @ as \<and> no_next as"
  proof (cases b)
    case True
    then have "k (d1, x1, tr @ [AccW r c v]) = Inr (res, outp, d', x', tr')" using run b by (simp add: write_col_def col_write_def)
    then obtain as where "tr' = (tr @ [AccW r c v]) @ as" "no_next as" using assms(2) unfolding adds_def by blast
    then show ?thesis using assms(1) by (intro exI [of _ "AccW r c v # as"]) simp
  qed (use run b in \<open>auto simp: write_col_def col_write_def\<close>)
qed

lemma adds_outs [adds_intros]: "(\<And>outs. adds no_next (k outs)) \<Longrightarrow> adds no_next (read_outs r cs outs k)"
  by (induction cs arbitrary: outs) (auto intro: adds_read)

lemma adds_rows [adds_intros]: "(\<And>outs. adds no_next (k outs)) \<Longrightarrow> adds no_next (read_rows rs cs outs k)"
  by (induction rs arbitrary: outs) (auto intro: adds_outs)

lemma adds_columns [adds_intros]: "(\<And>vs. adds no_next (k vs)) \<Longrightarrow> adds no_next (read_columns r cs vs outs k)"
  by (induction cs arbitrary: vs) (auto intro: adds_read)

lemma adds_writes [adds_intros]: "10 \<notin> fst ` set cvs \<Longrightarrow> adds no_next k \<Longrightarrow> adds no_next (write_columns r cvs outs k)"
  by (induction cvs) (auto intro: adds_write)

lemma adds_lines [adds_intros]: "(\<And>a. adds no_next (k a)) \<Longrightarrow> adds no_next (deliver_lines m h i rs amount k)"
  by (induction rs arbitrary: i amount) (auto intro!: adds_intros)

definition trace_ok :: "proc2pl \<Rightarrow> bool" where
  "trace_ok pr \<longleftrightarrow> (\<forall>h inp qb n. adds (ids_ok None) (pr_run pr h inp qb n))"

lemma adds_weaken: "adds no_next f \<Longrightarrow> adds (ids_ok None) f"
  unfolding adds_def using no_next_ids by blast

lemma two_calls_trace: "(\<And>h inp n r. adds (ids_ok None) (body h inp n r)) \<Longrightarrow> trace_ok (two_calls look locks body)"
  unfolding trace_ok_def adds_def two_calls_def by fastforce

lemma one_call_trace: "(\<And>h inp n. adds (ids_ok None) (body h inp n)) \<Longrightarrow> trace_ok (one_call k body)"
  unfolding trace_ok_def adds_def one_call_def by fastforce

lemma read_proc_trace: "trace_ok (read_proc look cs)"
  unfolding read_proc_def by (intro two_calls_trace adds_weaken adds_intros)

lemma new_order_0_trace: "trace_ok (new_order_0 m)"
  unfolding new_order_0_def
proof (rule two_calls_trace)
  fix h inp n r
  show "adds (ids_ok None) (read_col r 8 [] (\<lambda>d_tax. read_col r 10 [d_tax] (\<lambda>buf. with_val (get_i32 buf) (\<lambda>o_id.
        with_val (set_i32 (o_id + 1) buf) (\<lambda>buf1. write_col r 10 buf1 [d_tax, buf] (finish_ok n [d_tax, buf]))))))"
    unfolding adds_def
  proof (intro allI impI)
    fix d x tr res outp d' x' tr'
    have i: "get_i32 buf = Inr k \<longleftrightarrow> buf = I32 k" for buf k by (cases buf) auto
    assume "read_col r 8 [] (\<lambda>d_tax. read_col r 10 [d_tax] (\<lambda>buf. with_val (get_i32 buf) (\<lambda>o_id.
        with_val (set_i32 (o_id + 1) buf) (\<lambda>buf1. write_col r 10 buf1 [d_tax, buf] (finish_ok n [d_tax, buf]))))) (d, x, tr) = Inr (res, outp, d', x', tr')"
    then show "\<exists>as. tr' = tr @ as \<and> ids_ok None as"
      by (auto simp: read_col_def write_col_def col_read_def col_write_def with_val_def finish_ok_def i set_i32_def split: option.splits if_splits)
  qed
qed

lemma env_trace: "pe_proc (tpcc_env fires m) k = Some pr \<Longrightarrow> trace_ok pr"
proof -
  have "trace_ok (new_order_7 m)" "trace_ok (payment_2 m)" "trace_ok (payment_4 m)" "trace_ok (order_status_3 m)" "trace_ok (delivery_2 m)"
    "trace_ok (delivery_3 m)" "trace_ok (stock_level_1 m)" "trace_ok (stock_level_2 m)"
    unfolding new_order_7_def payment_2_def payment_4_def order_status_3_def delivery_2_def delivery_3_def stock_level_1_def stock_level_2_def Let_def
    by (intro two_calls_trace adds_weaken; auto intro!: adds_intros)+
  moreover have "trace_ok (payment_3 m)" "trace_ok (order_status_0 m)"
    unfolding payment_3_def order_status_0_def by (intro one_call_trace adds_weaken; auto intro!: adds_intros)+
  ultimately show "pe_proc (tpcc_env fires m) k = Some pr \<Longrightarrow> trace_ok pr"
    using new_order_0_trace [of m] read_proc_trace
    by (auto simp: tpcc_env_def column_pieces_def new_order_1_def new_order_2_def new_order_5_def new_order_6_def payment_0_def payment_1_def
        order_status_1_def stock_level_0_def split: if_splits)
qed

lemma tpcc_traces: "keeps_traces (tpcc_env fires m) (ids_ok None)"
  unfolding keeps_traces_def
proof (intro conjI allI impI)
  fix k pr h inp qb n d x tr res outp d' x' tr'
  assume a: "pe_proc (tpcc_env fires m) k = Some pr" "pr_run pr h inp qb n (d, x, tr) = Inr (res, outp, d', x', tr')" "ids_ok None tr"
  obtain as where "tr' = tr @ as" "ids_ok None as" using env_trace [OF a(1)] a(2) unfolding trace_ok_def adds_def by blast
  then show "ids_ok None tr'" using ids_ok_append a(3) by blast
qed simp

section \<open>The customer in the middle\<close>

lemma mid_scan_Some: "mid_scan n i inc (Some j) = Some (j + (if inc then Suc n else n) div 2)"
  by (induction n arbitrary: i inc j) (auto split: if_splits)

lemma mid_scan_start: "mid_scan n i False None = (if n = 0 then None else Some (i + (n - 1) div 2))"
  by (cases n) (auto simp: mid_scan_Some)

text \<open>Of the customers of a last name, the one in the middle is taken, rounded up; without a customer the procedure fails.\<close>

lemma customer_by_last_mid:
  assumes "c_last_range m inp = Inr (lo, hi)" and "hi \<le> length (tm_c_last2id m)" and "get_kind (inp ! 1) = K_I32" and "get_kind (inp ! 2) = K_I32"
  shows "customer_by_last m inp = (if lo < hi then Inr (snd (tm_c_last2id m ! (lo + (hi - lo - 1) div 2))) else Inl VerifyFailed)"
proof -
  obtain a b where "inp ! 1 = I32 a" "inp ! 2 = I32 b" using assms(3,4) by (cases "inp ! 1"; cases "inp ! 2") auto
  then show ?thesis using assms(1,2) by (auto simp: customer_by_last_def mid_scan_start at_def simp del: rbind_eq_Inr)
qed

section \<open>A run\<close>

text \<open>A district with the key 3, 1 and the next order number 17; the arithmetic of doubles is that of their bit patterns here. Two new
  orders of the district overlap, a payment and a stock level transaction follow.\<close>

definition dist_schema :: schema where
  "dist_schema = \<lparr>col_name_to_id = map (\<lambda>i. (replicate i CHR ''d'', i)) [0..<11],
     col_info = map (\<lambda>i. \<lparr>col_id = i, col_name = replicate i CHR ''d'', indexed = i < 2, col_type = if i = 9 then K_DOUBLE else K_I32,
       place = if i = 10 then 44 else 4 * i\<rparr>) [0..<11],
     key_cols_id = [0, 1], var_size_cols = 0, fixed_part_size = 48, hidden_fixed = 0, hidden_var = 0, frozen = True\<rparr>"

definition dist_cell :: cell where
  "dist_cell = \<lparr>c_row = \<lparr>fixed_part = le_bytes 4 (3 :: i32) @ le_bytes 4 (1 :: i32) @ concat (map (\<lambda>i. le_bytes 4 (of_nat i :: i32)) [2..<9]) @
     le_bytes 8 (100 :: i64) @ le_bytes 4 (17 :: i32), var_part = Dense [] [], rdonly = False, tbl = Some 0\<rparr>, c_refs = 1, c_schema = 0\<rparr>"

definition dist_db :: db where
  "dist_db = \<lparr>d_heap = [Some dist_cell], d_schemas = [dist_schema],
     d_tables = [(TBL_SORTED, \<lparr>t_id = 0, t_schema = 0, t_rows = [([[3, 0, 0, 0], [1, 0, 0, 0]], 0)]\<rparr>)],
     d_kind = (\<lambda>_. ROW_FINE), d_ver = (\<lambda>_ _. 0), d_lock = (\<lambda>_. new_rwlock)\<rparr>"

definition dist_machine :: tpcc_machine where
  "dist_machine = \<lparr>tm_add = (+), tm_sub = (-), tm_dbl_str = (\<lambda>_. []), tm_time = (\<lambda>_ _. []), tm_table = map_of [(TPCC_TB_DISTRICT, 0)],
     tm_c_last_schema = dist_schema, tm_c_last2id = []\<rparr>"

definition dist_header :: "i32 \<Rightarrow> i32 \<Rightarrow> uint64 \<Rightarrow> uint64 \<Rightarrow> request_header" where
  "dist_header tt pt tid pid = \<lparr>hd_t_type = tt, hd_p_type = pt, hd_tid = tid, hd_cid = 0, hd_pid = pid\<rparr>"

definition dist_steps :: "tpl_step list" where
  "dist_steps = [DoStart (dist_header 10 100 1 11) [I32 1, I32 3] 2, DoStart (dist_header 10 100 2 21) [I32 1, I32 3] 2, DoNext, DoNext,
     DoGrant 1 11, DoStart (dist_header 20 202 1 12) [I32 1, I32 3, DOUBLE 5] 0, DoNext, DoGrant 1 12, DoPrepare 1, DoCommit 1,
     DoGrant 2 21, DoPrepare 2, DoCommit 2, DoStart (dist_header 50 500 3 31) [I32 1, I32 3] 1, DoNext, DoGrant 3 31, DoPrepare 3, DoCommit 3]"

definition dist_state :: tpl_server where
  "dist_state = projr (tpl_do_all (tpcc_env (\<lambda>n k. k = n) dist_machine) dist_steps (new_tpl_server dist_db))"

lemma dist_good: "tpcc_good dist_machine dist_db"
proof -
  have "schema_inv dist_schema" by code_simp
  moreover have "table_wf dist_db 0" by code_simp
  ultimately have "db_inv dist_db" by (auto simp: db_inv_def) (auto simp: dist_db_def)
  moreover have "tpcc_db dist_machine dist_db" by code_simp
  ultimately show ?thesis by (simp add: tpcc_good_def)
qed

lemma dist_run: "map_sum (\<lambda>_. ()) (\<lambda>s. (tl_log s, tl_out s)) (tpl_do_all (tpcc_env (\<lambda>n k. k = n) dist_machine) dist_steps (new_tpl_server dist_db)) =
    Inr ([[AccR 0 8 (I32 8), AccR 0 10 (I32 17), AccW 0 10 (I32 18), AccR 0 9 (DOUBLE 100), AccW 0 9 (DOUBLE 105)],
          [AccR 0 8 (I32 8), AccR 0 10 (I32 18), AccW 0 10 (I32 19)], [AccR 0 10 (I32 19)]],
         [Answered 0 [(SUCCESS, [I32 8, I32 17])], Answered 2 [(SUCCESS, [])], Voted 1 SUCCESS, Ended 1,
          Answered 1 [(SUCCESS, [I32 8, I32 18])], Voted 2 SUCCESS, Ended 2, Answered 3 [(SUCCESS, [I32 19])], Voted 3 SUCCESS, Ended 3])"
  by code_simp

lemma dist_facts:
  "tpl_do_all (tpcc_env (\<lambda>n k. k = n) dist_machine) dist_steps (new_tpl_server dist_db) = Inr dist_state"
  "order_ids 0 (concat (tl_log dist_state)) = [17, 18]"
  using dist_run by (auto simp: dist_state_def map_sum_def split: sum.splits)

lemma dist_reach: "tpl_reach (tpcc_env (\<lambda>n k. k = n) dist_machine) dist_db dist_state"
  using tpl_do_all_reach [OF tpl_init dist_facts(1)] .

section \<open>Properties\<close>

text \<open>C12. Isolation for TPC-C: a server that runs the procedures on the columns of existing rows with two-phase locking is serializable in
  the order of the commits, whatever the order of requests, lock answers, wounds, prepares, commits and aborts. Every procedure asks for
  all the locks that it needs, and its second call works on the rows that its first call has locked.\<close>

theorem tpcc_2pl_serializable:
  assumes "tpcc_good m d" and "tpl_reach (tpcc_env fires m) d s"
  shows "replay (concat (tl_log s)) (db_val d) = Some (db_val (tl_db s)) \<and> db_inv (tl_db s)"
  by (rule tpcc.reach_serializable [OF assms])

theorem tpcc_2pl_serializable_witness: "replay (concat (tl_log dist_state)) (db_val dist_db) = Some (db_val (tl_db dist_state))"
  using tpcc_2pl_serializable [OF dist_good dist_reach] by simp



end
