(* ===== verification/Tpcc_Insert.thy ===== *)
theory Tpcc_Insert
  imports Tpcc_Piece
begin

text \<open>
  The stored procedures of TPC-C with two-phase locking that are outside of the contract \<open>guarded_procs\<close> (\<^verbatim>\<open>tpcc/piece.cc\<close>), which is
  about columns and one request for locks: those that insert or remove rows (a new order with its lines, the history of a payment, the
  delivery of the oldest new order), and the one that asks for locks twice. A new row is a cell of the heap that no table holds; the
  transaction stages it, and its commit inserts it.
\<close>

section \<open>Rows\<close>

text \<open>\<^verbatim>\<open>FineLockedRow::create\<close> for the schema of a table.\<close>

definition fine_create :: "nat \<Rightarrow> mvalue list \<Rightarrow> db \<Rightarrow> (nat \<times> db) res" where
  "fine_create t vals d =
     rbind (table_at d t)
       (\<lambda>(k, tab). rbind (schema_at d (t_schema tab))
         (\<lambda>s. rbind (row_create s vals)
           (\<lambda>r. let p = length (d_heap d)
                in Inr (p, d\<lparr>d_heap := d_heap d @ [Some \<lparr>c_row = r, c_refs = 1, c_schema = t_schema tab\<rparr>], d_kind := (d_kind d)(p := ROW_FINE)\<rparr>))))"

definition insert_new :: "tpcc_machine \<Rightarrow> string \<Rightarrow> mvalue list \<Rightarrow> proc_body \<Rightarrow> proc_body" where
  "insert_new m name vals k = (\<lambda>(d, x, tr).
     case tm_table m name of
       None \<Rightarrow> Inl BadPointer
     | Some t \<Rightarrow> rbind (fine_create t vals d)
         (\<lambda>(p, d1). rbind (t2_insert_row t p (d1, x))
           (\<lambda>(ok, d2, x2). if ok then k (d2, x2, tr) else Inr (REJECT, [], d2, x2, tr))))"

definition remove_found :: "tpcc_machine \<Rightarrow> string \<Rightarrow> nat \<Rightarrow> mvalue list \<Rightarrow> proc_body \<Rightarrow> proc_body" where
  "remove_found m name r outs k = (\<lambda>(d, x, tr).
     case tm_table m name of
       None \<Rightarrow> Inl BadPointer
     | Some t \<Rightarrow> rbind (t2_remove_row t r (d, x)) (\<lambda>(ok, d1, x1). if ok then k (d1, x1, tr) else Inr (REJECT, outs, d1, x1, tr)))"

section \<open>Procedures\<close>

definition TPCC_TB_ORDER_C_ID_SECONDARY :: string where "TPCC_TB_ORDER_C_ID_SECONDARY = ''order_secondary''"

definition secondary_row :: "tpcc_machine \<Rightarrow> nat finder" where
  "secondary_row m = query_row m TPCC_TB_ORDER_C_ID_SECONDARY 7 [1, 2, 3]"

text \<open>The order is inserted before the result of the first query is retrieved.\<close>

definition new_order_3 :: "tpcc_machine \<Rightarrow> proc2pl" where
  "new_order_3 m = \<lparr>
     pr_locks = (\<lambda>h inp qb st. rbind (secondary_row m False inp st qb) (\<lambda>(r, qb1). Inr (Some (lock_cols r [(3, WLOCK)]), qb1))),
     pr_run = (\<lambda>h inp qb n st. verify (length inp = 7)
       (insert_new m TPCC_TB_ORDER [inp ! 1, inp ! 2, inp ! 0, inp ! 3, STRING (tm_time m h 0), inp ! 4, inp ! 5, inp ! 6]
         (\<lambda>st1. rbind (secondary_row m True inp (fst st1, fst (snd st1)) qb)
           (\<lambda>(r, qb1). write_col r 3 (inp ! 0) [] (finish_ok n []) st1)) st))\<rparr>"

definition new_order_4 :: "tpcc_machine \<Rightarrow> proc2pl" where
  "new_order_4 m = one_call 3 (\<lambda>h inp n. insert_new m TPCC_TB_NEW_ORDER [inp ! 1, inp ! 2, inp ! 0] (finish_ok n []))"

definition new_order_8 :: "tpcc_machine \<Rightarrow> proc2pl" where
  "new_order_8 m = one_call 10 (\<lambda>h inp n. insert_new m TPCC_TB_ORDER_LINE inp (finish_ok n []))"

definition payment_5 :: "tpcc_machine \<Rightarrow> proc2pl" where
  "payment_5 m = one_call 9 (\<lambda>h inp n. with_val (get_str (inp ! 1)) (\<lambda>w_name. with_val (get_str (inp ! 2)) (\<lambda>d_name.
     insert_new m TPCC_TB_HISTORY [inp ! 0, inp ! 5, inp ! 7, inp ! 6, inp ! 4, inp ! 3, STRING (tm_time m h 0), inp ! 8,
       STRING (w_name @ str_bytes ''    '' @ d_name)] (finish_ok n []))))"

text \<open>The oldest new order of a district, if there is one.\<close>

definition rs_first :: "nat \<Rightarrow> query_buf \<Rightarrow> (nat option \<times> query_buf) res" where
  "rs_first i qb =
     (if i < length (qb_buf qb)
      then rbind (mc_has_next (Suc (length (raw_rows (mc_cursor (qb_buf qb ! i))))) raw_vt (qb_buf qb ! i))
        (\<lambda>(b, q). let qb1 = qb\<lparr>qb_buf := (qb_buf qb)[i := q]\<rparr>
           in if b then rbind (rs_next i qb1) (\<lambda>(r, qb2). Inr (Some r, qb2)) else Inr (None, qb1))
      else Inl BadPointer)"

definition oldest_row :: "tpcc_machine \<Rightarrow> nat option finder" where
  "oldest_row m retrieve inp st qb =
     verify (length inp = 2)
       (rbind (key_with [1, 0] I32_MIN inp)
         (\<lambda>l. rbind (key_with [1, 0] I32_MAX inp)
           (\<lambda>h. case tm_table m TPCC_TB_NEW_ORDER of
              None \<Rightarrow> Inl BadPointer
            | Some t \<Rightarrow> rbind (buf_query retrieve (do_query_in t l h ORD_ASC st) qb) (\<lambda>(i, qb1). rs_first i qb1))))"

text \<open>The first call asks for the whole row with \<^verbatim>\<open>reg_rm_lock\<close>, or goes on at once.\<close>

definition delivery_0_locks :: "tpcc_machine \<Rightarrow> mvalue list \<Rightarrow> query_buf \<Rightarrow> db \<times> txn2pl \<Rightarrow> piece \<Rightarrow> ((piece \<times> group_call list) option \<times> query_buf) res" where
  "delivery_0_locks m inp qb st ps =
     rbind (oldest_row m False inp st qb)
       (\<lambda>(ro, qb1). case ro of
          None \<Rightarrow> Inr (None, qb1)
        | Some r \<Rightarrow> rbind (reg_rm_lock (fst st) r ps) (\<lambda>pg. Inr (Some pg, qb1)))"

definition delivery_0_run :: "tpcc_machine \<Rightarrow> mvalue list \<Rightarrow> query_buf \<Rightarrow> nat \<Rightarrow> proc_body" where
  "delivery_0_run m inp qb n st =
     rbind (oldest_row m True inp (fst st, fst (snd st)) qb)
       (\<lambda>(ro, qb1). case ro of
          None \<Rightarrow> finish_ok n [I32 (- 1)] st
        | Some r \<Rightarrow> read_col r 2 [] (\<lambda>o_id. remove_found m TPCC_TB_NEW_ORDER r [o_id] (finish_ok n [o_id])) st)"

section \<open>What is staged\<close>

text \<open>A new row is staged with the values given, in a cell of its own; the tables, the rows and the other staged changes are as before.\<close>

lemma insert_new_staged:
  assumes t: "tm_table m name = Some t" "t < length (d_tables d)" "d_tables d ! t = (k, tab)" "t_schema tab < length (d_schemas d)"
    and s: "s = d_schemas d ! t_schema tab" "schema_inv s" "map get_kind vals = map col_type (visible_columns s)"
      "nvar (drop (columns_count s) (col_info s)) = 0"
    and run: "insert_new m name vals f (d, x, tr) = Inr res"
  shows "\<exists>d1 x1. f (d1, x1, tr) = Inr res \<and> (\<forall>c < length vals. row_get (length (d_heap d)) c d1 = Inr (vals ! c)) \<and>
    d_tables d1 = d_tables d \<and> (\<forall>q < length (d_heap d). d_heap d1 ! q = d_heap d ! q) \<and>
    set (sg_inserts x1) = insert (t, length (d_heap d)) (set (sg_inserts x)) \<and> sg_updates x1 = sg_updates x"
proof -
  obtain r where r: "row_create s vals = Inr r" "tbl r = None" "\<forall>c < length vals. get_column s r c = Inr (vals ! c)"
    using row_create_columns [OF s(2-4)] by blast
  let ?p = "length (d_heap d)"
  let ?d = "d\<lparr>d_heap := d_heap d @ [Some \<lparr>c_row = r, c_refs = 1, c_schema = t_schema tab\<rparr>], d_kind := (d_kind d)(?p := ROW_FINE)\<rparr>"
  have c: "fine_create t vals d = Inr (?p, ?d)" using t s(1) r(1) by (simp add: fine_create_def table_at_def schema_at_def Let_def)
  have cell: "cell_at (d_heap ?d) ?p = Inr \<lparr>c_row = r, c_refs = 1, c_schema = t_schema tab\<rparr>" by (simp add: cell_at_def)
  then have rt: "row_table ?p ?d = Inr None" using r(2) by (simp add: row_table_def)
  obtain x1 where x1: "t2_insert_row t ?p (?d, x) = Inr (True, ?d, x1)" "f (?d, x1, tr) = Inr res"
    using run t(1) c rt by (auto simp: insert_new_def t2_insert_row_def)
  then obtain i where "x1 = x\<lparr>sg_inserts := take i (sg_inserts x) @ (t, ?p) # drop i (sg_inserts x), sg_removes := filter (\<lambda>e. e \<noteq> (t, ?p)) (sg_removes x)\<rparr>"
    using rt by (auto simp: t2_insert_row_def stage_insert_def)
  then have "set (sg_inserts x1) = insert (t, ?p) (set (sg_inserts x))" "sg_updates x1 = sg_updates x"
    using set_append [of "take i (sg_inserts x)" "drop i (sg_inserts x)"] by auto
  moreover have "\<forall>c < length vals. row_get ?p c ?d = Inr (vals ! c)" using cell t(4) s(1) r(3) by (simp add: row_get_def schema_at_def)
  ultimately show ?thesis using x1(2) by (intro exI [of _ ?d] exI [of _ x1]) (simp add: nth_append)
qed

text \<open>The delivery of a district without new orders answers -1 and changes nothing; otherwise it answers the number of the order and
  stages its row for removal.\<close>

lemma delivery_0_spec:
  assumes run: "delivery_0_run m inp qb n (d, x, tr) = Inr (res, outp, d', x', tr')" and ok: "res = SUCCESS"
    and t: "tm_table m TPCC_TB_NEW_ORDER = Some t" and ins: "sg_inserts x = []" and inv: "db_inv d" and out: "sg_outcome x = NONE"
    and row: "\<And>r qb'. oldest_row m True inp (d, x) qb = Inr (Some r, qb') \<Longrightarrow> db_readable d r 2"
  shows "(\<exists>qb'. oldest_row m True inp (d, x) qb = Inr (None, qb') \<and> outp = [I32 (- 1)] \<and> d' = d \<and> x' = x \<and> tr' = tr) \<or>
    (\<exists>r qb'. oldest_row m True inp (d, x) qb = Inr (Some r, qb') \<and> outp = [overlay (sg_updates x) (db_val d) r 2] \<and> d' = d \<and>
       (t, r) \<in> set (sg_removes x') \<and> set (sg_removes x) \<subseteq> set (sg_removes x'))"
proof -
  obtain ro qb' where o: "oldest_row m True inp (d, x) qb = Inr (ro, qb')" using run by (auto simp: delivery_0_run_def)
  show ?thesis
  proof (cases ro)
    case (Some r)
    obtain x1 where x1: "t2_read_column r 2 (d, x) = Inr (Some (overlay (sg_updates x) (db_val d) r 2), d, x1)" "x1 = x \<or> x1 = x\<lparr>sg_reads := mm_ins r 2 (sg_reads x)\<rparr>"
      using t2_read_spec [OF inv row [OF o [unfolded Some]] out] by blast
    have "stage_find d t r (sg_inserts x1) = Inr None" using x1(2) ins by (auto simp: stage_find_def ins_lower_def ins_upper_def)
    then show ?thesis using run o Some x1 t out
      by (auto simp: delivery_0_run_def read_col_def col_read_def remove_found_def t2_remove_row_def finish_ok_def set_insert_def)
  qed (use run o in \<open>auto simp: delivery_0_run_def finish_ok_def\<close>)
qed

section \<open>A procedure that asks for locks twice\<close>

text \<open>\<^verbatim>\<open>ORDER_STATUS_2\<close> looks for the last order of a customer: the secondary table has its number. The procedure asks for that column
  first; the callback of this lock group finds the order and asks for its columns, and only the callback of the second lock group
  calls the procedure again.\<close>

definition row_blob :: "nat \<Rightarrow> nat \<Rightarrow> db \<Rightarrow> byte list res" where
  "row_blob r c d = rbind (cell_at (d_heap d) r) (\<lambda>cl. rbind (schema_at d (c_schema cl)) (\<lambda>s. row_get_blob s (c_row cl) c))"

definition customer_row :: "tpcc_machine \<Rightarrow> nat finder" where
  "customer_row m = query_row m TPCC_TB_ORDER_C_ID_SECONDARY 3 [1, 0, 2]"

definition last_order :: "tpcc_machine \<Rightarrow> nat \<Rightarrow> nat finder" where
  "last_order m r_0 retrieve inp st qb =
     rbind (key_blobs inp [1, 0])
       (\<lambda>mb. rbind (row_blob r_0 3 (fst st))
         (\<lambda>o_id. rbind (buf_query retrieve (case tm_table m TPCC_TB_ORDER of None \<Rightarrow> Inl BadPointer | Some t \<Rightarrow> do_query t (mb @ [o_id]) st) qb)
           (\<lambda>(i, qb1). rs_next i qb1)))"

definition order_status_2_locks :: "tpcc_machine \<Rightarrow> mvalue list \<Rightarrow> query_buf \<Rightarrow> db \<times> txn2pl \<Rightarrow> ((alock \<times> alock_type) list \<times> nat \<times> query_buf) res" where
  "order_status_2_locks m inp qb st = rbind (customer_row m False inp st qb) (\<lambda>(r_0, qb1). Inr (rlocks [3] r_0, r_0, qb1))"

text \<open>\<^verbatim>\<open>get_2pl_succ_callback\<close> with a function, and the function of this procedure, which has captured the row and the piece.\<close>

definition succ_callback_func :: "tpl_env \<Rightarrow> (pie_call \<Rightarrow> piece \<Rightarrow> txn2pl \<Rightarrow> tpl_server \<Rightarrow> tpl_server res) \<Rightarrow> i64 \<Rightarrow> i64 \<Rightarrow> tpl_server \<Rightarrow> tpl_server res" where
  "succ_callback_func env func tid pid s =
     lock_answer start_yes_callback
       (\<lambda>pc ps x s1. if is_rejected (t2_wound x) ps then end_piece env tid pc REJECT (remove_output ps) x s1 else func pc ps x s1) tid pid s"

definition order_status_2_func :: "tpcc_machine \<Rightarrow> nat \<Rightarrow> i64 \<Rightarrow> pie_call \<Rightarrow> piece \<Rightarrow> txn2pl \<Rightarrow> tpl_server \<Rightarrow> tpl_server res" where
  "order_status_2_func m r_0 tid pc ps x s =
     (let pid = hd_pid (pc_header pc)
      in rbind (last_order m r_0 False (pc_input pc) (tl_db s, x) (ps_query_buf ps))
        (\<lambda>(r, qb). rbind (set_num_waiting_locks 1 (ps\<lparr>ps_query_buf := qb\<rparr>))
          (\<lambda>ps1. rbind (reg_rw_lock (tl_db s) (rlocks [2, 4, 5] r) ps1)
            (\<lambda>(ps2, calls). Inr (put_txn_2pl tid (x\<lparr>t2_pieces := piece_put pid ps2 (t2_pieces x), t2_calls := t2_calls x @ calls\<rparr>)
               (s\<lparr>tl_asked := tl_asked s @ [(tid, pid)]\<rparr>))))))"

definition order_status_2_run :: "tpcc_machine \<Rightarrow> mvalue list \<Rightarrow> query_buf \<Rightarrow> nat \<Rightarrow> proc_body" where
  "order_status_2_run m inp qb n st =
     rbind (customer_row m True inp (fst st, fst (snd st)) qb)
       (\<lambda>(r_0, qb1). read_col r_0 3 []
         (\<lambda>_ st1. rbind (last_order m r_0 True inp (fst st1, fst (snd st1)) qb1)
           (\<lambda>(r, qb2). read_col r 2 [] (\<lambda>o_id. with_val (get_i32 o_id) (\<lambda>_. read_outs r [4, 5] [o_id] (finish_ok n))) st1)) st)"

text \<open>After both requests for locks the procedure retrieves the two rows they were about, whatever the database is by then.\<close>

lemma order_status_2_rows:
  assumes plain: "plain_txn x1" "plain_txn x2"
    and first: "customer_row m False inp (d1, x1) new_query_buf = Inr (r_0, qb1)"
    and second: "last_order m r_0 False inp (d2, x2) qb1 = Inr (r, qb2)"
    and again: "customer_row m True inp st qb2 = Inr (r_0', qb3)" "last_order m r_0' True inp st' qb3 = Inr (r', qb4)"
  shows "r_0' = r_0 \<and> r' = r"
proof -
  obtain t mb q0 where d0: "do_query t mb (d1, x1) = Inr q0" "rs_next 0 \<lparr>retrieve_index = 0, qb_buf = [q0]\<rparr> = Inr (r_0, qb1)"
    using first by (auto simp: customer_row_def query_row_def buf_query_def new_query_buf_def split: option.splits)
  note q0 = do_query_untouched(1) [OF plain(1) d0(1)] d0(2)
  obtain c0 where c0: "qb1 = \<lparr>retrieve_index = 0, qb_buf = [c0]\<rparr>" "mc_reset raw_vt c0 = q0" using rs_next_again [OF q0] by blast
  obtain t mb q1 where d1: "do_query t mb (d2, x2) = Inr q1" "rs_next 1 \<lparr>retrieve_index = 0, qb_buf = [c0, q1]\<rparr> = Inr (r, qb2)"
    using second c0(1) by (auto simp: last_order_def buf_query_def split: option.splits)
  note q1 = do_query_untouched(1) [OF plain(2) d1(1)] d1(2)
  obtain c1 where c1: "qb2 = \<lparr>retrieve_index = 0, qb_buf = [c0, c1]\<rparr>" "mc_reset raw_vt c1 = q1" using rs_next_at [OF q1(1) _ _ q1(2)] by auto
  have n0: "rs_next 0 \<lparr>retrieve_index = 1, qb_buf = [q0, c1]\<rparr> = Inr (r_0', qb3)"
    using again(1) c1(1) c0(2) by (auto simp: customer_row_def query_row_def buf_query_def)
  then obtain e0 where e0: "qb3 = \<lparr>retrieve_index = 1, qb_buf = [e0, c1]\<rparr>" using rs_next_at [OF q0(1) _ _ n0] by auto
  have n1: "rs_next 1 \<lparr>retrieve_index = 2, qb_buf = [e0, q1]\<rparr> = Inr (r', qb4)"
    using again(2) e0 c1(2) by (auto simp: last_order_def buf_query_def numeral_2_eq_2)
  show ?thesis using n0 n1 q0(2) q1(2) by (auto simp: rs_next_def Let_def)
qed

text \<open>So a successful procedure reads under the locks it has asked for, and answers with the number, the date and the carrier of the order.\<close>

lemma order_status_2_accesses:
  assumes plain: "plain_txn x1" "plain_txn x2"
    and first: "order_status_2_locks m inp new_query_buf (d1, x1) = Inr (ls, r_0, qb1)"
    and second: "last_order m r_0 False inp (d2, x2) qb1 = Inr (r, qb2)"
    and run: "order_status_2_run m inp qb2 n (d, x, tr) = Inr (SUCCESS, outp, d', x', tr')"
  shows "\<exists>v o_id entry_d carrier. tr' = tr @ [AccR r_0 3 v, AccR r 2 o_id, AccR r 4 entry_d, AccR r 5 carrier] \<and> outp = [o_id, entry_d, carrier]"
proof -
  have f: "customer_row m False inp (d1, x1) new_query_buf = Inr (r_0, qb1)" using first by (auto simp: order_status_2_locks_def)
  have ne: "REJECT \<noteq> SUCCESS" by (simp add: REJECT_def SUCCESS_def)
  obtain r0 qb3 where c: "customer_row m True inp (d, x) qb2 = Inr (r0, qb3)" using run by (auto simp: order_status_2_run_def)
  obtain v st1 r1 qb4 where l: "col_read r0 3 (d, x, tr) = Inr (Some v, st1)" "last_order m r0 True inp (fst st1, fst (snd st1)) qb3 = Inr (r1, qb4)"
    and k: "read_col r1 2 [] (\<lambda>o_id. with_val (get_i32 o_id) (\<lambda>_. read_outs r1 [4, 5] [o_id] (finish_ok n))) st1 = Inr (SUCCESS, outp, d', x', tr')"
    using run c ne by (auto simp: order_status_2_run_def read_col_def split: option.splits)
  have r: "r0 = r_0" "r1 = r" using order_status_2_rows [OF plain f second c l(2)] by auto
  show ?thesis using l(1) k ne unfolding r
    by (auto simp: read_col_def with_val_def finish_ok_def col_read_def split: option.splits)
qed

end
