(* ===== verification/Spec2Isabelle.thy ===== *)
theory Spec2Isabelle
  imports Graph_Order Graph_Search Graph_Union Txn_Graph Mdb_Snapshot Dtxn_Occ Rcc_Live Txn_Client Tpcc_Insert
begin

text \<open>
  \<^bold>\<open>Rococo\<close> is a transactional store in C++: clients cut transactions into pieces and run them on the servers
  that hold the data, with dependency tracking (the mode \<^verbatim>\<open>MODE_RCC\<close>, also \<^verbatim>\<open>MODE_DEPTRAN\<close>), two-phase
  locking, optimistic concurrency control, or no concurrency control. This development models the program in
  definitions that compute and proves what makes its parts correct. File names below are relative to
  \<^verbatim>\<open>src/\<close>.

  \<^bold>\<open>The parts and how they interact.\<close>
  A client (\<^verbatim>\<open>deptran/coordinator.cc\<close>) turns a request into a transaction of its benchmark
  (\<^verbatim>\<open>txn_chopper.cc\<close>, \<^verbatim>\<open>tpcc/chopper.cc\<close> and others), finds the servers of its pieces (\<^verbatim>\<open>sharding.cc\<close>), sends
  them, and, when all are answered, prepares and commits or aborts on the servers involved, or, in the
  dependency mode, sends the merged dependency graph with a finish request. A server (\<^verbatim>\<open>rcc_service.cc\<close>,
  \<^verbatim>\<open>dtxn.cc\<close>) runs stored procedures on the storage engine in \<^verbatim>\<open>memdb/\<close> inside a transaction of its mode
  (\<^verbatim>\<open>memdb/txn.cc\<close>). In the dependency mode it keeps a graph of transactions (\<^verbatim>\<open>deptran/graph.h\<close>,
  \<^verbatim>\<open>dep_graph.cc\<close>, \<^verbatim>\<open>txn_info.h\<close>), and commits the strongly connected components of it in a
  deterministic order.

  \<^bold>\<open>Conventions.\<close> \<^verbatim>\<open>Rococo_Prelude\<close> has the error type and the result type \<open>'a res\<close> (\<open>Inl\<close> an error), with
  \<open>rbind\<close> and \<open>verify\<close>; a failed \<^verbatim>\<open>verify\<close>, a wild or dangling pointer and an index out of range are values
  \<open>Inl e\<close>. Objects with pointers to them live in explicit heaps, a pointer is an index, and a deleted object
  is \<open>None\<close>. Machine integers are words where their width matters. Loops are recursive functions with
  termination proofs; searches with a work list take fuel and are proved to end within it.

  \<^bold>\<open>Dependency graphs.\<close>
  \<^item> \<^verbatim>\<open>Graph_Model\<close>, \<^verbatim>\<open>Graph_Scc\<close>, \<^verbatim>\<open>Graph_Order\<close>, \<^verbatim>\<open>Graph_Search\<close>, \<^verbatim>\<open>Graph_Union\<close> model \<^verbatim>\<open>deptran/graph.h\<close> and
    \<^verbatim>\<open>dep_graph.hpp\<close>: vertices with mirrored edges on a heap, the index of a graph, Tarjan's search
    (\<open>strong_connect\<close>), the order in a component (\<open>sorted_scc\<close>), ancestors, and the union of a received graph. The
    theorems: the search returns exactly the strongly connected component, the order puts each member behind its
    immediate parents or aborts when there is no such order, searches of ancestors return exactly the
    reachable vertices, and the union refines the union of abstract graphs. The fuel of the searches is
    the number of vertices on the heap (and one); the theorems include that it suffices.
  \<^item> \<^verbatim>\<open>Txn_Info\<close> models the status bits, servers and events of one transaction (\<^verbatim>\<open>txn_info.h\<close>), \<^verbatim>\<open>Txn_Graph\<close> the
    operations of \<^verbatim>\<open>dep_graph.cc\<close>. Every registered event is triggered exactly once; the subgraph sent with
    a reply is exact.

  \<^bold>\<open>Storage engine\<close> (\<^verbatim>\<open>memdb/\<close>).
  \<^item> \<^verbatim>\<open>Mdb_Value\<close> (\<^verbatim>\<open>value.h\<close>, \<^verbatim>\<open>value.cc\<close>, \<^verbatim>\<open>blob.h\<close>), \<^verbatim>\<open>Mdb_Schema\<close> (\<^verbatim>\<open>schema.h\<close>), \<^verbatim>\<open>Mdb_Row\<close> (\<^verbatim>\<open>row.h\<close>, \<^verbatim>\<open>row.cc\<close>,
    down to the bytes), \<^verbatim>\<open>Mdb_Lock\<close> (\<^verbatim>\<open>locking.h\<close>), \<^verbatim>\<open>Mdb_Table\<close> (\<^verbatim>\<open>table.h\<close>, \<^verbatim>\<open>table.cc\<close>: sorted and unsorted
    tables, cursors, keys), \<^verbatim>\<open>Mdb_Snapshot\<close> (\<^verbatim>\<open>snapshot.h\<close>). Values are ordered, layouts are disjoint, rows read
    back what was written, tables stay sorted under updates of any column, queries are exact, and the
    members of a snapshot group behave as separate maps.
  \<^item> \<^verbatim>\<open>Mdb_Db\<close> is the database the transactions see, with the contract of column accesses as locales
    (\<open>column_store\<close>, \<open>transaction\<close>, \<open>isolated_transaction\<close>) that each kind of transaction interprets;
    \<^verbatim>\<open>Mdb_Cursor\<close>, \<^verbatim>\<open>Mdb_Staging\<close>, \<^verbatim>\<open>Mdb_Piece\<close>, \<^verbatim>\<open>Mdb_Txn\<close> and \<^verbatim>\<open>Mdb_Occ\<close> model \<^verbatim>\<open>memdb/txn.h\<close> and \<^verbatim>\<open>txn.cc\<close>:
    merged cursors, staged changes, the pieces and wounds of two-phase locking, \<^verbatim>\<open>Txn2PL\<close>, \<^verbatim>\<open>TxnNested\<close>,
    \<^verbatim>\<open>TxnOCC\<close>. A commit applies exactly the staged changes, a nested transaction is transparent.
    The queries of a piece are kept in its buffer, so that the second call of a procedure retrieves what the
    first has found (\<open>query_buf\<close> and \<open>buf_query\<close> in \<^verbatim>\<open>Mdb_Piece\<close>).

  \<^bold>\<open>Servers\<close> (\<^verbatim>\<open>deptran/\<close>).
  \<^item> \<^verbatim>\<open>Dtxn_Occ\<close>: the running transactions of \<^verbatim>\<open>TxnRunner\<close> in the optimistic mode; with the lazy policy all histories
    are serializable in the order of the commits, with the eager one there is write skew.
  \<^item> \<^verbatim>\<open>Dtxn_2pl\<close>: the same with two-phase locking: the requests of \<^verbatim>\<open>rcc_service.cc\<close>, the two calls of a stored
    procedure and the callbacks of the lock groups (\<^verbatim>\<open>pre_execute_2pl\<close>, \<^verbatim>\<open>get_2pl_succ_callback\<close> and others in
    \<^verbatim>\<open>dtxn.cc\<close>), and the steps of all interleavings (\<open>tpl_reach\<close>). \<^verbatim>\<open>Dtxn_2pl_Inv\<close> proves serializability for procedures
    that keep to the locks they have asked for (the locale \<open>guarded_procs\<close>), \<^verbatim>\<open>Dtxn_2pl_Reply\<close> that requests are
    answered once and that callbacks do not fail (\<open>answering_procs\<close>). \<^verbatim>\<open>Tpca_Piece\<close> models the procedures of TPC-A
    (\<^verbatim>\<open>tpca/piece.cc\<close>) and interprets both: no payment is lost. \<^verbatim>\<open>Tpcc_Piece\<close> models the procedures of TPC-C
    (\<^verbatim>\<open>tpcc/piece.cc\<close>) that read and write columns of existing rows and interprets \<open>guarded_procs\<close>: the server is serializable
    and the committed new orders of a district have consecutive numbers. \<^verbatim>\<open>Tpcc_Insert\<close> has the procedures that insert
    and remove rows and \<^verbatim>\<open>ORDER_STATUS_2\<close>, which asks for locks twice; the statements about all interleavings are about
    runs without them.
  \<^item> \<^verbatim>\<open>Rcc_Server\<close>, \<^verbatim>\<open>Rcc_Safety\<close>, \<^verbatim>\<open>Rcc_Commit\<close>, \<^verbatim>\<open>Rcc_Live\<close>: the handlers of the dependency mode in
    \<^verbatim>\<open>rcc_service.cc\<close> with the callbacks they leave behind, as a step relation on the code that is still to
    run. A component is committed once and only after its ancestors; an idle server has no callback that
    could run; and the code that a request starts always ends (\<open>rcc_run\<close> is a \<^theory_text>\<open>partial_function\<close> whose
    result is proved to exist).

  \<^bold>\<open>Clients\<close> (\<^verbatim>\<open>deptran/\<close>).
  \<^item> \<^verbatim>\<open>Sharding_Map\<close>: the placement of keys (\<^verbatim>\<open>sharding.cc\<close>); results stay within the servers of a table.
  \<^item> \<^verbatim>\<open>Chopper\<close>, \<^verbatim>\<open>Coordinator\<close>: a transaction and its coordinator, all modes and callbacks; the open calls
    and a log of events are part of the state. \<^verbatim>\<open>Coordinator_Run\<close>, \<^verbatim>\<open>Coordinator_Safety\<close>, \<^verbatim>\<open>Coordinator_Inv\<close>,
    \<^verbatim>\<open>Coordinator_Dep\<close> prove the invariant of all runs for every class of transactions that keeps the contract
    of the locale \<open>chopper_class\<close>.
  \<^item> \<^verbatim>\<open>Bench_Chopper\<close>, \<^verbatim>\<open>Tpcc_Chopper\<close>, \<^verbatim>\<open>Tpcc_Contract\<close>: the classes of TPC-A, the read/write and micro benchmarks
    and TPC-C with three ways of partitioning; all interpret the locale. \<^verbatim>\<open>Txn_Client\<close> composes them with the
    coordinator: commits are unanimous, reports follow decisions, and no callback runs on a deleted
    transaction.

  \<^bold>\<open>What is a parameter.\<close> Code of libraries outside the repository and orders the language leaves open:
  the \<^verbatim>\<open>DragonBall\<close> of \<^verbatim>\<open>rrr\<close> (\<open>en_fires\<close>, \<open>pe_fires\<close>, assumed to fire at the last trigger: \<open>counts_down\<close>), lock groups
  (their answers are steps, relied on to grant no conflicting locks: \<open>grantable\<close>), \<^verbatim>\<open>insert_into_map\<close> of \<^verbatim>\<open>base\<close> (\<open>keeps_first\<close>), the iteration order of unordered
  containers (\<open>visits_all\<close>), the product of a double and an integer, the answers of the servers to a client, and
  the stored procedures of the dependency mode.

  \<^bold>\<open>Not modelled.\<close> Marshalling to \<^verbatim>\<open>rrr::Marshal\<close> and the network (outside the repository); configuration files
  (boost property trees); random request generation and population of tables; timers, statistics, the
  recorder and main programs; third-party hash functions; \<^verbatim>\<open>Coordinator::batch_start\<close> with its packed
  arguments, which nothing calls; \<^verbatim>\<open>SnapshotTable\<close> and \<^verbatim>\<open>IndexedTable\<close>; what the
  stored procedures of the benchmarks do in the dependency mode.
\<close>

end
